(* ===== verification/Prelude.thy ===== *)
theory Prelude
  imports Main "HOL-Library.Word" "HOL-Library.Monad_Syntax"
begin

text \<open>
  Shared vocabulary of the development: the machine word types the C programs use, bounded
  reads and writes of arrays, and the small facts about lists, options and maps that several
  components need.  A C array is a list of fixed length; reading or writing it out of range is
  undefined behaviour in C and the value \<open>None\<close> here.
\<close>

unbundle bit_operations_syntax

named_theorems arr_simps \<open>reads and writes of bounded arrays\<close>
named_theorems unfold_c \<open>definitions of small C helpers, unfolded in the component proofs\<close>

type_synonym u8 = "8 word"
type_synonym u16 = "16 word"
type_synonym u32 = "32 word"
type_synonym u64 = "64 word"

section \<open>Bounded arrays\<close>

definition rd_at :: "'a list \<Rightarrow> nat \<Rightarrow> 'a option" where
  "rd_at xs i = (if i < length xs then Some (xs ! i) else None)"

definition wr_at :: "'a list \<Rightarrow> nat \<Rightarrow> 'a \<Rightarrow> 'a list option" where
  "wr_at xs i v = (if i < length xs then Some (xs[i := v]) else None)"

lemma rd_at_Some [arr_simps]: "rd_at xs i = Some v \<longleftrightarrow> i < length xs \<and> v = xs ! i"
  by (auto simp: rd_at_def)

lemma rd_at_None [arr_simps]: "rd_at xs i = None \<longleftrightarrow> length xs \<le> i"
  by (auto simp: rd_at_def)

lemma rd_at_in [simp]: "i < length xs \<Longrightarrow> rd_at xs i = Some (xs ! i)"
  by (simp add: rd_at_def)

lemma wr_at_Some [arr_simps]: "wr_at xs i v = Some ys \<longleftrightarrow> i < length xs \<and> ys = xs[i := v]"
  by (auto simp: wr_at_def)

lemma wr_at_None [arr_simps]: "wr_at xs i v = None \<longleftrightarrow> length xs \<le> i"
  by (auto simp: wr_at_def)

lemma wr_at_in [simp]: "i < length xs \<Longrightarrow> wr_at xs i v = Some (xs[i := v])"
  by (simp add: wr_at_def)

lemma rd_after_wr: "wr_at xs i v = Some ys \<Longrightarrow> rd_at ys j = (if j = i then Some v else rd_at xs j)"
  by (auto simp: wr_at_Some rd_at_def)

section \<open>Sizes in an int\<close>

text \<open>
  A size or a pointer difference that C code keeps in an \<open>int\<close>, or a count that it increments there.  When the number does not
  fit, the increment is undefined and the conversion gives another number: neither is followed further, and this is \<open>None\<close>.
\<close>

definition as_int :: "nat \<Rightarrow> nat option" where
  "as_int n = (if int n < 2 ^ 31 then Some n else None)"

lemma as_int_small [simp]: "n < 2 ^ 31 \<Longrightarrow> as_int n = Some n"
  by (simp add: as_int_def)

lemma as_int_Some: "as_int n = Some m \<longleftrightarrow> n < 2 ^ 31 \<and> m = n"
  by (auto simp: as_int_def)

section \<open>Lists\<close>

lemma drop_ConsD: "drop i xs = c # ys \<Longrightarrow> i < length xs \<and> xs ! i = c \<and> drop (Suc i) xs = ys"
proof -
  assume d: "drop i xs = c # ys"
  then have "i < length xs" by (metis drop_all leI list.distinct(1))
  then show ?thesis using d by (simp add: Cons_nth_drop_Suc[symmetric])
qed

lemma length_takeWhile_all: "length (takeWhile P xs) = length xs \<longleftrightarrow> (\<forall>x \<in> set xs. P x)"
proof (induction xs)
  case (Cons x xs)
  then show ?case using length_takeWhile_le[of P xs] by auto
qed simp

lemma length_takeWhile_first:
  "length (takeWhile P xs) = n \<and> n < length xs \<longleftrightarrow> n < length xs \<and> \<not> P (xs ! n) \<and> (\<forall>j < n. P (xs ! j))"
proof (induction xs arbitrary: n)
  case (Cons x xs)
  show ?case
  proof (cases n)
    case (Suc m)
    then show ?thesis using Cons[of m] by (auto simp: less_Suc_eq_0_disj)
  qed auto
qed simp

lemma nth_upd: "xs[i := v] ! j = (if i = j \<and> j < length xs then v else xs ! j)"
  by (cases "i = j"; cases "j < length xs") (auto simp: list_update_beyond)

text \<open>Strings with a separator between them.\<close>

fun join :: "u8 list \<Rightarrow> u8 list list \<Rightarrow> u8 list" where
  "join sep [] = []"
| "join sep [r] = r"
| "join sep (r # rs) = r @ sep @ join sep rs"

lemma join_Cons: "fs \<noteq> [] \<Longrightarrow> join ofs (f # fs) = f @ ofs @ join ofs fs"
  by (cases fs) auto

section \<open>Maps\<close>

lemma dom_upd_same [simp]: "m k = Some v \<Longrightarrow> dom (m(k \<mapsto> w)) = dom m"
  by auto

end
