(* ===== verification/Interfaces.thy ===== *)
theory Interfaces
  imports Prelude
begin

text \<open>
  The interfaces between components, as locales: the operations a client calls and the laws the
  provider promises.  Each locale is interpreted on the model's own definitions in the theory of
  the component that provides it.
\<close>

section \<open>A list that grows at its end\<close>

text \<open>
  What \<open>init_search_path\<close> of the shell needs of the list library: an empty list, insertion at the
  end while there is room, and that the list then holds the inserted items in order.
\<close>

locale growing_list =
  fixes nil :: 'p
    and insert :: "'p \<Rightarrow> 'd \<Rightarrow> 'h \<Rightarrow> ('p \<times> 'h) option"
    and holds :: "'h \<Rightarrow> 'p \<Rightarrow> 'd list \<Rightarrow> bool"
    and ready :: "'h \<Rightarrow> bool"
    and room :: "'h \<Rightarrow> nat"
  assumes nil_holds: "ready h \<Longrightarrow> holds h nil []"
    and insert_holds: "ready h \<Longrightarrow> holds h p ds \<Longrightarrow> 0 < room h \<Longrightarrow>
      \<exists>p' h'. insert p d h = Some (p', h') \<and> holds h' p' (ds @ [d]) \<and> ready h' \<and> Suc (room h') = room h"
begin

lemma inserts_hold:
  assumes "ready h" and "holds h p ds" and "length es \<le> room h"
  shows "\<exists>p' h'. foldl (\<lambda>r e. Option.bind r (\<lambda>(p, h). insert p e h)) (Some (p, h)) es = Some (p', h') \<and>
    holds h' p' (ds @ es) \<and> ready h' \<and> room h' + length es = room h"
  using assms
proof (induction es arbitrary: h p ds)
  case (Cons e es)
  have "0 < room h" using Cons.prems(3) by simp
  from insert_holds[OF Cons.prems(1,2) this, of e] obtain p1 h1
    where step: "insert p e h = Some (p1, h1)" "holds h1 p1 (ds @ [e])" "ready h1" "Suc (room h1) = room h"
    by blast
  have "length es \<le> room h1" using Cons.prems(3) step(4) by simp
  from Cons.IH[OF step(3,2) this] step show ?case by force
qed simp

lemma nil_inserts_hold:
  assumes "ready h" and "length es \<le> room h"
  shows "\<exists>p' h'. foldl (\<lambda>r e. Option.bind r (\<lambda>(p, h). insert p e h)) (Some (nil, h)) es = Some (p', h') \<and>
    holds h' p' es \<and> ready h'"
  using inserts_hold[OF assms(1) nil_holds[OF assms(1)] assms(2)] by auto

end

section \<open>A hash function of strings\<close>

text \<open>
  What the tables of \<open>array.c\<close> rely on: the hash function they were given returns a code that depends on the
  string alone, and the bucket is the code modulo the size of the table.
\<close>

locale string_hash =
  fixes hash :: "u8 list \<Rightarrow> nat \<Rightarrow> nat \<Rightarrow> (nat \<times> u64) option" and code :: "u8 list \<Rightarrow> u64"
  assumes hash_law: "0 < hsize \<Longrightarrow> hash s (length s) hsize = Some (unat (code s) mod hsize, code s)"
begin

lemma hash_bucket: "0 < hsize \<Longrightarrow> hash s (length s) hsize = Some (b, c) \<Longrightarrow> b < hsize \<and> b = unat c mod hsize"
  using hash_law by auto

end

end
