(* ===== verification/Circular_List.thy ===== *)
theory Circular_List
  imports Interfaces
begin

text \<open>
  The circular doubly linked list of \<open>lab1/list.c\<close>.  A \<open>list_t *\<close> is an address, \<open>0\<close> is
  \<open>NULL\<close>, and the heap maps the addresses of live cells to their contents.  \<open>malloc\<close> takes
  the next address of a pool (it returns \<open>NULL\<close> when the pool is empty) and \<open>free\<close> gives the
  address back to the pool.  Dereferencing an address that is not live, \<open>NULL\<close> included, is
  undefined behaviour: the operation is \<open>None\<close>.  A \<open>list_t **\<close> argument is passed by value
  and the new value of the pointer is returned.
\<close>

section \<open>The heap of list cells\<close>

type_synonym addr = nat

record 'a list_t =
  succ :: addr
  pred :: addr
  data :: 'a

record 'a heap =
  cells :: "addr \<rightharpoonup> 'a list_t"
  pool :: "addr list"

definition set_succ :: "addr \<Rightarrow> addr \<Rightarrow> 'a heap \<Rightarrow> 'a heap option" where
  "set_succ p v h = (case cells h p of None \<Rightarrow> None
     | Some c \<Rightarrow> Some (h\<lparr>cells := (cells h)(p \<mapsto> c\<lparr>succ := v\<rparr>)\<rparr>))"

definition set_pred :: "addr \<Rightarrow> addr \<Rightarrow> 'a heap \<Rightarrow> 'a heap option" where
  "set_pred p v h = (case cells h p of None \<Rightarrow> None
     | Some c \<Rightarrow> Some (h\<lparr>cells := (cells h)(p \<mapsto> c\<lparr>pred := v\<rparr>)\<rparr>))"

definition free_cell :: "addr \<Rightarrow> 'a heap \<Rightarrow> 'a heap option" where
  "free_cell p h = (case cells h p of None \<Rightarrow> None
     | Some c \<Rightarrow> Some (h\<lparr>cells := (cells h)(p := None), pool := pool h @ [p]\<rparr>))"

section \<open>The operations of list.c\<close>

text \<open>\<open>new_list\<close> does not test the result of \<open>malloc\<close>: with no memory left it writes through
  \<open>NULL\<close>.\<close>

definition new_list :: "'a \<Rightarrow> 'a heap \<Rightarrow> (addr \<times> 'a heap) option" where
  "new_list d h = (case pool h of [] \<Rightarrow> None
     | p # ps \<Rightarrow> Some (p, h\<lparr>cells := (cells h)(p \<mapsto> \<lparr>succ = p, pred = p, data = d\<rparr>), pool := ps\<rparr>))"

text \<open>The six pointer assignments that \<open>insert_last\<close> and \<open>append\<close> have in common.\<close>

definition append_c :: "addr \<Rightarrow> addr \<Rightarrow> 'a heap \<Rightarrow> (addr \<times> 'a heap) option" where
  "append_c list1 list2 h =
     (if list1 = 0 then Some (list2, h)
      else if list2 \<noteq> 0 then do {
        c1 \<leftarrow> cells h list1;
        h1 \<leftarrow> set_succ (pred c1) list2 h;
        c2 \<leftarrow> cells h1 list2;
        h2 \<leftarrow> set_succ (pred c2) list1 h1;
        c1' \<leftarrow> cells h2 list1;
        c2' \<leftarrow> cells h2 list2;
        h3 \<leftarrow> set_pred list1 (pred c2') h2;
        h4 \<leftarrow> set_pred list2 (pred c1') h3;
        Some (list1, h4) }
      else Some (list1, h))"

definition insert_last :: "addr \<Rightarrow> 'a \<Rightarrow> 'a heap \<Rightarrow> (addr \<times> 'a heap) option" where
  "insert_last list1 p h = do {
     (list2, h0) \<leftarrow> new_list p h;
     if list1 = 0 then Some (list2, h0)
     else if list2 \<noteq> 0 then do {
        c1 \<leftarrow> cells h0 list1;
        h1 \<leftarrow> set_succ (pred c1) list2 h0;
        c2 \<leftarrow> cells h1 list2;
        h2 \<leftarrow> set_succ (pred c2) list1 h1;
        c1' \<leftarrow> cells h2 list1;
        c2' \<leftarrow> cells h2 list2;
        h3 \<leftarrow> set_pred list1 (pred c2') h2;
        h4 \<leftarrow> set_pred list2 (pred c1') h3;
        Some (list1, h4) }
     else Some (list1, h0) }"

definition delete_list :: "addr \<Rightarrow> 'a heap \<Rightarrow> 'a heap option" where
  "delete_list list h = do {
     c \<leftarrow> cells h list;
     h1 \<leftarrow> set_succ (pred c) (succ c) h;
     c' \<leftarrow> cells h1 list;
     h2 \<leftarrow> set_pred (succ c') (pred c') h1;
     free_cell list h2 }"

definition insert_before :: "addr \<Rightarrow> 'a \<Rightarrow> 'a heap \<Rightarrow> (addr \<times> 'a heap) option" where
  "insert_before list d h = do {
     (p, h0) \<leftarrow> new_list d h;
     if list = 0 then Some (p, h0)
     else do { (p', h1) \<leftarrow> append_c p list h0; Some (list, h1) } }"

definition insert_after :: "addr \<Rightarrow> 'a \<Rightarrow> 'a heap \<Rightarrow> (addr \<times> 'a heap) option" where
  "insert_after list d h = do {
     (p, h0) \<leftarrow> new_list d h;
     if list = 0 then Some (p, h0)
     else do { c \<leftarrow> cells h0 list; (q', h1) \<leftarrow> append_c (succ c) p h0; Some (list, h1) } }"

text \<open>The do-while loop of \<open>length\<close>; it stops when it is back at the first cell.\<close>

partial_function (option) length_loop :: "'a heap \<Rightarrow> addr \<Rightarrow> addr \<Rightarrow> u32 \<Rightarrow> u32 option" where
  "length_loop h list p n = (case cells h p of None \<Rightarrow> None
     | Some c \<Rightarrow> if succ c \<noteq> list then length_loop h list (succ c) (n + 1) else Some (n + 1))"

definition length_list :: "addr \<Rightarrow> 'a heap \<Rightarrow> u32 option" where
  "length_list list h = (if list = 0 then Some 0 else length_loop h list list 0)"

text \<open>The result of \<open>remove_first\<close> is the data pointer, \<open>None\<close> for its \<open>NULL\<close>.\<close>

definition remove_first :: "addr \<Rightarrow> 'a heap \<Rightarrow> ('a option \<times> addr \<times> 'a heap) option" where
  "remove_first list h =
     (if list = 0 then Some (None, 0, h)
      else do {
        c \<leftarrow> cells h list;
        h1 \<leftarrow> delete_list list h;
        Some (Some (data c), (if list = succ c then 0 else succ c), h1) })"

partial_function (option) free_loop :: "addr \<Rightarrow> 'a heap \<Rightarrow> 'a heap option" where
  "free_loop list h = (case cells h list of None \<Rightarrow> None
     | Some c \<Rightarrow> if list \<noteq> succ c
                 then (case delete_list (succ c) h of None \<Rightarrow> None | Some h1 \<Rightarrow> free_loop list h1)
                 else Some h)"

definition free_list :: "addr \<Rightarrow> 'a heap \<Rightarrow> (addr \<times> 'a heap) option" where
  "free_list list h =
     (if list \<noteq> 0 then do { h1 \<leftarrow> free_loop list h; h2 \<leftarrow> delete_list list h1; Some (0, h2) }
      else Some (0, h))"


section \<open>Links, rings and representation\<close>

definition sc :: "'a heap \<Rightarrow> addr \<Rightarrow> addr" where
  "sc h a = succ (the (cells h a))"

definition pr :: "'a heap \<Rightarrow> addr \<Rightarrow> addr" where
  "pr h a = pred (the (cells h a))"

definition dat :: "'a heap \<Rightarrow> addr \<Rightarrow> 'a" where
  "dat h a = data (the (cells h a))"

text \<open>\<open>links s p xs\<close>: every cell of \<open>xs\<close> but the last points forward to its neighbour, which
  points back to it.\<close>

fun links :: "(addr \<Rightarrow> addr) \<Rightarrow> (addr \<Rightarrow> addr) \<Rightarrow> addr list \<Rightarrow> bool" where
  "links s p (a # b # xs) \<longleftrightarrow> s a = b \<and> p b = a \<and> links s p (b # xs)"
| "links s p [a] \<longleftrightarrow> True"
| "links s p [] \<longleftrightarrow> True"

lemma links_Cons: "links s p (a # xs) \<longleftrightarrow> (xs \<noteq> [] \<longrightarrow> s a = hd xs \<and> p (hd xs) = a) \<and> links s p xs"
  by (cases xs) auto

lemma links_append: "links s p (xs @ ys) \<longleftrightarrow> links s p xs \<and> links s p ys \<and>
    (xs \<noteq> [] \<and> ys \<noteq> [] \<longrightarrow> s (last xs) = hd ys \<and> p (hd ys) = last xs)"
  by (induction xs) (auto simp: links_Cons)

lemma links_cong:
  "(\<And>a. a \<in> set (butlast xs) \<Longrightarrow> s' a = s a) \<Longrightarrow> (\<And>a. a \<in> set (tl xs) \<Longrightarrow> p' a = p a) \<Longrightarrow>
   links s' p' xs = links s p xs"
  by (induction s p xs rule: links.induct) auto

text \<open>\<open>ring h xs\<close>: the addresses \<open>xs\<close> are live, distinct and linked in a circle both ways.\<close>

definition ring :: "'a heap \<Rightarrow> addr list \<Rightarrow> bool" where
  "ring h xs \<longleftrightarrow> xs \<noteq> [] \<and> distinct xs \<and> set xs \<subseteq> dom (cells h) \<and>
     links (sc h) (pr h) (xs @ [hd xs])"

text \<open>\<open>rep h l xs\<close>: the pointer \<open>l\<close> represents the list of cells \<open>xs\<close>.\<close>

definition rep :: "'a heap \<Rightarrow> addr \<Rightarrow> addr list \<Rightarrow> bool" where
  "rep h l xs \<longleftrightarrow> (if xs = [] then l = 0 else l = hd xs \<and> ring h xs)"

definition wf_heap :: "'a heap \<Rightarrow> bool" where
  "wf_heap h \<longleftrightarrow> cells h 0 = None \<and> 0 \<notin> set (pool h) \<and> distinct (pool h) \<and>
     (\<forall>a \<in> set (pool h). cells h a = None)"

lemma wf_heap_iff: "wf_heap h \<longleftrightarrow> 0 \<notin> dom (cells h) \<and> 0 \<notin> set (pool h) \<and> distinct (pool h) \<and>
    set (pool h) \<inter> dom (cells h) = {}"
  by (auto simp: wf_heap_def)

lemma wf_heap_freed:
  "wf_heap h \<Longrightarrow> a \<in> dom (cells h) \<Longrightarrow> dom (cells h') = dom (cells h) - {a} \<Longrightarrow>
   pool h' = pool h @ [a] \<Longrightarrow> wf_heap h'"
  by (auto simp: wf_heap_iff simp del: domIff)

lemma wf_heap_same:
  "wf_heap h \<Longrightarrow> dom (cells h') = dom (cells h) \<Longrightarrow> pool h' = pool h \<Longrightarrow> wf_heap h'"
  by (auto simp: wf_heap_iff)

abbreviation contents :: "'a heap \<Rightarrow> addr list \<Rightarrow> 'a list" where
  "contents h xs \<equiv> map (dat h) xs"

text \<open>Memory outside \<open>as\<close> is untouched.\<close>

definition frame :: "addr set \<Rightarrow> 'a heap \<Rightarrow> 'a heap \<Rightarrow> bool" where
  "frame as h h' \<longleftrightarrow> (\<forall>b. b \<notin> as \<longrightarrow> cells h' b = cells h b)"

lemma set_succ_eq: "p \<in> dom (cells h) \<Longrightarrow> \<exists>h'. set_succ p v h = Some h' \<and>
    sc h' = (sc h)(p := v) \<and> pr h' = pr h \<and> dat h' = dat h \<and> dom (cells h') = dom (cells h) \<and>
    pool h' = pool h \<and> frame {p} h h'"
  by (auto simp: set_succ_def sc_def pr_def dat_def frame_def fun_eq_iff split: option.splits)

lemma set_pred_eq: "p \<in> dom (cells h) \<Longrightarrow> \<exists>h'. set_pred p v h = Some h' \<and>
    sc h' = sc h \<and> pr h' = (pr h)(p := v) \<and> dat h' = dat h \<and> dom (cells h') = dom (cells h) \<and>
    pool h' = pool h \<and> frame {p} h h'"
  by (auto simp: set_pred_def sc_def pr_def dat_def frame_def fun_eq_iff split: option.splits)

lemma live_cell: "a \<in> dom (cells h) \<Longrightarrow>
    \<exists>c. cells h a = Some c \<and> succ c = sc h a \<and> pred c = pr h a \<and> data c = dat h a"
  by (auto simp: sc_def pr_def dat_def)

text \<open>The ends of a ring: the first cell's predecessor is the last cell, whose successor is the
  first.\<close>

lemma ring_ends:
  assumes "ring h xs"
  shows "pr h (hd xs) = last xs" "sc h (last xs) = hd xs" "hd xs \<in> dom (cells h)"
    "last xs \<in> dom (cells h)"
proof -
  show "pr h (hd xs) = last xs" "sc h (last xs) = hd xs"
    using assms by (auto simp: ring_def links_append)
  show "hd xs \<in> dom (cells h)" "last xs \<in> dom (cells h)"
    using assms unfolding ring_def by (meson hd_in_set last_in_set subsetD)+
qed

lemma ring_links: "ring h xs \<Longrightarrow> links (sc h) (pr h) xs"
  by (auto simp: ring_def links_append)

lemma ring_iff: "ring h xs \<longleftrightarrow> xs \<noteq> [] \<and> distinct xs \<and> set xs \<subseteq> dom (cells h) \<and>
    links (sc h) (pr h) xs \<and> sc h (last xs) = hd xs \<and> pr h (hd xs) = last xs"
  by (auto simp: ring_def links_append)

lemma in_set_tlD: "a \<in> set (tl xs) \<Longrightarrow> a \<in> set xs"
  by (cases xs) auto

lemma distinct_last_butlast: "distinct xs \<Longrightarrow> xs \<noteq> [] \<Longrightarrow> last xs \<notin> set (butlast xs)"
  by (induction xs) (auto dest: in_set_butlastD)

lemma distinct_hd_tl: "distinct xs \<Longrightarrow> xs \<noteq> [] \<Longrightarrow> hd xs \<notin> set (tl xs)"
  by (cases xs) auto

section \<open>append\<close>

lemma append_c_rings:
  assumes xs: "ring h xs" and ys: "ring h ys" and dis: "set xs \<inter> set ys = {}"
    and nz: "hd xs \<noteq> 0" "hd ys \<noteq> 0"
  shows "\<exists>h'. append_c (hd xs) (hd ys) h = Some (hd xs, h') \<and> ring h' (xs @ ys) \<and>
    dat h' = dat h \<and> dom (cells h') = dom (cells h) \<and> pool h' = pool h \<and>
    frame (set xs \<union> set ys) h h'"
proof -
  have ne: "xs \<noteq> []" "ys \<noteq> []" using xs ys by (auto simp: ring_def)
  note ends = ring_ends[OF xs] ring_ends[OF ys]
  have mem: "hd xs \<in> set xs" "last xs \<in> set xs" "hd ys \<in> set ys" "last ys \<in> set ys"
    using ne by auto
  obtain c1 where c1: "cells h (hd xs) = Some c1" "pred c1 = last xs"
    using live_cell[OF ends(3)] ends(1) by auto
  obtain h1 where h1: "set_succ (last xs) (hd ys) h = Some h1" "sc h1 = (sc h)(last xs := hd ys)"
    "pr h1 = pr h" "dat h1 = dat h" "dom (cells h1) = dom (cells h)" "pool h1 = pool h"
    "frame {last xs} h h1" using set_succ_eq[OF ends(4)] by blast
  obtain c2 where c2: "cells h1 (hd ys) = Some c2" "pred c2 = last ys"
    using live_cell[of "hd ys" h1] ends h1 by auto
  obtain h2 where h2: "set_succ (last ys) (hd xs) h1 = Some h2" "sc h2 = (sc h1)(last ys := hd xs)"
    "pr h2 = pr h1" "dat h2 = dat h1" "dom (cells h2) = dom (cells h1)" "pool h2 = pool h1"
    "frame {last ys} h1 h2" using set_succ_eq[of "last ys" h1] ends h1 by blast
  obtain d1 where d1: "cells h2 (hd xs) = Some d1" "pred d1 = last xs"
    using live_cell[of "hd xs" h2] ends h1 h2 by auto
  obtain d2 where d2: "cells h2 (hd ys) = Some d2" "pred d2 = last ys"
    using live_cell[of "hd ys" h2] ends h1 h2 by auto
  obtain h3 where h3: "set_pred (hd xs) (last ys) h2 = Some h3" "sc h3 = sc h2"
    "pr h3 = (pr h2)(hd xs := last ys)" "dat h3 = dat h2" "dom (cells h3) = dom (cells h2)"
    "pool h3 = pool h2" "frame {hd xs} h2 h3" using set_pred_eq[of "hd xs" h2] ends h1 h2 by blast
  obtain h4 where h4: "set_pred (hd ys) (last xs) h3 = Some h4" "sc h4 = sc h3"
    "pr h4 = (pr h3)(hd ys := last xs)" "dat h4 = dat h3" "dom (cells h4) = dom (cells h3)"
    "pool h4 = pool h3" "frame {hd ys} h3 h4"
    using set_pred_eq[of "hd ys" h3] ends h1 h2 h3 by blast
  have run: "append_c (hd xs) (hd ys) h = Some (hd xs, h4)"
    using nz c1 c2 d1 d2 h1(1) h2(1) h3(1) h4(1) by (simp add: append_c_def)
  have s4: "sc h4 = ((sc h)(last xs := hd ys))(last ys := hd xs)"
    and p4: "pr h4 = ((pr h)(hd xs := last ys))(hd ys := last xs)"
    using h1 h2 h3 h4 by auto
  have nots: "last ys \<notin> set xs" "last xs \<notin> set ys" "hd ys \<notin> set xs" "hd xs \<notin> set ys"
    using mem dis by auto
  have d: "distinct xs" "distinct ys" using xs ys by (auto simp: ring_def)
  have lx: "links (sc h4) (pr h4) xs"
    using ring_links[OF xs]
  proof (rule links_cong[THEN iffD2, rotated -1])
    show "sc h4 a = sc h a" if "a \<in> set (butlast xs)" for a
      using that nots in_set_butlastD[OF that] distinct_last_butlast[OF d(1) ne(1)] by (auto simp: s4)
    show "pr h4 a = pr h a" if "a \<in> set (tl xs)" for a
      using that nots in_set_tlD[OF that] distinct_hd_tl[OF d(1) ne(1)] by (auto simp: p4)
  qed
  have ly: "links (sc h4) (pr h4) ys"
    using ring_links[OF ys]
  proof (rule links_cong[THEN iffD2, rotated -1])
    show "sc h4 a = sc h a" if "a \<in> set (butlast ys)" for a
      using that nots in_set_butlastD[OF that] distinct_last_butlast[OF d(2) ne(2)] by (auto simp: s4)
    show "pr h4 a = pr h a" if "a \<in> set (tl ys)" for a
      using that nots in_set_tlD[OF that] distinct_hd_tl[OF d(2) ne(2)] by (auto simp: p4)
  qed
  have "ring h4 (xs @ ys)"
    using lx ly ne d dis xs ys mem nots h1(5) h2(5) h3(5) h4(5)
    by (auto simp: ring_iff links_append s4 p4)
  moreover have "frame (set xs \<union> set ys) h h4"
    using h1(7) h2(7) h3(7) h4(7) mem unfolding frame_def by (metis UnCI singletonD)
  ultimately show ?thesis using run h1 h2 h3 h4 by auto
qed

text \<open>A ring can be entered at any of its cells.\<close>

lemma ring_rotate: "ring h (xs @ ys) \<Longrightarrow> ring h (ys @ xs)"
  by (cases "xs = []"; cases "ys = []") (auto simp: ring_iff links_append)

section \<open>new_list and delete_list\<close>

lemma new_list_ring:
  assumes "wf_heap h" and "pool h = a # ps"
  shows "\<exists>h'. new_list d h = Some (a, h') \<and> ring h' [a] \<and> wf_heap h' \<and> a \<noteq> 0 \<and>
    a \<notin> dom (cells h) \<and> dat h' = (dat h)(a := d) \<and> sc h' = (sc h)(a := a) \<and>
    pr h' = (pr h)(a := a) \<and> dom (cells h') = insert a (dom (cells h)) \<and> pool h' = ps \<and>
    frame {a} h h'"
  using assms by (auto simp: new_list_def ring_iff wf_heap_def sc_def pr_def dat_def frame_def fun_eq_iff)

lemma ring_other_cell:
  assumes "ring h xs" and "a \<notin> set xs" and "frame {a} h h'"
  shows "ring h' xs" "contents h' xs = contents h xs"
proof -
  have eq: "cells h' b = cells h b" if "b \<in> set xs" for b
    using assms that by (auto simp: frame_def)
  have sp: "sc h' b = sc h b" "pr h' b = pr h b" if "b \<in> set xs" for b
    using eq[OF that] by (auto simp: sc_def pr_def)
  have "links (sc h') (pr h') xs = links (sc h) (pr h) xs"
    by (rule links_cong) (auto simp: sp dest: in_set_butlastD in_set_tlD)
  moreover have "set xs \<subseteq> dom (cells h')"
    using assms(1) eq by (auto simp: ring_iff)
  ultimately show "ring h' xs"
    using assms(1) by (auto simp: ring_iff sp)
  show "contents h' xs = contents h xs" by (auto simp: dat_def eq)
qed

lemma free_cell_eq: "p \<in> dom (cells h) \<Longrightarrow> \<exists>h'. free_cell p h = Some h' \<and>
    cells h' = (cells h)(p := None) \<and> pool h' = pool h @ [p]"
  by (auto simp: free_cell_def)

lemma delete_single:
  assumes "ring h [a]" and "wf_heap h"
  shows "\<exists>h'. delete_list a h = Some h' \<and> wf_heap h' \<and> dom (cells h') = dom (cells h) - {a} \<and>
    pool h' = pool h @ [a] \<and> frame {a} h h'"
proof -
  have "\<exists>h'. delete_list a h = Some h' \<and> dom (cells h') = dom (cells h) - {a} \<and>
      pool h' = pool h @ [a] \<and> frame {a} h h'"
    using assms(1) by (auto simp: ring_def delete_list_def set_succ_def set_pred_def free_cell_def
      sc_def pr_def frame_def split: option.splits)
  moreover have "a \<in> dom (cells h)" using assms(1) by (auto simp: ring_def)
  ultimately show ?thesis using wf_heap_freed[OF assms(2)] by blast
qed

lemma delete_head:
  assumes r: "ring h (a # zs)" and ne: "zs \<noteq> []" and wf: "wf_heap h"
  shows "\<exists>h'. delete_list a h = Some h' \<and> ring h' zs \<and> contents h' zs = contents h zs \<and>
    wf_heap h' \<and> dom (cells h') = dom (cells h) - {a} \<and> pool h' = pool h @ [a] \<and>
    frame (insert a (set zs)) h h'"
proof -
  have a: "a \<in> dom (cells h)" "a \<notin> set zs" and z: "set zs \<subseteq> dom (cells h)" "distinct zs"
    using r by (auto simp: ring_def)
  have mem: "hd zs \<in> set zs" "last zs \<in> set zs" using ne by auto
  obtain c where c: "cells h a = Some c" "pred c = last zs" "succ c = hd zs"
    using live_cell[OF a(1)] r ne by (auto simp: ring_iff links_Cons)
  obtain h1 where h1: "set_succ (last zs) (hd zs) h = Some h1" "sc h1 = (sc h)(last zs := hd zs)"
    "pr h1 = pr h" "dat h1 = dat h" "dom (cells h1) = dom (cells h)" "pool h1 = pool h"
    "frame {last zs} h h1" using set_succ_eq[of "last zs" h "hd zs"] mem z by blast
  have c1: "cells h1 a = Some c" using c(1) h1(7) a(2) mem by (metis frame_def singletonD)
  obtain h2 where h2: "set_pred (hd zs) (last zs) h1 = Some h2" "sc h2 = sc h1"
    "pr h2 = (pr h1)(hd zs := last zs)" "dat h2 = dat h1" "dom (cells h2) = dom (cells h1)"
    "pool h2 = pool h1" "frame {hd zs} h1 h2" using set_pred_eq[of "hd zs" h1 "last zs"] mem z h1 by blast
  obtain h3 where h3: "free_cell a h2 = Some h3" "cells h3 = (cells h2)(a := None)"
    "pool h3 = pool h2 @ [a]" using free_cell_eq[of a h2] a h1 h2 by auto
  have run: "delete_list a h = Some h3"
    using c c1 h1(1) h2(1) h3(1) by (simp add: delete_list_def)
  have fr: "frame {a} h2 h3" using h3(2) by (auto simp: frame_def)
  have "links (sc h2) (pr h2) zs"
    using r ne distinct_last_butlast[OF z(2) ne] distinct_hd_tl[OF z(2) ne]
    by (subst links_cong[of zs "sc h2" "sc h" "pr h2" "pr h"]) (auto simp: ring_iff links_Cons h1 h2)
  then have "ring h2 zs" using ne z h1 h2 by (auto simp: ring_iff)
  note ring3 = ring_other_cell[OF this a(2) fr]
  have "frame (insert a (set zs)) h h3"
    using h1(7) h2(7) fr mem unfolding frame_def by (metis insertCI singletonD)
  moreover have "dom (cells h3) = dom (cells h) - {a}" "pool h3 = pool h @ [a]"
    using h1(5,6) h2(5,6) h3(2,3) by simp_all
  moreover have "contents h2 zs = contents h zs" using h1(4) h2(4) by simp
  ultimately show ?thesis
    using run ring3 wf_heap_freed[OF wf a(1)] by auto
qed

section \<open>The operations on represented lists\<close>

lemma rep_ring: "rep h l xs \<Longrightarrow> l \<noteq> 0 \<Longrightarrow> ring h xs \<and> l = hd xs"
  by (auto simp: rep_def split: if_splits)

lemma ring_rep: "ring h xs \<Longrightarrow> rep h (hd xs) xs"
  by (auto simp: rep_def ring_def)

lemma rep_nonzero: "wf_heap h \<Longrightarrow> rep h l xs \<Longrightarrow> l = 0 \<longleftrightarrow> xs = []"
proof (cases "xs = []")
  case False
  assume wf: "wf_heap h" and "rep h l xs"
  then have "l = hd xs" "hd xs \<in> dom (cells h)" using False ring_ends(3) by (auto simp: rep_def)
  then show ?thesis using wf False by (metis domIff wf_heap_def)
qed (simp add: rep_def)

lemma rep_live: "rep h l xs \<Longrightarrow> set xs \<subseteq> dom (cells h)"
  by (auto simp: rep_def ring_def split: if_splits)

lemma insert_last_append:
  "insert_last l d h = (case new_list d h of None \<Rightarrow> None | Some (p, h0) \<Rightarrow> append_c l p h0)"
  by (auto simp: insert_last_def append_c_def split: Option.bind_splits option.splits)

text \<open>Inserting next to a live list: the new cell's ring and the old ring are joined.\<close>

lemma fresh_cell:
  assumes wf: "wf_heap h" and r: "rep h l xs" and p: "pool h = a # ps"
  obtains h0 where "new_list d h = Some (a, h0)" "ring h0 [a]" "wf_heap h0" "a \<noteq> 0" "a \<notin> set xs"
    "rep h0 l xs" "contents h0 xs = contents h xs" "dat h0 a = d"
    "dom (cells h0) = insert a (dom (cells h))" "pool h0 = ps" "frame {a} h h0"
proof -
  obtain h0 where h0: "new_list d h = Some (a, h0)" "ring h0 [a]" "wf_heap h0" "a \<noteq> 0"
    "a \<notin> dom (cells h)" "dat h0 = (dat h)(a := d)" "dom (cells h0) = insert a (dom (cells h))"
    "pool h0 = ps" "frame {a} h h0" using new_list_ring[OF wf p, of d] by blast
  have a: "a \<notin> set xs" using rep_live[OF r] h0(5) by blast
  have "rep h0 l xs"
    using r ring_other_cell(1)[OF _ a h0(9)] by (auto simp: rep_def split: if_splits)
  with h0 a show thesis by (intro that[of h0]) auto
qed

lemma insert_last_rep:
  assumes wf: "wf_heap h" and r: "rep h l xs" and p: "pool h = a # ps"
  shows "\<exists>l' h'. insert_last l d h = Some (l', h') \<and> rep h' l' (xs @ [a]) \<and> wf_heap h' \<and>
    contents h' (xs @ [a]) = contents h xs @ [d] \<and> pool h' = ps \<and> frame (insert a (set xs)) h h'"
proof -
  obtain h0 where h0: "new_list d h = Some (a, h0)" "ring h0 [a]" "wf_heap h0" "a \<noteq> 0" "a \<notin> set xs"
    "rep h0 l xs" "contents h0 xs = contents h xs" "dat h0 a = d" "pool h0 = ps" "frame {a} h h0"
    using fresh_cell[OF wf r p, of d] by blast
  show ?thesis
  proof (cases "xs = []")
    case True
    then show ?thesis using h0 by (simp add: insert_last_append append_c_def rep_def)
  next
    case False
    then have l: "ring h0 xs" "l = hd xs" "hd xs \<noteq> 0"
      using rep_nonzero[OF h0(3,6)] h0(6) by (auto simp: rep_def)
    obtain h' where "append_c (hd xs) a h0 = Some (hd xs, h')" "ring h' (xs @ [a])"
      "dat h' = dat h0" "dom (cells h') = dom (cells h0)" "pool h' = pool h0"
      "frame (insert a (set xs)) h0 h'"
      using append_c_rings[OF l(1) h0(2)] l(3) h0(4,5) by auto
    moreover have "wf_heap h'" using calculation h0(3) wf_heap_same by blast
    ultimately show ?thesis
      using h0 l False ring_rep[of h' "xs @ [a]"] unfolding frame_def
      by (auto simp: insert_last_append)
  qed
qed

lemma insert_before_rep:
  assumes wf: "wf_heap h" and r: "rep h l xs" and p: "pool h = a # ps"
  shows "\<exists>l' h'. insert_before l d h = Some (l', h') \<and> rep h' l' (xs @ [a]) \<and> wf_heap h' \<and>
    contents h' (xs @ [a]) = contents h xs @ [d] \<and> pool h' = ps \<and> frame (insert a (set xs)) h h' \<and>
    (l \<noteq> 0 \<longrightarrow> l' = l)"
proof -
  obtain h0 where h0: "new_list d h = Some (a, h0)" "ring h0 [a]" "wf_heap h0" "a \<noteq> 0" "a \<notin> set xs"
    "rep h0 l xs" "contents h0 xs = contents h xs" "dat h0 a = d" "pool h0 = ps" "frame {a} h h0"
    using fresh_cell[OF wf r p, of d] by blast
  show ?thesis
  proof (cases "xs = []")
    case True
    then show ?thesis using h0 by (simp add: insert_before_def rep_def)
  next
    case False
    then have l: "ring h0 xs" "l = hd xs" "hd xs \<noteq> 0"
      using rep_nonzero[OF h0(3,6)] h0(6) by (auto simp: rep_def)
    obtain h' where h': "append_c a (hd xs) h0 = Some (a, h')" "ring h' (a # xs)"
      "dat h' = dat h0" "dom (cells h') = dom (cells h0)" "pool h' = pool h0"
      "frame (insert a (set xs)) h0 h'"
      using append_c_rings[OF h0(2) l(1)] l(3) h0(4,5) by auto
    have "ring h' (xs @ [a])" using ring_rotate[of h' "[a]" xs] h'(2) by simp
    moreover have "wf_heap h'" using h'(4,5) h0(3) wf_heap_same by blast
    ultimately show ?thesis
      using h0 h' l False ring_rep[of h' "xs @ [a]"] unfolding frame_def
      by (auto simp: insert_before_def)
  qed
qed

lemma insert_after_rep:
  assumes wf: "wf_heap h" and r: "rep h l (x # xs)" and p: "pool h = a # ps"
  shows "\<exists>h'. insert_after l d h = Some (l, h') \<and> rep h' l (x # a # xs) \<and> wf_heap h' \<and>
    contents h' (x # a # xs) = dat h x # d # contents h xs \<and> pool h' = ps \<and>
    frame (insert a (set (x # xs))) h h'"
proof -
  obtain h0 where h0: "new_list d h = Some (a, h0)" "ring h0 [a]" "wf_heap h0" "a \<noteq> 0"
    "a \<notin> set (x # xs)" "rep h0 l (x # xs)" "contents h0 (x # xs) = contents h (x # xs)"
    "dat h0 a = d" "pool h0 = ps" "frame {a} h h0"
    using fresh_cell[OF wf r p, of d] by blast
  have l: "ring h0 (x # xs)" "l = x" "x \<noteq> 0"
    using rep_nonzero[OF h0(3,6)] h0(6) by (auto simp: rep_def)
  have q: "ring h0 (xs @ [x])" using ring_rotate[of h0 "[x]" xs] l(1) by simp
  have nz: "hd (xs @ [x]) \<noteq> 0"
    using rep_nonzero[OF h0(3) ring_rep[OF q]] by blast
  obtain c where c: "cells h0 x = Some c" "succ c = hd (xs @ [x])"
    using live_cell[of x h0] l(1) by (cases xs) (auto simp: ring_iff links_Cons)
  obtain h' where h': "append_c (hd (xs @ [x])) a h0 = Some (hd (xs @ [x]), h')"
    "ring h' ((xs @ [x]) @ [a])" "dat h' = dat h0" "dom (cells h') = dom (cells h0)"
    "pool h' = pool h0" "frame (insert a (set (x # xs))) h0 h'"
    using append_c_rings[OF q h0(2) _ nz] h0(4,5) by auto
  have "ring h' (x # a # xs)" using ring_rotate[of h' xs "[x, a]"] h'(2) by simp
  moreover have "wf_heap h'" using h'(4,5) h0(3) wf_heap_same by blast
  ultimately show ?thesis
    using h0 h' l c ring_rep[of h' "x # a # xs"] unfolding frame_def
    by (auto simp: insert_after_def)
qed

lemma insert_last_dom:
  assumes wf: "wf_heap h" and r: "rep h l xs" and p: "pool h = a # ps"
  shows "insert_last l d h = Some (l', h') \<Longrightarrow> dom (cells h') = insert a (dom (cells h))"
proof -
  assume i: "insert_last l d h = Some (l', h')"
  have upd: "set_succ p v g = Some g' \<Longrightarrow> dom (cells g') = dom (cells g)"
    "set_pred p v g = Some g' \<Longrightarrow> dom (cells g') = dom (cells g)" for p v and g g' :: "'a heap"
    by (auto simp: set_succ_def set_pred_def split: option.splits if_splits)
  obtain h0 where "new_list d h = Some (a, h0)" "dom (cells h0) = insert a (dom (cells h))"
    using fresh_cell[OF wf r p, of d] by metis
  then show ?thesis
    using i by (clarsimp simp: insert_last_append append_c_def bind_eq_Some_conv split: if_splits) (clarsimp dest!: upd)
qed

text \<open>Another list keeps its cells and contents.\<close>

lemma rep_frame:
  assumes "rep h m ys" and "frame as h h'" and "as \<inter> set ys = {}"
  shows "rep h' m ys" "contents h' ys = contents h ys"
proof -
  have eq: "cells h' b = cells h b" if "b \<in> set ys" for b
    using assms(2,3) that by (auto simp: frame_def)
  have sp: "sc h' b = sc h b" "pr h' b = pr h b" "dat h' b = dat h b" if "b \<in> set ys" for b
    using eq[OF that] by (auto simp: sc_def pr_def dat_def)
  have "links (sc h') (pr h') ys = links (sc h) (pr h) ys"
    by (rule links_cong) (auto simp: sp dest: in_set_butlastD in_set_tlD)
  moreover have "set ys \<subseteq> dom (cells h')" using rep_live[OF assms(1)] eq by auto
  ultimately show "rep h' m ys"
    using assms(1) by (auto simp: rep_def ring_iff sp)
  show "contents h' ys = contents h ys" using sp(3) by simp
qed

lemma remove_first_rep:
  assumes wf: "wf_heap h" and r: "rep h l (x # xs)"
  shows "\<exists>l' h'. remove_first l h = Some (Some (dat h x), l', h') \<and> rep h' l' xs \<and> wf_heap h' \<and>
    contents h' xs = contents h xs \<and> pool h' = pool h @ [x] \<and>
    dom (cells h') = dom (cells h) - {x} \<and> frame (set (x # xs)) h h'"
proof -
  have l: "ring h (x # xs)" "l = x" "l \<noteq> 0" using r rep_nonzero[OF wf r] by (auto simp: rep_def)
  obtain c where c: "cells h x = Some c" "succ c = hd (xs @ [x])" "data c = dat h x"
    using live_cell[of x h] l(1) by (cases xs) (auto simp: ring_iff links_Cons)
  show ?thesis
  proof (cases "xs = []")
    case True
    with delete_single[OF _ wf, of x] l c show ?thesis
      by (auto simp: remove_first_def rep_def)
  next
    case False
    obtain h' where h': "delete_list x h = Some h'" "ring h' xs" "contents h' xs = contents h xs"
      "wf_heap h'" "dom (cells h') = dom (cells h) - {x}" "pool h' = pool h @ [x]"
      "frame (insert x (set xs)) h h'"
      using delete_head[OF l(1) False wf] by blast
    have "x \<noteq> hd xs" using l(1) False by (cases xs) (auto simp: ring_iff)
    then show ?thesis
      using c False h' l ring_rep[OF h'(2)] by (auto simp: remove_first_def)
  qed
qed

lemma length_loop_ring:
  assumes "ring h (us @ vs)" and "vs \<noteq> []"
  shows "length_loop h (hd (us @ vs)) (hd vs) n = Some (n + of_nat (length vs))"
  using assms
proof (induction vs arbitrary: us n)
  case (Cons v vs)
  have v: "v \<in> dom (cells h)" using Cons.prems(1) by (auto simp: ring_iff)
  have nx: "sc h v = (if vs = [] then hd (us @ [v]) else hd vs)"
    using Cons.prems(1) by (auto simp: ring_iff links_append links_Cons)
  obtain c where c: "cells h v = Some c" "succ c = sc h v" using live_cell[OF v] by auto
  show ?case
  proof (cases "vs = []")
    case True
    then show ?thesis using c nx by (simp add: length_loop.simps)
  next
    case False
    have "hd (us @ v # vs) \<noteq> hd vs"
      using Cons.prems(1) False by (cases us; cases vs) (auto simp: ring_iff)
    then show ?thesis
      using c nx False Cons.IH[of "us @ [v]" "n + 1"] Cons.prems(1)
      by (simp add: length_loop.simps[of h _ v] add.assoc)
  qed
qed simp

lemma length_list_rep: "wf_heap h \<Longrightarrow> rep h l xs \<Longrightarrow> length_list l h = Some (of_nat (length xs))"
  using rep_nonzero[of h l xs] length_loop_ring[of h "[]" xs 0]
  by (auto simp: length_list_def rep_def split: if_splits)

lemma free_loop_ring:
  assumes "ring h (x # zs)" and "wf_heap h"
  shows "\<exists>h'. free_loop x h = Some h' \<and> ring h' [x] \<and> wf_heap h' \<and>
    dom (cells h') = dom (cells h) - set zs \<and> pool h' = pool h @ zs \<and> frame (set (x # zs)) h h'"
  using assms
proof (induction zs arbitrary: h)
  case Nil
  then obtain c where "cells h x = Some c" "succ c = x"
    using live_cell[of x h] by (auto simp: ring_iff)
  with Nil show ?case by (auto simp: free_loop.simps[of x h] frame_def)
next
  case (Cons y zs)
  have ne: "x \<noteq> y" using Cons.prems(1) by (auto simp: ring_iff)
  obtain c where c: "cells h x = Some c" "succ c = y"
    using live_cell[of x h] Cons.prems(1) by (auto simp: ring_iff links_Cons)
  have "ring h (y # (zs @ [x]))" using ring_rotate[of h "[x]" "y # zs"] Cons.prems(1) by simp
  then obtain h1 where h1: "delete_list y h = Some h1" "ring h1 (zs @ [x])" "wf_heap h1"
    "dom (cells h1) = dom (cells h) - {y}" "pool h1 = pool h @ [y]"
    "frame (insert y (set (zs @ [x]))) h h1"
    using delete_head[of h y "zs @ [x]"] Cons.prems(2) by blast
  have "ring h1 (x # zs)" using ring_rotate[OF h1(2)] by simp
  from Cons.IH[OF this h1(3)] obtain h' where h': "free_loop x h1 = Some h'" "ring h' [x]"
    "wf_heap h'" "dom (cells h') = dom (cells h1) - set zs" "pool h' = pool h1 @ zs"
    "frame (set (x # zs)) h1 h'" by blast
  have "free_loop x h = Some h'"
    using c ne h1(1) h'(1) by (simp add: free_loop.simps[of x h])
  moreover have "frame (set (x # y # zs)) h h'" using h1(6) h'(6) by (auto simp: frame_def)
  ultimately show ?case using h' h1(4,5) by auto
qed

lemma free_list_rep:
  assumes wf: "wf_heap h" and r: "rep h l xs"
  shows "\<exists>h'. free_list l h = Some (0, h') \<and> wf_heap h' \<and>
    dom (cells h') = dom (cells h) - set xs \<and> set (pool h') = set (pool h) \<union> set xs \<and>
    length (pool h') = length (pool h) + length xs \<and> frame (set xs) h h'"
proof (cases xs)
  case Nil
  with r wf show ?thesis by (auto simp: rep_def free_list_def frame_def)
next
  case (Cons x zs)
  then have l: "ring h (x # zs)" "l = x" "l \<noteq> 0" using r rep_nonzero[OF wf r] by (auto simp: rep_def)
  obtain h1 where h1: "free_loop x h = Some h1" "ring h1 [x]" "wf_heap h1"
    "dom (cells h1) = dom (cells h) - set zs" "pool h1 = pool h @ zs" "frame (set xs) h h1"
    using free_loop_ring[OF l(1) wf] Cons by blast
  obtain h2 where "delete_list x h1 = Some h2" "wf_heap h2" "dom (cells h2) = dom (cells h1) - {x}"
    "pool h2 = pool h1 @ [x]" "frame {x} h1 h2" using delete_single[OF h1(2,3)] by blast
  with h1 l Cons show ?thesis by (auto simp: free_list_def frame_def)
qed

section \<open>Provider of the growing list\<close>

definition list_holds :: "'a heap \<Rightarrow> addr \<Rightarrow> 'a list \<Rightarrow> bool" where
  "list_holds h l ds \<longleftrightarrow> wf_heap h \<and> (\<exists>xs. rep h l xs \<and> contents h xs = ds)"

interpretation list_c: growing_list 0 insert_last list_holds wf_heap "\<lambda>h. length (pool h)"
proof unfold_locales
  show "list_holds h 0 []" if "wf_heap h" for h :: "'a heap"
    using that by (auto simp: list_holds_def rep_def)
next
  fix h :: "'a heap" and p d and ds :: "'a list"
  assume "wf_heap h" "list_holds h p ds" "0 < length (pool h)"
  then obtain xs a ps where "rep h p xs" "contents h xs = ds" "pool h = a # ps"
    by (cases "pool h") (auto simp: list_holds_def)
  then show "\<exists>p' h'. insert_last p d h = Some (p', h') \<and> list_holds h' p' (ds @ [d]) \<and> wf_heap h' \<and>
      Suc (length (pool h')) = length (pool h)"
    using insert_last_rep[OF \<open>wf_heap h\<close>, of p xs a ps d] unfolding list_holds_def by fastforce
qed

section \<open>Any sequence of operations\<close>

datatype 'a list_op = InsLast 'a | InsBefore 'a | InsAfter 'a | RemFirst | FreeAll

text \<open>The operations of list.c, one after the other, with what \<open>remove_first\<close> returned.\<close>

fun op_c :: "'a list_op \<Rightarrow> addr \<Rightarrow> 'a heap \<Rightarrow> ('a option list \<times> addr \<times> 'a heap) option" where
  "op_c (InsLast d) l h = map_option (Pair []) (insert_last l d h)"
| "op_c (InsBefore d) l h = map_option (Pair []) (insert_before l d h)"
| "op_c (InsAfter d) l h = map_option (Pair []) (insert_after l d h)"
| "op_c RemFirst l h = map_option (\<lambda>(r, l', h'). ([r], l', h')) (remove_first l h)"
| "op_c FreeAll l h = map_option (Pair []) (free_list l h)"

fun ops_c :: "'a list_op list \<Rightarrow> addr \<Rightarrow> 'a heap \<Rightarrow> ('a option list \<times> addr \<times> 'a heap) option" where
  "ops_c [] l h = Some ([], l, h)"
| "ops_c (x # xs) l h = do {
     (o1, l1, h1) \<leftarrow> op_c x l h;
     (o2, l2, h2) \<leftarrow> ops_c xs l1 h1;
     Some (o1 @ o2, l2, h2) }"

text \<open>What they mean on lists.\<close>

fun op_spec :: "'a list_op \<Rightarrow> 'a list \<Rightarrow> 'a option list \<times> 'a list" where
  "op_spec (InsLast d) ds = ([], ds @ [d])"
| "op_spec (InsBefore d) ds = ([], ds @ [d])"
| "op_spec (InsAfter d) ds = ([], (case ds of [] \<Rightarrow> [d] | x # xs \<Rightarrow> x # d # xs))"
| "op_spec RemFirst ds = (case ds of [] \<Rightarrow> ([None], []) | x # xs \<Rightarrow> ([Some x], xs))"
| "op_spec FreeAll ds = ([], [])"

fun ops_spec :: "'a list_op list \<Rightarrow> 'a list \<Rightarrow> 'a option list \<times> 'a list" where
  "ops_spec [] ds = ([], ds)"
| "ops_spec (x # xs) ds = (let (o1, ds1) = op_spec x ds; (o2, ds2) = ops_spec xs ds1 in (o1 @ o2, ds2))"

fun needs :: "'a list_op \<Rightarrow> nat" where
  "needs (InsLast d) = 1" | "needs (InsBefore d) = 1" | "needs (InsAfter d) = 1" | "needs _ = 0"

definition mem_total :: "'a heap \<Rightarrow> addr list \<Rightarrow> nat" where
  "mem_total h xs = length (pool h) + length xs"

text \<open>One operation and its meaning agree, and no memory is lost: live cells of the list and
  free addresses stay the same in number.\<close>

definition op_agrees :: "'a list_op \<Rightarrow> addr \<Rightarrow> 'a heap \<Rightarrow> addr list \<Rightarrow> bool" where
  "op_agrees x l h xs \<longleftrightarrow> (\<exists>l' h' xs'. op_c x l h = Some (fst (op_spec x (contents h xs)), l', h') \<and>
    rep h' l' xs' \<and> wf_heap h' \<and> contents h' xs' = snd (op_spec x (contents h xs)) \<and>
    mem_total h' xs' = mem_total h xs \<and> length (pool h) \<le> length (pool h') + needs x)"

lemma op_agreesI:
  "op_c x l h = Some (fst (op_spec x (contents h xs)), l', h') \<Longrightarrow> rep h' l' xs' \<Longrightarrow> wf_heap h' \<Longrightarrow>
   contents h' xs' = snd (op_spec x (contents h xs)) \<Longrightarrow> mem_total h' xs' = mem_total h xs \<Longrightarrow>
   length (pool h) \<le> length (pool h') + needs x \<Longrightarrow> op_agrees x l h xs"
  unfolding op_agrees_def by blast

lemma remove_first_agrees:
  assumes wf: "wf_heap h" and r: "rep h l xs"
  shows "op_agrees RemFirst l h xs"
proof (cases xs)
  case Nil
  with r wf show ?thesis by (intro op_agreesI[of _ _ _ _ 0 h "[]"]) (auto simp: remove_first_def rep_def)
next
  case (Cons y ys)
  from remove_first_rep[OF wf r[unfolded Cons]] obtain l' h' where
    "remove_first l h = Some (Some (dat h y), l', h')" "rep h' l' ys" "wf_heap h'"
    "contents h' ys = contents h ys" "pool h' = pool h @ [y]" by blast
  then show ?thesis using Cons by (intro op_agreesI[of _ _ _ _ l' h' ys]) (auto simp: mem_total_def)
qed

lemma free_list_agrees:
  assumes wf: "wf_heap h" and r: "rep h l xs"
  shows "op_agrees FreeAll l h xs"
proof -
  from free_list_rep[OF wf r] obtain h' where "free_list l h = Some (0, h')" "wf_heap h'"
    "length (pool h') = length (pool h) + length xs" by blast
  then show ?thesis by (intro op_agreesI[of _ _ _ _ 0 h' "[]"]) (auto simp: mem_total_def rep_def)
qed

lemma insert_last_agrees:
  assumes wf: "wf_heap h" and r: "rep h l xs" and p: "pool h = a # ps"
  shows "op_agrees (InsLast d) l h xs"
proof -
  from insert_last_rep[OF wf r p, of d] obtain l' h' where "insert_last l d h = Some (l', h')"
    "rep h' l' (xs @ [a])" "wf_heap h'" "contents h' (xs @ [a]) = contents h xs @ [d]" "pool h' = ps"
    by blast
  then show ?thesis using p by (intro op_agreesI[of _ _ _ _ l' h' "xs @ [a]"]) (auto simp: mem_total_def)
qed

lemma insert_before_agrees:
  assumes wf: "wf_heap h" and r: "rep h l xs" and p: "pool h = a # ps"
  shows "op_agrees (InsBefore d) l h xs"
proof -
  from insert_before_rep[OF wf r p, of d] obtain l' h' where "insert_before l d h = Some (l', h')"
    "rep h' l' (xs @ [a])" "wf_heap h'" "contents h' (xs @ [a]) = contents h xs @ [d]" "pool h' = ps"
    by blast
  then show ?thesis using p by (intro op_agreesI[of _ _ _ _ l' h' "xs @ [a]"]) (auto simp: mem_total_def)
qed

lemma insert_after_agrees:
  assumes wf: "wf_heap h" and r: "rep h l xs" and p: "pool h = a # ps"
  shows "op_agrees (InsAfter d) l h xs"
proof (cases xs)
  case Nil
  from fresh_cell[OF wf r p, of d] obtain h0 where "new_list d h = Some (a, h0)" "ring h0 [a]"
    "wf_heap h0" "dat h0 a = d" "pool h0 = ps" by metis
  then show ?thesis using Nil r p
    by (intro op_agreesI[of _ _ _ _ a h0 "[a]"]) (auto simp: mem_total_def insert_after_def rep_def)
next
  case (Cons y ys)
  from insert_after_rep[OF wf r[unfolded Cons] p, of d] obtain h' where
    "insert_after l d h = Some (l, h')" "rep h' l (y # a # ys)" "wf_heap h'"
    "contents h' (y # a # ys) = dat h y # d # contents h ys" "pool h' = ps" by (elim exE conjE) (rule that)
  then show ?thesis using Cons p
    by (intro op_agreesI[of _ _ _ _ l h' "y # a # ys"]) (auto simp: mem_total_def)
qed

lemmas op_agree = remove_first_agrees free_list_agrees insert_last_agrees insert_before_agrees
  insert_after_agrees

lemma op_c_refines:
  assumes wf: "wf_heap h" and r: "rep h l xs" and m: "needs x \<le> length (pool h)"
  shows "op_agrees x l h xs"
  using m op_agree[OF wf r] by (cases x; cases "pool h") auto

lemma ops_c_refine:
  assumes "wf_heap h" and "rep h l xs" and "sum_list (map needs ops) \<le> length (pool h)"
  shows "\<exists>l' h' xs'. ops_c ops l h = Some (fst (ops_spec ops (contents h xs)), l', h') \<and> rep h' l' xs' \<and>
    wf_heap h' \<and> contents h' xs' = snd (ops_spec ops (contents h xs)) \<and> mem_total h' xs' = mem_total h xs"
  using assms
proof (induction ops arbitrary: l h xs)
  case (Cons x ops)
  have "needs x \<le> length (pool h)" using Cons.prems(3) by simp
  from op_c_refines[OF Cons.prems(1,2) this] obtain l1 h1 xs1
    where s: "op_c x l h = Some (fst (op_spec x (contents h xs)), l1, h1)" "rep h1 l1 xs1" "wf_heap h1"
      "contents h1 xs1 = snd (op_spec x (contents h xs))" "mem_total h1 xs1 = mem_total h xs"
      "length (pool h) \<le> length (pool h1) + needs x" unfolding op_agrees_def by blast
  have "sum_list (map needs ops) \<le> length (pool h1)" using Cons.prems(3) s(6) by simp
  from Cons.IH[OF s(3,2) this] obtain l2 h2 xs2 where
    "ops_c ops l1 h1 = Some (fst (ops_spec ops (contents h1 xs1)), l2, h2)" "rep h2 l2 xs2" "wf_heap h2"
    "contents h2 xs2 = snd (ops_spec ops (contents h1 xs1))" "mem_total h2 xs2 = mem_total h1 xs1" by blast
  then show ?case
    using s by (intro exI[of _ l2] exI[of _ h2] exI[of _ xs2]) (simp add: case_prod_beta Let_def)
qed auto

section \<open>Properties\<close>

text \<open>C1: Any sequence of calls of list.c, started on a well-formed heap with enough memory for its
  insertions, runs without undefined behaviour, returns what the same sequence returns on
  plain lists and leaves a ring that represents the resulting list.  Cells of the list and free
  addresses together stay the same in number: no cell is leaked and none is freed twice.\<close>

theorem list_c_refines_lists:
  assumes "wf_heap h" and "rep h l xs" and "sum_list (map needs ops) \<le> length (pool h)"
  shows "\<exists>l' h' xs'. ops_c ops l h = Some (fst (ops_spec ops (contents h xs)), l', h') \<and> rep h' l' xs' \<and>
    wf_heap h' \<and> contents h' xs' = snd (ops_spec ops (contents h xs)) \<and> mem_total h' xs' = mem_total h xs"
  by (rule ops_c_refine[OF assms])

theorem list_c_refines_lists_witness:
  "\<exists>l' h' xs'. ops_c [InsLast (7::nat), InsBefore 8, InsAfter 9, RemFirst, RemFirst] 0 \<lparr>cells = Map.empty, pool = [3, 1, 2]\<rparr> =
      Some ([Some 7, Some 9], l', h') \<and> rep h' l' xs' \<and> contents h' xs' = [8]"
proof -
  let ?h = "\<lparr>cells = Map.empty, pool = [3, 1, 2]\<rparr> :: nat heap"
  have "wf_heap ?h" "rep ?h 0 []" by (auto simp: wf_heap_def rep_def)
  from list_c_refines_lists[OF this, of "[InsLast 7, InsBefore 8, InsAfter 9, RemFirst, RemFirst]"]
  obtain l' h' xs' where "ops_c [InsLast 7, InsBefore 8, InsAfter 9, RemFirst, RemFirst] 0 ?h = Some ([Some 7, Some 9], l', h')"
    "rep h' l' xs'" "contents h' xs' = [8]" by (auto simp del: ops_c.simps)
  then show ?thesis by (intro exI[of _ l'] exI[of _ h'] exI[of _ xs'] conjI)
qed

text \<open>\<open>insert_last\<close> and \<open>free_list\<close> touch only their own list: a second list that shares no cell
  with it is represented by the same cells with the same contents afterwards.\<close>

theorem list_c_frame:
  assumes "wf_heap h" and "rep h l xs" and "rep h m ys" and "set xs \<inter> set ys = {}" and "pool h = a # ps"
  shows "\<exists>l' h1 h2. insert_last l d h = Some (l', h1) \<and> rep h1 m ys \<and> contents h1 ys = contents h ys \<and>
    free_list l' h1 = Some (0, h2) \<and> rep h2 m ys \<and> contents h2 ys = contents h ys \<and>
    dom (cells h2) = dom (cells h) - set xs"
proof -
  obtain l' h1 where h1: "insert_last l d h = Some (l', h1)" "rep h1 l' (xs @ [a])" "wf_heap h1"
    "frame (insert a (set xs)) h h1" "dom (cells h1) = insert a (dom (cells h))"
    using insert_last_rep[OF assms(1,2,5), of d] insert_last_dom[OF assms(1,2,5), of d] by fastforce
  have a: "a \<notin> dom (cells h)" "a \<notin> set ys"
    using assms(1,5) rep_live[OF assms(3)] by (auto simp: wf_heap_def)
  note k1 = rep_frame[OF assms(3) h1(4)]
  obtain h2 where h2: "free_list l' h1 = Some (0, h2)" "dom (cells h2) = dom (cells h1) - set (xs @ [a])"
    "frame (set (xs @ [a])) h1 h2"
    using free_list_rep[OF h1(3,2)] by blast
  have m1: "rep h1 m ys" "contents h1 ys = contents h ys" using k1 assms(4) a(2) by auto
  note k2 = rep_frame[OF m1(1) h2(3)]
  show ?thesis
    using h1 h2 m1 k2 assms(4) a by (intro exI[of _ l'] exI[of _ h1] exI[of _ h2]) auto
qed

theorem list_c_frame_witness:
  "\<exists>l' h1 h2. insert_last 3 (6::nat) \<lparr>cells = [3 \<mapsto> \<lparr>succ = 3, pred = 3, data = 4\<rparr>, 5 \<mapsto> \<lparr>succ = 5, pred = 5, data = 9\<rparr>],
      pool = [1]\<rparr> = Some (l', h1) \<and> free_list l' h1 = Some (0, h2) \<and> rep h2 5 [5] \<and> contents h2 [5] = [9]"
  using list_c_frame[of "\<lparr>cells = [3 \<mapsto> \<lparr>succ = 3, pred = 3, data = 4\<rparr>, 5 \<mapsto> \<lparr>succ = 5, pred = 5, data = 9\<rparr>], pool = [1]\<rparr>"
      3 "[3]" 5 "[5]" 1 "[]" "6::nat"]
  by (auto simp: wf_heap_def rep_def ring_iff sc_def pr_def dat_def)

end
