(* ===== verification/Shell_Lexer.thy ===== *)
theory Shell_Lexer
  imports Prelude
begin

text \<open>
  The line reader and the tokenizer of the shell, \<open>fetch_line\<close>, \<open>end_of_token\<close> and \<open>gettoken\<close>
  of \<open>lab1/sh.c\<close>, over the static buffers they share.  The two pointers \<open>input_char\<close> and \<open>token\<close>
  are indices into \<open>input_buf\<close> and \<open>token_buf\<close>; an access outside a buffer is \<open>None\<close>.
\<close>

section \<open>The static buffers\<close>

definition MAXBUF :: nat where
  "MAXBUF = 512"

datatype token_type_t = AMPERSAND | NEWLINE | NORMAL | INPUT | OUTPUT | PIPE | SEMICOLON

record lexer =
  input_buf :: "char list"
  token_buf :: "char list"
  input_char :: nat
  token :: nat

abbreviation newline :: char where "newline \<equiv> CHR 0x0A"
abbreviation tab :: char where "tab \<equiv> CHR 0x09"
abbreviation nul :: char where "nul \<equiv> CHR 0x00"

section \<open>fetch_line\<close>

text \<open>
  \<open>getchar\<close> takes the next character of the standard input, a list that ends in end of file.
  What \<open>fetch_line\<close> returns is the number of characters of the line, or \<open>None\<close> for \<open>EOF\<close>; with
  the number of lines that were rejected as too long, the remaining input and the buffer.
\<close>

fun fetch_loop :: "char list \<Rightarrow> char list \<Rightarrow> nat \<Rightarrow> nat \<Rightarrow> nat option \<times> nat \<times> char list \<times> char list" where
  "fetch_loop [] buf count too_long = (None, too_long, [], buf)"
| "fetch_loop (c # stdin) buf count too_long =
     (let (buf, count) = (if count < MAXBUF then (buf[count := c], count + 1) else (buf, count))
      in if c = newline \<and> count < MAXBUF then (Some count, too_long, stdin, buf[count := nul])
         else if c = newline then fetch_loop stdin buf 0 (too_long + 1)
         else fetch_loop stdin buf count too_long)"

definition fetch_line :: "char list \<Rightarrow> 'a lexer_scheme \<Rightarrow> nat option \<times> nat \<times> char list \<times> 'a lexer_scheme" where
  "fetch_line stdin s =
     (let (r, too_long, rest, buf) = fetch_loop stdin (input_buf s) 0 0
      in (r, too_long, rest, s\<lparr>input_buf := buf, input_char := 0, token := 0\<rparr>))"

section \<open>end_of_token and gettoken\<close>

definition end_of_token :: "char \<Rightarrow> bool" where
  "end_of_token c \<longleftrightarrow> c = nul \<or> c = CHR '' '' \<or> c = tab \<or> c = newline \<or> c = CHR '';'' \<or> c = CHR ''|'' \<or>
     c = CHR ''&'' \<or> c = CHR ''<'' \<or> c = CHR ''>''"

function skip_blanks :: "char list \<Rightarrow> nat \<Rightarrow> nat option" where
  "skip_blanks buf i =
     (if i < length buf then
        (if buf ! i = CHR '' '' \<or> buf ! i = tab then skip_blanks buf (i + 1) else Some i)
      else None)"
  by pat_completeness auto
termination
  by (relation "measure (\<lambda>(buf, i). length buf - i)") auto

declare skip_blanks.simps [simp del]

function copy_token :: "char list \<Rightarrow> nat \<Rightarrow> char list \<Rightarrow> nat \<Rightarrow> (nat \<times> char list \<times> nat) option" where
  "copy_token buf i tb t =
     (if i < length buf then
        (if end_of_token (buf ! i) then Some (i, tb, t)
         else if t < length tb then copy_token buf (i + 1) (tb[t := buf ! i]) (t + 1)
         else None)
      else None)"
  by pat_completeness auto
termination
  by (relation "measure (\<lambda>(buf, i, tb, t). length buf - i)") auto

declare copy_token.simps [simp del]

text \<open>The switch of \<open>gettoken\<close> on the first character of the token.\<close>

definition one_char_token :: "char \<Rightarrow> token_type_t option" where
  "one_char_token c =
     (if c = newline then Some NEWLINE
      else if c = CHR ''<'' then Some INPUT
      else if c = CHR ''>'' then Some OUTPUT
      else if c = CHR ''&'' then Some AMPERSAND
      else if c = CHR ''|'' then Some PIPE
      else None)"

definition gettoken :: "'a lexer_scheme \<Rightarrow> (token_type_t \<times> nat \<times> 'a lexer_scheme) option" where
  "gettoken s = do {
     i \<leftarrow> skip_blanks (input_buf s) (input_char s);
     c \<leftarrow> rd_at (input_buf s) i;
     tb \<leftarrow> wr_at (token_buf s) (token s) c;
     (type, i', tb', t') \<leftarrow> (case one_char_token c of
         Some type \<Rightarrow> Some (type, i + 1, tb, token s + 1)
       | None \<Rightarrow> do { (i', tb', t') \<leftarrow> copy_token (input_buf s) (i + 1) tb (token s + 1);
                      Some (NORMAL, i', tb', t') });
     tb'' \<leftarrow> wr_at tb' t' nul;
     Some (type, token s, s\<lparr>input_char := i', token_buf := tb'', token := t' + 1\<rparr>) }"

text \<open>The string a pointer into \<open>token_buf\<close> points to.\<close>

definition cstr :: "char list \<Rightarrow> nat \<Rightarrow> string" where
  "cstr buf p = takeWhile (\<lambda>c. c \<noteq> nul) (drop p buf)"

section \<open>The line that fetch_line leaves in the buffer\<close>

text \<open>
  \<open>sized s\<close>: the buffers have their declared sizes.  \<open>ahead s u\<close>: from \<open>input_char\<close> on the input
  buffer holds \<open>u\<close> and then the terminating null character.
\<close>

definition sized :: "'a lexer_scheme \<Rightarrow> bool" where
  "sized s \<longleftrightarrow> length (input_buf s) = MAXBUF \<and> length (token_buf s) = 2 * MAXBUF"

definition ahead :: "'a lexer_scheme \<Rightarrow> string \<Rightarrow> bool" where
  "ahead s u \<longleftrightarrow> (\<exists>junk. drop (input_char s) (input_buf s) = u @ nul # junk)"

text \<open>The buffer budget that keeps \<open>token_buf\<close> from overflowing: a token of \<open>k\<close> characters takes
  \<open>k + 1\<close> places and has consumed at least \<open>k \<ge> 1\<close> characters of the input.\<close>

definition budget :: "'a lexer_scheme \<Rightarrow> bool" where
  "budget s \<longleftrightarrow> token s \<le> 2 * input_char s"

lemma fetch_loop_length:
  "fetch_loop stdin buf count n = (r, n', rest, buf') \<Longrightarrow> length buf' = length buf"
  by (induction stdin buf count n rule: fetch_loop.induct) (auto simp: Let_def split: if_splits)

text \<open>Reading a line whose end is still ahead: \<open>w\<close> is what remains of it.\<close>

lemma fetch_loop_fits:
  assumes "newline \<notin> set w" and "count + length w + 1 < MAXBUF" and "length buf = MAXBUF"
  shows "fetch_loop (w @ newline # rest) buf count n =
    (Some (count + length w + 1), n, rest, take count buf @ w @ [newline, nul] @ drop (count + length w + 2) buf)"
  using assms
proof (induction w arbitrary: buf count)
  case Nil
  have "buf[count := newline, Suc count := nul] = take count buf @ [newline, nul] @ drop (count + 2) buf"
    using Nil by (intro nth_equalityI)
      (auto simp: nth_append nth_list_update MAXBUF_def numeral_2_eq_2 Suc_diff_Suc)
  then show ?case using Nil by (simp add: Let_def)
next
  case (Cons c w)
  have "take (Suc count) (buf[count := c]) = take count buf @ [c]"
    using Cons.prems by (simp add: take_Suc_conv_app_nth)
  then show ?case using Cons.IH[of "Suc count" "buf[count := c]"] Cons.prems by (auto simp: Let_def)
qed

text \<open>A line that does not fit is skipped to its end.\<close>

lemma fetch_loop_too_long:
  assumes "newline \<notin> set w" and "MAXBUF \<le> count + length w + 1" and "count \<le> MAXBUF"
  shows "\<exists>buf'. length buf' = length buf \<and>
    fetch_loop (w @ newline # rest) buf count n = fetch_loop rest buf' 0 (n + 1)"
  using assms
proof (induction w arbitrary: buf count)
  case Nil
  then show ?case by (auto simp: Let_def MAXBUF_def intro: exI[of _ buf] exI[of _ "buf[count := newline]"])
next
  case (Cons c w)
  show ?case
  proof (cases "count < MAXBUF")
    case True
    then show ?thesis using Cons.IH[of "Suc count" "buf[count := c]"] Cons.prems by (auto simp: Let_def)
  next
    case False
    then show ?thesis using Cons.IH[of count buf] Cons.prems by (auto simp: Let_def)
  qed
qed

lemma fetch_line_skips:
  assumes "\<And>l. l \<in> set longs \<Longrightarrow> newline \<notin> set l \<and> MAXBUF \<le> length l + 1"
    and "newline \<notin> set w" and "length w + 1 < MAXBUF" and "length buf = MAXBUF"
  shows "\<exists>junk. fetch_loop (concat (map (\<lambda>l. l @ [newline]) longs) @ w @ newline # rest) buf 0 n =
    (Some (length w + 1), n + length longs, rest, w @ [newline, nul] @ junk)"
  using assms
proof (induction longs arbitrary: buf n)
  case Nil
  then show ?case using fetch_loop_fits[of w 0 buf rest n] by auto
next
  case (Cons l longs)
  let ?tl = "concat (map (\<lambda>l. l @ [newline]) longs) @ w @ newline # rest"
  obtain buf' where "length buf' = length buf"
    "fetch_loop (l @ newline # ?tl) buf 0 n = fetch_loop ?tl buf' 0 (n + 1)"
    using fetch_loop_too_long[of l 0 buf ?tl n] Cons.prems(1)[of l] by auto
  then show ?case using Cons.IH[of buf' "n + 1"] Cons.prems by auto
qed

section \<open>gettoken against a lexer on strings\<close>

definition blank :: "char \<Rightarrow> bool" where
  "blank c \<longleftrightarrow> c = CHR '' '' \<or> c = tab"

text \<open>The next token of a string: its type, its text and the rest of the string.\<close>

definition lex1 :: "string \<Rightarrow> (token_type_t \<times> string \<times> string) option" where
  "lex1 u = (case dropWhile blank u of [] \<Rightarrow> None
     | c # r \<Rightarrow> (case one_char_token c of Some type \<Rightarrow> Some (type, [c], r)
        | None \<Rightarrow> Some (NORMAL, c # takeWhile (\<lambda>c. \<not> end_of_token c) r, dropWhile (\<lambda>c. \<not> end_of_token c) r)))"

lemma skip_blanks_drop:
  "drop i buf = u @ rest \<Longrightarrow> dropWhile blank u \<noteq> [] \<Longrightarrow>
   skip_blanks buf i = Some (i + length (takeWhile blank u))"
proof (induction u arbitrary: i)
  case (Cons c u)
  from drop_ConsD[of i buf c "u @ rest"] Cons.prems(1)
  have "i < length buf" "buf ! i = c" "drop (Suc i) buf = u @ rest" by auto
  then show ?case using Cons.IH[of "Suc i"] Cons.prems(2)
    by (cases "blank c") (simp_all add: skip_blanks.simps[of buf i] blank_def)
qed simp

lemma copy_token_drop:
  "drop i buf = a @ e # rest \<Longrightarrow> (\<forall>c \<in> set a. \<not> end_of_token c) \<Longrightarrow> end_of_token e \<Longrightarrow>
   t + length a \<le> length tb \<Longrightarrow>
   copy_token buf i tb t = Some (i + length a, take t tb @ a @ drop (t + length a) tb, t + length a)"
proof (induction a arbitrary: i tb t)
  case Nil
  have "i < length buf" "buf ! i = e" using drop_ConsD[of i buf e rest] Nil.prems(1) by auto
  then show ?case using Nil by (simp add: copy_token.simps[of buf i])
next
  case (Cons c a)
  from drop_ConsD[of i buf c "a @ e # rest"] Cons.prems(1)
  have "i < length buf" and c: "buf ! i = c" and "drop (Suc i) buf = a @ e # rest" by auto
  moreover have "take (Suc t) (tb[t := c]) = take t tb @ [c]"
    using Cons.prems(4) by (simp add: take_Suc_conv_app_nth)
  ultimately show ?case
    using Cons.IH[of "Suc i" "Suc t" "tb[t := c]"] Cons.prems c
    by (simp add: copy_token.simps[of buf i])
qed

lemma end_of_token_chars:
  "end_of_token newline" "end_of_token nul" "blank c \<Longrightarrow> end_of_token c"
  "one_char_token c \<noteq> None \<Longrightarrow> end_of_token c"
  by (auto simp: end_of_token_def blank_def one_char_token_def split: if_splits)

lemma cstr_at:
  "p = length pre \<Longrightarrow> nul \<notin> set w \<Longrightarrow> cstr (pre @ w @ nul # post) p = w"
  by (subgoal_tac "\<forall>x \<in> set w. x \<noteq> nul") (auto simp: cstr_def takeWhile_append2 takeWhile_tail)

text \<open>One call of \<open>gettoken\<close> on a line that still holds its newline.\<close>

lemma gettoken_lex1:
  assumes sz: "sized s" and bud: "budget s" and ah: "ahead s (w @ [newline])"
    and w: "newline \<notin> set w" "nul \<notin> set w"
  shows "\<exists>type t u s'. gettoken s = Some (type, token s, s') \<and> lex1 (w @ [newline]) = Some (type, t, u) \<and>
    cstr (token_buf s') (token s) = t \<and> ahead s' u \<and> sized s' \<and> budget s' \<and>
    input_char s < input_char s' \<and> token s' = token s + length t + 1 \<and>
    take (token s) (token_buf s') = take (token s) (token_buf s) \<and> input_buf s' = input_buf s \<and>
    lexer.more s' = lexer.more s"
proof -
  obtain junk where dr: "drop (input_char s) (input_buf s) = (w @ [newline]) @ nul # junk"
    using ah by (auto simp: ahead_def)
  have room: "input_char s + length w + 2 \<le> MAXBUF"
    using arg_cong[OF dr, of length] sz by (simp add: sized_def)
  define b where "b = takeWhile blank (w @ [newline])"
  have nb: "dropWhile blank (w @ [newline]) \<noteq> []" by (simp add: blank_def)
  then obtain c r where cr: "dropWhile blank (w @ [newline]) = c # r" by (cases "dropWhile blank (w @ [newline])") auto
  have split: "w @ [newline] = b @ c # r" unfolding b_def using cr by (metis takeWhile_dropWhile_id)
  define i where "i = input_char s + length b"
  have skip: "skip_blanks (input_buf s) (input_char s) = Some i"
    using skip_blanks_drop[OF dr nb] by (simp add: i_def b_def)
  have dri: "drop i (input_buf s) = c # r @ nul # junk"
    using arg_cong[OF dr, of "drop (length b)"] split by (simp add: i_def add.commute)
  note ci = drop_ConsD[OF dri]
  have len: "length b + length r = length w" using arg_cong[OF split, of length] by simp
  have "nul \<notin> set (w @ [newline])" using w by simp
  then have nulr: "nul \<notin> set (c # r)" unfolding split by simp
  show ?thesis
  proof (cases "one_char_token c")
    case (Some type)
    define s' where "s' = s\<lparr>input_char := i + 1, token_buf := (token_buf s)[token s := c, token s + 1 := nul], token := token s + 2\<rparr>"
    have tok: "token s + 1 < length (token_buf s)"
      using bud room sz by (simp add: budget_def sized_def)
    have "gettoken s = Some (type, token s, s')"
      using skip ci Some tok by (simp add: gettoken_def s'_def)
    moreover have "token_buf s' = take (token s) (token_buf s) @ [c] @ nul # drop (token s + 2) (token_buf s)"
      using tok by (simp add: s'_def upd_conv_take_nth_drop take_Suc_conv_app_nth)
    then have "cstr (token_buf s') (token s) = [c]" "take (token s) (token_buf s') = take (token s) (token_buf s)"
      using cstr_at[of "token s" "take (token s) (token_buf s)" "[c]"] tok nulr by auto
    moreover have "ahead s' r" using ci by (auto simp: ahead_def s'_def)
    ultimately show ?thesis
      using cr Some sz bud by (auto simp: lex1_def s'_def sized_def budget_def i_def)
  next
    case None
    define a where "a = takeWhile (\<lambda>c. \<not> end_of_token c) r"
    define u where "u = dropWhile (\<lambda>c. \<not> end_of_token c) r"
    have au: "r = a @ u" by (simp add: a_def u_def)
    have "u @ nul # junk = hd (u @ [nul]) # tl (u @ nul # junk)" by (cases u) auto
    then have dra: "drop (i + 1) (input_buf s) = a @ hd (u @ [nul]) # tl (u @ nul # junk)"
      using ci au by simp
    have e: "end_of_token (hd (u @ [nul]))"
    proof (cases "u = []")
      case False
      then show ?thesis using hd_dropWhile[of "\<lambda>c. \<not> end_of_token c" r] unfolding u_def by simp
    qed (simp add: end_of_token_chars)
    have la: "length a \<le> length r" using au by simp
    have tok: "token s + 1 + length a < length (token_buf s)"
      using bud room sz len la by (simp add: budget_def sized_def)
    let ?tb = "take (token s + 1) ((token_buf s)[token s := c]) @ a @ drop (token s + 1 + length a) ((token_buf s)[token s := c])"
    have cp: "copy_token (input_buf s) (i + 1) ((token_buf s)[token s := c]) (token s + 1) =
        Some (i + 1 + length a, ?tb, token s + 1 + length a)"
      using tok by (intro copy_token_drop[OF dra _ e]) (auto simp: a_def dest: set_takeWhileD)
    define s' where "s' = s\<lparr>input_char := i + 1 + length a, token_buf := ?tb[token s + 1 + length a := nul], token := token s + length a + 2\<rparr>"
    have "gettoken s = Some (NORMAL, token s, s')"
      using skip ci None tok cp by (simp add: gettoken_def s'_def)
    moreover have "token_buf s' = take (token s) (token_buf s) @ (c # a) @ nul # drop (token s + length a + 2) (token_buf s)"
    proof -
      have "drop (token s + 1 + length a) (token_buf s) =
          token_buf s ! (token s + 1 + length a) # drop (token s + length a + 2) (token_buf s)"
        using Cons_nth_drop_Suc[of "token s + 1 + length a" "token_buf s"] tok by simp
      then show ?thesis
        using tok by (simp add: s'_def take_Suc_conv_app_nth list_update_append)
    qed
    then have "cstr (token_buf s') (token s) = c # a" "take (token s) (token_buf s') = take (token s) (token_buf s)"
      "length (token_buf s') = length (token_buf s)"
      using cstr_at[of "token s" "take (token s) (token_buf s)" "c # a"] tok nulr au by auto
    moreover have "drop (i + 1 + length a) (input_buf s) = u @ nul # junk"
      using arg_cong[OF conjunct2[OF conjunct2[OF ci]], of "drop (length a)"] au by (simp add: add.commute)
    then have "ahead s' u" by (auto simp: ahead_def s'_def)
    ultimately show ?thesis
      using cr None sz bud by (auto simp: lex1_def s'_def sized_def budget_def i_def a_def u_def)
  qed
qed

section \<open>A whole line\<close>

lemma lex1_shorter: "lex1 u = Some (type, t, r) \<Longrightarrow> length r < length u"
proof -
  assume l: "lex1 u = Some (type, t, r)"
  have "length (dropWhile blank u) \<le> length u" by (rule length_dropWhile_le)
  moreover have "length r < length (dropWhile blank u)"
    using l length_dropWhile_le[of "\<lambda>c. \<not> end_of_token c" "tl (dropWhile blank u)"]
    by (auto simp: lex1_def split: list.splits option.splits)
  ultimately show ?thesis by simp
qed

function lex_line :: "string \<Rightarrow> (token_type_t \<times> string) list" where
  "lex_line u = (case lex1 u of None \<Rightarrow> []
     | Some (type, t, r) \<Rightarrow> (type, t) # (if type = NEWLINE then [] else lex_line r))"
  by pat_completeness auto
termination
  by (relation "measure length") (auto dest: lex1_shorter)

declare lex_line.simps [simp del]

text \<open>What is left after a token is again a line with its newline, until the newline itself.\<close>

lemma lex1_rest:
  assumes "lex1 (w @ [newline]) = Some (type, t, r)" and w: "newline \<notin> set w"
  shows "if type = NEWLINE then r = []
    else \<exists>w'. r = w' @ [newline] \<and> set w' \<subseteq> set w \<and> length w' < length w"
proof -
  obtain c v where cv: "dropWhile blank (w @ [newline]) = c # v"
    by (cases "dropWhile blank (w @ [newline])") (auto simp: blank_def)
  have split: "w @ [newline] = takeWhile blank (w @ [newline]) @ c # v"
    using cv by (metis takeWhile_dropWhile_id)
  define b where "b = takeWhile blank (w @ [newline])"
  note split = split[folded b_def]
  show ?thesis
  proof (cases "c = newline")
    case True
    have "v = []"
    proof (rule ccontr)
      assume "v \<noteq> []"
      then have "w = b @ newline # butlast v" using arg_cong[OF split, of butlast] True by (simp add: butlast_append)
      then show False using w by simp
    qed
    then show ?thesis using assms(1) cv True by (auto simp: lex1_def one_char_token_def)
  next
    case False
    then have "v \<noteq> []" using arg_cong[OF split, of last] by auto
    then obtain v' where v': "v = v' @ [newline]"
      using arg_cong[OF split, of last] by (metis append_butlast_last_id last_ConsR last_appendR last_snoc list.distinct(1))
    have w': "w = b @ c # v'" using arg_cong[OF split, of butlast] v' by (simp add: butlast_append)
    show ?thesis
    proof (cases "one_char_token c")
      case (Some ty)
      then show ?thesis using assms(1) cv v' w' False by (auto simp: lex1_def one_char_token_def split: if_splits)
    next
      case None
      have "dropWhile (\<lambda>c. \<not> end_of_token c) v = dropWhile (\<lambda>c. \<not> end_of_token c) v' @ [newline]"
        using v' by (metis dropWhile_append3 end_of_token_chars(1) dropWhile_append dropWhile_eq_Nil_conv append_Nil dropWhile.simps(2))
      moreover have "set (dropWhile (\<lambda>c. \<not> end_of_token c) v') \<subseteq> set v'"
        by (auto dest: set_dropWhileD)
      moreover have "length (dropWhile (\<lambda>c. \<not> end_of_token c) v') \<le> length v'"
        by (rule length_dropWhile_le)
      ultimately show ?thesis using assms(1) cv w' None
        by (auto simp: lex1_def intro!: exI[of _ "dropWhile (\<lambda>c. \<not> end_of_token c) v'"])
    qed
  qed
qed

text \<open>Strings in \<open>token_buf\<close> that end before \<open>n\<close> do not change when later places are written.\<close>

lemma takeWhile_same_prefix:
  "take m xs = take m ys \<Longrightarrow> length (takeWhile P xs) < m \<Longrightarrow> takeWhile P ys = takeWhile P xs"
proof (induction xs arbitrary: ys m)
  case Nil
  then show ?case by simp
next
  case (Cons x xs)
  then obtain k where m: "m = Suc k" by (cases m) auto
  then obtain ys' where ys: "ys = x # ys'" "take k xs = take k ys'"
    using Cons.prems(1) by (cases ys) auto
  show ?case using Cons.IH[of k ys'] Cons.prems(2) m ys by (cases "P x") simp_all
qed

lemma cstr_stable:
  assumes "p + length (cstr tb p) < n" and "take n tb' = take n tb"
  shows "cstr tb' p = cstr tb p"
proof -
  have "take (n - p) (drop p tb) = take (n - p) (drop p tb')"
    using arg_cong[OF assms(2), of "drop p"] by (simp add: drop_take)
  then show ?thesis
    using assms(1) unfolding cstr_def by (intro takeWhile_same_prefix[of "n - p"]) auto
qed

end
