(* ===== verification/Shell.thy ===== *)
theory Shell
  imports Shell_Lexer Circular_List
begin

text \<open>
  Command execution in the shell of \<open>lab1/sh.c\<close>: \<open>init_search_path\<close>, \<open>run_program\<close> with its
  two built-in commands and its search through the directories of \<open>PATH\<close>, \<open>parse_line\<close> and
  the loop of \<open>main\<close>.  The list of directories is the list of the theory \<open>Circular_List\<close>.  The
  operating system is a record of what its calls answer; what the shell asks it to do is a trace
  of events.
\<close>

section \<open>The operating system and the state of the shell\<close>

text \<open>
  What the calls answer: \<open>access\<close> with \<open>F_OK\<close>, whether \<open>execv\<close> succeeds, whether the two
  kinds of \<open>open\<close> succeed, where \<open>chdir\<close> leads from a directory (\<open>None\<close> when it fails), the
  value of \<open>HOME\<close>, and whether \<open>fork\<close> succeeds.
\<close>

record os =
  exists_file :: "string \<Rightarrow> bool"
  exec_ok :: "string \<Rightarrow> bool"
  can_read :: "string \<Rightarrow> bool"
  can_write :: "string \<Rightarrow> bool"
  chdir_to :: "string \<Rightarrow> string \<Rightarrow> string option"
  home :: "string option"
  fork_ok :: bool

text \<open>
  A fork with what becomes of the child (the program it executes with its arguments, or \<open>None\<close>
  when \<open>execv\<close> fails and the child returns into \<open>parse_line\<close>), its standard input and output,
  and whether the parent waits for it; a failed fork, with whether it is reported; an error
  message.
\<close>

datatype event =
    Forked "(string \<times> string list) option" int int bool
  | Fork_failed bool
  | Message string string

record world =
  path_dir_list :: addr
  path_heap :: "string heap"
  input_fd :: int
  output_fd :: int
  old_dir :: "string option"
  cwd :: string
  fds :: "nat list"
  trace :: "event list"

definition log_event :: "event \<Rightarrow> world \<Rightarrow> world" where
  "log_event e w = w\<lparr>trace := trace w @ [e]\<rparr>"

text \<open>The lowest descriptor that is not in use, which \<open>open\<close> and \<open>pipe\<close> return.\<close>

definition low_fd :: "nat list \<Rightarrow> nat" where
  "low_fd ds = hd (filter (\<lambda>n. n \<notin> set ds) [0..<Suc (length ds)])"

definition MAX_ARG :: nat where
  "MAX_ARG = 100"

section \<open>run_program\<close>

text \<open>
  The search loop of the child.  \<open>buf\<close> holds the last candidate (\<open>None\<close> while it is
  uninitialised); \<open>snprintf\<close> cuts it at 4095 characters.
\<close>

definition candidate :: "string \<Rightarrow> string \<Rightarrow> string" where
  "candidate dir prog = take 4095 (dir @ ''/'' @ prog)"

fun search :: "os \<Rightarrow> string heap \<Rightarrow> nat \<Rightarrow> addr \<Rightarrow> string \<Rightarrow> string option \<Rightarrow> (bool \<times> string option) option" where
  "search E h 0 list prog buf = Some (False, buf)"
| "search E h (Suc n) list prog buf = do {
     c \<leftarrow> cells h list;
     if exists_file E (candidate (data c) prog) then Some (True, Some (candidate (data c) prog))
     else search E h n (succ c) prog (Some (candidate (data c) prog)) }"

text \<open>\<open>execv\<close> reads the buffer, so it must have been written by then.\<close>

definition run_child :: "os \<Rightarrow> world \<Rightarrow> string list \<Rightarrow> ((string \<times> string list) option) option" where
  "run_child E w argv = do {
     list_len \<leftarrow> length_list (path_dir_list w) (path_heap w);
     (cmd, buf) \<leftarrow> search E (path_heap w) (unat list_len) (path_dir_list w) (hd argv) None;
     path \<leftarrow> buf;
     Some (if exec_ok E path then Some (path, argv) else None) }"

text \<open>\<open>dup2\<close> of a descriptor that is not open fails, and the child keeps the old one.\<close>

definition redirected :: "int \<Rightarrow> int \<Rightarrow> int" where
  "redirected fd std = (if fd \<noteq> std \<and> 0 \<le> fd then fd else std)"

definition getcwd :: "string \<Rightarrow> string option" where
  "getcwd d = (if length d < MAXBUF then Some d else None)"

definition chdir :: "os \<Rightarrow> string \<Rightarrow> world \<Rightarrow> world" where
  "chdir E d w = (case chdir_to E (cwd w) d of None \<Rightarrow> w | Some d' \<Rightarrow> w\<lparr>cwd := d'\<rparr>)"

text \<open>
  The built-in \<open>cd\<close>.  With an argument that starts with a minus sign it goes to the directory
  copied from \<open>old_dir\<close>, which is uninitialised memory when \<open>old_dir\<close> is \<open>NULL\<close>.
\<close>

definition builtin_cd :: "os \<Rightarrow> string list \<Rightarrow> world \<Rightarrow> world option" where
  "builtin_cd E argv w =
     (case argv of
        [_] \<Rightarrow> (case home E of None \<Rightarrow> Some w | Some d \<Rightarrow> Some (chdir E d w))
      | _ # arg # _ \<Rightarrow>
          (let old_dir_tmp = old_dir w;
               w1 = w\<lparr>old_dir := getcwd (cwd w)\<rparr>
           in if take 1 arg = ''-'' then (case old_dir_tmp of None \<Rightarrow> None | Some d \<Rightarrow> Some (chdir E d w1))
              else Some (chdir E arg w1))
      | [] \<Rightarrow> None)"

datatype outcome = Continues world | Exits world

definition run_program :: "os \<Rightarrow> string list \<Rightarrow> bool \<Rightarrow> bool \<Rightarrow> world \<Rightarrow> outcome option" where
  "run_program E argv foreground doing_pipe w =
     (if hd argv = ''exit'' then Some (Exits w)
      else if hd argv = ''cd'' then map_option Continues (builtin_cd E argv w)
      else if fork_ok E then do {
        child \<leftarrow> run_child E w argv;
        Some (Continues (log_event (Forked child (redirected (input_fd w) 0) (redirected (output_fd w) 1)
          (foreground \<and> \<not> doing_pipe)) w)) }
      else if foreground \<and> \<not> doing_pipe then Some (Continues (log_event (Fork_failed False) w))
      else Some (Exits (log_event (Fork_failed True) w)))"

section \<open>parse_line\<close>

definition open_input :: "os \<Rightarrow> string \<Rightarrow> world \<Rightarrow> world" where
  "open_input E f w =
     (if can_read E f then w\<lparr>input_fd := int (low_fd (fds w)), fds := low_fd (fds w) # fds w\<rparr>
      else log_event (Message ''cannot read from '' f) (w\<lparr>input_fd := -1\<rparr>))"

definition open_output :: "os \<Rightarrow> string \<Rightarrow> world \<Rightarrow> world" where
  "open_output E f w =
     (if can_write E f then w\<lparr>output_fd := int (low_fd (fds w)), fds := low_fd (fds w) # fds w\<rparr>
      else log_event (Message ''cannot write to '' f) (w\<lparr>output_fd := -1\<rparr>))"

text \<open>The state after a command of the line: parse on, or return from \<open>parse_line\<close>.\<close>

datatype progress = More world | Stop outcome

text \<open>The cases \<open>PIPE\<close>, \<open>AMPERSAND\<close>, \<open>NEWLINE\<close> and \<open>SEMICOLON\<close> of the switch, which fall through
  into one another.  \<open>args\<close> are the strings of \<open>argv[0]\<close> to \<open>argv[argc - 1]\<close>.\<close>

definition end_command :: "os \<Rightarrow> token_type_t \<Rightarrow> string list \<Rightarrow> world \<Rightarrow> progress option" where
  "end_command E type args w0 =
     (let doing_pipe = (type = PIPE);
          rfd = low_fd (fds w0);
          wfd = low_fd (rfd # fds w0);
          w1 = (if doing_pipe then w0\<lparr>fds := wfd # rfd # fds w0, output_fd := int wfd\<rparr> else w0);
          foreground = (type \<noteq> PIPE \<and> type \<noteq> AMPERSAND)
      in if args = [] then Some (Stop (Continues w1))
         else do {
           r \<leftarrow> run_program E args foreground doing_pipe w1;
           case r of
             Exits w2 \<Rightarrow> Some (Stop (Exits w2))
           | Continues w2 \<Rightarrow>
               (let w3 = (if doing_pipe then w2\<lparr>input_fd := int rfd, fds := removeAll wfd (fds w2)\<rparr>
                          else w2\<lparr>input_fd := 0\<rparr>);
                    w4 = w3\<lparr>output_fd := 1\<rparr>
                in Some (if type = NEWLINE then Stop (Continues w4) else More w4)) })"

text \<open>
  The loop of \<open>parse_line\<close>.  \<open>argv\<close> is the array of \<open>MAX_ARG + 1\<close> pointers into \<open>token_buf\<close>;
  \<open>gettoken\<close> stores into \<open>argv[argc]\<close>.
\<close>

definition arg_strings :: "char list \<Rightarrow> nat list \<Rightarrow> nat \<Rightarrow> string list" where
  "arg_strings tb argv argc = map (cstr tb) (take argc argv)"

partial_function (option) parse_loop :: "os \<Rightarrow> nat list \<Rightarrow> nat \<Rightarrow> lexer \<Rightarrow> world \<Rightarrow> (outcome \<times> lexer) option" where
  "parse_loop E argv argc lx w =
     Option.bind (gettoken lx) (\<lambda>(type, p, lx1).
     Option.bind (wr_at argv argc p) (\<lambda>argv1.
       if type = NORMAL then parse_loop E argv1 (argc + 1) lx1 w
       else if type = INPUT \<or> type = OUTPUT then
         Option.bind (gettoken lx1) (\<lambda>(type2, p2, lx2).
         Option.bind (wr_at argv1 argc p2) (\<lambda>argv2.
           if type2 \<noteq> NORMAL then
             Some (Continues (log_event (Message ''expected file name: but found '' (cstr (token_buf lx2) p2)) w), lx2)
           else parse_loop E argv2 argc lx2
             ((if type = INPUT then open_input else open_output) E (cstr (token_buf lx2) p2) w)))
       else
         Option.bind (end_command E type (arg_strings (token_buf lx1) argv1 argc) w) (\<lambda>r.
           case r of Stop out \<Rightarrow> Some (out, lx1) | More w1 \<Rightarrow> parse_loop E argv1 0 lx1 w1)))"

definition parse_line :: "os \<Rightarrow> nat list \<Rightarrow> lexer \<Rightarrow> world \<Rightarrow> (outcome \<times> lexer) option" where
  "parse_line E argv lx w = parse_loop E argv 0 lx (w\<lparr>input_fd := 0, output_fd := 1\<rparr>)"

section \<open>init_search_path\<close>

text \<open>
  The loop that cuts the copy of \<open>PATH\<close> at its colons and appends every piece to the list.
  \<open>strlen\<close> and \<open>strcpy\<close> read \<open>path\<close> before it is compared with \<open>NULL\<close>.
\<close>

function path_loop :: "string \<Rightarrow> addr \<Rightarrow> string heap \<Rightarrow> (addr \<times> string heap) option" where
  "path_loop dir_start list h =
     (let dir = takeWhile (\<lambda>c. c \<noteq> CHR '':'') dir_start;
          s = dropWhile (\<lambda>c. c \<noteq> CHR '':'') dir_start
      in case insert_last list dir h of None \<Rightarrow> None
         | Some (list', h') \<Rightarrow> if s = [] then Some (list', h') else path_loop (tl s) list' h')"
  by pat_completeness auto
termination
proof (relation "measure (\<lambda>(d, l, h). length d)", goal_cases)
  case (2 d l h dir s)
  have "length s \<le> length d" using 2 by (simp add: length_dropWhile_le)
  moreover have "length (tl s) < length s" using 2 by simp
  ultimately show ?case by (simp del: length_tl)
qed simp

declare path_loop.simps [simp del]

definition init_search_path :: "string option \<Rightarrow> string heap \<Rightarrow> (addr \<times> string heap) option" where
  "init_search_path path h =
     (case path of
        None \<Rightarrow> None
      | Some p \<Rightarrow> if p = [] then new_list [] h else path_loop p 0 h)"

section \<open>main\<close>

text \<open>The loop of \<open>main\<close> over the standard input, until the end of file or \<open>exit\<close>.\<close>

partial_function (option) shell_loop :: "os \<Rightarrow> nat list \<Rightarrow> char list \<Rightarrow> lexer \<Rightarrow> world \<Rightarrow> world option" where
  "shell_loop E argv stdin lx w =
     (case fetch_line stdin lx of
        (None, too_long, rest, lx1) \<Rightarrow> Some w
      | (Some n, too_long, rest, lx1) \<Rightarrow>
          (case parse_line E argv lx1 w of
             None \<Rightarrow> None
           | Some (Exits w', lx2) \<Rightarrow> Some w'
           | Some (Continues w', lx2) \<Rightarrow> shell_loop E argv rest lx2 w'))"

definition shell_main :: "os \<Rightarrow> string option \<Rightarrow> nat list \<Rightarrow> char list \<Rightarrow> lexer \<Rightarrow> world \<Rightarrow> world option" where
  "shell_main E path argv stdin lx w =
     (case init_search_path path (path_heap w) of
        None \<Rightarrow> None
      | Some (l, h) \<Rightarrow> shell_loop E argv stdin lx (w\<lparr>path_dir_list := l, path_heap := h\<rparr>))"

section \<open>The directories of PATH\<close>

function split_colon :: "string \<Rightarrow> string list" where
  "split_colon d = takeWhile (\<lambda>c. c \<noteq> CHR '':'') d #
     (case dropWhile (\<lambda>c. c \<noteq> CHR '':'') d of [] \<Rightarrow> [] | _ # r \<Rightarrow> split_colon r)"
  by pat_completeness auto
termination
proof (relation "measure length", goal_cases)
  case (2 d c r)
  then show ?case using length_dropWhile_le[of "\<lambda>c. c \<noteq> CHR '':''" d] by simp
qed simp

declare split_colon.simps [simp del]

fun join_colon :: "string list \<Rightarrow> string" where
  "join_colon [] = []"
| "join_colon [d] = d"
| "join_colon (d # ds) = d @ '':'' @ join_colon ds"

lemma split_colon_nonempty: "split_colon d \<noteq> []"
  by (subst split_colon.simps) simp

lemma dropWhile_hd_fails: "dropWhile P xs = y # ys \<Longrightarrow> \<not> P y"
  using hd_dropWhile[of P xs] by simp

lemma split_colon_cases:
  obtains (one) "CHR '':'' \<notin> set d" "split_colon d = [d]"
    "takeWhile (\<lambda>c. c \<noteq> CHR '':'') d = d" "dropWhile (\<lambda>c. c \<noteq> CHR '':'') d = []"
  | (more) a r where "d = a @ CHR '':'' # r" "CHR '':'' \<notin> set a" "split_colon d = a # split_colon r"
    "takeWhile (\<lambda>c. c \<noteq> CHR '':'') d = a" "dropWhile (\<lambda>c. c \<noteq> CHR '':'') d = CHR '':'' # r"
proof (cases "dropWhile (\<lambda>c. c \<noteq> CHR '':'') d")
  case Nil
  then have "\<forall>c \<in> set d. c \<noteq> CHR '':''" by simp
  then have "takeWhile (\<lambda>c. c \<noteq> CHR '':'') d = d" by (simp add: takeWhile_eq_all_conv)
  with Nil show thesis by (intro one) (auto simp: split_colon.simps[of d] simp del: dropWhile_eq_Nil_conv)
next
  case (Cons c r)
  have c: "c = CHR '':''" using dropWhile_hd_fails[OF Cons] by simp
  have "d = takeWhile (\<lambda>c. c \<noteq> CHR '':'') d @ c # r" using Cons by (metis takeWhile_dropWhile_id)
  then show thesis using Cons c by (intro more) (auto simp: split_colon.simps[of d] dest: set_takeWhileD)
qed

lemma join_split: "join_colon (split_colon d) = d"
proof (induction "length d" arbitrary: d rule: less_induct)
  case less
  show ?case
  proof (cases d rule: split_colon_cases)
    case (more a r)
    obtain e es where "split_colon r = e # es" by (cases "split_colon r") (auto simp: split_colon_nonempty)
    then show ?thesis using less[of r] more by simp
  qed simp
qed

lemma split_no_colon: "e \<in> set (split_colon d) \<Longrightarrow> CHR '':'' \<notin> set e"
proof (induction "length d" arbitrary: d rule: less_induct)
  case less
  then show ?case by (cases d rule: split_colon_cases) fastforce+
qed

lemma length_split_colon: "length (split_colon d) = Suc (count_list d (CHR '':''))"
proof (induction "length d" arbitrary: d rule: less_induct)
  case less
  then show ?case by (cases d rule: split_colon_cases) (auto simp: count_list_0_iff)
qed

lemma foldl_bind_None: "foldl (\<lambda>r e. Option.bind r (f e)) None es = None"
  by (induction es) auto

lemma path_loop_inserts:
  "path_loop d l h = foldl (\<lambda>r e. Option.bind r (\<lambda>(p, h). insert_last p e h)) (Some (l, h)) (split_colon d)"
proof (induction "length d" arbitrary: d l h rule: less_induct)
  case less
  show ?case
  proof (cases d rule: split_colon_cases)
    case one
    show ?thesis
      by (cases "insert_last l d h")
        (simp_all add: path_loop.simps[of d] one(2-4) split: prod.splits del: dropWhile_eq_Nil_conv)
  next
    case (more a r)
    have IH: "path_loop r l' h' =
        foldl (\<lambda>r e. Option.bind r (\<lambda>(p, h). insert_last p e h)) (Some (l', h')) (split_colon r)" for l' h'
      using less[of r] more(1) by simp
    show ?thesis
      by (cases "insert_last l a h")
        (simp_all add: path_loop.simps[of d] more(3-5) IH foldl_bind_None split: prod.splits)
  qed
qed

lemma init_search_path_pieces:
  assumes "wf_heap h" and "count_list p (CHR '':'') < length (pool h)"
  shows "\<exists>l h'. init_search_path (Some p) h = Some (l, h') \<and> list_holds h' l (split_colon p) \<and> wf_heap h'"
proof -
  have "init_search_path (Some p) h =
      foldl (\<lambda>r e. Option.bind r (\<lambda>(p, h). insert_last p e h)) (Some (0, h)) (split_colon p)"
    unfolding path_loop_inserts[symmetric]
    by (auto simp: init_search_path_def path_loop.simps[of "[]"] insert_last_append append_c_def split: option.splits)
  then show ?thesis
    using list_c.nil_inserts_hold[OF assms(1), of "split_colon p"] assms(2) length_split_colon[of p] by auto
qed

section \<open>The search of the child\<close>

text \<open>The first directory that has the file, or the last one when none has it.\<close>

definition found_in :: "os \<Rightarrow> string list \<Rightarrow> string \<Rightarrow> string" where
  "found_in E dirs prog =
     candidate (case find (\<lambda>d. exists_file E (candidate d prog)) dirs of Some d \<Rightarrow> d | None \<Rightarrow> last dirs) prog"

lemma search_ring:
  assumes "ring h (us @ vs)"
  shows "search E h (length vs) (hd (vs @ us)) prog buf =
    Some (case find (\<lambda>d. exists_file E (candidate d prog)) (contents h vs) of
        Some d \<Rightarrow> (True, Some (candidate d prog))
      | None \<Rightarrow> (False, if vs = [] then buf else Some (candidate (last (contents h vs)) prog)))"
  using assms
proof (induction vs arbitrary: us buf)
  case (Cons v vs)
  have v: "v \<in> dom (cells h)" using Cons.prems by (auto simp: ring_iff)
  have "sc h v = hd (vs @ us @ [v])"
    using Cons.prems by (cases vs; cases us) (auto simp: ring_iff links_append links_Cons)
  then obtain c where "cells h v = Some c" "succ c = hd (vs @ us @ [v])" "data c = dat h v"
    using live_cell[OF v] by auto
  then show ?case
    using Cons.IH[of "us @ [v]"] Cons.prems by (auto split: option.splits)
qed simp

lemma run_child_search:
  assumes h: "list_holds (path_heap w) (path_dir_list w) dirs" and ne: "dirs \<noteq> []"
    and sz: "length dirs < 2 ^ 32"
  shows "run_child E w argv = Some (if exec_ok E (found_in E dirs (hd argv))
    then Some (found_in E dirs (hd argv), argv) else None)"
proof -
  obtain xs where xs: "wf_heap (path_heap w)" "rep (path_heap w) (path_dir_list w) xs"
    "contents (path_heap w) xs = dirs" using h by (auto simp: list_holds_def)
  have "xs \<noteq> []" using xs(3) ne by auto
  then have r: "ring (path_heap w) xs" "path_dir_list w = hd xs" using xs(2) by (auto simp: rep_def)
  have len: "length xs = length dirs" using xs(3) by auto
  have un: "unat (of_nat (length xs) :: u32) = length xs"
    using sz len by (simp add: unat_of_nat)
  have "search E (path_heap w) (length xs) (hd xs) (hd argv) None =
      Some (find (\<lambda>d. exists_file E (candidate d (hd argv))) dirs \<noteq> None, Some (found_in E dirs (hd argv)))"
    using search_ring[of "path_heap w" "[]" xs E "hd argv" None] r(1) xs(3) \<open>xs \<noteq> []\<close>
    by (auto simp: found_in_def split: option.splits)
  then show ?thesis
    using length_list_rep[OF xs(1,2)] r(2) un by (simp add: run_child_def)
qed

section \<open>parse_line against an interpreter of tokens\<close>

text \<open>
  What the tokens of a line mean, without buffers and pointers: words are collected, a redirection
  takes the word after it, and any other token ends the command.
\<close>

fun interpret_tokens :: "os \<Rightarrow> string list \<Rightarrow> (token_type_t \<times> string) list \<Rightarrow> world \<Rightarrow> outcome option" where
  "interpret_tokens E args [] w = None"
| "interpret_tokens E args ((type, t) # ts) w =
     (if type = NORMAL then interpret_tokens E (args @ [t]) ts w
      else if type = INPUT \<or> type = OUTPUT then
        (case ts of [] \<Rightarrow> None
         | (type2, f) # ts2 \<Rightarrow>
             if type2 \<noteq> NORMAL then Some (Continues (log_event (Message ''expected file name: but found '' f) w))
             else interpret_tokens E args ts2 ((if type = INPUT then open_input else open_output) E f w))
      else (case end_command E type args w of None \<Rightarrow> None
            | Some (Stop out) \<Rightarrow> Some out
            | Some (More w1) \<Rightarrow> interpret_tokens E [] ts w1))"

text \<open>At most \<open>MAX_ARG\<close> words in every command: \<open>argv\<close> is not overrun.\<close>

fun words_fit :: "nat \<Rightarrow> (token_type_t \<times> string) list \<Rightarrow> bool" where
  "words_fit n [] \<longleftrightarrow> True"
| "words_fit n ((type, t) # ts) \<longleftrightarrow> n \<le> MAX_ARG \<and>
     (if type = NORMAL then words_fit (n + 1) ts
      else if type = INPUT \<or> type = OUTPUT then (case ts of [] \<Rightarrow> True
         | (type2, f) # ts2 \<Rightarrow> type2 \<noteq> NORMAL \<or> words_fit n ts2)
      else words_fit 0 ts)"

definition argv_ok :: "lexer \<Rightarrow> nat list \<Rightarrow> nat \<Rightarrow> bool" where
  "argv_ok lx argv argc \<longleftrightarrow> length argv = MAX_ARG + 1 \<and>
     (\<forall>p \<in> set (take argc argv). p + length (cstr (token_buf lx) p) < token lx)"

lemma argv_ok_step:
  assumes "argv_ok lx argv argc" and "take (token lx) (token_buf lx') = take (token lx) (token_buf lx)"
    and "token lx \<le> token lx'"
  shows "arg_strings (token_buf lx') argv argc = arg_strings (token_buf lx) argv argc" "argv_ok lx' argv argc"
proof -
  have st: "cstr (token_buf lx') p = cstr (token_buf lx) p" if "p \<in> set (take argc argv)" for p
    using assms(1) that unfolding argv_ok_def by (intro cstr_stable[OF _ assms(2)]) blast
  then show "arg_strings (token_buf lx') argv argc = arg_strings (token_buf lx) argv argc"
    by (simp add: arg_strings_def)
  show "argv_ok lx' argv argc"
    unfolding argv_ok_def
  proof (intro conjI ballI)
    show "length argv = MAX_ARG + 1" using assms(1) by (simp add: argv_ok_def)
    fix p assume p: "p \<in> set (take argc argv)"
    then have "p + length (cstr (token_buf lx) p) < token lx" using assms(1) by (auto simp: argv_ok_def)
    then show "p + length (cstr (token_buf lx') p) < token lx'" using st[OF p] assms(3) by simp
  qed
qed

lemma argv_ok_write:
  assumes "argv_ok lx argv argc" and "argc \<le> MAX_ARG"
  shows "arg_strings tb (argv[argc := p]) argc = arg_strings tb argv argc"
    "argv_ok lx (argv[argc := p]) argc" "wr_at argv argc p = Some (argv[argc := p])"
  using assms by (auto simp: argv_ok_def arg_strings_def)

lemma argv_ok_push:
  assumes "argv_ok lx argv argc" and "argc \<le> MAX_ARG" and "p + length (cstr (token_buf lx) p) < token lx"
  shows "argv_ok lx (argv[argc := p]) (argc + 1)"
    "arg_strings (token_buf lx) (argv[argc := p]) (argc + 1) = arg_strings (token_buf lx) argv argc @ [cstr (token_buf lx) p]"
  using assms by (auto simp: argv_ok_def arg_strings_def take_Suc_conv_app_nth)

lemma argv_ok_0: "length argv = MAX_ARG + 1 \<Longrightarrow> argv_ok lx argv 0 \<and> arg_strings tb argv 0 = []"
  by (simp add: argv_ok_def arg_strings_def)

lemma parse_loop_interpret:
  assumes "sized lx" "budget lx" "ahead lx (v @ [newline])" "newline \<notin> set v" "nul \<notin> set v"
    and "argv_ok lx argv argc" and "words_fit argc (lex_line (v @ [newline]))"
  shows "map_option fst (parse_loop E argv argc lx w) =
    interpret_tokens E (arg_strings (token_buf lx) argv argc) (lex_line (v @ [newline])) w"
  using assms
proof (induction "length v" arbitrary: v lx argv argc w rule: less_induct)
  case less
  obtain type t u lx1 where g: "gettoken lx = Some (type, token lx, lx1)"
    "lex1 (v @ [newline]) = Some (type, t, u)" "cstr (token_buf lx1) (token lx) = t" "ahead lx1 u"
    "sized lx1" "budget lx1" "token lx1 = token lx + length t + 1"
    "take (token lx) (token_buf lx1) = take (token lx) (token_buf lx)"
    using gettoken_lex1[OF less.prems(1-5)] by blast
  have toks: "lex_line (v @ [newline]) = (type, t) # (if type = NEWLINE then [] else lex_line u)"
    using g(2) by (subst lex_line.simps) simp
  have fit: "argc \<le> MAX_ARG" using less.prems(7) toks by simp
  note st = argv_ok_step[OF less.prems(6) g(8)]
  have st1: "arg_strings (token_buf lx1) argv argc = arg_strings (token_buf lx) argv argc"
    "argv_ok lx1 argv argc" using st g(7) by auto
  note wr = argv_ok_write[OF st1(2) fit]
  have rest: "if type = NEWLINE then u = []
    else \<exists>w'. u = w' @ [newline] \<and> set w' \<subseteq> set v \<and> length w' < length v"
    by (rule lex1_rest[OF g(2) less.prems(4)])
  consider (normal) "type = NORMAL" | (redir) "type = INPUT \<or> type = OUTPUT"
    | (fin) "type \<noteq> NORMAL" "type \<noteq> INPUT" "type \<noteq> OUTPUT" by blast
  then show ?case
  proof cases
    case normal
    then obtain v' where v': "u = v' @ [newline]" "set v' \<subseteq> set v" "length v' < length v" using rest by auto
    have push: "argv_ok lx1 (argv[argc := token lx]) (argc + 1)"
      "arg_strings (token_buf lx1) (argv[argc := token lx]) (argc + 1) = arg_strings (token_buf lx) argv argc @ [t]"
      using argv_ok_push[OF st1(2) fit, of "token lx"] g(3,7) st1(1) by auto
    have "map_option fst (parse_loop E (argv[argc := token lx]) (argc + 1) lx1 w) =
        interpret_tokens E (arg_strings (token_buf lx1) (argv[argc := token lx]) (argc + 1)) (lex_line u) w"
      using less.hyps[OF v'(3) g(5,6) _ _ _ push(1)] g(4) v'(1,2) less.prems(4,5,7) toks normal by auto
    then show ?thesis
      using g(1) wr(3) normal toks push(2) by (simp add: parse_loop.simps[of E argv])
  next
    case fin
    show ?thesis
    proof (cases "end_command E type (arg_strings (token_buf lx) argv argc) w")
      case None
      then show ?thesis using g(1) wr st1(1) fin toks by (simp add: parse_loop.simps[of E argv])
    next
      case (Some r)
      show ?thesis
      proof (cases r)
        case (Stop out)
        then show ?thesis using Some g(1) wr st1(1) fin toks by (simp add: parse_loop.simps[of E argv])
      next
        case (More w1)
        then have "type \<noteq> NEWLINE" using Some
          by (auto simp: end_command_def Let_def split: if_splits Option.bind_splits outcome.splits)
        then obtain v' where v': "u = v' @ [newline]" "set v' \<subseteq> set v" "length v' < length v" using rest by auto
        have z: "argv_ok lx1 (argv[argc := token lx]) 0"
          "arg_strings (token_buf lx1) (argv[argc := token lx]) 0 = []"
          using argv_ok_0[of "argv[argc := token lx]"] less.prems(6) by (auto simp: argv_ok_def)
        have "map_option fst (parse_loop E (argv[argc := token lx]) 0 lx1 w1) =
            interpret_tokens E (arg_strings (token_buf lx1) (argv[argc := token lx]) 0) (lex_line u) w1"
          using less.hyps[OF v'(3) g(5,6) _ _ _ z(1)] g(4) v'(1,2) less.prems(4,5,7) toks fin \<open>type \<noteq> NEWLINE\<close> by auto
        then show ?thesis
          using Some More g(1) wr st1(1) fin toks z(2) \<open>type \<noteq> NEWLINE\<close>
          by (simp add: parse_loop.simps[of E argv])
      qed
    qed
  next
    case redir
    then obtain v' where v': "u = v' @ [newline]" "set v' \<subseteq> set v" "length v' < length v" using rest by auto
    have nn: "newline \<notin> set v'" "nul \<notin> set v'" using v'(2) less.prems(4,5) by auto
    obtain type2 f u2 lx2 where g2: "gettoken lx1 = Some (type2, token lx1, lx2)"
      "lex1 (v' @ [newline]) = Some (type2, f, u2)" "cstr (token_buf lx2) (token lx1) = f" "ahead lx2 u2"
      "sized lx2" "budget lx2" "token lx2 = token lx1 + length f + 1"
      "take (token lx1) (token_buf lx2) = take (token lx1) (token_buf lx1)"
      using gettoken_lex1[OF g(5,6) _ nn] g(4) v'(1) by metis
    have toks2: "lex_line u = (type2, f) # (if type2 = NEWLINE then [] else lex_line u2)"
      using g2(2) v'(1) by (subst lex_line.simps) simp
    have st2: "arg_strings (token_buf lx2) (argv[argc := token lx]) argc = arg_strings (token_buf lx) argv argc"
      "argv_ok lx2 (argv[argc := token lx]) argc"
      using argv_ok_step[OF wr(2) g2(8)] g2(7) wr(1) st1(1) by auto
    have st3: "arg_strings (token_buf lx2) (argv[argc := token lx1]) argc = arg_strings (token_buf lx) argv argc"
      using st2(1) by (simp add: arg_strings_def)
    note wr2 = argv_ok_write[OF st2(2) fit]
    show ?thesis
    proof (cases "type2 = NORMAL")
      case False
      then show ?thesis
        using g(1) g2(1,3) wr(3) wr2(3) redir toks toks2 by (auto simp: parse_loop.simps[of E argv])
    next
      case True
      obtain v2 where v2: "u2 = v2 @ [newline]" "set v2 \<subseteq> set v'" "length v2 < length v'"
        using lex1_rest[OF g2(2) nn(1)] True by auto
      let ?w = "(if type = INPUT then open_input else open_output) E f w"
      let ?argv = "argv[argc := token lx, argc := token lx1]"
      have "map_option fst (parse_loop E ?argv argc lx2 ?w) =
          interpret_tokens E (arg_strings (token_buf lx2) ?argv argc) (lex_line u2) ?w"
      proof -
        have "length v2 < length v" "newline \<notin> set v2" "nul \<notin> set v2" using v'(3) v2(2,3) nn by auto
        moreover have "ahead lx2 (v2 @ [newline])" using g2(4) v2(1) by simp
        moreover have "words_fit argc (lex_line (v2 @ [newline]))"
          using less.prems(7) toks toks2 redir True v2(1) by auto
        ultimately show ?thesis
          unfolding v2(1) using wr2(2)[of "token lx1"] by (intro less.hyps[OF _ g2(5,6)])
      qed
      then show ?thesis
        using g(1) g2(1,3) wr(3) wr2(3) redir toks toks2 True st3
        by (auto simp: parse_loop.simps[of E argv])
    qed
  qed
qed

section \<open>More words than argv holds\<close>

lemma parse_loop_full: "argc \<ge> length argv \<Longrightarrow> parse_loop E argv argc lx w = None"
  by (subst parse_loop.simps) (auto simp: wr_at_def split: Option.bind_splits)

lemma parse_loop_words:
  assumes "sized lx" "budget lx" "ahead lx (v @ [newline])" "newline \<notin> set v" "nul \<notin> set v"
    and "argc + n = length argv" and "n \<le> length (takeWhile (\<lambda>x. fst x = NORMAL) (lex_line (v @ [newline])))"
  shows "parse_loop E argv argc lx w = None"
  using assms
proof (induction n arbitrary: v lx argv argc)
  case 0
  then show ?case by (intro parse_loop_full) simp
next
  case (Suc n)
  obtain type t u lx1 where g: "gettoken lx = Some (type, token lx, lx1)"
    "lex1 (v @ [newline]) = Some (type, t, u)" "ahead lx1 u" "sized lx1" "budget lx1"
    using gettoken_lex1[OF Suc.prems(1-5)] by blast
  have toks: "lex_line (v @ [newline]) = (type, t) # (if type = NEWLINE then [] else lex_line u)"
    using g(2) by (subst lex_line.simps) simp
  then have ty: "type = NORMAL" using Suc.prems(7) by (auto split: if_splits)
  then obtain v' where v': "u = v' @ [newline]" "set v' \<subseteq> set v"
    using lex1_rest[OF g(2) Suc.prems(4)] by auto
  have "parse_loop E (argv[argc := token lx]) (argc + 1) lx1 w = None"
    using g(3) v' Suc.prems toks ty by (intro Suc.IH[OF g(4,5), of v']) auto
  then show ?case
    using g(1) ty Suc.prems(6) by (simp add: parse_loop.simps[of E argv])
qed

section \<open>Descriptors of a pipe\<close>

lemma low_fd_fresh: "low_fd ds \<notin> set ds"
proof -
  let ?free = "filter (\<lambda>n. n \<notin> set ds) [0..<Suc (length ds)]"
  have "?free \<noteq> []"
  proof
    assume "?free = []"
    then have "{0..<Suc (length ds)} \<subseteq> set ds" by (auto simp: filter_empty_conv simp del: upt_Suc)
    then have "card {0..<Suc (length ds)} \<le> card (set ds)" by (intro card_mono) auto
    then show False using card_length[of ds] by simp
  qed
  then have "hd ?free \<in> set ?free" by (rule hd_in_set)
  then show ?thesis by (simp add: low_fd_def del: upt_Suc)
qed

lemma redirected_fd [simp]: "redirected (int n) std = int n"
  by (simp add: redirected_def)

lemma interpret_words:
  "interpret_tokens E args (map (Pair NORMAL) ws @ ts) w = interpret_tokens E (args @ ws) ts w"
  by (induction ws arbitrary: args) auto

definition external :: "os \<Rightarrow> world \<Rightarrow> string list \<Rightarrow> bool" where
  "external E w args \<longleftrightarrow> args \<noteq> [] \<and> hd args \<noteq> ''exit'' \<and> hd args \<noteq> ''cd'' \<and> fork_ok E"

lemma run_external:
  assumes "external E w args" and "run_child E w args = Some child"
  shows "run_program E args fg dp w = Some (Continues (log_event (Forked child
    (redirected (input_fd w) 0) (redirected (output_fd w) 1) (fg \<and> \<not> dp)) w))"
  using assms by (simp add: run_program_def external_def)

text \<open>\<open>run_child\<close> looks at the list of directories only.\<close>

lemma run_child_world:
  "path_dir_list w' = path_dir_list w \<Longrightarrow> path_heap w' = path_heap w \<Longrightarrow> run_child E w' args = run_child E w args"
  by (simp add: run_child_def)

lemma external_world: "external E w' args = external E w args"
  by (simp add: external_def)

lemma pipe_stage:
  assumes "external E w args" and "run_child E w args = Some child"
  shows "end_command E PIPE args w = Some (More (w\<lparr>input_fd := int (low_fd (fds w)), output_fd := 1,
    fds := removeAll (low_fd (low_fd (fds w) # fds w)) (low_fd (low_fd (fds w) # fds w) # low_fd (fds w) # fds w),
    trace := trace w @ [Forked child (redirected (input_fd w) 0) (int (low_fd (low_fd (fds w) # fds w))) False]\<rparr>))"
proof -
  have "run_child E (w\<lparr>fds := a, output_fd := b\<rparr>) args = Some child" for a b
    using assms(2) by (subst run_child_world[of _ w]) auto
  then show ?thesis
    using assms(1)
    by (simp add: end_command_def Let_def run_program_def external_def log_event_def)
qed

lemma last_stage:
  assumes "external E w args" and "run_child E w args = Some child"
  shows "end_command E NEWLINE args w = Some (Stop (Continues (w\<lparr>input_fd := 0, output_fd := 1,
    trace := trace w @ [Forked child (redirected (input_fd w) 0) (redirected (output_fd w) 1) True]\<rparr>)))"
  using assms by (simp add: end_command_def Let_def run_program_def external_def log_event_def)

section \<open>A sample system\<close>

text \<open>One directory \<open>/bin\<close> in the search path that has every program; used in the witnesses.\<close>

definition demo_os :: os where
  "demo_os = \<lparr>exists_file = (\<lambda>f. True), exec_ok = (\<lambda>f. True), can_read = (\<lambda>f. True), can_write = (\<lambda>f. True),
     chdir_to = (\<lambda>d e. Some e), home = None, fork_ok = True\<rparr>"

definition demo_world :: world where
  "demo_world = \<lparr>path_dir_list = 5, path_heap = \<lparr>cells = [5 \<mapsto> \<lparr>succ = 5, pred = 5, data = ''/bin''\<rparr>], pool = []\<rparr>,
     input_fd = 0, output_fd = 1, old_dir = None, cwd = ''/'', fds = [0, 1, 2], trace = []\<rparr>"

lemma demo_holds: "list_holds (path_heap demo_world) (path_dir_list demo_world) [''/bin'']"
proof -
  have "rep (path_heap demo_world) 5 [5]" by (auto simp: rep_def ring_iff demo_world_def sc_def pr_def)
  then show ?thesis
    by (auto simp: list_holds_def wf_heap_def demo_world_def dat_def intro!: exI[of _ "[5]"])
qed

lemma demo_fds: "input_fd demo_world = 0" "output_fd demo_world = 1" "trace demo_world = []"
  by (simp_all add: demo_world_def)

section \<open>Properties\<close>

text \<open>C8: The whole path from the standard input to the commands.  For a line that fits the input
  buffer and has at most \<open>MAX_ARG\<close> words in each command, \<open>fetch_line\<close> consumes exactly that
  line, and \<open>parse_line\<close>, working on the static buffers and the pointer array, does what
  interpreting the tokens of the line does; no buffer is read or written out of bounds on the way.\<close>

theorem parse_line_interprets:
  assumes "sized lx" and "newline \<notin> set v" and "nul \<notin> set v" and "length v + 1 < MAXBUF"
    and "length argv = MAX_ARG + 1" and "words_fit 0 (lex_line (v @ [newline]))"
  shows "\<exists>lx1. fetch_line (v @ newline # stdin) lx = (Some (length v + 1), 0, stdin, lx1) \<and>
    map_option fst (parse_line E argv lx1 w) =
      interpret_tokens E [] (lex_line (v @ [newline])) (w\<lparr>input_fd := 0, output_fd := 1\<rparr>)"
proof -
  obtain junk where f: "fetch_loop (v @ newline # stdin) (input_buf lx) 0 0 =
      (Some (length v + 1), 0, stdin, v @ [newline, nul] @ junk)"
    using fetch_line_skips[of "[]" v "input_buf lx" stdin 0] assms(1,2,4) by (auto simp: sized_def)
  define lx1 where "lx1 = lx\<lparr>input_buf := v @ [newline, nul] @ junk, input_char := 0, token := 0\<rparr>"
  have "sized lx1"
    using fetch_loop_length[OF f] assms(1) by (simp add: lx1_def sized_def)
  moreover have "budget lx1" "ahead lx1 (v @ [newline])" by (auto simp: lx1_def budget_def ahead_def)
  ultimately have "map_option fst (parse_loop E argv 0 lx1 w') =
      interpret_tokens E (arg_strings (token_buf lx1) argv 0) (lex_line (v @ [newline])) w'" for w'
    using assms(2,3,5,6) argv_ok_0[of argv lx1] by (intro parse_loop_interpret) auto
  then show ?thesis
    using f by (intro exI[of _ lx1]) (simp add: fetch_line_def lx1_def parse_line_def arg_strings_def)
qed

theorem parse_line_interprets_witness:
  "\<exists>lx1. fetch_line (''ls'' @ newline # []) \<lparr>input_buf = replicate MAXBUF nul, token_buf = replicate (2 * MAXBUF) nul,
      input_char = 7, token = 3\<rparr> = (Some (length ''ls'' + 1), 0, [], lx1) \<and>
    map_option fst (parse_line demo_os (replicate (MAX_ARG + 1) 0) lx1 demo_world) =
      interpret_tokens demo_os [] (lex_line (''ls'' @ [newline])) (demo_world\<lparr>input_fd := 0, output_fd := 1\<rparr>)"
proof (rule parse_line_interprets)
  show "words_fit 0 (lex_line (''ls'' @ [newline]))"
    by code_simp
qed (simp_all add: sized_def MAXBUF_def)

text \<open>C16: A call of \<open>gettoken\<close> on a line never leaves its buffers: it delivers the next token of
  the line as a null-terminated string in \<open>token_buf\<close>, leaves the strings of earlier tokens as they
  were, and keeps the bound between the two pointers that the next call relies on.\<close>

theorem gettoken_stays_in_bounds:
  assumes "sized lx" and "budget lx" and "ahead lx (v @ [newline])" and "newline \<notin> set v" and "nul \<notin> set v"
  shows "\<exists>type t u lx'. gettoken lx = Some (type, token lx, lx') \<and> lex1 (v @ [newline]) = Some (type, t, u) \<and>
    cstr (token_buf lx') (token lx) = t \<and> ahead lx' u \<and> sized lx' \<and> budget lx' \<and>
    token lx' = token lx + length t + 1 \<and> token lx' \<le> 2 * input_char lx' \<and>
    take (token lx) (token_buf lx') = take (token lx) (token_buf lx)"
  using gettoken_lex1[OF assms] by (metis budget_def)

theorem gettoken_stays_in_bounds_witness:
  "\<exists>type t u lx'. gettoken (\<lparr>input_buf = ''a;b'' @ [newline, nul] @ replicate 507 nul, token_buf = replicate (2 * MAXBUF) nul,
      input_char = 0, token = 0\<rparr> :: lexer) = Some (type, 0, lx') \<and> lex1 (''a;b'' @ [newline]) = Some (type, t, u)"
proof -
  let ?lx = "\<lparr>input_buf = ''a;b'' @ [newline, nul] @ replicate 507 nul, token_buf = replicate (2 * MAXBUF) nul,
      input_char = 0, token = 0\<rparr> :: lexer"
  have "sized ?lx" "budget ?lx" "ahead ?lx (''a;b'' @ [newline])"
    by (auto simp: sized_def budget_def ahead_def MAXBUF_def)
  from gettoken_stays_in_bounds[OF this] show ?thesis by auto
qed

text \<open>\<open>argv\<close> has no bound check: when a command has more than \<open>MAX_ARG\<close> words, which a line of
  about two hundred characters can have, \<open>parse_line\<close> writes past the end of \<open>argv\<close>.\<close>

theorem parse_line_overruns_argv:
  assumes "sized lx" and "budget lx" and "ahead lx (v @ [newline])" and "newline \<notin> set v" and "nul \<notin> set v"
    and "length argv = MAX_ARG + 1"
    and "MAX_ARG < length (takeWhile (\<lambda>x. fst x = NORMAL) (lex_line (v @ [newline])))"
  shows "parse_line E argv lx w = None"
  unfolding parse_line_def by (rule parse_loop_words[OF assms(1-5), of 0 "MAX_ARG + 1"]) (use assms in auto)

theorem parse_line_overruns_argv_witness:
  "parse_line demo_os (replicate (MAX_ARG + 1) 0) \<lparr>input_buf = concat (replicate 101 ''a '') @ [newline, nul] @ replicate 308 nul,
      token_buf = replicate (2 * MAXBUF) nul, input_char = 0, token = 0\<rparr> demo_world = None"
proof (rule parse_line_overruns_argv)
  show "MAX_ARG < length (takeWhile (\<lambda>x. fst x = NORMAL) (lex_line (concat (replicate 101 ''a '') @ [newline])))"
    by code_simp
qed (simp_all add: sized_def budget_def ahead_def MAXBUF_def MAX_ARG_def length_concat sum_list_replicate)

text \<open>The tokenizer has no case for the semicolon: it never returns \<open>SEMICOLON\<close>, so the case of
  that name in \<open>parse_line\<close> is dead and \<open>a ; b\<close> passes the semicolon to \<open>a\<close> as a word.\<close>

theorem semicolon_is_never_a_token:
  "map_option fst (gettoken lx) \<noteq> Some SEMICOLON \<and>
   lex_line (''a ; b'' @ [newline]) = [(NORMAL, ''a''), (NORMAL, '';''), (NORMAL, ''b''), (NEWLINE, [newline])]"
proof
  have "one_char_token c \<noteq> Some SEMICOLON" for c by (simp add: one_char_token_def)
  then show "map_option fst (gettoken lx) \<noteq> Some SEMICOLON"
    by (auto simp: gettoken_def bind_eq_Some_conv split: option.splits)
  show "lex_line (''a ; b'' @ [newline]) = [(NORMAL, ''a''), (NORMAL, '';''), (NORMAL, ''b''), (NEWLINE, [newline])]"
    by code_simp
qed

text \<open>\<open>init_search_path\<close> splits \<open>PATH\<close> at its colons: the list it builds holds pieces without a
  colon which, joined again with colons, are \<open>PATH\<close>; their order is kept and an empty piece too.\<close>

theorem search_path_roundtrip:
  assumes "wf_heap h" and "count_list p (CHR '':'') < length (pool h)"
  shows "\<exists>l h' dirs. init_search_path (Some p) h = Some (l, h') \<and> list_holds h' l dirs \<and>
    join_colon dirs = p \<and> (\<forall>d \<in> set dirs. CHR '':'' \<notin> set d) \<and> length dirs = Suc (count_list p (CHR '':''))"
  using init_search_path_pieces[OF assms] join_split[of p] split_no_colon[of _ p] length_split_colon[of p] by blast

theorem search_path_roundtrip_witness:
  "\<exists>l h' dirs. init_search_path (Some ''/bin:/usr/bin:'') \<lparr>cells = Map.empty, pool = [8, 4, 2]\<rparr> = Some (l, h') \<and>
    list_holds h' l dirs \<and> join_colon dirs = ''/bin:/usr/bin:'' \<and> length dirs = 3"
proof -
  have "wf_heap (\<lparr>cells = Map.empty, pool = [8, 4, 2]\<rparr> :: string heap)" by (simp add: wf_heap_def)
  from search_path_roundtrip[OF this, of "''/bin:/usr/bin:''"] show ?thesis
    by (simp add: numeral_3_eq_3) blast
qed

text \<open>The child searches the directories in the order of \<open>PATH\<close> and executes the first match.
  When no directory has the program it executes the candidate in the last directory; if that
  \<open>execv\<close> fails there is no exit, and the child returns into \<open>parse_line\<close> as a second shell.\<close>

theorem child_executes_first_match:
  assumes "list_holds (path_heap w) (path_dir_list w) dirs" and "dirs \<noteq> []" and "length dirs < 2 ^ 32"
    and "external E w args"
  shows "run_program E args foreground doing_pipe w = Some (Continues (log_event (Forked
      (if exec_ok E (found_in E dirs (hd args)) then Some (found_in E dirs (hd args), args) else None)
      (redirected (input_fd w) 0) (redirected (output_fd w) 1) (foreground \<and> \<not> doing_pipe)) w))"
  by (rule run_external[OF assms(4) run_child_search[OF assms(1-3)]])

theorem child_executes_first_match_witness:
  "run_program demo_os [''ls'', ''-l''] True False demo_world = Some (Continues (log_event
     (Forked (Some (''/bin/ls'', [''ls'', ''-l''])) 0 1 True) demo_world))"
  using child_executes_first_match[OF demo_holds, of demo_os "[''ls'', ''-l'']" True False]
  by (simp add: demo_fds demo_os_def external_def found_in_def candidate_def redirected_def)

text \<open>In \<open>a | b\<close> the two programs are connected: \<open>a\<close> writes to the write end of a fresh pipe and
  \<open>b\<close> reads from its read end, only \<open>b\<close> is waited for, and the shell's own redirections are reset.
  The shell closes its write end but keeps the read end open: one descriptor leaks per pipe.\<close>

theorem pipeline_connects:
  assumes "external E w a" and "external E w b" and "run_child E w a = Some ca" and "run_child E w b = Some cb"
    and "input_fd w = 0" and "output_fd w = 1"
  shows "\<exists>rfd wfd w'. rfd \<noteq> wfd \<and> rfd \<notin> set (fds w) \<and> wfd \<notin> set (fds w) \<and>
    interpret_tokens E [] (map (Pair NORMAL) a @ (PIPE, ''|'') # map (Pair NORMAL) b @ [(NEWLINE, [newline])]) w =
      Some (Continues w') \<and>
    trace w' = trace w @ [Forked ca 0 (int wfd) False, Forked cb (int rfd) 1 True] \<and>
    set (fds w') = insert rfd (set (fds w)) \<and> input_fd w' = 0 \<and> output_fd w' = 1"
proof -
  define rfd where "rfd = low_fd (fds w)"
  define wfd where "wfd = low_fd (rfd # fds w)"
  have fresh: "rfd \<notin> set (fds w)" "wfd \<notin> set (rfd # fds w)"
    using low_fd_fresh unfolding rfd_def wfd_def by blast+
  define w1 where "w1 = w\<lparr>input_fd := int rfd, output_fd := 1, fds := rfd # fds w,
    trace := trace w @ [Forked ca 0 (int wfd) False]\<rparr>"
  have r0: "redirected (input_fd w) 0 = 0" using assms(5) by (simp add: redirected_def)
  have s1: "end_command E PIPE a w = Some (More w1)"
    using pipe_stage[OF assms(1,3)] r0 fresh by (simp add: w1_def rfd_def[symmetric] wfd_def[symmetric])
  have "run_child E w1 b = Some cb" using assms(4) by (subst run_child_world[of _ w]) (auto simp: w1_def)
  moreover have r1: "redirected (output_fd w1) 1 = 1" by (simp add: w1_def redirected_def)
  ultimately have s2: "end_command E NEWLINE b w1 = Some (Stop (Continues (w1\<lparr>input_fd := 0, output_fd := 1,
      trace := trace w1 @ [Forked cb (int rfd) 1 True]\<rparr>)))"
    using last_stage[of E w1 b cb] assms(2) r1 unfolding external_world[of E w1 b w] by (simp add: w1_def)
  show ?thesis
    using fresh s1 s2 by (intro exI[of _ rfd] exI[of _ wfd]) (auto simp: interpret_words w1_def)
qed

theorem pipeline_connects_witness:
  "\<exists>rfd wfd w'. rfd \<noteq> wfd \<and> interpret_tokens demo_os [] [(NORMAL, ''ls''), (PIPE, ''|''), (NORMAL, ''wc''), (NEWLINE, [newline])] demo_world =
      Some (Continues w') \<and>
    trace w' = [Forked (Some (''/bin/ls'', [''ls''])) 0 (int wfd) False, Forked (Some (''/bin/wc'', [''wc''])) (int rfd) 1 True]"
proof -
  have "run_child demo_os demo_world [f] = Some (Some (''/bin/'' @ f, [f]))" if "length f = 2" for f
    using run_child_search[OF demo_holds, of demo_os "[f]"] that
    by (simp add: found_in_def candidate_def demo_os_def)
  then have "run_child demo_os demo_world [''ls''] = Some (Some (''/bin/ls'', [''ls'']))"
    "run_child demo_os demo_world [''wc''] = Some (Some (''/bin/wc'', [''wc'']))" by simp_all
  moreover have "external demo_os demo_world [''ls'']" "external demo_os demo_world [''wc'']"
    by (simp_all add: external_def demo_os_def)
  ultimately obtain rfd wfd w' where "rfd \<noteq> wfd"
    "interpret_tokens demo_os [] (map (Pair NORMAL) [''ls''] @ (PIPE, ''|'') # map (Pair NORMAL) [''wc''] @ [(NEWLINE, [newline])]) demo_world =
      Some (Continues w')"
    "trace w' = trace demo_world @ [Forked (Some (''/bin/ls'', [''ls''])) 0 (int wfd) False, Forked (Some (''/bin/wc'', [''wc''])) (int rfd) 1 True]"
    using pipeline_connects[OF _ _ _ _ demo_fds(1,2)] by blast
  then show ?thesis
    by (intro exI[of _ rfd] exI[of _ wfd] exI[of _ w']) (simp add: demo_fds del: interpret_tokens.simps)
qed

end
