(* ===== verification/Machine_Isa.thy ===== *)
theory Machine_Isa
  imports Prelude
begin

text \<open>
  The instruction set of the virtual machine of \<open>lab2/machine.c\<close>: the opcodes, the 32-bit
  instruction format and its encoder and decoders.
\<close>

section \<open>Opcodes\<close>

datatype opcode = ADD | ADDI | SUB | SUBI | SGE | SGT | SEQ | BT | BF | BA | ST | LD | CALL | JMP | MUL | SEQI | HALT

text \<open>The values of the macros, which are also the indices of the table of mnemonics.\<close>

definition opcodes :: "opcode list" where
  "opcodes = [ADD, ADDI, SUB, SUBI, SGE, SGT, SEQ, BT, BF, BA, ST, LD, CALL, JMP, MUL, SEQI, HALT]"

fun opcode_value :: "opcode \<Rightarrow> nat" where
  "opcode_value ADD = 0" | "opcode_value ADDI = 1" | "opcode_value SUB = 2" | "opcode_value SUBI = 3"
| "opcode_value SGE = 4" | "opcode_value SGT = 5" | "opcode_value SEQ = 6" | "opcode_value BT = 7"
| "opcode_value BF = 8" | "opcode_value BA = 9" | "opcode_value ST = 10" | "opcode_value LD = 11"
| "opcode_value CALL = 12" | "opcode_value JMP = 13" | "opcode_value MUL = 14" | "opcode_value SEQI = 15"
| "opcode_value HALT = 16"

definition opcode_of :: "u32 \<Rightarrow> opcode option" where
  "opcode_of n = (if unat n < length opcodes then Some (opcodes ! unat n) else None)"

definition mnemonics :: "string list" where
  "mnemonics = [''add'', ''addi'', ''sub'', ''subi'', ''sge'', ''sgt'', ''seq'', ''bt'', ''bf'', ''ba'', ''st'',
     ''ld'', ''call'', ''jmp'', ''mul'', ''seqi'', ''halt'']"

lemma opcode_of_value: "opcode_of (of_nat (opcode_value c)) = Some c"
  by (cases c) (simp_all add: opcode_of_def opcodes_def unat_of_nat)

section \<open>The instruction format\<close>

definition make_instr :: "u32 \<Rightarrow> u32 \<Rightarrow> u32 \<Rightarrow> u32 \<Rightarrow> u32" where
  "make_instr opcode dest s1 s2 = push_bit 26 opcode OR push_bit 21 dest OR push_bit 16 s1 OR (s2 AND 0xffff)"

definition extract_opcode :: "u32 \<Rightarrow> u32" where
  "extract_opcode instr = drop_bit 26 instr"

definition extract_dest :: "u32 \<Rightarrow> u32" where
  "extract_dest instr = drop_bit 21 instr AND 0x1f"

definition extract_source1 :: "u32 \<Rightarrow> u32" where
  "extract_source1 instr = drop_bit 16 instr AND 0x1f"

text \<open>The cast to \<open>short\<close> and back to \<open>int\<close> extends the sign of the low half.\<close>

definition extract_constant :: "u32 \<Rightarrow> u32" where
  "extract_constant instr = scast (ucast (instr AND 0xffff) :: u16)"

text \<open>Masks are truncations.\<close>

lemma and_16: "x AND 0xffff = (take_bit 16 x :: u32)"
  by (simp add: take_bit_eq_mask mask_eq_exp_minus_1)

lemma and_5: "x AND 0x1f = (take_bit 5 x :: u32)"
  by (simp add: take_bit_eq_mask mask_eq_exp_minus_1)

lemma small_bit: "(x :: u32) < 2 ^ k \<Longrightarrow> bit x n \<Longrightarrow> n < k"
  using less_mask_eq[of x k] by (metis bit_take_bit_iff take_bit_eq_mask)

lemma make_instr_bit:
  "bit (make_instr opc dest s1 s2) n \<longleftrightarrow> n < 32 \<and>
     (26 \<le> n \<and> bit opc (n - 26) \<or> 21 \<le> n \<and> bit dest (n - 21) \<or> 16 \<le> n \<and> bit s1 (n - 16) \<or> n < 16 \<and> bit s2 n)"
  using bit_imp_le_length[of s2 n]
  by (auto simp: make_instr_def and_16 bit_or_iff bit_push_bit_iff bit_take_bit_iff)

lemma extract_opcode_make: "opc < 64 \<Longrightarrow> dest < 32 \<Longrightarrow> s1 < 32 \<Longrightarrow> extract_opcode (make_instr opc dest s1 s2) = opc"
  using small_bit[of opc 6] small_bit[of dest 5] small_bit[of s1 5]
  by (intro bit_word_eqI) (force simp: extract_opcode_def bit_drop_bit_eq make_instr_bit)

lemma extract_dest_make: "dest < 32 \<Longrightarrow> s1 < 32 \<Longrightarrow> extract_dest (make_instr opc dest s1 s2) = dest"
  using small_bit[of dest 5] small_bit[of s1 5]
  by (intro bit_word_eqI) (force simp: extract_dest_def and_5 bit_take_bit_iff bit_drop_bit_eq make_instr_bit)

lemma extract_source1_make: "s1 < 32 \<Longrightarrow> extract_source1 (make_instr opc dest s1 s2) = s1"
  using small_bit[of s1 5]
  by (intro bit_word_eqI) (force simp: extract_source1_def and_5 bit_take_bit_iff bit_drop_bit_eq make_instr_bit)

lemma low_half_make: "make_instr opc dest s1 s2 AND 0xffff = take_bit 16 s2"
  by (intro bit_word_eqI) (auto simp: and_16 bit_take_bit_iff make_instr_bit)

lemma extract_constant_make: "extract_constant (make_instr opc dest s1 s2) = scast (ucast s2 :: u16)"
proof -
  have "(ucast (take_bit 16 s2) :: u16) = ucast s2"
    by (intro bit_word_eqI) (simp add: bit_simps)
  then show ?thesis by (simp add: extract_constant_def low_half_make)
qed

text \<open>A constant that fits 16 bits as a signed number survives the encoding.\<close>

lemma sign_extended: "- (2 ^ 15) \<le> sint (k :: u32) \<Longrightarrow> sint k < 2 ^ 15 \<Longrightarrow> scast (ucast k :: u16) = k"
proof -
  assume k: "- (2 ^ 15) \<le> sint k" "sint k < 2 ^ 15"
  have "(ucast k :: u16) = word_of_int (sint k)"
    by (intro bit_word_eqI) (simp add: bit_simps min_def)
  then have "sint (ucast k :: u16) = signed_take_bit 15 (sint k)"
    by (simp only: sint_sbintrunc') simp
  also have "\<dots> = sint k" using k by (intro signed_take_bit_int_eq_self) simp_all
  finally show "scast (ucast k :: u16) = k" by (simp add: scast_eq)
qed

end
