(* ===== verification/Paging.thy ===== *)
theory Paging
  imports Prelude
begin

text \<open>
  The virtual memory of \<open>lab2/machine.c\<close>: page table, coremap, RAM and swap, the two page
  replacement algorithms, \<open>take_phys_page\<close>, \<open>pagefault\<close>, \<open>translate\<close> and the two memory accesses.
  An array is a function on indices, every access to it checks the bound, and \<open>None\<close> is a
  failed assertion or undefined behaviour.  The function pointer \<open>replace\<close> is an argument.
\<close>

section \<open>Sizes and state\<close>

definition PAGESIZE :: nat where "PAGESIZE = 4"
definition NPAGES :: nat where "NPAGES = 2048"
definition RAM_PAGES :: nat where "RAM_PAGES = 8"
definition RAM_SIZE :: nat where "RAM_SIZE = RAM_PAGES * PAGESIZE"
definition SWAP_PAGES :: nat where "SWAP_PAGES = 128"
definition SWAP_SIZE :: nat where "SWAP_SIZE = SWAP_PAGES * PAGESIZE"

lemmas sizes = PAGESIZE_def NPAGES_def RAM_PAGES_def RAM_SIZE_def SWAP_PAGES_def SWAP_SIZE_def

text \<open>The page numbers stored are below \<open>SWAP_PAGES\<close>, so the 27 bits of the field never overflow.\<close>

record page_table_entry_t =
  page :: nat
  inmemory :: bool
  ondisk :: bool
  modified :: bool
  referenced :: bool
  readonly :: bool

text \<open>\<open>owner\<close> is a pointer into the page table, its index here, or \<open>NULL\<close>.\<close>

record coremap_entry_t =
  owner :: "nat option"
  swap_page :: nat

record vm =
  num_pagefault :: u64
  num_disc_writes :: u64
  num_page_writes :: u64
  num_page_reads :: u64
  page_table :: "nat \<Rightarrow> page_table_entry_t"
  coremap :: "nat \<Rightarrow> coremap_entry_t"
  memory :: "nat \<Rightarrow> u32"
  swap :: "nat \<Rightarrow> u32"
  swap_count :: nat
  fifo_page :: nat
  second_chance_page :: nat

text \<open>All static data is zero at the start.\<close>

definition init_vm :: vm where
  "init_vm = \<lparr>num_pagefault = 0, num_disc_writes = 0, num_page_writes = 0, num_page_reads = 0,
     page_table = (\<lambda>_. \<lparr>page = 0, inmemory = False, ondisk = False, modified = False, referenced = False, readonly = False\<rparr>),
     coremap = (\<lambda>_. \<lparr>owner = None, swap_page = 0\<rparr>), memory = (\<lambda>_. 0), swap = (\<lambda>_. 0),
     swap_count = 0, fifo_page = 0, second_chance_page = 0\<rparr>"

abbreviation upd_pte :: "nat \<Rightarrow> (page_table_entry_t \<Rightarrow> page_table_entry_t) \<Rightarrow> vm \<Rightarrow> vm" where
  "upd_pte v f s \<equiv> s\<lparr>page_table := (page_table s)(v := f (page_table s v))\<rparr>"

abbreviation upd_core :: "nat \<Rightarrow> (coremap_entry_t \<Rightarrow> coremap_entry_t) \<Rightarrow> vm \<Rightarrow> vm" where
  "upd_core f g s \<equiv> s\<lparr>coremap := (coremap s)(f := g (coremap s f))\<rparr>"

section \<open>Page transfers and swap allocation\<close>

text \<open>\<open>memcpy\<close> of one page, word by word.\<close>

definition copy_page :: "(nat \<Rightarrow> u32) \<Rightarrow> nat \<Rightarrow> (nat \<Rightarrow> u32) \<Rightarrow> nat \<Rightarrow> (nat \<Rightarrow> u32)" where
  "copy_page dst d src r = (\<lambda>i. if d * PAGESIZE \<le> i \<and> i < d * PAGESIZE + PAGESIZE
     then src (r * PAGESIZE + (i - d * PAGESIZE)) else dst i)"

definition read_page :: "nat \<Rightarrow> nat \<Rightarrow> vm \<Rightarrow> vm option" where
  "read_page phys_page swp s =
     (if phys_page < RAM_PAGES \<and> swp < SWAP_PAGES
      then Some (s\<lparr>num_page_reads := num_page_reads s + 1, memory := copy_page (memory s) phys_page (swap s) swp\<rparr>)
      else None)"

definition write_page :: "nat \<Rightarrow> nat \<Rightarrow> vm \<Rightarrow> vm option" where
  "write_page phys_page swp s =
     (if phys_page < RAM_PAGES \<and> swp < SWAP_PAGES
      then Some (s\<lparr>num_page_writes := num_page_writes s + 1, swap := copy_page (swap s) swp (memory s) phys_page\<rparr>)
      else None)"

text \<open>\<open>new_swap_page\<close> asserts that a swap page is left; swap pages are never freed.\<close>

definition new_swap_page :: "vm \<Rightarrow> (nat \<times> vm) option" where
  "new_swap_page s = (if swap_count s < SWAP_PAGES then Some (swap_count s, s\<lparr>swap_count := swap_count s + 1\<rparr>) else None)"

section \<open>Page replacement\<close>

definition fifo_page_replace :: "vm \<Rightarrow> (nat \<times> vm) option" where
  "fifo_page_replace s =
     (let p = (fifo_page s + 1) mod RAM_PAGES
      in if p < RAM_PAGES then Some (p, s\<lparr>fifo_page := p\<rparr>) else None)"

partial_function (option) second_chance_loop :: "nat \<Rightarrow> vm \<Rightarrow> (nat \<times> vm) option" where
  "second_chance_loop p s =
     (case owner (coremap s p) of
        None \<Rightarrow> Some (p, s\<lparr>second_chance_page := p\<rparr>)
      | Some v \<Rightarrow>
          if referenced (page_table s v)
          then second_chance_loop ((p + 1) mod RAM_PAGES) (upd_pte v (referenced_update (\<lambda>_. False)) s)
          else Some (p, s\<lparr>second_chance_page := p\<rparr>))"

definition second_chance_replace :: "vm \<Rightarrow> (nat \<times> vm) option" where
  "second_chance_replace s =
     (if second_chance_page s < RAM_PAGES then second_chance_loop (second_chance_page s) s else None)"

section \<open>Page faults and address translation\<close>

text \<open>The part of \<open>take_phys_page\<close> after the choice: the owner of the frame is written to its swap
  page if it must be, and is then no longer in memory.\<close>

definition evict :: "nat \<Rightarrow> vm \<Rightarrow> vm option" where
  "evict p s =
     (case owner (coremap s p) of
        None \<Rightarrow> Some s
      | Some v \<Rightarrow> do {
          s1 \<leftarrow> (if ondisk (page_table s v) then do {
                  s' \<leftarrow> (if modified (page_table s v) then write_page p (swap_page (coremap s p)) s else Some s);
                  Some (upd_pte v (page_update (\<lambda>_. swap_page (coremap s p))) s') }
                else do {
                  (sp, s') \<leftarrow> new_swap_page s;
                  write_page p sp (upd_pte v (page_update (\<lambda>_. sp)) s') });
          Some (upd_pte v (\<lambda>e. e\<lparr>ondisk := True, modified := False, inmemory := False\<rparr>) s1) })"

definition take_phys_page :: "(vm \<Rightarrow> (nat \<times> vm) option) \<Rightarrow> vm \<Rightarrow> (nat \<times> vm) option" where
  "take_phys_page replace s0 = do { (p, s) \<leftarrow> replace s0; s' \<leftarrow> evict p s; Some (p, s') }"

definition pagefault :: "(vm \<Rightarrow> (nat \<times> vm) option) \<Rightarrow> nat \<Rightarrow> vm \<Rightarrow> vm option" where
  "pagefault replace virt_page s0 = do {
     (p, s) \<leftarrow> take_phys_page replace (s0\<lparr>num_pagefault := num_pagefault s0 + 1\<rparr>);
     s1 \<leftarrow> (if ondisk (page_table s virt_page)
            then read_page p (page (page_table s virt_page))
              (upd_core p (swap_page_update (\<lambda>_. page (page_table s virt_page))) s)
            else Some s);
     Some (upd_core p (owner_update (\<lambda>_. Some virt_page))
       (upd_pte virt_page (\<lambda>e. e\<lparr>inmemory := True, page := p\<rparr>) s1)) }"

definition translate :: "(vm \<Rightarrow> (nat \<times> vm) option) \<Rightarrow> u32 \<Rightarrow> bool \<Rightarrow> vm \<Rightarrow> (nat \<times> vm) option" where
  "translate replace virt_addr write s0 =
     (let virt_page = unat virt_addr div PAGESIZE;
          offset = unat virt_addr mod PAGESIZE
      in if virt_page < NPAGES then do {
           s \<leftarrow> (if \<not> inmemory (page_table s0 virt_page) then pagefault replace virt_page s0 else Some s0);
           let s1 = upd_pte virt_page (\<lambda>e. e\<lparr>referenced := True, modified := (write \<or> modified e)\<rparr>) s;
           Some (page (page_table s1 virt_page) * PAGESIZE + offset, s1) }
         else None)"

definition read_memory :: "(vm \<Rightarrow> (nat \<times> vm) option) \<Rightarrow> u32 \<Rightarrow> vm \<Rightarrow> (u32 \<times> vm) option" where
  "read_memory replace addr s0 = do {
     (phys_addr, s) \<leftarrow> translate replace addr False s0;
     if phys_addr < RAM_SIZE then Some (memory s phys_addr, s) else None }"

definition write_memory :: "(vm \<Rightarrow> (nat \<times> vm) option) \<Rightarrow> u32 \<Rightarrow> u32 \<Rightarrow> vm \<Rightarrow> vm option" where
  "write_memory replace addr d s0 = do {
     (phys_addr, s) \<leftarrow> translate replace addr True (s0\<lparr>num_disc_writes := num_disc_writes s0 + 1\<rparr>);
     if phys_addr < RAM_SIZE then Some (s\<lparr>memory := (memory s)(phys_addr := d)\<rparr>) else None }"

section \<open>The invariant and the virtual memory\<close>

text \<open>The swap page of a page that is on disk: while it is in memory its page table entry holds the
  frame, and the swap page is kept in the coremap.\<close>

definition slot :: "vm \<Rightarrow> nat \<Rightarrow> nat" where
  "slot s v = (if inmemory (page_table s v) then swap_page (coremap s (page (page_table s v)))
     else page (page_table s v))"

text \<open>
  \<open>paged X s\<close>: frames outside \<open>X\<close> and resident pages correspond one to one and no page is resident
  in \<open>X\<close>; pages on disk have distinct allocated swap pages; a page in memory that was not modified
  since it was read equals its copy on disk.
\<close>

definition resident_in_frames :: "nat set \<Rightarrow> vm \<Rightarrow> bool" where
  "resident_in_frames X s \<longleftrightarrow> (\<forall>v < NPAGES. inmemory (page_table s v) \<longrightarrow>
     page (page_table s v) < RAM_PAGES \<and> page (page_table s v) \<notin> X \<and> owner (coremap s (page (page_table s v))) = Some v)"

definition owners_resident :: "nat set \<Rightarrow> vm \<Rightarrow> bool" where
  "owners_resident X s \<longleftrightarrow> (\<forall>f < RAM_PAGES. f \<notin> X \<longrightarrow> (\<forall>v. owner (coremap s f) = Some v \<longrightarrow>
     v < NPAGES \<and> inmemory (page_table s v) \<and> page (page_table s v) = f))"

definition slots_allocated :: "vm \<Rightarrow> bool" where
  "slots_allocated s \<longleftrightarrow> (\<forall>v < NPAGES. ondisk (page_table s v) \<longrightarrow> slot s v < swap_count s)"

definition slots_distinct :: "vm \<Rightarrow> bool" where
  "slots_distinct s \<longleftrightarrow> (\<forall>v < NPAGES. \<forall>u < NPAGES. ondisk (page_table s v) \<longrightarrow> ondisk (page_table s u) \<longrightarrow>
     slot s v = slot s u \<longrightarrow> v = u)"

definition clean_on_disk :: "vm \<Rightarrow> bool" where
  "clean_on_disk s \<longleftrightarrow> (\<forall>v < NPAGES. inmemory (page_table s v) \<longrightarrow> ondisk (page_table s v) \<longrightarrow> \<not> modified (page_table s v) \<longrightarrow>
     (\<forall>i < PAGESIZE. memory s (page (page_table s v) * PAGESIZE + i) = swap s (slot s v * PAGESIZE + i)))"

definition paged :: "nat set \<Rightarrow> vm \<Rightarrow> bool" where
  "paged X s \<longleftrightarrow> resident_in_frames X s \<and> owners_resident X s \<and> slots_allocated s \<and> slots_distinct s \<and>
     clean_on_disk s \<and> swap_count s \<le> SWAP_PAGES \<and> second_chance_page s < RAM_PAGES"

lemmas paged_defs = paged_def resident_in_frames_def owners_resident_def slots_allocated_def slots_distinct_def clean_on_disk_def

text \<open>The word at offset \<open>i\<close> of virtual page \<open>v\<close>, \<open>None\<close> for a page that was never used.\<close>

definition vword :: "vm \<Rightarrow> nat \<Rightarrow> nat \<Rightarrow> u32 option" where
  "vword s v i =
     (if inmemory (page_table s v) then Some (memory s (page (page_table s v) * PAGESIZE + i))
      else if ondisk (page_table s v) then Some (swap s (page (page_table s v) * PAGESIZE + i))
      else None)"

definition same_words :: "vm \<Rightarrow> vm \<Rightarrow> bool" where
  "same_words s s' \<longleftrightarrow> (\<forall>v < NPAGES. \<forall>i < PAGESIZE. vword s' v i = vword s v i)"

text \<open>The pages that have been used.\<close>

definition touched :: "vm \<Rightarrow> nat set" where
  "touched s = {v. v < NPAGES \<and> (inmemory (page_table s v) \<or> ondisk (page_table s v))}"

definition swapped :: "vm \<Rightarrow> nat set" where
  "swapped s = {v. v < NPAGES \<and> ondisk (page_table s v)}"

lemma copy_page_same [simp]: "i < PAGESIZE \<Longrightarrow> copy_page dst d src r (d * PAGESIZE + i) = src (r * PAGESIZE + i)"
  by (simp add: copy_page_def)

lemma copy_page_other: "e \<noteq> d \<Longrightarrow> i < PAGESIZE \<Longrightarrow> copy_page dst d src r (e * PAGESIZE + i) = dst (e * PAGESIZE + i)"
proof -
  assume "e \<noteq> d" "i < PAGESIZE"
  then have "\<not> (d * PAGESIZE \<le> e * PAGESIZE + i \<and> e * PAGESIZE + i < d * PAGESIZE + PAGESIZE)"
    unfolding PAGESIZE_def by arith
  then show ?thesis by (auto simp: copy_page_def)
qed

lemma paged_resident:
  "paged X s \<Longrightarrow> v < NPAGES \<Longrightarrow> inmemory (page_table s v) \<Longrightarrow>
   page (page_table s v) < RAM_PAGES \<and> page (page_table s v) \<notin> X \<and> owner (coremap s (page (page_table s v))) = Some v"
  unfolding paged_def resident_in_frames_def by blast

lemma paged_owner:
  "paged X s \<Longrightarrow> f < RAM_PAGES \<Longrightarrow> f \<notin> X \<Longrightarrow> owner (coremap s f) = Some v \<Longrightarrow>
   v < NPAGES \<and> inmemory (page_table s v) \<and> page (page_table s v) = f"
  unfolding paged_def owners_resident_def by blast

lemma paged_slot: "paged X s \<Longrightarrow> v < NPAGES \<Longrightarrow> ondisk (page_table s v) \<Longrightarrow> slot s v < swap_count s"
  unfolding paged_def slots_allocated_def by blast

lemma paged_slot_inj:
  "paged X s \<Longrightarrow> v < NPAGES \<Longrightarrow> u < NPAGES \<Longrightarrow> ondisk (page_table s v) \<Longrightarrow> ondisk (page_table s u) \<Longrightarrow>
   slot s v = slot s u \<Longrightarrow> v = u"
  unfolding paged_def slots_distinct_def by blast

lemma paged_clean:
  "paged X s \<Longrightarrow> v < NPAGES \<Longrightarrow> inmemory (page_table s v) \<Longrightarrow> ondisk (page_table s v) \<Longrightarrow> \<not> modified (page_table s v) \<Longrightarrow>
   i < PAGESIZE \<Longrightarrow> memory s (page (page_table s v) * PAGESIZE + i) = swap s (slot s v * PAGESIZE + i)"
  unfolding paged_def clean_on_disk_def by blast

lemma paged_bounds: "paged X s \<Longrightarrow> swap_count s \<le> SWAP_PAGES" "paged X s \<Longrightarrow> second_chance_page s < RAM_PAGES"
  unfolding paged_def by blast+

lemmas pagedD = paged_resident paged_owner paged_slot paged_bounds paged_slot_inj paged_clean

text \<open>Distinct resident pages are in distinct frames.\<close>

lemma frame_inj:
  "paged X s \<Longrightarrow> v < NPAGES \<Longrightarrow> u < NPAGES \<Longrightarrow> inmemory (page_table s v) \<Longrightarrow> inmemory (page_table s u) \<Longrightarrow>
   page (page_table s v) = page (page_table s u) \<Longrightarrow> v = u"
  using paged_resident[of X s v] paged_resident[of X s u] by (metis option.inject)

section \<open>Eviction\<close>

text \<open>The page \<open>v\<close> moves from frame \<open>p\<close> to swap page \<open>sp\<close>, whose contents become those of the frame.\<close>

lemma evicted:
  assumes inv: "paged {} s" and p: "p < RAM_PAGES" "owner (coremap s p) = Some v"
    and sp: "sp < swap_count s'" "\<And>u. u < NPAGES \<Longrightarrow> u \<noteq> v \<Longrightarrow> ondisk (page_table s u) \<Longrightarrow> slot s u \<noteq> sp"
    and pt: "page_table s' = (page_table s)(v := e)" "page e = sp" "ondisk e" "\<not> inmemory e"
    and sw: "\<And>i. i < PAGESIZE \<Longrightarrow> swap s' (sp * PAGESIZE + i) = memory s (p * PAGESIZE + i)"
      "\<And>q i. q \<noteq> sp \<Longrightarrow> i < PAGESIZE \<Longrightarrow> swap s' (q * PAGESIZE + i) = swap s (q * PAGESIZE + i)"
    and same: "coremap s' = coremap s" "memory s' = memory s" "second_chance_page s' = second_chance_page s"
      "swap_count s \<le> swap_count s'" "swap_count s' \<le> SWAP_PAGES"
  shows "paged {p} s'" "same_words s s'" "touched s' = touched s" "swapped s' = insert v (swapped s)"
proof -
  have v: "v < NPAGES" "inmemory (page_table s v)" "page (page_table s v) = p"
    using pagedD(2)[OF inv p(1) _ p(2)] by auto
  have slot': "slot s' u = (if u = v then sp else slot s u)" for u
    using pt same(1) by (simp add: slot_def)
  have other: "page (page_table s u) \<noteq> p" if "u < NPAGES" "u \<noteq> v" "inmemory (page_table s u)" for u
    using frame_inj[OF inv that(1) v(1) that(3) v(2)] that(2) v(3) by auto
  note D = pagedD[OF inv]
  show "paged {p} s'"
    unfolding paged_defs
  proof (intro conjI allI impI)
    fix u assume "u < NPAGES" "inmemory (page_table s' u)"
    then show "page (page_table s' u) < RAM_PAGES" "page (page_table s' u) \<notin> {p}"
      "owner (coremap s' (page (page_table s' u))) = Some u"
      using D(1)[of u] other[of u] pt same(1) by (auto split: if_splits)
  next
    fix f u assume "f < RAM_PAGES" "f \<notin> {p}" "owner (coremap s' f) = Some u"
    then show "u < NPAGES" "inmemory (page_table s' u)" "page (page_table s' u) = f"
      using D(2)[of f u] v(3) pt same(1) by auto
  next
    fix u assume "u < NPAGES" "ondisk (page_table s' u)"
    then show "slot s' u < swap_count s'"
      using D(3)[of u] sp(1) same(4) pt by (auto simp: slot' split: if_splits)
  next
    show "swap_count s' \<le> SWAP_PAGES" "second_chance_page s' < RAM_PAGES" using D(5) same by auto
  next
    fix u w assume "u < NPAGES" "w < NPAGES" "ondisk (page_table s' u)" "ondisk (page_table s' w)" "slot s' u = slot s' w"
    then show "u = w" using D(6)[of u w] sp(2)[of u] sp(2)[of w] pt by (auto simp: slot' split: if_splits)
  next
    fix u i assume u: "u < NPAGES" "inmemory (page_table s' u)" "ondisk (page_table s' u)"
      "\<not> modified (page_table s' u)" "i < PAGESIZE"
    then have "u \<noteq> v" using pt by auto
    then show "memory s' (page (page_table s' u) * PAGESIZE + i) = swap s' (slot s' u * PAGESIZE + i)"
      using D(7)[of u i] u pt(1) sw(2)[of "slot s u" i] sp(2)[of u] by (simp add: slot' same)
  qed
  have "page (page_table s u) \<noteq> sp" if "u < NPAGES" "u \<noteq> v" "\<not> inmemory (page_table s u)" "ondisk (page_table s u)" for u
    using that sp(2)[of u] by (simp add: slot_def)
  then show "same_words s s'"
    unfolding same_words_def vword_def using v pt sw same(2) by (auto split: if_splits)
  show "touched s' = touched s" "swapped s' = insert v (swapped s)"
    using v pt by (auto simp: touched_def swapped_def)
qed

definition swap_exact :: "vm \<Rightarrow> bool" where
  "swap_exact s \<longleftrightarrow> swap_count s = card (swapped s)"

lemma finite_pages [simp]: "finite (touched s)" "finite (swapped s)"
  by (auto simp: touched_def swapped_def)

lemma swapped_touched: "swapped s \<subseteq> touched s"
  by (auto simp: touched_def swapped_def)

lemma paged_hole: "paged {} s \<Longrightarrow> p < RAM_PAGES \<Longrightarrow> owner (coremap s p) = None \<Longrightarrow> paged {p} s"
  unfolding paged_def resident_in_frames_def owners_resident_def by (metis empty_iff option.distinct(1) singletonD)

text \<open>What \<open>evict p\<close> leaves: the frame \<open>p\<close> is free, the contents of the virtual memory are unchanged.\<close>

definition freed :: "nat \<Rightarrow> vm \<Rightarrow> vm \<Rightarrow> bool" where
  "freed p s s' \<longleftrightarrow> paged {p} s' \<and> same_words s s' \<and> touched s' = touched s \<and> swap_exact s' \<and>
     (\<forall>u. inmemory (page_table s' u) \<longrightarrow> inmemory (page_table s u))"

lemma evict_disk:
  assumes inv: "paged {} s" "swap_exact s" and p: "p < RAM_PAGES" "owner (coremap s p) = Some v"
    and d: "ondisk (page_table s v)"
  shows "\<exists>s'. evict p s = Some s' \<and> freed p s s'"
proof -
  define sp where "sp = swap_page (coremap s p)"
  have v: "v < NPAGES" "inmemory (page_table s v)" "page (page_table s v) = p"
    using paged_owner[OF inv(1) p(1) _ p(2)] by auto
  have slot: "slot s v = sp" using v by (simp add: slot_def sp_def)
  then have sp: "sp < swap_count s" "sp < SWAP_PAGES"
    using paged_slot[OF inv(1) v(1) d] paged_bounds(1)[OF inv(1)] by auto
  define s' where "s' = (if modified (page_table s v)
     then s\<lparr>num_page_writes := num_page_writes s + 1, swap := copy_page (swap s) sp (memory s) p,
       page_table := (page_table s)(v := page_table s v\<lparr>page := sp, ondisk := True, modified := False, inmemory := False\<rparr>)\<rparr>
     else s\<lparr>page_table := (page_table s)(v := page_table s v\<lparr>page := sp, ondisk := True, modified := False, inmemory := False\<rparr>)\<rparr>)"
  have ev: "evict p s = Some s'"
    using p d sp by (simp add: evict_def write_page_def s'_def sp_def[symmetric])
  have fresh: "slot s u \<noteq> sp" if "u < NPAGES" "u \<noteq> v" "ondisk (page_table s u)" for u
    using paged_slot_inj[OF inv(1) that(1) v(1) that(3) d] that(2) slot by auto
  have sw: "swap s' (sp * PAGESIZE + i) = memory s (p * PAGESIZE + i)" if "i < PAGESIZE" for i
    using that paged_clean[OF inv(1) v(1,2) d _ that] slot v(3) by (auto simp: s'_def)
  have "paged {p} s' \<and> same_words s s' \<and> touched s' = touched s \<and> swapped s' = insert v (swapped s)"
    by (intro conjI; rule evicted[OF inv(1) p])
      (use sp sw fresh paged_bounds(1)[OF inv(1)] in \<open>auto simp: s'_def copy_page_other\<close>)
  moreover have "insert v (swapped s) = swapped s" "swap_count s' = swap_count s"
    using v d by (auto simp: swapped_def s'_def)
  moreover have "inmemory (page_table s' u) \<longrightarrow> inmemory (page_table s u)" for u by (simp add: s'_def)
  ultimately show ?thesis using ev inv(2) by (auto simp: freed_def swap_exact_def)
qed

lemma evict_new:
  assumes inv: "paged {} s" "swap_exact s" and p: "p < RAM_PAGES" "owner (coremap s p) = Some v"
    and d: "\<not> ondisk (page_table s v)" and room: "card (touched s) \<le> SWAP_PAGES"
  shows "\<exists>s'. evict p s = Some s' \<and> freed p s s'"
proof -
  define sp where "sp = swap_count s"
  have v: "v < NPAGES" "inmemory (page_table s v)" "page (page_table s v) = p"
    using paged_owner[OF inv(1) p(1) _ p(2)] by auto
  have "swapped s \<subset> touched s" using v d by (auto simp: touched_def swapped_def)
  then have sp: "sp < SWAP_PAGES"
    using psubset_card_mono[of "touched s" "swapped s"] room inv(2) by (simp add: swap_exact_def sp_def)
  define s' where "s' = s\<lparr>num_page_writes := num_page_writes s + 1, swap := copy_page (swap s) sp (memory s) p, swap_count := sp + 1,
       page_table := (page_table s)(v := page_table s v\<lparr>page := sp, ondisk := True, modified := False, inmemory := False\<rparr>)\<rparr>"
  have ev: "evict p s = Some s'"
    using p d sp by (simp add: evict_def write_page_def new_swap_page_def s'_def sp_def[symmetric])
  have fresh: "slot s u \<noteq> sp" if "u < NPAGES" "ondisk (page_table s u)" for u
    using paged_slot[OF inv(1) that] by (simp add: sp_def)
  have "paged {p} s' \<and> same_words s s' \<and> touched s' = touched s \<and> swapped s' = insert v (swapped s)"
    by (intro conjI; rule evicted[OF inv(1) p])
      (use sp fresh in \<open>auto simp: s'_def copy_page_other sp_def\<close>)
  moreover have "v \<notin> swapped s" using d by (simp add: swapped_def)
  moreover have "inmemory (page_table s' u) \<longrightarrow> inmemory (page_table s u)" for u by (simp add: s'_def)
  ultimately show ?thesis using ev inv(2) by (auto simp: freed_def swap_exact_def s'_def sp_def)
qed

lemma evict_ok:
  assumes "paged {} s" "swap_exact s" "p < RAM_PAGES" "card (touched s) \<le> SWAP_PAGES"
  shows "\<exists>s'. evict p s = Some s' \<and> freed p s s'"
proof (cases "owner (coremap s p)")
  case None
  then show ?thesis using assms paged_hole by (simp add: evict_def freed_def same_words_def)
next
  case (Some v)
  then show ?thesis using assms evict_disk evict_new by blast
qed

section \<open>Loading a page\<close>

lemma core_entry_full [simp]: "c\<lparr>swap_page := q, owner := w\<rparr> = \<lparr>owner = w, swap_page = q\<rparr>"
  "c\<lparr>owner := w\<rparr> = \<lparr>owner = w, swap_page = swap_page c\<rparr>" for c :: coremap_entry_t
  by (cases c; simp)+

lemma loaded:
  assumes inv: "paged {p} s" and p: "p < RAM_PAGES" and v: "v < NPAGES" "\<not> inmemory (page_table s v)"
    and pt: "page_table s' = (page_table s)(v := page_table s v\<lparr>inmemory := True, page := p\<rparr>)"
    and cm: "coremap s' = (coremap s)(p := \<lparr>owner = Some v, swap_page = sp\<rparr>)" "ondisk (page_table s v) \<Longrightarrow> sp = page (page_table s v)"
    and me: "\<And>q i. q \<noteq> p \<Longrightarrow> i < PAGESIZE \<Longrightarrow> memory s' (q * PAGESIZE + i) = memory s (q * PAGESIZE + i)"
      "\<And>i. i < PAGESIZE \<Longrightarrow> ondisk (page_table s v) \<Longrightarrow> memory s' (p * PAGESIZE + i) = swap s (sp * PAGESIZE + i)"
    and same: "swap s' = swap s" "swap_count s' = swap_count s" "second_chance_page s' = second_chance_page s"
  shows "paged {} s'" "\<And>u i. u < NPAGES \<Longrightarrow> i < PAGESIZE \<Longrightarrow> u \<in> touched s \<Longrightarrow> vword s' u i = vword s u i"
    "touched s' = insert v (touched s)" "swapped s' = swapped s"
proof -
  note D = pagedD[OF inv]
  have ne: "page (page_table s u) \<noteq> p" if "u < NPAGES" "inmemory (page_table s u)" for u using D(1)[OF that] by auto
  have slot': "slot s' u = slot s u" if "u < NPAGES" "ondisk (page_table s u)" for u
    using that ne[of u] v pt cm by (auto simp: slot_def)
  show "paged {} s'"
    unfolding paged_defs
  proof (intro conjI allI impI)
    fix u assume "u < NPAGES" "inmemory (page_table s' u)"
    then show "page (page_table s' u) < RAM_PAGES" "page (page_table s' u) \<notin> {}"
      "owner (coremap s' (page (page_table s' u))) = Some u"
      using D(1)[of u] pt cm(1) p by (auto split: if_splits)
  next
    fix f u assume "f < RAM_PAGES" "f \<notin> {}" "owner (coremap s' f) = Some u"
    then show "u < NPAGES" "inmemory (page_table s' u)" "page (page_table s' u) = f"
      using D(2)[of f u] pt cm(1) v by (auto split: if_splits)
  next
    fix u assume "u < NPAGES" "ondisk (page_table s' u)"
    then show "slot s' u < swap_count s'"
      using D(3)[of u] slot'[of u] pt same by (auto split: if_splits)
  next
    show "swap_count s' \<le> SWAP_PAGES" "second_chance_page s' < RAM_PAGES" using D(4,5) same by auto
  next
    fix u w assume "u < NPAGES" "w < NPAGES" "ondisk (page_table s' u)" "ondisk (page_table s' w)" "slot s' u = slot s' w"
    moreover have "ondisk (page_table s' x) = ondisk (page_table s x)" for x using pt by simp
    ultimately show "u = w" using D(6)[of u w] slot'[of u] slot'[of w] by metis
  next
    fix u i assume u: "u < NPAGES" "inmemory (page_table s' u)" "ondisk (page_table s' u)"
      "\<not> modified (page_table s' u)" "i < PAGESIZE"
    show "memory s' (page (page_table s' u) * PAGESIZE + i) = swap s' (slot s' u * PAGESIZE + i)"
    proof (cases "u = v")
      case True
      then have "slot s' u = sp" "page (page_table s' u) = p" "ondisk (page_table s v)"
        using u(3) pt cm(1) by (simp_all add: slot_def)
      then show ?thesis using me(2)[OF u(5)] same(1) by simp
    next
      case False
      then have "page_table s' u = page_table s u" using pt by simp
      then show ?thesis using D(7)[of u i] u me(1)[OF ne[of u] u(5)] slot'[OF u(1)] same(1) by simp
    qed
  qed
  show "vword s' u i = vword s u i" if "u < NPAGES" "i < PAGESIZE" "u \<in> touched s" for u i
    using that ne[of u] v pt cm me same(1) by (auto simp: vword_def touched_def)
  show "touched s' = insert v (touched s)" "swapped s' = swapped s"
    using v pt by (auto simp: touched_def swapped_def)
qed

section \<open>Bits, hands and counters\<close>

text \<open>Everything but the referenced bits, set modified bits, the hands of the algorithms and the counters.\<close>

definition alike :: "vm \<Rightarrow> vm \<Rightarrow> bool" where
  "alike s s' \<longleftrightarrow> (\<forall>v. page (page_table s' v) = page (page_table s v) \<and> inmemory (page_table s' v) = inmemory (page_table s v) \<and>
       ondisk (page_table s' v) = ondisk (page_table s v) \<and> (modified (page_table s v) \<longrightarrow> modified (page_table s' v))) \<and>
     coremap s' = coremap s \<and> memory s' = memory s \<and> swap s' = swap s \<and> swap_count s' = swap_count s \<and>
     (second_chance_page s < RAM_PAGES \<longrightarrow> second_chance_page s' < RAM_PAGES)"

lemma alike_refl [simp]: "alike s s"
  by (simp add: alike_def)

lemma alike_trans: "alike s s' \<Longrightarrow> alike s' s'' \<Longrightarrow> alike s s''"
  by (simp add: alike_def)

lemma alike_slot: "alike s s' \<Longrightarrow> slot s' = slot s"
  by (rule ext) (simp add: alike_def slot_def)

lemma alike_vword [simp]: "alike s s' \<Longrightarrow> vword s' = vword s"
  by (intro ext) (simp add: alike_def vword_def)

lemma alike_sets [simp]: "alike s s' \<Longrightarrow> touched s' = touched s" "alike s s' \<Longrightarrow> swapped s' = swapped s"
  by (simp_all add: alike_def touched_def swapped_def)

lemma alike_inmemory: "alike s s' \<Longrightarrow> inmemory (page_table s' u) = inmemory (page_table s u)"
  by (simp add: alike_def)

lemma alike_paged:
  assumes a: "alike s s'" and "paged X s"
  shows "paged X s'"
proof -
  have e: "page (page_table s' v) = page (page_table s v)" "inmemory (page_table s' v) = inmemory (page_table s v)"
    "ondisk (page_table s' v) = ondisk (page_table s v)" "slot s' v = slot s v" for v
    using a alike_slot[OF a] by (simp_all add: alike_def)
  have m: "modified (page_table s v) \<Longrightarrow> modified (page_table s' v)" for v using a by (simp add: alike_def)
  have f: "coremap s' = coremap s" "memory s' = memory s" "swap s' = swap s" "swap_count s' = swap_count s"
    "second_chance_page s < RAM_PAGES \<Longrightarrow> second_chance_page s' < RAM_PAGES"
    using a by (simp_all add: alike_def)
  show ?thesis
    using assms(2) m f(5) unfolding paged_defs e f(1-4) by blast
qed

definition vm_ok :: "vm \<Rightarrow> bool" where
  "vm_ok s \<longleftrightarrow> paged {} s \<and> swap_exact s"

lemma alike_vm_ok: "alike s s' \<Longrightarrow> vm_ok s \<Longrightarrow> vm_ok s'"
  using alike_paged[of s s' "{}"] alike_sets(2)[of s s'] unfolding vm_ok_def swap_exact_def alike_def by metis

lemma vm_ok_init: "vm_ok init_vm" "touched init_vm = {}"
  by (simp_all add: vm_ok_def paged_defs swap_exact_def init_vm_def touched_def swapped_def sizes)

text \<open>The virtual memory grows from \<open>s\<close> to \<open>s'\<close> but does not change.\<close>

definition keeps :: "vm \<Rightarrow> vm \<Rightarrow> bool" where
  "keeps s s' \<longleftrightarrow> (\<forall>u < NPAGES. \<forall>i < PAGESIZE. u \<in> touched s \<longrightarrow> vword s' u i = vword s u i)"

lemma keeps_alike: "alike s s' \<Longrightarrow> keeps s s'"
  by (simp add: keeps_def)

lemma keeps_trans: "keeps s s' \<Longrightarrow> keeps s' s'' \<Longrightarrow> touched s \<subseteq> touched s' \<Longrightarrow> keeps s s''"
  by (auto simp: keeps_def)

lemma keeps_same_words: "same_words s s' \<Longrightarrow> keeps s s'"
  by (simp add: keeps_def same_words_def)

section \<open>The memory the program sees\<close>

definition page_of :: "u32 \<Rightarrow> nat" where
  "page_of a = unat a div PAGESIZE"

definition vmem :: "vm \<Rightarrow> u32 \<Rightarrow> u32 option" where
  "vmem s a = (if page_of a < NPAGES then vword s (page_of a) (unat a mod PAGESIZE) else None)"

definition pages_of :: "(u32 \<rightharpoonup> u32) \<Rightarrow> nat set" where
  "pages_of m = page_of ` dom m"

text \<open>The contents that fit: addresses of the page table, on no more pages than there are swap pages.\<close>

definition fits :: "(u32 \<rightharpoonup> u32) \<Rightarrow> bool" where
  "fits m \<longleftrightarrow> pages_of m \<subseteq> {..<NPAGES} \<and> card (pages_of m) \<le> SWAP_PAGES"

text \<open>The virtual memory \<open>s\<close> holds the contents \<open>m\<close>.\<close>

definition holds :: "(u32 \<rightharpoonup> u32) \<Rightarrow> vm \<Rightarrow> bool" where
  "holds m s \<longleftrightarrow> vm_ok s \<and> m \<subseteq>\<^sub>m vmem s \<and> touched s = pages_of m \<and> card (pages_of m) \<le> SWAP_PAGES"

lemma offset_less [simp]: "i mod PAGESIZE < PAGESIZE"
  by (simp add: PAGESIZE_def)

lemma page_offset_inj: "page_of a = page_of b \<Longrightarrow> unat a mod PAGESIZE = unat b mod PAGESIZE \<Longrightarrow> a = b"
  unfolding page_of_def by (metis div_mult_mod_eq word_unat_eq_iff)

lemma alike_vmem: "alike s s' \<Longrightarrow> vmem s' = vmem s"
  by (rule ext) (simp add: vmem_def)

lemma vmem_defined: "vmem s a = Some d \<Longrightarrow> page_of a \<in> touched s"
  by (auto simp: vmem_def vword_def touched_def split: if_splits)

lemma keeps_vmem: "keeps s s' \<Longrightarrow> vmem s \<subseteq>\<^sub>m vmem s'"
  unfolding map_le_def
proof
  fix a assume k: "keeps s s'" and "a \<in> dom (vmem s)"
  then obtain d where "vmem s a = Some d" by auto
  then have "page_of a \<in> touched s" "page_of a < NPAGES"
    using vmem_defined by (auto simp: vmem_def split: if_splits)
  then show "vmem s a = vmem s' a" using k by (simp add: keeps_def vmem_def)
qed

lemma pages_of_upd: "pages_of (m(a \<mapsto> d)) = insert (page_of a) (pages_of m)"
  by (auto simp: pages_of_def)

lemma holds_empty: "holds Map.empty init_vm"
  using vm_ok_init by (simp add: holds_def pages_of_def)

text \<open>Writing a word of a resident page.\<close>

lemma store_resident:
  assumes "vm_ok s" and v: "v < NPAGES" "inmemory (page_table s v)" "modified (page_table s v)" and i: "i < PAGESIZE"
    and s': "s' = s\<lparr>memory := (memory s)(page (page_table s v) * PAGESIZE + i := d)\<rparr>"
  shows "vm_ok s'" "vword s' v i = Some d" "touched s' = touched s"
    "\<And>u j. u < NPAGES \<Longrightarrow> j < PAGESIZE \<Longrightarrow> (u, j) \<noteq> (v, i) \<Longrightarrow> vword s' u j = vword s u j"
proof -
  have inv: "paged {} s" "swap_exact s" using assms(1) by (auto simp: vm_ok_def)
  have ne: "page (page_table s u) * PAGESIZE + j \<noteq> page (page_table s v) * PAGESIZE + i"
    if "u < NPAGES" "inmemory (page_table s u)" "j < PAGESIZE" "(u, j) \<noteq> (v, i)" for u j
  proof
    assume "page (page_table s u) * PAGESIZE + j = page (page_table s v) * PAGESIZE + i"
    then have "page (page_table s u) = page (page_table s v)" "j = i"
      using that(3) i unfolding PAGESIZE_def by arith+
    then show False using frame_inj[OF inv(1) that(1) v(1) that(2) v(2)] that(4) by auto
  qed
  have slot: "slot s' = slot s" by (rule ext) (simp add: s' slot_def)
  have clean: "clean_on_disk s'"
    unfolding clean_on_disk_def
  proof (intro allI impI)
    fix u j assume "u < NPAGES" "inmemory (page_table s' u)" "ondisk (page_table s' u)" "\<not> modified (page_table s' u)" "j < PAGESIZE"
    then show "memory s' (page (page_table s' u) * PAGESIZE + j) = swap s' (slot s' u * PAGESIZE + j)"
      using paged_clean[OF inv(1), of u j] ne[of u j] v(3) by (cases "u = v") (simp_all add: s' slot[unfolded s'])
  qed
  have "resident_in_frames {} s' = resident_in_frames {} s" "owners_resident {} s' = owners_resident {} s"
    "slots_allocated s' = slots_allocated s" "slots_distinct s' = slots_distinct s"
    unfolding resident_in_frames_def owners_resident_def slots_allocated_def slots_distinct_def slot
    by (simp_all add: s')
  then show "vm_ok s'"
    using inv clean unfolding vm_ok_def paged_def swap_exact_def swapped_def by (simp add: s')
  show "vword s' v i = Some d" "touched s' = touched s" using v by (simp_all add: s' vword_def touched_def)
  show "vword s' u j = vword s u j" if "u < NPAGES" "j < PAGESIZE" "(u, j) \<noteq> (v, i)" for u j
    using ne[of u j] that by (auto simp: s' vword_def)
qed

section \<open>The interface of a memory\<close>

text \<open>What the processor relies on: \<open>repr m s\<close> says that the memory in state \<open>s\<close> holds \<open>m\<close>; a word that
  is held is read, and a word is written as long as the contents fit.\<close>

locale program_memory =
  fixes rd :: "u32 \<Rightarrow> 's \<Rightarrow> (u32 \<times> 's) option" and wr :: "u32 \<Rightarrow> u32 \<Rightarrow> 's \<Rightarrow> 's option"
    and repr :: "(u32 \<rightharpoonup> u32) \<Rightarrow> 's \<Rightarrow> bool"
  assumes read_law: "repr m s \<Longrightarrow> m a = Some d \<Longrightarrow> \<exists>s'. rd a s = Some (d, s') \<and> repr m s'"
    and write_law: "repr m s \<Longrightarrow> fits (m(a \<mapsto> d)) \<Longrightarrow> \<exists>s'. wr a d s = Some s' \<and> repr (m(a \<mapsto> d)) s'"

section \<open>The interface of the replacement algorithms\<close>

text \<open>What \<open>take_phys_page\<close> relies on: in a consistent state the algorithm returns a frame, and it moves
  no page.\<close>

locale replacement_policy =
  fixes pick :: "vm \<Rightarrow> (nat \<times> vm) option"
  assumes chooses: "paged {} s \<Longrightarrow> \<exists>p s'. pick s = Some (p, s') \<and> p < RAM_PAGES \<and> alike s s'"
begin

lemma take_phys_page_ok:
  assumes "vm_ok s" "card (touched s) \<le> SWAP_PAGES"
  shows "\<exists>p s'. take_phys_page pick s = Some (p, s') \<and> p < RAM_PAGES \<and> freed p s s'"
proof -
  obtain p s1 where 1: "pick s = Some (p, s1)" "p < RAM_PAGES" "alike s s1"
    using chooses assms(1) unfolding vm_ok_def by blast
  obtain s2 where "evict p s1 = Some s2" "freed p s1 s2"
    using evict_ok[of s1 p] alike_vm_ok[OF 1(3) assms(1)] assms(2) 1 by (auto simp: vm_ok_def)
  then show ?thesis using 1 by (auto simp: take_phys_page_def freed_def same_words_def alike_inmemory)
qed

lemma pagefault_ok:
  assumes "vm_ok s" "card (touched s) \<le> SWAP_PAGES" "v < NPAGES" "\<not> inmemory (page_table s v)"
  shows "\<exists>s'. pagefault pick v s = Some s' \<and> vm_ok s' \<and> keeps s s' \<and> touched s' = insert v (touched s) \<and>
     inmemory (page_table s' v)"
proof -
  let ?s0 = "s\<lparr>num_pagefault := num_pagefault s + 1\<rparr>"
  have a: "alike s ?s0" by (simp add: alike_def)
  obtain p s1 where 1: "take_phys_page pick ?s0 = Some (p, s1)" "p < RAM_PAGES" "freed p ?s0 s1"
    using take_phys_page_ok[OF alike_vm_ok[OF a assms(1)]] assms(2) a by auto
  have 2: "paged {p} s1" "keeps s s1" "touched s1 = touched s" "swap_exact s1"
    using 1(3) a by (auto simp: freed_def keeps_def same_words_def)
  have nin: "\<not> inmemory (page_table s1 v)"
    using 1(3) a assms(4) by (auto simp: freed_def alike_def)
  define sp where "sp = (if ondisk (page_table s1 v) then page (page_table s1 v) else swap_page (coremap s1 p))"
  have spb: "sp < SWAP_PAGES" if "ondisk (page_table s1 v)"
    using paged_slot[OF 2(1) assms(3) that] paged_bounds(1)[OF 2(1)] nin that by (simp add: sp_def slot_def)
  define s' where "s' = (if ondisk (page_table s1 v) then s1\<lparr>num_page_reads := num_page_reads s1 + 1,
       memory := copy_page (memory s1) p (swap s1) sp\<rparr> else s1)
      \<lparr>page_table := (page_table s1)(v := page_table s1 v\<lparr>inmemory := True, page := p\<rparr>),
       coremap := (coremap s1)(p := \<lparr>owner = Some v, swap_page = sp\<rparr>)\<rparr>"
  have pf: "pagefault pick v s = Some s'"
    using 1(1,2) spb by (simp add: pagefault_def read_page_def s'_def sp_def)
  have "paged {} s' \<and> (\<forall>u i. u < NPAGES \<longrightarrow> i < PAGESIZE \<longrightarrow> u \<in> touched s1 \<longrightarrow> vword s' u i = vword s1 u i) \<and>
      touched s' = insert v (touched s1) \<and> swapped s' = swapped s1"
    by (intro conjI allI impI; rule loaded[where sp = sp, OF 2(1) 1(2) assms(3) nin])
      (auto simp: s'_def sp_def copy_page_other split: if_splits)
  moreover have "swap_count s' = swap_count s1" "inmemory (page_table s' v)" by (simp_all add: s'_def)
  ultimately show ?thesis
    using pf 2 by (auto simp: vm_ok_def keeps_def swap_exact_def)
qed


lemma translate_ok:
  assumes "vm_ok s" "card (touched s) \<le> SWAP_PAGES" "page_of a < NPAGES"
  shows "\<exists>s'. translate pick a w s = Some (page (page_table s' (page_of a)) * PAGESIZE + unat a mod PAGESIZE, s') \<and>
     vm_ok s' \<and> keeps s s' \<and> touched s' = insert (page_of a) (touched s) \<and> inmemory (page_table s' (page_of a)) \<and>
     (w \<longrightarrow> modified (page_table s' (page_of a)))"
proof -
  obtain s1 where 1: "(if \<not> inmemory (page_table s (page_of a)) then pagefault pick (page_of a) s else Some s) = Some s1"
    "vm_ok s1" "keeps s s1" "touched s1 = insert (page_of a) (touched s)" "inmemory (page_table s1 (page_of a))"
  proof (cases "inmemory (page_table s (page_of a))")
    case True
    then have "insert (page_of a) (touched s) = touched s" using assms(3) by (auto simp: touched_def)
    then show ?thesis using True assms(1) by (intro that[of s]) (simp_all add: keeps_def)
  next
    case False
    then show ?thesis using pagefault_ok[OF assms] that by auto
  qed
  define s2 where "s2 = upd_pte (page_of a) (\<lambda>e. e\<lparr>referenced := True, modified := (w \<or> modified e)\<rparr>) s1"
  have a: "alike s1 s2" by (simp add: alike_def s2_def)
  have "translate pick a w s = Some (page (page_table s2 (page_of a)) * PAGESIZE + unat a mod PAGESIZE, s2)"
    using 1(1) assms(3) unfolding translate_def Let_def page_of_def[symmetric] s2_def by simp
  moreover have "keeps s s2" using keeps_trans[OF 1(3) keeps_alike[OF a]] 1(4) by auto
  moreover have "inmemory (page_table s2 (page_of a))" "w \<longrightarrow> modified (page_table s2 (page_of a))"
    using 1(5) by (simp_all add: s2_def)
  ultimately show ?thesis using alike_vm_ok[OF a 1(2)] alike_sets(1)[OF a] 1(4) by blast
qed

lemma phys_bound: "vm_ok s \<Longrightarrow> v < NPAGES \<Longrightarrow> inmemory (page_table s v) \<Longrightarrow> i < PAGESIZE \<Longrightarrow>
  page (page_table s v) * PAGESIZE + i < RAM_SIZE"
  using paged_resident[of "{}" s v] unfolding vm_ok_def sizes by arith

lemma read_memory_ok:
  assumes "holds m s" "m a = Some d"
  shows "\<exists>s'. read_memory pick a s = Some (d, s') \<and> holds m s'"
proof -
  have d: "vmem s a = Some d" using assms unfolding holds_def map_le_def by (metis domI)
  then have a: "page_of a < NPAGES" "page_of a \<in> touched s"
    using vmem_defined by (auto simp: vmem_def split: if_splits)
  have ok: "vm_ok s" "card (touched s) \<le> SWAP_PAGES" using assms(1) by (simp_all add: holds_def)
  obtain s' where 1: "translate pick a False s = Some (page (page_table s' (page_of a)) * PAGESIZE + unat a mod PAGESIZE, s')"
    "vm_ok s'" "keeps s s'" "touched s' = insert (page_of a) (touched s)" "inmemory (page_table s' (page_of a))"
    using translate_ok[OF ok a(1), of False] by blast
  have le: "vmem s \<subseteq>\<^sub>m vmem s'" by (rule keeps_vmem[OF 1(3)])
  then have "vmem s' a = Some d" using d by (metis domI map_le_def)
  then have "memory s' (page (page_table s' (page_of a)) * PAGESIZE + unat a mod PAGESIZE) = d"
    using 1(5) a(1) by (simp add: vmem_def vword_def)
  then have "read_memory pick a s = Some (d, s')"
    using 1(1) phys_bound[OF 1(2) a(1) 1(5)] by (simp add: read_memory_def)
  moreover have "holds m s'"
    using assms(1) 1 le a(2) by (auto simp: holds_def intro: map_le_trans)
  ultimately show ?thesis by blast
qed

lemma write_memory_ok:
  assumes "holds m s" "fits (m(a \<mapsto> d))"
  shows "\<exists>s'. write_memory pick a d s = Some s' \<and> holds (m(a \<mapsto> d)) s'"
proof -
  let ?s = "s\<lparr>num_disc_writes := num_disc_writes s + 1\<rparr>"
  let ?i = "unat a mod PAGESIZE"
  have al: "alike s ?s" by (simp add: alike_def)
  have a: "page_of a < NPAGES" using assms(2) by (auto simp: fits_def pages_of_upd)
  have ok: "vm_ok ?s" "card (touched ?s) \<le> SWAP_PAGES"
    using assms(1) al by (simp_all add: holds_def alike_vm_ok[OF al])
  obtain s1 where 1: "translate pick a True ?s = Some (page (page_table s1 (page_of a)) * PAGESIZE + ?i, s1)"
    "vm_ok s1" "keeps ?s s1" "touched s1 = insert (page_of a) (touched ?s)" "inmemory (page_table s1 (page_of a))"
    "modified (page_table s1 (page_of a))"
    using translate_ok[OF ok a, of True] by blast
  define s' where "s' = s1\<lparr>memory := (memory s1)(page (page_table s1 (page_of a)) * PAGESIZE + ?i := d)\<rparr>"
  note st = store_resident[OF 1(2) a 1(5,6) offset_less s'_def]
  have w: "write_memory pick a d s = Some s'"
    using 1(1) phys_bound[OF 1(2) a 1(5) offset_less] by (simp add: write_memory_def s'_def)
  have "vmem s \<subseteq>\<^sub>m vmem s1" using keeps_vmem[OF 1(3)] alike_vmem[OF al] by simp
  then have m: "m \<subseteq>\<^sub>m vmem s1" using assms(1) by (auto simp: holds_def intro: map_le_trans)
  have "(m(a \<mapsto> d)) b = vmem s' b" if "b \<in> dom (m(a \<mapsto> d))" for b
  proof (cases "b = a")
    case True
    then show ?thesis using st(2) a by (simp add: vmem_def)
  next
    case False
    then have "vmem s1 b = m b" using that m by (auto simp: map_le_def)
    moreover have "vmem s' b = vmem s1 b"
      using st(4)[of "page_of b" "unat b mod PAGESIZE"] False page_offset_inj[of b a] by (auto simp: vmem_def)
    ultimately show ?thesis using False by simp
  qed
  then have "holds (m(a \<mapsto> d)) s'"
    using assms st(1,3) 1(4) al by (auto simp: holds_def map_le_def fits_def pages_of_upd)
  then show ?thesis using w by blast
qed

end

text \<open>A replacement policy gives a memory.\<close>

sublocale replacement_policy \<subseteq> program_memory "read_memory pick" "write_memory pick" holds
  by unfold_locales (rule read_memory_ok, assumption+, rule write_memory_ok, assumption+)

section \<open>The two algorithms\<close>

lemma fifo_ok: "\<exists>p s'. fifo_page_replace s = Some (p, s') \<and> p < RAM_PAGES \<and> alike s s'"
  by (simp add: fifo_page_replace_def Let_def alike_def RAM_PAGES_def)

interpretation fifo: replacement_policy fifo_page_replace
  by unfold_locales (rule fifo_ok)

text \<open>The frame \<open>p\<close> is free or its page is not referenced.\<close>

definition second_choice :: "vm \<Rightarrow> nat \<Rightarrow> bool" where
  "second_choice s p \<longleftrightarrow> (\<forall>v. owner (coremap s p) = Some v \<longrightarrow> \<not> referenced (page_table s v))"

text \<open>The frame that is \<open>i\<close> places after the hand \<open>h\<close>, and the state in which the pages of the first \<open>k\<close> frames from there
  are no longer referenced.\<close>

definition frame_from :: "nat \<Rightarrow> nat \<Rightarrow> nat" where
  "frame_from h i = (h + i) mod RAM_PAGES"

definition passed :: "nat \<Rightarrow> nat \<Rightarrow> vm \<Rightarrow> vm" where
  "passed h k s = s\<lparr>page_table := (\<lambda>v. if \<exists>i < k. owner (coremap s (frame_from h i)) = Some v
     then (page_table s v)\<lparr>referenced := False\<rparr> else page_table s v)\<rparr>"

lemma frame_from_less: "frame_from h i < RAM_PAGES"
  by (simp add: frame_from_def RAM_PAGES_def)

lemma frame_from_inj: "i < RAM_PAGES \<Longrightarrow> j < RAM_PAGES \<Longrightarrow> frame_from h i = frame_from h j \<Longrightarrow> i = j"
proof (induction i j rule: linorder_wlog)
  case (le i j)
  then have "RAM_PAGES dvd (h + j) - (h + i)" unfolding frame_from_def by (metis mod_eq_dvd_iff_nat add_le_mono le_refl)
  then show ?case using le by (auto dest: dvd_imp_le)
qed auto

lemma passed_0: "passed h 0 s = s"
  by (simp add: passed_def)

lemma passed_Suc:
  "owner (coremap s (frame_from h k)) = Some v \<Longrightarrow> upd_pte v (referenced_update (\<lambda>_. False)) (passed h k s) = passed h (Suc k) s"
  unfolding passed_def by (rule vm.equality) (auto simp: fun_eq_iff less_Suc_eq)

lemma owner_passed [simp]: "owner (coremap (passed h k s) f) = owner (coremap s f)"
  by (simp add: passed_def)

lemma passed_new:
  assumes "paged {} s" "k < RAM_PAGES"
  shows "second_choice (passed h k s) (frame_from h k) = second_choice s (frame_from h k)"
proof -
  have "\<not> (\<exists>i < k. owner (coremap s (frame_from h i)) = Some v)" if v: "owner (coremap s (frame_from h k)) = Some v" for v
  proof
    assume "\<exists>i < k. owner (coremap s (frame_from h i)) = Some v"
    then obtain i where i: "i < k" "owner (coremap s (frame_from h i)) = Some v" by blast
    then have "frame_from h i = frame_from h k"
      using paged_owner[OF assms(1) frame_from_less _ i(2)] paged_owner[OF assms(1) frame_from_less _ v] by simp
    then show False using frame_from_inj[of i k h] i(1) assms(2) by simp
  qed
  then show ?thesis by (auto simp: second_choice_def passed_def)
qed

lemma passed_all: "second_choice (passed h RAM_PAGES s) (frame_from h RAM_PAGES)"
proof -
  have "frame_from h RAM_PAGES = frame_from h 0" by (simp add: frame_from_def)
  moreover have "0 < RAM_PAGES" by (simp add: RAM_PAGES_def)
  ultimately show ?thesis by (auto simp: second_choice_def passed_def)
qed

lemma second_chance_loop_stop:
  "second_choice s p \<Longrightarrow> second_chance_loop p s = Some (p, s\<lparr>second_chance_page := p\<rparr>)"
  by (subst second_chance_loop.simps) (auto simp: second_choice_def split: option.split)

lemma second_chance_loop_next:
  assumes "\<not> second_choice s (frame_from h k)"
  shows "second_chance_loop (frame_from h k) (passed h k s) = second_chance_loop (frame_from h (Suc k)) (passed h (Suc k) s) \<or>
    second_choice (passed h k s) (frame_from h k)"
proof -
  obtain v where v: "owner (coremap s (frame_from h k)) = Some v" using assms by (auto simp: second_choice_def)
  have n: "(frame_from h k + 1) mod RAM_PAGES = frame_from h (Suc k)" by (simp add: frame_from_def mod_simps)
  note n = n n[simplified]
  show ?thesis
    by (subst second_chance_loop.simps) (auto simp: v n passed_Suc[OF v] second_choice_def split: if_split)
qed

lemma second_chance_from:
  assumes "paged {} s"
  shows "k \<le> RAM_PAGES \<Longrightarrow> \<forall>i < k. \<not> second_choice s (frame_from h i) \<Longrightarrow>
    \<exists>n \<le> RAM_PAGES. second_chance_loop (frame_from h k) (passed h k s) =
        Some (frame_from h n, (passed h n s)\<lparr>second_chance_page := frame_from h n\<rparr>) \<and>
      (\<forall>i < n. \<not> second_choice s (frame_from h i)) \<and> (n < RAM_PAGES \<longrightarrow> second_choice s (frame_from h n))"
proof (induction "RAM_PAGES - k" arbitrary: k)
  case 0
  then have "k = RAM_PAGES" by simp
  then show ?case using 0 second_chance_loop_stop[OF passed_all] by (intro exI[of _ k]) simp
next
  case (Suc d)
  then have k: "k < RAM_PAGES" by simp
  show ?case
  proof (cases "second_choice s (frame_from h k)")
    case True
    then show ?thesis using k Suc.prems second_chance_loop_stop passed_new[OF assms k] by (intro exI[of _ k]) simp
  next
    case False
    then have "second_chance_loop (frame_from h k) (passed h k s) = second_chance_loop (frame_from h (Suc k)) (passed h (Suc k) s)"
      using second_chance_loop_next[OF False] passed_new[OF assms k] by blast
    then show ?thesis using Suc.hyps(1)[of "Suc k"] Suc.hyps(2) Suc.prems False k by (simp add: less_Suc_eq)
  qed
qed

lemma second_chance_result:
  assumes "paged {} s" "h = second_chance_page s"
  shows "\<exists>n \<le> RAM_PAGES. second_chance_replace s = Some (frame_from h n, (passed h n s)\<lparr>second_chance_page := frame_from h n\<rparr>) \<and>
      (\<forall>i < n. \<not> second_choice s (frame_from h i)) \<and> (n < RAM_PAGES \<longrightarrow> second_choice s (frame_from h n))"
proof -
  have h: "h < RAM_PAGES" using assms paged_bounds(2) by blast
  then have "frame_from h 0 = h" by (simp add: frame_from_def)
  then show ?thesis using second_chance_from[OF assms(1), of 0 h] h assms(2) by (simp add: second_chance_replace_def passed_0)
qed

lemma alike_passed: "alike s ((passed h n s)\<lparr>second_chance_page := frame_from h n\<rparr>)"
  using frame_from_less by (auto simp: alike_def passed_def)

lemma second_chance_ok:
  "paged {} s \<Longrightarrow> \<exists>p s'. second_chance_replace s = Some (p, s') \<and> p < RAM_PAGES \<and> alike s s'"
  using second_chance_result[OF _ refl, of s] alike_passed frame_from_less by blast

interpretation second_chance: replacement_policy second_chance_replace
  by unfold_locales (rule second_chance_ok)

section \<open>Properties\<close>

text \<open>C15: A page fault on a page that is not resident succeeds under either algorithm while at most 128 pages are in
  use: the page becomes resident, every other page keeps its contents wherever it is, and the page table, the
  coremap and the swap area stay consistent.\<close>

theorem pagefault_keeps_memory:
  assumes "vm_ok s" "card (touched s) \<le> SWAP_PAGES" "v < NPAGES" "\<not> inmemory (page_table s v)"
  shows "(\<exists>s'. pagefault second_chance_replace v s = Some s' \<and> vm_ok s' \<and> keeps s s' \<and>
       touched s' = insert v (touched s) \<and> inmemory (page_table s' v)) \<and>
    (\<exists>s'. pagefault fifo_page_replace v s = Some s' \<and> vm_ok s' \<and> keeps s s' \<and>
       touched s' = insert v (touched s) \<and> inmemory (page_table s' v))"
  using second_chance.pagefault_ok[OF assms] fifo.pagefault_ok[OF assms] by blast

theorem pagefault_keeps_memory_witness:
  "\<exists>s'. pagefault second_chance_replace 5 init_vm = Some s' \<and> vm_ok s' \<and> keeps init_vm s' \<and> touched s' = {5}"
  using pagefault_keeps_memory[of init_vm 5] vm_ok_init by (auto simp: init_vm_def NPAGES_def)

text \<open>C19: The second chance algorithm terminates in every consistent state, after at most one round.  Counted from where the
  hand stood, it passes the longest run of frames whose pages were referenced when it was called, clears the referenced bits
  of exactly the pages in these frames, and returns the frame after them, which is free or holds a page that was not
  referenced when it was called, or is the first one again if all were referenced; the hand stays there, and nothing else changes.\<close>

theorem second_chance_gives_second_chances:
  assumes "paged {} s"
  shows "\<exists>n s'. n \<le> RAM_PAGES \<and> second_chance_replace s = Some ((second_chance_page s + n) mod RAM_PAGES, s') \<and>
    (\<forall>i < n. \<not> second_choice s ((second_chance_page s + i) mod RAM_PAGES)) \<and>
    (n = RAM_PAGES \<or> second_choice s ((second_chance_page s + n) mod RAM_PAGES)) \<and>
    s' = s\<lparr>second_chance_page := (second_chance_page s + n) mod RAM_PAGES,
           page_table := (\<lambda>v. if \<exists>i < n. owner (coremap s ((second_chance_page s + i) mod RAM_PAGES)) = Some v
             then (page_table s v)\<lparr>referenced := False\<rparr> else page_table s v)\<rparr>"
  using second_chance_result[OF assms refl] by (auto simp: passed_def frame_from_def le_neq_implies_less)

text \<open>A state with the referenced pages 5 and 6 in the frames 7 and 0 and the hand at frame 7.\<close>

definition demo_vm :: vm where
  "demo_vm = init_vm\<lparr>second_chance_page := 7,
     page_table := (page_table init_vm)(5 := \<lparr>page = 7, inmemory = True, ondisk = False, modified = True, referenced = True, readonly = False\<rparr>,
       6 := \<lparr>page = 0, inmemory = True, ondisk = False, modified = True, referenced = True, readonly = False\<rparr>),
     coremap := (coremap init_vm)(7 := \<lparr>owner = Some 5, swap_page = 0\<rparr>, 0 := \<lparr>owner = Some 6, swap_page = 0\<rparr>)\<rparr>"

theorem second_chance_gives_second_chances_witness:
  "\<exists>s'. second_chance_replace demo_vm = Some (1, s') \<and> \<not> referenced (page_table s' 5) \<and> \<not> referenced (page_table s' 6)"
proof -
  have "paged {} demo_vm" by (simp add: paged_defs demo_vm_def init_vm_def sizes)
  have h: "second_chance_page demo_vm = 7" by (simp add: demo_vm_def)
  from second_chance_gives_second_chances[OF \<open>paged {} demo_vm\<close>, unfolded h] obtain n s' where n: "n \<le> RAM_PAGES"
    "second_chance_replace demo_vm = Some ((7 + n) mod RAM_PAGES, s')" "\<forall>i < n. \<not> second_choice demo_vm ((7 + i) mod RAM_PAGES)"
    "n = RAM_PAGES \<or> second_choice demo_vm ((7 + n) mod RAM_PAGES)"
    "page_table s' = (\<lambda>v. if \<exists>i < n. owner (coremap demo_vm ((7 + i) mod RAM_PAGES)) = Some v
       then (page_table demo_vm v)\<lparr>referenced := False\<rparr> else page_table demo_vm v)"
    by (elim exE conjE) (rule that, assumption+, simp)
  have c: "\<not> second_choice demo_vm 7" "\<not> second_choice demo_vm 0" "second_choice demo_vm 1"
    by (auto simp: second_choice_def demo_vm_def init_vm_def)
  have "n \<noteq> 0" "n \<noteq> 1" by (rule notI, use n(4) c(1,2) in \<open>simp add: RAM_PAGES_def\<close>)+
  moreover have "\<not> 2 < n" using n(3) c(3) by (auto simp: RAM_PAGES_def)
  ultimately have 2: "n = 2" by simp
  have "\<exists>i < n. owner (coremap demo_vm ((7 + i) mod RAM_PAGES)) = Some 5" "\<exists>i < n. owner (coremap demo_vm ((7 + i) mod RAM_PAGES)) = Some 6"
    unfolding 2 by (rule exI[of _ 0], simp add: demo_vm_def RAM_PAGES_def) (rule exI[of _ 1], simp add: demo_vm_def RAM_PAGES_def)
  then show ?thesis using n(2,5) 2 by (auto simp: RAM_PAGES_def)
qed

end
