(* ===== verification/Cpu.thy ===== *)
theory Cpu
  imports Machine_Isa Paging
begin

text \<open>
  The processor of \<open>lab2/machine.c\<close> (the loop of \<open>run\<close>) and its loader (\<open>read_program\<close>).  Both use
  the memory only through a read and a write operation, which are arguments here: the paged
  memory of \<open>Paging\<close> with one of its replacement algorithms, or the flat memory below.  The lines
  a program prints while it runs are left out.  Signed arithmetic wraps; the C code leaves its
  overflow undefined.
\<close>

section \<open>The processor\<close>

definition NREG :: nat where "NREG = 32"

record cpu_t =
  pc :: u32
  reg :: "u32 list"

datatype 's outcome = Running cpu_t 's | Stopped cpu_t 's | Illegal cpu_t 's

definition put_reg :: "nat \<Rightarrow> u32 \<Rightarrow> cpu_t \<Rightarrow> cpu_t" where
  "put_reg dest_reg dest c = (if dest_reg \<noteq> 0 then c\<lparr>reg := (reg c)[dest_reg := dest]\<rparr> else c)"

definition result :: "nat \<Rightarrow> u32 \<Rightarrow> cpu_t \<Rightarrow> cpu_t" where
  "result dest_reg dest c = (let c' = put_reg dest_reg dest c in c'\<lparr>pc := pc c' + 1\<rparr>)"

definition jump_if :: "bool \<Rightarrow> u32 \<Rightarrow> cpu_t \<Rightarrow> cpu_t" where
  "jump_if b target c = (if b then c\<lparr>pc := target\<rparr> else c\<lparr>pc := pc c + 1\<rparr>)"

definition truth :: "bool \<Rightarrow> u32" where
  "truth b = (if b then 1 else 0)"

text \<open>One turn of the loop: fetch, decode, execute, write back.\<close>

definition execute ::
  "(u32 \<Rightarrow> 's \<Rightarrow> (u32 \<times> 's) option) \<Rightarrow> (u32 \<Rightarrow> u32 \<Rightarrow> 's \<Rightarrow> 's option) \<Rightarrow> u32 \<Rightarrow> cpu_t \<Rightarrow> 's \<Rightarrow> 's outcome option" where
  "execute rd wr instr c s =
     (let constant = extract_constant instr;
          dest_reg = unat (extract_dest instr);
          source1 = reg c ! unat (extract_source1 instr);
          source2 = reg c ! unat (constant AND of_nat (NREG - 1))
      in case opcode_of (extract_opcode instr) of
        None \<Rightarrow> Some (Illegal c s)
      | Some ADD \<Rightarrow> Some (Running (result dest_reg (source1 + source2) c) s)
      | Some ADDI \<Rightarrow> Some (Running (result dest_reg (source1 + constant) c) s)
      | Some SUB \<Rightarrow> Some (Running (result dest_reg (source1 - source2) c) s)
      | Some SUBI \<Rightarrow> Some (Running (result dest_reg (source1 - constant) c) s)
      | Some MUL \<Rightarrow> Some (Running (result dest_reg (source1 * source2) c) s)
      | Some SGE \<Rightarrow> Some (Running (result dest_reg (truth (sint source1 \<ge> sint source2)) c) s)
      | Some SGT \<Rightarrow> Some (Running (result dest_reg (truth (sint source1 > sint source2)) c) s)
      | Some SEQ \<Rightarrow> Some (Running (result dest_reg (truth (source1 = source2)) c) s)
      | Some SEQI \<Rightarrow> Some (Running (result dest_reg (truth (source1 = constant)) c) s)
      | Some BT \<Rightarrow> Some (Running (jump_if (source1 \<noteq> 0) constant c) s)
      | Some BF \<Rightarrow> Some (Running (jump_if (source1 = 0) constant c) s)
      | Some BA \<Rightarrow> Some (Running (c\<lparr>pc := constant\<rparr>) s)
      | Some LD \<Rightarrow> do { (data, s') \<leftarrow> rd (source1 + constant) s; Some (Running (result dest_reg data c) s') }
      | Some ST \<Rightarrow> do { s' \<leftarrow> wr (source1 + constant) (reg c ! dest_reg) s; Some (Running (c\<lparr>pc := pc c + 1\<rparr>) s') }
      | Some CALL \<Rightarrow> Some (Running ((put_reg 31 (pc c + 1) c)\<lparr>pc := constant\<rparr>) s)
      | Some JMP \<Rightarrow> Some (Running (c\<lparr>pc := source1\<rparr>) s)
      | Some HALT \<Rightarrow> Some (Stopped c s))"

definition step ::
  "(u32 \<Rightarrow> 's \<Rightarrow> (u32 \<times> 's) option) \<Rightarrow> (u32 \<Rightarrow> u32 \<Rightarrow> 's \<Rightarrow> 's option) \<Rightarrow> cpu_t \<Rightarrow> 's \<Rightarrow> 's outcome option" where
  "step rd wr c s0 = do { (instr, s) \<leftarrow> rd (pc c) s0; execute rd wr instr c s }"

partial_function (option) run_loop ::
  "(u32 \<Rightarrow> 's \<Rightarrow> (u32 \<times> 's) option) \<Rightarrow> (u32 \<Rightarrow> u32 \<Rightarrow> 's \<Rightarrow> 's option) \<Rightarrow> cpu_t \<Rightarrow> 's \<Rightarrow> 's outcome option" where
  "run_loop rd wr c s = do {
     r \<leftarrow> step rd wr c s;
     (case r of Running c' s' \<Rightarrow> run_loop rd wr c' s' | Stopped c' s' \<Rightarrow> Some r | Illegal c' s' \<Rightarrow> Some r) }"

declare run_loop.simps [code]

section \<open>The loader\<close>

text \<open>The conversions of \<open>sscanf\<close> the loader uses.\<close>

definition is_space :: "char \<Rightarrow> bool" where
  "is_space ch \<longleftrightarrow> ch \<in> set [CHR '' '', CHR 0x09, CHR 0x0A, CHR 0x0B, CHR 0x0C, CHR 0x0D]"

definition is_digit :: "char \<Rightarrow> bool" where
  "is_digit ch \<longleftrightarrow> (48::nat) \<le> of_char ch \<and> of_char ch \<le> (57::nat)"

definition skip_spaces :: "string \<Rightarrow> string" where
  "skip_spaces cs = dropWhile is_space cs"

definition scan_s :: "string \<Rightarrow> (string \<times> string) option" where
  "scan_s cs = (let b = skip_spaces cs; w = takeWhile (\<lambda>ch. \<not> is_space ch) b
     in if w = [] then None else Some (w, dropWhile (\<lambda>ch. \<not> is_space ch) b))"

definition digits_value :: "string \<Rightarrow> nat" where
  "digits_value ds = foldl (\<lambda>n ch. 10 * n + (of_char ch - 48)) 0 ds"

definition scan_d :: "string \<Rightarrow> (int \<times> string) option" where
  "scan_d cs =
     (let b = skip_spaces cs;
          sg = (b \<noteq> [] \<and> hd b = CHR ''-'');
          b' = (if b \<noteq> [] \<and> (hd b = CHR ''-'' \<or> hd b = CHR ''+'') then tl b else b);
          w = takeWhile is_digit b'
      in if w = [] then None
         else Some (if sg then - int (digits_value w) else int (digits_value w), dropWhile is_digit b'))"

definition scan_lit :: "char \<Rightarrow> string \<Rightarrow> string option" where
  "scan_lit ch cs = (if cs \<noteq> [] \<and> hd cs = ch then Some (tl cs) else None)"

text \<open>\<open>sscanf(buf, "%s %d,%d,%d", ...)\<close> when it returns 4.\<close>

definition scan_line :: "string \<Rightarrow> (string \<times> int \<times> int \<times> int) option" where
  "scan_line buf = do {
     (txt, r) \<leftarrow> scan_s buf;
     (a, r) \<leftarrow> scan_d (skip_spaces r);
     r \<leftarrow> scan_lit (CHR '','') r;
     (b, r) \<leftarrow> scan_d r;
     r \<leftarrow> scan_lit (CHR '','') r;
     (c, r) \<leftarrow> scan_d r;
     Some (txt, a, b, c) }"

text \<open>The search of the table, the index of the first mnemonic that is equal.\<close>

fun find_mnemonic :: "string \<Rightarrow> string list \<Rightarrow> nat \<Rightarrow> nat option" where
  "find_mnemonic txt [] i = None"
| "find_mnemonic txt (m # ms) i = (if txt = m then Some i else find_mnemonic txt ms (Suc i))"

datatype load_error = Syntax_error_near string

fun read_loop :: "(u32 \<Rightarrow> u32 \<Rightarrow> 's \<Rightarrow> 's option) \<Rightarrow> string list \<Rightarrow> nat \<Rightarrow> 's \<Rightarrow> (load_error + (nat \<times> 's)) option" where
  "read_loop wr [] line s = Some (Inr (line, s))"
| "read_loop wr (buf # bufs) line s =
     (if buf \<noteq> [] \<and> hd buf = CHR '';'' then read_loop wr bufs line s
      else case scan_line buf of
        None \<Rightarrow> Some (Inl (Syntax_error_near buf))
      | Some (txt, a, b, c) \<Rightarrow>
          (case find_mnemonic txt mnemonics 0 of
             None \<Rightarrow> Some (Inl (Syntax_error_near txt))
           | Some opcode \<Rightarrow> do {
               s' \<leftarrow> wr (of_nat line) (make_instr (of_nat opcode) (of_int a) (of_int b) (of_int c)) s;
               read_loop wr bufs (line + 1) s' }))"

definition read_program :: "(u32 \<Rightarrow> u32 \<Rightarrow> 's \<Rightarrow> 's option) \<Rightarrow> string list \<Rightarrow> 's \<Rightarrow> (load_error + (nat \<times> 's)) option" where
  "read_program wr file s = read_loop wr file 0 s"

text \<open>\<open>run\<close>: \<open>regs\<close> is what the uninitialised registers of the C variable \<open>cpu\<close> hold.\<close>

definition run ::
  "(u32 \<Rightarrow> 's \<Rightarrow> (u32 \<times> 's) option) \<Rightarrow> (u32 \<Rightarrow> u32 \<Rightarrow> 's \<Rightarrow> 's option) \<Rightarrow> u32 list \<Rightarrow> string list \<Rightarrow> 's \<Rightarrow>
   (load_error + 's outcome) option" where
  "run rd wr regs file s0 = do {
     r \<leftarrow> read_program wr file s0;
     (case r of
        Inl e \<Rightarrow> Some (Inl e)
      | Inr (ninstr, s) \<Rightarrow> do { q \<leftarrow> run_loop rd wr \<lparr>pc = 0, reg = regs[0 := 0]\<rparr> s; Some (Inr q) }) }"

definition machine_main :: "u32 list \<Rightarrow> string list \<Rightarrow> (load_error + vm outcome) option" where
  "machine_main regs file = run (read_memory second_chance_replace) (write_memory second_chance_replace) regs file init_vm"

section \<open>The flat memory\<close>

text \<open>A memory without paging: the pages \<open>ps\<close> can be written, a word can be read once it was written.\<close>

definition flat_read :: "u32 \<Rightarrow> (u32 \<rightharpoonup> u32) \<Rightarrow> (u32 \<times> (u32 \<rightharpoonup> u32)) option" where
  "flat_read a m = (case m a of None \<Rightarrow> None | Some d \<Rightarrow> Some (d, m))"

definition flat_write :: "nat list \<Rightarrow> u32 \<Rightarrow> u32 \<Rightarrow> (u32 \<rightharpoonup> u32) \<Rightarrow> (u32 \<rightharpoonup> u32) option" where
  "flat_write ps a d m = (if page_of a \<in> set ps then Some (m(a \<mapsto> d)) else None)"

definition enough_pages :: "nat list \<Rightarrow> bool" where
  "enough_pages ps \<longleftrightarrow> list_all (\<lambda>p. p < NPAGES) ps \<and> length ps \<le> SWAP_PAGES"

lemma fits_pages: "enough_pages ps \<Longrightarrow> pages_of m \<subseteq> set ps \<Longrightarrow> fits m"
  using card_mono[of "set ps" "pages_of m"] card_length[of ps]
  by (auto simp: enough_pages_def fits_def list_all_iff)

context program_memory
begin

definition within :: "nat list \<Rightarrow> (u32 \<rightharpoonup> u32) \<Rightarrow> 's \<Rightarrow> bool" where
  "within ps m s \<longleftrightarrow> repr m s \<and> pages_of m \<subseteq> set ps"

lemma flat_read_sim:
  "within ps m s \<Longrightarrow> flat_read a m = Some (d, m') \<Longrightarrow> \<exists>s'. rd a s = Some (d, s') \<and> within ps m' s'"
  using read_law[of m s a d] by (auto simp: flat_read_def within_def split: option.splits)

lemma flat_write_sim:
  "enough_pages ps \<Longrightarrow> within ps m s \<Longrightarrow> flat_write ps a d m = Some m' \<Longrightarrow> \<exists>s'. wr a d s = Some s' \<and> within ps m' s'"
  using write_law[of m s a d] fits_pages[of ps "m(a \<mapsto> d)"]
  by (auto simp: flat_write_def within_def pages_of_upd split: if_splits)

lemma execute_sim:
  assumes "enough_pages ps" "within ps m s" "execute flat_read (flat_write ps) instr c m = Some r"
  shows "\<exists>r'. execute rd wr instr c s = Some r' \<and> rel_outcome (within ps) r r'"
proof (cases "opcode_of (extract_opcode instr)")
  case None
  then show ?thesis using assms by (auto simp: execute_def)
next
  case (Some opc)
  note e = execute_def Let_def Some option.case opcode.case
  show ?thesis
  proof (cases "opc = LD \<or> opc = ST")
    case False
    then show ?thesis using assms(2,3) unfolding e by (cases opc) auto
  next
    case True
    then show ?thesis
    proof
      assume "opc = LD"
      then show ?thesis using assms(3) flat_read_sim[OF assms(2)] unfolding e
        by (fastforce simp: bind_eq_Some_conv)
    next
      assume "opc = ST"
      then show ?thesis using assms(3) flat_write_sim[OF assms(1,2)] unfolding e
        by (fastforce simp: bind_eq_Some_conv)
    qed
  qed
qed

lemma step_sim:
  assumes "enough_pages ps" "within ps m s" "step flat_read (flat_write ps) c m = Some r"
  shows "\<exists>r'. step rd wr c s = Some r' \<and> rel_outcome (within ps) r r'"
proof -
  obtain instr m1 where 1: "flat_read (pc c) m = Some (instr, m1)" "execute flat_read (flat_write ps) instr c m1 = Some r"
    using assms(3) by (auto simp: step_def bind_eq_Some_conv)
  obtain s1 where 2: "rd (pc c) s = Some (instr, s1)" "within ps m1 s1" using flat_read_sim[OF assms(2) 1(1)] by blast
  show ?thesis using execute_sim[OF assms(1) 2(2) 1(2)] 2(1) by (simp add: step_def)
qed

lemma run_loop_sim:
  assumes "enough_pages ps" "within ps m s" "run_loop flat_read (flat_write ps) c m = Some r"
  shows "\<exists>r'. run_loop rd wr c s = Some r' \<and> rel_outcome (within ps) r r'"
proof -
  have "rd' = flat_read \<longrightarrow> wr' = flat_write ps \<longrightarrow> (\<forall>s. within ps m s \<longrightarrow>
      (\<exists>r'. run_loop rd wr c s = Some r' \<and> rel_outcome (within ps) r r'))"
    if "run_loop rd' wr' c m = Some r" for rd' wr'
    using that
  proof (rule run_loop.raw_induct[rotated], intro impI allI)
    fix loop rd' wr' c m r s
    assume 1: "\<And>rd' wr' c m r. loop rd' wr' c m = Some r \<Longrightarrow> rd' = flat_read \<longrightarrow> wr' = flat_write ps \<longrightarrow> (\<forall>s. within ps m s \<longrightarrow>
      (\<exists>r'. run_loop rd wr c s = Some r' \<and> rel_outcome (within ps) r r'))"
      and 2: "do { q \<leftarrow> step rd' wr' c m; (case q of Running c' m' \<Rightarrow> loop rd' wr' c' m' | _ \<Rightarrow> Some q) } = Some r"
      and 3: "rd' = flat_read" "wr' = flat_write ps" "within ps m s"
    obtain q where q: "step flat_read (flat_write ps) c m = Some q"
      "(case q of Running c' m' \<Rightarrow> loop rd' wr' c' m' | _ \<Rightarrow> Some q) = Some r"
      using 2 3 by (auto simp: bind_eq_Some_conv)
    obtain q' where q': "step rd wr c s = Some q'" "rel_outcome (within ps) q q'"
      using step_sim[OF assms(1) 3(3) q(1)] by blast
    show "\<exists>r'. run_loop rd wr c s = Some r' \<and> rel_outcome (within ps) r r'"
    proof (cases q)
      case (Running c' m')
      then obtain s' where "q' = Running c' s'" "within ps m' s'" using q'(2) by (cases q') auto
      then show ?thesis using 1[of rd' wr' c' m' r] 3(1,2) q(2) q'(1) Running
        by (subst run_loop.simps) simp
    next
      case (Stopped c' m')
      then show ?thesis using q q' by (cases q') (subst run_loop.simps, auto)+
    next
      case (Illegal c' m')
      then show ?thesis using q q' by (cases q') (subst run_loop.simps, auto)+
    qed
  qed
  then show ?thesis using assms by blast
qed

lemma read_loop_sim:
  "enough_pages ps \<Longrightarrow> within ps m s \<Longrightarrow> read_loop (flat_write ps) bufs line m = Some r \<Longrightarrow>
   \<exists>r'. read_loop wr bufs line s = Some r' \<and> rel_sum (=) (rel_prod (=) (within ps)) r r'"
proof (induction bufs arbitrary: line m s)
  case (Cons buf bufs)
  show ?case
  proof (cases "buf \<noteq> [] \<and> hd buf = CHR '';'' \<or> scan_line buf = None")
    case True
    then show ?thesis using Cons by (cases "buf \<noteq> [] \<and> hd buf = CHR '';''") auto
  next
    case False
    then obtain t a b c where l: "scan_line buf = Some (t, a, b, c)" by (metis prod_cases4 not_Some_eq)
    show ?thesis
    proof (cases "find_mnemonic t mnemonics 0")
      case None
      then show ?thesis using Cons.prems False l by auto
    next
      case (Some opcode)
      let ?i = "make_instr (of_nat opcode) (of_int a) (of_int b) (of_int c)"
      obtain m' where m': "flat_write ps (of_nat line) ?i m = Some m'" "read_loop (flat_write ps) bufs (line + 1) m' = Some r"
        using Cons.prems(3) False l Some by (auto simp: bind_eq_Some_conv split: if_splits)
      then obtain s' where "wr (of_nat line) ?i s = Some s'" "within ps m' s'"
        using flat_write_sim[OF Cons.prems(1,2)] by blast
      then show ?thesis using Cons.IH[OF Cons.prems(1) _ m'(2)] False l Some by auto
    qed
  qed
qed auto

text \<open>A program that runs on the flat memory runs in the same way on every memory of the interface.\<close>

lemma run_sim:
  assumes "enough_pages ps" "within ps m s" "run flat_read (flat_write ps) regs file m = Some r"
  shows "\<exists>r'. run rd wr regs file s = Some r' \<and> rel_sum (=) (rel_outcome (within ps)) r r'"
proof -
  obtain q where q: "read_loop (flat_write ps) file 0 m = Some q"
    "(case q of Inl e \<Rightarrow> Some (Inl e) | Inr (ninstr, s) \<Rightarrow>
        do { q \<leftarrow> run_loop flat_read (flat_write ps) \<lparr>pc = 0, reg = regs[0 := 0]\<rparr> s; Some (Inr q) }) = Some r"
    using assms(3) by (auto simp: run_def read_program_def bind_eq_Some_conv)
  obtain q' where q': "read_loop wr file 0 s = Some q'" "rel_sum (=) (rel_prod (=) (within ps)) q q'"
    using read_loop_sim[OF assms(1,2) q(1)] by blast
  show ?thesis
  proof (cases q)
    case (Inl e)
    then show ?thesis using q(2) q' by (cases q') (auto simp: run_def read_program_def)
  next
    case (Inr nm)
    then obtain n m' s' x where n: "nm = (n, m')" "q' = Inr (n, s')" "within ps m' s'"
      "run_loop flat_read (flat_write ps) \<lparr>pc = 0, reg = regs[0 := 0]\<rparr> m' = Some x" "r = Inr x"
      using q(2) q'(2) by (cases nm; cases q') (auto simp: bind_eq_Some_conv)
    obtain x' where "run_loop rd wr \<lparr>pc = 0, reg = regs[0 := 0]\<rparr> s' = Some x'" "rel_outcome (within ps) x x'"
      using run_loop_sim[OF assms(1) n(3,4)] by blast
    then show ?thesis using n q'(1) by (simp add: run_def read_program_def)
  qed
qed

end

section \<open>Properties of the machine\<close>

text \<open>Results are the same if the outcome, the processor and every word of the flat memory are.\<close>

definition same_result :: "load_error + (u32 \<rightharpoonup> u32) outcome \<Rightarrow> load_error + vm outcome \<Rightarrow> bool" where
  "same_result = rel_sum (=) (rel_outcome (\<lambda>m s. m \<subseteq>\<^sub>m vmem s))"

lemma same_resultI: "rel_sum (=) (rel_outcome R) r r' \<Longrightarrow> (\<And>m s. R m s \<Longrightarrow> holds m s) \<Longrightarrow> same_result r r'"
  unfolding same_result_def
  by (erule sum.rel_mono_strong) (auto elim!: outcome.rel_mono_strong simp: holds_def)

text \<open>C4: A program that runs with 128 pages of flat memory runs on the machine with its 8 frames and its
  128 swap pages, under either page replacement algorithm, with the same outcome, registers and memory,
  and returns if it returns there: paging is not visible to the program.\<close>

theorem paging_is_transparent:
  assumes "enough_pages ps" and "run flat_read (flat_write ps) regs file Map.empty = Some r"
  shows "(\<exists>r'. machine_main regs file = Some r' \<and> same_result r r') \<and>
    (\<exists>r'. run (read_memory fifo_page_replace) (write_memory fifo_page_replace) regs file init_vm = Some r' \<and> same_result r r')"
proof
  have "second_chance.within ps Map.empty init_vm" "fifo.within ps Map.empty init_vm"
    using holds_empty by (simp_all add: second_chance.within_def fifo.within_def pages_of_def)
  note w = this
  obtain r' where "machine_main regs file = Some r'" "rel_sum (=) (rel_outcome (second_chance.within ps)) r r'"
    using second_chance.run_sim[OF assms(1) w(1) assms(2)] by (auto simp: machine_main_def)
  then show "\<exists>r'. machine_main regs file = Some r' \<and> same_result r r'"
    using same_resultI[of "second_chance.within ps" r r'] by (auto simp: second_chance.within_def)
  obtain r' where "run (read_memory fifo_page_replace) (write_memory fifo_page_replace) regs file init_vm = Some r'"
    "rel_sum (=) (rel_outcome (fifo.within ps)) r r'"
    using fifo.run_sim[OF assms(1) w(2) assms(2)] by auto
  then show "\<exists>r'. run (read_memory fifo_page_replace) (write_memory fifo_page_replace) regs file init_vm = Some r' \<and> same_result r r'"
    using same_resultI[of "fifo.within ps" r r'] by (auto simp: fifo.within_def)
qed

definition tiny_program :: "string list" where
  "tiny_program = [''; comment'', ''addi 3,0,-7 ; r3'', ''st 3,0,100'', ''halt 0,0,0'']"

definition tiny_result :: "load_error + (u32 \<rightharpoonup> u32) outcome" where
  "tiny_result = (case run flat_read (flat_write [0, 25]) (replicate 32 0) tiny_program Map.empty of Some r \<Rightarrow> r)"

lemma tiny_flat: "run flat_read (flat_write [0, 25]) (replicate 32 0) tiny_program Map.empty \<noteq> None"
  by code_simp

theorem paging_is_transparent_witness:
  "\<exists>r'. machine_main (replicate 32 0) tiny_program = Some r' \<and> same_result tiny_result r'"
  using paging_is_transparent[of "[0, 25]" "replicate 32 0" tiny_program tiny_result] tiny_flat
  by (auto simp: enough_pages_def NPAGES_def SWAP_PAGES_def tiny_result_def)

section \<open>Assembling and decoding\<close>

text \<open>The text of an instruction, and what the processor extracts from its word.\<close>

definition digit_char :: "nat \<Rightarrow> char" where
  "digit_char n = char_of (48 + n)"

fun dec :: "nat \<Rightarrow> string" where
  "dec n = (if n < 10 then [digit_char n] else dec (n div 10) @ [digit_char (n mod 10)])"

declare dec.simps [simp del]

definition dec_int :: "int \<Rightarrow> string" where
  "dec_int k = (if k < 0 then CHR ''-'' # dec (nat (- k)) else dec (nat k))"

definition print_instr :: "opcode \<Rightarrow> nat \<Rightarrow> nat \<Rightarrow> int \<Rightarrow> string" where
  "print_instr c d s k = mnemonics ! opcode_value c @ '' '' @ dec d @ '','' @ dec s @ '','' @ dec_int k"

definition decode :: "u32 \<Rightarrow> opcode option \<times> nat \<times> nat \<times> int" where
  "decode instr = (opcode_of (extract_opcode instr), unat (extract_dest instr), unat (extract_source1 instr), sint (extract_constant instr))"

lemma digit_char: "n < 10 \<Longrightarrow> is_digit (digit_char n)" "n < 10 \<Longrightarrow> of_char (digit_char n) = 48 + n"
  by (auto simp: is_digit_def digit_char_def take_bit_eq_mod)

lemma dec_digits: "dec n \<noteq> [] \<and> list_all is_digit (dec n)"
proof (induction n rule: dec.induct)
  case (1 n)
  then show ?case by (cases "n < 10") (subst dec.simps, simp add: digit_char)+
qed

lemma digits_value_snoc: "digits_value (xs @ [c]) = 10 * digits_value xs + (of_char c - 48)"
  by (simp add: digits_value_def)

lemma digits_value_dec: "digits_value (dec n) = n"
proof (induction n rule: dec.induct)
  case (1 n)
  show ?case
  proof (cases "n < 10")
    case True
    then show ?thesis using digits_value_snoc[of "[]" "digit_char n"]
      by (subst dec.simps) (simp add: digit_char digits_value_def)
  next
    case False
    then show ?thesis using 1 by (subst dec.simps) (simp add: digit_char digits_value_snoc)
  qed
qed

lemma digit_not_special: "is_digit c \<Longrightarrow> \<not> is_space c \<and> c \<noteq> CHR ''-'' \<and> c \<noteq> CHR ''+''"
  by (auto simp: is_digit_def is_space_def)

text \<open>A number followed by something else is read back.\<close>

lemma takeWhile_digits: "list_all is_digit w \<Longrightarrow> r = [] \<or> \<not> is_digit (hd r) \<Longrightarrow>
  takeWhile is_digit (w @ r) = w \<and> dropWhile is_digit (w @ r) = r"
  by (induction w) (cases r, auto)+

lemma scan_d_digits:
  assumes "list_all is_digit w" "w \<noteq> []" "r = [] \<or> \<not> is_digit (hd r)"
  shows "scan_d (w @ r) = Some (int (digits_value w), r)" "scan_d (CHR ''-'' # w @ r) = Some (- int (digits_value w), r)"
proof -
  obtain c w' where w: "w = c # w'" using assms(2) by (cases w) auto
  have c: "\<not> is_space c" "c \<noteq> CHR ''-''" "c \<noteq> CHR ''+''" using assms(1) w digit_not_special[of c] by auto
  note t = takeWhile_digits[OF assms(1,3)]
  have sk: "skip_spaces (w @ r) = w @ r" "skip_spaces (CHR ''-'' # w @ r) = CHR ''-'' # w @ r"
    using c by (simp_all add: w skip_spaces_def is_space_def)
  have "hd (w @ r) \<noteq> CHR ''-''" "hd (w @ r) \<noteq> CHR ''+''" using c w by auto
  then show "scan_d (w @ r) = Some (int (digits_value w), r)"
    unfolding scan_d_def sk Let_def using t assms(2) by simp
  show "scan_d (CHR ''-'' # w @ r) = Some (- int (digits_value w), r)"
    unfolding scan_d_def sk Let_def using t assms(2) by simp
qed

lemmas scan_dec = scan_d_digits(1)[of "dec _", OF conjunct2[OF dec_digits] conjunct1[OF dec_digits], unfolded digits_value_dec]

lemma scan_dec_int: "scan_d (dec_int k) = Some (k, [])"
  using scan_d_digits[of "dec (nat k)" "[]"] scan_d_digits[of "dec (nat (- k))" "[]"] dec_digits[of "nat k"] dec_digits[of "nat (- k)"]
  by (auto simp: dec_int_def digits_value_dec)

lemma skip_spaces_dec: "skip_spaces ('' '' @ dec d @ r) = dec d @ r"
proof -
  obtain c w where w: "dec d = c # w" using dec_digits[of d] by (cases "dec d") auto
  then have "\<not> is_space c" using dec_digits[of d] digit_not_special[of c] by auto
  then show ?thesis using w by (simp add: skip_spaces_def is_space_def)
qed

text \<open>Words without blanks are read by \<open>%s\<close>.\<close>

lemma scan_s_word: "list_all (\<lambda>c. \<not> is_space c) w \<Longrightarrow> w \<noteq> [] \<Longrightarrow> scan_s (w @ CHR '' '' # r) = Some (w, CHR '' '' # r)"
proof -
  assume w: "list_all (\<lambda>c. \<not> is_space c) w" "w \<noteq> []"
  then have "skip_spaces (w @ CHR '' '' # r) = w @ CHR '' '' # r" by (cases w) (auto simp: skip_spaces_def)
  moreover have "is_space (CHR '' '')" by (simp add: is_space_def)
  moreover have "takeWhile (\<lambda>c. \<not> is_space c) (w @ CHR '' '' # r) = w" "dropWhile (\<lambda>c. \<not> is_space c) (w @ CHR '' '' # r) = CHR '' '' # r"
    using w(1) \<open>is_space (CHR '' '')\<close> by (simp_all add: list_all_iff takeWhile_append2 dropWhile_append2)
  ultimately show ?thesis using w(2) by (simp add: scan_s_def Let_def)
qed

lemma mnemonic_word: "list_all (\<lambda>c. \<not> is_space c) (mnemonics ! opcode_value c) \<and> mnemonics ! opcode_value c \<noteq> []"
  by (cases c) (simp_all add: mnemonics_def is_space_def)

lemma mnemonic_first: "(case mnemonics ! opcode_value c of [] \<Rightarrow> False | h # _ \<Rightarrow> h \<noteq> CHR '';'')"
  by (cases c) (simp_all add: mnemonics_def)

lemma find_mnemonic_value: "find_mnemonic (mnemonics ! opcode_value c) mnemonics 0 = Some (opcode_value c)"
  by (cases c) (simp_all add: mnemonics_def)

lemma scan_print: "scan_line (print_instr c d s k) = Some (mnemonics ! opcode_value c, int d, int s, k)"
proof -
  let ?m = "mnemonics ! opcode_value c"
  have 1: "scan_s (?m @ CHR '' '' # r) = Some (?m, CHR '' '' # r)" for r using mnemonic_word by (simp add: scan_s_word)
  have 2: "skip_spaces (CHR '' '' # dec d @ r) = dec d @ r" for r using skip_spaces_dec[of d r] by simp
  have 3: "scan_d (dec n @ CHR '','' # r) = Some (int n, CHR '','' # r)" for n r
    by (rule scan_dec) (simp add: is_digit_def)
  have 4: "scan_lit ch (ch # r) = Some r" for ch r by (simp add: scan_lit_def)
  show ?thesis by (simp add: scan_line_def print_instr_def 1 2 3 4 scan_dec_int)
qed

lemma decode_make:
  assumes "d < 32" "s < 32" "- (2 ^ 15) \<le> k" "k < 2 ^ 15"
  shows "decode (make_instr (of_nat (opcode_value c)) (of_int (int d)) (of_int (int s)) (of_int k)) = (Some c, d, s, k)"
proof -
  have o: "(of_nat (opcode_value c) :: u32) < 64" by (cases c) simp_all
  have u: "unat (of_nat n :: u32) = n" if "n < 32" for n using that by (simp add: unat_of_nat)
  have l: "(of_nat n :: u32) < 32" if "n < 32" for n using u[OF that] that by (simp add: word_less_nat_alt)
  have sk: "sint (of_int k :: u32) = k"
    using assms(3,4) by (simp only: sint_sbintrunc') (simp add: signed_take_bit_int_eq_self)
  show ?thesis
    using sign_extended[of "of_int k"] assms sk
    by (simp add: decode_def extract_opcode_make[OF o l l] extract_dest_make[OF l l] extract_source1_make[OF l]
        extract_constant_make opcode_of_value u)
qed

text \<open>C20: Every instruction whose registers and constant fit, written out in the assembler syntax, is loaded into
  the word at the current line, from which the processor decodes the same opcode, registers and constant.\<close>

theorem assemble_decode_roundtrip:
  assumes "d < 32" "s < 32" "- (2 ^ 15) \<le> k" "k < 2 ^ 15"
  shows "\<exists>w. read_program (flat_write [0]) [print_instr c d s k] Map.empty = Some (Inr (1, [0 \<mapsto> w])) \<and>
    decode w = (Some c, d, s, k)"
proof -
  have h: "hd (print_instr c d s k) \<noteq> CHR '';''"
    using mnemonic_first[of c] by (auto simp: print_instr_def split: list.splits)
  show ?thesis
    using decode_make[OF assms, of c] h
    by (intro exI[of _ "make_instr (of_nat (opcode_value c)) (of_int (int d)) (of_int (int s)) (of_int k)"])
      (simp add: read_program_def scan_print find_mnemonic_value flat_write_def page_of_def)
qed

theorem assemble_decode_roundtrip_witness:
  "\<exists>w. read_program (flat_write [0]) [print_instr SUBI 31 1 (- 12)] Map.empty = Some (Inr (1, [0 \<mapsto> w])) \<and>
    decode w = (Some SUBI, 31, 1, - 12)"
  by (rule assemble_decode_roundtrip) simp_all

end
