(* ===== verification/Fs_Support.thy ===== *)
theory Fs_Support
  imports Prelude "HOL-Library.Multiset"
begin

text \<open>
  The block map and the directory of the file system of \<open>lab3\<close> (\<open>fs_support.c\<close>, \<open>fs_support.h\<close>).  The
  block size and the functions \<open>readBlock\<close> and \<open>writeBlock\<close> of \<open>rawdisk.h\<close>, which is not in the
  repository, are the fields of a parameter.  A block is the union \<open>fs_block\<close>, here tagged with the view
  it is used in; reading it in another view is \<open>None\<close>.
\<close>

section \<open>Blocks and directory entries\<close>

definition FS_NBLOCKS :: nat where "FS_NBLOCKS = 10"
definition BLKMAP_BID :: nat where "BLKMAP_BID = 0"
definition ROOTDIR_BID :: nat where "ROOTDIR_BID = 1"
definition FS_NAME_LEN :: nat where "FS_NAME_LEN = 12"
definition EOF_BLOCK :: u16 where "EOF_BLOCK = 0xFFFF"

text \<open>\<open>name\<close> is the array of \<open>FS_NAME_LEN\<close> characters.\<close>

record dir_entry =
  name :: string
  last_mod :: nat
  mode :: nat
  size_bytes :: nat
  first_block :: u16

datatype fs_block = Bytes "u8 list" | Blockmap "u16 list" | Directory "dir_entry list"

record 'd rawdisk =
  BLOCK_SIZE :: nat
  readBlock :: "nat \<Rightarrow> 'd \<Rightarrow> fs_block"
  writeBlock :: "nat \<Rightarrow> fs_block \<Rightarrow> 'd \<Rightarrow> 'd"

text \<open>48 bytes for a directory entry with the alignment of 64-bit systems, 2 for a block id.\<close>

definition DIR_ENTRIES_PER_BLOCK :: "'d rawdisk \<Rightarrow> nat" where
  "DIR_ENTRIES_PER_BLOCK dk = BLOCK_SIZE dk div 48"

definition BLOCKIDS_PER_BLOCK :: "'d rawdisk \<Rightarrow> nat" where
  "BLOCKIDS_PER_BLOCK dk = BLOCK_SIZE dk div 2"

text \<open>The two caches and the disk.\<close>

record 'd fs =
  bdir :: "dir_entry list"
  bmap :: "u16 list"
  disk :: 'd

abbreviation NUL :: char where "NUL \<equiv> CHR 0x00"

definition dir_entry_is_empty :: "dir_entry \<Rightarrow> bool" where
  "dir_entry_is_empty d = (case name d of [] \<Rightarrow> True | c # _ \<Rightarrow> c = NUL)"

section \<open>The block map\<close>

text \<open>\<open>freeBlock\<close> and \<open>allocateBlock\<close> return the block id and the new map.\<close>

definition freeBlock :: "u16 list \<Rightarrow> u16 \<Rightarrow> (u16 \<times> u16 list) option" where
  "freeBlock blocks freedId = do {
     bid \<leftarrow> rd_at blocks (unat freedId);
     hd0 \<leftarrow> rd_at blocks 0;
     blocks1 \<leftarrow> wr_at blocks (unat freedId) hd0;
     blocks2 \<leftarrow> wr_at blocks1 0 freedId;
     Some (bid, blocks2) }"

definition allocateBlock :: "u16 list \<Rightarrow> (u16 \<times> u16 list) option" where
  "allocateBlock blocks = do {
     bid \<leftarrow> rd_at blocks 0;
     if bid = 0 then Some (EOF_BLOCK, blocks)
     else do {
       nxt \<leftarrow> rd_at blocks (unat bid);
       blocks1 \<leftarrow> wr_at blocks 0 nxt;
       blocks2 \<leftarrow> wr_at blocks1 (unat bid) EOF_BLOCK;
       Some (bid, blocks2) } }"

definition load_blockmap :: "'d rawdisk \<Rightarrow> 'd fs \<Rightarrow> 'd fs option" where
  "load_blockmap dk s = (case readBlock dk BLKMAP_BID (disk s) of
     Blockmap bs \<Rightarrow> if length bs = BLOCKIDS_PER_BLOCK dk then Some (s\<lparr>bmap := bs\<rparr>) else None
   | _ \<Rightarrow> None)"

definition alloc_block :: "'d fs \<Rightarrow> (u16 \<times> 'd fs) option" where
  "alloc_block s = do { (b, bm) \<leftarrow> allocateBlock (bmap s); Some (b, s\<lparr>bmap := bm\<rparr>) }"

definition free_block :: "u16 \<Rightarrow> 'd fs \<Rightarrow> (u16 \<times> 'd fs) option" where
  "free_block bid s = do { (b, bm) \<leftarrow> freeBlock (bmap s) bid; Some (b, s\<lparr>bmap := bm\<rparr>) }"

definition save_blockmap :: "'d rawdisk \<Rightarrow> 'd fs \<Rightarrow> 'd fs" where
  "save_blockmap dk s = s\<lparr>disk := writeBlock dk BLKMAP_BID (Blockmap (bmap s)) (disk s)\<rparr>"

section \<open>The directory\<close>

definition load_directory :: "'d rawdisk \<Rightarrow> 'd fs \<Rightarrow> 'd fs option" where
  "load_directory dk s = (case readBlock dk ROOTDIR_BID (disk s) of
     Directory es \<Rightarrow> if length es = DIR_ENTRIES_PER_BLOCK dk then Some (s\<lparr>bdir := es\<rparr>) else None
   | _ \<Rightarrow> None)"

definition save_directory :: "'d rawdisk \<Rightarrow> 'd fs \<Rightarrow> 'd fs" where
  "save_directory dk s = s\<lparr>disk := writeBlock dk ROOTDIR_BID (Directory (bdir s)) (disk s)\<rparr>"

text \<open>\<open>strncmp(p, q, n) == 0\<close>; a C string is its characters before the terminating NUL.\<close>

fun strncmp_eq :: "nat \<Rightarrow> string \<Rightarrow> string \<Rightarrow> bool" where
  "strncmp_eq 0 p q = True"
| "strncmp_eq (Suc n) p q =
     (let a = (case p of [] \<Rightarrow> NUL | c # _ \<Rightarrow> c); b = (case q of [] \<Rightarrow> NUL | c # _ \<Rightarrow> c)
      in a = b \<and> (a = NUL \<or> strncmp_eq n (tl p) (tl q)))"

text \<open>\<open>strncpy(dst, p, n)\<close>: the \<open>n\<close> characters stored.\<close>

definition strncpy :: "nat \<Rightarrow> string \<Rightarrow> string" where
  "strncpy n p = take n p @ replicate (n - length p) NUL"

fun find_loop :: "string \<Rightarrow> dir_entry list \<Rightarrow> nat \<Rightarrow> nat" where
  "find_loop path [] di = di"
| "find_loop path (d # ds) di =
     (if \<not> dir_entry_is_empty d \<and> \<not> strncmp_eq FS_NAME_LEN path (name d) then find_loop path ds (di + 1) else di)"

text \<open>\<open>None\<close> is the result -1.\<close>

definition find_dir_entry :: "string \<Rightarrow> 'd fs \<Rightarrow> nat option" where
  "find_dir_entry path s =
     (let di = find_loop path (bdir s) 0
      in if di = length (bdir s) \<or> dir_entry_is_empty (bdir s ! di) then None else Some di)"

fun empty_loop :: "dir_entry list \<Rightarrow> nat \<Rightarrow> nat" where
  "empty_loop [] di = di"
| "empty_loop (d # ds) di = (if \<not> dir_entry_is_empty d then empty_loop ds (di + 1) else di)"

definition first_empty_dir_entry :: "'d fs \<Rightarrow> nat option" where
  "first_empty_dir_entry s = (let di = empty_loop (bdir s) 0 in if di = length (bdir s) then None else Some di)"

text \<open>The last assignment clears only the first character of the name.\<close>

function scooch_loop :: "nat \<Rightarrow> dir_entry list \<Rightarrow> dir_entry list" where
  "scooch_loop di es =
     (if di < length es - 1 \<and> \<not> dir_entry_is_empty (es ! (di + 1))
      then scooch_loop (di + 1) (es[di := es ! (di + 1)])
      else es[di := (es ! di)\<lparr>name := (name (es ! di))[0 := NUL]\<rparr>])"
  by auto
termination by (relation "measure (\<lambda>(di, es). length es - di)") auto

declare scooch_loop.simps [simp del]

definition scooch_dir_entries :: "nat \<Rightarrow> 'd fs \<Rightarrow> 'd fs" where
  "scooch_dir_entries di s = s\<lparr>bdir := scooch_loop di (bdir s)\<rparr>"

section \<open>Chains of blocks\<close>

text \<open>\<open>linked bm b xs e\<close>: following the map from \<open>b\<close> passes the blocks \<open>xs\<close>, none of them 0 or the end mark, and
  arrives at \<open>e\<close>.\<close>

fun linked :: "u16 list \<Rightarrow> u16 \<Rightarrow> u16 list \<Rightarrow> u16 \<Rightarrow> bool" where
  "linked bm b [] e \<longleftrightarrow> b = e"
| "linked bm b (x # xs) e \<longleftrightarrow> b = x \<and> x \<noteq> 0 \<and> x \<noteq> EOF_BLOCK \<and> unat x < length bm \<and> linked bm (bm ! unat x) xs e"

lemma linked_update: "linked bm b xs e \<Longrightarrow> i \<notin> unat ` set xs \<Longrightarrow> linked (bm[i := v]) b xs e"
  by (induction xs arbitrary: b) auto

lemma linked_upd: "linked bm b xs e \<Longrightarrow> x \<notin> set xs \<Longrightarrow> linked (bm[unat x := v]) b xs e"
  by (rule linked_update) (auto simp flip: word_unat_eq_iff)

lemma linked_append: "linked bm b (xs @ ys) e \<longleftrightarrow> (\<exists>m. linked bm b xs m \<and> linked bm m ys e)"
  by (induction xs arbitrary: b) auto

lemma linked_upd0: "linked bm b xs e \<Longrightarrow> linked (bm[0 := v]) b xs e"
proof (induction xs arbitrary: b)
  case (Cons x xs)
  moreover from this have "unat x \<noteq> 0" by (simp add: unat_eq_zero)
  ultimately show ?case by simp
qed simp

lemma linked_det: "linked bm b xs EOF_BLOCK \<Longrightarrow> linked bm b ys EOF_BLOCK \<Longrightarrow> xs = ys"
proof (induction xs arbitrary: b ys)
  case Nil
  then show ?case by (cases ys) auto
next
  case (Cons x xs)
  then show ?case by (cases ys) auto
qed

text \<open>The map, the list of free blocks that starts in its entry 0, and the chains of the files.\<close>

definition block_lists :: "u16 list \<Rightarrow> u16 list \<Rightarrow> (u16 \<times> u16 list) list \<Rightarrow> bool" where
  "block_lists bm free chs \<longleftrightarrow>
     bm \<noteq> [] \<and> linked bm (bm ! 0) free 0 \<and> list_all (\<lambda>(b, xs). linked bm b xs EOF_BLOCK) chs \<and>
     distinct (free @ concat (map snd chs))"

lemma block_lists_move: "block_lists bm free (cs @ c # ds) = block_lists bm free (c # cs @ ds)"
proof -
  have "mset (free @ concat (map snd (cs @ c # ds))) = mset (free @ concat (map snd (c # cs @ ds)))" by simp
  then have "distinct (free @ concat (map snd (cs @ c # ds))) = distinct (free @ concat (map snd (c # cs @ ds)))"
    by (rule mset_eq_imp_distinct_iff)
  moreover have "list_all P (cs @ c # ds) = list_all P (c # cs @ ds)" for P by auto
  ultimately show ?thesis unfolding block_lists_def by metis
qed

text \<open>Allocation takes the first free block, a chain of its own.\<close>

lemma allocateBlock_ok:
  assumes "block_lists bm (x # free) cs"
  shows "\<exists>bm'. allocateBlock bm = Some (x, bm') \<and> length bm' = length bm \<and> block_lists bm' free ((x, [x]) # cs)"
proof -
  have a: "bm \<noteq> []" "bm ! 0 = x" "x \<noteq> 0" "x \<noteq> EOF_BLOCK" "unat x < length bm" "linked bm (bm ! unat x) free 0"
    "list_all (\<lambda>(b, xs). linked bm b xs EOF_BLOCK) cs" "distinct (x # free @ concat (map snd cs))"
    using assms by (auto simp: block_lists_def)
  let ?bm = "bm[0 := bm ! unat x, unat x := EOF_BLOCK]"
  have x0: "unat x \<noteq> 0" using a(3) by (simp add: unat_eq_zero)
  have "linked ?bm (bm ! unat x) free 0"
    using a(6,8) by (auto intro!: linked_upd linked_upd0)
  moreover have "list_all (\<lambda>(b, xs). linked ?bm b xs EOF_BLOCK) cs"
    using a(7,8) by (fastforce simp: list_all_iff intro!: linked_upd linked_upd0)
  ultimately have "block_lists ?bm free ((x, [x]) # cs)"
    using a x0 by (auto simp: block_lists_def nth_list_update)
  then show ?thesis
    using a by (intro exI[of _ ?bm]) (simp add: allocateBlock_def rd_at_def wr_at_def)
qed

lemma allocateBlock_full: "block_lists bm [] cs \<Longrightarrow> allocateBlock bm = Some (EOF_BLOCK, bm)"
  by (auto simp: block_lists_def allocateBlock_def rd_at_def)

text \<open>Freeing the first block of a chain returns the rest of the chain.\<close>

lemma freeBlock_ok:
  assumes "block_lists bm free ((x, x # xs) # cs)"
  shows "\<exists>bm'. freeBlock bm x = Some (bm ! unat x, bm') \<and> length bm' = length bm \<and>
    block_lists bm' (x # free) ((bm ! unat x, xs) # cs)"
proof -
  have a: "bm \<noteq> []" "x \<noteq> 0" "x \<noteq> EOF_BLOCK" "unat x < length bm" "linked bm (bm ! 0) free 0" "linked bm (bm ! unat x) xs EOF_BLOCK"
    "list_all (\<lambda>(b, xs). linked bm b xs EOF_BLOCK) cs" "distinct (free @ (x # xs) @ concat (map snd cs))"
    using assms by (auto simp: block_lists_def)
  let ?bm = "bm[unat x := bm ! 0, 0 := x]"
  have x0: "unat x \<noteq> 0" using a(2) by (simp add: unat_eq_zero)
  have "linked ?bm (bm ! 0) free 0" using a(5,8) by (auto intro!: linked_upd linked_upd0)
  moreover have "linked ?bm (bm ! unat x) xs EOF_BLOCK"
    using a(6,8) by (auto intro!: linked_upd linked_upd0)
  moreover have "list_all (\<lambda>(b, xs). linked ?bm b xs EOF_BLOCK) cs"
    using a(7,8) by (fastforce simp: list_all_iff intro!: linked_upd linked_upd0)
  ultimately have "block_lists ?bm (x # free) ((bm ! unat x, xs) # cs)"
    using a x0 by (auto simp: block_lists_def nth_list_update)
  then show ?thesis
    using a by (intro exI[of _ ?bm]) (simp add: freeBlock_def rd_at_def wr_at_def)
qed

section \<open>Files of a directory\<close>

text \<open>The entries before the first empty one.\<close>

definition files :: "dir_entry list \<Rightarrow> dir_entry list" where
  "files es = takeWhile (\<lambda>d. \<not> dir_entry_is_empty d) es"

definition named :: "string \<Rightarrow> dir_entry \<Rightarrow> bool" where
  "named path d = strncmp_eq FS_NAME_LEN path (name d)"

lemma files_simps [simp]: "files [] = []" "files (d # ds) = (if dir_entry_is_empty d then [] else d # files ds)"
  by (simp_all add: files_def)

lemma empty_loop_files: "empty_loop es di = di + length (files es)"
  by (induction es arbitrary: di) auto

lemma files_length: "length (files es) \<le> length es"
  by (simp add: files_def length_takeWhile_le)

lemma first_empty_ok: "first_empty_dir_entry s =
  (if length (files (bdir s)) = length (bdir s) then None else Some (length (files (bdir s))))"
  by (simp add: first_empty_dir_entry_def empty_loop_files)

lemma files_nth: "i < length (files es) \<Longrightarrow> es ! i = files es ! i \<and> \<not> dir_entry_is_empty (es ! i)"
  unfolding files_def using nth_mem set_takeWhileD by (metis takeWhile_nth)

lemma files_end: "length (files es) < length es \<Longrightarrow> dir_entry_is_empty (es ! length (files es))"
  unfolding files_def using nth_length_takeWhile[of "\<lambda>d. \<not> dir_entry_is_empty d" es] by blast

lemma find_loop_files: "find_loop path es di = di + length (takeWhile (\<lambda>d. \<not> named path d) (files es))"
  by (induction es arbitrary: di) (auto simp: named_def)

text \<open>\<open>find_dir_entry\<close> returns the first file of the name.\<close>

lemma find_dir_entry_ok:
  "find_dir_entry path s = (let n = length (takeWhile (\<lambda>d. \<not> named path d) (files (bdir s)))
     in if n = length (files (bdir s)) then None else Some n)"
proof -
  let ?n = "length (takeWhile (\<lambda>d. \<not> named path d) (files (bdir s)))"
  have le: "?n \<le> length (files (bdir s))" by (rule length_takeWhile_le)
  have "(?n = length (bdir s) \<or> dir_entry_is_empty (bdir s ! ?n)) = (?n = length (files (bdir s)))"
  proof
    assume "?n = length (bdir s) \<or> dir_entry_is_empty (bdir s ! ?n)"
    then show "?n = length (files (bdir s))"
      using le files_length[of "bdir s"] files_nth[of ?n "bdir s"] by force
  next
    assume "?n = length (files (bdir s))"
    then show "?n = length (bdir s) \<or> dir_entry_is_empty (bdir s ! ?n)"
      using files_length[of "bdir s"] files_end[of "bdir s"] by (cases "?n = length (bdir s)") auto
  qed
  then show ?thesis by (simp add: find_dir_entry_def find_loop_files Let_def)
qed

lemma find_dir_entry_Some:
  "find_dir_entry path s = Some di \<longleftrightarrow> di < length (files (bdir s)) \<and> named path (files (bdir s) ! di) \<and>
     (\<forall>j < di. \<not> named path (files (bdir s) ! j))"
  using length_takeWhile_first[of "\<lambda>d. \<not> named path d" "files (bdir s)" di]
    length_takeWhile_le[of "\<lambda>d. \<not> named path d" "files (bdir s)"]
  by (auto simp: find_dir_entry_ok Let_def)

lemma find_dir_entry_None: "find_dir_entry path s = None \<longleftrightarrow> (\<forall>d \<in> set (files (bdir s)). \<not> named path d)"
  by (simp add: find_dir_entry_ok Let_def length_takeWhile_all)

text \<open>\<open>scooch_dir_entries\<close> removes one file.\<close>

definition cleared :: "dir_entry \<Rightarrow> dir_entry" where
  "cleared d = d\<lparr>name := (name d)[0 := NUL]\<rparr>"

fun shift :: "dir_entry \<Rightarrow> dir_entry list \<Rightarrow> dir_entry list" where
  "shift e [] = [cleared e]"
| "shift e (d # ds) = (if dir_entry_is_empty d then cleared e # d # ds else d # shift d ds)"

lemma cleared_empty [simp]: "dir_entry_is_empty (cleared d)"
  by (cases "name d") (simp_all add: cleared_def dir_entry_is_empty_def)

lemma scooch_shift: "scooch_loop (length as) (as @ e # ds) = as @ shift e ds"
proof (induction ds arbitrary: as e)
  case Nil
  then show ?case by (subst scooch_loop.simps) (simp add: cleared_def)
next
  case (Cons d ds)
  then show ?case using Cons[of "as @ [d]" d]
    by (subst scooch_loop.simps) (simp add: cleared_def nth_append)
qed

lemma shift_compact:
  "list_all (\<lambda>d. \<not> dir_entry_is_empty d) ds \<Longrightarrow> list_all dir_entry_is_empty rest \<Longrightarrow>
   \<exists>rest'. shift e (ds @ rest) = ds @ rest' \<and> list_all dir_entry_is_empty rest' \<and> length rest' = Suc (length rest) \<and> rest' \<noteq> []"
  by (induction ds arbitrary: e) (cases rest, auto)

lemma scooch_compact:
  assumes "list_all (\<lambda>d. \<not> dir_entry_is_empty d) fs" "list_all dir_entry_is_empty rest" "di < length fs"
  shows "\<exists>rest'. scooch_loop di (fs @ rest) = (take di fs @ drop (Suc di) fs) @ rest' \<and> list_all dir_entry_is_empty rest' \<and>
    length rest' = Suc (length rest) \<and> rest' \<noteq> []"
proof -
  have "fs @ rest = take di fs @ fs ! di # (drop (Suc di) fs @ rest)" "length (take di fs) = di"
    using assms(3) id_take_nth_drop by fastforce+
  then have "scooch_loop di (fs @ rest) = take di fs @ shift (fs ! di) (drop (Suc di) fs @ rest)"
    by (metis scooch_shift)
  moreover have "list_all (\<lambda>d. \<not> dir_entry_is_empty d) (drop (Suc di) fs)"
    using assms(1) by (simp add: list_all_length)
  ultimately show ?thesis using shift_compact[of "drop (Suc di) fs" rest "fs ! di"] assms(2) by auto
qed

lemma files_shift: "files (shift e ds) = files ds"
  by (induction ds arbitrary: e) auto

lemma length_shift: "length (shift e ds) = Suc (length ds)"
  by (induction ds arbitrary: e) auto

lemma files_append: "list_all (\<lambda>d. \<not> dir_entry_is_empty d) as \<Longrightarrow> files (as @ ds) = as @ files ds"
  by (induction as) auto

lemma scooch_files:
  assumes "di < length (files es)"
  shows "files (scooch_loop di es) = take di (files es) @ drop (Suc di) (files es) \<and> length (scooch_loop di es) = length es"
proof -
  have di: "di < length es" using assms files_length[of es] by simp
  then have es: "es = take di es @ es ! di # drop (Suc di) es" by (simp add: id_take_nth_drop)
  have "\<not> dir_entry_is_empty (es ! i)" if "i < Suc di" for i
    using files_nth[of i es] assms that by (metis less_Suc_eq_le order_le_less_trans)
  then have all: "list_all (\<lambda>d. \<not> dir_entry_is_empty d) (take (Suc di) es)"
    using di by (simp add: list_all_length)
  then have ne: "list_all (\<lambda>d. \<not> dir_entry_is_empty d) (take di es)" "\<not> dir_entry_is_empty (es ! di)"
    using di by (simp_all add: take_Suc_conv_app_nth)
  have f: "files es = take di es @ es ! di # files (drop (Suc di) es)"
    using files_append[OF ne(1), of "es ! di # drop (Suc di) es"] ne(2) es by simp
  have sc: "scooch_loop di es = take di es @ shift (es ! di) (drop (Suc di) es)"
    using scooch_shift[of "take di es" "es ! di" "drop (Suc di) es"] es di by simp
  show ?thesis
    using f di by (simp add: sc files_append[OF ne(1)] files_shift length_shift)
qed

end
