(* ===== verification/Ssfs.thy ===== *)
theory Ssfs
  imports Fs_Support
begin

text \<open>
  The handlers of the file system of \<open>lab3/ssfs.c\<close>.  A handler gets the raw disk, the value of
  \<open>time(NULL)\<close> where it asks for it, its arguments and the state, and returns its result code and the
  new state; \<open>None\<close> is undefined behaviour.  A path starts with a slash.
\<close>

definition ENOENT :: int where "ENOENT = 2"
definition ENFILE :: int where "ENFILE = 23"
definition ENOSPC :: int where "ENOSPC = 28"

abbreviation upd_entry :: "nat \<Rightarrow> (dir_entry \<Rightarrow> dir_entry) \<Rightarrow> 'd fs \<Rightarrow> 'd fs" where
  "upd_entry di f s \<equiv> s\<lparr>bdir := (bdir s)[di := f (bdir s ! di)]\<rparr>"

text \<open>A data block in the buffer of a handler.\<close>

definition read_bytes :: "'d rawdisk \<Rightarrow> u16 \<Rightarrow> 'd \<Rightarrow> u8 list option" where
  "read_bytes dk b d = (case readBlock dk (unat b) d of
     Bytes bs \<Rightarrow> if length bs = BLOCK_SIZE dk then Some bs else None
   | _ \<Rightarrow> None)"

section \<open>Attributes and listing\<close>

record stat =
  st_uid :: nat
  st_gid :: nat
  st_atime :: nat
  st_mtime :: nat
  st_mode :: nat
  st_nlink :: nat
  st_size :: nat

definition do_getattr :: "'d rawdisk \<Rightarrow> nat \<Rightarrow> nat \<Rightarrow> nat \<Rightarrow> string \<Rightarrow> stat \<Rightarrow> 'd fs \<Rightarrow> (int \<times> stat \<times> 'd fs) option" where
  "do_getattr dk getuid getgid now path st s0 =
     (let st1 = st\<lparr>st_uid := getuid, st_gid := getgid, st_atime := now\<rparr>
      in if path = ''/'' then Some (0, st1\<lparr>st_mode := 0x4000 + 0x1ed, st_nlink := 2\<rparr>, s0)
         else do {
           let st2 = st1\<lparr>st_mode := 0x8000 + 0x1a4, st_nlink := 1, st_size := 1024\<rparr>;
           let fn = tl path;
           s \<leftarrow> load_directory dk s0;
           (case find_dir_entry fn s of
              Some di \<Rightarrow>
                (let de = bdir s ! di
                 in Some (0, st2\<lparr>st_size := size_bytes de, st_mode := mode de, st_mtime := last_mod de\<rparr>, s))
            | None \<Rightarrow> Some (- ENOENT, st2, s)) })"

text \<open>\<open>snprintf\<close> into a buffer of \<open>FS_NAME_LEN\<close> characters keeps one for the NUL.\<close>

definition shown_name :: "dir_entry \<Rightarrow> string" where
  "shown_name d = take (FS_NAME_LEN - 1) (takeWhile (\<lambda>c. c \<noteq> NUL) (name d))"

fun readdir_loop :: "dir_entry list \<Rightarrow> string list" where
  "readdir_loop [] = []"
| "readdir_loop (d # ds) = (if \<not> dir_entry_is_empty d then shown_name d # readdir_loop ds else [])"

text \<open>The names given to \<open>filler\<close>.  \<open>rootb\<close> is a local block, the caches do not change.\<close>

definition do_readdir :: "'d rawdisk \<Rightarrow> string \<Rightarrow> 'd fs \<Rightarrow> (int \<times> string list) option" where
  "do_readdir dk path s =
     (if path = ''/'' then do {
        s' \<leftarrow> load_directory dk s;
        Some (0, [''.'', ''..''] @ readdir_loop (bdir s')) }
      else Some (- 1, [''.'', ''..'']))"

section \<open>Reading and writing\<close>

definition do_read :: "'d rawdisk \<Rightarrow> string \<Rightarrow> nat \<Rightarrow> nat \<Rightarrow> 'd fs \<Rightarrow> (int \<times> u8 list \<times> 'd fs) option" where
  "do_read dk path sz offset s0 = do {
     s \<leftarrow> load_directory dk s0;
     (case find_dir_entry (tl path) s of
        None \<Rightarrow> Some (- ENOENT, [], s)
      | Some di \<Rightarrow> do {
          let byteoffs = offset mod BLOCK_SIZE dk mod 2 ^ 16;
          let crtsize = min sz (BLOCK_SIZE dk - byteoffs) mod 2 ^ 16;
          let crtblk = first_block (bdir s ! di);
          bcache \<leftarrow> read_bytes dk crtblk (disk s);
          Some (int crtsize, take crtsize (drop byteoffs bcache), s) }) }"

text \<open>The loop that goes \<open>blkoffs\<close> links along the chain and extends it where it ends; \<open>None\<close> in the first
  component when there is no free block.\<close>

fun navigate :: "nat \<Rightarrow> u16 \<Rightarrow> 'd fs \<Rightarrow> (u16 option \<times> 'd fs) option" where
  "navigate 0 crtblk s = Some (Some crtblk, s)"
| "navigate (Suc blkoffs) crtblk s = do {
     nxt \<leftarrow> rd_at (bmap s) (unat crtblk);
     if nxt \<noteq> EOF_BLOCK then navigate blkoffs nxt s
     else do {
       (nblk, s1) \<leftarrow> alloc_block s;
       if nblk = EOF_BLOCK then Some (None, s1)
       else do {
         bm \<leftarrow> wr_at (bmap s1) (unat crtblk) nblk;
         navigate blkoffs nblk (s1\<lparr>bmap := bm\<rparr>) } } }"

text \<open>The part of \<open>do_write\<close> that extends the file: it allocates the first block of an empty file, and saves the
  directory with the new size; \<open>None\<close> in the first component when there is no free block.\<close>

definition grow :: "'d rawdisk \<Rightarrow> nat \<Rightarrow> nat \<Rightarrow> nat \<Rightarrow> 'd fs \<Rightarrow> (unit option \<times> 'd fs) option" where
  "grow dk now di newsize s = do {
     (fb, s1) \<leftarrow> (if first_block (bdir s ! di) = EOF_BLOCK then do {
                    (b, s') \<leftarrow> alloc_block s;
                    Some (b, upd_entry di (first_block_update (\<lambda>_. b)) s') }
                  else Some (first_block (bdir s ! di), s));
     if fb = EOF_BLOCK then Some (None, s1)
     else Some (Some (), save_directory dk (upd_entry di (\<lambda>e. e\<lparr>size_bytes := newsize, last_mod := now\<rparr>) s1)) }"

text \<open>The end of \<open>do_write\<close>: the bytes that go into the block are written to it, the map is saved.\<close>

definition store :: "'d rawdisk \<Rightarrow> u16 \<Rightarrow> nat \<Rightarrow> u8 list \<Rightarrow> 'd fs \<Rightarrow> 'd fs option" where
  "store dk crtblk byteoffs bytes s = do {
     bcache \<leftarrow> read_bytes dk crtblk (disk s);
     if byteoffs + length bytes \<le> BLOCK_SIZE dk
     then Some (save_blockmap dk (s\<lparr>disk := writeBlock dk (unat crtblk)
       (Bytes (take byteoffs bcache @ bytes @ drop (byteoffs + length bytes) bcache)) (disk s)\<rparr>))
     else None }"

text \<open>From the place where \<open>do_write\<close> looks for the block; only the part that fits one block is written.\<close>

definition write_at :: "'d rawdisk \<Rightarrow> nat \<Rightarrow> u8 list \<Rightarrow> nat \<Rightarrow> 'd fs \<Rightarrow> (int \<times> 'd fs) option" where
  "write_at dk di buffer offset s3 = do {
     let sz = length buffer;
     let blkoffs = offset div BLOCK_SIZE dk mod 2 ^ 16;
     let byteoffs = offset mod BLOCK_SIZE dk mod 2 ^ 16;
     let crtsize = min sz (BLOCK_SIZE dk - byteoffs) mod 2 ^ 16;
     (crtblk, s4) \<leftarrow> navigate blkoffs (first_block (bdir s3 ! di)) s3;
     (case crtblk of
        None \<Rightarrow> Some (- ENOSPC, s4)
      | Some b \<Rightarrow> do { s5 \<leftarrow> store dk b byteoffs (take crtsize buffer) s4; Some (int sz, s5) }) }"

definition do_write :: "'d rawdisk \<Rightarrow> nat \<Rightarrow> string \<Rightarrow> u8 list \<Rightarrow> nat \<Rightarrow> 'd fs \<Rightarrow> (int \<times> 'd fs) option" where
  "do_write dk now path buffer offset s0 = do {
     s1 \<leftarrow> load_directory dk s0;
     (case find_dir_entry (tl path) s1 of
        None \<Rightarrow> Some (- ENOENT, s1)
      | Some di \<Rightarrow> do {
          s2 \<leftarrow> load_blockmap dk s1;
          let sz = length buffer;
          let newsize = (offset + sz) mod 2 ^ 64;
          (g, s3) \<leftarrow> (if newsize > size_bytes (bdir s2 ! di) then grow dk now di newsize s2 else Some (Some (), s2));
          if g = None then Some (- ENOSPC, s3)
          else write_at dk di buffer offset s3 }) }"

section \<open>Truncating, removing, renaming, creating\<close>

text \<open>The loop of \<open>do_truncate\<close> on \<open>de->first_block\<close>; it does not return on a cyclic chain.\<close>

partial_function (option) truncate_loop :: "u16 \<Rightarrow> 'd fs \<Rightarrow> 'd fs option" where
  "truncate_loop fb s =
     (if fb \<noteq> EOF_BLOCK then do {
        nxt \<leftarrow> rd_at (bmap s) (unat fb);
        (r, s') \<leftarrow> free_block fb s;
        truncate_loop nxt s' }
      else Some s)"

definition do_truncate :: "'d rawdisk \<Rightarrow> nat \<Rightarrow> string \<Rightarrow> nat \<Rightarrow> 'd fs \<Rightarrow> (int \<times> 'd fs) option" where
  "do_truncate dk now path offset s0 = do {
     s1 \<leftarrow> load_directory dk s0;
     (case find_dir_entry (tl path) s1 of
        None \<Rightarrow> Some (- ENOENT, s1)
      | Some di \<Rightarrow> do {
          s2 \<leftarrow> load_blockmap dk (upd_entry di (size_bytes_update (\<lambda>_. 0)) s1);
          s3 \<leftarrow> truncate_loop (first_block (bdir s2 ! di)) s2;
          let s4 = save_blockmap dk (upd_entry di (first_block_update (\<lambda>_. EOF_BLOCK)) s3);
          Some (0, save_directory dk (upd_entry di (last_mod_update (\<lambda>_. now)) s4)) }) }"

definition do_unlink :: "'d rawdisk \<Rightarrow> nat \<Rightarrow> string \<Rightarrow> 'd fs \<Rightarrow> (int \<times> 'd fs) option" where
  "do_unlink dk now path s0 = do {
     s1 \<leftarrow> load_directory dk s0;
     (case find_dir_entry (tl path) s1 of
        None \<Rightarrow> Some (- ENOENT, s1)
      | Some di \<Rightarrow> do {
          (r, s2) \<leftarrow> do_truncate dk now path 0 s1;
          Some (0, save_directory dk (scooch_dir_entries di s2)) }) }"

definition do_rename :: "'d rawdisk \<Rightarrow> nat \<Rightarrow> string \<Rightarrow> string \<Rightarrow> 'd fs \<Rightarrow> (int \<times> 'd fs) option" where
  "do_rename dk now opath npath s0 = do {
     s1 \<leftarrow> load_directory dk s0;
     (case find_dir_entry (tl opath) s1 of
        None \<Rightarrow> Some (- ENOENT, s1)
      | Some di \<Rightarrow> do {
          (r, s2) \<leftarrow> do_unlink dk now npath s1;
          Some (0, save_directory dk (upd_entry di (\<lambda>e. e\<lparr>name := strncpy FS_NAME_LEN (tl npath), last_mod := now\<rparr>) s2)) }) }"

definition do_create :: "'d rawdisk \<Rightarrow> nat \<Rightarrow> string \<Rightarrow> nat \<Rightarrow> 'd fs \<Rightarrow> (int \<times> 'd fs) option" where
  "do_create dk now path m s0 = do {
     s1 \<leftarrow> load_directory dk s0;
     (case first_empty_dir_entry s1 of
        None \<Rightarrow> Some (- ENFILE, s1)
      | Some ni \<Rightarrow> Some (0, save_directory dk (upd_entry ni (\<lambda>e. e\<lparr>name := strncpy FS_NAME_LEN (tl path), mode := m,
          size_bytes := 0, first_block := EOF_BLOCK, last_mod := now\<rparr>) s1))) }"

text \<open>\<open>do_chmod\<close>, \<open>do_chown\<close> and \<open>do_utimens\<close> print their arguments.\<close>

definition do_chmod :: "string \<Rightarrow> nat \<Rightarrow> 'd fs \<Rightarrow> int \<times> 'd fs" where
  "do_chmod path m s = (0, s)"

definition do_chown :: "string \<Rightarrow> nat \<Rightarrow> nat \<Rightarrow> 'd fs \<Rightarrow> int \<times> 'd fs" where
  "do_chown path uid gid s = (0, s)"

definition do_utimens :: "string \<Rightarrow> 'd fs \<Rightarrow> int \<times> 'd fs" where
  "do_utimens path s = (0, s)"

section \<open>A consistent disk\<close>

definition data_blocks :: "'d rawdisk \<Rightarrow> 'd \<Rightarrow> u16 list \<Rightarrow> bool" where
  "data_blocks dk d bs \<longleftrightarrow> (\<forall>b \<in> set bs. 1 < unat b \<and> read_bytes dk b d \<noteq> None)"

lemma read_bytes_cong: "\<forall>b > 1. readBlock dk b d' = readBlock dk b d \<Longrightarrow> 1 < unat b \<Longrightarrow> read_bytes dk b d' = read_bytes dk b d"
  by (simp add: read_bytes_def)

lemma data_blocks_mono:
  assumes "data_blocks dk d bs" "set bs' \<subseteq> set bs" "\<forall>b > 1. readBlock dk b d' = readBlock dk b d"
  shows "data_blocks dk d' bs'"
  unfolding data_blocks_def
proof
  fix b assume "b \<in> set bs'"
  then have "1 < unat b" "read_bytes dk b d \<noteq> None" using assms(1,2) by (auto simp: data_blocks_def)
  then show "1 < unat b \<and> read_bytes dk b d' \<noteq> None" using read_bytes_cong[OF assms(3)] by simp
qed

text \<open>
  The directory block holds the files \<open>fs\<close> and empty entries after them; the block map holds the free list and
  the chain \<open>cs ! i\<close> of every file \<open>fs ! i\<close>, all of data blocks, without sharing; a file without blocks has size 0.
\<close>

definition consistent :: "'d rawdisk \<Rightarrow> 'd \<Rightarrow> dir_entry list \<Rightarrow> u16 list \<Rightarrow> u16 list \<Rightarrow> u16 list list \<Rightarrow> bool" where
  "consistent dk d fs bm free cs \<longleftrightarrow>
     (\<exists>rest. readBlock dk ROOTDIR_BID d = Directory (fs @ rest) \<and> length (fs @ rest) = DIR_ENTRIES_PER_BLOCK dk \<and>
        list_all dir_entry_is_empty rest) \<and>
     list_all (\<lambda>e. \<not> dir_entry_is_empty e) fs \<and>
     readBlock dk BLKMAP_BID d = Blockmap bm \<and> length bm = BLOCKIDS_PER_BLOCK dk \<and>
     length cs = length fs \<and> block_lists bm free (zip (map first_block fs) cs) \<and>
     data_blocks dk d (free @ concat cs) \<and>
     (\<forall>i < length fs. cs ! i = [] \<longrightarrow> size_bytes (fs ! i) = 0)"

lemma consistent_data: "consistent dk d fs bm free cs \<Longrightarrow> data_blocks dk d (free @ concat cs)"
  by (simp add: consistent_def)

text \<open>The first file of the name.\<close>

definition lookup :: "string \<Rightarrow> dir_entry list \<Rightarrow> nat \<Rightarrow> bool" where
  "lookup path fs di \<longleftrightarrow> di < length fs \<and> named (tl path) (fs ! di) \<and> (\<forall>j < di. \<not> named (tl path) (fs ! j))"

text \<open>The bytes of a file.\<close>

definition content :: "'d rawdisk \<Rightarrow> 'd \<Rightarrow> dir_entry \<Rightarrow> u16 list \<Rightarrow> u8 list" where
  "content dk d e c = take (size_bytes e) (concat (map (\<lambda>b. the (read_bytes dk b d)) c))"

lemma block_lists_at: "i < length z \<Longrightarrow> block_lists bm free z = block_lists bm free (z ! i # take i z @ drop (Suc i) z)"
  by (metis block_lists_move id_take_nth_drop)

lemma block_lists_upd: "i < length z \<Longrightarrow> block_lists bm free (z[i := c]) = block_lists bm free (c # take i z @ drop (Suc i) z)"
  by (metis block_lists_move upd_conv_take_nth_drop)

lemma block_lists_Nil: "block_lists bm free ((EOF_BLOCK, []) # z) = block_lists bm free z"
  by (simp add: block_lists_def)

lemma files_compact: "list_all (\<lambda>e. \<not> dir_entry_is_empty e) fs \<Longrightarrow> list_all dir_entry_is_empty rest \<Longrightarrow> files (fs @ rest) = fs"
  by (induction fs) (cases rest, auto)

lemma truncate_loop_ok:
  "block_lists (bmap s) free ((fb, xs) # z) \<Longrightarrow>
   \<exists>bm. truncate_loop fb s = Some (s\<lparr>bmap := bm\<rparr>) \<and> length bm = length (bmap s) \<and>
     block_lists bm (rev xs @ free) ((EOF_BLOCK, []) # z)"
proof (induction xs arbitrary: fb free s)
  case Nil
  then have "fb = EOF_BLOCK" by (simp add: block_lists_def)
  then show ?case using Nil by (intro exI[of _ "bmap s"]) (subst truncate_loop.simps, simp)
next
  case (Cons x xs)
  then have x: "fb = x" "x \<noteq> EOF_BLOCK" "unat x < length (bmap s)" by (auto simp: block_lists_def)
  obtain bm where bm: "freeBlock (bmap s) x = Some (bmap s ! unat x, bm)" "length bm = length (bmap s)"
    "block_lists bm (x # free) ((bmap s ! unat x, xs) # z)"
    using freeBlock_ok[of "bmap s" free x xs z] Cons.prems x(1) by auto
  then obtain bm' where "truncate_loop (bmap s ! unat x) (s\<lparr>bmap := bm\<rparr>) = Some (s\<lparr>bmap := bm'\<rparr>)" "length bm' = length bm"
    "block_lists bm' (rev xs @ x # free) ((EOF_BLOCK, []) # z)"
    using Cons.IH[of "s\<lparr>bmap := bm\<rparr>" "x # free" "bmap s ! unat x"] by auto
  then show ?case
    using x bm by (intro exI[of _ bm']) (subst truncate_loop.simps, simp add: free_block_def)
qed

lemma find_lookup: "find_dir_entry (tl path) s = Some di \<longleftrightarrow> lookup path (files (bdir s)) di"
  by (simp add: find_dir_entry_Some lookup_def)

text \<open>Linking a block that was just allocated to the end of a chain.\<close>

lemma extend_chain:
  assumes "block_lists bm free ((x, [x]) # (fb, pre @ [c]) # z)"
  shows "block_lists (bm[unat c := x]) free ((fb, pre @ [c, x]) # z)" "unat c < length bm"
proof -
  have a: "bm \<noteq> []" "linked bm (bm ! 0) free 0" "linked bm x [x] EOF_BLOCK" "linked bm fb pre c" "linked bm c [c] EOF_BLOCK"
    "list_all (\<lambda>(b, xs). linked bm b xs EOF_BLOCK) z" "distinct (free @ x # pre @ c # concat (map snd z))"
    using assms by (auto simp: block_lists_def linked_append)
  have c: "unat c \<noteq> 0" "unat c < length bm" using a(5) by (auto simp: unat_eq_zero)
  let ?bm = "bm[unat c := x]"
  have "linked ?bm (bm ! 0) free 0" "linked ?bm x [x] EOF_BLOCK" "linked ?bm fb pre c"
    using a(2,3,4,7) by (auto intro!: linked_upd simp del: linked.simps)
  moreover have "list_all (\<lambda>(b, xs). linked ?bm b xs EOF_BLOCK) z"
    using a(6,7) by (fastforce simp: list_all_iff intro!: linked_upd)
  ultimately show "block_lists ?bm free ((fb, pre @ [c, x]) # z)"
    using a c by (auto simp: block_lists_def linked_append)
  show "unat c < length bm" by (rule c)
qed

lemma navigate_ok:
  "block_lists (bmap s) free ((fb, pre @ c # post) # z) \<Longrightarrow> k - length post \<le> length free \<Longrightarrow>
   \<exists>bm. navigate k c s = Some (Some ((c # post @ take (k - length post) free) ! k), s\<lparr>bmap := bm\<rparr>) \<and>
     length bm = length (bmap s) \<and>
     block_lists bm (drop (k - length post) free) ((fb, pre @ c # post @ take (k - length post) free) # z)"
proof (induction k arbitrary: c pre post free s)
  case 0
  then show ?case by (intro exI[of _ "bmap s"]) simp
next
  case (Suc k)
  have c: "unat c < length (bmap s)" "linked (bmap s) (bmap s ! unat c) post EOF_BLOCK"
    using Suc.prems(1) by (auto simp: block_lists_def linked_append)
  show ?case
  proof (cases post)
    case (Cons d post')
    then have "bmap s ! unat c = d" "d \<noteq> EOF_BLOCK" using c(2) by auto
    then show ?thesis using Suc.IH[of s free "pre @ [c]" d post'] Suc.prems c(1) Cons by simp
  next
    case Nil
    then obtain x free' where f: "free = x # free'" using Suc.prems(2) by (cases free) auto
    have "block_lists (bmap s) (x # free') ((fb, pre @ [c]) # z)" using Suc.prems(1) Nil f by simp
    from allocateBlock_ok[OF this] obtain bm where bm: "allocateBlock (bmap s) = Some (x, bm)" "length bm = length (bmap s)"
      "block_lists bm free' ((x, [x]) # (fb, pre @ [c]) # z)" by blast
    have x: "x \<noteq> EOF_BLOCK" using bm(3) by (auto simp: block_lists_def)
    have e: "bmap s ! unat c = EOF_BLOCK" using c(2) Nil by simp
    have "block_lists (bm[unat c := x]) free' ((fb, (pre @ [c]) @ x # []) # z)" using extend_chain(1)[OF bm(3)] by simp
    then obtain bm' where "navigate k x (s\<lparr>bmap := bm[unat c := x]\<rparr>) = Some (Some ((x # take k free') ! k), s\<lparr>bmap := bm'\<rparr>)"
      "length bm' = length bm" "block_lists bm' (drop k free') ((fb, (pre @ [c]) @ x # take k free') # z)"
      using Suc.IH[of "s\<lparr>bmap := bm[unat c := x]\<rparr>" free' "pre @ [c]" x "[]"] Suc.prems(2) f Nil by auto
    then show ?thesis
      using bm x e c(1) f Nil by (intro exI[of _ bm']) (simp add: alloc_block_def)
  qed
qed

lemma navigate_fails:
  "block_lists (bmap s) free ((fb, pre @ c # post) # z) \<Longrightarrow> length free < k - length post \<Longrightarrow>
   \<exists>bm. navigate k c s = Some (None, s\<lparr>bmap := bm\<rparr>)"
proof (induction k arbitrary: c pre post free s)
  case (Suc k)
  have c: "unat c < length (bmap s)" "linked (bmap s) (bmap s ! unat c) post EOF_BLOCK"
    using Suc.prems(1) by (auto simp: block_lists_def linked_append)
  show ?case
  proof (cases post)
    case (Cons d post')
    then have "bmap s ! unat c = d" "d \<noteq> EOF_BLOCK" using c(2) by auto
    then show ?thesis using Suc.IH[of s free "pre @ [c]" d post'] Suc.prems c(1) Cons by simp
  next
    case Nil
    then have e: "bmap s ! unat c = EOF_BLOCK" using c(2) by simp
    show ?thesis
    proof (cases free)
      case no: Nil
      then show ?thesis using allocateBlock_full[of "bmap s"] Suc.prems(1) e c(1)
        by (intro exI[of _ "bmap s"]) (simp add: alloc_block_def)
    next
      case (Cons x free')
      have "block_lists (bmap s) (x # free') ((fb, pre @ [c]) # z)" using Suc.prems(1) Nil Cons by simp
      from allocateBlock_ok[OF this] obtain bm where bm: "allocateBlock (bmap s) = Some (x, bm)" "length bm = length (bmap s)"
        "block_lists bm free' ((x, [x]) # (fb, pre @ [c]) # z)" by blast
      have x: "x \<noteq> EOF_BLOCK" using bm(3) by (auto simp: block_lists_def)
      have "block_lists (bm[unat c := x]) free' ((fb, (pre @ [c]) @ x # []) # z)" using extend_chain(1)[OF bm(3)] by simp
      then obtain bm' where "navigate k x (s\<lparr>bmap := bm[unat c := x]\<rparr>) = Some (None, s\<lparr>bmap := bm'\<rparr>)"
        using Suc.IH[of "s\<lparr>bmap := bm[unat c := x]\<rparr>" free' "pre @ [c]" x "[]"] Suc.prems(2) Cons Nil by auto
      then show ?thesis using bm x e c(1) by (intro exI[of _ bm']) (simp add: alloc_block_def)
    qed
  qed
qed simp

text \<open>The file after a write: its chain is long enough, its entry has the new size.\<close>

definition written :: "nat \<Rightarrow> nat \<Rightarrow> u16 list \<Rightarrow> dir_entry \<Rightarrow> dir_entry" where
  "written now newsize c e = (if newsize > size_bytes e then e\<lparr>first_block := hd c, size_bytes := newsize, last_mod := now\<rparr> else e)"

definition patch :: "u8 list \<Rightarrow> nat \<Rightarrow> u8 list \<Rightarrow> u8 list" where
  "patch old off new = take off old @ new @ drop (off + length new) old"

lemma patch_length: "length old = n \<Longrightarrow> off + length new \<le> n \<Longrightarrow> length (patch old off new) = n"
  by (simp add: patch_def)

text \<open>The parameters of a write that goes through: at least one byte, and no overflow of the C types.\<close>

definition write_fits :: "'d rawdisk \<Rightarrow> u8 list \<Rightarrow> nat \<Rightarrow> bool" where
  "write_fits dk buffer offset \<longleftrightarrow> buffer \<noteq> [] \<and> offset + length buffer < 2 ^ 64 \<and> 0 < BLOCK_SIZE dk \<and> BLOCK_SIZE dk < 2 ^ 16 \<and>
     offset div BLOCK_SIZE dk < 2 ^ 16"

text \<open>The entry of a new file, and an entry with a new name.\<close>

definition new_entry :: "nat \<Rightarrow> string \<Rightarrow> nat \<Rightarrow> dir_entry" where
  "new_entry now path m = \<lparr>name = strncpy FS_NAME_LEN (tl path), last_mod = now, mode = m, size_bytes = 0, first_block = EOF_BLOCK\<rparr>"

definition renamed :: "nat \<Rightarrow> string \<Rightarrow> dir_entry \<Rightarrow> dir_entry" where
  "renamed now path e = e\<lparr>name := strncpy FS_NAME_LEN (tl path), last_mod := now\<rparr>"

section \<open>The interface of the raw disk\<close>

text \<open>What the handlers rely on: a block that was written is read back, and writing a block leaves the others.\<close>

locale raw_disk =
  fixes dk :: "'d rawdisk"
  assumes read_write: "readBlock dk b' (writeBlock dk b x d) = (if b' = b then x else readBlock dk b' d)"
begin

lemma consistent_loads:
  assumes "consistent dk (disk s) fs bm free cs"
  obtains rest where "load_directory dk s = Some (s\<lparr>bdir := fs @ rest\<rparr>)" "files (fs @ rest) = fs" "list_all dir_entry_is_empty rest"
    "\<And>es. load_blockmap dk (s\<lparr>bdir := es\<rparr>) = Some (s\<lparr>bdir := es, bmap := bm\<rparr>)" "length (fs @ rest) = DIR_ENTRIES_PER_BLOCK dk"
    "readBlock dk ROOTDIR_BID (disk s) = Directory (fs @ rest)"
proof -
  obtain rest where "readBlock dk ROOTDIR_BID (disk s) = Directory (fs @ rest)" "length (fs @ rest) = DIR_ENTRIES_PER_BLOCK dk"
    "list_all dir_entry_is_empty rest" using assms by (auto simp: consistent_def)
  then show ?thesis
    using assms files_compact[of fs rest]
    by (intro that[of rest]) (simp_all add: consistent_def load_directory_def load_blockmap_def)
qed

lemma truncate_ok:
  assumes inv: "consistent dk (disk s) fs bm free cs" and di: "lookup path fs di"
  shows "\<exists>s' bm'. do_truncate dk now path off s = Some (0, s') \<and>
    consistent dk (disk s') (fs[di := (fs ! di)\<lparr>size_bytes := 0, first_block := EOF_BLOCK, last_mod := now\<rparr>]) bm'
      (rev (cs ! di) @ free) (cs[di := []]) \<and>
    (\<forall>b > 1. readBlock dk b (disk s') = readBlock dk b (disk s)) \<and>
    readBlock dk ROOTDIR_BID (disk s') = Directory (bdir s')"
proof -
  obtain rest where r: "load_directory dk s = Some (s\<lparr>bdir := fs @ rest\<rparr>)" "files (fs @ rest) = fs" "list_all dir_entry_is_empty rest"
    "\<And>es. load_blockmap dk (s\<lparr>bdir := es\<rparr>) = Some (s\<lparr>bdir := es, bmap := bm\<rparr>)" "length (fs @ rest) = DIR_ENTRIES_PER_BLOCK dk"
    using consistent_loads[OF inv] by blast
  let ?z = "zip (map first_block fs) cs"
  let ?e = "(fs ! di)\<lparr>size_bytes := 0, first_block := EOF_BLOCK, last_mod := now\<rparr>"
  have d: "di < length fs" "length cs = length fs" "block_lists bm free ?z" "length bm = BLOCKIDS_PER_BLOCK dk"
    using di inv by (auto simp: lookup_def consistent_def)
  have find: "find_dir_entry (tl path) (s\<lparr>bdir := fs @ rest\<rparr>) = Some di" using di r(2) by (simp add: find_lookup)
  have "block_lists bm free ((first_block (fs ! di), cs ! di) # take di ?z @ drop (Suc di) ?z)"
    using d block_lists_at[of di ?z] by simp
  then obtain bm' where bm': "truncate_loop (first_block (fs ! di)) (s\<lparr>bdir := (fs[di := (fs ! di)\<lparr>size_bytes := 0\<rparr>]) @ rest, bmap := bm\<rparr>) =
       Some (s\<lparr>bdir := (fs[di := (fs ! di)\<lparr>size_bytes := 0\<rparr>]) @ rest, bmap := bm'\<rparr>)" "length bm' = length bm"
     "block_lists bm' (rev (cs ! di) @ free) ((EOF_BLOCK, []) # take di ?z @ drop (Suc di) ?z)"
    using truncate_loop_ok[of "s\<lparr>bdir := (fs[di := (fs ! di)\<lparr>size_bytes := 0\<rparr>]) @ rest, bmap := bm\<rparr>" free "first_block (fs ! di)" "cs ! di"]
    by auto
  have bl: "block_lists bm' (rev (cs ! di) @ free) (zip (map first_block (fs[di := ?e])) (cs[di := []]))"
    using bm'(3) block_lists_upd[of di ?z bm' _ "(EOF_BLOCK, [])"] d by (simp add: map_update update_zip)
  let ?s = "s\<lparr>bdir := fs[di := ?e] @ rest, bmap := bm', disk := writeBlock dk ROOTDIR_BID (Directory (fs[di := ?e] @ rest))
      (writeBlock dk BLKMAP_BID (Blockmap bm') (disk s))\<rparr>"
  have "do_truncate dk now path off s = Some (0, ?s)"
    using d(1) by (simp add: do_truncate_def r(1,4) find bm'(1) nth_append list_update_append save_blockmap_def save_directory_def)
  moreover have rb: "readBlock dk b (disk ?s) = readBlock dk b (disk s)" if "b > 1" for b
    using that by (simp add: read_write ROOTDIR_BID_def BLKMAP_BID_def)
  moreover have "set (rev (cs ! di) @ free @ concat (cs[di := []])) \<subseteq> set (free @ concat cs)"
    using d set_update_subset_insert[of cs di "[]"] nth_mem[of di cs] by auto
  then have "data_blocks dk (disk ?s) ((rev (cs ! di) @ free) @ concat (cs[di := []]))"
    using rb by (intro data_blocks_mono[OF consistent_data[OF inv]]) auto
  moreover have "\<not> dir_entry_is_empty ?e \<longleftrightarrow> \<not> dir_entry_is_empty (fs ! di)" by (simp add: dir_entry_is_empty_def)
  then have "list_all (\<lambda>e. \<not> dir_entry_is_empty e) (fs[di := ?e])"
    using inv d(1) by (auto simp: consistent_def list_all_length nth_list_update)
  ultimately show ?thesis
    using bl d r(3,5) bm'(2) inv
    by (intro exI[of _ ?s] exI[of _ bm']) (auto simp: consistent_def read_write ROOTDIR_BID_def BLKMAP_BID_def nth_list_update)
qed


text \<open>Removing an element of the directory and of the chains.\<close>

lemma block_lists_remove:
  assumes "i < length fs" "length cs = length fs" "cs ! i = []" "block_lists bm free (zip (map first_block fs) cs)"
  shows "block_lists bm free (zip (map first_block (take i fs @ drop (Suc i) fs)) (take i cs @ drop (Suc i) cs))"
proof -
  let ?z = "zip (map first_block fs) cs"
  have "block_lists bm free (?z ! i # take i ?z @ drop (Suc i) ?z)" using assms block_lists_at[of i ?z] by simp
  then have "block_lists bm free (take i ?z @ drop (Suc i) ?z)" using assms by (simp add: block_lists_def)
  then show ?thesis using assms by (simp add: take_zip drop_zip take_map drop_map zip_append)
qed

text \<open>Changing the directory block leaves the chains and the data.\<close>

lemma consistent_directory:
  assumes "consistent dk d fs bm free cs"
    and "readBlock dk ROOTDIR_BID d' = Directory (fs' @ rest)" "length (fs' @ rest) = DIR_ENTRIES_PER_BLOCK dk"
      "list_all dir_entry_is_empty rest" "list_all (\<lambda>e. \<not> dir_entry_is_empty e) fs'"
    and "\<And>b. b \<noteq> ROOTDIR_BID \<Longrightarrow> readBlock dk b d' = readBlock dk b d"
    and "length cs' = length fs'" "block_lists bm free (zip (map first_block fs') cs')"
      "set (concat cs') \<subseteq> set (concat cs)" "\<And>i. i < length fs' \<Longrightarrow> cs' ! i = [] \<Longrightarrow> size_bytes (fs' ! i) = 0"
  shows "consistent dk d' fs' bm free cs'"
proof -
  have "data_blocks dk d' (free @ concat cs')"
    using assms(6,9) by (intro data_blocks_mono[OF consistent_data[OF assms(1)]]) (auto simp: ROOTDIR_BID_def)
  then show ?thesis
    using assms(1-5,7,8,10) assms(6)[of BLKMAP_BID] by (auto simp: consistent_def BLKMAP_BID_def ROOTDIR_BID_def)
qed

lemma unlink_ok:
  assumes inv: "consistent dk (disk s) fs bm free cs" and di: "lookup path fs di"
  shows "\<exists>s' bm'. do_unlink dk now path s = Some (0, s') \<and>
    consistent dk (disk s') (take di fs @ drop (Suc di) fs) bm' (rev (cs ! di) @ free) (take di cs @ drop (Suc di) cs) \<and>
    (\<forall>b > 1. readBlock dk b (disk s') = readBlock dk b (disk s)) \<and>
    readBlock dk ROOTDIR_BID (disk s') = Directory (bdir s')"
proof -
  obtain rest where r: "load_directory dk s = Some (s\<lparr>bdir := fs @ rest\<rparr>)" "files (fs @ rest) = fs"
    using consistent_loads[OF inv] by blast
  let ?e = "(fs ! di)\<lparr>size_bytes := 0, first_block := EOF_BLOCK, last_mod := now\<rparr>"
  let ?fs = "take di fs @ drop (Suc di) fs"
  have len: "di < length fs" "length cs = length fs" using di inv by (auto simp: lookup_def consistent_def)
  have find: "find_dir_entry (tl path) (s\<lparr>bdir := fs @ rest\<rparr>) = Some di" using di r(2) by (simp add: find_lookup)
  obtain s' bm' where t: "do_truncate dk now path 0 (s\<lparr>bdir := fs @ rest\<rparr>) = Some (0, s')"
    "consistent dk (disk s') (fs[di := ?e]) bm' (rev (cs ! di) @ free) (cs[di := []])"
    "\<forall>b > 1. readBlock dk b (disk s') = readBlock dk b (disk s)" "readBlock dk ROOTDIR_BID (disk s') = Directory (bdir s')"
    using truncate_ok[of "s\<lparr>bdir := fs @ rest\<rparr>" fs bm free cs path di now 0] inv di by auto
  then obtain rest2 where r2: "bdir s' = fs[di := ?e] @ rest2"
    "length (fs[di := ?e] @ rest2) = DIR_ENTRIES_PER_BLOCK dk" "list_all dir_entry_is_empty rest2"
    "list_all (\<lambda>e. \<not> dir_entry_is_empty e) (fs[di := ?e])"
    by (auto simp: consistent_def)
  obtain rest3 where r3: "scooch_loop di (bdir s') = ?fs @ rest3" "list_all dir_entry_is_empty rest3" "length rest3 = Suc (length rest2)"
    using scooch_compact[OF r2(4,3), of di] len r2(1) by auto
  let ?s = "save_directory dk (scooch_dir_entries di s')"
  have "do_unlink dk now path s = Some (0, ?s)" using t(1) by (simp add: do_unlink_def r find)
  moreover have "consistent dk (disk ?s) ?fs bm' (rev (cs ! di) @ free) (take di cs @ drop (Suc di) cs)"
  proof (rule consistent_directory[OF t(2)])
    show "readBlock dk ROOTDIR_BID (disk ?s) = Directory (?fs @ rest3)"
      using r3(1) by (simp add: save_directory_def scooch_dir_entries_def read_write)
    show "length (?fs @ rest3) = DIR_ENTRIES_PER_BLOCK dk" using r2(2) r3(3) len by simp
    show "list_all (\<lambda>e. \<not> dir_entry_is_empty e) ?fs"
      using inv set_take_subset[of di fs] set_drop_subset[of "Suc di" fs] by (auto simp: consistent_def list_all_iff)
    show "readBlock dk b (disk ?s) = readBlock dk b (disk s')" if "b \<noteq> ROOTDIR_BID" for b
      using that by (simp add: save_directory_def scooch_dir_entries_def read_write)
    show "block_lists bm' (rev (cs ! di) @ free) (zip (map first_block ?fs) (take di cs @ drop (Suc di) cs))"
      using block_lists_remove[of di "fs[di := ?e]" "cs[di := []]"] t(2) len by (simp add: consistent_def)
    show "set (concat (take di cs @ drop (Suc di) cs)) \<subseteq> set (concat (cs[di := []]))"
      using len by (simp add: upd_conv_take_nth_drop)
    show "size_bytes (?fs ! i) = 0" if "i < length ?fs" "(take di cs @ drop (Suc di) cs) ! i = []" for i
      using that inv len by (auto simp: consistent_def nth_append split: if_splits)
  qed (use r3 len in auto)
  moreover have "\<forall>b > 1. readBlock dk b (disk ?s) = readBlock dk b (disk s)" "readBlock dk ROOTDIR_BID (disk ?s) = Directory (bdir ?s)"
    using t(3) by (simp_all add: save_directory_def scooch_dir_entries_def read_write ROOTDIR_BID_def)
  ultimately show ?thesis by blast
qed

text \<open>Creating a file appends an entry.\<close>

lemma create_ok:
  assumes inv: "consistent dk (disk s) fs bm free cs" and room: "length fs < DIR_ENTRIES_PER_BLOCK dk"
    and nm: "tl path \<noteq> []" "hd (tl path) \<noteq> NUL"
  shows "\<exists>s'. do_create dk now path m s = Some (0, s') \<and> consistent dk (disk s') (fs @ [new_entry now path m]) bm free (cs @ [[]]) \<and>
    (\<forall>b \<noteq> ROOTDIR_BID. readBlock dk b (disk s') = readBlock dk b (disk s))"
proof -
  obtain rest where r: "load_directory dk s = Some (s\<lparr>bdir := fs @ rest\<rparr>)" "files (fs @ rest) = fs" "list_all dir_entry_is_empty rest"
    "length (fs @ rest) = DIR_ENTRIES_PER_BLOCK dk" using consistent_loads[OF inv] by blast
  then obtain e rest' where e: "rest = e # rest'" using room by (cases rest) auto
  have upd: "e\<lparr>name := strncpy FS_NAME_LEN (tl path), mode := m, size_bytes := 0, first_block := EOF_BLOCK, last_mod := now\<rparr> =
    new_entry now path m" by (cases e) (simp add: new_entry_def)
  let ?s = "save_directory dk (s\<lparr>bdir := (fs @ [new_entry now path m]) @ rest'\<rparr>)"
  have "do_create dk now path m s = Some (0, ?s)"
    using r(2) e by (simp add: do_create_def r(1) first_empty_ok upd)
  moreover have "consistent dk (disk ?s) (fs @ [new_entry now path m]) bm free (cs @ [[]])"
  proof (rule consistent_directory[OF inv])
    show "list_all (\<lambda>e. \<not> dir_entry_is_empty e) (fs @ [new_entry now path m])"
      using inv nm by (cases "tl path") (auto simp: consistent_def new_entry_def dir_entry_is_empty_def strncpy_def FS_NAME_LEN_def)
    have "zip (map first_block (fs @ [new_entry now path m])) (cs @ [[]]) = zip (map first_block fs) cs @ [(EOF_BLOCK, [])]"
      using inv by (simp add: new_entry_def consistent_def)
    then show "block_lists bm free (zip (map first_block (fs @ [new_entry now path m])) (cs @ [[]]))"
      using inv block_lists_move[of bm free "zip (map first_block fs) cs" "(EOF_BLOCK, [])" "[]"]
      by (simp add: consistent_def block_lists_Nil)
    show "size_bytes ((fs @ [new_entry now path m]) ! i) = 0" if "i < length (fs @ [new_entry now path m])" "(cs @ [[]]) ! i = []" for i
      using that inv by (auto simp: consistent_def nth_append new_entry_def split: if_splits)
  qed (use r e inv in \<open>auto simp: save_directory_def read_write consistent_def\<close>)
  ultimately show ?thesis by (auto simp: save_directory_def read_write)
qed


text \<open>What \<open>do_write\<close> has after the file was extended.\<close>

lemma grow_ok:
  assumes inv: "consistent dk d fs bm free cs" and di: "di < length fs" and rest: "list_all dir_entry_is_empty rest"
    "readBlock dk ROOTDIR_BID d = Directory (fs @ rest)"
    and s2: "s2 = \<lparr>bdir = fs @ rest, bmap = bm, disk = d\<rparr>"
    and pos: "0 < newsize" and room: "cs ! di = [] \<Longrightarrow> free \<noteq> []"
    and n: "n = (if cs ! di = [] then 1 else 0)" and c: "c = cs ! di @ take n free"
    and z: "z = zip (map first_block fs) cs"
  shows "\<exists>s3. (if newsize > size_bytes (bdir s2 ! di) then grow dk now di newsize s2 else Some (Some (), s2)) = Some (Some (), s3) \<and>
    block_lists (bmap s3) (drop n free) ((hd c, c) # take di z @ drop (Suc di) z) \<and> length (bmap s3) = length bm \<and> c \<noteq> [] \<and>
    bdir s3 = fs[di := written now newsize c (fs ! di)] @ rest \<and> first_block (bdir s3 ! di) = hd c \<and>
    readBlock dk ROOTDIR_BID (disk s3) = Directory (bdir s3) \<and> (\<forall>b \<noteq> ROOTDIR_BID. readBlock dk b (disk s3) = readBlock dk b d)"
proof -
  have len: "length cs = length fs" "di < length z" using inv di z by (auto simp: consistent_def)
  have bl: "block_lists bm free ((first_block (fs ! di), cs ! di) # take di z @ drop (Suc di) z)"
    using inv block_lists_at[OF len(2), of bm free] len di by (simp add: consistent_def z)
  show ?thesis
  proof (cases "cs ! di = []")
    case True
    then obtain x free' where f: "free = x # free'" using room by (cases free) auto
    have fb: "first_block (fs ! di) = EOF_BLOCK" and sz: "size_bytes (fs ! di) = 0"
      using bl True inv di by (auto simp: block_lists_def consistent_def)
    have "block_lists bm (x # free') (take di z @ drop (Suc di) z)"
      using bl True fb f by (simp add: block_lists_Nil)
    from allocateBlock_ok[OF this] obtain bm' where a: "allocateBlock bm = Some (x, bm')" "length bm' = length bm"
      "block_lists bm' free' ((x, [x]) # take di z @ drop (Suc di) z)" by blast
    have x: "x \<noteq> EOF_BLOCK" using a(3) by (auto simp: block_lists_def)
    have e: "written now newsize c (fs ! di) = (fs ! di)\<lparr>first_block := x, size_bytes := newsize, last_mod := now\<rparr>"
      using True pos sz f n c by (simp add: written_def)
    let ?s3 = "save_directory dk \<lparr>bdir = fs[di := written now newsize c (fs ! di)] @ rest, bmap = bm', disk = d\<rparr>"
    have "grow dk now di newsize s2 = Some (Some (), ?s3)"
      using fb a(1) x di by (simp add: grow_def s2 nth_append alloc_block_def list_update_append e)
    then show ?thesis
      using pos sz a f True n c di e
      by (intro exI[of _ ?s3]) (simp add: s2 nth_append save_directory_def read_write)
  next
    case False
    have fb: "first_block (fs ! di) = hd (cs ! di)" "first_block (fs ! di) \<noteq> EOF_BLOCK"
      using bl False by (cases "cs ! di"; auto simp: block_lists_def)+
    have "hd c = hd (cs ! di)" "c = cs ! di" using c n False by simp_all
    note c' = this
    show ?thesis
    proof (cases "newsize > size_bytes (fs ! di)")
      case True
      have e: "written now newsize c (fs ! di) = (fs ! di)\<lparr>size_bytes := newsize, last_mod := now\<rparr>"
        using True fb(1) c' by (cases "fs ! di") (simp add: written_def)
      let ?s3 = "save_directory dk \<lparr>bdir = fs[di := written now newsize c (fs ! di)] @ rest, bmap = bm, disk = d\<rparr>"
      have "grow dk now di newsize s2 = Some (Some (), ?s3)"
        using fb di by (simp add: grow_def s2 nth_append list_update_append e)
      then show ?thesis
        using True fb bl False n c' di e
        by (intro exI[of _ ?s3]) (simp add: s2 nth_append save_directory_def read_write)
    next
      case nogrow: False
      then have "written now newsize c (fs ! di) = fs ! di" by (simp add: written_def)
      then show ?thesis
        using nogrow fb bl False n c' di rest(2) by (intro exI[of _ s2]) (simp add: s2 nth_append)
    qed
  qed
qed


lemma store_ok:
  assumes "read_bytes dk b (disk s) = Some old" "1 < unat b" "off + length new \<le> BLOCK_SIZE dk"
  shows "\<exists>s'. store dk b off new s = Some s' \<and> bdir s' = bdir s \<and> bmap s' = bmap s \<and>
    readBlock dk BLKMAP_BID (disk s') = Blockmap (bmap s) \<and>
    (\<forall>b' \<noteq> BLKMAP_BID. readBlock dk b' (disk s') = (if b' = unat b then Bytes (patch old off new) else readBlock dk b' (disk s)))"
  using assms by (simp add: store_def save_blockmap_def patch_def read_write BLKMAP_BID_def)

lemma written_name: "dir_entry_is_empty (written now sz c e) = dir_entry_is_empty e"
  by (simp add: written_def dir_entry_is_empty_def)

lemma write_ok:
  assumes inv: "consistent dk (disk s) fs bm free cs" and di: "lookup path fs di" and w: "write_fits dk buffer offset"
    and n: "n = Suc (offset div BLOCK_SIZE dk) - length (cs ! di)" "n \<le> length free" and c: "c = cs ! di @ take n free"
    and old: "read_bytes dk (c ! (offset div BLOCK_SIZE dk)) (disk s) = Some old"
    and new: "new = take (BLOCK_SIZE dk - offset mod BLOCK_SIZE dk) buffer"
  shows "\<exists>s' bm'. do_write dk now path buffer offset s = Some (int (length buffer), s') \<and>
    consistent dk (disk s') (fs[di := written now (offset + length buffer) c (fs ! di)]) bm' (drop n free) (cs[di := c]) \<and>
    (\<forall>b > 1. readBlock dk b (disk s') = (if b = unat (c ! (offset div BLOCK_SIZE dk))
       then Bytes (patch old (offset mod BLOCK_SIZE dk) new) else readBlock dk b (disk s)))"
proof -
  let ?BS = "BLOCK_SIZE dk" and ?w = "written now (offset + length buffer) c (fs ! di)"
  let ?k = "offset div ?BS" and ?o = "offset mod ?BS" and ?z = "zip (map first_block fs) cs"
  have BS: "0 < ?BS" "?BS < 2 ^ 16" "?k < 2 ^ 16" "0 < offset + length buffer" "offset + length buffer < 2 ^ 64"
    using w by (auto simp: write_fits_def)
  have o1: "?o < ?BS" using BS(1) by simp
  then have o: "?o mod 2 ^ 16 = ?o" "?k mod 2 ^ 16 = ?k" using BS(2,3) by (metis mod_less order.strict_trans)+
  have len: "di < length fs" "length cs = length fs" using di inv by (auto simp: lookup_def consistent_def)
  obtain rest where r: "load_directory dk s = Some (s\<lparr>bdir := fs @ rest\<rparr>)" "files (fs @ rest) = fs" "list_all dir_entry_is_empty rest"
    "\<And>es. load_blockmap dk (s\<lparr>bdir := es\<rparr>) = Some (s\<lparr>bdir := es, bmap := bm\<rparr>)" "length (fs @ rest) = DIR_ENTRIES_PER_BLOCK dk"
    and rd: "readBlock dk ROOTDIR_BID (disk s) = Directory (fs @ rest)"
    using consistent_loads[OF inv] by blast
  have find: "find_dir_entry (tl path) (s\<lparr>bdir := fs @ rest\<rparr>) = Some di" using di r(2) by (simp add: find_lookup)
  let ?s2 = "s\<lparr>bdir := fs @ rest, bmap := bm\<rparr>"
  define n0 where "n0 = (if cs ! di = [] then 1 else 0 :: nat)"
  define c0 where "c0 = cs ! di @ take n0 free"
  have room: "free \<noteq> []" if "cs ! di = []" using that n by auto
  obtain s3 where s3: "(if offset + length buffer > size_bytes (bdir ?s2 ! di) then grow dk now di (offset + length buffer) ?s2
      else Some (Some (), ?s2)) = Some (Some (), s3)"
    "block_lists (bmap s3) (drop n0 free) ((hd c0, c0) # take di ?z @ drop (Suc di) ?z)" "length (bmap s3) = length bm" "c0 \<noteq> []"
    "bdir s3 = fs[di := written now (offset + length buffer) c0 (fs ! di)] @ rest" "first_block (bdir s3 ! di) = hd c0"
    "readBlock dk ROOTDIR_BID (disk s3) = Directory (bdir s3)" "\<forall>b \<noteq> ROOTDIR_BID. readBlock dk b (disk s3) = readBlock dk b (disk s)"
    using grow_ok[OF inv len(1) r(3) rd _ BS(4) room n0_def c0_def refl, of ?s2 now] by auto
  define n1 where "n1 = ?k - length (tl c0)"
  have nn: "n = n0 + n1" using n(1) room by (cases "cs ! di"; cases free) (simp_all add: n0_def n1_def c0_def)
  have "c = c0 @ take n1 (drop n0 free)" unfolding c nn take_add by (simp add: c0_def)
  then have c': "c = hd c0 # tl c0 @ take n1 (drop n0 free)" "hd c = hd c0" using s3(4) by simp_all
  obtain bm4 where nav: "navigate ?k (hd c0) s3 = Some (Some (c ! ?k), s3\<lparr>bmap := bm4\<rparr>)" "length bm4 = length (bmap s3)"
    "block_lists bm4 (drop n free) ((hd c0, c) # take di ?z @ drop (Suc di) ?z)"
  proof -
    let ?Z = "take di ?z @ drop (Suc di) ?z"
    have p: "block_lists (bmap s3) (drop n0 free) ((hd c0, [] @ hd c0 # tl c0) # ?Z)" "n1 \<le> length (drop n0 free)"
      using s3(2,4) n(2) nn by simp_all
    have d: "drop n1 (drop n0 free) = drop n free" by (simp add: nn add.commute)
    show ?thesis
      using navigate_ok[of s3 "drop n0 free" "hd c0" "[]" "hd c0" "tl c0" ?Z ?k, folded n1_def, OF p, unfolded append.append_Nil c'(1)[symmetric] d]
        that by blast
  qed
  have kl: "?k < length c" using n c by auto
  have sub: "set c \<subseteq> set (free @ concat cs)"
    using len nth_mem[of di cs] set_take_subset[of n free] by (auto simp: c)
  then have b: "1 < unat (c ! ?k)" using consistent_data[OF inv] nth_mem[OF kl] by (auto simp: data_blocks_def)
  then have old': "read_bytes dk (c ! ?k) (disk s3) = Some old"
    using old read_bytes_cong[of dk "disk s3" "disk s"] s3(8) by (simp add: ROOTDIR_BID_def)
  have new': "take (min (length buffer) (?BS - ?o) mod 2 ^ 16) buffer = new" "?o + length new \<le> ?BS"
    using BS o1 by (auto simp: new mod_less min_def)
  obtain s5 where s5: "store dk (c ! ?k) ?o new (s3\<lparr>bmap := bm4\<rparr>) = Some s5" "bdir s5 = bdir s3" "bmap s5 = bm4"
    "readBlock dk BLKMAP_BID (disk s5) = Blockmap bm4"
    "\<forall>b' \<noteq> BLKMAP_BID. readBlock dk b' (disk s5) = (if b' = unat (c ! ?k) then Bytes (patch old ?o new) else readBlock dk b' (disk s3))"
    using store_ok[of "c ! ?k" "s3\<lparr>bmap := bm4\<rparr>" old ?o new] old' b new'(2) by auto
  have wc: "written now (offset + length buffer) c0 (fs ! di) = ?w" by (simp add: written_def c'(2))
  have wa: "write_at dk di buffer offset s3 = Some (int (length buffer), s5)"
    unfolding write_at_def Let_def o s3(6) new'(1) by (simp add: nav(1) s5(1))
  have ns: "(offset + length buffer) mod 2 ^ 64 = offset + length buffer" using BS(5) by simp
  have "do_write dk now path buffer offset s = Some (int (length buffer), s5)"
    unfolding do_write_def Let_def ns by (simp only: r(1) r(4) find s3(1) bind.bind_lunit option.case prod.case wa) simp
  moreover have dat: "readBlock dk b (disk s5) = (if b = unat (c ! ?k) then Bytes (patch old ?o new) else readBlock dk b (disk s))" if "b > 1" for b
    using that s5(5) s3(8) by (simp add: BLKMAP_BID_def ROOTDIR_BID_def)
  moreover have "consistent dk (disk s5) (fs[di := ?w]) bm4 (drop n free) (cs[di := c])"
  proof -
    have lo: "length old = ?BS" using old by (auto simp: read_bytes_def split: fs_block.splits if_splits)
    have "data_blocks dk (disk s5) (drop n free @ concat (cs[di := c]))"
      unfolding data_blocks_def
    proof
      fix b assume "b \<in> set (drop n free @ concat (cs[di := c]))"
      then have "b \<in> set (free @ concat cs)"
        using sub set_drop_subset[of n free] set_update_subset_insert[of cs di c] by (auto 4 3)
      then have b: "1 < unat b" "read_bytes dk b (disk s) \<noteq> None" using consistent_data[OF inv] by (auto simp: data_blocks_def)
      then show "1 < unat b \<and> read_bytes dk b (disk s5) \<noteq> None"
        using dat[of "unat b"] patch_length[OF lo new'(2)] by (simp add: read_bytes_def)
    qed
    moreover have "block_lists bm4 (drop n free) (zip (map first_block (fs[di := ?w])) (cs[di := c]))"
      using nav(3) block_lists_upd[of di ?z bm4 "drop n free" "(hd c0, c)"] len s3(5,6) wc
      by (simp add: map_update update_zip nth_append)
    moreover have "list_all (\<lambda>e. \<not> dir_entry_is_empty e) (fs[di := ?w])"
      using inv len by (auto simp: consistent_def list_all_length nth_list_update written_name)
    moreover have "readBlock dk ROOTDIR_BID (disk s5) = Directory (fs[di := ?w] @ rest)"
      using s5(5) s3(5,7) wc b by (simp add: ROOTDIR_BID_def BLKMAP_BID_def)
    moreover have "c \<noteq> []" using kl by auto
    then have "\<forall>i < length (fs[di := ?w]). cs[di := c] ! i = [] \<longrightarrow> size_bytes (fs[di := ?w] ! i) = 0"
      using inv len by (auto simp: consistent_def nth_list_update)
    ultimately show ?thesis
      using s5(4) len r(3,5) nav(2) s3(3) inv unfolding consistent_def by (intro conjI exI[of _ rest]) auto
  qed
  ultimately show ?thesis by blast
qed


text \<open>A write that needs more blocks than are free.  When the file was empty its first block is allocated and its
  entry is saved, but not the map.\<close>

lemma write_full:
  assumes inv: "consistent dk (disk s) fs bm free cs" and di: "lookup path fs di" and w: "write_fits dk buffer offset"
    and n: "length free < Suc (offset div BLOCK_SIZE dk) - length (cs ! di)"
  shows "\<exists>s'. do_write dk now path buffer offset s = Some (- ENOSPC, s') \<and>
    (cs ! di = [] \<and> free \<noteq> [] \<longrightarrow> readBlock dk BLKMAP_BID (disk s') = Blockmap bm \<and>
      (\<exists>rest. readBlock dk ROOTDIR_BID (disk s') = Directory (fs[di := written now (offset + length buffer) free (fs ! di)] @ rest)))"
proof -
  let ?BS = "BLOCK_SIZE dk" and ?k = "offset div BLOCK_SIZE dk" and ?z = "zip (map first_block fs) cs"
  have BS: "?k < 2 ^ 16" "0 < offset + length buffer" "offset + length buffer < 2 ^ 64"
    using w by (auto simp: write_fits_def)
  have o: "?k mod 2 ^ 16 = ?k" using BS(1) by simp
  have ns: "(offset + length buffer) mod 2 ^ 64 = offset + length buffer" using BS(3) by simp
  have len: "di < length fs" "length cs = length fs" using di inv by (auto simp: lookup_def consistent_def)
  obtain rest where r: "load_directory dk s = Some (s\<lparr>bdir := fs @ rest\<rparr>)" "files (fs @ rest) = fs" "list_all dir_entry_is_empty rest"
    "\<And>es. load_blockmap dk (s\<lparr>bdir := es\<rparr>) = Some (s\<lparr>bdir := es, bmap := bm\<rparr>)"
    and rd: "readBlock dk ROOTDIR_BID (disk s) = Directory (fs @ rest)"
    using consistent_loads[OF inv] by blast
  have find: "find_dir_entry (tl path) (s\<lparr>bdir := fs @ rest\<rparr>) = Some di" using di r(2) by (simp add: find_lookup)
  let ?s2 = "s\<lparr>bdir := fs @ rest, bmap := bm\<rparr>"
  show ?thesis
  proof (cases "cs ! di = [] \<and> free = []")
    case True
    have bl: "block_lists bm free ((first_block (fs ! di), cs ! di) # take di ?z @ drop (Suc di) ?z)"
      using inv block_lists_at[of di ?z bm free] len by (simp add: consistent_def)
    then have fb: "first_block (fs ! di) = EOF_BLOCK" "block_lists bm [] ((EOF_BLOCK, []) # take di ?z @ drop (Suc di) ?z)"
      using True by (auto simp: block_lists_def)
    have sz: "size_bytes (fs ! di) = 0" using True inv len by (simp add: consistent_def)
    have "allocateBlock bm = Some (EOF_BLOCK, bm)" by (rule allocateBlock_full[OF fb(2)])
    then have "\<exists>s'. grow dk now di (offset + length buffer) ?s2 = Some (None, s')"
      using fb(1) len by (simp add: grow_def nth_append alloc_block_def)
    then obtain s' where "grow dk now di (offset + length buffer) ?s2 = Some (None, s')" by blast
    then have "do_write dk now path buffer offset s = Some (- ENOSPC, s')"
      unfolding do_write_def Let_def ns using BS(2) sz len by (simp add: r(1,4) find nth_append)
    then show ?thesis using True by blast
  next
    case False
    define n0 where "n0 = (if cs ! di = [] then 1 else 0 :: nat)"
    define c0 where "c0 = cs ! di @ take n0 free"
    have room: "free \<noteq> []" if "cs ! di = []" using that False by auto
    obtain s3 where s3: "(if offset + length buffer > size_bytes (bdir ?s2 ! di) then grow dk now di (offset + length buffer) ?s2
        else Some (Some (), ?s2)) = Some (Some (), s3)"
      "block_lists (bmap s3) (drop n0 free) ((hd c0, c0) # take di ?z @ drop (Suc di) ?z)" "length (bmap s3) = length bm" "c0 \<noteq> []"
      "bdir s3 = fs[di := written now (offset + length buffer) c0 (fs ! di)] @ rest" "first_block (bdir s3 ! di) = hd c0"
      "readBlock dk ROOTDIR_BID (disk s3) = Directory (bdir s3)" "\<forall>b \<noteq> ROOTDIR_BID. readBlock dk b (disk s3) = readBlock dk b (disk s)"
      using grow_ok[OF inv len(1) r(3) rd _ BS(2) room n0_def c0_def refl, of ?s2 now] by auto
    have p: "block_lists (bmap s3) (drop n0 free) ((hd c0, [] @ hd c0 # tl c0) # take di ?z @ drop (Suc di) ?z)"
      using s3(2,4) by simp
    have "length (drop n0 free) < ?k - length (tl c0)"
      using n room by (cases "cs ! di"; cases free) (simp_all add: n0_def c0_def)
    from navigate_fails[OF p this] obtain bm4 where nav: "navigate ?k (hd c0) s3 = Some (None, s3\<lparr>bmap := bm4\<rparr>)" by blast
    have wa: "write_at dk di buffer offset s3 = Some (- ENOSPC, s3\<lparr>bmap := bm4\<rparr>)"
      unfolding write_at_def Let_def o s3(6) by (simp add: nav)
    have "do_write dk now path buffer offset s = Some (- ENOSPC, s3\<lparr>bmap := bm4\<rparr>)"
      unfolding do_write_def Let_def ns by (simp only: r(1) r(4) find s3(1) bind.bind_lunit option.case prod.case wa) simp
    moreover have "written now (offset + length buffer) c0 (fs ! di) = written now (offset + length buffer) free (fs ! di)" if "cs ! di = []" "free \<noteq> []"
      using that by (cases free) (simp_all add: c0_def n0_def written_def)
    ultimately show ?thesis
      using s3(5,7,8) inv by (auto simp: consistent_def BLKMAP_BID_def ROOTDIR_BID_def)
  qed
qed

text \<open>Renaming when no other file has the new name.\<close>

lemma unlink_missing:
  assumes "consistent dk (disk s) fs bm free cs" "\<forall>e \<in> set fs. \<not> named (tl path) e"
  shows "\<exists>rest. do_unlink dk now path s = Some (- ENOENT, s\<lparr>bdir := fs @ rest\<rparr>) \<and> list_all dir_entry_is_empty rest \<and>
    length (fs @ rest) = DIR_ENTRIES_PER_BLOCK dk"
proof -
  obtain rest where r: "load_directory dk s = Some (s\<lparr>bdir := fs @ rest\<rparr>)" "files (fs @ rest) = fs" "list_all dir_entry_is_empty rest"
    "length (fs @ rest) = DIR_ENTRIES_PER_BLOCK dk" using consistent_loads[OF assms(1)] by blast
  then have "find_dir_entry (tl path) (s\<lparr>bdir := fs @ rest\<rparr>) = None" using assms(2) by (simp add: find_dir_entry_None)
  then show ?thesis using r by (auto simp: do_unlink_def)
qed

lemma renamed_nonempty: "tl path \<noteq> [] \<Longrightarrow> hd (tl path) \<noteq> NUL \<Longrightarrow> \<not> dir_entry_is_empty (renamed now path e)"
  by (cases "tl path") (simp_all add: renamed_def dir_entry_is_empty_def strncpy_def FS_NAME_LEN_def)

lemma rename_new_ok:
  assumes inv: "consistent dk (disk s) fs bm free cs" and di: "lookup opath fs di"
    and new: "\<forall>e \<in> set fs. \<not> named (tl npath) e" "tl npath \<noteq> []" "hd (tl npath) \<noteq> NUL"
  shows "\<exists>s'. do_rename dk now opath npath s = Some (0, s') \<and>
    consistent dk (disk s') (fs[di := renamed now npath (fs ! di)]) bm free cs \<and>
    (\<forall>b \<noteq> ROOTDIR_BID. readBlock dk b (disk s') = readBlock dk b (disk s))"
proof -
  obtain rest where r: "load_directory dk s = Some (s\<lparr>bdir := fs @ rest\<rparr>)" "files (fs @ rest) = fs"
    using consistent_loads[OF inv] by blast
  have len: "di < length fs" "length cs = length fs" using di inv by (auto simp: lookup_def consistent_def)
  have find: "find_dir_entry (tl opath) (s\<lparr>bdir := fs @ rest\<rparr>) = Some di" using di r(2) by (simp add: find_lookup)
  obtain rest' where u: "do_unlink dk now npath (s\<lparr>bdir := fs @ rest\<rparr>) = Some (- ENOENT, s\<lparr>bdir := fs @ rest'\<rparr>)"
    "list_all dir_entry_is_empty rest'" "length (fs @ rest') = DIR_ENTRIES_PER_BLOCK dk"
    using unlink_missing[of "s\<lparr>bdir := fs @ rest\<rparr>" fs bm free cs npath now] inv new(1) by auto
  let ?fs = "fs[di := renamed now npath (fs ! di)]"
  let ?s = "save_directory dk (s\<lparr>bdir := ?fs @ rest'\<rparr>)"
  have "do_rename dk now opath npath s = Some (0, ?s)"
    using len by (simp add: do_rename_def r(1) find u(1) nth_append list_update_append renamed_def)
  moreover have "consistent dk (disk ?s) ?fs bm free cs"
  proof (rule consistent_directory[OF inv])
    show "list_all (\<lambda>e. \<not> dir_entry_is_empty e) ?fs"
      using inv len renamed_nonempty[OF new(2,3)] by (auto simp: consistent_def list_all_length nth_list_update)
    have "map first_block ?fs = map first_block fs" by (simp add: map_update renamed_def list_update_same_conv len)
    then show "block_lists bm free (zip (map first_block ?fs) cs)" using inv by (simp add: consistent_def)
    show "size_bytes (?fs ! i) = 0" if "i < length ?fs" "cs ! i = []" for i
      using that inv by (cases "i = di") (auto simp: consistent_def renamed_def)
  qed (use u len in \<open>auto simp: save_directory_def read_write\<close>)
  ultimately show ?thesis by (auto simp: save_directory_def read_write)
qed

text \<open>Renaming onto a file that comes before it.\<close>

lemma rename_earlier:
  assumes inv: "consistent dk (disk s) fs bm free cs" and di: "lookup opath fs di" and j: "lookup npath fs j"
    and less: "j < di" "Suc di < length fs"
  shows "\<exists>s' rest. do_rename dk now opath npath s = Some (0, s') \<and>
    readBlock dk ROOTDIR_BID (disk s') = Directory ((take j fs @ drop (Suc j) fs)[di := renamed now npath (fs ! Suc di)] @ rest)"
proof -
  obtain rest where r: "load_directory dk s = Some (s\<lparr>bdir := fs @ rest\<rparr>)" "files (fs @ rest) = fs"
    using consistent_loads[OF inv] by blast
  have find: "find_dir_entry (tl opath) (s\<lparr>bdir := fs @ rest\<rparr>) = Some di" using di r(2) by (simp add: find_lookup)
  let ?fs = "take j fs @ drop (Suc j) fs"
  obtain s' bm' where u: "do_unlink dk now npath (s\<lparr>bdir := fs @ rest\<rparr>) = Some (0, s')"
    "consistent dk (disk s') ?fs bm' (rev (cs ! j) @ free) (take j cs @ drop (Suc j) cs)" "readBlock dk ROOTDIR_BID (disk s') = Directory (bdir s')"
    using unlink_ok[of "s\<lparr>bdir := fs @ rest\<rparr>" fs bm free cs npath j now] inv j by auto
  obtain rest' where b: "bdir s' = ?fs @ rest'" using u(2,3) by (auto simp: consistent_def)
  have "di < length ?fs" "?fs ! di = fs ! Suc di" using less by (auto simp: nth_append)
  then show ?thesis
    using less by (intro exI[of _ "save_directory dk (s'\<lparr>bdir := ?fs[di := renamed now npath (fs ! Suc di)] @ rest'\<rparr>)"] exI[of _ rest'])
      (simp add: do_rename_def r(1) find u(1) b nth_append list_update_append renamed_def save_directory_def read_write)
qed

text \<open>A read takes its bytes from the first block, whatever the offset.\<close>

lemma read_ok:
  assumes inv: "consistent dk (disk s) fs bm free cs" and di: "lookup path fs di"
    and b: "read_bytes dk (first_block (fs ! di)) (disk s) = Some bs" and BS: "0 < BLOCK_SIZE dk" "BLOCK_SIZE dk < 2 ^ 16"
  shows "\<exists>s'. do_read dk path sz offset s = Some (int (min sz (BLOCK_SIZE dk - offset mod BLOCK_SIZE dk)),
    take (min sz (BLOCK_SIZE dk - offset mod BLOCK_SIZE dk)) (drop (offset mod BLOCK_SIZE dk) bs), s')"
proof -
  let ?BS = "BLOCK_SIZE dk"
  obtain rest where r: "load_directory dk s = Some (s\<lparr>bdir := fs @ rest\<rparr>)" "files (fs @ rest) = fs"
    using consistent_loads[OF inv] by blast
  have find: "find_dir_entry (tl path) (s\<lparr>bdir := fs @ rest\<rparr>) = Some di" using di r(2) by (simp add: find_lookup)
  have "offset mod ?BS < ?BS" using BS(1) by simp
  then have o: "offset mod ?BS mod 2 ^ 16 = offset mod ?BS" using BS(2) by (metis mod_less order.strict_trans)
  have "min sz (?BS - offset mod ?BS) < 2 ^ 16" using BS by auto
  then have m: "min sz (?BS - offset mod ?BS) mod 2 ^ 16 = min sz (?BS - offset mod ?BS)" by simp
  have "di < length fs" using di by (simp add: lookup_def)
  then show ?thesis
    unfolding do_read_def Let_def o m by (simp add: r(1) find nth_append b)
qed

end

text \<open>The first block of a file is the first of its chain.\<close>

lemma consistent_first: "consistent dk d fs bm free cs \<Longrightarrow> i < length fs \<Longrightarrow> cs ! i \<noteq> [] \<Longrightarrow> first_block (fs ! i) = hd (cs ! i)"
proof -
  assume a: "consistent dk d fs bm free cs" "i < length fs" "cs ! i \<noteq> []"
  let ?z = "zip (map first_block fs) cs"
  have "list_all (\<lambda>(b, xs). linked bm b xs EOF_BLOCK) ?z" "length cs = length fs"
    using a(1) by (simp_all add: consistent_def block_lists_def)
  then have "linked bm (first_block (fs ! i)) (cs ! i) EOF_BLOCK" using a(2) by (auto simp: list_all_length)
  then show ?thesis using a(3) by (cases "cs ! i") simp_all
qed

lemma lookup_cong: "lookup path fs di \<Longrightarrow> map name fs' = map name fs \<Longrightarrow> lookup path fs' di"
proof -
  assume l: "lookup path fs di" and m: "map name fs' = map name fs"
  then have "length fs' = length fs" by (metis length_map)
  moreover have "name (fs' ! i) = name (fs ! i)" if "i < length fs" for i using m that calculation by (metis nth_map)
  ultimately show ?thesis using l by (auto simp: lookup_def named_def)
qed

lemma written_names: "map name (fs[di := written now sz c (fs ! di)]) = map name fs"
  by (cases "di < length fs") (simp_all add: map_update written_def list_update_same_conv list_update_beyond)

section \<open>A disk in memory\<close>

text \<open>An instance of the raw disk with blocks of 192 bytes, four directory entries, and a disk with the files A, B
  and C of one block each and one free block.\<close>

definition ram_disk :: "(nat \<Rightarrow> fs_block) rawdisk" where
  "ram_disk = \<lparr>BLOCK_SIZE = 192, readBlock = (\<lambda>b d. d b), writeBlock = (\<lambda>b x d. d(b := x))\<rparr>"

lemma ram_disk_size [simp]: "BLOCK_SIZE ram_disk = 192"
  by (simp add: ram_disk_def)

interpretation ram: raw_disk ram_disk
  by unfold_locales (simp add: ram_disk_def)

definition file1 :: "char \<Rightarrow> u16 \<Rightarrow> nat \<Rightarrow> dir_entry" where
  "file1 c b n = \<lparr>name = c # replicate 11 NUL, last_mod = 0, mode = 0, size_bytes = n, first_block = b\<rparr>"

definition abc_map :: "u16 list" where
  "abc_map = [5, 0, 0xFFFF, 0xFFFF, 0xFFFF, 0] @ replicate 90 0"

definition abc_files :: "dir_entry list" where
  "abc_files = [file1 CHR ''A'' 2 10, file1 CHR ''B'' 3 10, file1 CHR ''C'' 4 10]"

definition abc_disk :: "nat \<Rightarrow> fs_block" where
  "abc_disk b = (if b = 0 then Blockmap abc_map else if b = 1 then Directory (abc_files @ [file1 NUL 0 0])
     else Bytes (replicate 192 7))"

definition abc_fs :: "(nat \<Rightarrow> fs_block) fs" where
  "abc_fs = \<lparr>bdir = [], bmap = [], disk = abc_disk\<rparr>"

lemma abc_consistent: "consistent ram_disk (disk abc_fs) abc_files abc_map [5] [[2], [3], [4]]"
proof -
  have "DIR_ENTRIES_PER_BLOCK ram_disk = 4" "BLOCKIDS_PER_BLOCK ram_disk = 96"
    by (simp_all add: DIR_ENTRIES_PER_BLOCK_def BLOCKIDS_PER_BLOCK_def ram_disk_def)
  moreover have "block_lists abc_map [5] (zip (map first_block abc_files) [[2], [3], [4]])"
    by (simp add: block_lists_def abc_map_def abc_files_def file1_def EOF_BLOCK_def)
  moreover have "data_blocks ram_disk abc_disk ([5] @ concat [[2], [3], [4]])"
    by (simp add: data_blocks_def read_bytes_def ram_disk_def abc_disk_def)
  moreover have "\<forall>i < 3. ([[2], [3], [4]] :: u16 list list) ! i = [] \<longrightarrow> size_bytes (abc_files ! i) = 0"
    by (auto simp: less_Suc_eq numeral_eq_Suc)
  ultimately show ?thesis
    unfolding consistent_def
    by (intro conjI exI[of _ "[file1 NUL 0 0]"])
      (simp_all add: abc_fs_def abc_disk_def ram_disk_def ROOTDIR_BID_def BLKMAP_BID_def abc_files_def abc_map_def file1_def dir_entry_is_empty_def)
qed

lemma abc_lookup: "lookup ''/A'' abc_files 0" "lookup ''/B'' abc_files 1"
  by (simp_all add: lookup_def abc_files_def file1_def named_def FS_NAME_LEN_def numeral_eq_Suc less_Suc_eq)

section \<open>Properties\<close>

lemma content_cong:
  "\<forall>b > 1. b \<notin> X \<longrightarrow> readBlock dk b d' = readBlock dk b d \<Longrightarrow> \<forall>b \<in> set c. 1 < unat b \<and> unat b \<notin> X \<Longrightarrow> content dk d' e c = content dk d e c"
proof -
  assume a: "\<forall>b > 1. b \<notin> X \<longrightarrow> readBlock dk b d' = readBlock dk b d" "\<forall>b \<in> set c. 1 < unat b \<and> unat b \<notin> X"
  then have "map (\<lambda>b. the (read_bytes dk b d')) c = map (\<lambda>b. the (read_bytes dk b d)) c"
    by (intro map_cong refl) (simp add: read_bytes_def)
  then show ?thesis unfolding content_def by (simp only:)
qed

text \<open>C18: Removing a file of a consistent disk succeeds, leaves a consistent disk with the other files in their
  order, their chains and their bytes, and puts all blocks of the file on the free list.\<close>

theorem unlink_removes_file:
  assumes "raw_disk dk" "consistent dk (disk s) fs bm free cs" "lookup path fs di"
  shows "\<exists>s' bm'. do_unlink dk now path s = Some (0, s') \<and>
    consistent dk (disk s') (take di fs @ drop (Suc di) fs) bm' (rev (cs ! di) @ free) (take di cs @ drop (Suc di) cs) \<and>
    (\<forall>i < length fs. content dk (disk s') (fs ! i) (cs ! i) = content dk (disk s) (fs ! i) (cs ! i))"
proof -
  obtain s' bm' where u: "do_unlink dk now path s = Some (0, s')"
    "consistent dk (disk s') (take di fs @ drop (Suc di) fs) bm' (rev (cs ! di) @ free) (take di cs @ drop (Suc di) cs)"
    "\<forall>b > 1. readBlock dk b (disk s') = readBlock dk b (disk s)" using raw_disk.unlink_ok[OF assms] by blast
  have "content dk (disk s') (fs ! i) (cs ! i) = content dk (disk s) (fs ! i) (cs ! i)" if "i < length fs" for i
    using u(3) consistent_data[OF assms(2)] that assms(2) nth_mem[of i cs]
    by (intro content_cong[of "{}"]) (auto simp: data_blocks_def consistent_def)
  then show ?thesis using u by blast
qed

theorem unlink_removes_file_witness:
  "\<exists>s' bm'. do_unlink ram_disk 9 ''/B'' abc_fs = Some (0, s') \<and>
    consistent ram_disk (disk s') [abc_files ! 0, abc_files ! 2] bm' [3, 5] [[2], [4]]"
  using unlink_removes_file[OF ram.raw_disk_axioms abc_consistent abc_lookup(2), of 9] by (auto simp: abc_files_def)

text \<open>C14: A write of at least one byte for which there are enough free blocks leaves a consistent disk: the chain of the
  file is extended by blocks of the free list, the bytes that fit the block of the offset are in that block, and every
  other block of data is unchanged.\<close>

theorem write_extends_file:
  assumes "raw_disk dk" "consistent dk (disk s) fs bm free cs" "lookup path fs di" "write_fits dk buffer offset"
    "n = Suc (offset div BLOCK_SIZE dk) - length (cs ! di)" "n \<le> length free" "c = cs ! di @ take n free"
    "read_bytes dk (c ! (offset div BLOCK_SIZE dk)) (disk s) = Some old"
  shows "\<exists>s' bm'. do_write dk now path buffer offset s = Some (int (length buffer), s') \<and>
    consistent dk (disk s') (fs[di := written now (offset + length buffer) c (fs ! di)]) bm' (drop n free) (cs[di := c]) \<and>
    (\<forall>b > 1. readBlock dk b (disk s') = (if b = unat (c ! (offset div BLOCK_SIZE dk))
       then Bytes (patch old (offset mod BLOCK_SIZE dk) (take (BLOCK_SIZE dk - offset mod BLOCK_SIZE dk) buffer))
       else readBlock dk b (disk s)))"
  using raw_disk.write_ok[OF assms refl] by blast

theorem write_extends_file_witness:
  "\<exists>s' bm'. do_write ram_disk 9 ''/B'' [1, 2, 3] 200 abc_fs = Some (3, s') \<and>
    consistent ram_disk (disk s') (abc_files[1 := written 9 203 [3, 5] (abc_files ! 1)]) bm' [] [[2], [3, 5], [4]]"
  using write_extends_file[OF ram.raw_disk_axioms abc_consistent abc_lookup(2), of "[1, 2, 3]" 200 1 "[3, 5]" "replicate 192 7" 9]
  by (auto simp: write_fits_def ram_disk_def read_bytes_def abc_fs_def abc_disk_def)

text \<open>C21: What is written to the first block of a file is what a read of the same range returns.\<close>

theorem write_then_read:
  assumes "raw_disk dk" "consistent dk (disk s) fs bm free cs" "lookup path fs di" "write_fits dk buffer offset"
    "offset + length buffer \<le> BLOCK_SIZE dk" "cs ! di \<noteq> [] \<or> free \<noteq> []"
  shows "\<exists>s' s''. do_write dk now path buffer offset s = Some (int (length buffer), s') \<and>
    do_read dk path (length buffer) offset s' = Some (int (length buffer), buffer, s'')"
proof -
  have w: "buffer \<noteq> []" "0 < BLOCK_SIZE dk" "BLOCK_SIZE dk < 2 ^ 16" "offset < BLOCK_SIZE dk"
    using assms(4,5) by (cases buffer; simp add: write_fits_def)+
  then have k: "offset div BLOCK_SIZE dk = 0" "offset mod BLOCK_SIZE dk = offset" by simp_all
  define n where "n = Suc 0 - length (cs ! di)"
  define c where "c = cs ! di @ take n free"
  have n: "n \<le> length free" "c \<noteq> []" using assms(6) by (cases "cs ! di"; cases free; simp add: n_def c_def)+
  have di: "di < length fs" "length cs = length fs" using assms(2,3) by (auto simp: lookup_def consistent_def)
  have "c ! 0 \<in> set (free @ concat cs)"
    using n(2) di nth_mem[of di cs] set_take_subset[of n free] nth_mem[of 0 c] by (auto simp: c_def)
  then obtain old where old: "read_bytes dk (c ! 0) (disk s) = Some old" "1 < unat (c ! 0)"
    using consistent_data[OF assms(2)] by (auto simp: data_blocks_def)
  obtain s' bm' where s': "do_write dk now path buffer offset s = Some (int (length buffer), s')"
    "consistent dk (disk s') (fs[di := written now (offset + length buffer) c (fs ! di)]) bm' (drop n free) (cs[di := c])"
    "\<forall>b > 1. readBlock dk b (disk s') = (if b = unat (c ! 0)
       then Bytes (patch old offset (take (BLOCK_SIZE dk - offset) buffer)) else readBlock dk b (disk s))"
    using raw_disk.write_ok[OF assms(1-4), of n c old _ now] n old by (auto simp: k n_def c_def)
  let ?fs = "fs[di := written now (offset + length buffer) c (fs ! di)]"
  have fb: "first_block (?fs ! di) = c ! 0" using consistent_first[OF s'(2), of di] di n(2) by (simp add: hd_conv_nth)
  have lo: "length old = BLOCK_SIZE dk" using old by (auto simp: read_bytes_def split: fs_block.splits if_splits)
  have "read_bytes dk (first_block (?fs ! di)) (disk s') = Some (patch old offset buffer)"
    using s'(3) fb old(2) assms(5) lo by (simp add: read_bytes_def patch_length)
  from raw_disk.read_ok[OF assms(1) s'(2) lookup_cong[OF assms(3) written_names] this w(2,3), of "length buffer" offset]
  have "\<exists>s''. do_read dk path (length buffer) offset s' = Some (int (length buffer), buffer, s'')"
    using assms(5) lo k by (simp add: patch_def)
  then show ?thesis using s'(1) by blast
qed

theorem write_then_read_witness:
  "\<exists>s' s''. do_write ram_disk 9 ''/A'' [1, 2, 3] 100 abc_fs = Some (3, s') \<and> do_read ram_disk ''/A'' 3 100 s' = Some (3, [1, 2, 3], s'')"
  using write_then_read[OF ram.raw_disk_axioms abc_consistent abc_lookup(1), of "[1, 2, 3]" 100 9]
  by (simp add: write_fits_def ram_disk_size numeral_3_eq_3)

text \<open>A read ignores the block of its offset: offsets that differ by whole blocks read the same bytes, those of the
  first block.\<close>

theorem read_ignores_block_offset: "do_read dk path sz (offset + k * BLOCK_SIZE dk) s = do_read dk path sz offset s"
  unfolding do_read_def mod_mult_self1 ..

text \<open>When an empty file is written at an offset for which there are not enough free blocks, the write fails with the
  disk left inconsistent: the saved entry has the first free block as its first block and the size of the failed write,
  and the saved map still has that block on the free list.\<close>

theorem failed_write_corrupts:
  assumes "raw_disk dk" "consistent dk (disk s) fs bm (x # free) cs" "lookup path fs di" "write_fits dk buffer offset"
    "cs ! di = []" "length free < offset div BLOCK_SIZE dk"
  shows "\<exists>s' fs' rest. do_write dk now path buffer offset s = Some (- ENOSPC, s') \<and>
    readBlock dk ROOTDIR_BID (disk s') = Directory (fs' @ rest) \<and> first_block (fs' ! di) = x \<and> size_bytes (fs' ! di) = offset + length buffer \<and>
    readBlock dk BLKMAP_BID (disk s') = Blockmap bm \<and> linked bm (bm ! 0) (x # free) 0"
proof -
  have di: "di < length fs" "size_bytes (fs ! di) = 0" using assms(2,3,5) by (auto simp: consistent_def lookup_def)
  have pos: "0 < offset + length buffer" using assms(4) by (simp add: write_fits_def)
  have "linked bm (bm ! 0) (x # free) 0" using assms(2) by (simp add: consistent_def block_lists_def)
  moreover obtain s' rest where "do_write dk now path buffer offset s = Some (- ENOSPC, s')"
    "readBlock dk BLKMAP_BID (disk s') = Blockmap bm"
    "readBlock dk ROOTDIR_BID (disk s') = Directory (fs[di := written now (offset + length buffer) (x # free) (fs ! di)] @ rest)"
    using raw_disk.write_full[OF assms(1-4), of now] assms(5,6) by auto
  ultimately show ?thesis
    using di pos by (intro exI[of _ s'] exI[of _ "fs[di := written now (offset + length buffer) (x # free) (fs ! di)]"] exI[of _ rest])
      (simp add: written_def)
qed

text \<open>A disk with one empty file A and one free block.\<close>

definition empty_a_fs :: "(nat \<Rightarrow> fs_block) fs" where
  "empty_a_fs = \<lparr>bdir = [], bmap = [], disk = (\<lambda>b. if b = 0 then Blockmap ([2, 0, 0] @ replicate 93 0)
     else if b = 1 then Directory (file1 CHR ''A'' 0xFFFF 0 # replicate 3 (file1 NUL 0 0)) else Bytes (replicate 192 7))\<rparr>"

lemma empty_a_consistent:
  "consistent ram_disk (disk empty_a_fs) [file1 CHR ''A'' 0xFFFF 0] ([2, 0, 0] @ replicate 93 0) [2] [[]]"
proof -
  have "DIR_ENTRIES_PER_BLOCK ram_disk = 4" "BLOCKIDS_PER_BLOCK ram_disk = 96"
    by (simp_all add: DIR_ENTRIES_PER_BLOCK_def BLOCKIDS_PER_BLOCK_def)
  then show ?thesis
    unfolding consistent_def
    by (intro conjI exI[of _ "replicate 3 (file1 NUL 0 0)"])
      (simp_all add: empty_a_fs_def ROOTDIR_BID_def BLKMAP_BID_def file1_def dir_entry_is_empty_def data_blocks_def read_bytes_def
        block_lists_def EOF_BLOCK_def ram_disk_def list_all_iff)
qed

theorem failed_write_corrupts_witness:
  "\<exists>s' fs' rest. do_write ram_disk 9 ''/A'' [1] 400 empty_a_fs = Some (- ENOSPC, s') \<and>
    readBlock ram_disk ROOTDIR_BID (disk s') = Directory (fs' @ rest) \<and> first_block (fs' ! 0) = 2"
proof -
  have "lookup ''/A'' [file1 CHR ''A'' 0xFFFF 0] 0"
    by (simp add: lookup_def file1_def named_def FS_NAME_LEN_def numeral_eq_Suc)
  from failed_write_corrupts[OF ram.raw_disk_axioms empty_a_consistent this, of "[1]" 400 9]
  show ?thesis by (auto simp: write_fits_def)
qed

text \<open>A name without NUL is found again after it was stored in an entry.\<close>

lemma strncmp_strncpy: "NUL \<notin> set p \<Longrightarrow> strncmp_eq n p (strncpy n p)"
proof (induction n arbitrary: p)
  case (Suc n)
  then show ?case using Suc.IH[of "tl p"] by (cases p) (simp_all add: strncpy_def)
qed simp

text \<open>C22: Creating a file in a directory with room succeeds on a consistent disk; the new entry is the one its name finds,
  if no file had the name, and all other files keep their entries, chains and bytes.\<close>

theorem create_adds_file:
  assumes "raw_disk dk" "consistent dk (disk s) fs bm free cs" "length fs < DIR_ENTRIES_PER_BLOCK dk"
    "tl path \<noteq> []" "NUL \<notin> set (tl path)" "\<forall>e \<in> set fs. \<not> named (tl path) e"
  shows "\<exists>s'. do_create dk now path m s = Some (0, s') \<and> consistent dk (disk s') (fs @ [new_entry now path m]) bm free (cs @ [[]]) \<and>
    lookup path (fs @ [new_entry now path m]) (length fs) \<and>
    (\<forall>b \<noteq> ROOTDIR_BID. readBlock dk b (disk s') = readBlock dk b (disk s))"
proof -
  have "hd (tl path) \<noteq> NUL" using assms(4,5) by (metis hd_in_set)
  moreover have "lookup path (fs @ [new_entry now path m]) (length fs)"
    using assms(5,6) by (auto simp: lookup_def nth_append named_def new_entry_def strncmp_strncpy)
  ultimately show ?thesis using raw_disk.create_ok[OF assms(1-4), of now m] by blast
qed

theorem create_adds_file_witness:
  "\<exists>s'. do_create ram_disk 9 ''/D'' 420 abc_fs = Some (0, s') \<and> lookup ''/D'' (abc_files @ [new_entry 9 ''/D'' 420]) 3"
proof -
  have "length abc_files < DIR_ENTRIES_PER_BLOCK ram_disk" by (simp add: abc_files_def DIR_ENTRIES_PER_BLOCK_def)
  moreover have "\<forall>e \<in> set abc_files. \<not> named (tl ''/D'') e"
    by (simp add: abc_files_def file1_def named_def FS_NAME_LEN_def numeral_eq_Suc)
  ultimately show ?thesis
    using create_adds_file[OF ram.raw_disk_axioms abc_consistent, of "''/D''" 9 420] by (auto simp: abc_files_def numeral_3_eq_3)
qed

text \<open>Renaming a file to a name no file has changes the name and nothing else.\<close>

theorem rename_to_new_name:
  assumes "raw_disk dk" "consistent dk (disk s) fs bm free cs" "lookup opath fs di"
    "\<forall>e \<in> set fs. \<not> named (tl npath) e" "tl npath \<noteq> []" "hd (tl npath) \<noteq> NUL"
  shows "\<exists>s'. do_rename dk now opath npath s = Some (0, s') \<and>
    consistent dk (disk s') (fs[di := renamed now npath (fs ! di)]) bm free cs \<and>
    (\<forall>b \<noteq> ROOTDIR_BID. readBlock dk b (disk s') = readBlock dk b (disk s))"
  using raw_disk.rename_new_ok[OF assms] .

theorem rename_to_new_name_witness:
  "\<exists>s'. do_rename ram_disk 9 ''/B'' ''/D'' abc_fs = Some (0, s') \<and>
    consistent ram_disk (disk s') (abc_files[1 := renamed 9 ''/D'' (abc_files ! 1)]) abc_map [5] [[2], [3], [4]]"
proof -
  have "\<forall>e \<in> set abc_files. \<not> named (tl ''/D'') e"
    by (simp add: abc_files_def file1_def named_def FS_NAME_LEN_def numeral_eq_Suc)
  then show ?thesis using rename_to_new_name[OF ram.raw_disk_axioms abc_consistent abc_lookup(2), of "''/D''" 9] by auto
qed

text \<open>C23: Renaming a file onto one that comes before it in the directory renames the wrong file: removing the target moves
  the entries, and the new name goes to the file after the one that was to be renamed, which keeps its old name.\<close>

theorem rename_over_earlier_file:
  assumes "raw_disk dk" "consistent dk (disk s) fs bm free cs" "lookup opath fs di" "lookup npath fs j" "j < di" "Suc di < length fs"
  shows "\<exists>s' fs' rest. do_rename dk now opath npath s = Some (0, s') \<and> readBlock dk ROOTDIR_BID (disk s') = Directory (fs' @ rest) \<and>
    fs' ! (di - 1) = fs ! di \<and> fs' ! di = renamed now npath (fs ! Suc di)"
proof -
  have "(take j fs @ drop (Suc j) fs) ! (di - 1) = fs ! di" "di - 1 < length (take j fs @ drop (Suc j) fs)" "di < length (take j fs @ drop (Suc j) fs)"
    using assms(5,6) by (auto simp: nth_append)
  then show ?thesis
    using raw_disk.rename_earlier[OF assms, of now] assms(5)
    by (elim exE conjE, intro exI[of _ "(take j fs @ drop (Suc j) fs)[di := renamed now npath (fs ! Suc di)]"] exI conjI) auto
qed

theorem rename_over_earlier_file_witness:
  "\<exists>s' fs' rest. do_rename ram_disk 9 ''/B'' ''/A'' abc_fs = Some (0, s') \<and>
    readBlock ram_disk ROOTDIR_BID (disk s') = Directory (fs' @ rest) \<and> fs' ! 0 = abc_files ! 1 \<and> fs' ! 1 = renamed 9 ''/A'' (abc_files ! 2)"
  using rename_over_earlier_file[OF ram.raw_disk_axioms abc_consistent abc_lookup(2) abc_lookup(1), of 9]
  by (simp add: abc_files_def)

end
