(* ===== verification/Instr_Table.thy ===== *)
theory Instr_Table
  imports Prelude
begin

text \<open>
  The table of rewritten instructions of \<open>lab4/instr_table.c\<close>: an open addressing hash table from
  addresses to instructions whose size is a power of two and which doubles when it is half full.  The
  argument \<open>mem\<close> says whether \<open>calloc\<close> succeeds; \<open>error\<close> ends the program with a message.
\<close>

datatype fatal = Fatal string

text \<open>A slot with the address 0 is free.\<close>

record instr_t =
  t_instr :: u32
  t_addr :: u32

record instr_table_t =
  n_used :: nat
  tsize :: nat
  slots :: "instr_t list"

definition no_instr :: instr_t where
  "no_instr = \<lparr>t_instr = 0, t_addr = 0\<rparr>"

definition new_instr_table :: "bool \<Rightarrow> fatal + instr_table_t" where
  "new_instr_table mem = (if mem then Inr \<lparr>n_used = 0, tsize = 8, slots = replicate 8 no_instr\<rparr>
     else Inl (Fatal ''out of memory''))"

text \<open>The first slot of an address: \<open>(addr / 4) & (size-1)\<close>.\<close>

definition home :: "nat \<Rightarrow> u32 \<Rightarrow> nat" where
  "home sz addr = unat (addr div 4) AND (sz - 1)"

partial_function (option) install_loop :: "instr_t list \<Rightarrow> nat \<Rightarrow> nat \<Rightarrow> nat option" where
  "install_loop a sz i = do {
     e \<leftarrow> rd_at a i;
     if t_addr e \<noteq> 0 then install_loop a sz ((i + 1) AND (sz - 1)) else Some i }"

definition install :: "instr_t list \<Rightarrow> nat \<Rightarrow> u32 \<Rightarrow> u32 \<Rightarrow> instr_t list option" where
  "install a sz addr instr = do {
     i \<leftarrow> install_loop a sz (home sz addr);
     wr_at a i \<lparr>t_instr = instr, t_addr = addr\<rparr> }"

text \<open>The loop that copies the used slots into the new array.\<close>

fun reinstall :: "instr_t list \<Rightarrow> instr_t list \<Rightarrow> nat \<Rightarrow> instr_t list option" where
  "reinstall [] a sz = Some a"
| "reinstall (e # es) a sz =
     (if t_addr e \<noteq> 0 then do { a' \<leftarrow> install a sz (t_addr e) (t_instr e); reinstall es a' sz }
      else reinstall es a sz)"

definition install_instr :: "bool \<Rightarrow> instr_table_t \<Rightarrow> u32 \<Rightarrow> u32 \<Rightarrow> (fatal + instr_table_t) option" where
  "install_instr mem t addr instr = do {
     a1 \<leftarrow> install (slots t) (tsize t) addr instr;
     let n = n_used t + 1;
     if n * 2 > tsize t then
       (if \<not> mem then Some (Inl (Fatal ''out of memory''))
        else do {
          a \<leftarrow> reinstall (take (tsize t) a1) (replicate (2 * tsize t) no_instr) (2 * tsize t);
          Some (Inr \<lparr>n_used = n, tsize = 2 * tsize t, slots = a\<rparr>) })
     else Some (Inr \<lparr>n_used = n, tsize = tsize t, slots = a1\<rparr>) }"

partial_function (option) lookup_loop :: "instr_t list \<Rightarrow> nat \<Rightarrow> u32 \<Rightarrow> nat \<Rightarrow> u32 option option" where
  "lookup_loop a sz addr i = do {
     e \<leftarrow> rd_at a i;
     if t_addr e \<noteq> 0 then
       (if t_addr e = addr then Some (Some (t_instr e)) else lookup_loop a sz addr ((i + 1) AND (sz - 1)))
     else Some None }"

definition lookup_instr :: "instr_table_t \<Rightarrow> u32 \<Rightarrow> (fatal + u32) option" where
  "lookup_instr t addr = do {
     r \<leftarrow> lookup_loop (slots t) (tsize t) addr (home (tsize t) addr);
     (case r of Some instr \<Rightarrow> Some (Inr instr) | None \<Rightarrow> Some (Inl (Fatal ''addr not in table''))) }"

section \<open>Probe sequences\<close>

definition used :: "instr_t list \<Rightarrow> instr_t list" where
  "used a = filter (\<lambda>e. t_addr e \<noteq> 0) a"

definition contents :: "instr_t list \<Rightarrow> u32 \<Rightarrow> u32 option" where
  "contents a = map_of (map (\<lambda>e. (t_addr e, t_instr e)) (used a))"

text \<open>Every used slot is reached from the first slot of its address through used slots.\<close>

definition probes :: "instr_t list \<Rightarrow> nat \<Rightarrow> bool" where
  "probes a sz \<longleftrightarrow> (\<forall>j < sz. t_addr (a ! j) \<noteq> 0 \<longrightarrow>
     (\<exists>d < sz. j = (home sz (t_addr (a ! j)) + d) mod sz \<and>
        (\<forall>d' < d. t_addr (a ! ((home sz (t_addr (a ! j)) + d') mod sz)) \<noteq> 0)))"

definition array_ok :: "instr_t list \<Rightarrow> nat \<Rightarrow> bool" where
  "array_ok a sz \<longleftrightarrow> (\<exists>k. sz = 2 ^ k) \<and> length a = sz \<and> probes a sz \<and> distinct (map t_addr (used a))"

lemma and_pow2: "(x :: nat) AND (2 ^ k - 1) = x mod 2 ^ k"
  by (simp add: take_bit_eq_mask mask_eq_exp_minus_1 flip: take_bit_eq_mod)

lemma array_ok_and: "array_ok a sz \<Longrightarrow> x AND (sz - 1) = x mod sz" "array_ok a sz \<Longrightarrow> 0 < sz"
  by (auto simp: array_ok_def and_pow2[simplified])

lemma home_less: "array_ok a sz \<Longrightarrow> home sz x < sz"
  using array_ok_and[of a sz] by (simp add: home_def)

text \<open>From every slot some free slot is reached, and there is a nearest one.\<close>

lemma nearest_free:
  assumes "length a = sz" "i < sz" "length (used a) < sz"
  obtains d where "d < sz" "t_addr (a ! ((i + d) mod sz)) = 0" "\<forall>d' < d. t_addr (a ! ((i + d') mod sz)) \<noteq> 0"
proof -
  have "used a \<noteq> a" using assms by auto
  then obtain j where j: "j < sz" "t_addr (a ! j) = 0"
    using assms(1) by (auto simp: used_def filter_id_conv in_set_conv_nth)
  define d where "d = (j + sz - i) mod sz"
  have "(i + d) mod sz = (i + (j + sz - i)) mod sz" unfolding d_def by (rule mod_add_right_eq)
  also have "\<dots> = j" using assms(2) j(1) by simp
  finally have d: "t_addr (a ! ((i + d) mod sz)) = 0" "d < sz" using j assms(2) by (auto simp: d_def)
  define m where "m = (LEAST d. t_addr (a ! ((i + d) mod sz)) = 0)"
  have "t_addr (a ! ((i + m) mod sz)) = 0" "m \<le> d"
    unfolding m_def using d(1) by (rule LeastI, rule Least_le)
  moreover have "\<forall>d' < m. t_addr (a ! ((i + d') mod sz)) \<noteq> 0" unfolding m_def using not_less_Least by blast
  ultimately show ?thesis using that[of m] d(2) by (meson order_le_less_trans)
qed

lemma install_loop_finds:
  assumes ok: "\<And>x. x AND (sz - 1) = x mod sz" "0 < sz" "length a = sz"
  shows "t_addr (a ! ((i + d) mod sz)) = 0 \<Longrightarrow> \<forall>d' < d. t_addr (a ! ((i + d') mod sz)) \<noteq> 0 \<Longrightarrow> i < sz \<Longrightarrow>
    install_loop a sz i = Some ((i + d) mod sz)"
proof (induction d arbitrary: i)
  case 0
  then show ?case using assms by (subst install_loop.simps) simp
next
  case (Suc d)
  have "t_addr (a ! i) \<noteq> 0" using Suc.prems(2,3) by (metis add_0_right mod_less zero_less_Suc)
  moreover have eq: "((i + 1) mod sz + e) mod sz = (i + Suc e) mod sz" for e by (simp add: mod_add_left_eq)
  have "install_loop a sz ((i + 1) mod sz) = Some (((i + 1) mod sz + d) mod sz)"
  proof (rule Suc.IH)
    show "t_addr (a ! (((i + 1) mod sz + d) mod sz)) = 0" using Suc.prems(1) unfolding eq .
    show "\<forall>d' < d. t_addr (a ! (((i + 1) mod sz + d') mod sz)) \<noteq> 0" using Suc.prems(2) unfolding eq by (meson Suc_mono)
  qed (use assms in simp)
  ultimately show ?case
    using Suc.prems(3) assms ok(1)[of "i + 1"] unfolding eq by (subst install_loop.simps) simp
qed

lemma lookup_loop_hit:
  assumes ok: "\<And>x. x AND (sz - 1) = x mod sz" "0 < sz" "length a = sz"
  shows "t_addr (a ! ((i + d) mod sz)) = x \<Longrightarrow> x \<noteq> 0 \<Longrightarrow> \<forall>d' < d. t_addr (a ! ((i + d') mod sz)) \<notin> {0, x} \<Longrightarrow> i < sz \<Longrightarrow>
    lookup_loop a sz x i = Some (Some (t_instr (a ! ((i + d) mod sz))))"
proof (induction d arbitrary: i)
  case 0
  then show ?case using assms by (subst lookup_loop.simps) simp
next
  case (Suc d)
  have "t_addr (a ! i) \<notin> {0, x}" using Suc.prems(3,4) by (metis add_0_right mod_less zero_less_Suc)
  moreover have eq: "((i + 1) mod sz + e) mod sz = (i + Suc e) mod sz" for e by (simp add: mod_add_left_eq)
  have "lookup_loop a sz x ((i + 1) mod sz) = Some (Some (t_instr (a ! (((i + 1) mod sz + d) mod sz))))"
  proof (rule Suc.IH)
    show "t_addr (a ! (((i + 1) mod sz + d) mod sz)) = x" using Suc.prems(1) unfolding eq .
    show "\<forall>d' < d. t_addr (a ! (((i + 1) mod sz + d') mod sz)) \<notin> {0, x}" using Suc.prems(3) unfolding eq by (meson Suc_mono)
  qed (use assms Suc.prems in simp_all)
  ultimately show ?case
    using Suc.prems(4) assms ok(1)[of "i + 1"] unfolding eq by (subst lookup_loop.simps) simp
qed

lemma lookup_loop_miss:
  assumes ok: "\<And>x. x AND (sz - 1) = x mod sz" "0 < sz" "length a = sz"
  shows "t_addr (a ! ((i + d) mod sz)) = 0 \<Longrightarrow> \<forall>d' < d. t_addr (a ! ((i + d') mod sz)) \<notin> {0, x} \<Longrightarrow> i < sz \<Longrightarrow>
    lookup_loop a sz x i = Some None"
proof (induction d arbitrary: i)
  case 0
  then show ?case using assms by (subst lookup_loop.simps) simp
next
  case (Suc d)
  have "t_addr (a ! i) \<notin> {0, x}" using Suc.prems(2,3) by (metis add_0_right mod_less zero_less_Suc)
  moreover have eq: "((i + 1) mod sz + e) mod sz = (i + Suc e) mod sz" for e by (simp add: mod_add_left_eq)
  have "lookup_loop a sz x ((i + 1) mod sz) = Some None"
  proof (rule Suc.IH)
    show "t_addr (a ! (((i + 1) mod sz + d) mod sz)) = 0" using Suc.prems(1) unfolding eq .
    show "\<forall>d' < d. t_addr (a ! (((i + 1) mod sz + d') mod sz)) \<notin> {0, x}" using Suc.prems(2) unfolding eq by (meson Suc_mono)
  qed (use assms in simp)
  ultimately show ?case
    using Suc.prems(3) assms ok(1)[of "i + 1"] by (subst lookup_loop.simps) simp
qed

section \<open>Installing and looking up\<close>

lemma used_split:
  assumes "j < length a" "t_addr (a ! j) = 0" "t_addr e \<noteq> 0"
  shows "used a = used (take j a) @ used (drop (Suc j) a)" "used (a[j := e]) = used (take j a) @ e # used (drop (Suc j) a)"
proof -
  have "used a = used (take j a @ a ! j # drop (Suc j) a)" using assms(1) by (simp add: id_take_nth_drop[symmetric])
  then show "used a = used (take j a) @ used (drop (Suc j) a)" using assms(2) by (simp add: used_def)
  show "used (a[j := e]) = used (take j a) @ e # used (drop (Suc j) a)"
    using assms(1,3) by (simp add: used_def upd_conv_take_nth_drop)
qed

lemma map_of_insert: "x \<notin> fst ` set ps \<Longrightarrow> map_of (ps @ (x, v) # qs) = (map_of (ps @ qs))(x \<mapsto> v)"
  by (induction ps) (auto simp: fun_upd_twist)

lemma contents_Some: "contents a x = Some v \<Longrightarrow> \<exists>e \<in> set (used a). t_addr e = x \<and> t_instr e = v"
  using map_of_SomeD by (fastforce simp: contents_def)

lemma contents_dom: "dom (contents a) = t_addr ` set (used a)"
  by (auto simp: contents_def dom_map_of_conv_image_fst image_image)

lemma contents_entry: "distinct (map t_addr (used a)) \<Longrightarrow> e \<in> set (used a) \<Longrightarrow> contents a (t_addr e) = Some (t_instr e)"
  unfolding contents_def by (rule map_of_is_SomeI) (auto simp: comp_def)

lemma install_ok:
  assumes ok: "array_ok a sz" and room: "length (used a) < sz" and x: "x \<noteq> 0" "x \<notin> dom (contents a)"
  shows "\<exists>a'. install a sz x v = Some a' \<and> array_ok a' sz \<and> contents a' = (contents a)(x \<mapsto> v) \<and>
    length (used a') = Suc (length (used a))"
proof -
  note andsz = array_ok_and[OF ok]
  have len: "length a = sz" using ok by (simp add: array_ok_def)
  let ?h = "home sz x" and ?e = "\<lparr>t_instr = v, t_addr = x\<rparr>"
  obtain d where d: "d < sz" "t_addr (a ! ((?h + d) mod sz)) = 0" "\<forall>d' < d. t_addr (a ! ((?h + d') mod sz)) \<noteq> 0"
    using nearest_free[OF len home_less[OF ok] room] by blast
  define j where "j = (?h + d) mod sz"
  have j: "j < sz" "t_addr (a ! j) = 0" using d andsz(2) by (simp_all add: j_def)
  have "install_loop a sz ?h = Some j"
    unfolding j_def using install_loop_finds[OF andsz len d(2,3) home_less[OF ok]] .
  then have ins: "install a sz x v = Some (a[j := ?e])" using j len by (simp add: install_def)
  note sp = used_split[of j a ?e, unfolded len, OF j]
  have keep: "t_addr (a ! i) \<noteq> 0 \<Longrightarrow> t_addr (a[j := ?e] ! i) \<noteq> 0" for i
    using x(1) j len by (cases "i = j") simp_all
  have "probes (a[j := ?e]) sz"
    unfolding probes_def
  proof (intro allI impI)
    fix i assume i: "i < sz" "t_addr (a[j := ?e] ! i) \<noteq> 0"
    show "\<exists>d < sz. i = (home sz (t_addr (a[j := ?e] ! i)) + d) mod sz \<and>
        (\<forall>d' < d. t_addr (a[j := ?e] ! ((home sz (t_addr (a[j := ?e] ! i)) + d') mod sz)) \<noteq> 0)"
    proof (cases "i = j")
      case True
      then show ?thesis using d keep j len by (intro exI[of _ d]) (simp add: j_def[symmetric])
    next
      case False
      then have e: "a[j := ?e] ! i = a ! i" "t_addr (a ! i) \<noteq> 0" using i(2) by simp_all
      obtain d' where "d' < sz" "i = (home sz (t_addr (a ! i)) + d') mod sz"
        "\<forall>d'' < d'. t_addr (a ! ((home sz (t_addr (a ! i)) + d'') mod sz)) \<noteq> 0"
        using ok i(1) e(2) unfolding array_ok_def probes_def by blast
      then show ?thesis using keep unfolding e(1) by blast
    qed
  qed
  moreover have "distinct (map t_addr (used (a[j := ?e])))"
    using ok x unfolding contents_dom by (auto simp: sp array_ok_def)
  moreover have "contents (a[j := ?e]) = (contents a)(x \<mapsto> v)"
    using x map_of_insert[of x "map (\<lambda>e. (t_addr e, t_instr e)) (used (take j a))" v] unfolding contents_dom
    by (simp add: contents_def sp image_image image_Un)
  ultimately show ?thesis using ins ok len x by (auto simp: array_ok_def sp)
qed

lemma lookup_loop_ok:
  assumes ok: "array_ok a sz" and room: "length (used a) < sz" and x: "x \<noteq> 0"
  shows "lookup_loop a sz x (home sz x) = Some (contents a x)"
proof -
  note andsz = array_ok_and[OF ok]
  have len: "length a = sz" using ok by (simp add: array_ok_def)
  let ?h = "home sz x"
  have used: "a ! i \<in> set (used a)" if "i < sz" "t_addr (a ! i) \<noteq> 0" for i
    using that len by (simp add: used_def)
  show ?thesis
  proof (cases "contents a x")
    case None
    obtain d where d: "d < sz" "t_addr (a ! ((?h + d) mod sz)) = 0" "\<forall>d' < d. t_addr (a ! ((?h + d') mod sz)) \<noteq> 0"
      using nearest_free[OF len home_less[OF ok] room] by blast
    have "x \<notin> t_addr ` set (used a)" using None contents_dom[of a] by auto
    then have "\<forall>d' < d. t_addr (a ! ((?h + d') mod sz)) \<notin> {0, x}"
      using d(3) used andsz(2) by (metis image_eqI insertE mod_less_divisor singletonD)
    from lookup_loop_miss[OF andsz len d(2) this home_less[OF ok]] show ?thesis using None by simp
  next
    case (Some v)
    then obtain e where e: "e \<in> set (used a)" "t_addr e = x" using contents_Some by blast
    then obtain j where j: "j < sz" "a ! j = e" using len by (auto simp: used_def in_set_conv_nth)
    then obtain d0 where d0: "j = (?h + d0) mod sz" "\<forall>d' < d0. t_addr (a ! ((?h + d') mod sz)) \<noteq> 0"
      using ok e(2) x unfolding array_ok_def probes_def by blast
    let ?P = "\<lambda>d. t_addr (a ! ((?h + d) mod sz)) = x"
    define d where "d = (LEAST d. ?P d)"
    have "?P d0" using d0(1) j e(2) by simp
    then have hit: "?P d" "d \<le> d0" unfolding d_def by (rule LeastI, rule Least_le)
    have "\<not> ?P d'" if "d' < d" for d' using not_less_Least[of d' ?P] that unfolding d_def by blast
    then have before: "\<forall>d' < d. t_addr (a ! ((?h + d') mod sz)) \<notin> {0, x}"
      using d0(2) hit(2) by auto
    have "contents a x = Some (t_instr (a ! ((?h + d) mod sz)))"
      using contents_entry[of a "a ! ((?h + d) mod sz)"] used[of "(?h + d) mod sz"] hit(1) x andsz(2) ok
      by (simp add: array_ok_def)
    then show ?thesis using lookup_loop_hit[OF andsz len hit(1) x before home_less[OF ok]] by simp
  qed
qed

lemma reinstall_ok:
  "array_ok a sz \<Longrightarrow> length (used a) + length (used es) \<le> sz \<Longrightarrow> distinct (map t_addr (used es)) \<Longrightarrow>
   dom (contents a) \<inter> t_addr ` set (used es) = {} \<Longrightarrow>
   \<exists>a'. reinstall es a sz = Some a' \<and> array_ok a' sz \<and> contents a' = contents a ++ contents es \<and>
     length (used a') = length (used a) + length (used es)"
proof (induction es arbitrary: a)
  case Nil
  then show ?case by (simp add: used_def contents_def)
next
  case (Cons e es)
  show ?case
  proof (cases "t_addr e = 0")
    case True
    then have "used (e # es) = used es" by (simp add: used_def)
    then show ?thesis using Cons True by (simp add: contents_def)
  next
    case False
    then have u: "used (e # es) = e # used es" by (simp add: used_def)
    obtain a1 where a1: "install a sz (t_addr e) (t_instr e) = Some a1" "array_ok a1 sz"
      "contents a1 = (contents a)(t_addr e \<mapsto> t_instr e)" "length (used a1) = Suc (length (used a))"
      using install_ok[of a sz "t_addr e" "t_instr e"] Cons.prems u False by auto
    have "dom (contents a1) \<inter> t_addr ` set (used es) = {}" using Cons.prems(3,4) u a1(3) by auto
    then obtain a' where a': "reinstall es a1 sz = Some a'" "array_ok a' sz" "contents a' = contents a1 ++ contents es"
      "length (used a') = length (used a1) + length (used es)"
      using Cons.IH[OF a1(2)] Cons.prems(2,3) a1(4) u by auto
    have "t_addr e \<notin> dom (contents es)" using Cons.prems(3) u by (simp add: contents_dom)
    then have "contents a' = contents a ++ contents (e # es)"
      using a'(3) a1(3) by (simp add: map_add_upd_left) (simp add: contents_def u)
    then show ?thesis using a1 a' False u by simp
  qed
qed

section \<open>The table\<close>

definition table_ok :: "instr_table_t \<Rightarrow> bool" where
  "table_ok t \<longleftrightarrow> array_ok (slots t) (tsize t) \<and> n_used t = length (used (slots t)) \<and> 2 * n_used t \<le> tsize t"

definition table_map :: "instr_table_t \<Rightarrow> u32 \<Rightarrow> u32 option" where
  "table_map t = contents (slots t)"

lemma used_empty [simp]: "used (replicate n no_instr) = []"
  by (simp add: used_def no_instr_def)

lemma array_ok_empty: "array_ok (replicate (2 ^ k) no_instr) (2 ^ k)"
  by (simp add: array_ok_def) (simp add: probes_def no_instr_def)

lemma table_ok_new: "new_instr_table True = Inr t \<Longrightarrow> table_ok t \<and> table_map t = Map.empty"
  using array_ok_empty[of 3] by (auto simp: new_instr_table_def table_ok_def table_map_def contents_def)

lemma table_room: "table_ok t \<Longrightarrow> length (used (slots t)) < tsize t"
  using array_ok_and(2)[of "slots t" "tsize t"] by (auto simp: table_ok_def)

lemma install_instr_ok:
  assumes ok: "table_ok t" and x: "addr \<noteq> 0" "addr \<notin> dom (table_map t)"
  shows "\<exists>t'. install_instr True t addr instr = Some (Inr t') \<and> table_ok t' \<and> table_map t' = (table_map t)(addr \<mapsto> instr)"
proof -
  have t: "array_ok (slots t) (tsize t)" "n_used t = length (used (slots t))" "2 * n_used t \<le> tsize t"
    using ok by (simp_all add: table_ok_def)
  obtain a1 where a1: "install (slots t) (tsize t) addr instr = Some a1" "array_ok a1 (tsize t)"
    "contents a1 = (table_map t)(addr \<mapsto> instr)" "length (used a1) = Suc (length (used (slots t)))"
    using install_ok[OF t(1) table_room[OF ok] x(1), of instr] x(2) by (auto simp: table_map_def)
  show ?thesis
  proof (cases "(n_used t + 1) * 2 > tsize t")
    case False
    then show ?thesis using a1 t(2) by (simp add: install_instr_def table_ok_def table_map_def)
  next
    case True
    obtain k where k: "tsize t = 2 ^ k" using t(1) by (auto simp: array_ok_def)
    have emp: "array_ok (replicate (2 * tsize t) no_instr) (2 * tsize t)" using array_ok_empty[of "Suc k"] k by simp
    have n: "length (used a1) \<le> tsize t" using a1(4) table_room[OF ok] by simp
    obtain a where a: "reinstall a1 (replicate (2 * tsize t) no_instr) (2 * tsize t) = Some a" "array_ok a (2 * tsize t)"
      "contents a = contents a1" "length (used a) = length (used a1)"
      using reinstall_ok[OF emp, of a1] n a1(2) by (auto simp: array_ok_def contents_def)
    have "take (tsize t) a1 = a1" using a1(2) by (simp add: array_ok_def)
    then show ?thesis
      using True a1 a t(2) n by (simp add: install_instr_def Let_def table_ok_def table_map_def)
  qed
qed

lemma lookup_instr_ok:
  "table_ok t \<Longrightarrow> addr \<noteq> 0 \<Longrightarrow> lookup_instr t addr =
   Some (case table_map t addr of Some instr \<Rightarrow> Inr instr | None \<Rightarrow> Inl (Fatal ''addr not in table''))"
  using lookup_loop_ok[of "slots t" "tsize t" addr] table_room[of t]
  by (auto simp: table_ok_def lookup_instr_def table_map_def split: option.splits)

section \<open>The interface of the table\<close>

text \<open>What \<open>main.c\<close> relies on: \<open>ins\<close> adds an address that is not there, \<open>look\<close> returns what was added.\<close>

locale address_table =
  fixes ins :: "'t \<Rightarrow> u32 \<Rightarrow> u32 \<Rightarrow> 't option" and look :: "'t \<Rightarrow> u32 \<Rightarrow> u32 option"
    and inv :: "'t \<Rightarrow> bool" and abs :: "'t \<Rightarrow> u32 \<Rightarrow> u32 option"
  assumes ins_law: "inv t \<Longrightarrow> x \<noteq> 0 \<Longrightarrow> x \<notin> dom (abs t) \<Longrightarrow> \<exists>t'. ins t x v = Some t' \<and> inv t' \<and> abs t' = (abs t)(x \<mapsto> v)"
    and look_law: "inv t \<Longrightarrow> x \<noteq> 0 \<Longrightarrow> look t x = abs t x"
begin

fun ins_all :: "'t \<Rightarrow> (u32 \<times> u32) list \<Rightarrow> 't option" where
  "ins_all t [] = Some t"
| "ins_all t ((x, v) # ps) = do { t' \<leftarrow> ins t x v; ins_all t' ps }"

lemma ins_all_ok:
  "inv t \<Longrightarrow> distinct (map fst ps) \<Longrightarrow> 0 \<notin> fst ` set ps \<Longrightarrow> dom (abs t) \<inter> fst ` set ps = {} \<Longrightarrow>
   \<exists>t'. ins_all t ps = Some t' \<and> inv t' \<and> abs t' = abs t ++ map_of ps"
proof (induction ps arbitrary: t)
  case (Cons p ps)
  obtain x v where p: "p = (x, v)" by (cases p)
  obtain t1 where t1: "ins t x v = Some t1" "inv t1" "abs t1 = (abs t)(x \<mapsto> v)"
    using ins_law[of t x v] Cons.prems p by auto
  have "dom (abs t1) \<inter> fst ` set ps = {}" unfolding t1(3) using Cons.prems(2,4) p by auto
  then obtain t' where t': "ins_all t1 ps = Some t'" "inv t'" "abs t' = abs t1 ++ map_of ps"
    using Cons.IH[OF t1(2)] Cons.prems(2,3) p by auto
  have "x \<notin> dom (map_of ps)" using Cons.prems(2) p by (simp add: dom_map_of_conv_image_fst)
  then have "(abs t)(x \<mapsto> v) ++ map_of ps = abs t ++ map_of (p # ps)"
    unfolding p by (simp only: map_of.simps fst_conv snd_conv map_add_upd) (rule map_add_upd_left)
  then have "abs t' = abs t ++ map_of (p # ps)" using t'(3) t1(3) by (simp only:)
  moreover have "ins_all t (p # ps) = Some t'" using p t1(1) t'(1) by simp
  ultimately show ?case using t'(2) by blast
qed simp

end

definition put_instr :: "instr_table_t \<Rightarrow> u32 \<Rightarrow> u32 \<Rightarrow> instr_table_t option" where
  "put_instr t addr instr = (case install_instr True t addr instr of Some (Inr t') \<Rightarrow> Some t' | _ \<Rightarrow> None)"

definition get_instr :: "instr_table_t \<Rightarrow> u32 \<Rightarrow> u32 option" where
  "get_instr t addr = (case lookup_instr t addr of Some (Inr v) \<Rightarrow> Some v | _ \<Rightarrow> None)"

interpretation itab: address_table put_instr get_instr table_ok table_map
proof
  fix t :: instr_table_t and x v :: u32
  assume "table_ok t" "x \<noteq> 0" "x \<notin> dom (table_map t)"
  then show "\<exists>t'. put_instr t x v = Some t' \<and> table_ok t' \<and> table_map t' = (table_map t)(x \<mapsto> v)"
    using install_instr_ok[of t x v] by (auto simp: put_instr_def)
next
  fix t :: instr_table_t and x :: u32
  assume "table_ok t" "x \<noteq> 0"
  then show "get_instr t x = table_map t x"
    using lookup_instr_ok[of t x] by (auto simp: get_instr_def split: option.splits)
qed

text \<open>The table after a list of installations.\<close>

fun install_all :: "(u32 \<times> u32) list \<Rightarrow> instr_table_t \<Rightarrow> (fatal + instr_table_t) option" where
  "install_all [] t = Some (Inr t)"
| "install_all ((addr, instr) # ps) t =
     (case install_instr True t addr instr of Some (Inr t') \<Rightarrow> install_all ps t' | r \<Rightarrow> r)"

lemma install_all_put: "itab.ins_all t ps = Some t' \<Longrightarrow> install_all ps t = Some (Inr t')"
  by (induction ps arbitrary: t)
    (auto simp: put_instr_def bind_eq_Some_conv split: option.splits sum.splits)

text \<open>C24: Instructions installed in a new table under distinct nonzero addresses, however many (the table doubles), are
  all found again, and looking up an address that was not installed ends the search with the error message: neither loop
  runs forever.\<close>

theorem table_finds_installed:
  assumes "distinct (map fst ps)" "0 \<notin> fst ` set ps"
  shows "\<exists>t0 t. new_instr_table True = Inr t0 \<and> install_all ps t0 = Some (Inr t) \<and>
    (\<forall>addr. addr \<noteq> 0 \<longrightarrow> lookup_instr t addr =
       Some (case map_of ps addr of Some instr \<Rightarrow> Inr instr | None \<Rightarrow> Inl (Fatal ''addr not in table'')))"
proof -
  obtain t0 where t0: "new_instr_table True = Inr t0" by (simp add: new_instr_table_def)
  then have ok: "table_ok t0" "table_map t0 = Map.empty" using table_ok_new by auto
  obtain t where t: "itab.ins_all t0 ps = Some t" "table_ok t" "table_map t = Map.empty ++ map_of ps"
    using itab.ins_all_ok[OF ok(1) assms] ok(2) by auto
  then show ?thesis
    using t0 install_all_put[OF t(1)] lookup_instr_ok[OF t(2)] by auto
qed

theorem table_finds_installed_witness:
  "\<exists>t0 t. new_instr_table True = Inr t0 \<and> install_all [(4, 7), (36, 8), (68, 9), (8, 1), (12, 2)] t0 = Some (Inr t) \<and>
    lookup_instr t 68 = Some (Inr 9) \<and> lookup_instr t 100 = Some (Inl (Fatal ''addr not in table''))"
  using table_finds_installed[of "[(4, 7), (36, 8), (68, 9), (8, 1), (12, 2)]"] by auto

end
