(* ===== verification/Div_Trace.thy ===== *)
theory Div_Trace
  imports Instr_Table
begin

text \<open>
  The tracer of \<open>lab4/main.c\<close>: it replaces every divide instruction of a stopped child by 0, keeps the
  instruction in the table of \<open>Instr_Table\<close>, and each time the child stops at one it records the operands
  and executes the instruction in a single step.  \<open>ptrace\<close> and \<open>waitpid\<close> are parameters over a type of child
  states; \<open>None\<close> from one of them is the error return.  What is written to \<open>stderr\<close> and the trace file is a value.
\<close>

section \<open>Instructions\<close>

text \<open>The two opcodes the program looks for (\<open>primary.h\<close>, \<open>extended.h\<close>).\<close>

definition PO_X :: u32 where "PO_X = 31"
definition EO_DIVW :: u32 where "EO_DIVW = 491"
definition MAX_DENOMINATOR :: nat where "MAX_DENOMINATOR = 100"

definition instr_primary :: "u32 \<Rightarrow> u32" where
  "instr_primary instr = drop_bit 26 instr AND 0x3f"

definition instr_field :: "u32 \<Rightarrow> nat \<Rightarrow> nat \<Rightarrow> u32" where
  "instr_field instr pos num = drop_bit (32 - pos - num) instr AND (push_bit num 1 - 1)"

definition is_divw :: "u32 \<Rightarrow> bool" where
  "is_divw instr \<longleftrightarrow> instr_primary instr = PO_X \<and> instr_field instr 21 10 = EO_DIVW"

section \<open>The child\<close>

record pt_regs =
  nip :: u32
  gpr :: "u32 list"

datatype wait_status = Exited | StoppedChild | OtherStatus

record 'c tracing =
  peek :: "u32 \<Rightarrow> 'c \<Rightarrow> u32 option"
  poke :: "u32 \<Rightarrow> u32 \<Rightarrow> 'c \<Rightarrow> 'c option"
  cont :: "'c \<Rightarrow> 'c option"
  single_step :: "'c \<Rightarrow> 'c option"
  waitpid :: "'c \<Rightarrow> (wait_status \<times> 'c) option"
  getregs :: "'c \<Rightarrow> pt_regs option"

section \<open>Rewriting the text of the child\<close>

text \<open>The body of the loop of \<open>rewrite_instr\<close>; a failed call leaves \<open>errno\<close> set, which is tested once.  A failed
  \<open>PTRACE_PEEKTEXT\<close> returns all ones, which is no divide.\<close>

definition rewrite_one :: "'c tracing \<Rightarrow> bool \<Rightarrow> u32 \<Rightarrow> 'c \<Rightarrow> instr_table_t \<Rightarrow> nat \<Rightarrow> (fatal + 'c \<times> instr_table_t \<times> nat) option" where
  "rewrite_one tr mem addr c t n =
     (case peek tr addr c of
        None \<Rightarrow> Some (Inl (Fatal ''ptrace failed''))
      | Some instr \<Rightarrow>
          (case (if instr_field instr 21 10 = EO_DIVW then poke tr addr 0 c else Some c) of
             None \<Rightarrow> Some (Inl (Fatal ''ptrace failed''))
           | Some c' \<Rightarrow>
               if instr_primary instr = PO_X \<and> instr_field instr 21 10 = EO_DIVW then do {
                 r \<leftarrow> install_instr mem t addr instr;
                 (case r of Inl e \<Rightarrow> Some (Inl e) | Inr t' \<Rightarrow> Some (Inr (c', t', n + 1))) }
               else Some (Inr (c', t, n))))"

text \<open>The loop of \<open>rewrite_instr\<close>.  The comparison is of 32-bit words and the address wraps.\<close>

partial_function (option) rewrite_loop ::
  "'c tracing \<Rightarrow> bool \<Rightarrow> u32 \<Rightarrow> u32 \<Rightarrow> 'c \<Rightarrow> instr_table_t \<Rightarrow> nat \<Rightarrow> (fatal + 'c \<times> instr_table_t \<times> nat) option" where
  "rewrite_loop tr mem addr fin c t n =
     (if addr < fin then do {
        r \<leftarrow> rewrite_one tr mem addr c t n;
        (case r of Inl e \<Rightarrow> Some (Inl e) | Inr (c', t', n') \<Rightarrow> rewrite_loop tr mem (addr + 4) fin c' t' n') }
      else Some (Inr (c, t, n)))"

definition rewrite_instr :: "'c tracing \<Rightarrow> bool \<Rightarrow> u32 \<Rightarrow> u32 \<Rightarrow> 'c \<Rightarrow> instr_table_t \<Rightarrow> (fatal + 'c \<times> instr_table_t \<times> nat) option" where
  "rewrite_instr tr mem start sz c t = rewrite_loop tr mem start (start + sz) c t 0"







section \<open>The trace loop\<close>

text \<open>\<open>hist\<close> and \<open>ndivw\<close>, which have 64 bits and wrap, and the operands written with the option \<open>-t\<close>.\<close>

record counters =
  hist :: "u64 list"
  ndivw :: u64
  divs :: "(int \<times> int) list"

definition counters0 :: counters where
  "counters0 = \<lparr>hist = replicate (MAX_DENOMINATOR + 1) 0, ndivw = 0, divs = []\<rparr>"

definition count_div :: "pt_regs \<Rightarrow> u32 \<Rightarrow> counters \<Rightarrow> counters option" where
  "count_div regs instr k = do {
     num \<leftarrow> rd_at (gpr regs) (unat (instr_field instr 11 5));
     den \<leftarrow> rd_at (gpr regs) (unat (instr_field instr 16 5));
     let q = nat \<bar>sint den\<bar>;
     h \<leftarrow> (if q \<le> MAX_DENOMINATOR then do { x \<leftarrow> rd_at (hist k) q; wr_at (hist k) q (x + 1) } else Some (hist k));
     Some (k\<lparr>hist := h, ndivw := ndivw k + 1, divs := divs k @ [(sint num, sint den)]\<rparr>) }"

text \<open>The divide is put back, its operands are counted, it is executed and replaced by 0 again.  The result of the
  \<open>waitpid\<close> after the single step is not tested.\<close>

definition step_divide :: "'c tracing \<Rightarrow> u32 \<Rightarrow> u32 \<Rightarrow> pt_regs \<Rightarrow> 'c \<Rightarrow> counters \<Rightarrow> (fatal + 'c \<times> counters) option" where
  "step_divide tr addr instr regs c k =
     (case poke tr addr instr c of
        None \<Rightarrow> Some (Inl (Fatal ''failed to poke instrc''))
      | Some c1 \<Rightarrow> do {
          k' \<leftarrow> count_div regs instr k;
          (case single_step tr c1 of
             None \<Rightarrow> Some (Inl (Fatal ''singelstep failed''))
           | Some c2 \<Rightarrow>
               (let c3 = (case waitpid tr c2 of None \<Rightarrow> c2 | Some (st, c') \<Rightarrow> c')
                in case poke tr addr 0 c3 of
                     None \<Rightarrow> Some (Inl (Fatal ''ptrace failed, pokedata after singlestep''))
                   | Some c4 \<Rightarrow> Some (Inr (c4, k')))) })"

text \<open>A stop of the child.\<close>

definition handle_stop :: "'c tracing \<Rightarrow> instr_table_t \<Rightarrow> 'c \<Rightarrow> counters \<Rightarrow> (fatal + 'c \<times> counters) option" where
  "handle_stop tr t c k =
     (case getregs tr c of
        None \<Rightarrow> Some (Inl (Fatal ''ptrace failed at : getregs''))
      | Some regs \<Rightarrow>
          (let addr = nip regs
           in if peek tr addr c = Some 0 then do {
                r \<leftarrow> lookup_instr t addr;
                (case r of
                   Inl e \<Rightarrow> Some (Inl e)
                 | Inr instr \<Rightarrow>
                     if instr \<noteq> 0 \<and> instr_primary instr = PO_X \<and> instr_field instr 21 10 = EO_DIVW
                     then step_divide tr addr instr regs c k
                     else Some (Inr (c, k))) }
              else Some (Inr (c, k))))"


text \<open>The table that is printed: the denominators that occurred with their counts, and the sum of the larger ones.\<close>

definition histogram :: "counters \<Rightarrow> (nat \<times> u64) list \<times> u64" where
  "histogram k =
     (let rows = filter (\<lambda>(i, h). h > 0) (map (\<lambda>i. (i, hist k ! i)) [1..<MAX_DENOMINATOR + 1])
      in (rows, ndivw k - sum_list (map snd rows)))"


section \<open>The text of the child\<close>

text \<open>What \<open>ptrace\<close> does to the memory \<open>M c\<close> of a child that has not ended (\<open>H\<close>): a word is read from it, and a
  mapped word can be set, without a change of the rest of its state \<open>R c\<close>.\<close>

definition tracee_memory :: "'c tracing \<Rightarrow> ('c \<Rightarrow> u32 \<Rightarrow> u32 option) \<Rightarrow> ('c \<Rightarrow> 'r) \<Rightarrow> ('r \<Rightarrow> bool) \<Rightarrow> bool" where
  "tracee_memory tr M R H \<longleftrightarrow> (\<forall>c a. \<not> H (R c) \<longrightarrow> peek tr a c = M c a \<and>
     (\<forall>v. M c a \<noteq> None \<longrightarrow> (\<exists>c'. poke tr a v c = Some c' \<and> M c' = (M c)(a \<mapsto> v) \<and> R c' = R c)))"

lemma tracee_peek: "tracee_memory tr M R H \<Longrightarrow> \<not> H (R c) \<Longrightarrow> peek tr a c = M c a"
  by (simp add: tracee_memory_def)

lemma tracee_poke:
  "tracee_memory tr M R H \<Longrightarrow> \<not> H (R c) \<Longrightarrow> M c a = Some w \<Longrightarrow>
   \<exists>c'. poke tr a v c = Some c' \<and> M c' = (M c)(a \<mapsto> v) \<and> R c' = R c"
  by (simp add: tracee_memory_def)

fun text_words :: "u32 \<Rightarrow> nat \<Rightarrow> u32 list" where
  "text_words addr 0 = []"
| "text_words addr (Suc k) = addr # text_words (addr + 4) k"

definition stubbed :: "u32 set \<Rightarrow> (u32 \<Rightarrow> u32 option) \<Rightarrow> u32 \<Rightarrow> u32 option" where
  "stubbed A m a = (if a \<in> A \<and> (case m a of Some w \<Rightarrow> instr_field w 21 10 = EO_DIVW | None \<Rightarrow> False) then Some 0 else m a)"

definition divides :: "u32 set \<Rightarrow> (u32 \<Rightarrow> u32 option) \<Rightarrow> u32 \<Rightarrow> u32 option" where
  "divides A m a = (if a \<in> A \<and> (case m a of Some w \<Rightarrow> is_divw w | None \<Rightarrow> False) then m a else None)"

lemma unat_add4: "unat addr + 4 * Suc k < 2 ^ 32 \<Longrightarrow> unat (addr + 4) = unat addr + 4" for addr :: u32
  by (simp add: unat_word_ariths)

lemma text_words_above: "unat addr + 4 * k < 2 ^ 32 \<Longrightarrow> a \<in> set (text_words addr k) \<Longrightarrow> unat addr \<le> unat a"
proof (induction k arbitrary: addr)
  case (Suc k)
  then show ?case using unat_add4[of addr k] by (cases "a = addr") force+
qed simp

lemma text_words_fresh: "unat addr + 4 * Suc k < 2 ^ 32 \<Longrightarrow> addr \<notin> set (text_words (addr + 4) k)"
  using text_words_above[of "addr + 4" k addr] unat_add4[of addr k] by auto

lemma stubbed_step:
  "a \<notin> A \<Longrightarrow> m a = Some w \<Longrightarrow>
   stubbed A (if instr_field w 21 10 = EO_DIVW then m(a \<mapsto> 0) else m) = stubbed (insert a A) m"
  by (rule ext) (auto simp: stubbed_def split: option.splits)

lemma divides_step:
  "a \<notin> A \<Longrightarrow> m a = Some w \<Longrightarrow> (\<forall>b \<in> A. m' b = m b) \<Longrightarrow> a \<notin> dom f \<Longrightarrow>
   (if is_divw w then f(a \<mapsto> w) else f) ++ divides A m' = f ++ divides (insert a A) m"
  by (rule ext) (auto simp: divides_def map_add_def split: option.splits)

lemma rewrite_one_ok:
  assumes tr: "tracee_memory tr M R H" "\<not> H (R c)" and t: "table_ok t" "a \<noteq> 0" "a \<notin> dom (table_map t)" and w: "M c a = Some w"
  shows "\<exists>c' t'. rewrite_one tr True a c t n = Some (Inr (c', t', if is_divw w then n + 1 else n)) \<and> table_ok t' \<and>
    M c' = (if instr_field w 21 10 = EO_DIVW then (M c)(a \<mapsto> 0) else M c) \<and> R c' = R c \<and>
    table_map t' = (if is_divw w then (table_map t)(a \<mapsto> w) else table_map t)"
proof -
  have p: "peek tr a c = Some w" using tracee_peek[OF tr] w by simp
  obtain c1 where c1: "(if instr_field w 21 10 = EO_DIVW then poke tr a 0 c else Some c) = Some c1"
    "M c1 = (if instr_field w 21 10 = EO_DIVW then (M c)(a \<mapsto> 0) else M c)" "R c1 = R c"
    using tracee_poke[OF tr w, of 0] by (cases "instr_field w 21 10 = EO_DIVW") auto
  obtain t1 where t1: "install_instr True t a w = Some (Inr t1)" "table_ok t1" "table_map t1 = (table_map t)(a \<mapsto> w)"
    using install_instr_ok[OF t, of w] by blast
  have "rewrite_one tr True a c t n = Some (Inr (c1, if is_divw w then t1 else t, if is_divw w then n + 1 else n))"
    unfolding rewrite_one_def p option.case c1(1) is_divw_def by (simp add: t1(1))
  then show ?thesis using c1(2,3) t1(2,3) t(1) by (intro exI[of _ c1] exI[of _ "if is_divw w then t1 else t"]) simp
qed

lemma rewrite_loop_ok:
  assumes tr: "tracee_memory tr M R H"
  shows "\<not> H (R c) \<Longrightarrow> unat addr + 4 * k < 2 ^ 32 \<Longrightarrow> table_ok t \<Longrightarrow> 0 < unat addr \<Longrightarrow>
    dom (table_map t) \<inter> set (text_words addr k) = {} \<Longrightarrow> set (text_words addr k) \<subseteq> dom (M c) \<Longrightarrow>
    \<exists>c' t' n'. rewrite_loop tr True addr (addr + 4 * of_nat k) c t n = Some (Inr (c', t', n')) \<and> table_ok t' \<and>
      M c' = stubbed (set (text_words addr k)) (M c) \<and> R c' = R c \<and>
      table_map t' = table_map t ++ divides (set (text_words addr k)) (M c) \<and>
      n' = n + length (filter (\<lambda>a. is_divw (the (M c a))) (text_words addr k))"
proof (induction k arbitrary: addr c t n)
  case 0
  have "stubbed {} m = m" "divides {} m = Map.empty" for m by (auto simp: stubbed_def divides_def)
  then show ?case using 0 by (subst rewrite_loop.simps) simp
next
  case (Suc k)
  let ?A = "set (text_words (addr + 4) k)"
  have u4: "unat (addr + 4) = unat addr + 4" using unat_add4 Suc.prems(2) .
  have fresh: "addr \<notin> ?A" using text_words_fresh Suc.prems(2) .
  obtain w where w: "M c addr = Some w" using Suc.prems(6) by auto
  have "addr \<noteq> 0" "addr \<notin> dom (table_map t)" using Suc.prems(4,5) by auto
  from rewrite_one_ok[where n = n, OF tr Suc.prems(1,3) this w] obtain c1 t1 where one:
    "rewrite_one tr True addr c t n = Some (Inr (c1, t1, if is_divw w then n + 1 else n))" "table_ok t1"
    "M c1 = (if instr_field w 21 10 = EO_DIVW then (M c)(addr \<mapsto> 0) else M c)" "R c1 = R c"
    "table_map t1 = (if is_divw w then (table_map t)(addr \<mapsto> w) else table_map t)" by blast
  have same: "M c1 b = M c b" if "b \<in> ?A" for b using that fresh one(3) by auto
  have dom: "dom (table_map t1) \<inter> ?A = {}" using Suc.prems(5) fresh one(5) by auto
  have sub: "?A \<subseteq> dom (M c1)"
  proof
    fix b assume b: "b \<in> ?A"
    then have "b \<in> dom (M c)" using Suc.prems(6) by auto
    then show "b \<in> dom (M c1)" using same[OF b] by (simp add: domIff)
  qed
  have fin: "addr + 4 * of_nat (Suc k) = (addr + 4) + 4 * of_nat k" by (simp add: algebra_simps)
  obtain c' t' n' where rest: "rewrite_loop tr True (addr + 4) (addr + 4 * of_nat (Suc k)) c1 t1 (if is_divw w then n + 1 else n) = Some (Inr (c', t', n'))"
    "table_ok t'" "M c' = stubbed ?A (M c1)" "R c' = R c1" "table_map t' = table_map t1 ++ divides ?A (M c1)"
    "n' = (if is_divw w then n + 1 else n) + length (filter (\<lambda>a. is_divw (the (M c1 a))) (text_words (addr + 4) k))"
    using Suc.IH[of c1 "addr + 4" t1 "if is_divw w then n + 1 else n", folded fin] Suc.prems(1,2) one(4) u4 one(2) dom sub by auto
  have less: "addr < addr + 4 * of_nat (Suc k)"
    using Suc.prems(2) by (simp add: word_less_nat_alt unat_word_ariths unat_of_nat)
  have "M c' = stubbed (set (text_words addr (Suc k))) (M c)"
    using rest(3) stubbed_step[where m = "M c", OF fresh w] one(3) by simp
  moreover have "table_map t' = table_map t ++ divides (set (text_words addr (Suc k))) (M c)"
    using rest(5) divides_step[of addr ?A "M c" w "M c1" "table_map t"] fresh w same Suc.prems(5) one(5) by auto
  moreover have "n' = n + length (filter (\<lambda>a. is_divw (the (M c a))) (text_words addr (Suc k)))"
  proof -
    have "filter (\<lambda>a. is_divw (the (M c1 a))) (text_words (addr + 4) k) = filter (\<lambda>a. is_divw (the (M c a))) (text_words (addr + 4) k)"
      using same by (intro filter_cong) auto
    then show ?thesis using rest(6) w by simp
  qed
  ultimately show ?case using less one(1,4) rest(1,2,4) by (subst rewrite_loop.simps) simp
qed

section \<open>All executable sections\<close>









lemma dom_stubbed [simp]: "dom (stubbed A m) = dom m"
  by (auto simp: stubbed_def split: option.splits if_splits)




section \<open>The child under the tracer\<close>

text \<open>
  The processor of the child: a state of type \<open>'r\<close> (registers and data) with the registers that are shown, the
  effect of one instruction word, and whether the program has ended.  Its text is a map from addresses to words.
\<close>

record 'r cpu =
  regs_of :: "'r \<Rightarrow> pt_regs"
  exec :: "u32 \<Rightarrow> 'r \<Rightarrow> 'r"
  halted :: "'r \<Rightarrow> bool"

abbreviation word_at :: "'r cpu \<Rightarrow> (u32 \<Rightarrow> u32 option) \<Rightarrow> 'r \<Rightarrow> u32 option" where
  "word_at p m r \<equiv> m (nip (regs_of p r))"

text \<open>Running the text \<open>m\<close> until the program ends or the word at the program counter is 0, which is illegal.\<close>

fun runs_to :: "'r cpu \<Rightarrow> (u32 \<Rightarrow> u32 option) \<Rightarrow> nat \<Rightarrow> 'r \<Rightarrow> 'r option" where
  "runs_to p m 0 r = (if halted p r \<or> word_at p m r = Some 0 then Some r else None)"
| "runs_to p m (Suc n) r = (if halted p r \<or> word_at p m r = Some 0 then Some r
     else case word_at p m r of None \<Rightarrow> None | Some w \<Rightarrow> runs_to p m n (exec p w r))"


text \<open>
  What \<open>ptrace\<close> and \<open>waitpid\<close> do to a child \<open>c\<close> with the text \<open>M c\<close> on the processor state \<open>R c\<close>, as long as its
  program has not ended: memory and registers can be read and words of the text set; a single step executes the word at
  the program counter; a continued child stops at the first illegal word, or has exited.
\<close>

definition tracee :: "'r cpu \<Rightarrow> 'c tracing \<Rightarrow> ('c \<Rightarrow> u32 \<Rightarrow> u32 option) \<Rightarrow> ('c \<Rightarrow> 'r) \<Rightarrow> bool" where
  "tracee p tr M R \<longleftrightarrow> tracee_memory tr M R (halted p) \<and> (\<forall>c. \<not> halted p (R c) \<longrightarrow>
     getregs tr c = Some (regs_of p (R c)) \<and>
     (\<forall>w. word_at p (M c) (R c) = Some w \<and> w \<noteq> 0 \<longrightarrow>
        (\<exists>c1 st c2. single_step tr c = Some c1 \<and> waitpid tr c1 = Some (st, c2) \<and> M c2 = M c \<and> R c2 = exec p w (R c))) \<and>
     (\<forall>n r. runs_to p (M c) n (R c) = Some r \<longrightarrow>
        (\<exists>c1 c2. cont tr c = Some c1 \<and> waitpid tr c1 = Some (if halted p r then Exited else StoppedChild, c2) \<and>
           M c2 = M c \<and> R c2 = r)))"

lemma tracee_mem: "tracee p tr M R \<Longrightarrow> tracee_memory tr M R (halted p)"
  by (simp add: tracee_def)

lemma tracee_regs: "tracee p tr M R \<Longrightarrow> \<not> halted p (R c) \<Longrightarrow> getregs tr c = Some (regs_of p (R c))"
  by (simp add: tracee_def)



section \<open>Divides in the manual of the processor\<close>

text \<open>\<open>divw\<close> has 31 in its first six bits and 491 in the ten bits before the last; its operands are the registers in
  the third and fourth group of five bits.\<close>

definition ppc_divw :: "u32 \<Rightarrow> bool" where
  "ppc_divw w \<longleftrightarrow> unat w div 2 ^ 26 = 31 \<and> unat w div 2 mod 2 ^ 10 = 491"



lemma unat_bits: "unat (take_bit num (drop_bit n w)) = unat w div 2 ^ n mod 2 ^ num" for w :: u32
proof -
  have "unat w < 2 ^ 32" using unsigned_less[of w] by simp
  then have "unat (drop_bit n w) = unat w div 2 ^ n" by (simp only: unsigned_drop_bit_eq take_bit_nat_eq_self len_of_numeral_defs drop_bit_eq_div[where ?'a = nat]) (simp add: take_bit_nat_eq_self)
  then show ?thesis by (simp only: unsigned_take_bit_eq take_bit_eq_mod[where ?'a = nat])
qed

lemma instr_field_nat: "unat (instr_field w pos num) = unat w div 2 ^ (32 - pos - num) mod 2 ^ num"
proof -
  have "instr_field w pos num = take_bit num (drop_bit (32 - pos - num) w)"
    by (simp add: instr_field_def take_bit_eq_mask mask_eq_exp_minus_1)
  then show ?thesis by (simp only: unat_bits)
qed

lemma instr_primary_nat: "unat (instr_primary w) = unat w div 2 ^ 26"
proof -
  have m: "(0x3f :: u32) = mask 6" by (simp add: mask_eq_exp_minus_1)
  have "instr_primary w = take_bit 6 (drop_bit 26 w)" unfolding instr_primary_def m by (simp add: take_bit_eq_mask)
  then have "unat (instr_primary w) = unat w div 2 ^ 26 mod 2 ^ 6" by (simp only: unat_bits)
  moreover have "unat w < 2 ^ 32" using unsigned_less[of w] by simp
  then have "unat w div 2 ^ 26 < 2 ^ 6" by (simp add: less_mult_imp_div_less)
  ultimately show ?thesis by simp
qed

lemma is_divw_ppc: "is_divw w \<longleftrightarrow> ppc_divw w"
  by (simp add: is_divw_def ppc_divw_def PO_X_def EO_DIVW_def word_unat_eq_iff instr_primary_nat instr_field_nat)

section \<open>A traced run\<close>

















section \<open>Properties\<close>

text \<open>A child with a text and registers, for the witnesses: two instructions at 0x1000 and 0x1004, after which the
  program has ended.\<close>

definition demo_cpu :: "pt_regs cpu" where
  "demo_cpu = \<lparr>regs_of = (\<lambda>r. r),
     exec = (\<lambda>w r. r\<lparr>nip := if nip r = 0x1000 then 0x1004 else 0x1008,
       gpr := if ppc_divw w then (gpr r)[3 := gpr r ! 4 div gpr r ! 5] else gpr r\<rparr>),
     halted = (\<lambda>r. nip r \<noteq> 0x1000 \<and> nip r \<noteq> 0x1004)\<rparr>"

type_synonym demo_child = "(u32 \<rightharpoonup> u32) \<times> pt_regs"

definition demo_tracing :: "demo_child tracing" where
  "demo_tracing = \<lparr>peek = (\<lambda>a c. fst c a),
     poke = (\<lambda>a v c. if fst c a = None then None else Some ((fst c)(a \<mapsto> v), snd c)),
     cont = (\<lambda>c. map_option (Pair (fst c)) (runs_to demo_cpu (fst c) 2 (snd c))),
     single_step = (\<lambda>c. map_option (\<lambda>w. (fst c, exec demo_cpu w (snd c))) (fst c (nip (snd c)))),
     waitpid = (\<lambda>c. Some (if halted demo_cpu (snd c) then Exited else StoppedChild, c)),
     getregs = (\<lambda>c. Some (snd c))\<rparr>"

lemma runs_to_more: "runs_to p m n r = Some x \<Longrightarrow> n \<le> n' \<Longrightarrow> runs_to p m n' r = Some x"
proof (induction n arbitrary: r n')
  case 0
  then show ?case by (cases n') auto
next
  case (Suc n)
  then obtain k where "n' = Suc k" "n \<le> k" by (cases n') auto
  then show ?case using Suc by (auto split: option.splits if_splits)
qed

lemma demo_two: "runs_to demo_cpu m n r = Some x \<Longrightarrow> runs_to demo_cpu m 2 r = Some x"
proof -
  assume r: "runs_to demo_cpu m n r = Some x"
  have "runs_to demo_cpu m (Suc (Suc k)) r = runs_to demo_cpu m (Suc (Suc 0)) r" for k
    by (cases k) (auto simp: demo_cpu_def split: option.splits)
  moreover have "runs_to demo_cpu m (Suc (Suc n)) r = Some x" by (rule runs_to_more[OF r]) simp
  ultimately show ?thesis by (metis numeral_2_eq_2)
qed

lemma demo_tracee: "tracee demo_cpu demo_tracing fst snd"
  unfolding tracee_def
proof (intro conjI allI impI)
  show "tracee_memory demo_tracing fst snd (halted demo_cpu)" by (auto simp: tracee_memory_def demo_tracing_def)
next
  fix c n r assume "runs_to demo_cpu (fst c) n (snd c) = Some r"
  then show "\<exists>c1 c2. cont demo_tracing c = Some c1 \<and>
    waitpid demo_tracing c1 = Some (if halted demo_cpu r then Exited else StoppedChild, c2) \<and> fst c2 = fst c \<and> snd c2 = r"
    by (auto simp: demo_tracing_def dest: demo_two)
qed (auto simp: demo_tracing_def demo_cpu_def)

definition demo_text :: "u32 \<rightharpoonup> u32" where
  "demo_text = [0x1000 \<mapsto> 0x7C642BD6, 0x1004 \<mapsto> 0x44000002, 0x1008 \<mapsto> 0x386003D6]"

definition demo_regs :: pt_regs where
  "demo_regs = \<lparr>nip = 0x1000, gpr = [0, 0, 0, 0, 42, 7] @ replicate 26 0\<rparr>"

lemma demo_divides: "ppc_divw 0x7C642BD6" "\<not> ppc_divw 0x44000002" "\<not> ppc_divw 0x386003D6" "instr_field 0x386003D6 21 10 = EO_DIVW"
  "instr_field 0x44000002 21 10 \<noteq> EO_DIVW"
  by (simp_all add: ppc_divw_def EO_DIVW_def word_unat_eq_iff instr_field_nat)


text \<open>Rewriting a mapped text section of whole words whose end does not wrap: the child's memory has 0 in exactly the
  words with the extended opcode of a divide, the table has gained exactly the words with both opcodes of a divide,
  and the result is their number.\<close>

theorem rewrite_instr_result:
  assumes "tracee_memory tr M R H" "\<not> H (R c)" "table_ok t" "0 < unat start" "unat start + 4 * k < 2 ^ 32"
    "dom (table_map t) \<inter> set (text_words start k) = {}" "set (text_words start k) \<subseteq> dom (M c)"
  shows "\<exists>c' t'. rewrite_instr tr True start (4 * of_nat k) c t =
      Some (Inr (c', t', length (filter (\<lambda>a. is_divw (the (M c a))) (text_words start k)))) \<and> table_ok t' \<and> R c' = R c \<and>
    M c' = stubbed (set (text_words start k)) (M c) \<and> table_map t' = table_map t ++ divides (set (text_words start k)) (M c)"
  using rewrite_loop_ok[OF assms(1,2,5,3,4,6,7), of 0] by (auto simp: rewrite_instr_def)

lemma demo_words: "text_words 0x1000 3 = [0x1000, 0x1004, 0x1008]" "text_words 0x1000 2 = [0x1000, 0x1004]"
  by (simp_all add: numeral_3_eq_3 numeral_2_eq_2)

theorem rewrite_instr_result_witness:
  "\<exists>t0 c' t'. new_instr_table True = Inr t0 \<and>
    rewrite_instr demo_tracing True 0x1000 (4 * of_nat 3) (demo_text, demo_regs) t0 = Some (Inr (c', t', 1))"
proof -
  obtain t0 where t0: "new_instr_table True = Inr t0" by (simp add: new_instr_table_def)
  then have "table_ok t0" "dom (table_map t0) \<inter> set (text_words 0x1000 3) = {}" using table_ok_new by auto
  from rewrite_instr_result[of demo_tracing fst snd "halted demo_cpu" "(demo_text, demo_regs)" t0 "0x1000" 3, OF tracee_mem[OF demo_tracee] _ this(1) _ _ this(2)]
  show ?thesis using t0 demo_divides by (auto simp: demo_words demo_text_def demo_cpu_def demo_regs_def is_divw_ppc)
qed

text \<open>A word with the extended opcode of a divide whose primary opcode is another one is overwritten but not
  recorded; when the child reaches it the tracer ends with an error.\<close>

theorem zeroed_non_divide_is_fatal:
  assumes "tracee p tr M R" "\<not> halted p (R c)" "table_ok t" "0 < unat start" "unat start + 4 * k < 2 ^ 32"
    "dom (table_map t) \<inter> set (text_words start k) = {}" "set (text_words start k) \<subseteq> dom (M c)"
    "a \<in> set (text_words start k)" "M c a = Some w" "instr_field w 21 10 = EO_DIVW" "instr_primary w \<noteq> PO_X"
    "\<not> halted p (R c'')" "nip (regs_of p (R c'')) = a" "M c'' = stubbed (set (text_words start k)) (M c)"
  shows "\<exists>c' t' n. rewrite_instr tr True start (4 * of_nat k) c t = Some (Inr (c', t', n)) \<and>
    handle_stop tr t' c'' cnt = Some (Inl (Fatal ''addr not in table''))"
proof -
  note mem = tracee_mem[OF assms(1)]
  obtain c' t' n where r: "rewrite_instr tr True start (4 * of_nat k) c t = Some (Inr (c', t', n))" "table_ok t'"
    "table_map t' = table_map t ++ divides (set (text_words start k)) (M c)"
    using rewrite_loop_ok[OF mem assms(2,5,3,4,6,7), of 0] by (auto simp: rewrite_instr_def)
  have "peek tr a c'' = Some 0" using tracee_peek[OF mem assms(12)] assms(8-10,14) by (simp add: stubbed_def)
  moreover have "table_map t' a = None"
    using r(3) assms(6,8,9,11) by (auto simp: divides_def is_divw_def map_add_def split: option.splits)
  moreover have "a \<noteq> 0" using text_words_above[OF assms(5,8)] assms(4) by auto
  ultimately have "handle_stop tr t' c'' cnt = Some (Inl (Fatal ''addr not in table''))"
    using lookup_instr_ok[OF r(2), of a] tracee_regs[OF assms(1,12)] assms(13) by (simp add: handle_stop_def Let_def)
  then show ?thesis using r(1) by blast
qed

theorem zeroed_non_divide_is_fatal_witness:
  "\<exists>t0 c' t' n. new_instr_table True = Inr t0 \<and>
    rewrite_instr demo_tracing True 0x1000 (4 * of_nat 2) (demo_text(0x1004 \<mapsto> 0x386003D6), demo_regs) t0 = Some (Inr (c', t', n)) \<and>
    handle_stop demo_tracing t' (stubbed (set (text_words 0x1000 2)) (demo_text(0x1004 \<mapsto> 0x386003D6)), demo_regs\<lparr>nip := 0x1004\<rparr>) counters0
      = Some (Inl (Fatal ''addr not in table''))"
proof -
  obtain t0 where t0: "new_instr_table True = Inr t0" by (simp add: new_instr_table_def)
  then have t: "table_ok t0" "dom (table_map t0) \<inter> set (text_words 0x1000 2) = {}" using table_ok_new by auto
  have p: "instr_primary 0x386003D6 \<noteq> PO_X" by code_simp
  show ?thesis
    using zeroed_non_divide_is_fatal[OF demo_tracee, of "(demo_text(0x1004 \<mapsto> 0x386003D6), demo_regs)" t0 "0x1000" 2 "0x1004" "0x386003D6"
        "(stubbed (set (text_words 0x1000 2)) (demo_text(0x1004 \<mapsto> 0x386003D6)), demo_regs\<lparr>nip := 0x1004\<rparr>)" counters0]
      t0 t p demo_divides(4) by (auto simp: demo_words demo_text_def demo_regs_def demo_cpu_def)
qed






end
