(* ===== verification/Brk_Heap.thy ===== *)
theory Brk_Heap
  imports Prelude
begin

text \<open>
  The memory the allocators of \<open>project\<close> work on: the data segment up to the break, which \<open>sbrk\<close> moves.
  Addresses are numbers and 0 is \<open>NULL\<close>.  The headers the allocators keep in it are a map from addresses;
  accessing a header where none was written is undefined behaviour and \<open>None\<close>.
\<close>

record 'h heap =
  hdrs :: "nat \<Rightarrow> 'h option"
  bytes :: "nat \<Rightarrow> u8"
  brk :: nat
  limit :: nat
  head :: nat

text \<open>\<open>sbrk\<close> returns the old break; beyond the limit it fails with \<open>(void*)-1\<close>, here \<open>None\<close>.\<close>

definition sbrk :: "nat \<Rightarrow> 'h heap \<Rightarrow> nat option \<times> 'h heap" where
  "sbrk n s = (if brk s + n \<le> limit s then (Some (brk s), s\<lparr>brk := brk s + n\<rparr>) else (None, s))"

text \<open>The value the programs see: \<open>(void*)-1\<close> when it fails.\<close>

definition sbrk_ptr :: "nat \<Rightarrow> 'h heap \<Rightarrow> nat \<times> 'h heap" where
  "sbrk_ptr n s = (case sbrk n s of (None, s1) \<Rightarrow> (2 ^ 64 - 1, s1) | (Some p, s1) \<Rightarrow> (p, s1))"

definition get_hdr :: "nat \<Rightarrow> 'h heap \<Rightarrow> 'h option" where
  "get_hdr p s = hdrs s p"

text \<open>
  Writing the bytes from \<open>p\<close> to \<open>p + n\<close> destroys the headers of \<open>sz\<close> bytes that reach into them: they
  cannot be read any more.
\<close>

definition wipe :: "nat \<Rightarrow> nat \<Rightarrow> nat \<Rightarrow> (nat \<Rightarrow> 'h option) \<Rightarrow> nat \<Rightarrow> 'h option" where
  "wipe sz p n H = (\<lambda>a. if a < p + n \<and> p < a + sz then None else H a)"

text \<open>A header of \<open>sz\<close> bytes can be written below the break.\<close>

definition put_hdr :: "nat \<Rightarrow> nat \<Rightarrow> 'h \<Rightarrow> 'h heap \<Rightarrow> 'h heap option" where
  "put_hdr sz p h s = (if p \<noteq> 0 \<and> p + sz \<le> brk s then Some (s\<lparr>hdrs := (wipe sz p sz (hdrs s))(p \<mapsto> h)\<rparr>) else None)"

text \<open>An update of a header that is there.\<close>

definition upd_hdr :: "nat \<Rightarrow> ('h \<Rightarrow> 'h) \<Rightarrow> 'h heap \<Rightarrow> 'h heap option" where
  "upd_hdr p f s = (case hdrs s p of None \<Rightarrow> None | Some h \<Rightarrow> Some (s\<lparr>hdrs := (hdrs s)(p \<mapsto> f h)\<rparr>))"

text \<open>\<open>memset\<close> and \<open>memmove\<close>; the regions must be in the data segment.\<close>

definition memset :: "nat \<Rightarrow> nat \<Rightarrow> u8 \<Rightarrow> nat \<Rightarrow> 'h heap \<Rightarrow> 'h heap option" where
  "memset sz p v n s = (if n = 0 then Some s
     else if p \<noteq> 0 \<and> p + n \<le> brk s
     then Some (s\<lparr>hdrs := wipe sz p n (hdrs s), bytes := (\<lambda>a. if p \<le> a \<and> a < p + n then v else bytes s a)\<rparr>) else None)"

definition memmove :: "nat \<Rightarrow> nat \<Rightarrow> nat \<Rightarrow> nat \<Rightarrow> 'h heap \<Rightarrow> 'h heap option" where
  "memmove sz d r n s = (if n = 0 then Some s
     else if d \<noteq> 0 \<and> r \<noteq> 0 \<and> d + n \<le> brk s \<and> r + n \<le> brk s
     then Some (s\<lparr>hdrs := wipe sz d n (hdrs s),
                  bytes := (\<lambda>a. if d \<le> a \<and> a < d + n then bytes s (r + (a - d)) else bytes s a)\<rparr>) else None)"

text \<open>The address space of the programs has 64-bit sizes.\<close>

definition size_t :: "nat \<Rightarrow> nat" where
  "size_t n = n mod 2 ^ 64"

lemma size_t_id [simp]: "n < 2 ^ 64 \<Longrightarrow> size_t n = n"
  by (simp add: size_t_def)

section \<open>The contract of an allocator\<close>

text \<open>Blocks that are in use: pointers to the bytes of a block, with the size that may be used.\<close>

definition apart :: "(nat \<Rightarrow> nat option) \<Rightarrow> bool" where
  "apart live \<longleftrightarrow> (\<forall>p n q m. live p = Some n \<longrightarrow> live q = Some m \<longrightarrow> p \<noteq> q \<longrightarrow> p + n \<le> q \<or> q + m \<le> p)"

text \<open>
  A program: \<open>Inl n\<close> allocates \<open>n\<close> bytes, \<open>Inr i\<close> frees the \<open>i\<close>-th block it holds, the latest at index 0.  The sizes it
  asks for, and those of the blocks it holds in the end when every request is met.
\<close>

definition without :: "nat \<Rightarrow> 'a list \<Rightarrow> 'a list" where
  "without i xs = take i xs @ drop (Suc i) xs"

fun requests :: "(nat + nat) list \<Rightarrow> nat list" where
  "requests [] = []"
| "requests (Inl n # ops) = n # requests ops"
| "requests (Inr i # ops) = requests ops"

fun wanted :: "(nat + nat) list \<Rightarrow> nat list \<Rightarrow> nat list" where
  "wanted [] ns = ns"
| "wanted (Inl n # ops) ns = wanted ops (n # ns)"
| "wanted (Inr i # ops) ns = wanted ops (without i ns)"

lemma without_beyond: "length xs \<le> i \<Longrightarrow> without i xs = xs"
  by (simp add: without_def)

lemma map_without: "map f (without i xs) = without i (map f xs)"
  by (simp add: without_def take_map drop_map)

lemma without_split:
  assumes "i < length xs" and "distinct (map f xs)"
  shows "distinct (map f (without i xs))" and "f ` set (without i xs) = f ` set xs - {f (xs ! i)}" and "set (without i xs) \<subseteq> set xs"
proof -
  have x: "xs = take i xs @ xs ! i # drop (Suc i) xs" using assms(1) by (simp add: id_take_nth_drop)
  then have d: "distinct (map f (take i xs @ xs ! i # drop (Suc i) xs))" using assms(2) by metis
  then show "distinct (map f (without i xs))" by (simp add: without_def)
  have "set xs = insert (xs ! i) (set (without i xs))" using x by (metis Un_insert_right list.simps(15) set_append without_def)
  then show "f ` set (without i xs) = f ` set xs - {f (xs ! i)}" "set (without i xs) \<subseteq> set xs"
    using d by (auto simp: without_def) (metis image_eqI)+
qed

text \<open>
  The blocks a program holds, as pairs of pointer and size asked for, are exactly the live blocks, each of at least
  the size asked for.
\<close>

definition holding :: "(nat \<times> nat) list \<Rightarrow> (nat \<Rightarrow> nat option) \<Rightarrow> bool" where
  "holding held lv \<longleftrightarrow> distinct (map fst held) \<and> fst ` set held = dom lv \<and> (\<forall>(p, n) \<in> set held. \<exists>m \<ge> n. lv p = Some m)"

lemma holding_add: "holding held lv \<Longrightarrow> lv p = None \<Longrightarrow> n \<le> m \<Longrightarrow> holding ((p, n) # held) (lv(p \<mapsto> m))"
proof -
  assume h: "holding held lv" and p: "lv p = None" "n \<le> m"
  have "p \<notin> fst ` set held" using h p(1) unfolding holding_def by (simp add: domIff)
  then show ?thesis using h p(2) unfolding holding_def by (fastforce simp: image_iff)
qed

lemma holding_del:
  assumes "holding held lv" and "i < length held"
  shows "holding (without i held) (lv(fst (held ! i) := None))"
proof -
  have d: "distinct (map fst held)" and e: "fst ` set held = dom lv" and l: "\<forall>(p, n) \<in> set held. \<exists>m \<ge> n. lv p = Some m"
    using assms(1) unfolding holding_def by simp_all
  note w = without_split[OF assms(2) d]
  have "fst x \<noteq> fst (held ! i)" if "x \<in> set (without i held)" for x using w(2) that by auto
  then have "\<forall>(p, n) \<in> set (without i held). \<exists>m \<ge> n. (lv(fst (held ! i) := None)) p = Some m" using l w(3) by fastforce
  then show ?thesis using w(1,2) e unfolding holding_def by auto
qed

locale allocator =
  fixes mall :: "nat \<Rightarrow> 's \<Rightarrow> (nat \<times> 's) option" and fre :: "nat \<Rightarrow> 's \<Rightarrow> 's option"
    and inv :: "'s \<Rightarrow> bool" and live :: "'s \<Rightarrow> nat \<Rightarrow> nat option" and bound :: nat
    and room :: "'s \<Rightarrow> nat" and cost :: "nat \<Rightarrow> nat"
  assumes live_apart: "inv s \<Longrightarrow> apart (live s)"
    and malloc_law: "inv s \<Longrightarrow> 0 < n \<Longrightarrow> n < bound \<Longrightarrow>
      (\<exists>s'. mall n s = Some (0, s') \<and> inv s' \<and> live s' = live s \<and> room s < cost n) \<or>
      (\<exists>p s' m. mall n s = Some (p, s') \<and> p \<noteq> 0 \<and> inv s' \<and> live s p = None \<and> live s' = (live s)(p \<mapsto> m) \<and> n \<le> m \<and>
         room s \<le> room s' + cost n)"
    and free_law: "inv s \<Longrightarrow> live s p \<noteq> None \<Longrightarrow>
      \<exists>s'. fre p s = Some s' \<and> inv s' \<and> live s' = (live s)(p := None) \<and> room s' = room s"
begin

fun use :: "(nat + nat) list \<Rightarrow> (nat \<times> nat) list \<Rightarrow> 's \<Rightarrow> ((nat \<times> nat) list \<times> 's) option" where
  "use [] held s = Some (held, s)"
| "use (Inl n # ops) held s = do { (p, s') \<leftarrow> mall n s; use ops (if p = 0 then held else (p, n) # held) s' }"
| "use (Inr i # ops) held s = (if i < length held then do { s' \<leftarrow> fre (fst (held ! i)) s; use ops (without i held) s' } else use ops held s)"

lemma use_ok:
  "inv s \<Longrightarrow> holding held (live s) \<Longrightarrow> \<forall>n \<in> set (requests ops). 0 < n \<and> n < bound \<Longrightarrow>
   \<exists>held' s'. use ops held s = Some (held', s') \<and> inv s' \<and> holding held' (live s') \<and>
     (sum_list (map cost (requests ops)) \<le> room s \<longrightarrow> map snd held' = wanted ops (map snd held))"
proof (induction ops arbitrary: held s)
  case Nil
  then show ?case by simp
next
  case (Cons op ops)
  show ?case
  proof (cases op)
    case (Inl n)
    then have n: "0 < n" "n < bound" "\<forall>n \<in> set (requests ops). 0 < n \<and> n < bound" using Cons.prems(3) by auto
    from malloc_law[OF Cons.prems(1) n(1,2)] consider
      (none) s' where "mall n s = Some (0, s')" "inv s'" "live s' = live s" "room s < cost n"
      | (some) p s' m where "mall n s = Some (p, s')" "p \<noteq> 0" "inv s'" "live s p = None" "live s' = (live s)(p \<mapsto> m)" "n \<le> m"
          "room s \<le> room s' + cost n" by blast
    then show ?thesis
    proof cases
      case none
      then show ?thesis using Cons.IH[of s' held] Cons.prems(2) n(3) Inl by auto
    next
      case some
      have "holding ((p, n) # held) (live s')" using holding_add[OF Cons.prems(2) some(4,6)] some(5) by simp
      from Cons.IH[OF some(3) this n(3)] obtain held' s'' where "use ops ((p, n) # held) s' = Some (held', s'')" "inv s''"
        "holding held' (live s'')" "sum_list (map cost (requests ops)) \<le> room s' \<longrightarrow> map snd held' = wanted ops (n # map snd held)" by auto
      then show ?thesis using some(1,2,7) Inl by auto
    qed
  next
    case (Inr i)
    have n: "\<forall>n \<in> set (requests ops). 0 < n \<and> n < bound" using Cons.prems(3) Inr by simp
    show ?thesis
    proof (cases "i < length held")
      case False
      then show ?thesis using Cons.IH[OF Cons.prems(1,2) n] Inr by (auto simp: without_beyond)
    next
      case True
      have "fst (held ! i) \<in> dom (live s)" using Cons.prems(2) True unfolding holding_def by (metis image_eqI nth_mem)
      then have "live s (fst (held ! i)) \<noteq> None" by auto
      from free_law[OF Cons.prems(1) this] obtain s' where s': "fre (fst (held ! i)) s = Some s'" "inv s'"
        "live s' = (live s)(fst (held ! i) := None)" "room s' = room s" by blast
      have "holding (without i held) (live s')" using holding_del[OF Cons.prems(2) True] s'(3) by simp
      from Cons.IH[OF s'(2) this n] show ?thesis using s'(1,4) Inr True by (auto simp: map_without)
    qed
  qed
qed

end

section \<open>A list of blocks in the order of their addresses\<close>

text \<open>
  The allocators but one keep their blocks in a list: a header of 24 bytes, with the bytes of the block behind
  it.  \<open>nx\<close> and \<open>sz\<close> are the fields of a header that hold the next block and the size.  The blocks \<open>bs\<close> follow
  each other from address \<open>lo\<close> on, and end below \<open>hi\<close>.
\<close>

fun layout :: "('h \<Rightarrow> nat) \<Rightarrow> ('h \<Rightarrow> nat) \<Rightarrow> (nat \<Rightarrow> 'h option) \<Rightarrow> nat \<Rightarrow> nat \<Rightarrow> nat list \<Rightarrow> nat \<Rightarrow> bool" where
  "layout nx sz H p lo [] hi \<longleftrightarrow> p = 0 \<and> lo \<le> hi"
| "layout nx sz H p lo (x # xs) hi \<longleftrightarrow> p = x \<and> 0 < x \<and> lo \<le> x \<and>
     (case H x of None \<Rightarrow> False | Some h \<Rightarrow> layout nx sz H (nx h) (x + 24 + sz h) xs hi)"

text \<open>The last of the blocks linked to \<open>x\<close>.\<close>

definition linked :: "(nat \<Rightarrow> 'h \<Rightarrow> 'h) \<Rightarrow> (nat \<Rightarrow> 'h option) \<Rightarrow> nat list \<Rightarrow> nat \<Rightarrow> nat \<Rightarrow> 'h option" where
  "linked sn H bs x = (if bs = [] then H else H(last bs := map_option (sn x) (H (last bs))))"

locale block_list =
  fixes nx :: "'h \<Rightarrow> nat" and sn :: "nat \<Rightarrow> 'h \<Rightarrow> 'h" and sz :: "'h \<Rightarrow> nat"
  assumes nx_sn: "nx (sn x h) = x" and sz_sn: "sz (sn x h) = sz h"
begin

lemma layout_ConsE:
  assumes "layout nx sz H p lo (x # xs) hi"
  obtains h where "H x = Some h" "p = x" "0 < x" "lo \<le> x" "layout nx sz H (nx h) (x + 24 + sz h) xs hi"
  using assms by (simp split: option.split_asm)

lemma layout_hi: "layout nx sz H p lo bs hi \<Longrightarrow> lo \<le> hi"
proof (induction bs arbitrary: p lo)
  case (Cons x bs)
  from Cons.prems obtain h where "H x = Some h" "lo \<le> x" "layout nx sz H (nx h) (x + 24 + sz h) bs hi" by - (erule layout_ConsE, simp)
  then show ?case using Cons.IH by fastforce
qed simp

lemma layout_above: "layout nx sz H p lo bs hi \<Longrightarrow> x \<in> set bs \<Longrightarrow> lo \<le> x \<and> 0 < x"
proof (induction bs arbitrary: p lo)
  case (Cons y bs)
  from Cons.prems(1) obtain h where "H y = Some h" "lo \<le> y" "0 < y" "layout nx sz H (nx h) (y + 24 + sz h) bs hi" by - (erule layout_ConsE, simp)
  then show ?case using Cons.IH Cons.prems(2) by fastforce
qed simp

lemma layout_below: "layout nx sz H p lo bs hi \<Longrightarrow> x \<in> set bs \<Longrightarrow> H x = Some h \<Longrightarrow> x + 24 + sz h \<le> hi"
proof (induction bs arbitrary: p lo)
  case (Cons y bs)
  from Cons.prems(1) obtain g where g: "H y = Some g" "layout nx sz H (nx g) (y + 24 + sz g) bs hi" by - (erule layout_ConsE, simp)
  then show ?case using Cons.IH[OF g(2)] Cons.prems layout_hi[OF g(2)] by auto
qed simp

lemma layout_nonempty: "layout nx sz H p lo bs hi \<Longrightarrow> bs \<noteq> [] \<Longrightarrow> p = hd bs \<and> p \<noteq> 0"
  by (cases bs) (auto split: option.split_asm)

lemma layout_hdr: "layout nx sz H p lo bs hi \<Longrightarrow> x \<in> set bs \<Longrightarrow> \<exists>h. H x = Some h"
  by (induction bs arbitrary: p lo) (auto split: option.split_asm)

text \<open>Two blocks do not overlap.\<close>

lemma layout_apart:
  "layout nx sz H p lo bs hi \<Longrightarrow> x \<in> set bs \<Longrightarrow> y \<in> set bs \<Longrightarrow> x \<noteq> y \<Longrightarrow> H x = Some h \<Longrightarrow> H y = Some g \<Longrightarrow>
   x + 24 + sz h \<le> y \<or> y + 24 + sz g \<le> x"
proof (induction bs arbitrary: p lo)
  case (Cons z bs)
  from Cons.prems(1) obtain f where f: "H z = Some f" "layout nx sz H (nx f) (z + 24 + sz f) bs hi" by - (erule layout_ConsE, simp)
  consider "x = z" "y \<in> set bs" | "y = z" "x \<in> set bs" | "x \<in> set bs" "y \<in> set bs" using Cons.prems by auto
  then show ?case
  proof cases
    case 1
    then show ?thesis using layout_above[OF f(2), of y] f(1) Cons.prems by auto
  next
    case 2
    then show ?thesis using layout_above[OF f(2), of x] f(1) Cons.prems by auto
  next
    case 3
    then show ?thesis using Cons.IH[OF f(2)] Cons.prems by blast
  qed
qed simp

text \<open>A header may be replaced by one with the same size and the same next block.\<close>

lemma layout_mark:
  assumes "layout nx sz H p lo bs hi" and "H x = Some h" and "nx g = nx h" and "sz g = sz h"
  shows "layout nx sz (H(x \<mapsto> g)) p lo bs hi"
  using assms(1)
proof (induction bs arbitrary: p lo)
  case (Cons y bs)
  from Cons.prems(1) obtain f where "H y = Some f" "layout nx sz H (nx f) (y + 24 + sz f) bs hi" by (rule layout_ConsE)
  then show ?case using Cons.IH[of "nx f"] Cons.prems assms(2-4) by (cases "y = x") auto
qed simp

text \<open>Headers outside the list do not matter.\<close>

lemma layout_frame:
  "\<forall>x \<in> set bs. H' x = H x \<Longrightarrow> layout nx sz H' p lo bs hi = layout nx sz H p lo bs hi"
  by (induction bs arbitrary: p lo) (auto split: option.split)

lemma layout_nodup: "layout nx sz H p lo bs hi \<Longrightarrow> hi \<notin> set bs"
  using layout_below layout_hdr by fastforce

text \<open>Writing from the end of the blocks on keeps all headers.\<close>

lemma layout_wipe_end:
  assumes "layout nx sz H p lo bs hi" and "dom H = set bs" and "hi \<le> q"
  shows "wipe 24 q n H = H"
proof
  fix a
  show "wipe 24 q n H a = H a"
  proof (cases "H a")
    case (Some h)
    then have "a \<in> set bs" using assms(2) by blast
    then have "a + 24 + sz h \<le> hi" using layout_below[OF assms(1) _ Some] by blast
    then show ?thesis using assms(3) by (simp add: wipe_def)
  qed (simp add: wipe_def)
qed

text \<open>Writing into the bytes of a block keeps all headers.\<close>

lemma layout_wipe_block:
  assumes "layout nx sz H p lo bs hi" and "dom H = set bs" and "x \<in> set bs" and "H x = Some h" and "n \<le> sz h"
  shows "wipe 24 (x + 24) n H = H"
proof
  fix a
  show "wipe 24 (x + 24) n H a = H a"
  proof (cases "H a")
    case (Some g)
    then have a: "a \<in> set bs" using assms(2) by blast
    show ?thesis
    proof (cases "a = x")
      case False
      then show ?thesis using layout_apart[OF assms(1) a assms(3) _ Some assms(4)] assms(5) by (auto simp: wipe_def)
    qed (simp add: wipe_def)
  qed (simp add: wipe_def)
qed

text \<open>A block appended at the end, linked from the last one.\<close>

lemma linked_Cons:
  "y \<notin> set bs \<Longrightarrow> H y = Some f \<Longrightarrow> bs \<noteq> [] \<Longrightarrow> linked sn H (y # bs) x = linked sn H bs x \<and> linked sn H bs x y = Some f"
  by (auto simp: linked_def)

lemma layout_append:
  assumes "layout nx sz H p lo bs hi" and "distinct bs" and "x \<notin> set bs" and "0 < x" and "hi \<le> x"
    and "H x = Some h" and "nx h = 0" and "x + 24 + sz h \<le> hi'"
  shows "layout nx sz (linked sn H bs x) (if bs = [] then x else p) lo (bs @ [x]) hi'"
  using assms(1-3)
proof (induction bs arbitrary: p lo)
  case Nil
  then show ?case using assms(4-8) nx_sn sz_sn by (simp add: linked_def)
next
  case (Cons y bs)
  from Cons.prems(1) obtain f where f: "H y = Some f" "p = y" "0 < y" "lo \<le> y"
    "layout nx sz H (nx f) (y + 24 + sz f) bs hi" by - (erule layout_ConsE, simp)
  have y: "y \<notin> set bs" "x \<noteq> y" using Cons.prems by auto
  have IH: "layout nx sz (linked sn H bs x) (if bs = [] then x else nx f) (y + 24 + sz f) (bs @ [x]) hi'"
    using Cons.IH[OF f(5)] Cons.prems by simp
  show ?case
  proof (cases "bs = []")
    case True
    have "y + 24 + sz f \<le> x" using f(5) True assms(5) by simp
    then show ?thesis using f y True assms(4-8) nx_sn sz_sn by (simp add: linked_def)
  next
    case False
    then show ?thesis using linked_Cons[where H = H and bs = bs and x = x, OF y(1) f(1) False] IH f by simp
  qed
qed

lemma layout_distinct: "layout nx sz H p lo bs hi \<Longrightarrow> distinct bs"
proof (induction bs arbitrary: p lo)
  case (Cons y bs)
  from Cons.prems obtain f where f: "H y = Some f" "layout nx sz H (nx f) (y + 24 + sz f) bs hi" by - (erule layout_ConsE, simp)
  then show ?case using Cons.IH layout_above[OF f(2), of y] by auto
qed simp

end

end
