(* ===== verification/Alloc_Dude.thy ===== *)
theory Alloc_Dude
  imports Brk_Heap
begin

text \<open>
  The first-fit allocator of \<open>project/dude.c\<close>: a list of blocks in the order of their addresses, each a header
  of 24 bytes and its bytes; \<open>free\<close> marks a block, \<open>malloc\<close> takes the first free block that is large enough
  or asks \<open>sbrk\<close> for a new one.  The variable \<open>base\<close> is the field \<open>head\<close>.  Tracing output is left out.
\<close>

record dude_t =
  bsize :: nat
  in_use :: bool
  nxt :: nat

definition ALIGNMENT :: nat where "ALIGNMENT = 8"

definition ALIGN :: "nat \<Rightarrow> nat" where
  "ALIGN n = size_t (n + (ALIGNMENT - 1)) div ALIGNMENT * ALIGNMENT"

definition META_SIZE :: nat where "META_SIZE = ALIGN 24"

lemma META_SIZE_24 [simp]: "META_SIZE = 24"
  by (simp add: META_SIZE_def ALIGN_def ALIGNMENT_def size_t_def)

partial_function (option) find_block :: "nat \<Rightarrow> nat \<Rightarrow> nat \<Rightarrow> dude_t heap \<Rightarrow> (nat \<times> nat) option" where
  "find_block current lst sz s =
     (if current \<noteq> 0 then do {
        h \<leftarrow> get_hdr current s;
        if \<not> in_use h \<and> bsize h \<ge> sz then Some (current, lst) else find_block (nxt h) current sz s }
      else Some (current, lst))"

definition allocate_space :: "nat \<Rightarrow> nat \<Rightarrow> dude_t heap \<Rightarrow> (nat \<times> dude_t heap) option" where
  "allocate_space lst sz s =
     (let meta = brk s
      in case sbrk (ALIGN (size_t (sz + META_SIZE))) s of
           (None, s1) \<Rightarrow> Some (0, s1)
         | (Some data, s1) \<Rightarrow> do {
             s2 \<leftarrow> put_hdr 24 meta \<lparr>bsize = sz, in_use = True, nxt = 0\<rparr> s1;
             s3 \<leftarrow> (if lst \<noteq> 0 then upd_hdr lst (nxt_update (\<lambda>_. data)) s2 else Some s2);
             Some (meta, s3) })"

definition malloc :: "nat \<Rightarrow> dude_t heap \<Rightarrow> (nat \<times> dude_t heap) option" where
  "malloc sz s =
     (if sz \<le> 0 then Some (0, s)
      else do {
        (r, lst) \<leftarrow> find_block (head s) (head s) sz s;
        if r = 0 then do {
          (r', s1) \<leftarrow> allocate_space lst sz s;
          if r' = 0 then Some (0, s1)
          else Some (r' + 24, if head s1 = 0 then s1\<lparr>head := r'\<rparr> else s1) }
        else do {
          s1 \<leftarrow> upd_hdr r (in_use_update (\<lambda>_. True)) s;
          Some (r + 24, s1) } })"

text \<open>The assertion that the block is in use is a condition.\<close>

definition free :: "nat \<Rightarrow> dude_t heap \<Rightarrow> dude_t heap option" where
  "free ptr s =
     (if ptr = 0 then Some s
      else do {
        b \<leftarrow> get_hdr (ptr - 24) s;
        if in_use b then upd_hdr (ptr - 24) (in_use_update (\<lambda>_. False)) s else None })"

interpretation dude_list: block_list nxt "\<lambda>x. nxt_update (\<lambda>_. x)" bsize
  by unfold_locales simp_all

text \<open>The memory of the allocator between two calls: the data segment starts at \<open>b\<close> and may grow up to \<open>l\<close>.\<close>

definition heap_ok :: "nat \<Rightarrow> nat \<Rightarrow> dude_t heap \<Rightarrow> bool" where
  "heap_ok b l s \<longleftrightarrow> (\<exists>bs. layout nxt bsize (hdrs s) (head s) b bs (brk s) \<and> dom (hdrs s) = set bs) \<and> 1 \<le> b \<and>
     brk s \<le> l \<and> limit s = l \<and> l < 2 ^ 63"

definition live :: "dude_t heap \<Rightarrow> nat \<Rightarrow> nat option" where
  "live s p = (if p < 24 then None else
     case hdrs s (p - 24) of None \<Rightarrow> None | Some h \<Rightarrow> if in_use h then Some (bsize h) else None)"

section \<open>The search\<close>

definition fits :: "nat \<Rightarrow> dude_t \<Rightarrow> bool" where
  "fits sz h \<longleftrightarrow> \<not> in_use h \<and> sz \<le> bsize h"

text \<open>The first block that fits, or the last block.\<close>

fun first_fit :: "(nat \<Rightarrow> dude_t option) \<Rightarrow> nat \<Rightarrow> nat list \<Rightarrow> nat \<Rightarrow> nat \<times> nat" where
  "first_fit H sz [] l = (0, l)"
| "first_fit H sz (x # xs) l = (case H x of None \<Rightarrow> (0, l) | Some h \<Rightarrow> if fits sz h then (x, l) else first_fit H sz xs x)"

lemma find_block_first:
  "layout nxt bsize (hdrs s) p lo bs hi \<Longrightarrow> find_block p l sz s = Some (first_fit (hdrs s) sz bs l)"
proof (induction bs arbitrary: p lo l)
  case Nil
  then show ?case by (simp add: find_block.simps)
next
  case (Cons x bs)
  from Cons.prems(1) obtain h where "hdrs s x = Some h" "p = x" "0 < x" "layout nxt bsize (hdrs s) (nxt h) (x + 24 + bsize h) bs hi"
    by - (erule dude_list.layout_ConsE, simp)
  then show ?case using Cons.IH by (subst find_block.simps) (simp add: get_hdr_def fits_def)
qed

lemma first_fit_cases:
  "(\<exists>x h. fst (first_fit H sz bs l) = x \<and> x \<in> set bs \<and> H x = Some h \<and> fits sz h) \<or>
   ((\<forall>x \<in> set bs. H x \<noteq> None) \<longrightarrow> first_fit H sz bs l = (0, if bs = [] then l else last bs))"
  by (induction bs arbitrary: l) (fastforce split: option.splits)+

section \<open>The laws of an allocator\<close>

text \<open>What \<open>live\<close> shows of a header.\<close>

definition shown :: "dude_t \<Rightarrow> nat option" where
  "shown h = (if in_use h then Some (bsize h) else None)"

lemma live_shown: "live s p = (if p < 24 then None else Option.bind (hdrs s (p - 24)) shown)"
  by (simp add: live_def shown_def split: option.split)

lemma heap_okE:
  assumes "heap_ok b l s"
  obtains bs where "layout nxt bsize (hdrs s) (head s) b bs (brk s)" "dom (hdrs s) = set bs" "distinct bs" "1 \<le> brk s"
    "brk s \<le> limit s" "limit s = l" "l < 2 ^ 63" "1 \<le> b"
proof -
  from assms obtain bs where bs: "layout nxt bsize (hdrs s) (head s) b bs (brk s)" "dom (hdrs s) = set bs"
    "brk s \<le> limit s" "limit s = l" "l < 2 ^ 63" "1 \<le> b" unfolding heap_ok_def by blast
  then show ?thesis using that dude_list.layout_distinct[OF bs(1)] dude_list.layout_hi[OF bs(1)] by simp
qed

lemma heap_okI:
  "layout nxt bsize (hdrs s) (head s) b bs (brk s) \<Longrightarrow> dom (hdrs s) = set bs \<Longrightarrow> 1 \<le> b \<Longrightarrow> brk s \<le> limit s \<Longrightarrow> limit s = l \<Longrightarrow>
   l < 2 ^ 63 \<Longrightarrow> heap_ok b l s"
  unfolding heap_ok_def by blast

text \<open>How far the data segment can still grow, and the most by which an allocation of \<open>n\<close> bytes lets it grow.\<close>

definition room :: "dude_t heap \<Rightarrow> nat" where
  "room s = limit s - brk s"

definition cost :: "nat \<Rightarrow> nat" where
  "cost n = n + 31"

text \<open>A live block lies in the data segment.\<close>

lemma live_block:
  assumes "heap_ok b l s" and "live s p = Some m"
  shows "b + 24 \<le> p \<and> p + m \<le> l"
proof -
  from assms(1) obtain bs where bs: "layout nxt bsize (hdrs s) (head s) b bs (brk s)" "dom (hdrs s) = set bs" "brk s \<le> limit s" "limit s = l"
    by (rule heap_okE)
  from assms(2) obtain h where h: "24 \<le> p" "hdrs s (p - 24) = Some h" "bsize h = m"
    by (auto simp: live_shown shown_def bind_eq_Some_conv split: if_split_asm)
  then have x: "p - 24 \<in> set bs" using bs(2) by auto
  have "b \<le> p - 24" "p - 24 + 24 + m \<le> brk s" using dude_list.layout_above[OF bs(1) x] dude_list.layout_below[OF bs(1) x h(2)] h(3) by simp_all
  then show ?thesis using h(1) bs(3,4) by linarith
qed

lemma live_apart: "heap_ok b l s \<Longrightarrow> apart (live s)"
  unfolding apart_def
proof (intro allI impI)
  fix p n q m
  assume ok: "heap_ok b l s" and l: "live s p = Some n" "live s q = Some m" "p \<noteq> q"
  from ok obtain bs where bs: "layout nxt bsize (hdrs s) (head s) b bs (brk s)" "dom (hdrs s) = set bs" by (rule heap_okE)
  from l obtain h g where h: "24 \<le> p" "hdrs s (p - 24) = Some h" "bsize h = n"
    and g: "24 \<le> q" "hdrs s (q - 24) = Some g" "bsize g = m"
    by (auto simp: live_shown shown_def bind_eq_Some_conv split: if_split_asm)
  have "p - 24 \<in> set bs" "q - 24 \<in> set bs" "p - 24 \<noteq> q - 24" using h g l(3) bs(2) by auto
  from dude_list.layout_apart[OF bs(1) this h(2) g(2)] show "p + n \<le> q \<or> q + m \<le> p" using h g by linarith
qed

text \<open>Marking a block.\<close>

lemma mark_ok:
  assumes "heap_ok b l s" and "hdrs s x = Some h"
  shows "heap_ok b l (s\<lparr>hdrs := (hdrs s)(x \<mapsto> h\<lparr>in_use := u\<rparr>)\<rparr>)"
proof -
  from assms(1) obtain bs where bs: "layout nxt bsize (hdrs s) (head s) b bs (brk s)" "dom (hdrs s) = set bs" "brk s \<le> limit s"
    "limit s = l" "l < 2 ^ 63" "1 \<le> b" by (rule heap_okE)
  have "x \<in> set bs" using bs(2) assms(2) by blast
  then show ?thesis
    by (intro heap_okI[of _ _ bs]) (use dude_list.layout_mark[OF bs(1) assms(2)] bs assms(2) in \<open>simp_all add: insert_absorb\<close>)
qed

lemma live_mark:
  assumes "hdrs s x = Some h"
  shows "live (s\<lparr>hdrs := (hdrs s)(x \<mapsto> h\<lparr>in_use := u\<rparr>)\<rparr>) = (live s)(x + 24 := if u then Some (bsize h) else None)"
proof
  fix q
  show "live (s\<lparr>hdrs := (hdrs s)(x \<mapsto> h\<lparr>in_use := u\<rparr>)\<rparr>) q = ((live s)(x + 24 := if u then Some (bsize h) else None)) q"
    by (cases "q - 24 = x"; cases "q < 24") (auto simp: live_shown shown_def)
qed

lemma free_law:
  assumes "heap_ok b l s" and "live s p \<noteq> None"
  shows "\<exists>s'. free p s = Some s' \<and> heap_ok b l s' \<and> live s' = (live s)(p := None) \<and> room s' = room s"
proof -
  from assms(2) obtain h where h: "24 \<le> p" "hdrs s (p - 24) = Some h" "in_use h"
    by (auto simp: live_shown shown_def bind_eq_Some_conv split: if_split_asm)
  have "free p s = Some (s\<lparr>hdrs := (hdrs s)(p - 24 \<mapsto> h\<lparr>in_use := False\<rparr>)\<rparr>)"
    using h by (simp add: free_def get_hdr_def upd_hdr_def)
  then show ?thesis using mark_ok[OF assms(1) h(2)] live_mark[OF h(2), of False] h(1) by (simp add: room_def)
qed

text \<open>The state after \<open>allocate_space\<close> got memory.\<close>

lemma ALIGN_room: "n < 2 ^ 62 \<Longrightarrow> n + 24 \<le> ALIGN (size_t (n + META_SIZE))"
  by (simp add: ALIGN_def ALIGNMENT_def size_t_def)

lemma ALIGN_cost: "n < 2 ^ 62 \<Longrightarrow> ALIGN (size_t (n + META_SIZE)) \<le> cost n"
  by (simp add: ALIGN_def ALIGNMENT_def size_t_def cost_def)

lemma allocate_space_ok:
  assumes ok: "heap_ok b l s" and n: "0 < n" "n < 2 ^ 62"
    and bs: "layout nxt bsize (hdrs s) (head s) b bs (brk s)" "dom (hdrs s) = set bs"
    and room: "brk s + ALIGN (size_t (n + META_SIZE)) \<le> limit s"
  defines "H \<equiv> linked (\<lambda>x. nxt_update (\<lambda>_. x)) ((hdrs s)(brk s \<mapsto> \<lparr>bsize = n, in_use = True, nxt = 0\<rparr>)) bs (brk s)"
    and "e \<equiv> brk s + ALIGN (size_t (n + META_SIZE))"
  shows "allocate_space (if bs = [] then head s else last bs) n s = Some (brk s, s\<lparr>hdrs := H, brk := e\<rparr>)"
    and "layout nxt bsize H (if bs = [] then brk s else head s) b (bs @ [brk s]) e" and "dom H = set (bs @ [brk s])"
    and "brk s \<notin> set bs"
proof -
  let ?h = "\<lparr>bsize = n, in_use = True, nxt = 0\<rparr>"
  let ?H = "(hdrs s)(brk s \<mapsto> ?h)"
  have hi: "1 \<le> brk s" using dude_list.layout_hi[OF bs(1)] ok unfolding heap_ok_def by simp
  show fresh: "brk s \<notin> set bs" by (rule dude_list.layout_nodup[OF bs(1)])
  have b: "brk s + 24 + n \<le> e" using ALIGN_room[OF n(2)] unfolding e_def by simp
  have d: "distinct bs" by (rule dude_list.layout_distinct[OF bs(1)])
  have "\<forall>x \<in> set bs. ?H x = hdrs s x" using fresh by auto
  from dude_list.layout_frame[OF this] bs(1) have l: "layout nxt bsize ?H (head s) b bs (brk s)" by blast
  have w: "wipe 24 (brk s) 24 (hdrs s) = hdrs s" by (rule dude_list.layout_wipe_end[OF bs order_refl])
  from dude_list.layout_append[OF l d fresh, of ?h e]
  show "layout nxt bsize H (if bs = [] then brk s else head s) b (bs @ [brk s]) e"
    using hi n b unfolding H_def by simp
  have lst: "last bs \<in> set bs" if "bs \<noteq> []" using that by simp
  have "dom (linked (\<lambda>x. nxt_update (\<lambda>_. x)) ?H bs (brk s)) = dom ?H" using lst bs(2) unfolding linked_def by (auto split: if_split_asm)
  then show "dom H = set (bs @ [brk s])" using bs(2) unfolding H_def by simp
  have s0: "sbrk (ALIGN (size_t (n + META_SIZE))) s = (Some (brk s), s\<lparr>brk := e\<rparr>)" using room by (simp add: sbrk_def e_def)
  have s2: "put_hdr 24 (brk s) ?h (s\<lparr>brk := e\<rparr>) = Some (s\<lparr>brk := e, hdrs := ?H\<rparr>)" using b hi w by (simp add: put_hdr_def)
  show "allocate_space (if bs = [] then head s else last bs) n s = Some (brk s, s\<lparr>hdrs := H, brk := e\<rparr>)"
  proof (cases "bs = []")
    case True
    then have "head s = 0" using bs(1) by simp
    then show ?thesis using True by (simp del: META_SIZE_24 add: allocate_space_def s0 s2 H_def linked_def Let_def)
  next
    case False
    from dude_list.layout_hdr[OF bs(1) lst[OF False]] obtain g where g: "hdrs s (last bs) = Some g" by blast
    have "last bs \<noteq> 0" "last bs \<noteq> brk s" using dude_list.layout_above[OF bs(1) lst[OF False]] fresh lst[OF False] by auto
    then show ?thesis using False g
      by (simp del: META_SIZE_24 add: allocate_space_def s0 s2 H_def linked_def upd_hdr_def Let_def)
  qed
qed

lemma live_linked:
  assumes "hdrs s x = None"
  shows "live (s\<lparr>hdrs := linked (\<lambda>x. nxt_update (\<lambda>_. x)) ((hdrs s)(x \<mapsto> \<lparr>bsize = n, in_use = True, nxt = 0\<rparr>)) bs y, brk := b, head := c\<rparr>) =
    (live s)(x + 24 \<mapsto> n)"
proof
  fix q
  show "live (s\<lparr>hdrs := linked (\<lambda>x. nxt_update (\<lambda>_. x)) ((hdrs s)(x \<mapsto> \<lparr>bsize = n, in_use = True, nxt = 0\<rparr>)) bs y, brk := b, head := c\<rparr>) q =
    ((live s)(x + 24 \<mapsto> n)) q"
    by (cases "q - 24 = x"; cases "q < 24"; cases "hdrs s (q - 24)") (auto simp: live_shown shown_def linked_def)
qed

lemma malloc_none:
  assumes "0 < n" and "find_block (head s) (head s) n s = Some (0, l)" and "limit s < brk s + ALIGN (size_t (n + META_SIZE))"
  shows "malloc n s = Some (0, s)"
  using assms by (simp del: META_SIZE_24 add: malloc_def allocate_space_def sbrk_def)

lemma malloc_reuse:
  assumes ok: "heap_ok b l s" and n: "0 < n"
    and fb: "find_block (head s) (head s) n s = Some (x, k)" and h: "x \<noteq> 0" "hdrs s x = Some h" "fits n h"
  shows "\<exists>p s' m. malloc n s = Some (p, s') \<and> p \<noteq> 0 \<and> heap_ok b l s' \<and> live s p = None \<and> live s' = (live s)(p \<mapsto> m) \<and> n \<le> m \<and> room s \<le> room s' + cost n"
proof -
  let ?s = "s\<lparr>hdrs := (hdrs s)(x \<mapsto> h\<lparr>in_use := True\<rparr>)\<rparr>"
  have "malloc n s = Some (x + 24, ?s)" using n fb h by (simp add: malloc_def upd_hdr_def)
  moreover have "live s (x + 24) = None" using h by (simp add: live_shown shown_def fits_def)
  moreover have "n \<le> bsize h" using h by (simp add: fits_def)
  ultimately show ?thesis using mark_ok[OF ok h(2)] live_mark[OF h(2), of True] by (simp add: room_def, blast)
qed

lemma malloc_fresh:
  assumes ok: "heap_ok b l s" and n: "0 < n" "n < 2 ^ 62"
    and bs: "layout nxt bsize (hdrs s) (head s) b bs (brk s)" "dom (hdrs s) = set bs"
    and fb: "find_block (head s) (head s) n s = Some (0, if bs = [] then head s else last bs)"
    and room: "brk s + ALIGN (size_t (n + META_SIZE)) \<le> limit s"
  shows "\<exists>p s' m. malloc n s = Some (p, s') \<and> p \<noteq> 0 \<and> heap_ok b l s' \<and> live s p = None \<and> live s' = (live s)(p \<mapsto> m) \<and> n \<le> m \<and> room s \<le> room s' + cost n"
proof -
  let ?h = "\<lparr>bsize = n, in_use = True, nxt = 0\<rparr>"
  let ?H = "linked (\<lambda>x. nxt_update (\<lambda>_. x)) ((hdrs s)(brk s \<mapsto> ?h)) bs (brk s)" and ?b = "brk s + ALIGN (size_t (n + META_SIZE))"
  note a = allocate_space_ok[OF ok n bs room]
  let ?s = "s\<lparr>hdrs := ?H, brk := ?b, head := if bs = [] then brk s else head s\<rparr>"
  have hd: "head s = 0 \<longleftrightarrow> bs = []" using bs(1) dude_list.layout_nonempty[OF bs(1)] by (cases "bs = []") auto
  have lim: "limit s = l" "l < 2 ^ 63" "1 \<le> b" using ok by (simp_all add: heap_ok_def)
  have ne: "brk s \<noteq> 0" using dude_list.layout_hi[OF bs(1)] lim(3) by simp
  have m: "malloc n s = Some (brk s + 24, ?s)"
    using n(1) fb a(1) ne hd by (cases "bs = []") (simp_all add: malloc_def del: META_SIZE_24)
  have "heap_ok b l ?s"
    by (rule heap_okI[of _ _ "bs @ [brk s]"]) (use a(2,3) room lim in \<open>simp_all del: META_SIZE_24\<close>)
  moreover have none: "hdrs s (brk s) = None" using a(4) bs(2) by auto
  then have "live s (brk s + 24) = None" by (simp add: live_shown)
  moreover have l: "live ?s = (live s)(brk s + 24 \<mapsto> n)" by (rule live_linked[OF none])
  moreover have "room s \<le> room ?s + cost n" using ALIGN_cost[OF n(2)] room by (simp add: room_def del: META_SIZE_24)
  ultimately show ?thesis using m
    by (intro exI[of _ "brk s + 24"] exI[of _ ?s] exI[of _ n]) (simp del: META_SIZE_24)
qed

lemma malloc_law:
  assumes ok: "heap_ok b l s" and n: "0 < n" "n < 2 ^ 62"
  shows "(\<exists>s'. malloc n s = Some (0, s') \<and> heap_ok b l s' \<and> live s' = live s \<and> room s < cost n) \<or>
    (\<exists>p s' m. malloc n s = Some (p, s') \<and> p \<noteq> 0 \<and> heap_ok b l s' \<and> live s p = None \<and> live s' = (live s)(p \<mapsto> m) \<and> n \<le> m \<and> room s \<le> room s' + cost n)"
proof -
  from ok obtain bs where bs: "layout nxt bsize (hdrs s) (head s) b bs (brk s)" "dom (hdrs s) = set bs" by (rule heap_okE)
  let ?l = "if bs = [] then head s else last bs"
  note fb = find_block_first[OF bs(1), of "head s" n]
  have all: "\<forall>x \<in> set bs. hdrs s x \<noteq> None" using bs(2) by blast
  from first_fit_cases[of "hdrs s" n bs "head s"] all consider
    (found) x l h where "first_fit (hdrs s) n bs (head s) = (x, l)" "x \<in> set bs" "hdrs s x = Some h" "fits n h"
    | (none) "first_fit (hdrs s) n bs (head s) = (0, ?l)" by (metis prod.collapse)
  then show ?thesis
  proof cases
    case found
    have "x \<noteq> 0" using dude_list.layout_above[OF bs(1) found(2)] by simp
    with malloc_reuse[OF ok n(1) fb[unfolded found(1)] this found(3,4)] show ?thesis by blast
  next
    case none
    note fb = fb[unfolded none]
    show ?thesis
    proof (cases "brk s + ALIGN (size_t (n + META_SIZE)) \<le> limit s")
      case True
      from malloc_fresh[OF ok n bs fb True] show ?thesis by blast
    next
      case False
      then have "room s < cost n" using ALIGN_cost[OF n(2)] unfolding room_def cost_def by linarith
      then show ?thesis using malloc_none[OF n(1) fb] False ok by (simp del: META_SIZE_24)
    qed
  qed
qed

interpretation dude: allocator malloc free "heap_ok b l" live "2 ^ 62" room cost for b l
proof unfold_locales
  fix s :: "dude_t heap" and n p
  show "heap_ok b l s \<Longrightarrow> apart (live s)" by (rule live_apart)
  show "heap_ok b l s \<Longrightarrow> live s p \<noteq> None \<Longrightarrow>
    \<exists>s'. free p s = Some s' \<and> heap_ok b l s' \<and> live s' = (live s)(p := None) \<and> room s' = room s" by (rule free_law)
qed (rule malloc_law)

section \<open>Programs that allocate and free\<close>

text \<open>A program that uses the allocator and remembers for every pointer it holds how many bytes it asked for.\<close>

fun run_calls :: "(nat + nat) list \<Rightarrow> (nat \<times> nat) list \<Rightarrow> dude_t heap \<Rightarrow> ((nat \<times> nat) list \<times> dude_t heap) option" where
  "run_calls [] held s = Some (held, s)"
| "run_calls (Inl n # ops) held s = do { (p, s') \<leftarrow> malloc n s; run_calls ops (if p = 0 then held else (p, n) # held) s' }"
| "run_calls (Inr i # ops) held s = (if i < length held
     then do { s' \<leftarrow> free (fst (held ! i)) s; run_calls ops (without i held) s' }
     else run_calls ops held s)"

definition fresh_heap :: "nat \<Rightarrow> nat \<Rightarrow> dude_t heap" where
  "fresh_heap b l = \<lparr>hdrs = Map.empty, bytes = (\<lambda>_. 0), brk = b, limit = l, head = 0\<rparr>"

lemma fresh_heap_ok: "1 \<le> b \<Longrightarrow> b \<le> l \<Longrightarrow> l < 2 ^ 63 \<Longrightarrow> heap_ok b l (fresh_heap b l)"
  by (rule heap_okI[of _ _ "[]"]) (simp_all add: fresh_heap_def)

lemma run_calls_use: "run_calls ops held s = dude.use ops held s"
proof (induction ops arbitrary: held s)
  case (Cons op ops)
  have "run_calls ops = dude.use ops" using Cons.IH by (intro ext)
  then show ?case by (cases op) simp_all
qed simp

text \<open>C11: Starting from an empty data segment at \<open>b\<close> that may grow to \<open>l\<close>, every program of allocations below \<open>2^62\<close>
  bytes and frees of blocks it holds runs without undefined behaviour, whatever requests \<open>sbrk\<close> refuses.  The pointers it
  holds in the end are distinct and are exactly the live blocks; each block has at least the number of bytes that were
  asked for, lies in the data segment, and overlaps no other.  When the data segment has room for all requests with 31
  bytes more for each, none is refused: the program holds blocks of just the sizes it asked for and has not freed.\<close>

theorem malloc_free_programs:
  assumes "1 \<le> b" and "b \<le> l" and "l < 2 ^ 63" and "\<forall>n \<in> set (requests ops). 0 < n \<and> n < 2 ^ 62"
  shows "\<exists>held s. run_calls ops [] (fresh_heap b l) = Some (held, s) \<and> distinct (map fst held) \<and> fst ` set held = dom (live s) \<and>
    (\<forall>(p, n) \<in> set held. \<exists>m \<ge> n. live s p = Some m \<and> b \<le> p \<and> p + m \<le> l) \<and> apart (live s) \<and>
    (b + sum_list (map (\<lambda>n. n + 31) (requests ops)) \<le> l \<longrightarrow> map snd held = wanted ops [])"
proof -
  have "live (fresh_heap b l) = Map.empty" by (rule ext) (simp add: live_shown fresh_heap_def)
  then have "holding [] (live (fresh_heap b l))" by (simp add: holding_def)
  from dude.use_ok[OF fresh_heap_ok[OF assms(1-3)] this assms(4)] obtain held s where
    r: "run_calls ops [] (fresh_heap b l) = Some (held, s)" "heap_ok b l s" "holding held (live s)"
    "sum_list (map cost (requests ops)) \<le> room (fresh_heap b l) \<longrightarrow> map snd held = wanted ops []" by (auto simp: run_calls_use)
  have "\<forall>(p, n) \<in> set held. \<exists>m \<ge> n. live s p = Some m \<and> b \<le> p \<and> p + m \<le> l"
    using r(3) live_block[OF r(2)] unfolding holding_def by fastforce
  moreover have "map cost = map (\<lambda>n. n + 31)" "room (fresh_heap b l) = l - b" by (simp_all add: cost_def[abs_def] room_def fresh_heap_def)
  ultimately show ?thesis using r(1,3,4) live_apart[OF r(2)] assms(2) by (auto simp: holding_def)
qed

text \<open>A small block is not used for a larger request: 20 bytes do not fit into the 10 that were freed, 5 bytes do.\<close>

theorem malloc_free_programs_witness:
  "\<exists>p q s. run_calls [Inl 10, Inr 0, Inl 20, Inl 5] [] (fresh_heap 4096 65536) = Some ([(p, 5), (q, 20)], s) \<and> p \<noteq> q \<and>
    (\<exists>m \<ge> 20. live s q = Some m \<and> 4096 \<le> q \<and> q + m \<le> 65536)"
proof -
  have "\<forall>n \<in> set (requests [Inl 10, Inr 0, Inl 20, Inl 5]). 0 < n \<and> n < 2 ^ 62" by simp
  from malloc_free_programs[OF _ _ _ this, of 4096 65536] obtain held s where
    r: "run_calls [Inl 10, Inr 0, Inl 20, Inl 5] [] (fresh_heap 4096 65536) = Some (held, s)" "distinct (map fst held)"
    "\<forall>(p, n) \<in> set held. \<exists>m \<ge> n. live s p = Some m \<and> 4096 \<le> p \<and> p + m \<le> 65536" "map snd held = [5, 20]"
    by (auto simp: without_def)
  then obtain p q where "held = [(p, 5), (q, 20)]" by (cases held; cases "tl held") auto
  then show ?thesis using r by auto
qed

end
