(* ===== verification/Alloc_Memory.thy ===== *)
theory Alloc_Memory
  imports Brk_Heap
begin

text \<open>
  The allocator of \<open>project/memory.c\<close>: a doubly linked list of blocks that only grows; \<open>malloc\<close> always asks
  \<open>sbrk\<close> for a new block and \<open>free\<close> does nothing.  \<open>print_list\<close> and the other output are left out.
\<close>

record list_t =
  nxt :: nat
  prv :: nat
  lsize :: nat

text \<open>The loop of \<open>first_free_block\<close> goes to the last block.\<close>

partial_function (option) first_free_block :: "nat \<Rightarrow> list_t heap \<Rightarrow> nat option" where
  "first_free_block p s =
     (if p \<noteq> 0 then do {
        h \<leftarrow> get_hdr p s;
        if nxt h \<noteq> 0 then first_free_block (nxt h) s else Some p }
      else Some p)"

text \<open>A failing \<open>sbrk\<close> returns -1, which is not \<open>NULL\<close>: the block is then written past the break.\<close>

definition create_block :: "nat \<Rightarrow> list_t heap \<Rightarrow> (nat \<times> list_t heap) option" where
  "create_block sz s =
     (let new_block = brk s; (req, s1) = sbrk_ptr (size_t (sz + 24)) s
      in if req = 0 then Some (0, s1)
         else do { s2 \<leftarrow> put_hdr 24 new_block \<lparr>nxt = 0, prv = 0, lsize = sz\<rparr> s1; Some (new_block, s2) })"

definition free :: "nat \<Rightarrow> list_t heap \<Rightarrow> list_t heap option" where
  "free node s = (if node = 0 then Some s else Some s)"

definition malloc :: "nat \<Rightarrow> list_t heap \<Rightarrow> (nat \<times> list_t heap) option" where
  "malloc sz s = do {
     (p, s1) \<leftarrow> create_block sz s;
     if head s1 = 0 then Some (p + 24, s1\<lparr>head := p\<rparr>)
     else do {
       current \<leftarrow> first_free_block (head s1) s1;
       s2 \<leftarrow> upd_hdr p (prv_update (\<lambda>_. current)) s1;
       s3 \<leftarrow> upd_hdr current (nxt_update (\<lambda>_. p)) s2;
       Some (p + 24, s3) } }"

definition calloc :: "nat \<Rightarrow> nat \<Rightarrow> list_t heap \<Rightarrow> (nat \<times> list_t heap) option" where
  "calloc nitems sz s = do {
     (p, s1) \<leftarrow> malloc (size_t (sz * nitems)) s;
     if p \<noteq> 0 then do { s2 \<leftarrow> memset 24 p 0 (size_t (nitems * sz)) s1; Some (p, s2) }
     else Some (p, s1) }"

definition realloc :: "nat \<Rightarrow> nat \<Rightarrow> list_t heap \<Rightarrow> (nat \<times> list_t heap) option" where
  "realloc node sz s = do {
     (p, s1) \<leftarrow> malloc sz s;
     if p \<noteq> 0 then do { s2 \<leftarrow> memmove 24 p node sz s1; s3 \<leftarrow> free node s2; Some (p, s3) }
     else Some (p, s1) }"

section \<open>The list of blocks\<close>

interpretation mem_list: block_list nxt "\<lambda>x. nxt_update (\<lambda>_. x)" lsize
  by unfold_locales simp_all

text \<open>The back links.\<close>

fun prevs :: "(nat \<Rightarrow> list_t option) \<Rightarrow> nat \<Rightarrow> nat list \<Rightarrow> bool" where
  "prevs H q [] \<longleftrightarrow> True"
| "prevs H q (x # xs) \<longleftrightarrow> (case H x of None \<Rightarrow> False | Some h \<Rightarrow> prv h = q) \<and> prevs H x xs"

definition blocks_ok :: "list_t heap \<Rightarrow> nat list \<Rightarrow> bool" where
  "blocks_ok s bs \<longleftrightarrow> layout nxt lsize (hdrs s) (head s) 1 bs (brk s) \<and> dom (hdrs s) = set bs \<and> prevs (hdrs s) 0 bs"

definition heap_ok :: "list_t heap \<Rightarrow> bool" where
  "heap_ok s \<longleftrightarrow> (\<exists>bs. blocks_ok s bs)"

text \<open>The blocks handed out, with their sizes.\<close>

definition blocks :: "list_t heap \<Rightarrow> nat \<Rightarrow> nat option" where
  "blocks s p = (if p < 24 then None else map_option lsize (hdrs s (p - 24)))"

lemma prevs_append: "prevs H q (bs @ [x]) \<longleftrightarrow> prevs H q bs \<and> (case H x of None \<Rightarrow> False | Some h \<Rightarrow> prv h = (if bs = [] then q else last bs))"
  by (induction bs arbitrary: q) (auto split: option.split)

lemma prevs_frame:
  "\<forall>x \<in> set bs. map_option prv (H' x) = map_option prv (H x) \<Longrightarrow> prevs H' q bs = prevs H q bs"
proof (induction bs arbitrary: q)
  case (Cons x bs)
  then have "map_option prv (H' x) = map_option prv (H x)" by simp
  then have "(case H' x of None \<Rightarrow> False | Some h \<Rightarrow> prv h = q) = (case H x of None \<Rightarrow> False | Some h \<Rightarrow> prv h = q)"
    by (cases "H x"; cases "H' x") auto
  then show ?case using Cons by simp
qed simp

lemma first_free_block_last:
  "layout nxt lsize (hdrs s) p lo bs hi \<Longrightarrow> bs \<noteq> [] \<Longrightarrow> first_free_block p s = Some (last bs)"
proof (induction bs arbitrary: p lo)
  case (Cons x bs)
  from Cons.prems(1) obtain h where h: "hdrs s x = Some h" "p = x" "0 < x" "layout nxt lsize (hdrs s) (nxt h) (x + 24 + lsize h) bs hi"
    by - (erule mem_list.layout_ConsE, simp)
  show ?case
  proof (cases "bs = []")
    case True
    then show ?thesis using h by (subst first_free_block.simps) (simp add: get_hdr_def)
  next
    case False
    then have "nxt h \<noteq> 0" using mem_list.layout_nonempty[OF h(4)] by simp
    then show ?thesis using h False Cons.IH[OF h(4)] by (subst first_free_block.simps) (simp add: get_hdr_def)
  qed
qed simp

lemma create_block_ok:
  assumes bs: "blocks_ok s bs" and n: "n < 2 ^ 62" and room: "brk s + (n + 24) \<le> limit s"
  shows "create_block n s = Some (brk s, s\<lparr>hdrs := (hdrs s)(brk s \<mapsto> \<lparr>nxt = 0, prv = 0, lsize = n\<rparr>), brk := brk s + (n + 24)\<rparr>)"
proof -
  have l: "layout nxt lsize (hdrs s) (head s) 1 bs (brk s)" "dom (hdrs s) = set bs" using bs by (simp_all add: blocks_ok_def)
  have "1 \<le> brk s" by (rule mem_list.layout_hi[OF l(1)])
  moreover have "wipe 24 (brk s) 24 (hdrs s) = hdrs s" by (rule mem_list.layout_wipe_end[OF l order_refl])
  ultimately show ?thesis using n room by (simp add: create_block_def sbrk_ptr_def sbrk_def put_hdr_def Let_def)
qed

text \<open>\<open>malloc\<close> appends a block.\<close>

lemma malloc_appends:
  assumes bs: "blocks_ok s bs" and n: "n < 2 ^ 62" and room: "brk s + (n + 24) \<le> limit s"
  defines "g \<equiv> \<lparr>nxt = 0, prv = if bs = [] then 0 else last bs, lsize = n\<rparr>"
  defines "s' \<equiv> s\<lparr>hdrs := linked (\<lambda>x. nxt_update (\<lambda>_. x)) ((hdrs s)(brk s \<mapsto> g)) bs (brk s), brk := brk s + (n + 24),
    head := if bs = [] then brk s else head s\<rparr>"
  shows "malloc n s = Some (brk s + 24, s')" and "blocks_ok s' (bs @ [brk s])"
    and "blocks s' = (blocks s)(brk s + 24 \<mapsto> n)" and "blocks s (brk s + 24) = None"
proof -
  have l: "layout nxt lsize (hdrs s) (head s) 1 bs (brk s)" "dom (hdrs s) = set bs" "prevs (hdrs s) 0 bs"
    using bs by (simp_all add: blocks_ok_def)
  have pos: "0 < brk s" using mem_list.layout_hi[OF l(1)] by simp
  have fresh: "brk s \<notin> set bs" by (rule mem_list.layout_nodup[OF l(1)])
  have none: "hdrs s (brk s) = None" using fresh l(2) by auto
  note c = create_block_ok[OF bs n room]
  show "malloc n s = Some (brk s + 24, s')"
  proof (cases "bs = []")
    case True
    then have "head s = 0" using l(1) by simp
    then show ?thesis using True by (simp add: malloc_def c s'_def g_def linked_def)
  next
    case False
    have h: "head s \<noteq> 0" using mem_list.layout_nonempty[OF l(1) False] by simp
    let ?s1 = "s\<lparr>hdrs := (hdrs s)(brk s \<mapsto> \<lparr>nxt = 0, prv = 0, lsize = n\<rparr>), brk := brk s + (n + 24)\<rparr>"
    have "layout nxt lsize (hdrs ?s1) (head s) 1 bs (brk s)"
      using mem_list.layout_frame[of bs "hdrs ?s1" "hdrs s"] l(1) fresh by auto
    from first_free_block_last[OF this False] have f: "first_free_block (head s) ?s1 = Some (last bs)" .
    have lb: "last bs \<in> set bs" using False by simp
    then obtain e where e: "hdrs s (last bs) = Some e" using mem_list.layout_hdr[OF l(1)] by blast
    have "last bs \<noteq> brk s" using lb fresh by auto
    then show ?thesis using False h f e by (simp add: malloc_def c s'_def g_def linked_def upd_hdr_def)
  qed
  have fr: "\<forall>x \<in> set bs. ((hdrs s)(brk s \<mapsto> g)) x = hdrs s x" using fresh by auto
  have l': "layout nxt lsize ((hdrs s)(brk s \<mapsto> g)) (head s) 1 bs (brk s)" using mem_list.layout_frame[OF fr] l(1) by blast
  from mem_list.layout_append[OF l' mem_list.layout_distinct[OF l(1)] fresh pos order_refl, of g "brk s + (n + 24)"]
  have "layout nxt lsize (hdrs s') (head s') 1 (bs @ [brk s]) (brk s')" unfolding s'_def by (simp add: g_def)
  moreover have lst: "bs \<noteq> [] \<Longrightarrow> last bs \<in> set bs" by simp
  then have "dom (hdrs s') = set (bs @ [brk s])" using l(2) unfolding s'_def linked_def by (auto split: if_split_asm)
  moreover have "prevs (hdrs s') 0 bs = prevs (hdrs s) 0 bs"
    by (rule prevs_frame) (use fresh lst in \<open>auto simp: s'_def linked_def option.map_comp o_def\<close>)
  then have "prevs (hdrs s') 0 (bs @ [brk s])" using l(3) fresh lst
    by (auto simp: prevs_append s'_def linked_def g_def)
  ultimately show "blocks_ok s' (bs @ [brk s])" by (simp add: blocks_ok_def)
  show "blocks s (brk s + 24) = None" using none by (simp add: blocks_def)
  show "blocks s' = (blocks s)(brk s + 24 \<mapsto> n)"
  proof
    fix q
    show "blocks s' q = ((blocks s)(brk s + 24 \<mapsto> n)) q"
      by (cases "q - 24 = brk s"; cases "q < 24"; cases "hdrs s (q - 24)") (use none in \<open>auto simp: blocks_def s'_def linked_def g_def\<close>)
  qed
qed

lemma blocks_apart:
  assumes "blocks_ok s bs"
  shows "apart (blocks s)"
  unfolding apart_def
proof (intro allI impI)
  fix p n q m
  assume b: "blocks s p = Some n" "blocks s q = Some m" "p \<noteq> q"
  have l: "layout nxt lsize (hdrs s) (head s) 1 bs (brk s)" "dom (hdrs s) = set bs" using assms by (simp_all add: blocks_ok_def)
  from b obtain h g where h: "24 \<le> p" "hdrs s (p - 24) = Some h" "lsize h = n" and g: "24 \<le> q" "hdrs s (q - 24) = Some g" "lsize g = m"
    by (auto simp: blocks_def split: if_split_asm)
  have "p - 24 \<in> set bs" "q - 24 \<in> set bs" "p - 24 \<noteq> q - 24" using h g b(3) l(2) by auto
  from mem_list.layout_apart[OF l(1) this h(2) g(2)] show "p + n \<le> q \<or> q + m \<le> p" using h g by linarith
qed

lemma block_in_segment:
  assumes "blocks_ok s bs" and "blocks s q = Some m"
  shows "24 < q" and "q + m \<le> brk s" and "n \<le> m \<Longrightarrow> wipe 24 q n (hdrs s) = hdrs s"
proof -
  have l: "layout nxt lsize (hdrs s) (head s) 1 bs (brk s)" "dom (hdrs s) = set bs" using assms(1) by (simp_all add: blocks_ok_def)
  obtain h where h: "24 \<le> q" "hdrs s (q - 24) = Some h" "lsize h = m" using assms(2) by (auto simp: blocks_def split: if_split_asm)
  have x: "q - 24 \<in> set bs" using l(2) h(2) by auto
  show "24 < q" using mem_list.layout_above[OF l(1) x] h(1) by simp
  show "q + m \<le> brk s" using mem_list.layout_below[OF l(1) x h(2)] h by simp
  show "wipe 24 q n (hdrs s) = hdrs s" if "n \<le> m"
    using mem_list.layout_wipe_block[OF l x h(2), of n] h that by simp
qed

lemma blocks_ok_bytes [simp]: "blocks_ok (s\<lparr>bytes := f\<rparr>) bs = blocks_ok s bs"
  by (simp add: blocks_ok_def)

lemma blocks_bytes [simp]: "blocks (s\<lparr>bytes := f\<rparr>) = blocks s"
  by (rule ext) (simp add: blocks_def)

text \<open>What a new block is: as in \<open>malloc_appends\<close>, with the bytes of the old blocks untouched.\<close>

lemma malloc_block:
  assumes "heap_ok s" and "n < 2 ^ 62" and "brk s + (n + 24) \<le> limit s"
  obtains bs p s' where "malloc n s = Some (p, s')" "blocks_ok s' bs" "blocks s' = (blocks s)(p \<mapsto> n)" "blocks s p = None"
    "bytes s' = bytes s" "p \<noteq> 0"
proof -
  from assms(1) obtain bs where bs: "blocks_ok s bs" by (auto simp: heap_ok_def)
  show thesis by (rule that[OF malloc_appends[OF bs assms(2,3)]]) simp_all
qed

section \<open>Zeroing and copying\<close>

text \<open>C27: As long as the break can be moved, \<open>calloc\<close> returns a new block of \<open>k * n\<close> zero bytes that overlaps no other block;
  all other blocks keep their bytes and the list of blocks its links.\<close>

theorem calloc_zeroed:
  assumes "heap_ok s" and "k * n < 2 ^ 62" and "brk s + (k * n + 24) \<le> limit s"
  shows "\<exists>p s'. calloc k n s = Some (p, s') \<and> heap_ok s' \<and> apart (blocks s') \<and> blocks s p = None \<and>
    blocks s' = (blocks s)(p \<mapsto> k * n) \<and> (\<forall>i < k * n. bytes s' (p + i) = 0) \<and>
    (\<forall>q m i. blocks s q = Some m \<longrightarrow> i < m \<longrightarrow> bytes s' (q + i) = bytes s (q + i))"
proof -
  from malloc_block[OF assms] obtain bs p s1 where m: "malloc (k * n) s = Some (p, s1)" "blocks_ok s1 bs"
    "blocks s1 = (blocks s)(p \<mapsto> k * n)" "blocks s p = None" "bytes s1 = bytes s" "p \<noteq> 0" .
  have b: "blocks s1 p = Some (k * n)" using m(3) by simp
  let ?s = "if k * n = 0 then s1 else s1\<lparr>bytes := (\<lambda>a. if p \<le> a \<and> a < p + k * n then 0 else bytes s1 a)\<rparr>"
  note seg = block_in_segment[OF m(2) b]
  have sz: "size_t (n * k) = k * n" "size_t (k * n) = k * n" using assms(2) by (simp_all add: mult.commute)
  have "memset 24 p 0 (k * n) s1 = Some ?s" using seg(2) seg(3)[OF order_refl] m(6) by (simp add: memset_def)
  then have c: "calloc k n s = Some (p, ?s)" using m(1,6) by (simp add: calloc_def sz)
  have ap: "apart (blocks s1)" by (rule blocks_apart[OF m(2)])
  have bl: "blocks ?s = blocks s1" by simp
  have ok: "heap_ok ?s" unfolding heap_ok_def using m(2) by (intro exI[of _ bs]) simp
  have old: "bytes ?s (q + i) = bytes s (q + i)" if "blocks s q = Some l" "i < l" for q l i
  proof -
    have "blocks s1 q = Some l" "q \<noteq> p" using that m(3,4) by auto
    then have "q + l \<le> p \<or> p + k * n \<le> q" using ap b unfolding apart_def by blast
    then show ?thesis using that(2) m(5) by auto
  qed
  show ?thesis
    by (rule exI[of _ p], rule exI[of _ ?s]) (use c ok ap m old bl in simp)
qed

theorem calloc_zeroed_witness:
  defines "s \<equiv> \<lparr>hdrs = Map.empty, bytes = (\<lambda>_. 7), brk = 4096, limit = 65536, head = 0\<rparr>"
  shows "\<exists>p s'. calloc 3 4 s = Some (p, s') \<and> (\<forall>i < 12. bytes s' (p + i) = 0)"
proof -
  have "heap_ok s" unfolding heap_ok_def blocks_ok_def s_def by (rule exI[of _ "[]"]) simp
  from calloc_zeroed[OF this, of 3 4] show ?thesis by (auto simp: s_def)
qed

text \<open>\<open>realloc\<close> to at most the size of a block copies its first bytes into a new block that overlaps no other; the old
  block stays allocated and unchanged, since \<open>free\<close> does nothing.\<close>

theorem realloc_copies:
  assumes "heap_ok s" and "blocks s q = Some m" and "n \<le> m" and "n < 2 ^ 62" and "brk s + (n + 24) \<le> limit s"
  shows "\<exists>p s'. realloc q n s = Some (p, s') \<and> heap_ok s' \<and> apart (blocks s') \<and> blocks s p = None \<and>
    blocks s' = (blocks s)(p \<mapsto> n) \<and> (\<forall>i < n. bytes s' (p + i) = bytes s (q + i)) \<and>
    (\<forall>i < m. bytes s' (q + i) = bytes s (q + i))"
proof -
  from malloc_block[OF assms(1,4,5)] obtain bs p s1 where ml: "malloc n s = Some (p, s1)" "blocks_ok s1 bs"
    "blocks s1 = (blocks s)(p \<mapsto> n)" "blocks s p = None" "bytes s1 = bytes s" "p \<noteq> 0" .
  have b: "blocks s1 p = Some n" "blocks s1 q = Some m" "q \<noteq> p" using ml(3,4) assms(2) by auto
  let ?s = "if n = 0 then s1 else s1\<lparr>bytes := (\<lambda>a. if p \<le> a \<and> a < p + n then bytes s1 (q + (a - p)) else bytes s1 a)\<rparr>"
  note seg = block_in_segment[OF ml(2) b(1)] block_in_segment[OF ml(2) b(2)]
  have "memmove 24 p q n s1 = Some ?s" using seg(2,4,5) seg(3)[OF order_refl] ml(6) assms(3) by (simp add: memmove_def)
  then have c: "realloc q n s = Some (p, ?s)" using ml(1,6) by (simp add: realloc_def free_def)
  obtain t where t: "t = ?s" by blast
  have ap: "apart (blocks s1)" by (rule blocks_apart[OF ml(2)])
  have bl: "blocks t = blocks s1" unfolding t by simp
  have ok: "heap_ok t" unfolding heap_ok_def t using ml(2) by (intro exI[of _ bs]) simp
  have "q + m \<le> p \<or> p + n \<le> q" using ap b unfolding apart_def by blast
  then have old: "\<forall>i < m. bytes t (q + i) = bytes s (q + i)" unfolding t using ml(5) by auto
  have new: "\<forall>i < n. bytes t (p + i) = bytes s (q + i)" unfolding t using ml(5) by simp
  show ?thesis
    by (rule exI[of _ p], rule exI[of _ t]) (use c[folded t] ok ap ml(3,4) bl old new in simp)
qed

theorem realloc_copies_witness:
  defines "s \<equiv> \<lparr>hdrs = [4096 \<mapsto> \<lparr>nxt = 0, prv = 0, lsize = 10\<rparr>], bytes = (\<lambda>a. of_nat a), brk = 4130, limit = 65536, head = 4096\<rparr>"
  shows "\<exists>p s'. realloc 4120 5 s = Some (p, s') \<and> (\<forall>i < 5. bytes s' (p + i) = of_nat (4120 + i))"
proof -
  have ok: "heap_ok s" unfolding heap_ok_def blocks_ok_def s_def by (rule exI[of _ "[4096]"]) simp
  have "blocks s 4120 = Some 10" by (simp add: s_def blocks_def)
  from realloc_copies[OF ok this, of 5] show ?thesis by (auto simp: s_def)
qed

text \<open>When \<open>sbrk\<close> cannot give the memory, \<open>malloc\<close> writes past the break instead of returning \<open>NULL\<close>; and
  \<open>realloc\<close> of \<open>NULL\<close>, which C makes an allocation, copies from address 0.\<close>

theorem no_memory_is_undefined:
  assumes "0 < n" and "n < 2 ^ 62" and "brk s \<le> limit s"
  shows "realloc 0 n s = None \<and> (limit s < brk s + (n + 24) \<longrightarrow> malloc n s = None)"
proof -
  have "memmove 24 p 0 n t = None" for p and t :: "list_t heap" using assms(1) by (simp add: memmove_def)
  moreover have "p \<noteq> 0" if "malloc n s = Some (p, s1)" for p s1
    using that by (auto simp: malloc_def bind_eq_Some_conv split: if_split_asm)
  ultimately have "realloc 0 n s = None" by (cases "malloc n s") (auto simp: realloc_def)
  moreover have "malloc n s = None" if "limit s < brk s + (n + 24)"
    using that assms by (simp add: malloc_def create_block_def sbrk_ptr_def sbrk_def put_hdr_def Let_def)
  ultimately show ?thesis by blast
qed

theorem no_memory_is_undefined_witness:
  defines "s \<equiv> \<lparr>hdrs = Map.empty, bytes = (\<lambda>_. 7), brk = 4096, limit = 4100, head = 0\<rparr>"
  shows "realloc 0 10 s = None \<and> malloc 10 s = None"
  using no_memory_is_undefined[of 10 s] by (simp add: s_def)

end
