(* ===== verification/Alloc_Luke.thy ===== *)
theory Alloc_Luke
  imports Brk_Heap
begin

text \<open>
  The allocator of \<open>project/mem_luke.c\<close>: a list of blocks, each marked vacant or not.  \<open>malloc\<close> takes the first
  vacant block without looking at its size, \<open>free\<close> merges neighbouring vacant blocks.  The headers of merged
  blocks stay in memory as bytes nobody uses.  Output and the test program \<open>main\<close> are left out.
\<close>

record list_t =
  nxt :: nat
  lsize :: nat
  vacant :: bool

text \<open>The loop of \<open>merge_list\<close>.\<close>

partial_function (option) merge_loop :: "nat \<Rightarrow> list_t heap \<Rightarrow> list_t heap option" where
  "merge_loop p s = do {
     h \<leftarrow> get_hdr p s;
     if nxt h = 0 then Some s
     else do {
       w \<leftarrow> (if vacant h then map_option vacant (get_hdr (nxt h) s) else Some False);
       if w then do {
         g \<leftarrow> get_hdr (nxt h) s;
         s1 \<leftarrow> upd_hdr p (\<lambda>h. h\<lparr>lsize := size_t (lsize h + (lsize g + 24)), nxt := nxt g\<rparr>) s;
         merge_loop p s1 }
       else merge_loop (nxt h) s } }"

definition merge_list :: "list_t heap \<Rightarrow> list_t heap option" where
  "merge_list s = (if head s = 0 then Some s else merge_loop (head s) s)"

partial_function (option) first_free_block :: "nat \<Rightarrow> nat \<Rightarrow> list_t heap \<Rightarrow> (nat \<times> nat) option" where
  "first_free_block p lst s =
     (if p \<noteq> 0 then do {
        h \<leftarrow> get_hdr p s;
        if \<not> vacant h then first_free_block (nxt h) p s else Some (p, lst) }
      else Some (p, lst))"

definition create_block :: "nat \<Rightarrow> nat \<Rightarrow> list_t heap \<Rightarrow> (nat \<times> list_t heap) option" where
  "create_block tail sz s =
     (let new_block = brk s; (req, s1) = sbrk_ptr (size_t (sz + 24)) s
      in if req = 0 then Some (0, s1)
         else do {
           s2 \<leftarrow> (if tail \<noteq> 0 then upd_hdr tail (nxt_update (\<lambda>_. new_block)) s1 else Some s1);
           s3 \<leftarrow> put_hdr 24 new_block \<lparr>nxt = 0, lsize = sz, vacant = False\<rparr> s2;
           Some (new_block, s3) })"

definition free :: "nat \<Rightarrow> list_t heap \<Rightarrow> list_t heap option" where
  "free node s = (if node = 0 then Some s
     else do { s1 \<leftarrow> upd_hdr (node - 24) (vacant_update (\<lambda>_. True)) s; merge_list s1 })"

definition malloc :: "nat \<Rightarrow> list_t heap \<Rightarrow> (nat \<times> list_t heap) option" where
  "malloc sz s =
     (if head s = 0 then do {
        (p, s1) \<leftarrow> create_block 0 sz s;
        if p = 0 then Some (0, s1) else Some (p + 24, s1\<lparr>head := p\<rparr>) }
      else do {
        (p, tail) \<leftarrow> first_free_block (head s) (head s) s;
        if p = 0 then do {
          (p, s1) \<leftarrow> create_block tail sz s;
          if p = 0 then Some (0, s1) else Some (p + 24, s1) }
        else do { s1 \<leftarrow> upd_hdr p (vacant_update (\<lambda>_. False)) s; Some (p + 24, s1) } })"

definition calloc :: "nat \<Rightarrow> list_t heap \<Rightarrow> (nat \<times> list_t heap) option" where
  "calloc sz s = do {
     (p, s1) \<leftarrow> malloc sz s;
     if p \<noteq> 0 then do { s2 \<leftarrow> memset 24 p 0 sz s1; Some (p, s2) } else Some (p, s1) }"

definition realloc :: "nat \<Rightarrow> nat \<Rightarrow> list_t heap \<Rightarrow> (nat \<times> list_t heap) option" where
  "realloc node sz s = do {
     (p, s1) \<leftarrow> malloc sz s;
     if p \<noteq> 0 then do { s2 \<leftarrow> memmove 24 p node sz s1; s3 \<leftarrow> free node s2; Some (p, s3) }
     else Some (p, s1) }"

section \<open>The blocks as a list\<close>

text \<open>The specification: a list of addresses, sizes and marks, and what the operations do to it.\<close>

type_synonym cell = "nat \<times> nat \<times> bool"

fun merge_cells :: "cell list \<Rightarrow> cell list" where
  "merge_cells ((x, n, v) # (y, m, w) # cs) =
     (if v \<and> w then merge_cells ((x, n + (m + 24), True) # cs) else (x, n, v) # merge_cells ((y, m, w) # cs))"
| "merge_cells cs = cs"

fun malloc_cells :: "nat \<Rightarrow> nat \<Rightarrow> cell list \<Rightarrow> nat \<times> cell list" where
  "malloc_cells n b [] = (b, [(b, n, False)])"
| "malloc_cells n b ((x, m, v) # cs) =
     (if v then (x, (x, m, False) # cs) else (case malloc_cells n b cs of (p, cs') \<Rightarrow> (p, (x, m, v) # cs')))"

definition vacate :: "nat \<Rightarrow> cell \<Rightarrow> cell" where
  "vacate p c = (case c of (x, n, v) \<Rightarrow> (x, n, v \<or> x = p))"

definition used :: "cell list \<Rightarrow> cell list" where
  "used = filter (\<lambda>(x, n, v). \<not> v)"

fun merged :: "cell list \<Rightarrow> bool" where
  "merged ((x, n, v) # (y, m, w) # cs) \<longleftrightarrow> \<not> (v \<and> w) \<and> merged ((y, m, w) # cs)"
| "merged cs \<longleftrightarrow> True"

lemma merge_cells_hd: "\<exists>n v cs'. merge_cells ((x, n0, v0) # cs) = (x, n, v) # cs' \<and> (v \<longrightarrow> v0)"
proof (induction cs arbitrary: n0 v0)
  case (Cons c cs)
  then show ?case by (cases c) fastforce
qed simp

lemma merged_merge_cells: "merged (merge_cells cs)"
proof (induction cs rule: merge_cells.induct)
  case (1 x n v y m w cs)
  show ?case
  proof (cases "v \<and> w")
    case False
    obtain k u cs' where "merge_cells ((y, m, w) # cs) = (y, k, u) # cs'" "u \<longrightarrow> w"
      using merge_cells_hd by blast
    then show ?thesis using 1(2)[OF False] False by auto
  qed (use 1 in simp)
qed simp_all

lemma used_merge_cells: "used (merge_cells cs) = used cs"
  by (induction cs rule: merge_cells.induct) (auto simp: used_def)

lemma used_vacate: "distinct (map fst cs) \<Longrightarrow> used (map (vacate p) cs) = filter (\<lambda>c. fst c \<noteq> p) (used cs)"
  by (induction cs) (auto simp: used_def vacate_def)

section \<open>The list in memory\<close>

text \<open>The cells \<open>cs\<close> are in memory, linked from \<open>p\<close>, in order and without overlap between \<open>lo\<close> and \<open>hi\<close>.\<close>

fun cells :: "(nat \<Rightarrow> list_t option) \<Rightarrow> nat \<Rightarrow> nat \<Rightarrow> cell list \<Rightarrow> nat \<Rightarrow> bool" where
  "cells H p lo [] hi \<longleftrightarrow> p = 0 \<and> lo \<le> hi"
| "cells H p lo ((x, n, v) # cs) hi \<longleftrightarrow> p = x \<and> 0 < x \<and> lo \<le> x \<and>
     (case H x of None \<Rightarrow> False | Some h \<Rightarrow> lsize h = n \<and> vacant h = v \<and> cells H (nxt h) (x + 24 + n) cs hi)"

definition rep :: "list_t heap \<Rightarrow> cell list \<Rightarrow> bool" where
  "rep s cs \<longleftrightarrow> cells (hdrs s) (head s) 1 cs (brk s) \<and> (\<forall>a \<in> dom (hdrs s). a + 24 \<le> brk s) \<and> brk s \<le> limit s \<and> limit s < 2 ^ 63"

lemma cells_ConsE:
  assumes "cells H p lo ((x, n, v) # cs) hi"
  obtains h where "H x = Some h" "p = x" "0 < x" "lo \<le> x" "lsize h = n" "vacant h = v" "cells H (nxt h) (x + 24 + n) cs hi"
  using assms by (simp split: option.split_asm)

lemma cells_hi: "cells H p lo cs hi \<Longrightarrow> lo \<le> hi"
proof (induction cs arbitrary: p lo)
  case (Cons c cs)
  obtain x n v where c: "c = (x, n, v)" by (cases c)
  from Cons.prems[unfolded c] show ?case by (rule cells_ConsE) (use Cons.IH in fastforce)
qed simp

lemma cells_above: "cells H p lo cs hi \<Longrightarrow> x \<in> fst ` set cs \<Longrightarrow> lo \<le> x \<and> x < hi"
proof (induction cs arbitrary: p lo)
  case (Cons c cs)
  obtain y n v where c: "c = (y, n, v)" by (cases c)
  from Cons.prems(1)[unfolded c] obtain h where h: "lo \<le> y" "H y = Some h" "cells H (nxt h) (y + 24 + n) cs hi" by (rule cells_ConsE)
  have "x = y \<or> x \<in> fst ` set cs" using Cons.prems(2) c by auto
  then show ?case using Cons.IH[OF h(3)] cells_hi[OF h(3)] h(1) by (elim disjE) auto
qed simp

lemma cells_low: "cells H p lo cs hi \<Longrightarrow> lo' \<le> lo \<Longrightarrow> cells H p lo' cs hi"
  by (cases cs) auto

lemma cells_frame: "\<forall>x \<in> fst ` set cs. H' x = H x \<Longrightarrow> cells H' p lo cs hi = cells H p lo cs hi"
  by (induction cs arbitrary: p lo) (auto split: option.splits)

lemma cells_distinct: "cells H p lo cs hi \<Longrightarrow> distinct (map fst cs)"
proof (induction cs arbitrary: p lo)
  case (Cons c cs)
  obtain x n v where c: "c = (x, n, v)" by (cases c)
  from Cons.prems[unfolded c] obtain h where h: "H x = Some h" "cells H (nxt h) (x + 24 + n) cs hi" by (rule cells_ConsE)
  then show ?case using Cons.IH[OF h(2)] cells_above[OF h(2), of x] c by auto
qed simp

lemma cells_hdr: "cells H p lo cs hi \<Longrightarrow> (x, n, v) \<in> set cs \<Longrightarrow> \<exists>h. H x = Some h \<and> lsize h = n \<and> vacant h = v"
  by (induction cs arbitrary: p lo) (auto split: option.split_asm)

lemma cells_head: "cells H p lo cs hi \<Longrightarrow> p = 0 \<longleftrightarrow> cs = []"
  by (cases cs) auto

text \<open>Marking a block.\<close>

lemma cells_vacate:
  assumes "cells H p lo cs hi" and "H x = Some h"
  shows "cells (H(x \<mapsto> h\<lparr>vacant := True\<rparr>)) p lo (map (vacate x) cs) hi"
  using assms(1)
proof (induction cs arbitrary: p lo)
  case (Cons c cs)
  obtain y n v where c: "c = (y, n, v)" by (cases c)
  from Cons.prems[unfolded c] obtain g where g: "H y = Some g" "p = y" "0 < y" "lo \<le> y" "lsize g = n" "vacant g = v"
    "cells H (nxt g) (y + 24 + n) cs hi" by (rule cells_ConsE)
  then show ?case using Cons.IH[OF g(7)] c assms(2) by (cases "y = x") (auto simp: vacate_def)
qed simp

section \<open>Merging in memory\<close>

lemma merge_loop_single:
  assumes "cells (hdrs s) p lo [c] hi"
  shows "\<exists>H'. merge_loop p s = Some (s\<lparr>hdrs := H'\<rparr>) \<and> cells H' p lo (merge_cells [c]) hi \<and> dom H' = dom (hdrs s) \<and>
    (\<forall>a. a \<notin> fst ` set [c] \<longrightarrow> H' a = hdrs s a)"
proof -
  obtain x n v where c: "c = (x, n, v)" by (cases c)
  from assms[unfolded c] obtain h where "hdrs s x = Some h" "p = x" "nxt h = 0" by - (erule cells_ConsE, simp)
  then have "merge_loop p s = Some s" by (subst merge_loop.simps) (simp add: get_hdr_def)
  then show ?thesis using assms by (intro exI[of _ "hdrs s"]) simp
qed

lemma merge_loop_merges:
  assumes "cells (hdrs s) p lo cs hi" and "cs \<noteq> []" and "hi < 2 ^ 63"
  shows "\<exists>H'. merge_loop p s = Some (s\<lparr>hdrs := H'\<rparr>) \<and> cells H' p lo (merge_cells cs) hi \<and> dom H' = dom (hdrs s) \<and>
    (\<forall>a. a \<notin> fst ` set cs \<longrightarrow> H' a = hdrs s a)"
  using assms
proof (induction cs arbitrary: p lo s rule: merge_cells.induct)
  case (1 x n v y m w cs)
  from 1(3) obtain h where h: "hdrs s x = Some h" "p = x" "0 < x" "lo \<le> x" "lsize h = n" "vacant h = v"
    "cells (hdrs s) (nxt h) (x + 24 + n) ((y, m, w) # cs) hi" by (rule cells_ConsE)
  from h(7) obtain g where g: "hdrs s y = Some g" "nxt h = y" "0 < y" "x + 24 + n \<le> y" "lsize g = m" "vacant g = w"
    "cells (hdrs s) (nxt g) (y + 24 + m) cs hi" by (rule cells_ConsE)
  show ?case
  proof (cases "v \<and> w")
    case True
    let ?h = "h\<lparr>lsize := n + (m + 24), nxt := nxt g\<rparr>" and ?s = "s\<lparr>hdrs := (hdrs s)(x \<mapsto> h\<lparr>lsize := n + (m + 24), nxt := nxt g\<rparr>)\<rparr>"
    have "n + (m + 24) < 2 ^ 64" using cells_hi[OF g(7)] g(4) 1(5) by simp
    then have step: "merge_loop p s = merge_loop p ?s"
      by (subst merge_loop.simps) (use h g True in \<open>simp add: get_hdr_def upd_hdr_def\<close>)
    have "x \<notin> fst ` set cs" using cells_above[OF g(7), of x] g(4) by auto
    then have fr: "\<forall>a \<in> fst ` set cs. (hdrs ?s) a = hdrs s a" by auto
    have "cells (hdrs ?s) (nxt g) (y + 24 + m) cs hi" using cells_frame[OF fr] g(7) by blast
    then have "cells (hdrs ?s) (nxt g) (x + 24 + (n + (m + 24))) cs hi" by (rule cells_low) (use g(4) in simp)
    then have "cells (hdrs ?s) p lo ((x, n + (m + 24), True) # cs) hi" using h True by simp
    from 1(1)[OF True this _ 1(5)] obtain H' where H': "merge_loop p ?s = Some (?s\<lparr>hdrs := H'\<rparr>)"
      "cells H' p lo (merge_cells ((x, n + (m + 24), True) # cs)) hi" "dom H' = dom (hdrs ?s)"
      "\<forall>a. a \<notin> fst ` set ((x, n + (m + 24), True) # cs) \<longrightarrow> H' a = hdrs ?s a" by blast
    have "dom H' = dom (hdrs s)" using H'(3) h(1) by auto
    then show ?thesis using step H'(1,2,4) True by (intro exI[of _ H']) simp
  next
    case False
    then have step: "merge_loop p s = merge_loop y s"
      by (subst merge_loop.simps) (use h g in \<open>auto simp: get_hdr_def\<close>)
    have "cells (hdrs s) y (x + 24 + n) ((y, m, w) # cs) hi" using h(7) g(2) by simp
    from 1(2)[OF False this _ 1(5)] obtain H' where H': "merge_loop y s = Some (s\<lparr>hdrs := H'\<rparr>)"
      "cells H' y (x + 24 + n) (merge_cells ((y, m, w) # cs)) hi" "dom H' = dom (hdrs s)"
      "\<forall>a. a \<notin> fst ` set ((y, m, w) # cs) \<longrightarrow> H' a = hdrs s a" by blast
    have "x \<notin> fst ` set ((y, m, w) # cs)" using cells_above[OF h(7), of x] by auto
    then have "H' x = Some h" using H'(4) h(1) by simp
    then have "cells H' p lo (merge_cells ((x, n, v) # (y, m, w) # cs)) hi" using False h g(2) H'(2) by auto
    then show ?thesis using step H' by (intro exI[of _ H']) simp
  qed
next
  case "2_2"
  then show ?case using merge_loop_single by blast
qed simp

text \<open>C28: \<open>free\<close> of a block in use ends, whatever the list looks like: the block is vacant, no two neighbouring blocks are
  vacant any more, exactly the other blocks in use are left with their addresses and sizes, and the list is what
  merging the blocks of the list as a value gives.\<close>

theorem free_merges:
  assumes "rep s cs" and "(x, n, False) \<in> set cs"
  shows "\<exists>s'. free (x + 24) s = Some s' \<and> rep s' (merge_cells (map (vacate x) cs)) \<and>
    merged (merge_cells (map (vacate x) cs)) \<and>
    used (merge_cells (map (vacate x) cs)) = filter (\<lambda>c. fst c \<noteq> x) (used cs)"
proof -
  have r: "cells (hdrs s) (head s) 1 cs (brk s)" "\<forall>a \<in> dom (hdrs s). a + 24 \<le> brk s" "brk s \<le> limit s" "limit s < 2 ^ 63"
    using assms(1) by (simp_all add: rep_def)
  from cells_hdr[OF r(1) assms(2)] obtain h where h: "hdrs s x = Some h" by blast
  let ?s = "s\<lparr>hdrs := (hdrs s)(x \<mapsto> h\<lparr>vacant := True\<rparr>)\<rparr>"
  have hd: "head s \<noteq> 0" using cells_head[OF r(1)] assms(2) by auto
  have ne: "map (vacate x) cs \<noteq> []" using assms(2) by auto
  have "cells (hdrs ?s) (head s) 1 (map (vacate x) cs) (brk s)" using cells_vacate[OF r(1) h] by simp
  from merge_loop_merges[OF this ne] r(3,4) obtain H' where H': "merge_loop (head s) ?s = Some (?s\<lparr>hdrs := H'\<rparr>)"
    "cells H' (head s) 1 (merge_cells (map (vacate x) cs)) (brk s)" "dom H' = dom (hdrs ?s)" by auto
  have "dom H' = dom (hdrs s)" using H'(3) h by auto
  then have "rep (?s\<lparr>hdrs := H'\<rparr>) (merge_cells (map (vacate x) cs))" using H'(2) r by (simp add: rep_def)
  moreover have "free (x + 24) s = Some (?s\<lparr>hdrs := H'\<rparr>)" using h hd H'(1) by (simp add: free_def upd_hdr_def merge_list_def)
  ultimately show ?thesis
    using merged_merge_cells used_merge_cells used_vacate[OF cells_distinct[OF r(1)]] by metis
qed

definition three_blocks :: "list_t heap" where
  "three_blocks = \<lparr>hdrs = [100 \<mapsto> \<lparr>nxt = 128, lsize = 4, vacant = False\<rparr>, 128 \<mapsto> \<lparr>nxt = 156, lsize = 4, vacant = True\<rparr>,
     156 \<mapsto> \<lparr>nxt = 0, lsize = 4, vacant = False\<rparr>], bytes = (\<lambda>_. 0), brk = 184, limit = 1000, head = 100\<rparr>"

lemma three_blocks_rep: "rep three_blocks [(100, 4, False), (128, 4, True), (156, 4, False)]"
  by (simp add: rep_def three_blocks_def)

theorem free_merges_witness:
  "\<exists>s'. free (156 + 24) three_blocks = Some s' \<and> rep s' [(100, 4, False), (128, 32, True)]"
  using free_merges[OF three_blocks_rep, of 156 4] by (auto simp: vacate_def)

section \<open>Allocation in memory\<close>

lemma first_free_block_none:
  "cells (hdrs s) p lo cs hi \<Longrightarrow> \<forall>(x, m, v) \<in> set cs. \<not> v \<Longrightarrow>
   first_free_block p l s = Some (0, if cs = [] then l else fst (last cs))"
proof (induction cs arbitrary: p lo l)
  case (Cons c cs)
  obtain x n v where c: "c = (x, n, v)" by (cases c)
  from Cons.prems(1)[unfolded c] obtain h where "hdrs s x = Some h" "p = x" "0 < x" "vacant h = v"
    "cells (hdrs s) (nxt h) (x + 24 + n) cs hi" by (rule cells_ConsE)
  then show ?case using Cons.IH Cons.prems(2) c by (subst first_free_block.simps) (simp add: get_hdr_def)
qed (simp add: first_free_block.simps)

lemma first_free_block_some:
  "cells (hdrs s) p lo (as @ (x, n, True) # cs) hi \<Longrightarrow> \<forall>(x, m, v) \<in> set as. \<not> v \<Longrightarrow>
   \<exists>l'. first_free_block p l s = Some (x, l')"
proof (induction as arbitrary: p lo l)
  case Nil
  then show ?case by (subst first_free_block.simps) (auto simp: get_hdr_def split: option.split_asm)
next
  case (Cons c as)
  obtain y m v where c: "c = (y, m, v)" by (cases c)
  from Cons.prems(1)[unfolded c append_Cons] obtain h where "hdrs s y = Some h" "p = y" "0 < y" "vacant h = v"
    "cells (hdrs s) (nxt h) (y + 24 + m) (as @ (x, n, True) # cs) hi" by (rule cells_ConsE)
  then show ?case using Cons.IH Cons.prems(2) c by (subst first_free_block.simps) (simp add: get_hdr_def)
qed

lemma first_vacant_cases:
  obtains (none) "\<forall>(x, m, v) \<in> set cs. \<not> v"
  | (some) as x m ds where "cs = as @ (x, m, True) # ds" "\<forall>(x, m, v) \<in> set as. \<not> v"
proof (cases "\<exists>c \<in> set cs. snd (snd c)")
  case True
  from split_list_first_prop[OF this] obtain as c ds where "cs = as @ c # ds" "snd (snd c)" "\<forall>c \<in> set as. \<not> snd (snd c)" by blast
  then show thesis using some[of as "fst c" "fst (snd c)" ds] by (cases c) (auto simp: case_prod_beta)
next
  case False
  then show thesis using none by (auto simp: case_prod_beta)
qed

lemma malloc_cells_some:
  "\<forall>(x, m, v) \<in> set as. \<not> v \<Longrightarrow> malloc_cells n b (as @ (x, m, True) # ds) = (x, as @ (x, m, False) # ds)"
  by (induction as) auto

lemma malloc_cells_none: "\<forall>(x, m, v) \<in> set cs. \<not> v \<Longrightarrow> malloc_cells n b cs = (b, cs @ [(b, n, False)])"
  by (induction cs) auto

lemma cells_take:
  assumes "cells H p lo (cs @ (x, n, v) # ds) hi" and "H x = Some h"
  shows "cells (H(x \<mapsto> h\<lparr>vacant := u\<rparr>)) p lo (cs @ (x, n, u) # ds) hi"
  using assms(1)
proof (induction cs arbitrary: p lo)
  case Nil
  then have h: "cells H (nxt h) (x + 24 + n) ds hi" "lsize h = n" "p = x" "0 < x" "lo \<le> x" using assms(2) by auto
  have "\<forall>a \<in> fst ` set ds. (H(x \<mapsto> h\<lparr>vacant := u\<rparr>)) a = H a" using cells_above[OF h(1), of x] by auto
  from cells_frame[OF this] h(1) have "cells (H(x \<mapsto> h\<lparr>vacant := u\<rparr>)) (nxt h) (x + 24 + n) ds hi" by blast
  then show ?case using h(2-5) by (simp del: fun_upd_apply add: fun_upd_same)
next
  case (Cons c cs)
  obtain y m w where c: "c = (y, m, w)" by (cases c)
  from Cons.prems[unfolded c append_Cons] obtain g where g: "H y = Some g" "p = y" "0 < y" "lo \<le> y" "lsize g = m" "vacant g = w"
    "cells H (nxt g) (y + 24 + m) (cs @ (x, n, v) # ds) hi" by (rule cells_ConsE)
  have "x \<noteq> y" using cells_above[OF g(7), of x] by auto
  then show ?case using Cons.IH[OF g(7)] g c by simp
qed

lemma cells_append:
  assumes "cells H p lo cs hi" and "cs \<noteq> []" and "b \<notin> fst ` set cs" and "0 < b" and "hi \<le> b" and "b + 24 + n \<le> hi'"
    and "H b = Some \<lparr>nxt = 0, lsize = n, vacant = False\<rparr>"
  shows "\<exists>g. H (fst (last cs)) = Some g \<and> cells (H(fst (last cs) \<mapsto> g\<lparr>nxt := b\<rparr>)) p lo (cs @ [(b, n, False)]) hi'"
  using assms(1-3)
proof (induction cs arbitrary: p lo)
  case (Cons c cs)
  obtain y m w where c: "c = (y, m, w)" by (cases c)
  from Cons.prems(1)[unfolded c] obtain g where g: "H y = Some g" "p = y" "0 < y" "lo \<le> y" "lsize g = m" "vacant g = w"
    "cells H (nxt g) (y + 24 + m) cs hi" by (rule cells_ConsE)
  have b: "b \<noteq> y" "b \<notin> fst ` set cs" using Cons.prems(3) c by auto
  show ?case
  proof (cases "cs = []")
    case True
    then show ?thesis using g b assms(4-7) c by simp
  next
    case False
    from Cons.IH[OF g(7) False b(2)] obtain e where e: "H (fst (last cs)) = Some e"
      "cells (H(fst (last cs) \<mapsto> e\<lparr>nxt := b\<rparr>)) (nxt g) (y + 24 + m) (cs @ [(b, n, False)]) hi'" by blast
    have "fst (last cs) \<in> fst ` set cs" using False by simp
    then have "fst (last cs) \<noteq> y" using cells_above[OF g(7)] by fastforce
    then have "(H(fst (last cs) \<mapsto> e\<lparr>nxt := b\<rparr>)) y = Some g" using g(1) by simp
    then show ?thesis using e g c False by (intro exI[of _ e]) (simp del: fun_upd_apply)
  qed
qed simp

lemma malloc_some:
  assumes "rep s (as @ (x, m, True) # ds)" and "\<forall>(x, m, v) \<in> set as. \<not> v"
  shows "\<exists>h. malloc n s = Some (x + 24, s\<lparr>hdrs := (hdrs s)(x \<mapsto> h)\<rparr>) \<and>
    rep (s\<lparr>hdrs := (hdrs s)(x \<mapsto> h)\<rparr>) (as @ (x, m, False) # ds)"
proof -
  have r: "cells (hdrs s) (head s) 1 (as @ (x, m, True) # ds) (brk s)" "\<forall>a \<in> dom (hdrs s). a + 24 \<le> brk s"
    "brk s \<le> limit s" "limit s < 2 ^ 63" using assms(1) by (simp_all add: rep_def)
  from cells_hdr[OF r(1), of x m True] obtain h where h: "hdrs s x = Some h" by auto
  let ?s = "s\<lparr>hdrs := (hdrs s)(x \<mapsto> h\<lparr>vacant := False\<rparr>)\<rparr>"
  have "x \<noteq> 0" using cells_above[OF r(1), of x] by auto
  moreover obtain l where "first_free_block (head s) (head s) s = Some (x, l)"
    using first_free_block_some[OF r(1) assms(2)] by blast
  ultimately have "malloc n s = Some (x + 24, ?s)" using cells_head[OF r(1)] h by (simp add: malloc_def upd_hdr_def)
  moreover have "rep ?s (as @ (x, m, False) # ds)" using cells_take[OF r(1) h] r(2-4) h by (auto simp: rep_def)
  ultimately show ?thesis by blast
qed

lemma wipe_end:
  assumes "\<forall>a \<in> dom (hdrs s). a + 24 \<le> brk s" and "dom H = dom (hdrs s)"
  shows "wipe 24 (brk s) n H = H"
proof
  fix a
  have "a + 24 \<le> brk s" if "H a \<noteq> None" using that assms by blast
  then show "wipe 24 (brk s) n H a = H a" by (cases "H a") (auto simp: wipe_def)
qed

lemma malloc_extend:
  assumes "rep s cs" and "\<forall>(x, m, v) \<in> set cs. \<not> v" and "n < 2 ^ 62" and "brk s + (n + 24) \<le> limit s"
  shows "\<exists>s'. malloc n s = Some (brk s + 24, s') \<and> rep s' (cs @ [(brk s, n, False)])"
proof -
  have r: "cells (hdrs s) (head s) 1 cs (brk s)" "\<forall>a \<in> dom (hdrs s). a + 24 \<le> brk s" "brk s \<le> limit s" "limit s < 2 ^ 63"
    using assms(1) by (simp_all add: rep_def)
  have b: "0 < brk s" "brk s \<notin> fst ` set cs" using cells_hi[OF r(1)] cells_above[OF r(1), of "brk s"] by auto
  let ?g = "\<lparr>nxt = 0, lsize = n, vacant = False\<rparr>" and ?b = "brk s + (n + 24)"
  have seg: "\<forall>a \<in> dom (hdrs s). a + 24 \<le> ?b" using r(2) by force
  have hd: "head s = 0 \<longleftrightarrow> cs = []" by (rule cells_head[OF r(1)])
  have sb: "sbrk_ptr (size_t (n + 24)) s = (brk s, s\<lparr>brk := ?b\<rparr>)" using assms(3,4) by (simp add: sbrk_ptr_def sbrk_def)
  show ?thesis
  proof (cases "cs = []")
    case True
    let ?s = "s\<lparr>hdrs := (hdrs s)(brk s \<mapsto> ?g), brk := ?b, head := brk s\<rparr>"
    have "malloc n s = Some (brk s + 24, ?s)"
      using True hd b sb wipe_end[OF r(2) refl] by (simp add: malloc_def create_block_def put_hdr_def Let_def)
    moreover have "rep ?s [(brk s, n, False)]" using b r(4) seg assms(4) by (simp add: rep_def)
    ultimately show ?thesis using True by simp
  next
    case False
    let ?l = "fst (last cs)"
    have l: "?l \<in> fst ` set cs" using False by simp
    then obtain e where e: "hdrs s ?l = Some e" using cells_hdr[OF r(1)] by force
    have lb: "?l \<noteq> brk s" "?l \<noteq> 0" using l b(2) cells_above[OF r(1) l] by auto
    let ?H = "(hdrs s)(brk s \<mapsto> ?g)"
    have "\<forall>a \<in> fst ` set cs. ?H a = hdrs s a" using b(2) by (metis fun_upd_other)
    from cells_frame[OF this] r(1) have "cells ?H (head s) 1 cs (brk s)" by blast
    from cells_append[OF this False b(2,1) order_refl, of n ?b] e lb
    have H: "cells (?H(?l \<mapsto> e\<lparr>nxt := brk s\<rparr>)) (head s) 1 (cs @ [(brk s, n, False)]) ?b" by simp
    let ?s = "s\<lparr>hdrs := ?H(?l \<mapsto> e\<lparr>nxt := brk s\<rparr>), brk := ?b\<rparr>"
    have w: "wipe 24 (brk s) 24 ((hdrs s)(?l \<mapsto> e\<lparr>nxt := brk s\<rparr>)) = (hdrs s)(?l \<mapsto> e\<lparr>nxt := brk s\<rparr>)"
      by (rule wipe_end[OF r(2)]) (use e in auto)
    have "first_free_block (head s) (head s) s = Some (0, ?l)" using first_free_block_none[OF r(1) assms(2)] False by simp
    then have "malloc n s = Some (brk s + 24, ?s)"
      using False hd b sb e lb w
      by (simp add: malloc_def create_block_def put_hdr_def upd_hdr_def Let_def fun_upd_twist[OF lb(1), of "hdrs s"])
    moreover have "rep ?s (cs @ [(brk s, n, False)])"
      unfolding rep_def using H r(4) assms(4) seg e cells_above[OF r(1) l] by simp
    ultimately show ?thesis by blast
  qed
qed

text \<open>C17: \<open>malloc\<close> gives the first vacant block, of whatever size, and when there is none, and the break can be moved, a
  new block of the requested size at the old break; no other block changes.\<close>

theorem malloc_refines_cells:
  assumes "rep s cs" and "n < 2 ^ 62" and "brk s + (n + 24) \<le> limit s"
  shows "\<exists>s'. malloc n s = Some (fst (malloc_cells n (brk s) cs) + 24, s') \<and> rep s' (snd (malloc_cells n (brk s) cs))"
proof (rule first_vacant_cases[of cs])
  fix as x m ds
  assume c: "cs = as @ (x, m, True) # ds" "\<forall>(x, m, v) \<in> set as. \<not> v"
  from malloc_some[OF assms(1)[unfolded c(1)] c(2)] malloc_cells_some[OF c(2), of n "brk s" x m ds] c(1)
  show ?thesis by fastforce
next
  assume c: "\<forall>(x, m, v) \<in> set cs. \<not> v"
  from malloc_extend[OF assms(1) c assms(2,3)] malloc_cells_none[OF c, of n "brk s"] show ?thesis by simp
qed

theorem malloc_refines_cells_witness:
  "\<exists>s'. malloc 4 three_blocks = Some (152, s') \<and> rep s' [(100, 4, False), (128, 4, False), (156, 4, False)]"
  using malloc_refines_cells[OF three_blocks_rep, of 4] by (simp add: three_blocks_def)

lemma cells_next: "cells H p lo (as @ (x, m, v) # (y, k, w) # ds) hi \<Longrightarrow> x + 24 + m \<le> y"
proof (induction as arbitrary: p lo)
  case (Cons c as)
  obtain z n u where c: "c = (z, n, u)" by (cases c)
  from Cons.prems[unfolded c append_Cons] show ?case by (rule cells_ConsE) (rule Cons.IH)
qed (auto split: option.split_asm)

text \<open>A request that is larger than the first vacant block gets this block all the same; \<open>calloc\<close> then zeroes past its
  end and destroys the header of a block that follows in this range.\<close>

theorem calloc_overruns_block:
  assumes "rep s (as @ (x, m, True) # (y, k, v) # ds)" and "\<forall>(x, m, v) \<in> set as. \<not> v"
    and "y < x + 24 + n" and "x + 24 + n \<le> brk s"
  shows "m < n \<and> (\<exists>s'. calloc n s = Some (x + 24, s') \<and> hdrs s' y = None)"
proof -
  have r: "cells (hdrs s) (head s) 1 (as @ (x, m, True) # (y, k, v) # ds) (brk s)" using assms(1) by (simp add: rep_def)
  have xy: "x + 24 + m \<le> y" by (rule cells_next[OF r])
  from malloc_some[OF assms(1,2), of n] obtain h where h: "malloc n s = Some (x + 24, s\<lparr>hdrs := (hdrs s)(x \<mapsto> h)\<rparr>)" by blast
  then have "\<exists>s'. calloc n s = Some (x + 24, s') \<and> hdrs s' = wipe 24 (x + 24) n ((hdrs s)(x \<mapsto> h))"
    using assms(3,4) xy by (auto simp: calloc_def memset_def)
  then show ?thesis using xy assms(3) by (auto simp: wipe_def)
qed

theorem calloc_overruns_block_witness:
  "\<exists>s'. calloc 8 three_blocks = Some (152, s') \<and> hdrs s' 156 = None"
  using calloc_overruns_block[of three_blocks "[(100, 4, False)]" 128 4 156 4 False "[]" 8] three_blocks_rep
  by (simp add: three_blocks_def)

end
