(* ===== verification/Alloc_Buddy.thy ===== *)
theory Alloc_Buddy
  imports Brk_Heap
begin

text \<open>
  The allocator of \<open>project/buddy.c\<close>.  Headers have 32 bytes, and adding \<open>n\<close> to a pointer to a header adds
  \<open>32 * n\<close> to the address.  A pointer that was never assigned is \<open>None\<close>; using it, reading through \<open>NULL\<close> and
  writing past the break are undefined, which is the value \<open>None\<close> of an operation.  \<open>merge\<close> is empty in the
  source and its result is not used.  Output is left out; \<open>root\<close> is the field \<open>head\<close>.
\<close>

record node_t =
  left :: nat
  right :: nat
  nsize :: nat
  vacant :: bool

definition INIT_SIZE :: nat where "INIT_SIZE = 32"

definition init :: "nat \<Rightarrow> node_t heap \<Rightarrow> (nat \<times> node_t heap) option" where
  "init sz s =
     (let p = brk s; (req, s1) = sbrk_ptr (size_t (sz + 32)) s
      in if req = 0 then Some (0, s1)
         else do { s2 \<leftarrow> put_hdr 32 p \<lparr>left = 0, right = 0, nsize = sz, vacant = True\<rparr> s1; Some (p, s2) })"

definition create_node :: "nat \<Rightarrow> nat \<Rightarrow> node_t heap \<Rightarrow> (nat \<times> node_t heap) option" where
  "create_node node sz s =
     do { s1 \<leftarrow> put_hdr 32 node \<lparr>left = 0, right = 0, nsize = sz, vacant = True\<rparr> s; Some (node, s1) }"

text \<open>
  The left half is created in place of the node itself, and \<open>node->left = ...\<close> is stored in the new header.
  The size is read again for the right half, after it was halved.
\<close>

partial_function (option) split :: "nat \<Rightarrow> nat \<Rightarrow> node_t heap \<Rightarrow> (nat \<times> node_t heap) option" where
  "split node sz s = do {
     h \<leftarrow> get_hdr node s;
     if nsize h div 2 < sz then Some (node, s)
     else do {
       (l, s1) \<leftarrow> create_node node (nsize h div 2) s;
       s2 \<leftarrow> upd_hdr node (left_update (\<lambda>_. l)) s1;
       g \<leftarrow> get_hdr node s2;
       (r, s3) \<leftarrow> create_node (node + 32 * (nsize g div 2)) (nsize g div 2) s2;
       s4 \<leftarrow> upd_hdr node (right_update (\<lambda>_. r)) s3;
       e \<leftarrow> get_hdr node s4;
       split (left e) sz s4 } }"

text \<open>The tests of the children are \<open>!node->left && node->left->size ...\<close>: a missing child is read.\<close>

partial_function (option) find_free_spot :: "nat \<Rightarrow> nat \<Rightarrow> node_t heap \<Rightarrow> nat option" where
  "find_free_spot node sz s = do {
     h \<leftarrow> get_hdr node s;
     if vacant h \<and> nsize h \<ge> sz then Some node
     else do {
       l \<leftarrow> (if left h = 0 then do { g \<leftarrow> get_hdr (left h) s; Some (nsize g \<ge> sz \<and> vacant g) } else Some False);
       if l then find_free_spot (left h) sz s
       else do {
         r \<leftarrow> (if right h = 0 then map_option vacant (get_hdr (right h) s) else Some False);
         if r then find_free_spot (right h) sz s else Some 0 } } }"

definition create_block :: "nat \<Rightarrow> nat \<Rightarrow> node_t heap \<Rightarrow> (nat \<times> node_t heap) option" where
  "create_block node sz s = do {
     p \<leftarrow> find_free_spot node sz s;
     if p = 0 then Some (0, s)
     else do { (p, s1) \<leftarrow> split p sz s; s2 \<leftarrow> upd_hdr p (vacant_update (\<lambda>_. False)) s1; Some (p, s2) } }"

definition free :: "nat \<Rightarrow> node_t heap \<Rightarrow> node_t heap option" where
  "free node s = (if node = 0 then Some s else upd_hdr node (vacant_update (\<lambda>_. True)) s)"

text \<open>The state after \<open>malloc\<close> and the pointer \<open>p + 1\<close>; after the first call \<open>p\<close> was never assigned.\<close>

definition malloc_step :: "nat \<Rightarrow> node_t heap \<Rightarrow> (nat option \<times> node_t heap) option" where
  "malloc_step sz s =
     (if head s = 0 then do { (r, s1) \<leftarrow> init INIT_SIZE s; Some (None, s1\<lparr>head := r\<rparr>) }
      else do {
        (p, s1) \<leftarrow> create_block (head s) sz s;
        if p = 0 then Some (Some 0, s1)
        else do { s2 \<leftarrow> upd_hdr p (vacant_update (\<lambda>_. True)) s1; Some (Some (p + 32), s2) } })"

definition malloc :: "nat \<Rightarrow> node_t heap \<Rightarrow> (nat \<times> node_t heap) option" where
  "malloc sz s = do { (p, s1) \<leftarrow> malloc_step sz s; q \<leftarrow> p; Some (q, s1) }"

definition calloc :: "nat \<Rightarrow> nat \<Rightarrow> node_t heap \<Rightarrow> (nat \<times> node_t heap) option" where
  "calloc nitems sz s = do {
     (p, s1) \<leftarrow> malloc (size_t (nitems * sz)) s;
     if p \<noteq> 0 then do { s2 \<leftarrow> memset 32 p 0 (size_t (nitems * sz)) s1; Some (p, s2) } else Some (p, s1) }"

definition realloc :: "nat \<Rightarrow> nat \<Rightarrow> node_t heap \<Rightarrow> (nat \<times> node_t heap) option" where
  "realloc node sz s = do {
     (p, s1) \<leftarrow> malloc sz s;
     if p \<noteq> 0 then do { s2 \<leftarrow> memmove 32 p node sz s1; s3 \<leftarrow> free node s2; Some (p, s3) }
     else Some (p, s1) }"

section \<open>What the allocator does\<close>

text \<open>The memory after \<open>init\<close>: one vacant block of 32 bytes, at the end of the data segment.\<close>

definition one_block :: "node_t heap \<Rightarrow> bool" where
  "one_block s \<longleftrightarrow> head s \<noteq> 0 \<and> hdrs s = [head s \<mapsto> \<lparr>left = 0, right = 0, nsize = INIT_SIZE, vacant = True\<rparr>] \<and> brk s = head s + 64"

lemma no_null [simp]: "one_block s \<Longrightarrow> get_hdr 0 s = None"
  by (simp add: one_block_def get_hdr_def)

lemma init_one_block:
  assumes "hdrs s = Map.empty" and "head s = 0" and "0 < brk s" and "brk s + 64 \<le> limit s"
  shows "\<exists>s'. malloc_step sz s = Some (None, s') \<and> one_block s'"
  using assms by (simp add: malloc_step_def init_def sbrk_ptr_def sbrk_def put_hdr_def wipe_def one_block_def INIT_SIZE_def Let_def)

lemma malloc_large:
  assumes "one_block s" and "32 < n"
  shows "malloc n s = None"
proof -
  have "find_free_spot (head s) n s = None"
    using assms no_null[OF assms(1)]
    by (subst find_free_spot.simps) (simp add: one_block_def get_hdr_def INIT_SIZE_def)
  then show ?thesis using assms(1) by (simp add: malloc_def malloc_step_def create_block_def one_block_def)
qed

lemma found:
  assumes "one_block s" and "n \<le> 32"
  shows "find_free_spot (head s) n s = Some (head s)"
  using assms by (subst find_free_spot.simps) (simp add: one_block_def get_hdr_def INIT_SIZE_def)

text \<open>Splitting writes the header of the right half 256 bytes away, past the break.\<close>

lemma malloc_small:
  assumes "one_block s" and "n \<le> 16"
  shows "malloc n s = None"
proof -
  have "split (head s) n s = None"
    using assms by (subst split.simps)
      (simp add: one_block_def get_hdr_def INIT_SIZE_def create_node_def put_hdr_def upd_hdr_def)
  then show ?thesis using assms found[OF assms(1), of n]
    by (simp add: malloc_def malloc_step_def create_block_def one_block_def)
qed

lemma malloc_fits:
  assumes "one_block s" and "16 < n" and "n \<le> 32"
  shows "malloc n s = Some (head s + 32, s)"
proof -
  have h: "head s \<noteq> 0" "hdrs s = [head s \<mapsto> \<lparr>left = 0, right = 0, nsize = 32, vacant = True\<rparr>]"
    using assms(1) by (simp_all add: one_block_def INIT_SIZE_def)
  have "split (head s) n s = Some (head s, s)" using assms(2) h by (subst split.simps) (simp add: get_hdr_def)
  then show ?thesis using found[OF assms(1,3)] h by (simp add: malloc_def malloc_step_def create_block_def upd_hdr_def)
qed

text \<open>No program gets memory from \<open>buddy.c\<close>: the first \<open>malloc\<close> returns a pointer computed from an unassigned
  variable; and on the block it sets up, a request of at most 16 bytes writes past the break, one of more than
  32 bytes reads through \<open>NULL\<close>, and one between gets the same block on every call, before and after it is in use.\<close>

theorem buddy_outcomes:
  assumes "hdrs s = Map.empty" and "head s = 0" and "0 < brk s" and "brk s + 64 \<le> limit s"
  shows "malloc n s = None \<and>
    (\<exists>s'. malloc_step n s = Some (None, s') \<and>
      (\<forall>m. malloc m s' = (if 16 < m \<and> m \<le> 32 then Some (head s' + 32, s') else None)))"
proof -
  from init_one_block[OF assms] obtain s' where s': "malloc_step n s = Some (None, s')" "one_block s'" by blast
  have "malloc m s' = (if 16 < m \<and> m \<le> 32 then Some (head s' + 32, s') else None)" for m
    using malloc_large[OF s'(2), of m] malloc_small[OF s'(2), of m] malloc_fits[OF s'(2), of m] by auto
  then show ?thesis using s'(1) by (simp add: malloc_def)
qed

theorem buddy_outcomes_witness:
  defines "s \<equiv> \<lparr>hdrs = Map.empty, bytes = (\<lambda>_. 0), brk = 4096, limit = 65536, head = 0\<rparr>"
  shows "malloc 10 s = None \<and> (\<exists>s'. malloc_step 10 s = Some (None, s') \<and> malloc 20 s' = Some (head s' + 32, s'))"
  using buddy_outcomes[of s 10] by (auto simp: s_def)

end
