(* ===== verification/Awk_Node.thy ===== *)
theory Awk_Node
  imports Prelude Complex_Main "HOL-Library.List_Lexorder"
begin

text \<open>
  Values of gawk as far as they are compared: \<open>casetable\<close>, \<open>load_casetable\<close> and \<open>cmp_nodes\<close> of \<open>eval.c\<close>.  A node is
  taken after \<open>force_number\<close> and \<open>force_string\<close> have settled its flags: it is a number or not, and it has its
  string.  The locale has single-byte characters (\<open>gawk_mb_cur_max\<close> is 1).
\<close>

section \<open>Nodes\<close>

text \<open>The values of a double: a finite double is a rational number.\<close>

datatype awknum = Fin rat | PInf | NInf | NaN

fun num_eq :: "awknum \<Rightarrow> awknum \<Rightarrow> bool" where
  "num_eq NaN y = False"
| "num_eq x NaN = False"
| "num_eq x y = (x = y)"

fun num_less :: "awknum \<Rightarrow> awknum \<Rightarrow> bool" where
  "num_less (Fin x) (Fin y) = (x < y)"
| "num_less (Fin x) PInf = True"
| "num_less NInf (Fin y) = True"
| "num_less NInf PInf = True"
| "num_less x y = False"

text \<open>\<open>numeric\<close> is the flag \<open>NUMBER\<close>; \<open>stlen\<close> is the length of \<open>stptr\<close>.\<close>

record node =
  numbr :: awknum
  numeric :: bool
  stptr :: "u8 list"

section \<open>The table for \<open>IGNORECASE\<close>\<close>

definition casetable :: "u8 list" where
  "casetable = map of_nat ([0..<65] @ [97..<123] @ [91..<192] @ [224..<247] @ [215] @ [248..<255] @ [223] @ [224..<256])"

text \<open>
  \<open>load_casetable\<close> once, in a locale that is neither C nor POSIX: \<open>lower\<close> says which codes \<open>isalpha\<close> and \<open>islower\<close>
  accept, and \<open>toup\<close> is \<open>toupper\<close>.
\<close>

definition load_casetable :: "bool \<Rightarrow> bool \<Rightarrow> (u8 \<Rightarrow> bool) \<Rightarrow> (u8 \<Rightarrow> u8) \<Rightarrow> u8 list \<Rightarrow> u8 list" where
  "load_casetable do_traditional c_locale lower toup ct =
     (if do_traditional \<or> c_locale then ct
      else foldl (\<lambda>ct i. if lower (of_nat i) \<and> of_nat i \<noteq> toup (of_nat i) then ct[i := toup (of_nat i)] else ct)
             ct [128..<256])"

section \<open>Comparison\<close>

text \<open>The loops of \<open>memcmp\<close> and of the comparison through \<open>casetable\<close>, whose entries are signed characters.\<close>

fun diff_bytes :: "(u8 \<Rightarrow> int) \<Rightarrow> nat \<Rightarrow> u8 list \<Rightarrow> u8 list \<Rightarrow> int" where
  "diff_bytes f 0 xs ys = 0"
| "diff_bytes f (Suc n) (x # xs) (y # ys) = (if f x - f y = 0 then diff_bytes f n xs ys else f x - f y)"
| "diff_bytes f (Suc n) xs ys = 0"

definition to_int :: "int \<Rightarrow> int" where
  "to_int x = sint (word_of_int x :: 32 word)"

definition fold_case :: "u8 list \<Rightarrow> u8 \<Rightarrow> int" where
  "fold_case ct c = sint (ct ! unat c)"

definition byte_key :: "bool \<Rightarrow> u8 list \<Rightarrow> u8 \<Rightarrow> int" where
  "byte_key ignorecase ct c = (if ignorecase then fold_case ct c else int (unat c))"

definition cmp_nodes :: "bool \<Rightarrow> u8 list \<Rightarrow> node \<Rightarrow> node \<Rightarrow> int" where
  "cmp_nodes ignorecase ct t1 t2 =
     (if numeric t1 \<and> numeric t2 then
        (if num_eq (numbr t1) (numbr t2) then 0 else if num_less (numbr t1) (numbr t2) then -1 else 1)
      else
        let len1 = length (stptr t1); len2 = length (stptr t2); ldiff = to_int (int len1 - int len2)
        in if len1 = 0 \<or> len2 = 0 then ldiff
           else let l = (if ldiff \<le> 0 then len1 else len2);
                    ret = (if ignorecase then diff_bytes (fold_case ct) l (stptr t1) (stptr t2)
                           else diff_bytes (\<lambda>c. int (unat c)) l (stptr t1) (stptr t2))
                in if ret = 0 then ldiff else ret)"

section \<open>Strings are compared lexicographically\<close>

lemma to_int_id: "-(2 ^ 31) \<le> x \<Longrightarrow> x < 2 ^ 31 \<Longrightarrow> to_int x = x"
  unfolding to_int_def by (simp add: signed_of_int signed_take_bit_int_eq_self)

lemma diff_bytes_lex:
  "n = min (length xs) (length ys) \<Longrightarrow>
   (let d = diff_bytes f n xs ys; r = (if d = 0 then int (length xs) - int (length ys) else d)
    in (r < 0 \<longleftrightarrow> map f xs < map f ys) \<and> (r = 0 \<longleftrightarrow> map f xs = map f ys))"
proof (induction xs arbitrary: ys n)
  case Nil
  then show ?case by (cases ys) simp_all
next
  case (Cons x xs)
  show ?case
  proof (cases ys)
    case (Cons y zs)
    then have n: "n = Suc (min (length xs) (length zs))" using Cons.prems by simp
    show ?thesis
    proof (cases "f x = f y")
      case True
      then show ?thesis using Cons.IH[OF refl, of zs] n Cons
        by (cases "diff_bytes f (min (length xs) (length zs)) xs zs = 0") (simp_all add: Let_def)
    next
      case False
      then show ?thesis using n Cons by (auto simp: Let_def)
    qed
  qed (use Cons.prems in \<open>simp add: Let_def\<close>)
qed

definition short :: "node \<Rightarrow> bool" where
  "short t \<longleftrightarrow> length (stptr t) < 2 ^ 31"

definition text_key :: "bool \<Rightarrow> u8 list \<Rightarrow> node \<Rightarrow> int list" where
  "text_key ic ct t = map (byte_key ic ct) (stptr t)"

lemma cmp_text:
  assumes "\<not> (numeric s \<and> numeric t)" and "short s" and "short t"
  shows "(cmp_nodes ic ct s t < 0 \<longleftrightarrow> text_key ic ct s < text_key ic ct t) \<and>
    (cmp_nodes ic ct s t = 0 \<longleftrightarrow> text_key ic ct s = text_key ic ct t)"
proof -
  let ?xs = "stptr s" and ?ys = "stptr t" and ?f = "byte_key ic ct"
  let ?l = "to_int (int (length ?xs) - int (length ?ys))"
  have l: "?l = int (length ?xs) - int (length ?ys)"
    by (rule to_int_id) (use assms(2,3) in \<open>simp_all add: short_def\<close>)
  define r where "r = (let d = diff_bytes ?f (min (length ?xs) (length ?ys)) ?xs ?ys
    in if d = 0 then int (length ?xs) - int (length ?ys) else d)"
  have d0: "?xs = [] \<or> ?ys = [] \<Longrightarrow> diff_bytes ?f (min (length ?xs) (length ?ys)) ?xs ?ys = 0" by auto
  have m: "(if ?l \<le> 0 then length ?xs else length ?ys) = min (length ?xs) (length ?ys)" using l by auto
  have e: "(if ic then diff_bytes (fold_case ct) n ?xs ?ys else diff_bytes (\<lambda>c. int (unat c)) n ?xs ?ys) = diff_bytes ?f n ?xs ?ys" for n
    by (simp add: byte_key_def[abs_def])
  let ?D = "diff_bytes ?f (min (length ?xs) (length ?ys)) ?xs ?ys"
  have "cmp_nodes ic ct s t = (if length ?xs = 0 \<or> length ?ys = 0 then ?l else if ?D = 0 then ?l else ?D)"
    unfolding cmp_nodes_def if_not_P[OF assms(1)] Let_def m e by (rule refl)
  then have "cmp_nodes ic ct s t = r" using d0 unfolding r_def Let_def l by (auto split: if_splits)
  then show ?thesis using diff_bytes_lex[where xs = ?xs and ys = ?ys and f = ?f, OF refl] by (simp add: r_def text_key_def Let_def)
qed

section \<open>When the comparison orders a set of values\<close>

text \<open>All values are numbers other than NaN, or none is a number.\<close>

definition homogeneous :: "node set \<Rightarrow> bool" where
  "homogeneous ts \<longleftrightarrow> (\<forall>t \<in> ts. short t) \<and> ((\<forall>t \<in> ts. numeric t \<and> numbr t \<noteq> NaN) \<or> (\<forall>t \<in> ts. \<not> numeric t))"

text \<open>The order of the numbers: negative infinity, the finite numbers, positive infinity.\<close>

definition num_le :: "awknum \<Rightarrow> awknum \<Rightarrow> bool" where
  "num_le x y \<longleftrightarrow> num_less x y \<or> num_eq x y"

lemma num_le_trans: "num_le x y \<Longrightarrow> num_le y z \<Longrightarrow> num_le x z"
  unfolding num_le_def by (cases x; cases y; cases z) auto

lemma num_le_total: "x \<noteq> NaN \<Longrightarrow> y \<noteq> NaN \<Longrightarrow> num_le x y \<or> num_le y x"
  unfolding num_le_def by (cases x; cases y) auto

lemma cmp_numbers: "numeric s \<Longrightarrow> numeric t \<Longrightarrow> cmp_nodes ic ct s t \<le> 0 \<longleftrightarrow> num_le (numbr s) (numbr t)"
  by (auto simp: cmp_nodes_def num_le_def)

lemma cmp_text_le:
  assumes "\<not> (numeric s \<and> numeric t)" and "short s" and "short t"
  shows "cmp_nodes ic ct s t \<le> 0 \<longleftrightarrow> text_key ic ct s \<le> text_key ic ct t"
  using cmp_text[OF assms, of ic ct] by (auto simp: le_less)

text \<open>On such a set the comparison is a total order up to equal keys.\<close>

lemma cmp_nodes_trans:
  assumes "homogeneous ts" and "r \<in> ts" and "s \<in> ts" and "t \<in> ts"
    and "cmp_nodes ic ct r s \<le> 0" and "cmp_nodes ic ct s t \<le> 0"
  shows "cmp_nodes ic ct r t \<le> 0"
proof (cases "\<forall>t \<in> ts. \<not> numeric t")
  case True
  with assms show ?thesis by (simp add: cmp_text_le homogeneous_def)
next
  case False
  with assms show ?thesis using num_le_trans by (simp add: cmp_numbers homogeneous_def)
qed

lemma cmp_nodes_total:
  assumes "homogeneous ts" and "s \<in> ts" and "t \<in> ts"
  shows "cmp_nodes ic ct s t \<le> 0 \<or> cmp_nodes ic ct t s \<le> 0"
proof (cases "\<forall>t \<in> ts. \<not> numeric t")
  case True
  with assms show ?thesis by (simp add: cmp_text_le homogeneous_def linear)
next
  case False
  with assms show ?thesis using num_le_total by (simp add: cmp_numbers homogeneous_def)
qed

definition number :: "int \<Rightarrow> u8 list \<Rightarrow> node" where
  "number n str = \<lparr>numbr = Fin (of_int n), numeric = True, stptr = str\<rparr>"

definition text_node :: "u8 list \<Rightarrow> node" where
  "text_node str = \<lparr>numbr = Fin 0, numeric = False, stptr = str\<rparr>"

lemma diff_bytes_1: "diff_bytes f 1 (x # xs) (y # ys) = (if f x - f y = 0 then 0 else f x - f y)"
  by (simp add: One_nat_def del: One_nat_def[symmetric])

lemma diff_bytes_2: "f x \<noteq> f y \<Longrightarrow> diff_bytes f 2 (x # xs) (y # ys) = f x - f y"
  by (simp add: numeral_2_eq_2)

text \<open>C30: The comparison behind \<open>asort\<close> and the relational operators is a total preorder on numbers other than NaN, and on
  strings, which it orders lexicographically byte by byte; on both together it is not even transitive: 9 is less
  than 10, 10 less than the string 1a, and 1a less than 9.\<close>

theorem cmp_nodes_order:
  "(\<forall>ts r s t. homogeneous ts \<and> {r, s, t} \<subseteq> ts \<longrightarrow>
      (cmp_nodes ic ct r s \<le> 0 \<or> cmp_nodes ic ct s r \<le> 0) \<and>
      (cmp_nodes ic ct r s \<le> 0 \<and> cmp_nodes ic ct s t \<le> 0 \<longrightarrow> cmp_nodes ic ct r t \<le> 0) \<and>
      (\<not> numeric r \<longrightarrow> cmp_nodes ic ct r s < 0 \<longleftrightarrow> map (byte_key ic ct) (stptr r) < map (byte_key ic ct) (stptr s))) \<and>
   (let nine = number 9 [57]; ten = number 10 [49, 48]; a = text_node [49, 97]
    in cmp_nodes False ct nine ten < 0 \<and> cmp_nodes False ct ten a < 0 \<and> cmp_nodes False ct a nine < 0)"
proof -
  have "let nine = number 9 [57]; ten = number 10 [49, 48]; a = text_node [49, 97]
    in cmp_nodes False ct nine ten < 0 \<and> cmp_nodes False ct ten a < 0 \<and> cmp_nodes False ct a nine < 0"
    by (simp add: number_def text_node_def cmp_nodes_def Let_def to_int_id diff_bytes_1 diff_bytes_2)
  moreover have "cmp_nodes ic ct r s < 0 \<longleftrightarrow> map (byte_key ic ct) (stptr r) < map (byte_key ic ct) (stptr s)"
    if "homogeneous ts" "{r, s, t} \<subseteq> ts" "\<not> numeric r" for ts r s t
    using cmp_text[of r s ic ct] that by (simp add: text_key_def homogeneous_def)
  ultimately show ?thesis using cmp_nodes_trans cmp_nodes_total by (metis (no_types, lifting) insert_subset)
qed

theorem cmp_nodes_order_witness:
  "cmp_nodes True casetable (text_node [66]) (text_node [97]) < 0 \<longleftrightarrow>
    map (byte_key True casetable) [66] < map (byte_key True casetable) [97 :: u8]"
proof -
  let ?ts = "{text_node [66], text_node [97]}"
  have h: "homogeneous ?ts" by (simp add: homogeneous_def text_node_def short_def)
  have "\<not> numeric (text_node [66]) \<longrightarrow>
      cmp_nodes True casetable (text_node [66]) (text_node [97]) < 0 \<longleftrightarrow>
      map (byte_key True casetable) (stptr (text_node [66])) < map (byte_key True casetable) (stptr (text_node [97]))"
    using cmp_nodes_order[of True casetable] h by (meson empty_subsetI insert_subset insertCI)
  then show ?thesis by (simp add: text_node_def)
qed

section \<open>Loading the table\<close>

lemma load_casetable_nth:
  "\<not> trad \<Longrightarrow> \<not> c_loc \<Longrightarrow> length ct = 256 \<Longrightarrow> i < 256 \<Longrightarrow>
   load_casetable trad c_loc lower toup ct ! i =
     (if 128 \<le> i \<and> lower (of_nat i) \<and> of_nat i \<noteq> toup (of_nat i) then toup (of_nat i) else ct ! i)"
proof -
  have "foldl (\<lambda>ct i. if lower (of_nat i) \<and> of_nat i \<noteq> toup (of_nat i) then ct[i := toup (of_nat i)] else ct) ct ns ! i =
    (if i \<in> set ns \<and> lower (of_nat i) \<and> of_nat i \<noteq> toup (of_nat i) then toup (of_nat i) else ct ! i)"
    if "length ct = 256" "i < 256" for ns ct
    using that by (induction ns arbitrary: ct) (auto simp: nth_upd)
  then show "\<not> trad \<Longrightarrow> \<not> c_loc \<Longrightarrow> length ct = 256 \<Longrightarrow> i < 256 \<Longrightarrow> ?thesis" by (simp add: load_casetable_def del: upt_rec_numeral)
qed

lemma length_casetable: "length casetable = 256"
  by (simp add: casetable_def)

lemma nth_second: "length as \<le> i \<Longrightarrow> i < length as + length bs \<Longrightarrow> (as @ bs @ cs) ! i = bs ! (i - length as)"
  by (auto simp: nth_append)

lemma casetable_upper:
  assumes "192 \<le> i" and "i < 215"
  shows "casetable ! i = of_nat (i + 32)"
proof -
  let ?a = "[0..<65] @ [97..<123] @ [91..<192]" and ?c = "[215] @ [248..<255] @ [223] @ [224..<256]"
  have len: "length ?a = 192" by simp
  have "casetable ! i = of_nat ((?a @ [224..<247] @ ?c) ! i)"
    using assms unfolding casetable_def by (subst nth_map) simp_all
  also have "(?a @ [224..<247] @ ?c) ! i = [224..<247] ! (i - 192)"
    using assms nth_second[of ?a i "[224..<247]" ?c] unfolding len by simp
  also have "\<dots> = i + 32" using assms by (subst nth_upt) simp_all
  finally show ?thesis .
qed

text \<open>
  In a Latin-1 locale the loaded table maps the two cases of an accented letter to each other, not to the same
  code: with \<open>IGNORECASE\<close> they still differ.
\<close>

lemma load_casetable_swaps:
  assumes "192 \<le> i" and "i < 215" and "lower (of_nat (i + 32))" and "toup (of_nat (i + 32)) = of_nat i" and "\<not> lower (of_nat i)"
  shows "load_casetable False False lower toup casetable ! i = of_nat (i + 32)"
    and "load_casetable False False lower toup casetable ! (i + 32) = of_nat i"
proof -
  show "load_casetable False False lower toup casetable ! i = of_nat (i + 32)"
    using assms load_casetable_nth[of False False casetable i lower toup] by (simp add: length_casetable casetable_upper)
  have "(of_nat (i + 32) :: u8) \<noteq> of_nat i"
    using assms(1,2) by (simp add: word_of_nat_eq_iff take_bit_eq_mod del: of_nat_add)
  then show "load_casetable False False lower toup casetable ! (i + 32) = of_nat i"
    using assms load_casetable_nth[of False False casetable "i + 32" lower toup] by (simp add: length_casetable)
qed

end
