(* ===== verification/Awk_Hash.thy ===== *)
theory Awk_Hash
  imports Prelude Interfaces
begin

text \<open>
  The hash functions of \<open>array.c\<close>.  An \<open>unsigned long\<close> has 64 bits and a \<open>char\<close> is signed.  A hash function returns
  the bucket and the code from which it was computed; \<open>None\<close> stands for a division by zero and for a read past the string.
\<close>

section \<open>The hash function \<open>awk_hash\<close>\<close>

definition HASHC :: "u64 \<Rightarrow> u8 \<Rightarrow> u64" where
  "HASHC h c = (let htmp = push_bit 6 h in scast c + htmp + push_bit 10 htmp - h)"

text \<open>\<open>n\<close> times \<open>HASHC\<close>, each with the next byte.\<close>

fun hashcs :: "nat \<Rightarrow> u64 \<Rightarrow> u8 list \<Rightarrow> (u64 \<times> u8 list) option" where
  "hashcs 0 h s = Some (h, s)"
| "hashcs (Suc n) h (c # s) = hashcs n (HASHC h c) s"
| "hashcs (Suc n) h [] = None"

text \<open>The device of Duff: the first pass starts at the case for the leftover bytes, the others do eight.\<close>

fun duff_loop :: "nat \<Rightarrow> u64 \<Rightarrow> u8 list \<Rightarrow> u64 option" where
  "duff_loop 0 h s = Some h"
| "duff_loop (Suc n) h s = do { (h', s') \<leftarrow> hashcs 8 h s; duff_loop n h' s' }"

definition awk_hash :: "u8 list \<Rightarrow> nat \<Rightarrow> nat \<Rightarrow> (nat \<times> u64) option" where
  "awk_hash s len hsize = do {
     h \<leftarrow> (if len > 0 then
       let loop = (len + 8 - 1) div 8
       in do { (h', s') \<leftarrow> hashcs (if len mod 8 = 0 then 8 else len mod 8) 0 s; duff_loop (loop - 1) h' s' }
       else Some 0);
     if unat h \<ge> hsize then (if hsize = 0 then None else Some (unat h mod hsize, h))
     else Some (unat h, h) }"

section \<open>The hash function of GNU Smalltalk\<close>

definition scramble :: "u64 \<Rightarrow> u64" where
  "scramble x =
     (let x1 = x XOR drop_bit 31 (NOT x);
          x2 = x1 + (push_bit 21 x1 OR drop_bit 11 x1);
          x3 = x2 + (push_bit 5 x2 OR drop_bit 27 x2);
          x4 = x3 + (push_bit 27 x3 OR drop_bit 5 x3)
      in x4 + push_bit 31 x4)"

fun gst_loop :: "nat \<Rightarrow> u64 \<Rightarrow> u8 list \<Rightarrow> u64 option" where
  "gst_loop 0 v s = Some v"
| "gst_loop (Suc len) v (c # s) =
     (let v1 = v + scast c; v2 = v1 + push_bit 10 v1; v3 = v2 XOR drop_bit 6 v2 in gst_loop len v3 s)"
| "gst_loop (Suc len) v [] = None"

definition gst_hash_string :: "u8 list \<Rightarrow> nat \<Rightarrow> nat \<Rightarrow> (nat \<times> u64) option" where
  "gst_hash_string s len hsize = do {
     v \<leftarrow> gst_loop len 1497032417 s;
     let ret = scramble v in
     if unat ret \<ge> hsize then (if hsize = 0 then None else Some (unat ret mod hsize, ret))
     else Some (unat ret, ret) }"

section \<open>Equivalence with a fold\<close>

lemma HASHC_mult: "HASHC h c = 65599 * h + scast c"
  by (simp add: HASHC_def Let_def push_bit_eq_mult algebra_simps)

definition sdbm :: "u64 \<Rightarrow> u8 list \<Rightarrow> u64" where
  "sdbm = foldl (\<lambda>h c. 65599 * h + scast c)"

lemma hashcs_foldl: "n \<le> length s \<Longrightarrow> hashcs n h s = Some (sdbm h (take n s), drop n s)"
proof (induction n h s rule: hashcs.induct)
  case (2 n h c s)
  then show ?case by (simp add: HASHC_mult sdbm_def)
qed (simp_all add: sdbm_def)

lemma duff_loop_foldl: "length s = 8 * n \<Longrightarrow> duff_loop n h s = Some (sdbm h s)"
proof (induction n arbitrary: h s)
  case (Suc n)
  then have "sdbm h s = sdbm (sdbm h (take 8 s)) (drop 8 s)"
    unfolding sdbm_def by (metis append_take_drop_id foldl_append)
  then show ?case using Suc by (simp add: hashcs_foldl)
qed (simp add: sdbm_def)

lemma duff_count:
  fixes n :: nat
  assumes "0 < n"
  shows "n - (if n mod 8 = 0 then 8 else n mod 8) = 8 * ((n + 8 - 1) div 8 - 1)"
proof -
  obtain q r :: nat where n: "n = 8 * q + r" and r: "r < 8"
    by (metis div_mult_mod_eq mult.commute mod_less_divisor zero_less_numeral)
  have m: "n mod 8 = r" using n r by simp
  show ?thesis
  proof (cases "r = 0")
    case True
    then have "(n + 8 - 1) div 8 = q" using n by simp
    then show ?thesis using True n m assms by simp
  next
    case False
    then have "n + 8 - 1 = 8 * (q + 1) + (r - 1)" using n by simp
    then have "(n + 8 - 1) div 8 = q + 1" using r by simp
    then show ?thesis using False n m by simp
  qed
qed

lemma awk_hash_sdbm:
  assumes "0 < hsize"
  shows "awk_hash s (length s) hsize =
Some (unat (sdbm 0 s) mod hsize, sdbm 0 s)"
proof -
  let ?len = "length s"
  let ?k = "if ?len mod 8 = 0 then 8 else ?len mod 8"
  have "do { (h', s') \<leftarrow> hashcs ?k 0 s; duff_loop ((?len + 8 - 1) div 8 - 1) h' s' } = Some (sdbm 0 s)" if "0 < ?len"
  proof -
    have k: "?k \<le> ?len" using that by (simp add: mod_eq_0_iff_dvd dvd_imp_le)
    have "?len - ?k = 8 * ((?len + 8 - 1) div 8 - 1)" using duff_count[OF that] by simp
    then have "duff_loop ((?len + 8 - 1) div 8 - 1) (sdbm 0 (take ?k s)) (drop ?k s) = Some (sdbm (sdbm 0 (take ?k s)) (drop ?k s))"
      by (intro duff_loop_foldl) simp
    moreover have "sdbm (sdbm 0 (take ?k s)) (drop ?k s) = sdbm 0 s"
      unfolding sdbm_def by (metis append_take_drop_id foldl_append)
    ultimately show ?thesis using hashcs_foldl[OF k, of 0] by simp
  qed
  moreover have "sdbm 0 [] = 0" by (simp add: sdbm_def)
  ultimately have "awk_hash s ?len hsize = do {
      h \<leftarrow> Some (sdbm 0 s);
      if unat h \<ge> hsize then (if hsize = 0 then None else Some (unat h mod hsize, h)) else Some (unat h, h) }"
    by (cases "s = []") (simp_all add: awk_hash_def Let_def)
  then show ?thesis using assms by (simp add: Let_def)
qed

section \<open>Both are hash functions of strings\<close>

definition gst_step :: "u64 \<Rightarrow> u8 \<Rightarrow> u64" where
  "gst_step v c = (let v1 = v + scast c; v2 = v1 + push_bit 10 v1 in v2 XOR drop_bit 6 v2)"

definition gst_code :: "u8 list \<Rightarrow> u64" where
  "gst_code s = scramble (foldl gst_step 1497032417 s)"

lemma gst_loop_foldl: "gst_loop (length s) v s = Some (foldl gst_step v s)"
  by (induction s arbitrary: v) (simp_all add: gst_step_def Let_def)

lemma gst_hash_code:
  "0 < hsize \<Longrightarrow> gst_hash_string s (length s) hsize = Some (unat (gst_code s) mod hsize, gst_code s)"
  by (simp add: gst_hash_string_def gst_loop_foldl gst_code_def Let_def)

interpretation sdbm_hash: string_hash awk_hash "sdbm 0"
  by unfold_locales (rule awk_hash_sdbm)

interpretation gst_hash: string_hash gst_hash_string gst_code
  by unfold_locales (rule gst_hash_code)

text \<open>C29: The unrolled loop of \<open>awk_hash\<close> computes the polynomial hash with multiplier 65599 in 64-bit arithmetic over all
  bytes of every string, in order, never reads past it, and reduces it to a bucket.\<close>

theorem awk_hash_is_sdbm:
  assumes "0 < hsize"
  shows "awk_hash s (length s) hsize =
    (let h = foldl (\<lambda>h c. 65599 * h + scast c) 0 s in Some (unat h mod hsize, h))"
  using awk_hash_sdbm[OF assms] by (simp add: sdbm_def Let_def)

theorem awk_hash_is_sdbm_witness: "awk_hash [97, 98] 2 13 = Some (0, 6363201)"
proof -
  have "length [97, 98 :: u8] = 2" by simp
  from awk_hash_is_sdbm[of 13 "[97, 98]", unfolded this] show ?thesis by simp
qed

end
