(* ===== verification/Awk_Array.thy ===== *)
theory Awk_Array
  imports Awk_Node Awk_Hash "HOL-Library.Multiset"
begin

text \<open>
  The associative arrays of gawk, \<open>array.c\<close>: hash tables with chains, which grow along a list of primes.  A chain is the
  list of its buckets, and a pointer to the value of a bucket is the number of its chain with its position there.
  A bucket whose code was never stored has \<open>None\<close> for it, one whose name was taken away the name \<open>None\<close>.  Reference
  counts, freeing, failing allocation and the warnings of \<open>--lint\<close> are left out.
\<close>

record bucket =
  ahname :: "u8 list option"
  ahcode :: "u64 option"
  ahvalue :: node

record symbol =
  var_array :: "bucket list list option"
  array_size :: nat
  table_size :: int
  maxed :: bool

type_synonym hasher = "u8 list \<Rightarrow> nat \<Rightarrow> nat \<Rightarrow> (nat \<times> u64) option"

section \<open>Settings and subscripts\<close>

text \<open>
  \<open>array_init\<close>: the digits at the start of \<open>AVG_CHAIN_MAX\<close> set the limit (a number too large for an \<open>int\<close> is undefined),
  and \<open>AWK_HASH\<close> selects the hash function.
\<close>

definition is_digit :: "u8 \<Rightarrow> bool" where
  "is_digit c \<longleftrightarrow> 48 \<le> c \<and> c \<le> 57"

fun digits_value :: "nat \<Rightarrow> u8 list \<Rightarrow> nat option" where
  "digits_value n [] = Some n"
| "digits_value n (c # cs) = (if c \<noteq> 0 \<and> is_digit c then
     (if n * 10 + unat c < 2 ^ 31 then digits_value (n * 10 + unat c - 48) cs else None) else Some n)"

definition array_init :: "u8 list option \<Rightarrow> u8 list option \<Rightarrow> nat \<Rightarrow> (nat \<times> hasher) option" where
  "array_init avg_env hash_env avg0 = do {
     avg \<leftarrow> (case avg_env of Some (c # cs) \<Rightarrow> if is_digit c then digits_value 0 (c # cs) else Some avg0 | _ \<Rightarrow> Some avg0);
     Some (avg, if hash_env = Some [103, 115, 116] then gst_hash_string else awk_hash) }"

definition Nnull_string :: node where
  "Nnull_string = \<lparr>numbr = Fin 0, numeric = True, stptr = []\<rparr>"

text \<open>
  \<open>concat_exp\<close> on the values of the expressions: the buffer is \<open>buf\<close> with room for \<open>len\<close> bytes; writing past it is
  \<open>None\<close>.
\<close>

definition put_bytes :: "nat \<Rightarrow> u8 list \<Rightarrow> u8 list \<Rightarrow> u8 list option" where
  "put_bytes len buf s = (if length buf + length s + 1 \<le> len then Some (buf @ s) else None)"

fun concat_loop :: "u8 list \<Rightarrow> nat \<Rightarrow> u8 list \<Rightarrow> u8 list list \<Rightarrow> u8 list option" where
  "concat_loop subsep len buf [] = Some buf"
| "concat_loop subsep len buf (r # rs) = do {
     buf1 \<leftarrow> (case subsep of [c] \<Rightarrow> if length buf < len then Some (buf @ [c]) else None | _ \<Rightarrow> put_bytes len buf subsep);
     let len1 = len + length r + length subsep;
     buf2 \<leftarrow> put_bytes len1 buf1 r;
     concat_loop subsep len1 buf2 rs }"

definition concat_exp :: "u8 list \<Rightarrow> u8 list list \<Rightarrow> u8 list option" where
  "concat_exp subsep rs = (case rs of [] \<Rightarrow> None
     | [r] \<Rightarrow> Some r
     | r # rs \<Rightarrow> do {
         let len = length r + length subsep + 2;
         buf \<leftarrow> put_bytes len [] r;
         concat_loop subsep len buf rs })"

section \<open>The operations\<close>

definition assoc_clear :: "symbol \<Rightarrow> symbol" where
  "assoc_clear symb = (case var_array symb of None \<Rightarrow> symb
     | Some _ \<Rightarrow> symb\<lparr>var_array := None, array_size := 0, table_size := 0, maxed := False\<rparr>)"

text \<open>Names are compared by length and \<open>memcmp\<close>.\<close>

definition same_name :: "bucket \<Rightarrow> u8 list \<Rightarrow> bool" where
  "same_name b subs = (case ahname b of None \<Rightarrow> False
     | Some s1 \<Rightarrow> length s1 = length subs \<and> (length s1 = 0 \<or> diff_bytes (\<lambda>c. int (unat c)) (length s1) s1 subs = 0))"

fun find_chain :: "bucket list \<Rightarrow> u8 list \<Rightarrow> nat option" where
  "find_chain [] subs = None"
| "find_chain (b # bs) subs = (if same_name b subs then Some 0 else map_option Suc (find_chain bs subs))"

definition assoc_find :: "symbol \<Rightarrow> u8 list \<Rightarrow> nat \<Rightarrow> (nat \<times> nat) option option" where
  "assoc_find symb subs hash1 = do {
     vs \<leftarrow> var_array symb;
     chain \<leftarrow> rd_at vs hash1;
     Some (map_option (Pair hash1) (find_chain chain subs)) }"

text \<open>Reading and writing through a pointer to a value.\<close>

definition get_value :: "symbol \<Rightarrow> nat \<times> nat \<Rightarrow> node option" where
  "get_value symb p = do { vs \<leftarrow> var_array symb; chain \<leftarrow> rd_at vs (fst p); b \<leftarrow> rd_at chain (snd p); Some (ahvalue b) }"

definition put_value :: "symbol \<Rightarrow> nat \<times> nat \<Rightarrow> node \<Rightarrow> symbol option" where
  "put_value symb p v = do {
     vs \<leftarrow> var_array symb;
     chain \<leftarrow> rd_at vs (fst p);
     b \<leftarrow> rd_at chain (snd p);
     Some (symb\<lparr>var_array := Some (vs[fst p := chain[snd p := b\<lparr>ahvalue := v\<rparr>]])\<rparr>) }"

definition in_array :: "hasher \<Rightarrow> symbol \<Rightarrow> u8 list \<Rightarrow> node option option" where
  "in_array H symb subs = (case var_array symb of None \<Rightarrow> Some None
     | Some _ \<Rightarrow> do {
         (hash1, _) \<leftarrow> H subs (length subs) (array_size symb);
         ret \<leftarrow> assoc_find symb subs hash1;
         (case ret of None \<Rightarrow> Some None | Some p \<Rightarrow> map_option Some (get_value symb p)) })"

definition sizes :: "nat list" where
  "sizes = [13, 127, 1021, 8191, 16381, 32749, 65497, 131101, 262147, 524309, 1048583, 2097169,
     4194319, 8388617, 16777259, 33554467, 67108879, 134217757, 268435459, 536870923, 1073741827]"

fun move_chain :: "bucket list \<Rightarrow> nat \<Rightarrow> bucket list list \<Rightarrow> bucket list list option" where
  "move_chain [] newsize new = Some new"
| "move_chain (b # chain) newsize new = do {
     code \<leftarrow> ahcode b;
     let hash1 = unat code mod newsize;
     c \<leftarrow> rd_at new hash1;
     move_chain chain newsize (new[hash1 := b # c]) }"

fun move_table :: "bucket list list \<Rightarrow> nat list \<Rightarrow> nat \<Rightarrow> bucket list list \<Rightarrow> bucket list list option" where
  "move_table old [] newsize new = Some new"
| "move_table old (k # ks) newsize new = do {
     chain \<leftarrow> rd_at old k;
     new1 \<leftarrow> move_chain chain newsize new;
     move_table old ks newsize new1 }"

definition grow_table :: "symbol \<Rightarrow> symbol option" where
  "grow_table symb =
     (let oldsize = array_size symb;
          newsize = (case find (\<lambda>n. oldsize < n) sizes of None \<Rightarrow> oldsize | Some n \<Rightarrow> n)
      in if newsize = oldsize then Some (symb\<lparr>maxed := True\<rparr>)
         else (case var_array symb of
             None \<Rightarrow> Some (symb\<lparr>table_size := 0, var_array := Some (replicate newsize []), array_size := newsize\<rparr>)
           | Some old \<Rightarrow> do {
               new \<leftarrow> move_table old [0..<oldsize] newsize (replicate newsize []);
               Some (symb\<lparr>var_array := Some new, array_size := newsize\<rparr>) }))"

text \<open>A new bucket at the head of its chain.\<close>

definition install_bucket :: "symbol \<Rightarrow> nat \<Rightarrow> bucket \<Rightarrow> symbol option" where
  "install_bucket symb hash1 b = do {
     vs \<leftarrow> var_array symb;
     chain \<leftarrow> rd_at vs hash1;
     Some (symb\<lparr>var_array := Some (vs[hash1 := b # chain])\<rparr>) }"

definition assoc_lookup :: "nat \<Rightarrow> hasher \<Rightarrow> symbol \<Rightarrow> u8 list \<Rightarrow> (symbol \<times> nat \<times> nat) option" where
  "assoc_lookup AVG_CHAIN_MAX H symb subs = do {
     (symb1, hash1, code, found) \<leftarrow> (case var_array symb of
         None \<Rightarrow> do {
           symb1 \<leftarrow> grow_table (symb\<lparr>array_size := 0, table_size := 0, maxed := False\<rparr>);
           (hash1, code) \<leftarrow> H subs (length subs) (array_size symb1);
           Some (symb1, hash1, code, None) }
       | Some _ \<Rightarrow> do {
           (hash1, code) \<leftarrow> H subs (length subs) (array_size symb);
           bucket \<leftarrow> assoc_find symb subs hash1;
           Some (symb, hash1, code, bucket) });
     (case found of
         Some p \<Rightarrow> Some (symb1, p)
       | None \<Rightarrow> do {
           let symb2 = symb1\<lparr>table_size := table_size symb1 + 1\<rparr>;
           (symb3, hash2) \<leftarrow> (if array_size symb2 = 0 then None
             else if \<not> maxed symb2 \<and> table_size symb2 div int (array_size symb2) > int AVG_CHAIN_MAX then do {
               symb3 \<leftarrow> grow_table symb2;
               Some (symb3, unat code mod array_size symb3) }
             else Some (symb2, hash1));
           symb4 \<leftarrow> install_bucket symb3 hash2 \<lparr>ahname = Some subs, ahcode = Some code, ahvalue = Nnull_string\<rparr>;
           Some (symb4, hash2, 0) }) }"

text \<open>\<open>do_delete\<close> of an element, or of the array when there is no subscript.\<close>

definition do_delete :: "hasher \<Rightarrow> symbol \<Rightarrow> u8 list option \<Rightarrow> symbol option" where
  "do_delete H symb tree = (case tree of None \<Rightarrow> Some (assoc_clear symb)
     | Some subs \<Rightarrow> (case var_array symb of None \<Rightarrow> Some symb
         | Some vs \<Rightarrow> do {
             (hash1, _) \<leftarrow> H subs (length subs) (array_size symb);
             chain \<leftarrow> rd_at vs hash1;
             (case find_chain chain subs of None \<Rightarrow> Some symb
              | Some i \<Rightarrow>
                  let symb1 = symb\<lparr>var_array := Some (vs[hash1 := take i chain @ drop (Suc i) chain]), table_size := table_size symb - 1\<rparr>
                  in if table_size symb1 \<le> 0
                     then Some (symb1\<lparr>var_array := None, array_size := 0, table_size := 0, maxed := False\<rparr>)
                     else Some symb1) }))"

text \<open>The first index goes to the loop variable, then the array is cleared.\<close>

definition do_delete_loop :: "symbol \<Rightarrow> u8 list option \<times> symbol" where
  "do_delete_loop symb = (case var_array symb of None \<Rightarrow> (None, symb)
     | Some vs \<Rightarrow> (Option.bind (find (\<lambda>chain. chain \<noteq> []) vs) (\<lambda>chain. ahname (hd chain)), assoc_clear symb))"

text \<open>The copies have no code, and the chains are in the opposite order.\<close>

definition dup_table :: "symbol \<Rightarrow> symbol \<Rightarrow> symbol" where
  "dup_table symb newsymb = (case var_array symb of
       None \<Rightarrow> newsymb\<lparr>table_size := 0, var_array := None, array_size := array_size symb\<rparr>
     | Some old \<Rightarrow> newsymb\<lparr>table_size := table_size symb,
         var_array := Some (map (\<lambda>chain. rev (map (\<lambda>b. b\<lparr>ahcode := None\<rparr>) chain)) old), array_size := array_size symb\<rparr>)"

section \<open>Well-formed tables\<close>

text \<open>Every bucket has its name and the code of its name, and is in the chain of its code.\<close>

definition placed :: "(u8 list \<Rightarrow> u64) \<Rightarrow> nat \<Rightarrow> bucket list list \<Rightarrow> bool" where
  "placed code n vs \<longleftrightarrow> length vs = n \<and> (\<forall>i < n. \<forall>b \<in> set (vs ! i).
     \<exists>nm. ahname b = Some nm \<and> ahcode b = Some (code nm) \<and> unat (code nm) mod n = i)"

definition wf_table :: "(u8 list \<Rightarrow> u64) \<Rightarrow> nat \<Rightarrow> bucket list list \<Rightarrow> bool" where
  "wf_table code n vs \<longleftrightarrow> 0 < n \<and> placed code n vs \<and> distinct (map ahname (concat vs))"

definition table_ok :: "(u8 list \<Rightarrow> u64) \<Rightarrow> symbol \<Rightarrow> bool" where
  "table_ok code symb \<longleftrightarrow> (case var_array symb of None \<Rightarrow> table_size symb = 0
     | Some vs \<Rightarrow> wf_table code (array_size symb) vs \<and> table_size symb = int (length (concat vs)))"

text \<open>The array as a map.\<close>

definition elem_map :: "symbol \<Rightarrow> u8 list \<Rightarrow> node option" where
  "elem_map symb = (case var_array symb of None \<Rightarrow> Map.empty
     | Some vs \<Rightarrow> map_of (map (\<lambda>b. (the (ahname b), ahvalue b)) (concat vs)))"

lemma same_name_iff: "same_name b s \<longleftrightarrow> ahname b = Some s"
proof (cases "ahname b")
  case (Some t)
  let ?f = "\<lambda>c :: u8. int (unat c)"
  have "t = s" if "length t = length s" "diff_bytes ?f (length t) t s = 0"
  proof -
    have "map ?f t = map ?f s" using diff_bytes_lex[where xs = t and ys = s and f = ?f, OF refl] that by (simp add: Let_def)
    then show ?thesis by (rule map_injective) (rule injI, metis of_nat_eq_iff word_unat_eq_iff)
  qed
  moreover have "diff_bytes ?f (length s) s s = 0"
    using diff_bytes_lex[where xs = s and ys = s and f = ?f, OF refl] by (auto simp: Let_def split: if_split_asm)
  ultimately show ?thesis using Some by (auto simp: same_name_def)
qed (simp add: same_name_def)

lemma find_chain_Some: "find_chain ch s = Some i \<Longrightarrow> i < length ch \<and> ahname (ch ! i) = Some s"
  by (induction ch arbitrary: i) (auto simp: same_name_iff split: if_split_asm)

lemma find_chain_None: "find_chain ch s = None \<longleftrightarrow> (\<forall>b \<in> set ch. ahname b \<noteq> Some s)"
  by (induction ch) (auto simp: same_name_iff)

lemma concat_at:
  assumes "i < length vs"
  obtains A B where "concat vs = A @ vs ! i @ B" "\<And>ch. concat (vs[i := ch]) = A @ ch @ B"
proof
  show "concat vs = concat (take i vs) @ vs ! i @ concat (drop (Suc i) vs)"
    by (subst id_take_nth_drop[OF assms]) simp
  show "concat (vs[i := ch]) = concat (take i vs) @ ch @ concat (drop (Suc i) vs)" for ch
    using assms by (simp add: upd_conv_take_nth_drop)
qed

lemma distinct_map_eq: "distinct (map f xs) \<Longrightarrow> x \<in> set xs \<Longrightarrow> y \<in> set xs \<Longrightarrow> f x = f y \<Longrightarrow> x = y"
  by (metis distinct_map inj_onD)

lemma nth_concat_mem: "i < length vs \<Longrightarrow> j < length (vs ! i) \<Longrightarrow> vs ! i ! j \<in> set (concat vs)"
  by (auto intro!: bexI[of _ "vs ! i"])

lemma placedD:
  "placed code n vs \<Longrightarrow> i < n \<Longrightarrow> b \<in> set (vs ! i) \<Longrightarrow>
   \<exists>nm. ahname b = Some nm \<and> ahcode b = Some (code nm) \<and> unat (code nm) mod n = i"
  by (simp add: placed_def)

lemma placed_mem:
  assumes "placed code n vs" and "b \<in> set (concat vs)"
  obtains nm where "ahname b = Some nm" "ahcode b = Some (code nm)" "b \<in> set (vs ! (unat (code nm) mod n))"
  using assms unfolding placed_def by (metis in_set_conv_nth in_set_conv_decomp set_concat UN_E)

lemma placed_upd:
  assumes "placed code n vs" and "i < n"
    and "\<And>b. b \<in> set ch \<Longrightarrow> b \<in> set (vs ! i) \<or> (\<exists>nm. ahname b = Some nm \<and> ahcode b = Some (code nm) \<and> unat (code nm) mod n = i)"
  shows "placed code n (vs[i := ch])"
  using assms unfolding placed_def by (auto simp: nth_list_update)

lemma map_of_names:
  assumes "\<forall>b \<in> set bs. ahname b \<noteq> None" and "distinct (map ahname bs)"
  shows "map_of (map (\<lambda>b. (the (ahname b), ahvalue b)) bs) k = Some v \<longleftrightarrow> (\<exists>b \<in> set bs. ahname b = Some k \<and> ahvalue b = v)"
  using assms
proof (induction bs)
  case (Cons b bs)
  then obtain nm where "ahname b = Some nm" by auto
  then show ?case using Cons by (force simp: image_iff)
qed simp

lemma elem_map_iff:
  assumes "wf_table code (array_size symb) vs" and "var_array symb = Some vs"
  shows "elem_map symb k = Some v \<longleftrightarrow> (\<exists>b \<in> set (concat vs). ahname b = Some k \<and> ahvalue b = v)"
proof -
  have "placed code (array_size symb) vs" "distinct (map ahname (concat vs))" using assms(1) by (simp_all add: wf_table_def)
  then have "\<forall>b \<in> set (concat vs). ahname b \<noteq> None" by (metis option.distinct(1) placed_mem)
  from map_of_names[OF this \<open>distinct (map ahname (concat vs))\<close>] show ?thesis using assms(2) by (simp add: elem_map_def)
qed

lemma map_eqI: "(\<And>k v. m k = Some v \<longleftrightarrow> m' k = Some v) \<Longrightarrow> m = m'"
  by (rule ext) (metis not_None_eq)

section \<open>Growing\<close>

lemma move_chain_ok:
  assumes "placed code n new" and "0 < n" and "\<forall>b \<in> set ch. \<exists>nm. ahname b = Some nm \<and> ahcode b = Some (code nm)"
  shows "\<exists>new'. move_chain ch n new = Some new' \<and> placed code n new' \<and> mset (concat new') = mset (concat new) + mset ch"
  using assms
proof (induction ch arbitrary: new)
  case (Cons b ch)
  then obtain nm where nm: "ahname b = Some nm" "ahcode b = Some (code nm)" by auto
  let ?i = "unat (code nm) mod n"
  have i: "?i < n" "?i < length new" using Cons.prems(1,2) by (simp_all add: placed_def)
  let ?new = "new[?i := b # new ! ?i]"
  have p: "placed code n ?new" by (rule placed_upd[OF Cons.prems(1) i(1)]) (use nm in auto)
  obtain A B where "concat new = A @ new ! ?i @ B" "\<And>ch. concat (new[?i := ch]) = A @ ch @ B" by (rule concat_at[OF i(2)]) blast
  then have m: "mset (concat ?new) = mset (concat new) + {#b#}" by simp
  from Cons.IH[OF p Cons.prems(2)] Cons.prems(3) obtain new' where "move_chain ch n ?new = Some new'" "placed code n new'"
    "mset (concat new') = mset (concat ?new) + mset ch" by auto
  then show ?case using nm i m by simp
qed simp

lemma move_table_ok:
  assumes "placed code n new" and "0 < n" and "\<forall>k \<in> set ks. k < length old"
    and "\<forall>b \<in> set (concat old). \<exists>nm. ahname b = Some nm \<and> ahcode b = Some (code nm)"
  shows "\<exists>new'. move_table old ks n new = Some new' \<and> placed code n new' \<and>
    mset (concat new') = mset (concat new) + mset (concat (map ((!) old) ks))"
  using assms(1,3)
proof (induction ks arbitrary: new)
  case (Cons k ks)
  then have k: "k < length old" by simp
  then have "\<forall>b \<in> set (old ! k). \<exists>nm. ahname b = Some nm \<and> ahcode b = Some (code nm)" using assms(4) by auto
  from move_chain_ok[OF Cons.prems(1) assms(2) this] obtain new1 where n1: "move_chain (old ! k) n new = Some new1" "placed code n new1"
    "mset (concat new1) = mset (concat new) + mset (old ! k)" by blast
  from Cons.IH[OF n1(2)] Cons.prems(2) obtain new' where "move_table old ks n new1 = Some new'" "placed code n new'"
    "mset (concat new') = mset (concat new1) + mset (concat (map ((!) old) ks))" by auto
  then show ?case using n1 k by simp
qed simp

lemma placed_replicate: "placed code n (replicate n [])"
  by (simp add: placed_def)

lemma sizes_find:
  "find (\<lambda>n. old < n) sizes = Some n \<Longrightarrow> old < n" "find (\<lambda>n. 0 < n) sizes = Some 13"
  by (auto simp: find_Some_iff)[1] (simp add: sizes_def)

text \<open>Growing keeps the buckets; the number of chains rises, or the table is marked.\<close>

lemma grow_table_ok:
  assumes "wf_table code (array_size symb) vs" and "var_array symb = Some vs"
  shows "\<exists>symb' vs'. grow_table symb = Some symb' \<and> wf_table code (array_size symb') vs' \<and> var_array symb' = Some vs' \<and>
    mset (concat vs') = mset (concat vs) \<and> table_size symb' = table_size symb \<and>
    (maxed symb' \<or> array_size symb < array_size symb')"
proof (cases "find (\<lambda>n. array_size symb < n) sizes")
  case None
  then show ?thesis using assms by (simp add: grow_table_def Let_def)
next
  case (Some n)
  have t: "0 < array_size symb" "placed code (array_size symb) vs" "distinct (map ahname (concat vs))"
    using assms by (simp_all add: wf_table_def)
  have n: "array_size symb < n" by (rule sizes_find(1)[OF Some])
  have len: "length vs = array_size symb" using t(2) by (simp add: placed_def)
  have "\<forall>b \<in> set (concat vs). \<exists>nm. ahname b = Some nm \<and> ahcode b = Some (code nm)"
    using t(2) by (metis placed_mem)
  from move_table_ok[OF placed_replicate _ _ this, of n "[0..<array_size symb]"] n len obtain new where
    new: "move_table vs [0..<array_size symb] n (replicate n []) = Some new" "placed code n new"
      "mset (concat new) = mset (concat (map ((!) vs) [0..<array_size symb]))" by auto
  have m: "mset (concat new) = mset (concat vs)" using new(3) len map_nth[of vs] by simp
  then have "mset (map ahname (concat new)) = mset (map ahname (concat vs))" by simp
  then have "distinct (map ahname (concat new))" using t(3) mset_eq_imp_distinct_iff by blast
  then show ?thesis using Some n new(1,2) m assms(2)
    by (intro exI[of _ "symb\<lparr>var_array := Some new, array_size := n\<rparr>"] exI[of _ new])
      (simp add: grow_table_def Let_def wf_table_def)
qed

text \<open>While the table can grow, the chains have at most \<open>avg\<close> buckets on average, rounded down.\<close>

definition chains_short :: "nat \<Rightarrow> symbol \<Rightarrow> bool" where
  "chains_short avg symb \<longleftrightarrow> var_array symb = None \<or> maxed symb \<or> table_size symb div int (array_size symb) \<le> int avg"

section \<open>Finding, installing and removing a bucket\<close>

text \<open>A pointer to the value of the bucket with the name \<open>k\<close>.\<close>

definition points_to :: "symbol \<Rightarrow> nat \<times> nat \<Rightarrow> u8 list \<Rightarrow> bool" where
  "points_to symb p k \<longleftrightarrow> (case var_array symb of None \<Rightarrow> False
     | Some vs \<Rightarrow> fst p < length vs \<and> snd p < length (vs ! fst p) \<and> ahname (vs ! fst p ! snd p) = Some k)"

lemma wf_length: "wf_table code n vs \<Longrightarrow> length vs = n \<and> 0 < n"
  by (simp add: wf_table_def placed_def)

lemma points_value:
  assumes "wf_table code (array_size symb) vs" and "var_array symb = Some vs" and "points_to symb p k"
  shows "get_value symb p = elem_map symb k" and "elem_map symb k \<noteq> None"
proof -
  let ?b = "vs ! fst p ! snd p"
  have p: "fst p < length vs" "snd p < length (vs ! fst p)" "ahname ?b = Some k"
    using assms(2,3) by (simp_all add: points_to_def)
  then have "?b \<in> set (concat vs)" by (intro nth_concat_mem)
  then have "elem_map symb k = Some (ahvalue ?b)" using elem_map_iff[OF assms(1,2)] p(3) by blast
  then show "get_value symb p = elem_map symb k" "elem_map symb k \<noteq> None"
    using p assms(2) by (simp_all add: get_value_def)
qed

lemma find_in_table:
  fixes k :: "u8 list"
  assumes wf: "wf_table code (array_size symb) vs" and vs: "var_array symb = Some vs"
  defines "i \<equiv> unat (code k) mod array_size symb"
  shows "assoc_find symb k i = Some (map_option (Pair i) (find_chain (vs ! i) k))"
    and "find_chain (vs ! i) k = None \<longleftrightarrow> elem_map symb k = None"
    and "find_chain (vs ! i) k = Some j \<Longrightarrow> points_to symb (i, j) k"
proof -
  have i: "i < length vs" using wf_length[OF wf] by (simp add: i_def)
  show "assoc_find symb k i = Some (map_option (Pair i) (find_chain (vs ! i) k))" using vs i by (simp add: assoc_find_def)
  have "(\<forall>b \<in> set (vs ! i). ahname b \<noteq> Some k) \<longleftrightarrow> (\<forall>b \<in> set (concat vs). ahname b \<noteq> Some k)"
  proof
    assume a: "\<forall>b \<in> set (vs ! i). ahname b \<noteq> Some k"
    show "\<forall>b \<in> set (concat vs). ahname b \<noteq> Some k"
    proof (intro ballI notI)
      fix b assume b: "b \<in> set (concat vs)" "ahname b = Some k"
      have "placed code (array_size symb) vs" using wf by (simp add: wf_table_def)
      then obtain nm where "ahname b = Some nm" "b \<in> set (vs ! (unat (code nm) mod array_size symb))" using b(1) by (rule placed_mem)
      then show False using a b(2) by (simp add: i_def)
    qed
  qed (use i in auto)
  then show "find_chain (vs ! i) k = None \<longleftrightarrow> elem_map symb k = None"
    using elem_map_iff[OF wf vs, of k] find_chain_None[of "vs ! i" k] by (metis not_None_eq)
  show "find_chain (vs ! i) k = Some j \<Longrightarrow> points_to symb (i, j) k"
    using find_chain_Some[of "vs ! i" k j] vs i by (simp add: points_to_def)
qed

text \<open>Writing through a pointer.\<close>

lemma changed_value:
  assumes "\<And>c. c \<in> S \<Longrightarrow> ahname c = Some k \<Longrightarrow> c = b" and "ahname b = Some k"
  shows "(\<exists>c \<in> insert (b\<lparr>ahvalue := v\<rparr>) (S - {b}). ahname c = Some k' \<and> ahvalue c = v') \<longleftrightarrow>
    (if k' = k then v = v' else \<exists>c \<in> S. ahname c = Some k' \<and> ahvalue c = v')"
proof -
  have "\<forall>c \<in> S - {b}. ahname c \<noteq> Some k" using assms(1) by blast
  then show ?thesis using assms(2) by (cases "k' = k") auto
qed

lemma put_value_ok:
  assumes ok: "table_ok code symb" and p: "points_to symb p k"
  shows "\<exists>symb'. put_value symb p v = Some symb' \<and> table_ok code symb' \<and> elem_map symb' = (elem_map symb)(k \<mapsto> v) \<and>
    (chains_short avg symb \<longrightarrow> chains_short avg symb')"
proof -
  obtain vs where vs: "var_array symb = Some vs" using p by (auto simp: points_to_def split: option.split_asm)
  then have wf: "wf_table code (array_size symb) vs" and ts: "table_size symb = int (length (concat vs))"
    using ok by (simp_all add: table_ok_def)
  obtain i j where ij: "p = (i, j)" by (cases p)
  let ?b = "vs ! i ! j"
  let ?ch = "(vs ! i)[j := ?b\<lparr>ahvalue := v\<rparr>]"
  have i: "i < length vs" "j < length (vs ! i)" "ahname ?b = Some k" using p vs ij by (simp_all add: points_to_def)
  obtain A B where AB: "concat vs = A @ vs ! i @ B" "\<And>ch. concat (vs[i := ch]) = A @ ch @ B" using concat_at[OF i(1)] by blast
  let ?s = "symb\<lparr>var_array := Some (vs[i := ?ch])\<rparr>"
  have s: "put_value symb p v = Some ?s" using vs i ij by (simp add: put_value_def)
  have names: "map ahname ?ch = map ahname (vs ! i)" using i by (simp add: map_update list_update_same_conv[THEN iffD2])
  have pl: "placed code (array_size symb) vs" using wf by (simp add: wf_table_def)
  have "placed code (array_size symb) (vs[i := ?ch])"
  proof (rule placed_upd[OF pl])
    show "i < array_size symb" using i(1) wf_length[OF wf] by simp
    fix b assume "b \<in> set ?ch"
    then have "b = ?b\<lparr>ahvalue := v\<rparr> \<or> b \<in> set (vs ! i)" by (meson insertE set_update_subset_insert subsetD)
    moreover have "\<exists>nm. ahname ?b = Some nm \<and> ahcode ?b = Some (code nm) \<and> unat (code nm) mod array_size symb = i"
      using placedD[OF pl, of i ?b] i wf_length[OF wf] by simp
    ultimately show "b \<in> set (vs ! i) \<or> (\<exists>nm. ahname b = Some nm \<and> ahcode b = Some (code nm) \<and> unat (code nm) mod array_size symb = i)"
      by auto
  qed
  moreover have d: "distinct (map ahname (concat vs))" using wf by (simp add: wf_table_def)
  then have "distinct (map ahname (concat (vs[i := ?ch])))" unfolding AB(2) using names AB(1) by (simp add: map_append[symmetric] del: map_append) (metis map_append)
  ultimately have wf': "wf_table code (array_size ?s) (vs[i := ?ch])" using wf by (simp add: wf_table_def)
  then have ok': "table_ok code ?s" using ts AB by (simp add: table_ok_def)
  have "elem_map ?s = (elem_map symb)(k \<mapsto> v)"
  proof (rule map_eqI)
    fix k' v'
    have only: "b = ?b" if "b \<in> set (concat vs)" "ahname b = Some k" for b
    proof -
      have "?b \<in> set (concat vs)" using i by (intro nth_concat_mem)
      from distinct_map_eq[OF d that(1) this] show ?thesis using that(2) i(3) by simp
    qed
    have all: "concat vs = (A @ take j (vs ! i)) @ ?b # (drop (Suc j) (vs ! i) @ B)"
      unfolding AB(1) using id_take_nth_drop[OF i(2)] by simp
    have new: "concat (vs[i := ?ch]) = (A @ take j (vs ! i)) @ ?b\<lparr>ahvalue := v\<rparr> # (drop (Suc j) (vs ! i) @ B)"
      unfolding AB(2) using i(2) by (simp add: upd_conv_take_nth_drop)
    have "distinct (concat vs)" using d by (simp add: distinct_map)
    then have st: "set (concat (vs[i := ?ch])) = insert (?b\<lparr>ahvalue := v\<rparr>) (set (concat vs) - {?b})"
      unfolding all new by auto
    have "elem_map ?s k' = Some v' \<longleftrightarrow>
        (\<exists>c \<in> insert (?b\<lparr>ahvalue := v\<rparr>) (set (concat vs) - {?b}). ahname c = Some k' \<and> ahvalue c = v')"
      using elem_map_iff[OF wf', of k' v'] unfolding st by (simp del: set_concat)
    moreover have "elem_map symb k' = Some v' \<longleftrightarrow> (\<exists>c \<in> set (concat vs). ahname c = Some k' \<and> ahvalue c = v')"
      by (rule elem_map_iff[OF wf vs])
    ultimately show "elem_map ?s k' = Some v' \<longleftrightarrow> ((elem_map symb)(k \<mapsto> v)) k' = Some v'"
      using changed_value[where S = "set (concat vs)" and v = v and k' = k' and v' = v', OF only i(3)] by (auto split: if_split_asm)
  qed
  then show ?thesis using s ok' by (intro exI[of _ ?s]) (simp add: chains_short_def vs)
qed

lemma install_bucket_ok:
  fixes k :: "u8 list" and v :: node
  assumes wf: "wf_table code (array_size symb) vs" and vs: "var_array symb = Some vs"
    and i: "i = unat (code k) mod array_size symb" and new: "elem_map symb k = None"
  defines "b \<equiv> \<lparr>ahname = Some k, ahcode = Some (code k), ahvalue = v\<rparr>"
  defines "symb' \<equiv> symb\<lparr>var_array := Some (vs[i := b # vs ! i])\<rparr>"
  shows "install_bucket symb i b = Some symb'" and "wf_table code (array_size symb') (vs[i := b # vs ! i])"
    and "elem_map symb' = (elem_map symb)(k \<mapsto> v)" and "points_to symb' (i, 0) k"
    and "length (concat (vs[i := b # vs ! i])) = Suc (length (concat vs))"
proof -
  have il: "i < array_size symb" "i < length vs" using wf_length[OF wf] i by simp_all
  obtain A B where AB: "concat vs = A @ vs ! i @ B" "\<And>ch. concat (vs[i := ch]) = A @ ch @ B" using concat_at[OF il(2)] by blast
  show "install_bucket symb i b = Some symb'" using vs il by (simp add: install_bucket_def symb'_def)
  have nn: "\<forall>b \<in> set (concat vs). ahname b \<noteq> Some k" using elem_map_iff[OF wf vs, of k] new by auto
  have pl: "placed code (array_size symb) vs" and d: "distinct (map ahname (concat vs))" using wf by (simp_all add: wf_table_def)
  have "placed code (array_size symb) (vs[i := b # vs ! i])"
    by (rule placed_upd[OF pl il(1)]) (use i in \<open>auto simp: b_def\<close>)
  moreover have "distinct (map ahname (concat (vs[i := b # vs ! i])))"
    using d nn unfolding AB by (auto simp: b_def image_iff)
  ultimately show wf': "wf_table code (array_size symb') (vs[i := b # vs ! i])" using wf by (simp add: wf_table_def symb'_def)
  have st: "set (concat (vs[i := b # vs ! i])) = insert b (set (concat vs))" unfolding AB by auto
  show "elem_map symb' = (elem_map symb)(k \<mapsto> v)"
  proof (rule map_eqI)
    fix k' v'
    have "elem_map symb' k' = Some v' \<longleftrightarrow> (\<exists>c \<in> insert b (set (concat vs)). ahname c = Some k' \<and> ahvalue c = v')"
      using elem_map_iff[OF wf', of k' v'] unfolding st by (simp add: symb'_def del: set_concat)
    then show "elem_map symb' k' = Some v' \<longleftrightarrow> ((elem_map symb)(k \<mapsto> v)) k' = Some v'"
      using elem_map_iff[OF wf vs, of k' v'] nn by (cases "k' = k") (auto simp: b_def simp del: set_concat)
  qed
  show "points_to symb' (i, 0) k" using il by (simp add: points_to_def symb'_def b_def)
  show "length (concat (vs[i := b # vs ! i])) = Suc (length (concat vs))" unfolding AB by simp
qed

lemma remove_bucket_ok:
  fixes t :: int
  assumes wf: "wf_table code (array_size symb) vs" and vs: "var_array symb = Some vs"
    and i: "i < length vs" and j: "j < length (vs ! i)" "ahname (vs ! i ! j) = Some k"
  defines "ch \<equiv> take j (vs ! i) @ drop (Suc j) (vs ! i)"
  defines "symb' \<equiv> symb\<lparr>var_array := Some (vs[i := ch]), table_size := t\<rparr>"
  shows "wf_table code (array_size symb') (vs[i := ch])" and "elem_map symb' = (elem_map symb)(k := None)"
    and "Suc (length (concat (vs[i := ch]))) = length (concat vs)"
proof -
  obtain A B where AB: "concat vs = A @ vs ! i @ B" "\<And>ch. concat (vs[i := ch]) = A @ ch @ B" using concat_at[OF i] by blast
  let ?b = "vs ! i ! j"
  have sp: "vs ! i = take j (vs ! i) @ ?b # drop (Suc j) (vs ! i)" using j(1) by (rule id_take_nth_drop)
  have all: "concat vs = (A @ take j (vs ! i)) @ ?b # (drop (Suc j) (vs ! i) @ B)" using AB(1) sp by (metis append_Cons append_assoc)
  have rest: "concat (vs[i := ch]) = (A @ take j (vs ! i)) @ (drop (Suc j) (vs ! i) @ B)" unfolding AB ch_def by simp
  have pl: "placed code (array_size symb) vs" and d: "distinct (map ahname (concat vs))" using wf by (simp_all add: wf_table_def)
  have "i < array_size symb" using i wf_length[OF wf] by simp
  then have "placed code (array_size symb) (vs[i := ch])"
    by (rule placed_upd[OF pl]) (auto simp: ch_def dest: in_set_takeD in_set_dropD)
  moreover have "distinct (map ahname (concat (vs[i := ch])))" using d unfolding all rest by auto
  ultimately show wf': "wf_table code (array_size symb') (vs[i := ch])" using wf by (simp add: wf_table_def symb'_def)
  have others: "\<forall>c \<in> set (concat (vs[i := ch])). ahname c \<noteq> Some k" using d j(2) unfolding all rest by (auto simp: image_iff)
  have st: "set (concat vs) = insert ?b (set (concat (vs[i := ch])))" unfolding all rest by auto
  show "elem_map symb' = (elem_map symb)(k := None)"
  proof (rule map_eqI)
    fix k' v'
    have "elem_map symb' k' = Some v' \<longleftrightarrow> (\<exists>c \<in> set (concat (vs[i := ch])). ahname c = Some k' \<and> ahvalue c = v')"
      using elem_map_iff[OF wf'] by (simp add: symb'_def)
    then show "elem_map symb' k' = Some v' \<longleftrightarrow> ((elem_map symb)(k := None)) k' = Some v'"
      using elem_map_iff[OF wf vs, of k' v'] others j(2) by (cases "k' = k") (auto simp: st simp del: set_concat)
  qed
  show "Suc (length (concat (vs[i := ch]))) = length (concat vs)" unfolding all rest by simp
qed

section \<open>The operations keep the tables and act on the map\<close>

lemma chains_short_grown:
  assumes "t div int n \<le> int avg" and "n < m" and "0 < n"
  shows "(t + 1) div int m \<le> int avg"
proof (rule ccontr)
  assume "\<not> ?thesis"
  then have "int m * (int avg + 1) \<le> int m * ((t + 1) div int m)" by (intro mult_left_mono) simp_all
  also have "0 \<le> (t + 1) mod int m" by (rule pos_mod_sign) (use assms(2,3) in simp)
  then have "int m * ((t + 1) div int m) \<le> t + 1" using mult_div_mod_eq[of "int m" "t + 1"] by linarith
  finally have "int m * (int avg + 1) \<le> t + 1" .
  moreover have "t mod int n < int n" by (rule pos_mod_bound) (use assms(3) in simp)
  then have "t < int n * (t div int n) + int n" using mult_div_mod_eq[of "int n" t] by linarith
  moreover have "int n * (t div int n) \<le> int n * int avg" using assms(1) by (intro mult_left_mono) simp_all
  moreover have "int n * (int avg + 1) < int m * (int avg + 1)" using assms(2) by (intro mult_strict_right_mono) simp_all
  ultimately show False by (simp add: algebra_simps)
qed

lemma new_table:
  "var_array symb = None \<Longrightarrow> grow_table (symb\<lparr>array_size := 0, table_size := 0, maxed := False\<rparr>) =
    Some (symb\<lparr>array_size := 13, table_size := 0, maxed := False, var_array := Some (replicate 13 [])\<rparr>)"
  by (simp add: grow_table_def Let_def sizes_find)

lemma wf_new: "0 < n \<Longrightarrow> wf_table code n (replicate n [])"
  by (simp add: wf_table_def placed_replicate)

context string_hash
begin

text \<open>Growing before an installation.\<close>

lemma grown_ok:
  assumes "wf_table code (array_size symb) vs" and "var_array symb = Some vs"
  shows "\<exists>symb' vs'. grow_table symb = Some symb' \<and> wf_table code (array_size symb') vs' \<and> var_array symb' = Some vs' \<and>
    elem_map symb' = elem_map symb \<and> length (concat vs') = length (concat vs) \<and> table_size symb' = table_size symb \<and>
    (maxed symb' \<or> array_size symb < array_size symb')"
proof -
  from grow_table_ok[OF assms] obtain symb' vs' where g: "grow_table symb = Some symb'" "wf_table code (array_size symb') vs'"
    "var_array symb' = Some vs'" "mset (concat vs') = mset (concat vs)" "table_size symb' = table_size symb"
    "maxed symb' \<or> array_size symb < array_size symb'" by blast
  have "set (concat vs') = set (concat vs)" using g(4) mset_eq_setD by blast
  then have "elem_map symb' = elem_map symb"
    using elem_map_iff[OF assms] elem_map_iff[OF g(2,3)] by (intro map_eqI) (simp del: set_concat)
  moreover have "length (concat vs') = length (concat vs)" using g(4) mset_eq_length by blast
  ultimately show ?thesis using g by blast
qed

lemma in_array_ok:
  assumes "table_ok code symb"
  shows "in_array hash symb k = Some (elem_map symb k)"
proof (cases "var_array symb")
  case None
  then show ?thesis by (simp add: in_array_def elem_map_def)
next
  case (Some vs)
  then have wf: "wf_table code (array_size symb) vs" using assms by (simp add: table_ok_def)
  note f = find_in_table[OF wf Some, of k]
  have h: "hash k (length k) (array_size symb) = Some (unat (code k) mod array_size symb, code k)"
    by (rule hash_law) (use wf_length[OF wf] in simp)
  show ?thesis
  proof (cases "find_chain (vs ! (unat (code k) mod array_size symb)) k")
    case None
    then show ?thesis using Some h f(1,2) by (simp add: in_array_def)
  next
    case j: (Some j)
    from points_value[OF wf Some f(3)[OF j]] show ?thesis using Some h f(1) j by (auto simp: in_array_def)
  qed
qed

text \<open>The part of \<open>assoc_lookup\<close> after the search.\<close>

definition add_elem :: "nat \<Rightarrow> symbol \<Rightarrow> nat \<Rightarrow> u64 \<Rightarrow> u8 list \<Rightarrow> (symbol \<times> nat \<times> nat) option" where
  "add_elem avg symb1 hash1 c subs = do {
     let symb2 = symb1\<lparr>table_size := table_size symb1 + 1\<rparr>;
     (symb3, hash2) \<leftarrow> (if array_size symb2 = 0 then None
       else if \<not> maxed symb2 \<and> table_size symb2 div int (array_size symb2) > int avg then do {
         symb3 \<leftarrow> grow_table symb2;
         Some (symb3, unat c mod array_size symb3) }
       else Some (symb2, hash1));
     symb4 \<leftarrow> install_bucket symb3 hash2 \<lparr>ahname = Some subs, ahcode = Some c, ahvalue = Nnull_string\<rparr>;
     Some (symb4, hash2, 0) }"

lemma add_elem_ok:
  assumes wf: "wf_table code (array_size symb) vs" and vs: "var_array symb = Some vs"
    and ts: "table_size symb = int (length (concat vs))" and new: "elem_map symb k = None"
  shows "\<exists>symb' p. add_elem avg symb (unat (code k) mod array_size symb) (code k) k = Some (symb', p) \<and> table_ok code symb' \<and>
    elem_map symb' = (elem_map symb)(k \<mapsto> Nnull_string) \<and> points_to symb' p k \<and>
    (chains_short avg symb \<longrightarrow> chains_short avg symb')"
proof -
  let ?s2 = "symb\<lparr>table_size := table_size symb + 1\<rparr>"
  have m2: "elem_map ?s2 = elem_map symb" using vs by (simp add: elem_map_def)
  have n: "0 < array_size symb" using wf_length[OF wf] by simp
  have "\<exists>s3 vs3. (if \<not> maxed ?s2 \<and> table_size ?s2 div int (array_size ?s2) > int avg then do {
         symb3 \<leftarrow> grow_table ?s2;
         Some (symb3, unat (code k) mod array_size symb3) }
       else Some (?s2, unat (code k) mod array_size symb)) = Some (s3, unat (code k) mod array_size s3) \<and>
     wf_table code (array_size s3) vs3 \<and> var_array s3 = Some vs3 \<and> elem_map s3 = elem_map symb \<and>
     length (concat vs3) = length (concat vs) \<and> table_size s3 = table_size symb + 1 \<and>
     (chains_short avg symb \<longrightarrow> maxed s3 \<or> table_size s3 div int (array_size s3) \<le> int avg)"
  proof (cases "\<not> maxed ?s2 \<and> table_size ?s2 div int (array_size ?s2) > int avg")
    case True
    from grown_ok[of ?s2 vs] wf vs obtain s3 vs3 where g: "grow_table ?s2 = Some s3" "wf_table code (array_size s3) vs3"
      "var_array s3 = Some vs3" "elem_map s3 = elem_map symb" "length (concat vs3) = length (concat vs)"
      "table_size s3 = table_size symb + 1" "maxed s3 \<or> array_size symb < array_size s3" using m2 by auto
    have "chains_short avg symb \<longrightarrow> maxed s3 \<or> table_size s3 div int (array_size s3) \<le> int avg"
      using chains_short_grown[of "table_size symb" "array_size symb" avg "array_size s3"] g(6,7) n vs True
      by (auto simp: chains_short_def)
    then show ?thesis using True g by (intro exI[of _ s3] exI[of _ vs3]) simp
  next
    case False
    then show ?thesis using wf vs m2 by (intro exI[of _ ?s2] exI[of _ vs]) auto
  qed
  then obtain s3 vs3 where s3: "(if \<not> maxed ?s2 \<and> table_size ?s2 div int (array_size ?s2) > int avg then do {
         symb3 \<leftarrow> grow_table ?s2;
         Some (symb3, unat (code k) mod array_size symb3) }
       else Some (?s2, unat (code k) mod array_size symb)) = Some (s3, unat (code k) mod array_size s3)"
    "wf_table code (array_size s3) vs3" "var_array s3 = Some vs3" "elem_map s3 = elem_map symb"
    "length (concat vs3) = length (concat vs)" "table_size s3 = table_size symb + 1"
    "chains_short avg symb \<longrightarrow> maxed s3 \<or> table_size s3 div int (array_size s3) \<le> int avg" by blast
  note inst = install_bucket_ok[OF s3(2,3) refl, of k, unfolded s3(4), OF new, of Nnull_string]
  let ?i = "unat (code k) mod array_size s3"
  let ?s4 = "s3\<lparr>var_array := Some (vs3[?i := \<lparr>ahname = Some k, ahcode = Some (code k), ahvalue = Nnull_string\<rparr> # vs3 ! ?i])\<rparr>"
  have "add_elem avg symb (unat (code k) mod array_size symb) (code k) k = Some (?s4, ?i, 0)"
    using s3(1) inst(1) n by (simp add: add_elem_def Let_def)
  moreover have "table_ok code ?s4" using inst(2,5) s3(5,6) ts by (simp add: table_ok_def)
  moreover have "chains_short avg symb \<longrightarrow> chains_short avg ?s4" using s3(7) by (simp add: chains_short_def)
  ultimately show ?thesis using inst(3,4) by blast
qed

text \<open>A lookup keeps the map but for an element that was missing, which gets the null string.\<close>

lemma assoc_lookup_ok:
  assumes ok: "table_ok code symb" and short: "chains_short avg symb"
  shows "\<exists>symb' p. assoc_lookup avg hash symb k = Some (symb', p) \<and> table_ok code symb' \<and> chains_short avg symb' \<and>
    elem_map symb' = (elem_map symb)(k \<mapsto> case elem_map symb k of None \<Rightarrow> Nnull_string | Some v \<Rightarrow> v) \<and> points_to symb' p k"
proof (cases "var_array symb")
  case None
  let ?s = "symb\<lparr>array_size := 13, table_size := 0, maxed := False, var_array := Some (replicate 13 [])\<rparr>"
  have e: "elem_map symb = Map.empty" "elem_map ?s = Map.empty" using None by (simp_all add: elem_map_def)
  have wf: "wf_table code (array_size ?s) (replicate 13 [])" using wf_new[of 13 code] by simp
  have h: "hash k (length k) 13 = Some (unat (code k) mod 13, code k)" by (rule hash_law) simp
  have s: "chains_short avg ?s" by (simp add: chains_short_def)
  have "assoc_lookup avg hash symb k = add_elem avg ?s (unat (code k) mod 13) (code k) k"
    using None h by (simp add: assoc_lookup_def add_elem_def new_table)
  moreover have "concat (replicate 13 []) = ([] :: bucket list)" by simp
  ultimately show ?thesis using add_elem_ok[OF wf, of k avg] e s by (auto simp del: replicate.simps)
next
  case (Some vs)
  then have wf: "wf_table code (array_size symb) vs" and ts: "table_size symb = int (length (concat vs))"
    using ok by (simp_all add: table_ok_def)
  let ?i = "unat (code k) mod array_size symb"
  note f = find_in_table[OF wf Some, of k]
  have h: "hash k (length k) (array_size symb) = Some (?i, code k)" by (rule hash_law) (use wf_length[OF wf] in simp)
  show ?thesis
  proof (cases "find_chain (vs ! ?i) k")
    case None
    then have new: "elem_map symb k = None" using f(2) by simp
    have "assoc_lookup avg hash symb k = add_elem avg symb ?i (code k) k"
      using Some h f(1) None by (simp add: assoc_lookup_def add_elem_def)
    then show ?thesis using add_elem_ok[OF wf Some ts new, of avg] new short by auto
  next
    case j: (Some j)
    from points_value(2)[OF wf Some f(3)[OF j]] obtain v where v: "elem_map symb k = Some v" by blast
    have "assoc_lookup avg hash symb k = Some (symb, ?i, j)" using Some h f(1) j by (simp add: assoc_lookup_def)
    then show ?thesis using f(3)[OF j] v ok short by (simp add: map_upd_triv)
  qed
qed

lemma do_delete_ok:
  assumes ok: "table_ok code symb" and short: "chains_short avg symb"
  shows "\<exists>symb'. do_delete hash symb (Some k) = Some symb' \<and> table_ok code symb' \<and> chains_short avg symb' \<and>
    elem_map symb' = (elem_map symb)(k := None)"
proof (cases "var_array symb")
  case None
  then show ?thesis using ok short by (simp add: do_delete_def elem_map_def)
next
  case (Some vs)
  then have wf: "wf_table code (array_size symb) vs" and ts: "table_size symb = int (length (concat vs))"
    using ok by (simp_all add: table_ok_def)
  let ?i = "unat (code k) mod array_size symb"
  note f = find_in_table[OF wf Some, of k]
  have h: "hash k (length k) (array_size symb) = Some (?i, code k)" by (rule hash_law) (use wf_length[OF wf] in simp)
  have i: "?i < length vs" using wf_length[OF wf] by simp
  show ?thesis
  proof (cases "find_chain (vs ! ?i) k")
    case None
    then have "do_delete hash symb (Some k) = Some symb" using Some h i by (simp add: do_delete_def)
    moreover have "elem_map symb k = None" using f(2) None by simp
    then have "(elem_map symb)(k := None) = elem_map symb" by auto
    ultimately show ?thesis using ok short by simp
  next
    case j: (Some j)
    have fc: "j < length (vs ! ?i)" "ahname (vs ! ?i ! j) = Some k" using find_chain_Some[OF j] by auto
    let ?t = "table_size symb - 1"
    let ?ch = "take j (vs ! ?i) @ drop (Suc j) (vs ! ?i)"
    let ?s1 = "symb\<lparr>var_array := Some (vs[?i := ?ch]), table_size := ?t\<rparr>"
    note r = remove_bucket_ok(1,2)[OF wf Some i fc, where t = ?t] remove_bucket_ok(3)[OF wf Some i fc]
    have t: "?t = int (length (concat (vs[?i := ?ch])))" using r(3) ts by linarith
    show ?thesis
    proof (cases "?t \<le> 0")
      case True
      let ?s = "?s1\<lparr>var_array := None, array_size := 0, table_size := 0, maxed := False\<rparr>"
      have "concat (vs[?i := ?ch]) = []" using t True by (metis length_0_conv of_nat_le_0_iff)
      then have "elem_map ?s1 = Map.empty" by (simp add: elem_map_def del: concat_eq_Nil_conv)
      moreover have "elem_map ?s = Map.empty" by (simp add: elem_map_def)
      ultimately have "(elem_map symb)(k := None) = elem_map ?s" using r(2) by (metis (no_types))
      moreover have "do_delete hash symb (Some k) = Some ?s" using Some h i j True by (simp add: do_delete_def Let_def)
      ultimately show ?thesis by (simp add: table_ok_def chains_short_def)
    next
      case False
      have "do_delete hash symb (Some k) = Some ?s1" using Some h i j False by (simp add: do_delete_def Let_def)
      moreover have "table_ok code ?s1" using r(1) t by (simp add: table_ok_def)
      moreover have "?t div int (array_size symb) \<le> table_size symb div int (array_size symb)"
        by (rule zdiv_mono1) (use wf_length[OF wf] in simp_all)
      then have "chains_short avg ?s1" using short Some by (auto simp: chains_short_def)
      ultimately show ?thesis using r(2) by blast
    qed
  qed
qed

end

section \<open>Arrays are finite maps\<close>

text \<open>What a program does to an array: assign an element, refer to one (which creates it), delete one, and clear it.\<close>

datatype array_op = Assign "u8 list" node | Refer "u8 list" | Delete "u8 list" | Clear | Delete_Loop

fun do_op :: "nat \<Rightarrow> hasher \<Rightarrow> symbol \<Rightarrow> array_op \<Rightarrow> symbol option" where
  "do_op avg H symb (Assign k v) = do { (symb1, p) \<leftarrow> assoc_lookup avg H symb k; put_value symb1 p v }"
| "do_op avg H symb (Refer k) = do { (symb1, p) \<leftarrow> assoc_lookup avg H symb k; Some symb1 }"
| "do_op avg H symb (Delete k) = do_delete H symb (Some k)"
| "do_op avg H symb Clear = do_delete H symb None"
| "do_op avg H symb Delete_Loop = Some (snd (do_delete_loop symb))"

fun map_op :: "(u8 list \<Rightarrow> node option) \<Rightarrow> array_op \<Rightarrow> u8 list \<Rightarrow> node option" where
  "map_op m (Assign k v) = m(k \<mapsto> v)"
| "map_op m (Refer k) = m(k \<mapsto> case m k of None \<Rightarrow> Nnull_string | Some v \<Rightarrow> v)"
| "map_op m (Delete k) = m(k := None)"
| "map_op m Clear = Map.empty"
| "map_op m Delete_Loop = Map.empty"

fun do_ops :: "nat \<Rightarrow> hasher \<Rightarrow> symbol \<Rightarrow> array_op list \<Rightarrow> symbol option" where
  "do_ops avg H symb [] = Some symb"
| "do_ops avg H symb (op # ops) = do { symb1 \<leftarrow> do_op avg H symb op; do_ops avg H symb1 ops }"

definition new_array :: symbol where
  "new_array = \<lparr>var_array = None, array_size = 0, table_size = 0, maxed = False\<rparr>"

lemma assoc_clear_ok:
  "table_ok code symb \<Longrightarrow> table_ok code (assoc_clear symb) \<and> chains_short avg (assoc_clear symb) \<and> elem_map (assoc_clear symb) = Map.empty"
  by (cases "var_array symb") (simp_all add: assoc_clear_def table_ok_def chains_short_def elem_map_def)

lemma table_size_card:
  assumes "table_ok code symb"
  shows "table_size symb = int (card (dom (elem_map symb)))"
proof (cases "var_array symb")
  case None
  then show ?thesis using assms by (simp add: table_ok_def elem_map_def)
next
  case (Some vs)
  then have wf: "wf_table code (array_size symb) vs" and ts: "table_size symb = int (length (concat vs))"
    using assms by (simp_all add: table_ok_def)
  have pl: "placed code (array_size symb) vs" and d: "distinct (map ahname (concat vs))" using wf by (simp_all add: wf_table_def)
  have "dom (elem_map symb) = the ` ahname ` set (concat vs)"
    using Some by (simp add: elem_map_def dom_map_of_conv_image_fst image_image del: set_concat)
  moreover have "\<forall>x \<in> ahname ` set (concat vs). x \<noteq> None" using pl by (metis imageE option.distinct(1) placed_mem)
  then have "inj_on the (ahname ` set (concat vs))" by (intro inj_onI) (metis option.expand)
  then have "card (the ` ahname ` set (concat vs)) = card (ahname ` set (concat vs))" by (rule card_image)
  moreover have "card (ahname ` set (concat vs)) = length (concat vs)"
    using distinct_card[OF d] by simp
  ultimately show ?thesis using ts by simp
qed

context string_hash
begin

lemma do_op_ok:
  assumes "table_ok code symb" and "chains_short avg symb"
  shows "\<exists>symb'. do_op avg hash symb op = Some symb' \<and> table_ok code symb' \<and> chains_short avg symb' \<and>
    elem_map symb' = map_op (elem_map symb) op"
proof (cases op)
  case (Assign k v)
  from assoc_lookup_ok[OF assms, of k] obtain s1 p where s1: "assoc_lookup avg hash symb k = Some (s1, p)" "table_ok code s1"
    "chains_short avg s1" "elem_map s1 = (elem_map symb)(k \<mapsto> case elem_map symb k of None \<Rightarrow> Nnull_string | Some v \<Rightarrow> v)"
    "points_to s1 p k" by blast
  from put_value_ok[OF s1(2,5), of v avg] s1(1,3,4) Assign show ?thesis by auto
next
  case (Refer k)
  then show ?thesis using assoc_lookup_ok[OF assms, of k] by auto
next
  case (Delete k)
  then show ?thesis using do_delete_ok[OF assms, of k] by auto
next
  case Clear
  then show ?thesis using assoc_clear_ok[OF assms(1)] by (simp add: do_delete_def)
next
  case Delete_Loop
  then show ?thesis using assoc_clear_ok[OF assms(1), of avg] assms
    by (cases "var_array symb") (simp_all add: do_delete_loop_def elem_map_def)
qed

lemma do_ops_ok:
  "table_ok code symb \<Longrightarrow> chains_short avg symb \<Longrightarrow>
   \<exists>symb'. do_ops avg hash symb ops = Some symb' \<and> table_ok code symb' \<and> chains_short avg symb' \<and>
     elem_map symb' = foldl map_op (elem_map symb) ops"
proof (induction ops arbitrary: symb)
  case (Cons op ops)
  from do_op_ok[OF Cons.prems, of op] obtain s1 where s1: "do_op avg hash symb op = Some s1" "table_ok code s1" "chains_short avg s1"
    "elem_map s1 = map_op (elem_map symb) op" by blast
  from Cons.IH[OF s1(2,3)] s1(1,4) show ?case by simp
qed simp

lemma array_is_map:
  "\<exists>symb. do_ops avg hash new_array ops = Some symb \<and> (\<forall>k. in_array hash symb k = Some (foldl map_op Map.empty ops k)) \<and>
    table_size symb = int (card (dom (foldl map_op Map.empty ops))) \<and> chains_short avg symb"
proof -
  have "table_ok code new_array" "chains_short avg new_array" "elem_map new_array = Map.empty"
    by (simp_all add: new_array_def table_ok_def chains_short_def elem_map_def)
  with do_ops_ok[of new_array avg ops] obtain symb where "do_ops avg hash new_array ops = Some symb" "table_ok code symb"
    "chains_short avg symb" "elem_map symb = foldl map_op Map.empty ops" by auto
  then show ?thesis using in_array_ok table_size_card by metis
qed

end

text \<open>C2: With either hash function and any limit on the chains, every sequence of operations on an array that starts empty
  has the effect it has on a finite map, through all growing and rehashing: membership tests and values agree with
  the map, \<open>table_size\<close> counts its elements, and unless the table has its greatest size the average chain stays within the limit.\<close>

theorem arrays_are_maps:
  "let H = (if gst then gst_hash_string else awk_hash); m = foldl map_op Map.empty ops
   in \<exists>symb. do_ops avg H new_array ops = Some symb \<and> (\<forall>k. in_array H symb k = Some (m k)) \<and>
     table_size symb = int (card (dom m)) \<and>
     (var_array symb = None \<or> maxed symb \<or> table_size symb div int (array_size symb) \<le> int avg)"
  using sdbm_hash.array_is_map[of avg ops] gst_hash.array_is_map[of avg ops] by (simp add: chains_short_def)

text \<open>The subscripts: \<open>concat_exp\<close> never writes past its buffer and joins the strings with \<open>SUBSEP\<close>.\<close>

lemma concat_loop_joins:
  "length buf + length subsep + 2 \<le> len \<Longrightarrow>
   concat_loop subsep len buf rs = Some (buf @ concat (map (\<lambda>r. subsep @ r) rs))"
proof (induction rs arbitrary: buf len)
  case (Cons r rs)
  have "(case subsep of [c] \<Rightarrow> if length buf < len then Some (buf @ [c]) else None | _ \<Rightarrow> put_bytes len buf subsep) = Some (buf @ subsep)"
    using Cons.prems by (auto simp: put_bytes_def split: list.split)
  moreover have "put_bytes (len + length r + length subsep) (buf @ subsep) r = Some (buf @ subsep @ r)"
    using Cons.prems by (simp add: put_bytes_def)
  ultimately show ?case using Cons.IH[of "buf @ subsep @ r" "len + length r + length subsep"] Cons.prems by simp
qed simp

lemma join_concat: "join sep (r # rs) = r @ concat (map (\<lambda>r. sep @ r) rs)"
  by (induction rs arbitrary: r) simp_all

lemma concat_exp_joins: "rs \<noteq> [] \<Longrightarrow> concat_exp subsep rs = Some (join subsep rs)"
proof (cases rs)
  case (Cons r rs')
  then show ?thesis
    by (cases rs') (simp_all add: concat_exp_def put_bytes_def concat_loop_joins join_concat del: join.simps(3) concat_loop.simps)
qed simp

end
