(* ===== verification/Awk_Sort.thy ===== *)
theory Awk_Sort
  imports Awk_Array
begin

text \<open>
  Sorting of arrays, \<open>asort\<close> and \<open>asorti\<close> of \<open>array.c\<close>: the buckets are taken out of the table as a linked list, sorted by
  merging, and put back under the names 1, 2, and so on.  A linked list of buckets is a list.  \<open>ic\<close> and \<open>ct\<close> are
  \<open>IGNORECASE\<close> and \<open>casetable\<close>, on which the comparison depends.
\<close>

datatype ASORT_TYPE = VALUE | INDEX

section \<open>Merge sort\<close>

fun merge_loop :: "bool \<Rightarrow> u8 list \<Rightarrow> bucket list \<Rightarrow> bucket list \<Rightarrow> bucket list" where
  "merge_loop ic ct (l # left) (r # right) =
     (if cmp_nodes ic ct (ahvalue l) (ahvalue r) \<le> 0 then l # merge_loop ic ct left (r # right)
      else r # merge_loop ic ct (l # left) right)"
| "merge_loop ic ct left right = (if left \<noteq> [] then left else right)"

text \<open>\<open>merge\<close> picks the first bucket before its loop; both lists must have one.\<close>

definition merge :: "bool \<Rightarrow> u8 list \<Rightarrow> bucket list \<Rightarrow> bucket list \<Rightarrow> bucket list option" where
  "merge ic ct left right = (case (left, right) of
     (l # left', r # right') \<Rightarrow> Some (if cmp_nodes ic ct (ahvalue l) (ahvalue r) \<le> 0
       then l # merge_loop ic ct left' (r # right') else r # merge_loop ic ct (l # left') right')
   | _ \<Rightarrow> None)"

text \<open>The list is cut after its first half; a list with fewer buckets than \<open>n\<close> says would be followed past its end.\<close>

function merge_sort :: "bool \<Rightarrow> u8 list \<Rightarrow> bucket list \<Rightarrow> nat \<Rightarrow> bucket list option" where
  "merge_sort ic ct left n =
     (if n \<le> 1 then Some left
      else if length left < n div 2 then None
      else do {
        l \<leftarrow> merge_sort ic ct (take (n div 2) left) (n div 2);
        r \<leftarrow> merge_sort ic ct (drop (n div 2) left) (n - n div 2);
        merge ic ct l r })"
  by pat_completeness auto
termination by (relation "measure (\<lambda>(ic, ct, left, n). n)") auto

declare merge_sort.simps [simp del]

section \<open>Emptying and refilling the table\<close>

text \<open>\<open>sprintf\<close> with \<open>%lu\<close>.\<close>

fun decimal :: "nat \<Rightarrow> u8 list" where
  "decimal n = (if n < 10 then [of_nat (48 + n)] else decimal (n div 10) @ [of_nat (48 + n mod 10)])"

declare decimal.simps [simp del]

fun assoc_from_list :: "hasher \<Rightarrow> symbol \<Rightarrow> nat \<Rightarrow> bucket list \<Rightarrow> symbol option" where
  "assoc_from_list H symb i [] = Some symb"
| "assoc_from_list H symb i (b # bs) =
     (if ahname b \<noteq> None then None
      else do {
        let buf = decimal (i + 1);
        (hash1, code) \<leftarrow> H buf (length buf) (array_size symb);
        symb1 \<leftarrow> install_bucket symb hash1 (b\<lparr>ahname := Some buf, ahcode := Some code\<rparr>);
        assoc_from_list H symb1 (i + 1) bs })"

text \<open>A bucket loses its name, which for \<open>INDEX\<close> becomes its value.\<close>

definition take_out :: "ASORT_TYPE \<Rightarrow> bucket \<Rightarrow> bucket option" where
  "take_out how b = (case how of VALUE \<Rightarrow> Some (b\<lparr>ahname := None\<rparr>)
     | INDEX \<Rightarrow> (case ahname b of None \<Rightarrow> None | Some s \<Rightarrow> Some (b\<lparr>ahvalue := text_node s, ahname := None\<rparr>)))"

fun collect_chain :: "ASORT_TYPE \<Rightarrow> bucket list \<Rightarrow> bucket list \<Rightarrow> bucket list option" where
  "collect_chain how [] acc = Some acc"
| "collect_chain how (b # bs) acc = do { b' \<leftarrow> take_out how b; collect_chain how bs (b' # acc) }"

fun collect :: "ASORT_TYPE \<Rightarrow> bucket list list \<Rightarrow> bucket list \<Rightarrow> bucket list option" where
  "collect how [] acc = Some acc"
| "collect how (chain # vs) acc = do { acc1 \<leftarrow> collect_chain how chain acc; collect how vs acc1 }"

definition assoc_sort_inplace :: "bool \<Rightarrow> u8 list \<Rightarrow> hasher \<Rightarrow> symbol \<Rightarrow> ASORT_TYPE \<Rightarrow> (nat \<times> symbol) option" where
  "assoc_sort_inplace ic ct H symb how = (case var_array symb of None \<Rightarrow> Some (0, symb)
     | Some vs \<Rightarrow>
         if array_size symb \<le> 0 \<or> table_size symb \<le> 0 then Some (0, symb)
         else do {
           list \<leftarrow> collect how vs [];
           sorted \<leftarrow> merge_sort ic ct list (length list);
           symb1 \<leftarrow> assoc_from_list H (symb\<lparr>var_array := Some (map (\<lambda>_. []) vs)\<rparr>) 0 sorted;
           Some (length list, symb1) })"

text \<open>The arrays of the program are a store; the destination may be the array itself.\<close>

definition asort_actual ::
  "bool \<Rightarrow> u8 list \<Rightarrow> hasher \<Rightarrow> ('a \<Rightarrow> symbol) \<Rightarrow> 'a \<Rightarrow> 'a option \<Rightarrow> ASORT_TYPE \<Rightarrow> (nat \<times> ('a \<Rightarrow> symbol)) option" where
  "asort_actual ic ct H st array dest how =
     (let (st1, a) = (case dest of None \<Rightarrow> (st, array)
            | Some d \<Rightarrow>
                let st0 = st(d := assoc_clear (st d))
                in (st0(d := dup_table (st0 array) (st0 d)), d))
      in do { (n, s) \<leftarrow> assoc_sort_inplace ic ct H (st1 a) how; Some (n, st1(a := s)) })"

definition do_asort where "do_asort ic ct H st array dest = asort_actual ic ct H st array dest VALUE"

definition do_asorti where "do_asorti ic ct H st array dest = asort_actual ic ct H st array dest INDEX"

section \<open>The sort sorts\<close>

definition in_order :: "bool \<Rightarrow> u8 list \<Rightarrow> bucket list \<Rightarrow> bool" where
  "in_order ic ct = sorted_wrt (\<lambda>b c. cmp_nodes ic ct (ahvalue b) (ahvalue c) \<le> 0)"

lemma merge_loop_mset: "mset (merge_loop ic ct xs ys) = mset xs + mset ys"
  by (induction ic ct xs ys rule: merge_loop.induct) auto

lemma merge_loop_set: "set (merge_loop ic ct xs ys) = set xs \<union> set ys"
  using merge_loop_mset[of ic ct xs ys] by (metis set_mset_mset set_mset_union)

lemma merge_loop_order:
  "homogeneous (ahvalue ` (set xs \<union> set ys)) \<Longrightarrow> in_order ic ct xs \<Longrightarrow> in_order ic ct ys \<Longrightarrow> in_order ic ct (merge_loop ic ct xs ys)"
proof (induction ic ct xs ys rule: merge_loop.induct)
  case (1 ic ct l left r right)
  let ?vs = "ahvalue ` (set (l # left) \<union> set (r # right))"
  let ?le = "\<lambda>b c. cmp_nodes ic ct (ahvalue b) (ahvalue c) \<le> 0"
  have tr: "?le b d" if "?le b c" "?le c d" "b \<in> set (l # left) \<union> set (r # right)" "c \<in> set (l # left) \<union> set (r # right)"
    "d \<in> set (l # left) \<union> set (r # right)" for b c d
    using cmp_nodes_trans[OF 1(3), of "ahvalue b" "ahvalue c" "ahvalue d" ic ct] that by blast
  have sub: "homogeneous ws" if "ws \<subseteq> ?vs" for ws using 1(3) that unfolding homogeneous_def by blast
  show ?case
  proof (cases "?le l r")
    case True
    have "in_order ic ct (merge_loop ic ct left (r # right))"
      using 1(1)[OF True] sub 1(4,5) by (auto simp: in_order_def)
    moreover have "\<forall>c \<in> set right. ?le l c" using tr[OF True, of _] 1(5) by (auto simp: in_order_def)
    ultimately show ?thesis using True 1(4) by (auto simp: in_order_def merge_loop_set)
  next
    case False
    then have rl: "?le r l" using cmp_nodes_total[OF 1(3), of "ahvalue l" "ahvalue r" ic ct] by auto
    have "in_order ic ct (merge_loop ic ct (l # left) right)"
      using 1(2)[OF False] sub 1(4,5) by (auto simp: in_order_def)
    moreover have "\<forall>c \<in> set left. ?le r c" using tr[OF rl, of _] 1(4) by (auto simp: in_order_def)
    ultimately show ?thesis using False rl 1(5) by (auto simp: in_order_def merge_loop_set)
  qed
qed (auto simp: in_order_def)

lemma merge_is_loop: "xs \<noteq> [] \<Longrightarrow> ys \<noteq> [] \<Longrightarrow> merge ic ct xs ys = Some (merge_loop ic ct xs ys)"
  by (cases xs; cases ys) (simp_all add: merge_def)

lemma merge_sort_sorts:
  "homogeneous (ahvalue ` set xs) \<Longrightarrow>
   \<exists>ys. merge_sort ic ct xs (length xs) = Some ys \<and> mset ys = mset xs \<and> in_order ic ct ys"
proof (induction "length xs" arbitrary: xs rule: less_induct)
  case less
  let ?n = "length xs"
  show ?case
  proof (cases "?n \<le> 1")
    case True
    then have "in_order ic ct xs" by (cases xs) (auto simp: in_order_def)
    then show ?thesis using True by (subst merge_sort.simps) simp
  next
    case False
    let ?l = "take (?n div 2) xs" and ?r = "drop (?n div 2) xs"
    have len: "length ?l = ?n div 2" "length ?r = ?n - ?n div 2" by simp_all
    have h: "homogeneous (ahvalue ` set ?l)" "homogeneous (ahvalue ` set ?r)"
      using less.prems set_take_subset[of "?n div 2" xs] set_drop_subset[of "?n div 2" xs] unfolding homogeneous_def by blast+
    have lt: "length ?l < ?n" "length ?r < ?n" using False by (auto simp: min_def)
    from less.hyps[OF lt(1) h(1)] obtain l where l: "merge_sort ic ct ?l (length ?l) = Some l" "mset l = mset ?l" "in_order ic ct l" by blast
    from less.hyps[OF lt(2) h(2)] obtain r where r: "merge_sort ic ct ?r (length ?r) = Some r" "mset r = mset ?r" "in_order ic ct r" by blast
    have "l \<noteq> []" "r \<noteq> []" using l(2) r(2) False by auto
    then have "merge_sort ic ct xs ?n = Some (merge_loop ic ct l r)"
      using l(1) r(1) False unfolding len by (subst merge_sort.simps) (simp add: merge_is_loop)
    moreover have "mset (merge_loop ic ct l r) = mset xs"
      using l(2) r(2) by (simp add: merge_loop_mset flip: mset_append)
    moreover have "set l \<union> set r = set xs" using l(2) r(2) by (metis append_take_drop_id mset_eq_setD set_append)
    then have "in_order ic ct (merge_loop ic ct l r)" using merge_loop_order l(3) r(3) less.prems by metis
    ultimately show ?thesis by blast
  qed
qed

section \<open>The names 1, 2, and so on\<close>

definition decimal_value :: "u8 list \<Rightarrow> nat" where
  "decimal_value = foldl (\<lambda>a c. a * 10 + (unat c - 48)) 0"

lemma digit_value: "d < 10 \<Longrightarrow> unat (of_nat (48 + d) :: u8) - 48 = d"
  by (subst unat_of_nat) (simp add: take_bit_eq_mod del: of_nat_add)

lemma decimal_value_decimal: "decimal_value (decimal n) = n"
proof (induction n rule: less_induct)
  case (less n)
  show ?case
  proof (cases "n < 10")
    case True
    then show ?thesis using digit_value[of n] by (subst decimal.simps) (simp add: decimal_value_def del: of_nat_add)
  next
    case False
    have "decimal_value (decimal (n div 10)) = n div 10" using less[of "n div 10"] False by simp
    then show ?thesis using False digit_value[of "n mod 10"]
      by (subst decimal.simps) (simp add: decimal_value_def del: of_nat_add)
  qed
qed

lemma decimal_inj: "decimal m = decimal n \<Longrightarrow> m = n"
  by (metis decimal_value_decimal)

text \<open>The array with the given values under the names 1, 2, and so on, from \<open>Suc i\<close> on.\<close>

fun numbered :: "nat \<Rightarrow> node list \<Rightarrow> u8 list \<Rightarrow> node option" where
  "numbered i [] = Map.empty"
| "numbered i (v # vs) = (numbered (i + 1) vs)(decimal (i + 1) \<mapsto> v)"

lemma numbered_dom: "k \<in> dom (numbered i vs) \<Longrightarrow> \<exists>j > i. k = decimal j"
proof (induction i vs rule: numbered.induct)
  case (2 i v vs)
  then show ?case by (cases "k = decimal (i + 1)") (auto, metis Suc_lessD domI)
qed simp

lemma numbered_at: "j < length vs \<Longrightarrow> numbered i vs (decimal (i + j + 1)) = Some (vs ! j)"
proof (induction i vs arbitrary: j rule: numbered.induct)
  case (2 i v vs)
  show ?case
  proof (cases j)
    case (Suc m)
    have "decimal (i + j + 1) \<noteq> decimal (i + 1)" using decimal_inj[of "i + j + 1" "i + 1"] Suc by auto
    then show ?thesis using 2(1)[of m] 2(2) Suc by (simp add: add.commute add.left_commute)
  qed simp
qed simp

lemma numbered_None: "\<forall>j < length vs. k \<noteq> decimal (i + j + 1) \<Longrightarrow> numbered i vs k = None"
proof (induction i vs rule: numbered.induct)
  case (2 i v vs)
  have "k \<noteq> decimal (i + 0 + 1)" using 2(2) by blast
  moreover have "k \<noteq> decimal (i + 1 + j + 1)" if "j < length vs" for j
    using 2(2) that by (metis Suc_less_eq add.assoc add.commute length_Cons plus_1_eq_Suc)
  ultimately show ?case using 2(1) by simp
qed simp

context string_hash
begin

lemma assoc_from_list_ok:
  assumes "wf_table code (array_size symb) vs" and "var_array symb = Some vs"
    and "\<forall>j > i. elem_map symb (decimal j) = None" and "\<forall>b \<in> set bs. ahname b = None"
  shows "\<exists>symb' vs'. assoc_from_list hash symb i bs = Some symb' \<and> wf_table code (array_size symb') vs' \<and>
    var_array symb' = Some vs' \<and> elem_map symb' = elem_map symb ++ numbered i (map ahvalue bs) \<and>
    length (concat vs') = length (concat vs) + length bs \<and> table_size symb' = table_size symb \<and>
    array_size symb' = array_size symb \<and> maxed symb' = maxed symb"
  using assms
proof (induction bs arbitrary: symb i vs)
  case (Cons b bs)
  let ?k = "decimal (i + 1)" and ?j = "unat (code (decimal (i + 1))) mod array_size symb"
  have new: "elem_map symb ?k = None" using Cons.prems(3) by simp
  have h: "hash ?k (length ?k) (array_size symb) = Some (?j, code ?k)" by (rule hash_law) (use wf_length[OF Cons.prems(1)] in simp)
  have b: "b\<lparr>ahname := Some ?k, ahcode := Some (code ?k)\<rparr> = \<lparr>ahname = Some ?k, ahcode = Some (code ?k), ahvalue = ahvalue b\<rparr>" by simp
  note inst = install_bucket_ok[OF Cons.prems(1,2) refl, of ?k, OF new, of "ahvalue b"]
  let ?vs = "vs[?j := \<lparr>ahname = Some ?k, ahcode = Some (code ?k), ahvalue = ahvalue b\<rparr> # vs ! ?j]"
  let ?s = "symb\<lparr>var_array := Some ?vs\<rparr>"
  have step: "assoc_from_list hash symb i (b # bs) = assoc_from_list hash ?s (i + 1) bs"
    unfolding b[symmetric] using Cons.prems(4) h inst(1)[folded b] by (simp add: Let_def)
  have "\<forall>j > i + 1. elem_map ?s (decimal j) = None"
  proof (intro allI impI)
    fix j assume "i + 1 < j"
    then have "decimal j \<noteq> ?k" using decimal_inj by fastforce
    then show "elem_map ?s (decimal j) = None" using inst(3) Cons.prems(3) \<open>i + 1 < j\<close> by simp
  qed
  from Cons.IH[OF inst(2) _ this] Cons.prems(4) obtain symb' vs' where s': "assoc_from_list hash ?s (i + 1) bs = Some symb'"
    "wf_table code (array_size symb') vs'" "var_array symb' = Some vs'"
    "elem_map symb' = elem_map ?s ++ numbered (i + 1) (map ahvalue bs)" "length (concat vs') = length (concat ?vs) + length bs"
    "table_size symb' = table_size symb" "array_size symb' = array_size symb" "maxed symb' = maxed symb" by auto
  have "numbered (i + 1) (map ahvalue bs) ?k = None"
    by (rule numbered_None) (use decimal_inj in fastforce)
  then have e: "elem_map symb' = elem_map symb ++ numbered i (map ahvalue (b # bs))"
    using s'(4) inst(3) by (auto simp: map_add_def fun_eq_iff split: option.split)
  have l: "length (concat vs') = length (concat vs) + length (b # bs)" using s'(5) inst(5) by simp
  have "assoc_from_list hash symb i (b # bs) = Some symb'" by (simp only: step s'(1))
  then show ?case using s'(2,3,6-8) e l by blast
qed simp

end

section \<open>Sorting an array\<close>

definition out_value :: "ASORT_TYPE \<Rightarrow> bucket \<Rightarrow> node" where
  "out_value how b = (case how of VALUE \<Rightarrow> ahvalue b | INDEX \<Rightarrow> text_node (the (ahname b)))"

lemma take_out_named: "ahname b \<noteq> None \<Longrightarrow> \<exists>c. take_out how b = Some c \<and> ahvalue c = out_value how b \<and> ahname c = None"
  by (cases how) (auto simp: take_out_def out_value_def)

lemma collect_chain_ok:
  "\<forall>b \<in> set bs. ahname b \<noteq> None \<Longrightarrow> \<exists>cs. collect_chain how bs acc = Some (cs @ acc) \<and>
   map ahvalue cs = rev (map (out_value how) bs) \<and> (\<forall>c \<in> set cs. ahname c = None)"
proof (induction bs arbitrary: acc)
  case (Cons b bs)
  then obtain c where c: "take_out how b = Some c" "ahvalue c = out_value how b" "ahname c = None" using take_out_named[of b how] by auto
  from Cons.IH[of "c # acc"] Cons.prems obtain cs where "collect_chain how bs (c # acc) = Some (cs @ c # acc)"
    "map ahvalue cs = rev (map (out_value how) bs)" "\<forall>c \<in> set cs. ahname c = None" by auto
  then show ?case using c by (intro exI[of _ "cs @ [c]"]) simp
qed simp

lemma collect_ok:
  "\<forall>b \<in> set (concat vs). ahname b \<noteq> None \<Longrightarrow> \<exists>cs. collect how vs acc = Some (cs @ acc) \<and>
   map ahvalue cs = rev (map (out_value how) (concat vs)) \<and> (\<forall>c \<in> set cs. ahname c = None)"
proof (induction vs arbitrary: acc)
  case (Cons v vs)
  have "\<forall>b \<in> set v. ahname b \<noteq> None" using Cons.prems by simp
  from collect_chain_ok[OF this, of how acc] obtain cs where cs: "collect_chain how v acc = Some (cs @ acc)"
    "map ahvalue cs = rev (map (out_value how) v)" "\<forall>c \<in> set cs. ahname c = None" by blast
  from Cons.IH[of "cs @ acc"] Cons.prems obtain ds where "collect how vs (cs @ acc) = Some (ds @ cs @ acc)"
    "map ahvalue ds = rev (map (out_value how) (concat vs))" "\<forall>c \<in> set ds. ahname c = None" by auto
  then show ?case using cs by (intro exI[of _ "ds @ cs"]) auto
qed simp

text \<open>The values to be sorted, for an array that is the map \<open>m\<close>.\<close>

definition asort_values :: "ASORT_TYPE \<Rightarrow> (u8 list \<Rightarrow> node option) \<Rightarrow> node multiset" where
  "asort_values how m = image_mset (\<lambda>k. case how of VALUE \<Rightarrow> the (m k) | INDEX \<Rightarrow> text_node k) (mset_set (dom m))"

lemma asort_values_table:
  assumes "wf_table code (array_size symb) vs" and "var_array symb = Some vs"
  shows "asort_values how (elem_map symb) = mset (map (out_value how) (concat vs))"
proof -
  let ?bs = "concat vs"
  have pl: "placed code (array_size symb) vs" and d: "distinct (map ahname ?bs)" using assms(1) by (simp_all add: wf_table_def)
  have named: "\<forall>b \<in> set ?bs. ahname b = Some (the (ahname b))" using pl by (metis option.sel placed_mem)
  have "map ahname ?bs = map Some (map (the \<circ> ahname) ?bs)" using named by (simp only: map_map comp_def) (meson map_cong)
  then have dn: "distinct (map (the \<circ> ahname) ?bs)" using d by (metis distinct_map)
  have "dom (elem_map symb) = set (map (the \<circ> ahname) ?bs)"
    using assms(2) by (simp add: elem_map_def dom_map_of_conv_image_fst image_image del: set_concat)
  then have "mset_set (dom (elem_map symb)) = mset (map (the \<circ> ahname) ?bs)" using mset_set_set[OF dn] by simp
  then have "asort_values how (elem_map symb) =
      mset (map (\<lambda>b. case how of VALUE \<Rightarrow> the (elem_map symb (the (ahname b))) | INDEX \<Rightarrow> text_node (the (ahname b))) ?bs)"
    by (simp add: asort_values_def image_mset.compositionality comp_def)
  also have "\<dots> = mset (map (out_value how) ?bs)"
  proof (intro arg_cong[of _ _ mset] map_cong refl)
    fix b assume "b \<in> set ?bs"
    then have "elem_map symb (the (ahname b)) = Some (ahvalue b)" using elem_map_iff[OF assms] named by blast
    then show "(case how of VALUE \<Rightarrow> the (elem_map symb (the (ahname b))) | INDEX \<Rightarrow> text_node (the (ahname b))) = out_value how b"
      by (cases how) (simp_all add: out_value_def)
  qed
  finally show ?thesis .
qed

context string_hash
begin

lemma sort_inplace_ok:
  assumes vs: "var_array symb = Some vs" "length vs = array_size symb" "0 < array_size symb" "table_size symb = int (length (concat vs))"
    and named: "\<forall>b \<in> set (concat vs). ahname b \<noteq> None"
    and hom: "homogeneous (set_mset (mset (map (out_value how) (concat vs))))"
  shows "\<exists>symb' vals. assoc_sort_inplace ic ct hash symb how = Some (length vals, symb') \<and> table_ok code symb' \<and>
    elem_map symb' = numbered 0 vals \<and> mset vals = mset (map (out_value how) (concat vs)) \<and>
    sorted_wrt (\<lambda>v w. cmp_nodes ic ct v w \<le> 0) vals"
proof (cases "table_size symb \<le> 0")
  case True
  then have e: "concat vs = []" using vs(4) by (metis length_0_conv of_nat_le_0_iff)
  then have "\<forall>i < length vs. vs ! i = []" by (metis concat_eq_Nil_conv nth_mem)
  then have "placed code (array_size symb) vs" using vs(2) by (simp add: placed_def)
  then have "table_ok code symb" using vs e by (simp add: table_ok_def wf_table_def del: concat_eq_Nil_conv)
  moreover have "elem_map symb = Map.empty" using vs(1) e by (simp add: elem_map_def del: concat_eq_Nil_conv)
  moreover have "assoc_sort_inplace ic ct hash symb how = Some (0, symb)" using vs(1) True by (simp add: assoc_sort_inplace_def)
  ultimately show ?thesis using e by (intro exI[of _ symb] exI[of _ "[]"]) (simp del: concat_eq_Nil_conv)
next
  case False
  from collect_ok[OF named, of how "[]"] obtain cs where cs: "collect how vs [] = Some cs"
    "map ahvalue cs = rev (map (out_value how) (concat vs))" "\<forall>c \<in> set cs. ahname c = None" by auto
  have "ahvalue ` set cs = set (map ahvalue cs)" by simp
  then have "ahvalue ` set cs = set_mset (mset (map (out_value how) (concat vs)))" unfolding cs(2) by simp
  then have "homogeneous (ahvalue ` set cs)" using hom by simp
  from merge_sort_sorts[OF this] obtain ys where ys: "merge_sort ic ct cs (length cs) = Some ys" "mset ys = mset cs" "in_order ic ct ys" by blast
  have names: "\<forall>c \<in> set ys. ahname c = None" using cs(3) ys(2) mset_eq_setD by blast
  let ?s = "symb\<lparr>var_array := Some (map (\<lambda>_. []) vs)\<rparr>"
  have rep: "map (\<lambda>_. []) vs = (replicate (array_size symb) [] :: bucket list list)" using vs(2) by (simp add: map_replicate_const)
  have wf: "wf_table code (array_size ?s) (map (\<lambda>_. []) vs)" using wf_new[OF vs(3)] rep by simp
  have em: "elem_map ?s = Map.empty" "length (concat (map (\<lambda>_. []) vs :: bucket list list)) = 0" by (simp_all add: elem_map_def rep)
  from assoc_from_list_ok[OF wf _ _ names, of 0] em obtain symb' vs' where s': "assoc_from_list hash ?s 0 ys = Some symb'"
    "wf_table code (array_size symb') vs'" "var_array symb' = Some vs'" "elem_map symb' = numbered 0 (map ahvalue ys)"
    "length (concat vs') = length ys" "table_size symb' = table_size symb" by auto
  have len: "length ys = length cs" using ys(2) mset_eq_length by blast
  have "length cs = length (concat vs)" using cs(2) by (metis length_map length_rev)
  then have "table_ok code symb'" using s' vs(4) len by (simp add: table_ok_def)
  moreover have "assoc_sort_inplace ic ct hash symb how = Some (length (map ahvalue ys), symb')"
    using vs(1,3) False cs(1) ys(1) s'(1) len by (simp add: assoc_sort_inplace_def)
  moreover have "mset (map ahvalue ys) = mset (map (out_value how) (concat vs))"
    using ys(2) cs(2) by (metis mset_map mset_rev)
  moreover have "sorted_wrt (\<lambda>v w. cmp_nodes ic ct v w \<le> 0) (map ahvalue ys)"
    using ys(3) by (simp add: in_order_def sorted_wrt_map)
  ultimately show ?thesis using s'(4) by blast
qed

end

lemma mset_map_copy:
  assumes "\<And>b. g (b\<lparr>ahcode := None\<rparr>) = g b"
  shows "mset (map g (concat (map (\<lambda>chain. rev (map (\<lambda>b. b\<lparr>ahcode := None\<rparr>) chain)) vs))) = mset (map g (concat vs))"
proof (induction vs)
  case (Cons c vs)
  have "map g (rev (map (\<lambda>b. b\<lparr>ahcode := None\<rparr>) c)) = rev (map g c)" using assms by (simp add: rev_map comp_def)
  then show ?case using Cons by simp
qed simp

text \<open>A copy has the same names and values, in chains of the same number.\<close>

lemma dup_buckets:
  assumes "var_array symb = Some vs"
  shows "\<exists>vs'. dup_table symb new = new\<lparr>table_size := table_size symb, var_array := Some vs', array_size := array_size symb\<rparr> \<and>
    length vs' = length vs \<and> mset (map ahname (concat vs')) = mset (map ahname (concat vs)) \<and>
    mset (map (out_value how) (concat vs')) = mset (map (out_value how) (concat vs))"
proof -
  have "out_value how (b\<lparr>ahcode := None\<rparr>) = out_value how b" for b by (cases how) (simp_all add: out_value_def)
  note m = mset_map_copy[of "out_value how" vs, OF this] mset_map_copy[of ahname vs]
  show ?thesis
    by (rule exI[of _ "map (\<lambda>chain. rev (map (\<lambda>b. b\<lparr>ahcode := None\<rparr>) chain)) vs"])
      (use assms m in \<open>simp add: dup_table_def\<close>)
qed

context string_hash
begin

lemma asort_actual_ok:
  assumes ok: "table_ok code (st array)" and dest: "dest \<noteq> Some array"
    and hom: "homogeneous (set_mset (asort_values how (elem_map (st array))))"
  shows "\<exists>st' vals. asort_actual ic ct hash st array dest how = Some (length vals, st') \<and>
    mset vals = asort_values how (elem_map (st array)) \<and> sorted_wrt (\<lambda>v w. cmp_nodes ic ct v w \<le> 0) vals \<and>
    (let t = (case dest of None \<Rightarrow> array | Some d \<Rightarrow> d)
     in table_ok code (st' t) \<and> elem_map (st' t) = numbered 0 vals \<and> (\<forall>a. a \<noteq> t \<longrightarrow> st' a = st a))"
proof (cases "var_array (st array)")
  case None
  have v: "asort_values how (elem_map (st array)) = {#}" using None by (simp add: elem_map_def asort_values_def)
  show ?thesis
  proof (cases dest)
    case None': None
    have "asort_actual ic ct hash st array dest how = Some (0, st)"
      using None None' by (simp add: asort_actual_def assoc_sort_inplace_def)
    then show ?thesis using v ok None None' by (intro exI[of _ st] exI[of _ "[]"]) (simp add: elem_map_def)
  next
    case (Some d)
    let ?s = "dup_table (st array) (assoc_clear (st d))"
    have "?s = (assoc_clear (st d))\<lparr>table_size := 0, var_array := None, array_size := array_size (st array)\<rparr>"
      using None by (simp add: dup_table_def)
    then have s: "var_array ?s = None" "table_size ?s = 0" by simp_all
    have "asort_actual ic ct hash st array dest how = Some (0, st(d := ?s))"
      using s Some dest by (simp add: asort_actual_def assoc_sort_inplace_def)
    then show ?thesis using v s Some by (intro exI[of _ "st(d := ?s)"] exI[of _ "[]"]) (simp add: elem_map_def table_ok_def)
  qed
next
  case (Some vs)
  then have wf: "wf_table code (array_size (st array)) vs" and ts: "table_size (st array) = int (length (concat vs))"
    using ok by (simp_all add: table_ok_def)
  have av: "asort_values how (elem_map (st array)) = mset (map (out_value how) (concat vs))" by (rule asort_values_table[OF wf Some])
  have named: "\<forall>b \<in> set (concat vs). ahname b \<noteq> None" using wf unfolding wf_table_def by (metis option.distinct(1) placed_mem)
  have len: "length vs = array_size (st array)" "0 < array_size (st array)" using wf_length[OF wf] by auto
  show ?thesis
  proof (cases dest)
    case None
    from sort_inplace_ok[OF Some len ts named, of how ic ct] hom av obtain s' vals where
      s': "assoc_sort_inplace ic ct hash (st array) how = Some (length vals, s')" "table_ok code s'" "elem_map s' = numbered 0 vals"
        "mset vals = mset (map (out_value how) (concat vs))" "sorted_wrt (\<lambda>v w. cmp_nodes ic ct v w \<le> 0) vals" by auto
    then have "asort_actual ic ct hash st array dest how = Some (length vals, st(array := s'))" using None by (simp add: asort_actual_def)
    then show ?thesis using s' av None by (intro exI[of _ "st(array := s')"] exI[of _ vals]) simp
  next
    case d: (Some d)
    let ?new = "assoc_clear (st d)"
    from dup_buckets[OF Some, of ?new how] obtain vs' where
      du: "dup_table (st array) ?new = ?new\<lparr>table_size := table_size (st array), var_array := Some vs', array_size := array_size (st array)\<rparr>"
        "length vs' = length vs" "mset (map ahname (concat vs')) = mset (map ahname (concat vs))"
        "mset (map (out_value how) (concat vs')) = mset (map (out_value how) (concat vs))" by blast
    let ?s = "dup_table (st array) ?new"
    have "set (map ahname (concat vs')) = set (map ahname (concat vs))" using du(3) mset_eq_setD by blast
    then have named': "\<forall>b \<in> set (concat vs'). ahname b \<noteq> None" using named by (metis (no_types, lifting) image_iff set_map)
    have "length (concat vs') = length (concat vs)" using du(3) by (metis length_map mset_eq_length)
    then have s: "var_array ?s = Some vs'" "length vs' = array_size ?s" "0 < array_size ?s" "table_size ?s = int (length (concat vs'))"
      using du(1,2) len ts by simp_all
    have "homogeneous (set_mset (mset (map (out_value how) (concat vs'))))" using hom av du(4) by (simp only:)
    from sort_inplace_ok[OF s named' this, of ic ct, unfolded du(4)] obtain s' vals where
      s': "assoc_sort_inplace ic ct hash ?s how = Some (length vals, s')" "table_ok code s'" "elem_map s' = numbered 0 vals"
        "mset vals = mset (map (out_value how) (concat vs))" "sorted_wrt (\<lambda>v w. cmp_nodes ic ct v w \<le> 0) vals" by blast
    then have "asort_actual ic ct hash st array dest how = Some (length vals, st(d := s'))"
      using d dest by (simp add: asort_actual_def)
    then show ?thesis using s' av d by (intro exI[of _ "st(d := s')"] exI[of _ vals]) simp
  qed
qed

lemma asort_onto_itself:
  "\<exists>st'. asort_actual ic ct hash st array (Some array) how = Some (0, st') \<and> var_array (st' array) = None"
  by (cases "var_array (st array)") (simp_all add: asort_actual_def assoc_clear_def dup_table_def assoc_sort_inplace_def Let_def)

lemma asort_array:
  assumes ops: "do_ops avg hash new_array ops = Some (st array)"
    and hom: "homogeneous (set_mset (asort_values how (foldl map_op Map.empty ops)))"
  shows "(dest \<noteq> Some array \<longrightarrow> (\<exists>st' vals. asort_actual ic ct hash st array dest how = Some (length vals, st') \<and>
      mset vals = asort_values how (foldl map_op Map.empty ops) \<and> sorted_wrt (\<lambda>v w. cmp_nodes ic ct v w \<le> 0) vals \<and>
      (let t = (case dest of None \<Rightarrow> array | Some d \<Rightarrow> d)
       in (\<forall>k. in_array hash (st' t) k = Some (numbered 0 vals k)) \<and> (\<forall>a. a \<noteq> t \<longrightarrow> st' a = st a)))) \<and>
    (dest = Some array \<longrightarrow> (\<exists>st'. asort_actual ic ct hash st array dest how = Some (0, st') \<and>
      (\<forall>k. in_array hash (st' array) k = Some None)))"
proof (intro conjI impI)
  have "table_ok code new_array" "chains_short avg new_array" "elem_map new_array = Map.empty"
    by (simp_all add: new_array_def table_ok_def chains_short_def elem_map_def)
  with do_ops_ok[of new_array avg ops] ops have t: "table_ok code (st array)" "elem_map (st array) = foldl map_op Map.empty ops" by auto
  assume d: "dest \<noteq> Some array"
  from asort_actual_ok[where st = st and array = array and ic = ic and ct = ct, OF t(1) d, unfolded t(2), OF hom] obtain st' vals where
    s: "asort_actual ic ct hash st array dest how = Some (length vals, st')" "mset vals = asort_values how (foldl map_op Map.empty ops)"
      "sorted_wrt (\<lambda>v w. cmp_nodes ic ct v w \<le> 0) vals"
      "let t = (case dest of None \<Rightarrow> array | Some d \<Rightarrow> d)
       in table_ok code (st' t) \<and> elem_map (st' t) = numbered 0 vals \<and> (\<forall>a. a \<noteq> t \<longrightarrow> st' a = st a)" by blast
  let ?t = "case dest of None \<Rightarrow> array | Some d \<Rightarrow> d"
  have "table_ok code (st' ?t)" "elem_map (st' ?t) = numbered 0 vals" "\<forall>a. a \<noteq> ?t \<longrightarrow> st' a = st a"
    using s(4) unfolding Let_def by blast+
  then have "let t = ?t in (\<forall>k. in_array hash (st' t) k = Some (numbered 0 vals k)) \<and> (\<forall>a. a \<noteq> t \<longrightarrow> st' a = st a)"
    using in_array_ok by (metis (no_types, lifting))
  then show "\<exists>st' vals. asort_actual ic ct hash st array dest how = Some (length vals, st') \<and>
      mset vals = asort_values how (foldl map_op Map.empty ops) \<and> sorted_wrt (\<lambda>v w. cmp_nodes ic ct v w \<le> 0) vals \<and>
      (let t = ?t in (\<forall>k. in_array hash (st' t) k = Some (numbered 0 vals k)) \<and> (\<forall>a. a \<noteq> t \<longrightarrow> st' a = st a))"
    using s(1-3) by blast
next
  assume "dest = Some array"
  then show "\<exists>st'. asort_actual ic ct hash st array dest how = Some (0, st') \<and> (\<forall>k. in_array hash (st' array) k = Some None)"
    using asort_onto_itself[of ic ct st array how] by (auto simp: in_array_def)
qed

end

text \<open>C13: \<open>asort\<close> and \<open>asorti\<close> of an array that any sequence of operations built, with values (for \<open>asorti\<close> indices) that are all
  numbers other than NaN or all strings, return the number of elements and leave in the destination, or in the array when none is
  given, exactly these values in ascending order under the indices 1, 2, and so on; no other array changes.
  When the destination is the array itself, it ends up empty.\<close>

theorem asort_sorts:
  assumes "H = (if gst then gst_hash_string else awk_hash)" and "do_ops avg H new_array ops = Some (st array)"
    and "homogeneous (set_mset (asort_values how (foldl map_op Map.empty ops)))"
  shows "(dest \<noteq> Some array \<longrightarrow> (\<exists>st' vals. asort_actual ic ct H st array dest how = Some (length vals, st') \<and>
      mset vals = asort_values how (foldl map_op Map.empty ops) \<and> sorted_wrt (\<lambda>v w. cmp_nodes ic ct v w \<le> 0) vals \<and>
      (let t = (case dest of None \<Rightarrow> array | Some d \<Rightarrow> d)
       in (\<forall>k. in_array H (st' t) k = Some (numbered 0 vals k)) \<and> (\<forall>a. a \<noteq> t \<longrightarrow> st' a = st a)))) \<and>
    (dest = Some array \<longrightarrow> (\<exists>st'. asort_actual ic ct H st array dest how = Some (0, st') \<and>
      (\<forall>k. in_array H (st' array) k = Some None)))"
proof (cases gst)
  case True
  then have H: "H = gst_hash_string" using assms(1) by simp
  show ?thesis unfolding H by (rule gst_hash.asort_array) (use assms(2,3) H in auto)
next
  case False
  then have H: "H = awk_hash" using assms(1) by simp
  show ?thesis unfolding H by (rule sdbm_hash.asort_array) (use assms(2,3) H in auto)
qed

theorem asort_sorts_witness:
  "\<exists>(st :: nat \<Rightarrow> symbol) st' vals. asort_actual False casetable awk_hash st 0 (Some 1) VALUE = Some (length vals, st') \<and>
    mset vals = {#text_node [122], text_node [121]#} \<and> sorted_wrt (\<lambda>v w. cmp_nodes False casetable v w \<le> 0) vals"
proof -
  let ?ops = "[Assign [97] (text_node [122]), Assign [98] (text_node [121])]"
  from sdbm_hash.array_is_map[of 2 ?ops] obtain symb where s: "do_ops 2 awk_hash new_array ?ops = Some symb" by blast
  have "asort_values VALUE (foldl map_op Map.empty ?ops) = {#text_node [122], text_node [121]#}"
    by (simp add: asort_values_def)
  moreover have "homogeneous {text_node [122], text_node [121]}" by (simp add: homogeneous_def text_node_def short_def)
  ultimately show ?thesis
    using asort_sorts[of awk_hash False 2 ?ops "\<lambda>_ :: nat. symb" 0 VALUE "Some 1" False casetable] s by auto
qed

end
