(* ===== verification/Regex_Sets.thy ===== *)
theory Regex_Sets
  imports Prelude
begin

text \<open>
  The node sets of the regular expression matcher, \<open>regex_internal.c\<close>: sorted arrays of node numbers which are
  merged in place.  An array is a function from indices, with a number of cells; a cell that was never written is
  \<open>None\<close>, and reading it, or using an index outside of the array, makes the operation \<open>None\<close>.  Numbers and
  indices are unbounded here; in the C program they are bounded by the size of the expression.  \<open>mem\<close> says whether
  the allocation an operation may need succeeds.
\<close>

text \<open>\<open>alloc\<close> and \<open>nelem\<close> are the fields; \<open>room\<close> is the number of cells \<open>elems\<close> points to.\<close>

record re_node_set =
  alloc :: int
  nelem :: int
  room :: int
  elems :: "int \<Rightarrow> int option"

datatype reg_errcode = REG_NOERROR | REG_ESPACE

section \<open>Access to the elements\<close>

definition rd_elem :: "re_node_set \<Rightarrow> int \<Rightarrow> int option" where
  "rd_elem s i = (if 0 \<le> i \<and> i < room s then elems s i else None)"

definition wr_elem :: "re_node_set \<Rightarrow> int \<Rightarrow> int \<Rightarrow> re_node_set option" where
  "wr_elem s i v = (if 0 \<le> i \<and> i < room s then Some (s\<lparr>elems := (elems s)(i \<mapsto> v)\<rparr>) else None)"

text \<open>\<open>memcpy\<close> of \<open>n\<close> elements, which must be inside of both arrays.\<close>

definition copy_elems :: "re_node_set \<Rightarrow> int \<Rightarrow> re_node_set \<Rightarrow> int \<Rightarrow> int \<Rightarrow> re_node_set option" where
  "copy_elems d p s q n =
     (if n = 0 then Some d
      else if 0 \<le> n \<and> 0 \<le> p \<and> p + n \<le> room d \<and> 0 \<le> q \<and> q + n \<le> room s
      then Some (d\<lparr>elems := (\<lambda>i. if p \<le> i \<and> i < p + n then elems s (q + (i - p)) else elems d i)\<rparr>)
      else None)"

text \<open>\<open>memcpy\<close> to the start of the same array: the two ranges must not overlap.\<close>

definition copy_within :: "re_node_set \<Rightarrow> int \<Rightarrow> int \<Rightarrow> re_node_set option" where
  "copy_within d q n = (if n \<le> q \<or> n = 0 then copy_elems d 0 d q n else None)"

text \<open>\<open>re_malloc\<close> gives fresh cells, \<open>re_realloc\<close> keeps the old ones.\<close>

definition new_cells :: "int \<Rightarrow> re_node_set \<Rightarrow> re_node_set" where
  "new_cells n s = s\<lparr>alloc := n, room := n, elems := (\<lambda>_. None)\<rparr>"

definition more_cells :: "int \<Rightarrow> re_node_set \<Rightarrow> re_node_set" where
  "more_cells n s = s\<lparr>alloc := n, room := n, elems := (\<lambda>i. if i < room s then elems s i else None)\<rparr>"

section \<open>Initialisation\<close>

definition re_node_set_init_empty :: "re_node_set \<Rightarrow> re_node_set" where
  "re_node_set_init_empty s = s\<lparr>alloc := 0, nelem := 0, room := 0, elems := (\<lambda>_. None)\<rparr>"

definition re_node_set_empty :: "re_node_set \<Rightarrow> re_node_set" where
  "re_node_set_empty s = s\<lparr>nelem := 0\<rparr>"

definition re_node_set_alloc :: "bool \<Rightarrow> re_node_set \<Rightarrow> int \<Rightarrow> reg_errcode \<times> re_node_set" where
  "re_node_set_alloc mem s n =
     (if n = 0 then (REG_NOERROR, s\<lparr>alloc := 0, nelem := 0, room := 0, elems := (\<lambda>_. None)\<rparr>)
      else let s1 = new_cells n (s\<lparr>nelem := 0\<rparr>) in if mem then (REG_NOERROR, s1) else (REG_ESPACE, s1\<lparr>room := 0\<rparr>))"

definition re_node_set_init_1 :: "bool \<Rightarrow> re_node_set \<Rightarrow> int \<Rightarrow> (reg_errcode \<times> re_node_set) option" where
  "re_node_set_init_1 mem s elem =
     (let s1 = new_cells 1 (s\<lparr>nelem := 1\<rparr>)
      in if \<not> mem then Some (REG_ESPACE, s1\<lparr>alloc := 0, nelem := 0, room := 0\<rparr>)
         else do { s2 \<leftarrow> wr_elem s1 0 elem; Some (REG_NOERROR, s2) })"

definition re_node_set_init_2 :: "bool \<Rightarrow> re_node_set \<Rightarrow> int \<Rightarrow> int \<Rightarrow> (reg_errcode \<times> re_node_set) option" where
  "re_node_set_init_2 mem s elem1 elem2 =
     (let s1 = new_cells 2 s
      in if \<not> mem then Some (REG_ESPACE, s1\<lparr>room := 0\<rparr>)
         else if elem1 = elem2 then do { s2 \<leftarrow> wr_elem (s1\<lparr>nelem := 1\<rparr>) 0 elem1; Some (REG_NOERROR, s2) }
         else if elem1 < elem2 then do {
           s2 \<leftarrow> wr_elem (s1\<lparr>nelem := 2\<rparr>) 0 elem1; s3 \<leftarrow> wr_elem s2 1 elem2; Some (REG_NOERROR, s3) }
         else do { s2 \<leftarrow> wr_elem (s1\<lparr>nelem := 2\<rparr>) 0 elem2; s3 \<leftarrow> wr_elem s2 1 elem1; Some (REG_NOERROR, s3) })"

definition re_node_set_init_copy :: "bool \<Rightarrow> re_node_set \<Rightarrow> re_node_set \<Rightarrow> (reg_errcode \<times> re_node_set) option" where
  "re_node_set_init_copy mem dest src =
     (let d1 = dest\<lparr>nelem := nelem src\<rparr>
      in if nelem src > 0 then
           let d2 = new_cells (nelem d1) d1
           in if \<not> mem then Some (REG_ESPACE, d2\<lparr>alloc := 0, nelem := 0, room := 0\<rparr>)
              else do { d3 \<leftarrow> copy_elems d2 0 src 0 (nelem src); Some (REG_NOERROR, d3) }
         else Some (REG_NOERROR, re_node_set_init_empty d1))"

section \<open>Union into a new set\<close>

partial_function (option) union_loop ::
  "re_node_set \<Rightarrow> re_node_set \<Rightarrow> re_node_set \<Rightarrow> int \<Rightarrow> int \<Rightarrow> int \<Rightarrow> (re_node_set \<times> int \<times> int \<times> int) option" where
  "union_loop src1 src2 dest i1 i2 id' =
     (if i1 < nelem src1 \<and> i2 < nelem src2 then do {
        x \<leftarrow> rd_elem src1 i1;
        y \<leftarrow> rd_elem src2 i2;
        if x > y then do { d \<leftarrow> wr_elem dest id' y; union_loop src1 src2 d i1 (i2 + 1) (id' + 1) }
        else do {
          d \<leftarrow> wr_elem dest id' x;
          union_loop src1 src2 d (i1 + 1) (if x = y then i2 + 1 else i2) (id' + 1) } }
      else Some (dest, i1, i2, id'))"

text \<open>A source may be a null pointer.\<close>

definition re_node_set_init_union ::
  "bool \<Rightarrow> re_node_set \<Rightarrow> re_node_set option \<Rightarrow> re_node_set option \<Rightarrow> (reg_errcode \<times> re_node_set) option" where
  "re_node_set_init_union mem dest p1 p2 =
     (case (p1, p2) of
        (Some src1, Some src2) \<Rightarrow>
          if nelem src1 > 0 \<and> nelem src2 > 0 then
            let d0 = new_cells (nelem src1 + nelem src2) dest
            in if \<not> mem then Some (REG_ESPACE, d0\<lparr>room := 0\<rparr>)
               else do {
                 (d1, i1, i2, id1) \<leftarrow> union_loop src1 src2 d0 0 0 0;
                 (d2, id2) \<leftarrow>
                   (if i1 < nelem src1 then do { d2 \<leftarrow> copy_elems d1 id1 src1 i1 (nelem src1 - i1); Some (d2, id1 + (nelem src1 - i1)) }
                    else if i2 < nelem src2 then do { d2 \<leftarrow> copy_elems d1 id1 src2 i2 (nelem src2 - i2); Some (d2, id1 + (nelem src2 - i2)) }
                    else Some (d1, id1));
                 Some (REG_NOERROR, d2\<lparr>nelem := id2\<rparr>) }
          else if nelem src1 > 0 then re_node_set_init_copy mem dest src1
          else if nelem src2 > 0 then re_node_set_init_copy mem dest src2
          else Some (REG_NOERROR, re_node_set_init_empty dest)
      | (Some src1, None) \<Rightarrow> if nelem src1 > 0 then re_node_set_init_copy mem dest src1 else Some (REG_NOERROR, re_node_set_init_empty dest)
      | (None, Some src2) \<Rightarrow> if nelem src2 > 0 then re_node_set_init_copy mem dest src2 else Some (REG_NOERROR, re_node_set_init_empty dest)
      | (None, None) \<Rightarrow> Some (REG_NOERROR, re_node_set_init_empty dest))"

section \<open>Merging in place\<close>

text \<open>The last loop of \<open>re_node_set_merge\<close> and \<open>re_node_set_add_intersect\<close>: the result, and \<open>delta\<close> when the loop is left.\<close>

partial_function (option) copy_down :: "re_node_set \<Rightarrow> int \<Rightarrow> int \<Rightarrow> int \<Rightarrow> (re_node_set \<times> int) option" where
  "copy_down d i id' delta = do {
     x \<leftarrow> rd_elem d i;
     y \<leftarrow> rd_elem d id';
     if x > y then do {
       d1 \<leftarrow> wr_elem d (id' + delta) x;
       if delta - 1 = 0 then Some (d1, delta - 1) else copy_down d1 (i - 1) id' (delta - 1) }
     else do {
       d1 \<leftarrow> wr_elem d (id' + delta) y;
       if id' - 1 < 0 then Some (d1, delta) else copy_down d1 i (id' - 1) delta } }"

text \<open>The elements of \<open>src\<close> that are not in \<open>dest\<close> go to the top of \<open>dest\<close>.\<close>

partial_function (option) new_elems :: "re_node_set \<Rightarrow> re_node_set \<Rightarrow> int \<Rightarrow> int \<Rightarrow> int \<Rightarrow> (re_node_set \<times> int \<times> int) option" where
  "new_elems d src i id' sbase =
     (if i \<ge> 0 \<and> id' \<ge> 0 then do {
        y \<leftarrow> rd_elem d id';
        x \<leftarrow> rd_elem src i;
        if y = x then new_elems d src (i - 1) (id' - 1) sbase
        else if y < x then do { d1 \<leftarrow> wr_elem d (sbase - 1) x; new_elems d1 src (i - 1) id' (sbase - 1) }
        else new_elems d src i (id' - 1) sbase }
      else Some (d, i, sbase))"

definition re_node_set_merge :: "bool \<Rightarrow> re_node_set \<Rightarrow> re_node_set option \<Rightarrow> (reg_errcode \<times> re_node_set) option" where
  "re_node_set_merge mem dest srcp =
     (case srcp of None \<Rightarrow> Some (REG_NOERROR, dest)
      | Some src \<Rightarrow>
          if nelem src = 0 then Some (REG_NOERROR, dest)
          else
            let grow = (alloc dest < 2 * nelem src + nelem dest)
            in if grow \<and> \<not> mem then Some (REG_ESPACE, dest)
               else
                 let d = (if grow then more_cells (2 * (nelem src + alloc dest)) dest else dest)
                 in if nelem d = 0 then do {
                      d1 \<leftarrow> copy_elems (d\<lparr>nelem := nelem src\<rparr>) 0 src 0 (nelem src);
                      Some (REG_NOERROR, d1) }
                    else do {
                      (d1, i, sbase1) \<leftarrow> new_elems d src (nelem src - 1) (nelem d - 1) (nelem d + 2 * nelem src);
                      (d2, sbase) \<leftarrow> (if i \<ge> 0 then do { d2 \<leftarrow> copy_elems d1 (sbase1 - (i + 1)) src 0 (i + 1); Some (d2, sbase1 - (i + 1)) }
                                      else Some (d1, sbase1));
                      let id1 = nelem d - 1;
                      let is1 = nelem d + 2 * nelem src - 1;
                      let delta = is1 - sbase + 1;
                      if delta = 0 then Some (REG_NOERROR, d2)
                      else do {
                        (d3, delta') \<leftarrow> copy_down (d2\<lparr>nelem := nelem d2 + delta\<rparr>) is1 id1 delta;
                        d4 \<leftarrow> copy_within d3 sbase delta';
                        Some (REG_NOERROR, d4) } })"

section \<open>Adding an intersection\<close>

text \<open>The search for an element of the intersection in \<open>dest\<close>.\<close>

partial_function (option) skip_greater :: "re_node_set \<Rightarrow> int \<Rightarrow> int \<Rightarrow> int option" where
  "skip_greater d id' x =
     (if id' \<ge> 0 then do { y \<leftarrow> rd_elem d id'; if y > x then skip_greater d (id' - 1) x else Some id' } else Some id')"

partial_function (option) meet_elems ::
  "re_node_set \<Rightarrow> re_node_set \<Rightarrow> re_node_set \<Rightarrow> int \<Rightarrow> int \<Rightarrow> int \<Rightarrow> int \<Rightarrow> (re_node_set \<times> int) option" where
  "meet_elems src1 src2 d i1 i2 id' sbase = do {
     x \<leftarrow> rd_elem src1 i1;
     y \<leftarrow> rd_elem src2 i2;
     if x = y then do {
       id1 \<leftarrow> skip_greater d id' x;
       present \<leftarrow> (if id1 < 0 then Some False else map_option (\<lambda>z. z = x) (rd_elem d id1));
       (d1, sbase1) \<leftarrow> (if present then Some (d, sbase) else do { d1 \<leftarrow> wr_elem d (sbase - 1) x; Some (d1, sbase - 1) });
       if i1 - 1 < 0 \<or> i2 - 1 < 0 then Some (d1, sbase1) else meet_elems src1 src2 d1 (i1 - 1) (i2 - 1) id1 sbase1 }
     else if x < y then (if i2 - 1 < 0 then Some (d, sbase) else meet_elems src1 src2 d i1 (i2 - 1) id' sbase)
     else (if i1 - 1 < 0 then Some (d, sbase) else meet_elems src1 src2 d (i1 - 1) i2 id' sbase) }"

definition re_node_set_add_intersect ::
  "bool \<Rightarrow> re_node_set \<Rightarrow> re_node_set \<Rightarrow> re_node_set \<Rightarrow> (reg_errcode \<times> re_node_set) option" where
  "re_node_set_add_intersect mem dest src1 src2 =
     (if nelem src1 = 0 \<or> nelem src2 = 0 then Some (REG_NOERROR, dest)
      else
        let grow = (nelem src1 + nelem src2 + nelem dest > alloc dest)
        in if grow \<and> \<not> mem then Some (REG_ESPACE, dest)
           else
             let d = (if grow then more_cells (nelem src1 + nelem src2 + alloc dest) dest else dest);
                 top = nelem d + nelem src1 + nelem src2
             in do {
               (d1, sbase) \<leftarrow> meet_elems src1 src2 d (nelem src1 - 1) (nelem src2 - 1) (nelem d - 1) top;
               let id1 = nelem d - 1;
               let is1 = top - 1;
               let delta = is1 - sbase + 1;
               let d2 = d1\<lparr>nelem := nelem d1 + delta\<rparr>;
               (d3, delta') \<leftarrow> (if delta > 0 \<and> id1 \<ge> 0 then copy_down d2 is1 id1 delta else Some (d2, delta));
               d4 \<leftarrow> copy_within d3 sbase delta';
               Some (REG_NOERROR, d4) })"

section \<open>Single elements\<close>

partial_function (option) shift_all :: "re_node_set \<Rightarrow> int \<Rightarrow> (re_node_set \<times> int) option" where
  "shift_all s idx = (if idx > 0 then do { x \<leftarrow> rd_elem s (idx - 1); s1 \<leftarrow> wr_elem s idx x; shift_all s1 (idx - 1) }
     else Some (s, idx))"

partial_function (option) shift_greater :: "re_node_set \<Rightarrow> int \<Rightarrow> int \<Rightarrow> (re_node_set \<times> int) option" where
  "shift_greater s elem idx = do {
     x \<leftarrow> rd_elem s (idx - 1);
     if x > elem then do { s1 \<leftarrow> wr_elem s idx x; shift_greater s1 elem (idx - 1) } else Some (s, idx) }"

text \<open>The result is 1, or -1 without memory.\<close>

definition re_node_set_insert :: "bool \<Rightarrow> re_node_set \<Rightarrow> int \<Rightarrow> (int \<times> re_node_set) option" where
  "re_node_set_insert mem s elem =
     (if alloc s = 0 then do {
        (r, s1) \<leftarrow> re_node_set_init_1 mem s elem;
        Some (if r = REG_NOERROR then 1 else -1, s1) }
      else if nelem s = 0 then do { s1 \<leftarrow> wr_elem s 0 elem; Some (1, s1\<lparr>nelem := nelem s + 1\<rparr>) }
      else
        let full = (alloc s = nelem s)
        in if full \<and> \<not> mem then Some (-1, s\<lparr>alloc := alloc s * 2\<rparr>)
           else do {
             let s1 = (if full then more_cells (alloc s * 2) s else s);
             x \<leftarrow> rd_elem s1 0;
             (s2, idx) \<leftarrow> (if elem < x then shift_all s1 (nelem s1) else shift_greater s1 elem (nelem s1));
             s3 \<leftarrow> wr_elem s2 idx elem;
             Some (1, s3\<lparr>nelem := nelem s3 + 1\<rparr>) })"

definition re_node_set_insert_last :: "bool \<Rightarrow> re_node_set \<Rightarrow> int \<Rightarrow> (int \<times> re_node_set) option" where
  "re_node_set_insert_last mem s elem =
     (let full = (alloc s = nelem s)
      in if full \<and> \<not> mem then Some (-1, s\<lparr>alloc := (alloc s + 1) * 2\<rparr>)
         else do {
           let s1 = (if full then more_cells ((alloc s + 1) * 2) s else s);
           s2 \<leftarrow> wr_elem s1 (nelem s1) elem;
           Some (1, s2\<lparr>nelem := nelem s2 + 1\<rparr>) })"

partial_function (option) compare_loop :: "re_node_set \<Rightarrow> re_node_set \<Rightarrow> int \<Rightarrow> int option" where
  "compare_loop s1 s2 i =
     (if i - 1 \<ge> 0 then do {
        x \<leftarrow> rd_elem s1 (i - 1);
        y \<leftarrow> rd_elem s2 (i - 1);
        if x \<noteq> y then Some 0 else compare_loop s1 s2 (i - 1) }
      else Some 1)"

definition re_node_set_compare :: "re_node_set option \<Rightarrow> re_node_set option \<Rightarrow> int option" where
  "re_node_set_compare p1 p2 = (case (p1, p2) of
     (Some s1, Some s2) \<Rightarrow> if nelem s1 \<noteq> nelem s2 then Some 0 else compare_loop s1 s2 (nelem s1)
   | _ \<Rightarrow> Some 0)"

partial_function (option) search_loop :: "re_node_set \<Rightarrow> int \<Rightarrow> int \<Rightarrow> int \<Rightarrow> int option" where
  "search_loop s elem idx right =
     (if idx < right then do {
        let mid = (idx + right) div 2;
        x \<leftarrow> rd_elem s mid;
        if x < elem then search_loop s elem (mid + 1) right else search_loop s elem idx mid }
      else Some idx)"

definition re_node_set_contains :: "re_node_set \<Rightarrow> int \<Rightarrow> int option" where
  "re_node_set_contains s elem =
     (if nelem s \<le> 0 then Some 0
      else do {
        idx \<leftarrow> search_loop s elem 0 (nelem s - 1);
        x \<leftarrow> rd_elem s idx;
        Some (if x = elem then idx + 1 else 0) })"

partial_function (option) close_gap :: "re_node_set \<Rightarrow> int \<Rightarrow> re_node_set option" where
  "close_gap s idx = (if idx < nelem s then do { x \<leftarrow> rd_elem s (idx + 1); s1 \<leftarrow> wr_elem s idx x; close_gap s1 (idx + 1) }
     else Some s)"

definition re_node_set_remove_at :: "re_node_set \<Rightarrow> int \<Rightarrow> re_node_set option" where
  "re_node_set_remove_at s idx = (if idx < 0 \<or> idx \<ge> nelem s then Some s else close_gap (s\<lparr>nelem := nelem s - 1\<rparr>) idx)"

definition re_node_set_remove :: "re_node_set \<Rightarrow> int \<Rightarrow> re_node_set option" where
  "re_node_set_remove s elem = do { i \<leftarrow> re_node_set_contains s elem; re_node_set_remove_at s (i - 1) }"

section \<open>Sorted lists in memory\<close>

definition cells :: "(int \<Rightarrow> int option) \<Rightarrow> int \<Rightarrow> int list \<Rightarrow> bool" where
  "cells es p xs \<longleftrightarrow> (\<forall>i < length xs. es (p + int i) = Some (xs ! i))"

text \<open>The set is in memory as the ascending list of its elements.\<close>

definition rep :: "re_node_set \<Rightarrow> int list \<Rightarrow> bool" where
  "rep s xs \<longleftrightarrow> nelem s = int (length xs) \<and> room s = alloc s \<and> nelem s \<le> room s \<and> cells (elems s) 0 xs \<and> sorted_wrt (<) xs"

lemma cells_Nil [simp]: "cells es p []"
  by (simp add: cells_def)

lemma cells_Cons [simp]: "cells es p (x # xs) \<longleftrightarrow> es p = Some x \<and> cells es (p + 1) xs"
  unfolding cells_def by (auto simp: less_Suc_eq_0_disj algebra_simps)

lemma cells_app [simp]: "cells es p (xs @ ys) \<longleftrightarrow> cells es p xs \<and> cells es (p + int (length xs)) ys"
  by (induction xs arbitrary: p) (simp_all add: algebra_simps)

lemma cells_cong: "(\<And>i. p \<le> i \<Longrightarrow> i < p + int (length xs) \<Longrightarrow> es' i = es i) \<Longrightarrow> cells es' p xs = cells es p xs"
  unfolding cells_def by simp

lemma cells_upd: "q < p \<or> p + int (length xs) \<le> q \<Longrightarrow> cells (es(q := v)) p xs = cells es p xs"
  by (rule cells_cong) auto

lemma cells_copy: "cells (\<lambda>i. if p \<le> i \<and> i < p + int (length xs) then es' (q + (i - p)) else es i) p xs = cells es' q xs"
  unfolding cells_def by (auto simp: add.commute)

lemma copy_elems_cells:
  assumes "cells (elems s) q xs" and "n = int (length xs)" and "0 \<le> p" and "p + n \<le> room d" and "0 \<le> q" and "q + n \<le> room s"
  shows "\<exists>es. copy_elems d p s q n = Some (d\<lparr>elems := es\<rparr>) \<and> cells es p xs \<and> (\<forall>i. i < p \<or> p + n \<le> i \<longrightarrow> es i = elems d i)"
proof (cases "n = 0")
  case True
  then show ?thesis using assms(2) by (intro exI[of _ "elems d"]) (simp add: copy_elems_def)
next
  case False
  let ?es = "\<lambda>i. if p \<le> i \<and> i < p + n then elems s (q + (i - p)) else elems d i"
  have "cells ?es p xs" using assms(1) unfolding assms(2) cells_copy .
  moreover have "copy_elems d p s q n = Some (d\<lparr>elems := ?es\<rparr>)" using False assms by (simp add: copy_elems_def)
  ultimately show ?thesis by (intro exI[of _ ?es]) auto
qed

lemma rd_cells: "cells (elems s) p xs \<Longrightarrow> i < length xs \<Longrightarrow> 0 \<le> p \<Longrightarrow> p + int (length xs) \<le> room s \<Longrightarrow>
    rd_elem s (p + int i) = Some (xs ! i)"
  by (simp add: rd_elem_def cells_def)

text \<open>The ascending list of a union.\<close>

definition mrg :: "int list \<Rightarrow> int list \<Rightarrow> int list" where
  "mrg xs ys = sorted_list_of_set (set xs \<union> set ys)"

lemma mrg_set [simp]: "set (mrg xs ys) = set xs \<union> set ys"
  by (simp add: mrg_def)

lemma mrg_sorted [simp]: "sorted_wrt (<) (mrg xs ys)"
  by (simp add: mrg_def)

lemma mrg_unique: "sorted_wrt (<) zs \<Longrightarrow> set zs = set xs \<union> set ys \<Longrightarrow> mrg xs ys = zs"
  using strict_sorted_equal[of "mrg xs ys" zs] by simp

lemma mrg_Nil [simp]: "sorted_wrt (<) xs \<Longrightarrow> mrg xs [] = xs" "sorted_wrt (<) xs \<Longrightarrow> mrg [] xs = xs"
  by (rule mrg_unique; simp)+

lemma mrg_snoc:
  "\<forall>x \<in> set xs \<union> set ys. x < b \<Longrightarrow> mrg xs (ys @ [b]) = mrg xs ys @ [b]"
  "\<forall>x \<in> set xs \<union> set ys. x < b \<Longrightarrow> mrg (xs @ [b]) ys = mrg xs ys @ [b]"
  by (rule mrg_unique; auto simp: sorted_wrt_append)+

lemma mrg_Cons:
  "\<forall>x \<in> set xs \<union> set ys. a < x \<Longrightarrow> mrg (a # xs) ys = a # mrg xs ys"
  "\<forall>x \<in> set xs \<union> set ys. a < x \<Longrightarrow> mrg xs (a # ys) = a # mrg xs ys"
  "\<forall>x \<in> set xs \<union> set ys. a < x \<Longrightarrow> mrg (a # xs) (a # ys) = a # mrg xs ys"
  by (rule mrg_unique; auto)+

lemma rep_unique: "rep s xs \<Longrightarrow> rep s ys \<Longrightarrow> xs = ys"
  unfolding rep_def cells_def by (auto intro!: nth_equalityI)

section \<open>The loop that moves the elements into place\<close>

lemma copy_down_ok:
  assumes "cells (elems d) 0 xs" and "cells (elems d) sb ys" and "cells (elems d) (int (length xs + length ys)) zs"
    and "xs \<noteq> []" and "ys \<noteq> []" and "sorted_wrt (<) xs" and "sorted_wrt (<) ys" and "set xs \<inter> set ys = {}"
    and "int (length xs + length ys) \<le> sb" and "sb + int (length ys) \<le> room d"
  shows "\<exists>es ys' rs. copy_down d (sb + int (length ys) - 1) (int (length xs) - 1) (int (length ys)) = Some (d\<lparr>elems := es\<rparr>, int (length ys')) \<and>
    cells es (int (length ys')) rs \<and> cells es sb ys' \<and> ys' @ rs = mrg xs ys @ zs \<and> length ys' \<le> length ys"
  using assms
proof (induction "length xs + length ys" arbitrary: d xs ys zs rule: less_induct)
  case less
  from less.prems(4) obtain xs' a where xs: "xs = xs' @ [a]" by (cases xs rule: rev_cases) auto
  from less.prems(5) obtain ys' b where ys: "ys = ys' @ [b]" by (cases ys rule: rev_cases) auto
  have ra: "rd_elem d (int (length xs) - 1) = Some a"
    using rd_cells[OF less.prems(1), of "length xs'"] less.prems(9,10) xs by simp
  have rb: "rd_elem d (sb + int (length ys) - 1) = Some b"
    using rd_cells[OF less.prems(2), of "length ys'"] less.prems(9,10) ys by (simp add: add.commute)
  have ab: "a \<noteq> b" using less.prems(8) xs ys by auto
  have lt: "\<forall>x \<in> set xs'. x < a" "\<forall>y \<in> set ys'. y < b" using less.prems(6,7) xs ys by (auto simp: sorted_wrt_append)
  let ?pos = "int (length xs) - 1 + int (length ys)"
  have in_room: "0 \<le> ?pos" "?pos < room d" "?pos < sb" using less.prems(4,9,10) xs ys by auto
  show ?case
  proof (cases "b > a")
    case True
    let ?d = "d\<lparr>elems := (elems d)(?pos \<mapsto> b)\<rparr>"
    have w: "wr_elem d ?pos b = Some ?d" using in_room by (simp add: wr_elem_def)
    have c: "cells (elems ?d) 0 xs" "cells (elems ?d) sb ys'" "cells (elems ?d) (int (length xs + length ys')) (b # zs)"
      using less.prems(1-3) in_room(3) xs ys by (simp_all add: cells_upd)
    have "\<forall>x \<in> set xs \<union> set ys'. x < b" using lt True xs by auto
    then have m: "mrg xs ys = mrg xs ys' @ [b]" unfolding ys by (rule mrg_snoc)
    show ?thesis
    proof (cases "ys' = []")
      case True
      then have "copy_down d (sb + int (length ys) - 1) (int (length xs) - 1) (int (length ys)) = Some (?d, 0)"
        using ra rb w \<open>b > a\<close> ys by (subst copy_down.simps) simp
      moreover have "mrg xs [] = xs" using less.prems(6) by simp
      ultimately show ?thesis using c True m
        by (intro exI[of _ "(elems d)(?pos \<mapsto> b)"] exI[of _ "[]"] exI[of _ "xs @ b # zs"]) simp
    next
      case False
      have step: "copy_down d (sb + int (length ys) - 1) (int (length xs) - 1) (int (length ys)) =
          copy_down ?d (sb + int (length ys') - 1) (int (length xs) - 1) (int (length ys'))"
        using ra rb w \<open>b > a\<close> ys False by (subst copy_down.simps) (simp add: algebra_simps)
      have "sorted_wrt (<) ys'" "set xs \<inter> set ys' = {}" using less.prems(7,8) ys by (auto simp: sorted_wrt_append)
      from less.hyps[OF _ c less.prems(4) False less.prems(6) this] less.prems(9,10) ys
      obtain es vs rs where "copy_down ?d (sb + int (length ys') - 1) (int (length xs) - 1) (int (length ys')) = Some (?d\<lparr>elems := es\<rparr>, int (length vs))"
        "cells es (int (length vs)) rs" "cells es sb vs" "vs @ rs = mrg xs ys' @ b # zs" "length vs \<le> length ys'" by auto
      then show ?thesis using step m xs ys by (intro exI[of _ es] exI[of _ vs] exI[of _ rs]) simp
    qed
  next
    case False
    then have ba: "b < a" using ab by simp
    let ?d = "d\<lparr>elems := (elems d)(?pos \<mapsto> a)\<rparr>"
    have w: "wr_elem d ?pos a = Some ?d" using in_room by (simp add: wr_elem_def)
    have c: "cells (elems ?d) 0 xs'" "cells (elems ?d) sb ys" "cells (elems ?d) (int (length xs' + length ys)) (a # zs)"
      using less.prems(1-3) in_room(3) xs ys by (simp_all add: cells_upd)
    have "\<forall>x \<in> set xs' \<union> set ys. x < a" using lt ba ys by auto
    then have m: "mrg xs ys = mrg xs' ys @ [a]" unfolding xs by (rule mrg_snoc)
    show ?thesis
    proof (cases "xs' = []")
      case True
      then have "copy_down d (sb + int (length ys) - 1) (int (length xs) - 1) (int (length ys)) = Some (?d, int (length ys))"
        using ra rb w False xs by (subst copy_down.simps) simp
      moreover have "mrg [] ys = ys" using less.prems(7) by simp
      ultimately show ?thesis using c True m
        by (intro exI[of _ "(elems d)(?pos \<mapsto> a)"] exI[of _ ys] exI[of _ "a # zs"]) simp
    next
      case ne: False
      have step: "copy_down d (sb + int (length ys) - 1) (int (length xs) - 1) (int (length ys)) =
          copy_down ?d (sb + int (length ys) - 1) (int (length xs') - 1) (int (length ys))"
        using ra rb w False xs ne by (subst copy_down.simps) (simp add: algebra_simps)
      have "sorted_wrt (<) xs'" "set xs' \<inter> set ys = {}" using less.prems(6,8) xs by (auto simp: sorted_wrt_append)
      from less.hyps[OF _ c ne less.prems(5) this(1) less.prems(7) this(2)] less.prems(9,10) xs
      obtain es vs rs where "copy_down ?d (sb + int (length ys) - 1) (int (length xs') - 1) (int (length ys)) = Some (?d\<lparr>elems := es\<rparr>, int (length vs))"
        "cells es (int (length vs)) rs" "cells es sb vs" "vs @ rs = mrg xs' ys @ a # zs" "length vs \<le> length ys" by auto
      then show ?thesis using step m xs ys by (intro exI[of _ es] exI[of _ vs] exI[of _ rs]) simp
    qed
  qed
qed


lemma copy_within_cells:
  assumes "cells (elems d) q ys" and "cells (elems d) (int (length ys)) rs" and "0 \<le> q" and "int (length ys) \<le> q"
    and "q + int (length ys) \<le> room d"
  shows "\<exists>es. copy_within d q (int (length ys)) = Some (d\<lparr>elems := es\<rparr>) \<and> cells es 0 (ys @ rs)"
proof -
  from copy_elems_cells[OF assms(1) refl _ _ assms(3), of 0 d] assms(4,5)
  obtain es where es: "copy_elems d 0 d q (int (length ys)) = Some (d\<lparr>elems := es\<rparr>)" "cells es 0 ys"
    "\<forall>i. i < 0 \<or> int (length ys) \<le> i \<longrightarrow> es i = elems d i" by auto
  have "cells es (int (length ys)) rs = cells (elems d) (int (length ys)) rs" by (rule cells_cong) (use es(3) in simp)
  then show ?thesis using es(1,2) assms(2,4) by (intro exI[of _ es]) (simp add: copy_within_def)
qed

section \<open>The new elements of a merge\<close>

lemma new_elems_ok:
  assumes "cells (elems d) 0 A" and "cells (elems s) 0 S" and "cells (elems d) sb T"
    and "sorted_wrt (<) A" and "sorted_wrt (<) S" and "int (length A) \<le> n" and "n \<le> room d" and "0 \<le> n"
    and "n + int (length S) \<le> sb" and "sb \<le> room d" and "int (length S) \<le> room s"
  shows "\<exists>es S' T'. new_elems d s (int (length S) - 1) (int (length A) - 1) sb =
      Some (d\<lparr>elems := es\<rparr>, int (length S') - 1, sb + int (length T) - int (length T')) \<and>
    cells es (sb + int (length T) - int (length T')) T' \<and> cells (elems s) 0 S' \<and>
    filter (\<lambda>x. x \<notin> set A) S @ T = S' @ T' \<and> (\<forall>i < n. es i = elems d i) \<and>
    int (length T') - int (length T) + int (length S') \<le> int (length S) \<and> length S' \<le> length S"
  using assms
proof (induction "length A + length S" arbitrary: d A S T sb rule: less_induct)
  case less
  show ?case
  proof (cases "A = [] \<or> S = []")
    case True
    then have "new_elems d s (int (length S) - 1) (int (length A) - 1) sb = Some (d, int (length S) - 1, sb)"
      by (subst new_elems.simps) auto
    moreover have "filter (\<lambda>x. x \<notin> set A) S = S" using True by auto
    ultimately show ?thesis using less.prems(2,3) by (intro exI[of _ "elems d"] exI[of _ S] exI[of _ T]) simp
  next
    case False
    then obtain A' a where A: "A = A' @ [a]" by (cases A rule: rev_cases) auto
    from False obtain S' b where S: "S = S' @ [b]" by (cases S rule: rev_cases) auto
    have ra: "rd_elem d (int (length A) - 1) = Some a"
      using rd_cells[OF less.prems(1), of "length A'"] less.prems(6,7) A by simp
    have rb: "rd_elem s (int (length S) - 1) = Some b"
      using rd_cells[OF less.prems(2), of "length S'"] less.prems(11) S by simp
    have lt: "\<forall>x \<in> set A'. x < a" "\<forall>y \<in> set S'. y < b" and so: "sorted_wrt (<) A'" "sorted_wrt (<) S'"
      using less.prems(4,5) A S by (auto simp: sorted_wrt_append)
    have cA: "cells (elems d) 0 A'" and cS: "cells (elems s) 0 S'" using less.prems(1,2) A S by simp_all
    consider "a = b" | "a < b" | "b < a" by linarith
    then show ?thesis
    proof cases
      case 1
      have step: "new_elems d s (int (length S) - 1) (int (length A) - 1) sb =
          new_elems d s (int (length S') - 1) (int (length A') - 1) sb"
        using ra rb 1 A S by (subst new_elems.simps) simp
      have "b \<in> set A" "\<forall>y \<in> set S'. y \<noteq> a" using 1 A lt by auto
      then have "filter (\<lambda>x. x \<notin> set A) S = filter (\<lambda>x. x \<notin> set A') S'" unfolding S A by (auto intro!: filter_cong)
      with less.hyps[OF _ cA cS less.prems(3) so] less.prems(6-11) A S step show ?thesis by fastforce
    next
      case 2
      let ?d = "d\<lparr>elems := (elems d)(sb - 1 \<mapsto> b)\<rparr>"
      have w: "wr_elem d (sb - 1) b = Some ?d" using less.prems(6-10) S by (simp add: wr_elem_def)
      have step: "new_elems d s (int (length S) - 1) (int (length A) - 1) sb =
          new_elems ?d s (int (length S') - 1) (int (length A) - 1) (sb - 1)"
        using ra rb w 2 A S by (subst new_elems.simps) simp
      have f: "filter (\<lambda>x. x \<notin> set A) S = filter (\<lambda>x. x \<notin> set A) S' @ [b]" using 2 A S lt by auto
      have c: "cells (elems ?d) 0 A" "cells (elems ?d) (sb - 1) (b # T)" using less.prems(1,3,6,9) S by (simp_all add: cells_upd)
      from less.hyps[OF _ c(1) cS c(2) less.prems(4) so(2)] less.prems(6-11) S
      obtain es V W where r: "new_elems ?d s (int (length S') - 1) (int (length A) - 1) (sb - 1) =
          Some (?d\<lparr>elems := es\<rparr>, int (length V) - 1, sb - 1 + int (length (b # T)) - int (length W))"
        "cells es (sb - 1 + int (length (b # T)) - int (length W)) W" "cells (elems s) 0 V"
        "filter (\<lambda>x. x \<notin> set A) S' @ b # T = V @ W" "\<forall>i < n. es i = elems ?d i"
        "int (length W) - int (length (b # T)) + int (length V) \<le> int (length S')" "length V \<le> length S'" by auto
      have "\<forall>i < n. es i = elems d i" using r(5) less.prems(9) S by simp
      then show ?thesis using step f r S by (intro exI[of _ es] exI[of _ V] exI[of _ W]) simp
    next
      case 3
      have step: "new_elems d s (int (length S) - 1) (int (length A) - 1) sb =
          new_elems d s (int (length S) - 1) (int (length A') - 1) sb"
        using ra rb 3 A S by (subst new_elems.simps) simp
      have f: "filter (\<lambda>x. x \<notin> set A) S = filter (\<lambda>x. x \<notin> set A') S"
        using 3 A S lt by (intro filter_cong) auto
      from less.hyps[OF _ cA less.prems(2,3) so(1) less.prems(5)] less.prems(6-11) A
      show ?thesis unfolding step f by simp
    qed
  qed
qed


lemma more_cells_simps [simp]:
  "nelem (more_cells n s) = nelem s" "alloc (more_cells n s) = n" "room (more_cells n s) = n"
  by (simp_all add: more_cells_def)

lemma new_cells_simps [simp]:
  "nelem (new_cells n s) = nelem s" "alloc (new_cells n s) = n" "room (new_cells n s) = n"
  by (simp_all add: new_cells_def)

lemma cells_more: "rep s xs \<Longrightarrow> cells (elems (more_cells n s)) 0 xs"
  unfolding rep_def cells_def more_cells_def by auto

text \<open>\<open>mrg\<close> does not depend on elements that are there already.\<close>

lemma mrg_filter: "mrg A (filter (\<lambda>x. x \<notin> set A) S) = mrg A S"
  by (auto simp: mrg_def intro!: arg_cong[of _ _ sorted_list_of_set])

lemma mrg_length: "set A \<inter> set S = {} \<Longrightarrow> sorted_wrt (<) A \<Longrightarrow> sorted_wrt (<) S \<Longrightarrow> length (mrg A S) = length A + length S"
  unfolding mrg_def using distinct_card[of A] distinct_card[of S] card_Un_disjoint[of "set A" "set S"]
  by (simp add: strict_sorted_iff)

text \<open>The loop and the copy of what it leaves at the top.\<close>

lemma move_into_place:
  assumes "cells (elems d) 0 A" and "cells (elems d) sb Y" and "A \<noteq> []" and "Y \<noteq> []" and "sorted_wrt (<) A" and "sorted_wrt (<) Y"
    and "set A \<inter> set Y = {}" and "int (length A + length Y) \<le> sb" and "sb + int (length Y) \<le> room d"
  shows "\<exists>es. do { (d3, delta') \<leftarrow> copy_down d (sb + int (length Y) - 1) (int (length A) - 1) (int (length Y));
      d4 \<leftarrow> copy_within d3 sb delta'; Some (REG_NOERROR, d4) } = Some (REG_NOERROR, d\<lparr>elems := es\<rparr>) \<and> cells es 0 (mrg A Y)"
proof -
  from copy_down_ok[OF assms(1,2) cells_Nil assms(3-9)] obtain es Y' rs where
    cd: "copy_down d (sb + int (length Y) - 1) (int (length A) - 1) (int (length Y)) = Some (d\<lparr>elems := es\<rparr>, int (length Y'))"
    "cells es (int (length Y')) rs" "cells es sb Y'" "Y' @ rs = mrg A Y" "length Y' \<le> length Y" by auto
  from copy_within_cells[of "d\<lparr>elems := es\<rparr>" sb Y' rs] cd(2-5) assms(8,9)
  obtain es' where "copy_within (d\<lparr>elems := es\<rparr>) sb (int (length Y')) = Some (d\<lparr>elems := es'\<rparr>)" "cells es' 0 (mrg A Y)" by auto
  then show ?thesis using cd(1) by (intro exI[of _ es']) simp
qed

lemma re_node_set_merge_ok:
  assumes "rep dest A" and "rep src S" and "mem \<or> 2 * nelem src + nelem dest \<le> alloc dest"
  shows "\<exists>d. re_node_set_merge mem dest (Some src) = Some (REG_NOERROR, d) \<and> rep d (mrg A S)"
proof (cases "S = []")
  case True
  then show ?thesis using assms(1,2) by (intro exI[of _ dest]) (simp add: re_node_set_merge_def rep_def)
next
  case False
  let ?grow = "alloc dest < 2 * nelem src + nelem dest"
  define d where "d = (if ?grow then more_cells (2 * (nelem src + alloc dest)) dest else dest)"
  have nS: "nelem src = int (length S)" "nelem dest = int (length A)" "nelem src \<le> room src" "cells (elems src) 0 S"
    "sorted_wrt (<) S" "sorted_wrt (<) A" using assms(1,2) by (simp_all add: rep_def)
  have d: "cells (elems d) 0 A" "nelem d = int (length A)" "room d = alloc d" "int (length A) + 2 * int (length S) \<le> room d"
    using assms(1) nS(1) cells_more[OF assms(1)] by (auto simp: d_def rep_def)
  have start: "re_node_set_merge mem dest (Some src) = (if nelem d = 0 then do {
                      d1 \<leftarrow> copy_elems (d\<lparr>nelem := nelem src\<rparr>) 0 src 0 (nelem src);
                      Some (REG_NOERROR, d1) }
                    else do {
                      (d1, i, sbase1) \<leftarrow> new_elems d src (nelem src - 1) (nelem d - 1) (nelem d + 2 * nelem src);
                      (d2, sbase) \<leftarrow> (if i \<ge> 0 then do { d2 \<leftarrow> copy_elems d1 (sbase1 - (i + 1)) src 0 (i + 1); Some (d2, sbase1 - (i + 1)) }
                                      else Some (d1, sbase1));
                      let id1 = nelem d - 1;
                      let is1 = nelem d + 2 * nelem src - 1;
                      let delta = is1 - sbase + 1;
                      if delta = 0 then Some (REG_NOERROR, d2)
                      else do {
                        (d3, delta') \<leftarrow> copy_down (d2\<lparr>nelem := nelem d2 + delta\<rparr>) is1 id1 delta;
                        d4 \<leftarrow> copy_within d3 sbase delta';
                        Some (REG_NOERROR, d4) } })"
  proof -
    have "\<not> (?grow \<and> \<not> mem)" "nelem src \<noteq> 0" using assms(3) False nS(1) by auto
    then show ?thesis unfolding re_node_set_merge_def d_def by (simp only: Let_def if_False option.case)
  qed
  show ?thesis
  proof (cases "A = []")
    case True
    from copy_elems_cells[OF nS(4,1), of 0 "d\<lparr>nelem := nelem src\<rparr>"] nS(1,3) d(2,4) True
    obtain es where "copy_elems (d\<lparr>nelem := nelem src\<rparr>) 0 src 0 (nelem src) = Some (d\<lparr>nelem := nelem src, elems := es\<rparr>)" "cells es 0 S"
      by auto
    then show ?thesis using start d True nS by (intro exI[of _ "d\<lparr>nelem := nelem src, elems := es\<rparr>"]) (simp add: rep_def)
  next
    case ne: False
    let ?top = "int (length A) + 2 * int (length S)" and ?Y = "filter (\<lambda>x. x \<notin> set A) S"
    from new_elems_ok[OF d(1) nS(4), of ?top "[]" "int (length A)"] nS d
    obtain es V W where ne1: "new_elems d src (nelem src - 1) (nelem d - 1) (nelem d + 2 * nelem src) =
        Some (d\<lparr>elems := es\<rparr>, int (length V) - 1, ?top - int (length W))"
      "cells es (?top - int (length W)) W" "cells (elems src) 0 V" "?Y = V @ W" "\<forall>i < int (length A). es i = elems d i"
      "int (length W) + int (length V) \<le> int (length S)" by auto
    let ?sb = "?top - int (length ?Y)"
    have sb: "?sb = ?top - int (length W) - int (length V)" using ne1(4) by simp
    have cA: "cells es 0 A" using d(1) ne1(5) cells_cong[of 0 A es "elems d"] by simp
    have "\<exists>es2. (if 0 \<le> int (length V) - 1 then do {
        d2 \<leftarrow> copy_elems (d\<lparr>elems := es\<rparr>) (?top - int (length W) - (int (length V) - 1 + 1)) src 0 (int (length V) - 1 + 1);
        Some (d2, ?top - int (length W) - (int (length V) - 1 + 1)) } else Some (d\<lparr>elems := es\<rparr>, ?top - int (length W))) =
        Some (d\<lparr>elems := es2\<rparr>, ?sb) \<and> cells es2 ?sb ?Y \<and> cells es2 0 A"
    proof (cases "V = []")
      case True
      then show ?thesis using ne1(2,4) cA by (intro exI[of _ es]) simp
    next
      case False
      from copy_elems_cells[OF ne1(3) refl, of ?sb "d\<lparr>elems := es\<rparr>"] ne1(6) nS(1,3) d(4) sb
      obtain es2 where es2: "copy_elems (d\<lparr>elems := es\<rparr>) ?sb src 0 (int (length V)) = Some (d\<lparr>elems := es2\<rparr>)" "cells es2 ?sb V"
        "\<forall>i. i < ?sb \<or> ?sb + int (length V) \<le> i \<longrightarrow> es2 i = es i" by auto
      have at: "?sb + int (length V) = ?top - int (length W)" using sb by simp
      have "cells es2 (?sb + int (length V)) W"
        unfolding at using ne1(2) es2(3) cells_cong[of "?top - int (length W)" W es2 es] sb by simp
      moreover have "cells es2 0 A" using cA es2(3) cells_cong[of 0 A es2 es] sb ne1(6) by simp
      moreover have at2: "?top - int (length W) - (int (length V) - 1 + 1) = ?sb" using sb by simp
      moreover have "cells es2 ?sb ?Y" using es2(2) calculation(1) unfolding ne1(4) by simp
      ultimately show ?thesis unfolding at2 using es2(1) False by (intro exI[of _ es2]) (simp add: Suc_le_eq)
    qed
    then obtain es2 where tail: "(if 0 \<le> int (length V) - 1 then do {
        d2 \<leftarrow> copy_elems (d\<lparr>elems := es\<rparr>) (?top - int (length W) - (int (length V) - 1 + 1)) src 0 (int (length V) - 1 + 1);
        Some (d2, ?top - int (length W) - (int (length V) - 1 + 1)) } else Some (d\<lparr>elems := es\<rparr>, ?top - int (length W))) =
        Some (d\<lparr>elems := es2\<rparr>, ?sb)" and c2: "cells es2 ?sb ?Y" "cells es2 0 A" by blast
    let ?d2 = "d\<lparr>elems := es2\<rparr>"
    have run: "re_node_set_merge mem dest (Some src) =
       (if ?Y = [] then Some (REG_NOERROR, ?d2) else
        do { (d3, delta') \<leftarrow> copy_down (?d2\<lparr>nelem := nelem d + int (length ?Y)\<rparr>) (?sb + int (length ?Y) - 1) (nelem d - 1) (int (length ?Y));
             d4 \<leftarrow> copy_within d3 ?sb delta'; Some (REG_NOERROR, d4) })"
    proof -
      have n0: "(nelem d = 0) = False" using ne d(2) by simp
      have e2: "nelem d + 2 * nelem src - 1 = ?sb + int (length ?Y) - 1" using d(2) nS(1) by simp
      have e1: "?sb + int (length ?Y) - 1 - ?sb + 1 = int (length ?Y)" by simp
      have e0: "(int (length ?Y) = 0) = (?Y = [])" by simp
      have nd: "nelem ?d2 = nelem d" by simp
      have bind: "\<And>x f. Option.bind (Some x) f = f x" by simp
      show ?thesis
        unfolding start n0 if_False ne1(1) bind prod.case tail Let_def unfolding e2 unfolding e1 e0 nd unfolding d(2) by (rule refl)
    qed
    show ?thesis
    proof (cases "?Y = []")
      case True
      then have "mrg A S = A" using mrg_filter[of A S] nS(6) by simp
      then show ?thesis using run True c2 d nS by (intro exI[of _ ?d2]) (simp add: rep_def)
    next
      case False
      have len: "int (length A) + int (length ?Y) \<le> room d" "length ?Y \<le> length S"
        using length_filter_le[of "\<lambda>x. x \<notin> set A" S] d(4) by linarith+
      have sY: "sorted_wrt (<) ?Y" and dis: "set A \<inter> set ?Y = {}" using nS(5) by (auto simp: sorted_wrt_filter)
      let ?d = "?d2\<lparr>nelem := nelem d + int (length ?Y)\<rparr>"
      from move_into_place[of ?d A ?sb ?Y] c2 ne False nS(6) sY dis len d(4)
      obtain es3 where "do { (d3, delta') \<leftarrow> copy_down ?d (?sb + int (length ?Y) - 1) (int (length A) - 1) (int (length ?Y));
             d4 \<leftarrow> copy_within d3 ?sb delta'; Some (REG_NOERROR, d4) } = Some (REG_NOERROR, ?d\<lparr>elems := es3\<rparr>)" "cells es3 0 (mrg A ?Y)" by auto
      moreover have "int (length (mrg A S)) = int (length A) + int (length ?Y)"
        using mrg_length[OF dis nS(6) sY] mrg_filter[of A S] by simp
      moreover have "int (length (mrg A S)) \<le> room d" unfolding calculation(3) by (rule len(1))
      ultimately show ?thesis using run False mrg_filter[of A S] d(2,3) by (intro exI[of _ "?d\<lparr>elems := es3\<rparr>"]) (simp add: rep_def)
    qed
  qed
qed

section \<open>The new elements of an intersection\<close>

lemma skip_greater_ok:
  "cells (elems d) 0 D \<Longrightarrow> sorted_wrt (<) D \<Longrightarrow> int (length D) \<le> room d \<Longrightarrow>
    skip_greater d (int (length D) - 1) x = Some (int (length (filter (\<lambda>y. y \<le> x) D)) - 1)"
proof (induction D rule: rev_induct)
  case Nil
  then show ?case by (subst skip_greater.simps) simp
next
  case (snoc a D)
  have ra: "rd_elem d (int (length D)) = Some a"
    using rd_cells[OF snoc.prems(1), of "length D"] snoc.prems(3) by simp
  have f: "a \<le> x \<Longrightarrow> filter (\<lambda>y. y \<le> x) D = D" using snoc.prems(2) by (auto simp: sorted_wrt_append filter_id_conv)
  have "sorted_wrt (<) D" "cells (elems d) 0 D" using snoc.prems(1,2) by (simp_all add: sorted_wrt_append)
  then have "skip_greater d (int (length D) - 1) x = Some (int (length (filter (\<lambda>y. y \<le> x) D)) - 1)"
    using snoc.IH snoc.prems(3) by simp
  then show ?case using ra f by (subst skip_greater.simps) auto
qed

lemma split_at:
  "sorted_wrt (<) D \<Longrightarrow> D = filter (\<lambda>y. y \<le> x) D @ filter (\<lambda>y. x < y) (D :: int list)"
proof (induction D)
  case (Cons a D)
  have "\<not> a \<le> x \<Longrightarrow> \<forall>y \<in> set D. x < y" using Cons.prems by auto
  then have "\<not> a \<le> x \<Longrightarrow> filter (\<lambda>y. y \<le> x) D = [] \<and> filter (\<lambda>y. x < y) D = D" by (auto simp: filter_empty_conv filter_id_conv)
  then show ?case using Cons by (cases "a \<le> x") auto
qed simp

text \<open>The test whether the element is in \<open>dest\<close>.\<close>

lemma present_ok:
  assumes "cells (elems d) 0 D" and "sorted_wrt (<) D" and "int (length D) \<le> room d"
    and i: "i = int (length (filter (\<lambda>y. y \<le> x) D)) - 1"
  shows "(if i < 0 then Some False else map_option (\<lambda>z. z = x) (rd_elem d i)) = Some (x \<in> set D)"
proof (cases "filter (\<lambda>y. y \<le> x) D" rule: rev_cases)
  case Nil
  then show ?thesis by (auto simp: i filter_empty_conv)
next
  case (snoc L a)
  have D: "D = L @ a # filter (\<lambda>y. x < y) D" using split_at[OF assms(2), of x] snoc by simp
  have "length L < length D" "D ! length L = a" by (subst D, simp)+
  then have "rd_elem d i = Some a" using rd_cells[OF assms(1), of "length L"] assms(3) snoc i by simp
  moreover have "a \<in> set (filter (\<lambda>y. y \<le> x) D)" unfolding snoc by simp
  then have "a \<le> x" by simp
  moreover have "x \<in> set D \<longleftrightarrow> x \<in> set L \<or> x = a" by (subst (1) D) auto
  moreover have "\<forall>y \<in> set L. y < a" using assms(2) by (subst (asm) D) (simp add: sorted_wrt_append)
  ultimately have "x \<in> set D \<longleftrightarrow> a = x" by fastforce
  then show ?thesis using snoc i \<open>rd_elem d i = Some a\<close> by simp
qed

text \<open>The elements that go to the top of \<open>dest\<close>.\<close>

definition meet :: "int list \<Rightarrow> int list \<Rightarrow> int list \<Rightarrow> int list" where
  "meet A S1 S2 = filter (\<lambda>x. x \<in> set S2 \<and> x \<notin> set A) S1"

lemma meet_Nil [simp]: "meet A [] S2 = []" "meet A S1 [] = []"
  by (simp_all add: meet_def)

lemma meet_snoc:
  "\<forall>x \<in> set S1. x < a \<Longrightarrow> \<forall>x \<in> set S2. x < a \<Longrightarrow> meet A (S1 @ [a]) (S2 @ [a]) = meet A S1 S2 @ (if a \<in> set A then [] else [a])"
  "\<forall>x \<in> set S1. x < a \<Longrightarrow> a < b \<Longrightarrow> meet A (S1 @ [a]) (S2 @ [b]) = meet A (S1 @ [a]) S2"
  "\<forall>x \<in> set S2. x < b \<Longrightarrow> b < a \<Longrightarrow> meet A (S1 @ [a]) (S2 @ [b]) = meet A S1 (S2 @ [b])"
  by (auto simp: meet_def intro!: filter_cong)

lemma meet_length: "length (meet A S1 S2) \<le> length S1"
  by (simp add: meet_def)

lemma meet_elems_ok:
  assumes "cells (elems src1) 0 S1" and "cells (elems src2) 0 S2" and "S1 \<noteq> []" and "S2 \<noteq> []"
    and "sorted_wrt (<) S1" and "sorted_wrt (<) S2" and "cells (elems d) 0 A" and "A = D @ E" and "sorted_wrt (<) A"
    and "\<forall>e \<in> set E. \<forall>x \<in> set S1 \<inter> set S2. x < e" and "cells (elems d) sb T" and "int (length A + length S1) \<le> sb"
    and "sb \<le> room d" and "int (length S1) \<le> room src1" and "int (length S2) \<le> room src2"
  shows "\<exists>es. meet_elems src1 src2 d (int (length S1) - 1) (int (length S2) - 1) (int (length D) - 1) sb =
      Some (d\<lparr>elems := es\<rparr>, sb - int (length (meet A S1 S2))) \<and> cells es (sb - int (length (meet A S1 S2))) (meet A S1 S2 @ T) \<and>
    (\<forall>i < int (length A). es i = elems d i)"
  using assms
proof (induction "length S1 + length S2" arbitrary: d S1 S2 D E sb T rule: less_induct)
  case less
  from less.prems(3) obtain P a where S1: "S1 = P @ [a]" by (cases S1 rule: rev_cases) auto
  from less.prems(4) obtain Q b where S2: "S2 = Q @ [b]" by (cases S2 rule: rev_cases) auto
  have ra: "rd_elem src1 (int (length S1) - 1) = Some a"
    using rd_cells[OF less.prems(1), of "length P"] less.prems(14) S1 by simp
  have rb: "rd_elem src2 (int (length S2) - 1) = Some b"
    using rd_cells[OF less.prems(2), of "length Q"] less.prems(15) S2 by simp
  have lt: "\<forall>x \<in> set P. x < a" "\<forall>y \<in> set Q. y < b" and so: "sorted_wrt (<) P" "sorted_wrt (<) Q"
    using less.prems(5,6) S1 S2 by (auto simp: sorted_wrt_append)
  have cP: "cells (elems src1) 0 P" and cQ: "cells (elems src2) 0 Q" using less.prems(1,2) S1 S2 by simp_all
  consider "a = b" | "a < b" | "b < a" by linarith
  then show ?case
  proof cases
    case 1
    let ?i = "int (length (filter (\<lambda>y. y \<le> a) D)) - 1"
    have cD: "cells (elems d) 0 D" "sorted_wrt (<) D" "int (length D) \<le> room d"
      using less.prems(7,8,9,12,13) by (auto simp: sorted_wrt_append)
    have pre: "(a \<in> set D) = (a \<in> set A)" using less.prems(8,10) 1 S1 S2 by auto
    note pr = present_ok[OF cD refl, of a, unfolded pre]
    define d1 where "d1 = (if a \<in> set A then d else d\<lparr>elems := (elems d)(sb - 1 \<mapsto> a)\<rparr>)"
    define T1 where "T1 = (if a \<in> set A then T else a # T)"
    define sb1 where "sb1 = sb - int (length T1) + int (length T)"
    have wr: "(if a \<in> set A then Some (d, sb) else do { d1 \<leftarrow> wr_elem d (sb - 1) a; Some (d1, sb - 1) }) = Some (d1, sb1)"
      using less.prems(12,13) S1 by (simp add: wr_elem_def d1_def sb1_def T1_def)
    have c1: "cells (elems d1) 0 A" "cells (elems d1) sb1 T1"
      using less.prems(7,11,12) S1 by (simp_all add: d1_def sb1_def T1_def cells_upd)
    have fr: "\<forall>i < int (length A). elems d1 i = elems d i" using less.prems(12) S1 by (simp add: d1_def)
    have up: "d1\<lparr>elems := es\<rparr> = d\<lparr>elems := es\<rparr>" for es by (simp add: d1_def)
    have m: "meet A S1 S2 = meet A P Q @ (if a \<in> set A then [] else [a])"
      unfolding S1 S2 1[symmetric] using lt 1 by (intro meet_snoc) auto
    have pos: "sb - int (length (meet A S1 S2)) = sb1 - int (length (meet A P Q))" "meet A S1 S2 @ T = meet A P Q @ T1"
      by (simp_all add: m sb1_def T1_def)
    have step: "meet_elems src1 src2 d (int (length S1) - 1) (int (length S2) - 1) (int (length D) - 1) sb =
        (if P = [] \<or> Q = [] then Some (d1, sb1)
         else meet_elems src1 src2 d1 (int (length P) - 1) (int (length Q) - 1) ?i sb1)"
      by (subst meet_elems.simps) (simp only: ra rb 1[symmetric] skip_greater_ok[OF cD] pr wr Option.bind.simps simp_thms if_True prod.case, simp add: S1 S2)
    show ?thesis
    proof (cases "P = [] \<or> Q = []")
      case True
      then have "meet A P Q = []" by auto
      then show ?thesis unfolding step pos using True c1(2) fr up[of "elems d1"] by (intro exI[of _ "elems d1"]) (simp add: d1_def)
    next
      case False
      have A: "A = filter (\<lambda>y. y \<le> a) D @ (filter (\<lambda>y. a < y) D @ E)" using split_at[OF cD(2), of a] less.prems(8) by simp
      have E: "\<forall>e \<in> set (filter (\<lambda>y. a < y) D @ E). \<forall>x \<in> set P \<inter> set Q. x < e" using less.prems(10) lt S1 S2 by auto
      have room: "int (length A + length P) \<le> sb1" "sb1 \<le> room d1"
        using less.prems(12,13) S1 by (simp_all add: d1_def sb1_def T1_def)
      from less.hyps[OF _ cP cQ _ _ so c1(1) A less.prems(9) E c1(2) room] False less.prems(14,15) S1 S2
      obtain es where "meet_elems src1 src2 d1 (int (length P) - 1) (int (length Q) - 1) ?i sb1 =
          Some (d1\<lparr>elems := es\<rparr>, sb1 - int (length (meet A P Q)))"
        "cells es (sb1 - int (length (meet A P Q))) (meet A P Q @ T1)" "\<forall>i < int (length A). es i = elems d1 i" by auto
      then show ?thesis unfolding step pos using False fr up by (intro exI[of _ es]) simp
    qed
  next
    case 2
    have m: "meet A S1 S2 = meet A S1 Q" unfolding S1 S2 by (rule meet_snoc(2)[OF lt(1) 2])
    have step: "meet_elems src1 src2 d (int (length S1) - 1) (int (length S2) - 1) (int (length D) - 1) sb =
        (if Q = [] then Some (d, sb) else meet_elems src1 src2 d (int (length S1) - 1) (int (length Q) - 1) (int (length D) - 1) sb)"
      using 2 by (subst meet_elems.simps) (simp add: ra rb, simp add: S2)
    have E: "\<forall>e \<in> set E. \<forall>x \<in> set S1 \<inter> set Q. x < e" using less.prems(10) S2 by auto
    show ?thesis
    proof (cases "Q = []")
      case True
      then show ?thesis unfolding step m using less.prems(11) by (intro exI[of _ "elems d"]) simp
    next
      case False
      from less.hyps[OF _ less.prems(1) cQ less.prems(3) False less.prems(5) so(2) less.prems(7-9) E less.prems(11-14)] less.prems(15) S2
      show ?thesis unfolding step m using False by simp
    qed
  next
    case 3
    have m: "meet A S1 S2 = meet A P S2" unfolding S1 S2 by (rule meet_snoc(3)[OF lt(2) 3])
    have step: "meet_elems src1 src2 d (int (length S1) - 1) (int (length S2) - 1) (int (length D) - 1) sb =
        (if P = [] then Some (d, sb) else meet_elems src1 src2 d (int (length P) - 1) (int (length S2) - 1) (int (length D) - 1) sb)"
      using 3 by (subst meet_elems.simps) (simp add: ra rb, simp add: S1)
    have E: "\<forall>e \<in> set E. \<forall>x \<in> set P \<inter> set S2. x < e" using less.prems(10) S1 by auto
    show ?thesis
    proof (cases "P = []")
      case True
      then show ?thesis unfolding step m using less.prems(11) by (intro exI[of _ "elems d"]) simp
    next
      case False
      from less.hyps[OF _ cP less.prems(2) False less.prems(4) so(1) less.prems(6-9) E less.prems(11)] less.prems(12-15) S1
      show ?thesis unfolding step m using False by simp
    qed
  qed
qed

lemma meet_length2: "sorted_wrt (<) S1 \<Longrightarrow> length (meet A S1 S2) \<le> length S2"
proof -
  assume "sorted_wrt (<) S1"
  then have "length (meet A S1 S2) = card (set (meet A S1 S2))" by (intro distinct_card[symmetric]) (simp add: meet_def strict_sorted_iff)
  also have "\<dots> \<le> card (set S2)" by (rule card_mono) (auto simp: meet_def)
  finally show ?thesis using card_length[of S2] by simp
qed

lemma re_node_set_add_intersect_ok:
  assumes "rep dest A" and "rep src1 S1" and "rep src2 S2" and "mem \<or> nelem src1 + nelem src2 + nelem dest \<le> alloc dest"
  shows "\<exists>d. re_node_set_add_intersect mem dest src1 src2 = Some (REG_NOERROR, d) \<and> rep d (mrg A (meet A S1 S2))"
proof (cases "S1 = [] \<or> S2 = []")
  case True
  then have "meet A S1 S2 = []" by auto
  then show ?thesis using assms(1-3) True by (intro exI[of _ dest]) (auto simp: re_node_set_add_intersect_def rep_def)
next
  case False
  let ?grow = "nelem src1 + nelem src2 + nelem dest > alloc dest" and ?F = "meet A S1 S2"
  define d where "d = (if ?grow then more_cells (nelem src1 + nelem src2 + alloc dest) dest else dest)"
  have n: "nelem src1 = int (length S1)" "nelem src2 = int (length S2)" "nelem dest = int (length A)" "nelem src1 \<le> room src1"
    "nelem src2 \<le> room src2" "cells (elems src1) 0 S1" "cells (elems src2) 0 S2"
    "sorted_wrt (<) S1" "sorted_wrt (<) S2" "sorted_wrt (<) A" using assms(1-3) by (simp_all add: rep_def)
  have d: "cells (elems d) 0 A" "nelem d = int (length A)" "room d = alloc d" "int (length A) + int (length S1) + int (length S2) \<le> room d"
    using assms(1) n(1,2) cells_more[OF assms(1)] by (auto simp: d_def rep_def)
  define top where "top = int (length A) + int (length S1) + int (length S2)"
  define k where "k = int (length ?F)"
  from meet_elems_ok[OF n(6,7) _ _ n(8,9) d(1) _ n(10) _ cells_Nil, where D = A and E = "[]" and sb = top] False n d(4)
  obtain es where me: "meet_elems src1 src2 d (int (length S1) - 1) (int (length S2) - 1) (int (length A) - 1) top = Some (d\<lparr>elems := es\<rparr>, top - k)"
    "cells es (top - k) ?F" "\<forall>i < int (length A). es i = elems d i" by (auto simp: top_def k_def)
  have cA: "cells es 0 A" using d(1) me(3) cells_cong[of 0 A es "elems d"] by simp
  let ?d2 = "d\<lparr>elems := es, nelem := int (length A) + k\<rparr>"
  have run: "re_node_set_add_intersect mem dest src1 src2 = do {
      (d3, delta') \<leftarrow> (if k > 0 \<and> int (length A) - 1 \<ge> 0 then copy_down ?d2 (top - 1) (int (length A) - 1) k else Some (?d2, k));
      d4 \<leftarrow> copy_within d3 (top - k) delta';
      Some (REG_NOERROR, d4) }"
  proof -
    have "(nelem src1 = 0 \<or> nelem src2 = 0) = False" "(?grow \<and> \<not> mem) = False" using assms(4) False n(1,2) by auto
    then have "re_node_set_add_intersect mem dest src1 src2 = do {
               (d1, sbase) \<leftarrow> meet_elems src1 src2 d (nelem src1 - 1) (nelem src2 - 1) (nelem d - 1) (nelem d + nelem src1 + nelem src2);
               let id1 = nelem d - 1;
               let is1 = nelem d + nelem src1 + nelem src2 - 1;
               let delta = is1 - sbase + 1;
               let d2 = d1\<lparr>nelem := nelem d1 + delta\<rparr>;
               (d3, delta') \<leftarrow> (if delta > 0 \<and> id1 \<ge> 0 then copy_down d2 is1 id1 delta else Some (d2, delta));
               d4 \<leftarrow> copy_within d3 sbase delta';
               Some (REG_NOERROR, d4) }"
      unfolding re_node_set_add_intersect_def d_def by (simp only: Let_def if_False)
    moreover have "top - 1 - (top - k) + 1 = k" "nelem (d\<lparr>elems := es\<rparr>) = int (length A)" using d(2) by simp_all
    ultimately show ?thesis unfolding n(1,2) d(2) top_def[symmetric] me(1) by (simp only: Let_def Option.bind.simps prod.case)
  qed
  have len: "2 * k \<le> int (length S1) + int (length S2)"
    using meet_length[of A S1 S2] meet_length2[OF n(8), of A S2] by (simp add: k_def)
  have sF: "sorted_wrt (<) ?F" and dis: "set A \<inter> set ?F = {}" using n(8) by (auto simp: meet_def sorted_wrt_filter)
  have res: "\<exists>es'. re_node_set_add_intersect mem dest src1 src2 = Some (REG_NOERROR, ?d2\<lparr>elems := es'\<rparr>) \<and> cells es' 0 (mrg A ?F)"
  proof (cases "?F = []")
    case True
    then show ?thesis using run cA n(10) by (intro exI[of _ es]) (simp add: k_def copy_within_def copy_elems_def)
  next
    case F: False
    show ?thesis
    proof (cases "A = []")
      case True
      from copy_within_cells[of ?d2 "top - k" ?F "[]"] me(2) len d(4) True
      obtain es' where "copy_within ?d2 (top - k) k = Some (?d2\<lparr>elems := es'\<rparr>)" "cells es' 0 ?F" by (auto simp: k_def top_def)
      then show ?thesis using run True sF by (intro exI[of _ es']) simp
    next
      case False
      from move_into_place[of ?d2 A "top - k" ?F] me(2) cA False F n(10) sF dis len d(4)
      obtain es' where "do { (d3, delta') \<leftarrow> copy_down ?d2 (top - 1) (int (length A) - 1) k; d4 \<leftarrow> copy_within d3 (top - k) delta'; Some (REG_NOERROR, d4) }
          = Some (REG_NOERROR, ?d2\<lparr>elems := es'\<rparr>)" "cells es' 0 (mrg A ?F)" by (auto simp: k_def top_def)
      moreover have "(k > 0 \<and> int (length A) - 1 \<ge> 0) = True" using F False by (simp add: k_def Suc_le_eq)
      ultimately show ?thesis unfolding run by (intro exI[of _ es']) (simp only: if_True simp_thms)
    qed
  qed
  then obtain es' where es': "re_node_set_add_intersect mem dest src1 src2 = Some (REG_NOERROR, ?d2\<lparr>elems := es'\<rparr>)" "cells es' 0 (mrg A ?F)" by blast
  have "int (length (mrg A ?F)) = int (length A) + k" using mrg_length[OF dis n(10) sF] by (simp add: k_def)
  then have "rep (?d2\<lparr>elems := es'\<rparr>) (mrg A ?F)" using es'(2) d(3,4) len by (simp add: rep_def)
  then show ?thesis using es'(1) by blast
qed

section \<open>The loop of a union\<close>

lemma union_loop_ok:
  assumes "cells (elems s1) i1 X" and "cells (elems s2) i2 Y" and "i1 + int (length X) = nelem s1" and "i2 + int (length Y) = nelem s2"
    and "0 \<le> i1" and "0 \<le> i2" and "nelem s1 \<le> room s1" and "nelem s2 \<le> room s2" and "sorted_wrt (<) X" and "sorted_wrt (<) Y"
    and "cells (elems d) 0 Z" and "int (length Z + length X + length Y) \<le> room d"
  shows "\<exists>es j1 j2 X' Y' Z'. union_loop s1 s2 d i1 i2 (int (length Z)) = Some (d\<lparr>elems := es\<rparr>, j1, j2, int (length Z')) \<and>
    cells es 0 Z' \<and> cells (elems s1) j1 X' \<and> cells (elems s2) j2 Y' \<and> 0 \<le> j1 \<and> 0 \<le> j2 \<and>
    j1 + int (length X') = nelem s1 \<and> j2 + int (length Y') = nelem s2 \<and> (X' = [] \<or> Y' = []) \<and>
    Z' @ X' @ Y' = Z @ mrg X Y \<and> length Z' + length X' + length Y' \<le> length Z + length X + length Y"
  using assms
proof (induction "length X + length Y" arbitrary: d i1 i2 X Y Z rule: less_induct)
  case less
  show ?case
  proof (cases "X = [] \<or> Y = []")
    case True
    then have "union_loop s1 s2 d i1 i2 (int (length Z)) = Some (d, i1, i2, int (length Z))"
      using less.prems(3,4) by (subst union_loop.simps) auto
    moreover have "mrg X Y = X @ Y" using True less.prems(9,10) by auto
    ultimately show ?thesis using less.prems True
      by (intro exI[of _ "elems d"] exI[of _ i1] exI[of _ i2] exI[of _ X] exI[of _ Y] exI[of _ Z]) simp
  next
    case False
    then obtain a P b Q where XY: "X = a # P" "Y = b # Q" by (metis neq_Nil_conv)
    have rd: "rd_elem s1 i1 = Some a" "rd_elem s2 i2 = Some b" "i1 < nelem s1" "i2 < nelem s2"
      using less.prems(1-8) XY by (simp_all add: rd_elem_def)
    have lt: "\<forall>x \<in> set P. a < x" "\<forall>y \<in> set Q. b < y" and so: "sorted_wrt (<) P" "sorted_wrt (<) Q" using less.prems(9,10) XY by auto
    define c where "c = min a b"
    define i1' P' where "i1' = (if a \<le> b then i1 + 1 else i1)" and "P' = (if a \<le> b then P else X)"
    define i2' Q' where "i2' = (if b \<le> a then i2 + 1 else i2)" and "Q' = (if b \<le> a then Q else Y)"
    let ?d = "d\<lparr>elems := (elems d)(int (length Z) \<mapsto> c)\<rparr>"
    have w: "wr_elem d (int (length Z)) c = Some ?d" using less.prems(12) XY by (simp add: wr_elem_def)
    have step: "union_loop s1 s2 d i1 i2 (int (length Z)) = union_loop s1 s2 ?d i1' i2' (int (length (Z @ [c])))"
      using rd w by (subst union_loop.simps) (auto simp: c_def i1'_def i2'_def min_def add.commute)
    have m: "mrg X Y = c # mrg P' Q'" unfolding XY c_def P'_def Q'_def using lt
      by (cases a b rule: linorder_cases) (simp, rule mrg_Cons, force)+
    have c: "cells (elems s1) i1' P'" "cells (elems s2) i2' Q'" "i1' + int (length P') = nelem s1" "i2' + int (length Q') = nelem s2"
      "0 \<le> i1'" "0 \<le> i2'" "sorted_wrt (<) P'" "sorted_wrt (<) Q'" "length P' \<le> length X" "length Q' \<le> length Y" "length P' + length Q' < length X + length Y"
      using less.prems(1-6,9,10) XY so by (auto simp: i1'_def i2'_def P'_def Q'_def)
    have z: "cells (elems ?d) 0 (Z @ [c])" using less.prems(11) by (simp add: cells_upd)
    from less.hyps[OF c(11) c(1-6) less.prems(7,8) c(7,8) z] less.prems(12) c(9-11)
    obtain es j1 j2 X' Y' Z' where "union_loop s1 s2 ?d i1' i2' (int (length (Z @ [c]))) = Some (?d\<lparr>elems := es\<rparr>, j1, j2, int (length Z'))"
      "cells es 0 Z'" "cells (elems s1) j1 X'" "cells (elems s2) j2 Y'" "0 \<le> j1" "0 \<le> j2"
      "j1 + int (length X') = nelem s1" "j2 + int (length Y') = nelem s2" "X' = [] \<or> Y' = []" "Z' @ X' @ Y' = (Z @ [c]) @ mrg P' Q'"
      "length Z' + length X' + length Y' \<le> length (Z @ [c]) + length P' + length Q'" by auto
    then show ?thesis unfolding step m using c(11)
      by (intro exI[of _ es] exI[of _ j1] exI[of _ j2] exI[of _ X'] exI[of _ Y'] exI[of _ Z']) simp
  qed
qed

section \<open>Initialisation and union\<close>

lemma re_node_set_init_empty_ok: "rep (re_node_set_init_empty s) []"
  by (simp add: re_node_set_init_empty_def rep_def)

lemma re_node_set_empty_ok: "rep s xs \<Longrightarrow> rep (re_node_set_empty s) []"
  by (simp add: re_node_set_empty_def rep_def)

lemma re_node_set_alloc_ok: "0 \<le> n \<Longrightarrow> rep (snd (re_node_set_alloc True s n)) []"
  by (simp add: re_node_set_alloc_def rep_def Let_def)

lemma re_node_set_init_2_ok:
  "\<exists>s'. re_node_set_init_2 True s x y = Some (REG_NOERROR, s') \<and> rep s' (mrg [x] [y])"
proof -
  have "mrg [x] [y] = (if x = y then [x] else if x < y then [x, y] else [y, x])" by (rule mrg_unique) auto
  then show ?thesis by (auto simp: re_node_set_init_2_def rep_def wr_elem_def Let_def)
qed

lemma re_node_set_init_1_ok:
  "re_node_set_init_1 mem s x = Some (e, s') \<Longrightarrow> rep s' (if mem then [x] else []) \<and> (e = REG_NOERROR \<longleftrightarrow> mem)"
  "re_node_set_init_1 mem s x \<noteq> None"
  by (auto simp: re_node_set_init_1_def rep_def wr_elem_def Let_def split: if_splits)

lemma re_node_set_init_copy_ok:
  assumes "rep src S"
  shows "\<exists>e d. re_node_set_init_copy mem dest src = Some (e, d) \<and> rep d (if e = REG_NOERROR then S else []) \<and>
    (mem \<or> S = [] \<longrightarrow> e = REG_NOERROR)"
proof -
  consider "S = []" | "S \<noteq> []" "\<not> mem" | "S \<noteq> []" "mem" by blast
  then show ?thesis
  proof cases
    case 3
    let ?d = "new_cells (nelem src) (dest\<lparr>nelem := nelem src\<rparr>)"
    from copy_elems_cells[of src 0 S "nelem src" 0 ?d] assms
    obtain es where "copy_elems ?d 0 src 0 (nelem src) = Some (?d\<lparr>elems := es\<rparr>)" "cells es 0 S" by (auto simp: rep_def)
    then show ?thesis using 3 assms by (auto simp: re_node_set_init_copy_def rep_def Let_def)
  qed (use assms in \<open>auto simp: re_node_set_init_copy_def rep_def re_node_set_init_empty_def Let_def\<close>)
qed

text \<open>A null pointer stands for the empty set.\<close>

definition rep_ptr :: "re_node_set option \<Rightarrow> int list \<Rightarrow> bool" where
  "rep_ptr p xs = (case p of None \<Rightarrow> xs = [] | Some s \<Rightarrow> rep s xs)"

lemma union_tail_ok:
  assumes "cells es 0 Z" and "cells (elems s) j X" and "0 \<le> j" and "j + int (length X) \<le> room s" and "int (length Z + length X) \<le> room d"
  shows "\<exists>es'. copy_elems (d\<lparr>elems := es\<rparr>) (int (length Z)) s j (int (length X)) = Some (d\<lparr>elems := es'\<rparr>) \<and> cells es' 0 (Z @ X)"
proof -
  from copy_elems_cells[OF assms(2) refl, of "int (length Z)" "d\<lparr>elems := es\<rparr>"] assms(3-5)
  obtain es' where "copy_elems (d\<lparr>elems := es\<rparr>) (int (length Z)) s j (int (length X)) = Some (d\<lparr>elems := es'\<rparr>)"
    "cells es' (int (length Z)) X" "\<forall>i. i < int (length Z) \<or> int (length Z) + int (length X) \<le> i \<longrightarrow> es' i = es i" by auto
  moreover have "cells es' 0 Z = cells es 0 Z" by (rule cells_cong) (use calculation(3) in simp)
  ultimately show ?thesis using assms(1) by auto
qed

lemma init_union_both:
  assumes "rep s1 X" and "rep s2 Y" and "X \<noteq> []" and "Y \<noteq> []"
  shows "\<exists>d. re_node_set_init_union True dest (Some s1) (Some s2) = Some (REG_NOERROR, d) \<and> nelem d = int (length (mrg X Y)) \<and> rep d (mrg X Y)"
proof -
  let ?d = "new_cells (nelem s1 + nelem s2) dest"
  have n: "nelem s1 = int (length X)" "nelem s2 = int (length Y)" "nelem s1 \<le> room s1" "nelem s2 \<le> room s2"
    "cells (elems s1) 0 X" "cells (elems s2) 0 Y" "sorted_wrt (<) X" "sorted_wrt (<) Y" using assms(1,2) by (simp_all add: rep_def)
  have pos: "(nelem s1 > 0 \<and> nelem s2 > 0) = True" using n(1,2) assms(3,4) by simp
  from union_loop_ok[OF n(5,6) _ _ _ _ n(3,4,7,8) cells_Nil, of ?d] n(1,2)
  obtain es j1 j2 X' Y' Z' where u: "union_loop s1 s2 ?d 0 0 0 = Some (?d\<lparr>elems := es\<rparr>, j1, j2, int (length Z'))"
    "cells es 0 Z'" "cells (elems s1) j1 X'" "cells (elems s2) j2 Y'" "0 \<le> j1" "0 \<le> j2"
    "j1 + int (length X') = nelem s1" "j2 + int (length Y') = nelem s2" "X' = [] \<or> Y' = []" "Z' @ X' @ Y' = mrg X Y"
    "length Z' + length X' + length Y' \<le> length X + length Y" by auto
  have room: "int (length Z' + length X') \<le> room ?d" "int (length Z' + length Y') \<le> room ?d" using u(11) n(1,2) by simp_all
  have "\<exists>es'. (if j1 < nelem s1 then do { d2 \<leftarrow> copy_elems (?d\<lparr>elems := es\<rparr>) (int (length Z')) s1 j1 (nelem s1 - j1); Some (d2, int (length Z') + (nelem s1 - j1)) }
      else if j2 < nelem s2 then do { d2 \<leftarrow> copy_elems (?d\<lparr>elems := es\<rparr>) (int (length Z')) s2 j2 (nelem s2 - j2); Some (d2, int (length Z') + (nelem s2 - j2)) }
      else Some (?d\<lparr>elems := es\<rparr>, int (length Z'))) = Some (?d\<lparr>elems := es'\<rparr>, int (length (mrg X Y))) \<and> cells es' 0 (mrg X Y)" (is "\<exists>es'. ?tail = _ \<and> _")
  proof -
    have k: "nelem s1 - j1 = int (length X')" "nelem s2 - j2 = int (length Y')"
      "(j1 < nelem s1) = (X' \<noteq> [])" "(j2 < nelem s2) = (Y' \<noteq> [])"
      using u(7,8) by (simp_all flip: length_greater_0_conv) linarith+
    consider "X' \<noteq> []" "Y' = []" | "X' = []" "Y' \<noteq> []" | "X' = []" "Y' = []" using u(9) by blast
    then show ?thesis
    proof cases
      case 1
      from union_tail_ok[OF u(2,3,5) _ room(1)] u(7) n(3) obtain es' where
        "copy_elems (?d\<lparr>elems := es\<rparr>) (int (length Z')) s1 j1 (int (length X')) = Some (?d\<lparr>elems := es'\<rparr>)" "cells es' 0 (Z' @ X')" by auto
      then show ?thesis unfolding k using 1 u(10)[symmetric] by (intro exI[of _ es']) simp
    next
      case 2
      from union_tail_ok[OF u(2,4,6) _ room(2)] u(8) n(4) obtain es' where
        "copy_elems (?d\<lparr>elems := es\<rparr>) (int (length Z')) s2 j2 (int (length Y')) = Some (?d\<lparr>elems := es'\<rparr>)" "cells es' 0 (Z' @ Y')" by auto
      then show ?thesis unfolding k using 2 u(10)[symmetric] by (intro exI[of _ es']) simp
    next
      case 3
      then show ?thesis unfolding k using u(2) u(10)[symmetric] by (intro exI[of _ es]) simp
    qed
  qed
  then obtain es' where tail: "?tail = Some (?d\<lparr>elems := es'\<rparr>, int (length (mrg X Y)))" "cells es' 0 (mrg X Y)" by blast
  have "re_node_set_init_union True dest (Some s1) (Some s2) = Some (REG_NOERROR, ?d\<lparr>elems := es'\<rparr>\<lparr>nelem := int (length (mrg X Y))\<rparr>)"
    unfolding re_node_set_init_union_def prod.case option.case pos
    by (simp only: Let_def if_True not_True_eq_False if_False u(1) tail Option.bind.simps prod.case)
  moreover have "length (mrg X Y) \<le> length X + length Y" using u(10,11) by (metis length_append add.assoc)
  ultimately show ?thesis using tail(2) n(1,2) by (simp add: rep_def)
qed

lemma re_node_set_init_union_ok:
  assumes "rep_ptr p1 X" and "rep_ptr p2 Y"
  shows "\<exists>d. re_node_set_init_union True dest p1 p2 = Some (REG_NOERROR, d) \<and> rep d (mrg X Y)"
proof -
  have pos: "nelem s > 0 \<longleftrightarrow> xs \<noteq> []" if "rep s xs" for s xs using that by (simp add: rep_def)
  have so: "sorted_wrt (<) xs" if "rep s xs" for s xs using that by (simp add: rep_def)
  have copy: "\<exists>d. re_node_set_init_copy True dest s = Some (REG_NOERROR, d) \<and> rep d xs" if "rep s xs" for s xs
    using re_node_set_init_copy_ok[OF that, of True dest] by auto
  show ?thesis
  proof (cases p1; cases p2)
    fix s1 s2 assume p: "p1 = Some s1" "p2 = Some s2"
    then have r: "rep s1 X" "rep s2 Y" using assms by (simp_all add: rep_ptr_def)
    show ?thesis
    proof (cases "X = [] \<or> Y = []")
      case True
      then show ?thesis using p r pos[OF r(1)] pos[OF r(2)] so[OF r(1)] so[OF r(2)] copy[OF r(1)] copy[OF r(2)] re_node_set_init_empty_ok[of dest]
        by (auto simp: re_node_set_init_union_def)
    next
      case False
      then show ?thesis using init_union_both[OF r] p by blast
    qed
  qed (use assms pos so copy re_node_set_init_empty_ok[of dest] in \<open>auto simp: re_node_set_init_union_def rep_ptr_def\<close>)
qed

section \<open>Single elements of a sorted list\<close>

lemma search_loop_ok:
  assumes "cells (elems s) 0 xs" and "int (length xs) \<le> room s" and "sorted_wrt (<) xs" and "i \<le> r" and "r < length xs"
    and "\<forall>j < i. xs ! j < x" and "\<forall>j. r < j \<longrightarrow> j < length xs \<longrightarrow> x < xs ! j"
  shows "\<exists>k < length xs. search_loop s x (int i) (int r) = Some (int k) \<and> (x \<in> set xs \<longleftrightarrow> xs ! k = x)"
  using assms
proof (induction "r - i" arbitrary: i r rule: less_induct)
  case less
  show ?case
  proof (cases "i < r")
    case False
    then have "i = r" using less.prems(4) by simp
    have "xs ! j = x \<Longrightarrow> j < length xs \<Longrightarrow> j = r" for j using less.prems(6,7) \<open>i = r\<close> by (metis nat_neq_iff less_irrefl)
    then have "x \<in> set xs \<longleftrightarrow> xs ! r = x" using less.prems(5) by (auto simp: in_set_conv_nth)
    then show ?thesis using False less.prems(5) \<open>i = r\<close> by (intro exI[of _ r]) (subst search_loop.simps, simp)
  next
    case True
    define m where "m = (i + r) div 2"
    have m: "i \<le> m" "m < r" and mi: "(int i + int r) div 2 = int m" using True by (auto simp: m_def zdiv_int)
    have rd: "rd_elem s (int m) = Some (xs ! m)" using rd_cells[OF less.prems(1), of m] less.prems(2,5) m by simp
    have mono: "j < j' \<Longrightarrow> j' < length xs \<Longrightarrow> xs ! j < xs ! j'" for j j'
      using less.prems(3) by (simp add: sorted_wrt_nth_less)
    show ?thesis
    proof (cases "xs ! m < x")
      case lo: True
      have "search_loop s x (int i) (int r) = search_loop s x (int (Suc m)) (int r)"
        using True rd lo by (subst search_loop.simps) (simp add: mi add.commute)
      moreover have "\<forall>j < Suc m. xs ! j < x" using lo mono m less.prems(5) by (metis less_Suc_eq order.strict_trans)
      ultimately show ?thesis using less.hyps[of r "Suc m"] less.prems m by simp
    next
      case hi: False
      have "search_loop s x (int i) (int r) = search_loop s x (int i) (int m)"
        using True rd hi by (subst search_loop.simps) (simp add: mi)
      moreover have "\<forall>j. m < j \<longrightarrow> j < length xs \<longrightarrow> x < xs ! j" using hi mono by (meson linorder_not_less order.strict_trans2 order_le_less_trans)
      ultimately show ?thesis using less.hyps[of m i] less.prems m by simp
    qed
  qed
qed

lemma re_node_set_contains_ok:
  assumes "rep s xs"
  shows "\<exists>k. re_node_set_contains s x = Some (if x \<in> set xs then int k + 1 else 0) \<and> (x \<in> set xs \<longrightarrow> k < length xs \<and> xs ! k = x)"
proof (cases "xs = []")
  case True
  then show ?thesis using assms by (simp add: re_node_set_contains_def rep_def)
next
  case False
  have s: "cells (elems s) 0 xs" "int (length xs) \<le> room s" "sorted_wrt (<) xs" "nelem s = int (length xs)" using assms by (simp_all add: rep_def)
  have "\<forall>j. length xs - 1 < j \<longrightarrow> j < length xs \<longrightarrow> x < xs ! j" by auto
  from search_loop_ok[OF s(1-3) _ _ _ this, of 0] False obtain k where
    k: "k < length xs" "search_loop s x 0 (int (length xs) - 1) = Some (int k)" "x \<in> set xs \<longleftrightarrow> xs ! k = x"
    by (auto simp: of_nat_diff Suc_le_eq)
  have "rd_elem s (int k) = Some (xs ! k)" using rd_cells[OF s(1) k(1)] s(2) by simp
  then show ?thesis using k s(4) False by (intro exI[of _ k]) (simp add: re_node_set_contains_def)
qed

lemma shift_greater_ok:
  assumes "cells (elems s) 0 (L @ R)" and "L \<noteq> []" and "\<forall>y \<in> set L. y \<le> x" and "\<forall>y \<in> set R. x < y" and "int (length L + length R) < room s"
    and "cells (elems s) (int (length L + length R) + 1) T"
  shows "\<exists>es. shift_greater s x (int (length L + length R)) = Some (s\<lparr>elems := es\<rparr>, int (length L)) \<and>
    cells es 0 L \<and> cells es (int (length L) + 1) (R @ T)"
  using assms
proof (induction R arbitrary: s T rule: rev_induct)
  case Nil
  then obtain M a where L: "L = M @ [a]" by (cases L rule: rev_cases) auto
  then have "rd_elem s (int (length L) - 1) = Some a" using rd_cells[of s 0 L "length M"] Nil.prems(1,5) by simp
  then have "shift_greater s x (int (length L)) = Some (s, int (length L))" using Nil.prems(3) L by (subst shift_greater.simps) simp
  then show ?case using Nil.prems(1,6) by (intro exI[of _ "elems s"]) simp
next
  case (snoc b R)
  let ?n = "int (length L + length R)"
  let ?s = "s\<lparr>elems := (elems s)(?n + 1 \<mapsto> b)\<rparr>"
  have "rd_elem s ?n = Some b" using rd_cells[OF snoc.prems(1), of "length (L @ R)"] snoc.prems(5) by simp
  then have step: "shift_greater s x (int (length L + length (R @ [b]))) = shift_greater ?s x ?n"
    using snoc.prems(4,5) by (subst shift_greater.simps) (simp add: wr_elem_def add.commute)
  have "cells (elems ?s) 0 (L @ R)" "cells (elems ?s) (?n + 1) (b # T)" using snoc.prems(1,6) by (simp_all add: cells_upd algebra_simps)
  from snoc.IH[OF this(1) snoc.prems(2,3) _ _ this(2)] snoc.prems(4,5)
  show ?case unfolding step by simp
qed

lemma shift_all_ok:
  assumes "cells (elems s) 0 R" and "int (length R) < room s" and "cells (elems s) (int (length R) + 1) T"
  shows "\<exists>es. shift_all s (int (length R)) = Some (s\<lparr>elems := es\<rparr>, 0) \<and> cells es 1 (R @ T)"
  using assms
proof (induction R arbitrary: s T rule: rev_induct)
  case Nil
  then show ?case by (intro exI[of _ "elems s"]) (subst shift_all.simps, simp)
next
  case (snoc b R)
  let ?n = "int (length R)"
  let ?s = "s\<lparr>elems := (elems s)(?n + 1 \<mapsto> b)\<rparr>"
  have "rd_elem s ?n = Some b" using rd_cells[OF snoc.prems(1), of "length R"] snoc.prems(2) by simp
  then have step: "shift_all s (int (length (R @ [b]))) = shift_all ?s ?n"
    using snoc.prems(2) by (subst shift_all.simps) (simp add: wr_elem_def add.commute)
  have "cells (elems ?s) 0 R" "cells (elems ?s) (?n + 1) (b # T)" using snoc.prems(1,3) by (simp_all add: cells_upd algebra_simps)
  from snoc.IH[OF this(1) _ this(2)] snoc.prems(2) show ?case unfolding step by simp
qed

text \<open>The list with the new element; \<open>SET should not already have ELEM\<close>.\<close>

lemma mrg_insert: "sorted_wrt (<) (L @ x # R) \<Longrightarrow> mrg (L @ R) [x] = L @ x # R"
  by (rule mrg_unique) auto

lemma re_node_set_insert_ok:
  assumes "rep s xs" and "x \<notin> set xs" and "mem \<or> nelem s < alloc s"
  shows "\<exists>s'. re_node_set_insert mem s x = Some (1, s') \<and> rep s' (mrg xs [x])"
proof -
  have n: "nelem s = int (length xs)" "room s = alloc s" "int (length xs) \<le> alloc s" "cells (elems s) 0 xs" "sorted_wrt (<) xs"
    using assms(1) by (simp_all add: rep_def)
  consider "alloc s = 0" | "alloc s \<noteq> 0" "xs = []" | "alloc s \<noteq> 0" "xs \<noteq> []" by blast
  then show ?thesis
  proof cases
    case 1
    then have "xs = []" "mem" using n assms(3) by auto
    moreover obtain e s' where "re_node_set_init_1 mem s x = Some (e, s')" using re_node_set_init_1_ok(2)[of mem s x] by auto
    ultimately show ?thesis using 1 re_node_set_init_1_ok(1)[of mem s x e s'] by (simp add: re_node_set_insert_def)
  next
    case 2
    then show ?thesis using n by (auto simp: re_node_set_insert_def wr_elem_def rep_def)
  next
    case 3
    define s1 where "s1 = (if alloc s = nelem s then more_cells (alloc s * 2) s else s)"
    have s1: "cells (elems s1) 0 xs" "nelem s1 = int (length xs)" "room s1 = alloc s1" "int (length xs) < room s1"
      using n 3 cells_more[OF assms(1)] by (auto simp: s1_def)
    have run: "re_node_set_insert mem s x = do {
        y \<leftarrow> rd_elem s1 0;
        (s2, idx) \<leftarrow> (if x < y then shift_all s1 (nelem s1) else shift_greater s1 x (nelem s1));
        s3 \<leftarrow> wr_elem s2 idx x;
        Some (1, s3\<lparr>nelem := nelem s3 + 1\<rparr>) }"
    proof -
      have "(alloc s = 0) = False" "(nelem s = 0) = False" "(alloc s = nelem s \<and> \<not> mem) = False" using 3 n(1) assms(3) by auto
      then show ?thesis unfolding re_node_set_insert_def s1_def by (simp only: Let_def if_False)
    qed
    define L R where "L = filter (\<lambda>y. y \<le> x) xs" and "R = filter (\<lambda>y. x < y) xs"
    have xs: "xs = L @ R" using split_at[OF n(5), of x] by (simp add: L_def R_def)
    have L: "\<forall>y \<in> set L. y \<le> x" "\<forall>y \<in> set L. y < x" and R: "\<forall>y \<in> set R. x < y" using assms(2) by (auto simp: L_def R_def order_le_less)
    have so: "sorted_wrt (<) (L @ x # R)" using n(5) L(2) R unfolding xs by (auto simp: sorted_wrt_append)
    have y: "rd_elem s1 0 = Some (hd xs)" using s1 3(2) by (cases xs) (simp_all add: rd_elem_def)
    have hd: "x < hd xs \<longleftrightarrow> L = []" using 3(2) L(1) R unfolding xs by (cases L; cases R) auto
    have "\<exists>es. (if x < hd xs then shift_all s1 (nelem s1) else shift_greater s1 x (nelem s1)) = Some (s1\<lparr>elems := es\<rparr>, int (length L)) \<and>
        cells es 0 L \<and> cells es (int (length L) + 1) R"
    proof (cases "L = []")
      case True
      then show ?thesis using shift_all_ok[of s1 xs "[]"] s1 hd xs by auto
    next
      case False
      then show ?thesis using shift_greater_ok[of s1 L R x "[]"] s1 hd L(1) R unfolding xs by simp
    qed
    then obtain es where es: "(if x < hd xs then shift_all s1 (nelem s1) else shift_greater s1 x (nelem s1)) = Some (s1\<lparr>elems := es\<rparr>, int (length L))"
        "cells es 0 L" "cells es (int (length L) + 1) R" by blast
    let ?s = "s1\<lparr>elems := es(int (length L) \<mapsto> x)\<rparr>"
    have "wr_elem (s1\<lparr>elems := es\<rparr>) (int (length L)) x = Some ?s" using s1(4) xs by (simp add: wr_elem_def)
    then have "re_node_set_insert mem s x = Some (1, ?s\<lparr>nelem := nelem ?s + 1\<rparr>)" unfolding run y by (simp add: es(1))
    moreover have "mrg xs [x] = L @ x # R" unfolding xs by (rule mrg_insert[OF so])
    ultimately show ?thesis using s1(2-4) es(2,3) so xs by (simp add: rep_def cells_upd)
  qed
qed

lemma re_node_set_insert_last_ok:
  assumes "rep s xs" and "\<forall>y \<in> set xs. y < x" and "mem \<or> nelem s < alloc s"
  shows "\<exists>s'. re_node_set_insert_last mem s x = Some (1, s') \<and> rep s' (mrg xs [x])"
proof -
  have n: "nelem s = int (length xs)" "room s = alloc s" "int (length xs) \<le> alloc s" "cells (elems s) 0 xs" "sorted_wrt (<) xs"
    using assms(1) by (simp_all add: rep_def)
  define s1 where "s1 = (if alloc s = nelem s then more_cells ((alloc s + 1) * 2) s else s)"
  have s1: "cells (elems s1) 0 xs" "nelem s1 = int (length xs)" "room s1 = alloc s1" "int (length xs) < room s1"
    using n cells_more[OF assms(1)] by (auto simp: s1_def)
  have so: "sorted_wrt (<) (xs @ [x])" using n(5) assms(2) by (simp add: sorted_wrt_append)
  have "re_node_set_insert_last mem s x = do { s2 \<leftarrow> wr_elem s1 (nelem s1) x; Some (1, s2\<lparr>nelem := nelem s2 + 1\<rparr>) }"
    using assms(3) by (auto simp: re_node_set_insert_last_def s1_def)
  moreover have "mrg xs [x] = xs @ [x]" using mrg_insert[of xs x "[]"] so by simp
  ultimately show ?thesis using s1 so by (simp add: wr_elem_def rep_def cells_upd)
qed

lemma close_gap_ok:
  assumes "cells (elems s) 0 (L @ a # R)" and "nelem s = int (length L + length R)" and "nelem s < room s"
  shows "\<exists>es. close_gap s (int (length L)) = Some (s\<lparr>elems := es\<rparr>) \<and> cells es 0 (L @ R)"
  using assms
proof (induction R arbitrary: s L a)
  case Nil
  then show ?case by (intro exI[of _ "elems s"]) (subst close_gap.simps, simp)
next
  case (Cons b R)
  let ?s = "s\<lparr>elems := (elems s)(int (length L) \<mapsto> b)\<rparr>"
  have "rd_elem s (int (length L) + 1) = Some b" using Cons.prems by (simp add: rd_elem_def)
  then have step: "close_gap s (int (length L)) = close_gap ?s (int (length (L @ [b])))"
    using Cons.prems(2,3) by (subst close_gap.simps) (simp add: wr_elem_def add.commute)
  have "cells (elems ?s) 0 ((L @ [b]) @ b # R)" using Cons.prems(1) by (simp add: cells_upd algebra_simps)
  from Cons.IH[OF this] Cons.prems(2,3) show ?case unfolding step by simp
qed

lemma re_node_set_remove_ok:
  assumes "rep s xs"
  shows "\<exists>s'. re_node_set_remove s x = Some s' \<and> rep s' (filter (\<lambda>y. y \<noteq> x) xs)"
proof -
  have n: "nelem s = int (length xs)" "room s = alloc s" "int (length xs) \<le> alloc s" "cells (elems s) 0 xs" "sorted_wrt (<) xs"
    using assms by (simp_all add: rep_def)
  from re_node_set_contains_ok[OF assms, of x] obtain k where
    k: "re_node_set_contains s x = Some (if x \<in> set xs then int k + 1 else 0)" "x \<in> set xs \<longrightarrow> k < length xs \<and> xs ! k = x" by blast
  show ?thesis
  proof (cases "x \<in> set xs")
    case False
    then have "filter (\<lambda>y. y \<noteq> x) xs = xs" by (auto simp: filter_id_conv)
    then show ?thesis using False k(1) assms by (simp add: re_node_set_remove_def re_node_set_remove_at_def)
  next
    case True
    define L R where "L = take k xs" and "R = drop (Suc k) xs"
    have xs: "xs = L @ x # R" and kL: "k = length L" using True k(2) id_take_nth_drop[of k xs] by (auto simp: L_def R_def)
    have "x \<notin> set L" "x \<notin> set R" and so: "sorted_wrt (<) (L @ R)" using n(5) unfolding xs by (auto simp: sorted_wrt_append)
    then have "filter (\<lambda>y. y \<noteq> x) L = L" "filter (\<lambda>y. y \<noteq> x) R = R" by (auto intro!: filter_True)
    then have f: "filter (\<lambda>y. y \<noteq> x) xs = L @ R" unfolding xs by simp
    from close_gap_ok[of "s\<lparr>nelem := nelem s - 1\<rparr>" L x R] n(1-4) xs obtain es where
      "close_gap (s\<lparr>nelem := nelem s - 1\<rparr>) (int (length L)) = Some (s\<lparr>nelem := nelem s - 1, elems := es\<rparr>)" "cells es 0 (L @ R)" by auto
    then show ?thesis using True k(1) kL n so xs unfolding f by (simp add: re_node_set_remove_def re_node_set_remove_at_def rep_def)
  qed
qed

lemma compare_loop_ok:
  "cells (elems s1) 0 xs \<Longrightarrow> cells (elems s2) 0 ys \<Longrightarrow> length xs = length ys \<Longrightarrow> int (length xs) \<le> room s1 \<Longrightarrow> int (length xs) \<le> room s2 \<Longrightarrow>
    compare_loop s1 s2 (int (length xs)) = Some (if xs = ys then 1 else 0)"
proof (induction xs arbitrary: ys rule: rev_induct)
  case Nil
  then show ?case by (subst compare_loop.simps) simp
next
  case (snoc a xs)
  then obtain zs b where ys: "ys = zs @ [b]" by (cases ys rule: rev_cases) auto
  have rd: "rd_elem s1 (int (length xs)) = Some a" "rd_elem s2 (int (length xs)) = Some b"
    using rd_cells[OF snoc.prems(1), of "length xs"] rd_cells[OF snoc.prems(2), of "length zs"] snoc.prems(3-5) ys by simp_all
  then show ?case using snoc.IH[of zs] snoc.prems ys by (subst compare_loop.simps) auto
qed

lemma re_node_set_compare_ok:
  "rep s1 xs \<Longrightarrow> rep s2 ys \<Longrightarrow> re_node_set_compare (Some s1) (Some s2) = Some (if xs = ys then 1 else 0)"
  using compare_loop_ok[of s1 xs s2 ys] by (auto simp: re_node_set_compare_def rep_def)

section \<open>The operations on sets\<close>

lemma merge_no_memory:
  assumes "rep src S"
  shows "re_node_set_merge False dest (Some src) = Some (REG_ESPACE, dest) \<or> nelem src = 0 \<or> 2 * nelem src + nelem dest \<le> alloc dest"
  by (auto simp: re_node_set_merge_def not_le)

lemma intersect_no_memory:
  "re_node_set_add_intersect False dest src1 src2 = Some (REG_ESPACE, dest) \<or> nelem src1 = 0 \<or> nelem src2 = 0 \<or>
    nelem src1 + nelem src2 + nelem dest \<le> alloc dest"
  by (auto simp: re_node_set_add_intersect_def)

lemma merge_empty: "nelem src = 0 \<Longrightarrow> re_node_set_merge mem dest (Some src) = Some (REG_NOERROR, dest)"
  by (simp add: re_node_set_merge_def)

lemma intersect_empty: "nelem src1 = 0 \<or> nelem src2 = 0 \<Longrightarrow> re_node_set_add_intersect mem dest src1 src2 = Some (REG_NOERROR, dest)"
  by (auto simp: re_node_set_add_intersect_def)

lemma meet_set: "set A \<union> set (meet A S1 S2) = set A \<union> (set S1 \<inter> set S2)"
  by (auto simp: meet_def)

lemma merge_outcome:
  assumes "rep dest A" and "rep src S"
  shows "\<exists>e d zs. re_node_set_merge mem dest (Some src) = Some (e, d) \<and> rep d zs \<and>
    (e = REG_NOERROR \<and> set zs = set A \<union> set S \<or> e = REG_ESPACE \<and> \<not> mem \<and> d = dest)"
proof (cases "mem \<or> 2 * nelem src + nelem dest \<le> alloc dest")
  case True
  from re_node_set_merge_ok[OF assms True] mrg_set[of A S] show ?thesis by blast
next
  case False
  then show ?thesis using merge_no_memory[OF assms(2), of dest] merge_empty[of src mem dest] assms by (auto simp: rep_def)
qed

lemma intersect_outcome:
  assumes "rep dest A" and "rep src1 S1" and "rep src2 S2"
  shows "\<exists>e d zs. re_node_set_add_intersect mem dest src1 src2 = Some (e, d) \<and> rep d zs \<and>
    (e = REG_NOERROR \<and> set zs = set A \<union> (set S1 \<inter> set S2) \<or> e = REG_ESPACE \<and> \<not> mem \<and> d = dest)"
proof (cases "mem \<or> nelem src1 + nelem src2 + nelem dest \<le> alloc dest")
  case True
  from re_node_set_add_intersect_ok[OF assms True] mrg_set[of A "meet A S1 S2"] meet_set[of A S1 S2] show ?thesis by metis
next
  case False
  then have "\<not> mem" by simp
  moreover have "nelem src1 = 0 \<or> nelem src2 = 0 \<Longrightarrow> set S1 \<inter> set S2 = {}" using assms(2,3) by (auto simp: rep_def)
  ultimately show ?thesis using False intersect_no_memory[of dest src1 src2] intersect_empty[of src1 src2 mem dest] assms(1)
    by (metis Un_empty_right)
qed

text \<open>A set with the given elements and no free cell.\<close>

definition node_set_of :: "int list \<Rightarrow> re_node_set" where
  "node_set_of xs = \<lparr>alloc = int (length xs), nelem = int (length xs), room = int (length xs),
     elems = (\<lambda>i. if 0 \<le> i \<and> i < int (length xs) then Some (xs ! nat i) else None)\<rparr>"

lemma node_set_of_ok: "sorted_wrt (<) xs \<Longrightarrow> rep (node_set_of xs) xs"
  by (simp add: rep_def node_set_of_def cells_def)

text \<open>C12: the node sets of the matcher refine finite sets: merging, adding an intersection and building a union
  return an ascending array of exactly the elements of the union, whatever arrays they start from and whether \<open>elems\<close>
  has to grow or not, without reading a cell that was not written or leaving an array; without memory the first two report it and
  leave the set as it was.\<close>

theorem node_sets_refine_sets:
  assumes "rep dest A" and "rep src1 S1" and "rep src2 S2" and "rep_ptr p1 X" and "rep_ptr p2 Y"
  shows "(\<exists>e d zs. re_node_set_merge mem dest (Some src1) = Some (e, d) \<and> rep d zs \<and>
      (e = REG_NOERROR \<and> set zs = set A \<union> set S1 \<or> e = REG_ESPACE \<and> \<not> mem \<and> d = dest)) \<and>
    (\<exists>e d zs. re_node_set_add_intersect mem dest src1 src2 = Some (e, d) \<and> rep d zs \<and>
      (e = REG_NOERROR \<and> set zs = set A \<union> (set S1 \<inter> set S2) \<or> e = REG_ESPACE \<and> \<not> mem \<and> d = dest)) \<and>
    (\<exists>d zs. re_node_set_init_union True dest p1 p2 = Some (REG_NOERROR, d) \<and> rep d zs \<and> set zs = set X \<union> set Y)"
  using merge_outcome[OF assms(1,2)] intersect_outcome[OF assms(1-3)] re_node_set_init_union_ok[OF assms(4,5), of dest]
    mrg_set[of X Y] by blast

lemma node_sets_refine_sets_witness:
  "\<exists>d zs. re_node_set_add_intersect True (node_set_of [2, 5]) (node_set_of [1, 3, 5]) (node_set_of [1, 2, 3]) = Some (REG_NOERROR, d) \<and>
    rep d zs \<and> set zs = {1, 2, 3, 5}"
proof -
  have "set [2, 5] \<union> (set [1, 3, 5] \<inter> set [1, 2, 3]) = {1, 2, 3, 5 :: int}" by auto
  then show ?thesis
    using node_sets_refine_sets[OF node_set_of_ok[of "[2, 5]"] node_set_of_ok[of "[1, 3, 5]"] node_set_of_ok[of "[1, 2, 3]"],
        of None "[]" None "[]" True] by (simp add: rep_ptr_def) metis
qed

text \<open>The operations on one element: the binary search returns the index after the element's, and 0 exactly for
  an element that is not in the set; inserting a new element (at its place, or a greatest one at the end) and removing one
  give the ascending array of the changed set; two sets compare equal exactly if they have the same elements.\<close>

theorem node_set_elements:
  assumes "rep s xs" and "rep t ys"
  shows "(\<exists>k. re_node_set_contains s x = Some (if x \<in> set xs then int k + 1 else 0) \<and> (x \<in> set xs \<longrightarrow> elems s (int k) = Some x)) \<and>
    (x \<notin> set xs \<longrightarrow> (\<exists>s' zs. re_node_set_insert True s x = Some (1, s') \<and> rep s' zs \<and> set zs = set xs \<union> {x})) \<and>
    ((\<forall>y \<in> set xs. y < x) \<longrightarrow> (\<exists>s' zs. re_node_set_insert_last True s x = Some (1, s') \<and> rep s' zs \<and> set zs = set xs \<union> {x})) \<and>
    (\<exists>s' zs. re_node_set_remove s x = Some s' \<and> rep s' zs \<and> set zs = set xs - {x}) \<and>
    re_node_set_compare (Some s) (Some t) = Some (if set xs = set ys then 1 else 0)"
proof (intro conjI impI)
  show "\<exists>k. re_node_set_contains s x = Some (if x \<in> set xs then int k + 1 else 0) \<and> (x \<in> set xs \<longrightarrow> elems s (int k) = Some x)"
    using re_node_set_contains_ok[OF assms(1), of x] assms(1) unfolding rep_def cells_def by fastforce
  have m: "set (mrg xs [x]) = set xs \<union> {x}" by simp
  show "\<exists>s' zs. re_node_set_insert True s x = Some (1, s') \<and> rep s' zs \<and> set zs = set xs \<union> {x}" if "x \<notin> set xs"
    using re_node_set_insert_ok[OF assms(1) that, of True] m by blast
  show "\<exists>s' zs. re_node_set_insert_last True s x = Some (1, s') \<and> rep s' zs \<and> set zs = set xs \<union> {x}" if "\<forall>y \<in> set xs. y < x"
    using re_node_set_insert_last_ok[OF assms(1) that, of True] m by blast
  have "set (filter (\<lambda>y. y \<noteq> x) xs) = set xs - {x}" by auto
  then show "\<exists>s' zs. re_node_set_remove s x = Some s' \<and> rep s' zs \<and> set zs = set xs - {x}"
    using re_node_set_remove_ok[OF assms(1), of x] by blast
  have "set xs = set ys \<longleftrightarrow> xs = ys" using assms strict_sorted_equal[of xs ys] by (auto simp: rep_def)
  then show "re_node_set_compare (Some s) (Some t) = Some (if set xs = set ys then 1 else 0)"
    using re_node_set_compare_ok[OF assms] by simp
qed

lemma node_set_elements_witness:
  "\<exists>s' zs. re_node_set_insert True (node_set_of [2, 5]) 3 = Some (1, s') \<and> rep s' zs \<and> set zs = {2, 3, 5}"
proof -
  have "set [2, 5] \<union> {3} = {2, 3, 5 :: int}" by auto
  then show ?thesis
    using node_set_elements[OF node_set_of_ok[of "[2, 5]"] node_set_of_ok[of "[2, 5]"], of 3] by simp
qed

end
