(* ===== verification/Awk_Parse.thy ===== *)
theory Awk_Parse
  imports Prelude
begin

text \<open>
  The field parsers of gawk, \<open>field.c\<close>.  The text to be split is in a block of memory with at least one byte after it,
  into which the parsers write a sentinel; a field is a slice of the block.  Single-byte locales.  The matcher of regular
  expressions is an argument.
\<close>

section \<open>Parsers\<close>

text \<open>\<open>setf\<close> is the function the parser calls for every field: its number, where it starts and its length.\<close>

type_synonym 's setfunc = "nat \<Rightarrow> nat \<Rightarrow> nat \<Rightarrow> 's \<Rightarrow> 's option"

definition UNLIMITED :: nat where "UNLIMITED = 2 ^ 63 - 1"

definition is_white :: "u8 \<Rightarrow> bool" where "is_white c \<longleftrightarrow> c = 32 \<or> c = 9 \<or> c = 10"
definition is_blank :: "u8 \<Rightarrow> bool" where "is_blank c \<longleftrightarrow> c = 32 \<or> c = 9"

text \<open>\<open>while (scan < end && ...) scan++\<close> and \<open>while (...) scan++\<close>, which relies on the sentinel.\<close>

function skip_while :: "(u8 \<Rightarrow> bool) \<Rightarrow> u8 list \<Rightarrow> nat \<Rightarrow> nat \<Rightarrow> nat option" where
  "skip_while P blk scan end' =
     (if scan < end' then do { c \<leftarrow> rd_at blk scan; if P c then skip_while P blk (scan + 1) end' else Some scan }
      else Some scan)"
  by pat_completeness auto
termination by (relation "measure (\<lambda>(P, blk, scan, end'). end' - scan)") auto

function skip_until :: "(u8 \<Rightarrow> bool) \<Rightarrow> u8 list \<Rightarrow> nat \<Rightarrow> nat option" where
  "skip_until P blk scan =
     (if scan < length blk then (if P (blk ! scan) then Some scan else skip_until P blk (scan + 1)) else None)"
  by pat_completeness auto
termination by (relation "measure (\<lambda>(P, blk, scan). length blk - scan)") auto

declare skip_while.simps [simp del] skip_until.simps [simp del]

text \<open>The loop of \<open>def_parse_field\<close> and \<open>posix_def_parse_field\<close>, which differ in the characters between fields.\<close>

function white_loop :: "(u8 \<Rightarrow> bool) \<Rightarrow> 's setfunc \<Rightarrow> nat \<Rightarrow> u8 list \<Rightarrow> nat \<Rightarrow> nat \<Rightarrow> nat \<Rightarrow> 's \<Rightarrow> (nat \<times> nat \<times> 's) option" where
  "white_loop P setf up_to blk scan end' nf st =
     (if nf < up_to then do {
        scan1 \<leftarrow> skip_while P blk scan end';
        if scan1 \<ge> end' then Some (nf, scan1, st)
        else do {
          scan2 \<leftarrow> skip_until P blk scan1;
          st1 \<leftarrow> setf (nf + 1) scan1 (scan2 - scan1) st;
          if scan2 = end' then Some (nf + 1, scan2, st1) else white_loop P setf up_to blk (scan2 + 1) end' (nf + 1) st1 } }
      else Some (nf, scan, st))"
  by pat_completeness auto
termination by (relation "measure (\<lambda>(P, setf, up_to, blk, scan, end', nf, st). up_to - nf)") auto

declare white_loop.simps [simp del]

definition white_parse_field ::
  "(u8 \<Rightarrow> bool) \<Rightarrow> 's setfunc \<Rightarrow> nat \<Rightarrow> u8 list \<Rightarrow> nat \<Rightarrow> nat \<Rightarrow> u8 list \<Rightarrow> nat \<Rightarrow> 's \<Rightarrow> (nat \<times> nat \<times> u8 list \<times> 's) option" where
  "white_parse_field P setf up_to blk scan len fs high_water st =
     (let nf = (if up_to = UNLIMITED then 0 else high_water); end' = scan + len
      in if len = 0 then Some (nf, scan, blk, st)
         else if fs = [] then do { st1 \<leftarrow> setf (nf + 1) scan len st; Some (nf + 1, scan + len, blk, st1) }
         else do {
           sav \<leftarrow> rd_at blk end';
           blk1 \<leftarrow> wr_at blk end' 32;
           (nf1, scan1, st1) \<leftarrow> white_loop P setf up_to blk1 scan end' nf st;
           blk2 \<leftarrow> wr_at blk1 end' sav;
           Some (nf1, scan1, blk2, st1) })"

definition def_parse_field ::
  "'s setfunc \<Rightarrow> nat \<Rightarrow> u8 list \<Rightarrow> nat \<Rightarrow> nat \<Rightarrow> u8 list \<Rightarrow> nat \<Rightarrow> 's \<Rightarrow> (nat \<times> nat \<times> u8 list \<times> 's) option" where
  "def_parse_field = white_parse_field is_white"

definition posix_def_parse_field ::
  "'s setfunc \<Rightarrow> nat \<Rightarrow> u8 list \<Rightarrow> nat \<Rightarrow> nat \<Rightarrow> u8 list \<Rightarrow> nat \<Rightarrow> 's \<Rightarrow> (nat \<times> nat \<times> u8 list \<times> 's) option" where
  "posix_def_parse_field = white_parse_field is_blank"

function null_loop :: "'s setfunc \<Rightarrow> nat \<Rightarrow> nat \<Rightarrow> nat \<Rightarrow> nat \<Rightarrow> 's \<Rightarrow> (nat \<times> nat \<times> 's) option" where
  "null_loop setf up_to scan end' nf st =
     (if nf < up_to \<and> scan < end' then do { st1 \<leftarrow> setf (nf + 1) scan 1 st; null_loop setf up_to (scan + 1) end' (nf + 1) st1 }
      else Some (nf, scan, st))"
  by pat_completeness auto
termination by (relation "measure (\<lambda>(setf, up_to, scan, end', nf, st). up_to - nf)") auto

declare null_loop.simps [simp del]

definition null_parse_field ::
  "'s setfunc \<Rightarrow> nat \<Rightarrow> u8 list \<Rightarrow> nat \<Rightarrow> nat \<Rightarrow> u8 list \<Rightarrow> nat \<Rightarrow> 's \<Rightarrow> (nat \<times> nat \<times> u8 list \<times> 's) option" where
  "null_parse_field setf up_to blk scan len fs high_water st =
     (let nf = (if up_to = UNLIMITED then 0 else high_water)
      in if len = 0 then Some (nf, scan, blk, st)
         else do { (nf1, scan1, st1) \<leftarrow> null_loop setf up_to scan (scan + len) nf st; Some (nf1, scan1, blk, st1) })"

function sc_loop :: "u8 \<Rightarrow> 's setfunc \<Rightarrow> nat \<Rightarrow> u8 list \<Rightarrow> nat \<Rightarrow> nat \<Rightarrow> nat \<Rightarrow> 's \<Rightarrow> (nat \<times> nat \<times> 's) option" where
  "sc_loop fschar setf up_to blk scan end' nf st =
     (if nf < up_to then do {
        scan1 \<leftarrow> skip_until (\<lambda>c. c = fschar) blk scan;
        st1 \<leftarrow> setf (nf + 1) scan (scan1 - scan) st;
        if scan1 = end' then Some (nf + 1, scan1, st1)
        else if scan1 + 1 = end' then do { st2 \<leftarrow> setf (nf + 2) scan 0 st1; Some (nf + 2, scan1 + 1, st2) }
        else sc_loop fschar setf up_to blk (scan1 + 1) end' (nf + 1) st1 }
      else Some (nf, scan, st))"
  by pat_completeness auto
termination by (relation "measure (\<lambda>(c, setf, up_to, blk, scan, end', nf, st). up_to - nf)") auto

declare sc_loop.simps [simp del]

definition sc_parse_field ::
  "bool \<Rightarrow> 's setfunc \<Rightarrow> nat \<Rightarrow> u8 list \<Rightarrow> nat \<Rightarrow> nat \<Rightarrow> u8 list \<Rightarrow> nat \<Rightarrow> 's \<Rightarrow> (nat \<times> nat \<times> u8 list \<times> 's) option" where
  "sc_parse_field RS_is_null setf up_to blk scan len fs high_water st =
     (let nf = (if up_to = UNLIMITED then 0 else high_water); end' = scan + len
      in if len = 0 then Some (nf, scan, blk, st)
         else do {
           fschar \<leftarrow> (if RS_is_null \<and> fs = [] then Some 10 else rd_at (fs @ [0]) 0);
           sav \<leftarrow> rd_at blk end';
           blk1 \<leftarrow> wr_at blk end' fschar;
           (nf1, scan1, st1) \<leftarrow> sc_loop fschar setf up_to blk1 scan end' nf st;
           blk2 \<leftarrow> wr_at blk1 end' sav;
           Some (nf1, scan1, blk2, st1) })"

text \<open>The last component says whether the loop ended at the -1 in \<open>FIELDWIDTHS\<close>.\<close>

function fw_loop :: "int list \<Rightarrow> 's setfunc \<Rightarrow> nat \<Rightarrow> nat \<Rightarrow> nat \<Rightarrow> nat \<Rightarrow> 's \<Rightarrow> (nat \<times> nat \<times> 's \<times> bool) option" where
  "fw_loop widths setf up_to scan end' nf st =
     (if nf < up_to then do {
        w \<leftarrow> rd_at widths (nf + 1);
        if w = -1 then Some (nf, scan, st, True)
        else do {
          let len = nat (min w (int (end' - scan)));
          st1 \<leftarrow> setf (nf + 1) scan len st;
          fw_loop widths setf up_to (scan + len) end' (nf + 1) st1 } }
      else Some (nf, scan, st, False))"
  by pat_completeness auto
termination by (relation "measure (\<lambda>(widths, setf, up_to, scan, end', nf, st). up_to - nf)") auto

declare fw_loop.simps [simp del]

definition fw_parse_field ::
  "int list \<Rightarrow> 's setfunc \<Rightarrow> nat \<Rightarrow> u8 list \<Rightarrow> nat \<Rightarrow> nat \<Rightarrow> u8 list \<Rightarrow> nat \<Rightarrow> 's \<Rightarrow> (nat \<times> nat \<times> u8 list \<times> 's) option" where
  "fw_parse_field widths setf up_to blk scan len fs high_water st =
     (let nf = (if up_to = UNLIMITED then 0 else high_water); end' = scan + len
      in if len = 0 then Some (nf, scan, blk, st)
         else do {
           (nf1, scan1, st1, at_end) \<leftarrow> fw_loop widths setf up_to scan end' nf st;
           Some (nf1, if at_end then end' else scan1, blk, st1) })"

definition text_at :: "u8 list \<Rightarrow> nat \<Rightarrow> nat \<Rightarrow> u8 list" where
  "text_at blk p n = take n (drop p blk)"

text \<open>
  \<open>matcher no_bol t\<close> is where the first match of the separator in \<open>t\<close> starts and its length (\<open>research\<close> with
  \<open>RESTART\<close> and \<open>REEND\<close>); \<open>no_bol\<close> says that \<open>t\<close> does not start at the beginning of a line.  The result has the new
  \<open>up_to\<close>.
\<close>

function re_loop ::
  "(bool \<Rightarrow> u8 list \<Rightarrow> (nat \<times> nat) option) \<Rightarrow> 's setfunc \<Rightarrow> nat \<Rightarrow> u8 list \<Rightarrow> nat \<Rightarrow> nat \<Rightarrow> nat \<Rightarrow> nat \<Rightarrow> bool \<Rightarrow> 's \<Rightarrow>
    (nat \<times> nat \<times> nat \<times> 's) option" where
  "re_loop matcher setf up_to blk field scan end' nf no_bol st =
     (if scan < end' \<and> nf < up_to then
        (case matcher no_bol (text_at blk scan (end' - scan)) of
           None \<Rightarrow> Some (nf, up_to, scan, st)
         | Some (restart, mlen) \<Rightarrow>
             if mlen = 0 then
               (if scan + 1 = end'
                then do { st1 \<leftarrow> setf (nf + 1) field (scan + 1 - field) st; Some (nf + 1, nf + 1, scan + 1, st1) }
                else re_loop matcher setf up_to blk field (scan + 1) end' nf True st)
             else do {
               st1 \<leftarrow> setf (nf + 1) field (scan + restart - field) st;
               let nxt = scan + (restart + mlen);
               if nxt = end' then do {
                 st2 \<leftarrow> setf (nf + 2) nxt 0 st1;
                 re_loop matcher setf up_to blk nxt nxt end' (nf + 2) True st2 }
               else re_loop matcher setf up_to blk nxt nxt end' (nf + 1) True st1 })
      else Some (nf, up_to, scan, st))"
  by pat_completeness auto
termination by (relation "measure (\<lambda>(matcher, setf, up_to, blk, field, scan, end', nf, no_bol, st). end' - scan)") auto

declare re_loop.simps [simp del]

definition re_parse_field ::
  "bool \<Rightarrow> (bool \<Rightarrow> u8 list \<Rightarrow> (nat \<times> nat) option) \<Rightarrow> 's setfunc \<Rightarrow> nat \<Rightarrow> u8 list \<Rightarrow> nat \<Rightarrow> nat \<Rightarrow> bool \<Rightarrow> nat \<Rightarrow> 's \<Rightarrow>
    (nat \<times> nat \<times> u8 list \<times> 's) option" where
  "re_parse_field skip_blanks matcher setf up_to blk scan len in_middle high_water st =
     (let nf = (if up_to = UNLIMITED then 0 else high_water); end' = scan + len
      in if len = 0 then Some (nf, scan, blk, st)
         else do {
           scan1 \<leftarrow> (if skip_blanks then skip_while is_white blk scan end' else Some scan);
           (nf1, up_to1, scan2, st1) \<leftarrow> re_loop matcher setf up_to blk scan1 scan1 end' nf in_middle st;
           if nf1 \<noteq> up_to1 \<and> scan2 < end' then do { st2 \<leftarrow> setf (nf1 + 1) scan2 (end' - scan2) st1; Some (nf1 + 1, end', blk, st2) }
           else Some (nf1, scan2, blk, st1) })"

section \<open>Slices\<close>

lemma text_at_0 [simp]: "text_at blk p 0 = []"
  by (simp add: text_at_def)

lemma length_text_at [simp]: "p + n \<le> length blk \<Longrightarrow> length (text_at blk p n) = n"
  by (simp add: text_at_def)

lemma text_at_split: "p \<le> q \<Longrightarrow> q \<le> e \<Longrightarrow> text_at blk p (e - p) = text_at blk p (q - p) @ text_at blk q (e - q)"
  unfolding text_at_def using take_add[of "q - p" "e - q" "drop p blk"] by simp

lemma text_at_Cons: "p < e \<Longrightarrow> e \<le> length blk \<Longrightarrow> text_at blk p (e - p) = blk ! p # text_at blk (p + 1) (e - (p + 1))"
proof -
  assume a: "p < e" "e \<le> length blk"
  then have "drop p blk = blk ! p # drop (p + 1) blk" using Cons_nth_drop_Suc[of p blk] by simp
  moreover have "e - p = Suc (e - (p + 1))" using a by simp
  ultimately show ?thesis by (simp only: text_at_def take_Suc_Cons)
qed

lemma text_at_upd: "p + n \<le> e \<Longrightarrow> text_at (blk[e := c]) p n = text_at blk p n"
  unfolding text_at_def by (simp add: drop_update_swap take_update_swap list_update_beyond)

text \<open>The fields a parser sets, from number \<open>nf + 1\<close> on.\<close>

fun set_all :: "'s setfunc \<Rightarrow> nat \<Rightarrow> (nat \<times> nat) list \<Rightarrow> 's \<Rightarrow> 's option" where
  "set_all setf nf [] st = Some st"
| "set_all setf nf ((p, l) # sl) st = do { st1 \<leftarrow> setf (nf + 1) p l st; set_all setf (nf + 1) sl st1 }"

abbreviation texts :: "u8 list \<Rightarrow> (nat \<times> nat) list \<Rightarrow> u8 list list" where
  "texts blk sl \<equiv> map (\<lambda>(p, l). text_at blk p l) sl"

section \<open>Splitting\<close>

text \<open>What splitting means: at every separator; and without the empty pieces for white space.\<close>

fun split_by :: "(u8 \<Rightarrow> bool) \<Rightarrow> u8 list \<Rightarrow> u8 list list" where
  "split_by P [] = [[]]"
| "split_by P (x # xs) = (if P x then [] # split_by P xs else (x # hd (split_by P xs)) # tl (split_by P xs))"

definition white_fields :: "(u8 \<Rightarrow> bool) \<Rightarrow> u8 list \<Rightarrow> u8 list list" where
  "white_fields P xs = filter (\<lambda>f. f \<noteq> []) (split_by P xs)"

definition sc_fields :: "u8 \<Rightarrow> u8 list \<Rightarrow> u8 list list" where
  "sc_fields c xs = (if xs = [] then [] else split_by (\<lambda>x. x = c) xs)"

definition null_fields :: "u8 list \<Rightarrow> u8 list list" where
  "null_fields xs = map (\<lambda>x. [x]) xs"

lemma null_fields_Nil [simp]: "null_fields [] = []"
  by (simp add: null_fields_def)

lemma split_by_ne [simp]: "split_by P xs \<noteq> []"
  by (cases xs) auto

lemma split_by_none: "\<forall>x \<in> set us. \<not> P x \<Longrightarrow> split_by P us = [us]"
  by (induction us) auto

lemma split_by_first: "\<forall>x \<in> set us. \<not> P x \<Longrightarrow> P v \<Longrightarrow> split_by P (us @ v # ws) = us # split_by P ws"
  by (induction us) auto

lemma white_fields_Nil [simp]: "white_fields P [] = []"
  by (simp add: white_fields_def)

lemma white_fields_skip: "P x \<Longrightarrow> white_fields P (x # xs) = white_fields P xs"
  by (simp add: white_fields_def)

lemma white_fields_skips: "\<forall>x \<in> set us. P x \<Longrightarrow> white_fields P (us @ xs) = white_fields P xs"
  by (induction us) (simp_all add: white_fields_skip)

lemma white_fields_one: "us \<noteq> [] \<Longrightarrow> \<forall>x \<in> set us. \<not> P x \<Longrightarrow> white_fields P us = [us]"
  by (simp add: white_fields_def split_by_none)

lemma white_fields_first: "us \<noteq> [] \<Longrightarrow> \<forall>x \<in> set us. \<not> P x \<Longrightarrow> P v \<Longrightarrow> white_fields P (us @ v # ws) = us # white_fields P ws"
  by (simp add: white_fields_def split_by_first)

lemma sc_fields_Nil [simp]: "sc_fields c [] = []"
  by (simp add: sc_fields_def)

text \<open>Joining the pieces with the separator gives the text back.\<close>

lemma join_sc_fields: "join [c] (sc_fields c xs) = xs"
proof -
  have "join [c] (split_by (\<lambda>x. x = c) xs) = xs"
  proof (induction xs)
    case (Cons x xs)
    obtain f fs where s: "split_by (\<lambda>x. x = c) xs = f # fs" by (cases "split_by (\<lambda>x. x = c) xs") auto
    then show ?case using Cons by (cases fs) auto
  qed simp
  then show ?thesis by (simp add: sc_fields_def)
qed

section \<open>What a parser does\<close>

text \<open>
  Of the text from \<open>scan\<close> to \<open>e\<close> the first fields are the slices \<open>sl\<close>, the others are those of the text from \<open>p\<close> on;
  if there is room for another field, the text is used up.
\<close>

definition step_ok :: "(u8 list \<Rightarrow> u8 list list) \<Rightarrow> u8 list \<Rightarrow> nat \<Rightarrow> nat \<Rightarrow> nat \<Rightarrow> (nat \<times> nat) list \<Rightarrow> nat \<Rightarrow> bool" where
  "step_ok fields_of blk scan e room sl p \<longleftrightarrow>
     scan \<le> p \<and> p \<le> e \<and> texts blk sl @ fields_of (text_at blk p (e - p)) = fields_of (text_at blk scan (e - scan)) \<and>
     (\<forall>(q, l) \<in> set sl. q + l \<le> e) \<and> (length sl < room \<longrightarrow> p = e)"

lemma step_okD:
  assumes "step_ok fields_of blk scan e room sl p"
  shows "scan \<le> p" "p \<le> e" "texts blk sl @ fields_of (text_at blk p (e - p)) = fields_of (text_at blk scan (e - scan))"
    "\<forall>(q, l) \<in> set sl. q + l \<le> e" "length sl < room \<Longrightarrow> p = e"
  using assms by (simp_all add: step_ok_def)

lemma step_ok_done: "e \<le> length blk \<Longrightarrow> scan \<le> e \<Longrightarrow> room = 0 \<Longrightarrow> step_ok F blk scan e room [] scan"
  by (simp add: step_ok_def)

text \<open>One field, then the rest.\<close>

lemma step_ok_Cons:
  assumes "step_ok F blk scan2 e (room - 1) sl p" and "scan \<le> scan2" and "q + l \<le> e" and "0 < room"
    and "F (text_at blk scan (e - scan)) = text_at blk q l # F (text_at blk scan2 (e - scan2))"
  shows "step_ok F blk scan e room ((q, l) # sl) p"
  using assms by (auto simp: step_ok_def)

lemma step_ok_upd:
  assumes "step_ok F (blk[e := c]) scan e room sl p"
  shows "step_ok F blk scan e room sl p"
proof -
  have "scan \<le> p" "p \<le> e" using assms by (auto simp: step_ok_def)
  have "texts (blk[e := c]) sl = texts blk sl" using assms by (auto simp: step_ok_def text_at_upd)
  moreover have "text_at (blk[e := c]) p (e - p) = text_at blk p (e - p)"
    "text_at (blk[e := c]) scan (e - scan) = text_at blk scan (e - scan)"
    using \<open>scan \<le> p\<close> \<open>p \<le> e\<close> by (simp_all add: text_at_upd)
  ultimately show ?thesis using assms unfolding step_ok_def by (simp only: simp_thms) blast
qed

section \<open>The loops\<close>

lemma skip_while_ok:
  "scan \<le> e \<Longrightarrow> e \<le> length blk \<Longrightarrow> skip_while P blk scan e = Some (scan + length (takeWhile P (text_at blk scan (e - scan))))"
proof (induction P blk scan e rule: skip_while.induct)
  case (1 P blk scan e)
  then show ?case
    by (subst skip_while.simps) (auto simp: text_at_Cons)
qed

lemma skip_until_ok:
  "scan \<le> e \<Longrightarrow> e < length blk \<Longrightarrow> P (blk ! e) \<Longrightarrow>
    skip_until P blk scan = Some (scan + length (takeWhile (\<lambda>x. \<not> P x) (text_at blk scan (e - scan))))"
proof (induction P blk scan rule: skip_until.induct)
  case (1 P blk scan)
  show ?case
  proof (cases "scan = e")
    case True
    then show ?thesis using 1 by (subst skip_until.simps) simp
  next
    case False
    then show ?thesis using 1 by (subst skip_until.simps) (auto simp: text_at_Cons)
  qed
qed


text \<open>The scanners stop where \<open>takeWhile\<close> ends.\<close>

lemma scan_parts:
  assumes "scan \<le> e" and "e \<le> length blk" and "xs = text_at blk scan (e - scan)" and "n = length (takeWhile Q xs)"
  shows "scan + n \<le> e" "text_at blk scan n = takeWhile Q xs" "text_at blk (scan + n) (e - (scan + n)) = dropWhile Q xs"
proof -
  show le: "scan + n \<le> e" using length_takeWhile_le[of Q xs] assms by simp
  have eq: "takeWhile Q xs @ dropWhile Q xs = text_at blk scan n @ text_at blk (scan + n) (e - (scan + n))"
    using text_at_split[of scan "scan + n" e blk] le assms(3) by simp
  have "length (takeWhile Q xs) = length (text_at blk scan n)" using le assms(2,4) by simp
  from append_eq_append_conv[OF disjI1[OF this], THEN iffD1, OF eq] show "text_at blk scan n = takeWhile Q xs" "text_at blk (scan + n) (e - (scan + n)) = dropWhile Q xs"
    by simp_all
qed

lemma white_loop_ok:
  assumes "P (blk ! e)" and "e < length blk" and "scan \<le> e"
  shows "\<exists>sl p. (\<forall>(setf :: 's setfunc) st. white_loop P setf up_to blk scan e nf st =
      map_option (\<lambda>st'. (nf + length sl, p, st')) (set_all setf nf sl st)) \<and> step_ok (white_fields P) blk scan e (up_to - nf) sl p"
  using assms(3)
proof (induction "e - scan" arbitrary: scan nf rule: less_induct)
  case less
  define xs where "xs = text_at blk scan (e - scan)"
  define a where "a = scan + length (takeWhile P xs)"
  show ?case
  proof (cases "nf < up_to")
    case False
    then show ?thesis using less.prems assms(2) step_ok_done[of e blk scan "up_to - nf"]
      by (intro exI[of _ "[]"] exI[of _ scan]) (simp add: white_loop.simps)
  next
    case True
    have sw: "skip_while P blk scan e = Some a" using skip_while_ok[of scan e blk P] less.prems assms(2) by (simp add: a_def xs_def)
    note pa = scan_parts[OF less.prems less_imp_le[OF assms(2)] xs_def refl, of P, folded a_def]
    define ys where "ys = text_at blk a (e - a)"
    have "white_fields P (takeWhile P xs @ ys) = white_fields P ys" by (rule white_fields_skips) (auto dest: set_takeWhileD)
    then have fxs: "white_fields P xs = white_fields P ys" using pa(3) by (simp add: ys_def)
    show ?thesis
    proof (cases "a = e")
      case at_end: True
      have "step_ok (white_fields P) blk scan e (up_to - nf) [] e" using fxs at_end less.prems by (simp add: step_ok_def ys_def xs_def)
      moreover have "white_loop P setf up_to blk scan e nf st = Some (nf, e, st)" for setf :: "'s setfunc" and st
        using True sw at_end by (subst white_loop.simps) simp
      ultimately show ?thesis by (intro exI[of _ "[]"] exI[of _ e]) simp
    next
      case False
      define us where "us = takeWhile (\<lambda>x. \<not> P x) ys"
      define b where "b = a + length us"
      have su: "skip_until P blk a = Some b" using skip_until_ok[of a e blk P] pa(1) assms by (simp add: b_def us_def ys_def)
      note pb = scan_parts[OF pa(1) less_imp_le[OF assms(2)] ys_def refl, of "\<lambda>x. \<not> P x", folded us_def, folded b_def]
      have "ys \<noteq> []" using False pa(1) assms(2) by (auto simp: ys_def text_at_Cons)
      moreover have d: "dropWhile P xs = ys" using pa(3) by (simp add: ys_def)
      ultimately have "\<not> P (hd ys)" using hd_dropWhile[of P xs] unfolding d by blast
      then have "us \<noteq> []" unfolding us_def using \<open>ys \<noteq> []\<close> by (cases ys) auto
      have us: "\<forall>x \<in> set us. \<not> P x" by (auto simp: us_def dest: set_takeWhileD)
      have f: "text_at blk a (b - a) = us" using pb(2) by (simp add: b_def)
      show ?thesis
      proof (cases "b = e")
        case at_end: True
        have "white_loop P setf up_to blk scan e nf st = map_option (\<lambda>st'. (nf + 1, e, st')) (set_all setf nf [(a, b - a)] st)" for setf :: "'s setfunc" and st
          using True sw False pa(1) su at_end by (subst white_loop.simps) (cases "setf (nf + 1) a (b - a) st"; simp)
        moreover have "dropWhile (\<lambda>x. \<not> P x) ys = []" using pb(3) at_end by simp
        then have "us = ys" unfolding us_def by (simp add: takeWhile_eq_all_conv)
        then have "white_fields P xs = [us]" using fxs white_fields_one[OF \<open>us \<noteq> []\<close> us] by simp
        then have "step_ok (white_fields P) blk scan e (up_to - nf) [(a, b - a)] e"
          using f less.prems pa(1) pb(1) True at_end by (simp add: step_ok_def xs_def)
        ultimately show ?thesis by (intro exI[of _ "[(a, b - a)]"] exI[of _ e]) simp
      next
        case go_on: False
        then have b: "b < e" using pb(1) by simp
        then have rest: "dropWhile (\<lambda>x. \<not> P x) ys = blk ! b # text_at blk (b + 1) (e - (b + 1))"
          using pb(3) text_at_Cons[of b e blk] assms(2) by simp
        then have "P (blk ! b)" using hd_dropWhile[of "\<lambda>x. \<not> P x" ys] by simp
        moreover have "ys = us @ blk ! b # text_at blk (b + 1) (e - (b + 1))" using rest takeWhile_dropWhile_id[of "\<lambda>x. \<not> P x" ys] by (simp add: us_def)
        ultimately have fs: "white_fields P xs = us # white_fields P (text_at blk (b + 1) (e - (b + 1)))"
          using fxs white_fields_first[OF \<open>us \<noteq> []\<close> us] by simp
        have "e - (b + 1) < e - scan" "b + 1 \<le> e" using b by (auto simp: a_def b_def)
        from less.hyps[OF this, of "nf + 1"] obtain sl p where
          ih: "\<And>(setf :: 's setfunc) st. white_loop P setf up_to blk (b + 1) e (nf + 1) st =
            map_option (\<lambda>st'. (nf + 1 + length sl, p, st')) (set_all setf (nf + 1) sl st)"
            "step_ok (white_fields P) blk (b + 1) e (up_to - (nf + 1)) sl p" by blast
        have "white_loop P setf up_to blk scan e nf st = map_option (\<lambda>st'. (nf + length ((a, b - a) # sl), p, st')) (set_all setf nf ((a, b - a) # sl) st)" for setf :: "'s setfunc" and st
          using True sw False pa(1) su go_on by (subst white_loop.simps) (cases "setf (nf + 1) a (b - a) st"; simp add: ih(1)[simplified])
        moreover have "step_ok (white_fields P) blk scan e (up_to - nf) ((a, b - a) # sl) p"
          using ih(2) fs f b True by (intro step_ok_Cons[of _ _ "b + 1"]) (auto simp: a_def b_def xs_def)
        ultimately show ?thesis by blast
      qed
    qed
  qed
qed

lemma null_loop_ok:
  assumes "scan \<le> e" and "e < length blk"
  shows "\<exists>sl p. (\<forall>(setf :: 's setfunc) st. null_loop setf up_to scan e nf st =
      map_option (\<lambda>st'. (nf + length sl, p, st')) (set_all setf nf sl st)) \<and> step_ok null_fields blk scan e (up_to - nf) sl p"
  using assms(1)
proof (induction "e - scan" arbitrary: scan nf rule: less_induct)
  case less
  show ?case
  proof (cases "nf < up_to \<and> scan < e")
    case False
    then show ?thesis using less.prems
      by (intro exI[of _ "[]"] exI[of _ scan]) (auto simp: null_loop.simps step_ok_def)
  next
    case True
    then have "e - (scan + 1) < e - scan" "scan + 1 \<le> e" by auto
    from less.hyps[OF this, of "nf + 1"] obtain sl p where
      ih: "\<And>(setf :: 's setfunc) st. null_loop setf up_to (scan + 1) e (nf + 1) st =
        map_option (\<lambda>st'. (nf + 1 + length sl, p, st')) (set_all setf (nf + 1) sl st)"
        "step_ok null_fields blk (scan + 1) e (up_to - (nf + 1)) sl p" by blast
    have "null_loop setf up_to scan e nf st = map_option (\<lambda>st'. (nf + length ((scan, 1) # sl), p, st')) (set_all setf nf ((scan, 1) # sl) st)"
      for setf :: "'s setfunc" and st
      using True by (subst null_loop.simps) (cases "setf (nf + 1) scan 1 st"; simp add: ih(1)[simplified])
    moreover have "text_at blk scan 1 = [blk ! scan]" using text_at_Cons[of scan "scan + 1" blk] True assms(2) by simp
    then have "step_ok null_fields blk scan e (up_to - nf) ((scan, 1) # sl) p"
      using ih(2) True assms(2) text_at_Cons[of scan e blk] by (intro step_ok_Cons[of _ _ "scan + 1"]) (auto simp: null_fields_def)
    ultimately show ?thesis by blast
  qed
qed

text \<open>The text before the first separator.\<close>

lemma sc_parts:
  assumes "blk ! e = c" and "e < length blk" and "scan < e"
    and "xs = text_at blk scan (e - scan)" and "b = scan + length (takeWhile (\<lambda>x. x \<noteq> c) xs)"
  shows "skip_until (\<lambda>x. x = c) blk scan = Some b" "b \<le> e" "text_at blk scan (b - scan) = takeWhile (\<lambda>x. x \<noteq> c) xs"
    "b = e \<Longrightarrow> sc_fields c xs = [text_at blk scan (b - scan)]"
    "b < e \<Longrightarrow> blk ! b = c"
    "b + 1 = e \<Longrightarrow> sc_fields c xs = [text_at blk scan (b - scan), []]"
    "b + 1 < e \<Longrightarrow> sc_fields c xs = text_at blk scan (b - scan) # sc_fields c (text_at blk (b + 1) (e - (b + 1)))"
proof -
  define us where "us = takeWhile (\<lambda>x. x \<noteq> c) xs"
  note p = scan_parts[OF less_imp_le[OF assms(3)] less_imp_le[OF assms(2)] assms(4) refl, of "\<lambda>x. x \<noteq> c", folded us_def, folded assms(5)[folded us_def]]
  show "skip_until (\<lambda>x. x = c) blk scan = Some b"
    using skip_until_ok[of scan e blk "\<lambda>x. x = c"] assms by simp
  show "b \<le> e" by (rule p(1))
  have u: "text_at blk scan (b - scan) = us" using p(2) assms(5) by (simp add: us_def)
  then show "text_at blk scan (b - scan) = takeWhile (\<lambda>x. x \<noteq> c) xs" by (simp add: us_def)
  have us: "\<forall>x \<in> set us. x \<noteq> c" by (auto simp: us_def dest: set_takeWhileD)
  have "xs \<noteq> []" using assms(2-4) by (simp add: text_at_Cons)
  show "sc_fields c xs = [text_at blk scan (b - scan)]" if "b = e"
  proof -
    have "dropWhile (\<lambda>x. x \<noteq> c) xs = []" using p(3) that by simp
    then have "us = xs" unfolding us_def by (simp add: takeWhile_eq_all_conv)
    then show ?thesis using u split_by_none[of us "\<lambda>x. x = c"] us \<open>xs \<noteq> []\<close> by (simp add: sc_fields_def)
  qed
  have more: "blk ! b = c \<and> xs = us @ c # text_at blk (b + 1) (e - (b + 1))" if "b < e"
  proof -
    have d: "dropWhile (\<lambda>x. x \<noteq> c) xs = blk ! b # text_at blk (b + 1) (e - (b + 1))"
      using p(3) text_at_Cons[of b e blk] assms(2) that by simp
    then have "blk ! b = c" using hd_dropWhile[of "\<lambda>x. x \<noteq> c" xs] by simp
    then show ?thesis using d takeWhile_dropWhile_id[of "\<lambda>x. x \<noteq> c" xs] by (simp add: us_def)
  qed
  then show "b < e \<Longrightarrow> blk ! b = c" by simp
  have "split_by (\<lambda>x. x = c) xs = us # split_by (\<lambda>x. x = c) (text_at blk (b + 1) (e - (b + 1)))" if "b < e"
    using more[OF that] split_by_first[of us "\<lambda>x. x = c" c] us by simp
  then show "sc_fields c xs = [text_at blk scan (b - scan), []]" if "b + 1 = e"
    using that u \<open>xs \<noteq> []\<close> by (auto simp: sc_fields_def)
  show "sc_fields c xs = text_at blk scan (b - scan) # sc_fields c (text_at blk (b + 1) (e - (b + 1)))" if "b + 1 < e"
    using that u \<open>xs \<noteq> []\<close> \<open>b < e \<Longrightarrow> split_by (\<lambda>x. x = c) xs = _\<close> assms(2)
    by (auto simp: sc_fields_def dest: arg_cong[of _ _ length])
qed

lemma sc_loop_ok:
  assumes "blk ! e = c" and "e < length blk" and "scan < e"
  shows "\<exists>sl p. (\<forall>(setf :: 's setfunc) st. sc_loop c setf up_to blk scan e nf st =
      map_option (\<lambda>st'. (nf + length sl, p, st')) (set_all setf nf sl st)) \<and> step_ok (sc_fields c) blk scan e (up_to - nf) sl p"
  using assms(3)
proof (induction "e - scan" arbitrary: scan nf rule: less_induct)
  case less
  show ?case
  proof (cases "nf < up_to")
    case False
    then show ?thesis using less.prems by (intro exI[of _ "[]"] exI[of _ scan]) (auto simp: sc_loop.simps step_ok_def)
  next
    case True
    define b where "b = scan + length (takeWhile (\<lambda>x. x \<noteq> c) (text_at blk scan (e - scan)))"
    note p = sc_parts[OF assms(1,2) less.prems refl b_def]
    consider "b = e" | "b + 1 = e" | "b + 1 < e" using p(2) by linarith
    then show ?thesis
    proof cases
      case 1
      have "sc_loop c setf up_to blk scan e nf st = map_option (\<lambda>st'. (nf + 1, e, st')) (set_all setf nf [(scan, b - scan)] st)"
        for setf :: "'s setfunc" and st
        using True p(1) 1 by (subst sc_loop.simps) (cases "setf (nf + 1) scan (b - scan) st"; simp)
      moreover have "step_ok (sc_fields c) blk scan e (up_to - nf) [(scan, b - scan)] e"
        using p(4)[OF 1] 1 less.prems by (simp add: step_ok_def)
      ultimately show ?thesis by (intro exI[of _ "[(scan, b - scan)]"] exI[of _ e]) simp
    next
      case 2
      have "sc_loop c setf up_to blk scan e nf st = map_option (\<lambda>st'. (nf + 2, e, st')) (set_all setf nf [(scan, b - scan), (scan, 0)] st)"
        for setf :: "'s setfunc" and st
        using True p(1) 2 by (subst sc_loop.simps) (cases "setf (nf + 1) scan (b - scan) st"; auto split: bind_splits)
      moreover have "step_ok (sc_fields c) blk scan e (up_to - nf) [(scan, b - scan), (scan, 0)] e"
        using p(6)[OF 2] 2 less.prems by (auto simp: step_ok_def b_def)
      ultimately show ?thesis by (intro exI[of _ "[(scan, b - scan), (scan, 0)]"] exI[of _ e]) simp
    next
      case 3
      then have "e - (b + 1) < e - scan" "b + 1 < e" by (auto simp: b_def)
      from less.hyps[OF this, of "nf + 1"] obtain sl q where
        ih: "\<And>(setf :: 's setfunc) st. sc_loop c setf up_to blk (b + 1) e (nf + 1) st =
          map_option (\<lambda>st'. (nf + 1 + length sl, q, st')) (set_all setf (nf + 1) sl st)"
          "step_ok (sc_fields c) blk (b + 1) e (up_to - (nf + 1)) sl q" by blast
      have "sc_loop c setf up_to blk scan e nf st = map_option (\<lambda>st'. (nf + length ((scan, b - scan) # sl), q, st'))
          (set_all setf nf ((scan, b - scan) # sl) st)" for setf :: "'s setfunc" and st
        using True p(1) 3 by (subst sc_loop.simps) (cases "setf (nf + 1) scan (b - scan) st"; simp add: ih(1)[simplified])
      moreover have "step_ok (sc_fields c) blk scan e (up_to - nf) ((scan, b - scan) # sl) q"
        using ih(2) p(7)[OF 3] 3 True less.prems by (intro step_ok_Cons[of _ _ "b + 1"]) (auto simp: b_def)
      ultimately show ?thesis by blast
    qed
  qed
qed

section \<open>The interface of the parsers\<close>

definition start_nf :: "nat \<Rightarrow> nat \<Rightarrow> nat" where
  "start_nf up_to high_water = (if up_to = UNLIMITED then 0 else high_water)"

text \<open>A parser: which slices it sets, and where it stops, does not depend on what \<open>setf\<close> does with them.\<close>

definition sets_fields ::
  "('s setfunc \<Rightarrow> 's \<Rightarrow> (nat \<times> nat \<times> u8 list \<times> 's) option) \<Rightarrow> (u8 list \<Rightarrow> u8 list list) \<Rightarrow> u8 list \<Rightarrow> nat \<Rightarrow> nat \<Rightarrow> nat \<Rightarrow> nat \<Rightarrow> bool" where
  "sets_fields run F blk scan e nf room \<longleftrightarrow> (\<exists>sl p.
     (\<forall>setf st. run setf st = map_option (\<lambda>st'. (nf + length sl, p, blk, st')) (set_all setf nf sl st)) \<and> step_ok F blk scan e room sl p)"

text \<open>Parsing without a limit sets all fields of the text.\<close>

lemma sets_fields_all:
  assumes "sets_fields run F blk scan (scan + len) 0 UNLIMITED" and "length (F (text_at blk scan len)) < UNLIMITED" and "F [] = []"
  shows "\<exists>sl. (\<forall>setf st. run setf st = map_option (\<lambda>st'. (length sl, scan + len, blk, st')) (set_all setf 0 sl st)) \<and>
    texts blk sl = F (text_at blk scan len)"
proof -
  from assms(1) obtain sl p where
    r: "\<And>setf st. run setf st = map_option (\<lambda>st'. (length sl, p, blk, st')) (set_all setf 0 sl st)"
    and ok: "step_ok F blk scan (scan + len) UNLIMITED sl p"
    unfolding sets_fields_def by auto
  have t: "texts blk sl @ F (text_at blk p (scan + len - p)) = F (text_at blk scan len)"
    using step_okD(3)[OF ok] by simp
  then have "length sl \<le> length (F (text_at blk scan len))" by (metis length_append length_map le_add1)
  then have "p = scan + len" using step_okD(5)[OF ok] assms(2) by linarith
  then show ?thesis using r t assms(3) by (intro exI[of _ sl]) simp
qed

locale field_parser =
  fixes parse :: "'s setfunc \<Rightarrow> nat \<Rightarrow> u8 list \<Rightarrow> nat \<Rightarrow> nat \<Rightarrow> nat \<Rightarrow> 's \<Rightarrow> (nat \<times> nat \<times> u8 list \<times> 's) option"
    and fields_of :: "u8 list \<Rightarrow> u8 list list"
  assumes parse_law: "scan + len < length blk \<Longrightarrow>
      sets_fields (\<lambda>setf st. parse setf up_to blk scan len high_water st) fields_of blk scan (scan + len)
        (start_nf up_to high_water) (up_to - start_nf up_to high_water)"
    and no_text: "fields_of [] = []"
begin

lemma parse_all:
  assumes "scan + len < length blk" and "length (fields_of (text_at blk scan len)) < UNLIMITED"
  shows "\<exists>sl. (\<forall>setf st. parse setf UNLIMITED blk scan len high_water st =
      map_option (\<lambda>st'. (length sl, scan + len, blk, st')) (set_all setf 0 sl st)) \<and> texts blk sl = fields_of (text_at blk scan len)"
  using sets_fields_all[OF _ assms(2) no_text] parse_law[OF assms(1), of UNLIMITED high_water] by (simp add: start_nf_def)

end

text \<open>The sentinel is written and removed again.\<close>

lemma with_sentinel:
  assumes "scan + len < length blk"
    and "\<exists>sl p. (\<forall>(setf :: 's setfunc) st. loop (blk[scan + len := c]) setf st = map_option (\<lambda>st'. (nf + length sl, p, st')) (set_all setf nf sl st)) \<and>
      step_ok F (blk[scan + len := c]) scan (scan + len) room sl p"
  shows "sets_fields (\<lambda>(setf :: 's setfunc) st. do { sav \<leftarrow> rd_at blk (scan + len); blk1 \<leftarrow> wr_at blk (scan + len) c;
      (nf1, scan1, st1) \<leftarrow> loop blk1 setf st; blk2 \<leftarrow> wr_at blk1 (scan + len) sav; Some (nf1, scan1, blk2, st1) }) F blk scan (scan + len) nf room"
proof -
  from assms(2) obtain sl p where
    l: "\<And>(setf :: 's setfunc) st. loop (blk[scan + len := c]) setf st = map_option (\<lambda>st'. (nf + length sl, p, st')) (set_all setf nf sl st)"
    and ok: "step_ok F (blk[scan + len := c]) scan (scan + len) room sl p" by blast
  have "do { sav \<leftarrow> rd_at blk (scan + len); blk1 \<leftarrow> wr_at blk (scan + len) c;
      (nf1, scan1, st1) \<leftarrow> loop blk1 setf st; blk2 \<leftarrow> wr_at blk1 (scan + len) sav; Some (nf1, scan1, blk2, st1) } =
      map_option (\<lambda>st'. (nf + length sl, p, blk, st')) (set_all setf nf sl st)" for setf :: "'s setfunc" and st
    using assms(1) by (cases "set_all setf nf sl st") (simp_all add: l)
  then show ?thesis unfolding sets_fields_def using step_ok_upd[OF ok] by blast
qed

lemma sets_nothing: "F [] = [] \<Longrightarrow> sets_fields (\<lambda>setf st. Some (nf, scan, blk, st)) F blk scan scan nf room"
  unfolding sets_fields_def by (intro exI[of _ "[]"] exI[of _ scan]) (simp add: step_ok_def)

lemma white_parser:
  assumes "P 32" and "scan + len < length blk"
  shows "sets_fields (\<lambda>(setf :: 's setfunc) st. white_parse_field P setf up_to blk scan len [32] hw st) (white_fields P) blk scan (scan + len)
     (start_nf up_to hw) (up_to - start_nf up_to hw)"
proof (cases "len = 0")
  case True
  then show ?thesis by (simp add: sets_nothing white_parse_field_def start_nf_def Let_def)
next
  case False
  have "white_parse_field P setf up_to blk scan len [32] hw st = do { sav \<leftarrow> rd_at blk (scan + len); blk1 \<leftarrow> wr_at blk (scan + len) 32;
      (nf1, scan1, st1) \<leftarrow> white_loop P setf up_to blk1 scan (scan + len) (start_nf up_to hw) st;
      blk2 \<leftarrow> wr_at blk1 (scan + len) sav; Some (nf1, scan1, blk2, st1) }" for setf :: "'s setfunc" and st
    using False by (simp add: white_parse_field_def start_nf_def Let_def)
  then show ?thesis
    using with_sentinel[where loop = "\<lambda>b setf st. white_loop P setf up_to b scan (scan + len) (start_nf up_to hw) st", OF assms(2) white_loop_ok[of P "blk[scan + len := 32]" "scan + len" scan up_to "start_nf up_to hw"]] assms by simp
qed

lemma sc_parser:
  assumes "scan + len < length blk"
  shows "sets_fields (\<lambda>(setf :: 's setfunc) st. sc_parse_field False setf up_to blk scan len [c] hw st) (sc_fields c) blk scan (scan + len)
     (start_nf up_to hw) (up_to - start_nf up_to hw)"
proof (cases "len = 0")
  case True
  then show ?thesis by (simp add: sets_nothing sc_parse_field_def start_nf_def Let_def)
next
  case False
  have "sc_parse_field False setf up_to blk scan len [c] hw st = do { sav \<leftarrow> rd_at blk (scan + len); blk1 \<leftarrow> wr_at blk (scan + len) c;
      (nf1, scan1, st1) \<leftarrow> sc_loop c setf up_to blk1 scan (scan + len) (start_nf up_to hw) st;
      blk2 \<leftarrow> wr_at blk1 (scan + len) sav; Some (nf1, scan1, blk2, st1) }" for setf :: "'s setfunc" and st
    using False by (simp add: sc_parse_field_def start_nf_def Let_def)
  then show ?thesis
    using with_sentinel[where loop = "\<lambda>b setf st. sc_loop c setf up_to b scan (scan + len) (start_nf up_to hw) st", OF assms sc_loop_ok[of "blk[scan + len := c]" "scan + len" c scan up_to "start_nf up_to hw"]] assms False by simp
qed

lemma null_parser:
  assumes "scan + len < length blk"
  shows "sets_fields (\<lambda>(setf :: 's setfunc) st. null_parse_field setf up_to blk scan len fs hw st) null_fields blk scan (scan + len)
     (start_nf up_to hw) (up_to - start_nf up_to hw)"
proof (cases "len = 0")
  case True
  then show ?thesis by (simp add: sets_nothing null_parse_field_def start_nf_def Let_def)
next
  case False
  from null_loop_ok[of scan "scan + len" blk up_to "start_nf up_to hw"] assms obtain sl p where
    n: "\<And>(setf :: 's setfunc) st. null_loop setf up_to scan (scan + len) (start_nf up_to hw) st =
      map_option (\<lambda>st'. (start_nf up_to hw + length sl, p, st')) (set_all setf (start_nf up_to hw) sl st)"
    "step_ok null_fields blk scan (scan + len) (up_to - start_nf up_to hw) sl p" by auto
  have "null_parse_field setf up_to blk scan len fs hw st =
      map_option (\<lambda>st'. (start_nf up_to hw + length sl, p, blk, st')) (set_all setf (start_nf up_to hw) sl st)" for setf :: "'s setfunc" and st
    using False n(1)[of setf st] by (cases "set_all setf (start_nf up_to hw) sl st") (simp_all add: null_parse_field_def start_nf_def Let_def)
  then show ?thesis using n(2) unfolding sets_fields_def by blast
qed

interpretation def_parser: field_parser
  "\<lambda>setf up_to blk scan len high_water st. def_parse_field setf up_to blk scan len [32] high_water st" "white_fields is_white"
  using white_parser[of is_white] by unfold_locales (simp_all add: is_white_def def_parse_field_def)

interpretation posix_parser: field_parser
  "\<lambda>setf up_to blk scan len high_water st. posix_def_parse_field setf up_to blk scan len [32] high_water st" "white_fields is_blank"
  using white_parser[of is_blank] by unfold_locales (simp_all add: is_blank_def posix_def_parse_field_def)

interpretation null_parser: field_parser
  "\<lambda>setf up_to blk scan len high_water st. null_parse_field setf up_to blk scan len [] high_water st" null_fields
  using null_parser by unfold_locales (simp_all add: null_fields_def)

interpretation sc_parser: field_parser
  "\<lambda>setf up_to blk scan len high_water st. sc_parse_field False setf up_to blk scan len [c] high_water st" "sc_fields c" for c
  using sc_parser[of _ _ _ _ c] by unfold_locales simp_all

section \<open>Regular expressions\<close>

text \<open>The matcher of a regular expression for one character.\<close>

definition char_matcher :: "u8 \<Rightarrow> bool \<Rightarrow> u8 list \<Rightarrow> (nat \<times> nat) option" where
  "char_matcher c no_bol t = (let n = length (takeWhile (\<lambda>x. x \<noteq> c) t) in if n < length t then Some (n, 1) else None)"

definition re_rest :: "'s setfunc \<Rightarrow> nat \<Rightarrow> nat \<times> nat \<times> nat \<times> 's \<Rightarrow> (nat \<times> nat \<times> 's) option" where
  "re_rest setf e = (\<lambda>(nf1, up_to1, scan2, st1).
     if nf1 \<noteq> up_to1 \<and> scan2 < e then do { st2 \<leftarrow> setf (nf1 + 1) scan2 (e - scan2) st1; Some (nf1 + 1, e, st2) } else Some (nf1, scan2, st1))"

lemma re_loop_char:
  assumes "e < length blk" and z: "\<forall>num p q st. setf num p 0 st = setf num q 0 st" and "scan < e" and "nf \<le> up_to"
  shows "Option.bind (re_loop (char_matcher c) setf up_to blk scan scan e nf no_bol st) (re_rest setf e) =
    sc_loop c setf up_to (blk[e := c]) scan e nf st"
  using assms(3,4)
proof (induction "e - scan" arbitrary: scan nf no_bol st rule: less_induct)
  case less
  show ?case
  proof (cases "nf < up_to")
    case False
    then show ?thesis using less.prems by (simp add: re_loop.simps sc_loop.simps re_rest_def)
  next
    case True
    define xs where "xs = text_at blk scan (e - scan)"
    define b where "b = scan + length (takeWhile (\<lambda>x. x \<noteq> c) xs)"
    have t: "text_at (blk[e := c]) scan (e - scan) = xs" using less.prems by (simp add: text_at_upd xs_def)
    note p = sc_parts[of "blk[e := c]" e c scan xs b, OF _ _ _ t[symmetric] b_def]
    have skip: "skip_until (\<lambda>x. x = c) (blk[e := c]) scan = Some b" and be: "b \<le> e" using p(1,2) assms(1) less.prems by simp_all
    have len: "length xs = e - scan" using less.prems assms(1) by (simp add: xs_def)
    have m: "char_matcher c no_bol xs = (if b < e then Some (b - scan, 1) else None)" using len by (auto simp: char_matcher_def b_def Let_def)
    have bs: "scan + (b - scan + 1) = b + 1" "scan + (b - scan) = b" by (simp_all add: b_def)
    consider "b = e" | "b + 1 = e" | "b + 1 < e" using be by linarith
    then show ?thesis
    proof cases
      case 1
      then show ?thesis using True less.prems m skip by (simp add: re_loop.simps sc_loop.simps re_rest_def flip: xs_def)
    next
      case 2
      have "re_loop (char_matcher c) setf up_to blk e e e k True s = Some (k, up_to, e, s)" for k s by (simp add: re_loop.simps)
      have "setf (Suc (Suc nf)) e 0 s = setf (Suc (Suc nf)) scan 0 s" for s using z by blast
      then show ?thesis using True less.prems m skip bs 2 \<open>\<And>k s. re_loop (char_matcher c) setf up_to blk e e e k True s = Some (k, up_to, e, s)\<close>
        by (subst re_loop.simps, subst sc_loop.simps) (cases "setf (nf + 1) scan (b - scan) st"; auto simp: re_rest_def simp flip: xs_def split: bind_splits)
    next
      case 3
      then have "e - (b + 1) < e - scan" "b + 1 < e" "nf + 1 \<le> up_to" using True by (auto simp: b_def)
      note ih = less.hyps[OF this, of True]
      show ?thesis using True less.prems m skip bs 3
        by (subst re_loop.simps, subst sc_loop.simps) (cases "setf (nf + 1) scan (b - scan) st"; simp add: ih[simplified] flip: xs_def)
    qed
  qed
qed

section \<open>Properties\<close>

text \<open>C32: The parser for separators of one character sets the same fields, stops at the same place and leaves the text as it was as
  the one for regular expressions does with a matcher for this character, for every limit on the fields and from wherever the
  parsing starts, so that the choice of \<open>set_FS\<close> between the two cannot be seen.  (For an empty field at the end they
  give different pointers.)\<close>

theorem re_single_char:
  assumes "scan + len < length blk" and "high_water \<le> up_to" and "\<forall>num p q st. setf num p 0 st = setf num q 0 st"
  shows "re_parse_field False (char_matcher c) setf up_to blk scan len in_middle high_water st =
    sc_parse_field False setf up_to blk scan len [c] high_water st"
proof (cases "len = 0")
  case True
  then show ?thesis by (simp add: re_parse_field_def sc_parse_field_def)
next
  case False
  have "start_nf up_to high_water \<le> up_to" using assms(2) by (simp add: start_nf_def)
  then have l: "Option.bind (re_loop (char_matcher c) setf up_to blk scan scan (scan + len) (start_nf up_to high_water) in_middle st) (re_rest setf (scan + len)) =
    sc_loop c setf up_to (blk[scan + len := c]) scan (scan + len) (start_nf up_to high_water) st"
    using False by (intro re_loop_char[where setf = setf, OF assms(1,3)]) simp_all
  have "re_parse_field False (char_matcher c) setf up_to blk scan len in_middle high_water st =
     map_option (\<lambda>(nf1, scan1, st1). (nf1, scan1, blk, st1)) (Option.bind (re_loop (char_matcher c) setf up_to blk scan scan (scan + len)
       (start_nf up_to high_water) in_middle st) (re_rest setf (scan + len)))"
    using False by (auto simp: re_parse_field_def start_nf_def Let_def re_rest_def split: bind_splits)
  moreover have "sc_parse_field False setf up_to blk scan len [c] high_water st = map_option (\<lambda>(nf1, scan1, st1). (nf1, scan1, blk, st1))
     (sc_loop c setf up_to (blk[scan + len := c]) scan (scan + len) (start_nf up_to high_water) st)"
    using False assms(1) by (auto simp: sc_parse_field_def start_nf_def Let_def split: bind_splits)
  ultimately show ?thesis using l by simp
qed

text \<open>A function that collects the fields.\<close>

definition collect_texts :: "u8 list \<Rightarrow> u8 list list setfunc" where
  "collect_texts blk num p l st = Some (st @ [text_at blk p l])"

theorem re_single_char_witness:
  "re_parse_field False (char_matcher 58) (collect_texts [97, 58, 98, 58, 0]) 5 [97, 58, 98, 58, 0] 0 4 False 0 [] =
    sc_parse_field False (collect_texts [97, 58, 98, 58, 0]) 5 [97, 58, 98, 58, 0] 0 4 [58] 0 []"
  using re_single_char[of 0 4 "[97, 58, 98, 58, 0]" 0 5 "collect_texts [97, 58, 98, 58, 0]" 58 False "[]"] by (simp add: collect_texts_def)

end
