(* ===== verification/Awk_Fields.thy ===== *)
theory Awk_Fields
  imports Awk_Parse
begin

text \<open>
  Records and fields of gawk, \<open>field.c\<close>: \<open>$0\<close> is split into fields only as far as they are needed, and put together
  again only when it is needed.  The text of \<open>$0\<close> is in a block of memory with at least one byte after it; a field that was
  parsed is a slice of this block.  Of a node only the text is modelled, without the flags that say what it may be converted
  to and without reference counts; an allocation succeeds.
\<close>

section \<open>State\<close>

datatype fld = Slice nat nat | Own "u8 list"

text \<open>The values of the function pointer \<open>parse_field\<close>.\<close>

datatype parser = Re_parse | Def_parse | Posix_def_parse | Null_parse | Sc_parse | Fw_parse

text \<open>
  The static variables of the file.  \<open>block\<close> is where \<open>fields_arr[0]->stptr\<close> points to and \<open>len0\<close> its \<open>stlen\<close>;
  \<open>fields_arr\<close> starts at index 1 here, so that \<open>nf_high_water\<close> is its length; \<open>parse_extent\<close> is an offset in \<open>block\<close>.
  \<open>fs_value\<close> and \<open>rs_value\<close> are the values of \<open>FS\<close> and \<open>RS\<close>, \<open>prev_fs\<close> and \<open>prev_rs\<close> those at the last \<open>set_FS\<close>.
  \<open>FS_regexp\<close> is a pattern and whether case is ignored.
\<close>

record fields_state =
  block :: "u8 list"
  len0 :: nat
  fields_arr :: "fld list"
  parse_high_water :: nat
  parse_extent :: nat
  NF :: int
  field0_valid :: bool
  fs_value :: "u8 list"
  rs_value :: "u8 list"
  save_FS :: "u8 list"
  resave_fs :: bool
  parse_field :: parser
  default_FS :: bool
  FS_regexp :: "(u8 list \<times> bool) option"
  prev_fs :: "u8 list option"
  prev_rs :: "u8 list option"
  FIELDWIDTHS :: "int list"
  databuf :: "u8 list"

text \<open>What stays the same: options, \<open>OFS\<close>, \<open>IGNORECASE\<close>, and the matcher, for a pattern and whether case is ignored.\<close>

record awk_env =
  do_posix :: bool
  do_traditional :: bool
  ofs_value :: "u8 list"
  ignore_case :: bool
  regex_matcher :: "u8 list \<times> bool \<Rightarrow> bool \<Rightarrow> u8 list \<Rightarrow> (nat \<times> nat) option"

abbreviation RS_is_null :: "fields_state \<Rightarrow> bool" where "RS_is_null s \<equiv> rs_value s = []"

definition run_parser :: "awk_env \<Rightarrow> fields_state \<Rightarrow> 's setfunc \<Rightarrow> nat \<Rightarrow> u8 list \<Rightarrow> nat \<Rightarrow> nat \<Rightarrow> u8 list \<Rightarrow> bool \<Rightarrow> nat \<Rightarrow> 's \<Rightarrow>
    (nat \<times> nat \<times> u8 list \<times> 's) option" where
  "run_parser E s setf up_to blk scan len fs in_middle hw st =
     (case parse_field s of
        Re_parse \<Rightarrow> (case FS_regexp s of None \<Rightarrow> None
          | Some rp \<Rightarrow> re_parse_field (RS_is_null s \<and> default_FS s) (regex_matcher E rp) setf up_to blk scan len in_middle hw st)
      | Def_parse \<Rightarrow> def_parse_field setf up_to blk scan len fs hw st
      | Posix_def_parse \<Rightarrow> posix_def_parse_field setf up_to blk scan len fs hw st
      | Null_parse \<Rightarrow> null_parse_field setf up_to blk scan len fs hw st
      | Sc_parse \<Rightarrow> sc_parse_field (RS_is_null s) setf up_to blk scan len fs hw st
      | Fw_parse \<Rightarrow> fw_parse_field (FIELDWIDTHS s) setf up_to blk scan len fs hw st)"

definition fld_text :: "u8 list \<Rightarrow> fld \<Rightarrow> u8 list" where
  "fld_text blk f = (case f of Slice p l \<Rightarrow> text_at blk p l | Own t \<Rightarrow> t)"

abbreviation Null :: fld where "Null \<equiv> Own []"

section \<open>Setting fields\<close>

definition grow_fields_arr :: "nat \<Rightarrow> fields_state \<Rightarrow> fields_state" where
  "grow_fields_arr num s = s\<lparr>fields_arr := fields_arr s @ replicate (num - length (fields_arr s)) Null\<rparr>"

definition set_field :: "fields_state setfunc" where
  "set_field num p l s =
     (if num = 0 then None
      else let s1 = (if num > length (fields_arr s) then grow_fields_arr num s else s)
           in Some (s1\<lparr>fields_arr := (fields_arr s1)[num - 1 := Slice p l]\<rparr>))"

text \<open>\<open>cops\<close> runs over the new text; an empty field keeps its pointer.\<close>

fun point_into :: "nat \<Rightarrow> nat \<Rightarrow> (fld \<times> u8 list) list \<Rightarrow> fld list" where
  "point_into ofslen cops [] = []"
| "point_into ofslen cops ((f, t) # fs) =
     (if length t > 0 then Slice cops (length t) else f) # point_into ofslen (cops + length t + ofslen) fs"

definition rebuild_record :: "awk_env \<Rightarrow> fields_state \<Rightarrow> fields_state option" where
  "rebuild_record E s =
     (if NF s < 0 \<or> int (length (fields_arr s)) < NF s then None
      else let n = nat (NF s);
               ts = map (fld_text (block s)) (take n (fields_arr s));
               ops = join (ofs_value E) ts
           in Some (s\<lparr>block := ops @ [0], len0 := length ops,
                fields_arr := point_into (length (ofs_value E)) 0 (zip (take n (fields_arr s)) ts) @ drop n (fields_arr s), field0_valid := True\<rparr>))"

section \<open>A new record\<close>

definition reset_record :: "fields_state \<Rightarrow> fields_state option" where
  "reset_record s =
     (if length (fields_arr s) < parse_high_water s then None
      else let s1 = s\<lparr>NF := -1, fields_arr := replicate (parse_high_water s) Null @ drop (parse_high_water s) (fields_arr s), parse_high_water := 0\<rparr>;
               s2 = (if resave_fs s1 then s1\<lparr>resave_fs := False, save_FS := fs_value s1\<rparr> else s1)
           in Some (s2\<lparr>field0_valid := True\<rparr>))"

function databuf_size :: "nat \<Rightarrow> nat \<Rightarrow> nat" where
  "databuf_size n cnt = (if 0 < n \<and> n \<le> cnt then databuf_size (n * 2) cnt else n)"
  by pat_completeness auto
termination by (relation "measure (\<lambda>(n, cnt). Suc cnt - n)") auto

declare databuf_size.simps [simp del]

definition INITIAL_SIZE :: nat where "INITIAL_SIZE = 512"

text \<open>The buffer that keeps the text, with room for a sentinel.\<close>

definition new_databuf :: "u8 list \<Rightarrow> u8 list \<Rightarrow> u8 list" where
  "new_databuf old buf =
     (let cnt = length buf;
          db = (if old = [] then replicate INITIAL_SIZE 0 else old);
          db1 = (if cnt \<ge> length db then replicate (databuf_size (length db) cnt) 0 else db)
      in buf @ drop cnt db1)"

definition set_record :: "u8 list \<Rightarrow> fields_state \<Rightarrow> fields_state option" where
  "set_record buf s0 = do {
     s \<leftarrow> reset_record s0;
     let db = new_databuf (databuf s) buf;
     Some (s\<lparr>databuf := db, block := db, len0 := length buf\<rparr>) }"

text \<open>\<open>set_NF\<close> gets the number that was assigned to \<open>NF\<close>; a negative one is a fatal error.\<close>

definition clear_fields :: "nat \<Rightarrow> nat \<Rightarrow> fld list \<Rightarrow> fld list" where
  "clear_fields a b fs = take a fs @ replicate (b - a) Null @ drop (max a b) fs"

definition set_NF :: "int \<Rightarrow> fields_state \<Rightarrow> (string + fields_state) option" where
  "set_NF n s0 =
     (if NF s0 = -1 then None
      else if n < 0 then Some (Inl ''NF set to negative value'')
      else let k = nat n;
               s = s0\<lparr>NF := n\<rparr>;
               s1 = (if k > length (fields_arr s) then grow_fields_arr k s else s);
               s2 = (if parse_high_water s1 < k then s1\<lparr>fields_arr := clear_fields (parse_high_water s1) k (fields_arr s1)\<rparr>
                     else if parse_high_water s1 > 0
                     then s1\<lparr>fields_arr := clear_fields k (parse_high_water s1) (fields_arr s1), parse_high_water := k\<rparr>
                     else s1)
           in Some (Inr (s2\<lparr>field0_valid := False\<rparr>)))"

section \<open>Access to a field\<close>

text \<open>The call of \<open>*parse_field\<close> on the rest of \<open>$0\<close>; both callers set \<open>parse_high_water\<close> to the result.\<close>

definition parse_more :: "awk_env \<Rightarrow> nat \<Rightarrow> bool \<Rightarrow> fields_state \<Rightarrow> fields_state option" where
  "parse_more E up_to in_middle s =
     (if len0 s < parse_extent s then None
      else do {
        (nf, p, blk, s1) \<leftarrow> run_parser E s set_field up_to (block s) (parse_extent s) (len0 s - parse_extent s) (save_FS s) in_middle
          (parse_high_water s) s;
        Some (s1\<lparr>block := blk, parse_extent := p, parse_high_water := nf\<rparr>) })"

text \<open>The result is a pointer to \<open>fields_arr[i]\<close> or to \<open>Null_field\<close>.\<close>

datatype field_ref = Field nat | Null_field

definition get_field :: "awk_env \<Rightarrow> nat \<Rightarrow> bool \<Rightarrow> fields_state \<Rightarrow> (field_ref \<times> fields_state) option" where
  "get_field E requested assign s0 =
     (if requested = 0 then do {
        s \<leftarrow> (if \<not> field0_valid s0 then do {
                s1 \<leftarrow> (if NF s0 = -1 then do {
                          s1 \<leftarrow> parse_more E (UNLIMITED - 1) False s0;
                          Some (s1\<lparr>NF := int (parse_high_water s1)\<rparr>) }
                        else Some s0);
                rebuild_record E s1 }
              else Some s0);
        Some (Field 0, s) }
      else
        let s = (if assign then s0\<lparr>field0_valid := False\<rparr> else s0)
        in if requested \<le> parse_high_water s then Some (Field requested, s)
           else do {
             (req, s2) \<leftarrow> (if NF s = -1 then do {
                  s1 \<leftarrow> (if parse_high_water s = 0 then parse_more E requested False (s\<lparr>parse_extent := 0\<rparr>)
                         else parse_more E requested True s);
                  let s2 = (if parse_extent s1 = len0 s1 then s1\<lparr>NF := int (parse_high_water s1)\<rparr> else s1);
                  Some (if requested = UNLIMITED - 1 then parse_high_water s2 else requested, s2) }
                else Some (requested, s));
             if parse_high_water s2 < req then
               (if assign then
                  let s3 = (if req > length (fields_arr s2) then grow_fields_arr req s2 else s2)
                  in Some (Field req, s3\<lparr>NF := int req, parse_high_water := req\<rparr>)
                else Some (Null_field, s2))
             else Some (Field req, s2) })"

definition ref_text :: "fields_state \<Rightarrow> field_ref \<Rightarrow> u8 list option" where
  "ref_text s r = (case r of Null_field \<Rightarrow> Some []
     | Field i \<Rightarrow> if i = 0 then Some (text_at (block s) 0 (len0 s)) else map_option (fld_text (block s)) (rd_at (fields_arr s) (i - 1)))"

text \<open>The assignments of \<open>eval.c\<close> to a field, to \<open>$0\<close> and to \<open>NF\<close>, and reading \<open>NF\<close>.\<close>

definition assign_field :: "awk_env \<Rightarrow> nat \<Rightarrow> u8 list \<Rightarrow> fields_state \<Rightarrow> fields_state option" where
  "assign_field E n v s = do {
     (r, s1) \<leftarrow> get_field E n True s;
     (case r of Null_field \<Rightarrow> None
      | Field i \<Rightarrow>
          if i = 0 then reset_record (s1\<lparr>block := v @ [0], len0 := length v\<rparr>)
          else do { fs \<leftarrow> wr_at (fields_arr s1) (i - 1) (Own v); Some (s1\<lparr>fields_arr := fs\<rparr>) }) }"

definition get_NF :: "awk_env \<Rightarrow> bool \<Rightarrow> fields_state \<Rightarrow> fields_state option" where
  "get_NF E assign s = (if NF s = -1 then map_option snd (get_field E (UNLIMITED - 1) assign s) else Some s)"

definition assign_NF :: "awk_env \<Rightarrow> int \<Rightarrow> fields_state \<Rightarrow> (string + fields_state) option" where
  "assign_NF E n s = do { s1 \<leftarrow> get_NF E True s; set_NF n s1 }"

section \<open>The field separator\<close>

text \<open>The parser, \<open>default_FS\<close> and the pattern in \<open>buf\<close> for the value of \<open>FS\<close>.\<close>

definition choose_fs :: "awk_env \<Rightarrow> fields_state \<Rightarrow> parser \<times> bool \<times> u8 list" where
  "choose_fs E s =
     (let fs = fs_value s
      in if \<not> do_traditional E \<and> length fs = 0 then (Null_parse, False, [])
         else if length fs > 1 then (Re_parse, False, [])
         else if RS_is_null s then
           (if length fs = 1 then
              (if fs ! 0 = 32 then (Sc_parse, True, [91, 32, 9, 10, 93, 43])
               else if fs ! 0 = 92 then (Sc_parse, False, [91, 92, 92, 10, 93])
               else if fs ! 0 \<noteq> 10 then (Sc_parse, False, [91, fs ! 0, 10, 93])
               else (Sc_parse, False, []))
            else (Sc_parse, False, []))
         else
           (let dflt = (if do_posix E then Posix_def_parse else Def_parse)
            in if length fs = 1 then
                 (if fs ! 0 = 32 then (dflt, True, [])
                  else if fs ! 0 = 92 then (dflt, False, [91, 92, 92, 93])
                  else (Sc_parse, False, []))
               else (dflt, False, [])))"

definition set_FS :: "awk_env \<Rightarrow> fields_state \<Rightarrow> fields_state option" where
  "set_FS E s0 = do {
     (r, s) \<leftarrow> get_field E (UNLIMITED - 1) False s0;
     let same = (prev_fs s = Some (fs_value s) \<and> prev_rs s = Some (rs_value s));
     if same \<and> parse_field s \<noteq> Fw_parse then Some (s\<lparr>FS_regexp := map_option (\<lambda>rp. (fst rp, ignore_case E)) (FS_regexp s)\<rparr>)
     else do {
       let s1 = (if same then s\<lparr>FS_regexp := map_option (\<lambda>rp. (fst rp, ignore_case E)) (FS_regexp s)\<rparr>
                 else s\<lparr>prev_fs := Some (fs_value s), prev_rs := Some (rs_value s), resave_fs := True, FS_regexp := None\<rparr>);
       let (p, dflt, buf) = choose_fs E s1;
       let s2 = s1\<lparr>parse_field := p, default_FS := dflt\<rparr>;
       let s3 = (if same then s2
                 else if buf \<noteq> [] then s2\<lparr>FS_regexp := Some (buf, ignore_case E), parse_field := Re_parse\<rparr>
                 else if p = Re_parse then s2\<lparr>FS_regexp := Some (fs_value s2, ignore_case E)\<rparr>
                 else s2\<lparr>FS_regexp := None\<rparr>);
       Some (if length (fs_value s3) = 1 \<and> parse_field s3 = Re_parse
             then s3\<lparr>FS_regexp := map_option (\<lambda>rp. (fst rp, False)) (FS_regexp s3)\<rparr> else s3) } }"

definition assign_FS :: "awk_env \<Rightarrow> u8 list \<Rightarrow> fields_state \<Rightarrow> fields_state option" where
  "assign_FS E v s = set_FS E (s\<lparr>fs_value := v\<rparr>)"

text \<open>The state after \<open>init_vars\<close>, which sets \<open>FS\<close> and \<open>RS\<close> to their defaults and calls \<open>set_FS\<close>, and \<open>init_fields\<close>.\<close>

definition init_fields :: "awk_env \<Rightarrow> fields_state" where
  "init_fields E = \<lparr>block = [0], len0 = 0, fields_arr = [], parse_high_water = 0, parse_extent = 0, NF = 0, field0_valid = True,
     fs_value = [32], rs_value = [10], save_FS = [32], resave_fs = True,
     parse_field = (if do_posix E then Posix_def_parse else Def_parse), default_FS = True, FS_regexp = None,
     prev_fs = Some [32], prev_rs = Some [10], FIELDWIDTHS = [], databuf = []\<rparr>"

section \<open>Splitting with a separator of one character\<close>

text \<open>A separator that is no regular expression: none, or one character other than the backslash.\<close>

definition simple_fs :: "u8 list \<Rightarrow> bool" where
  "simple_fs fs \<longleftrightarrow> fs = [] \<or> (length fs = 1 \<and> hd fs \<noteq> 92)"

definition awk_split :: "awk_env \<Rightarrow> u8 list \<Rightarrow> u8 list \<Rightarrow> u8 list list" where
  "awk_split E fs v = (if fs = [] then null_fields v
     else if hd fs = 32 then white_fields (if do_posix E then is_blank else is_white) v else sc_fields (hd fs) v)"

definition parser_of :: "awk_env \<Rightarrow> u8 list \<Rightarrow> parser" where
  "parser_of E fs = (if fs = [] then Null_parse
     else if hd fs = 32 then (if do_posix E then Posix_def_parse else Def_parse) else Sc_parse)"

lemma awk_split_Nil [simp]: "awk_split E fs [] = []"
  by (simp add: awk_split_def)

lemma run_parser_law:
  assumes "simple_fs fs" and "parse_field s = parser_of E fs" and "\<not> RS_is_null s" and "scan + len < length blk"
  shows "sets_fields (\<lambda>setf st. run_parser E s setf up_to blk scan len fs mid hw st) (awk_split E fs) blk scan (scan + len)
    (start_nf up_to hw) (up_to - start_nf up_to hw)"
proof (cases fs)
  case Nil
  have "awk_split E [] = null_fields" by (auto simp: awk_split_def)
  then show ?thesis using null_parser.parse_law[OF assms(4), of up_to hw] assms(2) Nil
    by (simp add: run_parser_def parser_of_def)
next
  case (Cons c cs)
  then have fs: "fs = [c]" using assms(1) by (simp add: simple_fs_def)
  have sp: "awk_split E [c] = (if c = 32 then white_fields (if do_posix E then is_blank else is_white) else sc_fields c)"
    by (auto simp: awk_split_def)
  show ?thesis
    using def_parser.parse_law[OF assms(4), of up_to hw] posix_parser.parse_law[OF assms(4), of up_to hw]
      sc_parser.parse_law[OF assms(4), where c = c and up_to = up_to and high_water = hw] assms(2,3)
    unfolding fs sp by (auto simp: run_parser_def parser_of_def)
qed

section \<open>The fields that are set\<close>

lemma set_field_next:
  assumes "nf < length (fields_arr s)"
  shows "set_field (nf + 1) p l s = Some (s\<lparr>fields_arr := (fields_arr s)[nf := Slice p l]\<rparr>)"
  using assms by (simp add: set_field_def)

lemma set_field_new:
  assumes "nf = length (fields_arr s)"
  shows "set_field (nf + 1) p l s = Some (s\<lparr>fields_arr := fields_arr s @ [Slice p l]\<rparr>)"
  using assms by (simp add: set_field_def grow_fields_arr_def)

lemma set_all_set_field:
  "nf \<le> length (fields_arr s) \<Longrightarrow> set_all set_field nf sl s =
    Some (s\<lparr>fields_arr := take nf (fields_arr s) @ map (\<lambda>(p, l). Slice p l) sl @ drop (nf + length sl) (fields_arr s)\<rparr>)"
proof (induction sl arbitrary: nf s)
  case (Cons x sl)
  obtain p l where x: "x = (p, l)" by (cases x)
  show ?case
  proof (cases "nf < length (fields_arr s)")
    case True
    then show ?thesis using Cons.IH[of "nf + 1" "s\<lparr>fields_arr := (fields_arr s)[nf := Slice p l]\<rparr>"] x
      by (simp add: set_field_next[simplified] take_Suc_conv_app_nth)
  next
    case False
    then have "nf = length (fields_arr s)" using Cons.prems by simp
    then show ?thesis using Cons.IH[of "nf + 1" "s\<lparr>fields_arr := fields_arr s @ [Slice p l]\<rparr>"] x
      by (simp add: set_field_new[simplified])
  qed
qed simp

section \<open>The record it stands for\<close>

text \<open>The fields \<open>F\<close> of the record: those up to \<open>parse_high_water\<close> are there, the others are those of the rest of the text.\<close>

definition unparsed :: "fields_state \<Rightarrow> nat" where
  "unparsed s = (if parse_high_water s = 0 then 0 else parse_extent s)"

definition slices_in :: "nat \<Rightarrow> fld list \<Rightarrow> bool" where
  "slices_in n fs \<longleftrightarrow> (\<forall>p l. Slice p l \<in> set fs \<longrightarrow> l = 0 \<or> p + l \<le> n)"

lemma slices_in_simps [simp]: "slices_in n []"
  "slices_in n (fs @ gs) \<longleftrightarrow> slices_in n fs \<and> slices_in n gs" "slices_in n (replicate k (Own t))"
  by (auto simp: slices_in_def)

lemma in_set_dropD_le: "f \<in> set (drop b xs) \<Longrightarrow> a \<le> b \<Longrightarrow> f \<in> set (drop a xs)"
  using set_drop_subset_set_drop[of a b xs] by auto

lemma slices_in_take: "slices_in n fs \<Longrightarrow> slices_in n (take k fs)"
  by (auto simp: slices_in_def dest: in_set_takeD)

lemma slices_in_drop: "slices_in n fs \<Longrightarrow> slices_in n (drop k fs)"
  by (auto simp: slices_in_def dest: in_set_dropD)

lemma slices_in_map: "\<forall>(p, l) \<in> set sl. p + l \<le> n \<Longrightarrow> slices_in n (map (\<lambda>(p, l). Slice p l) sl)"
  by (auto simp: slices_in_def)

lemma slices_in_put: "slices_in n fs \<Longrightarrow> slices_in n (fs[i := Own t])"
  using set_update_subset_insert[of fs i "Own t"] by (auto simp: slices_in_def)

lemma slices_in_null: "\<forall>f \<in> set fs. f = Null \<Longrightarrow> slices_in n fs"
  by (auto simp: slices_in_def)

text \<open>The separator that \<open>set_FS\<close> saw last.\<close>

definition split_fs :: "fields_state \<Rightarrow> u8 list" where
  "split_fs s = the (prev_fs s)"

definition holds_fields :: "awk_env \<Rightarrow> fields_state \<Rightarrow> u8 list list \<Rightarrow> bool" where
  "holds_fields E s F \<longleftrightarrow>
     len0 s < length (block s) \<and> \<not> RS_is_null s \<and> simple_fs (split_fs s) \<and> parse_field s = parser_of E (split_fs s) \<and>
     prev_fs s \<noteq> None \<and> (\<not> resave_fs s \<longrightarrow> save_FS s = split_fs s) \<and>
     parse_high_water s \<le> length (fields_arr s) \<and> parse_high_water s \<le> length F \<and> length F < UNLIMITED - 1 \<and>
     map (fld_text (block s)) (take (parse_high_water s) (fields_arr s)) = take (parse_high_water s) F \<and>
     (\<forall>f \<in> set (drop (parse_high_water s) (fields_arr s)). f = Null) \<and> slices_in (len0 s) (fields_arr s) \<and>
     (if NF s = -1
      then \<not> resave_fs s \<and> unparsed s \<le> len0 s \<and>
        awk_split E (split_fs s) (text_at (block s) (unparsed s) (len0 s - unparsed s)) = drop (parse_high_water s) F
      else NF s = int (length F) \<and> parse_high_water s = length F)"

lemma take_conv_append: "take k F = A \<Longrightarrow> k \<le> length F \<Longrightarrow> B @ C = drop k F \<Longrightarrow> length A = k \<Longrightarrow>
    take (k + length B) F = A @ B \<and> drop (k + length B) F = C \<and> k + length B \<le> length F"
  by (metis append_assoc append_eq_conv_conj append_take_drop_id drop_drop add.commute length_append le_add1)

text \<open>Parsing more of the record changes nothing else.\<close>

definition parse_frame :: "fields_state \<Rightarrow> fields_state \<Rightarrow> bool" where
  "parse_frame s s1 \<longleftrightarrow> s1 = s\<lparr>fields_arr := fields_arr s1, parse_extent := parse_extent s1, parse_high_water := parse_high_water s1\<rparr>"

lemma parse_more_ok:
  assumes h: "holds_fields E s F" and "NF s = -1" and "up_to < UNLIMITED" and "parse_extent s = unparsed s"
  shows "\<exists>s1. parse_more E up_to mid s = Some s1 \<and> block s1 = block s \<and> len0 s1 = len0 s \<and>
    parse_frame s s1 \<and> parse_high_water s1 \<le> length (fields_arr s1) \<and> parse_high_water s1 \<le> length F \<and>
    map (fld_text (block s1)) (take (parse_high_water s1) (fields_arr s1)) = take (parse_high_water s1) F \<and>
    (\<forall>f \<in> set (drop (parse_high_water s1) (fields_arr s1)). f = Null) \<and> parse_extent s1 \<le> len0 s \<and>
    awk_split E (split_fs s) (text_at (block s) (parse_extent s1) (len0 s - parse_extent s1)) = drop (parse_high_water s1) F \<and>
    (parse_high_water s1 < up_to \<longrightarrow> parse_extent s1 = len0 s) \<and> parse_high_water s \<le> parse_high_water s1 \<and>
    slices_in (len0 s) (fields_arr s1)"
proof -
  have hd: "len0 s < length (block s)" "\<not> RS_is_null s" "simple_fs (split_fs s)" "parse_field s = parser_of E (split_fs s)"
    "save_FS s = split_fs s" "parse_high_water s \<le> length (fields_arr s)" "parse_high_water s \<le> length F"
    "map (fld_text (block s)) (take (parse_high_water s) (fields_arr s)) = take (parse_high_water s) F"
    "\<forall>f \<in> set (drop (parse_high_water s) (fields_arr s)). f = Null" "parse_extent s \<le> len0 s"
    "awk_split E (split_fs s) (text_at (block s) (parse_extent s) (len0 s - parse_extent s)) = drop (parse_high_water s) F"
    "slices_in (len0 s) (fields_arr s)"
    using h assms(2,4) by (auto simp: holds_fields_def)
  let ?hw = "parse_high_water s" and ?p = "parse_extent s"
  have e: "?p + (len0 s - ?p) = len0 s" using hd(10) by simp
  have st: "start_nf up_to ?hw = ?hw" using assms(3) by (simp add: start_nf_def)
  have "sets_fields (\<lambda>(setf :: fields_state setfunc) st. run_parser E s setf up_to (block s) ?p (len0 s - ?p) (split_fs s) mid ?hw st)
      (awk_split E (split_fs s)) (block s) ?p (len0 s) ?hw (up_to - ?hw)"
    using run_parser_law[OF hd(3,4,2), of ?p "len0 s - ?p" "block s" up_to mid ?hw] hd(1) unfolding e st by simp
  then obtain sl p where
    r: "run_parser E s set_field up_to (block s) ?p (len0 s - ?p) (split_fs s) mid ?hw s =
      map_option (\<lambda>st'. (?hw + length sl, p, block s, st')) (set_all set_field ?hw sl s)"
    and ok: "step_ok (awk_split E (split_fs s)) (block s) ?p (len0 s) (up_to - ?hw) sl p"
    unfolding sets_fields_def by auto
  let ?fa = "take ?hw (fields_arr s) @ map (\<lambda>(p, l). Slice p l) sl @ drop (?hw + length sl) (fields_arr s)"
  let ?s1 = "s\<lparr>fields_arr := ?fa, block := block s, parse_extent := p, parse_high_water := ?hw + length sl\<rparr>"
  have run: "parse_more E up_to mid s = Some ?s1"
    using r hd(5,10) set_all_set_field[OF hd(6), of sl] by (simp add: parse_more_def)
  have tx: "texts (block s) sl @ awk_split E (split_fs s) (text_at (block s) p (len0 s - p)) = drop ?hw F"
    using step_okD(3)[OF ok] hd(11) by simp
  have "length (take ?hw F) = ?hw" using hd(7) by simp
  from take_conv_append[OF refl hd(7) tx this] have F: "take (?hw + length sl) F = take ?hw F @ texts (block s) sl"
    "awk_split E (split_fs s) (text_at (block s) p (len0 s - p)) = drop (?hw + length sl) F" "?hw + length sl \<le> length F" by auto
  have len: "length (take ?hw (fields_arr s)) = ?hw" using hd(6) by simp
  have "map (fld_text (block s)) (map (\<lambda>(p, l). Slice p l) sl) = texts (block s) sl" by (auto simp: fld_text_def)
  then have "map (fld_text (block s)) (take (?hw + length sl) ?fa) = take (?hw + length sl) F"
    unfolding F(1) using hd(8) len by simp
  moreover have "\<forall>f \<in> set (drop (?hw + length sl) ?fa). f = Null" using hd(9) len set_drop_subset_set_drop[of ?hw "?hw + length sl" "fields_arr s"] by auto
  moreover have "?hw + length sl < up_to \<Longrightarrow> p = len0 s" using step_okD(5)[OF ok] by simp
  moreover have "p \<le> len0 s" using step_okD(2)[OF ok] .
  moreover have "slices_in (len0 s) ?fa"
    using step_okD(4)[OF ok] hd(12) by (auto simp: slices_in_map slices_in_take slices_in_drop)
  ultimately show ?thesis using run F(2,3) len by (intro exI[of _ ?s1]) (simp add: parse_frame_def)
qed

text \<open>The step of \<open>get_field\<close> that parses up to a field.\<close>

definition parse_to :: "awk_env \<Rightarrow> nat \<Rightarrow> fields_state \<Rightarrow> fields_state option" where
  "parse_to E n s = do {
     s1 \<leftarrow> (if parse_high_water s = 0 then parse_more E n False (s\<lparr>parse_extent := 0\<rparr>) else parse_more E n True s);
     Some (if parse_extent s1 = len0 s1 then s1\<lparr>NF := int (parse_high_water s1)\<rparr> else s1) }"

text \<open>What parsing leaves as it is.\<close>

definition same_record :: "fields_state \<Rightarrow> fields_state \<Rightarrow> bool" where
  "same_record s s1 \<longleftrightarrow> block s1 = block s \<and> len0 s1 = len0 s \<and> field0_valid s1 = field0_valid s \<and> parse_high_water s \<le> parse_high_water s1 \<and>
     resave_fs s1 = resave_fs s \<and> fs_value s1 = fs_value s \<and> prev_rs s1 = prev_rs s \<and> rs_value s1 = rs_value s \<and> prev_fs s1 = prev_fs s \<and> FIELDWIDTHS s1 = FIELDWIDTHS s \<and>
     save_FS s1 = save_FS s \<and> databuf s1 = databuf s \<and> (NF s1 = -1 \<longrightarrow> NF s = -1)"

lemma same_record_refl [simp]: "same_record s s"
  by (simp add: same_record_def)

lemma parse_frameD:
  assumes "parse_frame s s1"
  shows "parse_high_water s \<le> parse_high_water s1 \<Longrightarrow> same_record s s1" "NF s1 = NF s" "parse_field s1 = parse_field s" "prev_fs s1 = prev_fs s"
proof -
  obtain a b c where s1: "s1 = s\<lparr>fields_arr := a, parse_extent := b, parse_high_water := c\<rparr>"
    using assms unfolding parse_frame_def by blast
  show "parse_high_water s \<le> parse_high_water s1 \<Longrightarrow> same_record s s1" "NF s1 = NF s" "parse_field s1 = parse_field s" "prev_fs s1 = prev_fs s"
    unfolding s1 same_record_def by simp_all
qed

lemma holds_fields_cong:
  assumes "holds_fields E s F" and "s' = s\<lparr>parse_extent := x\<rparr>" and "NF s = -1 \<longrightarrow> parse_high_water s = 0"
  shows "holds_fields E s' F"
  using assms by (auto simp: holds_fields_def unparsed_def split_fs_def)

lemma parse_step:
  assumes "holds_fields E s F" and "NF s = -1" and "n < UNLIMITED" and "parse_extent s = unparsed s"
  shows "\<exists>s1 s2. parse_more E n mid s = Some s1 \<and> s2 = (if parse_extent s1 = len0 s1 then s1\<lparr>NF := int (parse_high_water s1)\<rparr> else s1) \<and>
    holds_fields E s2 F \<and> same_record s s2 \<and> (parse_high_water s2 < n \<longrightarrow> NF s2 \<noteq> -1) \<and>
    (n = UNLIMITED - 1 \<longrightarrow> parse_high_water s1 = length F)"
proof -
  from parse_more_ok[OF assms, of mid] obtain s1 where p: "parse_more E n mid s = Some s1" "block s1 = block s" "len0 s1 = len0 s"
    "parse_frame s s1" "parse_high_water s1 \<le> length (fields_arr s1)" "parse_high_water s1 \<le> length F"
    "map (fld_text (block s1)) (take (parse_high_water s1) (fields_arr s1)) = take (parse_high_water s1) F"
    "\<forall>f \<in> set (drop (parse_high_water s1) (fields_arr s1)). f = Null" "parse_extent s1 \<le> len0 s"
    "awk_split E (split_fs s) (text_at (block s) (parse_extent s1) (len0 s - parse_extent s1)) = drop (parse_high_water s1) F"
    "parse_high_water s1 < n \<longrightarrow> parse_extent s1 = len0 s" "parse_high_water s \<le> parse_high_water s1" "slices_in (len0 s) (fields_arr s1)" by auto
  have same: "same_record s s1" "NF s1 = NF s" "parse_field s1 = parse_field s" "prev_fs s1 = prev_fs s"
    using parse_frameD[OF p(4)] p(12) by simp_all
  have all: "parse_high_water s1 = length F" if "parse_extent s1 = len0 s"
    using p(6,10) that by simp
  have h0: "len0 s < length (block s)" "\<not> RS_is_null s" "simple_fs (split_fs s)" "parse_field s = parser_of E (split_fs s)"
    "prev_fs s \<noteq> None" "\<not> resave_fs s" "save_FS s = split_fs s" "length F < UNLIMITED - 1"
    using assms(1,2) by (auto simp: holds_fields_def)
  show ?thesis
  proof (cases "parse_extent s1 = len0 s")
    case True
    have "holds_fields E (s1\<lparr>NF := int (parse_high_water s1)\<rparr>) F"
      using h0 p(5-8,13) same all[OF True] by (simp add: holds_fields_def split_fs_def same_record_def split_fs_def)
    then show ?thesis using p(1,3) True same all by (simp add: same_record_def)
  next
    case False
    then have n: "\<not> parse_high_water s1 < n" using p(11) by simp
    have un: "unparsed s1 = parse_extent s1" if "0 < n" using n that by (simp add: unparsed_def)
    have "n \<noteq> UNLIMITED - 1" using n p(6) h0(8) by linarith
    moreover have "holds_fields E s1 F"
    proof (cases "parse_high_water s1 = 0")
      case True
      then have "unparsed s1 = 0" "unparsed s = 0" using p(12) by (auto simp: unparsed_def)
      then show ?thesis using assms(1,2) p(2,3,5-8,13) same True by (simp add: holds_fields_def split_fs_def same_record_def split_fs_def)
    next
      case False
      then have "unparsed s1 = parse_extent s1" by (simp add: unparsed_def)
      then show ?thesis using h0 p(2,3,5-10,13) same assms(2) by (simp add: holds_fields_def split_fs_def same_record_def split_fs_def)
    qed
    ultimately show ?thesis using p(1,3) False same n by simp
  qed
qed

lemma parse_to_ok:
  assumes "holds_fields E s F" and "NF s = -1" and "n < UNLIMITED"
  shows "\<exists>s2. parse_to E n s = Some s2 \<and> holds_fields E s2 F \<and> same_record s s2 \<and> (parse_high_water s2 < n \<longrightarrow> NF s2 \<noteq> -1) \<and>
    (n = UNLIMITED - 1 \<longrightarrow> parse_high_water s2 = length F \<and> NF s2 \<noteq> -1)"
proof -
  define s' where "s' = (if parse_high_water s = 0 then s\<lparr>parse_extent := 0\<rparr> else s)"
  have h: "holds_fields E s' F" using holds_fields_cong[OF assms(1), of "s\<lparr>parse_extent := 0\<rparr>" 0] assms(1) by (simp add: s'_def)
  have s': "NF s' = -1" "parse_extent s' = unparsed s'" "same_record s s'" using assms(2) by (simp_all add: s'_def unparsed_def same_record_def)
  from parse_step[OF h s'(1) assms(3) s'(2), of "parse_high_water s \<noteq> 0"] obtain s1 s2 where
    p: "parse_more E n (parse_high_water s \<noteq> 0) s' = Some s1" "s2 = (if parse_extent s1 = len0 s1 then s1\<lparr>NF := int (parse_high_water s1)\<rparr> else s1)"
    "holds_fields E s2 F" "same_record s' s2" "parse_high_water s2 < n \<longrightarrow> NF s2 \<noteq> -1" "n = UNLIMITED - 1 \<longrightarrow> parse_high_water s1 = length F" by blast
  have "parse_to E n s = Some s2" using p(1,2) by (simp add: parse_to_def s'_def split: if_splits)
  moreover have "same_record s s2" using p(4) s'(3) by (auto simp: same_record_def)
  moreover have "n = UNLIMITED - 1 \<Longrightarrow> parse_high_water s2 = length F \<and> NF s2 \<noteq> -1"
  proof -
    assume n: "n = UNLIMITED - 1"
    then have "parse_high_water s2 = length F" using p(2,6) by auto
    moreover have "length F < n" using assms(1) n by (simp add: holds_fields_def split_fs_def)
    ultimately show ?thesis using p(5) by simp
  qed
  ultimately show ?thesis using p(3,5) by blast
qed

lemma get_field_unfold:
  assumes "0 < n"
  shows "get_field E n assign s0 = (let s = (if assign then s0\<lparr>field0_valid := False\<rparr> else s0)
        in if n \<le> parse_high_water s then Some (Field n, s)
           else do {
             s2 \<leftarrow> (if NF s = -1 then parse_to E n s else Some s);
             let req = (if NF s = -1 \<and> n = UNLIMITED - 1 then parse_high_water s2 else n);
             if parse_high_water s2 < req then
               (if assign then
                  let s3 = (if req > length (fields_arr s2) then grow_fields_arr req s2 else s2)
                  in Some (Field req, s3\<lparr>NF := int req, parse_high_water := req\<rparr>)
                else Some (Null_field, s2))
             else Some (Field req, s2) })"
  using assms unfolding get_field_def parse_to_def by (auto simp: Let_def split: bind_splits)

lemma holds_fields_field0 [simp]: "holds_fields E (s\<lparr>field0_valid := b\<rparr>) F = holds_fields E s F"
  by (simp add: holds_fields_def split_fs_def unparsed_def)

lemma holds_fields_databuf [simp]: "holds_fields E (s\<lparr>databuf := b\<rparr>) F = holds_fields E s F"
  by (simp add: holds_fields_def unparsed_def split_fs_def)

lemma holds_fields_fs_value [simp]: "holds_fields E (s\<lparr>fs_value := v\<rparr>) F = holds_fields E s F"
  by (simp add: holds_fields_def unparsed_def split_fs_def)

lemma holds_fields_FS_regexp [simp]: "holds_fields E (s\<lparr>FS_regexp := x\<rparr>) F = holds_fields E s F"
  by (simp add: holds_fields_def unparsed_def split_fs_def)

lemma holds_fields_high_water:
  assumes "holds_fields E s F"
  shows "parse_high_water s \<le> length F" "parse_high_water s \<le> length (fields_arr s)"
    "NF s \<noteq> -1 \<Longrightarrow> parse_high_water s = length F \<and> NF s = int (length F)" "length F < UNLIMITED - 1"
    "n < parse_high_water s \<Longrightarrow> fld_text (block s) (fields_arr s ! n) = F ! n"
proof -
  show "parse_high_water s \<le> length F" "parse_high_water s \<le> length (fields_arr s)" "length F < UNLIMITED - 1"
    "NF s \<noteq> -1 \<Longrightarrow> parse_high_water s = length F \<and> NF s = int (length F)"
    using assms by (simp_all add: holds_fields_def)
  assume n: "n < parse_high_water s"
  then have "map (fld_text (block s)) (take (parse_high_water s) (fields_arr s)) ! n = take (parse_high_water s) F ! n"
    using assms by (simp add: holds_fields_def split_fs_def)
  moreover have "parse_high_water s \<le> length (fields_arr s)" "parse_high_water s \<le> length F"
    using assms by (simp_all add: holds_fields_def)
  ultimately show "fld_text (block s) (fields_arr s ! n) = F ! n"
    using n by simp
qed

text \<open>A field that is read.\<close>

definition field_of :: "u8 list list \<Rightarrow> nat \<Rightarrow> u8 list" where
  "field_of F n = (if n \<le> length F then F ! (n - 1) else [])"

lemma get_field_ref:
  assumes "holds_fields E s F" and "0 < n" and "n < UNLIMITED - 1"
  shows "\<exists>r s1. get_field E n False s = Some (r, s1) \<and> holds_fields E s1 F \<and> same_record s s1 \<and> ref_text s1 r = Some (field_of F n)"
proof -
  have there: "ref_text s' (Field n) = Some (field_of F n)" if "n \<le> parse_high_water s'" "holds_fields E s' F" for s'
    using holds_fields_high_water[OF that(2)] holds_fields_high_water(5)[OF that(2), of "n - 1"] that(1) assms(2)
    by (simp add: ref_text_def rd_at_def field_of_def)
  have finish: ?thesis if s2: "(if NF s = -1 then parse_to E n s else Some s) = Some s2" "holds_fields E s2 F" "same_record s s2"
      "parse_high_water s2 < n \<longrightarrow> NF s2 \<noteq> -1" and "\<not> n \<le> parse_high_water s" for s2
  proof (cases "parse_high_water s2 < n")
    case True
    then have "length F < n" using s2(4) holds_fields_high_water(3)[OF s2(2)] by simp
    moreover have "get_field E n False s = Some (Null_field, s2)"
      using that(5) s2(1) assms(2,3) True by (simp add: get_field_unfold Let_def)
    ultimately show ?thesis using s2(2,3) by (auto simp: ref_text_def field_of_def)
  next
    case False
    then have "get_field E n False s = Some (Field n, s2)"
      using that(5) s2(1) assms(2,3) by (simp add: get_field_unfold Let_def)
    then show ?thesis using s2(2,3) there[of s2] False by simp
  qed
  show ?thesis
  proof (cases "n \<le> parse_high_water s")
    case True
    then have "get_field E n False s = Some (Field n, s)" using assms(2) by (simp add: get_field_unfold)
    then show ?thesis using there[OF True assms(1)] assms(1) by simp
  next
    case False
    show ?thesis
    proof (cases "NF s = -1")
      case True
      have "n < UNLIMITED" using assms(3) by simp
      from parse_to_ok[OF assms(1) True this] show ?thesis using finish True False by auto
    next
      case NF: False
      then show ?thesis using finish[of s] assms(1) False by simp
    qed
  qed
qed

section \<open>Assignment to a field\<close>

definition pad_to :: "nat \<Rightarrow> u8 list list \<Rightarrow> u8 list list" where
  "pad_to n F = F @ replicate (n - length F) []"

lemma pad_to_id [simp]: "n \<le> length F \<Longrightarrow> pad_to n F = F"
  by (simp add: pad_to_def)

text \<open>What an assignment to a field or to \<open>NF\<close> leaves as it is.\<close>

definition same_source :: "fields_state \<Rightarrow> fields_state \<Rightarrow> bool" where
  "same_source s s1 \<longleftrightarrow> block s1 = block s \<and> len0 s1 = len0 s \<and> fs_value s1 = fs_value s \<and> rs_value s1 = rs_value s \<and>
     prev_rs s1 = prev_rs s \<and> prev_fs s1 = prev_fs s \<and> resave_fs s1 = resave_fs s \<and> databuf s1 = databuf s"

lemma same_record_source: "same_record s s1 \<Longrightarrow> same_source s s1"
  by (simp add: same_record_def same_source_def)

lemma holds_fields_grow:
  assumes h: "holds_fields E s F" and "NF s \<noteq> -1" and n: "length F < n" "n < UNLIMITED - 1"
  shows "holds_fields E ((if n > length (fields_arr s) then grow_fields_arr n s else s)\<lparr>NF := int n, parse_high_water := n\<rparr>) (pad_to n F)"
proof -
  let ?fa = "fields_arr s @ replicate (n - length (fields_arr s)) Null"
  let ?s = "s\<lparr>fields_arr := ?fa, NF := int n, parse_high_water := n\<rparr>"
  have e: "(if n > length (fields_arr s) then grow_fields_arr n s else s)\<lparr>NF := int n, parse_high_water := n\<rparr> = ?s"
    by (simp add: grow_fields_arr_def)
  have hw: "parse_high_water s = length F" "length F \<le> length (fields_arr s)"
    using holds_fields_high_water[OF h] assms(2) by auto
  have null: "\<forall>f \<in> set (drop (length F) ?fa). f = Null" using h hw by (auto simp: holds_fields_def)
  have len: "n \<le> length ?fa" by simp
  have split: "take n ?fa = take (length F) ?fa @ take (n - length F) (drop (length F) ?fa)"
    using n(1) take_add[of "length F" "n - length F" ?fa] by simp
  have "take (n - length F) (drop (length F) ?fa) = replicate (n - length F) Null"
    by (rule replicate_eqI) (use null len n(1) in \<open>auto dest: in_set_takeD\<close>)
  moreover have "map (fld_text (block s)) (take (length F) ?fa) = F" using h hw by (simp add: holds_fields_def split_fs_def)
  ultimately have "map (fld_text (block s)) (take n ?fa) = pad_to n F"
    using split by (simp add: pad_to_def fld_text_def map_replicate_const)
  moreover have "\<forall>f \<in> set (drop n ?fa). f = Null"
    using null set_drop_subset_set_drop[of "length F" n ?fa] n(1) by auto
  ultimately show ?thesis unfolding e using h n by (simp add: holds_fields_def split_fs_def pad_to_def)
qed

lemma get_field_lhs:
  assumes "holds_fields E s F" and "0 < n" and "n < UNLIMITED - 1"
  shows "\<exists>s1. get_field E n True s = Some (Field n, s1) \<and> holds_fields E s1 (pad_to n F) \<and> same_source s s1 \<and>
    \<not> field0_valid s1 \<and> n \<le> parse_high_water s1"
proof -
  let ?s = "s\<lparr>field0_valid := False\<rparr>"
  have h: "holds_fields E ?s F" using assms(1) by simp
  have src: "same_source s ?s" by (simp add: same_source_def)
  show ?thesis
  proof (cases "n \<le> parse_high_water s")
    case True
    then have "get_field E n True s = Some (Field n, ?s)" using assms(2) by (simp add: get_field_unfold)
    then show ?thesis using h True src holds_fields_high_water(1)[OF h] by simp
  next
    case False
    have finish: ?thesis if s2: "(if NF s = -1 then parse_to E n ?s else Some ?s) = Some s2" "holds_fields E s2 F" "same_record ?s s2"
        "parse_high_water s2 < n \<longrightarrow> NF s2 \<noteq> -1" for s2
    proof (cases "parse_high_water s2 < n")
      case True
      then have NF: "NF s2 \<noteq> -1" and F: "length F < n" using s2(4) holds_fields_high_water(3)[OF s2(2)] by auto
      let ?s3 = "(if n > length (fields_arr s2) then grow_fields_arr n s2 else s2)\<lparr>NF := int n, parse_high_water := n\<rparr>"
      have "get_field E n True s = Some (Field n, ?s3)"
        using False s2(1) assms(2,3) True by (simp add: get_field_unfold Let_def)
      moreover have "same_source s ?s3" "\<not> field0_valid ?s3" "parse_high_water ?s3 = n"
        using s2(3) by (auto simp: same_source_def same_record_def grow_fields_arr_def)
      ultimately show ?thesis using holds_fields_grow[OF s2(2) NF F assms(3)] by auto
    next
      case False
      then have "get_field E n True s = Some (Field n, s2)"
        using \<open>\<not> n \<le> parse_high_water s\<close> s2(1) assms(2,3) by (simp add: get_field_unfold Let_def)
      moreover have "same_source s s2" "\<not> field0_valid s2" using s2(3) by (auto simp: same_source_def same_record_def)
      ultimately show ?thesis using s2(2) False holds_fields_high_water(1)[OF s2(2)] by simp
    qed
    show ?thesis
    proof (cases "NF s = -1")
      case True
      have "n < UNLIMITED" "NF ?s = -1" using assms(3) True by simp_all
      from parse_to_ok[OF h this(2,1)] show ?thesis using finish True by auto
    next
      case NF: False
      then show ?thesis using finish[of ?s] h False by simp
    qed
  qed
qed

lemma holds_fields_put:
  assumes "holds_fields E s F" and "i < parse_high_water s"
  shows "holds_fields E (s\<lparr>fields_arr := (fields_arr s)[i := Own v]\<rparr>) (F[i := v])"
proof -
  have "map (fld_text (block s)) (take (parse_high_water s) ((fields_arr s)[i := Own v])) =
      (map (fld_text (block s)) (take (parse_high_water s) (fields_arr s)))[i := v]"
    by (simp add: take_update_swap map_update fld_text_def)
  also have "\<dots> = take (parse_high_water s) (F[i := v])" using assms(1) by (simp add: holds_fields_def split_fs_def take_update_swap)
  finally have "map (fld_text (block s)) (take (parse_high_water s) ((fields_arr s)[i := Own v])) = take (parse_high_water s) (F[i := v])" .
  moreover have "unparsed (s\<lparr>fields_arr := (fields_arr s)[i := Own v]\<rparr>) = unparsed s"
    "split_fs (s\<lparr>fields_arr := (fields_arr s)[i := Own v]\<rparr>) = split_fs s" by (simp_all add: unparsed_def split_fs_def)
  ultimately show ?thesis using assms by (simp add: holds_fields_def drop_update_cancel slices_in_put)
qed


section \<open>Putting the record together again\<close>

lemma fld_text_Nil:
  assumes "fld_text blk f = []" and "slices_in n [f]" and "n \<le> length blk"
  shows "fld_text blk' f = []" and "slices_in m [f]"
proof -
  have "f = Null \<or> (\<exists>p. f = Slice p 0)"
  proof (cases f)
    case (Slice p l)
    have "l = 0"
    proof (rule ccontr)
      assume l: "l \<noteq> 0"
      then have "p + l \<le> length blk" using assms(2,3) Slice by (auto simp: slices_in_def)
      then have "length (text_at blk p l) = l" by simp
      then show False using assms(1) Slice l by (simp add: fld_text_def)
    qed
    then show ?thesis using Slice by simp
  qed (use assms(1) in \<open>simp add: fld_text_def\<close>)
  then show "fld_text blk' f = []" "slices_in m [f]" by (auto simp: fld_text_def slices_in_def)
qed

lemma text_at_middle [simp]: "text_at (pre @ t @ post) (length pre) (length t) = t"
  by (simp add: text_at_def)

lemma slices_in_Cons: "slices_in n (f # fs) \<longleftrightarrow> slices_in n [f] \<and> slices_in n fs"
  by (auto simp: slices_in_def)

lemma point_into_ok:
  assumes "n \<le> length old" and "slices_in n fs" and "ts = map (fld_text old) fs"
  shows "map (fld_text (pre @ join ofs ts @ post)) (point_into (length ofs) (length pre) (zip fs ts)) = ts \<and>
    slices_in (length pre + length (join ofs ts)) (point_into (length ofs) (length pre) (zip fs ts))"
  using assms(2,3)
proof (induction fs arbitrary: ts pre)
  case (Cons f fs)
  let ?t = "fld_text old f"
  obtain ts' where ts: "ts = ?t # ts'" "ts' = map (fld_text old) fs" using Cons.prems by simp
  have sl: "slices_in n [f]" "slices_in n fs" using Cons.prems(1) unfolding slices_in_Cons[of n f fs] by simp_all
  let ?f = "if length ?t > 0 then Slice (length pre) (length ?t) else f"
  have f: "fld_text (pre @ ?t @ post') ?f = ?t" "slices_in (length pre + length ?t + k) [?f]" for post' k
    using fld_text_Nil[OF _ sl(1) assms(1)] by (auto simp: slices_in_def fld_text_def[of _ "Slice _ _"])
  show ?case
  proof (cases fs)
    case Nil
    then show ?thesis using f(1)[of post] f(2)[of 0] ts by simp
  next
    case (Cons g gs)
    then have ne: "ts' \<noteq> []" using ts(2) by simp
    have j: "join ofs ts = ?t @ ofs @ join ofs ts'" using ts(1) join_Cons[OF ne] by simp
    have "map (fld_text ((pre @ ?t @ ofs) @ join ofs ts' @ post)) (point_into (length ofs) (length (pre @ ?t @ ofs)) (zip fs ts')) = ts' \<and>
      slices_in (length (pre @ ?t @ ofs) + length (join ofs ts')) (point_into (length ofs) (length (pre @ ?t @ ofs)) (zip fs ts'))"
      by (rule Cons.IH[OF sl(2) ts(2)])
    then show ?thesis
      using f(1)[of "ofs @ join ofs ts' @ post"] f(2)[of "length ofs + length (join ofs ts')"] ts(1) j
        slices_in_Cons[of _ ?f "point_into (length ofs) (length (pre @ ?t @ ofs)) (zip fs ts')"]
      by (simp add: add.assoc)
  qed
qed simp

lemma length_point_into [simp]: "length (point_into k p xs) = length xs"
  by (induction xs arbitrary: p) auto

text \<open>What \<open>rebuild_record\<close> and the operations that set \<open>$0\<close> leave as it is.\<close>

definition same_settings :: "fields_state \<Rightarrow> fields_state \<Rightarrow> bool" where
  "same_settings s s1 \<longleftrightarrow> fs_value s1 = fs_value s \<and> rs_value s1 = rs_value s \<and> prev_rs s1 = prev_rs s \<and> prev_fs s1 = prev_fs s"

lemma same_source_settings: "same_source s s1 \<Longrightarrow> same_settings s s1"
  by (simp add: same_source_def same_settings_def)

lemma rebuild_record_ok:
  assumes h: "holds_fields E s F" and "NF s \<noteq> -1"
  shows "\<exists>s1. rebuild_record E s = Some s1 \<and> holds_fields E s1 F \<and> same_settings s s1 \<and> field0_valid s1 \<and>
    text_at (block s1) 0 (len0 s1) = join (ofs_value E) F \<and> NF s1 = NF s"
proof -
  have n: "parse_high_water s = length F" "NF s = int (length F)" "length F \<le> length (fields_arr s)"
    using holds_fields_high_water[OF h] assms(2) by auto
  let ?fs = "take (length F) (fields_arr s)" and ?ops = "join (ofs_value E) F"
  have F: "map (fld_text (block s)) ?fs = F" and sl: "slices_in (len0 s) ?fs" and len: "len0 s \<le> length (block s)"
    and null: "\<forall>f \<in> set (drop (length F) (fields_arr s)). f = Null"
    using h n by (simp_all add: holds_fields_def slices_in_take)
  let ?fa = "point_into (length (ofs_value E)) 0 (zip ?fs F) @ drop (length F) (fields_arr s)"
  let ?s1 = "s\<lparr>block := ?ops @ [0], len0 := length ?ops, fields_arr := ?fa, field0_valid := True\<rparr>"
  have r: "rebuild_record E s = Some ?s1" using n F by (simp add: rebuild_record_def Let_def)
  have p: "map (fld_text (?ops @ [0])) (point_into (length (ofs_value E)) 0 (zip ?fs F)) = F"
    "slices_in (length ?ops) (point_into (length (ofs_value E)) 0 (zip ?fs F))"
    using point_into_ok[OF len sl F[symmetric], of "[]" "ofs_value E" "[0]"] by simp_all
  have "slices_in (length ?ops) (drop (length F) (fields_arr s))" using null by (rule slices_in_null)
  then have "holds_fields E ?s1 F" using h n p null by (simp add: holds_fields_def split_fs_def)
  then show ?thesis using r n(2) by (intro exI[of _ ?s1]) (simp add: same_settings_def text_at_def)
qed

lemma get_field_0:
  assumes h: "holds_fields E s F" and "\<not> field0_valid s" and "NF s = -1 \<longrightarrow> 0 < parse_high_water s"
  shows "\<exists>s1. get_field E 0 assign s = Some (Field 0, s1) \<and> holds_fields E s1 F \<and> same_settings s s1 \<and> field0_valid s1 \<and>
    text_at (block s1) 0 (len0 s1) = join (ofs_value E) F \<and> NF s1 \<noteq> -1"
proof (cases "NF s = -1")
  case True
  have "UNLIMITED - 1 < UNLIMITED" "parse_extent s = unparsed s" using assms(3) True by (simp_all add: UNLIMITED_def unparsed_def)
  from parse_step[OF h True this, of False] obtain s1 s2 where p: "parse_more E (UNLIMITED - 1) False s = Some s1"
    "s2 = (if parse_extent s1 = len0 s1 then s1\<lparr>NF := int (parse_high_water s1)\<rparr> else s1)" "holds_fields E s2 F" "same_record s s2"
    "parse_high_water s2 < UNLIMITED - 1 \<longrightarrow> NF s2 \<noteq> -1" "parse_high_water s1 = length F" by auto
  have "NF s2 = int (parse_high_water s1)" "NF s2 \<noteq> -1"
    using p(2,5,6) holds_fields_high_water[OF p(3)] by (auto split: if_splits)
  then have s2: "s2 = s1\<lparr>NF := int (parse_high_water s1)\<rparr>" using p(2) by (cases "parse_extent s1 = len0 s1") auto
  from rebuild_record_ok[OF p(3) \<open>NF s2 \<noteq> -1\<close>] obtain s3 where r: "rebuild_record E s2 = Some s3" "holds_fields E s3 F"
    "same_settings s2 s3" "field0_valid s3" "text_at (block s3) 0 (len0 s3) = join (ofs_value E) F" "NF s3 = NF s2" by blast
  have "get_field E 0 assign s = Some (Field 0, s3)" using assms(2) True p(1) r(1) s2 by (simp add: get_field_def)
  moreover have "same_settings s s3" using p(4) r(3) by (simp add: same_record_def same_settings_def)
  ultimately show ?thesis using r \<open>NF s2 \<noteq> -1\<close> by auto
next
  case False
  from rebuild_record_ok[OF h False] show ?thesis using assms(2) False by (auto simp: get_field_def)
qed


section \<open>A new value of the record\<close>

text \<open>
  The record as a whole: the fields \<open>F\<close>, and the text \<open>t\<close> of \<open>$0\<close>, which is in the block or will be put together;
  \<open>fs\<close> is the separator for the next record.
\<close>

definition holds_record :: "awk_env \<Rightarrow> fields_state \<Rightarrow> u8 list \<Rightarrow> u8 list list \<Rightarrow> u8 list \<Rightarrow> bool" where
  "holds_record E s t F fs \<longleftrightarrow>
     holds_fields E s F \<and> fs_value s = fs \<and> prev_fs s = Some fs \<and> prev_rs s = Some (rs_value s) \<and>
     (if field0_valid s then text_at (block s) 0 (len0 s) = t
      else t = join (ofs_value E) F \<and> (NF s = -1 \<longrightarrow> 0 < parse_high_water s))"

lemma reset_record_ok:
  assumes h: "holds_fields E s F" and "prev_fs s = Some (fs_value s)" and "n < length blk" and "length (awk_split E (fs_value s) (text_at blk 0 n)) < UNLIMITED - 1"
    and "s' = s\<lparr>block := blk, len0 := n\<rparr>"
  shows "\<exists>s1. reset_record s' = Some s1 \<and> holds_fields E s1 (awk_split E (fs_value s) (text_at blk 0 n)) \<and> same_settings s s1 \<and>
    field0_valid s1 \<and> block s1 = blk \<and> len0 s1 = n \<and> databuf s1 = databuf s"
proof -
  have hw: "parse_high_water s \<le> length (fields_arr s)" using holds_fields_high_water[OF h] by simp
  let ?fa = "replicate (parse_high_water s) Null @ drop (parse_high_water s) (fields_arr s)"
  let ?s1 = "s\<lparr>block := blk, len0 := n, NF := -1, fields_arr := ?fa, parse_high_water := 0, resave_fs := False, field0_valid := True,
    save_FS := if resave_fs s then fs_value s else save_FS s\<rparr>"
  have null: "\<forall>f \<in> set ?fa. f = Null" using h by (auto simp: holds_fields_def)
  have "reset_record s' = Some ?s1" using hw unfolding assms(5) reset_record_def by (cases "resave_fs s") (simp_all add: Let_def)
  moreover have "holds_fields E ?s1 (awk_split E (fs_value s) (text_at blk 0 n))"
  proof -
    have "save_FS ?s1 = fs_value s" using h assms(2) by (simp add: holds_fields_def split_fs_def)
    moreover have "slices_in n ?fa" using null by (rule slices_in_null)
    ultimately show ?thesis using h null assms(2-4) by (simp add: holds_fields_def split_fs_def unparsed_def)
  qed
  ultimately show ?thesis by (intro exI[of _ ?s1]) (simp add: same_settings_def)
qed

lemma databuf_size_ok: "0 < n \<Longrightarrow> cnt < databuf_size n cnt"
proof (induction n cnt rule: databuf_size.induct)
  case (1 n cnt)
  then show ?case by (subst databuf_size.simps) auto
qed

lemma new_databuf_ok: "length v < length (new_databuf db v)" "text_at (new_databuf db v) 0 (length v) = v"
proof -
  let ?db = "if db = [] then replicate INITIAL_SIZE 0 else db"
  have "0 < length ?db" by (simp add: INITIAL_SIZE_def)
  then show "length v < length (new_databuf db v)"
    using databuf_size_ok[of "length ?db" "length v"] unfolding new_databuf_def Let_def by (cases "length v \<ge> length ?db") simp_all
  show "text_at (new_databuf db v) 0 (length v) = v" by (simp add: new_databuf_def Let_def text_at_def)
qed

lemma reset_record_block:
  "reset_record (s\<lparr>block := b, len0 := n\<rparr>) = map_option (\<lambda>s0. s0\<lparr>block := b, len0 := n\<rparr>) (reset_record s)"
  by (simp add: reset_record_def Let_def)

lemma set_record_ok:
  assumes "holds_record E s t F fs" and "length (awk_split E fs v) < UNLIMITED - 1"
  shows "\<exists>s1. set_record v s = Some s1 \<and> holds_record E s1 v (awk_split E fs v) fs"
proof -
  have h: "holds_fields E s F" "fs_value s = fs" "prev_fs s = Some fs" "prev_rs s = Some (rs_value s)"
    using assms(1) by (simp_all add: holds_record_def)
  define db where "db = new_databuf (databuf s) v"
  have db: "length v < length db" "text_at db 0 (length v) = v" by (simp_all add: db_def new_databuf_ok)
  have p: "prev_fs s = Some (fs_value s)" and sp: "length (awk_split E (fs_value s) (text_at db 0 (length v))) < UNLIMITED - 1"
    using h assms(2) db(2) by simp_all
  from reset_record_ok[OF h(1) p db(1) sp refl] obtain s1 where s1: "reset_record (s\<lparr>block := db, len0 := length v\<rparr>) = Some s1"
    "holds_fields E s1 (awk_split E fs v)" "same_settings s s1" "field0_valid s1" "block s1 = db" "len0 s1 = length v" "databuf s1 = databuf s"
    unfolding db(2) h(2) by blast
  obtain s0 where s0: "reset_record s = Some s0" "s1 = s0\<lparr>block := db, len0 := length v\<rparr>" using s1(1) reset_record_block by auto
  have "set_record v s = Some (s1\<lparr>databuf := db\<rparr>)"
    using s0 s1(7) unfolding set_record_def db_def by (simp add: Let_def)
  moreover have "holds_record E (s1\<lparr>databuf := db\<rparr>) v (awk_split E fs v) fs"
    using s1 h db(2) by (simp add: holds_record_def same_settings_def)
  ultimately show ?thesis by blast
qed


section \<open>The assignments\<close>

lemma length_pad_to [simp]: "length (pad_to n F) = max n (length F)"
  by (simp add: pad_to_def)

text \<open>The fields after an assignment to \<open>$n\<close>.\<close>

definition put_field :: "nat \<Rightarrow> u8 list \<Rightarrow> u8 list list \<Rightarrow> u8 list list" where
  "put_field n v F = (pad_to n F)[n - 1 := v]"

lemma assign_field_ok:
  assumes r: "holds_record E s t F fs" and n: "0 < n" "n < UNLIMITED - 1"
  shows "\<exists>s1. assign_field E n v s = Some s1 \<and> holds_record E s1 (join (ofs_value E) (put_field n v F)) (put_field n v F) fs"
proof -
  have h: "holds_fields E s F" using r by (simp add: holds_record_def)
  from get_field_lhs[OF h n] obtain s1 where g: "get_field E n True s = Some (Field n, s1)" "holds_fields E s1 (pad_to n F)"
    "same_source s s1" "\<not> field0_valid s1" "n \<le> parse_high_water s1" by blast
  let ?s2 = "s1\<lparr>fields_arr := (fields_arr s1)[n - 1 := Own v]\<rparr>"
  have i: "n - 1 < parse_high_water s1" "n - 1 < length (fields_arr s1)"
    using g(5) n(1) holds_fields_high_water(2)[OF g(2)] by simp_all
  have "assign_field E n v s = Some ?s2"
    using g(1) n(1) i(2) by (simp add: assign_field_def wr_at_def)
  moreover have "holds_fields E ?s2 (put_field n v F)" unfolding put_field_def by (rule holds_fields_put[OF g(2) i(1)])
  then have "holds_record E ?s2 (join (ofs_value E) (put_field n v F)) (put_field n v F) fs"
    using r g(3,4) i(1) by (simp add: holds_record_def same_source_def)
  ultimately show ?thesis by blast
qed

lemma get_text_ok:
  assumes r: "holds_record E s t F fs"
  shows "\<exists>s1. get_field E 0 assign s = Some (Field 0, s1) \<and> holds_record E s1 t F fs \<and> field0_valid s1"
proof (cases "field0_valid s")
  case True
  then show ?thesis using r by (simp add: get_field_def)
next
  case False
  then have "holds_fields E s F" "NF s = -1 \<longrightarrow> 0 < parse_high_water s" "t = join (ofs_value E) F"
    using r by (auto simp: holds_record_def)
  from get_field_0[OF this(1) False this(2), of assign] this(3) r show ?thesis
    by (auto simp: holds_record_def same_settings_def)
qed

lemma read_field_ok:
  assumes r: "holds_record E s t F fs" and "n < UNLIMITED - 1"
  shows "\<exists>x s1. get_field E n False s = Some (x, s1) \<and> ref_text s1 x = Some (if n = 0 then t else field_of F n) \<and> holds_record E s1 t F fs"
proof (cases "n = 0")
  case True
  from get_text_ok[OF r, of False] obtain s1 where s1: "get_field E 0 False s = Some (Field 0, s1)" "holds_record E s1 t F fs" "field0_valid s1" by blast
  then have "ref_text s1 (Field 0) = Some t" by (simp add: ref_text_def holds_record_def)
  then show ?thesis using s1 True by auto
next
  case False
  have h: "holds_fields E s F" using r by (simp add: holds_record_def)
  have "0 < n" using False by simp
  from get_field_ref[OF h this assms(2)] obtain x s1 where g: "get_field E n False s = Some (x, s1)" "holds_fields E s1 F"
    "same_record s s1" "ref_text s1 x = Some (field_of F n)" by blast
  have "holds_record E s1 t F fs" using g(2,3) r by (auto simp: holds_record_def same_record_def)
  then show ?thesis using g(1,4) False by auto
qed

lemma assign_record_ok:
  assumes r: "holds_record E s t F fs" and "length (awk_split E fs v) < UNLIMITED - 1"
  shows "\<exists>s1. assign_field E 0 v s = Some s1 \<and> holds_record E s1 v (awk_split E fs v) fs"
proof -
  from get_text_ok[OF r, of True] obtain s1 where g: "get_field E 0 True s = Some (Field 0, s1)" "holds_record E s1 t F fs" by blast
  have h: "holds_fields E s1 F" "fs_value s1 = fs" "prev_fs s1 = Some (fs_value s1)" "prev_rs s1 = Some (rs_value s1)"
    using g(2) by (simp_all add: holds_record_def)
  have tv: "text_at (v @ [0]) 0 (length v) = v" by (simp add: text_at_def)
  have "length v < length (v @ [0])" "length (awk_split E (fs_value s1) (text_at (v @ [0]) 0 (length v))) < UNLIMITED - 1"
    using assms(2) tv h(2) by simp_all
  from reset_record_ok[OF h(1,3) this refl] obtain s2 where "reset_record (s1\<lparr>block := v @ [0], len0 := length v\<rparr>) = Some s2"
    "holds_fields E s2 (awk_split E fs v)" "same_settings s1 s2" "field0_valid s2" "block s2 = v @ [0]" "len0 s2 = length v"
    unfolding tv h(2) by blast
  then show ?thesis using g(1) h(2-4) tv by (intro exI[of _ s2]) (simp add: assign_field_def holds_record_def same_settings_def)
qed

lemma get_all_fields:
  assumes h: "holds_fields E s F"
  shows "NF s = -1 \<Longrightarrow> \<exists>x s1. get_field E (UNLIMITED - 1) assign s = Some (x, s1) \<and> holds_fields E s1 F \<and> NF s1 \<noteq> -1 \<and>
      same_record (s\<lparr>field0_valid := field0_valid s \<and> \<not> assign\<rparr>) s1"
    and "\<exists>x s1. get_field E (UNLIMITED - 1) False s = Some (x, s1) \<and> holds_fields E s1 F \<and> NF s1 \<noteq> -1 \<and> same_record s s1"
proof -
  have all: "\<exists>x s1. get_field E (UNLIMITED - 1) assign s = Some (x, s1) \<and> holds_fields E s1 F \<and> NF s1 \<noteq> -1 \<and>
      same_record (s\<lparr>field0_valid := field0_valid s \<and> \<not> assign\<rparr>) s1" if "NF s = -1" for assign
  proof -
    let ?s = "s\<lparr>field0_valid := field0_valid s \<and> \<not> assign\<rparr>"
    have "holds_fields E ?s F" "NF ?s = -1" "UNLIMITED - 1 < UNLIMITED" using h that by (simp_all add: UNLIMITED_def)
    from parse_to_ok[OF this] obtain s2 where p: "parse_to E (UNLIMITED - 1) ?s = Some s2" "holds_fields E s2 F" "same_record ?s s2"
      "parse_high_water s2 = length F" "NF s2 \<noteq> -1" by auto
    have "\<not> UNLIMITED - 1 \<le> parse_high_water s" using holds_fields_high_water[OF h] by linarith
    moreover have "0 < UNLIMITED - 1" by (simp add: UNLIMITED_def)
    ultimately have "get_field E (UNLIMITED - 1) assign s = Some (Field (parse_high_water s2), s2)"
      using p(1) that by (cases assign) (simp_all add: get_field_unfold Let_def)
    then show ?thesis using p by blast
  qed
  then show "NF s = -1 \<Longrightarrow> \<exists>x s1. get_field E (UNLIMITED - 1) assign s = Some (x, s1) \<and> holds_fields E s1 F \<and> NF s1 \<noteq> -1 \<and>
      same_record (s\<lparr>field0_valid := field0_valid s \<and> \<not> assign\<rparr>) s1" by blast
  show "\<exists>x s1. get_field E (UNLIMITED - 1) False s = Some (x, s1) \<and> holds_fields E s1 F \<and> NF s1 \<noteq> -1 \<and> same_record s s1"
  proof (cases "NF s = -1")
    case True
    then show ?thesis using all[OF True, of False] by simp
  next
    case False
    have "0 < UNLIMITED - 1" by (simp add: UNLIMITED_def)
    moreover have "parse_high_water s < UNLIMITED - 1" using holds_fields_high_water[OF h] by linarith
    ultimately have "get_field E (UNLIMITED - 1) False s = Some (Null_field, s)"
      using False by (simp add: get_field_unfold Let_def not_le)
    then show ?thesis using h False by simp
  qed
qed

lemma get_NF_ok:
  assumes r: "holds_record E s t F fs"
  shows "\<exists>s1. get_NF E False s = Some s1 \<and> holds_record E s1 t F fs \<and> NF s1 = int (length F)"
proof (cases "NF s = -1")
  case True
  have h: "holds_fields E s F" using r by (simp add: holds_record_def)
  from get_all_fields(2)[OF h] obtain x s1 where g: "get_field E (UNLIMITED - 1) False s = Some (x, s1)" "holds_fields E s1 F"
    "NF s1 \<noteq> -1" "same_record s s1" by blast
  have "NF s1 = int (length F)" using holds_fields_high_water(3)[OF g(2,3)] by simp
  then show ?thesis using g r True by (auto simp: get_NF_def holds_record_def same_record_def)
next
  case False
  then have "NF s = int (length F)" using r holds_fields_high_water(3)[OF _ False] by (auto simp: holds_record_def)
  then show ?thesis using r False by (simp add: get_NF_def)
qed


lemma set_NF_ok:
  assumes h: "holds_fields E s F" and "NF s \<noteq> -1" and k: "k \<le> length F"
  shows "\<exists>s1. set_NF (int k) s = Some (Inr s1) \<and> holds_fields E s1 (take k F) \<and> same_source s s1 \<and> \<not> field0_valid s1 \<and> NF s1 \<noteq> -1"
proof -
  have hw: "parse_high_water s = length F" "length F \<le> length (fields_arr s)" "length F < UNLIMITED - 1"
    using holds_fields_high_water[OF h] assms(2) by auto
  let ?fa = "clear_fields k (length F) (fields_arr s)"
  let ?s1 = "s\<lparr>NF := int k, fields_arr := ?fa, parse_high_water := k, field0_valid := False\<rparr>"
  have fa: "take k ?fa = take k (fields_arr s)" "drop k ?fa = replicate (length F - k) Null @ drop (length F) (fields_arr s)"
    "length ?fa = length (fields_arr s)"
    using k hw(2) by (simp_all add: clear_fields_def)
  have e: "set_NF (int k) s = Some (Inr ?s1)"
  proof (cases "length F = 0")
    case True
    then have "?fa = fields_arr s" using k by (simp add: clear_fields_def)
    then show ?thesis using assms(2) k hw True by (simp add: set_NF_def Let_def)
  next
    case False
    then show ?thesis using assms(2) k hw by (simp add: set_NF_def Let_def)
  qed
  have "map (fld_text (block s)) (take k (fields_arr s)) = take k (map (fld_text (block s)) (take (length F) (fields_arr s)))"
    using k by (simp add: take_map min_absorb1)
  also have "\<dots> = take k F" using h hw by (simp add: holds_fields_def)
  finally have "map (fld_text (block s)) (take k ?fa) = take k F" using fa(1) by simp
  moreover have "\<forall>f \<in> set (drop k ?fa). f = Null" using h hw unfolding fa(2) by (auto simp: holds_fields_def)
  moreover have "slices_in (len0 s) ?fa"
    using h by (simp add: clear_fields_def holds_fields_def slices_in_take slices_in_drop)
  ultimately have "holds_fields E ?s1 (take k F)"
    using h k hw fa(3) by (simp add: holds_fields_def split_fs_def)
  then show ?thesis using e by (intro exI[of _ ?s1]) (simp add: same_source_def)
qed

lemma get_NF_assign:
  assumes r: "holds_record E s t F fs"
  shows "\<exists>s1. get_NF E True s = Some s1 \<and> holds_fields E s1 F \<and> NF s1 \<noteq> -1 \<and> same_source s s1"
proof -
  have h: "holds_fields E s F" using r by (simp add: holds_record_def)
  show ?thesis
  proof (cases "NF s = -1")
    case True
    from get_all_fields(1)[OF h True, of True] show ?thesis using True
      by (fastforce simp: get_NF_def same_record_def same_source_def)
  next
    case False
    then show ?thesis using h by (simp add: get_NF_def same_source_def)
  qed
qed

lemma assign_NF_ok:
  assumes r: "holds_record E s t F fs" and k: "k \<le> length F"
  shows "\<exists>s1. assign_NF E (int k) s = Some (Inr s1) \<and> holds_record E s1 (join (ofs_value E) (take k F)) (take k F) fs"
proof -
  from get_NF_assign[OF r] obtain s1 where s1: "get_NF E True s = Some s1" "holds_fields E s1 F" "NF s1 \<noteq> -1" "same_source s s1" by blast
  from set_NF_ok[OF s1(2,3) k] obtain s2 where s2: "set_NF (int k) s1 = Some (Inr s2)" "holds_fields E s2 (take k F)" "same_source s1 s2"
    "\<not> field0_valid s2" "NF s2 \<noteq> -1" by blast
  have "holds_record E s2 (join (ofs_value E) (take k F)) (take k F) fs"
    using r s1(4) s2 by (simp add: holds_record_def same_source_def)
  then show ?thesis using s1(1) s2(1) by (simp add: assign_NF_def)
qed

lemma choose_fs_simple:
  assumes "simple_fs (fs_value s)" and "\<not> RS_is_null s" and "\<not> do_traditional E"
  shows "choose_fs E s = (parser_of E (fs_value s), fs_value s = [32], [])"
proof (cases "fs_value s")
  case Nil
  then show ?thesis using assms by (simp add: choose_fs_def parser_of_def)
next
  case (Cons c cs)
  then have "fs_value s = [c]" "c \<noteq> 92" using assms(1) by (auto simp: simple_fs_def)
  then show ?thesis using assms(2,3) by (simp add: choose_fs_def parser_of_def Let_def)
qed

lemma parser_of_simple [simp]: "parser_of E fs \<noteq> Re_parse" "parser_of E fs \<noteq> Fw_parse"
  by (simp_all add: parser_of_def)

lemma assign_FS_ok:
  assumes r: "holds_record E s t F fs" and v: "simple_fs v" and "\<not> do_traditional E"
  shows "\<exists>s1. assign_FS E v s = Some s1 \<and> holds_record E s1 t F v"
proof -
  let ?s = "s\<lparr>fs_value := v\<rparr>"
  have h: "holds_fields E ?s F" using r by (simp add: holds_record_def)
  from get_all_fields(2)[OF h] obtain x s1 where g: "get_field E (UNLIMITED - 1) False ?s = Some (x, s1)" "holds_fields E s1 F"
    "NF s1 \<noteq> -1" "same_record ?s s1" by blast
  have f: "fs_value s1 = v" "prev_fs s1 = Some fs" "prev_rs s1 = Some (rs_value s1)" "\<not> RS_is_null s1" "parse_field s1 = parser_of E fs"
    using g(2,4) r by (auto simp: holds_record_def same_record_def holds_fields_def split_fs_def)
  have t: "if field0_valid s1 then text_at (block s1) 0 (len0 s1) = t else t = join (ofs_value E) F"
    using r g(3,4) by (auto simp: holds_record_def same_record_def split: if_splits)
  show ?thesis
  proof (cases "fs = v")
    case True
    let ?s2 = "s1\<lparr>FS_regexp := map_option (\<lambda>rp. (fst rp, ignore_case E)) (FS_regexp s1)\<rparr>"
    have "assign_FS E v s = Some ?s2" using g(1) f True by (simp add: assign_FS_def set_FS_def)
    moreover have "holds_record E ?s2 t F v"
      using f t True g(2,3) by (simp add: holds_record_def)
    ultimately show ?thesis by blast
  next
    case False
    let ?s2 = "s1\<lparr>prev_fs := Some v, prev_rs := Some (rs_value s1), resave_fs := True, FS_regexp := None,
      parse_field := parser_of E v, default_FS := v = [32]\<rparr>"
    let ?sc = "s1\<lparr>prev_fs := Some (fs_value s1), prev_rs := Some (rs_value s1), resave_fs := True, FS_regexp := None\<rparr>"
    have c: "choose_fs E ?sc = (parser_of E v, v = [32], [])"
      using choose_fs_simple[of ?sc E] v f(1,4) assms(3) by simp
    have "assign_FS E v s = Some ?s2" using g(1) f c False by (simp add: assign_FS_def set_FS_def Let_def)
    moreover have "holds_record E ?s2 t F v"
      using f t v g(2,3) by (auto simp: holds_record_def holds_fields_def split_fs_def)
    ultimately show ?thesis by blast
  qed
qed

section \<open>The record as a program sees it\<close>

text \<open>An \<open>awk\<close> record that is split when it is read and put together at once when it is changed.\<close>

record awk_record =
  text0 :: "u8 list"
  flds :: "u8 list list"
  sep :: "u8 list"

datatype field_op = Get nat | Put nat "u8 list" | Get_NF | Cut_NF nat | Read_record "u8 list" | Set_FS "u8 list"

datatype field_out = Text "u8 list" | Number int | Done

fun eager_op :: "awk_env \<Rightarrow> field_op \<Rightarrow> awk_record \<Rightarrow> field_out \<times> awk_record" where
  "eager_op E (Get n) r = (Text (if n = 0 then text0 r else field_of (flds r) n), r)"
| "eager_op E (Put n v) r =
     (Done, if n = 0 then r\<lparr>text0 := v, flds := awk_split E (sep r) v\<rparr>
            else r\<lparr>text0 := join (ofs_value E) (put_field n v (flds r)), flds := put_field n v (flds r)\<rparr>)"
| "eager_op E Get_NF r = (Number (int (length (flds r))), r)"
| "eager_op E (Cut_NF k) r = (Done, r\<lparr>text0 := join (ofs_value E) (take k (flds r)), flds := take k (flds r)\<rparr>)"
| "eager_op E (Read_record v) r = (Done, r\<lparr>text0 := v, flds := awk_split E (sep r) v\<rparr>)"
| "eager_op E (Set_FS v) r = (Done, r\<lparr>sep := v\<rparr>)"

text \<open>What is assumed: \<open>NF\<close> is not made larger, separators are simple, and field numbers are in range.\<close>

fun op_ok :: "awk_env \<Rightarrow> field_op \<Rightarrow> awk_record \<Rightarrow> bool" where
  "op_ok E (Get n) r \<longleftrightarrow> n < UNLIMITED - 1"
| "op_ok E (Put n v) r \<longleftrightarrow> n < UNLIMITED - 1 \<and> length (awk_split E (sep r) v) < UNLIMITED - 1"
| "op_ok E Get_NF r \<longleftrightarrow> True"
| "op_ok E (Cut_NF k) r \<longleftrightarrow> k \<le> length (flds r)"
| "op_ok E (Read_record v) r \<longleftrightarrow> length (awk_split E (sep r) v) < UNLIMITED - 1"
| "op_ok E (Set_FS v) r \<longleftrightarrow> simple_fs v"

text \<open>The operations of gawk.\<close>

fun gawk_op :: "awk_env \<Rightarrow> field_op \<Rightarrow> fields_state \<Rightarrow> (field_out \<times> fields_state) option" where
  "gawk_op E (Get n) s = do { (x, s1) \<leftarrow> get_field E n False s; t \<leftarrow> ref_text s1 x; Some (Text t, s1) }"
| "gawk_op E (Put n v) s = map_option (Pair Done) (assign_field E n v s)"
| "gawk_op E Get_NF s = do { s1 \<leftarrow> get_NF E False s; Some (Number (NF s1), s1) }"
| "gawk_op E (Cut_NF k) s = do { r \<leftarrow> assign_NF E (int k) s; (case r of Inl e \<Rightarrow> None | Inr s1 \<Rightarrow> Some (Done, s1)) }"
| "gawk_op E (Read_record v) s = map_option (Pair Done) (set_record v s)"
| "gawk_op E (Set_FS v) s = map_option (Pair Done) (assign_FS E v s)"

fun eager_ops :: "awk_env \<Rightarrow> field_op list \<Rightarrow> awk_record \<Rightarrow> field_out list \<times> awk_record" where
  "eager_ops E [] r = ([], r)"
| "eager_ops E (op # ops) r = (let (x, r1) = eager_op E op r; (xs, r2) = eager_ops E ops r1 in (x # xs, r2))"

fun ops_ok :: "awk_env \<Rightarrow> field_op list \<Rightarrow> awk_record \<Rightarrow> bool" where
  "ops_ok E [] r \<longleftrightarrow> True"
| "ops_ok E (op # ops) r \<longleftrightarrow> op_ok E op r \<and> ops_ok E ops (snd (eager_op E op r))"

fun gawk_ops :: "awk_env \<Rightarrow> field_op list \<Rightarrow> fields_state \<Rightarrow> (field_out list \<times> fields_state) option" where
  "gawk_ops E [] s = Some ([], s)"
| "gawk_ops E (op # ops) s = do { (x, s1) \<leftarrow> gawk_op E op s; (xs, s2) \<leftarrow> gawk_ops E ops s1; Some (x # xs, s2) }"

definition record_rep :: "awk_env \<Rightarrow> fields_state \<Rightarrow> awk_record \<Rightarrow> bool" where
  "record_rep E s r \<longleftrightarrow> holds_record E s (text0 r) (flds r) (sep r)"

lemma gawk_op_ok:
  assumes "record_rep E s r" and "op_ok E op r" and "\<not> do_traditional E"
  shows "\<exists>s1. gawk_op E op s = Some (fst (eager_op E op r), s1) \<and> record_rep E s1 (snd (eager_op E op r))"
proof -
  have r: "holds_record E s (text0 r) (flds r) (sep r)" using assms(1) by (simp add: record_rep_def)
  show ?thesis
  proof (cases op)
    case (Get n)
    then show ?thesis using read_field_ok[OF r, of n] assms(2) by (auto simp: record_rep_def)
  next
    case (Put n v)
    show ?thesis
    proof (cases "n = 0")
      case True
      then show ?thesis using assign_record_ok[OF r, of v] assms(2) Put by (auto simp: record_rep_def)
    next
      case False
      then show ?thesis using assign_field_ok[OF r, of n v] assms(2) Put by (auto simp: record_rep_def)
    qed
  next
    case Get_NF
    then show ?thesis using get_NF_ok[OF r] by (auto simp: record_rep_def)
  next
    case (Cut_NF k)
    then show ?thesis using assign_NF_ok[OF r, of k] assms(2) by (auto simp: record_rep_def)
  next
    case (Read_record v)
    then show ?thesis using set_record_ok[OF r, of v] assms(2) by (auto simp: record_rep_def)
  next
    case (Set_FS v)
    then show ?thesis using assign_FS_ok[OF r, of v] assms(2,3) by (auto simp: record_rep_def)
  qed
qed

lemma gawk_ops_ok:
  "record_rep E s r \<Longrightarrow> ops_ok E ops r \<Longrightarrow> \<not> do_traditional E \<Longrightarrow>
    \<exists>s1. gawk_ops E ops s = Some (fst (eager_ops E ops r), s1) \<and> record_rep E s1 (snd (eager_ops E ops r))"
proof (induction ops arbitrary: s r)
  case (Cons op ops)
  from gawk_op_ok[OF Cons.prems(1) _ Cons.prems(3), of op] Cons.prems(2) obtain s1 where
    s1: "gawk_op E op s = Some (fst (eager_op E op r), s1)" "record_rep E s1 (snd (eager_op E op r))" by auto
  from Cons.IH[OF s1(2) _ Cons.prems(3)] Cons.prems(2) obtain s2 where
    "gawk_ops E ops s1 = Some (fst (eager_ops E ops (snd (eager_op E op r))), s2)"
    "record_rep E s2 (snd (eager_ops E ops (snd (eager_op E op r))))" by auto
  then show ?case using s1(1) by (auto simp: split_beta Let_def)
qed simp


lemma init_fields_rep: "record_rep E (init_fields E) \<lparr>text0 = [], flds = [], sep = [32]\<rparr>"
  by (simp add: record_rep_def holds_record_def holds_fields_def init_fields_def split_fs_def simple_fs_def parser_of_def UNLIMITED_def)

text \<open>A larger \<open>NF\<close>.\<close>

lemma larger_NF_state:
  assumes r: "holds_record E s t F fs" and n: "length F < n" "n < k" "k < UNLIMITED - 1"
  shows "\<exists>s1 s2. assign_NF E (int k) s = Some (Inr s1) \<and> NF s1 = int k \<and> assign_field E n v s1 = Some s2 \<and> NF s2 = int n \<and>
    holds_record E s2 (join (ofs_value E) (put_field n v F)) (put_field n v F) fs"
proof -
  from get_NF_assign[OF r] obtain s0 where s0: "get_NF E True s = Some s0" "holds_fields E s0 F" "NF s0 \<noteq> -1" "same_source s s0" by blast
  have hw: "parse_high_water s0 = length F" "length F \<le> length (fields_arr s0)"
    using holds_fields_high_water[OF s0(2)] s0(3) by auto
  define fa where "fa = clear_fields (length F) k (fields_arr s0 @ replicate (k - length (fields_arr s0)) Null)"
  have fa: "take (length F) fa = take (length F) (fields_arr s0)" "length fa = max k (length (fields_arr s0))"
    "slices_in (len0 s0) fa" "drop (length F) fa = replicate (k - length F) Null @ drop k (fields_arr s0)"
    using n hw(2) s0(2) by (simp_all add: fa_def clear_fields_def holds_fields_def slices_in_take slices_in_drop)
  have null: "\<forall>f \<in> set (drop (length F) fa). f = Null"
    using s0(2) in_set_dropD_le[of _ k "fields_arr s0" "length F"] n hw(1) unfolding fa(4) by (auto simp: holds_fields_def)
  let ?s1 = "s0\<lparr>NF := int k, fields_arr := fa, field0_valid := False\<rparr>"
  have e1: "set_NF (int k) s0 = Some (Inr ?s1)"
    using s0(3) hw n by (simp add: set_NF_def Let_def grow_fields_arr_def fa_def)
  let ?s1' = "s0\<lparr>fields_arr := fa, field0_valid := False\<rparr>"
  have h1: "holds_fields E ?s1' F" using s0(2,3) hw fa(1-3) null by (auto simp: holds_fields_def split_fs_def)
  let ?s2 = "?s1'\<lparr>NF := int n, parse_high_water := n\<rparr>"
  have "\<not> n > length (fields_arr ?s1')" using fa(2) n by simp
  then have h2: "holds_fields E ?s2 (pad_to n F)" using holds_fields_grow[OF h1 _ n(1)] s0(3) n by simp
  let ?s3 = "?s2\<lparr>fields_arr := fa[n - 1 := Own v]\<rparr>"
  have "get_field E n True ?s1 = Some (Field n, ?s2)"
    using hw n fa(2) by (simp add: get_field_unfold Let_def)
  then have e2: "assign_field E n v ?s1 = Some ?s3" using n fa(2) by (simp add: assign_field_def)
  have "holds_fields E ?s3 (put_field n v F)" using holds_fields_put[OF h2, of "n - 1" v] n by (simp add: put_field_def)
  then have "holds_record E ?s3 (join (ofs_value E) (put_field n v F)) (put_field n v F) fs"
    using r s0(4) by (simp add: holds_record_def same_source_def)
  then show ?thesis using s0(1) e1 e2 by (intro exI[of _ ?s1] exI[of _ ?s3]) (simp add: assign_NF_def)
qed

section \<open>Properties\<close>

text \<open>C3: Parsing fields only as far as they are asked for and putting \<open>$0\<close> together only when it is read cannot be seen:
  starting from the state of a fresh gawk, any sequence of reading records, reading and assigning fields, \<open>$0\<close>, \<open>NF\<close> (not larger
  than it is) and \<open>FS\<close> (at most one character, no backslash) returns without an access out of range and gives the results of
  a record that is split at once when it is read, by the \<open>FS\<close> in force at that time, and joined with \<open>OFS\<close> at once when a field
  is assigned.\<close>

theorem fields_refine_record:
  assumes "\<not> do_traditional E" and "ops_ok E ops \<lparr>text0 = [], flds = [], sep = [32]\<rparr>"
  shows "\<exists>s. gawk_ops E ops (init_fields E) = Some (fst (eager_ops E ops \<lparr>text0 = [], flds = [], sep = [32]\<rparr>), s) \<and>
    record_rep E s (snd (eager_ops E ops \<lparr>text0 = [], flds = [], sep = [32]\<rparr>))"
  using gawk_ops_ok[OF init_fields_rep assms(2,1)] .

text \<open>\<open>a b  c\<close>: with \<open>FS = ":"\<close> set before \<open>$2\<close> is read, the fields are still those of white space.\<close>

definition demo_env :: awk_env where
  "demo_env = \<lparr>do_posix = False, do_traditional = False, ofs_value = [45], ignore_case = False, regex_matcher = (\<lambda>_ _ _. None)\<rparr>"

definition demo_ops :: "field_op list" where
  "demo_ops = [Read_record [97, 32, 98, 32, 32, 99], Set_FS [58], Get 2, Put 4 [120], Get 0, Cut_NF 1, Get_NF, Get 0]"

lemmas demo_split = demo_env_def demo_ops_def awk_split_def white_fields_def sc_fields_def is_white_def put_field_def pad_to_def field_of_def
  simple_fs_def UNLIMITED_def

theorem fields_refine_record_witness:
  "\<exists>s. gawk_ops demo_env demo_ops (init_fields demo_env) =
    Some ([Done, Done, Text [98], Done, Text [97, 45, 98, 45, 99, 45, 120], Done, Number 1, Text [97]], s)"
proof -
  have "\<not> do_traditional demo_env" "ops_ok demo_env demo_ops \<lparr>text0 = [], flds = [], sep = [32]\<rparr>"
    by (simp_all add: demo_split)
  moreover have "fst (eager_ops demo_env demo_ops \<lparr>text0 = [], flds = [], sep = [32]\<rparr>) =
      [Done, Done, Text [98], Done, Text [97, 45, 98, 45, 99, 45, 120], Done, Number 1, Text [97]]"
    by (simp add: demo_split)
  ultimately show ?thesis using fields_refine_record[of demo_env demo_ops] by auto
qed

text \<open>Assigning a number larger than the number of fields to \<open>NF\<close> and then a value to a field between the old and the new
  number makes \<open>NF\<close> small again: \<open>set_NF\<close> leaves \<open>parse_high_water\<close> where it was, so that \<open>get_field\<close> takes the field for one
  beyond the end, and the record is as if \<open>NF\<close> had never been assigned to.\<close>

theorem larger_NF_is_lost:
  assumes "record_rep E s r" and "length (flds r) < n" and "n < k" and "k < UNLIMITED - 1"
  shows "\<exists>s1 s2. assign_NF E (int k) s = Some (Inr s1) \<and> NF s1 = int k \<and> assign_field E n v s1 = Some s2 \<and> NF s2 = int n \<and>
    record_rep E s2 (snd (eager_op E (Put n v) r))"
  using larger_NF_state[OF assms(1)[unfolded record_rep_def] assms(2-4), of v] assms(2) by (auto simp: record_rep_def)

theorem larger_NF_is_lost_witness:
  "\<exists>s1 s2. assign_NF demo_env 5 (init_fields demo_env) = Some (Inr s1) \<and> NF s1 = 5 \<and>
    assign_field demo_env 3 [120] s1 = Some s2 \<and> NF s2 = 3"
  using larger_NF_is_lost[OF init_fields_rep[of demo_env], of 3 5 "[120]"] by (auto simp: UNLIMITED_def)

end
