(* ===== verification/Awk_Value.thy ===== *)
theory Awk_Value
  imports Awk_Node
begin

text \<open>
  Numbers from strings, \<open>r_force_number\<close> of \<open>node.c\<close> with \<open>isnondecimal\<close> and \<open>nondec2awknum\<close>, and the truth value of a
  string, \<open>eval_condition\<close> of \<open>eval.c\<close>.  A value that came from input may be a number; whether it is one is settled when it
  is asked for.  The locale is \<open>C\<close> apart from the decimal point.
\<close>

section \<open>State\<close>

text \<open>
  A \<open>Node_val\<close>: its text with the bytes of memory that follow it, its number, and the flags \<open>MAYBE_NUM\<close>, \<open>NUMBER\<close> and \<open>NUMCUR\<close>.
\<close>

record strval =
  vtext :: "u8 list"
  after :: "u8 list"
  vnumbr :: awknum
  maybe_num :: bool
  is_number :: bool
  numcur :: bool

text \<open>
  Options, the decimal point, \<open>strtod\<close> on a string (without its \<open>NUL\<close>; the number, how much of the string it is, and whether
  \<open>errno\<close> was set), and \<open>x * base + digit\<close> in double arithmetic.
\<close>

record num_env =
  posix :: bool
  traditional :: bool
  non_decimal_data :: bool
  dec_point :: u8
  strtod :: "u8 list \<Rightarrow> awknum \<times> nat \<times> bool"
  next_digit :: "awknum \<Rightarrow> nat \<Rightarrow> nat \<Rightarrow> awknum"

definition isdigit :: "u8 \<Rightarrow> bool" where "isdigit c \<longleftrightarrow> 48 \<le> c \<and> c \<le> 57"
definition isalpha :: "u8 \<Rightarrow> bool" where "isalpha c \<longleftrightarrow> 65 \<le> c \<and> c \<le> 90 \<or> 97 \<le> c \<and> c \<le> 122"
definition isspace :: "u8 \<Rightarrow> bool" where "isspace c \<longleftrightarrow> c = 32 \<or> 9 \<le> c \<and> c \<le> 13"

section \<open>Numbers that are not decimal\<close>

fun nondec_scan :: "u8 \<Rightarrow> u8 list \<Rightarrow> bool option" where
  "nondec_scan dp [] = None"
| "nondec_scan dp (c # cs) =
     (if c = 0 then Some True
      else if c = 101 \<or> c = 69 \<or> c = dp then Some False
      else if \<not> isdigit c then Some True
      else nondec_scan dp cs)"

definition isnondecimal :: "u8 \<Rightarrow> u8 list \<Rightarrow> bool option" where
  "isnondecimal dp str = do {
     c0 \<leftarrow> rd_at str 0;
     if c0 \<noteq> 48 then Some False
     else do {
       c1 \<leftarrow> rd_at str 1;
       if c1 = 120 \<or> c1 = 88 then Some True else nondec_scan dp str } }"

definition hex_digit :: "u8 \<Rightarrow> nat option" where
  "hex_digit c = (if isdigit c then Some (unat c - 48)
     else if 97 \<le> c \<and> c \<le> 102 then Some (unat c - 97 + 10)
     else if 65 \<le> c \<and> c \<le> 70 then Some (unat c - 65 + 10) else None)"

fun hex_loop :: "num_env \<Rightarrow> u8 list \<Rightarrow> awknum \<Rightarrow> awknum" where
  "hex_loop E [] r = r"
| "hex_loop E (c # cs) r = (case hex_digit c of None \<Rightarrow> r | Some d \<Rightarrow> hex_loop E cs (next_digit E r 16 d))"

text \<open>The result \<open>None\<close> is the jump to \<open>decimal\<close>.\<close>

fun oct_loop :: "num_env \<Rightarrow> u8 list \<Rightarrow> awknum \<Rightarrow> awknum option" where
  "oct_loop E [] r = Some r"
| "oct_loop E (c # cs) r =
     (if \<not> isdigit c then Some r
      else if c = 56 \<or> c = 57 then None
      else oct_loop E cs (next_digit E r 8 (unat c - 48)))"

text \<open>\<open>str\<close> is all of the memory from the pointer on; the byte after the first \<open>len\<close> is saved and restored, but not replaced by \<open>NUL\<close>.\<close>

definition nondec2awknum :: "num_env \<Rightarrow> u8 list \<Rightarrow> nat \<Rightarrow> awknum option" where
  "nondec2awknum E str len = do {
     c0 \<leftarrow> rd_at str 0;
     c1 \<leftarrow> (if c0 = 48 then rd_at str 1 else Some 0);
     let decimal = (if 0 \<in> set str then Some (fst (strtod E (takeWhile (\<lambda>c. c \<noteq> 0) str))) else None);
     if c0 = 48 \<and> (c1 = 120 \<or> c1 = 88) then
       (if len \<le> 2 then Some (Fin 0) else Some (hex_loop E (take (len - 2) (drop 2 str)) (Fin 0)))
     else if c0 = 48 then (case oct_loop E (take len str) (Fin 0) of Some r \<Rightarrow> Some r | None \<Rightarrow> decimal)
     else decimal }"

section \<open>Conversion\<close>

definition is_ieee_magic_val :: "u8 list \<Rightarrow> bool" where
  "is_ieee_magic_val v \<longleftrightarrow> (v ! 0 = 43 \<or> v ! 0 = 45) \<and>
     ((v ! 1 = 105 \<or> v ! 1 = 73) \<and> (v ! 2 = 110 \<or> v ! 2 = 78) \<and> (v ! 3 = 102 \<or> v ! 3 = 70) \<or>
      (v ! 1 = 110 \<or> v ! 1 = 78) \<and> (v ! 2 = 97 \<or> v ! 2 = 65) \<and> (v ! 3 = 110 \<or> v ! 3 = 78))"

fun negate :: "awknum \<Rightarrow> awknum" where
  "negate (Fin x) = Fin (- x)"
| "negate PInf = NInf"
| "negate NInf = PInf"
| "negate NaN = NaN"

definition get_ieee_magic_val :: "num_env \<Rightarrow> u8 list \<Rightarrow> awknum option" where
  "get_ieee_magic_val E v =
     (if 0 \<notin> set v then None
      else let (x, n, err) = strtod E (takeWhile (\<lambda>c. c \<noteq> 0) v)
           in Some (if n = 0 then (let y = (if v ! 1 = 105 \<or> v ! 1 = 73 then PInf else NaN) in if v ! 0 = 45 then negate y else y) else x))"

text \<open>
  The part after the tests, where the conversion takes place: \<open>i\<close> is the offset of the first character that is no space.
  \<open>ptr\<close> is the offset where the conversion stopped, with the spaces after it.
\<close>

definition convert_at :: "num_env \<Rightarrow> strval \<Rightarrow> nat \<Rightarrow> strval option" where
  "convert_at E n i =
     (let t = drop i (vtext n);
          new = maybe_num n;
          n1 = n\<lparr>maybe_num := False\<rparr>
      in if length t = 1 then
           Some (if isdigit (hd t) then n1\<lparr>vnumbr := Fin (of_nat (unat (hd t) - 48)), is_number := is_number n1 \<or> new, numcur := True\<rparr> else n1)
         else do {
           nd \<leftarrow> (if non_decimal_data E \<and> \<not> traditional E then isnondecimal (dec_point E) (t @ after n) else Some False);
           if nd then do {
             x \<leftarrow> nondec2awknum E (t @ after n) (length t);
             Some (n1\<lparr>vnumbr := x, is_number := is_number n1 \<or> new, numcur := True\<rparr>) }
           else
             let s = takeWhile (\<lambda>c. c \<noteq> 0) t;
                 (x, used, err) = strtod E s;
                 ptr = used + length (takeWhile isspace (drop used s));
                 n2 = n1\<lparr>vnumbr := x\<rparr>
             in Some (if \<not> err \<and> ptr \<ge> length t then n2\<lparr>is_number := is_number n2 \<or> new, numcur := True\<rparr> else n2) })"

definition r_force_number :: "num_env \<Rightarrow> strval \<Rightarrow> strval option" where
  "r_force_number E n0 =
     (let n = n0\<lparr>vnumbr := Fin 0\<rparr>; t = vtext n; i = length (takeWhile isspace t)
      in if t = [] then Some n
         else if \<not> posix E \<and> isalpha (hd t) then Some n
         else if \<not> posix E \<and> length t = 4 \<and> is_ieee_magic_val t then do {
           x \<leftarrow> get_ieee_magic_val E (t @ after n);
           Some (n\<lparr>maybe_num := False, is_number := True, numcur := True, vnumbr := x\<rparr>) }
         else if i = length t then Some n
         else if posix E then convert_at E n i
         else if isalpha (t ! i) then Some n
         else if \<not> non_decimal_data E \<and> t ! i = 48 then do {
           c1 \<leftarrow> rd_at (t @ after n) (i + 1);
           if c1 = 120 \<or> c1 = 88 then Some n else convert_at E n i }
         else convert_at E n i)"

definition force_number :: "num_env \<Rightarrow> strval \<Rightarrow> strval option" where
  "force_number E n = (if numcur n then Some n else r_force_number E n)"

text \<open>\<open>eval_condition\<close>, after the expression is evaluated.\<close>

definition eval_condition :: "num_env \<Rightarrow> strval \<Rightarrow> bool option" where
  "eval_condition E t = do {
     t1 \<leftarrow> (if maybe_num t then force_number E t else Some t);
     Some (if is_number t1 then \<not> num_eq (vnumbr t1) (Fin 0) else vtext t1 \<noteq> []) }"

text \<open>A string from input, as \<open>set_field\<close> and \<open>set_element\<close> make it.\<close>

definition input_value :: "u8 list \<Rightarrow> u8 list \<Rightarrow> strval" where
  "input_value t rest = \<lparr>vtext = t, after = rest, vnumbr = Fin 0, maybe_num = True, is_number = False, numcur = False\<rparr>"

text \<open>The node that comparisons see (\<open>cmp_nodes\<close>).\<close>

definition settled :: "num_env \<Rightarrow> strval \<Rightarrow> node option" where
  "settled E v = map_option (\<lambda>v1. \<lparr>numbr = vnumbr v1, numeric = is_number v1, stptr = vtext v1\<rparr>)
     (if maybe_num v then force_number E v else Some v)"

section \<open>Decimal numbers\<close>

text \<open>What is relied on of \<open>strtod\<close>: digits are converted, to their value, up to a following space.\<close>

fun digits_nat :: "nat \<Rightarrow> u8 list \<Rightarrow> nat" where
  "digits_nat a [] = a"
| "digits_nat a (c # cs) = digits_nat (a * 10 + (unat c - 48)) cs"

definition strtod_digits :: "num_env \<Rightarrow> bool" where
  "strtod_digits E \<longleftrightarrow> (\<forall>ds sp. ds \<noteq> [] \<and> length ds \<le> 15 \<and> (\<forall>c \<in> set ds. isdigit c) \<and> (\<forall>c \<in> set sp. isspace c) \<longrightarrow>
     strtod E (ds @ sp) = (Fin (of_nat (digits_nat 0 ds)), length ds, False))"

lemma digit_classes:
  "isdigit c \<Longrightarrow> \<not> isspace c \<and> \<not> isalpha c \<and> c \<noteq> 0 \<and> c \<noteq> 120 \<and> c \<noteq> 88 \<and> c \<noteq> 43 \<and> c \<noteq> 45"
  "isspace c \<Longrightarrow> \<not> isdigit c \<and> \<not> isalpha c \<and> c \<noteq> 0 \<and> c \<noteq> 120 \<and> c \<noteq> 88 \<and> c \<noteq> 43 \<and> c \<noteq> 45"
proof -
  have eq: "c = d \<longleftrightarrow> unat c = unat d" for d :: u8 by (simp add: word_unat_eq_iff)
  show "isdigit c \<Longrightarrow> \<not> isspace c \<and> \<not> isalpha c \<and> c \<noteq> 0 \<and> c \<noteq> 120 \<and> c \<noteq> 88 \<and> c \<noteq> 43 \<and> c \<noteq> 45"
    "isspace c \<Longrightarrow> \<not> isdigit c \<and> \<not> isalpha c \<and> c \<noteq> 0 \<and> c \<noteq> 120 \<and> c \<noteq> 88 \<and> c \<noteq> 43 \<and> c \<noteq> 45"
    unfolding isdigit_def isspace_def isalpha_def word_le_nat_alt eq by (simp_all; arith?)+
qed

lemma takeWhile_spaces: "\<forall>c \<in> set sp. isspace c \<Longrightarrow> \<not> isspace d \<Longrightarrow> takeWhile isspace (sp @ d # ds) = sp"
  by (induction sp) auto

text \<open>Blanks around a number do not matter, whatever follows it in memory.\<close>

lemma input_number:
  assumes "strtod_digits E" and "\<not> non_decimal_data E"
    and ds: "ds \<noteq> []" "length ds \<le> 15" "\<forall>c \<in> set ds. isdigit c" and sp: "\<forall>c \<in> set pre. isspace c" "\<forall>c \<in> set post. isspace c"
    and rest: "\<exists>c cs. rest = c # cs \<and> c \<noteq> 120 \<and> c \<noteq> 88"
  shows "settled E (input_value (pre @ ds @ post) rest) = Some \<lparr>numbr = Fin (of_nat (digits_nat 0 ds)), numeric = True, stptr = pre @ ds @ post\<rparr>"
proof -
  obtain d ds' where d: "ds = d # ds'" using ds(1) by (cases ds) auto
  then have dg: "isdigit d" using ds(3) by simp
  let ?t = "pre @ ds @ post" and ?n = "input_value (pre @ ds @ post) rest"
  have i: "takeWhile isspace ?t = pre" using takeWhile_spaces[OF sp(1), of d "ds' @ post"] digit_classes(1)[OF dg] d by simp
  have nth: "?t ! length pre = d" "drop (length pre) ?t = ds @ post" "length pre \<noteq> length ?t" using d by (auto simp: nth_append)
  have hd: "\<not> isalpha (hd ?t)" "?t \<noteq> []"
    using sp(1) digit_classes d dg by (cases pre; auto)+
  have magic: "\<not> is_ieee_magic_val ?t"
    using sp(1) digit_classes d dg by (cases pre) (auto simp: is_ieee_magic_val_def)
  have nxt: "\<exists>c1. rd_at (?t @ rest) (length pre + 1) = Some c1 \<and> c1 \<noteq> 120 \<and> c1 \<noteq> 88"
  proof -
    have "(?t @ rest) ! (length pre + 1) = (ds' @ post @ rest) ! 0" using d by (simp add: nth_append)
    moreover have "length pre + 1 < length (?t @ rest)" using d rest by auto
    moreover have "(ds' @ post @ rest) ! 0 \<noteq> 120 \<and> (ds' @ post @ rest) ! 0 \<noteq> 88"
    proof (cases "ds' @ post")
      case Nil
      then show ?thesis using rest by auto
    next
      case (Cons c cs)
      then have "c \<in> set ds \<union> set post" using d by (metis Un_iff list.set_intros(1) set_append set_ConsD insert_iff list.simps(15))
      then have "isdigit c \<or> isspace c" using ds(3) sp(2) by auto
      then show ?thesis using Cons digit_classes by (metis append.assoc append_Cons nth_Cons_0)
    qed
    ultimately show ?thesis by (simp add: rd_at_def)
  qed
  have nz: "takeWhile (\<lambda>c. c \<noteq> 0) (ds @ post) = ds @ post"
    using ds(3) sp(2) digit_classes by (subst takeWhile_eq_all_conv) auto
  have sd: "strtod E (ds @ post) = (Fin (of_nat (digits_nat 0 ds)), length ds, False)"
    using assms(1) ds sp(2) unfolding strtod_digits_def by blast
  have nzp: "takeWhile (\<lambda>c. c \<noteq> 0) post = post" using sp(2) digit_classes by (subst takeWhile_eq_all_conv) auto
  have nzd: "\<forall>c \<in> set ds. c \<noteq> 0" using ds(3) digit_classes by auto
  have pst: "takeWhile isspace post = post" using sp(2) by simp
  have conv: "convert_at E (?n\<lparr>vnumbr := Fin 0\<rparr>) (length pre) =
      Some (?n\<lparr>vnumbr := Fin (of_nat (digits_nat 0 ds)), maybe_num := False, is_number := True, numcur := True\<rparr>)"
  proof (cases "length (ds @ post) = 1")
    case True
    then have "post = []" "ds' = []" using d by auto
    then show ?thesis using d dg assms(2) by (simp add: convert_at_def input_value_def)
  next
    case False
    then show ?thesis using assms(2) nzd nzp sd pst nth(2)
      by (simp add: convert_at_def input_value_def Let_def del: takeWhile_eq_all_conv)
  qed
  have "r_force_number E ?n = convert_at E (?n\<lparr>vnumbr := Fin 0\<rparr>) (length pre)"
  proof -
    have e: "vtext (?n\<lparr>vnumbr := Fin 0\<rparr>) = ?t" "after (?n\<lparr>vnumbr := Fin 0\<rparr>) = rest" by (simp_all add: input_value_def)
    from nxt obtain c1 where "rd_at (?t @ rest) (length pre + 1) = Some c1" "c1 \<noteq> 120" "c1 \<noteq> 88" by blast
    moreover have "\<not> isalpha (?t ! length pre)" using nth(1) digit_classes(1)[OF dg] by simp
    ultimately show ?thesis
      unfolding r_force_number_def Let_def e i using hd magic nth(3) by (simp only: if_False simp_thms Option.bind.simps if_split) auto
  qed
  then show ?thesis using conv by (simp add: settled_def force_number_def input_value_def)
qed


section \<open>Properties\<close>

text \<open>Whether a field is a number depends on the byte after it in the record: the field \<open>0\<close> is false as a condition, but
  true when the separator after it is the letter x, because \<open>r_force_number\<close> takes \<open>0x\<close> for the start of a hexadecimal
  number without regard to the length of the field, and the field stays a string that is not empty.\<close>

theorem zero_before_x_is_true:
  assumes "\<not> posix E" and "\<not> non_decimal_data E"
  shows "eval_condition E (input_value [48] (c # rest)) = Some (c = 120 \<or> c = 88)"
  using assms by (simp add: eval_condition_def input_value_def force_number_def r_force_number_def convert_at_def isalpha_def
      isdigit_def isspace_def Let_def)

definition demo_num_env :: num_env where
  "demo_num_env = \<lparr>posix = False, traditional = False, non_decimal_data = False, dec_point = 46,
     strtod = (\<lambda>t. let ds = takeWhile isdigit t in (Fin (of_nat (digits_nat 0 ds)), length ds, False)), next_digit = (\<lambda>x b d. x)\<rparr>"

theorem zero_before_x_is_true_witness:
  "eval_condition demo_num_env (input_value [48] [120, 53, 0]) = Some True \<and> eval_condition demo_num_env (input_value [48] [58, 53, 0]) = Some False"
  using zero_before_x_is_true[of demo_num_env 120] zero_before_x_is_true[of demo_num_env 58] by (simp add: demo_num_env_def)

end
