(* ===== verification/Awk_Split.thy ===== *)
theory Awk_Split
  imports Awk_Fields Awk_Sort Awk_Value
begin

text \<open>
  The function \<open>split\<close> and the variable \<open>FIELDWIDTHS\<close>, \<open>field.c\<close>.  \<open>split\<close> runs a field parser on a string and stores the
  pieces in an array, under 1, 2 and so on.
\<close>

section \<open>The function split\<close>

text \<open>\<open>N\<close> is what the settling of numbers depends on, \<open>avg\<close> and \<open>H\<close> what the array does; \<open>num\<close> as a subscript is a decimal.\<close>

definition set_element :: "num_env \<Rightarrow> nat \<Rightarrow> hasher \<Rightarrow> u8 list \<Rightarrow> symbol setfunc" where
  "set_element N avg H blk num p l symb = do {
     it \<leftarrow> settled N (input_value (text_at blk p l) [0]);
     (symb1, q) \<leftarrow> assoc_lookup avg H symb (decimal num);
     put_value symb1 q it }"

text \<open>The third argument: its flags, the value of the expression, and the pattern of \<open>re_update\<close>.\<close>

record separator =
  fs_dflt :: bool
  re_constant :: bool
  sep_text :: "u8 list"
  sep_regexp :: "u8 list \<times> bool"

definition choose_parseit :: "awk_env \<Rightarrow> fields_state \<Rightarrow> separator \<Rightarrow> parser \<times> u8 list \<times> (u8 list \<times> bool) option" where
  "choose_parseit E s sp =
     (if fs_dflt sp \<and> parse_field s \<noteq> Fw_parse \<and> \<not> RS_is_null s then (parse_field s, fs_value s, FS_regexp s)
      else let fs = sep_text sp
           in if length fs = 0 then (Null_parse, fs, None)
              else if length fs = 1 \<and> \<not> re_constant sp
              then ((if fs ! 0 = 32 then (if do_posix E then Posix_def_parse else Def_parse) else Sc_parse), fs, None)
              else (Re_parse, fs, Some (sep_regexp sp)))"

text \<open>The result is the number of pieces and the array.  The length of the string is passed on as an \<open>int\<close>.\<close>

definition do_split :: "num_env \<Rightarrow> awk_env \<Rightarrow> fields_state \<Rightarrow> nat \<Rightarrow> hasher \<Rightarrow> u8 list \<Rightarrow> symbol \<Rightarrow> separator \<Rightarrow> (nat \<times> symbol) option" where
  "do_split N E s avg H src arr sp =
     (if length src = 0 then Some (0, assoc_clear arr)
      else
        let (parseit, fs, rp) = choose_parseit E s sp; blk = src @ [0]
        in do {
          len \<leftarrow> as_int (length src);
          (nf, p, blk1, arr1) \<leftarrow> run_parser E (s\<lparr>parse_field := parseit, FS_regexp := rp\<rparr>) (set_element N avg H blk) UNLIMITED blk 0
            len fs False (parse_high_water s) (assoc_clear arr);
          Some (nf, arr1) })"

section \<open>The pieces are the elements\<close>

lemma settled_input: "\<exists>v. settled N (input_value t [0]) = Some v"
proof -
  have scan: "\<exists>b. nondec_scan dp (t' @ [0]) = Some b" for dp t' by (induction t') auto
  have nd: "\<exists>b. isnondecimal dp (t' @ [0]) = Some b" if "t' \<noteq> []" for dp t'
  proof (cases t')
    case (Cons c cs)
    then show ?thesis using scan[of dp t'] by (cases cs) (auto simp: isnondecimal_def rd_at_def)
  qed (use that in simp)
  have nn: "\<exists>x. nondec2awknum N (t' @ [0]) k = Some x" if "t' \<noteq> []" for t' k
  proof -
    have "\<exists>c1. rd_at (t' @ [0]) 1 = Some c1" using that by (cases t') (auto simp: rd_at_def)
    then show ?thesis using that by (auto simp: nondec2awknum_def rd_at_def Let_def nth_append split: option.splits)
  qed
  have conv: "\<exists>v. convert_at N v0 i = Some v" if "i < length (vtext v0)" "after v0 = [0]" for v0 i
  proof -
    have ne: "drop i (vtext v0) \<noteq> []" using that(1) by simp
    obtain b where b: "isnondecimal (dec_point N) (drop i (vtext v0) @ [0]) = Some b" using nd[OF ne] by blast
    obtain x where x: "nondec2awknum N (drop i (vtext v0) @ [0]) (length (drop i (vtext v0))) = Some x" using nn[OF ne] by blast
    show ?thesis using b x that(2) unfolding convert_at_def by (auto simp: Let_def split: prod.splits)
  qed
  let ?i = "length (takeWhile isspace t)"
  have i: "?i \<noteq> length t \<Longrightarrow> ?i < length t" using length_takeWhile_le[of isspace t] by simp
  have rd: "?i < length t \<Longrightarrow> \<exists>c. rd_at (t @ [0]) (?i + 1) = Some c" by (auto simp: rd_at_def)
  have magic: "\<exists>x. get_ieee_magic_val N (t @ [0]) = Some x" by (auto simp: get_ieee_magic_val_def split: prod.splits)
  let ?v = "(input_value t [0])\<lparr>vnumbr := Fin 0\<rparr>"
  have c: "?i \<noteq> length t \<Longrightarrow> \<exists>v. convert_at N ?v ?i = Some v"
    by (rule conv) (use i in \<open>simp_all add: input_value_def\<close>)
  have "\<exists>v. r_force_number N (input_value t [0]) = Some v"
  proof -
    have f: "vtext ?v = t" "after ?v = [0]" by (simp_all add: input_value_def)
    show ?thesis unfolding r_force_number_def Let_def f using c rd i magic by (auto simp: f split: if_splits)
  qed
  then show ?thesis by (auto simp: settled_def force_number_def input_value_def)
qed

definition piece :: "num_env \<Rightarrow> u8 list \<Rightarrow> node" where
  "piece N t = the (settled N (input_value t [0]))"

lemma settled_piece: "settled N (input_value t [0]) = Some (piece N t)"
  using settled_input[of N t] by (auto simp: piece_def)

lemma set_element_assigns: "set_element N avg H blk num p l symb = Awk_Array.do_op avg H symb (Assign (decimal num) (piece N (text_at blk p l)))"
  by (simp add: set_element_def settled_piece)

context string_hash
begin

lemma set_all_elements:
  assumes "table_ok code symb" and "chains_short avg symb" and "\<forall>j > i. elem_map symb (decimal j) = None"
  shows "\<exists>symb'. set_all (set_element N avg hash blk) i sl symb = Some symb' \<and> table_ok code symb' \<and> chains_short avg symb' \<and>
    elem_map symb' = elem_map symb ++ numbered i (map (piece N) (texts blk sl))"
  using assms
proof (induction sl arbitrary: i symb)
  case (Cons x sl)
  obtain p l where x: "x = (p, l)" by (cases x)
  let ?v = "piece N (text_at blk p l)"
  from do_op_ok[OF Cons.prems(1,2), of "Assign (decimal (i + 1)) ?v"] obtain s1 where
    s1: "set_element N avg hash blk (i + 1) p l symb = Some s1" "table_ok code s1" "chains_short avg s1"
      "elem_map s1 = (elem_map symb)(decimal (i + 1) \<mapsto> ?v)"
    by (auto simp: set_element_assigns)
  have "\<forall>j > i + 1. elem_map s1 (decimal j) = None"
    using s1(4) Cons.prems(3) decimal_inj by (metis Suc_eq_plus1 Suc_lessD fun_upd_apply nat_neq_iff)
  from Cons.IH[OF s1(2,3) this] obtain s2 where s2: "set_all (set_element N avg hash blk) (i + 1) sl s1 = Some s2" "table_ok code s2"
    "chains_short avg s2" "elem_map s2 = elem_map s1 ++ numbered (i + 1) (map (piece N) (texts blk sl))" by blast
  have "numbered (i + 1) (map (piece N) (texts blk sl)) (decimal (i + 1)) = None"
    by (rule numbered_None) (use decimal_inj in fastforce)
  then have "elem_map s2 = elem_map symb ++ numbered i (map (piece N) (texts blk (x # sl)))"
    using s2(4) s1(4) x by (auto simp: map_add_def fun_eq_iff split: option.split)
  moreover have "set_all (set_element N avg hash blk) i (x # sl) symb = Some s2" using s1(1) s2(1) x by simp
  ultimately show ?case using s2(2,3) by blast
qed (simp add: map_add_def)

lemma reached_ok: "Awk_Array.do_ops avg hash new_array ops = Some symb \<Longrightarrow> table_ok code symb"
  using do_ops_ok[of new_array avg ops] by (auto simp: new_array_def table_ok_def chains_short_def)

lemma do_split_ok:
  assumes "table_ok code arr" and "choose_parseit E s sp = (parser_of E fs, fs, rp)" and "simple_fs fs" and "\<not> RS_is_null s"
    and "length (awk_split E fs src) < UNLIMITED" and "length src < 2 ^ 31"
  shows "\<exists>arr'. do_split N E s avg hash src arr sp = Some (length (awk_split E fs src), arr') \<and> table_ok code arr' \<and>
    chains_short avg arr' \<and> elem_map arr' = numbered 0 (map (piece N) (awk_split E fs src))"
proof (cases "src = []")
  case True
  then show ?thesis using assoc_clear_ok[OF assms(1), of avg] by (simp add: do_split_def)
next
  case False
  let ?s = "s\<lparr>parse_field := parser_of E fs, FS_regexp := rp\<rparr>" and ?blk = "src @ [0]"
  have t: "text_at ?blk 0 (length src) = src" by (simp add: text_at_def)
  have "parse_field ?s = parser_of E fs" "\<not> RS_is_null ?s" "0 + length src < length ?blk" using assms(4) by simp_all
  from run_parser_law[OF assms(3) this, of UNLIMITED False "parse_high_water s"]
  have "sets_fields (\<lambda>(setf :: symbol setfunc) st. run_parser E ?s setf UNLIMITED ?blk 0 (length src) fs False (parse_high_water s) st)
      (awk_split E fs) ?blk 0 (0 + length src) 0 UNLIMITED" by (simp add: start_nf_def)
  from sets_fields_all[OF this] obtain sl where sl:
    "\<And>(setf :: symbol setfunc) st. run_parser E ?s setf UNLIMITED ?blk 0 (length src) fs False (parse_high_water s) st =
      map_option (\<lambda>st'. (length sl, length src, ?blk, st')) (set_all setf 0 sl st)"
    "texts ?blk sl = awk_split E fs src"
    unfolding t using assms(5) by auto
  have c: "table_ok code (assoc_clear arr)" "chains_short avg (assoc_clear arr)" "elem_map (assoc_clear arr) = Map.empty"
    using assoc_clear_ok[OF assms(1), of avg] by auto
  from set_all_elements[OF c(1,2), of 0 N ?blk sl] c(3) obtain arr' where a: "set_all (set_element N avg hash ?blk) 0 sl (assoc_clear arr) = Some arr'"
    "table_ok code arr'" "chains_short avg arr'" "elem_map arr' = numbered 0 (map (piece N) (awk_split E fs src))"
    unfolding sl(2) by auto
  have "length sl = length (awk_split E fs src)" using sl(2) by (metis length_map)
  then have "do_split N E s avg hash src arr sp = Some (length (awk_split E fs src), arr')"
    using False assms(2,6) sl(1) a(1) by (simp add: do_split_def)
  then show ?thesis using a by blast
qed

end

lemma length_split_by: "length (split_by P xs) \<le> length xs + 1"
  by (induction xs) auto

lemma length_awk_split: "length (awk_split E fs v) \<le> length v + 1"
proof -
  have "length (white_fields P v) \<le> length v + 1" for P
    unfolding white_fields_def using length_filter_le length_split_by by (rule order_trans)
  then show ?thesis by (simp add: awk_split_def null_fields_def sc_fields_def length_split_by[simplified])
qed

text \<open>What the function splits at.\<close>

definition split_sep :: "awk_record \<Rightarrow> separator \<Rightarrow> u8 list" where
  "split_sep r sp = (if fs_dflt sp then sep r else sep_text sp)"

lemma choose_parseit_simple:
  assumes "record_rep E s r" and "fs_dflt sp \<or> simple_fs (sep_text sp) \<and> \<not> re_constant sp"
  shows "\<exists>rp. choose_parseit E s sp = (parser_of E (split_sep r sp), split_sep r sp, rp)" "simple_fs (split_sep r sp)" "\<not> RS_is_null s"
proof -
  have s: "parse_field s = parser_of E (sep r)" "fs_value s = sep r" "simple_fs (sep r)" "\<not> RS_is_null s"
    using assms(1) by (auto simp: record_rep_def holds_record_def holds_fields_def split_fs_def)
  show "simple_fs (split_sep r sp)" "\<not> RS_is_null s" using s assms(2) by (auto simp: split_sep_def)
  show "\<exists>rp. choose_parseit E s sp = (parser_of E (split_sep r sp), split_sep r sp, rp)"
  proof (cases "fs_dflt sp")
    case True
    then show ?thesis using s by (simp add: choose_parseit_def split_sep_def)
  next
    case False
    then have t: "simple_fs (sep_text sp)" "\<not> re_constant sp" using assms(2) by auto
    show ?thesis
    proof (cases "sep_text sp")
      case Nil
      then show ?thesis using False by (simp add: choose_parseit_def split_sep_def parser_of_def)
    next
      case (Cons c cs)
      then have "sep_text sp = [c]" using t(1) by (simp add: simple_fs_def)
      then show ?thesis using False t(2) by (simp add: choose_parseit_def split_sep_def parser_of_def Let_def)
    qed
  qed
qed

section \<open>The variable FIELDWIDTHS\<close>

text \<open>
  \<open>strtoul\<close> with base 10 of the C library, on the memory from a pointer on: the value, how much was read, and whether \<open>errno\<close>
  is set.  A sign is accepted, and a minus negates the value as an \<open>unsigned long\<close>.
\<close>

definition strtoul :: "u8 list \<Rightarrow> nat \<times> nat \<times> bool" where
  "strtoul s =
     (let w = length (takeWhile isspace s); s1 = drop w s;
          sign = (if s1 \<noteq> [] \<and> (hd s1 = 43 \<or> hd s1 = 45) then 1 else 0); minus = (sign = 1 \<and> hd s1 = 45);
          ds = takeWhile isdigit (drop sign s1); v = digits_nat 0 ds
      in if ds = [] then (0, 0, False)
         else if v \<ge> 2 ^ 64 then (2 ^ 64 - 1, w + sign + length ds, True)
         else ((if minus then (2 ^ 64 - v) mod 2 ^ 64 else v), w + sign + length ds, False))"

definition INT_MAX :: nat where "INT_MAX = 2 ^ 31 - 1"

lemma strtoul_used: "strtoul s = (v, used, err) \<Longrightarrow> 0 < v \<Longrightarrow> 0 < used"
  by (auto simp: strtoul_def Let_def split: if_splits)

text \<open>
  The loop of \<open>set_FIELDWIDTHS\<close>: \<open>mem\<close> is the memory from \<open>scan\<close> on.  The array grows when \<open>i + 1\<close> would be out of its
  range; what is new in it has no determined value, and is 0 here.  The result is the value of \<open>i\<close> after the loop, or
  the text for the message of a fatal error.
\<close>

function fw_scan :: "u8 list \<Rightarrow> nat \<Rightarrow> int list \<Rightarrow> (u8 list + nat \<times> int list) option" where
  "fw_scan mem i fw =
     (let fw1 = (if i + 1 \<ge> length fw then fw @ replicate (length fw) 0 else fw);
          scan = dropWhile is_blank mem
      in case scan of [] \<Rightarrow> None
         | c # _ \<Rightarrow>
           if c = 45 then Some (Inl scan)
           else if c = 0 then Some (Inr (i, fw1))
           else if 0 \<notin> set scan then None
           else let (tmp, used, err) = strtoul scan; scan1 = drop used scan
                in if err \<or> (hd scan1 \<noteq> 0 \<and> \<not> is_blank (hd scan1)) \<or> \<not> (0 < tmp \<and> tmp \<le> INT_MAX) then Some (Inl scan)
                   else do {
                     fw2 \<leftarrow> wr_at fw1 i (int tmp);
                     let scan2 = dropWhile is_blank scan1;
                     if scan2 = [] then None
                     else if hd scan2 = 0 then Some (Inr (i, fw2))
                     else fw_scan scan2 (i + 1) fw2 })"
  by pat_completeness auto
termination
proof (relation "measure (\<lambda>(mem, i, fw). length mem)", goal_cases)
  case (2 mem i fw fw1 scan c cs p tmp q used err scan1 fw2 scan2)
  have s: "strtoul scan = (tmp, used, err)" "0 < tmp" using 2 by auto
  have ne: "scan \<noteq> []" using 2 by (metis list.distinct(1))
  have used: "0 < used" using strtoul_used[OF s(1,2)] .
  have "length scan2 \<le> length scan1" using 2 length_dropWhile_le[of is_blank scan1] by simp
  moreover have "length scan1 < length scan" using used ne 2 by simp
  moreover have "length scan \<le> length mem" using 2 length_dropWhile_le[of is_blank mem] by simp
  ultimately show ?case by simp
qed simp

declare fw_scan.simps [simp del]

definition set_FIELDWIDTHS :: "awk_env \<Rightarrow> u8 list \<Rightarrow> fields_state \<Rightarrow> (u8 list + fields_state) option" where
  "set_FIELDWIDTHS E v s0 =
     (if do_traditional E then Some (Inr s0)
      else do {
        (r, s) \<leftarrow> get_field E (UNLIMITED - 1) False s0;
        let fw = (if FIELDWIDTHS s = [] then replicate 4 0 else FIELDWIDTHS s);
        fw0 \<leftarrow> wr_at fw 0 0;
        res \<leftarrow> fw_scan (v @ [0]) 1 fw0;
        (case res of Inl near \<Rightarrow> Some (Inl near)
         | Inr (i, fw1) \<Rightarrow> do {
             fw2 \<leftarrow> wr_at fw1 ((if i = 1 then 0 else i) + 1) (-1);
             Some (Inr (s\<lparr>parse_field := Fw_parse, FIELDWIDTHS := fw2\<rparr>)) }) })"

text \<open>A list of widths as text.\<close>

lemma decimal_ne [simp]: "decimal n \<noteq> []"
  by (subst decimal.simps) simp

lemma isdigit_of_nat: "d < 10 \<Longrightarrow> isdigit (of_nat (48 + d)) \<and> unat (of_nat (48 + d) :: u8) - 48 = d"
proof -
  assume "d < 10"
  then have "unat (of_nat (48 + d) :: u8) = 48 + d" by (simp add: unat_of_nat take_bit_nat_eq_self del: of_nat_add)
  then show ?thesis using \<open>d < 10\<close> by (simp add: isdigit_def word_le_nat_alt)
qed

lemma decimal_digits: "\<forall>c \<in> set (decimal n). isdigit c"
proof (induction n rule: less_induct)
  case (less n)
  show ?case
  proof (cases "n < 10")
    case True
    then show ?thesis using isdigit_of_nat[of n] by (subst decimal.simps) (simp del: of_nat_add)
  next
    case False
    then have "\<forall>c \<in> set (decimal (n div 10)). isdigit c" using less[of "n div 10"] by simp
    then show ?thesis using False isdigit_of_nat[of "n mod 10"] by (subst decimal.simps) (simp del: of_nat_add)
  qed
qed

lemma digits_nat_append: "digits_nat a (xs @ [c]) = digits_nat a xs * 10 + (unat c - 48)"
  by (induction xs arbitrary: a) auto

lemma digits_nat_decimal: "digits_nat 0 (decimal n) = n"
proof (induction n rule: less_induct)
  case (less n)
  show ?case
  proof (cases "n < 10")
    case True
    then show ?thesis using isdigit_of_nat[of n] by (subst decimal.simps) (simp del: of_nat_add)
  next
    case False
    then have "digits_nat 0 (decimal (n div 10)) = n div 10" using less[of "n div 10"] by simp
    then show ?thesis using False isdigit_of_nat[of "n mod 10"]
      by (subst decimal.simps) (simp add: digits_nat_append del: of_nat_add)
  qed
qed

lemma strtoul_decimal:
  assumes "n < 2 ^ 64" and "\<not> isdigit c"
  shows "strtoul (decimal n @ c # rest) = (n, length (decimal n), False)"
proof -
  obtain d ds where d: "decimal n = d # ds" by (cases "decimal n") auto
  have dg: "isdigit d" using decimal_digits[of n] d by simp
  have "takeWhile isdigit (decimal n @ c # rest) = decimal n" using decimal_digits[of n] assms(2) by (simp add: takeWhile_append2)
  then show ?thesis using digits_nat_decimal[of n] assms(1) digit_classes(1)[OF dg] unfolding d
    by (simp add: strtoul_def Let_def)
qed

lemma blank_digit: "isdigit c \<Longrightarrow> \<not> is_blank c" "\<not> isdigit 0" "\<not> isdigit 32"
proof -
  show "\<not> isdigit 0" "\<not> isdigit 32" by (simp_all add: isdigit_def)
  then show "isdigit c \<Longrightarrow> \<not> is_blank c" by (auto simp: is_blank_def isdigit_def)
qed

text \<open>One width, and the end or more widths after it.\<close>

lemma fw_scan_width:
  assumes w: "0 < w" "w \<le> INT_MAX" and i: "0 < i" "i < length fw" and rest: "rest = [0] \<or> (\<exists>d ds. rest = 32 # d # ds \<and> isdigit d \<and> 0 \<in> set ds)"
  shows "fw_scan (decimal w @ rest) i fw =
    (let fw2 = (if i + 1 \<ge> length fw then fw @ replicate (length fw) 0 else fw)[i := int w]
     in if rest = [0] then Some (Inr (i, fw2)) else fw_scan (tl rest) (i + 1) fw2)"
proof -
  obtain d ds where d: "decimal w = d # ds" by (cases "decimal w") auto
  have dg: "isdigit d" using decimal_digits[of w] d by simp
  have sc: "dropWhile is_blank (decimal w @ rest) = decimal w @ rest" using blank_digit(1)[OF dg] d by simp
  obtain c rest' where r: "rest = c # rest'" "c = 0 \<or> c = 32" using rest by auto
  then have nd: "\<not> isdigit c" using blank_digit by auto
  have "w < 2 ^ 64" using w(2) by (simp add: INT_MAX_def)
  then have st: "strtoul (decimal w @ rest) = (w, length (decimal w), False)" using strtoul_decimal[OF _ nd] r by simp
  define mem where "mem = decimal w @ rest"
  obtain mem' where m: "mem = d # mem'" using d by (simp add: mem_def)
  have mem: "dropWhile is_blank mem = d # mem'" "strtoul mem = (w, length (decimal w), False)"
    using sc st m unfolding mem_def by simp_all
  have mem2: "drop (length (decimal w)) mem = rest" unfolding mem_def by simp
  have mem3: "0 \<in> set mem" unfolding mem_def using rest by auto
  have mem4: "d \<noteq> 45" "d \<noteq> 0" using digit_classes(1)[OF dg] by auto
  have ok: "hd rest \<noteq> 0 \<Longrightarrow> is_blank (hd rest)" using r by (auto simp: is_blank_def)
  have wr: "wr_at (if i + 1 \<ge> length fw then fw @ replicate (length fw) 0 else fw) i (int w) =
      Some ((if i + 1 \<ge> length fw then fw @ replicate (length fw) 0 else fw)[i := int w])" using i(2) by simp
  have step: "fw_scan mem i fw = (let fw2 = (if i + 1 \<ge> length fw then fw @ replicate (length fw) 0 else fw)[i := int w];
      scan2 = dropWhile is_blank rest in if scan2 = [] then None else if hd scan2 = 0 then Some (Inr (i, fw2)) else fw_scan scan2 (i + 1) fw2)"
  proof (cases "hd rest = 0")
    case True
    then show ?thesis using mem mem2 mem3 mem4 w wr m by (subst fw_scan.simps) (simp add: Let_def)
  next
    case False
    then show ?thesis using mem mem2 mem3 mem4 w wr m ok[OF False] by (subst fw_scan.simps) (simp add: Let_def)
  qed
  have "dropWhile is_blank rest = (if rest = [0] then [0] else tl rest) \<and> (rest \<noteq> [0] \<longrightarrow> tl rest \<noteq> [] \<and> hd (tl rest) \<noteq> 0)"
    using rest blank_digit(1) digit_classes(1) by (auto simp: is_blank_def)
  then show ?thesis using step unfolding mem_def by (cases "rest = [0]") (simp_all add: Let_def)
qed

text \<open>The whole list: \<open>fw_scan\<close> stores the widths from \<open>i\<close> on and stops at the last one.\<close>

lemma fw_scan_widths:
  assumes "ws \<noteq> []" and "\<forall>w \<in> set ws. 0 < w \<and> w \<le> INT_MAX" and "0 < i" and "i < length fw"
  shows "\<exists>fw'. fw_scan (join [32] (map decimal ws) @ [0]) i fw = Some (Inr (i + length ws - 1, fw')) \<and> i + length ws < length fw' \<and>
    take (i + length ws) fw' = take i fw @ map int ws"
  using assms
proof (induction ws arbitrary: i fw)
  case (Cons w ws)
  let ?fw1 = "if i + 1 \<ge> length fw then fw @ replicate (length fw) 0 else fw"
  let ?fw2 = "?fw1[i := int w]"
  have len: "i + 1 < length ?fw1" "i < length ?fw1" using Cons.prems(3,4) by auto
  have t: "take i ?fw1 = take i fw" using Cons.prems(4) by simp
  have take2: "take (i + 1) ?fw2 = take i fw @ [int w]" using len t by (simp add: take_Suc_conv_app_nth)
  have w: "0 < w" "w \<le> INT_MAX" using Cons.prems(2) by auto
  show ?case
  proof (cases ws)
    case Nil
    have "fw_scan (decimal w @ [0]) i fw = Some (Inr (i, ?fw2))"
      using fw_scan_width[OF w Cons.prems(3,4), of "[0]"] by (simp add: Let_def)
    then show ?thesis using Nil len take2 by (intro exI[of _ ?fw2]) simp
  next
    case c: (Cons v vs)
    let ?rest = "join [32] (map decimal ws) @ [0]"
    obtain d ds where d: "?rest = d # ds" "isdigit d" "0 \<in> set ds"
    proof -
      obtain e es where e: "decimal v = e # es" by (cases "decimal v") auto
      then have "isdigit e" using decimal_digits[of v] by simp
      moreover have "join [32] (map decimal ws) = e # es @ (if vs = [] then [] else 32 # join [32] (map decimal vs))"
        using c e by (cases vs) auto
      ultimately show ?thesis using that[of e] by simp
    qed
    have "fw_scan (decimal w @ 32 # ?rest) i fw = fw_scan ?rest (i + 1) ?fw2"
      using fw_scan_width[OF w Cons.prems(3,4), of "32 # ?rest"] d by (simp add: Let_def)
    moreover have "join [32] (map decimal (w # ws)) @ [0] = decimal w @ 32 # ?rest" using c by simp
    moreover have "ws \<noteq> []" "\<forall>w \<in> set ws. 0 < w \<and> w \<le> INT_MAX" "0 < i + 1" "i + 1 < length ?fw2" using c Cons.prems(2) len by simp_all
    from Cons.IH[OF this] obtain fw' where "fw_scan ?rest (i + 1) ?fw2 = Some (Inr (i + 1 + length ws - 1, fw'))"
      "i + 1 + length ws < length fw'" "take (i + 1 + length ws) fw' = take (i + 1) ?fw2 @ map int ws" by blast
    ultimately show ?thesis using take2 by (intro exI[of _ fw']) (simp add: add.assoc)
  qed
qed simp

text \<open>The widths that stay in \<open>FIELDWIDTHS\<close>.\<close>

definition kept_widths :: "nat list \<Rightarrow> nat list" where
  "kept_widths ws = (if length ws = 1 then [] else ws)"

lemma set_FIELDWIDTHS_ok:
  assumes h: "holds_fields E s F" and "\<not> do_traditional E" and fw: "FIELDWIDTHS s = [] \<or> 4 \<le> length (FIELDWIDTHS s)"
    and ws: "ws \<noteq> []" "\<forall>w \<in> set ws. 0 < w \<and> w \<le> INT_MAX"
  shows "\<exists>s1. set_FIELDWIDTHS E (join [32] (map decimal ws)) s = Some (Inr s1) \<and> parse_field s1 = Fw_parse \<and>
    (\<exists>tl. FIELDWIDTHS s1 = 0 # map int (kept_widths ws) @ -1 # tl)"
proof -
  from get_all_fields(2)[OF h] obtain x s0 where g: "get_field E (UNLIMITED - 1) False s = Some (x, s0)" "same_record s s0" by blast
  have fs: "FIELDWIDTHS s0 = FIELDWIDTHS s" using g(2) by (simp add: same_record_def)
  let ?fw = "if FIELDWIDTHS s = [] then replicate 4 0 else FIELDWIDTHS s"
  let ?fw0 = "?fw[0 := 0]"
  have "4 \<le> length ?fw" using fw by auto
  then have len: "1 < length ?fw0" "take 1 ?fw0 = [0]" by (auto simp: take_Suc_conv_app_nth)
  from fw_scan_widths[OF ws _ len(1)] obtain fw' where f: "fw_scan (join [32] (map decimal ws) @ [0]) 1 ?fw0 = Some (Inr (length ws, fw'))"
    "1 + length ws < length fw'" "take (1 + length ws) fw' = 0 # map int ws" using len(2) by auto
  let ?i = "if length ws = 1 then 0 else length ws"
  let ?fw2 = "fw'[?i + 1 := -1]"
  have kl: "length (kept_widths ws) = ?i" "kept_widths ws = take ?i ws" by (auto simp: kept_widths_def)
  have "take (?i + 1) fw' = take (?i + 1) (take (1 + length ws) fw')" by (simp add: min_absorb1)
  also have "\<dots> = 0 # map int (kept_widths ws)" unfolding f(3) kl(2) by (simp add: take_map)
  finally have t: "take (?i + 1) fw' = 0 # map int (kept_widths ws)" .
  have "?i + 1 < length fw'" using f(2) by simp
  from upd_conv_take_nth_drop[OF this, of "-1"]
  have w: "?fw2 = 0 # map int (kept_widths ws) @ -1 # drop (Suc (?i + 1)) fw'" unfolding t by simp
  define s1 where "s1 = s0\<lparr>parse_field := Fw_parse, FIELDWIDTHS := ?fw2\<rparr>"
  have "set_FIELDWIDTHS E (join [32] (map decimal ws)) s = Some (Inr s1)"
    using assms(2) g(1) fs f(1,2) len unfolding s1_def
    by (cases "FIELDWIDTHS s = []"; cases "length ws = 1") (simp_all add: set_FIELDWIDTHS_def Let_def)
  moreover have "parse_field s1 = Fw_parse" "FIELDWIDTHS s1 = ?fw2" by (simp_all add: s1_def)
  ultimately show ?thesis unfolding w by blast
qed

section \<open>Properties\<close>

text \<open>C31: \<open>split\<close> leaves in the array, whatever was in it, exactly the pieces of the string under 1, 2 and so on, returns their
  number, and for a separator of one character other than a space joining the pieces with it gives the string back.  The
  array is one that a program has made with either hash function, the separator is the current \<open>FS\<close> or a text of at most one
  character other than the backslash, and the length of the string fits an \<open>int\<close>.\<close>

theorem split_fills_array:
  assumes "record_rep E s r" and "H = (if gst then gst_hash_string else awk_hash)" and "Awk_Array.do_ops avg H new_array ops = Some arr"
    and "fs_dflt sp \<or> simple_fs (sep_text sp) \<and> \<not> re_constant sp" and "length src < 2 ^ 31"
  shows "\<exists>arr'. do_split N E s avg H src arr sp = Some (length (awk_split E (split_sep r sp) src), arr') \<and>
    (\<forall>k. in_array H arr' k = Some (numbered 0 (map (piece N) (awk_split E (split_sep r sp) src)) k)) \<and>
    (\<forall>c. split_sep r sp = [c] \<and> c \<noteq> 32 \<longrightarrow> join [c] (awk_split E (split_sep r sp) src) = src)"
proof -
  obtain rp where c: "choose_parseit E s sp = (parser_of E (split_sep r sp), split_sep r sp, rp)"
    using choose_parseit_simple(1)[OF assms(1,4)] by blast
  have simple: "simple_fs (split_sep r sp)" "\<not> RS_is_null s" using choose_parseit_simple(2,3)[OF assms(1,4)] .
  have len: "length (awk_split E (split_sep r sp) src) < UNLIMITED" using length_awk_split[of E "split_sep r sp" src] assms(5) by (simp add: UNLIMITED_def)
  have j: "\<forall>c. split_sep r sp = [c] \<and> c \<noteq> 32 \<longrightarrow> join [c] (awk_split E (split_sep r sp) src) = src"
    by (auto simp: awk_split_def join_sc_fields)
  show ?thesis
  proof (cases gst)
    case True
    have H: "H = gst_hash_string" using assms(2) True by simp
    have ok: "table_ok gst_code arr" using gst_hash.reached_ok[of avg ops arr] assms(3) H by simp
    from gst_hash.do_split_ok[OF ok c simple len assms(5), of N avg] gst_hash.in_array_ok j show ?thesis unfolding H by metis
  next
    case False
    have H: "H = awk_hash" using assms(2) False by simp
    have ok: "table_ok (sdbm 0) arr" using sdbm_hash.reached_ok[of avg ops arr] assms(3) H by simp
    from sdbm_hash.do_split_ok[OF ok c simple len assms(5), of N avg] sdbm_hash.in_array_ok j show ?thesis unfolding H by metis
  qed
qed

definition colon :: separator where
  "colon = \<lparr>fs_dflt = False, re_constant = False, sep_text = [58], sep_regexp = ([58], False)\<rparr>"

theorem split_fills_array_witness:
  "\<exists>arr. do_split demo_num_env demo_env (init_fields demo_env) 2 awk_hash [97, 58, 98] new_array colon = Some (2, arr) \<and>
    in_array awk_hash arr (decimal 2) = Some (Some (piece demo_num_env [98]))"
proof -
  let ?r = "\<lparr>text0 = [], flds = [], sep = [32]\<rparr>"
  have e: "awk_split demo_env (split_sep ?r colon) [97, 58, 98] = [[97], [98]]"
    by (simp add: split_sep_def colon_def awk_split_def sc_fields_def)
  have "numbered 0 (map (piece demo_num_env) [[97], [98]]) (decimal 2) = Some (piece demo_num_env [98])"
    using numbered_at[of 1 "map (piece demo_num_env) [[97], [98]]" 0] by (simp add: numeral_2_eq_2)
  moreover have "fs_dflt colon \<or> simple_fs (sep_text colon) \<and> \<not> re_constant colon" by (simp add: colon_def simple_fs_def)
  moreover have "length [97, 58, 98 :: u8] < 2 ^ 31" by simp
  ultimately show ?thesis
    using split_fills_array[OF init_fields_rep[of demo_env], of awk_hash False 2 "[]" new_array colon "[97, 58, 98]" demo_num_env] unfolding e
    by auto
qed

text \<open>An assignment to \<open>FIELDWIDTHS\<close> of a list of widths stores them, ended by -1, unless the list has one width: then
  the test that is there for an empty string (\<open>i == 1\<close> also holds after the first of several) throws it away, and records have no fields.\<close>

theorem FIELDWIDTHS_loses_single:
  assumes "record_rep E s r" and "\<not> do_traditional E" and "FIELDWIDTHS s = [] \<or> 4 \<le> length (FIELDWIDTHS s)"
    and "ws \<noteq> []" and "\<forall>w \<in> set ws. 0 < w \<and> w \<le> INT_MAX"
  shows "\<exists>s1 widths. set_FIELDWIDTHS E (join [32] (map decimal ws)) s = Some (Inr s1) \<and> parse_field s1 = Fw_parse \<and>
    FIELDWIDTHS s1 = 0 # map int (if length ws = 1 then [] else ws) @ -1 # widths \<and>
    (length ws = 1 \<longrightarrow> (\<forall>(setf :: nat setfunc) up_to blk scan len fs mid st. 0 < up_to \<and> up_to < UNLIMITED \<longrightarrow>
       run_parser E s1 setf up_to blk scan len fs mid 0 st = Some (0, scan + len, blk, st)))"
proof -
  have h: "holds_fields E s (flds r)" using assms(1) by (simp add: record_rep_def holds_record_def)
  from set_FIELDWIDTHS_ok[OF h assms(2-5)] obtain s1 widths where s1: "set_FIELDWIDTHS E (join [32] (map decimal ws)) s = Some (Inr s1)"
    "parse_field s1 = Fw_parse" "FIELDWIDTHS s1 = 0 # map int (kept_widths ws) @ -1 # widths" by blast
  have "run_parser E s1 setf up_to blk scan len fs mid 0 st = Some (0, scan + len, blk, st)"
    if "length ws = 1" "0 < up_to" "up_to < UNLIMITED" for setf :: "nat setfunc" and up_to blk scan len fs mid st
    using s1(2,3) that by (simp add: run_parser_def fw_parse_field_def fw_loop.simps kept_widths_def Let_def)
  then show ?thesis using s1 unfolding kept_widths_def by blast
qed

theorem FIELDWIDTHS_loses_single_witness:
  "\<exists>s1. set_FIELDWIDTHS demo_env [53] (init_fields demo_env) = Some (Inr s1) \<and>
    run_parser demo_env s1 (\<lambda>num p l (st :: nat). None) 1 [97, 98, 99, 0] 0 3 [32] False 0 7 = Some (0, 3, [97, 98, 99, 0], 7)"
proof -
  have d: "decimal 5 = [53]" by (simp add: decimal.simps)
  have "\<not> do_traditional demo_env" "FIELDWIDTHS (init_fields demo_env) = []" "(1 :: nat) < UNLIMITED"
    by (simp_all add: demo_env_def init_fields_def UNLIMITED_def)
  then show ?thesis using FIELDWIDTHS_loses_single[OF init_fields_rep[of demo_env], of "[5]"] d by (fastforce simp: INT_MAX_def)
qed

end
