(* ===== verification/Awk_Escape.thy ===== *)
theory Awk_Escape
  imports Prelude
begin

text \<open>
  Strings with escape sequences: \<open>parse_escape\<close> and \<open>make_str_node\<close> of \<open>node.c\<close>, which read them, and \<open>pp_string_fp\<close> of
  \<open>profile.c\<close>, which writes them.  \<open>char\<close> is signed and the locale has single-byte characters; warnings are left out.
\<close>

section \<open>Reading\<close>

text \<open>
  \<open>s\<close> is the memory from \<open>*string_ptr\<close> on, with the null character that ends the string.  The result is the value and by how much the
  pointer moves; a value beyond an \<open>int\<close> is undefined.
\<close>

fun octal_digits :: "nat \<Rightarrow> u8 list \<Rightarrow> int \<Rightarrow> (int \<times> nat) option" where
  "octal_digits 0 s i = Some (i, 0)"
| "octal_digits (Suc k) [] i = None"
| "octal_digits (Suc k) (c # s) i =
     (if 48 \<le> c \<and> c \<le> 55 then map_option (\<lambda>(j, n). (j, n + 1)) (octal_digits k s (i * 8 + (int (unat c) - 48))) else Some (i, 0))"

definition xdigit :: "u8 \<Rightarrow> int option" where
  "xdigit c = (if 48 \<le> c \<and> c \<le> 57 then Some (int (unat c) - 48)
     else if 65 \<le> c \<and> c \<le> 70 then Some (int (unat c) - 65 + 10)
     else if 97 \<le> c \<and> c \<le> 102 then Some (int (unat c) - 97 + 10) else None)"

fun hex_digits :: "u8 list \<Rightarrow> int \<Rightarrow> (int \<times> nat) option" where
  "hex_digits [] i = None"
| "hex_digits (c # s) i =
     (case xdigit c of None \<Rightarrow> Some (i, 0)
      | Some d \<Rightarrow> if i * 16 + d \<ge> 2 ^ 31 then None else map_option (\<lambda>(j, n). (j, n + 1)) (hex_digits s (i * 16 + d)))"

definition parse_escape :: "bool \<Rightarrow> u8 list \<Rightarrow> (int \<times> nat) option" where
  "parse_escape do_posix s =
     (case s of [] \<Rightarrow> None
      | c # r \<Rightarrow>
          if c = 97 then Some (7, 1) else if c = 98 then Some (8, 1) else if c = 102 then Some (12, 1)
          else if c = 110 then Some (10, 1) else if c = 114 then Some (13, 1) else if c = 116 then Some (9, 1)
          else if c = 118 then Some (11, 1)
          else if c = 10 then Some (-2, 1)
          else if c = 0 then Some (-1, 0)
          else if 48 \<le> c \<and> c \<le> 55 then map_option (\<lambda>(j, n). (j, n + 1)) (octal_digits 2 r (int (unat c) - 48))
          else if c = 120 then
            (if do_posix then Some (120, 1)
             else case r of [] \<Rightarrow> None
               | d # _ \<Rightarrow> if xdigit d = None then Some (120, 1) else map_option (\<lambda>(j, n). (j, n + 1)) (hex_digits r 0))
          else Some (sint c, 1))"

text \<open>The loop of \<open>make_str_node\<close> with \<open>SCAN\<close>: \<open>rem\<close> is \<open>end - pf\<close>, the result what is stored at \<open>ptm\<close> from there on.\<close>

function scan_loop :: "bool \<Rightarrow> u8 list \<Rightarrow> nat \<Rightarrow> u8 list option" where
  "scan_loop do_posix pf rem =
     (if rem = 0 then Some []
      else case pf of [] \<Rightarrow> None
        | c0 # pf1 \<Rightarrow>
            if c0 = 92 then do {
              (c, used) \<leftarrow> parse_escape do_posix pf1;
              rest \<leftarrow> scan_loop do_posix (drop used pf1) (rem - 1 - used);
              Some ((if c < 0 then 92 else word_of_int c) # rest) }
            else do { rest \<leftarrow> scan_loop do_posix pf1 (rem - 1); Some (c0 # rest) })"
  by pat_completeness auto
termination by (relation "measure (\<lambda>(p, pf, rem). rem)") auto

declare scan_loop.simps [simp del]

definition make_str_node :: "bool \<Rightarrow> u8 list \<Rightarrow> u8 list option" where
  "make_str_node do_posix s = scan_loop do_posix (s @ [0]) (length s)"

section \<open>Writing\<close>

definition escapes :: "u8 list" where "escapes = [8, 12, 10, 13, 9, 11, 92]"
definition printables :: "u8 list" where "printables = [98, 102, 110, 114, 116, 118, 92]"

text \<open>\<open>strchr\<close> also finds the null character at the end of the string.\<close>

fun strchr :: "u8 list \<Rightarrow> u8 \<Rightarrow> nat option" where
  "strchr [] c = (if c = 0 then Some 0 else None)"
| "strchr (x # xs) c = (if x = c then Some 0 else map_option Suc (strchr xs c))"

definition octal3 :: "u8 \<Rightarrow> u8 list" where
  "octal3 c = [of_nat (48 + unat c div 64), of_nat (48 + unat c div 8 mod 8), of_nat (48 + unat c mod 8)]"

definition BREAKPOINT :: nat where "BREAKPOINT = 70"

fun pp_chars :: "bool \<Rightarrow> bool \<Rightarrow> u8 \<Rightarrow> nat \<Rightarrow> u8 list \<Rightarrow> u8 list" where
  "pp_chars whiny_users breaklines delim count [] = []"
| "pp_chars whiny_users breaklines delim count (c # str) =
     (let (pre, count1) = (if count + 1 \<ge> BREAKPOINT \<and> breaklines then ([delim, 10, delim], 0) else ([], count + 1));
          (out, count2) =
            (if c = delim then ([92, delim], count1 + 1)
             else if c = 7 then ([92, 97], count1 + 1)
             else case strchr escapes c of
               Some i \<Rightarrow>
                 (let e = [92, (printables @ [0]) ! i]
                  in if breaklines \<and> c = 10 \<and> delim = 34 then (e @ [34, 10, 34], 0) else (e, count1 + 1))
             | None \<Rightarrow>
                 if 32 \<le> c \<and> c \<le> 126 then ([c], count1)
                 else if whiny_users then ([c], count1 + (if c = 0 then 0 else 1) - 1)
                 else (92 # octal3 c, count1 + 3))
      in pre @ out @ pp_chars whiny_users breaklines delim count2 str)"

definition pp_string_fp :: "bool \<Rightarrow> bool \<Rightarrow> u8 \<Rightarrow> u8 list \<Rightarrow> u8 list" where
  "pp_string_fp whiny_users breaklines delim str = delim # pp_chars whiny_users breaklines delim 0 str @ [delim]"

section \<open>What is written is read back\<close>

text \<open>The representation of one character, without breaking lines.\<close>

definition pp_char :: "bool \<Rightarrow> u8 \<Rightarrow> u8 \<Rightarrow> u8 list" where
  "pp_char w delim c =
     (if c = delim then [92, delim] else if c = 7 then [92, 97]
      else case strchr escapes c of Some i \<Rightarrow> [92, (printables @ [0]) ! i]
      | None \<Rightarrow> if 32 \<le> c \<and> c \<le> 126 then [c] else if w then [c] else 92 # octal3 c)"

lemma pp_chars_concat: "pp_chars w False delim count str = concat (map (pp_char w delim) str)"
  by (induction str arbitrary: count) (auto simp: pp_char_def Let_def split: option.splits)

lemma octal_step: "d < 8 \<Longrightarrow> 48 \<le> (of_nat (48 + d) :: u8) \<and> (of_nat (48 + d) :: u8) \<le> 55 \<and> unat (of_nat (48 + d) :: u8) = 48 + d"
proof -
  assume "d < 8"
  then have "unat (of_nat (48 + d) :: u8) = 48 + d" by (simp add: unat_of_nat take_bit_nat_eq_self del: of_nat_add)
  then show ?thesis using \<open>d < 8\<close> by (simp add: word_le_nat_alt)
qed

lemma octal_value: "octal_digits 2 (of_nat (48 + a) # of_nat (48 + b) # s) i = Some (i * 64 + int a * 8 + int b, 2)" if "a < 8" "b < 8"
  using octal_step[OF that(1)] octal_step[OF that(2)] by (simp add: numeral_2_eq_2 del: of_nat_add) simp

lemma parse_octal3: "parse_escape p (octal3 c @ s) = Some (int (unat c), 3)"
proof -
  define a b d where "a = unat c div 64" and "b = unat c div 8 mod 8" and "d = unat c mod 8"
  have "unat c < 2 ^ LENGTH(8)" by (rule unsigned_less)
  then have "unat c < 256" by simp
  then have lt: "a < 4" "b < 8" "d < 8" by (auto simp: a_def b_def d_def)
  have "unat c div 8 div 8 = a" by (simp add: a_def flip: div_mult2_eq)
  then have "a * 8 + b = unat c div 8" using div_mult_mod_eq[of "unat c div 8" 8] by (simp add: b_def)
  then have "a * 64 + b * 8 + d = unat c" using div_mult_mod_eq[of "unat c" 8] unfolding d_def by linarith
  then have v: "int a * 64 + int b * 8 + int d = int (unat c)" by linarith
  then have v': "(int (48 + a) - 48) * 64 + int b * 8 + int d = int (unat c)" by simp
  have s: "unat (of_nat (48 + a) :: u8) = 48 + a" "48 \<le> (of_nat (48 + a) :: u8)" "(of_nat (48 + a) :: u8) \<le> 55" using octal_step[of a] lt by auto
  then have ne: "(of_nat (48 + a) :: u8) \<notin> {97, 98, 102, 110, 114, 116, 118, 10, 0}" by (auto simp: word_le_nat_alt simp del: of_nat_add)
  show ?thesis
    using ne s octal_value[OF lt(2,3), of s "int (48 + a) - 48"] v'
    unfolding octal3_def parse_escape_def a_def[symmetric] b_def[symmetric] d_def[symmetric]
    by (simp del: of_nat_add)
qed

definition plain_delim :: "u8 \<Rightarrow> bool" where
  "plain_delim d \<longleftrightarrow> d = 34 \<or> d = 47"

lemma pp_char_read:
  assumes "c \<noteq> 0" and "plain_delim delim"
  shows "(\<exists>e. pp_char False delim c = 92 # e \<and> (\<forall>s. parse_escape p (e @ s) = Some (int (unat c), length e))) \<or>
    pp_char False delim c = [c] \<and> c \<noteq> 92"
proof (cases "c = delim \<or> c = 7 \<or> c \<in> set escapes")
  case True
  then have "c \<in> {34, 47, 7, 8, 12, 10, 13, 9, 11, 92}" using assms(2) by (auto simp: plain_delim_def escapes_def)
  then show ?thesis using assms(2)
    by (auto simp: plain_delim_def pp_char_def escapes_def printables_def parse_escape_def)
next
  case False
  then have "strchr escapes c = None" using assms(1) by (auto simp: escapes_def)
  then show ?thesis using False parse_octal3[of p c] by (auto simp: pp_char_def escapes_def octal3_def)
qed

lemma scan_loop_pp:
  assumes "0 \<notin> set str" and "plain_delim delim"
  shows "scan_loop p (concat (map (pp_char False delim) str) @ s) (length (concat (map (pp_char False delim) str))) = Some str"
  using assms(1)
proof (induction str)
  case Nil
  then show ?case by (simp add: scan_loop.simps)
next
  case (Cons c str)
  let ?r = "concat (map (pp_char False delim) str)"
  have ih: "scan_loop p (?r @ s) (length ?r) = Some str" using Cons by simp
  have "c \<noteq> 0" using Cons.prems by auto
  from pp_char_read[OF this assms(2), of p] show ?case
  proof
    assume "\<exists>e. pp_char False delim c = 92 # e \<and> (\<forall>s. parse_escape p (e @ s) = Some (int (unat c), length e))"
    then obtain e where e: "pp_char False delim c = 92 # e" "\<And>s. parse_escape p (e @ s) = Some (int (unat c), length e)" by blast
    have "word_of_int (int (unat c)) = c" by simp
    then show ?thesis using e ih by (subst scan_loop.simps) simp
  next
    assume "pp_char False delim c = [c] \<and> c \<noteq> 92"
    then show ?thesis using ih by (subst scan_loop.simps) simp
  qed
qed

section \<open>Properties\<close>

text \<open>C35: A string without null characters that \<open>pp_string_fp\<close> prints, between double quotes or slashes and without breaking
  lines, is read back unchanged by \<open>make_str_node\<close> from what stands between the delimiters.\<close>

theorem printed_string_is_read_back:
  assumes "0 \<notin> set str" and "delim = 34 \<or> delim = 47"
  shows "\<exists>body. pp_string_fp False False delim str = delim # body @ [delim] \<and> make_str_node do_posix body = Some str"
  using scan_loop_pp[OF assms(1), of delim do_posix "[0]"] assms(2)
  by (auto simp: pp_string_fp_def pp_chars_concat make_str_node_def plain_delim_def)

theorem printed_string_is_read_back_witness:
  "make_str_node False [104, 92, 110, 92, 51, 51, 51, 92, 34] = Some [104, 10, 219, 34]"
proof -
  have "pp_string_fp False False 34 [104, 10, 219, 34] = 34 # [104, 92, 110, 92, 51, 51, 51, 92, 34] @ [34]"
    by (simp add: pp_string_fp_def escapes_def printables_def octal3_def Let_def)
  moreover obtain body where "pp_string_fp False False 34 [104, 10, 219, 34] = 34 # body @ [34]" "make_str_node False body = Some [104, 10, 219, 34]"
    using printed_string_is_read_back[of "[104, 10, 219, 34]" 34 False] by auto
  ultimately show ?thesis by simp
qed

text \<open>What does not survive: a null character is printed as a backslash and a null character (\<open>strchr\<close> finds it at the end of
  \<open>escapes\<close>) and read back as these two; and a backslash before a character above 127, or before the end of a line, becomes
  a backslash alone, because \<open>parse_escape\<close> returns a negative number for each.\<close>

theorem escapes_that_are_lost:
  "pp_string_fp w b 34 [0] = [34, 92, 0, 34] \<and> make_str_node p [92, 0] = Some [92, 0] \<and>
   make_str_node p [92, 10] = Some [92] \<and> (128 \<le> c \<longrightarrow> make_str_node p [92, c] = Some [92])"
proof -
  have "make_str_node p [92, c] = Some [92]" if "128 \<le> c"
  proof -
    have "uint c div 128 = 1" using that uint_bounded[of c] by (simp add: word_le_def)
    then have "sint c < 0" by (simp add: sint_uint bit_iff_odd)
    moreover have "c \<notin> {97, 98, 102, 110, 114, 116, 118, 10, 0, 120}" using that by auto
    moreover have "\<not> c \<le> 55" using order_trans[OF that, of 55] by auto
    ultimately show ?thesis by (simp add: make_str_node_def scan_loop.simps parse_escape_def)
  qed
  then show ?thesis
    by (simp add: make_str_node_def scan_loop.simps parse_escape_def pp_string_fp_def escapes_def printables_def BREAKPOINT_def Let_def)
qed

theorem escapes_that_are_lost_witness: "make_str_node False [92, 228] = Some [92]"
  using escapes_that_are_lost[where c = 228 and p = False] by simp

end
