(* ===== verification/Awk_Sub.thy ===== *)
theory Awk_Sub
  imports Prelude
begin

text \<open>
  The functions \<open>sub\<close>, \<open>gsub\<close> and \<open>gensub\<close>, \<open>sub_common\<close> of \<open>builtin.c\<close>, for single-byte locales.  The result is built in a
  buffer that grows; a write past its end is undefined.  \<open>sofar\<close>, \<open>ampersands\<close> and \<open>matches\<close> are of type \<open>int\<close>, and what does not
  fit is undefined too.  The matcher is an argument; the tree is evaluated.
\<close>

section \<open>The replacement cur\<close>

definition is_dig :: "u8 \<Rightarrow> bool" where "is_dig c \<longleftrightarrow> 48 \<le> c \<and> c \<le> 57"

text \<open>\<open>scan[1]\<close>, which is the null character at the end of the text.\<close>

definition peek :: "u8 list \<Rightarrow> u8" where "peek s = (case s of [] \<Rightarrow> 0 | c # _ \<Rightarrow> c)"

text \<open>
  The loop that counts: \<open>repllen\<close> characters and as many copies of the match as there are \<open>ampersands\<close> (38 is the ampersand, 92 the backslash).
\<close>

function count_repl :: "bool \<Rightarrow> bool \<Rightarrow> u8 list \<Rightarrow> nat \<Rightarrow> nat \<Rightarrow> nat \<times> nat" where
  "count_repl backdigs do_posix [] repllen ampersands = (repllen, ampersands)"
| "count_repl backdigs do_posix (c # r) repllen ampersands =
     (if c = 38 then count_repl backdigs do_posix r (repllen - 1) (ampersands + 1)
      else if c = 92 then
        (if backdigs then
           (if is_dig (peek r) then count_repl backdigs do_posix (drop 1 r) repllen (ampersands + 1)
            else count_repl backdigs do_posix (drop 1 r) (repllen - 1) ampersands)
         else if do_posix then
           (if peek r = 38 \<or> peek r = 92 then count_repl backdigs do_posix (drop 1 r) (repllen - 1) ampersands
            else count_repl backdigs do_posix r repllen ampersands)
         else if take 3 r = [92, 92, 38] then count_repl backdigs do_posix (drop 3 r) (repllen - 2) ampersands
         else if take 2 r = [92, 38] then count_repl backdigs do_posix (drop 2 r) (repllen - 1) (ampersands + 1)
         else if peek r = 38 then count_repl backdigs do_posix (drop 1 r) (repllen - 1) ampersands
         else count_repl backdigs do_posix r repllen ampersands)
      else count_repl backdigs do_posix r repllen ampersands)"
  by pat_completeness auto
termination by (relation "measure (\<lambda>(b, p, r, n, a). length r)") auto

text \<open>
  A match: where it starts and ends, and the same for every subpattern that matched.  \<open>slice\<close> is what a loop from one pointer to another copies.
\<close>

type_synonym match = "nat \<times> nat \<times> (nat \<times> nat) option list"

definition slice :: "u8 list \<Rightarrow> nat \<Rightarrow> nat \<Rightarrow> u8 list" where
  "slice t a b = take (b - a) (drop a t)"

definition subpat :: "u8 list \<Rightarrow> (nat \<times> nat) option list \<Rightarrow> nat \<Rightarrow> u8 list" where
  "subpat t subs dig = (if dig < length subs then (case subs ! dig of None \<Rightarrow> [] | Some (a, b) \<Rightarrow> slice t a b) else [])"

text \<open>The loop that copies the replacement: the characters it stores, one after the other.\<close>

function expand :: "bool \<Rightarrow> bool \<Rightarrow> u8 list \<Rightarrow> match \<Rightarrow> u8 list \<Rightarrow> u8 list" where
  "expand backdigs do_posix t mt [] = []"
| "expand backdigs do_posix t mt (c # r) =
     (let matched = slice t (fst mt) (fst (snd mt))
      in if c = 38 then matched @ expand backdigs do_posix t mt r
         else if c = 92 then
           (if backdigs then
              (if is_dig (peek r) then subpat t (snd (snd mt)) (unat (peek r) - 48) @ expand backdigs do_posix t mt (drop 1 r)
               else peek r # expand backdigs do_posix t mt (drop 1 r))
            else if do_posix then
              (if peek r = 38 \<or> peek r = 92 then peek r # expand backdigs do_posix t mt (drop 1 r)
               else 92 # expand backdigs do_posix t mt r)
            else if take 3 r = [92, 92, 38] then [92, 38] @ expand backdigs do_posix t mt (drop 3 r)
            else if take 2 r = [92, 38] then 92 # matched @ expand backdigs do_posix t mt (drop 2 r)
            else if peek r = 38 then 38 # expand backdigs do_posix t mt (drop 1 r)
            else 92 # expand backdigs do_posix t mt r)
         else c # expand backdigs do_posix t mt r)"
  by pat_completeness auto
termination by (relation "measure (\<lambda>(b, p, t, mt, r). length r)") auto

section \<open>Substitution\<close>

text \<open>
  \<open>buflen\<close> is the variable, \<open>alloc\<close> the size of the allocated buffer; \<open>out\<close> is what was stored, so that \<open>bp\<close> is at its end.
\<close>

record sub_state =
  out :: "u8 list"
  buflen :: nat
  alloc :: nat
  matches :: nat
  lastmatchnonzero :: bool

definition put_all :: "u8 list \<Rightarrow> sub_state \<Rightarrow> sub_state option" where
  "put_all cs st = (if length (out st) + length cs \<le> alloc st then Some (st\<lparr>out := out st @ cs\<rparr>) else None)"

function double_to :: "nat \<Rightarrow> nat \<Rightarrow> nat" where
  "double_to need n = (if 0 < n \<and> n < need then double_to need (n * 2) else n)"
  by pat_completeness auto
termination by (relation "measure (\<lambda>(need, n). need - n)") auto

declare double_to.simps [simp del]

definition ensure :: "nat \<Rightarrow> sub_state \<Rightarrow> sub_state" where
  "ensure need st = (if buflen st < need then st\<lparr>buflen := double_to need (buflen st), alloc := double_to need (buflen st)\<rparr> else st)"

text \<open>What does not change: the string \<open>t\<close>, the matcher on it from an offset on, the replacement, and what was counted.\<close>

record sub_env =
  str :: "u8 list"
  research :: "nat \<Rightarrow> match option"
  rtext :: "u8 list"
  repllen :: nat
  ampersands :: nat
  howmany :: int
  bdigs :: bool
  posix_mode :: bool

abbreviation is_global :: "sub_env \<Rightarrow> bool" where "is_global E \<equiv> howmany E = -1"

text \<open>The test for an empty match right after the last one.\<close>

definition skipped :: "nat \<Rightarrow> match \<Rightarrow> sub_state \<Rightarrow> bool" where
  "skipped cur mt st \<longleftrightarrow> fst mt = fst (snd mt) \<and> lastmatchnonzero st \<and> fst mt = cur"

lemma skipped_simps [simp]: "skipped cur mt (st\<lparr>out := x\<rparr>) = skipped cur mt st" "skipped cur mt (st\<lparr>matches := n\<rparr>) = skipped cur mt st"
  "skipped cur mt (ensure n st) = skipped cur mt st"
  by (simp_all add: skipped_def ensure_def)

text \<open>The part of the loop up to the label \<open>empty\<close>.\<close>

definition sub_write :: "sub_env \<Rightarrow> nat \<Rightarrow> nat \<Rightarrow> match \<Rightarrow> sub_state \<Rightarrow> sub_state option" where
  "sub_write E cur current mt st1 =
     (let (ms, me, subs) = mt
      in do {
        st2 \<leftarrow> put_all (slice (str E) cur ms) st1;
        if is_global E \<or> int current = howmany E then
          (if skipped cur mt st2 then Some (st2\<lparr>lastmatchnonzero := False, matches := matches st2 - 1\<rparr>)
           else do {
             st3 \<leftarrow> put_all (expand (bdigs E) (posix_mode E) (str E) mt (rtext E)) st2;
             Some (if ms \<noteq> me then st3\<lparr>lastmatchnonzero := True\<rparr> else st3) })
        else put_all (slice (str E) ms me) st2 })"

definition sub_match :: "sub_env \<Rightarrow> nat \<Rightarrow> nat \<Rightarrow> match \<Rightarrow> sub_state \<Rightarrow> sub_state option" where
  "sub_match E cur current mt st =
     (let (ms, me, subs) = mt;
          len = (ms - cur) + repllen E + ampersands E * (me - ms)
      in do {
        n \<leftarrow> as_int (matches st + 1);
        sofar \<leftarrow> as_int (length (out st));
        sub_write E cur current mt (ensure (sofar + len + 1) (st\<lparr>matches := n\<rparr>)) })"

text \<open>The result has the last \<open>matchend\<close>.  A matcher that does not return a part of the rest of the string has no meaning here.\<close>

function sub_loop :: "sub_env \<Rightarrow> nat \<Rightarrow> nat \<Rightarrow> match \<Rightarrow> sub_state \<Rightarrow> (sub_state \<times> nat) option" where
  "sub_loop E cur current mt st =
     (let (ms, me, subs) = mt in
      if \<not> (cur \<le> ms \<and> ms \<le> me \<and> me \<le> length (str E)) then None
      else do {
        st1 \<leftarrow> sub_match E cur current mt st;
        let copy = (ms = me \<and> me < length (str E));
        st2 \<leftarrow> (if copy then put_all [str E ! me] st1 else Some st1);
        let me1 = (if copy then me + 1 else me);
        if (int current \<ge> howmany E \<and> \<not> is_global E) \<or> (me1 = length (str E) \<and> ms = me1) then Some (st2, me1)
        else (case research E me1 of None \<Rightarrow> Some (st2, me1) | Some mt1 \<Rightarrow> sub_loop E me1 (current + 1) mt1 st2) })"
  by pat_completeness auto
termination by (relation "measure (\<lambda>(E, cur, current, mt, st). length (str E) - cur)") (auto split: if_splits)

declare sub_loop.simps [simp del]

text \<open>The number of matches and the new string.\<close>

definition sub_common :: "(u8 list \<Rightarrow> nat \<Rightarrow> match option) \<Rightarrow> bool \<Rightarrow> u8 list \<Rightarrow> u8 list \<Rightarrow> int \<Rightarrow> bool \<Rightarrow> (nat \<times> u8 list) option" where
  "sub_common search do_posix repl t how_many backdigs =
     (case search t 0 of None \<Rightarrow> Some (0, t)
      | Some mt \<Rightarrow>
          if fst mt > length t then Some (0, t)
          else
            let (n, a) = count_repl backdigs do_posix repl (length repl) 0;
                b = length t + 2
            in do {
              am \<leftarrow> as_int a;
              let E = \<lparr>str = t, research = search t, rtext = repl, repllen = n, ampersands = am, howmany = how_many, bdigs = backdigs,
                posix_mode = do_posix\<rparr>;
              (st, me) \<leftarrow> sub_loop E 0 1 mt \<lparr>out = [], buflen = b, alloc = b + 2, matches = 0, lastmatchnonzero = False\<rparr>;
              sofar \<leftarrow> as_int (length (out st));
              let textlen = length t - me;
              let st1 = (if int (buflen st) - int sofar - int textlen - 1 \<noteq> 0 then st\<lparr>buflen := sofar + textlen + 2, alloc := sofar + textlen + 2\<rparr> else st);
              st2 \<leftarrow> put_all (drop me t) st1;
              st3 \<leftarrow> put_all [0] st2;
              Some (matches st, out st2) })"

definition do_gsub where "do_gsub search do_posix repl t = sub_common search do_posix repl t (-1) False"

definition do_sub where "do_sub search do_posix repl t = sub_common search do_posix repl t 1 False"

text \<open>\<open>gensub\<close>, with its third argument: a text, with its number if it is one, or a number (rounded to an integer).\<close>

datatype which = Which_text "u8 list" "int option" | Which_num int

definition which_match :: "which \<Rightarrow> int" where
  "which_match w =
     (let clip = (\<lambda>d. if d < 1 then 1 else if d < 2 ^ 63 - 1 then d else 2 ^ 63 - 1)
      in case w of
        Which_text s num \<Rightarrow>
          if s \<noteq> [] \<and> (hd s = 103 \<or> hd s = 71) then -1 else (case num of Some d \<Rightarrow> clip d | None \<Rightarrow> 1)
      | Which_num d \<Rightarrow> clip d)"

definition do_gensub :: "(u8 list \<Rightarrow> nat \<Rightarrow> match option) \<Rightarrow> bool \<Rightarrow> u8 list \<Rightarrow> which \<Rightarrow> u8 list \<Rightarrow> u8 list option" where
  "do_gensub search do_posix repl w target = map_option snd (sub_common search do_posix repl target (which_match w) True)"

section \<open>The buffer is large enough\<close>

text \<open>A search in \<open>t\<close> finds a part of the rest, with subpatterns inside it.\<close>

definition finds :: "u8 list \<Rightarrow> (nat \<Rightarrow> match option) \<Rightarrow> bool" where
  "finds t m \<longleftrightarrow> (\<forall>pos ms me subs. m pos = Some (ms, me, subs) \<longrightarrow> pos \<le> ms \<and> ms \<le> me \<and> me \<le> length t \<and>
     (\<forall>a b. Some (a, b) \<in> set subs \<longrightarrow> ms \<le> a \<and> b \<le> me))"

text \<open>A replacement of \<open>gensub\<close> that ends in a backslash with nothing after it.\<close>

fun ends_open :: "u8 list \<Rightarrow> bool" where
  "ends_open [] = False"
| "ends_open [c] = (c = 92)"
| "ends_open (c # d # r) = (if c = 92 then ends_open r else ends_open (d # r))"

lemma length_slice [simp]: "b \<le> length t \<Longrightarrow> length (slice t a b) = b - a"
  by (simp add: slice_def)

lemma length_slice_le: "length (slice t a b) \<le> b - a"
  by (simp add: slice_def)

lemma length_subpat:
  assumes "\<forall>a b. Some (a, b) \<in> set subs \<longrightarrow> ms \<le> a \<and> b \<le> me"
  shows "length (subpat t subs d) \<le> me - ms"
proof (cases "d < length subs")
  case True
  then have mem: "subs ! d \<in> set subs" by simp
  show ?thesis
  proof (cases "subs ! d")
    case (Some x)
    obtain a b where x: "x = (a, b)" by (cases x)
    then have "ms \<le> a" "b \<le> me" using assms mem Some by auto
    then have "b - a \<le> me - ms" by simp
    then show ?thesis using Some x True length_slice_le[of t a b] by (simp add: subpat_def)
  qed (simp add: subpat_def)
qed (simp add: subpat_def)

lemma ends_open_drop: "c = 92 \<Longrightarrow> \<not> ends_open (c # r) \<Longrightarrow> r \<noteq> [] \<and> \<not> ends_open (drop 1 r)"
  by (cases r) auto

lemma ends_open_next: "c \<noteq> 92 \<Longrightarrow> \<not> ends_open (c # r) \<Longrightarrow> \<not> ends_open r"
  by (cases r) auto

lemma peek_in: "peek r \<noteq> 0 \<Longrightarrow> r \<noteq> []"
  by (cases r) (auto simp: peek_def)

lemma take_length: "take k r = xs \<Longrightarrow> length xs = k \<Longrightarrow> k \<le> length r"
  by (metis length_take min.cobounded1)

lemma is_dig_peek: "is_dig (peek r) \<Longrightarrow> r \<noteq> []"
  by (cases r) (auto simp: peek_def is_dig_def)

text \<open>What is counted is enough for what is copied.\<close>

lemma expand_counted:
  assumes "backdigs \<longrightarrow> \<not> ends_open r" and "count_repl backdigs p r n a = (n', a')" and "length r \<le> n"
    and L: "length (slice t (fst mt) (fst (snd mt))) = L" and sub: "\<And>d. length (subpat t (snd (snd mt)) d) \<le> L"
  shows "length (expand backdigs p t mt r) + n + a * L \<le> n' + a' * L + length r"
  using assms(1-3)
proof (induction backdigs p r n a rule: count_repl.induct)
  case (1 backdigs p n a)
  then show ?case by simp
next
  case (2 backdigs p c r n a)
  have len: "length r < n" "length r \<le> n - 1" "length r \<le> n" "length (drop 1 r) \<le> n - 1" "length (drop 1 r) \<le> n" "length (drop 3 r) \<le> n - 2"
    "length (drop 2 r) \<le> n - 1" using 2(13) by auto
  show ?case
  proof (cases "c = 38")
    case True
    then show ?thesis using 2(1)[OF True] 2(11,12) len ends_open_next[of c r] L by (auto simp: Let_def)
  next
    case c38: False
    show ?thesis
    proof (cases "c = 92")
      case c92: True
      note c = c38 c92
      show ?thesis
      proof (cases backdigs)
        case bd: True
        have e: "r \<noteq> []" "\<not> ends_open (drop 1 r)" using ends_open_drop[OF c92] 2(11) bd by auto
        obtain k where l1: "length r = Suc k" using e(1) by (cases r) auto
        show ?thesis
        proof (cases "is_dig (peek r)")
          case True
          then show ?thesis using 2(2)[OF c bd True] 2(12) e len c bd l1 sub[of "unat (peek r) - 48"] by (auto simp: Let_def)
        next
          case False
          then show ?thesis using 2(3)[OF c bd False] 2(12) e len c bd l1 by (auto simp: Let_def)
        qed
      next
        case bd: False
        show ?thesis
        proof (cases p)
          case p: True
          show ?thesis
          proof (cases "peek r = 38 \<or> peek r = 92")
            case True
            then obtain k where "length r = Suc k" using peek_in[of r] by (cases r) auto
            then show ?thesis using 2(4)[OF c bd p True] 2(12) len c bd p True by (auto simp: Let_def)
          next
            case False
            then show ?thesis using 2(5)[OF c bd p False] 2(12) len c bd p by (auto simp: Let_def)
          qed
        next
          case p: False
          show ?thesis
          proof (cases "take 3 r = [92, 92, 38]")
            case t3: True
            have "3 \<le> length r" by (rule take_length[OF t3]) simp
            then obtain k where k: "length r = 3 + k" using le_Suc_ex by blast
            have "2 \<le> n" using k len(1) by simp
            then obtain m where "n = 2 + m" using le_Suc_ex by blast
            then show ?thesis using 2(6)[OF c bd p t3] 2(12) k len c bd p t3 by (auto simp: Let_def)
          next
            case t3: False
            show ?thesis
            proof (cases "take 2 r = [92, 38]")
              case t2: True
              have "2 \<le> length r" by (rule take_length[OF t2]) simp
              then obtain k where k: "length r = 2 + k" using le_Suc_ex by blast
              have "1 \<le> n" using k len(1) by simp
              then obtain m where "n = 1 + m" using le_Suc_ex by blast
              then show ?thesis using 2(7)[OF c bd p t3 t2] 2(12) k len c bd p t3 t2 L by (auto simp: Let_def)
            next
              case t2: False
              show ?thesis
              proof (cases "peek r = 38")
                case True
                then obtain k where "length r = Suc k" using peek_in[of r] by (cases r) auto
                then show ?thesis using 2(8)[OF c bd p t3 t2 True] 2(12) len c bd p t3 t2 True by (auto simp: Let_def)
              next
                case False
                then show ?thesis using 2(9)[OF c bd p t3 t2 False] 2(12) len c bd p t3 t2 by (auto simp: Let_def)
              qed
            qed
          qed
        qed
      qed
    next
      case False
      then show ?thesis using 2 c38 len ends_open_next[of c r] by (auto simp: Let_def)
    qed
  qed
qed

text \<open>One round of the loop: what it adds to the output, and that there is room for it.\<close>

definition round_ok :: "sub_env \<Rightarrow> bool" where
  "round_ok E \<longleftrightarrow> (bdigs E \<longrightarrow> \<not> ends_open (rtext E)) \<and>
     count_repl (bdigs E) (posix_mode E) (rtext E) (length (rtext E)) 0 = (repllen E, ampersands E)"

definition has_room :: "sub_env \<Rightarrow> nat \<Rightarrow> nat \<Rightarrow> sub_state \<Rightarrow> bool" where
  "has_room E cur current st \<longleftrightarrow> buflen st \<le> alloc st \<and> 0 < buflen st \<and>
     (\<not> is_global E \<longrightarrow> int current \<le> howmany E \<and> length (out st) \<le> cur \<and> length (str E) + 2 \<le> buflen st)"

definition selected :: "sub_env \<Rightarrow> nat \<Rightarrow> bool" where
  "selected E current \<longleftrightarrow> is_global E \<or> int current = howmany E"

definition round_out :: "sub_env \<Rightarrow> nat \<Rightarrow> nat \<Rightarrow> match \<Rightarrow> sub_state \<Rightarrow> u8 list" where
  "round_out E cur current mt st = slice (str E) cur (fst mt) @
     (if selected E current then (if skipped cur mt st then [] else expand (bdigs E) (posix_mode E) (str E) mt (rtext E))
      else slice (str E) (fst mt) (fst (snd mt)))"

definition copied :: "sub_env \<Rightarrow> match \<Rightarrow> u8 list" where
  "copied E mt = (if fst mt = fst (snd mt) \<and> fst (snd mt) < length (str E) then [str E ! fst (snd mt)] else [])"

lemma double_to_ok: "0 < n \<Longrightarrow> need \<le> double_to need n \<and> n \<le> double_to need n"
proof (induction need n rule: double_to.induct)
  case (1 need n)
  then show ?case by (subst (1 2) double_to.simps) auto
qed

lemma ensure_ok:
  assumes "buflen st \<le> alloc st" and "0 < buflen st"
  shows "buflen (ensure need st) \<le> alloc (ensure need st)" "need \<le> buflen (ensure need st)" "buflen st \<le> buflen (ensure need st)"
    "out (ensure need st) = out st" "lastmatchnonzero (ensure need st) = lastmatchnonzero st" "matches (ensure need st) = matches st"
  using assms double_to_ok[of "buflen st" need] by (auto simp: ensure_def)

definition valid_match :: "u8 list \<Rightarrow> nat \<Rightarrow> match \<Rightarrow> bool" where
  "valid_match t pos mt \<longleftrightarrow> pos \<le> fst mt \<and> fst mt \<le> fst (snd mt) \<and> fst (snd mt) \<le> length t \<and>
     (\<forall>a b. Some (a, b) \<in> set (snd (snd mt)) \<longrightarrow> fst mt \<le> a \<and> b \<le> fst (snd mt))"

lemma finds_valid: "finds t m \<Longrightarrow> m pos = Some mt \<Longrightarrow> valid_match t pos mt"
  by (cases mt) (auto simp: finds_def valid_match_def)

lemma expand_room:
  assumes "round_ok E" and v: "valid_match (str E) cur mt"
  shows "length (expand (bdigs E) (posix_mode E) (str E) mt (rtext E)) \<le> repllen E + ampersands E * (fst (snd mt) - fst mt)"
  using expand_counted[of "bdigs E" "rtext E" "posix_mode E" "length (rtext E)" 0 "repllen E" "ampersands E" "str E" mt "fst (snd mt) - fst mt"]
    assms(1) v length_subpat[of "snd (snd mt)" "fst mt" "fst (snd mt)" "str E"] by (simp add: round_ok_def valid_match_def)

lemma round_fits:
  assumes "round_ok E" and v: "valid_match (str E) cur mt" and "has_room E cur current st"
  shows "length (out st) + length (round_out E cur current mt st) + length (copied E mt) \<le>
    max (buflen st) (length (out st) + ((fst mt - cur) + repllen E + ampersands E * (fst (snd mt) - fst mt)) + 1)"
proof (cases "selected E current \<and> \<not> skipped cur mt st")
  case True
  have "length (expand (bdigs E) (posix_mode E) (str E) mt (rtext E)) \<le> repllen E + ampersands E * (fst (snd mt) - fst mt)"
    by (rule expand_room[OF assms(1) v])
  moreover have "length (slice (str E) cur (fst mt)) = fst mt - cur" using v by (simp add: valid_match_def)
  moreover have "length (copied E mt) \<le> 1" by (simp add: copied_def)
  ultimately show ?thesis using True by (simp add: round_out_def)
next
  case False
  have c: "length (copied E mt) \<le> 1" by (simp add: copied_def)
  have s: "length (slice (str E) cur (fst mt)) = fst mt - cur" "length (slice (str E) (fst mt) (fst (snd mt))) = fst (snd mt) - fst mt"
    using v by (simp_all add: valid_match_def)
  show ?thesis
  proof (cases "selected E current")
    case True
    then show ?thesis using False c s by (simp add: round_out_def)
  next
    case sel: False
    then have "length (out st) \<le> cur" "length (str E) + 2 \<le> buflen st" using assms(3) by (auto simp: selected_def has_room_def)
    then have "length (out st) + length (round_out E cur current mt st) + length (copied E mt) \<le> buflen st"
      using sel c s v by (auto simp: round_out_def valid_match_def)
    then show ?thesis by (rule max.coboundedI1)
  qed
qed

text \<open>The state after a round.\<close>

definition round_state :: "sub_env \<Rightarrow> nat \<Rightarrow> nat \<Rightarrow> match \<Rightarrow> sub_state \<Rightarrow> sub_state" where
  "round_state E cur current mt st =
     (let st1 = ensure (length (out st) + ((fst mt - cur) + repllen E + ampersands E * (fst (snd mt) - fst mt)) + 1) (st\<lparr>matches := matches st + 1\<rparr>)
      in st1\<lparr>out := out st @ round_out E cur current mt st @ copied E mt,
           matches := if selected E current \<and> skipped cur mt st then matches st else matches st + 1,
           lastmatchnonzero := if selected E current then (if skipped cur mt st then False else lastmatchnonzero st \<or> fst mt \<noteq> fst (snd mt))
             else lastmatchnonzero st\<rparr>)"

definition next_pos :: "sub_env \<Rightarrow> match \<Rightarrow> nat" where
  "next_pos E mt = (if fst mt = fst (snd mt) \<and> fst (snd mt) < length (str E) then fst (snd mt) + 1 else fst (snd mt))"

lemma sub_write_ok:
  assumes "length (out st) + length (round_out E cur current mt st) \<le> alloc st"
  shows "sub_write E cur current mt st = Some (st\<lparr>out := out st @ round_out E cur current mt st,
     matches := if selected E current \<and> skipped cur mt st then matches st - 1 else matches st,
     lastmatchnonzero := if selected E current then (if skipped cur mt st then False else lastmatchnonzero st \<or> fst mt \<noteq> fst (snd mt))
       else lastmatchnonzero st\<rparr>)"
proof -
  obtain ms me subs where mt: "mt = (ms, me, subs)" by (cases mt)
  show ?thesis
  proof (cases "selected E current")
    case True
    show ?thesis
    proof (cases "skipped cur mt st")
      case sk: True
      then show ?thesis using assms True unfolding mt
        by (simp add: sub_write_def put_all_def round_out_def selected_def)
    next
      case False
      then show ?thesis using assms True unfolding mt
        by (cases "ms = me") (simp_all add: sub_write_def put_all_def round_out_def selected_def)
    qed
  next
    case False
    then show ?thesis using assms unfolding mt by (simp add: sub_write_def put_all_def round_out_def selected_def)
  qed
qed

lemma round_out_cong: "lastmatchnonzero st' = lastmatchnonzero st \<Longrightarrow> round_out E cur current mt st' = round_out E cur current mt st"
  by (simp add: round_out_def skipped_def)

text \<open>The two numbers that a round keeps in an \<open>int\<close>.\<close>

definition in_int :: "sub_state \<Rightarrow> bool" where
  "in_int st \<longleftrightarrow> matches st + 1 < 2 ^ 31 \<and> length (out st) < 2 ^ 31"

lemma sub_loop_round:
  assumes ok: "round_ok E" and v: "valid_match (str E) cur mt" and room: "has_room E cur current st" and int: "in_int st"
  shows "sub_loop E cur current mt st =
    (let st2 = round_state E cur current mt st; me1 = next_pos E mt
     in if (int current \<ge> howmany E \<and> \<not> is_global E) \<or> (me1 = length (str E) \<and> fst mt = me1) then Some (st2, me1)
        else (case research E me1 of None \<Rightarrow> Some (st2, me1) | Some mt1 \<Rightarrow> sub_loop E me1 (current + 1) mt1 st2))"
proof -
  obtain ms me subs where mt: "mt = (ms, me, subs)" by (cases mt)
  define need where "need = length (out st) + ((ms - cur) + repllen E + ampersands E * (me - ms)) + 1"
  define st1 where "st1 = ensure need (st\<lparr>matches := matches st + 1\<rparr>)"
  have e: "buflen st1 \<le> alloc st1" "need \<le> buflen st1" "buflen st \<le> buflen st1" "out st1 = out st"
    "lastmatchnonzero st1 = lastmatchnonzero st" "matches st1 = matches st + 1"
    using ensure_ok[of "st\<lparr>matches := matches st + 1\<rparr>" need] room by (simp_all add: st1_def has_room_def)
  have ro: "round_out E cur current mt st1 = round_out E cur current mt st" using round_out_cong[OF e(5)] .
  have sk: "skipped cur mt st1 = skipped cur mt st" by (simp add: st1_def)
  have fits: "length (out st1) + length (round_out E cur current mt st1) + length (copied E mt) \<le> alloc st1"
  proof -
    have "max (buflen st) need \<le> alloc st1" using e(1-3) by (simp only: max.bounded_iff) linarith
    moreover have "length (out st) + length (round_out E cur current mt st) + length (copied E mt) \<le> max (buflen st) need"
      using round_fits[OF ok v room] unfolding need_def mt by simp
    ultimately show ?thesis unfolding e(4) ro by linarith
  qed
  define st2 where "st2 = st1\<lparr>out := out st1 @ round_out E cur current mt st1,
     matches := if selected E current \<and> skipped cur mt st1 then matches st1 - 1 else matches st1,
     lastmatchnonzero := if selected E current then (if skipped cur mt st1 then False else lastmatchnonzero st1 \<or> fst mt \<noteq> fst (snd mt))
       else lastmatchnonzero st1\<rparr>"
  have m: "sub_match E cur current mt st = Some st2"
    using sub_write_ok[of st1 E cur current mt] fits int unfolding st2_def st1_def need_def by (simp add: sub_match_def mt in_int_def)
  have rs: "st2\<lparr>out := out st2 @ copied E mt\<rparr> = round_state E cur current mt st"
    unfolding round_state_def Let_def mt fst_conv snd_conv need_def[symmetric] st1_def[symmetric]
    using e ro sk by (simp add: st2_def mt)
  have room2: "length (out st2) + length (copied E mt) \<le> alloc st2" using fits by (simp add: st2_def)
  have c: "(if ms = me \<and> me < length (str E) then put_all [str E ! me] st2 else Some st2) = Some (round_state E cur current mt st)"
  proof (cases "ms = me \<and> me < length (str E)")
    case True
    then have "copied E mt = [str E ! me]" by (simp add: copied_def mt)
    then show ?thesis using True room2 rs by (simp add: put_all_def)
  next
    case False
    then have "copied E mt = []" by (auto simp: copied_def mt)
    then have "st2 = round_state E cur current mt st" using rs by simp
    then show ?thesis by (simp only: if_not_P[OF False])
  qed
  have rng: "cur \<le> ms \<and> ms \<le> me \<and> me \<le> length (str E)" using v mt by (simp add: valid_match_def)
  show ?thesis
  proof -
    define copy where "copy = (ms = me \<and> me < length (str E))"
    have nx: "(if copy then me + 1 else me) = next_pos E mt" by (simp add: copy_def next_pos_def mt)
    have "sub_loop E cur current mt st = (let copy = copy; me1 = (if copy then me + 1 else me) in
        if (int current \<ge> howmany E \<and> \<not> is_global E) \<or> (me1 = length (str E) \<and> ms = me1) then Some (round_state E cur current mt st, me1)
        else (case research E me1 of None \<Rightarrow> Some (round_state E cur current mt st, me1)
          | Some mt1 \<Rightarrow> sub_loop E me1 (current + 1) mt1 (round_state E cur current mt st)))"
      using m c rng unfolding copy_def[symmetric] mt by (subst sub_loop.simps) (simp add: copy_def[symmetric] del: if_split)
    then show ?thesis unfolding Let_def nx by (simp add: mt)
  qed
qed

lemma room_after_round:
  assumes "round_ok E" and "valid_match (str E) cur mt" and room: "has_room E cur current st"
    and "\<not> (int current \<ge> howmany E \<and> \<not> is_global E)"
  shows "has_room E (next_pos E mt) (current + 1) (round_state E cur current mt st)"
proof -
  let ?need = "length (out st) + ((fst mt - cur) + repllen E + ampersands E * (fst (snd mt) - fst mt)) + 1"
  note e = ensure_ok[of "st\<lparr>matches := matches st + 1\<rparr>" ?need]
  have b: "buflen st \<le> alloc st" "0 < buflen st" using room by (simp_all add: has_room_def)
  have "\<not> is_global E \<Longrightarrow> length (out st @ round_out E cur current mt st @ copied E mt) \<le> next_pos E mt"
  proof -
    assume g: "\<not> is_global E"
    then have "\<not> selected E current" "length (out st) \<le> cur" using assms(4) room by (auto simp: selected_def has_room_def)
    then show ?thesis using assms(2) by (auto simp: round_out_def copied_def next_pos_def valid_match_def)
  qed
  then show ?thesis using e b room assms(4)
    by (cases "is_global E") (auto simp: has_room_def round_state_def Let_def)
qed

text \<open>The loop returns, whatever is matched.\<close>

lemma next_pos_le: "valid_match t pos mt \<Longrightarrow> t = str E \<Longrightarrow> next_pos E mt \<le> length t"
  by (auto simp: valid_match_def next_pos_def)

lemma next_pos_less:
  assumes "valid_match (str E) cur mt" and "\<not> (next_pos E mt = length (str E) \<and> fst mt = next_pos E mt)"
  shows "length (str E) - next_pos E mt < length (str E) - cur"
  using assms by (auto simp: valid_match_def next_pos_def split: if_splits)

text \<open>How much a round can add, and what that gives for the numbers in an \<open>int\<close>.\<close>

definition weight :: "sub_env \<Rightarrow> nat" where
  "weight E = repllen E + ampersands E + 1"

definition slim :: "sub_env \<Rightarrow> nat \<Rightarrow> sub_state \<Rightarrow> bool" where
  "slim E cur st \<longleftrightarrow> matches st \<le> cur \<and> length (out st) \<le> cur * weight E \<and> (length (str E) + 1) * weight E < 2 ^ 31"

lemma slim_in_int: "slim E cur st \<Longrightarrow> cur \<le> length (str E) \<Longrightarrow> in_int st"
proof -
  assume s: "slim E cur st" and c: "cur \<le> length (str E)"
  have "cur * weight E \<le> (length (str E) + 1) * weight E" using c by (intro mult_le_mono1) simp
  moreover have "(cur + 1) * 1 \<le> (length (str E) + 1) * weight E" using c by (intro mult_le_mono) (simp_all add: weight_def)
  ultimately show ?thesis using s by (simp add: slim_def in_int_def)
qed

lemma round_adds:
  assumes ok: "round_ok E" and v: "valid_match (str E) cur mt"
  shows "length (round_out E cur current mt st) + length (copied E mt) \<le> (next_pos E mt - cur) * (ampersands E + 1) + repllen E"
proof -
  obtain ms me subs where mt: "mt = (ms, me, subs)" by (cases mt)
  let ?d = "next_pos E mt - cur"
  have r: "cur \<le> ms" "ms \<le> me" "me \<le> length (str E)" using v mt by (simp_all add: valid_match_def)
  have c: "me \<le> next_pos E mt" "length (copied E mt) = next_pos E mt - me" by (simp_all add: copied_def next_pos_def mt)
  have a: "ampersands E * (me - ms) \<le> ?d * ampersands E" using r c(1) by (subst mult.commute) (intro mult_le_mono1, linarith)
  have "length (round_out E cur current mt st) = (ms - cur) + (if selected E current then (if skipped cur mt st then 0
      else length (expand (bdigs E) (posix_mode E) (str E) mt (rtext E))) else me - ms)" using r by (simp add: round_out_def mt)
  then have "length (round_out E cur current mt st) \<le> (ms - cur) + max (me - ms) (repllen E + ampersands E * (me - ms))"
    using expand_room[OF ok v] by (simp add: mt split: if_split_asm)
  then have "length (round_out E cur current mt st) + length (copied E mt) \<le> ?d + repllen E + ampersands E * (me - ms)" using r c by simp
  then show ?thesis using a unfolding distrib_left by linarith
qed

lemma slim_round:
  assumes "round_ok E" and v: "valid_match (str E) cur mt" and s: "slim E cur st"
  shows "matches (round_state E cur current mt st) \<le> cur + 1"
    and "length (out (round_state E cur current mt st)) \<le> (length (str E) + 1) * weight E"
    and "cur < next_pos E mt \<Longrightarrow> slim E (next_pos E mt) (round_state E cur current mt st)"
proof -
  let ?d = "next_pos E mt - cur" and ?st = "round_state E cur current mt st"
  have n: "cur \<le> next_pos E mt" "next_pos E mt \<le> length (str E)" using v next_pos_le[OF v refl] by (auto simp: valid_match_def next_pos_def)
  have o: "length (out ?st) = length (out st) + length (round_out E cur current mt st) + length (copied E mt)" by (simp add: round_state_def Let_def)
  have l: "length (out ?st) \<le> cur * weight E + ?d * (ampersands E + 1) + repllen E" using round_adds[OF assms(1) v, of current st] s unfolding o slim_def by linarith
  show m: "matches ?st \<le> cur + 1" using s by (auto simp: round_state_def Let_def slim_def)
  have "?d * (ampersands E + 1) + repllen E \<le> (?d + 1) * weight E" by (simp add: weight_def algebra_simps)
  then have "length (out ?st) \<le> (cur + (?d + 1)) * weight E" using l by (simp only: add_mult_distrib)
  also have "\<dots> \<le> (length (str E) + 1) * weight E" using n by (intro mult_le_mono1) simp
  finally show "length (out ?st) \<le> (length (str E) + 1) * weight E" .
  assume c: "cur < next_pos E mt"
  then have "1 * repllen E \<le> ?d * repllen E" by (intro mult_le_mono1) linarith
  then have "?d * (ampersands E + 1) + repllen E \<le> ?d * weight E" by (simp add: weight_def algebra_simps)
  then have "length (out ?st) \<le> (cur + ?d) * weight E" using l by (simp only: add_mult_distrib)
  then show "slim E (next_pos E mt) ?st" using m c s by (simp add: slim_def)
qed

lemma sub_loop_returns:
  assumes "round_ok E" and "finds (str E) (research E)" and "valid_match (str E) cur mt" and "has_room E cur current st" and "slim E cur st"
  shows "\<exists>st1 me1. sub_loop E cur current mt st = Some (st1, me1) \<and> me1 \<le> length (str E) \<and> buflen st1 \<le> alloc st1 \<and> length (out st1) < 2 ^ 31"
  using assms(3-5)
proof (induction "length (str E) - cur" arbitrary: cur current mt st rule: less_induct)
  case less
  let ?st2 = "round_state E cur current mt st" and ?me = "next_pos E mt"
  have "cur \<le> length (str E)" using less.prems(1) by (auto simp: valid_match_def)
  then have i: "in_int st" by (rule slim_in_int[OF less.prems(3)])
  note r = sub_loop_round[OF assms(1) less.prems(1,2) i] room_after_round[OF assms(1) less.prems(1,2)]
  have b: "buflen ?st2 \<le> alloc ?st2"
    using ensure_ok(1)[of "st\<lparr>matches := matches st + 1\<rparr>"] less.prems(2) by (simp add: round_state_def Let_def has_room_def)
  have o: "length (out ?st2) < 2 ^ 31" using slim_round(2)[OF assms(1) less.prems(1,3), of current] less.prems(3) unfolding slim_def by linarith
  have n: "?me \<le> length (str E)" using next_pos_le[OF less.prems(1) refl] .
  show ?case
  proof (cases "(int current \<ge> howmany E \<and> \<not> is_global E) \<or> (?me = length (str E) \<and> fst mt = ?me) \<or> research E ?me = None")
    case True
    then show ?thesis using r(1) b n o by (auto simp: Let_def)
  next
    case False
    then obtain mt1 where m: "research E ?me = Some mt1" by auto
    have d: "length (str E) - ?me < length (str E) - cur" using next_pos_less[OF less.prems(1)] False by simp
    then have "slim E ?me ?st2" by (intro slim_round(3)[OF assms(1) less.prems(1,3)]) simp
    from less.hyps[OF d finds_valid[OF assms(2) m] r(2) this] False m r(1) show ?thesis by (auto simp: Let_def)
  qed
qed

lemma count_repl_le: "count_repl backdigs p r n a = (n', a') \<Longrightarrow> n' \<le> n \<and> a' \<le> a + length r"
proof (induction backdigs p r n a rule: count_repl.induct)
  case (2 backdigs p c r n a)
  then show ?case by (auto split: if_split_asm)
qed simp

lemma sub_common_unfold:
  assumes "search t 0 = Some mt" and "valid_match t 0 mt" and "count_repl backdigs p repl (length repl) 0 = (n, a)"
    and "sub_loop \<lparr>str = t, research = search t, rtext = repl, repllen = n, ampersands = a, howmany = how_many, bdigs = backdigs, posix_mode = p\<rparr>
      0 1 mt \<lparr>out = [], buflen = length t + 2, alloc = length t + 2 + 2, matches = 0, lastmatchnonzero = False\<rparr> = Some (st, me)"
    and "me \<le> length t" and "buflen st \<le> alloc st" and "a < 2 ^ 31" and "length (out st) < 2 ^ 31"
  shows "sub_common search p repl t how_many backdigs = Some (matches st, out st @ drop me t)"
proof -
  have "\<not> fst mt > length t" using assms(2) by (auto simp: valid_match_def)
  then show ?thesis using assms
    by (cases "int (buflen st) - int (length (out st)) - int (length t - me) - 1 = 0") (simp_all add: sub_common_def put_all_def Let_def)
qed

text \<open>The first state.\<close>

abbreviation sub_start :: "u8 list \<Rightarrow> sub_state" where
  "sub_start t \<equiv> \<lparr>out = [], buflen = length t + 2, alloc = length t + 2 + 2, matches = 0, lastmatchnonzero = False\<rparr>"

lemma room_at_start: "how_many = -1 \<or> 1 \<le> how_many \<Longrightarrow> str E = t \<Longrightarrow> howmany E = how_many \<Longrightarrow> has_room E 0 1 (sub_start t)"
  by (auto simp: has_room_def)

lemma sub_common_returns:
  assumes "finds t (search t)" and "how_many = -1 \<or> 1 \<le> how_many" and "backdigs \<longrightarrow> \<not> ends_open repl"
    and size: "(length t + 1) * (2 * length repl + 1) < 2 ^ 31"
  shows "\<exists>n s. sub_common search p repl t how_many backdigs = Some (n, s)"
proof (cases "search t 0")
  case None
  then show ?thesis by (simp add: sub_common_def)
next
  case (Some mt)
  obtain n a where c: "count_repl backdigs p repl (length repl) 0 = (n, a)" by (cases "count_repl backdigs p repl (length repl) 0")
  let ?E = "\<lparr>str = t, research = search t, rtext = repl, repllen = n, ampersands = a, howmany = how_many, bdigs = backdigs, posix_mode = p\<rparr>"
  have ok: "round_ok ?E" using c assms(3) by (simp add: round_ok_def)
  have f: "finds (str ?E) (research ?E)" using assms(1) by simp
  have v: "valid_match t 0 mt" using finds_valid[OF f] Some by simp
  have room: "has_room ?E 0 1 (sub_start t)" using room_at_start[OF assms(2), of ?E t] by simp
  have v': "valid_match (str ?E) 0 mt" using v by simp
  have na: "n \<le> length repl" "a \<le> length repl" using count_repl_le[OF c] by simp_all
  have "(length t + 1) * (n + a + 1) \<le> (length t + 1) * (2 * length repl + 1)" using na by (intro mult_le_mono2) simp
  then have w: "(length t + 1) * (n + a + 1) < 2 ^ 31" using size by linarith
  then have s: "slim ?E 0 (sub_start t)" by (simp add: slim_def weight_def)
  have "a < n + a + 1" by simp
  also have "\<dots> \<le> (length t + 1) * (n + a + 1)" by simp
  also note w
  finally have a: "a < 2 ^ 31" .
  from sub_loop_returns[OF ok f v' room s] obtain st me where l: "sub_loop ?E 0 1 mt (sub_start t) = Some (st, me)" "me \<le> length t" "buflen st \<le> alloc st"
    "length (out st) < 2 ^ 31" by auto
  from sub_common_unfold[where search = search, OF Some v c l(1-3) a l(4)] show ?thesis by blast
qed

section \<open>What is substituted\<close>

text \<open>
  The meaning of \<open>gsub\<close>: \<open>R\<close> is the text for a match.  Matches are taken from left to right; an empty match right after another
  match does not count, and after an empty match one character is passed over.
\<close>

function gsub_spec :: "(nat \<Rightarrow> match option) \<Rightarrow> (match \<Rightarrow> u8 list) \<Rightarrow> u8 list \<Rightarrow> nat \<Rightarrow> bool \<Rightarrow> nat \<times> u8 list" where
  "gsub_spec m R t pos after_match =
     (case m pos of None \<Rightarrow> (0, drop pos t)
      | Some (ms, me, subs) \<Rightarrow>
          if \<not> (pos \<le> ms \<and> ms \<le> me \<and> me \<le> length t) then (0, drop pos t)
          else if ms < me then (let (n, r) = gsub_spec m R t me True in (n + 1, slice t pos ms @ R (ms, me, subs) @ r))
          else if after_match \<and> ms = pos then
            (if ms < length t then (let (n, r) = gsub_spec m R t (ms + 1) False in (n, t ! ms # r)) else (0, []))
          else if ms < length t then
            (let (n, r) = gsub_spec m R t (ms + 1) False in (n + 1, slice t pos ms @ R (ms, me, subs) @ t ! ms # r))
          else (1, slice t pos ms @ R (ms, me, subs)))"
  by pat_completeness auto
termination by (relation "measure (\<lambda>(m, R, t, pos, a). length t - pos)") auto

declare gsub_spec.simps [simp del]

text \<open>A pattern without anchors matches the empty string everywhere or nowhere.\<close>

definition no_anchors :: "u8 list \<Rightarrow> (nat \<Rightarrow> match option) \<Rightarrow> bool" where
  "no_anchors t m \<longleftrightarrow> (\<forall>pos \<le> length t. \<exists>me subs. m pos = Some (pos, me, subs)) \<or> (\<forall>pos ms me subs. m pos = Some (ms, me, subs) \<longrightarrow> ms < me)"

lemma gsub_loop_spec:
  assumes ok: "round_ok E" and f: "finds (str E) (research E)" and g: "is_global E" and na: "no_anchors (str E) (research E)"
    and "research E cur = Some mt" and "has_room E cur current st" and size: "length (str E) + 1 < 2 ^ 31"
    and "(\<forall>pos \<le> length (str E). \<exists>me subs. research E pos = Some (pos, me, subs)) \<longrightarrow> lastmatchnonzero st = D"
    and "cur \<le> length (str E)" and "matches st \<le> cur"
    and "length (out st) + length (snd (gsub_spec (research E) (\<lambda>mt. expand (bdigs E) (posix_mode E) (str E) mt (rtext E)) (str E) cur D)) < 2 ^ 31"
  shows "\<exists>st1 me1. sub_loop E cur current mt st = Some (st1, me1) \<and> me1 \<le> length (str E) \<and> buflen st1 \<le> alloc st1 \<and> length (out st1) < 2 ^ 31 \<and>
    (let (n, r) = gsub_spec (research E) (\<lambda>mt. expand (bdigs E) (posix_mode E) (str E) mt (rtext E)) (str E) cur D
     in matches st1 = matches st + n \<and> out st1 @ drop me1 (str E) = out st @ r)"
  using assms(5,6,8-)
proof (induction "length (str E) - cur" arbitrary: cur current mt st D rule: less_induct)
  case less
  let ?t = "str E" and ?m = "research E" and ?R = "\<lambda>mt. expand (bdigs E) (posix_mode E) (str E) mt (rtext E)"
  obtain ms me subs where mt: "mt = (ms, me, subs)" by (cases mt)
  have v: "valid_match ?t cur mt" using finds_valid[OF f less.prems(1)] .
  then have rng: "cur \<le> ms" "ms \<le> me" "me \<le> length ?t" using mt by (auto simp: valid_match_def)
  let ?st2 = "round_state E cur current mt st" and ?me = "next_pos E mt"
  have i: "in_int st" using less.prems(4-6) size by (simp add: in_int_def)
  have r: "sub_loop E cur current mt st = (if ?me = length ?t \<and> fst mt = ?me then Some (?st2, ?me)
      else (case ?m ?me of None \<Rightarrow> Some (?st2, ?me) | Some mt1 \<Rightarrow> sub_loop E ?me (current + 1) mt1 ?st2))"
    using sub_loop_round[OF ok v less.prems(2) i] g by (simp add: Let_def)
  have room: "has_room E ?me (current + 1) ?st2" using room_after_round[OF ok v less.prems(2)] g by simp
  then have b: "buflen ?st2 \<le> alloc ?st2" by (simp add: has_room_def)
  have n: "?me \<le> length ?t" using next_pos_le[OF v refl] .
  have sel: "selected E current" using g by (simp add: selected_def)
  define D2 where "D2 = (ms < me)"
  have skip: "skipped cur mt st \<longleftrightarrow> ms = me \<and> D \<and> ms = cur"
  proof (cases "\<forall>pos \<le> length ?t. \<exists>me subs. ?m pos = Some (pos, me, subs)")
    case True
    then show ?thesis using less.prems(3) mt by (auto simp: skipped_def)
  next
    case False
    then have "ms < me" using na less.prems(1) unfolding mt no_anchors_def by metis
    then show ?thesis using mt by (simp add: skipped_def)
  qed
  have last2: "(\<forall>pos \<le> length ?t. \<exists>me subs. ?m pos = Some (pos, me, subs)) \<longrightarrow> lastmatchnonzero ?st2 = D2"
  proof
    assume all: "\<forall>pos \<le> length ?t. \<exists>me subs. ?m pos = Some (pos, me, subs)"
    then have "ms = cur" using less.prems(1,4) mt by force
    moreover have "lastmatchnonzero st = D" using less.prems(3) all by simp
    ultimately show "lastmatchnonzero ?st2 = D2" using sel skip mt rng by (auto simp: round_state_def D2_def Let_def)
  qed
  have out2: "out ?st2 = out st @ slice ?t cur ms @ (if skipped cur mt st then [] else ?R mt) @ copied E mt"
    "matches ?st2 = (if skipped cur mt st then matches st else matches st + 1)"
    using sel mt by (simp_all add: round_state_def round_out_def Let_def)
  have eq: "gsub_spec ?m ?R ?t cur D = (let (n, r) = (if ?me = length ?t \<and> fst mt = ?me then (0, []) else gsub_spec ?m ?R ?t ?me D2)
      in ((if skipped cur mt st then 0 else 1) + n, slice ?t cur ms @ (if skipped cur mt st then [] else ?R mt) @ copied E mt @ r))"
  proof (cases "ms < me")
    case True
    then show ?thesis using less.prems(1) mt rng skip
      by (subst gsub_spec.simps) (simp add: next_pos_def copied_def D2_def split_beta Let_def)
  next
    case False
    then have e: "me = ms" using rng by simp
    show ?thesis
    proof (cases "ms < length ?t")
      case True
      then show ?thesis using less.prems(1) mt rng skip e
        by (subst gsub_spec.simps) (simp add: next_pos_def copied_def D2_def split_beta Let_def slice_def)
    next
      case False
      then have "ms = length ?t" using rng by simp
      then show ?thesis using less.prems(1) mt rng skip e
        by (subst gsub_spec.simps) (simp add: next_pos_def copied_def D2_def split_beta Let_def slice_def)
    qed
  qed
  have small: "length (out ?st2) + length (snd (if ?me = length ?t \<and> fst mt = ?me then (0, []) else gsub_spec ?m ?R ?t ?me D2)) < 2 ^ 31"
    using less.prems(6) out2(1) unfolding eq by (simp add: split_beta Let_def)
  text \<open>The rest of the string.\<close>
  obtain st1 me1 where l: "sub_loop E cur current mt st = Some (st1, me1)" "me1 \<le> length ?t" "buflen st1 \<le> alloc st1"
    "length (out st1) < 2 ^ 31"
    and rest: "let (n, r) = (if ?me = length ?t \<and> fst mt = ?me then (0, []) else gsub_spec ?m ?R ?t ?me D2)
      in matches st1 = matches ?st2 + n \<and> out st1 @ drop me1 ?t = out ?st2 @ r"
  proof (cases "?me = length ?t \<and> fst mt = ?me")
    case True
    then show ?thesis using that[of ?st2 ?me] r b n small by simp
  next
    case False
    show ?thesis
    proof (cases "?m ?me")
      case None
      then show ?thesis using that[of ?st2 ?me] r b n small False by (simp add: gsub_spec.simps)
    next
      case (Some mt1)
      have d: "length ?t - ?me < length ?t - cur" using next_pos_less[OF v] False mt by simp
      then have "cur < ?me" by linarith
      then have "matches ?st2 \<le> ?me" using out2(2) less.prems(5) by (cases "skipped cur mt st") simp_all
      moreover have "length (out ?st2) + length (snd (gsub_spec ?m ?R ?t ?me D2)) < 2 ^ 31" using small False by simp
      ultimately obtain st1 me1 where
        "sub_loop E ?me (current + 1) mt1 ?st2 = Some (st1, me1)" "me1 \<le> length ?t" "buflen st1 \<le> alloc st1"
        "length (out st1) < 2 ^ 31"
        "let (n, r) = gsub_spec ?m ?R ?t ?me D2 in matches st1 = matches ?st2 + n \<and> out st1 @ drop me1 ?t = out ?st2 @ r"
        using less.hyps[OF d Some room last2 n] by blast
      then show ?thesis using that[of st1 me1] r Some False by simp
    qed
  qed
  show ?case using eq l rest out2 by (auto simp: split_beta Let_def)
qed

section \<open>The properties\<close>

lemma which_match_range: "which_match w = -1 \<or> 1 \<le> which_match w"
  by (auto simp: which_match_def Let_def split: which.splits option.splits)

lemma sub_common_steps:
  assumes "finds t (search t)" and "search t 0 = Some mt" and "how_many = -1 \<or> 1 \<le> how_many" and "backdigs \<longrightarrow> \<not> ends_open repl"
    and "count_repl backdigs p repl (length repl) 0 = (n, a)"
  defines "E \<equiv> \<lparr>str = t, research = search t, rtext = repl, repllen = n, ampersands = a, howmany = how_many, bdigs = backdigs, posix_mode = p\<rparr>"
  shows "round_ok E" and "finds (str E) (research E)" and "valid_match (str E) 0 mt" and "has_room E 0 1 (sub_start t)"
  using assms finds_valid[of t "search t" 0 mt] room_at_start[OF assms(3), of E t]
  by (simp_all add: round_ok_def)

text \<open>C34: \<open>sub\<close> and \<open>gsub\<close> never write past the end of their buffer, keep the numbers that are of type \<open>int\<close> in its range, and return,
  whatever the pattern and the number of matches, as long as the length of the string times twice the length of the replacement
  is below \<open>2^31\<close> (with one added to each factor); so does \<open>gensub\<close> when its replacement does not end in a backslash that has
  nothing after it.
\<close>

theorem substitution_stays_in_buffer:
  assumes "finds t (search t)" and "(length t + 1) * (2 * length repl + 1) < 2 ^ 31"
  shows "(\<exists>n s. do_sub search p repl t = Some (n, s)) \<and> (\<exists>n s. do_gsub search p repl t = Some (n, s)) \<and>
    (\<not> ends_open repl \<longrightarrow> (\<exists>s. do_gensub search p repl w t = Some s))"
proof -
  have r: "h = -1 \<or> 1 \<le> h \<Longrightarrow> b \<longrightarrow> \<not> ends_open repl \<Longrightarrow> \<exists>n s. sub_common search p repl t h b = Some (n, s)" for h b
    by (rule sub_common_returns[where search = search, OF assms(1) _ _ assms(2)])
  have "\<not> ends_open repl \<Longrightarrow> \<exists>n s. sub_common search p repl t (which_match w) True = Some (n, s)" using r which_match_range by simp
  moreover have "\<exists>n s. sub_common search p repl t 1 False = Some (n, s)" "\<exists>n s. sub_common search p repl t (-1) False = Some (n, s)"
    by (rule r; simp)+
  ultimately show ?thesis by (auto simp: do_sub_def do_gsub_def do_gensub_def)
qed

text \<open>\<open>/b*/\<close> on the text \<open>abc\<close>, and the replacement \<open>-&\<close>.\<close>

definition match_bs :: "u8 list \<Rightarrow> nat \<Rightarrow> match option" where
  "match_bs t pos = (if pos \<le> length t then Some (pos, pos + length (takeWhile (\<lambda>c. c = 98) (drop pos t)), []) else None)"

lemma match_bs_finds: "finds t (match_bs t)"
proof -
  have le: "length (takeWhile (\<lambda>c. c = 98) (drop pos t)) \<le> length t - pos" for pos
    using length_takeWhile_le[of "\<lambda>c. c = 98" "drop pos t"] by simp
  then have "pos + length (takeWhile (\<lambda>c. c = 98) (drop pos t)) \<le> length t" if "pos \<le> length t" for pos
    using le[of pos] that by linarith
  then show ?thesis by (auto simp: finds_def match_bs_def split: if_splits)
qed

lemma substitution_stays_in_buffer_witness:
  "(\<exists>n s. do_sub match_bs False [45, 38] [97, 98, 99] = Some (n, s)) \<and> (\<exists>n s. do_gsub match_bs False [45, 38] [97, 98, 99] = Some (n, s)) \<and>
    (\<exists>s. do_gensub match_bs False [45, 38] (Which_num 2) [97, 98, 99] = Some s)"
  using substitution_stays_in_buffer[where search = match_bs, OF match_bs_finds, where p = False and repl = "[45, 38]" and t = "[97, 98, 99]" and w = "Which_num 2"] by simp

text \<open>C7: \<open>gsub\<close> replaces every match from the left to the right, with an empty match counted only if it does not follow another match at once,
  and returns how many it replaced, for a pattern without anchors.  The lengths of the string, the replacement and the result
  fit an \<open>int\<close>.
\<close>

theorem gsub_replaces:
  assumes "finds t (search t)" and "no_anchors t (search t)"
    and "length t + 1 < 2 ^ 31" and "length repl < 2 ^ 31"
    and "length (snd (gsub_spec (search t) (\<lambda>mt. expand False p t mt repl) t 0 False)) < 2 ^ 31"
  shows "do_gsub search p repl t = Some (gsub_spec (search t) (\<lambda>mt. expand False p t mt repl) t 0 False)"
proof (cases "search t 0")
  case None
  then show ?thesis by (simp add: do_gsub_def sub_common_def gsub_spec.simps)
next
  case (Some mt)
  obtain n a where c: "count_repl False p repl (length repl) 0 = (n, a)" by (cases "count_repl False p repl (length repl) 0")
  note st = sub_common_steps[where search = search and how_many = "-1" and backdigs = False, OF assms(1) Some _ _ c, simplified]
  from gsub_loop_spec[OF st(1), where cur = 0 and current = 1 and D = False and mt = mt and st = "sub_start t"] st Some assms
  obtain st1 me1 where l: "sub_loop \<lparr>str = t, research = search t, rtext = repl, repllen = n, ampersands = a, howmany = -1, bdigs = False, posix_mode = p\<rparr>
      0 1 mt (sub_start t) = Some (st1, me1)" "me1 \<le> length t" "buflen st1 \<le> alloc st1"
    "length (out st1) < 2 ^ 31" "let (n, r) = gsub_spec (search t) (\<lambda>mt. expand False p t mt repl) t 0 False in matches st1 = n \<and> out st1 @ drop me1 t = r" by auto
  have "a < 2 ^ 31" using count_repl_le[OF c] assms(4) by simp
  from sub_common_unfold[where search = search, OF Some _ c l(1-3) this l(4)] st(3) l(5) show ?thesis by (auto simp: do_gsub_def)
qed

lemma match_bs_no_anchors: "no_anchors t (match_bs t)"
  by (simp add: no_anchors_def match_bs_def)

lemma gsub_replaces_witness: "do_gsub match_bs False [45, 38] [97, 98, 99, 98] = Some (3, [45, 97, 45, 98, 99, 45, 98])"
proof -
  have s: "gsub_spec (match_bs [97, 98, 99, 98]) (\<lambda>mt. expand False False [97, 98, 99, 98] mt [45, 38]) [97, 98, 99, 98] 0 False =
    (3, [45, 97, 45, 98, 99, 45, 98])" by code_simp
  show ?thesis by (subst gsub_replaces[OF match_bs_finds match_bs_no_anchors]) (simp_all add: s del: expand.simps)
qed

text \<open>C33: \<open>sub\<close> replaces exactly the first match that there is by the text that the replacement stands for, leaves the rest of the string as
  it is, and returns 1.  The lengths of the replacement and of the result fit an \<open>int\<close>.\<close>

theorem sub_replaces_first:
  assumes "finds t (search t)" and "search t 0 = Some (ms, me, subs)" and "length repl < 2 ^ 31"
    and "length (take ms t @ expand False p t (ms, me, subs) repl @ drop me t) < 2 ^ 31"
  shows "do_sub search p repl t = Some (1, take ms t @ expand False p t (ms, me, subs) repl @ drop me t)"
proof -
  obtain n a where c: "count_repl False p repl (length repl) 0 = (n, a)" by (cases "count_repl False p repl (length repl) 0")
  note st = sub_common_steps[where search = search and how_many = 1 and backdigs = False, OF assms(1,2) _ _ c, simplified]
  define E where "E = \<lparr>str = t, research = search t, rtext = repl, repllen = n, ampersands = a, howmany = 1, bdigs = False, posix_mode = p\<rparr>"
  let ?st = "round_state E 0 1 (ms, me, subs) (sub_start t)" and ?me = "next_pos E (ms, me, subs)"
  note st = st[folded E_def]
  have l: "sub_loop E 0 1 (ms, me, subs) (sub_start t) = Some (?st, ?me)"
    using sub_loop_round[OF st(1), where cur = 0 and current = 1 and mt = "(ms, me, subs)" and st = "sub_start t"] st(3,4)
    by (simp add: E_def Let_def in_int_def)
  have rng: "ms \<le> me" "me \<le> length t" using st(3) by (simp_all add: valid_match_def E_def)
  have b: "buflen ?st \<le> alloc ?st"
    using ensure_ok(1)[of "(sub_start t)\<lparr>matches := 1\<rparr>"] by (simp add: round_state_def Let_def)
  have o: "matches ?st = 1" "out ?st @ drop ?me t = take ms t @ expand False p t (ms, me, subs) repl @ drop me t"
    using rng Cons_nth_drop_Suc[of me t]
    by (simp_all add: round_state_def round_out_def Let_def selected_def skipped_def copied_def next_pos_def E_def slice_def)
  have m: "?me \<le> length t" using rng by (simp add: next_pos_def E_def)
  have a: "a < 2 ^ 31" using count_repl_le[OF c] assms(3) by simp
  have "length (out ?st) \<le> length (out ?st @ drop ?me t)" by simp
  then have z: "length (out ?st) < 2 ^ 31" using assms(4) unfolding o(2) by linarith
  from sub_common_unfold[where search = search, OF assms(2) _ c l[unfolded E_def] m[unfolded E_def] b[unfolded E_def] a z[unfolded E_def]] st(3)
  show ?thesis using o unfolding E_def by (simp add: do_sub_def)
qed

lemma sub_replaces_first_witness: "do_sub match_bs False [45, 38] [98, 98, 97, 98] = Some (1, [45, 98, 98, 97, 98])"
proof -
  have m: "match_bs [98, 98, 97, 98] 0 = Some (0, 2, [])" by code_simp
  have e: "take 0 [98, 98, 97, 98] @ expand False False [98, 98, 97, 98] (0, 2, []) [45, 38] @ drop 2 [98, 98, 97, 98] = [45, 98, 98, 97, 98]"
    by code_simp
  show ?thesis using sub_replaces_first[where search = match_bs and p = False, OF match_bs_finds m, of "[45, 38]"] unfolding e by simp
qed

text \<open>\<open>/x*/\<close> on a text without \<open>x\<close>.\<close>

definition match_empty :: "u8 list \<Rightarrow> nat \<Rightarrow> match option" where
  "match_empty t pos = (if pos \<le> length t then Some (pos, pos, []) else None)"

text \<open>A replacement of \<open>gensub\<close> that ends in a backslash is not counted in full: \<open>gensub(/x*/, "a\\", "g", "abcde")\<close> writes past the end of
  the buffer.
\<close>

theorem gensub_writes_past_buffer:
  "finds t (match_empty t) \<and> do_gensub match_empty False [97, 92] (Which_text [103] None) [97, 98, 99, 100, 101] = None"
proof
  show "finds t (match_empty t)" by (auto simp: finds_def match_empty_def split: if_splits)
  show "do_gensub match_empty False [97, 92] (Which_text [103] None) [97, 98, 99, 100, 101] = None" by code_simp
qed

text \<open>\<open>/0|\B/\<close>, a pattern with an anchor: the digit, and the empty string inside a word.\<close>

definition is_word :: "u8 \<Rightarrow> bool" where "is_word c \<longleftrightarrow> is_dig c \<or> 97 \<le> c \<and> c \<le> 122"

definition match_inside :: "u8 list \<Rightarrow> nat \<Rightarrow> match option" where
  "match_inside t pos =
     (case filter (\<lambda>i. (i < length t \<and> t ! i = 48) \<or>
          (i < length t \<and> is_word (t ! i)) = (0 < i \<and> is_word (t ! (i - 1)))) [pos ..< length t + 1] of
        [] \<Rightarrow> None
      | i # _ \<Rightarrow> if i < length t \<and> t ! i = 48 then Some (i, i + 1, []) else Some (i, i, []))"

text \<open>
  An empty match that does not follow another match is passed over if a match that was not empty came before, however far: in
  \<open>"0 abcd"\<close> the three empty matches of \<open>/0|\B/\<close> are inside the word, and only two of them are replaced.
\<close>

theorem gsub_misses_match:
  defines "t \<equiv> [48, 32, 97, 98, 99, 100]"
  shows "do_gsub match_inside False [45] t = Some (3, [45, 32, 97, 45, 98, 99, 45, 100])"
    and "gsub_spec (match_inside t) (\<lambda>mt. expand False False t mt [45]) t 0 False = (4, [45, 32, 97, 45, 98, 45, 99, 45, 100])"
  by (unfold t_def, code_simp+)

end
