(* ===== verification/Awk_Random.thy ===== *)
theory Awk_Random
  imports Prelude "HOL-Library.Signed_Division"
begin

text \<open>
  The random numbers of \<open>random.c\<close> and the functions \<open>rand\<close> and \<open>srand\<close> of \<open>builtin.c\<close>.  A state array is a list of
  words; the arrays have numbers.  A pointer into the table is its index from \<open>state\<close>, which is element 1 of its array; element
  0 is \<open>state[-1]\<close>, where the type and the place of the rear pointer are kept while another array is in use.
\<close>

section \<open>random.c\<close>

definition degrees :: "nat list" where "degrees = [0, 7, 15, 31, 63]"
definition seps :: "nat list" where "seps = [0, 3, 1, 3, 1]"
definition MAX_TYPES :: nat where "MAX_TYPES = 5"
definition NSHUFF :: nat where "NSHUFF = 50"

definition randtbl :: "u32 list" where
  "randtbl =
    [3,
     0x991539b1, 0x16a5bce3, 0x6774a4cd, 0x3e01511e, 0x4e508aaa, 0x61048c05,
     0xf5500617, 0x846b7115, 0x6a19892c, 0x896a97af, 0xdb48f936, 0x14898454,
     0x37ffd106, 0xb58bff9c, 0x59e17104, 0xcf918a49, 0x09378c83, 0x52c7a471,
     0x8d293ea9, 0x1f4fc301, 0xc3db71be, 0x39b44e1c, 0xf8a44ef9, 0x4c8b80b1,
     0x19edc328, 0x87bf4bdd, 0xc9b240e5, 0xe9ee4b1b, 0x4382aee7, 0x535b6b41,
     0xf3bec5da]"

record rng =
  mem :: "nat \<Rightarrow> u32 list"
  state :: nat
  fptr :: nat
  rptr :: nat
  rand_type :: nat
  rand_deg :: nat
  rand_sep :: nat
  end_ptr :: nat

text \<open>The parameter is a signed word; the lemma below shows that nothing overflows.\<close>

definition good_rand :: "u32 \<Rightarrow> u32" where
  "good_rand x0 =
     (let x = (if x0 = 0 then 123459876 else x0);
          hi = sint x sdiv 127773;
          lo = sint x smod 127773;
          y = 16807 * lo - 2836 * hi
      in if y < 0 then word_of_int (y + 0x7fffffff) else word_of_int y)"

definition rd_state :: "rng \<Rightarrow> nat \<Rightarrow> u32 option" where
  "rd_state s i = rd_at (mem s (state s)) (i + 1)"

definition wr_state :: "nat \<Rightarrow> u32 \<Rightarrow> rng \<Rightarrow> rng option" where
  "wr_state i v s = do { m \<leftarrow> wr_at (mem s (state s)) (i + 1) v; Some (s\<lparr>mem := (mem s)(state s := m)\<rparr>) }"

definition random :: "rng \<Rightarrow> (u32 \<times> rng) option" where
  "random s =
     (if rand_type s = 0 then do {
        i \<leftarrow> rd_state s 0;
        let v = good_rand i AND 0x7fffffff;
        s1 \<leftarrow> wr_state 0 v s;
        Some (v, s1) }
      else do {
        a \<leftarrow> rd_state s (fptr s);
        b \<leftarrow> rd_state s (rptr s);
        s1 \<leftarrow> wr_state (fptr s) (a + b) s;
        let i = drop_bit 1 (a + b) AND 0x7fffffff;
        Some (i, if fptr s + 1 \<ge> end_ptr s then s1\<lparr>fptr := 0, rptr := rptr s + 1\<rparr>
                 else if rptr s + 1 \<ge> end_ptr s then s1\<lparr>fptr := fptr s + 1, rptr := 0\<rparr>
                 else s1\<lparr>fptr := fptr s + 1, rptr := rptr s + 1\<rparr>) })"

fun random_times :: "nat \<Rightarrow> rng \<Rightarrow> rng option" where
  "random_times 0 s = Some s"
| "random_times (Suc n) s = do { (_, s1) \<leftarrow> random s; random_times n s1 }"

text \<open>\<open>for (i = 1; i < rand_deg; i++) state[i] = good_rand(state[i - 1])\<close>, with the number of rounds that are left.\<close>

fun seed_loop :: "nat \<Rightarrow> nat \<Rightarrow> rng \<Rightarrow> rng option" where
  "seed_loop 0 i s = Some s"
| "seed_loop (Suc n) i s = do { v \<leftarrow> rd_state s (i - 1); s1 \<leftarrow> wr_state i (good_rand v) s; seed_loop n (i + 1) s1 }"

definition srandom :: "u64 \<Rightarrow> rng \<Rightarrow> rng option" where
  "srandom x s =
     do {
       s1 \<leftarrow> wr_state 0 (ucast x) s;
       if rand_type s1 = 0 then random_times NSHUFF s1
       else do {
         s2 \<leftarrow> seed_loop (rand_deg s1 - 1) 1 s1;
         random_times (10 * rand_deg s2) (s2\<lparr>fptr := rand_sep s2, rptr := 0\<rparr>) } }"

text \<open>\<open>state[-1]\<close> gets the type and the rear pointer.\<close>

definition save_rear :: "nat \<Rightarrow> rng \<Rightarrow> rng option" where
  "save_rear a s = do {
     m \<leftarrow> wr_at (mem s a) 0 (if rand_type s = 0 then 0 else of_nat (MAX_TYPES * rptr s + rand_type s));
     Some (s\<lparr>mem := (mem s)(a := m)\<rparr>) }"

definition break_type :: "int \<Rightarrow> nat" where
  "break_type n = (if n < 32 then 0 else if n < 64 then 1 else if n < 128 then 2 else if n < 256 then 3 else 4)"

text \<open>The result is the array that was in use, or \<open>None\<close> for the null pointer.\<close>

definition initstate :: "u64 \<Rightarrow> nat \<Rightarrow> int \<Rightarrow> rng \<Rightarrow> (nat option \<times> rng) option" where
  "initstate seed arg_state n s =
     do {
       s1 \<leftarrow> save_rear (state s) s;
       if n < 8 then Some (None, s1)
       else do {
         let t = break_type n;
         let s2 = s1\<lparr>rand_type := t, rand_deg := degrees ! t, rand_sep := seps ! t, state := arg_state, end_ptr := degrees ! t\<rparr>;
         s3 \<leftarrow> srandom seed s2;
         s4 \<leftarrow> save_rear arg_state s3;
         Some (Some (state s), s4) } }"

definition setstate :: "nat \<Rightarrow> rng \<Rightarrow> (nat \<times> rng) option" where
  "setstate arg_state s =
     do {
       w \<leftarrow> rd_at (mem s arg_state) 0;
       let t = unat w mod MAX_TYPES;
       let rear = unat w div MAX_TYPES;
       s1 \<leftarrow> save_rear (state s) s;
       let s2 = (if t \<le> 4 then s1\<lparr>rand_type := t, rand_deg := degrees ! t, rand_sep := seps ! t\<rparr> else s1);
       let s3 = s2\<lparr>state := arg_state\<rparr>;
       let s4 = (if rand_type s3 \<noteq> 0 then s3\<lparr>rptr := rear, fptr := (rear + rand_sep s3) mod rand_deg s3\<rparr> else s3);
       Some (state s, s4\<lparr>end_ptr := rand_deg s4\<rparr>) }"

definition start_rng :: "(nat \<Rightarrow> u32 list) \<Rightarrow> rng" where
  "start_rng m = \<lparr>mem = m(0 := randtbl), state = 0, fptr = 3, rptr = 0, rand_type = 3, rand_deg = 31, rand_sep = 3, end_ptr = 31\<rparr>"

section \<open>rand and srand\<close>

record awk_rng =
  gen_state :: rng
  firstrand :: bool
  save_seed :: int

definition istate :: nat where "istate = 1"
definition SIZEOF_STATE :: nat where "SIZEOF_STATE = 256"
definition GAWK_RANDOM_MAX :: int where "GAWK_RANDOM_MAX = 0x7fffffff"

definition first_rand :: "awk_rng \<Rightarrow> awk_rng option" where
  "first_rand a =
     (if firstrand a then do {
        (_, s1) \<leftarrow> initstate 1 istate (int SIZEOF_STATE) (gen_state a);
        (_, s2) \<leftarrow> setstate istate s1;
        Some (a\<lparr>gen_state := s2, firstrand := False\<rparr>) }
      else Some a)"

text \<open>The value of \<open>rand()\<close> is the result divided by \<open>GAWK_RANDOM_MAX\<close>.\<close>

definition do_rand :: "awk_rng \<Rightarrow> (int \<times> awk_rng) option" where
  "do_rand a =
     do {
       a1 \<leftarrow> first_rand a;
       (i, s) \<leftarrow> random (gen_state a1);
       Some (uint i mod GAWK_RANDOM_MAX, a1\<lparr>gen_state := s\<rparr>) }"

text \<open>The argument is the time, or the number that was given, as a \<open>long\<close>.\<close>

definition do_srand :: "int \<Rightarrow> awk_rng \<Rightarrow> (int \<times> awk_rng) option" where
  "do_srand n a =
     do {
       let ret = save_seed a;
       a1 \<leftarrow> first_rand a;
       s \<leftarrow> srandom (ucast (word_of_int n :: u32)) (gen_state a1);
       Some (ret, a1\<lparr>gen_state := s, save_seed := n\<rparr>) }"

definition start_awk :: awk_rng where
  "start_awk = \<lparr>gen_state = start_rng (\<lambda>a. if a = istate then replicate 64 0 else []), firstrand = True, save_seed = 1\<rparr>"

section \<open>The generator of a state array\<close>

text \<open>With \<open>2 ^ 31 - 1 = 127773 * 16807 + 2836\<close>, \<open>good_rand\<close> multiplies without overflow.\<close>

lemma good_rand_parts:
  fixes x :: int
  assumes "- (2 ^ 31) \<le> x" "x < 2 ^ 31"
  defines "hi \<equiv> x sdiv 127773" and "lo \<equiv> x smod 127773"
  shows "16807 * lo - 2836 * hi = 16807 * x - hi * 0x7fffffff" and "\<bar>16807 * lo\<bar> < 2 ^ 31" and "\<bar>2836 * hi\<bar> < 2 ^ 31"
    and "\<bar>16807 * lo - 2836 * hi\<bar> < 0x7fffffff"
proof -
  have x: "x = hi * 127773 + lo" using mult_sdiv_smod_eq[of 127773 x] by (simp add: hi_def lo_def)
  show "16807 * lo - 2836 * hi = 16807 * x - hi * 0x7fffffff" using x by simp
  have "(0 \<le> lo \<and> lo < 127773 \<and> 0 \<le> hi \<and> hi \<le> 16807) \<or> (lo \<le> 0 \<and> - 127773 < lo \<and> - 16807 \<le> hi \<and> hi \<le> 0)"
  proof (cases "0 \<le> x")
    case True
    then have "hi = x div 127773" "lo = x mod 127773"
      by (cases "x = 0"; simp add: hi_def lo_def signed_divide_int_def signed_modulo_int_def minus_div_mult_eq_mod)+
    then show ?thesis using True assms(2) by auto
  next
    case False
    then have h: "hi = - ((- x) div 127773)" "lo = - ((- x) mod 127773)"
      by (simp_all add: hi_def lo_def signed_divide_int_def signed_modulo_int_def minus_div_mult_eq_mod)
    moreover have "(- x) div 127773 \<le> 16807" "0 \<le> (- x) div 127773" using False assms(1) by auto
    moreover have "0 \<le> (- x) mod 127773" "(- x) mod 127773 < 127773" by auto
    ultimately show ?thesis by linarith
  qed
  then show "\<bar>16807 * lo\<bar> < 2 ^ 31" "\<bar>2836 * hi\<bar> < 2 ^ 31" "\<bar>16807 * lo - 2836 * hi\<bar> < 0x7fffffff" by auto
qed

lemma good_rand_mod:
  assumes "x \<noteq> 0"
  shows "good_rand x = word_of_int ((16807 * sint x) mod 0x7fffffff)"
proof -
  have r: "- (2 ^ 31) \<le> sint x" "sint x < 2 ^ 31" using sint_range_size[of x] by (simp_all add: word_size)
  note p = good_rand_parts[OF r]
  let ?y = "16807 * (sint x smod 127773) - 2836 * (sint x sdiv 127773)"
  have "16807 * sint x = ?y + sint x sdiv 127773 * 0x7fffffff" using p(1) by simp
  then have m: "(16807 * sint x) mod 0x7fffffff = ?y mod 0x7fffffff" by (metis mod_mult_self1)
  show ?thesis
  proof (cases "?y < 0")
    case True
    then have "?y mod 0x7fffffff = (?y + 0x7fffffff) mod 0x7fffffff" by simp
    also have "\<dots> = ?y + 0x7fffffff" using True p(4) by (intro mod_pos_pos_trivial) auto
    finally show ?thesis using True m assms by (simp add: good_rand_def Let_def)
  next
    case False
    then have "?y mod 0x7fffffff = ?y" using p(4) by (intro mod_pos_pos_trivial) auto
    then show ?thesis using False m assms by (simp add: good_rand_def Let_def)
  qed
qed

text \<open>
  The abstract generator: one number, or the last \<open>d\<close> numbers of the sequence \<open>x (n + d) = x n + x (n + d - s)\<close>, the oldest first.
\<close>

datatype gen = Lcg u32 | Trinomial nat "u32 list"

fun gen_next :: "gen \<Rightarrow> u32 \<times> gen" where
  "gen_next (Lcg x) = (good_rand x AND 0x7fffffff, Lcg (good_rand x AND 0x7fffffff))"
| "gen_next (Trinomial t w) =
     (let y = w ! 0 + w ! (degrees ! t - seps ! t) in (drop_bit 1 y AND 0x7fffffff, Trinomial t (tl w @ [y])))"

definition gen_skip :: "nat \<Rightarrow> gen \<Rightarrow> gen" where "gen_skip n g = ((snd \<circ> gen_next) ^^ n) g"

fun seeds :: "nat \<Rightarrow> u32 \<Rightarrow> u32 list" where
  "seeds 0 x = []"
| "seeds (Suc n) x = x # seeds n (good_rand x)"

definition gen_seed :: "nat \<Rightarrow> u32 \<Rightarrow> gen" where
  "gen_seed t x = (if t = 0 then gen_skip NSHUFF (Lcg x)
     else gen_skip (10 * degrees ! t) (Trinomial t (rotate (seps ! t) (seeds (degrees ! t) x))))"

fun gen_type :: "gen \<Rightarrow> nat" where
  "gen_type (Lcg x) = 0"
| "gen_type (Trinomial t w) = t"

text \<open>The table \<open>m\<close> of a state array with the rear pointer at \<open>r\<close> holds the state of a generator.\<close>

fun holds_gen :: "u32 list \<Rightarrow> nat \<Rightarrow> gen \<Rightarrow> bool" where
  "holds_gen m r (Lcg x) \<longleftrightarrow> 1 < length m \<and> m ! 1 = x"
| "holds_gen m r (Trinomial t w) \<longleftrightarrow> t \<in> {1, 2, 3, 4} \<and> degrees ! t < length m \<and> r < degrees ! t \<and>
     w = rotate ((r + seps ! t) mod degrees ! t) (take (degrees ! t) (tl m))"

text \<open>The registers fit the generator in use.\<close>

definition in_use :: "rng \<Rightarrow> gen \<Rightarrow> bool" where
  "in_use s g \<longleftrightarrow> rand_type s = gen_type g \<and> rand_deg s = degrees ! gen_type g \<and> rand_sep s = seps ! gen_type g \<and>
     end_ptr s = degrees ! gen_type g \<and> holds_gen (mem s (state s)) (rptr s) g \<and>
     (gen_type g \<noteq> 0 \<longrightarrow> fptr s = (rptr s + rand_sep s) mod rand_deg s)"

lemma table_facts:
  "t \<in> {1, 2, 3, 4} \<Longrightarrow> 0 < seps ! t \<and> seps ! t < degrees ! t \<and> 7 \<le> degrees ! t"
  by (auto simp: degrees_def seps_def)

text \<open>Other arrays are left alone.\<close>

definition only_table :: "rng \<Rightarrow> rng \<Rightarrow> bool" where
  "only_table s s1 \<longleftrightarrow> state s1 = state s \<and> (\<forall>a. a \<noteq> state s \<longrightarrow> mem s1 a = mem s a) \<and> (\<forall>a. length (mem s1 a) = length (mem s a))"

lemma only_table_refl: "only_table s s" by (simp add: only_table_def)
lemma only_table_trans: "only_table s s1 \<Longrightarrow> only_table s1 s2 \<Longrightarrow> only_table s s2" by (simp add: only_table_def)

lemma rotate_update:
  assumes "f < length xs"
  shows "rotate (Suc f) (xs[f := y]) = tl (rotate f xs) @ [y]"
proof (rule nth_equalityI)
  show "length (rotate (Suc f) (xs[f := y])) = length (tl (rotate f xs) @ [y])" using assms by (cases xs) (auto split: nat.splits)
  fix i assume "i < length (rotate (Suc f) (xs[f := y]))"
  then have i: "i < length xs" by simp
  show "rotate (Suc f) (xs[f := y]) ! i = (tl (rotate f xs) @ [y]) ! i"
  proof (cases "Suc i < length xs")
    case True
    have "(Suc f + i) mod length xs \<noteq> f"
    proof
      assume a: "(Suc f + i) mod length xs = f"
      show False
      proof (cases "Suc f + i < length xs")
        case True then show ?thesis using a by simp
      next
        case False
        then have "(Suc f + i) mod length xs = Suc f + i - length xs" using assms \<open>Suc i < length xs\<close> by (simp add: mod_if)
        then show ?thesis using a True assms by simp
      qed
    qed
    moreover have "i < length xs - Suc 0" using True by simp
    ultimately show ?thesis using True i by (simp add: nth_rotate nth_append nth_tl del: rotate_Suc)
  next
    case False
    then have "Suc f + i = f + length xs" using i by simp
    then have "(Suc f + i) mod length xs = f" using assms by (metis mod_add_self2 mod_less)
    moreover have "\<not> i < length xs - Suc 0" "i - (length xs - Suc 0) = 0" using False i by auto
    ultimately show ?thesis using i assms by (simp add: nth_rotate nth_append del: rotate_Suc)
  qed
qed

lemma mod_Suc_wrap: "r < d \<Longrightarrow> (if r + 1 \<ge> d then 0 else r + 1) = Suc r mod (d :: nat)"
  by (cases "Suc r = d") auto

lemma random_ok:
  assumes "in_use s g"
  shows "\<exists>s1. random s = Some (fst (gen_next g), s1) \<and> in_use s1 (snd (gen_next g)) \<and> only_table s s1"
proof (cases g)
  case (Lcg x)
  then show ?thesis using assms by (auto simp: in_use_def random_def rd_state_def wr_state_def only_table_def Let_def)
next
  case (Trinomial t w)
  define d e m r where "d = degrees ! t" and "e = seps ! t" and "m = mem s (state s)" and "r = rptr s"
  have t: "t \<in> {1, 2, 3, 4}" and len: "d < length m" and r: "r < d" and f: "fptr s = (r + e) mod d"
    and w: "w = rotate ((r + e) mod d) (take d (tl m))" and regs: "rand_type s = t" "rand_deg s = d" "rand_sep s = e" "end_ptr s = d"
    using assms Trinomial by (auto simp: in_use_def d_def e_def m_def r_def)
  have tf: "0 < e" "e < d" "t \<noteq> 0" using table_facts[OF t] t by (auto simp: d_def e_def)
  have fd: "fptr s < d" using tf f by simp
  let ?tab = "take d (tl m)"
  have lt: "length ?tab = d" using len by simp
  have tab: "?tab ! i = m ! Suc i" if "i < d" for i using that len by (simp add: nth_tl)
  have w0: "w ! 0 = m ! Suc (fptr s)" using tf lt tab fd by (simp add: w nth_rotate f)
  have "((r + e) mod d + (d - e)) mod d = (r + e + (d - e)) mod d" by (rule mod_add_left_eq)
  also have "\<dots> = r" using tf r by simp
  finally have we: "w ! (d - e) = m ! Suc r" using tf lt tab r by (simp add: w nth_rotate)
  define y where "y = w ! 0 + w ! (d - e)"
  have y: "m ! Suc (fptr s) + m ! Suc r = y" by (simp add: y_def w0 we)
  define s1 where "s1 = s\<lparr>mem := (mem s)(state s := m[Suc (fptr s) := y]), fptr := Suc (fptr s) mod d, rptr := Suc r mod d\<rparr>"
  have fr: "fptr s \<noteq> r"
  proof
    assume "fptr s = r"
    then have "(r + e) mod d = r mod d" using f r by simp
    then have "d dvd e" by (metis add_diff_cancel_left' mod_eq_dvd_iff_nat le_add1)
    then show False using tf by (auto dest: dvd_imp_le)
  qed
  have rnd: "random s = Some (drop_bit 1 y AND 0x7fffffff, s1)"
  proof -
    have "\<not> (Suc (fptr s) \<ge> d \<and> Suc r \<ge> d)" using fd r fr by auto
    then show ?thesis
      using len fd r tf y mod_Suc_wrap[OF fd] mod_Suc_wrap[OF r] regs
      by (auto simp: random_def rd_state_def wr_state_def m_def[symmetric] r_def[symmetric] s1_def Let_def split: if_splits)
  qed
  have "in_use s1 (Trinomial t (tl w @ [y]))"
  proof -
    have "rotate (Suc (fptr s)) (?tab[fptr s := y]) = tl w @ [y]" using rotate_update[of "fptr s" ?tab y] fd lt f w by simp
    moreover have "rotate (Suc (fptr s) mod d) (?tab[fptr s := y]) = rotate (Suc (fptr s)) (?tab[fptr s := y])"
      using rotate_conv_mod[of "Suc (fptr s)" "?tab[fptr s := y]"] lt by simp
    moreover have "take d (tl (m[Suc (fptr s) := y])) = ?tab[fptr s := y]" using len by (cases m) (auto simp: take_update_swap)
    moreover have "(Suc r mod d + e) mod d = Suc (fptr s) mod d" by (simp add: f mod_simps)
    ultimately show ?thesis using t len tf regs by (auto simp: in_use_def s1_def d_def[symmetric] e_def[symmetric])
  qed
  then show ?thesis using rnd Trinomial by (auto simp: y_def d_def e_def Let_def s1_def only_table_def m_def)
qed

lemma random_times_ok:
  "in_use s g \<Longrightarrow> \<exists>s1. random_times n s = Some s1 \<and> in_use s1 (gen_skip n g) \<and> only_table s s1"
proof (induction n arbitrary: s g)
  case 0
  then show ?case by (simp add: gen_skip_def only_table_refl)
next
  case (Suc n)
  from random_ok[OF Suc.prems] obtain s1 where s1: "random s = Some (fst (gen_next g), s1)" "in_use s1 (snd (gen_next g))" "only_table s s1" by blast
  from Suc.IH[OF s1(2)] s1 show ?case by (auto simp: gen_skip_def funpow_Suc_right simp del: funpow.simps intro: only_table_trans)
qed

lemma seed_loop_ok:
  assumes "take (Suc i) (tl (mem s (state s))) = p @ [x]" and "length p = i" and "Suc i + n < length (mem s (state s))"
  shows "\<exists>s1. seed_loop n (Suc i) s = Some s1 \<and> take (Suc i + n) (tl (mem s1 (state s))) = p @ seeds (Suc n) x \<and> only_table s s1 \<and>
    s1 = s\<lparr>mem := mem s1\<rparr>"
  using assms
proof (induction n arbitrary: i s p x)
  case 0
  then show ?case by (simp add: only_table_refl)
next
  case (Suc n)
  let ?m = "mem s (state s)"
  have nth: "?m ! Suc i = x"
  proof -
    have "take (Suc i) (tl ?m) ! i = x" unfolding Suc.prems(1) using Suc.prems(2) by (simp add: nth_append)
    moreover have "take (Suc i) (tl ?m) ! i = ?m ! Suc i" using Suc.prems(3) by (simp add: nth_tl)
    ultimately show ?thesis by simp
  qed
  define s1 where "s1 = s\<lparr>mem := (mem s)(state s := ?m[Suc (Suc i) := good_rand x])\<rparr>"
  have step: "seed_loop (Suc n) (Suc i) s = seed_loop n (Suc (Suc i)) s1"
    using nth Suc.prems(3) by (simp add: rd_state_def wr_state_def s1_def)
  have "take (Suc (Suc i)) (tl (?m[Suc (Suc i) := good_rand x])) = (p @ [x]) @ [good_rand x]"
  proof -
    have l: "Suc i < length (tl ?m)" using Suc.prems(3) by simp
    have t: "tl (?m[Suc (Suc i) := good_rand x]) = (tl ?m)[Suc i := good_rand x]" using Suc.prems(3) by (cases ?m) auto
    show ?thesis unfolding t using l Suc.prems(1) by (simp add: take_Suc_conv_app_nth)
  qed
  then have "take (Suc (Suc i)) (tl (mem s1 (state s1))) = (p @ [x]) @ [good_rand x]" by (simp add: s1_def)
  from Suc.IH[OF this] Suc.prems obtain s2 where "seed_loop n (Suc (Suc i)) s1 = Some s2"
    "take (Suc (Suc i) + n) (tl (mem s2 (state s1))) = (p @ [x]) @ seeds (Suc n) (good_rand x)" "only_table s1 s2" "s2 = s1\<lparr>mem := mem s2\<rparr>"
    by (auto simp: s1_def)
  moreover have "only_table s s1" by (simp add: only_table_def s1_def)
  ultimately show ?case using step only_table_trans by (auto simp: s1_def)
qed

text \<open>The registers after \<open>initstate\<close> has chosen a type, and the size of the array it needs.\<close>

definition regs_of :: "rng \<Rightarrow> nat \<Rightarrow> bool" where
  "regs_of s t \<longleftrightarrow> t \<le> 4 \<and> rand_type s = t \<and> rand_deg s = degrees ! t \<and> rand_sep s = seps ! t \<and> end_ptr s = degrees ! t \<and>
     max 1 (degrees ! t) < length (mem s (state s))"

lemma srandom_ok:
  assumes "regs_of s t"
  shows "\<exists>s1. srandom x s = Some s1 \<and> in_use s1 (gen_seed t (ucast x)) \<and> only_table s s1"
proof -
  define s1 where "s1 = s\<lparr>mem := (mem s)(state s := (mem s (state s))[1 := ucast x])\<rparr>"
  have w: "wr_state 0 (ucast x) s = Some s1" using assms by (simp add: wr_state_def s1_def regs_of_def)
  have o1: "only_table s s1" by (simp add: only_table_def s1_def)
  show ?thesis
  proof (cases "t = 0")
    case True
    have "in_use s1 (Lcg (ucast x))" using assms True by (simp add: in_use_def s1_def regs_of_def)
    from random_times_ok[OF this, of NSHUFF] obtain s2 where "random_times NSHUFF s1 = Some s2" "in_use s2 (gen_skip NSHUFF (Lcg (ucast x)))"
      "only_table s1 s2" by blast
    moreover have "rand_type s1 = 0" using assms True by (simp add: s1_def regs_of_def)
    ultimately show ?thesis using w only_table_trans[OF o1] True by (simp add: srandom_def gen_seed_def)
  next
    case False
    then have t: "t \<in> {1, 2, 3, 4}" using assms by (auto simp: regs_of_def)
    note tf = table_facts[OF t]
    have len: "degrees ! t < length (mem s (state s))" using assms by (simp add: regs_of_def)
    have "take (Suc 0) (tl (mem s1 (state s1))) = [] @ [ucast x]"
      using len tf by (cases "mem s (state s)"; cases "tl (mem s (state s))") (auto simp: s1_def)
    moreover have "Suc 0 + (degrees ! t - 1) < length (mem s1 (state s1))" using len tf by (simp add: s1_def)
    ultimately obtain s2 where s2: "seed_loop (degrees ! t - 1) 1 s1 = Some s2" "only_table s1 s2" "s2 = s1\<lparr>mem := mem s2\<rparr>"
      "take (degrees ! t) (tl (mem s2 (state s1))) = seeds (degrees ! t) (ucast x)"
      using seed_loop_ok[of 0 s1 "[]" "ucast x" "degrees ! t - 1"] tf by auto
    let ?s3 = "s2\<lparr>fptr := rand_sep s2, rptr := 0\<rparr>"
    have regs2: "rand_type s2 = t" "rand_deg s2 = degrees ! t" "rand_sep s2 = seps ! t" "end_ptr s2 = degrees ! t" "state s2 = state s1"
    proof -
      obtain M where "s2 = s1\<lparr>mem := M\<rparr>" using s2(3) by blast
      then show "rand_type s2 = t" "rand_deg s2 = degrees ! t" "rand_sep s2 = seps ! t" "end_ptr s2 = degrees ! t" "state s2 = state s1"
        using assms by (simp_all add: s1_def regs_of_def)
    qed
    have "length (mem s2 (state s1)) = length (mem s (state s))" using s2(2) o1 by (simp add: only_table_def)
    then have "in_use ?s3 (Trinomial t (rotate (seps ! t) (seeds (degrees ! t) (ucast x))))"
      using regs2 tf t len s2(4) by (simp add: in_use_def)
    from random_times_ok[OF this, of "10 * degrees ! t"] obtain s4 where s4: "random_times (10 * degrees ! t) ?s3 = Some s4"
      "in_use s4 (gen_seed t (ucast x))" "only_table ?s3 s4" using False by (auto simp: gen_seed_def)
    have "only_table s2 ?s3" by (simp add: only_table_def)
    then have "only_table s s4" using o1 s2(2) s4(3) only_table_trans by blast
    moreover have "rand_type s1 = t" "rand_deg s1 = degrees ! t" using assms by (simp_all add: s1_def regs_of_def)
    ultimately show ?thesis using w s2(1) s4 False regs2 by (simp add: srandom_def)
  qed
qed

text \<open>The generator of an array that is not in use: \<open>state[-1]\<close> has its type and place.\<close>

definition parked :: "u32 list \<Rightarrow> gen \<Rightarrow> bool" where
  "parked m g \<longleftrightarrow> 0 < length m \<and> unat (m ! 0) mod MAX_TYPES = gen_type g \<and> holds_gen m (unat (m ! 0) div MAX_TYPES) g"

text \<open>The generators of the arrays, \<open>g\<close>, and the array in use, \<open>c\<close>; \<open>L\<close> are the sizes of the arrays in words.\<close>

definition rng_ok :: "(nat \<Rightarrow> nat) \<Rightarrow> rng \<Rightarrow> (nat \<Rightarrow> gen option) \<times> nat \<Rightarrow> bool" where
  "rng_ok L s A \<longleftrightarrow> (let (g, c) = A in state s = c \<and> (\<exists>u. g c = Some u \<and> in_use s u) \<and>
     (\<forall>a u. g a = Some u \<longrightarrow> a \<noteq> c \<longrightarrow> parked (mem s a) u) \<and> (\<forall>a. length (mem s a) = L a))"

lemma holds_gen_type: "holds_gen m r g \<Longrightarrow> gen_type g \<le> 4"
  by (cases g) auto

lemma holds_gen_0: "holds_gen (m[0 := v]) r g = holds_gen m r g"
  by (cases g; cases m) auto

lemma unat_small: "n < 2 ^ 32 \<Longrightarrow> unat (word_of_nat n :: u32) = n"
  by (simp add: unsigned_of_nat take_bit_nat_eq_self)

lemma save_rear_ok:
  assumes "in_use s u" and "state s = c"
  shows "\<exists>m. save_rear c s = Some (s\<lparr>mem := (mem s)(c := m)\<rparr>) \<and> parked m u \<and> holds_gen m (rptr s) u \<and> length m = length (mem s c)"
proof -
  let ?v = "(if rand_type s = 0 then 0 else of_nat (MAX_TYPES * rptr s + rand_type s)) :: u32"
  have h: "holds_gen (mem s c) (rptr s) u" "rand_type s = gen_type u" using assms by (auto simp: in_use_def)
  have pos: "0 < length (mem s c)" using h(1) by (cases u) auto
  have "unat ?v mod MAX_TYPES = gen_type u \<and> holds_gen (mem s c) (unat ?v div MAX_TYPES) u"
  proof (cases u)
    case (Lcg x)
    then show ?thesis using h by (simp add: MAX_TYPES_def)
  next
    case (Trinomial t w)
    then have t: "t \<in> {1, 2, 3, 4}" "rptr s < degrees ! t" "rand_type s = t" "t \<noteq> 0" using h by auto
    have "degrees ! t \<le> 63" using t(1) by (auto simp: degrees_def)
    then have "5 * rptr s + t < 2 ^ 32" using t by (auto simp: degrees_def)
    from unat_small[OF this] have "unat ?v = 5 * rptr s + t" using t by (simp add: MAX_TYPES_def del: of_nat_add of_nat_mult)
    then show ?thesis using h t Trinomial by (auto simp: MAX_TYPES_def)
  qed
  then show ?thesis using pos h(1) by (auto simp: save_rear_def parked_def holds_gen_0)
qed

section \<open>Many generators\<close>

datatype rand_op = Random | Srandom u64 | Initstate u64 nat int | Setstate nat
datatype rand_res = Number u32 | Done | Old_state "nat option"

fun rand_c :: "rand_op \<Rightarrow> rng \<Rightarrow> (rand_res \<times> rng) option" where
  "rand_c Random s = map_option (\<lambda>(v, s1). (Number v, s1)) (random s)"
| "rand_c (Srandom x) s = map_option (\<lambda>s1. (Done, s1)) (srandom x s)"
| "rand_c (Initstate x a n) s = map_option (\<lambda>(r, s1). (Old_state r, s1)) (initstate x a n s)"
| "rand_c (Setstate a) s = map_option (\<lambda>(r, s1). (Old_state (Some r), s1)) (setstate a s)"

text \<open>
  Every array has a generator of its own.  \<open>None\<close>: an array is smaller than it is said to be, \<open>setstate\<close> gets an array that was never
  initialised, or the array that is in use (see below).
\<close>

fun rand_a :: "(nat \<Rightarrow> nat) \<Rightarrow> rand_op \<Rightarrow> (nat \<Rightarrow> gen option) \<times> nat \<Rightarrow> (rand_res \<times> (nat \<Rightarrow> gen option) \<times> nat) option" where
  "rand_a L Random (g, c) = map_option (\<lambda>u. (Number (fst (gen_next u)), g(c \<mapsto> snd (gen_next u)), c)) (g c)"
| "rand_a L (Srandom x) (g, c) = map_option (\<lambda>u. (Done, g(c \<mapsto> gen_seed (gen_type u) (ucast x)), c)) (g c)"
| "rand_a L (Initstate x a n) (g, c) =
     (if n < 8 then Some (Old_state None, g, c)
      else if n \<le> 4 * int (L a) then Some (Old_state (Some c), g(a \<mapsto> gen_seed (break_type n) (ucast x)), a) else None)"
| "rand_a L (Setstate a) (g, c) = (if a = c \<or> g a = None then None else Some (Old_state (Some c), g, a))"

fun rand_run_c :: "rand_op list \<Rightarrow> rng \<Rightarrow> (rand_res list \<times> rng) option" where
  "rand_run_c [] s = Some ([], s)"
| "rand_run_c (p # ps) s = do { (r, s1) \<leftarrow> rand_c p s; (rs, s2) \<leftarrow> rand_run_c ps s1; Some (r # rs, s2) }"

fun rand_run_a :: "(nat \<Rightarrow> nat) \<Rightarrow> rand_op list \<Rightarrow> (nat \<Rightarrow> gen option) \<times> nat \<Rightarrow> (rand_res list \<times> (nat \<Rightarrow> gen option) \<times> nat) option" where
  "rand_run_a L [] A = Some ([], A)"
| "rand_run_a L (p # ps) A = do { (r, A1) \<leftarrow> rand_a L p A; (rs, A2) \<leftarrow> rand_run_a L ps A1; Some (r # rs, A2) }"

lemma rng_ok_current:
  assumes "rng_ok L s (g, c)" and "only_table s s1" and "in_use s1 u"
  shows "rng_ok L s1 (g(c \<mapsto> u), c)"
  using assms by (auto simp: rng_ok_def only_table_def)

lemma in_use_regs: "in_use s u \<Longrightarrow> regs_of s (gen_type u)"
  by (cases u) (auto simp: in_use_def regs_of_def degrees_def)

lemma in_use_mem:
  assumes "in_use s u" and "holds_gen (mem s1 (state s1)) (rptr s) u" and "s1 = s\<lparr>mem := M\<rparr>"
  shows "in_use s1 u"
  using assms by (simp add: in_use_def)

text \<open>After \<open>save_rear\<close> every initialised array is parked.\<close>

lemma save_rear_parks:
  assumes "rng_ok L s (g, c)"
  shows "\<exists>M. save_rear c s = Some (s\<lparr>mem := M\<rparr>) \<and> rng_ok L (s\<lparr>mem := M\<rparr>) (g, c) \<and> (\<forall>a u. g a = Some u \<longrightarrow> parked (M a) u) \<and>
    (\<forall>a. a \<noteq> c \<longrightarrow> M a = mem s a)"
proof -
  obtain u where u: "g c = Some u" "in_use s u" "state s = c" using assms by (auto simp: rng_ok_def)
  from save_rear_ok[OF u(2,3)] obtain m where m: "save_rear c s = Some (s\<lparr>mem := (mem s)(c := m)\<rparr>)" "parked m u" "holds_gen m (rptr s) u"
    "length m = length (mem s c)" by blast
  have "in_use (s\<lparr>mem := (mem s)(c := m)\<rparr>) u" using u m(3) by (simp add: in_use_def)
  then show ?thesis using m u assms by (intro exI[of _ "(mem s)(c := m)"]) (auto simp: rng_ok_def)
qed

lemma save_rear_idem: "save_rear a s = Some s1 \<Longrightarrow> save_rear a s1 = Some s1"
  by (auto simp: save_rear_def arr_simps bind_eq_Some_conv)

lemma break_type_fits: "8 \<le> n \<Longrightarrow> n \<le> 4 * int k \<Longrightarrow> break_type n \<le> 4 \<and> max 1 (degrees ! break_type n) < k"
  by (auto simp: break_type_def degrees_def)

lemma initstate_ok:
  assumes "rng_ok L s (g, c)" and "8 \<le> n" and "n \<le> 4 * int (L a)"
  shows "\<exists>s1. initstate x a n s = Some (Some c, s1) \<and> rng_ok L s1 (g(a \<mapsto> gen_seed (break_type n) (ucast x)), a) \<and>
    parked (mem s1 a) (gen_seed (break_type n) (ucast x)) \<and> save_rear a s1 = Some s1"
proof -
  let ?t = "break_type n" and ?u = "gen_seed (break_type n) (ucast x)"
  have c: "state s = c" using assms(1) by (simp add: rng_ok_def)
  from save_rear_parks[OF assms(1)] obtain M where M: "save_rear c s = Some (s\<lparr>mem := M\<rparr>)" "rng_ok L (s\<lparr>mem := M\<rparr>) (g, c)"
    "\<forall>a u. g a = Some u \<longrightarrow> parked (M a) u" by blast
  define s2 where "s2 = s\<lparr>mem := M, rand_type := ?t, rand_deg := degrees ! ?t, rand_sep := seps ! ?t, state := a, end_ptr := degrees ! ?t\<rparr>"
  have "regs_of s2 ?t" using break_type_fits[OF assms(2,3)] M(2) by (simp add: s2_def regs_of_def rng_ok_def)
  from srandom_ok[OF this] obtain s3 where s3: "srandom x s2 = Some s3" "in_use s3 ?u" "only_table s2 s3" by blast
  have st: "state s3 = a" using s3(3) by (simp add: only_table_def s2_def)
  from save_rear_ok[OF s3(2) st] obtain m where m: "save_rear a s3 = Some (s3\<lparr>mem := (mem s3)(a := m)\<rparr>)" "parked m ?u"
    "holds_gen m (rptr s3) ?u" "length m = length (mem s3 a)" by blast
  let ?s4 = "s3\<lparr>mem := (mem s3)(a := m)\<rparr>"
  have "initstate x a n s = Some (Some c, ?s4)"
    using M(1) c assms(2) s3(1) m(1) by (simp add: initstate_def Let_def s2_def)
  moreover have "in_use ?s4 ?u" using s3(2) m(3) st by (simp add: in_use_def)
  moreover have "parked (mem ?s4 b) v" if "g b = Some v" "b \<noteq> a" for b v
    using that M(3) s3(3) by (simp add: only_table_def s2_def)
  moreover have "length (mem ?s4 b) = L b" for b
    using M(2) s3(3) m(4) by (simp add: only_table_def s2_def rng_ok_def)
  ultimately show ?thesis using st m(2) save_rear_idem[OF m(1)] by (intro exI[of _ ?s4]) (simp add: rng_ok_def)
qed

lemma setstate_parked:
  assumes "rng_ok L s (g, c)" and "parked (mem s a) u" and "g a = Some u"
    and "\<forall>M. save_rear c s = Some (s\<lparr>mem := M\<rparr>) \<longrightarrow> unat (M a ! 0) = unat (mem s a ! 0)"
  shows "\<exists>s1. setstate a s = Some (c, s1) \<and> rng_ok L s1 (g, a)"
proof -
  have c: "state s = c" using assms(1) by (simp add: rng_ok_def)
  from save_rear_parks[OF assms(1)] obtain M where M: "save_rear c s = Some (s\<lparr>mem := M\<rparr>)" "rng_ok L (s\<lparr>mem := M\<rparr>) (g, c)"
    "\<forall>a u. g a = Some u \<longrightarrow> parked (M a) u" by blast
  have p: "parked (M a) u" using M(3) assms(3) by simp
  have w: "unat (M a ! 0) = unat (mem s a ! 0)" using assms(4) M(1) by blast
  define t r where "t = unat (mem s a ! 0) mod MAX_TYPES" and "r = unat (mem s a ! 0) div MAX_TYPES"
  have t: "t = gen_type u" "holds_gen (M a) r u" using p w by (simp_all add: parked_def t_def r_def)
  have "t \<le> 4" using holds_gen_type[OF t(2)] t(1) by simp
  define s4 where "s4 = (if t \<noteq> 0
    then s\<lparr>mem := M, rand_type := t, rand_deg := degrees ! t, rand_sep := seps ! t, state := a, rptr := r, fptr := (r + seps ! t) mod degrees ! t, end_ptr := degrees ! t\<rparr>
    else s\<lparr>mem := M, rand_type := t, rand_deg := degrees ! t, rand_sep := seps ! t, state := a, end_ptr := degrees ! t\<rparr>)"
  have "rd_at (mem s a) 0 = Some (mem s a ! 0)" using assms(2) by (simp add: parked_def)
  then have "setstate a s = Some (c, s4)"
    using M(1) c \<open>t \<le> 4\<close> unfolding setstate_def s4_def by (simp add: Let_def t_def[symmetric] r_def[symmetric])
  moreover have "in_use s4 u" using t by (cases u) (auto simp: in_use_def s4_def)
  moreover have "mem s4 = M" "state s4 = a" by (simp_all add: s4_def)
  ultimately show ?thesis using M assms(3) by (simp add: rng_ok_def)
qed

lemma setstate_ok:
  assumes "rng_ok L s (g, c)" and "a \<noteq> c" and "g a = Some u"
  shows "\<exists>s1. setstate a s = Some (c, s1) \<and> rng_ok L s1 (g, a)"
proof (rule setstate_parked[OF assms(1) _ assms(3)])
  show "parked (mem s a) u" using assms by (simp add: rng_ok_def)
  show "\<forall>M. save_rear c s = Some (s\<lparr>mem := M\<rparr>) \<longrightarrow> unat (M a ! 0) = unat (mem s a ! 0)"
  proof (intro allI impI)
    fix M assume "save_rear c s = Some (s\<lparr>mem := M\<rparr>)"
    with save_rear_parks[OF assms(1)] obtain M' where "s\<lparr>mem := M'\<rparr> = s\<lparr>mem := M\<rparr>" "\<forall>a. a \<noteq> c \<longrightarrow> M' a = mem s a" by auto
    moreover have "mem (s\<lparr>mem := M'\<rparr>) = mem (s\<lparr>mem := M\<rparr>)" using calculation(1) by (rule arg_cong)
    ultimately show "unat (M a ! 0) = unat (mem s a ! 0)" using assms(2) by simp
  qed
qed

lemma rand_c_ok:
  assumes "rng_ok L s A" and "rand_a L p A = Some (r, A1)"
  shows "\<exists>s1. rand_c p s = Some (r, s1) \<and> rng_ok L s1 A1"
proof -
  obtain g c where A: "A = (g, c)" by (cases A)
  obtain u where u: "g c = Some u" "in_use s u" using assms(1) A by (auto simp: rng_ok_def)
  note ok = assms(1)[unfolded A]
  show ?thesis
  proof (cases p)
    case Random
    then show ?thesis using random_ok[OF u(2)] rng_ok_current[OF ok] assms(2) u A by fastforce
  next
    case (Srandom x)
    then show ?thesis using srandom_ok[OF in_use_regs[OF u(2)]] rng_ok_current[OF ok] assms(2) u A by fastforce
  next
    case (Initstate x a n)
    show ?thesis
    proof (cases "n < 8")
      case True
      then show ?thesis using Initstate assms(2) A save_rear_parks[OF ok] ok by (auto simp: initstate_def rng_ok_def)
    next
      case False
      then show ?thesis using Initstate assms(2) A initstate_ok[OF ok, of n a x] by (auto split: if_splits)
    qed
  next
    case (Setstate a)
    then show ?thesis using assms(2) A setstate_ok[OF ok, of a] by (auto split: if_splits)
  qed
qed

lemma rand_run_ok:
  "rng_ok L s A \<Longrightarrow> rand_run_a L ps A = Some (rs, A1) \<Longrightarrow> \<exists>s1. rand_run_c ps s = Some (rs, s1) \<and> rng_ok L s1 A1"
proof (induction ps arbitrary: s A rs)
  case (Cons p ps)
  obtain r A2 rs2 where a: "rand_a L p A = Some (r, A2)" "rand_run_a L ps A2 = Some (rs2, A1)" "rs = r # rs2"
    using Cons.prems(2) by (auto split: bind_splits)
  from rand_c_ok[OF Cons.prems(1) a(1)] Cons.IH[OF _ a(2)] a(3) show ?case by fastforce
qed simp

section \<open>The awk functions\<close>

datatype rand_call = Rand | Srand int

fun rand_calls :: "rand_call list \<Rightarrow> awk_rng \<Rightarrow> (int list \<times> awk_rng) option" where
  "rand_calls [] a = Some ([], a)"
| "rand_calls (Rand # ps) a = do { (n, a1) \<leftarrow> do_rand a; (rs, a2) \<leftarrow> rand_calls ps a1; Some (n # rs, a2) }"
| "rand_calls (Srand n # ps) a = do { (n, a1) \<leftarrow> do_srand n a; (rs, a2) \<leftarrow> rand_calls ps a1; Some (n # rs, a2) }"

text \<open>One generator of degree 63 and the last seed.\<close>

fun rand_spec :: "rand_call list \<Rightarrow> gen \<Rightarrow> int \<Rightarrow> int list" where
  "rand_spec [] u seed = []"
| "rand_spec (Rand # ps) u seed = uint (fst (gen_next u)) mod GAWK_RANDOM_MAX # rand_spec ps (snd (gen_next u)) seed"
| "rand_spec (Srand n # ps) u seed = seed # rand_spec ps (gen_seed 4 (word_of_int n)) n"

definition awk_lens :: "nat \<Rightarrow> nat" where "awk_lens a = (if a = 0 then 32 else if a = istate then 64 else 0)"

definition awk_ok :: "awk_rng \<Rightarrow> gen \<Rightarrow> int \<Rightarrow> bool" where
  "awk_ok a u seed \<longleftrightarrow> save_seed a = seed \<and>
     (if firstrand a then u = gen_seed 4 1 \<and> (\<exists>g. rng_ok awk_lens (gen_state a) g)
      else gen_type u = 4 \<and> (\<exists>g. g istate = Some u \<and> rng_ok awk_lens (gen_state a) (g, istate)))"

lemma gen_skip_type: "gen_type (gen_skip n g) = gen_type g"
proof (induction n)
  case (Suc n)
  moreover have "gen_type (snd (gen_next u)) = gen_type u" for u by (cases u) (auto simp: Let_def)
  ultimately show ?case by (simp add: gen_skip_def)
qed (simp add: gen_skip_def)

lemma gen_seed_type: "gen_type (gen_seed t x) = t"
  by (simp add: gen_seed_def gen_skip_type)

lemma first_rand_ok:
  assumes "awk_ok a u seed"
  shows "\<exists>a1. first_rand a = Some a1 \<and> awk_ok a1 u seed \<and> \<not> firstrand a1 \<and> save_seed a1 = save_seed a"
proof (cases "firstrand a")
  case True
  then obtain A where ok: "rng_ok awk_lens (gen_state a) A" and u: "u = gen_seed 4 1" using assms by (auto simp: awk_ok_def)
  obtain g c where A: "A = (g, c)" by (cases A)
  have b: "break_type 256 = 4" by (simp add: break_type_def)
  have "256 \<le> 4 * int (awk_lens istate)" by (simp add: awk_lens_def istate_def)
  from initstate_ok[OF ok[unfolded A] _ this, of 1] obtain s1 where s1: "initstate 1 istate 256 (gen_state a) = Some (Some c, s1)"
    "rng_ok awk_lens s1 (g(istate \<mapsto> u), istate)" "parked (mem s1 istate) u" "save_rear istate s1 = Some s1"
    using b u by auto
  have "\<forall>M. save_rear istate s1 = Some (s1\<lparr>mem := M\<rparr>) \<longrightarrow> unat (M istate ! 0) = unat (mem s1 istate ! 0)"
  proof (intro allI impI)
    fix M assume "save_rear istate s1 = Some (s1\<lparr>mem := M\<rparr>)"
    then have "s1 = s1\<lparr>mem := M\<rparr>" using s1(4) by simp
    then have "mem s1 = mem (s1\<lparr>mem := M\<rparr>)" by (rule arg_cong)
    then show "unat (M istate ! 0) = unat (mem s1 istate ! 0)" by simp
  qed
  from setstate_parked[where a = istate and s = s1 and g = "g(istate \<mapsto> u)" and c = istate and u = u and L = awk_lens, OF s1(2,3) _ this] obtain s2 where "setstate istate s1 = Some (istate, s2)"
    "rng_ok awk_lens s2 (g(istate \<mapsto> u), istate)" by auto
  then show ?thesis using True assms s1(1) u gen_seed_type
    by (auto simp: first_rand_def awk_ok_def SIZEOF_STATE_def intro!: exI[of _ "g(istate \<mapsto> u)"])
next
  case False
  then show ?thesis using assms by (auto simp: first_rand_def)
qed

lemma do_rand_ok:
  assumes "awk_ok a u seed"
  shows "\<exists>a1. do_rand a = Some (uint (fst (gen_next u)) mod GAWK_RANDOM_MAX, a1) \<and> awk_ok a1 (snd (gen_next u)) seed"
proof -
  from first_rand_ok[OF assms] obtain a1 where a1: "first_rand a = Some a1" "awk_ok a1 u seed" "\<not> firstrand a1" by blast
  then obtain g where g: "g istate = Some u" "rng_ok awk_lens (gen_state a1) (g, istate)" "gen_type u = 4" by (auto simp: awk_ok_def)
  then have "in_use (gen_state a1) u" by (auto simp: rng_ok_def)
  from random_ok[OF this] obtain s where s: "random (gen_state a1) = Some (fst (gen_next u), s)" "in_use s (snd (gen_next u))" "only_table (gen_state a1) s"
    by blast
  have "rng_ok awk_lens s (g(istate \<mapsto> snd (gen_next u)), istate)" using rng_ok_current[OF g(2) s(3,2)] .
  moreover have "gen_type (snd (gen_next u)) = 4" using g(3) gen_skip_type[of 1 u] by (simp add: gen_skip_def)
  ultimately show ?thesis using a1 s(1) by (auto simp: do_rand_def awk_ok_def intro!: exI[of _ "g(istate \<mapsto> snd (gen_next u))"])
qed

lemma ucast_32: "ucast (ucast (x :: u32) :: u64) = x"
  by (rule ucast_up_ucast_id) (simp add: is_up)

lemma do_srand_ok:
  assumes "awk_ok a u seed"
  shows "\<exists>a1. do_srand n a = Some (seed, a1) \<and> awk_ok a1 (gen_seed 4 (word_of_int n)) n"
proof -
  from first_rand_ok[OF assms] obtain a1 where a1: "first_rand a = Some a1" "awk_ok a1 u seed" "\<not> firstrand a1" "save_seed a1 = save_seed a" by blast
  then obtain g where g: "g istate = Some u" "rng_ok awk_lens (gen_state a1) (g, istate)" "gen_type u = 4" by (auto simp: awk_ok_def)
  then have "in_use (gen_state a1) u" by (auto simp: rng_ok_def)
  from srandom_ok[OF in_use_regs[OF this], of "ucast (word_of_int n :: u32)"] obtain s where
    s: "srandom (ucast (word_of_int n :: u32)) (gen_state a1) = Some s" "in_use s (gen_seed 4 (word_of_int n))" "only_table (gen_state a1) s"
    using g(3) by (auto simp: ucast_32)
  have "rng_ok awk_lens s (g(istate \<mapsto> gen_seed 4 (word_of_int n)), istate)" using rng_ok_current[OF g(2) s(3,2)] .
  then show ?thesis using a1 s(1) assms gen_seed_type
    by (auto simp: do_srand_def awk_ok_def Let_def intro!: exI[of _ "g(istate \<mapsto> gen_seed 4 (word_of_int n))"])
qed

lemma rand_calls_ok: "awk_ok a u seed \<Longrightarrow> \<exists>a1. rand_calls ps a = Some (rand_spec ps u seed, a1)"
proof (induction ps arbitrary: a u seed)
  case (Cons p ps)
  show ?case
  proof (cases p)
    case Rand
    from do_rand_ok[OF Cons.prems] obtain a1 where "do_rand a = Some (uint (fst (gen_next u)) mod GAWK_RANDOM_MAX, a1)" "awk_ok a1 (snd (gen_next u)) seed"
      by blast
    then show ?thesis using Cons.IH Rand by fastforce
  next
    case (Srand n)
    from do_srand_ok[OF Cons.prems, of n] obtain a1 where "do_srand n a = Some (seed, a1)" "awk_ok a1 (gen_seed 4 (word_of_int n)) n" by blast
    then show ?thesis using Cons.IH Srand by fastforce
  qed
qed simp

text \<open>The table the program starts with is the one that \<open>initstate(1, randtbl, 128)\<close> makes.\<close>

fun seeds_int :: "nat \<Rightarrow> int \<Rightarrow> int list" where
  "seeds_int 0 x = []"
| "seeds_int (Suc n) x = x # seeds_int n ((16807 * x) mod 0x7fffffff)"

fun window_int :: "nat \<Rightarrow> int list \<Rightarrow> int list" where
  "window_int 0 w = w"
| "window_int (Suc n) w = window_int n (tl w @ [(w ! 0 + w ! 28) mod 0x100000000])"

lemma seeds_words:
  "\<forall>y \<in> set (seeds_int n x). 0 < y \<and> y < 2 ^ 31 \<Longrightarrow> seeds n (word_of_int x) = map word_of_int (seeds_int n x)"
proof (induction n arbitrary: x)
  case (Suc n)
  then have x: "0 < x" "x < 2 ^ 31" by simp_all
  then have s: "sint (word_of_int x :: u32) = x" by (simp add: signed_of_int signed_take_bit_int_eq_self)
  then have "(word_of_int x :: u32) \<noteq> 0" using x(1) by (metis less_irrefl signed_0)
  then show ?case using Suc good_rand_mod[of "word_of_int x"] s by simp
qed simp

lemma window_words:
  "length w = 31 \<Longrightarrow> gen_skip n (Trinomial 3 (map word_of_int w)) = Trinomial 3 (map word_of_int (window_int n w))"
proof (induction n arbitrary: w)
  case (Suc n)
  have "(word_of_int ((w ! 0 + w ! 28) mod 0x100000000) :: u32) = word_of_int (w ! 0) + word_of_int (w ! 28)"
    by (simp add: word_of_int_eq_iff take_bit_eq_mod flip: of_int_add)
  moreover have "w \<noteq> []" using Suc.prems by auto
  ultimately have "snd (gen_next (Trinomial 3 (map word_of_int w))) = Trinomial 3 (map word_of_int (tl w @ [(w ! 0 + w ! 28) mod 0x100000000]))"
    using Suc.prems by (simp add: Let_def degrees_def seps_def map_tl)
  then show ?case using Suc.IH[of "tl w @ [(w ! 0 + w ! 28) mod 0x100000000]"] Suc.prems
    by (simp add: gen_skip_def funpow_Suc_right del: funpow.simps)
qed (simp add: gen_skip_def)

lemma start_table: "gen_seed 3 1 = Trinomial 3 (rotate 3 (tl randtbl))"
proof -
  have "\<forall>y \<in> set (seeds_int 31 1). 0 < y \<and> y < 2 ^ 31" by code_simp
  from seeds_words[OF this] have s: "seeds 31 1 = map word_of_int (seeds_int 31 1)" by simp
  have "gen_seed 3 1 = gen_skip 310 (Trinomial 3 (map word_of_int (rotate 3 (seeds_int 31 1))))"
    by (simp add: gen_seed_def degrees_def seps_def s rotate_map)
  also have "\<dots> = Trinomial 3 (map word_of_int (window_int 310 (rotate 3 (seeds_int 31 1))))"
    by (rule window_words) code_simp
  also have "window_int 310 (rotate 3 (seeds_int 31 1)) = rotate 3 (map uint (tl randtbl))" by code_simp
  finally show ?thesis by (simp flip: rotate_map) (simp add: comp_def)
qed

lemma rng_ok_start:
  assumes "L 0 = 32" and "\<forall>a. a \<noteq> 0 \<longrightarrow> L a = length (m a)"
  shows "rng_ok L (start_rng m) ([0 \<mapsto> gen_seed 3 1], 0)"
  using assms unfolding start_table
  by (auto simp: rng_ok_def start_rng_def in_use_def degrees_def seps_def randtbl_def)

section \<open>Properties\<close>

text \<open>C37: the generators of different state arrays are independent: any sequence of calls of \<open>random\<close>, \<open>srandom\<close>, \<open>initstate\<close> and \<open>setstate\<close>
  gives the numbers that one recurrence \<open>x (n + d) = x n + x (n + d - s)\<close> per array gives, and never leaves an array.\<close>

theorem generators_are_independent:
  assumes "rand_run_a L ps ([0 \<mapsto> gen_seed 3 1], 0) = Some (rs, A)" and "L 0 = 32" and "\<forall>a. a \<noteq> 0 \<longrightarrow> L a = length (m a)"
  shows "\<exists>s. rand_run_c ps (start_rng m) = Some (rs, s)"
  using rand_run_ok[OF rng_ok_start[where L = L and m = m] assms(1)] assms(2,3) by blast

definition two_arrays :: "nat \<Rightarrow> u32 list" where "two_arrays a = (if a = 0 then randtbl else if a = 1 then [0, 0, 0] else [])"

lemma generators_are_independent_witness:
  "\<exists>s. rand_run_c [Random, Initstate 5 1 12, Setstate 0, Random] (start_rng two_arrays) =
     Some ([Number 1804289383, Old_state (Some 0), Old_state (Some 1), Number 846930886], s)"
proof -
  let ?L = "\<lambda>a. if a = 0 then 32 else if a = 1 then 3 else 0 :: nat"
  have "\<exists>A. rand_run_a ?L [Random, Initstate 5 1 12, Setstate 0, Random] ([0 \<mapsto> gen_seed 3 1], 0) =
     Some ([Number 1804289383, Old_state (Some 0), Old_state (Some 1), Number 846930886], A)"
    unfolding start_table by (simp add: degrees_def seps_def randtbl_def numeral_3_eq_3 Let_def)
  then obtain A where "rand_run_a ?L [Random, Initstate 5 1 12, Setstate 0, Random] ([0 \<mapsto> gen_seed 3 1], 0) =
     Some ([Number 1804289383, Old_state (Some 0), Old_state (Some 1), Number 846930886], A)" by blast
  from generators_are_independent[OF this, of two_arrays] show ?thesis by (simp add: two_arrays_def)
qed

text \<open>C38: \<open>rand\<close> and \<open>srand\<close>: after any calls, \<open>srand(n)\<close> starts the sequence of \<open>n\<close> and returns the seed before, and what \<open>rand\<close> returns
  depends on the last seed and the calls of \<open>rand\<close> since then alone; the numbers are below 1.\<close>

theorem rand_srand:
  "(\<exists>a. rand_calls ps start_awk = Some (rand_spec ps (gen_seed 4 1) 1, a)) \<and>
   (\<forall>a. pred_option (\<lambda>(n, a1). 0 \<le> n \<and> n < GAWK_RANDOM_MAX) (do_rand a))"
proof
  have "rng_ok awk_lens (gen_state start_awk) ([0 \<mapsto> gen_seed 3 1], 0)"
    unfolding start_awk_def awk_rng.simps by (rule rng_ok_start) (auto simp: awk_lens_def istate_def)
  then have "awk_ok start_awk (gen_seed 4 1) 1" by (auto simp: awk_ok_def start_awk_def)
  then show "\<exists>a. rand_calls ps start_awk = Some (rand_spec ps (gen_seed 4 1) 1, a)" by (rule rand_calls_ok)
  show "\<forall>a. pred_option (\<lambda>(n, a1). 0 \<le> n \<and> n < GAWK_RANDOM_MAX) (do_rand a)"
    by (auto simp: do_rand_def GAWK_RANDOM_MAX_def bind_eq_Some_conv option.pred_set)
qed

text \<open>\<open>setstate\<close> with the array that is in use reads the place before it is saved: the next number is not the one that was due.\<close>

lemma setstate_repeats_place:
  "map_option fst (rand_run_c [Random, Random] (start_rng two_arrays)) = Some [Number 1804289383, Number 846930886]"
  "map_option fst (rand_run_c [Random, Setstate 0, Random] (start_rng two_arrays)) = Some [Number 1804289383, Old_state (Some 0), Number 940958272]"
  by code_simp+

end
