(* ===== verification/Awk_Records.thy ===== *)
theory Awk_Records
  imports Prelude
begin

text \<open>
  Reading records, \<open>io.c\<close>: the buffer of an input file, the three functions that look for the end of a record, and
  \<open>get_a_record\<close>, for single-byte locales and files that are read with \<open>read\<close>.  A pointer into the buffer is its index; a byte
  that was never written is \<open>None\<close>.
\<close>

section \<open>The buffer and the input\<close>

datatype recvalue = REC_OK | NOTERM | TERMATEND | TERMNEAREND
datatype scanstate = NOSTATE | INLEADER | INDATA | INTERM

record recmatch =
  start :: nat
  len :: nat
  rt_start :: "nat option"
  rt_len :: nat

definition no_match :: recmatch where "no_match = \<lparr>start = 0, len = 0, rt_start = None, rt_len = 0\<rparr>"

record iobuf =
  buf :: "u8 option list"
  off :: nat
  dataend :: "nat option"
  readsize :: nat
  scanoff :: nat
  at_eof :: bool
  at_start :: bool
  closed :: bool

abbreviation size_of :: "iobuf \<Rightarrow> nat" where "size_of iop \<equiv> length (buf iop)"

text \<open>
  What is left of the input, and how many bytes the next calls of \<open>read\<close> return: at least one while there are any, \<open>None\<close> for an
  error.
\<close>

record input =
  unread :: "u8 list"
  plan :: "nat \<Rightarrow> nat option"
  calls :: nat

definition sys_read :: "nat \<Rightarrow> input \<Rightarrow> u8 list option \<times> input" where
  "sys_read amt f =
     (case plan f (calls f) of
        None \<Rightarrow> (None, f\<lparr>calls := calls f + 1\<rparr>)
      | Some k \<Rightarrow> (Some (take (min amt (max 1 k)) (unread f)),
          f\<lparr>unread := drop (min amt (max 1 k)) (unread f), calls := calls f + 1\<rparr>))"

definition iop_alloc :: "nat \<Rightarrow> iobuf" where
  "iop_alloc bufsize = \<lparr>buf = replicate (bufsize + 2) None, off = 0, dataend = None, readsize = bufsize, scanoff = 0,
     at_eof = False, at_start = True, closed = False\<rparr>"

text \<open>\<open>fatal\<close> is \<open>None\<close>.\<close>

definition grow_iop_buffer :: "iobuf \<Rightarrow> nat \<Rightarrow> iobuf option" where
  "grow_iop_buffer iop e =
     (let valid = e - off iop;
          newsize = (size_of iop - 2) * 2 + 2
      in if newsize \<le> size_of iop then None
         else let newsize1 = (if newsize - valid < readsize iop then newsize + readsize iop + 2 else newsize)
              in if newsize1 \<le> size_of iop then None
                 else Some (iop\<lparr>buf := buf iop @ replicate (newsize1 - size_of iop) None, dataend := Some (off iop + valid)\<rparr>))"

definition rd_buf :: "u8 option list \<Rightarrow> nat \<Rightarrow> u8 option" where
  "rd_buf b i = (case rd_at b i of Some c \<Rightarrow> c | None \<Rightarrow> None)"

section \<open>The scanning functions\<close>

text \<open>\<open>while (*bp != c) bp++\<close>: how far the pointer moves.\<close>

fun upto :: "u8 \<Rightarrow> u8 option list \<Rightarrow> nat option" where
  "upto c [] = None"
| "upto c (None # r) = None"
| "upto c (Some x # r) = (if x = c then Some 0 else map_option Suc (upto c r))"

type_synonym scan_result = "(recvalue \<times> recmatch \<times> scanstate \<times> iobuf) option"

definition rs1scan :: "u8 \<Rightarrow> iobuf \<Rightarrow> recmatch \<Rightarrow> scanstate \<Rightarrow> scan_result" where
  "rs1scan rs iop recm st =
     do {
       e \<leftarrow> dataend iop;
       b \<leftarrow> wr_at (buf iop) e (Some rs);
       let bp = (if st = INDATA then off iop + scanoff iop else off iop);
       n \<leftarrow> upto rs (drop bp b);
       let bp1 = bp + n;
       let recm1 = no_match\<lparr>start := off iop, len := bp1 - off iop\<rparr>;
       if bp1 < e then Some (REC_OK, recm1\<lparr>rt_start := Some bp1, rt_len := 1\<rparr>, NOSTATE, iop\<lparr>buf := b\<rparr>)
       else Some (NOTERM, recm1, INDATA, iop\<lparr>buf := b, scanoff := bp1 - off iop\<rparr>) }"

text \<open>\<open>while (*bp == '\n' && bp < iop->dataend) bp++\<close>\<close>

function skip_newlines :: "u8 option list \<Rightarrow> nat \<Rightarrow> nat \<Rightarrow> nat option" where
  "skip_newlines b e bp = do { c \<leftarrow> rd_buf b bp; if c = 10 \<and> bp < e then skip_newlines b e (bp + 1) else Some bp }"
  by pat_completeness auto
termination by (relation "measure (\<lambda>(b, e, bp). e - bp)") auto

declare skip_newlines.simps [simp del]

text \<open>The loop at \<open>scan_data\<close>: where the pointer is, and whether two newlines were found.\<close>

function scan_data :: "u8 option list \<Rightarrow> nat \<Rightarrow> nat \<Rightarrow> (nat \<times> bool) option" where
  "scan_data b e bp =
     do {
       n \<leftarrow> upto 10 (drop bp b);
       let bp1 = bp + n + 1;
       if bp1 \<ge> e then Some (bp1, False)
       else do { c \<leftarrow> rd_buf b bp1; if c \<noteq> 10 then scan_data b e bp1 else Some (bp1, True) } }"
  by pat_completeness auto
termination by (relation "measure (\<lambda>(b, e, bp). e - bp)") auto

declare scan_data.simps [simp del]

definition longest_terminator :: "nat \<Rightarrow> nat \<Rightarrow> recmatch \<Rightarrow> iobuf \<Rightarrow> scan_result" where
  "longest_terminator e bp recm iop =
     do {
       bp1 \<leftarrow> skip_newlines (buf iop) e bp;
       rts \<leftarrow> rt_start recm;
       let recm1 = recm\<lparr>rt_len := bp1 - rts\<rparr>;
       let iop1 = iop\<lparr>scanoff := bp1 - off iop\<rparr>;
       Some (if bp1 \<ge> e then TERMATEND else REC_OK, recm1, INTERM, iop1) }"

definition data_part :: "nat \<Rightarrow> nat \<Rightarrow> recmatch \<Rightarrow> iobuf \<Rightarrow> scan_result" where
  "data_part e bp recm iop =
     do {
       (bp1, two) \<leftarrow> scan_data (buf iop) e bp;
       if \<not> two then Some (NOTERM, recm\<lparr>len := bp1 - off iop - 1\<rparr>, INDATA, iop\<lparr>scanoff := bp1 - off iop - 1\<rparr>)
       else longest_terminator e bp1 (recm\<lparr>len := bp1 - off iop - 1, rt_start := Some (bp1 - 1)\<rparr>) iop }"

definition rsnullscan :: "iobuf \<Rightarrow> recmatch \<Rightarrow> scanstate \<Rightarrow> scan_result" where
  "rsnullscan iop recm st =
     do {
       e \<leftarrow> dataend iop;
       let recm1 = (if st = NOSTATE \<or> st = INLEADER then no_match else recm)\<lparr>start := off iop\<rparr>;
       let bp = (if st \<noteq> NOSTATE then off iop + scanoff iop else off iop);
       b \<leftarrow> wr_at (buf iop) e (Some 10);
       let iop1 = iop\<lparr>buf := b\<rparr>;
       if st = INTERM then longest_terminator e bp recm1 iop1
       else if st = INDATA then data_part e bp recm1 iop1
       else do {
         bp1 \<leftarrow> skip_newlines b e bp;
         if bp1 \<ge> e then Some (NOTERM, recm1, INLEADER, iop1\<lparr>scanoff := bp1 - off iop\<rparr>)
         else data_part e bp1 (recm1\<lparr>start := bp1\<rparr>) (iop1\<lparr>off := bp1\<rparr>) } }"

text \<open>
  \<open>reisstring\<close> and \<open>remaybelong\<close> of \<open>re.c\<close>; \<open>strchr\<close> finds the null character too.  The pattern has no metacharacters and is what
  the matcher found at \<open>buf\<close>.
\<close>

definition metas :: "u8 list" where "metas = [46, 42, 43, 40, 41, 123, 125, 91, 93, 124, 63, 94, 36, 92, 0]"

definition reisstring :: "u8 list \<Rightarrow> nat \<Rightarrow> u8 option list \<Rightarrow> bool" where
  "reisstring rs at b \<longleftrightarrow> (\<forall>c \<in> set rs. c \<notin> set metas) \<and> take (length rs) (drop at b) = map Some rs"

definition remaybelong :: "u8 list \<Rightarrow> bool" where
  "remaybelong rs \<longleftrightarrow> (\<exists>c \<in> set rs. c \<in> {42, 43, 124, 63, 0})"

text \<open>
  The matcher gets the text and whether \<open>^\<close> must not match at its start; it returns where the match starts and ends.  \<open>bp\<close> may
  move over null matches; \<open>rsre_loop\<close> starts at the label \<open>again\<close>.
\<close>

type_synonym searcher = "bool \<Rightarrow> u8 list \<Rightarrow> (nat \<times> nat) option"

definition buf_text :: "u8 option list \<Rightarrow> nat \<Rightarrow> nat \<Rightarrow> u8 list option" where
  "buf_text b i n = (if i + n \<le> length b then those (take n (drop i b)) else None)"

function rsre_loop :: "u8 list \<Rightarrow> searcher \<Rightarrow> bool \<Rightarrow> nat \<Rightarrow> nat \<Rightarrow> recmatch \<Rightarrow> scanstate \<Rightarrow> iobuf \<Rightarrow> scan_result" where
  "rsre_loop rs search no_bol e bp recm st iop =
     (if e < bp then None
      else do {
        t \<leftarrow> buf_text (buf iop) bp (e - bp);
        case search no_bol t of
          None \<Rightarrow> Some (NOTERM, recm\<lparr>len := e - off iop\<rparr>, st, iop)
        | Some (restart, reend) \<Rightarrow>
            if restart = reend then
              (let iop1 = iop\<lparr>scanoff := reend + 1\<rparr>
               in if bp + (reend + 1) < e then rsre_loop rs search no_bol e (bp + (reend + 1)) recm INDATA iop1
                  else Some (NOTERM, recm\<lparr>len := bp - off iop + restart\<rparr>, INDATA, iop1))
            else
              let recm1 = recm\<lparr>len := restart, rt_start := Some (bp + restart), rt_len := reend - restart\<rparr>
              in if off iop + reend \<ge> e then
                   Some (if reisstring rs (off iop + restart) (buf iop) then REC_OK else TERMATEND, recm1, NOSTATE, iop)
                 else if remaybelong rs \<and> e - (off iop + reend) < length rs then Some (TERMNEAREND, recm1, NOSTATE, iop)
                 else Some (REC_OK, recm1, NOSTATE, iop) })"
  by pat_completeness auto
termination by (relation "measure (\<lambda>(rs, s, nb, e, bp, r, st, iop). e - bp)") auto

declare rsre_loop.simps [simp del]

definition rsrescan :: "u8 list \<Rightarrow> searcher \<Rightarrow> iobuf \<Rightarrow> recmatch \<Rightarrow> scanstate \<Rightarrow> scan_result" where
  "rsrescan rs search iop recm st =
     do {
       e \<leftarrow> dataend iop;
       let bp = (if st = INDATA then off iop + scanoff iop else off iop);
       rsre_loop rs search (\<not> at_start iop) e bp (no_match\<lparr>start := off iop\<rparr>) st iop }"

section \<open>RS and RT\<close>

datatype matcher = Rs1scan | Rsnullscan | Rsrescan

definition set_RS :: "u8 list \<Rightarrow> matcher" where
  "set_RS rs = (if length rs = 0 then Rsnullscan else if length rs > 1 then Rsrescan else Rs1scan)"

definition matchrec :: "u8 list \<Rightarrow> searcher \<Rightarrow> iobuf \<Rightarrow> recmatch \<Rightarrow> scanstate \<Rightarrow> scan_result" where
  "matchrec rs search = (case set_RS rs of Rs1scan \<Rightarrow> rs1scan (hd rs) | Rsnullscan \<Rightarrow> rsnullscan | Rsrescan \<Rightarrow> rsrescan rs search)"

text \<open>The node of \<open>RT\<close>: its memory, two bytes more than the text it was made from, and the length it is said to have.\<close>

record rt_node =
  rt_mem :: "u8 option list"
  stlen :: nat

definition make_string :: "u8 option list \<Rightarrow> rt_node" where
  "make_string t = \<lparr>rt_mem = t @ [Some 0, None], stlen = length t\<rparr>"

definition rt_text :: "rt_node \<Rightarrow> u8 list option" where
  "rt_text n = (if stlen n \<le> length (rt_mem n) then those (take (stlen n) (rt_mem n)) else None)"

definition update_RT :: "matcher \<Rightarrow> recmatch \<Rightarrow> u8 option list \<Rightarrow> rt_node \<times> matcher option \<Rightarrow> (rt_node \<times> matcher option) option" where
  "update_RT m recm b s =
     (let (rtval, lastmatchrec) = s
      in if rt_len recm = 0 then Some (make_string [], None)
         else do {
           rts \<leftarrow> rt_start recm;
           let t = take (rt_len recm) (drop rts b);
           if lastmatchrec = None \<or> lastmatchrec \<noteq> Some m then Some (make_string t, Some m)
           else if m = Rs1scan then
             Some (if stlen rtval \<noteq> 1 \<or> take 1 (rt_mem rtval) \<noteq> take 1 t then make_string t else rtval, lastmatchrec)
           else if m = Rsnullscan then
             Some (if stlen rtval \<le> rt_len recm then rtval\<lparr>stlen := rt_len recm\<rparr> else make_string t, lastmatchrec)
           else Some (make_string t, lastmatchrec) })"

section \<open>Reading a record\<close>

definition min_ssize :: "nat \<Rightarrow> nat" where "min_ssize n = nat (min (int n) (2 ^ 63 - 1))"

text \<open>\<open>while (amt_to_read + iop->readsize < room_left) amt_to_read += iop->readsize\<close>\<close>

function more_blocks :: "nat \<Rightarrow> nat \<Rightarrow> nat \<Rightarrow> nat" where
  "more_blocks r room amt = (if 0 < r \<and> amt + r < room then more_blocks r room (amt + r) else amt)"
  by pat_completeness auto
termination by (relation "measure (\<lambda>(r, room, amt). room - amt)") auto

declare more_blocks.simps [simp del]

text \<open>The data moves to the start of the buffer; \<open>rt_start\<close> follows the record.\<close>

definition shift_down :: "iobuf \<Rightarrow> nat \<Rightarrow> iobuf" where
  "shift_down iop e =
     (let n = e - off iop
      in iop\<lparr>buf := take n (drop (off iop) (buf iop)) @ drop n (buf iop), off := 0, dataend := Some n\<rparr>)"

definition adjust :: "iobuf \<Rightarrow> recmatch \<Rightarrow> recmatch" where
  "adjust iop recm = recm\<lparr>start := off iop, rt_start := map_option (\<lambda>_. off iop + len recm) (rt_start recm)\<rparr>"

text \<open>The buffer with room for a block, and how much is read.\<close>

definition make_room :: "iobuf \<Rightarrow> (iobuf \<times> nat) option" where
  "make_room iop =
     do {
       e \<leftarrow> dataend iop;
       let room_left = size_of iop - e - 1;
       iop1 \<leftarrow> (if min (readsize iop) room_left < readsize iop then grow_iop_buffer iop e else Some iop);
       e1 \<leftarrow> dataend iop1;
       let room_left1 = size_of iop1 - e1 - 1;
       Some (iop1, min_ssize (more_blocks (readsize iop1) room_left1 (min (readsize iop1) room_left1))) }"

definition store_at :: "nat \<Rightarrow> u8 list \<Rightarrow> iobuf \<Rightarrow> iobuf option" where
  "store_at e t iop =
     (if e + length t \<le> size_of iop
      then Some (iop\<lparr>buf := take e (buf iop) @ map Some t @ drop (e + length t) (buf iop), dataend := Some (e + length t)\<rparr>) else None)"

text \<open>An error of \<open>read\<close>, when the caller wants to know of it (\<open>errcode\<close>), ends the record; otherwise it is fatal.\<close>

datatype io_end = Fine | Failed

function rec_loop :: "(iobuf \<Rightarrow> recmatch \<Rightarrow> scanstate \<Rightarrow> scan_result) \<Rightarrow> bool \<Rightarrow> iobuf \<Rightarrow> input \<Rightarrow> recmatch \<Rightarrow> scanstate \<Rightarrow>
    (io_end \<times> recmatch \<times> iobuf \<times> input) option" where
  "rec_loop match errcode iop f recm st =
     do {
       (ret, recm1, st1, iop1) \<leftarrow> match iop recm st;
       let iop2 = iop1\<lparr>at_start := False\<rparr>;
       if ret = REC_OK then Some (Fine, recm1, iop2, f)
       else do {
         e \<leftarrow> dataend iop2;
         let iop3 = shift_down iop2 e;
         (iop4, amt) \<leftarrow> make_room iop3;
         let recm2 = adjust iop4 recm1;
         (case sys_read amt f of
            (None, f1) \<Rightarrow> if errcode then Some (Failed, recm2, iop4\<lparr>at_eof := True\<rparr>, f1) else None
          | (Some t, f1) \<Rightarrow>
              if t = [] then Some (Fine, recm2, iop4\<lparr>at_eof := True\<rparr>, f1)
              else do {
                e4 \<leftarrow> dataend iop4;
                iop5 \<leftarrow> store_at e4 t iop4;
                rec_loop match errcode iop5 f1 recm2 st1 }) } }"
  by pat_completeness auto
termination
  by (relation "measure (\<lambda>(m, ec, iop, f, r, st). length (unread f))")
    (auto simp: sys_read_def split: option.splits)

declare rec_loop.simps [simp del]

record reader =
  iop :: iobuf
  inp :: input
  rt :: rt_node
  lastmatchrec :: "matcher option"

datatype got = Eof | Got "u8 list"

text \<open>From the loop on.  The flag says that \<open>errcode\<close> was set.\<close>

definition finish_record :: "u8 list \<Rightarrow> searcher \<Rightarrow> bool \<Rightarrow> reader \<Rightarrow> (got \<times> bool \<times> reader) option" where
  "finish_record rs search errcode r =
     do {
       (fin, recm, b, f) \<leftarrow> rec_loop (matchrec rs search) errcode (iop r) (inp r) no_match NOSTATE;
       (rtn, last) \<leftarrow> update_RT (set_RS rs) recm (buf b) (rt r, lastmatchrec r);
       t \<leftarrow> buf_text (buf b) (start recm) (len recm);
       let r1 = r\<lparr>iop := b\<lparr>off := off b + (len recm + rt_len recm)\<rparr>, inp := f, rt := rtn, lastmatchrec := last\<rparr>;
       Some (if len recm = 0 \<and> rt_len recm = 0 \<and> at_eof b then Eof else Got t, fin = Failed, r1) }"

definition data_left :: "iobuf \<Rightarrow> bool" where
  "data_left b = (case dataend b of None \<Rightarrow> False | Some e \<Rightarrow> off b < e)"

definition get_a_record :: "u8 list \<Rightarrow> searcher \<Rightarrow> bool \<Rightarrow> reader \<Rightarrow> (got \<times> bool \<times> reader) option" where
  "get_a_record rs search errcode r =
     (let b = iop r
      in if at_eof b \<and> \<not> data_left b then Some (Eof, False, r)
         else if \<not> data_left b then
           (case sys_read (readsize b) (inp r) of
              (None, f) \<Rightarrow> if errcode then Some (Eof, True, r\<lparr>iop := b\<lparr>at_eof := True\<rparr>, inp := f\<rparr>) else None
            | (Some t, f) \<Rightarrow>
                if t = [] then Some (Eof, False, r\<lparr>iop := b\<lparr>at_eof := True\<rparr>, inp := f\<rparr>)
                else do { b1 \<leftarrow> store_at 0 t b; finish_record rs search errcode (r\<lparr>iop := b1\<lparr>off := 0\<rparr>, inp := f\<rparr>) })
         else finish_record rs search errcode r)"

text \<open>\<open>inrec\<close>, with the counter \<open>NR\<close>; the record is what \<open>set_record\<close> gets.\<close>

definition inrec :: "u8 list \<Rightarrow> searcher \<Rightarrow> reader \<times> nat \<Rightarrow> (u8 list option \<times> reader \<times> nat) option" where
  "inrec rs search rn =
     (let (r, NR) = rn
      in if (at_eof (iop r) \<and> \<not> data_left (iop r)) \<or> closed (iop r) then Some (None, r, NR)
         else do {
           (g, _, r1) \<leftarrow> get_a_record rs search False r;
           Some (case g of Eof \<Rightarrow> (None, r1, NR) | Got t \<Rightarrow> (Some t, r1, NR + 1)) })"

text \<open>The loop of \<open>do_input\<close> over one file: the records, and \<open>RT\<close> after each.\<close>

partial_function (option) input_loop :: "u8 list \<Rightarrow> searcher \<Rightarrow> reader \<times> nat \<Rightarrow> ((u8 list \<times> u8 list option) list \<times> reader \<times> nat) option" where
  "input_loop rs search rn =
     do {
       (x, r1, n1) \<leftarrow> inrec rs search rn;
       (case x of None \<Rightarrow> Some ([], r1, n1)
        | Some t \<Rightarrow> do { (ts, rn2) \<leftarrow> input_loop rs search (r1, n1); Some ((t, rt_text (rt r1)) # ts, rn2) }) }"

declare input_loop.simps [code]

section \<open>What a scanning function promises\<close>

text \<open>The data \<open>d\<close> in the buffer, with room for the mark after it.\<close>

definition holds :: "iobuf \<Rightarrow> u8 list \<Rightarrow> bool" where
  "holds b d \<longleftrightarrow> dataend b = Some (off b + length d) \<and> off b + length d < size_of b \<and> take (length d) (drop (off b) (buf b)) = map Some d"

text \<open>What a scanning function may change.\<close>

definition same_file :: "iobuf \<Rightarrow> iobuf \<Rightarrow> bool" where
  "same_file b b1 \<longleftrightarrow> size_of b1 = size_of b \<and> readsize b1 = readsize b \<and> at_eof b1 = at_eof b \<and> closed b1 = closed b"

definition rt_follows :: "recmatch \<Rightarrow> nat \<Rightarrow> bool" where
  "rt_follows recm o1 \<longleftrightarrow> (if rt_start recm = None then rt_len recm = 0 else rt_start recm = Some (o1 + len recm))"

type_synonym cuts = "nat \<times> nat \<times> nat"

definition record_of :: "(u8 list \<Rightarrow> cuts option) \<Rightarrow> (u8 list \<Rightarrow> cuts) \<Rightarrow> u8 list \<Rightarrow> cuts" where
  "record_of first_cut last_cut T = (case first_cut T of Some x \<Rightarrow> x | None \<Rightarrow> last_cut T)"

section \<open>The buffer\<close>

lemma holds_end: "holds b d \<Longrightarrow> dataend b = Some (off b + length d)"
  by (simp add: holds_def)

lemma holds_shift:
  assumes "holds b d"
  shows "holds (shift_down b (off b + length d)) d" "off (shift_down b (off b + length d)) = 0" "same_file b (shift_down b (off b + length d))"
  using assms by (auto simp: holds_def shift_down_def same_file_def Let_def)

lemma more_blocks_bound: "amt \<le> room \<Longrightarrow> amt \<le> more_blocks r room amt \<and> more_blocks r room amt \<le> room"
proof (induction r room amt rule: more_blocks.induct)
  case (1 r room amt)
  then show ?case by (subst (1 2) more_blocks.simps) auto
qed

definition good_buf :: "iobuf \<Rightarrow> bool" where
  "good_buf b \<longleftrightarrow> 0 < readsize b \<and> readsize b + 2 \<le> size_of b"

lemma grow_buffer_ok:
  assumes "holds b d" and "good_buf b" and "off b = 0" and "size_of b - length d - 1 < readsize b"
  shows "\<exists>b1. grow_iop_buffer b (length d) = Some b1 \<and> holds b1 d \<and> off b1 = 0 \<and> readsize b \<le> size_of b1 - length d - 1 \<and>
    size_of b \<le> size_of b1 \<and> readsize b1 = readsize b \<and> at_eof b1 = at_eof b \<and> closed b1 = closed b \<and> at_start b1 = at_start b \<and>
    scanoff b1 = scanoff b"
proof -
  obtain k where k: "size_of b = readsize b + 2 + k" using assms(2) le_Suc_ex[of "readsize b + 2" "size_of b"] by (auto simp: good_buf_def)
  have d: "length d < size_of b" using assms(1,3) by (simp add: holds_def)
  let ?n = "(size_of b - 2) * 2 + 2"
  have n: "?n = 2 * readsize b + 2 * k + 2" using k by simp
  define n1 where "n1 = (if ?n - length d < readsize b then ?n + readsize b + 2 else ?n)"
  have n1: "size_of b < n1" "length d + readsize b + 1 \<le> n1"
    using k n d assms(2,4) by (auto simp: n1_def good_buf_def)
  have "\<not> ?n \<le> size_of b" using k n assms(2) by (simp add: good_buf_def)
  then have "grow_iop_buffer b (length d) = Some (b\<lparr>buf := buf b @ replicate (n1 - size_of b) None, dataend := Some (length d)\<rparr>)"
    using n1 assms(3) by (simp add: grow_iop_buffer_def Let_def n1_def)
  then show ?thesis using assms(1,3) n1 by (auto simp: holds_def)
qed

lemma make_room_ok:
  assumes "holds b d" and "good_buf b" and "off b = 0"
  shows "\<exists>b1 amt. make_room b = Some (b1, amt) \<and> holds b1 d \<and> good_buf b1 \<and> off b1 = 0 \<and> 0 < amt \<and> length d + amt < size_of b1 \<and>
    at_eof b1 = at_eof b \<and> closed b1 = closed b \<and> scanoff b1 = scanoff b"
proof -
  let ?room = "size_of b - length d - 1"
  have e: "dataend b = Some (length d)" using assms(1,3) by (simp add: holds_def)
  obtain b1 where b1: "(if min (readsize b) ?room < readsize b then grow_iop_buffer b (length d) else Some b) = Some b1"
    "holds b1 d" "off b1 = 0" "readsize b \<le> size_of b1 - length d - 1" "size_of b \<le> size_of b1" "readsize b1 = readsize b"
    "at_eof b1 = at_eof b" "closed b1 = closed b" "scanoff b1 = scanoff b"
  proof (cases "?room < readsize b")
    case True
    then show ?thesis using that grow_buffer_ok[OF assms(1,2,3) True] by (auto simp: min_def)
  next
    case False
    then show ?thesis using that[of b] assms by (simp add: min_def)
  qed
  let ?room1 = "size_of b1 - length d - 1"
  have e1: "dataend b1 = Some (length d)" using b1(2,3) by (simp add: holds_def)
  define amt where "amt = min_ssize (more_blocks (readsize b1) ?room1 (min (readsize b1) ?room1))"
  have "0 < min (readsize b1) ?room1" using b1(4,6) assms(2) by (simp add: good_buf_def)
  moreover define m where "m = more_blocks (readsize b1) ?room1 (min (readsize b1) ?room1)"
  moreover have "min (readsize b1) ?room1 \<le> m" "m \<le> ?room1"
    using more_blocks_bound[of "min (readsize b1) ?room1" ?room1 "readsize b1"] by (simp_all add: m_def)
  ultimately have "0 < amt" "amt \<le> ?room1" by (simp_all add: amt_def min_ssize_def m_def[symmetric] del: min_less_iff_conj) linarith+
  moreover have "length d < size_of b1" using b1(2,3) by (simp add: holds_def)
  ultimately have "0 < amt" "length d + amt < size_of b1" by linarith+
  moreover have "make_room b = Some (b1, amt)" using e b1(1) e1 by (simp add: make_room_def amt_def Let_def)
  moreover have "good_buf b1" using assms(2) b1(5,6) by (simp add: good_buf_def)
  ultimately show ?thesis using b1 by blast
qed

lemma store_at_ok:
  assumes "holds b d" and "length d + length t < size_of b" and "off b = 0"
  shows "\<exists>b1. store_at (length d) t b = Some b1 \<and> holds b1 (d @ t) \<and> off b1 = 0 \<and> readsize b1 = readsize b \<and> size_of b1 = size_of b \<and>
    at_eof b1 = at_eof b \<and> closed b1 = closed b \<and> scanoff b1 = scanoff b"
  using assms by (auto simp: store_at_def holds_def)

lemma store_first_ok:
  assumes "length t < size_of b"
  shows "\<exists>b1. store_at 0 t b = Some b1 \<and> holds (b1\<lparr>off := 0\<rparr>) t \<and> readsize b1 = readsize b \<and> size_of b1 = size_of b \<and>
    at_eof b1 = at_eof b \<and> closed b1 = closed b"
  using assms by (auto simp: store_at_def holds_def)

text \<open>No call of \<open>read\<close> fails.\<close>

definition sound :: "input \<Rightarrow> bool" where "sound f \<longleftrightarrow> (\<forall>n. plan f n \<noteq> None)"

lemma sys_read_ok:
  assumes "sound f"
  shows "\<exists>t f1. sys_read amt f = (Some t, f1) \<and> unread f = t @ unread f1 \<and> length t \<le> amt \<and> sound f1 \<and> (0 < amt \<longrightarrow> (t = [] \<longleftrightarrow> unread f = []))"
proof -
  obtain k where "plan f (calls f) = Some k" using assms by (auto simp: sound_def)
  then show ?thesis using assms by (auto simp: sys_read_def sound_def)
qed

text \<open>The text of \<open>RT\<close>.\<close>

lemma those_map_Some [simp]: "those (map Some t) = Some t"
  by (induction t) auto

lemma rt_text_make [simp]: "rt_text (make_string (map Some t)) = Some t"
  by (simp add: rt_text_def make_string_def)

lemma update_RT_ok:
  assumes "rt_len recm = length w" and "w \<noteq> [] \<longrightarrow> rt_start recm = Some i \<and> take (length w) (drop i b) = map Some w"
    and "m = Rs1scan \<longrightarrow> length w \<le> 1"
  shows "\<exists>rtn last. update_RT m recm b s = Some (rtn, last) \<and> (m \<noteq> Rsnullscan \<or> w = [] \<longrightarrow> rt_text rtn = Some w)"
proof (cases "w = []")
  case True
  then show ?thesis using assms(1) by (cases s) (simp add: update_RT_def rt_text_def make_string_def)
next
  case False
  obtain rtval last where s: "s = (rtval, last)" by (cases s)
  have t: "take (rt_len recm) (drop i b) = map Some w" "rt_start recm = Some i" "rt_len recm \<noteq> 0" "w \<noteq> []" using False assms(1,2) by auto
  show ?thesis
  proof (cases "last = Some m \<and> m = Rs1scan \<and> \<not> (stlen rtval \<noteq> 1 \<or> take 1 (rt_mem rtval) \<noteq> take 1 (map Some w))")
    case True
    then obtain c where w: "w = [c]" using assms(3) False by (cases w; cases "tl w") auto
    then have "take 1 (rt_mem rtval) = [Some c]" "stlen rtval = 1" using True by auto
    then have "rt_text rtval = Some w" by (cases "rt_mem rtval") (auto simp: rt_text_def w)
    then show ?thesis using True t s by (simp add: update_RT_def Let_def)
  next
    case False
    then show ?thesis using t s by (auto simp: update_RT_def Let_def)
  qed
qed

lemma buf_text_ok:
  assumes "holds b d" and "i + n \<le> length d"
  shows "take n (drop (off b + i) (buf b)) = map Some (take n (drop i d))" "buf_text (buf b) (off b + i) n = Some (take n (drop i d))"
proof -
  have "take n (drop i (take (length d) (drop (off b) (buf b)))) = map Some (take n (drop i d))"
    using assms(1) by (simp add: holds_def take_map drop_map)
  then show s: "take n (drop (off b + i) (buf b)) = map Some (take n (drop i d))"
    using assms(2) by (simp add: drop_take min_absorb1 add.commute)
  have "off b + i + n \<le> length (buf b)" using assms by (simp add: holds_def)
  then show "buf_text (buf b) (off b + i) n = Some (take n (drop i d))" using s by (simp add: buf_text_def)
qed

text \<open>What is still to be read: the data in the buffer and the rest of the input.\<close>

definition stream :: "reader \<Rightarrow> u8 list \<Rightarrow> bool" where
  "stream r T \<longleftrightarrow> good_buf (iop r) \<and> sound (inp r) \<and> \<not> closed (iop r) \<and> (at_eof (iop r) \<longrightarrow> unread (inp r) = []) \<and>
     (\<exists>d. (holds (iop r) d \<or> dataend (iop r) = None \<and> d = []) \<and> T = d @ unread (inp r))"

lemma data_left_holds: "holds b d \<Longrightarrow> data_left b \<longleftrightarrow> d \<noteq> []"
  by (auto simp: data_left_def holds_def)

lemma holds_advance: "holds b d \<Longrightarrow> n \<le> length d \<Longrightarrow> holds (b\<lparr>off := off b + n\<rparr>) (drop n d)"
  using buf_text_ok(1)[of b d n "length d - n"] by (simp add: holds_def)


text \<open>All records of a text, each with its terminator.\<close>

function records :: "(u8 list \<Rightarrow> cuts) \<Rightarrow> u8 list \<Rightarrow> (u8 list \<times> u8 list) list" where
  "records c T =
     (let (k, l, t) = c T
      in if l + t = 0 \<or> length T < k + l + t then []
         else (take l (drop k T), take t (drop (k + l) T)) # records c (drop (k + l + t) T))"
  by pat_completeness auto
termination by (relation "measure (\<lambda>(c, T). length T)") auto

declare records.simps [simp del]

text \<open>
  A cut of a text: how much is passed over, the length of the record, and of its terminator.  \<open>first_cut\<close> is known before the end of the
  input is seen, \<open>last_cut\<close> is right if nothing follows.  \<open>ready\<close> relates what was seen of the text to what is kept between
  two scans: how far \<open>off\<close> moved, \<open>scanoff\<close>, the length of the record and the state.
\<close>

locale record_scanner =
  fixes scan :: "iobuf \<Rightarrow> recmatch \<Rightarrow> scanstate \<Rightarrow> scan_result"
    and first_cut :: "u8 list \<Rightarrow> cuts option"
    and last_cut :: "u8 list \<Rightarrow> cuts"
    and ready :: "u8 list \<Rightarrow> nat \<Rightarrow> nat \<Rightarrow> nat \<Rightarrow> bool \<Rightarrow> scanstate \<Rightarrow> bool"
  assumes ready_start: "ready [] 0 so l h NOSTATE"
    and scan_law: "ready seen skip (scanoff b) (len recm) (rt_start recm \<noteq> None) st \<Longrightarrow> holds b (drop skip (seen @ new)) \<Longrightarrow> skip \<le> length seen \<Longrightarrow>
      seen @ new \<noteq> [] \<Longrightarrow> rt_follows recm (off b) \<Longrightarrow>
      \<exists>ret recm1 st1 b1 skip1. scan b recm st = Some (ret, recm1, st1, b1) \<and> holds b1 (drop skip1 (seen @ new)) \<and> same_file b b1 \<and>
        skip \<le> skip1 \<and> skip1 \<le> length (seen @ new) \<and> off b1 = off b + (skip1 - skip) \<and> start recm1 = off b1 \<and> rt_follows recm1 (off b1) \<and>
        (skip1, len recm1, rt_len recm1) = record_of first_cut last_cut (seen @ new) \<and>
        (if first_cut (seen @ new) = None then ret \<noteq> REC_OK \<and> ready (seen @ new) skip1 (scanoff b1) (len recm1) (rt_start recm1 \<noteq> None) st1
         else ret = REC_OK)"
    and cut_mono: "first_cut d = Some x \<Longrightarrow> first_cut (d @ e) = Some x"
    and cut_fits: "record_of first_cut last_cut T = (k, l, t) \<Longrightarrow> k + l + t \<le> length T"
    and cut_nonempty: "first_cut T = Some (k, l, t) \<Longrightarrow> 0 < l + t"
begin

lemma record_of_prefix: "first_cut d = Some x \<Longrightarrow> record_of first_cut last_cut (d @ e) = x"
  using cut_mono[of d x e] by (simp add: record_of_def)

lemma rec_loop_ok:
  assumes "ready seen skip (scanoff b) (len recm) (rt_start recm \<noteq> None) st" and "holds b (drop skip (seen @ new))" and "skip \<le> length seen"
    and "seen @ new \<noteq> []" and "rt_follows recm (off b)" and "good_buf b" and "sound f" and "at_eof b \<longrightarrow> unread f = []"
  shows "\<exists>recm1 b1 f1. rec_loop scan errcode b f recm st = Some (Fine, recm1, b1, f1) \<and> good_buf b1 \<and> sound f1 \<and> closed b1 = closed b \<and>
    start recm1 = off b1 \<and> rt_follows recm1 (off b1) \<and> (at_eof b1 \<longrightarrow> unread f1 = []) \<and>
    (let T = seen @ new @ unread f; (k, l, t) = record_of first_cut last_cut T
     in len recm1 = l \<and> rt_len recm1 = t \<and> (first_cut T = None \<longrightarrow> at_eof b1) \<and>
        (\<exists>d. holds b1 d \<and> drop k T = d @ unread f1 \<and> l + t \<le> length d))"
  using assms
proof (induction "length (unread f)" arbitrary: seen new skip b recm st f rule: less_induct)
  case less
  let ?D = "seen @ new" and ?T = "seen @ new @ unread f"
  from scan_law[OF less.prems(1-5)] obtain ret recm1 st1 b1 skip1 where sc: "scan b recm st = Some (ret, recm1, st1, b1)"
    "holds b1 (drop skip1 ?D)" "same_file b b1" "skip1 \<le> length ?D" "start recm1 = off b1" "rt_follows recm1 (off b1)"
    "(skip1, len recm1, rt_len recm1) = record_of first_cut last_cut ?D"
    "if first_cut ?D = None then ret \<noteq> REC_OK \<and> ready ?D skip1 (scanoff b1) (len recm1) (rt_start recm1 \<noteq> None) st1 else ret = REC_OK"
    by blast
  let ?b2 = "b1\<lparr>at_start := False\<rparr>"
  have h2: "holds ?b2 (drop skip1 ?D)" using sc(2) by (simp add: holds_def)
  have g2: "good_buf ?b2" using less.prems(6) sc(3) by (simp add: good_buf_def same_file_def)
  note fits = cut_fits[OF sc(7)[symmetric]]
  show ?case
  proof (cases "first_cut ?D")
    case (Some x)
    then have ret: "ret = REC_OK" using sc(8) by simp
    have r: "record_of first_cut last_cut ?D = x" using Some by (simp add: record_of_def)
    have rT: "record_of first_cut last_cut ?T = x" using record_of_prefix[OF Some, of "unread f"] by simp
    have nT: "first_cut ?T \<noteq> None" using cut_mono[OF Some, of "unread f"] by simp
    have "rec_loop scan errcode b f recm st = Some (Fine, recm1, ?b2, f)"
      using sc(1) ret by (subst rec_loop.simps) simp
    moreover have "len recm1 + rt_len recm1 \<le> length (drop skip1 ?D)" using fits by simp
    moreover have "drop skip1 ?T = drop skip1 ?D @ unread f" using sc(4) by simp
    ultimately show ?thesis using sc rT r nT h2 g2 less.prems(7,8)
      by (intro exI[of _ recm1] exI[of _ ?b2] exI[of _ f]) (auto simp: same_file_def simp del: append_assoc drop_append)
  next
    case None
    then have ret: "ret \<noteq> REC_OK" and rdy: "ready ?D skip1 (scanoff b1) (len recm1) (rt_start recm1 \<noteq> None) st1" using sc(8) by simp_all
    define b3 where "b3 = shift_down ?b2 (off ?b2 + length (drop skip1 ?D))"
    have h3: "holds b3 (drop skip1 ?D)" "off b3 = 0" "same_file ?b2 b3" "scanoff b3 = scanoff b1"
      using holds_shift[OF h2] by (simp_all add: b3_def) (simp add: shift_down_def Let_def)
    have g3: "good_buf b3" using g2 h3(3) by (simp add: good_buf_def same_file_def)
    from make_room_ok[OF h3(1) g3 h3(2)] obtain b4 amt where b4: "make_room b3 = Some (b4, amt)" "holds b4 (drop skip1 ?D)" "good_buf b4"
      "off b4 = 0" "0 < amt" "length (drop skip1 ?D) + amt < size_of b4" "at_eof b4 = at_eof b3" "closed b4 = closed b3" "scanoff b4 = scanoff b3"
      by blast
    define recm2 where "recm2 = adjust b4 recm1"
    have a: "len recm2 = len recm1" "rt_len recm2 = rt_len recm1" "start recm2 = off b4" "rt_follows recm2 (off b4)"
      "(rt_start recm2 \<noteq> None) = (rt_start recm1 \<noteq> None)"
      using sc(6) by (auto simp: recm2_def adjust_def rt_follows_def split: if_splits)
    from sys_read_ok[OF less.prems(7), of amt] b4(5) obtain t f1 where rd: "sys_read amt f = (Some t, f1)" "unread f = t @ unread f1"
      "length t \<le> amt" "sound f1" "t = [] \<longleftrightarrow> unread f = []" by auto
    have e2: "dataend ?b2 = Some (off ?b2 + length (drop skip1 ?D))" using holds_end[OF h2] .
    have cl: "at_eof b3 = at_eof b" "closed b3 = closed b" using h3(3) sc(3) by (simp_all add: same_file_def)
    note step = sc(1) ret e2 b4(1)[unfolded b3_def] rd(1)
    show ?thesis
    proof (cases "t = []")
      case True
      have "rec_loop scan errcode b f recm st = Some (Fine, recm2, b4\<lparr>at_eof := True\<rparr>, f1)"
        using step True by (subst rec_loop.simps) (simp add: recm2_def)
      moreover have "unread f = []" "unread f1 = []" using rd(2,5) True by simp_all
      moreover have "holds (b4\<lparr>at_eof := True\<rparr>) (drop skip1 ?D)" using b4(2) by (simp add: holds_def)
      moreover have "good_buf (b4\<lparr>at_eof := True\<rparr>)" using b4(3) by (simp add: good_buf_def)
      moreover have "len recm1 + rt_len recm1 \<le> length (drop skip1 ?D)" using fits by simp
      ultimately show ?thesis using sc(7) a rd(4) b4(8) cl None
        by (intro exI[of _ recm2] exI[of _ "b4\<lparr>at_eof := True\<rparr>"] exI[of _ f1]) (auto simp: Let_def split: prod.splits)
    next
      case False
      have "length (drop skip1 ?D) + length t < size_of b4" using b4(6) rd(3) by linarith
      from store_at_ok[OF b4(2) this b4(4)] obtain b5 where b5: "store_at (length (drop skip1 ?D)) t b4 = Some b5"
        "holds b5 (drop skip1 ?D @ t)" "off b5 = 0" "readsize b5 = readsize b4" "size_of b5 = size_of b4" "at_eof b5 = at_eof b4"
        "closed b5 = closed b4" "scanoff b5 = scanoff b4" by blast
      have e4: "dataend b4 = Some (length (drop skip1 ?D))" using holds_end[OF b4(2)] b4(4) by simp
      have loop: "rec_loop scan errcode b f recm st = rec_loop scan errcode b5 f1 recm2 st1"
        using step False e4 b5(1) by (subst rec_loop.simps) (simp add: recm2_def)
      have rdy5: "ready ?D skip1 (scanoff b5) (len recm2) (rt_start recm2 \<noteq> None) st1"
        using rdy a b5(8) b4(9) h3(4) by simp
      have h5: "holds b5 (drop skip1 (?D @ t))" using b5(2) sc(4) by simp
      have "length (unread f1) < length (unread f)" using rd(2) False by simp
      have ne: "(seen @ new) @ t \<noteq> []" using False by simp
      have rf: "rt_follows recm2 (off b5)" using a(4) b4(4) b5(3) by simp
      have gb: "good_buf b5" using b4(3) b5(4,5) by (simp add: good_buf_def)
      have ae: "at_eof b5 \<longrightarrow> unread f1 = []" using less.prems(8) rd(2) b5(6) b4(7) cl(1) by auto
      note less.hyps[OF \<open>length (unread f1) < length (unread f)\<close> rdy5 h5 sc(4) ne rf gb rd(4) ae]
      then show ?thesis using loop rd(2) b5(7) b4(8) cl(2) by (simp del: drop_append)
    qed
  qed
qed

lemma finish_record_ok:
  assumes "matchrec rs search = scan" and "stream r T" and "holds (iop r) d" and "d \<noteq> []" and "T = d @ unread (inp r)"
    and "set_RS rs = Rs1scan \<longrightarrow> snd (snd (record_of first_cut last_cut T)) \<le> 1"
  shows "\<exists>g r1. finish_record rs search errcode r = Some (g, False, r1) \<and>
    (let (k, l, t) = record_of first_cut last_cut T
     in g = (if l = 0 \<and> t = 0 then Eof else Got (take l (drop k T))) \<and> stream r1 (drop (k + l + t) T) \<and>
        (set_RS rs \<noteq> Rsnullscan \<or> t = 0 \<longrightarrow> rt_text (rt r1) = Some (take t (drop (k + l) T))))"
proof -
  obtain k l t where kl: "record_of first_cut last_cut T = (k, l, t)" by (cases "record_of first_cut last_cut T")
  have pre: "ready [] 0 (scanoff (iop r)) (len no_match) (rt_start no_match \<noteq> None) NOSTATE" by (rule ready_start)
  have "rt_follows no_match (off (iop r))" by (simp add: rt_follows_def no_match_def)
  from rec_loop_ok[OF pre, of d "inp r" errcode] this assms(2-5) obtain recm b f where
    loop: "rec_loop scan errcode (iop r) (inp r) no_match NOSTATE = Some (Fine, recm, b, f)" "good_buf b" "sound f" "closed b = closed (iop r)"
      "start recm = off b" "rt_follows recm (off b)" "at_eof b \<longrightarrow> unread f = []" and
    res: "len recm = l" "rt_len recm = t" "first_cut T = None \<longrightarrow> at_eof b" "\<exists>d. holds b d \<and> drop k T = d @ unread f \<and> l + t \<le> length d"
    using kl by (auto simp: stream_def)
  from res(4) obtain d1 where d1: "holds b d1" "drop k T = d1 @ unread f" "l + t \<le> length d1" by blast
  have kT: "take l (drop k T) = take l d1" "take t (drop (k + l) T) = take t (drop l d1)" "drop (k + l + t) T = drop (l + t) d1 @ unread f"
  proof -
    show "take l (drop k T) = take l d1" using d1(2,3) by simp
    have "drop (k + l) T = drop l (drop k T)" by (simp add: add.commute)
    then show "take t (drop (k + l) T) = take t (drop l d1)" using d1(2,3) by simp
    have "drop (k + l + t) T = drop (l + t) (drop k T)" by (simp add: ac_simps)
    then show "drop (k + l + t) T = drop (l + t) d1 @ unread f" using d1(2,3) by simp
  qed
  let ?w = "take t (drop l d1)"
  have w: "length ?w = t" using d1(3) by simp
  have "?w \<noteq> [] \<longrightarrow> rt_start recm = Some (off b + l) \<and> take (length ?w) (drop (off b + l) (buf b)) = map Some ?w"
    using loop(6) res(1,2) w buf_text_ok(1)[OF d1(1,3)] by (auto simp: rt_follows_def split: if_splits)
  moreover have "set_RS rs = Rs1scan \<longrightarrow> length ?w \<le> 1" using assms(6) kl w by simp
  ultimately obtain rtn last where rt: "update_RT (set_RS rs) recm (buf b) (rt r, lastmatchrec r) = Some (rtn, last)"
    "set_RS rs \<noteq> Rsnullscan \<or> t = 0 \<longrightarrow> rt_text rtn = Some ?w"
    using update_RT_ok[of recm ?w "off b + l" "buf b" "set_RS rs" "(rt r, lastmatchrec r)"] res(2) w by auto
  have rtxt: "buf_text (buf b) (start recm) (len recm) = Some (take l d1)"
    using buf_text_ok(2)[OF d1(1), of 0 l] d1(3) loop(5) res(1) by simp
  define r1 where "r1 = r\<lparr>iop := b\<lparr>off := off b + (l + t)\<rparr>, inp := f, rt := rtn, lastmatchrec := last\<rparr>"
  have fin: "finish_record rs search errcode r = Some (if l = 0 \<and> t = 0 \<and> at_eof b then Eof else Got (take l d1), False, r1)"
    using loop(1) rt(1) rtxt res(1,2) assms(1) by (simp add: finish_record_def r1_def)
  have z: "l = 0 \<and> t = 0 \<longrightarrow> at_eof b"
    using cut_nonempty[of T k l t] res(3) kl by (cases "first_cut T") (auto simp: record_of_def)
  have "holds (b\<lparr>off := off b + (l + t)\<rparr>) (drop (l + t) d1)" using holds_advance[OF d1(1,3)] .
  then have "stream r1 (drop (k + l + t) T)"
    using loop(2-4,7) kT(3) assms(2) by (auto simp: stream_def r1_def good_buf_def)
  then show ?thesis using fin z kl kT rt(2) by (auto simp: r1_def)
qed

lemma get_a_record_ok:
  assumes "matchrec rs search = scan" and "stream r T" and "set_RS rs = Rs1scan \<longrightarrow> snd (snd (record_of first_cut last_cut T)) \<le> 1"
  shows "\<exists>g r1. get_a_record rs search errcode r = Some (g, False, r1) \<and>
    (if T = [] then g = Eof \<and> stream r1 []
     else let (k, l, t) = record_of first_cut last_cut T
       in g = (if l = 0 \<and> t = 0 then Eof else Got (take l (drop k T))) \<and> stream r1 (drop (k + l + t) T) \<and>
          (set_RS rs \<noteq> Rsnullscan \<or> t = 0 \<longrightarrow> rt_text (rt r1) = Some (take t (drop (k + l) T))))"
proof -
  obtain d where d: "holds (iop r) d \<or> dataend (iop r) = None \<and> d = []" "T = d @ unread (inp r)" using assms(2) by (auto simp: stream_def)
  have left: "data_left (iop r) \<longleftrightarrow> d \<noteq> []" using d(1) data_left_holds by (auto simp: data_left_def)
  show ?thesis
  proof (cases "d = []")
    case False
    then have "T \<noteq> []" "holds (iop r) d" using d by auto
    then show ?thesis using finish_record_ok[OF assms(1,2) _ False d(2) assms(3)] left False by (simp add: get_a_record_def)
  next
    case nil: True
    show ?thesis
    proof (cases "at_eof (iop r)")
      case True
      then show ?thesis using assms(2) nil left d by (simp add: get_a_record_def stream_def)
    next
      case ne: False
      have "sound (inp r)" and g: "good_buf (iop r)" using assms(2) by (simp_all add: stream_def)
      from sys_read_ok[OF this(1), of "readsize (iop r)"] g obtain t f where rd: "sys_read (readsize (iop r)) (inp r) = (Some t, f)"
        "unread (inp r) = t @ unread f" "length t \<le> readsize (iop r)" "sound f" "t = [] \<longleftrightarrow> unread (inp r) = []" by (auto simp: good_buf_def)
      show ?thesis
      proof (cases "t = []")
        case True
        have "get_a_record rs search errcode r = Some (Eof, False, r\<lparr>iop := (iop r)\<lparr>at_eof := True\<rparr>, inp := f\<rparr>)"
          using ne left nil rd True by (simp add: get_a_record_def)
        moreover have "T = []" using d(2) nil True rd(5) by simp
        moreover have "stream (r\<lparr>iop := (iop r)\<lparr>at_eof := True\<rparr>, inp := f\<rparr>) []"
          using assms(2) rd True d nil by (auto simp: stream_def good_buf_def holds_def)
        ultimately show ?thesis by simp
      next
        case False
        have "length t < size_of (iop r)" using rd(3) g by (simp add: good_buf_def)
        from store_first_ok[OF this] obtain b1 where b1: "store_at 0 t (iop r) = Some b1" "holds (b1\<lparr>off := 0\<rparr>) t"
          "readsize b1 = readsize (iop r)" "size_of b1 = size_of (iop r)" "at_eof b1 = at_eof (iop r)" "closed b1 = closed (iop r)" by blast
        let ?r = "r\<lparr>iop := b1\<lparr>off := 0\<rparr>, inp := f\<rparr>"
        have "get_a_record rs search errcode r = finish_record rs search errcode ?r"
          using ne left nil rd False b1(1) by (simp add: get_a_record_def)
        moreover have T: "T = t @ unread (inp ?r)" using d(2) nil rd(2) by simp
        moreover have "stream ?r T" using assms(2) b1 rd(2,4) ne T by (auto simp: stream_def good_buf_def)
        moreover have "T \<noteq> []" using T False by simp
        ultimately show ?thesis using finish_record_ok[OF assms(1), of ?r T t] b1(2) False assms(3) by simp
      qed
    qed
  qed
qed

lemma records_Nil: "records (record_of first_cut last_cut) [] = []"
  using cut_fits[of "[]"] by (cases "record_of first_cut last_cut []") (simp add: records.simps)

lemma input_loop_ok:
  assumes m: "matchrec rs search = scan" and one: "set_RS rs = Rs1scan \<longrightarrow> (\<forall>T. snd (snd (record_of first_cut last_cut T)) \<le> 1)"
    and "stream r T"
  shows "\<exists>ts r1. input_loop rs search (r, n) = Some (ts, r1, n + length ts) \<and>
    map fst ts = map fst (records (record_of first_cut last_cut) T) \<and>
    (set_RS rs \<noteq> Rsnullscan \<longrightarrow> map snd ts = map (Some \<circ> snd) (records (record_of first_cut last_cut) T))"
  using assms(3)
proof (induction "length T" arbitrary: r T n rule: less_induct)
  case less
  have cl: "\<not> closed (iop r)" using less.prems by (simp add: stream_def)
  show ?case
  proof (cases "at_eof (iop r) \<and> \<not> data_left (iop r)")
    case True
    then have "T = []" using less.prems data_left_holds by (auto simp: stream_def)
    then show ?thesis using True records_Nil by (subst input_loop.simps) (simp add: inrec_def)
  next
    case False
    have "set_RS rs = Rs1scan \<longrightarrow> snd (snd (record_of first_cut last_cut T)) \<le> 1" using one by blast
    from get_a_record_ok[OF m less.prems this, of False] obtain g r1 where g: "get_a_record rs search False r = Some (g, False, r1)"
      "if T = [] then g = Eof \<and> stream r1 []
       else let (k, l, t) = record_of first_cut last_cut T
         in g = (if l = 0 \<and> t = 0 then Eof else Got (take l (drop k T))) \<and> stream r1 (drop (k + l + t) T) \<and>
            (set_RS rs \<noteq> Rsnullscan \<or> t = 0 \<longrightarrow> rt_text (rt r1) = Some (take t (drop (k + l) T)))" by blast
    obtain k l t where kl: "record_of first_cut last_cut T = (k, l, t)" by (cases "record_of first_cut last_cut T")
    have fits: "k + l + t \<le> length T" using cut_fits[OF kl] .
    have ir: "inrec rs search (r, n) = Some (case g of Eof \<Rightarrow> (None, r1, n) | Got t \<Rightarrow> (Some t, r1, n + 1))"
      using False cl g(1) by (auto simp: inrec_def)
    show ?thesis
    proof (cases "T = [] \<or> l + t = 0")
      case True
      have "records (record_of first_cut last_cut) T = []"
      proof (cases "T = []")
        case False
        then show ?thesis using True kl by (simp add: records.simps)
      qed (simp add: records_Nil)
      moreover have "g = Eof" using g(2) kl True by (cases "T = []") simp_all
      ultimately show ?thesis using ir by (subst input_loop.simps) simp
    next
      case ne: False
      then have res: "g = Got (take l (drop k T))" "stream r1 (drop (k + l + t) T)"
        "set_RS rs \<noteq> Rsnullscan \<longrightarrow> rt_text (rt r1) = Some (take t (drop (k + l) T))" using g(2) kl by auto
      have "length (drop (k + l + t) T) < length T" using ne fits by auto
      from less.hyps[OF this res(2), of "n + 1"] obtain ts r2 where ts: "input_loop rs search (r1, n + 1) = Some (ts, r2, n + 1 + length ts)"
        "map fst ts = map fst (records (record_of first_cut last_cut) (drop (k + l + t) T))"
        "set_RS rs \<noteq> Rsnullscan \<longrightarrow> map snd ts = map (Some \<circ> snd) (records (record_of first_cut last_cut) (drop (k + l + t) T))" by blast
      have "records (record_of first_cut last_cut) T =
        (take l (drop k T), take t (drop (k + l) T)) # records (record_of first_cut last_cut) (drop (k + l + t) T)"
        using kl ne fits by (subst records.simps) simp
      then show ?thesis using ir res ts by (subst input_loop.simps) simp
    qed
  qed
qed

end

section \<open>One character\<close>

lemma upto_mark: "upto c (map Some x @ Some c # r) = Some (length (takeWhile (\<lambda>a. a \<noteq> c) x))"
  by (induction x) auto

text \<open>The buffer with a mark after the data.\<close>

lemma holds_mark:
  fixes c :: u8
  assumes "holds b d" and "i \<le> length d"
  defines "m \<equiv> (buf b)[off b + length d := Some c]"
  shows "wr_at (buf b) (off b + length d) (Some c) = Some m" "holds (b\<lparr>buf := m, scanoff := n\<rparr>) d" "holds (b\<lparr>buf := m\<rparr>) d"
    "\<exists>r. drop (off b + i) m = map Some (drop i d) @ Some c # r"
proof -
  have e: "off b + length d < size_of b" using assms(1) by (simp add: holds_def)
  show "wr_at (buf b) (off b + length d) (Some c) = Some m" using e by (simp add: m_def)
  have t: "take (length d) (drop (off b) m) = map Some d" using assms(1) by (simp add: m_def holds_def drop_update_swap)
  then show "holds (b\<lparr>buf := m, scanoff := n\<rparr>) d" "holds (b\<lparr>buf := m\<rparr>) d" using assms(1) by (simp_all add: holds_def m_def)
  have "drop (off b) m = map Some d @ drop (off b + length d) m"
    using t append_take_drop_id[of "length d" "drop (off b) m"] by (simp add: add.commute)
  moreover have "drop (off b + length d) m = Some c # drop (Suc (off b + length d)) m"
    using e by (simp add: m_def Cons_nth_drop_Suc[symmetric])
  ultimately have "drop (off b) m = map Some d @ Some c # drop (Suc (off b + length d)) m" by simp
  then have "drop i (drop (off b) m) = map Some (drop i d) @ Some c # drop (Suc (off b + length d)) m" using assms(2) by (simp add: drop_map)
  then show "\<exists>r. drop (off b + i) m = map Some (drop i d) @ Some c # r" by (simp add: add.commute)
qed

definition rs1_cut :: "u8 \<Rightarrow> u8 list \<Rightarrow> cuts option" where
  "rs1_cut c T = (if c \<in> set T then Some (0, length (takeWhile (\<lambda>a. a \<noteq> c) T), 1) else None)"

definition rest_cut :: "u8 list \<Rightarrow> cuts" where "rest_cut T = (0, length T, 0)"

definition rs1_ready :: "u8 \<Rightarrow> u8 list \<Rightarrow> nat \<Rightarrow> nat \<Rightarrow> nat \<Rightarrow> bool \<Rightarrow> scanstate \<Rightarrow> bool" where
  "rs1_ready c seen skip so l h st \<longleftrightarrow> skip = 0 \<and> (st = NOSTATE \<or> st = INDATA \<and> so \<le> length seen \<and> c \<notin> set (take so seen))"

lemma takeWhile_pass: "c \<notin> set (take i d) \<Longrightarrow> i \<le> length d \<Longrightarrow>
  i + length (takeWhile (\<lambda>a. a \<noteq> c) (drop i d)) = length (takeWhile (\<lambda>a. a \<noteq> c) d)"
proof (induction d arbitrary: i)
  case (Cons a d)
  then show ?case by (cases i) auto
qed simp

lemma takeWhile_found: "c \<in> set d \<Longrightarrow> length (takeWhile (\<lambda>a. a \<noteq> c) d) < length d"
  by (induction d) auto

lemma length_takeWhile_ne: "c \<notin> set d \<Longrightarrow> length (takeWhile (\<lambda>a. a \<noteq> c) d) = length d"
  by (induction d) auto

interpretation rs1: record_scanner "rs1scan c" "rs1_cut c" rest_cut "rs1_ready c" for c
proof
  show "rs1_ready c [] 0 so l h NOSTATE" for so l h by (simp add: rs1_ready_def)
  show "rs1_cut c (d @ e) = Some x" if "rs1_cut c d = Some x" for d e x
    using that by (auto simp: rs1_cut_def split: if_splits)
  show "k + l + t \<le> length T" if "record_of (rs1_cut c) rest_cut T = (k, l, t)" for T k l t
    using that takeWhile_found[of c T] by (auto simp: record_of_def rs1_cut_def rest_cut_def split: if_splits)
  show "0 < l + t" if "rs1_cut c T = Some (k, l, t)" for T k l t
    using that by (auto simp: rs1_cut_def split: if_splits)
  fix seen skip b st new and recm :: recmatch
  assume rdy: "rs1_ready c seen skip (scanoff b) (len recm) (rt_start recm \<noteq> None) st" and h: "holds b (drop skip (seen @ new))"
  let ?d = "seen @ new" and ?i = "if st = INDATA then scanoff b else 0"
  have sk: "skip = 0" using rdy by (simp add: rs1_ready_def)
  then have h0: "holds b ?d" using h by simp
  have i: "?i \<le> length ?d" "c \<notin> set (take ?i ?d)" using rdy by (auto simp: rs1_ready_def)
  define m where "m = (buf b)[off b + length ?d := Some c]"
  note hm = holds_mark[OF h0 i(1), where c = c, folded m_def]
  from hm(4) obtain r where r: "drop (off b + ?i) m = map Some (drop ?i ?d) @ Some c # r" by blast
  let ?n = "length (takeWhile (\<lambda>a. a \<noteq> c) (drop ?i ?d))" and ?l = "length (takeWhile (\<lambda>a. a \<noteq> c) ?d)"
  have l: "?i + ?n = ?l" using takeWhile_pass[OF i(2,1)] .
  have bp: "(if st = INDATA then off b + scanoff b else off b) = off b + ?i" by simp
  have scan: "rs1scan c b recm st = (let recm1 = no_match\<lparr>start := off b, len := ?l\<rparr>
    in if ?l < length ?d then Some (REC_OK, recm1\<lparr>rt_start := Some (off b + ?l), rt_len := 1\<rparr>, NOSTATE, b\<lparr>buf := m\<rparr>)
       else Some (NOTERM, recm1, INDATA, b\<lparr>buf := m, scanoff := ?l\<rparr>))"
    using holds_end[OF h0] hm(1) r upto_mark[of c "drop ?i ?d" r] l
    unfolding rs1scan_def Let_def bp by (simp add: add.assoc)
  show "\<exists>ret recm1 st1 b1 skip1. rs1scan c b recm st = Some (ret, recm1, st1, b1) \<and> holds b1 (drop skip1 ?d) \<and> same_file b b1 \<and>
      skip \<le> skip1 \<and> skip1 \<le> length ?d \<and> off b1 = off b + (skip1 - skip) \<and> start recm1 = off b1 \<and> rt_follows recm1 (off b1) \<and>
      (skip1, len recm1, rt_len recm1) = record_of (rs1_cut c) rest_cut ?d \<and>
      (if rs1_cut c ?d = None then ret \<noteq> REC_OK \<and> rs1_ready c ?d skip1 (scanoff b1) (len recm1) (rt_start recm1 \<noteq> None) st1 else ret = REC_OK)"
  proof (cases "c \<in> set ?d")
    case True
    then have "?l < length ?d" by (rule takeWhile_found)
    then show ?thesis using scan True sk hm(3)
      by (simp add: record_of_def rs1_cut_def same_file_def rt_follows_def no_match_def Let_def m_def)
  next
    case False
    then have "?l = length ?d" by (rule length_takeWhile_ne)
    then show ?thesis using scan False sk hm(2)
      by (simp add: record_of_def rs1_cut_def rest_cut_def rs1_ready_def same_file_def rt_follows_def no_match_def Let_def m_def)
  qed
qed

section \<open>Paragraphs\<close>

text \<open>Where two newlines start, and the length of a text without a newline at its end.\<close>

fun para_end :: "u8 list \<Rightarrow> nat option" where
  "para_end (a # b # s) = (if a = 10 \<and> b = 10 then Some 0 else map_option Suc (para_end (b # s)))"
| "para_end s = None"

definition trimmed :: "u8 list \<Rightarrow> nat" where
  "trimmed s = (if s \<noteq> [] \<and> last s = 10 then length s - 1 else length s)"

abbreviation newlines :: "u8 list \<Rightarrow> nat" where "newlines s \<equiv> length (takeWhile (\<lambda>c. c = 10) s)"

definition null_cut :: "u8 list \<Rightarrow> cuts option" where
  "null_cut T =
     (let k = newlines T; s = drop k T
      in case para_end s of
           None \<Rightarrow> None
         | Some p \<Rightarrow> (if s \<noteq> [] \<and> p + newlines (drop p s) < length s then Some (k, p, newlines (drop p s)) else None))"

definition null_last :: "u8 list \<Rightarrow> cuts" where
  "null_last T =
     (let k = newlines T; s = drop k T
      in if s = [] then (0, 0, 0)
         else case para_end s of None \<Rightarrow> (k, trimmed s, 0) | Some p \<Rightarrow> (k, p, newlines (drop p s)))"

lemma trimmed_le: "trimmed s \<le> length s"
  by (simp add: trimmed_def)

lemma para_end_bound: "para_end s = Some p \<Longrightarrow> p + 2 \<le> length s \<and> s ! p = 10 \<and> s ! Suc p = 10"
  by (induction s arbitrary: p rule: para_end.induct) (auto split: if_splits)

text \<open>The search can go on from the last character of a text without two newlines if it is a newline, and else from its end.\<close>

lemma map_plus_0 [simp]: "map_option ((+) (0 :: nat)) x = x"
  by (cases x) auto

lemma para_end_Cons: "a \<noteq> 10 \<Longrightarrow> para_end (a # d) = map_option Suc (para_end d)"
  by (cases d) auto

lemma trimmed_append:
  "para_end s = None \<Longrightarrow> s @ d \<noteq> [] \<Longrightarrow>
    para_end (s @ d) = map_option (\<lambda>p. trimmed s + p) (para_end (drop (trimmed s) (s @ d))) \<and>
    trimmed (s @ d) = trimmed s + trimmed (drop (trimmed s) (s @ d))"
proof (induction s rule: para_end.induct)
  case (1 a b s)
  then have n: "\<not> (a = 10 \<and> b = 10)" "para_end (b # s) = None" by (auto split: if_splits)
  have t: "trimmed (a # b # s) = Suc (trimmed (b # s))" by (auto simp: trimmed_def)
  have "trimmed ((a # b # s) @ d) = Suc (trimmed ((b # s) @ d))" by (auto simp: trimmed_def)
  then show ?case using 1(1)[OF n] n(1) t by (auto simp: option.map_comp comp_def)
next
  fix v
  assume "[v] @ d \<noteq> []"
  then show "para_end ([v] @ d) = map_option (\<lambda>p. trimmed [v] + p) (para_end (drop (trimmed [v]) ([v] @ d))) \<and>
    trimmed ([v] @ d) = trimmed [v] + trimmed (drop (trimmed [v]) ([v] @ d))"
    using para_end_Cons[of v d] by (cases "v = 10") (auto simp: trimmed_def option.map_ident)
qed (simp add: trimmed_def)

lemma para_end_skip: "10 \<notin> set y \<Longrightarrow> para_end (y @ 10 # z) = map_option (\<lambda>p. length y + p) (para_end (10 # z)) \<and>
  trimmed (y @ 10 # z) = length y + trimmed (10 # z)"
proof (induction y)
  case (Cons a y)
  then have "a \<noteq> 10" by auto
  then have "para_end (a # y @ 10 # z) = map_option Suc (para_end (y @ 10 # z))" by (cases y) auto
  moreover have "trimmed (a # y @ 10 # z) = Suc (trimmed (y @ 10 # z))" by (auto simp: trimmed_def)
  ultimately show ?case using Cons by (auto simp: option.map_comp comp_def)
qed simp

lemma para_end_none: "10 \<notin> set y \<Longrightarrow> para_end y = None \<and> trimmed y = length y"
proof (induction y rule: para_end.induct)
  case (1 a b s)
  then show ?case by (auto simp: trimmed_def split: if_splits)
qed (auto simp: trimmed_def)

lemma rd_buf_drop: "drop i b = x # r \<Longrightarrow> rd_buf b i = x"
  using drop_ConsD[of i b x r] by (simp add: rd_buf_def)

lemma skip_newlines_ok: "drop bp b = map Some x @ Some 10 # r \<Longrightarrow> e = bp + length x \<Longrightarrow> skip_newlines b e bp = Some (bp + newlines x)"
proof (induction x arbitrary: bp)
  case Nil
  then show ?case using rd_buf_drop[of bp b] by (subst skip_newlines.simps) simp
next
  case (Cons a x)
  then have "drop (Suc bp) b = map Some x @ Some 10 # r" using drop_ConsD[of bp b "Some a"] by simp
  then have "skip_newlines b e (Suc bp) = Some (Suc bp + newlines x)" using Cons by simp
  then show ?case using rd_buf_drop[of bp b "Some a"] Cons.prems by (subst skip_newlines.simps) simp
qed

lemma scan_data_ok:
  "drop bp b = map Some x @ Some 10 # r \<Longrightarrow> e = bp + length x \<Longrightarrow>
   scan_data b e bp = Some (case para_end x of None \<Rightarrow> (bp + trimmed x + 1, False) | Some p \<Rightarrow> (bp + p + 1, True))"
proof (induction "length x" arbitrary: x bp rule: less_induct)
  case less
  let ?n = "length (takeWhile (\<lambda>a. a \<noteq> 10) x)"
  have up: "upto 10 (drop bp b) = Some ?n" using less.prems(1) upto_mark by simp
  show ?case
  proof (cases "10 \<in> set x")
    case False
    then have "?n = length x" by (rule length_takeWhile_ne)
    then show ?thesis using up less.prems(2) para_end_none[OF False] by (subst scan_data.simps) simp
  next
    case True
    define y where "y = takeWhile (\<lambda>a. a \<noteq> 10) x"
    obtain z where z: "x = y @ 10 # z" and y: "10 \<notin> set y"
    proof -
      obtain a z where az: "dropWhile (\<lambda>a. a \<noteq> 10) x = a # z" using True by (cases "dropWhile (\<lambda>a. a \<noteq> 10) x") auto
      then have "a = 10" using hd_dropWhile[of "\<lambda>a. a \<noteq> 10" x] by simp
      then have "x = y @ 10 # z" using takeWhile_dropWhile_id[of "\<lambda>a. a \<noteq> 10" x] az by (simp add: y_def)
      moreover have "10 \<notin> set y" by (auto simp: y_def dest: set_takeWhileD)
      ultimately show ?thesis using that by blast
    qed
    have n: "?n = length y" by (simp add: y_def)
    let ?bp1 = "bp + length y + 1"
    have "drop ?bp1 b = drop (length y + 1) (drop bp b)" by (simp add: ac_simps)
    then have d1: "drop ?bp1 b = map Some z @ Some 10 # r" using less.prems(1) z by simp
    note ps = para_end_skip[OF y, of z]
    show ?thesis
    proof (cases z)
      case Nil
      then show ?thesis using up n z less.prems(2) ps by (subst scan_data.simps) (simp add: trimmed_def)
    next
      case (Cons a z1)
      have rd: "rd_buf b ?bp1 = Some a" using rd_buf_drop[of ?bp1 b "Some a"] d1 Cons by simp
      show ?thesis
      proof (cases "a = 10")
        case True
        then show ?thesis using up n z less.prems(2) ps rd Cons by (subst scan_data.simps) simp
      next
        case False
        have "scan_data b e ?bp1 = Some (case para_end z of None \<Rightarrow> (?bp1 + trimmed z + 1, False) | Some p \<Rightarrow> (?bp1 + p + 1, True))"
          using less.hyps[of z ?bp1] d1 less.prems(2) z by simp
        moreover have "para_end (10 # z) = map_option Suc (para_end z)" "trimmed (10 # z) = Suc (trimmed z)"
          using False Cons by (auto simp: trimmed_def)
        ultimately show ?thesis using up n z less.prems(2) ps rd Cons False
          by (subst scan_data.simps) (auto split: option.splits)
      qed
    qed
  qed
qed

lemma newlines_all: "newlines x = length x \<Longrightarrow> newlines (x @ y) = length x + newlines y"
  by (induction x) (auto split: if_splits)

lemma newlines_some: "newlines x < length x \<Longrightarrow> newlines (x @ y) = newlines x"
  by (induction x) (auto split: if_splits)

lemma newlines_le: "newlines x \<le> length x"
  by (rule length_takeWhile_le)

lemma newlines_fit: "para_end s = Some p \<Longrightarrow> p + newlines (drop p s) \<le> length s"
proof -
  assume "para_end s = Some p"
  then have "p \<le> length s" using para_end_bound by force
  moreover have "newlines (drop p s) \<le> length s - p" using newlines_le[of "drop p s"] by (simp only: length_drop)
  ultimately show ?thesis by linarith
qed

lemma newlines_at: "p < length s \<Longrightarrow> s ! p = 10 \<Longrightarrow> newlines (drop p s) = Suc (newlines (drop (Suc p) s))"
  by (simp add: Cons_nth_drop_Suc[symmetric])

lemma longest_terminator_ok:
  assumes "drop (off b + i) (buf b) = map Some (drop i s) @ Some 10 # r" and "p \<le> i" and "i \<le> length s" and "rt_start recm = Some (off b + p)"
    and "newlines (drop p s) = i - p + newlines (drop i s)"
  shows "longest_terminator (off b + length s) (off b + i) recm b =
    Some (if p + newlines (drop p s) = length s then TERMATEND else REC_OK, recm\<lparr>rt_len := newlines (drop p s)\<rparr>, INTERM,
      b\<lparr>scanoff := p + newlines (drop p s)\<rparr>)"
proof -
  have "skip_newlines (buf b) (off b + length s) (off b + i) = Some (off b + i + newlines (drop i s))"
    using skip_newlines_ok[OF assms(1), of "off b + length s"] assms(3) by simp
  moreover have "newlines (drop i s) \<le> length s - i" using newlines_le[of "drop i s"] by simp
  ultimately show ?thesis using assms(2-5) by (auto simp: longest_terminator_def Let_def)
qed

lemma data_part_ok:
  assumes "drop (off b + j) (buf b) = map Some (drop j s) @ Some 10 # r" and "j \<le> length s"
    and "para_end s = map_option (\<lambda>p. j + p) (para_end (drop j s))" and "trimmed s = j + trimmed (drop j s)"
  shows "data_part (off b + length s) (off b + j) recm b =
    (case para_end s of
       None \<Rightarrow> Some (NOTERM, recm\<lparr>len := trimmed s\<rparr>, INDATA, b\<lparr>scanoff := trimmed s\<rparr>)
     | Some p \<Rightarrow> Some (if p + newlines (drop p s) = length s then TERMATEND else REC_OK,
         recm\<lparr>len := p, rt_start := Some (off b + p), rt_len := newlines (drop p s)\<rparr>, INTERM, b\<lparr>scanoff := p + newlines (drop p s)\<rparr>))"
proof (cases "para_end (drop j s)")
  case None
  then show ?thesis using scan_data_ok[OF assms(1), of "off b + length s"] assms(2-4) by (simp add: data_part_def)
next
  case (Some q)
  then have p: "para_end s = Some (j + q)" using assms(3) by simp
  have b: "j + q + 2 \<le> length s" "s ! (j + q) = 10" using para_end_bound[OF p] by simp_all
  have "drop (Suc q) (drop (off b + j) (buf b)) = map Some (drop (Suc q) (drop j s)) @ Some 10 # r"
    unfolding assms(1) using b(1) by (simp add: drop_map)
  then have d: "drop (off b + Suc (j + q)) (buf b) = map Some (drop (Suc (j + q)) s) @ Some 10 # r" by (simp add: ac_simps)
  note longest_terminator_ok[OF d, of "j + q" "recm\<lparr>len := j + q, rt_start := Some (off b + (j + q))\<rparr>"]
  then show ?thesis using scan_data_ok[OF assms(1), of "off b + length s"] assms(2) Some p b newlines_at[of "j + q" s]
    by (simp add: data_part_def ac_simps)
qed

definition null_ready :: "u8 list \<Rightarrow> nat \<Rightarrow> nat \<Rightarrow> nat \<Rightarrow> bool \<Rightarrow> scanstate \<Rightarrow> bool" where
  "null_ready seen skip so l h st =
     (case st of
        NOSTATE \<Rightarrow> seen = [] \<and> skip = 0
      | INLEADER \<Rightarrow> skip = 0 \<and> newlines seen = length seen \<and> so = length seen
      | INDATA \<Rightarrow> skip = newlines seen \<and> skip < length seen \<and> para_end (drop skip seen) = None \<and> so = trimmed (drop skip seen) \<and> \<not> h
      | INTERM \<Rightarrow> skip = newlines seen \<and> skip < length seen \<and> para_end (drop skip seen) = Some l \<and>
          l + newlines (drop l (drop skip seen)) = length (drop skip seen) \<and> so = length (drop skip seen) \<and> h)"

text \<open>Two newlines are where they were when more text follows.\<close>

lemma para_end_append: "para_end s = Some p \<Longrightarrow> para_end (s @ d) = Some p"
  by (induction s arbitrary: p rule: para_end.induct) (auto split: if_splits)

lemma newlines_append: "newlines (x @ y) = (if newlines x = length x then length x + newlines y else newlines x)"
  using newlines_all[of x y] newlines_some[of x y] newlines_le[of x] by auto

lemma null_cut_append:
  assumes "null_cut d = Some x"
  shows "null_cut (d @ e) = Some x"
proof -
  let ?k = "newlines d" and ?s = "drop (newlines d) d"
  obtain p where p: "para_end ?s = Some p" "?s \<noteq> []" "p + newlines (drop p ?s) < length ?s" "x = (?k, p, newlines (drop p ?s))"
    using assms by (auto simp: null_cut_def Let_def split: option.splits if_splits)
  have k: "newlines (d @ e) = ?k" using p(2) newlines_some[of d e] by simp
  have "newlines (drop p (?s @ e)) = newlines (drop p ?s)" using p(3) newlines_some[of "drop p ?s" e] para_end_bound[OF p(1)] by simp
  moreover have "drop ?k (d @ e) = ?s @ e" using p(2) by simp
  ultimately show ?thesis using p para_end_append[OF p(1), of e] k by (simp add: null_cut_def Let_def del: drop_drop drop_append)
qed

text \<open>What a scan that found the start of the record has to return.\<close>

definition null_result :: "nat \<Rightarrow> iobuf \<Rightarrow> recmatch \<Rightarrow> u8 list \<Rightarrow> scan_result" where
  "null_result e b recm s =
    (case para_end s of
       None \<Rightarrow> Some (NOTERM, recm\<lparr>len := trimmed s\<rparr>, INDATA, b\<lparr>scanoff := trimmed s\<rparr>)
     | Some p \<Rightarrow> Some (if p + newlines (drop p s) = length s then TERMATEND else REC_OK,
         recm\<lparr>len := p, rt_start := Some (off b + p), rt_len := newlines (drop p s)\<rparr>, INTERM, b\<lparr>scanoff := p + newlines (drop p s)\<rparr>))"

lemma null_result_ok:
  assumes "null_result e b1 recm s = Some (ret, recm1, st1, b2)" and "s = drop (newlines T) T" and "s \<noteq> []" and "holds b1 s"
    and "rt_start recm = None" and "rt_len recm = 0" and "start recm = off b1"
  shows "holds b2 s" "same_file b1 b2" "off b2 = off b1" "start recm1 = off b2" "rt_follows recm1 (off b2)"
    "(newlines T, len recm1, rt_len recm1) = record_of null_cut null_last T"
    "if null_cut T = None then ret \<noteq> REC_OK \<and> null_ready T (newlines T) (scanoff b2) (len recm1) (rt_start recm1 \<noteq> None) st1 else ret = REC_OK"
proof -
  have lt: "newlines T < length T" using assms(2,3) by simp
  show "holds b2 s" "same_file b1 b2" "off b2 = off b1" "start recm1 = off b2" "rt_follows recm1 (off b2)"
    using assms by (auto simp: null_result_def holds_def same_file_def rt_follows_def split: option.splits)
  show "(newlines T, len recm1, rt_len recm1) = record_of null_cut null_last T"
  proof (cases "para_end s")
    case None
    then show ?thesis using assms by (auto simp: null_result_def record_of_def null_cut_def null_last_def Let_def)
  next
    case (Some p)
    then have "(newlines T, len recm1, rt_len recm1) = (newlines T, p, newlines (drop p s))" using assms(1) by (auto simp: null_result_def)
    moreover have "null_cut T = (if p + newlines (drop p s) < length s then Some (newlines T, p, newlines (drop p s)) else None)"
      using Some assms(2,3) by (simp add: null_cut_def Let_def)
    moreover have "null_last T = (newlines T, p, newlines (drop p s))" using Some assms(2,3) by (simp add: null_last_def Let_def)
    ultimately show ?thesis by (simp add: record_of_def)
  qed
  show "if null_cut T = None then ret \<noteq> REC_OK \<and> null_ready T (newlines T) (scanoff b2) (len recm1) (rt_start recm1 \<noteq> None) st1 else ret = REC_OK"
  proof (cases "para_end s")
    case None
    then show ?thesis using assms lt by (auto simp: null_result_def null_cut_def null_ready_def Let_def)
  next
    case (Some p)
    have nc: "null_cut T = (if p + newlines (drop p s) < length s then Some (newlines T, p, newlines (drop p s)) else None)"
      using Some assms(2,3) by (simp add: null_cut_def Let_def)
    have r: "ret = (if p + newlines (drop p s) = length s then TERMATEND else REC_OK)" "st1 = INTERM" "len recm1 = p" "rt_start recm1 \<noteq> None"
      "scanoff b2 = p + newlines (drop p s)" using assms(1) Some by (auto simp: null_result_def)
    have le: "p + newlines (drop p s) \<le> length s" by (rule newlines_fit[OF Some])
    show ?thesis
    proof (cases "p + newlines (drop p s) = length s")
      case True
      then show ?thesis using nc r Some lt unfolding null_ready_def assms(2)[symmetric] by simp
    next
      case False
      then show ?thesis using nc r le by simp
    qed
  qed
qed

lemma null_scan_data:
  assumes "holds b s" and "j \<le> length s" and "para_end s = map_option (\<lambda>p. j + p) (para_end (drop j s))" and "trimmed s = j + trimmed (drop j s)"
    and "m = (buf b)[off b + length s := Some 10]"
  shows "data_part (off b + length s) (off b + j) recm (b\<lparr>buf := m\<rparr>) = null_result (off b + length s) (b\<lparr>buf := m\<rparr>) recm s"
proof -
  from holds_mark(4)[OF assms(1,2), of 10] obtain r where "drop (off b + j) m = map Some (drop j s) @ Some 10 # r" using assms(5) by blast
  from data_part_ok[where b = "b\<lparr>buf := m\<rparr>" and recm = recm, OF _ assms(2-4)] this show ?thesis by (simp add: null_result_def)
qed

text \<open>At the start of a record, or among the newlines before it.\<close>

lemma null_leading:
  assumes h: "holds b T" and st: "st = NOSTATE \<or> st = INLEADER" and j: "j = (if st = NOSTATE then 0 else scanoff b)" "j \<le> length T"
    and n: "newlines T = j + newlines (drop j T)"
  defines "m \<equiv> (buf b)[off b + length T := Some 10]" and "k \<equiv> newlines T"
  shows "rsnullscan b recm st =
    (if k = length T then Some (NOTERM, no_match\<lparr>start := off b\<rparr>, INLEADER, b\<lparr>buf := m, scanoff := length T\<rparr>)
     else null_result (off b + length T) (b\<lparr>off := off b + k, buf := m\<rparr>) (no_match\<lparr>start := off b + k\<rparr>) (drop k T))"
    and "k < length T \<Longrightarrow> holds (b\<lparr>off := off b + k, buf := m\<rparr>) (drop k T)"
    and "holds (b\<lparr>buf := m, scanoff := length T\<rparr>) T"
proof -
  have kl: "k \<le> length T" unfolding k_def by (rule newlines_le)
  have e: "dataend b = Some (off b + length T)" using holds_end[OF h] .
  have w: "wr_at (buf b) (off b + length T) (Some 10) = Some m" using holds_mark(1)[OF h, of 0 10] by (simp add: m_def)
  show "holds (b\<lparr>buf := m, scanoff := length T\<rparr>) T" using holds_mark(2)[OF h, where i = 0] by (simp add: m_def)
  from holds_mark(4)[OF h j(2), of 10] obtain r where r: "drop (off b + j) m = map Some (drop j T) @ Some 10 # r" by (auto simp: m_def)
  have "off b + length T = off b + j + length (drop j T)" using j(2) by simp
  from skip_newlines_ok[OF r this] have sn: "skip_newlines m (off b + length T) (off b + j) = Some (off b + k)"
    using n by (simp add: k_def add.assoc)
  have bp: "(if st \<noteq> NOSTATE then off b + scanoff b else off b) = off b + j" using j(1) by simp
  have s2: "st \<noteq> INTERM" "st \<noteq> INDATA" using st by auto
  let ?b1 = "b\<lparr>off := off b + k\<rparr>"
  have hs: "holds ?b1 (drop k T)" using holds_advance[OF h kl] .
  have mm: "m = (buf ?b1)[off ?b1 + length (drop k T) := Some 10]" using kl by (simp add: m_def)
  show "holds (b\<lparr>off := off b + k, buf := m\<rparr>) (drop k T)" using holds_mark(3)[OF hs, of 0 10, folded mm] by simp
  have eqb: "b\<lparr>buf := m, off := off b + k\<rparr> = b\<lparr>off := off b + k, buf := m\<rparr>" by (cases b) simp
  have dp: "data_part (off b + length T) (off b + k) recm1 (?b1\<lparr>buf := m\<rparr>) = null_result (off b + length T) (?b1\<lparr>buf := m\<rparr>) recm1 (drop k T)" for recm1
    using null_scan_data[OF hs _ _ _ mm, of 0 recm1] kl by (simp add: option.map_ident)
  have dp2: "data_part (off b + length T) (off b + k) recm1 (b\<lparr>buf := m, off := off b + k\<rparr>) =
    null_result (off b + length T) (b\<lparr>off := off b + k, buf := m\<rparr>) recm1 (drop k T)" for recm1
    unfolding eqb by (rule dp)
  show "rsnullscan b recm st =
    (if k = length T then Some (NOTERM, no_match\<lparr>start := off b\<rparr>, INLEADER, b\<lparr>buf := m, scanoff := length T\<rparr>)
     else null_result (off b + length T) (b\<lparr>off := off b + k, buf := m\<rparr>) (no_match\<lparr>start := off b + k\<rparr>) (drop k T))"
    using e w sn s2 st bp kl dp2 unfolding rsnullscan_def by (simp add: Let_def)
qed

interpretation para: record_scanner rsnullscan null_cut null_last null_ready
proof
  show "null_ready [] 0 so l h NOSTATE" for so l h by (simp add: null_ready_def)
  show "null_cut (d @ e) = Some x" if "null_cut d = Some x" for d e x using null_cut_append[OF that] .
  show "k + l + t \<le> length T" if r: "record_of null_cut null_last T = (k, l, t)" for T k l t
  proof -
    let ?s = "drop (newlines T) T"
    have s: "newlines T + length ?s = length T" using newlines_le[of T] by simp
    show ?thesis
    proof (cases "para_end ?s")
      case None
      then have "(k, l, t) = (0, 0, 0) \<or> (k, l, t) = (newlines T, trimmed ?s, 0)"
        using r by (auto simp: record_of_def null_cut_def null_last_def Let_def split: if_splits)
      then show ?thesis using s trimmed_le[of ?s] by auto
    next
      case (Some p)
      then have "(k, l, t) = (0, 0, 0) \<or> (k, l, t) = (newlines T, p, newlines (drop p ?s))"
        using r by (auto simp: record_of_def null_cut_def null_last_def Let_def split: if_splits)
      then show ?thesis using s newlines_fit[OF Some] by auto
    qed
  qed
  show "0 < l + t" if c: "null_cut T = Some (k, l, t)" for T k l t
  proof -
    obtain p where "para_end (drop (newlines T) T) = Some p" "t = newlines (drop p (drop (newlines T) T))"
      using c by (auto simp: null_cut_def Let_def split: option.splits if_splits)
    then show ?thesis using para_end_bound[of "drop (newlines T) T" p] newlines_at[of p "drop (newlines T) T"] by auto
  qed
  fix seen skip b st new and recm :: recmatch
  assume rdy: "null_ready seen skip (scanoff b) (len recm) (rt_start recm \<noteq> None) st" and h: "holds b (drop skip (seen @ new))"
    and sk: "skip \<le> length seen" and ne: "seen @ new \<noteq> []" and rf: "rt_follows recm (off b)"
  let ?T = "seen @ new" and ?d = "drop skip (seen @ new)"
  define m where "m = (buf b)[off b + length ?d := Some 10]"
  have e: "dataend b = Some (off b + length ?d)" using holds_end[OF h] .
  have w: "wr_at (buf b) (off b + length ?d) (Some 10) = Some m" using holds_mark(1)[OF h, of 0 10] by (simp add: m_def)
  have hm: "holds (b\<lparr>buf := m\<rparr>) ?d" using holds_mark(3)[OF h, of 0 10] by (simp add: m_def)
  have sf: "same_file b (b\<lparr>buf := m\<rparr>)" by (simp add: same_file_def m_def)
  let ?goal = "\<exists>ret recm1 st1 b1 skip1. rsnullscan b recm st = Some (ret, recm1, st1, b1) \<and> holds b1 (drop skip1 ?T) \<and> same_file b b1 \<and>
      skip \<le> skip1 \<and> skip1 \<le> length ?T \<and> off b1 = off b + (skip1 - skip) \<and> start recm1 = off b1 \<and> rt_follows recm1 (off b1) \<and>
      (skip1, len recm1, rt_len recm1) = record_of null_cut null_last ?T \<and>
      (if null_cut ?T = None then ret \<noteq> REC_OK \<and> null_ready ?T skip1 (scanoff b1) (len recm1) (rt_start recm1 \<noteq> None) st1 else ret = REC_OK)"
  text \<open>The scan found the record, whose start is at the newlines.\<close>
  have found: ?goal
    if r: "rsnullscan b recm st = null_result e1 (b1 :: iobuf) recm1 (drop (newlines ?T) ?T)" and n: "newlines ?T < length ?T" and
      b1: "holds b1 (drop (newlines ?T) ?T)" "same_file b b1" "off b1 = off b + (newlines ?T - skip)" "skip \<le> newlines ?T" and
      rc: "rt_start recm1 = None" "rt_len recm1 = 0" "start recm1 = off b1" for e1 b1 and recm1 :: recmatch
  proof -
    obtain ret recm2 st2 b2 where nr: "null_result e1 b1 recm1 (drop (newlines ?T) ?T) = Some (ret, recm2, st2, b2)"
      by (cases "para_end (drop (newlines ?T) ?T)") (auto simp: null_result_def)
    have "drop (newlines ?T) ?T \<noteq> []" using n by (simp only: drop_eq_Nil not_le)
    note ok = null_result_ok[OF nr refl this b1(1) rc]
    show ?goal using r nr ok n b1(2-4)
      by (intro exI[of _ ret] exI[of _ recm2] exI[of _ st2] exI[of _ b2] exI[of _ "newlines ?T"]) (auto simp: same_file_def)
  qed
  text \<open>At the start, or among leading newlines.\<close>
  have leading: ?goal if s: "skip = 0" "st = NOSTATE \<or> st = INLEADER"
    and j: "j = (if st = NOSTATE then 0 else scanoff b)" "j \<le> length ?T" "newlines ?T = j + newlines (drop j ?T)" for j
  proof -
    have h0: "holds b ?T" using h s(1) by (simp only: drop_0)
    note l = null_leading[OF h0 s(2) j]
    show ?goal
    proof (cases "newlines ?T = length ?T")
      case True
      have "record_of null_cut null_last ?T = (0, 0, 0)" "null_cut ?T = None"
        using True by (simp_all add: record_of_def null_cut_def null_last_def Let_def)
      then show ?goal using l(1,3) s(1) True
        by (intro exI[of _ NOTERM] exI[of _ "no_match\<lparr>start := off b\<rparr>"] exI[of _ INLEADER]
            exI[of _ "b\<lparr>buf := (buf b)[off b + length ?T := Some 10], scanoff := length ?T\<rparr>"] exI[of _ 0])
          (simp add: same_file_def rt_follows_def no_match_def null_ready_def)
    next
      case False
      then have lt: "newlines ?T < length ?T" using newlines_le[of ?T] by (simp only: le_neq_implies_less)
      from found[OF l(1)[unfolded if_not_P[OF False]] lt l(2)[OF lt]] show ?goal
        using s(1) by (simp add: no_match_def same_file_def)
    qed
  qed
  show ?goal
  proof (cases st)
    case NOSTATE
    then show ?goal using leading[of 0] rdy by (simp add: null_ready_def)
  next
    case INLEADER
    then show ?goal using leading[of "scanoff b"] rdy newlines_all[of seen new] by (simp add: null_ready_def)
  next
    case INDATA
    let ?s = "drop skip seen"
    have r: "skip = newlines seen" "skip < length seen" "para_end ?s = None" "scanoff b = trimmed ?s" "rt_start recm = None"
      using rdy INDATA by (auto simp: null_ready_def)
    have k: "newlines ?T = skip" using newlines_some[of seen new] r by simp
    have d: "?d = ?s @ new" using r(2) by simp
    have ta: "para_end ?d = map_option (\<lambda>p. scanoff b + p) (para_end (drop (scanoff b) ?d))" "trimmed ?d = scanoff b + trimmed (drop (scanoff b) ?d)"
      using trimmed_append[OF r(3), of new] r(2,4) unfolding d by auto
    have le: "scanoff b \<le> length ?d" using r(4) trimmed_le[of ?s] unfolding d length_append by linarith
    have "rsnullscan b recm st = null_result (off b + length ?d) (b\<lparr>buf := m\<rparr>) (recm\<lparr>start := off b\<rparr>) ?d"
      using null_scan_data[OF h le ta m_def, of "recm\<lparr>start := off b\<rparr>"] e w INDATA unfolding rsnullscan_def by (simp add: Let_def del: drop_append)
    then show ?goal using found[of _ "b\<lparr>buf := m\<rparr>" "recm\<lparr>start := off b\<rparr>"] hm sf k r(2,5) rf by (simp add: rt_follows_def)
  next
    case INTERM
    let ?s = "drop skip seen"
    have r: "skip = newlines seen" "skip < length seen" "para_end ?s = Some (len recm)" "len recm + newlines (drop (len recm) ?s) = length ?s"
      "scanoff b = length ?s" "rt_start recm = Some (off b + len recm)" using rdy INTERM rf by (auto simp: null_ready_def rt_follows_def)
    have k: "newlines ?T = skip" using newlines_some[of seen new] r by simp
    have d: "?d = ?s @ new" using r(2) by simp
    let ?p = "len recm"
    have pe: "para_end ?d = Some ?p" using para_end_append[OF r(3), of new] d by simp
    have pb: "?p + 2 \<le> length ?s" using para_end_bound[OF r(3)] by simp
    have nl: "newlines (drop ?p ?d) = length ?s - ?p + newlines new"
      using newlines_all[of "drop ?p ?s" new] r(4) pb d by simp
    have le: "length ?s \<le> length ?d" using d by simp
    have dn: "drop (length ?s) ?d = new" using d by simp
    from holds_mark(4)[OF h le, of 10] obtain q where q: "drop (off b + length ?s) m = map Some (drop (length ?s) ?d) @ Some 10 # q" by (auto simp: m_def)
    have "longest_terminator (off b + length ?d) (off b + length ?s) (recm\<lparr>start := off b\<rparr>) (b\<lparr>buf := m\<rparr>) =
      Some (if ?p + newlines (drop ?p ?d) = length ?d then TERMATEND else REC_OK, recm\<lparr>start := off b, rt_len := newlines (drop ?p ?d)\<rparr>, INTERM,
        b\<lparr>buf := m, scanoff := ?p + newlines (drop ?p ?d)\<rparr>)"
      using longest_terminator_ok[of "b\<lparr>buf := m\<rparr>" "length ?s" ?d q ?p "recm\<lparr>start := off b\<rparr>"] q pb le r(6) nl dn by simp
    then have "rsnullscan b recm st = null_result (off b + length ?d) (b\<lparr>buf := m\<rparr>) (no_match\<lparr>start := off b\<rparr>) ?d"
      using e w INTERM r(5,6) pe unfolding rsnullscan_def null_result_def by (simp add: Let_def no_match_def del: drop_append)
    then show ?goal using found[of _ "b\<lparr>buf := m\<rparr>" "no_match\<lparr>start := off b\<rparr>"] hm sf k r(2) by (simp add: no_match_def)
  qed
qed

section \<open>Strings\<close>

fun find_sub :: "u8 list \<Rightarrow> u8 list \<Rightarrow> nat option" where
  "find_sub rs [] = (if rs = [] then Some 0 else None)"
| "find_sub rs (c # t) = (if take (length rs) (c # t) = rs then Some 0 else map_option Suc (find_sub rs t))"

text \<open>A separator without metacharacters, and a matcher that finds it as a string.\<close>

definition plain :: "u8 list \<Rightarrow> bool" where
  "plain rs \<longleftrightarrow> 2 \<le> length rs \<and> (\<forall>c \<in> set rs. c \<notin> set metas)"

definition finds_string :: "u8 list \<Rightarrow> searcher \<Rightarrow> bool" where
  "finds_string rs search \<longleftrightarrow> (\<forall>nb t. search nb t = map_option (\<lambda>p. (p, p + length rs)) (find_sub rs t))"

definition str_cut :: "u8 list \<Rightarrow> u8 list \<Rightarrow> cuts option" where
  "str_cut rs T = map_option (\<lambda>p. (0, p, length rs)) (find_sub rs T)"

definition str_ready :: "u8 list \<Rightarrow> nat \<Rightarrow> nat \<Rightarrow> nat \<Rightarrow> bool \<Rightarrow> scanstate \<Rightarrow> bool" where
  "str_ready seen skip so l h st \<longleftrightarrow> skip = 0 \<and> st = NOSTATE"

lemma find_sub_at: "find_sub rs t = Some p \<Longrightarrow> take (length rs) (drop p t) = rs \<and> p + length rs \<le> length t"
proof (induction t arbitrary: p)
  case (Cons c t)
  show ?case
  proof (cases "take (length rs) (c # t) = rs")
    case True
    then have "length rs \<le> length (c # t)" by (metis length_take min.cobounded1)
    then show ?thesis using True Cons.prems by simp
  next
    case False
    then show ?thesis using Cons by auto
  qed
qed (simp split: if_splits)

lemma find_sub_append: "find_sub rs t = Some p \<Longrightarrow> find_sub rs (t @ d) = Some p"
proof (induction t arbitrary: p)
  case Nil
  then show ?case by (cases d) (auto split: if_splits)
next
  case (Cons c t)
  show ?case
  proof (cases "take (length rs) (c # t) = rs")
    case True
    then have "length rs \<le> length (c # t)" by (metis length_take min.cobounded1)
    then have "take (length rs) ((c # t) @ d) = take (length rs) (c # t)" by (simp only: take_append) simp
    then show ?thesis using True Cons.prems by simp
  next
    case False
    then obtain q where q: "find_sub rs t = Some q" "p = Suc q" using Cons.prems by auto
    have "take (length rs) ((c # t) @ d) \<noteq> rs"
    proof
      assume a: "take (length rs) ((c # t) @ d) = rs"
      have "length rs \<le> length t" using find_sub_at[OF q(1)] by simp
      then have "take (length rs) ((c # t) @ d) = take (length rs) (c # t)" by (simp only: take_append) simp
      then show False using a False by simp
    qed
    then show ?thesis using Cons.IH[OF q(1)] q(2) by simp
  qed
qed

lemma string_scanner:
  assumes "plain rs" and "finds_string rs search"
  shows "record_scanner (rsrescan rs search) (str_cut rs) rest_cut str_ready"
proof
  show "str_ready [] 0 so l h NOSTATE" for so l h by (simp add: str_ready_def)
  show "str_cut rs (d @ e) = Some x" if "str_cut rs d = Some x" for d e x
    using that find_sub_append[of rs d] by (auto simp: str_cut_def)
  show "k + l + t \<le> length T" if "record_of (str_cut rs) rest_cut T = (k, l, t)" for T k l t
    using that find_sub_at[of rs T] by (auto simp: record_of_def str_cut_def rest_cut_def split: option.splits)
  show "0 < l + t" if "str_cut rs T = Some (k, l, t)" for T k l t
    using that assms(1) by (auto simp: str_cut_def plain_def)
  fix seen skip b st new and recm :: recmatch
  assume rdy: "str_ready seen skip (scanoff b) (len recm) (rt_start recm \<noteq> None) st" and h: "holds b (drop skip (seen @ new))"
  define d where "d = seen @ new"
  have sk: "skip = 0" "st = NOSTATE" using rdy by (simp_all add: str_ready_def)
  then have h0: "holds b d" using h by (simp add: d_def)
  have e: "dataend b = Some (off b + length d)" using holds_end[OF h0] .
  have t: "buf_text (buf b) (off b) (length d) = Some d" using buf_text_ok(2)[OF h0, of 0 "length d"] by simp
  have s: "search (\<not> at_start b) d = map_option (\<lambda>p. (p, p + length rs)) (find_sub rs d)" using assms(2) by (simp add: finds_string_def)
  let ?r = "no_match\<lparr>start := off b\<rparr>"
  have "\<exists>ret recm1 st1 b1 skip1. rsrescan rs search b recm st = Some (ret, recm1, st1, b1) \<and> holds b1 (drop skip1 d) \<and> same_file b b1 \<and>
      skip \<le> skip1 \<and> skip1 \<le> length d \<and> off b1 = off b + (skip1 - skip) \<and> start recm1 = off b1 \<and> rt_follows recm1 (off b1) \<and>
      (skip1, len recm1, rt_len recm1) = record_of (str_cut rs) rest_cut d \<and>
      (if str_cut rs d = None then ret \<noteq> REC_OK \<and> str_ready d skip1 (scanoff b1) (len recm1) (rt_start recm1 \<noteq> None) st1 else ret = REC_OK)"
  proof (cases "find_sub rs d")
    case None
    have "rsrescan rs search b recm st = Some (NOTERM, ?r\<lparr>len := length d\<rparr>, NOSTATE, b)"
      using e t s None sk by (simp add: rsrescan_def rsre_loop.simps)
    then show ?thesis using h0 sk None
      by (simp add: str_cut_def record_of_def rest_cut_def same_file_def rt_follows_def no_match_def str_ready_def)
  next
    case (Some p)
    have p: "take (length rs) (drop p d) = rs" "p + length rs \<le> length d" using find_sub_at[OF Some] by simp_all
    have ne: "rs \<noteq> []" using assms(1) by (auto simp: plain_def)
    have "take (length rs) (drop (off b + p) (buf b)) = map Some rs" using buf_text_ok(1)[OF h0 p(2)] p(1) by simp
    then have str: "reisstring rs (off b + p) (buf b)" using assms(1) by (simp add: reisstring_def plain_def)
    have may: "\<not> remaybelong rs" using assms(1) by (auto simp: remaybelong_def plain_def metas_def)
    have "rsrescan rs search b recm st = Some (REC_OK, ?r\<lparr>len := p, rt_start := Some (off b + p), rt_len := length rs\<rparr>, NOSTATE, b)"
      using e t s Some sk ne str may by (simp add: rsrescan_def rsre_loop.simps Let_def)
    then show ?thesis using h0 sk Some
      by (simp add: str_cut_def record_of_def same_file_def rt_follows_def no_match_def)
  qed
  then show "\<exists>ret recm1 st1 b1 skip1. rsrescan rs search b recm st = Some (ret, recm1, st1, b1) \<and> holds b1 (drop skip1 (seen @ new)) \<and> same_file b b1 \<and>
      skip \<le> skip1 \<and> skip1 \<le> length (seen @ new) \<and> off b1 = off b + (skip1 - skip) \<and> start recm1 = off b1 \<and> rt_follows recm1 (off b1) \<and>
      (skip1, len recm1, rt_len recm1) = record_of (str_cut rs) rest_cut (seen @ new) \<and>
      (if str_cut rs (seen @ new) = None then ret \<noteq> REC_OK \<and> str_ready (seen @ new) skip1 (scanoff b1) (len recm1) (rt_start recm1 \<noteq> None) st1 else ret = REC_OK)"
    by (simp only: d_def)
qed

end
