(* ===== verification/Awk_Input.thy ===== *)
theory Awk_Input
  imports Awk_Records
begin

text \<open>
  What the functions of \<open>Awk_Records\<close> read from an input, for the three kinds of \<open>RS\<close>, and where they go wrong.
\<close>

section \<open>What is read\<close>

text \<open>
  A separator cuts a text into records and terminators; the last record has no terminator, and there is none after a terminator at the
  end.  Paragraphs are the lines between empty lines.
\<close>

function cut_at :: "u8 list \<Rightarrow> u8 list \<Rightarrow> (u8 list \<times> u8 list) list" where
  "cut_at rs s = (case find_sub rs s of
     None \<Rightarrow> (if s = [] then [] else [(s, [])])
   | Some p \<Rightarrow> (if rs = [] then [] else (take p s, rs) # cut_at rs (drop (p + length rs) s)))"
  by pat_completeness auto
termination
proof (relation "measure (\<lambda>(rs, s). length s)", simp)
  fix rs s :: "u8 list" and p assume "find_sub rs s = Some p" "rs \<noteq> []"
  then have "p + length rs \<le> length s" "0 < length rs" using find_sub_at by auto
  then have "length s - (p + length rs) < length s" by linarith
  then show "((rs, drop (p + length rs) s), rs, s) \<in> measure (\<lambda>(rs, s). length s)" by simp
qed

declare cut_at.simps [simp del]

fun lines :: "u8 list \<Rightarrow> u8 list list" where
  "lines [] = [[]]"
| "lines (c # s) = (if c = 10 then [] # lines s else (case lines s of [] \<Rightarrow> [[c]] | l # ls \<Rightarrow> (c # l) # ls))"

function groups :: "u8 list list \<Rightarrow> u8 list list list" where
  "groups ls = (case dropWhile (\<lambda>l. l = []) ls of [] \<Rightarrow> []
     | l # ls1 \<Rightarrow> (l # takeWhile (\<lambda>l. l \<noteq> []) ls1) # groups (dropWhile (\<lambda>l. l \<noteq> []) ls1))"
  by pat_completeness auto
termination
proof (relation "measure length", simp)
  fix ls l and ls1 :: "u8 list list" assume "dropWhile (\<lambda>l. l = []) ls = l # ls1"
  then have "length (l # ls1) \<le> length ls" by (metis length_dropWhile_le)
  then have "length (dropWhile (\<lambda>l. l \<noteq> []) ls1) < length ls" using length_dropWhile_le[of "\<lambda>l. l \<noteq> []" ls1] by simp
  then show "(dropWhile (\<lambda>l. l \<noteq> []) ls1, ls) \<in> measure length" by simp
qed

declare groups.simps [simp del]

definition paragraphs :: "u8 list \<Rightarrow> u8 list list" where
  "paragraphs s = map (join [10]) (groups (lines s))"

text \<open>The length of a paragraph: no empty line in it.\<close>

lemma lines_ne: "lines s \<noteq> []"
  by (induction s) (auto split: list.splits)

lemma join_lines: "join [10] (lines s) = s"
proof (induction s)
  case (Cons c s)
  obtain l ls where l: "lines s = l # ls" using lines_ne[of s] by (cases "lines s") auto
  show ?case
  proof (cases "c = 10")
    case True
    then show ?thesis using Cons l by simp
  next
    case False
    then show ?thesis using Cons l by (cases ls) auto
  qed
qed simp

lemma lines_append: "lines (x @ 10 # y) = lines x @ lines y"
proof (induction x)
  case (Cons c x)
  obtain l ls where "lines x = l # ls" using lines_ne[of x] by (cases "lines x") auto
  then show ?case using Cons by simp
qed simp

lemma lines_newlines: "lines s = replicate (newlines s) [] @ lines (drop (newlines s) s)"
  by (induction s) auto

lemma lines_hd: "s \<noteq> [] \<Longrightarrow> hd s \<noteq> 10 \<Longrightarrow> \<exists>l ls. lines s = l # ls \<and> l \<noteq> []"
  by (cases s) (auto split: list.splits)

text \<open>A text without two newlines, and without one at its ends, has no empty line.\<close>

lemma lines_nonempty: "para_end s = None \<Longrightarrow> s \<noteq> [] \<Longrightarrow> hd s \<noteq> 10 \<Longrightarrow> last s \<noteq> 10 \<Longrightarrow> \<forall>l \<in> set (lines s). l \<noteq> []"
proof (induction s rule: length_induct)
  case (1 s)
  then obtain c r where s: "s = c # r" "c \<noteq> 10" by (cases s) auto
  have pr: "para_end r = None" using 1(2) s para_end_Cons[OF s(2), of r] by simp
  show ?case
  proof (cases "r = [] \<or> hd r \<noteq> 10")
    case True
    show ?thesis
    proof (cases r)
      case Nil
      then show ?thesis using s by simp
    next
      case (Cons a r1)
      then have "r \<noteq> []" "hd r \<noteq> 10" "last r \<noteq> 10" "length r < length s" using 1(5) s True by auto
      then have "\<forall>l \<in> set (lines r). l \<noteq> []" using 1(1) pr by blast
      then show ?thesis using s by (auto split: list.splits)
    qed
  next
    case False
    then obtain r1 where r: "r = 10 # r1" by (cases r) auto
    have r1: "r1 \<noteq> []" using 1(5) s r by auto
    have "hd r1 \<noteq> 10" "para_end r1 = None" using pr r r1 by (cases r1; auto split: if_splits)+
    moreover have "last r1 \<noteq> 10" "length r1 < length s" using 1(5) s r r1 by auto
    ultimately have "\<forall>l \<in> set (lines r1). l \<noteq> []" using 1(1) r1 by blast
    then show ?thesis using s r by simp
  qed
qed

lemma para_end_first: "para_end s = Some p \<Longrightarrow> para_end (take p s) = None \<and> (0 < p \<longrightarrow> s ! (p - 1) \<noteq> 10)"
proof (induction s arbitrary: p rule: para_end.induct)
  case (1 a b s)
  show ?case
  proof (cases "a = 10 \<and> b = 10")
    case True
    then show ?thesis using 1(2) by simp
  next
    case False
    then obtain q where q: "para_end (b # s) = Some q" "p = Suc q" using 1(2) by auto
    have ih: "para_end (take q (b # s)) = None" "0 < q \<longrightarrow> (b # s) ! (q - 1) \<noteq> 10" using 1(1)[OF False q(1)] by simp_all
    show ?thesis
    proof (cases q)
      case 0
      then have "b = 10" using para_end_bound[OF q(1)] by simp
      then show ?thesis using False 0 q(2) by simp
    next
      case (Suc n)
      then have "para_end (a # take q (b # s)) = None" using ih False by auto
      then show ?thesis using ih q(2) Suc by simp
    qed
  qed
qed simp_all

lemma groups_skip: "(\<forall>l \<in> set xs. l = []) \<Longrightarrow> groups (xs @ ls) = groups ls"
  by (subst (1 2) groups.simps) simp

lemma groups_first:
  assumes "\<forall>l \<in> set xs. l \<noteq> []" and "xs \<noteq> []" and "ls = [] \<or> hd ls = []"
  shows "groups (xs @ ls) = xs # groups ls"
proof -
  obtain l xs1 where xs: "xs = l # xs1" using assms(2) by (cases xs) auto
  have "takeWhile (\<lambda>l. l \<noteq> []) (xs1 @ ls) = xs1" "dropWhile (\<lambda>l. l \<noteq> []) (xs1 @ ls) = ls"
    using assms xs by (cases ls; auto simp: takeWhile_append2)+
  then show ?thesis using assms(1) xs by (subst groups.simps) simp
qed

lemma groups_empty: "(\<forall>l \<in> set ls. l = []) \<Longrightarrow> groups ls = []"
  using groups_skip[of ls "[]"] by (simp add: groups.simps)

lemma paragraphs_skip: "paragraphs s = paragraphs (drop (newlines s) s)"
  unfolding paragraphs_def using lines_newlines[of s] groups_skip[of "replicate (newlines s) []" "lines (drop (newlines s) s)"] by simp

lemma paragraphs_last:
  assumes "s \<noteq> []" and "hd s \<noteq> 10" and "para_end s = None"
  shows "paragraphs s = [take (trimmed s) s]"
proof (cases "last s = 10")
  case True
  define x where "x = butlast s"
  have s: "s = x @ [10]" using True assms(1) by (simp add: x_def) (metis append_butlast_last_id)
  then have x: "x \<noteq> []" "hd x \<noteq> 10" using assms(2) by (cases x; auto)+
  have "para_end x = None" using assms(3) para_end_append[of x _ "[10]"] s by (cases "para_end x") auto
  moreover have "last x \<noteq> 10"
  proof
    assume l: "last x = 10"
    obtain y where y: "x = y @ [10]" using l x(1) by (metis append_butlast_last_id)
    have two: "para_end (y @ [10, 10]) \<noteq> None" for y :: "u8 list"
    proof (induction y)
      case (Cons a y)
      then show ?case by (cases y) auto
    qed simp
    show False using two[of y] assms(3) s y by simp
  qed
  ultimately have ne: "\<forall>l \<in> set (lines x). l \<noteq> []" using lines_nonempty x by blast
  have "lines s = lines x @ [[]]" using lines_append[of x "[]"] s by simp
  then have "groups (lines s) = [lines x]" using groups_first[OF ne lines_ne, of "[[]]"] groups_empty[of "[[]]"] by simp
  then show ?thesis using join_lines[of x] s by (simp add: paragraphs_def trimmed_def)
next
  case False
  then have "\<forall>l \<in> set (lines s). l \<noteq> []" using lines_nonempty assms by blast
  from groups_first[OF this lines_ne, of "[]"] have "groups (lines s) = [lines s]" using groups_empty[of "[]"] by simp
  then show ?thesis using join_lines[of s] False by (simp add: paragraphs_def trimmed_def)
qed

lemma paragraphs_first:
  assumes "hd s \<noteq> 10" and p: "para_end s = Some p"
  shows "paragraphs s = take p s # paragraphs (drop (p + newlines (drop p s)) s)"
proof -
  have b: "p + 2 \<le> length s" "s ! p = 10" "s ! Suc p = 10" using para_end_bound[OF p] by simp_all
  have p0: "0 < p" using assms(1) b by (cases p; cases s) auto
  let ?x = "take p s"
  have "last ?x = s ! (p - 1)" using p0 b(1) by (subst last_conv_nth) (auto simp: min_absorb2)
  then have x: "?x \<noteq> []" "hd ?x \<noteq> 10" "last ?x \<noteq> 10" "para_end ?x = None"
    using p0 b assms(1) para_end_first[OF p] by auto
  then have ne: "\<forall>l \<in> set (lines ?x). l \<noteq> []" using lines_nonempty by blast
  let ?y = "drop (Suc p) s"
  have s: "s = ?x @ 10 # ?y" using b id_take_nth_drop[of p s] by simp
  have y: "?y = 10 # drop (Suc (Suc p)) s" using b by (simp add: Cons_nth_drop_Suc[symmetric])
  have "lines s = lines ?x @ lines ?y" using lines_append[of ?x ?y] s by simp
  moreover have "hd (lines ?y) = []" using y by simp
  ultimately have "groups (lines s) = lines ?x # groups (lines ?y)" using groups_first[OF ne lines_ne] by simp
  then have "paragraphs s = ?x # paragraphs ?y" using join_lines[of ?x] by (simp add: paragraphs_def)
  moreover have "drop (newlines ?y) ?y = drop (p + newlines (drop p s)) s" using newlines_at[of p s] b by (simp add: ac_simps)
  ultimately show ?thesis using paragraphs_skip[of ?y] by simp
qed

lemma newlines_rest: "hd (drop (newlines s) s) \<noteq> 10 \<or> drop (newlines s) s = []"
  by (induction s) auto

lemma null_records_end: "records (record_of null_cut null_last) [] = []" "records (record_of null_cut null_last) [10] = []"
  by (simp_all add: records.simps record_of_def null_cut_def null_last_def)

lemma null_records: "map fst (records (record_of null_cut null_last) T) = paragraphs T"
proof (induction "length T" arbitrary: T rule: less_induct)
  case less
  let ?k = "newlines T" and ?s = "drop (newlines T) T"
  have P: "paragraphs T = paragraphs ?s" by (rule paragraphs_skip)
  show ?case
  proof (cases "?s = []")
    case True
    then have "record_of null_cut null_last T = (0, 0, 0)" by (simp add: record_of_def null_cut_def null_last_def Let_def)
    moreover have "paragraphs ?s = []" using True groups_empty[of "[[]]"] by (simp add: paragraphs_def)
    ultimately show ?thesis using P by (simp add: records.simps)
  next
    case ne: False
    then have h: "hd ?s \<noteq> 10" using newlines_rest[of T] by simp
    have lt: "?k < length T" using ne by simp
    show ?thesis
    proof (cases "para_end ?s")
      case None
      have r: "record_of null_cut null_last T = (?k, trimmed ?s, 0)"
        using ne None by (simp add: record_of_def null_cut_def null_last_def Let_def)
      have t0: "0 < trimmed ?s" using ne h None by (cases ?s; cases "tl ?s") (auto simp: trimmed_def)
      have "drop (?k + trimmed ?s) T = [] \<or> drop (?k + trimmed ?s) T = [10]"
      proof (cases "last ?s = 10")
        case True
        then have "drop (length ?s - 1) ?s = [10]" using ne by (metis One_nat_def append_butlast_last_id append_eq_conv_conj length_butlast)
        then show ?thesis using True ne by (simp add: trimmed_def add.commute)
      next
        case False
        then show ?thesis by (simp add: trimmed_def)
      qed
      then have "records (record_of null_cut null_last) (drop (?k + trimmed ?s) T) = []"
        using null_records_end by metis
      then show ?thesis using r t0 lt P paragraphs_last[OF ne h None] trimmed_le[of ?s] by (subst records.simps) simp
    next
      case (Some p)
      let ?n = "newlines (drop p ?s)"
      have r: "record_of null_cut null_last T = (?k, p, ?n)"
        using ne Some by (simp add: record_of_def null_cut_def null_last_def Let_def)
      have n0: "0 < ?n" using newlines_at[of p ?s] para_end_bound[OF Some] by simp
      have fit: "?k + (p + ?n) \<le> length T" using newlines_fit[OF Some] lt by simp
      have "map fst (records (record_of null_cut null_last) (drop (?k + p + ?n) T)) = paragraphs (drop (?k + p + ?n) T)"
      proof -
        have "length T - (?k + p + ?n) < length T" using n0 lt by linarith
        then show ?thesis using less[of "drop (?k + p + ?n) T"] by simp
      qed
      moreover have "drop (p + ?n) ?s = drop (?k + p + ?n) T" by (simp add: ac_simps)
      ultimately show ?thesis using r n0 fit P paragraphs_first[OF h Some] by (subst records.simps) (simp add: ac_simps)
    qed
  qed
qed

lemma cut_at_records:
  assumes "rs \<noteq> []" and c: "\<And>T. record_of cut1 rest_cut T = record_of (str_cut rs) rest_cut T"
  shows "records (record_of cut1 rest_cut) T = cut_at rs T"
proof (induction "length T" arbitrary: T rule: less_induct)
  case less
  show ?case
  proof (cases "find_sub rs T")
    case None
    then have "record_of (str_cut rs) rest_cut T = (0, length T, 0)" by (simp add: record_of_def str_cut_def rest_cut_def)
    then have "record_of cut1 rest_cut T = (0, length T, 0)" by (simp only: c)
    moreover have "record_of (str_cut rs) rest_cut [] = (0, 0, 0)" using assms(1) by (simp add: record_of_def str_cut_def rest_cut_def)
    then have "records (record_of cut1 rest_cut) [] = []" unfolding c[of "[]", symmetric] by (simp add: records.simps)
    ultimately show ?thesis using None by (subst records.simps, subst cut_at.simps) simp
  next
    case (Some p)
    then have "record_of (str_cut rs) rest_cut T = (0, p, length rs)" by (simp add: record_of_def str_cut_def)
    then have "record_of cut1 rest_cut T = (0, p, length rs)" by (simp only: c)
    moreover have "take (length rs) (drop p T) = rs" "p + length rs \<le> length T" using find_sub_at[OF Some] by simp_all
    moreover have "records (record_of cut1 rest_cut) (drop (p + length rs) T) = cut_at rs (drop (p + length rs) T)"
    proof -
      have "0 < length rs" using assms(1) by simp
      then have "length T - (p + length rs) < length T" using find_sub_at[OF Some] by linarith
      then show ?thesis using less[of "drop (p + length rs) T"] by simp
    qed
    ultimately show ?thesis using Some assms(1) by (subst records.simps, subst cut_at.simps) simp
  qed
qed

lemma find_sub_char: "find_sub [c] T = (if c \<in> set T then Some (length (takeWhile (\<lambda>a. a \<noteq> c) T)) else None)"
  by (induction T) auto

lemma rs1_cut_str: "record_of (rs1_cut c) rest_cut T = record_of (str_cut [c]) rest_cut T"
  by (simp add: record_of_def rs1_cut_def str_cut_def find_sub_char)

lemma join_cut_at: "rs \<noteq> [] \<Longrightarrow> concat (map (\<lambda>(x, t). x @ t) (cut_at rs s)) = s"
proof (induction rs s rule: cut_at.induct)
  case (1 rs s)
  show ?case
  proof (cases "find_sub rs s")
    case None
    then show ?thesis by (subst cut_at.simps) simp
  next
    case (Some p)
    have "take p s @ rs @ drop (p + length rs) s = s"
      using find_sub_at[OF Some] by (metis append_take_drop_id drop_drop add.commute)
    then show ?thesis using 1 Some by (subst cut_at.simps) simp
  qed
qed

text \<open>A reader of a file that was just opened.\<close>

definition opened :: "nat \<Rightarrow> u8 list \<Rightarrow> reader \<Rightarrow> bool" where
  "opened bufsize data r \<longleftrightarrow> iop r = iop_alloc bufsize \<and> unread (inp r) = data \<and> (\<forall>n. plan (inp r) n \<noteq> None)"

lemma opened_stream: "opened k data r \<Longrightarrow> 0 < k \<Longrightarrow> stream r data"
  by (auto simp: opened_def stream_def iop_alloc_def good_buf_def sound_def)

lemma pairs_eq: "map fst ts = map fst R \<Longrightarrow> map snd ts = map (Some \<circ> snd) R \<Longrightarrow> ts = map (\<lambda>(x, t). (x, Some t)) R"
proof (induction ts arbitrary: R)
  case (Cons a ts)
  then show ?case by (cases R; cases a) auto
qed simp

section \<open>Properties\<close>

text \<open>C5: With a single character or a string without metacharacters as \<open>RS\<close>, the input loop reads the pieces between the separators, with the
  separator in \<open>RT\<close>, whatever the size of the buffer and however many bytes each \<open>read\<close> returns; put together again they are the input.\<close>

theorem records_are_pieces:
  assumes "opened bufsize data r" and "0 < bufsize" and "length rs = 1 \<or> plain rs \<and> finds_string rs search"
  shows "(\<exists>r1. input_loop rs search (r, NR) = Some (map (\<lambda>(x, t). (x, Some t)) (cut_at rs data), r1, NR + length (cut_at rs data))) \<and>
    concat (map (\<lambda>(x, t). x @ t) (cut_at rs data)) = data"
proof
  have ne: "rs \<noteq> []" using assms(3) by (auto simp: plain_def)
  then show "concat (map (\<lambda>(x, t). x @ t) (cut_at rs data)) = data" by (rule join_cut_at)
  note st = opened_stream[OF assms(1,2)]
  show "\<exists>r1. input_loop rs search (r, NR) = Some (map (\<lambda>(x, t). (x, Some t)) (cut_at rs data), r1, NR + length (cut_at rs data))"
  proof (cases "length rs = 1")
    case True
    then obtain c where rs: "rs = [c]" by (cases rs) auto
    have m: "matchrec rs search = rs1scan c" "set_RS rs = Rs1scan" by (simp_all add: matchrec_def set_RS_def rs)
    have "\<forall>T. snd (snd (record_of (rs1_cut c) rest_cut T)) \<le> 1" by (simp add: record_of_def rs1_cut_def rest_cut_def)
    then obtain ts r1 where t: "input_loop rs search (r, NR) = Some (ts, r1, NR + length ts)"
      "map fst ts = map fst (records (record_of (rs1_cut c) rest_cut) data)" "map snd ts = map (Some \<circ> snd) (records (record_of (rs1_cut c) rest_cut) data)"
      using rs1.input_loop_ok[OF m(1) _ st, of NR] m(2) by auto
    note pairs_eq[OF t(2,3)]
    then show ?thesis using t(1) cut_at_records[OF ne, of "rs1_cut c" data] rs1_cut_str rs by simp
  next
    case False
    then have p: "plain rs" "finds_string rs search" using assms(3) by simp_all
    have m: "matchrec rs search = rsrescan rs search" "set_RS rs = Rsrescan" using p(1) by (auto simp: matchrec_def set_RS_def plain_def)
    obtain ts r1 where t: "input_loop rs search (r, NR) = Some (ts, r1, NR + length ts)"
      "map fst ts = map fst (records (record_of (str_cut rs) rest_cut) data)" "map snd ts = map (Some \<circ> snd) (records (record_of (str_cut rs) rest_cut) data)"
      using record_scanner.input_loop_ok[OF string_scanner[OF p] m(1) _ st, of NR] m(2) by auto
    note pairs_eq[OF t(2,3)]
    then show ?thesis using t(1) cut_at_records[OF ne, of "str_cut rs" data] by simp
  qed
qed

text \<open>A reader of a text, with a buffer for one byte, whose \<open>read\<close> returns one byte at a time.\<close>

definition bytewise :: "u8 list \<Rightarrow> reader" where
  "bytewise data = \<lparr>iop = iop_alloc 1, inp = \<lparr>unread = data, plan = \<lambda>_. Some 1, calls = 0\<rparr>, rt = make_string [], lastmatchrec = None\<rparr>"

definition string_search :: "u8 list \<Rightarrow> searcher" where
  "string_search rs nb t = map_option (\<lambda>p. (p, p + length rs)) (find_sub rs t)"

lemma records_are_pieces_witness:
  "\<exists>r1. input_loop [44, 32] (string_search [44, 32]) (bytewise [97, 44, 32, 98, 44, 99], 0) = Some ([([97], Some [44, 32]), ([98, 44, 99], Some [])], r1, 2)"
proof -
  have o: "opened 1 [97, 44, 32, 98, 44, 99] (bytewise [97, 44, 32, 98, 44, 99])" by (simp add: opened_def bytewise_def)
  have p: "plain [44, 32]" "finds_string [44, 32] (string_search [44, 32])" by (simp_all add: plain_def metas_def finds_string_def string_search_def)
  have c: "cut_at [44, 32] [97, 44, 32, 98, 44, 99] = [([97], [44, 32]), ([98, 44, 99], [])]" by (simp add: cut_at.simps)
  show ?thesis using records_are_pieces[OF o, of "[44, 32]" "string_search [44, 32]" 0] p c by (simp add: numeral_2_eq_2)
qed

text \<open>C36: With an empty \<open>RS\<close> the records are the paragraphs of the input, the groups of lines between empty lines, whatever the size of the buffer and
  however many bytes each \<open>read\<close> returns.\<close>

theorem records_are_paragraphs:
  assumes "opened bufsize data r" and "0 < bufsize"
  shows "\<exists>ts r1. input_loop [] search (r, NR) = Some (ts, r1, NR + length ts) \<and> map fst ts = paragraphs data"
proof -
  have "matchrec [] search = rsnullscan" "set_RS [] = Rsnullscan" by (simp_all add: matchrec_def set_RS_def)
  then show ?thesis using para.input_loop_ok[OF _ _ opened_stream[OF assms], of "[]" search NR] null_records[of data] by auto
qed

lemma records_are_paragraphs_witness:
  "\<exists>ts r1 n. input_loop [] (\<lambda>_ _. None) (bytewise [10, 97, 10, 98, 10, 10, 10, 99, 10], 0) = Some (ts, r1, n) \<and> map fst ts = [[97, 10, 98], [99]]"
proof -
  have "opened 1 [10, 97, 10, 98, 10, 10, 10, 99, 10] (bytewise [10, 97, 10, 98, 10, 10, 10, 99, 10])" by (simp add: opened_def bytewise_def)
  from records_are_paragraphs[OF this, of "\<lambda>_ _. None" 0]
  obtain ts r1 where "input_loop [] (\<lambda>_ _. None) (bytewise [10, 97, 10, 98, 10, 10, 10, 99, 10], 0) = Some (ts, r1, length ts)"
    "map fst ts = paragraphs [10, 97, 10, 98, 10, 10, 10, 99, 10]" by auto
  moreover have "paragraphs [10, 97, 10, 98, 10, 10, 10, 99, 10] = [[97, 10, 98], [99]]" by (simp add: paragraphs_def groups.simps)
  ultimately show ?thesis by auto
qed

text \<open>With an empty \<open>RS\<close> a terminator that is longer than the last one sets only the length of \<open>RT\<close>: it then has bytes that were never
  written.  On three paragraphs that are two and four newlines apart, \<open>RT\<close> is undefined after the second.\<close>

theorem longer_terminator_is_garbage:
  "map_option fst (input_loop [] (\<lambda>_ _. None) (bytewise [97, 10, 10, 98, 10, 10, 10, 10, 99], 0)) =
    Some [([97], Some [10, 10]), ([98], None), ([99], Some [])]"
  by code_simp

text \<open>The matcher of \<open>/x*/\<close>.\<close>

definition match_xs :: searcher where
  "match_xs nb t = Some (0, length (takeWhile (\<lambda>c. c = 120) t))"

text \<open>With a regular expression as \<open>RS\<close> that matches the empty string, the place of a match after a null match is taken from the wrong start:
  with \<open>x*\<close> the input \<open>abxc\<close> is read as three empty records, and the other letters are lost.\<close>

theorem null_match_loses_text:
  "map_option fst (input_loop [120, 42] match_xs (bytewise [97, 98, 120, 99], 0)) = Some [([], Some [120]), ([], Some [120]), ([], Some [120])]"
  by code_simp

end
