(* ===== verification/Dfa_Sets.thy ===== *)
theory Dfa_Sets
  imports Prelude
begin

text \<open>
  The basic data of \<open>dfa.c\<close>: tokens, character classes (bit vectors of 256 bits), and sets of positions, for single-byte
  locales.  A position set is the list of its first \<open>nelem\<close> elements; the length of the array that holds it is an argument of
  the operations that add elements, and writing beyond it is \<open>None\<close>.
\<close>

section \<open>Tokens\<close>

text \<open>
  \<open>BYTE c\<close> is a character code, \<open>TEND n\<close> is \<open>END - n\<close> and \<open>CSET n\<close> is \<open>CSET + n\<close>.  The tokens for multibyte characters are
  left out.
\<close>

datatype token =
    TEND nat
  | BYTE u8
  | EMPTY
  | BACKREF
  | BEGLINE
  | ENDLINE
  | BEGWORD
  | ENDWORD
  | LIMWORD
  | NOTLIMWORD
  | QMARK
  | STAR
  | PLUS
  | REPMN
  | CAT
  | OR'
  | LPAREN
  | RPAREN
  | CSET nat

section \<open>Character classes\<close>

type_synonym charclass = "u32 list"

definition INTBITS :: nat where "INTBITS = 32"
definition CHARCLASS_INTS :: nat where "CHARCLASS_INTS = 8"

definition tstbit :: "nat \<Rightarrow> charclass \<Rightarrow> bool" where
  "tstbit b c = (c ! (b div INTBITS) AND push_bit (b mod INTBITS) 1 \<noteq> 0)"

definition setbit :: "nat \<Rightarrow> charclass \<Rightarrow> charclass" where
  "setbit b c = c[b div INTBITS := c ! (b div INTBITS) OR push_bit (b mod INTBITS) 1]"

definition clrbit :: "nat \<Rightarrow> charclass \<Rightarrow> charclass" where
  "clrbit b c = c[b div INTBITS := c ! (b div INTBITS) AND NOT (push_bit (b mod INTBITS) 1)]"

definition zeroset :: charclass where "zeroset = replicate CHARCLASS_INTS 0"

definition notset :: "charclass \<Rightarrow> charclass" where "notset s = map NOT s"

definition equal :: "charclass \<Rightarrow> charclass \<Rightarrow> bool" where "equal s1 s2 = (s1 = s2)"

text \<open>The loops over the words of two sets.\<close>

definition andset :: "charclass \<Rightarrow> charclass \<Rightarrow> charclass" where "andset s1 s2 = map2 (AND) s1 s2"
definition andnot :: "charclass \<Rightarrow> charclass \<Rightarrow> charclass" where "andnot s1 s2 = map2 (\<lambda>x y. x AND NOT y) s1 s2"
definition nonzero :: "charclass \<Rightarrow> bool" where "nonzero s = list_ex (\<lambda>x. x \<noteq> 0) s"

definition charclass_index :: "charclass \<Rightarrow> charclass list \<Rightarrow> nat \<times> charclass list" where
  "charclass_index s ccs =
     (case find (\<lambda>i. equal s (ccs ! i)) [0..<length ccs] of Some i \<Rightarrow> (i, ccs) | None \<Rightarrow> (length ccs, ccs @ [s]))"

subsection \<open>The characters of a class\<close>

definition chars :: "charclass \<Rightarrow> u8 set" where "chars c = {b. tstbit (unat b) c}"

abbreviation class_ok :: "charclass \<Rightarrow> bool" where "class_ok c \<equiv> length c = CHARCLASS_INTS"

lemma unat_u8_256: "unat (b :: u8) < 256"
  using unsigned_less[of b] by simp

lemma word_of_char [simp]: "class_ok c \<Longrightarrow> unat (b :: u8) div INTBITS < length c"
  using unat_u8_256[of b] by (simp add: CHARCLASS_INTS_def INTBITS_def)

lemma char_word [simp]: "unat (b :: u8) div INTBITS < CHARCLASS_INTS"
  using word_of_char[of "replicate CHARCLASS_INTS 0" b] by simp

lemma mod_INTBITS: "n mod INTBITS < 32"
  by (simp add: INTBITS_def)

lemma u32_eq: "(x :: u32) = y \<longleftrightarrow> (\<forall>n < 32. bit x n = bit y n)"
  using bit_imp_le_length[of x] bit_imp_le_length[of y] by (auto simp: bit_eq_iff)

lemma and_bit_nonzero: "n < 32 \<Longrightarrow> (x :: u32) AND push_bit n 1 \<noteq> 0 \<longleftrightarrow> bit x n"
  by (auto simp: u32_eq bit_simps)

lemma tstbit_bit: "tstbit b c \<longleftrightarrow> bit (c ! (b div INTBITS)) (b mod INTBITS)"
  unfolding tstbit_def by (rule and_bit_nonzero[OF mod_INTBITS])

lemma char_bits: "unat (b :: u8) div INTBITS = unat b' div INTBITS \<Longrightarrow> unat b mod INTBITS = unat b' mod INTBITS \<longleftrightarrow> b = b'"
  by (metis div_mult_mod_eq unsigned_word_eqI)

lemma chars_setbit [simp]: "class_ok c \<Longrightarrow> chars (setbit (unat b) c) = Set.insert b (chars c)"
  by (auto simp: chars_def tstbit_bit setbit_def nth_upd bit_simps char_bits mod_INTBITS)

lemma chars_clrbit [simp]: "class_ok c \<Longrightarrow> chars (clrbit (unat b) c) = chars c - {b}"
  using char_bits by (auto simp: chars_def tstbit_bit clrbit_def nth_upd bit_simps mod_INTBITS)

lemma chars_zeroset [simp]: "chars zeroset = {}"
  by (auto simp: chars_def tstbit_bit zeroset_def)

lemma chars_notset [simp]: "class_ok c \<Longrightarrow> chars (notset c) = - chars c"
  by (auto simp: chars_def tstbit_bit notset_def bit_simps mod_INTBITS)

lemma chars_andset [simp]: "class_ok c \<Longrightarrow> class_ok d \<Longrightarrow> chars (andset c d) = chars c \<inter> chars d"
  by (auto simp: chars_def tstbit_bit andset_def bit_simps)

lemma chars_andnot [simp]: "class_ok c \<Longrightarrow> class_ok d \<Longrightarrow> chars (andnot c d) = chars c - chars d"
  by (auto simp: chars_def tstbit_bit andnot_def bit_simps mod_INTBITS)

lemma class_ok_ops [simp]:
  "class_ok zeroset" "length (setbit b c) = length c" "length (clrbit b c) = length c" "length (notset c) = length c"
  "class_ok c \<Longrightarrow> class_ok d \<Longrightarrow> class_ok (andset c d)" "class_ok c \<Longrightarrow> class_ok d \<Longrightarrow> class_ok (andnot c d)"
  by (auto simp: zeroset_def setbit_def clrbit_def notset_def andset_def andnot_def)

lemma char_of_bit: "class_ok c \<Longrightarrow> i < length c \<Longrightarrow> j < 32 \<Longrightarrow> bit (c ! i) j \<longleftrightarrow> word_of_nat (i * 32 + j) \<in> chars c"
proof -
  assume a: "class_ok c" "i < length c" "j < 32"
  then have "i * 32 + j < 256" by (simp add: CHARCLASS_INTS_def)
  then have "unat (word_of_nat (i * 32 + j) :: u8) = i * 32 + j"
    using unat_of_nat[where 'a = 8, of "i * 32 + j"] by (simp only:) simp
  then show ?thesis using a by (simp add: chars_def tstbit_bit INTBITS_def)
qed

lemma nonzero_chars [simp]:
  assumes "class_ok c"
  shows "nonzero c \<longleftrightarrow> chars c \<noteq> {}"
proof
  assume "nonzero c"
  then obtain i where i: "i < length c" "c ! i \<noteq> 0" by (auto simp: nonzero_def list_ex_length)
  then obtain j where "j < 32" "bit (c ! i) j" by (auto simp: u32_eq)
  then show "chars c \<noteq> {}" using char_of_bit[OF assms i(1)] by blast
next
  assume "chars c \<noteq> {}"
  then obtain b :: u8 where "bit (c ! (unat b div INTBITS)) (unat b mod INTBITS)" by (auto simp: chars_def tstbit_bit)
  then have "c ! (unat b div INTBITS) \<noteq> 0" by auto
  then show "nonzero c" using word_of_char[OF assms, of b] by (auto simp: nonzero_def list_ex_length)
qed

lemma chars_inj: "class_ok c \<Longrightarrow> class_ok d \<Longrightarrow> chars c = chars d \<longleftrightarrow> c = d"
proof
  assume a: "class_ok c" "class_ok d" "chars c = chars d"
  show "c = d"
  proof (rule nth_equalityI)
    fix i assume "i < length c"
    then show "c ! i = d ! i" using a char_of_bit[of c i] char_of_bit[of d i] by (auto simp: u32_eq)
  qed (use a in simp)
qed simp

section \<open>Sets of positions\<close>

record position =
  index :: nat
  constraint :: u32

text \<open>The binary search of \<open>insert\<close> takes the elements to ascend.\<close>

function insert_search :: "position list \<Rightarrow> nat \<Rightarrow> nat \<Rightarrow> nat \<Rightarrow> nat" where
  "insert_search s i lo hi =
     (if lo < hi
      then let mid = (lo + hi) div 2 in
        if index (s ! mid) < i then insert_search s i (mid + 1) hi else insert_search s i lo mid
      else lo)"
  by auto
termination by (relation "measure (\<lambda>(s, i, lo, hi). hi - lo)") auto

declare insert_search.simps [simp del]

text \<open>\<open>room\<close> is the length of the array of the set.\<close>

definition insert_pos :: "nat \<Rightarrow> position \<Rightarrow> position list \<Rightarrow> position list option" where
  "insert_pos room p s =
     (let count = length s; lo = insert_search s (index p) 0 count in
        if lo < count \<and> index p = index (s ! lo)
        then Some (s[lo := (s ! lo)\<lparr>constraint := constraint (s ! lo) OR constraint p\<rparr>])
        else if count < room then Some (take lo s @ p # drop lo s)
        else None)"

text \<open>\<open>merge\<close> takes the elements of both sets to descend.\<close>

fun merge_pos :: "position list \<Rightarrow> position list \<Rightarrow> position list" where
  "merge_pos (x # xs) (y # ys) =
     (if index x > index y then x # merge_pos xs (y # ys)
      else if index x < index y then y # merge_pos (x # xs) ys
      else x\<lparr>constraint := constraint x OR constraint y\<rparr> # merge_pos xs ys)"
| "merge_pos [] ys = ys"
| "merge_pos xs [] = xs"

definition merge_into :: "nat \<Rightarrow> position list \<Rightarrow> position list \<Rightarrow> position list option" where
  "merge_into room s1 s2 = (if length (merge_pos s1 s2) \<le> room then Some (merge_pos s1 s2) else None)"

fun delete_pos :: "position \<Rightarrow> position list \<Rightarrow> position list" where
  "delete_pos p [] = []"
| "delete_pos p (x # xs) = (if index p = index x then xs else x # delete_pos p xs)"

subsection \<open>The constraint of each position\<close>

definition ascending :: "position list \<Rightarrow> bool" where "ascending s = sorted_wrt (<) (map index s)"
definition descending :: "position list \<Rightarrow> bool" where "descending s = sorted_wrt (>) (map index s)"

definition at_pos :: "position list \<Rightarrow> nat \<Rightarrow> u32 option" where
  "at_pos s = map_of (map (\<lambda>p. (index p, constraint p)) s)"

definition join_constraints :: "(nat \<Rightarrow> u32 option) \<Rightarrow> (nat \<Rightarrow> u32 option) \<Rightarrow> nat \<Rightarrow> u32 option" where
  "join_constraints a b i =
     (case a i of None \<Rightarrow> b i | Some c \<Rightarrow> (case b i of None \<Rightarrow> Some c | Some d \<Rightarrow> Some (c OR d)))"

lemma at_pos_simps [simp]:
  "at_pos [] = (\<lambda>_. None)" "at_pos (p # s) = (at_pos s)(index p \<mapsto> constraint p)"
  by (auto simp: at_pos_def)

lemma at_pos_append [simp]: "at_pos (s @ t) = at_pos t ++ at_pos s"
  by (simp add: at_pos_def)

lemma dom_at_pos [simp]: "dom (at_pos s) = index ` set s"
  by (induction s) (auto simp: dom_if)

lemma at_pos_notin: "i \<notin> index ` set s \<Longrightarrow> at_pos s i = None"
  using dom_at_pos[of s] by blast

lemma ascending_Cons [simp]: "ascending (p # s) \<longleftrightarrow> (\<forall>q \<in> set s. index p < index q) \<and> ascending s"
  by (simp add: ascending_def)

lemma descending_Cons [simp]: "descending (p # s) \<longleftrightarrow> (\<forall>q \<in> set s. index q < index p) \<and> descending s"
  by (simp add: descending_def)

lemma order_Nil [simp]: "ascending []" "descending []"
  by (simp_all add: ascending_def descending_def)

lemma ascending_append: "ascending (s @ t) \<longleftrightarrow> ascending s \<and> ascending t \<and> (\<forall>p \<in> set s. \<forall>q \<in> set t. index p < index q)"
  by (auto simp: ascending_def sorted_wrt_append)

lemma descending_append: "descending (s @ t) \<longleftrightarrow> descending s \<and> descending t \<and> (\<forall>p \<in> set s. \<forall>q \<in> set t. index q < index p)"
  by (auto simp: descending_def sorted_wrt_append)

lemma ascending_nth: "ascending s \<Longrightarrow> i < j \<Longrightarrow> j < length s \<Longrightarrow> index (s ! i) < index (s ! j)"
  by (simp add: ascending_def sorted_wrt_iff_nth_less)

lemma insert_search_ok:
  assumes "ascending s" "lo \<le> hi" "hi \<le> length s" "\<forall>j < lo. index (s ! j) < i" "\<forall>j. hi \<le> j \<and> j < length s \<longrightarrow> i \<le> index (s ! j)"
  shows "let k = insert_search s i lo hi in k \<le> length s \<and> (\<forall>j < k. index (s ! j) < i) \<and> (\<forall>j. k \<le> j \<and> j < length s \<longrightarrow> i \<le> index (s ! j))"
  using assms
proof (induction s i lo hi rule: insert_search.induct)
  case (1 s i lo hi)
  show ?case
  proof (cases "lo < hi")
    case False
    then have "hi = lo" using 1 by simp
    then show ?thesis using 1 by (auto simp: insert_search.simps[of s i lo lo])
  next
    case True
    let ?m = "(lo + hi) div 2"
    have m: "lo \<le> ?m" "?m < hi" using True by auto
    show ?thesis
    proof (cases "index (s ! ?m) < i")
      case lt: True
      have "\<forall>j < ?m + 1. index (s ! j) < i"
      proof (intro allI impI)
        fix j assume "j < ?m + 1"
        then show "index (s ! j) < i" using lt ascending_nth[OF 1(3), of j ?m] m 1(5) by (cases "j = ?m") auto
      qed
      then show ?thesis using 1(1)[OF True refl lt 1(3)] m 1(5,7) True lt
        by (simp add: insert_search.simps[of s i lo hi] Let_def)
    next
      case ge: False
      have "\<forall>j. ?m \<le> j \<and> j < length s \<longrightarrow> i \<le> index (s ! j)"
      proof (intro allI impI)
        fix j assume "?m \<le> j \<and> j < length s"
        then show "i \<le> index (s ! j)" using ge ascending_nth[OF 1(3), of ?m j] by (cases "j = ?m") auto
      qed
      then show ?thesis using 1(2)[OF True refl ge 1(3)] m 1(5,6) True ge
        by (simp add: insert_search.simps[of s i lo hi] Let_def)
    qed
  qed
qed

lemma insert_place:
  assumes "ascending s"
  obtains k where "insert_search s i 0 (length s) = k" "k \<le> length s" "\<forall>p \<in> set (take k s). index p < i" "\<forall>p \<in> set (drop k s). i \<le> index p"
proof -
  define k where "k = insert_search s i 0 (length s)"
  from insert_search_ok[OF assms, of 0 "length s" i] have k: "k \<le> length s" "\<forall>j < k. index (s ! j) < i" "\<forall>j. k \<le> j \<and> j < length s \<longrightarrow> i \<le> index (s ! j)"
    by (auto simp: k_def Let_def)
  show ?thesis
  proof (rule that)
    show "\<forall>p \<in> set (take k s). index p < i" using k by (auto simp: in_set_conv_nth)
    show "\<forall>p \<in> set (drop k s). i \<le> index p" using k by (auto simp: in_set_conv_nth)
  qed (use k in \<open>auto simp: k_def\<close>)
qed

text \<open>In an ascending set with room for one more, \<open>insert\<close> joins the constraints and keeps the order.\<close>

lemma insert_pos_ok:
  assumes "ascending s" and room: "index p \<in> index ` set s \<or> length s < room"
  shows "\<exists>t. insert_pos room p s = Some t \<and> ascending t \<and> at_pos t = join_constraints (at_pos s) [index p \<mapsto> constraint p] \<and>
    index ` set t = Set.insert (index p) (index ` set s)"
proof -
  obtain k where k: "insert_search s (index p) 0 (length s) = k" "k \<le> length s" "\<forall>q \<in> set (take k s). index q < index p"
    "\<forall>q \<in> set (drop k s). index p \<le> index q" using insert_place[OF assms(1)] by blast
  define l where "l = take k s"
  have s: "s = l @ drop k s" by (simp add: l_def)
  have kl: "k = length l" using k(2) by (simp add: l_def)
  have l: "\<forall>q \<in> set l. index q < index p" using k(3) by (simp add: l_def)
  have lp: "at_pos l (index p) = None" using l by (intro at_pos_notin) auto
  show ?thesis
  proof (cases "drop k s")
    case Nil
    then have sl: "s = l" using s by simp
    have "index p \<notin> index ` set s" using sl l by auto
    then have "insert_pos room p s = Some (s @ [p])" using room k(1) Nil sl kl by (simp add: insert_pos_def)
    moreover have "ascending (s @ [p])" using assms(1) sl l by (simp add: ascending_append)
    moreover have "at_pos (s @ [p]) = join_constraints (at_pos s) [index p \<mapsto> constraint p]"
      using lp sl by (auto simp: fun_eq_iff join_constraints_def map_add_def split: option.splits)
    ultimately show ?thesis by auto
  next
    case (Cons q r)
    then have sq: "s = l @ q # r" using s by simp
    have sk: "s ! k = q" using sq kl by simp
    have q: "index p \<le> index q" using k(4) Cons by simp
    have a: "ascending l" "ascending r" "\<forall>x \<in> set r. index q < index x" "\<forall>x \<in> set l. index x < index q \<and> (\<forall>y \<in> set r. index x < index y)"
      using assms(1) sq by (auto simp: ascending_append)
    show ?thesis
    proof (cases "index p = index q")
      case True
      have "insert_pos room p s = Some (l @ q\<lparr>constraint := constraint q OR constraint p\<rparr> # r)"
        using k(1) sk kl sq True by (simp add: insert_pos_def)
      moreover have "ascending (l @ q\<lparr>constraint := constraint q OR constraint p\<rparr> # r)" using a by (simp add: ascending_append)
      moreover have "at_pos (l @ q\<lparr>constraint := constraint q OR constraint p\<rparr> # r) = join_constraints (at_pos s) [index p \<mapsto> constraint p]"
        using lp True unfolding sq by (auto simp: fun_eq_iff join_constraints_def map_add_def split: option.splits)
      moreover have "index ` set (l @ q\<lparr>constraint := constraint q OR constraint p\<rparr> # r) = Set.insert (index p) (index ` set s)"
        using sq True by auto
      ultimately show ?thesis by blast
    next
      case False
      then have "index p < index q" using q by simp
      then have r: "\<forall>x \<in> set r. index p < index x" using a(3) by (meson less_trans)
      have "index p \<notin> index ` set (l @ q # r)" using l r \<open>index p < index q\<close> by auto
      then have notin: "index p \<notin> index ` set s" unfolding sq .
      then have "insert_pos room p s = Some (l @ p # q # r)"
        using room k(1) sk False by (auto simp add: insert_pos_def Let_def l_def simp flip: Cons)
      moreover have "ascending (l @ p # q # r)" 
        using a l r \<open>index p < index q\<close> by (auto simp: ascending_append)
      moreover have "at_pos (l @ p # q # r) = join_constraints (at_pos s) [index p \<mapsto> constraint p]"
      proof
        fix i
        have "at_pos s (index p) = None" using notin by (rule at_pos_notin)
        then show "at_pos (l @ p # q # r) i = join_constraints (at_pos s) [index p \<mapsto> constraint p] i"
          using lp \<open>index p < index q\<close> by (cases "i = index p") (auto simp: sq join_constraints_def map_add_def split: option.splits)
      qed
      moreover have "index ` set (l @ p # q # r) = Set.insert (index p) (index ` set s)" using sq by auto
      ultimately show ?thesis by blast
    qed
  qed
qed

lemma merge_pos_indices [simp]: "index ` set (merge_pos s t) = index ` set s \<union> index ` set t"
  by (induction s t rule: merge_pos.induct) auto

lemma merge_pos_ok:
  assumes "descending s" "descending t"
  shows "descending (merge_pos s t)" "at_pos (merge_pos s t) = join_constraints (at_pos s) (at_pos t)"
  using assms
proof (induction s t rule: merge_pos.induct)
  case (1 x xs y ys)
  have sub: "p \<in> set (merge_pos s t) \<Longrightarrow> index p \<in> index ` set s \<union> index ` set t" for p s t
    using merge_pos_indices[of s t] by blast
  {
    case 1
    show ?case using 1 "1.IH"(1,3,5) by (auto dest!: sub) (meson less_trans)+
  next
    case 2
    have x: "at_pos xs (index x) = None" "\<And>i. i \<ge> index x \<Longrightarrow> at_pos xs i = None" using 2 by (force intro: at_pos_notin)+
    have y: "at_pos ys (index y) = None" "\<And>i. i \<ge> index y \<Longrightarrow> at_pos ys i = None" using 2 by (force intro: at_pos_notin)+
    show ?case using 2 "1.IH"(2,4,6) x y by (auto simp: fun_eq_iff join_constraints_def split: option.splits)
  }
qed (auto simp: join_constraints_def split: option.splits)

lemma delete_pos_set: "set (delete_pos p s) \<subseteq> set s"
  by (induction s) auto

lemma delete_pos_ok:
  assumes "ascending s"
  shows "ascending (delete_pos p s)" "at_pos (delete_pos p s) = (at_pos s)(index p := None)"
  using assms
proof (induction s)
  case (Cons x s)
  {
    case 1
    then show ?case using Cons delete_pos_set[of p s] by auto
  next
    case 2
    then have "at_pos s (index x) = None" by (intro at_pos_notin) auto
    then show ?case using 2 Cons by (auto simp: fun_eq_iff)
  }
qed auto

text \<open>An ascending set is determined by its constraints.\<close>

lemma ascending_unique: "ascending s \<Longrightarrow> ascending t \<Longrightarrow> at_pos s = at_pos t \<Longrightarrow> s = t"
proof (induction s arbitrary: t)
  case Nil
  then have "index ` set t = {}" using dom_at_pos[of t] dom_at_pos[of "[]"] by simp
  then show ?case by simp
next
  case (Cons p s)
  have d: "index ` set (p # s) = index ` set t" by (simp only: dom_at_pos[symmetric] Cons.prems(3))
  then obtain q t' where t: "t = q # t'" by (cases t) auto
  have "index p = index q"
  proof (rule antisym)
    show "index p \<le> index q" 
    proof -
      have "index q \<in> Set.insert (index p) (index ` set s)" using d t by auto
      then show ?thesis using Cons.prems(1) by (auto dest: less_imp_le)
    qed
    have "index p \<in> index ` set t" using d by auto
    then show "index q \<le> index p" using t Cons.prems(2) by (auto dest: less_imp_le)
  qed
  moreover have "constraint p = constraint q"
    using fun_cong[OF Cons.prems(3), of "index p"] t calculation by simp
  moreover have "at_pos s = at_pos t'"
  proof
    fix i
    have "at_pos s (index p) = None" "at_pos t' (index p) = None"
      using Cons.prems(1,2) t \<open>index p = index q\<close> by (auto intro!: at_pos_notin)
    then show "at_pos s i = at_pos t' i"
      using fun_cong[OF Cons.prems(3), of i] t \<open>index p = index q\<close> by (cases "i = index p") auto
  qed
  ultimately show ?case using Cons t by auto
qed

subsection \<open>Inserting into a set that descends\<close>

lemma descending_nth: "descending s \<Longrightarrow> i < j \<Longrightarrow> j < length s \<Longrightarrow> index (s ! j) < index (s ! i)"
  by (simp add: descending_def sorted_wrt_iff_nth_less)

lemma sorted_wrt_distinct: "sorted_wrt R xs \<Longrightarrow> (\<And>x :: nat. \<not> R x x) \<Longrightarrow> distinct xs"
  by (induction xs) auto

text \<open>Once the search has gone to one side it goes on to the end of that side.\<close>

lemma insert_search_up:
  "lo \<le> hi \<Longrightarrow> \<forall>j. lo \<le> j \<and> j < hi \<longrightarrow> index (s ! j) < i \<Longrightarrow> insert_search s i lo hi = hi"
proof (induction s i lo hi rule: insert_search.induct)
  case (1 s i lo hi)
  show ?case
  proof (cases "lo < hi")
    case True
    then have m: "lo \<le> (lo + hi) div 2" "(lo + hi) div 2 < hi" by auto
    then have "index (s ! ((lo + hi) div 2)) < i" using 1(4) by blast
    then show ?thesis using 1(1)[OF True refl] 1(4) True m by (subst insert_search.simps) (simp add: Let_def)
  qed (use 1(3) in \<open>simp add: insert_search.simps\<close>)
qed

lemma insert_search_down:
  "lo \<le> hi \<Longrightarrow> \<forall>j. lo \<le> j \<and> j < hi \<longrightarrow> i \<le> index (s ! j) \<Longrightarrow> insert_search s i lo hi = lo"
proof (induction s i lo hi rule: insert_search.induct)
  case (1 s i lo hi)
  show ?case
  proof (cases "lo < hi")
    case True
    then have m: "lo \<le> (lo + hi) div 2" "(lo + hi) div 2 < hi" by auto
    then have "\<not> index (s ! ((lo + hi) div 2)) < i" using 1(4) by (simp add: not_less)
    then show ?thesis using 1(2)[OF True refl] 1(4) True m by (subst insert_search.simps) (simp add: Let_def)
  qed (use 1(3) in \<open>simp add: insert_search.simps\<close>)
qed

lemma insert_search_descending:
  assumes d: "descending s" and n: "2 \<le> length s"
  shows "insert_search s i 0 (length s) = (if index (s ! (length s div 2)) < i then length s else 0)"
proof -
  let ?m = "length s div 2"
  have m: "0 < ?m" "?m < length s" using n by auto
  show ?thesis
  proof (cases "index (s ! ?m) < i")
    case True
    have "index (s ! j) < i" if "?m + 1 \<le> j" "j < length s" for j using descending_nth[OF d, of ?m j] that True by simp
    then have "insert_search s i (?m + 1) (length s) = length s" using m(2) by (intro insert_search_up) simp_all
    then show ?thesis using True m by (subst insert_search.simps) (simp add: Let_def)
  next
    case False
    have "i \<le> index (s ! j)" if "j < ?m" for j using descending_nth[OF d that m(2)] False by simp
    then have "insert_search s i 0 ?m = 0" by (intro insert_search_down) simp_all
    then show ?thesis using False m by (subst insert_search.simps) (simp add: Let_def)
  qed
qed

text \<open>C39: The sets that \<open>merge\<close> makes descend, and \<open>insert\<close> searches them as if they ascended.  In a merged set of at least two positions it
  finds no position, not even one that is there: the position is inserted once more, behind all others or before them, so that its index
  occurs twice and the set is in no order; when the array of the set is full, the insertion is beyond its end.\<close>

theorem insert_into_merged_set:
  assumes "descending s1" and "descending s2" and "2 \<le> length (merge_pos s1 s2)" and "index p \<in> index ` set (merge_pos s1 s2)"
  shows "descending (merge_pos s1 s2) \<and>
    insert_pos room p (merge_pos s1 s2) =
      (if room \<le> length (merge_pos s1 s2) then None
       else if index (merge_pos s1 s2 ! (length (merge_pos s1 s2) div 2)) < index p then Some (merge_pos s1 s2 @ [p])
       else Some (p # merge_pos s1 s2)) \<and>
    (\<forall>t. insert_pos room p (merge_pos s1 s2) = Some t \<longrightarrow> \<not> distinct (map index t) \<and> \<not> ascending t \<and> \<not> descending t)"
proof -
  define s where "s = merge_pos s1 s2"
  have d: "descending s" and n: "2 \<le> length s" and m: "index p \<in> index ` set s"
    using assms merge_pos_ok(1)[OF assms(1,2)] by (simp_all add: s_def)
  note srch = insert_search_descending[OF d n, of "index p"]
  have first: "index p \<noteq> index (s ! 0)" if "\<not> index (s ! (length s div 2)) < index p"
  proof -
    have "0 < length s div 2" "length s div 2 < length s" using n by auto
    then show ?thesis using descending_nth[OF d, of 0 "length s div 2"] that by linarith
  qed
  have e: "insert_pos room p s = (if room \<le> length s then None
      else if index (s ! (length s div 2)) < index p then Some (s @ [p]) else Some (p # s))"
    using srch first n by (auto simp: insert_pos_def Let_def)
  have dup: "\<not> distinct (map index t)" if "insert_pos room p s = Some t" for t
    using that m unfolding e by (auto split: if_split_asm)
  have "distinct (map index t)" if "ascending t \<or> descending t" for t
    using that sorted_wrt_distinct[of "(<)" "map index t"] sorted_wrt_distinct[of "(>)" "map index t"]
    unfolding ascending_def descending_def by blast
  then show ?thesis using d e dup unfolding s_def by blast
qed

theorem insert_into_merged_set_witness:
  "insert_pos 2 \<lparr>index = 1, constraint = 2\<rparr> (merge_pos [\<lparr>index = 3, constraint = 255\<rparr>] [\<lparr>index = 1, constraint = 255\<rparr>]) = None \<and>
   insert_pos 3 \<lparr>index = 1, constraint = 2\<rparr> (merge_pos [\<lparr>index = 3, constraint = 255\<rparr>] [\<lparr>index = 1, constraint = 255\<rparr>]) =
     Some [\<lparr>index = 1, constraint = 2\<rparr>, \<lparr>index = 3, constraint = 255\<rparr>, \<lparr>index = 1, constraint = 255\<rparr>]"
  using insert_into_merged_set[of "[\<lparr>index = 3, constraint = 255\<rparr>]" "[\<lparr>index = 1, constraint = 255\<rparr>]" "\<lparr>index = 1, constraint = 2\<rparr>" 2]
    insert_into_merged_set[of "[\<lparr>index = 3, constraint = 255\<rparr>]" "[\<lparr>index = 1, constraint = 255\<rparr>]" "\<lparr>index = 1, constraint = 2\<rparr>" 3]
  by simp

end
