(* ===== verification/Dfa_Parse.thy ===== *)
theory Dfa_Parse
  imports Dfa_Sets
begin

text \<open>
  The parser of \<open>dfa.c\<close>: recursive descent over the tokens that \<open>lex\<close> returns, which builds the parse tree in postfix form.  It
  is shown to follow the grammar that the comment in the source gives: the tree stands for the language of the tokens that were
  read, where a token for a character, a class or a context is a letter.  The parser always ends, and the depth and the number of
  leaves that it computes are enough for the stacks of \<open>dfaanalyze\<close>.
\<close>

section \<open>The parser\<close>

text \<open>
  What the parser fills of \<open>struct dfa\<close>; \<open>tindex\<close> is the length of \<open>tokens\<close>.  The tokens to come are a list, those after the end
  are \<open>END\<close>; with \<open>REPMN\<close> come the bounds that \<open>lex\<close> leaves in \<open>minrep\<close> and \<open>maxrep\<close>, where \<open>maxrep\<close> is \<open>-1\<close> for no bound.
\<close>

record parse_tree =
  tokens :: "token list"
  max_depth :: int
  nleaves :: nat
  nregexps :: nat

record parser = parse_tree +
  lexemes :: "(token \<times> nat \<times> int) list"
  depth :: int

datatype 'a parsed = Parsed 'a | Dfaerror string | Stuck

fun and_then :: "'a parsed \<Rightarrow> ('a \<Rightarrow> 'b parsed) \<Rightarrow> 'b parsed" where
  "and_then (Parsed a) f = f a"
| "and_then (Dfaerror e) f = Dfaerror e"
| "and_then Stuck f = Stuck"

definition tok :: "parser \<Rightarrow> token" where "tok s = (case lexemes s of [] \<Rightarrow> TEND 0 | (t, _) # _ \<Rightarrow> t)"
definition minrep :: "parser \<Rightarrow> nat" where "minrep s = (case lexemes s of [] \<Rightarrow> 0 | (_, m, _) # _ \<Rightarrow> m)"
definition maxrep :: "parser \<Rightarrow> int" where "maxrep s = (case lexemes s of [] \<Rightarrow> 0 | (_, _, m) # _ \<Rightarrow> m)"
definition next_tok :: "parser \<Rightarrow> parser" where "next_tok s = s\<lparr>lexemes := tl (lexemes s)\<rparr>"

definition addtok :: "token \<Rightarrow> parser \<Rightarrow> parser" where
  "addtok t s =
     (let s = s\<lparr>tokens := tokens s @ [t]\<rparr>;
          s = (case t of
                 QMARK \<Rightarrow> s
               | STAR \<Rightarrow> s
               | PLUS \<Rightarrow> s
               | CAT \<Rightarrow> s\<lparr>depth := depth s - 1\<rparr>
               | OR' \<Rightarrow> s\<lparr>depth := depth s - 1\<rparr>
               | EMPTY \<Rightarrow> s\<lparr>depth := depth s + 1\<rparr>
               | _ \<Rightarrow> s\<lparr>nleaves := nleaves s + 1, depth := depth s + 1\<rparr>)
      in if depth s > max_depth s then s\<lparr>max_depth := depth s\<rparr> else s)"

text \<open>\<open>None\<close>: before the start of the array.\<close>

function nsubtoks :: "token list \<Rightarrow> nat \<Rightarrow> nat option" where
  "nsubtoks toks tindex =
     (if tindex = 0 \<or> tindex > length toks then None
      else case toks ! (tindex - 1) of
          QMARK \<Rightarrow> map_option Suc (nsubtoks toks (tindex - 1))
        | STAR \<Rightarrow> map_option Suc (nsubtoks toks (tindex - 1))
        | PLUS \<Rightarrow> map_option Suc (nsubtoks toks (tindex - 1))
        | CAT \<Rightarrow>
            do { n1 \<leftarrow> nsubtoks toks (tindex - 1);
                 n2 \<leftarrow> nsubtoks toks (tindex - 1 - n1);
                 Some (1 + n1 + n2) }
        | OR' \<Rightarrow>
            do { n1 \<leftarrow> nsubtoks toks (tindex - 1);
                 n2 \<leftarrow> nsubtoks toks (tindex - 1 - n1);
                 Some (1 + n1 + n2) }
        | _ \<Rightarrow> Some 1)"
  by auto
termination by (relation "measure snd") auto

declare nsubtoks.simps [simp del]

fun copytoks :: "nat \<Rightarrow> nat \<Rightarrow> parser \<Rightarrow> parser" where
  "copytoks tindex 0 s = s"
| "copytoks tindex (Suc ntokens) s = copytoks (tindex + 1) ntokens (addtok (tokens s ! tindex) s)"

definition is_leaf :: "token \<Rightarrow> bool" where
  "is_leaf t = (case t of BYTE _ \<Rightarrow> True | CSET _ \<Rightarrow> True | BACKREF \<Rightarrow> True | BEGLINE \<Rightarrow> True | ENDLINE \<Rightarrow> True | BEGWORD \<Rightarrow> True
     | ENDWORD \<Rightarrow> True | LIMWORD \<Rightarrow> True | NOTLIMWORD \<Rightarrow> True | _ \<Rightarrow> False)"

definition is_end :: "token \<Rightarrow> bool" where "is_end t = (case t of TEND _ \<Rightarrow> True | _ \<Rightarrow> False)"

text \<open>What \<open>closure\<close> adds for a repetition \<open>{m,n}\<close> of the subexpression at \<open>tindex\<close>.\<close>

definition repeat_toks :: "nat \<Rightarrow> nat \<Rightarrow> parser \<Rightarrow> parser" where
  "repeat_toks tindex ntokens s =
     (let m = minrep s; n = maxrep s;
          s = (if n < 0 then addtok PLUS s else s);
          s = (if m = 0 then addtok QMARK s else s);
          s = ((\<lambda>s. addtok CAT (copytoks tindex ntokens s)) ^^ (m - 1)) s
      in ((\<lambda>s. addtok CAT (addtok QMARK (copytoks tindex ntokens s))) ^^ nat (n - max 1 (int m))) s)"

text \<open>The recursion is bounded by the first argument; \<open>Stuck\<close> is also the result of reading before the start of the tokens.\<close>

fun atom :: "nat \<Rightarrow> parser \<Rightarrow> parser parsed"
  and closure :: "nat \<Rightarrow> parser \<Rightarrow> parser parsed"
  and closure_ops :: "nat \<Rightarrow> parser \<Rightarrow> parser parsed"
  and branch :: "nat \<Rightarrow> parser \<Rightarrow> parser parsed"
  and branch_more :: "nat \<Rightarrow> parser \<Rightarrow> parser parsed"
  and regexp :: "nat \<Rightarrow> parser \<Rightarrow> parser parsed"
  and regexp_more :: "nat \<Rightarrow> parser \<Rightarrow> parser parsed"
where
  "atom 0 s = Stuck"
| "atom (Suc f) s =
     (if is_leaf (tok s) then Parsed (next_tok (addtok (tok s) s))
      else if tok s = LPAREN
      then and_then (regexp f (next_tok s)) (\<lambda>s.
        if tok s \<noteq> RPAREN then Dfaerror ''unbalanced ('' else Parsed (next_tok s))
      else Parsed (addtok EMPTY s))"
| "closure 0 s = Stuck"
| "closure (Suc f) s = and_then (atom f s) (closure_ops f)"
| "closure_ops 0 s = Stuck"
| "closure_ops (Suc f) s =
     (if tok s = QMARK \<or> tok s = STAR \<or> tok s = PLUS then closure_ops f (next_tok (addtok (tok s) s))
      else if tok s = REPMN then
        (case nsubtoks (tokens s) (length (tokens s)) of
           None \<Rightarrow> Stuck
         | Some ntokens \<Rightarrow>
             let tindex = length (tokens s) - ntokens in
             if minrep s \<noteq> 0 \<or> maxrep s \<noteq> 0 then closure_ops f (next_tok (repeat_toks tindex ntokens s))
             else and_then (closure f (next_tok (s\<lparr>tokens := take tindex (tokens s)\<rparr>))) (closure_ops f))
      else Parsed s)"
| "branch 0 s = Stuck"
| "branch (Suc f) s = and_then (closure f s) (branch_more f)"
| "branch_more 0 s = Stuck"
| "branch_more (Suc f) s =
     (if tok s \<noteq> RPAREN \<and> tok s \<noteq> OR' \<and> \<not> is_end (tok s)
      then and_then (closure f s) (\<lambda>s. branch_more f (addtok CAT s))
      else Parsed s)"
| "regexp 0 s = Stuck"
| "regexp (Suc f) s = and_then (branch f s) (regexp_more f)"
| "regexp_more 0 s = Stuck"
| "regexp_more (Suc f) s =
     (if tok s = OR' then and_then (branch f (next_tok s)) (\<lambda>s. regexp_more f (addtok OR' s)) else Parsed s)"

text \<open>The bound that is shown to be enough.\<close>

definition parse_fuel :: "parser \<Rightarrow> nat" where "parse_fuel s = 4 * length (lexemes s) + 4"

definition dfaparse :: "(token \<times> nat \<times> int) list \<Rightarrow> parse_tree \<Rightarrow> parse_tree parsed" where
  "dfaparse ls d =
     (let s = parse_tree.extend d \<lparr>lexemes = ls, depth = max_depth d\<rparr> in
      and_then (regexp (parse_fuel s) s) (\<lambda>s.
        if tok s \<noteq> TEND 0 then Dfaerror ''unbalanced )''
        else
          let s = addtok CAT (addtok (TEND (nregexps s)) s);
              s = (if nregexps s \<noteq> 0 then addtok OR' s else s)
          in Parsed (parse_tree.truncate (s\<lparr>nregexps := nregexps s + 1\<rparr>))))"

definition dfainit :: parse_tree where "dfainit = \<lparr>tokens = [], max_depth = 0, nleaves = 0, nregexps = 0\<rparr>"

section \<open>Regular expressions and their languages\<close>

definition lconc :: "'a list set \<Rightarrow> 'a list set \<Rightarrow> 'a list set" where "lconc A B = {u @ v |u v. u \<in> A \<and> v \<in> B}"

primrec lpow :: "'a list set \<Rightarrow> nat \<Rightarrow> 'a list set" where
  "lpow A 0 = {[]}"
| "lpow A (Suc n) = lconc A (lpow A n)"

definition lstar :: "'a list set \<Rightarrow> 'a list set" where "lstar A = (\<Union>n. lpow A n)"
definition lplus :: "'a list set \<Rightarrow> 'a list set" where "lplus A = (\<Union>n. lpow A (Suc n))"

text \<open>A repetition: at least \<open>m\<close>, and at most \<open>n\<close> times unless \<open>n\<close> is negative.\<close>

definition lrep :: "'a list set \<Rightarrow> nat \<Rightarrow> int \<Rightarrow> 'a list set" where
  "lrep A m n = (\<Union>k \<in> {k. m \<le> k \<and> (n < 0 \<or> int k \<le> n)}. lpow A k)"

datatype rx = Leaf token | Empty | Conc rx rx | Alt rx rx | Star rx | Plus rx | Opt rx

fun post :: "rx \<Rightarrow> token list" where
  "post (Leaf t) = [t]"
| "post Empty = [EMPTY]"
| "post (Conc a b) = post a @ post b @ [CAT]"
| "post (Alt a b) = post a @ post b @ [OR']"
| "post (Star a) = post a @ [STAR]"
| "post (Plus a) = post a @ [PLUS]"
| "post (Opt a) = post a @ [QMARK]"

fun lang :: "rx \<Rightarrow> token list set" where
  "lang (Leaf t) = {[t]}"
| "lang Empty = {[]}"
| "lang (Conc a b) = lconc (lang a) (lang b)"
| "lang (Alt a b) = lang a \<union> lang b"
| "lang (Star a) = lstar (lang a)"
| "lang (Plus a) = lplus (lang a)"
| "lang (Opt a) = Set.insert [] (lang a)"

text \<open>The height of the stack and the number of leaves of a bottom-up traversal.\<close>

fun height :: "rx \<Rightarrow> int" where
  "height (Leaf t) = 1"
| "height Empty = 1"
| "height (Conc a b) = max (height a) (1 + height b)"
| "height (Alt a b) = max (height a) (1 + height b)"
| "height (Star a) = height a"
| "height (Plus a) = height a"
| "height (Opt a) = height a"

fun leaves :: "rx \<Rightarrow> nat" where
  "leaves (Leaf t) = 1"
| "leaves Empty = 0"
| "leaves (Conc a b) = leaves a + leaves b"
| "leaves (Alt a b) = leaves a + leaves b"
| "leaves (Star a) = leaves a"
| "leaves (Plus a) = leaves a"
| "leaves (Opt a) = leaves a"

fun leaves_ok :: "rx \<Rightarrow> bool" where
  "leaves_ok (Leaf t) = (is_leaf t \<or> is_end t)"
| "leaves_ok Empty = True"
| "leaves_ok (Conc a b) = (leaves_ok a \<and> leaves_ok b)"
| "leaves_ok (Alt a b) = (leaves_ok a \<and> leaves_ok b)"
| "leaves_ok (Star a) = leaves_ok a"
| "leaves_ok (Plus a) = leaves_ok a"
| "leaves_ok (Opt a) = leaves_ok a"

lemma height_pos: "1 \<le> height r"
  by (induction r) auto

lemma lconc_assoc: "lconc (lconc A B) C = lconc A (lconc B C)"
  unfolding lconc_def by (auto, metis append.assoc, metis append.assoc)

lemma lconc_eps [simp]: "lconc {[]} A = A" "lconc A {[]} = A"
  by (auto simp: lconc_def)

lemma lconc_UN: "lconc (\<Union>i \<in> I. F i) B = (\<Union>i \<in> I. lconc (F i) B)" "lconc A (\<Union>i \<in> I. F i) = (\<Union>i \<in> I. lconc A (F i))"
  by (auto simp: lconc_def)

lemma lpow_add: "lconc (lpow A m) (lpow A n) = lpow A (m + n)"
  by (induction m) (auto simp: lconc_assoc)

lemma lpow_snoc: "lconc (lpow A n) A = lpow A (Suc n)"
  using lpow_add[of A n 1] by simp

lemma lpow_1: "lpow A (Suc 0) = A"
  by simp

section \<open>The grammar\<close>

text \<open>
  The grammar of the comment, with the language of each phrase.  An empty atom stands only where a branch begins, where it may be
  followed by operators: the first argument of \<open>g_closure\<close> and \<open>g_branch\<close>.
\<close>

type_synonym lexeme = "token \<times> nat \<times> int"

inductive g_atom :: "lexeme list \<Rightarrow> token list set \<Rightarrow> bool"
  and g_closure :: "bool \<Rightarrow> lexeme list \<Rightarrow> token list set \<Rightarrow> bool"
  and g_branch :: "bool \<Rightarrow> lexeme list \<Rightarrow> token list set \<Rightarrow> bool"
  and g_regexp :: "lexeme list \<Rightarrow> token list set \<Rightarrow> bool"
where
  "is_leaf t \<Longrightarrow> g_atom [(t, x)] {[t]}"
| "g_regexp ls L \<Longrightarrow> g_atom ((LPAREN, x) # ls @ [(RPAREN, y)]) L"
| "g_atom ls L \<Longrightarrow> g_closure e ls L"
| "g_closure True [] {[]}"
| "g_closure e ls L \<Longrightarrow> g_closure e (ls @ [(QMARK, x)]) (Set.insert [] L)"
| "g_closure e ls L \<Longrightarrow> g_closure e (ls @ [(STAR, x)]) (lstar L)"
| "g_closure e ls L \<Longrightarrow> g_closure e (ls @ [(PLUS, x)]) (lplus L)"
| "g_closure e ls L \<Longrightarrow> g_closure e (ls @ [(REPMN, m, n)]) (lrep L m n)"
| "g_closure e ls L \<Longrightarrow> g_branch e ls L"
| "g_branch e ls L \<Longrightarrow> g_closure False ls' L' \<Longrightarrow> g_branch e (ls @ ls') (lconc L L')"
| "g_branch True ls L \<Longrightarrow> g_regexp ls L"
| "g_regexp ls L \<Longrightarrow> g_branch True ls' L' \<Longrightarrow> g_regexp (ls @ [(OR', x)] @ ls') (L \<union> L')"

inductive_cases g_atom_cases: "g_atom ls L"

text \<open>Branches can be put one after the other.\<close>

lemma g_branch_append:
  "g_atom ls L \<Longrightarrow> True"
  "g_closure e' ls L \<Longrightarrow> True"
  "g_branch e' ls' L' \<Longrightarrow> \<not> e' \<Longrightarrow> g_branch e ls L \<Longrightarrow> g_branch e (ls @ ls') (lconc L L')"
  "g_regexp ls L \<Longrightarrow> True"
proof (induction rule: g_atom_g_closure_g_branch_g_regexp.inducts)
  case (10 e' ls1 L1 ls2 L2)
  then have "g_branch e (ls @ ls1) (lconc L L1)" by simp
  from g_atom_g_closure_g_branch_g_regexp.intros(10)[OF this \<open>g_closure False ls2 L2\<close>] show ?case by (simp add: lconc_assoc)
qed (auto intro: g_atom_g_closure_g_branch_g_regexp.intros)

section \<open>Adding tokens\<close>

lemma addtok_simps [simp]:
  "tokens (addtok t s) = tokens s @ [t]" "lexemes (addtok t s) = lexemes s" "nregexps (addtok t s) = nregexps s"
  "tok (addtok t s) = tok s" "minrep (addtok t s) = minrep s" "maxrep (addtok t s) = maxrep s"
  by (auto simp: addtok_def Let_def tok_def minrep_def maxrep_def split: token.splits)

lemma next_tok_simps [simp]:
  "tokens (next_tok s) = tokens s" "lexemes (next_tok s) = tl (lexemes s)" "nregexps (next_tok s) = nregexps s"
  "depth (next_tok s) = depth s" "max_depth (next_tok s) = max_depth s" "nleaves (next_tok s) = nleaves s"
  by (auto simp: next_tok_def)

text \<open>What \<open>s\<close> has become after the tokens of a tree were added: at least as deep, and with at least as many leaves.\<close>

definition grows :: "parser \<Rightarrow> parser \<Rightarrow> rx \<Rightarrow> bool" where
  "grows s s' r \<longleftrightarrow> tokens s' = tokens s @ post r \<and> leaves_ok r \<and> nregexps s' = nregexps s \<and>
     depth s + 1 \<le> depth s' \<and> max_depth s \<le> max_depth s' \<and> depth s + height r \<le> max_depth s' \<and> nleaves s + leaves r \<le> nleaves s'"

lemma grows_next [simp]: "grows s (next_tok s') r = grows s s' r"
  by (simp add: grows_def)

lemma grows_leaf: "is_leaf t \<or> is_end t \<Longrightarrow> grows s (addtok t s) (Leaf t)"
  by (auto simp: grows_def addtok_def Let_def is_leaf_def is_end_def split: token.splits)

lemma grows_empty: "grows s (addtok EMPTY s) Empty"
  by (auto simp: grows_def addtok_def Let_def)

lemma grows_unary:
  assumes "grows s s' r"
  shows "grows s (addtok QMARK s') (Opt r)" "grows s (addtok STAR s') (Star r)" "grows s (addtok PLUS s') (Plus r)"
  using assms by (auto simp: grows_def addtok_def Let_def)

lemma grows_binary:
  assumes "grows s s' r" "grows s' s'' r'"
  shows "grows s (addtok CAT s'') (Conc r r')" "grows s (addtok OR' s'') (Alt r r')"
  using assms height_pos[of r'] by (auto simp: grows_def addtok_def Let_def)

lemma post_not_Nil [simp]: "post r \<noteq> []"
  by (cases r) auto

lemma nsubtoks_post:
  "leaves_ok r \<Longrightarrow> nsubtoks (ts @ post r @ us) (length ts + length (post r)) = Some (length (post r))"
proof (induction r arbitrary: ts us)
  case (Leaf t)
  then show ?case by (auto simp: nsubtoks.simps[of _ "Suc _"] nth_append is_leaf_def is_end_def split: token.splits)
next
  case Empty
  then show ?case by (auto simp: nsubtoks.simps[of _ "Suc _"] nth_append)
next
  case (Conc a b)
  then show ?case using Conc.IH(1)[of ts "post b @ CAT # us"] Conc.IH(2)[of "ts @ post a" "CAT # us"]
    by (subst nsubtoks.simps) (auto simp: nth_append add.assoc)
next
  case (Alt a b)
  then show ?case using Alt.IH(1)[of ts "post b @ OR' # us"] Alt.IH(2)[of "ts @ post a" "OR' # us"]
    by (subst nsubtoks.simps) (auto simp: nth_append add.assoc)
next
  case (Star a)
  then show ?case using Star.IH[of ts "STAR # us"] by (subst nsubtoks.simps) (auto simp: nth_append)
next
  case (Plus a)
  then show ?case using Plus.IH[of ts "PLUS # us"] by (subst nsubtoks.simps) (auto simp: nth_append)
next
  case (Opt a)
  then show ?case using Opt.IH[of ts "QMARK # us"] by (subst nsubtoks.simps) (auto simp: nth_append)
qed

lemma nsubtoks_top: "leaves_ok r \<Longrightarrow> nsubtoks (ts @ post r) (length (ts @ post r)) = Some (length (post r))"
  using nsubtoks_post[of r ts "[]"] by simp

lemma copytoks_fold:
  "tokens s = ts @ us @ vs \<Longrightarrow> copytoks (length ts) (length us) s = fold addtok us s"
proof (induction us arbitrary: ts vs s)
  case (Cons u us)
  have "tokens (addtok u s) = (ts @ [u]) @ us @ (vs @ [u])" using Cons.prems by simp
  from Cons.IH[OF this] show ?case using Cons.prems by (simp add: nth_append)
qed simp

lemma grows_post: "leaves_ok r \<Longrightarrow> grows s (fold addtok (post r) s) r"
proof (induction r arbitrary: s)
  case (Conc a b)
  show ?case using grows_binary(1)[OF Conc.IH(1) Conc.IH(2)] Conc.prems by simp
next
  case (Alt a b)
  show ?case using grows_binary(2)[OF Alt.IH(1) Alt.IH(2)] Alt.prems by simp
qed (auto intro: grows_leaf grows_empty grows_unary)

lemma fold_addtok_simps [simp]:
  "lexemes (fold addtok ts s) = lexemes s" "minrep (fold addtok ts s) = minrep s" "maxrep (fold addtok ts s) = maxrep s"
  "tokens (fold addtok ts s) = tokens s @ ts" "tok (fold addtok ts s) = tok s"
  by (induction ts arbitrary: s) auto

section \<open>Repetitions\<close>

lemma lpow_opt: "lpow (Set.insert [] L) n = (\<Union>k \<in> {..n}. lpow L k)"
proof (induction n)
  case (Suc n)
  have "lpow (Set.insert [] L) (Suc n) = lpow (Set.insert [] L) n \<union> lconc L (lpow (Set.insert [] L) n)"
    by (auto simp: lconc_def)
  also have "\<dots> = (\<Union>k \<in> {..n}. lpow L k) \<union> (\<Union>k \<in> {..n}. lpow L (Suc k))" by (simp add: Suc lconc_UN)
  also have "\<dots> = (\<Union>k \<in> {..n} \<union> Suc ` {..n}. lpow L k)" by auto
  also have "{..n} \<union> Suc ` {..n} = {..Suc n}" by (auto simp: image_iff le_Suc_eq)
  finally show ?case .
qed simp

lemma UN_lpow_cong: "I = J \<Longrightarrow> (\<Union>k \<in> I. lpow L k) = (\<Union>k \<in> J. lpow L k)"
  by simp

lemma rep_language:
  fixes m :: nat and n :: int and L :: "'a list set"
  assumes "n < 0 \<or> int m \<le> n" "m \<noteq> 0 \<or> n \<noteq> 0"
  defines "b \<equiv> (if n < 0 then lplus L else L)"
  shows "lconc (lconc (if m = 0 then Set.insert [] b else b) (lpow L (m - 1))) (lpow (Set.insert [] L) (nat (n - max 1 (int m)))) = lrep L m n"
proof (cases "n < 0")
  case True
  have "Set.insert [] (lplus L) = (\<Union>k. lpow L k)"
  proof -
    have "range Suc \<union> {0} = UNIV" by (auto simp: image_iff) (metis not0_implies_Suc)
    then have "(\<Union>k. lpow L k) = (\<Union>k \<in> Set.insert 0 (range Suc). lpow L k)" by simp
    then show ?thesis by (simp add: lplus_def)
  qed
  moreover have "lconc (lplus L) (lpow L (m - 1)) = (\<Union>k \<in> {k. m \<le> k}. lpow L k)" if "m \<noteq> 0"
  proof -
    have "lconc (lplus L) (lpow L (m - 1)) = (\<Union>k. lpow L (Suc k + (m - 1)))"
      unfolding lplus_def lconc_UN lpow_add ..
    also have "\<dots> = (\<Union>k \<in> range (\<lambda>k. Suc k + (m - 1)). lpow L k)" by (simp add: image_image)
    also have "range (\<lambda>k. Suc k + (m - 1)) = {k. m \<le> k}" using that by (auto simp: image_iff) presburger
    finally show ?thesis .
  qed
  ultimately show ?thesis using True by (auto simp: lrep_def b_def)
next
  case False
  show ?thesis
  proof (cases "m = 0")
    case True
    define k where "k = nat (n - 1)"
    have k: "n = int (Suc k)" using False True assms(2) by (simp add: k_def)
    have "lconc (Set.insert [] L) (lpow (Set.insert [] L) k) = (\<Union>i \<in> {..Suc k}. lpow L i)" using lpow_opt[of L "Suc k"] by simp
    moreover have "{i. m \<le> i \<and> (n < 0 \<or> int i \<le> n)} = {..Suc k}" using True k by auto
    ultimately show ?thesis using True k by (simp add: lrep_def b_def)
  next
    case m: False
    define k where "k = nat (n - int m)"
    have k: "n = int (m + k)" using False assms(1) by (simp add: k_def)
    have "lconc (lpow L m) (lpow (Set.insert [] L) k) = (\<Union>i \<in> {..k}. lpow L (m + i))"
      by (simp add: lpow_opt lconc_UN lpow_add)
    also have "\<dots> = (\<Union>i \<in> (\<lambda>i. m + i) ` {..k}. lpow L i)" by simp
    also have "(\<lambda>i. m + i) ` {..k} = {i. m \<le> i \<and> i \<le> m + k}"
    proof safe
      fix x assume "m \<le> x" "x \<le> m + k"
      then show "x \<in> (\<lambda>i. m + i) ` {..k}" by (intro image_eqI[of _ _ "x - m"]) auto
    qed auto
    finally have e: "lconc (lpow L m) (lpow (Set.insert [] L) k) = (\<Union>i \<in> {i. m \<le> i \<and> i \<le> m + k}. lpow L i)" .
    have "lconc L (lpow L (m - 1)) = lpow L m" using m by (cases m) auto
    moreover have "{i. m \<le> i \<and> (n < 0 \<or> int i \<le> n)} = {i. m \<le> i \<and> i \<le> m + k}" using k by auto
    ultimately show ?thesis using m k e by (simp add: lrep_def b_def)
  qed
qed

text \<open>The copies of a subexpression that stands at the top of the tokens of \<open>s0\<close>.\<close>

definition top_is :: "parser \<Rightarrow> rx \<Rightarrow> parser \<Rightarrow> rx \<Rightarrow> bool" where
  "top_is s0 r s r' \<longleftrightarrow> grows s0 s r' \<and> leaves_ok r \<and> (\<exists>vs. tokens s = tokens s0 @ post r @ vs)"

lemma top_is_copy:
  assumes "top_is s0 r s r'"
  shows "top_is s0 r (addtok CAT (copytoks (length (tokens s0)) (length (post r)) s)) (Conc r' r)"
    "top_is s0 r (addtok CAT (addtok QMARK (copytoks (length (tokens s0)) (length (post r)) s))) (Conc r' (Opt r))"
  using assms copytoks_fold[of s "tokens s0" "post r"] grows_binary(1) grows_post[of r s] grows_unary(1)[OF grows_post[of r s]]
  by (auto simp: top_is_def)

lemma copytoks_lexemes [simp]:
  "lexemes (copytoks i n s) = lexemes s" "tok (copytoks i n s) = tok s"
  by (induction n arbitrary: i s) auto

lemma top_is_copies:
  assumes "top_is s0 r s r'"
  shows "\<exists>r1. top_is s0 r (((\<lambda>s. addtok CAT (copytoks (length (tokens s0)) (length (post r)) s)) ^^ k) s) r1 \<and>
      lang r1 = lconc (lang r') (lpow (lang r) k) \<and>
      lexemes (((\<lambda>s. addtok CAT (copytoks (length (tokens s0)) (length (post r)) s)) ^^ k) s) = lexemes s"
    "\<exists>r1. top_is s0 r (((\<lambda>s. addtok CAT (addtok QMARK (copytoks (length (tokens s0)) (length (post r)) s))) ^^ k) s) r1 \<and>
      lang r1 = lconc (lang r') (lpow (Set.insert [] (lang r)) k) \<and>
      lexemes (((\<lambda>s. addtok CAT (addtok QMARK (copytoks (length (tokens s0)) (length (post r)) s))) ^^ k) s) = lexemes s"
proof (induction k)
  case 0
  {
    case 1
    show ?case using assms by auto
  next
    case 2
    show ?case using assms by auto
  }
next
  case (Suc k)
  {
    case 1
    obtain r1 where "top_is s0 r (((\<lambda>s. addtok CAT (copytoks (length (tokens s0)) (length (post r)) s)) ^^ k) s) r1"
      "lang r1 = lconc (lang r') (lpow (lang r) k)"
      "lexemes (((\<lambda>s. addtok CAT (copytoks (length (tokens s0)) (length (post r)) s)) ^^ k) s) = lexemes s" using Suc(1) by blast
    then show ?case using top_is_copy(1)[of s0 r _ r1] by (intro exI[of _ "Conc r1 r"]) (simp add: lconc_assoc lpow_snoc del: lpow.simps)
  next
    case 2
    obtain r1 where "top_is s0 r (((\<lambda>s. addtok CAT (addtok QMARK (copytoks (length (tokens s0)) (length (post r)) s))) ^^ k) s) r1"
      "lang r1 = lconc (lang r') (lpow (Set.insert [] (lang r)) k)"
      "lexemes (((\<lambda>s. addtok CAT (addtok QMARK (copytoks (length (tokens s0)) (length (post r)) s))) ^^ k) s) = lexemes s" using Suc(2) by blast
    then show ?case using top_is_copy(2)[of s0 r _ r1]
      by (intro exI[of _ "Conc r1 (Opt r)"]) (simp add: lconc_assoc lpow_snoc del: lpow.simps)
  }
qed

lemma repeat_toks_ok:
  assumes "grows s0 s r" "maxrep s < 0 \<or> int (minrep s) \<le> maxrep s" "minrep s \<noteq> 0 \<or> maxrep s \<noteq> 0"
  shows "\<exists>r'. grows s0 (repeat_toks (length (tokens s0)) (length (post r)) s) r' \<and> lang r' = lrep (lang r) (minrep s) (maxrep s) \<and>
    lexemes (repeat_toks (length (tokens s0)) (length (post r)) s) = lexemes s"
proof -
  define m n where "m = minrep s" and "n = maxrep s"
  have lr: "leaves_ok r" "tokens s = tokens s0 @ post r" using assms(1) by (auto simp: grows_def)
  define s1 where "s1 = (if n < 0 then addtok PLUS s else s)"
  define r1 where "r1 = (if n < 0 then Plus r else r)"
  have s1: "top_is s0 r s1 r1" "lexemes s1 = lexemes s" "lang r1 = (if n < 0 then lplus (lang r) else lang r)"
    using assms(1) lr grows_unary(3)[OF assms(1)] by (auto simp: top_is_def s1_def r1_def)
  define s2 where "s2 = (if m = 0 then addtok QMARK s1 else s1)"
  define r2 where "r2 = (if m = 0 then Opt r1 else r1)"
  have s2: "top_is s0 r s2 r2" "lexemes s2 = lexemes s"
    "lang r2 = (if m = 0 then Set.insert [] (lang r1) else lang r1)"
    using s1 grows_unary(1)[of s0 s1 r1] by (auto simp: top_is_def s2_def r2_def)
  obtain s3 r3 where s3: "s3 = ((\<lambda>s. addtok CAT (copytoks (length (tokens s0)) (length (post r)) s)) ^^ (m - 1)) s2"
    "top_is s0 r s3 r3" "lang r3 = lconc (lang r2) (lpow (lang r) (m - 1))" "lexemes s3 = lexemes s"
    using top_is_copies(1)[OF s2(1), of "m - 1"] s2(2) by auto
  obtain s4 r4 where s4: "s4 = ((\<lambda>s. addtok CAT (addtok QMARK (copytoks (length (tokens s0)) (length (post r)) s))) ^^ nat (n - max 1 (int m))) s3"
    "top_is s0 r s4 r4" "lang r4 = lconc (lang r3) (lpow (Set.insert [] (lang r)) (nat (n - max 1 (int m))))" "lexemes s4 = lexemes s"
    using top_is_copies(2)[OF s3(2), of "nat (n - max 1 (int m))"] s3(4) by auto
  have "repeat_toks (length (tokens s0)) (length (post r)) s = s4"
    unfolding repeat_toks_def Let_def s4(1) s3(1) s2_def s1_def m_def n_def ..
  moreover have "lang r4 = lrep (lang r) m n"
    unfolding s4(3) s3(3) s2(3) s1(3) m_def n_def by (rule rep_language[OF assms(2,3)])
  ultimately show ?thesis using s4(2,4) by (auto simp: top_is_def m_def n_def)
qed

section \<open>The parser follows the grammar\<close>

text \<open>The lexemes of a subexpression inside of \<open>k\<close> open parentheses: \<open>None\<close> if one of those that it opens is not closed.\<close>

fun unnest :: "nat \<Rightarrow> lexeme list \<Rightarrow> lexeme list option" where
  "unnest 0 [] = Some []"
| "unnest (Suc k) [] = None"
| "unnest k ((LPAREN, x) # ls) = unnest (Suc k) ls"
| "unnest 0 ((RPAREN, x) # ls) = Some ((RPAREN, x) # ls)"
| "unnest (Suc k) ((RPAREN, x) # ls) = unnest k ls"
| "unnest k (l # ls) = unnest k ls"

definition balanced :: "lexeme list \<Rightarrow> bool" where "balanced ls \<longleftrightarrow> unnest 0 ls = Some []"

text \<open>What \<open>lex\<close> returns.\<close>

definition is_op :: "token \<Rightarrow> bool" where "is_op t \<longleftrightarrow> t = QMARK \<or> t = STAR \<or> t = PLUS \<or> t = REPMN"
definition starts :: "token \<Rightarrow> bool" where "starts t \<longleftrightarrow> is_leaf t \<or> t = LPAREN"

definition lexed :: "lexeme list \<Rightarrow> bool" where
  "lexed = list_all (\<lambda>(t, m, n). starts t \<or> is_op t \<and> (t = REPMN \<longrightarrow> n < 0 \<or> int m \<le> n) \<or> t = OR' \<or> t = RPAREN)"

definition bal :: "lexeme list \<Rightarrow> bool" where "bal ls \<longleftrightarrow> (\<forall>k rest. unnest k (ls @ rest) = unnest k rest)"

lemma unnest_other: "t \<noteq> LPAREN \<Longrightarrow> t \<noteq> RPAREN \<Longrightarrow> unnest k ((t, x) # ls) = unnest k ls"
  by (cases t; cases k) auto

lemma bal_simps [simp]: "bal []" "bal ls \<Longrightarrow> bal ls' \<Longrightarrow> bal (ls @ ls')"
  by (auto simp: bal_def)

lemma bal_end: "bal ls \<Longrightarrow> unnest k ls = unnest k []"
  unfolding bal_def by (metis append_Nil2)

lemma bal_Cons: "t \<noteq> LPAREN \<Longrightarrow> t \<noteq> RPAREN \<Longrightarrow> bal ls \<Longrightarrow> bal ((t, x) # ls)"
  by (auto simp: bal_def unnest_other)

lemma bal_paren: "bal ls \<Longrightarrow> bal ((LPAREN, x) # ls @ [(RPAREN, y)])"
  by (auto simp: bal_def)

text \<open>
  The result of a parser function in state \<open>s\<close>: it has read some lexemes \<open>ls\<close> and \<open>Q\<close> holds, or it found a parenthesis that is
  not closed.
\<close>

definition parses :: "parser \<Rightarrow> parser parsed \<Rightarrow> (parser \<Rightarrow> lexeme list \<Rightarrow> bool) \<Rightarrow> bool" where
  "parses s out Q =
     (case out of
        Parsed s' \<Rightarrow> \<exists>ls. lexemes s = ls @ lexemes s' \<and> bal ls \<and> Q s' ls
      | Dfaerror e \<Rightarrow> e = ''unbalanced ('' \<and> (\<forall>k. unnest k (lexemes s) = None)
      | Stuck \<Rightarrow> False)"

lemma parses_Parsed: "lexemes s = ls @ lexemes s' \<Longrightarrow> bal ls \<Longrightarrow> Q s' ls \<Longrightarrow> parses s (Parsed s') Q"
  by (auto simp: parses_def)

lemma parses_then:
  assumes "parses s out Q"
    and "\<And>s' ls. lexemes s = ls @ lexemes s' \<Longrightarrow> Q s' ls \<Longrightarrow> parses s' (g s') (\<lambda>s'' ls'. R s'' (ls @ ls'))"
  shows "parses s (and_then out g) R"
proof (cases out)
  case (Parsed s')
  then obtain ls where ls: "lexemes s = ls @ lexemes s'" "bal ls" "Q s' ls" using assms(1) by (auto simp: parses_def)
  have "parses s' (g s') (\<lambda>s'' ls'. R s'' (ls @ ls'))" using assms(2) ls by blast
  then show ?thesis using Parsed ls by (auto simp: parses_def bal_def split: parsed.splits)
qed (use assms(1) in \<open>auto simp: parses_def\<close>)

lemma parses_step:
  assumes "lexemes s = (t, x) # ls0" "t \<noteq> LPAREN" "t \<noteq> RPAREN" "lexemes s1 = ls0" "parses s1 out (\<lambda>s' ls. Q s' ((t, x) # ls))"
  shows "parses s out Q"
proof (cases out)
  case (Parsed s')
  then obtain ls where "lexemes s1 = ls @ lexemes s'" "bal ls" "Q s' ((t, x) # ls)" using assms(5) by (auto simp: parses_def)
  then show ?thesis using Parsed assms(1-4) bal_Cons[of t ls x] by (auto simp: parses_def)
qed (use assms in \<open>auto simp: parses_def unnest_other\<close>)

lemma parses_addtok [simp]: "parses (addtok t s) out Q = parses s out Q"
  by (simp add: parses_def cong: parsed.case_cong)

lemma parses_mono: "parses s out Q \<Longrightarrow> (\<And>s' ls. lexemes s = ls @ lexemes s' \<Longrightarrow> Q s' ls \<Longrightarrow> R s' ls) \<Longrightarrow> parses s out R"
  by (auto simp: parses_def split: parsed.splits)

lemma lexed_simps [simp]:
  "lexed []" "lexed ((t, m, n) # ls) \<longleftrightarrow> (starts t \<or> is_op t \<and> (t = REPMN \<longrightarrow> n < 0 \<or> int m \<le> n) \<or> t = OR' \<or> t = RPAREN) \<and> lexed ls"
  "lexed (ls @ ls') \<longleftrightarrow> lexed ls \<and> lexed ls'"
  by (auto simp: lexed_def)

definition stop :: "token \<Rightarrow> bool" where "stop t \<longleftrightarrow> t = RPAREN \<or> t = OR' \<or> is_end t"

text \<open>The results of the seven functions.\<close>

definition atom_ok :: "nat \<Rightarrow> bool" where
  "atom_ok f \<longleftrightarrow> (\<forall>s. lexed (lexemes s) \<and> 4 * length (lexemes s) + 1 \<le> f \<longrightarrow>
     parses s (atom f s) (\<lambda>s' ls. \<exists>r. grows s s' r \<and>
       (if starts (tok s) then ls \<noteq> [] \<and> g_atom ls (lang r) else ls = [] \<and> lang r = {[]})))"

definition closure_ok :: "nat \<Rightarrow> bool" where
  "closure_ok f \<longleftrightarrow> (\<forall>s. lexed (lexemes s) \<and> 4 * length (lexemes s) + 2 \<le> f \<longrightarrow>
     parses s (closure f s) (\<lambda>s' ls. \<exists>r. grows s s' r \<and> \<not> is_op (tok s') \<and>
       (if starts (tok s) then ls \<noteq> [] \<and> g_branch False ls (lang r)
        else (ls = [] \<longrightarrow> \<not> is_op (tok s)) \<and> (\<forall>e ls0. g_closure e ls0 {[]} \<longrightarrow> g_branch e (ls0 @ ls) (lang r)))))"

definition closure_ops_ok :: "nat \<Rightarrow> bool" where
  "closure_ops_ok f \<longleftrightarrow> (\<forall>s0 r s. lexed (lexemes s) \<and> 4 * length (lexemes s) + 1 \<le> f \<and> grows s0 s r \<longrightarrow>
     parses s (closure_ops f s) (\<lambda>s' ls. \<exists>r'. grows s0 s' r' \<and> \<not> is_op (tok s') \<and> (ls = [] \<longrightarrow> \<not> is_op (tok s)) \<and>
       (\<forall>e ls0. g_closure e ls0 (lang r) \<longrightarrow> g_branch e (ls0 @ ls) (lang r'))))"

definition branch_ok :: "nat \<Rightarrow> bool" where
  "branch_ok f \<longleftrightarrow> (\<forall>s. lexed (lexemes s) \<and> 4 * length (lexemes s) + 3 \<le> f \<longrightarrow>
     parses s (branch f s) (\<lambda>s' ls. \<exists>r. grows s s' r \<and> stop (tok s') \<and> g_branch True ls (lang r)))"

definition branch_more_ok :: "nat \<Rightarrow> bool" where
  "branch_more_ok f \<longleftrightarrow> (\<forall>s0 r s. lexed (lexemes s) \<and> (if stop (tok s) then 1 else 4 * length (lexemes s) + 3) \<le> f \<and> grows s0 s r \<and>
       \<not> is_op (tok s) \<longrightarrow>
     parses s (branch_more f s) (\<lambda>s' ls. \<exists>r'. grows s0 s' r' \<and> stop (tok s') \<and>
       (\<forall>ls0. g_branch True ls0 (lang r) \<longrightarrow> g_branch True (ls0 @ ls) (lang r'))))"

definition regexp_ok :: "nat \<Rightarrow> bool" where
  "regexp_ok f \<longleftrightarrow> (\<forall>s. lexed (lexemes s) \<and> 4 * length (lexemes s) + 4 \<le> f \<longrightarrow>
     parses s (regexp f s) (\<lambda>s' ls. \<exists>r. grows s s' r \<and> (tok s' = RPAREN \<or> is_end (tok s')) \<and> g_regexp ls (lang r)))"

definition regexp_more_ok :: "nat \<Rightarrow> bool" where
  "regexp_more_ok f \<longleftrightarrow> (\<forall>s0 r s. lexed (lexemes s) \<and> 4 * length (lexemes s) + 1 \<le> f \<and> grows s0 s r \<and> stop (tok s) \<longrightarrow>
     parses s (regexp_more f s) (\<lambda>s' ls. \<exists>r'. grows s0 s' r' \<and> (tok s' = RPAREN \<or> is_end (tok s')) \<and>
       (\<forall>ls0. g_regexp ls0 (lang r) \<longrightarrow> g_regexp (ls0 @ ls) (lang r'))))"

lemmas parser_oks = atom_ok_def closure_ok_def closure_ops_ok_def branch_ok_def branch_more_ok_def regexp_ok_def regexp_more_ok_def

lemmas gr = g_atom_g_closure_g_branch_g_regexp.intros

text \<open>The lookahead is the first lexeme.\<close>

lemma tok_cases:
  assumes "lexed (lexemes s)"
  obtains (eof) "lexemes s = []" "is_end (tok s)"
  | (lexeme) m n ls where "lexemes s = (tok s, m, n) # ls" "minrep s = m" "maxrep s = n" "lexemes (next_tok s) = ls" "lexed ls"
      "starts (tok s) \<or> is_op (tok s) \<and> (tok s = REPMN \<longrightarrow> n < 0 \<or> int m \<le> n) \<or> tok s = OR' \<or> tok s = RPAREN" "\<not> is_end (tok s)"
proof (cases "lexemes s")
  case Nil
  then show ?thesis using eof by (simp add: tok_def is_end_def)
next
  case (Cons l ls)
  obtain t m n where l: "l = (t, m, n)" by (cases l)
  have "tok s = t" "minrep s = m" "maxrep s = n" using Cons l by (auto simp: tok_def minrep_def maxrep_def)
  moreover have "\<not> is_end t" using assms Cons l by (auto simp: starts_def is_op_def is_end_def is_leaf_def split: token.splits)
  ultimately show ?thesis using assms Cons l by (intro lexeme[of m n ls]) auto
qed

lemma atom_step: "regexp_ok f \<Longrightarrow> atom_ok (Suc f)"
  unfolding atom_ok_def
proof (intro allI impI)
  fix s :: parser assume r: "regexp_ok f" and l: "lexed (lexemes s) \<and> 4 * length (lexemes s) + 1 \<le> Suc f"
  show "parses s (atom (Suc f) s) (\<lambda>s' ls. \<exists>r. grows s s' r \<and>
       (if starts (tok s) then ls \<noteq> [] \<and> g_atom ls (lang r) else ls = [] \<and> lang r = {[]}))"
  proof (cases "starts (tok s)")
    case False
    then have e: "atom (Suc f) s = Parsed (addtok EMPTY s)" by (simp add: starts_def)
    show ?thesis unfolding e by (rule parses_Parsed[of _ "[]"]) (use False grows_empty in \<open>auto intro!: exI[of _ Empty]\<close>)
  next
    case True
    then have "\<not> is_end (tok s)" by (auto simp: starts_def is_leaf_def is_end_def split: token.splits)
    then obtain m n ls where t: "lexemes s = (tok s, m, n) # ls" "lexemes (next_tok s) = ls" "lexed ls"
      using tok_cases[of s] l by metis
    show ?thesis
    proof (cases "is_leaf (tok s)")
      case leaf: True
      then have e: "atom (Suc f) s = Parsed (next_tok (addtok (tok s) s))" by simp
      have nt: "tok s \<noteq> LPAREN" "tok s \<noteq> RPAREN" using leaf by (auto simp: is_leaf_def)
      show ?thesis unfolding e
      proof (rule parses_Parsed[of _ "[(tok s, m, n)]"])
        show "bal [(tok s, m, n)]" using nt by (simp add: bal_Cons)
      qed (use t leaf True grows_leaf in \<open>auto intro!: exI[of _ "Leaf (tok s)"] gr(1)\<close>)
    next
      case False
      then have lp: "tok s = LPAREN" using True by (simp add: starts_def)
      let ?g = "\<lambda>s. if tok s \<noteq> RPAREN then Dfaerror ''unbalanced ('' else Parsed (next_tok s)"
      have e: "atom (Suc f) s = and_then (regexp f (next_tok s)) ?g" using False lp by simp
      from r l t have p: "parses (next_tok s) (regexp f (next_tok s)) (\<lambda>s' ls. \<exists>r. grows (next_tok s) s' r \<and> (tok s' = RPAREN \<or> is_end (tok s')) \<and> g_regexp ls (lang r))"
        by (auto simp: regexp_ok_def)
      show ?thesis
      proof (cases "regexp f (next_tok s)")
        case (Parsed s1)
        then obtain ls1 r1 where s1: "ls = ls1 @ lexemes s1" "bal ls1" "grows (next_tok s) s1 r1" "tok s1 = RPAREN \<or> is_end (tok s1)"
          "g_regexp ls1 (lang r1)" using p t by (auto simp: parses_def)
        have l1: "lexed (lexemes s1)" using t s1 by simp
        show ?thesis
        proof (cases "tok s1 = RPAREN")
          case True
          then obtain m1 n1 ls2 where t1: "lexemes s1 = (RPAREN, m1, n1) # ls2" "lexemes (next_tok s1) = ls2"
            by (cases rule: tok_cases[OF l1]) (auto simp: is_end_def)
          have g: "grows s (next_tok s1) r1" using s1(3) by (simp add: grows_def)
          have "and_then (Parsed s1) ?g = Parsed (next_tok s1)" using True by simp
          moreover have "parses s (Parsed (next_tok s1)) (\<lambda>s' ls. \<exists>r. grows s s' r \<and>
              (if starts (tok s) then ls \<noteq> [] \<and> g_atom ls (lang r) else ls = [] \<and> lang r = {[]}))"
          proof (rule parses_Parsed[of _ "(LPAREN, m, n) # ls1 @ [(RPAREN, m1, n1)]"])
            show "lexemes s = ((LPAREN, m, n) # ls1 @ [(RPAREN, m1, n1)]) @ lexemes (next_tok s1)" using t s1 t1 lp by simp
            show "bal ((LPAREN, m, n) # ls1 @ [(RPAREN, m1, n1)])" using s1(2) by (rule bal_paren)
            show "\<exists>r. grows s (next_tok s1) r \<and> (if starts (tok s) then (LPAREN, m, n) # ls1 @ [(RPAREN, m1, n1)] \<noteq> [] \<and>
              g_atom ((LPAREN, m, n) # ls1 @ [(RPAREN, m1, n1)]) (lang r) else (LPAREN, m, n) # ls1 @ [(RPAREN, m1, n1)] = [] \<and> lang r = {[]})"
              using g s1(5) \<open>starts (tok s)\<close> by (auto intro!: exI[of _ r1] gr(2))
          qed
          ultimately show ?thesis unfolding e Parsed by simp
        next
          case False
          then have "lexemes s1 = []" using s1(4) by (cases rule: tok_cases[OF l1]) auto
          then have "\<forall>k. unnest k (lexemes s) = None" using s1(1) t lp bal_end[OF s1(2)] by simp
          then show ?thesis unfolding e Parsed using False by (simp add: parses_def)
        qed
      next
        case (Dfaerror er)
        then show ?thesis unfolding e using p t lp by (auto simp: parses_def)
      next
        case Stuck
        then show ?thesis using p by (simp add: parses_def)
      qed
    qed
  qed
qed

lemma closure_step: "atom_ok f \<Longrightarrow> closure_ops_ok f \<Longrightarrow> closure_ok (Suc f)"
  unfolding closure_ok_def
proof (intro allI impI)
  fix s :: parser
  assume a: "atom_ok f" "closure_ops_ok f" and l: "lexed (lexemes s) \<and> 4 * length (lexemes s) + 2 \<le> Suc f"
  have p: "parses s (atom f s) (\<lambda>s' ls. \<exists>r. grows s s' r \<and>
       (if starts (tok s) then ls \<noteq> [] \<and> g_atom ls (lang r) else ls = [] \<and> lang r = {[]}))"
    using a(1) l by (simp add: atom_ok_def)
  show "parses s (closure (Suc f) s) (\<lambda>s' ls. \<exists>r. grows s s' r \<and> \<not> is_op (tok s') \<and>
       (if starts (tok s) then ls \<noteq> [] \<and> g_branch False ls (lang r)
        else (ls = [] \<longrightarrow> \<not> is_op (tok s)) \<and> (\<forall>e ls0. g_closure e ls0 {[]} \<longrightarrow> g_branch e (ls0 @ ls) (lang r))))"
    unfolding closure.simps
  proof (rule parses_then[OF p])
    fix s1 ls
    assume ls: "lexemes s = ls @ lexemes s1" "\<exists>r. grows s s1 r \<and>
       (if starts (tok s) then ls \<noteq> [] \<and> g_atom ls (lang r) else ls = [] \<and> lang r = {[]})"
    then obtain r where r: "grows s s1 r" "if starts (tok s) then ls \<noteq> [] \<and> g_atom ls (lang r) else ls = [] \<and> lang r = {[]}" by blast
    have op: "\<not> starts (tok s) \<Longrightarrow> is_op (tok s1) \<longleftrightarrow> is_op (tok s)" using ls(1) r(2) by (simp add: tok_def)
    have q: "parses s1 (closure_ops f s1) (\<lambda>s' ls. \<exists>r'. grows s s' r' \<and> \<not> is_op (tok s') \<and> (ls = [] \<longrightarrow> \<not> is_op (tok s1)) \<and>
       (\<forall>e ls0. g_closure e ls0 (lang r) \<longrightarrow> g_branch e (ls0 @ ls) (lang r')))"
      using a(2) l ls(1) r(1) unfolding closure_ops_ok_def by auto
    show "parses s1 (closure_ops f s1) (\<lambda>s' ls'. \<exists>r. grows s s' r \<and> \<not> is_op (tok s') \<and>
       (if starts (tok s) then ls @ ls' \<noteq> [] \<and> g_branch False (ls @ ls') (lang r)
        else (ls @ ls' = [] \<longrightarrow> \<not> is_op (tok s)) \<and> (\<forall>e ls0. g_closure e ls0 {[]} \<longrightarrow> g_branch e (ls0 @ ls @ ls') (lang r))))"
    proof (rule parses_mono[OF q])
      fix s' ls'
      assume "\<exists>r'. grows s s' r' \<and> \<not> is_op (tok s') \<and> (ls' = [] \<longrightarrow> \<not> is_op (tok s1)) \<and>
       (\<forall>e ls0. g_closure e ls0 (lang r) \<longrightarrow> g_branch e (ls0 @ ls') (lang r'))"
      then obtain r' where r': "grows s s' r'" "\<not> is_op (tok s')" "ls' = [] \<longrightarrow> \<not> is_op (tok s1)"
        "\<forall>e ls0. g_closure e ls0 (lang r) \<longrightarrow> g_branch e (ls0 @ ls') (lang r')" by blast
      show "\<exists>r. grows s s' r \<and> \<not> is_op (tok s') \<and>
       (if starts (tok s) then ls @ ls' \<noteq> [] \<and> g_branch False (ls @ ls') (lang r)
        else (ls @ ls' = [] \<longrightarrow> \<not> is_op (tok s)) \<and> (\<forall>e ls0. g_closure e ls0 {[]} \<longrightarrow> g_branch e (ls0 @ ls @ ls') (lang r)))"
        using r' r(2) op gr(3)[of ls "lang r" False] by (intro exI[of _ r']) (auto split: if_splits)
    qed
  qed
qed

lemma grows_restart:
  assumes "grows s0 s r" "grows (s\<lparr>tokens := tokens s0\<rparr>) s' r'"
  shows "grows s0 s' r'"
  using assms by (auto simp: grows_def)

lemma lrep_0 [simp]: "lrep L 0 0 = {[]}"
  by (auto simp: lrep_def)

lemma closure_ops_Parsed: "f \<noteq> 0 \<Longrightarrow> \<not> is_op (tok s) \<Longrightarrow> closure_ops f s = Parsed s"
  by (cases f) (auto simp: is_op_def)

text \<open>What \<open>closure_ops\<close> returns from \<open>s\<close>, where the tree \<open>r\<close> was added since \<open>s0\<close>.\<close>

definition closed :: "parser \<Rightarrow> rx \<Rightarrow> parser \<Rightarrow> parser \<Rightarrow> lexeme list \<Rightarrow> bool" where
  "closed s0 r s s' ls \<longleftrightarrow> (\<exists>r'. grows s0 s' r' \<and> \<not> is_op (tok s') \<and> (ls = [] \<longrightarrow> \<not> is_op (tok s)) \<and>
     (\<forall>e ls0. g_closure e ls0 (lang r) \<longrightarrow> g_branch e (ls0 @ ls) (lang r')))"

lemma closure_ops_ok_closed:
  "closure_ops_ok f \<longleftrightarrow> (\<forall>s0 r s. lexed (lexemes s) \<and> 4 * length (lexemes s) + 1 \<le> f \<and> grows s0 s r \<longrightarrow>
     parses s (closure_ops f s) (closed s0 r s))"
proof -
  have "closed s0 r s = (\<lambda>s' ls. \<exists>r'. grows s0 s' r' \<and> \<not> is_op (tok s') \<and> (ls = [] \<longrightarrow> \<not> is_op (tok s)) \<and>
     (\<forall>e ls0. g_closure e ls0 (lang r) \<longrightarrow> g_branch e (ls0 @ ls) (lang r')))" for s0 r s
    by (simp add: fun_eq_iff closed_def)
  then show ?thesis by (simp add: closure_ops_ok_def)
qed

text \<open>The loop goes on with the tree of \<open>r1\<close> after an operator.\<close>

lemma closure_more:
  assumes f: "closure_ops_ok f" "4 * length (lexemes s) + 1 \<le> Suc f"
    and s: "lexemes s = (t, m, n) # ls1" "lexemes s1 = ls1" "lexed ls1" "grows s0 s1 r1" "is_op t"
    and g: "\<And>e ls0. g_closure e ls0 (lang r) \<Longrightarrow> g_closure e (ls0 @ [(t, m, n)]) (lang r1)"
  shows "parses s (closure_ops f s1) (closed s0 r s)"
proof (rule parses_step[of s t "(m, n)" ls1 s1])
  have "parses s1 (closure_ops f s1) (closed s0 r1 s1)" using f s by (simp add: closure_ops_ok_closed)
  then show "parses s1 (closure_ops f s1) (\<lambda>s' ls. closed s0 r s s' ((t, m, n) # ls))"
    by (rule parses_mono) (use g in \<open>fastforce simp: closed_def\<close>)
qed (use s in \<open>auto simp: is_op_def\<close>)

lemma closure_op:
  assumes f: "closure_ops_ok f" "4 * length (lexemes s) + 1 \<le> Suc f" and g: "grows s0 s r"
    and s: "lexemes s = (tok s, m, n) # ls1" "lexed ls1" "is_op (tok s)" "tok s \<noteq> REPMN"
  shows "parses s (closure_ops (Suc f) s) (closed s0 r s)"
proof -
  have e: "closure_ops (Suc f) s = closure_ops f (next_tok (addtok (tok s) s))" using s by (auto simp: is_op_def)
  consider "tok s = QMARK" | "tok s = STAR" | "tok s = PLUS" using s(3,4) by (auto simp: is_op_def)
  then have "\<exists>r1. grows s0 (next_tok (addtok (tok s) s)) r1 \<and> (\<forall>e ls0. g_closure e ls0 (lang r) \<longrightarrow> g_closure e (ls0 @ [(tok s, m, n)]) (lang r1))"
  proof cases
    case 1
    then show ?thesis using grows_unary(1)[OF g] gr(5) by (intro exI[of _ "Opt r"]) simp
  next
    case 2
    then show ?thesis using grows_unary(2)[OF g] gr(6) by (intro exI[of _ "Star r"]) simp
  next
    case 3
    then show ?thesis using grows_unary(3)[OF g] gr(7) by (intro exI[of _ "Plus r"]) simp
  qed
  then show ?thesis unfolding e using closure_more[OF f s(1)] s by (metis addtok_simps(2) list.sel(3) next_tok_simps(2))
qed

text \<open>After \<open>{0}\<close> or \<open>{0,0}\<close> the tree is thrown away, and what follows is parsed in its place.\<close>

lemma closure_restart:
  assumes a: "closure_ok f" "f \<noteq> 0" "4 * length ls1 + 2 \<le> f" and g: "grows s0 s r"
    and s: "lexemes s = (REPMN, 0, 0) # ls1" "lexed ls1"
  shows "parses s (and_then (closure f (next_tok (s\<lparr>tokens := tokens s0\<rparr>))) (closure_ops f)) (closed s0 r s)"
proof (rule parses_step[of s REPMN "(0, 0)" ls1 "next_tok (s\<lparr>tokens := tokens s0\<rparr>)"])
  let ?s = "next_tok (s\<lparr>tokens := tokens s0\<rparr>)"
  let ?Q = "\<lambda>s' ls r'. grows ?s s' r' \<and> \<not> is_op (tok s') \<and>
    (if starts (tok ?s) then ls \<noteq> [] \<and> g_branch False ls (lang r')
     else (ls = [] \<longrightarrow> \<not> is_op (tok ?s)) \<and> (\<forall>e ls0. g_closure e ls0 {[]} \<longrightarrow> g_branch e (ls0 @ ls) (lang r')))"
  have p: "parses ?s (closure f ?s) (\<lambda>s' ls. \<exists>r'. ?Q s' ls r')" using a s by (simp add: closure_ok_def)
  show "parses ?s (and_then (closure f ?s) (closure_ops f)) (\<lambda>s' ls. closed s0 r s s' ((REPMN, 0, 0) # ls))"
  proof (rule parses_then[OF p])
    fix s' ls
    assume "\<exists>r'. ?Q s' ls r'"
    then obtain r' where r': "grows ?s s' r'" "\<not> is_op (tok s')"
      "if starts (tok ?s) then ls \<noteq> [] \<and> g_branch False ls (lang r')
       else (ls = [] \<longrightarrow> \<not> is_op (tok ?s)) \<and> (\<forall>e ls0. g_closure e ls0 {[]} \<longrightarrow> g_branch e (ls0 @ ls) (lang r'))" by blast
    have gs: "grows s0 s' r'" using grows_restart[OF g, of s' r'] r'(1) by (simp add: grows_def)
    have "g_branch e (ls0 @ (REPMN, 0, 0) # ls) (lang r')" if "g_closure e ls0 (lang r)" for e ls0
    proof -
      have c: "g_closure e (ls0 @ [(REPMN, 0, 0)]) {[]}" using gr(8)[OF that, of 0 0] by simp
      have "g_branch e ((ls0 @ [(REPMN, 0, 0)]) @ ls) (lang r')"
      proof (cases "starts (tok ?s)")
        case True
        then have "g_branch False ls (lang r')" using r'(3) by simp
        from g_branch_append(3)[OF this _ gr(9)[OF c]] show ?thesis by simp
      qed (use r'(3) c in \<open>simp only: if_False\<close>)
      then show ?thesis by simp
    qed
    then show "parses s' (closure_ops f s') (\<lambda>s'' ls'. closed s0 r s s'' ((REPMN, 0, 0) # ls @ ls'))"
      using gs r'(2) closure_ops_Parsed[OF a(2) r'(2)] by (auto simp: closed_def intro!: parses_Parsed[of _ "[]"] exI[of _ r'])
  qed
qed (use s in auto)

lemma closure_ops_step: "closure_ok f \<Longrightarrow> closure_ops_ok f \<Longrightarrow> closure_ops_ok (Suc f)"
  unfolding closure_ops_ok_closed [of "Suc f"]
proof (intro allI impI)
  fix s0 s :: parser and r
  assume a: "closure_ok f" "closure_ops_ok f" and l: "lexed (lexemes s) \<and> 4 * length (lexemes s) + 1 \<le> Suc f \<and> grows s0 s r"
  then have lx: "lexed (lexemes s)" and lf: "4 * length (lexemes s) + 1 \<le> Suc f" and g: "grows s0 s r" by auto
  show "parses s (closure_ops (Suc f) s) (closed s0 r s)"
  proof (cases "is_op (tok s)")
    case False
    then show ?thesis using g
      by (auto simp: closure_ops_Parsed closed_def simp del: closure_ops.simps intro!: parses_Parsed[of _ "[]"] exI[of _ r] gr(9))
  next
    case True
    then have ne: "\<not> is_end (tok s)" by (auto simp: is_op_def is_end_def)
    obtain m n ls1 where t: "lexemes s = (tok s, m, n) # ls1" "minrep s = m" "maxrep s = n" "lexemes (next_tok s) = ls1" "lexed ls1"
      "tok s = REPMN \<longrightarrow> n < 0 \<or> int m \<le> n"
      by (cases rule: tok_cases[OF lx]) (use ne True in \<open>auto simp: starts_def is_op_def is_leaf_def\<close>)
    show ?thesis
    proof (cases "tok s = REPMN")
      case False
      then show ?thesis using closure_op[OF a(2) lf g t(1,5) True] by blast
    next
      case R: True
      have ts: "tokens s = tokens s0 @ post r" "leaves_ok r" using g by (auto simp: grows_def)
      have ns: "nsubtoks (tokens s) (length (tokens s)) = Some (length (post r))" using nsubtoks_top[OF ts(2)] ts(1) by simp
      have tl: "length (tokens s) - length (post r) = length (tokens s0)" using ts(1) by simp
      show ?thesis
      proof (cases "m \<noteq> 0 \<or> n \<noteq> 0")
        case mn: True
        then have e: "closure_ops (Suc f) s = closure_ops f (next_tok (repeat_toks (length (tokens s0)) (length (post r)) s))"
          using R ns tl t by (simp add: Let_def)
        obtain r1 where r1: "grows s0 (repeat_toks (length (tokens s0)) (length (post r)) s) r1" "lang r1 = lrep (lang r) m n"
          "lexemes (repeat_toks (length (tokens s0)) (length (post r)) s) = lexemes s"
          using repeat_toks_ok[OF g] t R mn by auto
        show ?thesis unfolding e by (rule closure_more[OF a(2) lf t(1) _ t(5), of _ s0 r1]) (use t True R r1 gr(8) in auto)
      next
        case mn: False
        then have "closure_ops (Suc f) s = and_then (closure f (next_tok (s\<lparr>tokens := tokens s0\<rparr>))) (closure_ops f)"
          using R ns tl t ts(1) by (simp add: Let_def)
        then show ?thesis using closure_restart[OF a(1) _ _ g _ t(5)] lf t(1) R mn by simp
      qed
    qed
  qed
qed

lemma branch_step: "closure_ok f \<Longrightarrow> branch_more_ok f \<Longrightarrow> branch_ok (Suc f)"
  unfolding branch_ok_def
proof (intro allI impI)
  fix s :: parser
  assume a: "closure_ok f" "branch_more_ok f" and l: "lexed (lexemes s) \<and> 4 * length (lexemes s) + 3 \<le> Suc f"
  have p: "parses s (closure f s) (\<lambda>s' ls. \<exists>r. grows s s' r \<and> \<not> is_op (tok s') \<and>
       (if starts (tok s) then ls \<noteq> [] \<and> g_branch False ls (lang r)
        else (ls = [] \<longrightarrow> \<not> is_op (tok s)) \<and> (\<forall>e ls0. g_closure e ls0 {[]} \<longrightarrow> g_branch e (ls0 @ ls) (lang r))))"
    using a(1) l by (simp add: closure_ok_def)
  show "parses s (branch (Suc f) s) (\<lambda>s' ls. \<exists>r. grows s s' r \<and> stop (tok s') \<and> g_branch True ls (lang r))"
    unfolding branch.simps
  proof (rule parses_then[OF p])
    fix s1 ls
    assume ls: "lexemes s = ls @ lexemes s1" and "\<exists>r. grows s s1 r \<and> \<not> is_op (tok s1) \<and>
       (if starts (tok s) then ls \<noteq> [] \<and> g_branch False ls (lang r)
        else (ls = [] \<longrightarrow> \<not> is_op (tok s)) \<and> (\<forall>e ls0. g_closure e ls0 {[]} \<longrightarrow> g_branch e (ls0 @ ls) (lang r)))"
    then obtain r where r: "grows s s1 r" "\<not> is_op (tok s1)" "if starts (tok s) then ls \<noteq> [] \<and> g_branch False ls (lang r)
        else (ls = [] \<longrightarrow> \<not> is_op (tok s)) \<and> (\<forall>e ls0. g_closure e ls0 {[]} \<longrightarrow> g_branch e (ls0 @ ls) (lang r))" by blast
    have b: "g_branch True ls (lang r)"
    proof (cases "starts (tok s)")
      case True
      then have "g_branch True ([] @ ls) (lconc {[]} (lang r))"
        by (intro g_branch_append(3)[OF _ _ gr(9)[OF gr(4)], of False]) (use r(3) in auto)
      then show ?thesis by simp
    next
      case False
      then have "\<forall>e ls0. g_closure e ls0 {[]} \<longrightarrow> g_branch e (ls0 @ ls) (lang r)" using r(3) by simp
      from this[rule_format, OF gr(4)] show ?thesis by simp
    qed
    have lx: "lexed (lexemes s)" using l by simp
    have "ls \<noteq> []" if "\<not> stop (tok s1)"
    proof
      assume e: "ls = []"
      then have t: "tok s1 = tok s" using ls by (simp add: tok_def)
      show False
        by (cases rule: tok_cases[OF lx]) (use e t r that in \<open>auto simp: stop_def is_op_def starts_def split: if_splits\<close>)
    qed
    then have fuel: "(if stop (tok s1) then 1 else 4 * length (lexemes s1) + 3) \<le> f"
      using l ls by (cases ls) auto
    have q: "parses s1 (branch_more f s1) (\<lambda>s' ls. \<exists>r'. grows s s' r' \<and> stop (tok s') \<and>
       (\<forall>ls0. g_branch True ls0 (lang r) \<longrightarrow> g_branch True (ls0 @ ls) (lang r')))"
      using a(2) fuel lx ls r(1,2) unfolding branch_more_ok_def by simp
    show "parses s1 (branch_more f s1) (\<lambda>s'' ls'. \<exists>r. grows s s'' r \<and> stop (tok s'') \<and> g_branch True (ls @ ls') (lang r))"
      by (rule parses_mono[OF q]) (use b in blast)
  qed
qed

lemma branch_more_step: "closure_ok f \<Longrightarrow> branch_more_ok f \<Longrightarrow> branch_more_ok (Suc f)"
  unfolding branch_more_ok_def[of "Suc f"]
proof (intro allI impI)
  fix s0 s :: parser and r
  assume a: "closure_ok f" "branch_more_ok f" and l: "lexed (lexemes s) \<and> (if stop (tok s) then 1 else 4 * length (lexemes s) + 3) \<le> Suc f \<and>
    grows s0 s r \<and> \<not> is_op (tok s)"
  show "parses s (branch_more (Suc f) s) (\<lambda>s' ls. \<exists>r'. grows s0 s' r' \<and> stop (tok s') \<and>
       (\<forall>ls0. g_branch True ls0 (lang r) \<longrightarrow> g_branch True (ls0 @ ls) (lang r')))"
  proof (cases "stop (tok s)")
    case True
    then have "branch_more (Suc f) s = Parsed s" by (auto simp: stop_def)
    then show ?thesis using True l by (auto intro!: parses_Parsed[of _ "[]"])
  next
    case False
    then have e: "branch_more (Suc f) s = and_then (closure f s) (\<lambda>s. branch_more f (addtok CAT s))" by (auto simp: stop_def)
    have lx: "lexed (lexemes s)" using l by simp
    have st: "starts (tok s)" by (cases rule: tok_cases[OF lx]) (use False l in \<open>auto simp: stop_def\<close>)
    have p: "parses s (closure f s) (\<lambda>s' ls. \<exists>r. grows s s' r \<and> \<not> is_op (tok s') \<and> ls \<noteq> [] \<and> g_branch False ls (lang r))"
      using a(1)[unfolded closure_ok_def, rule_format, of s] l False st by (simp only: if_True if_False) simp
    show ?thesis unfolding e
    proof (rule parses_then[OF p])
      fix s1 ls
      assume ls: "lexemes s = ls @ lexemes s1" "\<exists>r. grows s s1 r \<and> \<not> is_op (tok s1) \<and> ls \<noteq> [] \<and> g_branch False ls (lang r)"
      then obtain r1 where r1: "grows s s1 r1" "\<not> is_op (tok s1)" "ls \<noteq> []" "g_branch False ls (lang r1)" by blast
      have g: "grows s0 (addtok CAT s1) (Conc r r1)" using grows_binary(1) l r1(1) by blast
      have "parses (addtok CAT s1) (branch_more f (addtok CAT s1)) (\<lambda>s' ls. \<exists>r'. grows s0 s' r' \<and> stop (tok s') \<and>
         (\<forall>ls0. g_branch True ls0 (lang (Conc r r1)) \<longrightarrow> g_branch True (ls0 @ ls) (lang r')))"
      proof (rule a(2)[unfolded branch_more_ok_def, rule_format], intro conjI)
        show "lexed (lexemes (addtok CAT s1))" "\<not> is_op (tok (addtok CAT s1))" using l ls(1) r1(2) by simp_all
        show "(if stop (tok (addtok CAT s1)) then 1 else 4 * length (lexemes (addtok CAT s1)) + 3) \<le> f"
          using l ls(1) r1(3) False by (cases ls) auto
      qed (rule g)
      then have q: "parses s1 (branch_more f (addtok CAT s1)) (\<lambda>s' ls. \<exists>r'. grows s0 s' r' \<and> stop (tok s') \<and>
         (\<forall>ls0. g_branch True ls0 (lang (Conc r r1)) \<longrightarrow> g_branch True (ls0 @ ls) (lang r')))"
        by (simp only: parses_addtok)
      have b: "g_branch True (ls0 @ ls) (lang (Conc r r1))" if "g_branch True ls0 (lang r)" for ls0
        using g_branch_append(3)[OF r1(4) _ that] by simp
      show "parses s1 (branch_more f (addtok CAT s1)) (\<lambda>s'' ls'. \<exists>r'. grows s0 s'' r' \<and> stop (tok s'') \<and>
         (\<forall>ls0. g_branch True ls0 (lang r) \<longrightarrow> g_branch True (ls0 @ ls @ ls') (lang r')))"
        by (rule parses_mono[OF q]) (use b in \<open>metis append.assoc\<close>)
    qed
  qed
qed

lemma regexp_step: "branch_ok f \<Longrightarrow> regexp_more_ok f \<Longrightarrow> regexp_ok (Suc f)"
  unfolding regexp_ok_def
proof (intro allI impI)
  fix s :: parser
  assume a: "branch_ok f" "regexp_more_ok f" and l: "lexed (lexemes s) \<and> 4 * length (lexemes s) + 4 \<le> Suc f"
  have p: "parses s (branch f s) (\<lambda>s' ls. \<exists>r. grows s s' r \<and> stop (tok s') \<and> g_branch True ls (lang r))"
    using a(1) l by (simp add: branch_ok_def)
  show "parses s (regexp (Suc f) s) (\<lambda>s' ls. \<exists>r. grows s s' r \<and> (tok s' = RPAREN \<or> is_end (tok s')) \<and> g_regexp ls (lang r))"
    unfolding regexp.simps
  proof (rule parses_then[OF p])
    fix s1 ls
    assume ls: "lexemes s = ls @ lexemes s1" "\<exists>r. grows s s1 r \<and> stop (tok s1) \<and> g_branch True ls (lang r)"
    then obtain r where r: "grows s s1 r" "stop (tok s1)" "g_branch True ls (lang r)" by blast
    have q: "parses s1 (regexp_more f s1) (\<lambda>s' ls. \<exists>r'. grows s s' r' \<and> (tok s' = RPAREN \<or> is_end (tok s')) \<and>
       (\<forall>ls0. g_regexp ls0 (lang r) \<longrightarrow> g_regexp (ls0 @ ls) (lang r')))"
      using a(2) l ls(1) r(1,2) unfolding regexp_more_ok_def by auto
    show "parses s1 (regexp_more f s1) (\<lambda>s'' ls'. \<exists>r. grows s s'' r \<and> (tok s'' = RPAREN \<or> is_end (tok s'')) \<and> g_regexp (ls @ ls') (lang r))"
      by (rule parses_mono[OF q]) (use gr(11)[OF r(3)] in blast)
  qed
qed

lemma regexp_more_step: "branch_ok f \<Longrightarrow> regexp_more_ok f \<Longrightarrow> regexp_more_ok (Suc f)"
  unfolding regexp_more_ok_def[of "Suc f"]
proof (intro allI impI)
  fix s0 s :: parser and r
  assume a: "branch_ok f" "regexp_more_ok f" and l: "lexed (lexemes s) \<and> 4 * length (lexemes s) + 1 \<le> Suc f \<and> grows s0 s r \<and> stop (tok s)"
  show "parses s (regexp_more (Suc f) s) (\<lambda>s' ls. \<exists>r'. grows s0 s' r' \<and> (tok s' = RPAREN \<or> is_end (tok s')) \<and>
       (\<forall>ls0. g_regexp ls0 (lang r) \<longrightarrow> g_regexp (ls0 @ ls) (lang r')))"
  proof (cases "tok s = OR'")
    case False
    then show ?thesis using l by (auto simp: stop_def intro!: parses_Parsed[of _ "[]"])
  next
    case True
    have lx: "lexed (lexemes s)" using l by simp
    obtain m n ls1 where t: "lexemes s = (OR', m, n) # ls1" "lexemes (next_tok s) = ls1" "lexed ls1"
      by (cases rule: tok_cases[OF lx]) (use True in \<open>auto simp: is_end_def\<close>)
    have e: "regexp_more (Suc f) s = and_then (branch f (next_tok s)) (\<lambda>s. regexp_more f (addtok OR' s))" using True by simp
    have p: "parses (next_tok s) (branch f (next_tok s)) (\<lambda>s' ls. \<exists>r. grows (next_tok s) s' r \<and> stop (tok s') \<and> g_branch True ls (lang r))"
      using a(1) l t by (auto simp: branch_ok_def)
    show ?thesis unfolding e
    proof (rule parses_step[of s "OR'" "(m, n)" ls1 "next_tok s"])
      show "parses (next_tok s) (and_then (branch f (next_tok s)) (\<lambda>s. regexp_more f (addtok OR' s)))
        (\<lambda>s' ls. \<exists>r'. grows s0 s' r' \<and> (tok s' = RPAREN \<or> is_end (tok s')) \<and>
          (\<forall>ls0. g_regexp ls0 (lang r) \<longrightarrow> g_regexp (ls0 @ (OR', m, n) # ls) (lang r')))"
      proof (rule parses_then[OF p])
        fix s1 ls
        assume ls: "lexemes (next_tok s) = ls @ lexemes s1" "\<exists>r. grows (next_tok s) s1 r \<and> stop (tok s1) \<and> g_branch True ls (lang r)"
        then obtain r1 where r1: "grows (next_tok s) s1 r1" "stop (tok s1)" "g_branch True ls (lang r1)" by blast
        have "grows s s1 r1" using r1(1) by (simp add: grows_def)
        then have g: "grows s0 (addtok OR' s1) (Alt r r1)" using grows_binary(2) l by blast
        have "parses (addtok OR' s1) (regexp_more f (addtok OR' s1)) (\<lambda>s' ls. \<exists>r'. grows s0 s' r' \<and> (tok s' = RPAREN \<or> is_end (tok s')) \<and>
           (\<forall>ls0. g_regexp ls0 (lang (Alt r r1)) \<longrightarrow> g_regexp (ls0 @ ls) (lang r')))"
          by (rule a(2)[unfolded regexp_more_ok_def, rule_format]) (use l t ls(1) r1(2) g in auto)
        then have q: "parses s1 (regexp_more f (addtok OR' s1)) (\<lambda>s' ls. \<exists>r'. grows s0 s' r' \<and> (tok s' = RPAREN \<or> is_end (tok s')) \<and>
           (\<forall>ls0. g_regexp ls0 (lang (Alt r r1)) \<longrightarrow> g_regexp (ls0 @ ls) (lang r')))"
          by (simp only: parses_addtok)
        have b: "g_regexp (ls0 @ [(OR', m, n)] @ ls) (lang (Alt r r1))" if "g_regexp ls0 (lang r)" for ls0
          using gr(12)[OF that r1(3)] by simp
        show "parses s1 (regexp_more f (addtok OR' s1)) (\<lambda>s'' ls'. \<exists>r'. grows s0 s'' r' \<and> (tok s'' = RPAREN \<or> is_end (tok s'')) \<and>
           (\<forall>ls0. g_regexp ls0 (lang r) \<longrightarrow> g_regexp (ls0 @ (OR', m, n) # ls @ ls') (lang r')))"
        proof (rule parses_mono[OF q])
          fix s' ls'
          assume "\<exists>r'. grows s0 s' r' \<and> (tok s' = RPAREN \<or> is_end (tok s')) \<and> (\<forall>ls0. g_regexp ls0 (lang (Alt r r1)) \<longrightarrow> g_regexp (ls0 @ ls') (lang r'))"
          then obtain r' where r': "grows s0 s' r'" "tok s' = RPAREN \<or> is_end (tok s')"
            "\<forall>ls0. g_regexp ls0 (lang (Alt r r1)) \<longrightarrow> g_regexp (ls0 @ ls') (lang r')" by blast
          show "\<exists>r'. grows s0 s' r' \<and> (tok s' = RPAREN \<or> is_end (tok s')) \<and>
            (\<forall>ls0. g_regexp ls0 (lang r) \<longrightarrow> g_regexp (ls0 @ (OR', m, n) # ls @ ls') (lang r'))"
            using r'(1,2) r'(3)[rule_format, OF b] by (intro exI[of _ r']) auto
        qed
      qed
    qed (use t in auto)
  qed
qed

lemma parser_ok:
  "atom_ok f \<and> closure_ok f \<and> closure_ops_ok f \<and> branch_ok f \<and> branch_more_ok f \<and> regexp_ok f \<and> regexp_more_ok f"
proof (induction f)
  case 0
  show ?case by (auto simp: parser_oks)
next
  case (Suc f)
  then show ?case
    using atom_step closure_step closure_ops_step branch_step branch_more_step regexp_step regexp_more_step by blast
qed

section \<open>The whole parser\<close>

definition end_tree :: "nat \<Rightarrow> rx \<Rightarrow> rx" where "end_tree n r = Conc r (Leaf (TEND n))"

text \<open>C9: The parser of one expression never gets stuck.  If the parentheses match it follows the grammar, and the tree is that of the
  expression followed by its end token; the maximal depth and the number of leaves bound those of the tree.
\<close>

lemma dfaparse_ok:
  assumes "lexed ls"
  shows "case dfaparse ls dfainit of
      Parsed d \<Rightarrow> balanced ls \<and> nregexps d = 1 \<and>
        (\<exists>r. leaves_ok r \<and> g_regexp ls (lang r) \<and> tokens d = post (end_tree 0 r) \<and> height (end_tree 0 r) \<le> max_depth d \<and>
           leaves (end_tree 0 r) \<le> nleaves d)
    | Dfaerror e \<Rightarrow> \<not> balanced ls
    | Stuck \<Rightarrow> False"
proof -
  define s where "s = parse_tree.extend dfainit \<lparr>lexemes = ls, depth = max_depth dfainit\<rparr>"
  have s: "lexemes s = ls" "tokens s = []" "depth s = 0" "max_depth s = 0" "nleaves s = 0" "nregexps s = 0"
    by (simp_all add: s_def parse_tree.extend_def dfainit_def)
  have p: "parses s (regexp (parse_fuel s) s) (\<lambda>s' ls. \<exists>r. grows s s' r \<and> (tok s' = RPAREN \<or> is_end (tok s')) \<and> g_regexp ls (lang r))"
    using parser_ok[of "parse_fuel s"] assms s unfolding regexp_ok_def parse_fuel_def by simp
  show ?thesis
  proof (cases "regexp (parse_fuel s) s")
    case (Parsed s1)
    then obtain ls1 r where r: "ls = ls1 @ lexemes s1" "bal ls1" "grows s s1 r" "tok s1 = RPAREN \<or> is_end (tok s1)" "g_regexp ls1 (lang r)"
      using p s by (auto simp: parses_def)
    have lx: "lexed (lexemes s1)" using assms r(1) by simp
    show ?thesis
    proof (cases "tok s1 = TEND 0")
      case False
      obtain x rest where x: "lexemes s1 = (RPAREN, x) # rest"
      proof (rule tok_cases[OF lx])
        assume "lexemes s1 = []"
        then show thesis using False by (simp add: tok_def)
      next
        fix m n rest assume "lexemes s1 = (tok s1, m, n) # rest" "\<not> is_end (tok s1)"
        then show thesis using r(4) that by auto
      qed
      have "unnest 0 (ls1 @ lexemes s1) = unnest 0 (lexemes s1)" using r(2) unfolding bal_def by blast
      then have "\<not> balanced ls" unfolding balanced_def r(1) x by simp
      then show ?thesis using False Parsed by (simp add: dfaparse_def s_def Let_def)
    next
      case True
      have n1: "lexemes s1 = []" by (cases rule: tok_cases[OF lx]) (use True in \<open>auto simp: is_end_def\<close>)
      then have "balanced ls" using r(1,2) bal_end[OF r(2)] by (simp add: balanced_def)
      define s2 where "s2 = addtok CAT (addtok (TEND 0) s1)"
      have g: "grows s s2 (end_tree 0 r)" unfolding end_tree_def s2_def
        using grows_binary(1)[OF r(3) grows_leaf[of "TEND 0" s1]] by (simp add: is_end_def)
      have "nregexps s1 = 0" using r(3) s by (simp add: grows_def)
      then have "dfaparse ls dfainit = Parsed (parse_tree.truncate (s2\<lparr>nregexps := 1\<rparr>))"
        using Parsed True by (simp add: dfaparse_def s_def[symmetric] Let_def s2_def)
      moreover have "leaves_ok r" "g_regexp ls (lang r)" using r n1 by (auto simp: grows_def)
      moreover have "tokens s2 = post (end_tree 0 r)" "height (end_tree 0 r) \<le> max_depth s2" "leaves (end_tree 0 r) \<le> nleaves s2"
        using g s by (simp_all add: grows_def)
      ultimately show ?thesis using \<open>balanced ls\<close>
        by (simp only: parsed.case) (auto simp: parse_tree.truncate_def simp del: post.simps height.simps leaves.simps)
    qed
  next
    case (Dfaerror e)
    then have "\<not> balanced ls" using p s by (auto simp: parses_def balanced_def)
    then show ?thesis using Dfaerror by (simp add: dfaparse_def s_def Let_def)
  next
    case Stuck
    then show ?thesis using p by (simp add: parses_def)
  qed
qed

lemma dfaparse_ok_witness:
  "case dfaparse [(BYTE 97, 0, 0), (REPMN, 2, 3), (OR', 0, 0), (LPAREN, 0, 0), (ENDLINE, 0, 0), (RPAREN, 0, 0)] dfainit of
      Parsed d \<Rightarrow> balanced [(BYTE 97, 0, 0), (REPMN, 2, 3), (OR', 0, 0), (LPAREN, 0, 0), (ENDLINE, 0, 0), (RPAREN, 0, 0)] \<and> nregexps d = 1 \<and>
        (\<exists>r. leaves_ok r \<and> g_regexp [(BYTE 97, 0, 0), (REPMN, 2, 3), (OR', 0, 0), (LPAREN, 0, 0), (ENDLINE, 0, 0), (RPAREN, 0, 0)] (lang r) \<and>
           tokens d = post (end_tree 0 r) \<and> height (end_tree 0 r) \<le> max_depth d \<and> leaves (end_tree 0 r) \<le> nleaves d)
    | Dfaerror e \<Rightarrow> \<not> balanced [(BYTE 97, 0, 0), (REPMN, 2, 3), (OR', 0, 0), (LPAREN, 0, 0), (ENDLINE, 0, 0), (RPAREN, 0, 0)]
    | Stuck \<Rightarrow> False"
  by (rule dfaparse_ok) code_simp

end
