(* ===== verification/Dfa_Analyze.thy ===== *)
theory Dfa_Analyze
  imports Dfa_Parse
begin

text \<open>
  \<open>dfaanalyze\<close> of \<open>dfa.c\<close>: which positions of the parse tree can come first, last and after each other, the replacement of
  positions that match the empty string in some context (\<open>epsclosure\<close>), and the initial state.  A read or write outside of the
  arrays is \<open>None\<close>.
\<close>

section \<open>Constraints\<close>

definition MATCHES_NEWLINE_CONTEXT :: "u32 \<Rightarrow> bool \<Rightarrow> bool \<Rightarrow> bool" where
  "MATCHES_NEWLINE_CONTEXT c prevn currn \<longleftrightarrow>
     c AND push_bit ((if prevn then 2 else 0) + (if currn then 1 else 0) + 4) 1 \<noteq> 0"

definition MATCHES_LETTER_CONTEXT :: "u32 \<Rightarrow> bool \<Rightarrow> bool \<Rightarrow> bool" where
  "MATCHES_LETTER_CONTEXT c prevl currl \<longleftrightarrow> c AND push_bit ((if prevl then 2 else 0) + (if currl then 1 else 0)) 1 \<noteq> 0"

definition SUCCEEDS_IN_CONTEXT :: "u32 \<Rightarrow> bool \<Rightarrow> bool \<Rightarrow> bool \<Rightarrow> bool \<Rightarrow> bool" where
  "SUCCEEDS_IN_CONTEXT c prevn currn prevl currl \<longleftrightarrow>
     MATCHES_NEWLINE_CONTEXT c prevn currn \<and> MATCHES_LETTER_CONTEXT c prevl currl"

definition PREV_NEWLINE_DEPENDENT :: "u32 \<Rightarrow> bool" where
  "PREV_NEWLINE_DEPENDENT c \<longleftrightarrow> drop_bit 2 (c AND 0xc0) \<noteq> c AND 0x30"

definition PREV_LETTER_DEPENDENT :: "u32 \<Rightarrow> bool" where
  "PREV_LETTER_DEPENDENT c \<longleftrightarrow> drop_bit 2 (c AND 0x0c) \<noteq> c AND 0x03"

definition NO_CONSTRAINT :: u32 where "NO_CONSTRAINT = 0xff"
definition BEGLINE_CONSTRAINT :: u32 where "BEGLINE_CONSTRAINT = 0xcf"
definition ENDLINE_CONSTRAINT :: u32 where "ENDLINE_CONSTRAINT = 0xaf"
definition BEGWORD_CONSTRAINT :: u32 where "BEGWORD_CONSTRAINT = 0xf2"
definition ENDWORD_CONSTRAINT :: u32 where "ENDWORD_CONSTRAINT = 0xf4"
definition LIMWORD_CONSTRAINT :: u32 where "LIMWORD_CONSTRAINT = 0xf6"
definition NOTLIMWORD_CONSTRAINT :: u32 where "NOTLIMWORD_CONSTRAINT = 0xf9"

section \<open>States\<close>

text \<open>\<open>first_end\<close> is \<open>None\<close> for 0.  The array of states that \<open>sindex\<close> counts is a list.\<close>

record dfa_state =
  hash :: u32
  elems :: "position list"
  newline :: bool
  letter :: bool
  backref :: bool
  st_constraint :: u8
  first_end :: "token option"

record dfa = parse_tree +
  charclasses :: "charclass list"
  searchflag :: bool
  states :: "dfa_state list"
  follows :: "position list list"

definition hash_of :: "position list \<Rightarrow> u32" where
  "hash_of s = fold (\<lambda>p h. h XOR (word_of_nat (index p) + constraint p)) s 0"

definition same_state :: "position list \<Rightarrow> u32 \<Rightarrow> bool \<Rightarrow> bool \<Rightarrow> dfa_state \<Rightarrow> bool" where
  "same_state s h nl lt st \<longleftrightarrow> \<not> (h \<noteq> hash st \<or> length s \<noteq> length (elems st) \<or> nl \<noteq> newline st \<or> lt \<noteq> letter st) \<and>
     list_all2 (\<lambda>p q. constraint p = constraint q \<and> index p = index q) s (elems st)"

text \<open>What the positions of a new state make of it.\<close>

definition accept_tok :: "token \<Rightarrow> position \<Rightarrow> dfa_state \<Rightarrow> dfa_state" where
  "accept_tok t p st =
     (case t of
        TEND n \<Rightarrow>
          let c = constraint p; nl = newline st; lt = letter st;
              st = (if SUCCEEDS_IN_CONTEXT c nl False lt False \<or> SUCCEEDS_IN_CONTEXT c nl False lt True
                      \<or> SUCCEEDS_IN_CONTEXT c nl True lt False \<or> SUCCEEDS_IN_CONTEXT c nl True lt True
                    then st\<lparr>st_constraint := st_constraint st OR ucast c\<rparr> else st)
          in if first_end st = None then st\<lparr>first_end := Some t\<rparr> else st
      | BACKREF \<Rightarrow> st\<lparr>st_constraint := ucast NO_CONSTRAINT, backref := True\<rparr>
      | _ \<Rightarrow> st)"

fun set_accepting :: "token list \<Rightarrow> position list \<Rightarrow> dfa_state \<Rightarrow> dfa_state option" where
  "set_accepting toks [] st = Some st"
| "set_accepting toks (p # ps) st = do { t \<leftarrow> rd_at toks (index p); set_accepting toks ps (accept_tok t p st) }"

definition state_index :: "dfa \<Rightarrow> position list \<Rightarrow> bool \<Rightarrow> bool \<Rightarrow> (nat \<times> dfa) option" where
  "state_index d s nl lt =
     (let h = hash_of s in
      case find (\<lambda>i. same_state s h nl lt (states d ! i)) [0..<length (states d)] of
        Some i \<Rightarrow> Some (i, d)
      | None \<Rightarrow>
          do { st \<leftarrow> set_accepting (tokens d) s
                 \<lparr>hash = h, elems = s, newline = nl, letter = lt, backref = False, st_constraint = 0, first_end = None\<rparr>;
               Some (length (states d), d\<lparr>states := states d @ [st]\<rparr>) })"

section \<open>Epsilon closure\<close>

text \<open>The tokens that match the empty string in some context, and all others that are neither a character, a class, \<open>BACKREF\<close> nor
  an end.\<close>

definition epsilon_tok :: "token \<Rightarrow> bool" where
  "epsilon_tok t = (case t of BYTE _ \<Rightarrow> False | TEND _ \<Rightarrow> False | BACKREF \<Rightarrow> False | CSET _ \<Rightarrow> False | _ \<Rightarrow> True)"

definition tok_constraint :: "token \<Rightarrow> u32 \<Rightarrow> u32" where
  "tok_constraint t c =
     (case t of
        BEGLINE \<Rightarrow> c AND BEGLINE_CONSTRAINT
      | ENDLINE \<Rightarrow> c AND ENDLINE_CONSTRAINT
      | BEGWORD \<Rightarrow> c AND BEGWORD_CONSTRAINT
      | ENDWORD \<Rightarrow> c AND ENDWORD_CONSTRAINT
      | LIMWORD \<Rightarrow> c AND LIMWORD_CONSTRAINT
      | NOTLIMWORD \<Rightarrow> c AND NOTLIMWORD_CONSTRAINT
      | _ \<Rightarrow> c)"

fun insert_all :: "nat \<Rightarrow> position list \<Rightarrow> position list \<Rightarrow> position list option" where
  "insert_all room [] s = Some s"
| "insert_all room (p # ps) s = do { s' \<leftarrow> insert_pos room p s; insert_all room ps s' }"

lemma delete_pos_length: "p \<in> set s \<Longrightarrow> length (delete_pos p s) < length s"
  by (induction s) auto

function epsclosure_from :: "dfa \<Rightarrow> nat \<Rightarrow> bool list \<Rightarrow> position list \<Rightarrow> position list option" where
  "epsclosure_from d i visited s =
     (if i < length s
      then do {
        t \<leftarrow> rd_at (tokens d) (index (s ! i));
        if epsilon_tok t
        then do {
          let old = s ! i;
          let s1 = delete_pos old s;
          v \<leftarrow> rd_at visited (index old);
          if v then epsclosure_from d i visited s1
          else do {
            f \<leftarrow> rd_at (follows d) (index old);
            s2 \<leftarrow> insert_all (nleaves d) (map (\<lambda>q. \<lparr>index = index q, constraint = tok_constraint t (constraint old)\<rparr>) f) s1;
            epsclosure_from d 0 (visited[index old := True]) s2 } }
        else epsclosure_from d (i + 1) visited s }
      else Some s)"
  by pat_completeness auto
termination
proof (relation "measures [\<lambda>(d, i, visited, s). length (filter Not visited), \<lambda>(d, i, visited, s). length s - i]", goal_cases)
  case (2 d i visited s t old s1 v)
  then show ?case using delete_pos_length[of old s] by auto
next
  case (3 d i visited s t old s1 v f s2)
  then have "index old < length visited" "\<not> visited ! index old" by (auto simp: arr_simps)
  then have "length (filter Not (visited[index old := True])) < length (filter Not visited)"
  proof (induction visited arbitrary: "old")
    case (Cons b bs)
    show ?case
    proof (cases "index old")
      case (Suc k)
      then show ?thesis using Cons.IH[of "\<lparr>index = k, constraint = 0\<rparr>"] Cons.prems by simp
    qed (use Cons.prems in simp)
  qed simp
  then show ?case by simp
qed auto

declare epsclosure_from.simps [simp del]

definition epsclosure :: "dfa \<Rightarrow> position list \<Rightarrow> position list option" where
  "epsclosure d s = epsclosure_from d 0 (replicate (length (tokens d)) False) s"

section \<open>The analysis\<close>

text \<open>The top of each stack is the head of the list.\<close>

record analysis =
  nullable :: "bool list"
  nfirstpos :: "nat list"
  firstpos :: "position list"
  nlastpos :: "nat list"
  lastpos :: "position list"
  follow_sets :: "position list list"

definition push_node :: "dfa \<Rightarrow> bool \<Rightarrow> nat \<Rightarrow> analysis \<Rightarrow> analysis option" where
  "push_node d b n a =
     (if int (length (nullable a)) < max_depth d
      then Some (a\<lparr>nullable := b # nullable a, nfirstpos := n # nfirstpos a, nlastpos := n # nlastpos a\<rparr>)
      else None)"

definition top_of :: "'a list \<Rightarrow> 'a option" where "top_of xs = (case xs of [] \<Rightarrow> None | x # _ \<Rightarrow> Some x)"

text \<open>Every element of \<open>tmp\<close> is in the follow of every position of \<open>pos\<close>.\<close>

fun add_follows :: "nat \<Rightarrow> position list \<Rightarrow> position list \<Rightarrow> position list list \<Rightarrow> position list list option" where
  "add_follows room tmp [] fs = Some fs"
| "add_follows room tmp (p # pos) fs =
     do { f \<leftarrow> rd_at fs (index p);
          merged \<leftarrow> merge_into room tmp f;
          fs' \<leftarrow> wr_at fs (index p) merged;
          add_follows room tmp pos fs' }"

definition closure_follows :: "dfa \<Rightarrow> analysis \<Rightarrow> analysis option" where
  "closure_follows d a =
     do { nf \<leftarrow> top_of (nfirstpos a);
          nl \<leftarrow> top_of (nlastpos a);
          fs \<leftarrow> add_follows (nleaves d) (take nf (firstpos a)) (take nl (lastpos a)) (follow_sets a);
          Some (a\<lparr>follow_sets := fs\<rparr>) }"

definition set_nullable :: "analysis \<Rightarrow> analysis option" where
  "set_nullable a = (case nullable a of [] \<Rightarrow> None | b # bs \<Rightarrow> Some (a\<lparr>nullable := True # bs\<rparr>))"

definition cat_node :: "dfa \<Rightarrow> analysis \<Rightarrow> analysis option" where
  "cat_node d a =
     (case (nullable a, nfirstpos a, nlastpos a) of
        (n1 # n2 # ns, f1 # f2 # fs, l1 # l2 # ls) \<Rightarrow>
          do { fol \<leftarrow> add_follows (nleaves d) (take f1 (firstpos a)) (take l2 (drop l1 (lastpos a))) (follow_sets a);
               Some (a\<lparr>nullable := (n1 \<and> n2) # ns,
                 nfirstpos := (if n2 then f2 + f1 else f2) # fs,
                 firstpos := (if n2 then firstpos a else drop f1 (firstpos a)),
                 nlastpos := (if n1 then l2 + l1 else l1) # ls,
                 lastpos := (if n1 then lastpos a else take l1 (lastpos a) @ drop (l1 + l2) (lastpos a)),
                 follow_sets := fol\<rparr>) }
      | _ \<Rightarrow> None)"

definition or_node :: "analysis \<Rightarrow> analysis option" where
  "or_node a =
     (case (nullable a, nfirstpos a, nlastpos a) of
        (n1 # n2 # ns, f1 # f2 # fs, l1 # l2 # ls) \<Rightarrow>
          Some (a\<lparr>nullable := (n1 \<or> n2) # ns, nfirstpos := (f2 + f1) # fs, nlastpos := (l2 + l1) # ls\<rparr>)
      | _ \<Rightarrow> None)"

definition leaf_node :: "dfa \<Rightarrow> nat \<Rightarrow> token \<Rightarrow> analysis \<Rightarrow> analysis option" where
  "leaf_node d i t a =
     do { a \<leftarrow> push_node d (t = BACKREF) 1 a;
          let p = \<lparr>index = i, constraint = NO_CONSTRAINT\<rparr>;
          if length (firstpos a) < nleaves d \<and> length (lastpos a) < nleaves d
          then Some (a\<lparr>firstpos := p # firstpos a, lastpos := p # lastpos a\<rparr>) else None }"

definition analyze_tok :: "dfa \<Rightarrow> nat \<Rightarrow> analysis \<Rightarrow> analysis option" where
  "analyze_tok d i a =
     (case tokens d ! i of
        EMPTY \<Rightarrow> push_node d True 0 a
      | STAR \<Rightarrow> do { a \<leftarrow> closure_follows d a; set_nullable a }
      | PLUS \<Rightarrow> closure_follows d a
      | QMARK \<Rightarrow> set_nullable a
      | CAT \<Rightarrow> cat_node d a
      | OR' \<Rightarrow> or_node a
      | t \<Rightarrow> leaf_node d i t a)"

fun analyze_toks :: "dfa \<Rightarrow> nat list \<Rightarrow> analysis \<Rightarrow> analysis option" where
  "analyze_toks d [] a = Some a"
| "analyze_toks d (i # is) a = do { a \<leftarrow> analyze_tok d i a; analyze_toks d is a }"

definition copy_to :: "nat \<Rightarrow> position list \<Rightarrow> position list option" where
  "copy_to room s = (if length s \<le> room then Some s else None)"

text \<open>Each follow set of a real position is replaced by its epsilon closure.\<close>

fun close_follows :: "nat list \<Rightarrow> dfa \<Rightarrow> dfa option" where
  "close_follows [] d = Some d"
| "close_follows (i # is) d =
     (if epsilon_tok (tokens d ! i) then close_follows is d
      else do {
        f \<leftarrow> rd_at (follows d) i;
        merged \<leftarrow> copy_to (nleaves d) f;
        merged \<leftarrow> epsclosure d merged;
        close_follows is (d\<lparr>follows := (follows d)[i := merged]\<rparr>) })"

definition dfaanalyze :: "bool \<Rightarrow> dfa \<Rightarrow> dfa option" where
  "dfaanalyze sf d0 =
     do {
       let d = d0\<lparr>searchflag := sf, follows := replicate (length (tokens d0)) []\<rparr>;
       a \<leftarrow> analyze_toks d [0..<length (tokens d)]
         \<lparr>nullable = [], nfirstpos = [], firstpos = [], nlastpos = [], lastpos = [], follow_sets = follows d\<rparr>;
       d \<leftarrow> close_follows [0..<length (tokens d)] (d\<lparr>follows := follow_sets a\<rparr>);
       nf \<leftarrow> top_of (nfirstpos a);
       merged \<leftarrow> insert_all (nleaves d) (take nf (firstpos a)) [];
       merged \<leftarrow> epsclosure d merged;
       let wants_newline = list_ex (\<lambda>p. PREV_NEWLINE_DEPENDENT (constraint p)) merged;
       (_, d) \<leftarrow> state_index (d\<lparr>states := []\<rparr>) merged wants_newline False;
       Some d }"

text \<open>The parser and the analysis, on the tokens and the classes that \<open>lex\<close> returns.\<close>

definition dfacomp :: "(token \<times> nat \<times> int) list \<Rightarrow> charclass list \<Rightarrow> bool \<Rightarrow> dfa option parsed" where
  "dfacomp ls ccs sf =
     and_then (dfaparse ls dfainit) (\<lambda>t.
       Parsed (dfaanalyze sf (parse_tree.extend t \<lparr>charclasses = ccs, searchflag = False, states = [], follows = []\<rparr>)))"

end
