(* ===== verification/Dfa_Positions.thy ===== *)
theory Dfa_Positions
  imports Dfa_Parse
begin

text \<open>
  The words over the positions of a parse tree.  A word is in the language of a tree when its first position is in the first
  positions of the tree, its last in the last positions, and each position is in the follow of the one before: the comment above
  \<open>dfaanalyze\<close> as a theorem.
\<close>

section \<open>Languages given by their first, last and successive letters\<close>

definition local_words :: "bool \<Rightarrow> 'a set \<Rightarrow> 'a set \<Rightarrow> ('a \<times> 'a) set \<Rightarrow> 'a list set" where
  "local_words N F L R = {w. if w = [] then N else hd w \<in> F \<and> last w \<in> L \<and> successively (\<lambda>p q. (p, q) \<in> R) w}"

lemma in_local_Nil [simp]: "[] \<in> local_words N F L R \<longleftrightarrow> N"
  by (simp add: local_words_def)

lemma in_local: "w \<noteq> [] \<Longrightarrow> w \<in> local_words N F L R \<longleftrightarrow> hd w \<in> F \<and> last w \<in> L \<and> successively (\<lambda>p q. (p, q) \<in> R) w"
  by (simp add: local_words_def)

text \<open>A word over two disjoint alphabets whose letters never go back.\<close>

lemma split_alphabets:
  assumes "set w \<subseteq> A \<union> B" "\<forall>p \<in> B. \<forall>q \<in> A. (p, q) \<notin> R" "successively (\<lambda>p q. (p, q) \<in> R) w"
  shows "\<exists>u v. w = u @ v \<and> set u \<subseteq> A \<and> set v \<subseteq> B"
  using assms
proof (induction w)
  case (Cons p w)
  then obtain u v where uv: "w = u @ v" "set u \<subseteq> A" "set v \<subseteq> B" by (auto simp: successively_Cons)
  show ?case
  proof (cases "p \<in> A")
    case True
    then show ?thesis using uv by (intro exI[of _ "p # u"] exI[of _ v]) auto
  next
    case False
    then have p: "p \<in> B" using Cons.prems(1) by auto
    have "u = []"
    proof (rule ccontr)
      assume "u \<noteq> []"
      then have "hd w \<in> A" "w \<noteq> []" using uv by (auto simp: hd_append)
      then show False using Cons.prems p by (auto simp: successively_Cons)
    qed
    then show ?thesis using uv p by (intro exI[of _ "[]"] exI[of _ "p # w"]) auto
  qed
qed auto

lemma successively_set:
  assumes "successively (\<lambda>p q. (p, q) \<in> R) w" "hd w \<in> X" "R \<subseteq> X \<times> X" "w \<noteq> []"
  shows "set w \<subseteq> X"
  using assms
proof (induction w)
  case (Cons p w)
  then show ?case by (cases w) (auto simp: successively_Cons)
qed simp

lemma successively_restrict:
  "set w \<subseteq> A \<Longrightarrow> successively (\<lambda>p q. (p, q) \<in> R) w \<Longrightarrow> (\<And>p q. p \<in> A \<Longrightarrow> q \<in> A \<Longrightarrow> (p, q) \<in> R \<Longrightarrow> (p, q) \<in> S) \<Longrightarrow>
    successively (\<lambda>p q. (p, q) \<in> S) w"
  by (induction w) (auto simp: successively_Cons dest: hd_in_set)

lemma no_first: "set u \<subseteq> B \<Longrightarrow> set v \<subseteq> A \<Longrightarrow> hd (u @ v) \<in> A \<Longrightarrow> A \<inter> B = {} \<Longrightarrow> set (u @ v) \<subseteq> A"
  by (cases u) auto

lemma local_words_Alt:
  assumes "F1 \<union> L1 \<subseteq> A" "R1 \<subseteq> A \<times> A" "F2 \<union> L2 \<subseteq> B" "R2 \<subseteq> B \<times> B" "A \<inter> B = {}"
  shows "local_words N1 F1 L1 R1 \<union> local_words N2 F2 L2 R2 = local_words (N1 \<or> N2) (F1 \<union> F2) (L1 \<union> L2) (R1 \<union> R2)"
proof (intro set_eqI iffI)
  fix w assume "w \<in> local_words N1 F1 L1 R1 \<union> local_words N2 F2 L2 R2"
  then show "w \<in> local_words (N1 \<or> N2) (F1 \<union> F2) (L1 \<union> L2) (R1 \<union> R2)"
    by (cases "w = []") (auto simp: in_local intro: successively_mono)
next
  fix w assume w: "w \<in> local_words (N1 \<or> N2) (F1 \<union> F2) (L1 \<union> L2) (R1 \<union> R2)"
  show "w \<in> local_words N1 F1 L1 R1 \<union> local_words N2 F2 L2 R2"
  proof (cases "w = []")
    case False
    have s: "successively (\<lambda>p q. (p, q) \<in> R1 \<union> R2) w" using w False by (simp add: in_local)
    have "hd w \<in> F1 \<or> hd w \<in> F2" using w False by (simp add: in_local)
    then show ?thesis
    proof
      assume h: "hd w \<in> F1"
      have "\<exists>u v. w = u @ v \<and> set u \<subseteq> B \<and> set v \<subseteq> A"
      proof (rule split_alphabets[OF _ _ s])
        have "set w \<subseteq> A \<union> B"
          by (rule successively_set[OF s]) (use h assms False in auto)
        then show "set w \<subseteq> B \<union> A" by auto
      qed (use assms in auto)
      then obtain u v where "w = u @ v" "set u \<subseteq> B" "set v \<subseteq> A" by blast
      moreover from this have "hd (u @ v) \<in> A" using h assms(1) by auto
      ultimately have "set w \<subseteq> A" using no_first[of u B v A] assms(5) by simp
      then have "last w \<in> A" using last_in_set[OF False] by blast
      then have "last w \<in> L1" using w False assms by (auto simp: in_local)
      moreover have "successively (\<lambda>p q. (p, q) \<in> R1) w"
        by (rule successively_restrict[OF \<open>set w \<subseteq> A\<close> s]) (use assms in auto)
      ultimately show ?thesis using h False by (simp add: in_local)
    next
      assume h: "hd w \<in> F2"
      have "\<exists>u v. w = u @ v \<and> set u \<subseteq> A \<and> set v \<subseteq> B"
      proof (rule split_alphabets[OF _ _ s])
        show "set w \<subseteq> A \<union> B"
          by (rule successively_set[OF s]) (use h assms False in auto)
      qed (use assms in auto)
      then obtain u v where "w = u @ v" "set u \<subseteq> A" "set v \<subseteq> B" by blast
      moreover from this have "hd (u @ v) \<in> B" using h assms(3) by auto
      ultimately have "set w \<subseteq> B" using no_first[of u A v B] assms(5) by (simp add: Int_commute)
      then have "last w \<in> B" using last_in_set[OF False] by blast
      then have "last w \<in> L2" using w False assms by (auto simp: in_local)
      moreover have "successively (\<lambda>p q. (p, q) \<in> R2) w"
        by (rule successively_restrict[OF \<open>set w \<subseteq> B\<close> s]) (use assms in auto)
      ultimately show ?thesis using h False by (simp add: in_local)
    qed
  qed (use w in auto)
qed

lemma local_words_Conc:
  assumes "F1 \<union> L1 \<subseteq> A" "R1 \<subseteq> A \<times> A" "F2 \<union> L2 \<subseteq> B" "R2 \<subseteq> B \<times> B" "A \<inter> B = {}"
  shows "lconc (local_words N1 F1 L1 R1) (local_words N2 F2 L2 R2) =
    local_words (N1 \<and> N2) (F1 \<union> (if N1 then F2 else {})) (L2 \<union> (if N2 then L1 else {})) (R1 \<union> R2 \<union> L1 \<times> F2)"
proof (intro set_eqI iffI)
  fix w assume "w \<in> lconc (local_words N1 F1 L1 R1) (local_words N2 F2 L2 R2)"
  then obtain u v where w: "w = u @ v" "u \<in> local_words N1 F1 L1 R1" "v \<in> local_words N2 F2 L2 R2" by (auto simp: lconc_def)
  show "w \<in> local_words (N1 \<and> N2) (F1 \<union> (if N1 then F2 else {})) (L2 \<union> (if N2 then L1 else {})) (R1 \<union> R2 \<union> L1 \<times> F2)"
    using w by (cases "u = []"; cases "v = []") (auto simp: in_local successively_append_iff intro: successively_mono)
next
  fix w assume w: "w \<in> local_words (N1 \<and> N2) (F1 \<union> (if N1 then F2 else {})) (L2 \<union> (if N2 then L1 else {})) (R1 \<union> R2 \<union> L1 \<times> F2)"
  show "w \<in> lconc (local_words N1 F1 L1 R1) (local_words N2 F2 L2 R2)"
  proof (cases "w = []")
    case True
    then show ?thesis using w by (auto simp: lconc_def)
  next
    case False
    let ?R = "R1 \<union> R2 \<union> L1 \<times> F2"
    have s: "successively (\<lambda>p q. (p, q) \<in> ?R) w" using w False by (simp add: in_local)
    have h: "hd w \<in> F1 \<union> (if N1 then F2 else {})" "last w \<in> L2 \<union> (if N2 then L1 else {})" using w False by (auto simp: in_local)
    have "set w \<subseteq> A \<union> B"
      by (rule successively_set[OF s]) (use h assms False in \<open>auto split: if_splits\<close>)
    then obtain u v where uv: "w = u @ v" "set u \<subseteq> A" "set v \<subseteq> B" using split_alphabets[OF _ _ s, of A B] assms by blast
    have su: "successively (\<lambda>p q. (p, q) \<in> R1) u"
      by (rule successively_restrict[OF uv(2), of ?R]) (use s uv(1) assms in \<open>auto simp: successively_append_iff\<close>)
    have sv: "successively (\<lambda>p q. (p, q) \<in> R2) v"
      by (rule successively_restrict[OF uv(3), of ?R]) (use s uv(1) assms in \<open>auto simp: successively_append_iff\<close>)
    have hu: "u \<noteq> [] \<Longrightarrow> hd u \<in> A \<and> last u \<in> A" "v \<noteq> [] \<Longrightarrow> hd v \<in> B \<and> last v \<in> B" using uv by auto
    have mid: "u \<noteq> [] \<Longrightarrow> v \<noteq> [] \<Longrightarrow> (last u, hd v) \<in> L1 \<times> F2"
      using s uv(1) hu assms by (auto simp: successively_append_iff)
    have "u \<in> local_words N1 F1 L1 R1"
    proof (cases "u = []")
      case True
      then have "N1" using h(1) uv(1) hu(2) False assms by (auto split: if_splits)
      then show ?thesis using True by simp
    next
      case u: False
      then have "hd u \<in> F1" using h(1) uv(1) hu(1) assms by (auto split: if_splits)
      moreover have "last u \<in> L1" using mid h(2) uv(1) hu(1) u assms by (cases "v = []") (auto split: if_splits)
      ultimately show ?thesis using su u by (simp add: in_local)
    qed
    moreover have "v \<in> local_words N2 F2 L2 R2"
    proof (cases "v = []")
      case True
      then have "N2" using h(2) uv(1) hu(1) False assms by (auto split: if_splits)
      then show ?thesis using True by simp
    next
      case v: False
      then have "last v \<in> L2" using h(2) uv(1) hu(2) assms by (auto split: if_splits)
      moreover have "hd v \<in> F2" using mid h(1) uv(1) hu(2) v assms by (cases "u = []") (auto split: if_splits)
      ultimately show ?thesis using sv v by (simp add: in_local)
    qed
    ultimately show ?thesis using uv(1) by (auto simp: lconc_def)
  qed
qed

text \<open>Repetition: the last positions are followed by the first ones.\<close>

lemma lpow_local:
  "w \<in> lpow (local_words N F L R) k \<Longrightarrow> w \<noteq> [] \<Longrightarrow> w \<in> local_words N F L (R \<union> L \<times> F)"
proof (induction k arbitrary: w)
  case (Suc k)
  then obtain u v where w: "w = u @ v" "u \<in> local_words N F L R" "v \<in> lpow (local_words N F L R) k" by (auto simp: lconc_def)
  have v: "v \<noteq> [] \<Longrightarrow> v \<in> local_words N F L (R \<union> L \<times> F)" using Suc.IH w(3) by blast
  show ?case
  proof (cases "u = [] \<or> v = []")
    case True
    then show ?thesis using w v Suc.prems(2) by (auto simp: in_local intro: successively_mono)
  next
    case False
    then have "successively (\<lambda>p q. (p, q) \<in> R \<union> L \<times> F) u" using w by (auto simp: in_local intro: successively_mono)
    then show ?thesis using w v False by (auto simp: in_local successively_append_iff)
  qed
qed auto

lemma local_lplus:
  assumes "w \<noteq> []" "w \<in> local_words N F L (R \<union> L \<times> F)"
  shows "w \<in> lplus (local_words N F L R)"
  using assms
proof (induction "length w" arbitrary: w rule: less_induct)
  case less
  have sw: "successively (\<lambda>p q. (p, q) \<in> R \<union> L \<times> F) w" using less.prems by (simp add: in_local)
  have lp: "lconc A (lplus A) \<subseteq> lplus A" "A \<subseteq> lplus A" for A :: "'a list set"
  proof -
    show "lconc A (lplus A) \<subseteq> lplus A" unfolding lplus_def lconc_UN by (auto simp flip: lpow.simps(2))
    show "A \<subseteq> lplus A" unfolding lplus_def using lpow_1[of A] by blast
  qed
  show ?case
  proof (cases "successively (\<lambda>p q. (p, q) \<in> R) w")
    case True
    then have "w \<in> local_words N F L R" using less.prems by (simp add: in_local)
    then show ?thesis using lp(2) by blast
  next
    case False
    obtain u v where uv: "w = u @ v" "u \<noteq> []" "v \<noteq> []" "successively (\<lambda>p q. (p, q) \<in> R) u" "(last u, hd v) \<notin> R"
    proof -
      have "\<exists>u v. w = u @ v \<and> u \<noteq> [] \<and> v \<noteq> [] \<and> successively (\<lambda>p q. (p, q) \<in> R) u \<and> (last u, hd v) \<notin> R"
        using False
      proof (induction w)
        case (Cons p w)
        then have w: "w \<noteq> []" by auto
        show ?case
        proof (cases "(p, hd w) \<in> R")
          case False
          then show ?thesis using w by (intro exI[of _ "[p]"] exI[of _ w]) auto
        next
          case True
          then have "\<not> successively (\<lambda>p q. (p, q) \<in> R) w" using Cons.prems w by (simp add: successively_Cons)
          then obtain u v where "w = u @ v" "u \<noteq> []" "v \<noteq> []" "successively (\<lambda>p q. (p, q) \<in> R) u" "(last u, hd v) \<notin> R"
            using Cons.IH by blast
          then show ?thesis using True by (intro exI[of _ "p # u"] exI[of _ v]) (auto simp: successively_Cons)
        qed
      qed simp
      then show thesis using that by blast
    qed
    have m: "last u \<in> L" "hd v \<in> F" using sw uv by (auto simp: successively_append_iff)
    have "u \<in> local_words N F L R" using less.prems uv m by (simp add: in_local)
    moreover have "v \<in> lplus (local_words N F L R)"
      by (rule less.hyps) (use less.prems uv m in \<open>auto simp: in_local successively_append_iff\<close>)
    ultimately have "w \<in> lconc (local_words N F L R) (lplus (local_words N F L R))" using uv(1) by (auto simp: lconc_def)
    then show ?thesis using lp(1) by blast
  qed
qed

lemma local_words_Plus: "lplus (local_words N F L R) = local_words N F L (R \<union> L \<times> F)"
proof (intro set_eqI iffI)
  fix w assume w: "w \<in> lplus (local_words N F L R)"
  then obtain k where k: "w \<in> lpow (local_words N F L R) (Suc k)" by (auto simp: lplus_def)
  show "w \<in> local_words N F L (R \<union> L \<times> F)"
  proof (cases "w = []")
    case True
    then show ?thesis using k by (auto simp: lconc_def)
  next
    case False
    then show ?thesis using lpow_local k by blast
  qed
next
  fix w assume w: "w \<in> local_words N F L (R \<union> L \<times> F)"
  show "w \<in> lplus (local_words N F L R)"
  proof (cases "w = []")
    case True
    then have "[] \<in> local_words N F L R" using w by simp
    then have "w \<in> lpow (local_words N F L R) (Suc 0)" using True by simp
    then show ?thesis unfolding lplus_def by blast
  next
    case False
    then show ?thesis using local_lplus w by blast
  qed
qed

lemma lstar_lplus: "lstar A = Set.insert [] (lplus A)"
proof -
  have "range Suc \<union> {0} = UNIV" by (auto simp: image_iff) (metis not0_implies_Suc)
  then have "lstar A = (\<Union>k \<in> Set.insert 0 (range Suc). lpow A k)" by (simp add: lstar_def)
  then show ?thesis by (simp add: lplus_def)
qed

lemma local_words_Opt: "Set.insert [] (local_words N F L R) = local_words True F L R"
  by (auto simp: local_words_def)

section \<open>Positions of a tree\<close>

text \<open>
  The position of a leaf is its index in the postfix form, which begins at \<open>n\<close>.  The lists of first and last positions are in the
  order of the arrays of \<open>dfaanalyze\<close>.
\<close>

abbreviation tsize :: "rx \<Rightarrow> nat" where "tsize r \<equiv> length (post r)"

fun null_tree :: "rx \<Rightarrow> bool" where
  "null_tree (Leaf t) = (t = BACKREF)"
| "null_tree Empty = True"
| "null_tree (Conc a b) = (null_tree b \<and> null_tree a)"
| "null_tree (Alt a b) = (null_tree b \<or> null_tree a)"
| "null_tree (Star a) = True"
| "null_tree (Plus a) = null_tree a"
| "null_tree (Opt a) = True"

fun first_of :: "nat \<Rightarrow> rx \<Rightarrow> nat list" where
  "first_of n (Leaf t) = [n]"
| "first_of n Empty = []"
| "first_of n (Conc a b) = (if null_tree a then first_of (n + tsize a) b else []) @ first_of n a"
| "first_of n (Alt a b) = first_of (n + tsize a) b @ first_of n a"
| "first_of n (Star a) = first_of n a"
| "first_of n (Plus a) = first_of n a"
| "first_of n (Opt a) = first_of n a"

fun last_of :: "nat \<Rightarrow> rx \<Rightarrow> nat list" where
  "last_of n (Leaf t) = [n]"
| "last_of n Empty = []"
| "last_of n (Conc a b) = last_of (n + tsize a) b @ (if null_tree b then last_of n a else [])"
| "last_of n (Alt a b) = last_of (n + tsize a) b @ last_of n a"
| "last_of n (Star a) = last_of n a"
| "last_of n (Plus a) = last_of n a"
| "last_of n (Opt a) = last_of n a"

fun follow_of :: "nat \<Rightarrow> rx \<Rightarrow> (nat \<times> nat) set" where
  "follow_of n (Leaf t) = {}"
| "follow_of n Empty = {}"
| "follow_of n (Conc a b) = follow_of n a \<union> follow_of (n + tsize a) b \<union> set (last_of n a) \<times> set (first_of (n + tsize a) b)"
| "follow_of n (Alt a b) = follow_of n a \<union> follow_of (n + tsize a) b"
| "follow_of n (Star a) = follow_of n a \<union> set (last_of n a) \<times> set (first_of n a)"
| "follow_of n (Plus a) = follow_of n a \<union> set (last_of n a) \<times> set (first_of n a)"
| "follow_of n (Opt a) = follow_of n a"

fun leaf_positions :: "nat \<Rightarrow> rx \<Rightarrow> nat set" where
  "leaf_positions n (Leaf t) = {n}"
| "leaf_positions n Empty = {}"
| "leaf_positions n (Conc a b) = leaf_positions n a \<union> leaf_positions (n + tsize a) b"
| "leaf_positions n (Alt a b) = leaf_positions n a \<union> leaf_positions (n + tsize a) b"
| "leaf_positions n (Star a) = leaf_positions n a"
| "leaf_positions n (Plus a) = leaf_positions n a"
| "leaf_positions n (Opt a) = leaf_positions n a"

text \<open>The language over positions.\<close>

fun pos_lang :: "nat \<Rightarrow> rx \<Rightarrow> nat list set" where
  "pos_lang n (Leaf t) = (if t = BACKREF then {[], [n]} else {[n]})"
| "pos_lang n Empty = {[]}"
| "pos_lang n (Conc a b) = lconc (pos_lang n a) (pos_lang (n + tsize a) b)"
| "pos_lang n (Alt a b) = pos_lang n a \<union> pos_lang (n + tsize a) b"
| "pos_lang n (Star a) = lstar (pos_lang n a)"
| "pos_lang n (Plus a) = lplus (pos_lang n a)"
| "pos_lang n (Opt a) = Set.insert [] (pos_lang n a)"

lemma leaf_positions_bounds: "leaf_positions n r \<subseteq> {n..<n + tsize r}"
proof (induction r arbitrary: n)
  case (Conc a b)
  then show ?case using Conc.IH(1)[of n] Conc.IH(2)[of "n + tsize a"] by fastforce
next
  case (Alt a b)
  then show ?case using Alt.IH(1)[of n] Alt.IH(2)[of "n + tsize a"] by fastforce
qed fastforce+

lemma finite_leaf_positions [simp]: "finite (leaf_positions n r)"
  using leaf_positions_bounds finite_subset by blast

lemma leaf_positions_disjoint: "leaf_positions n a \<inter> leaf_positions (n + tsize a) b = {}"
  using leaf_positions_bounds[of n a] leaf_positions_bounds[of "n + tsize a" b] by fastforce

lemma card_leaf_positions: "card (leaf_positions n r) = leaves r"
  by (induction r arbitrary: n) (simp_all add: card_Un_disjoint leaf_positions_disjoint)

lemma first_last_positions: "set (first_of n r) \<subseteq> leaf_positions n r" "set (last_of n r) \<subseteq> leaf_positions n r"
  by (induction r arbitrary: n) (simp_all, blast+)

lemma follow_positions: "follow_of n r \<subseteq> leaf_positions n r \<times> leaf_positions n r"
proof (induction r arbitrary: n)
  case (Conc a b)
  then show ?case using first_last_positions by (simp, blast)
next
  case (Star a)
  then show ?case using first_last_positions by (simp, blast)
next
  case (Plus a)
  then show ?case using first_last_positions by (simp, blast)
qed auto

text \<open>The description by first, last and follow is the language.\<close>

theorem pos_lang_local: "pos_lang n r = local_words (null_tree r) (set (first_of n r)) (set (last_of n r)) (follow_of n r)"
proof (induction r arbitrary: n)
  case (Leaf t)
  show ?case
  proof (rule set_eqI)
    fix w
    have "w = [n]" if "hd w = n" "last w = n" "successively (\<lambda>p q. False) w" "w \<noteq> []"
      using that by (cases w) (auto simp: successively_Cons split: if_splits)
    then show "w \<in> pos_lang n (Leaf t) \<longleftrightarrow> w \<in> local_words (null_tree (Leaf t)) (set (first_of n (Leaf t))) (set (last_of n (Leaf t))) (follow_of n (Leaf t))"
      by (cases "w = []") (auto simp: in_local)
  qed
next
  case Empty
  show ?case by (auto simp: local_words_def)
next
  case (Conc a b)
  have "pos_lang n (Conc a b) = lconc (local_words (null_tree a) (set (first_of n a)) (set (last_of n a)) (follow_of n a))
      (local_words (null_tree b) (set (first_of (n + tsize a) b)) (set (last_of (n + tsize a) b)) (follow_of (n + tsize a) b))"
    using Conc by simp
  also have "\<dots> = local_words (null_tree a \<and> null_tree b)
      (set (first_of n a) \<union> (if null_tree a then set (first_of (n + tsize a) b) else {}))
      (set (last_of (n + tsize a) b) \<union> (if null_tree b then set (last_of n a) else {}))
      (follow_of n a \<union> follow_of (n + tsize a) b \<union> set (last_of n a) \<times> set (first_of (n + tsize a) b))"
    by (rule local_words_Conc[of _ _ "leaf_positions n a" _ _ _ "leaf_positions (n + tsize a) b"])
      (use first_last_positions follow_positions leaf_positions_disjoint in auto)
  finally show ?case by (simp add: Un_commute conj_commute)
next
  case (Alt a b)
  have "pos_lang n (Alt a b) = local_words (null_tree a) (set (first_of n a)) (set (last_of n a)) (follow_of n a)
      \<union> local_words (null_tree b) (set (first_of (n + tsize a) b)) (set (last_of (n + tsize a) b)) (follow_of (n + tsize a) b)"
    using Alt by simp
  also have "\<dots> = local_words (null_tree a \<or> null_tree b) (set (first_of n a) \<union> set (first_of (n + tsize a) b))
      (set (last_of n a) \<union> set (last_of (n + tsize a) b)) (follow_of n a \<union> follow_of (n + tsize a) b)"
    by (rule local_words_Alt[of _ _ "leaf_positions n a" _ _ _ "leaf_positions (n + tsize a) b"])
      (use first_last_positions follow_positions leaf_positions_disjoint in auto)
  finally show ?case by (simp add: Un_commute disj_commute)
next
  case (Star a)
  then show ?case by (simp add: lstar_lplus local_words_Plus local_words_Opt)
next
  case (Plus a)
  then show ?case by (simp add: local_words_Plus)
next
  case (Opt a)
  then show ?case by (simp add: local_words_Opt)
qed

subsection \<open>From positions to tokens\<close>

lemma map_lconc: "map f ` lconc A B = lconc (map f ` A) (map f ` B)"
  by (auto simp: lconc_def image_iff) (metis map_append)+

lemma map_lpow: "map f ` lpow A k = lpow (map f ` A) k"
  by (induction k) (auto simp: map_lconc)

lemma map_lplus: "map f ` lplus A = lplus (map f ` A)"
  by (simp add: lplus_def image_UN map_lpow del: lpow.simps)

lemma take_two:
  assumes "take (length ys + (length zs + 1)) (drop n xs) = ys @ zs @ [c]"
  shows "take (length ys) (drop n xs) = ys" "take (length zs) (drop (n + length ys) xs) = zs"
proof -
  obtain rest where r: "drop n xs = (ys @ zs @ [c]) @ rest" using assms by (metis append_take_drop_id)
  show "take (length ys) (drop n xs) = ys" by (simp add: r)
  have "drop (n + length ys) xs = drop (length ys) (drop n xs)" by (simp add: add.commute)
  then show "take (length zs) (drop (n + length ys) xs) = zs" by (simp add: r)
qed

lemma lang_pos_lang:
  assumes "take (tsize r) (drop n toks) = post r" "BACKREF \<notin> set (post r)"
  shows "lang r = map ((!) toks) ` pos_lang n r"
  using assms
proof (induction r arbitrary: n)
  case (Leaf t)
  then show ?case by (cases "drop n toks") (auto dest: drop_ConsD)
next
  case (Conc a b)
  have t: "take (tsize a) (drop n toks) = post a" "take (tsize b) (drop (n + tsize a) toks) = post b"
    using take_two[of "post a" "post b" n toks] Conc.prems(1) by simp_all
  then show ?case using Conc.IH(1)[OF t(1)] Conc.IH(2)[OF t(2)] Conc.prems(2) by (simp add: map_lconc)
next
  case (Alt a b)
  have t: "take (tsize a) (drop n toks) = post a" "take (tsize b) (drop (n + tsize a) toks) = post b"
    using take_two[of "post a" "post b" n toks] Alt.prems(1) by simp_all
  then show ?case using Alt.IH(1)[OF t(1)] Alt.IH(2)[OF t(2)] Alt.prems(2) by (simp add: image_Un)
next
  case (Star a)
  have "take (tsize a) (take (tsize a + 1) (drop n toks)) = post a" using Star.prems(1) by simp
  then show ?case using Star.IH[of n] Star.prems(2) by (simp add: lstar_lplus map_lplus)
next
  case (Plus a)
  have "take (tsize a) (take (tsize a + 1) (drop n toks)) = post a" using Plus.prems(1) by simp
  then show ?case using Plus.IH[of n] Plus.prems(2) by (simp add: map_lplus)
next
  case (Opt a)
  have "take (tsize a) (take (tsize a + 1) (drop n toks)) = post a" using Opt.prems(1) by simp
  then show ?case using Opt.IH[of n] Opt.prems(2) by simp
qed auto

end
