(* ===== verification/Dfa_Tables.thy ===== *)
theory Dfa_Tables
  imports Dfa_Analyze Dfa_Positions
begin

text \<open>
  \<open>dfaanalyze\<close> computes the first, last and follow positions of the parse tree within its arrays, when the depth and the number of
  leaves are those of the parser.  Without positions that match the empty string the epsilon closure changes nothing.
\<close>

section \<open>Sets of positions without constraints\<close>

definition mkp :: "nat \<Rightarrow> position" where "mkp i = \<lparr>index = i, constraint = NO_CONSTRAINT\<rparr>"

definition pset :: "nat set \<Rightarrow> position list" where "pset S = map mkp (rev (sorted_list_of_set S))"

lemma mkp_simps [simp]: "index (mkp i) = i" "constraint (mkp i) = NO_CONSTRAINT"
  by (simp_all add: mkp_def)

lemma map_index_mkp [simp]: "map (index \<circ> mkp) xs = xs" "index ` mkp ` S = S"
  by (induction xs) (auto simp: image_image)

lemma descending_mkp [simp]: "descending (map mkp xs) \<longleftrightarrow> sorted_wrt (>) xs"
  by (simp add: descending_def comp_def)

lemma descending_list: "sorted_wrt (>) xs \<Longrightarrow> xs = rev (sorted_list_of_set (set (xs :: nat list)))"
proof -
  assume s: "sorted_wrt (>) xs"
  then have "sorted_wrt (<) (rev xs)" by (simp add: sorted_wrt_rev)
  then have "sorted_list_of_set (set (rev xs)) = rev xs"
    using sorted_list_of_set.idem_if_sorted_distinct[of "rev xs"] by (simp add: strict_sorted_iff)
  then show ?thesis by simp
qed

lemma mkp_list: "\<forall>p \<in> set s. constraint p = NO_CONSTRAINT \<Longrightarrow> s = map mkp (map index s)"
  by (induction s) (auto simp: mkp_def)

lemma set_pset [simp]: "finite S \<Longrightarrow> set (pset S) = mkp ` S"
  by (simp add: pset_def)

lemma length_pset [simp]: "length (pset S) = card S"
  by (simp add: pset_def)

lemma pset_empty [simp]: "pset {} = []"
  by (simp add: pset_def)

lemma pset_mkp: "sorted_wrt (>) xs \<Longrightarrow> map mkp xs = pset (set xs)"
  using descending_list[of xs] by (metis pset_def)

lemma descending_pset [simp]: "descending (pset S)"
proof -
  have "sorted_wrt (>) (rev (sorted_list_of_set S))" by (simp add: sorted_wrt_rev)
  then show ?thesis by (simp add: pset_def)
qed

lemma merge_pset:
  assumes "finite S" "finite T"
  shows "merge_pos (pset S) (pset T) = pset (S \<union> T)"
proof -
  let ?m = "merge_pos (pset S) (pset T)"
  have c: "\<forall>p \<in> set (merge_pos s t). constraint p = NO_CONSTRAINT"
    if "\<forall>p \<in> set s. constraint p = NO_CONSTRAINT" "\<forall>p \<in> set t. constraint p = NO_CONSTRAINT" for s t
    using that by (induction s t rule: merge_pos.induct) auto
  have "?m = map mkp (map index ?m)" by (rule mkp_list, rule c) (use assms in auto)
  moreover have "sorted_wrt (>) (map index ?m)"
    using merge_pos_ok(1)[OF descending_pset descending_pset, of S T] by (simp add: descending_def)
  moreover have "set (map index ?m) = S \<union> T" using assms by simp
  ultimately show ?thesis using pset_mkp by metis
qed

section \<open>The follow sets as a relation\<close>

definition table_of :: "(nat \<times> nat) set \<Rightarrow> nat set \<Rightarrow> position list list \<Rightarrow> bool" where
  "table_of R P fs \<longleftrightarrow> finite P \<and> R \<subseteq> P \<times> P \<and> P \<subseteq> {..<length fs} \<and> (\<forall>p < length fs. fs ! p = pset (R `` {p}))"

lemma add_follows_ok:
  assumes "table_of R P fs" "set ps \<subseteq> P" "F \<subseteq> P" "card P \<le> room"
  shows "\<exists>fs'. add_follows room (pset F) (map mkp ps) fs = Some fs' \<and> table_of (R \<union> set ps \<times> F) P fs' \<and> length fs' = length fs"
  using assms(1,2)
proof (induction ps arbitrary: R fs)
  case (Cons p ps)
  have P: "finite P" "finite F" "finite (R `` {p})" "R `` {p} \<subseteq> P"
  proof -
    show "finite P" "R `` {p} \<subseteq> P" using Cons.prems(1) by (auto simp: table_of_def)
    then show "finite F" "finite (R `` {p})" using assms(3) finite_subset by blast+
  qed
  have "card (F \<union> R `` {p}) \<le> room" using P assms(3,4) card_mono[of P "F \<union> R `` {p}"] by simp
  then have m: "merge_into room (pset F) (fs ! p) = Some (pset (F \<union> R `` {p}))"
    using Cons.prems P merge_pset[OF P(2,3)] by (auto simp: merge_into_def table_of_def)
  have pl: "p < length fs" using Cons.prems by (auto simp: table_of_def)
  have "table_of (R \<union> {p} \<times> F) P (fs[p := pset (F \<union> R `` {p})])"
    using Cons.prems assms(3) pl by (auto simp: table_of_def nth_upd Un_commute intro!: arg_cong[of _ _ pset])
  from Cons.IH[OF this] obtain fs' where fs': "add_follows room (pset F) (map mkp ps) (fs[p := pset (F \<union> R `` {p})]) = Some fs'"
    "table_of (R \<union> {p} \<times> F \<union> set ps \<times> F) P fs'" "length fs' = length fs" using Cons.prems(2) by auto
  moreover have "R \<union> {p} \<times> F \<union> set ps \<times> F = R \<union> set (p # ps) \<times> F" by auto
  ultimately show ?case using m pl by auto
qed auto

section \<open>One tree\<close>

lemma first_posD: "p \<in> set (first_of n r) \<Longrightarrow> p \<in> leaf_positions n r"
  using first_last_positions(1) by blast

lemma last_posD: "p \<in> set (last_of n r) \<Longrightarrow> p \<in> leaf_positions n r"
  using first_last_positions(2) by blast

lemma first_last_descending: "sorted_wrt (>) (first_of n r)" "sorted_wrt (>) (last_of n r)"
proof (induction r arbitrary: n)
  case (Conc a b)
  have lt: "q < p" if "p \<in> leaf_positions (n + tsize a) b" "q \<in> leaf_positions n a" for p q n
    using that leaf_positions_bounds[of n a] leaf_positions_bounds[of "n + tsize a" b] by fastforce
  {
    case 1
    show ?case using Conc(1,3) lt by (auto simp: sorted_wrt_append dest!: first_posD)
  next
    case 2
    show ?case using Conc(2,4) lt by (auto simp: sorted_wrt_append dest!: last_posD)
  }
next
  case (Alt a b)
  have lt: "q < p" if "p \<in> leaf_positions (n + tsize a) b" "q \<in> leaf_positions n a" for p q n
    using that leaf_positions_bounds[of n a] leaf_positions_bounds[of "n + tsize a" b] by fastforce
  {
    case 1
    show ?case using Alt(1,3) lt by (auto simp: sorted_wrt_append dest!: first_posD)
  next
    case 2
    show ?case using Alt(2,4) lt by (auto simp: sorted_wrt_append dest!: last_posD)
  }
qed auto

lemma length_first_last: "length (first_of n r) \<le> leaves r" "length (last_of n r) \<le> leaves r"
proof -
  have l: "length xs \<le> leaves r" if "sorted_wrt (>) xs" "set xs \<subseteq> leaf_positions n r" for xs
  proof -
    have "distinct xs" using that(1) by (metis descending_list distinct_rev distinct_sorted_list_of_set)
    then have "length xs = card (set xs)" by (simp add: distinct_card)
    then show ?thesis using that(2) card_mono[OF finite_leaf_positions] card_leaf_positions[of n r] by metis
  qed
  show "length (first_of n r) \<le> leaves r" "length (last_of n r) \<le> leaves r"
    using l first_last_descending first_last_positions by blast+
qed

definition add_node :: "nat \<Rightarrow> rx \<Rightarrow> position list list \<Rightarrow> analysis \<Rightarrow> analysis" where
  "add_node n r fs a =
     \<lparr>nullable = null_tree r # nullable a, nfirstpos = length (first_of n r) # nfirstpos a, firstpos = map mkp (first_of n r) @ firstpos a,
      nlastpos = length (last_of n r) # nlastpos a, lastpos = map mkp (last_of n r) @ lastpos a, follow_sets = fs\<rparr>"

lemma add_node_simps [simp]:
  "nullable (add_node n r fs a) = null_tree r # nullable a" "nfirstpos (add_node n r fs a) = length (first_of n r) # nfirstpos a"
  "firstpos (add_node n r fs a) = map mkp (first_of n r) @ firstpos a" "nlastpos (add_node n r fs a) = length (last_of n r) # nlastpos a"
  "lastpos (add_node n r fs a) = map mkp (last_of n r) @ lastpos a" "follow_sets (add_node n r fs a) = fs"
  by (simp_all add: add_node_def)

lemma analyze_toks_append: "analyze_toks d (is @ js) a = do { a \<leftarrow> analyze_toks d is a; analyze_toks d js a }"
  by (induction "is" arbitrary: a) (auto split: Option.bind_splits)

lemma closure_follows_ok:
  assumes "table_of R P fs" "leaf_positions n r \<subseteq> P" "card P \<le> nleaves d"
  shows "\<exists>fs'. closure_follows d (add_node n r fs a) = Some (add_node n r fs' a) \<and> length fs' = length fs \<and>
    table_of (R \<union> set (last_of n r) \<times> set (first_of n r)) P fs'"
proof -
  have "set (last_of n r) \<subseteq> P" "set (first_of n r) \<subseteq> P" using first_last_positions assms(2) by blast+
  from add_follows_ok[OF assms(1) this assms(3)] show ?thesis
    by (auto simp: closure_follows_def top_of_def pset_mkp[symmetric] first_last_descending(1)) (simp add: add_node_def)
qed

lemma take_token: "take (length (ys @ [t])) (drop n xs) = ys @ [t] \<Longrightarrow> xs ! (n + length ys) = t \<and> take (length ys) (drop n xs) = ys"
proof -
  assume a: "take (length (ys @ [t])) (drop n xs) = ys @ [t]"
  then obtain rest where r: "drop n xs = (ys @ [t]) @ rest" by (metis append_take_drop_id)
  have "n \<le> length xs" using r by (metis Nil_is_append_conv drop_all not_Cons_self2 append_Cons nat_le_linear list.distinct(1) append_is_Nil_conv)
  then have "xs ! (n + length ys) = drop n xs ! length ys" by simp
  then show ?thesis by (simp add: r)
qed

definition fits_node :: "dfa \<Rightarrow> nat \<Rightarrow> rx \<Rightarrow> analysis \<Rightarrow> bool" where
  "fits_node d n r a \<longleftrightarrow> take (tsize r) (drop n (tokens d)) = post r \<and> leaves_ok r \<and> int (length (nullable a)) + height r \<le> max_depth d \<and>
     length (firstpos a) + leaves r \<le> nleaves d \<and> length (lastpos a) + leaves r \<le> nleaves d"

lemma analyze_toks_last [simp]: "Option.bind x (analyze_toks d []) = x"
  by (cases x) simp_all

definition analyzed :: "dfa \<Rightarrow> nat set \<Rightarrow> rx \<Rightarrow> bool" where
  "analyzed d P r \<longleftrightarrow> (\<forall>n a R. fits_node d n r a \<longrightarrow> leaf_positions n r \<subseteq> P \<longrightarrow> table_of R P (follow_sets a) \<longrightarrow>
     (\<exists>fs. analyze_toks d [n..<n + tsize r] a = Some (add_node n r fs a) \<and> table_of (R \<union> follow_of n r) P fs \<and>
        length fs = length (follow_sets a)))"

lemma analyzedE:
  assumes "analyzed d P r" "fits_node d n r a" "leaf_positions n r \<subseteq> P" "table_of R P (follow_sets a)"
  obtains fs where "analyze_toks d [n..<n + tsize r] a = Some (add_node n r fs a)" "table_of (R \<union> follow_of n r) P fs"
    "length fs = length (follow_sets a)"
  using assms unfolding analyzed_def by blast

text \<open>The two arguments of an operator.\<close>

lemma analyze_two:
  assumes r: "analyzed d P r1" "analyzed d P r2" and a: "leaf_positions n r1 \<union> leaf_positions (n + tsize r1) r2 \<subseteq> P" "table_of R P (follow_sets a)"
    and fit: "take (tsize r1 + tsize r2 + 1) (drop n (tokens d)) = post r1 @ post r2 @ [t]" "leaves_ok r1" "leaves_ok r2"
      "int (length (nullable a)) + max (height r1) (1 + height r2) \<le> max_depth d"
      "length (firstpos a) + (leaves r1 + leaves r2) \<le> nleaves d" "length (lastpos a) + (leaves r1 + leaves r2) \<le> nleaves d"
  shows "\<exists>fs1 fs. analyze_toks d [n..<n + (tsize r1 + tsize r2 + 1)] a =
      analyze_tok d (n + (tsize r1 + tsize r2)) (add_node (n + tsize r1) r2 fs (add_node n r1 fs1 a)) \<and>
    tokens d ! (n + (tsize r1 + tsize r2)) = t \<and> table_of (R \<union> follow_of n r1 \<union> follow_of (n + tsize r1) r2) P fs \<and> length fs = length (follow_sets a)"
proof -
  let ?m = "n + tsize r1"
  have t: "tokens d ! (n + (tsize r1 + tsize r2)) = t" "take (tsize r1) (drop n (tokens d)) = post r1" "take (tsize r2) (drop ?m (tokens d)) = post r2"
    using fit(1) take_token[of "post r1 @ post r2" t n "tokens d"] take_two[of "post r1" "post r2" n "tokens d"] by simp_all
  have P: "leaf_positions n r1 \<subseteq> P" "leaf_positions ?m r2 \<subseteq> P" using a(1) by auto
  have f1: "fits_node d n r1 a" using fit t by (auto simp: fits_node_def)
  obtain fs1 where a1: "analyze_toks d [n..<?m] a = Some (add_node n r1 fs1 a)" "table_of (R \<union> follow_of n r1) P fs1" "length fs1 = length (follow_sets a)"
    by (rule analyzedE[OF r(1) f1 P(1) a(2)])
  have f2: "fits_node d ?m r2 (add_node n r1 fs1 a)" using fit t length_first_last[of n r1] by (auto simp: fits_node_def)
  have s1: "table_of (R \<union> follow_of n r1) P (follow_sets (add_node n r1 fs1 a))" using a1(2) by simp
  obtain fs2 where a2: "analyze_toks d [?m..<?m + tsize r2] (add_node n r1 fs1 a) = Some (add_node ?m r2 fs2 (add_node n r1 fs1 a))"
    "table_of (R \<union> follow_of n r1 \<union> follow_of ?m r2) P fs2" "length fs2 = length (follow_sets (add_node n r1 fs1 a))"
    by (rule analyzedE[OF r(2) f2 P(2) s1])
  have "[n..<n + (tsize r1 + tsize r2 + 1)] = [n..<?m] @ [?m..<?m + tsize r2] @ [n + (tsize r1 + tsize r2)]"
    using upt_add_eq_append[of n ?m "tsize r2"] upt_add_eq_append[of n n "tsize r1"] by (simp add: add.assoc)
  then have "analyze_toks d [n..<n + (tsize r1 + tsize r2 + 1)] a =
      analyze_tok d (n + (tsize r1 + tsize r2)) (add_node ?m r2 fs2 (add_node n r1 fs1 a))"
    using a1(1) a2(1) by (simp add: analyze_toks_append)
  then show ?thesis using t(1) a2(2,3) a1(3) by auto
qed

text \<open>The argument of a closure.\<close>

lemma analyze_one:
  assumes r: "analyzed d P r" "leaf_positions n r \<subseteq> P" "table_of R P (follow_sets a)"
    and fit: "take (tsize r + 1) (drop n (tokens d)) = post r @ [t]" "leaves_ok r" "int (length (nullable a)) + height r \<le> max_depth d"
      "length (firstpos a) + leaves r \<le> nleaves d" "length (lastpos a) + leaves r \<le> nleaves d"
  shows "\<exists>fs. analyze_toks d [n..<n + (tsize r + 1)] a = analyze_tok d (n + tsize r) (add_node n r fs a) \<and> tokens d ! (n + tsize r) = t \<and>
    table_of (R \<union> follow_of n r) P fs \<and> length fs = length (follow_sets a)"
proof -
  have t: "tokens d ! (n + tsize r) = t" "fits_node d n r a"
    using fit take_token[of "post r" t n "tokens d"] by (auto simp: fits_node_def)
  obtain fs where "analyze_toks d [n..<n + tsize r] a = Some (add_node n r fs a)" "table_of (R \<union> follow_of n r) P fs" "length fs = length (follow_sets a)"
    by (rule analyzedE[OF r(1) t(2) r(2,3)])
  then show ?thesis using t(1) by (intro exI[of _ fs]) (simp add: analyze_toks_append)
qed

lemma closure_follows_ok':
  assumes "table_of (R \<union> follow_of n r) P fs" "leaf_positions n r \<subseteq> P" "card P \<le> nleaves d"
  shows "\<exists>fs'. closure_follows d (add_node n r fs a) = Some (add_node n r fs' a) \<and> length fs' = length fs \<and> table_of (R \<union> follow_of n (Star r)) P fs'"
  using closure_follows_ok[OF assms, of a] by (simp add: Un_assoc)

lemma analyze_toks_post: "card P \<le> nleaves d \<Longrightarrow> analyzed d P r"
proof (induction r)
  case (Leaf t)
  have "\<exists>fs. analyze_toks d [n..<n + tsize (Leaf t)] a = Some (add_node n (Leaf t) fs a) \<and> table_of (R \<union> follow_of n (Leaf t)) P fs \<and>
    length fs = length (follow_sets a)" if f: "fits_node d n (Leaf t) a" and R: "table_of R P (follow_sets a)" for n a R
  proof -
    have "tokens d ! n = t" using take_token[of "[]" t n "tokens d"] f by (simp add: fits_node_def)
    then have "analyze_tok d n a = leaf_node d n t a" using f
      by (auto simp: analyze_tok_def fits_node_def is_leaf_def is_end_def split: token.splits)
    also have "\<dots> = Some (add_node n (Leaf t) (follow_sets a) a)"
      using f by (cases a) (auto simp: leaf_node_def push_node_def fits_node_def add_node_def mkp_def Let_def)
    finally show ?thesis using R by auto
  qed
  then show ?case by (simp add: analyzed_def)
next
  case Empty
  have "\<exists>fs. analyze_toks d [n..<n + tsize Empty] a = Some (add_node n Empty fs a) \<and> table_of (R \<union> follow_of n Empty) P fs \<and>
    length fs = length (follow_sets a)" if f: "fits_node d n Empty a" and R: "table_of R P (follow_sets a)" for n a R
  proof -
    have "tokens d ! n = EMPTY" using take_token[of "[]" EMPTY n "tokens d"] f by (simp add: fits_node_def)
    then have "analyze_tok d n a = Some (add_node n Empty (follow_sets a) a)" using f
      by (cases a) (auto simp: analyze_tok_def fits_node_def push_node_def add_node_def)
    then show ?thesis using R by auto
  qed
  then show ?case by (simp add: analyzed_def)
next
  case (Conc r1 r2)
  have "\<exists>fs. analyze_toks d [n..<n + tsize (Conc r1 r2)] a = Some (add_node n (Conc r1 r2) fs a) \<and>
    table_of (R \<union> follow_of n (Conc r1 r2)) P fs \<and> length fs = length (follow_sets a)"
    if f: "fits_node d n (Conc r1 r2) a" and P: "leaf_positions n (Conc r1 r2) \<subseteq> P" and R: "table_of R P (follow_sets a)" for n a R
  proof -
    let ?m = "n + tsize r1"
    obtain fs1 fs where x: "analyze_toks d [n..<n + (tsize r1 + tsize r2 + 1)] a =
        analyze_tok d (n + (tsize r1 + tsize r2)) (add_node ?m r2 fs (add_node n r1 fs1 a))"
      "tokens d ! (n + (tsize r1 + tsize r2)) = CAT" "table_of (R \<union> follow_of n r1 \<union> follow_of ?m r2) P fs" "length fs = length (follow_sets a)"
      using analyze_two[OF Conc.IH(1,2)[OF Conc.prems], of n R a CAT] f P R by (auto simp: fits_node_def)
    have "set (last_of n r1) \<subseteq> P" "set (first_of ?m r2) \<subseteq> P" using first_last_positions P by (simp, blast)+
    from add_follows_ok[OF x(3) this Conc.prems] obtain fs3 where fs3:
      "add_follows (nleaves d) (map mkp (first_of ?m r2)) (map mkp (last_of n r1)) fs = Some fs3"
      "table_of (R \<union> follow_of n (Conc r1 r2)) P fs3" "length fs3 = length (follow_sets a)"
      using x(4) by (auto simp: pset_mkp first_last_descending(1) Un_assoc)
    have "analyze_tok d (n + (tsize r1 + tsize r2)) (add_node ?m r2 fs (add_node n r1 fs1 a)) = Some (add_node n (Conc r1 r2) fs3 a)"
      using fs3(1) x(2) by (auto simp: analyze_tok_def cat_node_def)
    then show ?thesis using x(1) fs3(2,3) by (intro exI[of _ fs3]) simp
  qed
  then show ?case by (simp add: analyzed_def)
next
  case (Alt r1 r2)
  have "\<exists>fs. analyze_toks d [n..<n + tsize (Alt r1 r2)] a = Some (add_node n (Alt r1 r2) fs a) \<and>
    table_of (R \<union> follow_of n (Alt r1 r2)) P fs \<and> length fs = length (follow_sets a)"
    if f: "fits_node d n (Alt r1 r2) a" and P: "leaf_positions n (Alt r1 r2) \<subseteq> P" and R: "table_of R P (follow_sets a)" for n a R
  proof -
    let ?m = "n + tsize r1"
    obtain fs1 fs where x: "analyze_toks d [n..<n + (tsize r1 + tsize r2 + 1)] a =
        analyze_tok d (n + (tsize r1 + tsize r2)) (add_node ?m r2 fs (add_node n r1 fs1 a))"
      "tokens d ! (n + (tsize r1 + tsize r2)) = OR'" "table_of (R \<union> follow_of n r1 \<union> follow_of ?m r2) P fs" "length fs = length (follow_sets a)"
      using analyze_two[OF Alt.IH(1,2)[OF Alt.prems], of n R a OR'] f P R by (auto simp: fits_node_def)
    have "analyze_tok d (n + (tsize r1 + tsize r2)) (add_node ?m r2 fs (add_node n r1 fs1 a)) = Some (add_node n (Alt r1 r2) fs a)"
      using x(2) by (auto simp: analyze_tok_def or_node_def)
    then show ?thesis using x(1,3,4) by (intro exI[of _ fs]) (simp add: Un_assoc)
  qed
  then show ?case by (simp add: analyzed_def)
next
  case (Star r)
  have "\<exists>fs. analyze_toks d [n..<n + tsize (Star r)] a = Some (add_node n (Star r) fs a) \<and> table_of (R \<union> follow_of n (Star r)) P fs \<and>
    length fs = length (follow_sets a)"
    if f: "fits_node d n (Star r) a" and P: "leaf_positions n (Star r) \<subseteq> P" and R: "table_of R P (follow_sets a)" for n a R
  proof -
    obtain fs where x: "analyze_toks d [n..<n + (tsize r + 1)] a = analyze_tok d (n + tsize r) (add_node n r fs a)" "tokens d ! (n + tsize r) = STAR"
      "table_of (R \<union> follow_of n r) P fs" "length fs = length (follow_sets a)"
      using analyze_one[OF Star.IH[OF Star.prems], of n R a STAR] f P R by (auto simp: fits_node_def)
    from closure_follows_ok'[OF x(3) _ Star.prems, of a] P obtain fs' where "closure_follows d (add_node n r fs a) = Some (add_node n r fs' a)"
      "length fs' = length fs" "table_of (R \<union> follow_of n (Star r)) P fs'" by auto
    then show ?thesis using x by (intro exI[of _ fs']) (simp add: analyze_tok_def set_nullable_def add_node_def)
  qed
  then show ?case by (simp add: analyzed_def)
next
  case (Plus r)
  have "\<exists>fs. analyze_toks d [n..<n + tsize (Plus r)] a = Some (add_node n (Plus r) fs a) \<and> table_of (R \<union> follow_of n (Plus r)) P fs \<and>
    length fs = length (follow_sets a)"
    if f: "fits_node d n (Plus r) a" and P: "leaf_positions n (Plus r) \<subseteq> P" and R: "table_of R P (follow_sets a)" for n a R
  proof -
    obtain fs where x: "analyze_toks d [n..<n + (tsize r + 1)] a = analyze_tok d (n + tsize r) (add_node n r fs a)" "tokens d ! (n + tsize r) = PLUS"
      "table_of (R \<union> follow_of n r) P fs" "length fs = length (follow_sets a)"
      using analyze_one[OF Plus.IH[OF Plus.prems], of n R a PLUS] f P R by (auto simp: fits_node_def)
    from closure_follows_ok'[OF x(3) _ Plus.prems, of a] P obtain fs' where "closure_follows d (add_node n r fs a) = Some (add_node n r fs' a)"
      "length fs' = length fs" "table_of (R \<union> follow_of n (Plus r)) P fs'" by auto
    then show ?thesis using x by (intro exI[of _ fs']) (simp add: analyze_tok_def add_node_def)
  qed
  then show ?case by (simp add: analyzed_def)
next
  case (Opt r)
  have "\<exists>fs. analyze_toks d [n..<n + tsize (Opt r)] a = Some (add_node n (Opt r) fs a) \<and> table_of (R \<union> follow_of n (Opt r)) P fs \<and>
    length fs = length (follow_sets a)"
    if f: "fits_node d n (Opt r) a" and P: "leaf_positions n (Opt r) \<subseteq> P" and R: "table_of R P (follow_sets a)" for n a R
  proof -
    obtain fs where "analyze_toks d [n..<n + (tsize r + 1)] a = analyze_tok d (n + tsize r) (add_node n r fs a)" "tokens d ! (n + tsize r) = QMARK"
      "table_of (R \<union> follow_of n r) P fs" "length fs = length (follow_sets a)"
      using analyze_one[OF Opt.IH[OF Opt.prems], of n R a QMARK] f P R by (auto simp: fits_node_def)
    then show ?thesis by (intro exI[of _ fs]) (simp add: analyze_tok_def set_nullable_def add_node_def)
  qed
  then show ?case by (simp add: analyzed_def)
qed

section \<open>Sets in ascending order\<close>

text \<open>The array that stands for a finite map from positions to constraints.\<close>

definition canon :: "(nat \<Rightarrow> u32 option) \<Rightarrow> position list" where
  "canon m = map (\<lambda>i. \<lparr>index = i, constraint = the (m i)\<rparr>) (sorted_list_of_set (dom m))"

fun joins :: "position list \<Rightarrow> (nat \<Rightarrow> u32 option) \<Rightarrow> nat \<Rightarrow> u32 option" where
  "joins [] m = m"
| "joins (p # ps) m = joins ps (join_constraints m [index p \<mapsto> constraint p])"

lemma ascending_canon [simp]: "ascending (canon m)"
  by (simp add: ascending_def canon_def comp_def)

lemma set_canon: "finite (dom m) \<Longrightarrow> set (canon m) = {p. m (index p) = Some (constraint p)}"
  by (force simp: canon_def image_iff)

lemma index_canon [simp]: "finite (dom m) \<Longrightarrow> index ` set (canon m) = dom m"
  by (force simp: canon_def image_iff)

lemma length_canon [simp]: "length (canon m) = card (dom m)"
  by (simp add: canon_def)

lemma canon_empty [simp]: "canon (\<lambda>_. None) = []"
  by (simp add: canon_def)

lemma at_pos_canon [simp]:
  assumes "finite (dom m)"
  shows "at_pos (canon m) = m"
proof
  fix i
  show "at_pos (canon m) i = m i"
  proof (cases "m i")
    case None
    then have "i \<notin> index ` set (canon m)" using assms by auto
    then show ?thesis using None by (simp add: at_pos_notin)
  next
    case (Some c)
    then have "\<lparr>index = i, constraint = c\<rparr> \<in> set (canon m)" using assms by (simp add: set_canon)
    then have "(i, c) \<in> set (map (\<lambda>p. (index p, constraint p)) (canon m))" by force
    moreover have "distinct (map fst (map (\<lambda>p. (index p, constraint p)) (canon m)))"
      by (simp add: canon_def comp_def)
    ultimately show ?thesis using Some by (simp add: at_pos_def)
  qed
qed

lemma ascending_is_canon: "ascending s \<Longrightarrow> s = canon (at_pos s)"
  by (rule ascending_unique) auto

lemma dom_join [simp]: "dom (join_constraints a b) = dom a \<union> dom b"
  by (auto simp: join_constraints_def dom_def split: option.splits)

lemma dom_joins [simp]: "dom (joins ps m) = index ` set ps \<union> dom m"
  by (induction ps arbitrary: m) auto

lemma joins_append: "joins (ps @ qs) m = joins qs (joins ps m)"
  by (induction ps arbitrary: m) auto

lemma insert_all_canon:
  assumes "finite (dom m)" "card (index ` set ps \<union> dom m) \<le> room"
  shows "insert_all room ps (canon m) = Some (canon (joins ps m))"
  using assms
proof (induction ps arbitrary: m)
  case (Cons p ps)
  have "index p \<in> index ` set (canon m) \<or> length (canon m) < room"
  proof (cases "index p \<in> dom m")
    case False
    then have "card (dom m) < card (Set.insert (index p) (dom m))" using Cons.prems(1) by simp
    also have "\<dots> \<le> card (index ` set (p # ps) \<union> dom m)" using Cons.prems(1) by (intro card_mono) auto
    finally show ?thesis using Cons.prems(2) by simp
  qed (use Cons.prems(1) in auto)
  from insert_pos_ok[OF ascending_canon this] obtain t where t: "insert_pos room p (canon m) = Some t" "ascending t"
    "at_pos t = join_constraints m [index p \<mapsto> constraint p]" using Cons.prems(1) by auto
  then have "t = canon (join_constraints m [index p \<mapsto> constraint p])" using ascending_is_canon[of t] by simp
  then show ?case using t(1) Cons.IH[of "join_constraints m [index p \<mapsto> constraint p]"] Cons.prems by simp
qed simp

text \<open>The set of positions without constraints.\<close>

definition no_constraints :: "nat set \<Rightarrow> nat \<Rightarrow> u32 option" where
  "no_constraints S i = (if i \<in> S then Some NO_CONSTRAINT else None)"

abbreviation aset :: "nat set \<Rightarrow> position list" where "aset S \<equiv> canon (no_constraints S)"

lemma dom_no_constraints [simp]: "dom (no_constraints S) = S"
  by (auto simp: no_constraints_def dom_def)

lemma aset_mkp: "aset S = map mkp (sorted_list_of_set S)"
proof (cases "finite S")
  case True
  then show ?thesis by (auto simp: canon_def mkp_def no_constraints_def)
next
  case False
  then show ?thesis by (simp add: canon_def)
qed

lemma joins_no_constraints: "joins (map mkp xs) (no_constraints S) = no_constraints (S \<union> set xs)"
proof (induction xs arbitrary: S)
  case (Cons x xs)
  have "join_constraints (no_constraints S) [x \<mapsto> NO_CONSTRAINT] = no_constraints (Set.insert x S)"
    by (auto simp: fun_eq_iff join_constraints_def no_constraints_def)
  then show ?case using Cons by simp
qed simp

lemma no_constraints_empty [simp]: "no_constraints {} = (\<lambda>_. None)"
  by (simp add: no_constraints_def fun_eq_iff)

section \<open>Trees without contexts\<close>

definition plain_leaf :: "token \<Rightarrow> bool" where
  "plain_leaf t = (case t of BYTE _ \<Rightarrow> True | CSET _ \<Rightarrow> True | TEND _ \<Rightarrow> True | _ \<Rightarrow> False)"

fun plain_tree :: "rx \<Rightarrow> bool" where
  "plain_tree (Leaf t) = plain_leaf t"
| "plain_tree Empty = True"
| "plain_tree (Conc a b) = (plain_tree a \<and> plain_tree b)"
| "plain_tree (Alt a b) = (plain_tree a \<and> plain_tree b)"
| "plain_tree (Star a) = plain_tree a"
| "plain_tree (Plus a) = plain_tree a"
| "plain_tree (Opt a) = plain_tree a"

fun leaf_toks :: "rx \<Rightarrow> token set" where
  "leaf_toks (Leaf t) = {t}"
| "leaf_toks Empty = {}"
| "leaf_toks (Conc a b) = leaf_toks a \<union> leaf_toks b"
| "leaf_toks (Alt a b) = leaf_toks a \<union> leaf_toks b"
| "leaf_toks (Star a) = leaf_toks a"
| "leaf_toks (Plus a) = leaf_toks a"
| "leaf_toks (Opt a) = leaf_toks a"

lemma plain_tree_leaves: "plain_tree r \<longleftrightarrow> (\<forall>t \<in> leaf_toks r. plain_leaf t)"
  by (induction r) auto

lemma leaf_positions_toks:
  "take (tsize r) (drop n toks) = post r \<Longrightarrow> p \<in> leaf_positions n r \<Longrightarrow> toks ! p \<in> leaf_toks r"
proof (induction r arbitrary: n)
  case (Leaf t)
  then show ?case using take_token[of "[]" t n toks] by simp
next
  case (Conc a b)
  then show ?case using take_two[of "post a" "post b" n toks] by auto
next
  case (Alt a b)
  then show ?case using take_two[of "post a" "post b" n toks] by auto
next
  case (Star r)
  then show ?case using take_token[of "post r" STAR n toks] by auto
next
  case (Plus r)
  then show ?case using take_token[of "post r" PLUS n toks] by auto
next
  case (Opt r)
  then show ?case using take_token[of "post r" QMARK n toks] by auto
qed auto

lemma plain_positions:
  "plain_tree r \<Longrightarrow> take (tsize r) (drop n toks) = post r \<Longrightarrow> p \<in> leaf_positions n r \<Longrightarrow> plain_leaf (toks ! p)"
  using leaf_positions_toks plain_tree_leaves by blast

lemma plain_not_epsilon: "plain_leaf t \<Longrightarrow> \<not> epsilon_tok t"
  by (auto simp: plain_leaf_def epsilon_tok_def split: token.splits)

lemma epsclosure_plain:
  assumes "\<forall>p \<in> set s. index p < length (tokens d) \<and> plain_leaf (tokens d ! index p)"
  shows "epsclosure d s = Some s"
proof -
  have "epsclosure_from d i v s = Some s" for i v
  proof (induction "length s - i" arbitrary: i)
    case 0
    then show ?case by (simp add: epsclosure_from.simps[of d i v s])
  next
    case (Suc k)
    then have "s ! i \<in> set s" by auto
    then have "index (s ! i) < length (tokens d)" "\<not> epsilon_tok (tokens d ! index (s ! i))" using assms plain_not_epsilon by auto
    moreover have "epsclosure_from d (i + 1) v s = Some s" using Suc by simp
    ultimately show ?case by (simp add: epsclosure_from.simps[of d i v s])
  qed
  then show ?thesis by (simp add: epsclosure_def)
qed

lemma close_follows_plain:
  assumes "\<forall>i \<in> set is. i < length (follows d)" "length (follows d) = length (tokens d)"
    "\<forall>i < length (follows d). length (follows d ! i) \<le> nleaves d \<and>
       (\<forall>p \<in> set (follows d ! i). index p < length (tokens d) \<and> plain_leaf (tokens d ! index p))"
  shows "close_follows is d = Some d"
  using assms(1)
proof (induction "is")
  case (Cons i "is")
  have e: "epsclosure d (follows d ! i) = Some (follows d ! i)" by (rule epsclosure_plain) (use Cons.prems assms in auto)
  have "close_follows is d = Some d" using Cons by simp
  then show ?case using Cons.prems assms(3) e by (simp add: copy_to_def)
qed simp

lemma not_newline_dependent [simp]: "\<not> PREV_NEWLINE_DEPENDENT NO_CONSTRAINT" "\<not> PREV_LETTER_DEPENDENT NO_CONSTRAINT"
  by (simp_all add: PREV_NEWLINE_DEPENDENT_def PREV_LETTER_DEPENDENT_def NO_CONSTRAINT_def)

lemma dfaanalyze_plain:
  assumes t: "tokens d0 = post r" "leaves_ok r" "plain_tree r" "height r \<le> max_depth d0" "leaves r \<le> nleaves d0"
  shows "\<exists>d. dfaanalyze sf d0 = map_option snd (state_index d (aset (set (first_of 0 r))) False False) \<and>
     d = d0\<lparr>searchflag := sf, states := [], follows := map (\<lambda>p. pset (follow_of 0 r `` {p})) [0..<length (tokens d0)]\<rparr>"
proof -
  define d1 where "d1 = d0\<lparr>searchflag := sf, follows := replicate (length (tokens d0)) []\<rparr>"
  define a where "a = \<lparr>nullable = [], nfirstpos = [], firstpos = [], nlastpos = [], lastpos = [], follow_sets = follows d1\<rparr>"
  let ?P = "leaf_positions 0 r"
  have P: "finite ?P" "card ?P \<le> nleaves d0" "?P \<subseteq> {..<length (tokens d0)}" "finite (set (first_of 0 r))" "set (first_of 0 r) \<subseteq> ?P"
    using card_leaf_positions[of 0 r] t(1,5) leaf_positions_bounds[of 0 r] first_last_positions(1) by auto
  have "fits_node d1 0 r a" using t by (simp add: fits_node_def d1_def a_def)
  moreover have "table_of {} ?P (follow_sets a)" using P by (simp add: table_of_def a_def d1_def)
  ultimately obtain fs where fs: "analyze_toks d1 [0..<length (tokens d0)] a = Some (add_node 0 r fs a)"
    "table_of (follow_of 0 r) ?P fs" "length fs = length (tokens d0)"
    using analyze_toks_post[of ?P d1 r] P(2) t(1) unfolding analyzed_def by (fastforce simp: a_def d1_def)
  have fs_eq: "fs = map (\<lambda>p. pset (follow_of 0 r `` {p})) [0..<length (tokens d0)]"
    using fs(2,3) by (intro nth_equalityI) (auto simp: table_of_def)
  define d2 where "d2 = d1\<lparr>follows := fs\<rparr>"
  have d2: "tokens d2 = tokens d0" "nleaves d2 = nleaves d0" "follows d2 = fs" by (simp_all add: d2_def d1_def)
  have im: "finite (follow_of 0 r `` {p})" "follow_of 0 r `` {p} \<subseteq> ?P" for p
  proof -
    show "follow_of 0 r `` {p} \<subseteq> ?P" using follow_positions[of 0 r] by auto
    then show "finite (follow_of 0 r `` {p})" using P(1) finite_subset by blast
  qed
  have pl: "p \<in> ?P \<Longrightarrow> p < length (tokens d0) \<and> plain_leaf (tokens d0 ! p)" for p
    using plain_positions[of r 0 "tokens d0" p] t P(3) by auto
  have c: "close_follows [0..<length (tokens d0)] d2 = Some d2"
  proof (rule close_follows_plain)
    show "\<forall>i < length (follows d2). length (follows d2 ! i) \<le> nleaves d2 \<and>
       (\<forall>p \<in> set (follows d2 ! i). index p < length (tokens d2) \<and> plain_leaf (tokens d2 ! index p))"
    proof (intro allI impI conjI)
      fix i assume i: "i < length (follows d2)"
      then have f: "follows d2 ! i = pset (follow_of 0 r `` {i})" using d2 fs_eq fs(3) by simp
      show "length (follows d2 ! i) \<le> nleaves d2" using f P(1,2) im(2)[of i] card_mono[of ?P "follow_of 0 r `` {i}"] d2 by simp
      show "\<forall>p \<in> set (follows d2 ! i). index p < length (tokens d2) \<and> plain_leaf (tokens d2 ! index p)"
        using f im[of i] pl d2 by auto
    qed
  qed (use d2 fs(3) in auto)
  have "card (set (first_of 0 r)) \<le> nleaves d0" using P card_mono[of ?P "set (first_of 0 r)"] by simp
  then have i: "insert_all (nleaves d0) (map mkp (first_of 0 r)) [] = Some (aset (set (first_of 0 r)))"
    using insert_all_canon[of "no_constraints {}" "map mkp (first_of 0 r)" "nleaves d0"] joins_no_constraints[of "first_of 0 r" "{}"]
    by simp
  have e: "epsclosure d2 (aset (set (first_of 0 r))) = Some (aset (set (first_of 0 r)))"
  proof (rule epsclosure_plain, rule ballI)
    fix p assume "p \<in> set (aset (set (first_of 0 r)))"
    then have "index p \<in> index ` set (aset (set (first_of 0 r)))" by blast
    then have "index p \<in> set (first_of 0 r)" by simp
    then show "index p < length (tokens d2) \<and> plain_leaf (tokens d2 ! index p)" using pl P(5) d2 by auto
  qed
  have w: "\<not> list_ex (\<lambda>p. PREV_NEWLINE_DEPENDENT (constraint p)) (aset (set (first_of 0 r)))"
    by (auto simp: list_ex_iff aset_mkp)
  define d3 where "d3 = d2\<lparr>states := []\<rparr>"
  have "dfaanalyze sf d0 = map_option snd (state_index d3 (aset (set (first_of 0 r))) False False)"
  proof -
    have "dfaanalyze sf d0 =
      do { a' \<leftarrow> analyze_toks d1 [0..<length (tokens d1)] a;
           d \<leftarrow> close_follows [0..<length (tokens d1)] (d1\<lparr>follows := follow_sets a'\<rparr>);
           nf \<leftarrow> top_of (nfirstpos a');
           merged \<leftarrow> insert_all (nleaves d) (take nf (firstpos a')) [];
           merged \<leftarrow> epsclosure d merged;
           (_, d) \<leftarrow> state_index (d\<lparr>states := []\<rparr>) merged (list_ex (\<lambda>p. PREV_NEWLINE_DEPENDENT (constraint p)) merged) False;
           Some d }"
      by (simp only: dfaanalyze_def Let_def d1_def a_def)
    moreover have "tokens d1 = tokens d0" by (simp add: d1_def)
    moreover have "firstpos a = []" by (simp add: a_def)
    ultimately show ?thesis using w
      by (simp add: fs(1) d2_def[symmetric] c d2 top_of_def i e d3_def[symmetric]) (simp add: Option.bind_def map_option_case split: option.splits)
  qed
  moreover have "d3 = d0\<lparr>searchflag := sf, states := [], follows := map (\<lambda>p. pset (follow_of 0 r `` {p})) [0..<length (tokens d0)]\<rparr>"
    by (simp add: d3_def d2_def d1_def fs_eq)
  ultimately show ?thesis by blast
qed

end
