(* ===== verification/Dfa_States.thy ===== *)
theory Dfa_States
  imports Dfa_Tables
begin

text \<open>
  \<open>dfastate\<close> of \<open>dfa.c\<close>: the transitions out of a state.  The positions of the state are divided into groups with disjoint labels;
  each character of a label leads to the state of the follows of the group.  The theorems hold for positions with constraints, too.
\<close>

section \<open>The function\<close>

definition NOTCHAR :: nat where "NOTCHAR = 256"

text \<open>The byte that \<open>make_regexp\<close> passes to \<open>dfasyntax\<close>, and \<open>isalnum\<close> of the C locale.\<close>

definition eolbyte :: u8 where "eolbyte = 10"

definition IS_WORD_CONSTITUENT :: "u8 \<Rightarrow> bool" where
  "IS_WORD_CONSTITUENT c \<longleftrightarrow> 48 \<le> c \<and> c \<le> 57 \<or> 65 \<le> c \<and> c \<le> 90 \<or> 97 \<le> c \<and> c \<le> 122 \<or> c = 95"

definition letters :: charclass where
  "letters = fold (\<lambda>i s. if IS_WORD_CONSTITUENT (word_of_nat i) then setbit i s else s) [0..<NOTCHAR] zeroset"

definition newline_set :: charclass where "newline_set = setbit (unat eolbyte) zeroset"

text \<open>The characters of a class that match in the context of the state.\<close>

definition restrict_matches :: "dfa_state \<Rightarrow> u32 \<Rightarrow> charclass \<Rightarrow> charclass" where
  "restrict_matches st c m =
     (let m = (if \<not> MATCHES_NEWLINE_CONTEXT c (newline st) True then clrbit (unat eolbyte) m else m);
          m = (if \<not> MATCHES_NEWLINE_CONTEXT c (newline st) False then andset m newline_set else m);
          m = (if \<not> MATCHES_LETTER_CONTEXT c (letter st) True then andnot m letters else m)
      in if \<not> MATCHES_LETTER_CONTEXT c (letter st) False then andset m letters else m)"

lemma and_not_less: "(x :: u32) AND y \<noteq> 0 \<Longrightarrow> unat (x AND NOT y) < unat x" "unat (x AND NOT y) \<le> unat x"
proof -
  have le: "x AND NOT y \<le> x" by (rule word_and_le2)
  then show "unat (x AND NOT y) \<le> unat x" by (simp add: word_le_nat_alt)
  assume "x AND y \<noteq> 0"
  moreover have "(x AND NOT y) AND y = 0" by (simp add: bit_eq_iff bit_simps)
  ultimately have "x AND NOT y \<noteq> x" by metis
  then show "unat (x AND NOT y) < unat x" using le by (metis le_neq_trans word_less_nat_alt)
qed

lemma andnot_sum: "sum_list (map unat (andnot m l)) \<le> sum_list (map unat m)"
  "nonzero (andset m l) \<Longrightarrow> sum_list (map unat (andnot m l)) < sum_list (map unat m)"
  unfolding andnot_def andset_def nonzero_def
  by (induction m l rule: list_induct2') (auto intro: add_mono add_less_le_mono add_le_less_mono and_not_less)

type_synonym group = "charclass \<times> position list"

text \<open>The loop over the groups for one position, from group \<open>j\<close>; the result is what is left in \<open>matches\<close>, and the groups.\<close>

function into_groups :: "nat \<Rightarrow> token \<Rightarrow> position \<Rightarrow> nat \<Rightarrow> charclass \<Rightarrow> group list \<Rightarrow> (charclass \<times> group list) option" where
  "into_groups room t pos j matches grps =
     (if j < length grps
      then let (label, es) = grps ! j in
        if (case t of BYTE b \<Rightarrow> \<not> tstbit (unat b) label | _ \<Rightarrow> False) then into_groups room t pos (j + 1) matches grps
        else let intersect = andset matches label in
          if \<not> nonzero intersect then into_groups room t pos (j + 1) matches grps
          else do {
            let leftovers = andnot label matches;
            let matches' = andnot matches label;
            grps1 \<leftarrow>
              (if nonzero leftovers
               then if length grps < NOTCHAR then Some (grps[j := (intersect, es)] @ [(leftovers, es)]) else None
               else Some grps);
            if length es < room
            then let grps2 = grps1[j := (fst (grps1 ! j), es @ [pos])] in
              if \<not> nonzero matches' then Some (matches', grps2) else into_groups room t pos (j + 1) matches' grps2
            else None }
      else if length grps < NOTCHAR \<and> 0 < room then Some (zeroset, grps @ [(matches, [pos])]) else None)"
  by pat_completeness auto
termination
  by (relation "measures [\<lambda>(room, t, pos, j, matches, grps). sum_list (map unat matches), \<lambda>(room, t, pos, j, matches, grps). length grps - j]")
    (auto simp: andnot_sum(2))

declare into_groups.simps [simp del]

text \<open>The loop over the positions of the state; \<open>matches\<close> is zero between two positions.\<close>

fun group_positions :: "dfa \<Rightarrow> dfa_state \<Rightarrow> position list \<Rightarrow> charclass \<Rightarrow> group list \<Rightarrow> group list option" where
  "group_positions d st [] matches grps = Some grps"
| "group_positions d st (pos # ps) matches grps =
     do { t \<leftarrow> rd_at (tokens d) (index pos);
          m \<leftarrow> (case t of
                  BYTE b \<Rightarrow> Some (Some (setbit (unat b) matches))
                | CSET n \<Rightarrow> map_option Some (rd_at (charclasses d) n)
                | _ \<Rightarrow> Some None);
          (case m of
             None \<Rightarrow> group_positions d st ps matches grps
           | Some m \<Rightarrow>
               let m' = (if constraint pos \<noteq> 0xff then restrict_matches st (constraint pos) m else m) in
               if constraint pos \<noteq> 0xff \<and> \<not> nonzero m' then group_positions d st ps m' grps
               else do { (m'', grps') \<leftarrow> into_groups (nleaves d) t pos 0 m' grps; group_positions d st ps m'' grps' }) }"

text \<open>The states for a set of follows, without context, after a newline and after a letter.\<close>

definition context_states :: "dfa \<Rightarrow> position list \<Rightarrow> bool \<Rightarrow> bool \<Rightarrow> (nat \<times> nat \<times> nat \<times> dfa) option" where
  "context_states d s wants_newline wants_letter =
     do { (state, d) \<leftarrow> state_index d s False False;
          (state_newline, d) \<leftarrow> (if wants_newline then state_index d s True False else Some (state, d));
          (state_letter, d) \<leftarrow> (if wants_letter then state_index d s False True else Some (state, d));
          Some (state, state_newline, state_letter, d) }"

fun insert_follows :: "dfa \<Rightarrow> position list \<Rightarrow> position list \<Rightarrow> position list option" where
  "insert_follows d [] s = Some s"
| "insert_follows d (p # ps) s = do { f \<leftarrow> rd_at (follows d) (index p); s \<leftarrow> insert_all (nleaves d) f s; insert_follows d ps s }"

definition set_trans :: "charclass \<Rightarrow> nat \<Rightarrow> nat \<Rightarrow> nat \<Rightarrow> int list \<Rightarrow> int list" where
  "set_trans label state state_newline state_letter tab =
     map (\<lambda>c. if tstbit c label
            then if c = unat eolbyte then int state_newline
              else if IS_WORD_CONSTITUENT (word_of_nat c) then int state_letter else int state
            else tab ! c) [0..<NOTCHAR]"

fun group_trans :: "dfa \<Rightarrow> group list \<Rightarrow> int list \<Rightarrow> (int list \<times> dfa) option" where
  "group_trans d [] tab = Some (tab, d)"
| "group_trans d ((label, es) # grps) tab =
     do { fol \<leftarrow> insert_follows d es [];
          fol \<leftarrow> (if searchflag d then do { st0 \<leftarrow> rd_at (states d) 0; insert_all (nleaves d) (elems st0) fol } else Some fol);
          let wants_newline = tstbit (unat eolbyte) label \<and> list_ex (\<lambda>p. PREV_NEWLINE_DEPENDENT (constraint p)) fol;
          let wants_letter = nonzero (andset label letters) \<and> list_ex (\<lambda>p. PREV_LETTER_DEPENDENT (constraint p)) fol;
          (state, state_newline, state_letter, d) \<leftarrow> context_states d fol wants_newline wants_letter;
          group_trans d grps (set_trans label state state_newline state_letter tab) }"

definition default_trans :: "dfa \<Rightarrow> (int list \<times> dfa) option" where
  "default_trans d =
     (if searchflag d
      then do { st0 \<leftarrow> rd_at (states d) 0;
                fol \<leftarrow> copy_to (nleaves d) (elems st0);
                (state, state_newline, state_letter, d) \<leftarrow> context_states d fol
                  (list_ex (\<lambda>p. PREV_NEWLINE_DEPENDENT (constraint p)) (elems st0))
                  (list_ex (\<lambda>p. PREV_LETTER_DEPENDENT (constraint p)) (elems st0));
                let tab = map (\<lambda>c. if IS_WORD_CONSTITUENT (word_of_nat c) then int state_letter else int state) [0..<NOTCHAR];
                Some (tab[unat eolbyte := int state_newline], d) }
      else Some (replicate NOTCHAR (-1), d))"

definition dfastate :: "nat \<Rightarrow> dfa \<Rightarrow> (int list \<times> dfa) option" where
  "dfastate s d =
     do { st \<leftarrow> rd_at (states d) s;
          grps \<leftarrow> group_positions d st (elems st) zeroset [];
          (tab, d) \<leftarrow> default_trans d;
          group_trans d grps tab }"

section \<open>The states as keys\<close>

type_synonym key = "position list \<times> bool \<times> bool"

definition key_of :: "dfa_state \<Rightarrow> key" where "key_of st = (elems st, newline st, letter st)"

definition fresh_state :: "key \<Rightarrow> dfa_state" where
  "fresh_state k = (case k of (s, nl, lt) \<Rightarrow>
     \<lparr>hash = hash_of s, elems = s, newline = nl, letter = lt, backref = False, st_constraint = 0, first_end = None\<rparr>)"

definition made :: "token list \<Rightarrow> dfa_state \<Rightarrow> bool" where
  "made toks st \<longleftrightarrow> set_accepting toks (elems st) (fresh_state (key_of st)) = Some st"

text \<open>What stays the same while states are added.\<close>

definition more_states :: "dfa \<Rightarrow> dfa \<Rightarrow> bool" where
  "more_states d d' \<longleftrightarrow> (\<exists>xs. d' = d\<lparr>states := states d @ xs\<rparr>)"

lemma more_states_refl [simp]: "more_states d d"
  unfolding more_states_def by (rule exI[of _ "[]"]) simp

lemma more_states_trans: "more_states d d' \<Longrightarrow> more_states d' d'' \<Longrightarrow> more_states d d''"
  unfolding more_states_def by auto

lemma more_states_same:
  assumes "more_states d d'"
  shows "tokens d' = tokens d" "follows d' = follows d" "nleaves d' = nleaves d" "charclasses d' = charclasses d" "searchflag d' = searchflag d"
    "length (states d) \<le> length (states d')" "i < length (states d) \<Longrightarrow> states d' ! i = states d ! i"
  using assms by (auto simp: more_states_def nth_append)

lemma accept_tok_same [simp]:
  "elems (accept_tok t p st) = elems st" "newline (accept_tok t p st) = newline st" "letter (accept_tok t p st) = letter st"
  "hash (accept_tok t p st) = hash st"
  by (simp_all add: accept_tok_def Let_def split: token.split)

lemma set_accepting_same:
  "set_accepting toks ps st = Some st' \<Longrightarrow> elems st' = elems st \<and> newline st' = newline st \<and> letter st' = letter st \<and> hash st' = hash st"
proof (induction ps arbitrary: st)
  case (Cons p ps)
  then obtain t where "set_accepting toks ps (accept_tok t p st) = Some st'" by (auto simp: bind_eq_Some_conv)
  from Cons.IH[OF this] show ?case by simp
qed simp

lemma set_accepting_Some: "\<forall>p \<in> set ps. index p < length toks \<Longrightarrow> \<exists>st'. set_accepting toks ps st = Some st'"
  by (induction ps arbitrary: st) auto

lemma same_state_key:
  assumes "made toks st"
  shows "same_state s (hash_of s) nl lt st \<longleftrightarrow> key_of st = (s, nl, lt)"
proof -
  have h: "hash st = hash_of (elems st)"
    using set_accepting_same[of toks "elems st" "fresh_state (key_of st)" st] assms by (auto simp: made_def fresh_state_def key_of_def)
  have "list_all2 (\<lambda>p q. constraint p = constraint q \<and> index p = index q) s (elems st) \<longleftrightarrow> s = elems st"
  proof -
    have "(\<lambda>p q :: position. constraint p = constraint q \<and> index p = index q) = (=)" by (auto simp: fun_eq_iff)
    then show ?thesis by (simp add: list_all2_eq)
  qed
  then show ?thesis using h by (auto simp: same_state_def key_of_def)
qed

text \<open>States whose positions are in a set \<open>P\<close>.\<close>

definition states_ok :: "nat set \<Rightarrow> dfa \<Rightarrow> bool" where
  "states_ok P d \<longleftrightarrow> finite P \<and> P \<subseteq> {..<length (tokens d)} \<and>
     list_all (\<lambda>st. made (tokens d) st \<and> ascending (elems st) \<and> index ` set (elems st) \<subseteq> P) (states d)"

lemma states_okD:
  assumes "states_ok P d" "i < length (states d)"
  shows "made (tokens d) (states d ! i)" "ascending (elems (states d ! i))" "index ` set (elems (states d ! i)) \<subseteq> P"
  using assms by (auto simp: states_ok_def list_all_length)

lemma state_index_ok:
  assumes "states_ok P d" "ascending s" "index ` set s \<subseteq> P"
  shows "\<exists>i d'. state_index d s nl lt = Some (i, d') \<and> i < length (states d') \<and> key_of (states d' ! i) = (s, nl, lt) \<and>
    more_states d d' \<and> states_ok P d'"
proof (cases "find (\<lambda>i. same_state s (hash_of s) nl lt (states d ! i)) [0..<length (states d)]")
  case (Some i)
  then have i: "i < length (states d)" "same_state s (hash_of s) nl lt (states d ! i)"
    by (auto simp: find_Some_iff)
  then have "key_of (states d ! i) = (s, nl, lt)" using states_okD(1)[OF assms(1) i(1)] same_state_key by blast
  then show ?thesis using i(1) assms(1) Some by (intro exI[of _ i] exI[of _ d]) (simp add: state_index_def Let_def)
next
  case None
  have "\<forall>p \<in> set s. index p < length (tokens d)" using assms(1,3) by (auto simp: states_ok_def)
  then obtain st where st: "set_accepting (tokens d) s (fresh_state (s, nl, lt)) = Some st" using set_accepting_Some by blast
  then have k: "key_of st = (s, nl, lt)" using set_accepting_same[OF st] by (auto simp: key_of_def fresh_state_def)
  then have e: "elems st = s" by (simp add: key_of_def)
  have m: "made (tokens d) st" using st k e by (simp add: made_def)
  have "state_index d s nl lt = Some (length (states d), d\<lparr>states := states d @ [st]\<rparr>)"
    using None st by (simp add: state_index_def fresh_state_def Let_def)
  moreover have "more_states d (d\<lparr>states := states d @ [st]\<rparr>)" by (auto simp: more_states_def)
  moreover have "states_ok P (d\<lparr>states := states d @ [st]\<rparr>)" using assms m e by (simp add: states_ok_def)
  ultimately show ?thesis using k by (intro exI[of _ "length (states d)"] exI[of _ "d\<lparr>states := states d @ [st]\<rparr>"]) simp
qed

lemma context_states_ok:
  assumes "states_ok P d" "ascending s" "index ` set s \<subseteq> P"
  shows "\<exists>i n l d'. context_states d s wn wl = Some (i, n, l, d') \<and> more_states d d' \<and> states_ok P d' \<and>
    i < length (states d') \<and> key_of (states d' ! i) = (s, False, False) \<and>
    n < length (states d') \<and> key_of (states d' ! n) = (s, wn, False) \<and>
    l < length (states d') \<and> key_of (states d' ! l) = (s, False, wl)"
proof -
  from state_index_ok[OF assms, of False False] obtain i d1 where 1: "state_index d s False False = Some (i, d1)" "i < length (states d1)"
    "key_of (states d1 ! i) = (s, False, False)" "more_states d d1" "states_ok P d1" by blast
  obtain n d2 where 2: "(if wn then state_index d1 s True False else Some (i, d1)) = Some (n, d2)" "n < length (states d2)"
    "key_of (states d2 ! n) = (s, wn, False)" "more_states d1 d2" "states_ok P d2"
    using state_index_ok[of P d1 s True False] 1 assms(2,3) by (cases wn) auto
  obtain l d3 where 3: "(if wl then state_index d2 s False True else Some (i, d2)) = Some (l, d3)" "l < length (states d3)"
    "key_of (states d3 ! l) = (s, False, wl)" "more_states d2 d3" "states_ok P d3"
  proof (cases wl)
    case True
    then show ?thesis using that state_index_ok[of P d2 s False True] 2(5) assms(2,3) by auto
  next
    case False
    then show ?thesis using that[of i d2] 1(2,3) 2(4,5) more_states_same(6,7)[OF 2(4)] by auto
  qed
  have "i < length (states d3)" "key_of (states d3 ! i) = (s, False, False)" "n < length (states d3)" "key_of (states d3 ! n) = (s, wn, False)"
    using 1(2,3) 2(2,3) more_states_same(6,7)[OF 2(4)] more_states_same(6,7)[OF 3(4)] by auto
  then show ?thesis using 1 2(1) 3 more_states_trans[OF 1(4) more_states_trans[OF 2(4) 3(4)]] by (auto simp: context_states_def)
qed

section \<open>The groups\<close>

lemma class_ok_sets [simp]: "class_ok letters" "class_ok newline_set"
proof -
  have "class_ok s \<Longrightarrow> class_ok (fold (\<lambda>i s. if IS_WORD_CONSTITUENT (word_of_nat i) then setbit i s else s) xs s)" for xs s
    by (induction xs arbitrary: s) auto
  then show "class_ok letters" unfolding letters_def by simp
  show "class_ok newline_set" by (simp add: newline_set_def)
qed

lemma chars_newline_set [simp]: "chars newline_set = {eolbyte}"
  by (simp add: newline_set_def)

lemma chars_letters [simp]: "chars letters = {c. IS_WORD_CONSTITUENT c}"
proof -
  have f: "chars (fold (\<lambda>i s. if IS_WORD_CONSTITUENT (word_of_nat i) then setbit i s else s) xs s) =
    chars s \<union> {c. unat c \<in> set xs \<and> IS_WORD_CONSTITUENT c}" if "class_ok s" "\<forall>i \<in> set xs. i < 256" for xs s
    using that
  proof (induction xs arbitrary: s)
    case (Cons i xs)
    then have i: "unat (word_of_nat i :: u8) = i" by (simp add: unat_of_nat)
    have w: "c = word_of_nat (unat c)" for c :: u8 by simp
    show ?case
    proof (cases "IS_WORD_CONSTITUENT (word_of_nat i)")
      case True
      have "chars (setbit i s) = Set.insert (word_of_nat i) (chars s)" using chars_setbit[of s "word_of_nat i"] Cons.prems i by simp
      then show ?thesis using Cons True i by auto
    next
      case False
      then show ?thesis using Cons i by auto
    qed
  qed simp
  show ?thesis unfolding letters_def using unat_u8_256 by (subst f) (auto simp: NOTCHAR_def)
qed

lemma restrict_matches_ok [simp]: "class_ok m \<Longrightarrow> class_ok (restrict_matches st c m)"
  by (simp add: restrict_matches_def Let_def)

lemma chars_restrict_matches [simp]:
  "class_ok m \<Longrightarrow> chars (restrict_matches st c m) =
    {x \<in> chars m. MATCHES_NEWLINE_CONTEXT c (newline st) (x = eolbyte) \<and> MATCHES_LETTER_CONTEXT c (letter st) (IS_WORD_CONSTITUENT x)}"
proof (rule set_eqI)
  fix x assume m: "class_ok m"
  show "x \<in> chars (restrict_matches st c m) \<longleftrightarrow>
    x \<in> {x \<in> chars m. MATCHES_NEWLINE_CONTEXT c (newline st) (x = eolbyte) \<and> MATCHES_LETTER_CONTEXT c (letter st) (IS_WORD_CONSTITUENT x)}"
    using m by (cases "x = eolbyte"; cases "IS_WORD_CONSTITUENT x") (simp_all add: restrict_matches_def Let_def)
qed

text \<open>The characters that a position matches in a state.\<close>

definition pos_chars :: "dfa \<Rightarrow> position \<Rightarrow> u8 set" where
  "pos_chars d p = (case tokens d ! index p of BYTE b \<Rightarrow> {b} | CSET n \<Rightarrow> chars (charclasses d ! n) | _ \<Rightarrow> {})"

definition matches_at :: "dfa \<Rightarrow> bool \<Rightarrow> bool \<Rightarrow> u8 \<Rightarrow> position \<Rightarrow> bool" where
  "matches_at d nl lt c p \<longleftrightarrow> c \<in> pos_chars d p \<and> MATCHES_NEWLINE_CONTEXT (constraint p) nl (c = eolbyte) \<and>
     MATCHES_LETTER_CONTEXT (constraint p) lt (IS_WORD_CONSTITUENT c)"

text \<open>Each character with positions is in the label of one group, whose positions are \<open>f c\<close>.\<close>

definition groups_inv :: "(u8 \<Rightarrow> position list) \<Rightarrow> group list \<Rightarrow> bool" where
  "groups_inv f grps \<longleftrightarrow> (\<forall>(l, es) \<in> set grps. class_ok l \<and> chars l \<noteq> {} \<and> (\<forall>c \<in> chars l. es = f c \<and> f c \<noteq> [])) \<and>
     sorted_wrt (\<lambda>g h. chars (fst g) \<inter> chars (fst h) = {}) grps \<and> (\<forall>c. f c \<noteq> [] \<longrightarrow> (\<exists>(l, es) \<in> set grps. c \<in> chars l))"

lemma groups_bound:
  assumes "sorted_wrt (\<lambda>g h. chars (fst g) \<inter> chars (fst h) = {}) grps" "\<forall>g \<in> set grps. chars (fst g) \<noteq> {}"
  shows "length grps \<le> NOTCHAR"
proof -
  have "\<forall>i < length grps. \<exists>c. c \<in> chars (fst (grps ! i))" using assms(2) by fastforce
  then obtain h where h: "\<forall>i < length grps. h i \<in> chars (fst (grps ! i))" by metis
  have "inj_on h {..<length grps}"
  proof (rule inj_onI)
    fix i j assume ij: "i \<in> {..<length grps}" "j \<in> {..<length grps}" "h i = h j"
    show "i = j"
    proof (rule ccontr)
      assume "i \<noteq> j"
      have dis: "chars (fst (grps ! k)) \<inter> chars (fst (grps ! m)) = {}" if "k < m" "m < length grps" for k m
        using sorted_wrt_nth_less[OF assms(1) that] .
      have "h i \<in> chars (fst (grps ! i)) \<inter> chars (fst (grps ! j))" using h ij by (metis IntI lessThan_iff)
      then show False using dis[of i j] dis[of j i] ij \<open>i \<noteq> j\<close> by (cases "i < j") auto
    qed
  qed
  then have "card {..<length grps} \<le> card (UNIV :: u8 set)" by (intro card_inj_on_le) auto
  then show ?thesis by (simp add: NOTCHAR_def card_word)
qed

lemma groups_inv_bound: "groups_inv f grps \<Longrightarrow> length grps \<le> NOTCHAR"
  by (rule groups_bound) (auto simp: groups_inv_def)

text \<open>A group is divided: the position joins those for the characters that it matches.\<close>

lemma groups_inv_split:
  assumes inv: "groups_inv f (xs @ (l, es) # ys)"
    and l1: "class_ok l1" "chars l1 = chars l \<inter> M" "chars l1 \<noteq> {}"
    and extra: "chars l \<subseteq> M \<and> extra = [] \<or> (\<exists>l2. extra = [(l2, es)] \<and> class_ok l2 \<and> chars l2 = chars l - M \<and> chars l2 \<noteq> {})"
  shows "groups_inv (\<lambda>c. if c \<in> chars l \<inter> M then f c @ [p] else f c) (xs @ (l1, es @ [p]) # ys @ extra)"
proof -
  have sw: "sorted_wrt (\<lambda>g h. chars (fst g) \<inter> chars (fst h) = {}) (xs @ (l, es) # ys)"
    and all: "\<forall>(l, es) \<in> set (xs @ (l, es) # ys). class_ok l \<and> chars l \<noteq> {} \<and> (\<forall>c \<in> chars l. es = f c \<and> f c \<noteq> [])"
    using inv unfolding groups_inv_def by blast+
  have d: "\<forall>g \<in> set xs \<union> set ys. chars (fst g) \<inter> chars l = {}" using sw by (auto simp: sorted_wrt_append)
  have old: "\<forall>(l', es') \<in> set xs \<union> set ys. class_ok l' \<and> chars l' \<noteq> {} \<and> (\<forall>c \<in> chars l'. es' = f c \<and> f c \<noteq> [])"
    using all by simp
  have es: "\<forall>c \<in> chars l. es = f c \<and> f c \<noteq> []" using all by simp
  have ex: "\<forall>(l', es') \<in> set extra. class_ok l' \<and> chars l' \<noteq> {} \<and> chars l' = chars l - M \<and> es' = es"
    using extra by (elim disjE exE conjE) simp_all
  show ?thesis unfolding groups_inv_def
  proof (intro conjI)
    show "\<forall>(l', es') \<in> set (xs @ (l1, es @ [p]) # ys @ extra). class_ok l' \<and> chars l' \<noteq> {} \<and>
      (\<forall>c \<in> chars l'. es' = (if c \<in> chars l \<inter> M then f c @ [p] else f c) \<and> (if c \<in> chars l \<inter> M then f c @ [p] else f c) \<noteq> [])"
    proof (rule ballI, clarify)
      fix l' es' assume "(l', es') \<in> set (xs @ (l1, es @ [p]) # ys @ extra)"
      then consider "(l', es') \<in> set xs \<union> set ys" | "l' = l1" "es' = es @ [p]" | "(l', es') \<in> set extra" by auto
      then show "class_ok l' \<and> chars l' \<noteq> {} \<and>
        (\<forall>c \<in> chars l'. es' = (if c \<in> chars l \<inter> M then f c @ [p] else f c) \<and> (if c \<in> chars l \<inter> M then f c @ [p] else f c) \<noteq> [])"
      proof cases
        case 1
        then have "chars l' \<inter> chars l = {}" using bspec[OF d, of "(l', es')"] by simp
        then show ?thesis using bspec[OF old 1] by auto
      next
        case 2
        then show ?thesis using l1 es by auto
      next
        case 3
        then show ?thesis using bspec[OF ex 3] es by auto
      qed
    qed
    show "sorted_wrt (\<lambda>g h. chars (fst g) \<inter> chars (fst h) = {}) (xs @ (l1, es @ [p]) # ys @ extra)"
    proof -
      have s: "sorted_wrt (\<lambda>g h. chars (fst g) \<inter> chars (fst h) = {}) xs" "sorted_wrt (\<lambda>g h. chars (fst g) \<inter> chars (fst h) = {}) ys"
        "\<forall>g \<in> set xs. \<forall>h \<in> set ys. chars (fst g) \<inter> chars (fst h) = {}" using sw by (simp_all add: sorted_wrt_append)
      have e: "extra = [] \<or> (\<exists>l2. extra = [(l2, es)] \<and> chars l2 = chars l - M)" using extra by blast
      have d1: "\<forall>g \<in> set xs. chars (fst g) \<inter> chars l1 = {}" "\<forall>g \<in> set ys. chars l1 \<inter> chars (fst g) = {}"
        using d l1(2) by blast+
      have d2: "\<forall>g \<in> set xs \<union> set ys. \<forall>h \<in> set extra. chars (fst g) \<inter> chars (fst h) = {}" "\<forall>h \<in> set extra. chars l1 \<inter> chars (fst h) = {}"
        using d e l1(2) by (elim disjE exE conjE; simp; blast)+
      have "sorted_wrt (\<lambda>g h. chars (fst g) \<inter> chars (fst h) = {}) extra" using e by auto
      then show ?thesis using s d1 d2 by (simp add: sorted_wrt_append ball_Un)
    qed
    show "\<forall>c. (if c \<in> chars l \<inter> M then f c @ [p] else f c) \<noteq> [] \<longrightarrow> (\<exists>(l', es') \<in> set (xs @ (l1, es @ [p]) # ys @ extra). c \<in> chars l')"
    proof (intro allI impI)
      fix c assume c: "(if c \<in> chars l \<inter> M then f c @ [p] else f c) \<noteq> []"
      show "\<exists>(l', es') \<in> set (xs @ (l1, es @ [p]) # ys @ extra). c \<in> chars l'"
      proof (cases "c \<in> chars l")
        case True
        then show ?thesis using l1(2) extra by auto
      next
        case False
        then have "f c \<noteq> []" using c by simp
        then have "\<exists>(l', es') \<in> set (xs @ (l, es) # ys). c \<in> chars l'" using inv unfolding groups_inv_def by blast
        then show ?thesis using False by auto
      qed
    qed
  qed
qed

text \<open>A group is added for the characters that no group has.\<close>

lemma groups_inv_add:
  assumes "groups_inv f grps" "class_ok m" "chars m \<noteq> {}" "\<forall>g \<in> set grps. chars (fst g) \<inter> chars m = {}"
  shows "groups_inv (\<lambda>c. if c \<in> chars m then f c @ [p] else f c) (grps @ [(m, [p])])"
proof -
  have n: "f c = []" if "c \<in> chars m" for c
  proof (rule ccontr)
    assume "f c \<noteq> []"
    then obtain l es where "(l, es) \<in> set grps" "c \<in> chars l" using assms(1) unfolding groups_inv_def by blast
    then show False using assms(4) that by fastforce
  qed
  have old: "c \<notin> chars m" if "(l, es) \<in> set grps" "c \<in> chars l" for l es c using that assms(4) by fastforce
  have o1: "class_ok l \<and> chars l \<noteq> {} \<and> (\<forall>c \<in> chars l. es = f c \<and> f c \<noteq> [])" if "(l, es) \<in> set grps" for l es
    using assms(1) that unfolding groups_inv_def by blast
  have o3: "\<exists>(l, es) \<in> set grps. c \<in> chars l" if "f c \<noteq> []" for c using assms(1) that unfolding groups_inv_def by blast
  show ?thesis unfolding groups_inv_def
  proof (intro conjI)
    show "\<forall>(l, es) \<in> set (grps @ [(m, [p])]). class_ok l \<and> chars l \<noteq> {} \<and>
      (\<forall>c \<in> chars l. es = (if c \<in> chars m then f c @ [p] else f c) \<and> (if c \<in> chars m then f c @ [p] else f c) \<noteq> [])"
      using o1 old n assms(2,3) by auto
    show "sorted_wrt (\<lambda>g h. chars (fst g) \<inter> chars (fst h) = {}) (grps @ [(m, [p])])"
      using assms(1,4) by (auto simp: groups_inv_def sorted_wrt_append)
    show "\<forall>c. (if c \<in> chars m then f c @ [p] else f c) \<noteq> [] \<longrightarrow> (\<exists>(l, es) \<in> set (grps @ [(m, [p])]). c \<in> chars l)"
      using o3 by auto
  qed
qed

lemma groups_inv_at:
  assumes "groups_inv f grps" "j < length grps" "grps ! j = (l, es)"
  shows "class_ok l" "chars l \<noteq> {}" "c \<in> chars l \<Longrightarrow> es = f c" "grps = take j grps @ (l, es) # drop (Suc j) grps"
proof -
  have "(l, es) \<in> set grps" using assms(2,3) by (metis nth_mem)
  then have "class_ok l \<and> chars l \<noteq> {} \<and> (\<forall>c \<in> chars l. es = f c \<and> f c \<noteq> [])" using assms(1) unfolding groups_inv_def by blast
  then show "class_ok l" "chars l \<noteq> {}" "c \<in> chars l \<Longrightarrow> es = f c" by blast+
  show "grps = take j grps @ (l, es) # drop (Suc j) grps" using assms(2,3) by (metis id_take_nth_drop)
qed

text \<open>One step of the loop divides group \<open>j\<close>.\<close>

lemma into_groups_step:
  assumes inv: "groups_inv f grps" "class_ok m" "j < length grps" "grps ! j = (l, es)" "chars l \<inter> chars m \<noteq> {}"
    and t: "case t of BYTE b \<Rightarrow> chars m = {b} | _ \<Rightarrow> True" and room: "\<forall>c \<in> chars m. length (f c) < room"
  shows "\<exists>l1 extra. class_ok l1 \<and> chars l1 = chars l \<inter> chars m \<and>
     groups_inv (\<lambda>c. if c \<in> chars l \<inter> chars m then f c @ [p] else f c) (take j grps @ (l1, es @ [p]) # drop (Suc j) grps @ extra) \<and>
     into_groups room t p j m grps =
       (if chars m \<subseteq> chars l then Some (zeroset, take j grps @ (l1, es @ [p]) # drop (Suc j) grps @ extra)
        else into_groups room t p (j + 1) (andnot m l) (take j grps @ (l1, es @ [p]) # drop (Suc j) grps @ extra))"
proof -
  note at = groups_inv_at[OF inv(1,3,4)]
  have l: "class_ok l" using at(1) .
  have g: "grps = take j grps @ (l, es) # drop (Suc j) grps" using at(4) .
  have i: "nonzero (andset m l)" using inv(2,5) l by (simp add: Int_commute)
  have skip: "\<not> (case t of BYTE b \<Rightarrow> \<not> tstbit (unat b) l | _ \<Rightarrow> False)"
    using t inv(5) by (auto simp: chars_def split: token.splits)
  have es: "length es < room"
  proof -
    obtain c where "c \<in> chars l" "c \<in> chars m" using inv(5) by blast
    then show ?thesis using at(3)[of c] room by simp
  qed
  have m': "nonzero (andnot m l) \<longleftrightarrow> \<not> chars m \<subseteq> chars l" using inv(2) l by auto
  have z: "andnot m l = zeroset" if "chars m \<subseteq> chars l"
    by (subst chars_inj[symmetric]) (use that inv(2) l in auto)
  show ?thesis
  proof (cases "nonzero (andnot l m)")
    case False
    then have sub: "chars l \<subseteq> chars m" using inv(2) l by auto
    have "groups_inv (\<lambda>c. if c \<in> chars l \<inter> chars m then f c @ [p] else f c) (take j grps @ (l, es @ [p]) # drop (Suc j) grps @ [])"
      by (rule groups_inv_split) (use inv(1) g l sub at(2) in auto)
    moreover have "grps[j := (l, es @ [p])] = take j grps @ (l, es @ [p]) # drop (Suc j) grps"
      using inv(3) by (simp add: upd_conv_take_nth_drop)
    ultimately show ?thesis using inv(3,4) skip i es False m' l sub z
      by (intro exI[of _ l] exI[of _ "[]"]) (auto simp: into_groups.simps[of room t p j m grps] Let_def)
  next
    case True
    let ?g = "take j grps @ (andset m l, es @ [p]) # drop (Suc j) grps @ [(andnot l m, es)]"
    have inv': "groups_inv (\<lambda>c. if c \<in> chars l \<inter> chars m then f c @ [p] else f c) ?g"
      by (rule groups_inv_split) (use inv(1,2,5) g l True in auto)
    have "length ?g \<le> NOTCHAR" using groups_inv_bound[OF inv'] .
    then have n: "length grps < NOTCHAR" using inv(3) by simp
    have "(grps[j := (andset m l, es)] @ [(andnot l m, es)])[j := (andset m l, es @ [p])] = ?g"
      using inv(3) by (simp add: list_update_append upd_conv_take_nth_drop)
    then show ?thesis using inv(2,3,4) inv' skip i es True m' l n z
      by (intro exI[of _ "andset m l"] exI[of _ "[(andnot l m, es)]"])
        (auto simp: into_groups.simps[of room t p j m grps] Let_def nth_append)
  qed
qed

lemma into_groups_ok:
  assumes "groups_inv f grps" "class_ok m" "chars m \<noteq> {}" "case t of BYTE b \<Rightarrow> chars m = {b} | _ \<Rightarrow> True"
    "\<forall>c \<in> chars m. length (f c) < room" "\<forall>i < j. i < length grps \<longrightarrow> chars (fst (grps ! i)) \<inter> chars m = {}"
  shows "\<exists>grps'. into_groups room t p j m grps = Some (zeroset, grps') \<and> groups_inv (\<lambda>c. if c \<in> chars m then f c @ [p] else f c) grps'"
  using assms
proof (induction "length grps - j + 300 * card (chars m)" arbitrary: f j m grps rule: less_induct)
  case less
  show ?case
  proof (cases "j < length grps")
    case False
    have "\<forall>i < length grps. chars (fst (grps ! i)) \<inter> chars m = {}" using less.prems(6) False by simp
    then have d: "\<forall>g \<in> set grps. chars (fst g) \<inter> chars m = {}" by (metis in_set_conv_nth)
    have inv: "groups_inv (\<lambda>c. if c \<in> chars m then f c @ [p] else f c) (grps @ [(m, [p])])"
      by (rule groups_inv_add[OF less.prems(1,2,3) d])
    then have "length grps < NOTCHAR" using groups_inv_bound[OF inv] by simp
    moreover have "0 < room" using less.prems(3,5) by fastforce
    ultimately show ?thesis using inv False by (simp add: into_groups.simps[of room t p j m grps])
  next
    case True
    obtain l es where l: "grps ! j = (l, es)" by (cases "grps ! j") auto
    note at = groups_inv_at[OF less.prems(1) True l]
    show ?thesis
    proof (cases "chars l \<inter> chars m = {}")
      case dis: True
      have "\<not> nonzero (andset m l)" using at(1) less.prems(2) dis by (simp add: Int_commute)
      then have e: "into_groups room t p j m grps = into_groups room t p (j + 1) m grps"
        using True l by (simp add: into_groups.simps[of room t p j m grps] Let_def)
      have "\<forall>i < j + 1. i < length grps \<longrightarrow> chars (fst (grps ! i)) \<inter> chars m = {}"
        using less.prems(6) dis l by (auto simp: less_Suc_eq)
      then show ?thesis unfolding e using less.hyps[of grps "j + 1" m f] less.prems True by simp
    next
      case False
      obtain l1 extra where s: "class_ok l1" "chars l1 = chars l \<inter> chars m"
        "groups_inv (\<lambda>c. if c \<in> chars l \<inter> chars m then f c @ [p] else f c) (take j grps @ (l1, es @ [p]) # drop (Suc j) grps @ extra)"
        "into_groups room t p j m grps =
         (if chars m \<subseteq> chars l then Some (zeroset, take j grps @ (l1, es @ [p]) # drop (Suc j) grps @ extra)
          else into_groups room t p (j + 1) (andnot m l) (take j grps @ (l1, es @ [p]) # drop (Suc j) grps @ extra))"
        using into_groups_step[OF less.prems(1,2) True l False less.prems(4,5)] by blast
      define g2 where "g2 = take j grps @ (l1, es @ [p]) # drop (Suc j) grps @ extra"
      define f2 where "f2 = (\<lambda>c. if c \<in> chars l \<inter> chars m then f c @ [p] else f c)"
      show ?thesis
      proof (cases "chars m \<subseteq> chars l")
        case True
        have "f2 = (\<lambda>c. if c \<in> chars m then f c @ [p] else f c)" using True by (auto simp: f2_def fun_eq_iff)
        then show ?thesis using s(3,4) True by (auto simp: f2_def)
      next
        case sub: False
        have cm: "chars (andnot m l) = chars m - chars l" using less.prems(2) at(1) by simp
        have inv2: "groups_inv f2 g2" using s(3) by (simp add: f2_def g2_def)
        have t2: "case t of BYTE b \<Rightarrow> chars (andnot m l) = {b} | _ \<Rightarrow> True" using less.prems(4) cm sub by (auto split: token.splits)
        have "card (chars (andnot m l)) < card (chars m)" using cm False by (intro psubset_card_mono) auto
        moreover have "length g2 \<le> 256" using groups_inv_bound[OF inv2] by (simp add: NOTCHAR_def)
        ultimately have dec: "length g2 - (j + 1) + 300 * card (chars (andnot m l)) < length grps - j + 300 * card (chars m)" by simp
        have prev: "\<forall>i < j + 1. i < length g2 \<longrightarrow> chars (fst (g2 ! i)) \<inter> chars (andnot m l) = {}"
        proof (intro allI impI)
          fix i assume "i < j + 1" "i < length g2"
          then consider "i < j" | "i = j" by linarith
          then show "chars (fst (g2 ! i)) \<inter> chars (andnot m l) = {}"
          proof cases
            case 1
            then have "g2 ! i = grps ! i" using True by (simp add: g2_def nth_append)
            then show ?thesis using less.prems(6) 1 True cm by auto
          next
            case 2
            then have "g2 ! i = (l1, es @ [p])" using True by (simp add: g2_def nth_append)
            then show ?thesis using s(2) cm by auto
          qed
        qed
        have "class_ok (andnot m l)" "chars (andnot m l) \<noteq> {}" "\<forall>c \<in> chars (andnot m l). length (f2 c) < room"
          using less.prems(2,5) at(1) cm sub by (auto simp: f2_def)
        from less.hyps[OF dec inv2 this(1,2) t2 this(3) prev] obtain grps' where
          "into_groups room t p (j + 1) (andnot m l) g2 = Some (zeroset, grps')"
          "groups_inv (\<lambda>c. if c \<in> chars (andnot m l) then f2 c @ [p] else f2 c) grps'" by blast
        moreover have "(\<lambda>c. if c \<in> chars (andnot m l) then f2 c @ [p] else f2 c) = (\<lambda>c. if c \<in> chars m then f c @ [p] else f c)"
          using cm by (auto simp: f2_def fun_eq_iff)
        ultimately show ?thesis using s(4) sub by (simp add: g2_def)
      qed
    qed
  qed
qed

section \<open>The groups of a state\<close>

text \<open>Classes that have a character, and follow sets in \<open>P\<close>.\<close>

definition dfa_ok :: "nat set \<Rightarrow> dfa \<Rightarrow> bool" where
  "dfa_ok P d \<longleftrightarrow> states_ok P d \<and> card P \<le> nleaves d \<and> states d \<noteq> [] \<and> length (follows d) = length (tokens d) \<and>
     (\<forall>f \<in> set (follows d). index ` set f \<subseteq> P) \<and>
     (\<forall>n. CSET n \<in> set (tokens d) \<longrightarrow> n < length (charclasses d) \<and> class_ok (charclasses d ! n) \<and> chars (charclasses d ! n) \<noteq> {})"

lemma no_constraint_matches [simp]: "MATCHES_NEWLINE_CONTEXT 0xff a b" "MATCHES_LETTER_CONTEXT 0xff a b"
  by (cases a; cases b; simp add: MATCHES_NEWLINE_CONTEXT_def MATCHES_LETTER_CONTEXT_def)+

lemma group_positions_ok:
  assumes d: "\<forall>n. CSET n \<in> set (tokens d) \<longrightarrow> n < length (charclasses d) \<and> class_ok (charclasses d ! n) \<and> chars (charclasses d ! n) \<noteq> {}"
    and "groups_inv f grps" "\<forall>p \<in> set ps. index p < length (tokens d)" "\<forall>c. length (f c) + length ps \<le> nleaves d"
  shows "\<exists>grps'. group_positions d st ps zeroset grps = Some grps' \<and>
    groups_inv (\<lambda>c. f c @ filter (matches_at d (newline st) (letter st) c) ps) grps'"
  using assms(2-)
proof (induction ps arbitrary: f grps)
  case (Cons p ps)
  let ?m = "matches_at d (newline st) (letter st)"
  have p: "index p < length (tokens d)" using Cons.prems(2) by simp
  have cl: "n < length (charclasses d) \<and> class_ok (charclasses d ! n) \<and> chars (charclasses d ! n) \<noteq> {}" if "tokens d ! index p = CSET n" for n
    using d p that by (metis nth_mem)
  have len: "\<forall>c. length (f c) + length ps \<le> nleaves d" "\<forall>c. length (f c) < nleaves d"
    using Cons.prems(3) by (simp_all add: Suc_le_eq less_imp_le) (meson add_lessD1)
  show ?case
  proof (cases "\<exists>m. (case tokens d ! index p of BYTE b \<Rightarrow> Some (Some (setbit (unat b) zeroset))
      | CSET n \<Rightarrow> map_option Some (rd_at (charclasses d) n) | _ \<Rightarrow> Some None) = Some (Some m)")
    case False
    then have e: "pos_chars d p = {}" "group_positions d st (p # ps) zeroset grps = group_positions d st ps zeroset grps"
      using cl p by (auto simp: pos_chars_def split: token.splits)
    then have "\<not> ?m c p" for c by (simp add: matches_at_def)
    then show ?thesis unfolding e(2) using Cons.IH[OF Cons.prems(1)] Cons.prems(2) len(1) by simp
  next
    case True
    then obtain m where m: "(case tokens d ! index p of BYTE b \<Rightarrow> Some (Some (setbit (unat b) zeroset))
      | CSET n \<Rightarrow> map_option Some (rd_at (charclasses d) n) | _ \<Rightarrow> Some None) = Some (Some m)" by blast
    have cm: "class_ok m" "chars m = pos_chars d p" "chars m \<noteq> {}"
      using m cl by (auto simp: pos_chars_def arr_simps split: token.splits)
    define m' where "m' = (if constraint p \<noteq> 0xff then restrict_matches st (constraint p) m else m)"
    have cm': "class_ok m'" "chars m' = {c. ?m c p}" using cm by (auto simp: m'_def matches_at_def)
    have e: "group_positions d st (p # ps) zeroset grps =
      (if constraint p \<noteq> 0xff \<and> \<not> nonzero m' then group_positions d st ps m' grps
       else do { (m'', grps') \<leftarrow> into_groups (nleaves d) (tokens d ! index p) p 0 m' grps; group_positions d st ps m'' grps' })"
      using p m by (simp add: m'_def Let_def)
    show ?thesis
    proof (cases "chars m' = {}")
      case True
      then have "constraint p \<noteq> 0xff" using cm by (auto simp: m'_def)
      moreover have "m' = zeroset" using True cm'(1) by (subst chars_inj[symmetric]) auto
      ultimately have "group_positions d st (p # ps) zeroset grps = group_positions d st ps zeroset grps" using e True cm'(1) by simp
      moreover have "\<not> ?m c p" for c using True cm'(2) by auto
      ultimately show ?thesis using Cons.IH[OF Cons.prems(1)] Cons.prems(2) len(1) by simp
    next
      case False
      have t: "case tokens d ! index p of BYTE b \<Rightarrow> chars m' = {b} | _ \<Rightarrow> True"
        using False cm'(2) by (auto simp: matches_at_def pos_chars_def split: token.splits)
      obtain grps' where g: "into_groups (nleaves d) (tokens d ! index p) p 0 m' grps = Some (zeroset, grps')"
        "groups_inv (\<lambda>c. if c \<in> chars m' then f c @ [p] else f c) grps'"
        using into_groups_ok[OF Cons.prems(1) cm'(1) False t, of "nleaves d" 0 p] len(2) by auto
      have "\<forall>c. length (if c \<in> chars m' then f c @ [p] else f c) + length ps \<le> nleaves d" using Cons.prems(3) len(1) by auto
      from Cons.IH[OF g(2) _ this] Cons.prems(2) obtain grps'' where g2: "group_positions d st ps zeroset grps' = Some grps''"
        "groups_inv (\<lambda>c. (if c \<in> chars m' then f c @ [p] else f c) @ filter (?m c) ps) grps''" by auto
      have "(\<lambda>c. (if c \<in> chars m' then f c @ [p] else f c) @ filter (?m c) ps) = (\<lambda>c. f c @ filter (?m c) (p # ps))"
        using cm'(2) by (auto simp: fun_eq_iff)
      then show ?thesis using e g(1) g2 False cm'(1) by simp
    qed
  qed
qed simp

section \<open>The transitions\<close>

text \<open>The state after a character when the positions \<open>es\<close> match it.\<close>

definition follow_list :: "dfa \<Rightarrow> position list \<Rightarrow> position list" where
  "follow_list d es = concat (map (\<lambda>p. follows d ! index p) es) @ (if searchflag d then elems (states d ! 0) else [])"

definition context_key :: "position list \<Rightarrow> u8 \<Rightarrow> key" where
  "context_key s c = (s, c = eolbyte \<and> list_ex (\<lambda>p. PREV_NEWLINE_DEPENDENT (constraint p)) s,
     IS_WORD_CONSTITUENT c \<and> list_ex (\<lambda>p. PREV_LETTER_DEPENDENT (constraint p)) s)"

definition key_after :: "dfa \<Rightarrow> position list \<Rightarrow> u8 \<Rightarrow> key" where
  "key_after d es c = context_key (canon (joins (follow_list d es) (\<lambda>_. None))) c"

definition entry_ok :: "dfa \<Rightarrow> int list \<Rightarrow> u8 \<Rightarrow> key \<Rightarrow> bool" where
  "entry_ok d tab c k \<longleftrightarrow> 0 \<le> tab ! unat c \<and> nat (tab ! unat c) < length (states d) \<and> key_of (states d ! nat (tab ! unat c)) = k"

lemma entry_ok_more: "entry_ok d tab c k \<Longrightarrow> more_states d d' \<Longrightarrow> entry_ok d' tab c k"
  using more_states_same(6,7)[of d d'] by (auto simp: entry_ok_def)

lemma eolbyte_no_word [simp]: "\<not> IS_WORD_CONSTITUENT eolbyte"
  by (simp add: IS_WORD_CONSTITUENT_def eolbyte_def)

lemma insert_all_append: "insert_all room (xs @ ys) s = do { s \<leftarrow> insert_all room xs s; insert_all room ys s }"
  by (induction xs arbitrary: s) (auto split: Option.bind_splits)

lemma insert_follows_concat:
  "\<forall>p \<in> set es. index p < length (follows d) \<Longrightarrow>
    insert_follows d es s = insert_all (nleaves d) (concat (map (\<lambda>p. follows d ! index p) es)) s"
  by (induction es arbitrary: s) (auto simp: insert_all_append split: Option.bind_splits)

lemma dfa_ok_more: "dfa_ok P d \<Longrightarrow> more_states d d' \<Longrightarrow> states_ok P d' \<Longrightarrow> dfa_ok P d'"
  using more_states_same[of d d'] by (auto simp: dfa_ok_def more_states_def)

lemma follow_list_positions:
  assumes "dfa_ok P d" "index ` set es \<subseteq> P"
  shows "index ` set (follow_list d es) \<subseteq> P"
proof -
  have P: "P \<subseteq> {..<length (follows d)}" using assms(1) by (auto simp: dfa_ok_def states_ok_def)
  have "index ` set (follows d ! index p) \<subseteq> P" if "p \<in> set es" for p
  proof -
    have "index p < length (follows d)" using assms(2) that P by auto
    then show ?thesis using assms(1) unfolding dfa_ok_def by (meson nth_mem)
  qed
  moreover have "index ` set (elems (states d ! 0)) \<subseteq> P" using assms(1) states_okD(3)[of P d 0] by (auto simp: dfa_ok_def)
  ultimately show ?thesis by (auto simp: follow_list_def)
qed

lemma follow_set_ok:
  assumes "dfa_ok P d" "index ` set es \<subseteq> P"
  shows "do { fol \<leftarrow> insert_follows d es [];
              (if searchflag d then do { st0 \<leftarrow> rd_at (states d) 0; insert_all (nleaves d) (elems st0) fol } else Some fol) } =
           Some (canon (joins (follow_list d es) (\<lambda>_. None)))"
    "index ` set (canon (joins (follow_list d es) (\<lambda>_. None))) \<subseteq> P"
proof -
  have fp: "index ` set (follow_list d es) \<subseteq> P" using follow_list_positions[OF assms] .
  have fin: "finite P" "card P \<le> nleaves d" using assms(1) by (auto simp: dfa_ok_def states_ok_def)
  have "insert_all (nleaves d) (follow_list d es) (canon (\<lambda>_. None)) = Some (canon (joins (follow_list d es) (\<lambda>_. None)))"
    by (rule insert_all_canon) (use fp fin card_mono[of P "index ` set (follow_list d es)"] in auto)
  moreover have "\<forall>p \<in> set es. index p < length (follows d)" using assms by (auto simp: dfa_ok_def states_ok_def)
  moreover have "0 < length (states d)" using assms(1) by (simp add: dfa_ok_def)
  ultimately show "do { fol \<leftarrow> insert_follows d es [];
              (if searchflag d then do { st0 \<leftarrow> rd_at (states d) 0; insert_all (nleaves d) (elems st0) fol } else Some fol) } =
           Some (canon (joins (follow_list d es) (\<lambda>_. None)))"
    by (simp add: insert_follows_concat follow_list_def insert_all_append split: if_splits)
  show "index ` set (canon (joins (follow_list d es) (\<lambda>_. None))) \<subseteq> P" using fp by simp
qed

lemma unat_u8_eq [simp]: "unat (a :: u8) = unat b \<longleftrightarrow> a = b"
  by (metis unsigned_word_eqI)

lemma set_trans_simps [simp]:
  "length (set_trans label i n l tab) = NOTCHAR"
  "set_trans label i n l tab ! unat (c :: u8) =
    (if c \<in> chars label then if c = eolbyte then int n else if IS_WORD_CONSTITUENT c then int l else int i else tab ! unat c)"
  using unat_u8_256[of c] by (auto simp: set_trans_def NOTCHAR_def chars_def)

lemma group_trans_ok:
  assumes "dfa_ok P d" "\<forall>(l, es) \<in> set grps. class_ok l \<and> index ` set es \<subseteq> P" "length tab = NOTCHAR"
  shows "\<exists>tab' d'. group_trans d grps tab = Some (tab', d') \<and> more_states d d' \<and> dfa_ok P d' \<and> length tab' = NOTCHAR \<and>
    (\<forall>c. (\<exists>(l, es) \<in> set grps. c \<in> chars l \<and> entry_ok d' tab' c (key_after d es c)) \<or>
         (\<forall>(l, es) \<in> set grps. c \<notin> chars l) \<and> tab' ! unat c = tab ! unat c)"
  using assms
proof (induction grps arbitrary: d tab)
  case Nil
  then show ?case by auto
next
  case (Cons g grps)
  obtain l es where g: "g = (l, es)" by (cases g)
  have le: "class_ok l" "index ` set es \<subseteq> P" using Cons.prems(2) g by auto
  define s where "s = canon (joins (follow_list d es) (\<lambda>_. None))"
  note fs = follow_set_ok[OF Cons.prems(1) le(2), folded s_def]
  define wn where "wn \<longleftrightarrow> tstbit (unat eolbyte) l \<and> list_ex (\<lambda>p. PREV_NEWLINE_DEPENDENT (constraint p)) s"
  define wl where "wl \<longleftrightarrow> nonzero (andset l letters) \<and> list_ex (\<lambda>p. PREV_LETTER_DEPENDENT (constraint p)) s"
  have "states_ok P d" using Cons.prems(1) by (simp add: dfa_ok_def)
  from context_states_ok[OF this _ fs(2), of wn wl] obtain i n m d1 where c: "context_states d s wn wl = Some (i, n, m, d1)"
    "more_states d d1" "states_ok P d1" "i < length (states d1)" "key_of (states d1 ! i) = (s, False, False)"
    "n < length (states d1)" "key_of (states d1 ! n) = (s, wn, False)" "m < length (states d1)" "key_of (states d1 ! m) = (s, False, wl)"
    by (auto simp: s_def)
  have ok1: "dfa_ok P d1" using dfa_ok_more[OF Cons.prems(1) c(2,3)] .
  have e: "group_trans d (g # grps) tab = group_trans d1 grps (set_trans l i n m tab)"
  proof -
    have "group_trans d (g # grps) tab =
      do { fol \<leftarrow> do { fol \<leftarrow> insert_follows d es [];
              (if searchflag d then do { st0 \<leftarrow> rd_at (states d) 0; insert_all (nleaves d) (elems st0) fol } else Some fol) };
           (state, state_newline, state_letter, d) \<leftarrow> context_states d fol
             (tstbit (unat eolbyte) l \<and> list_ex (\<lambda>p. PREV_NEWLINE_DEPENDENT (constraint p)) fol)
             (nonzero (andset l letters) \<and> list_ex (\<lambda>p. PREV_LETTER_DEPENDENT (constraint p)) fol);
           group_trans d grps (set_trans l state state_newline state_letter tab) }"
      by (simp add: g Let_def)
    then show ?thesis by (simp only: fs(1)) (simp add: c(1) flip: wn_def wl_def)
  qed
  have f: "follow_list d1 es' = follow_list d es'" for es'
    using more_states_same[OF c(2)] Cons.prems(1) by (simp add: follow_list_def dfa_ok_def)
  have "length (set_trans l i n m tab) = NOTCHAR" by simp
  from Cons.IH[OF ok1 _ this] Cons.prems(2) obtain tab' d' where r: "group_trans d1 grps (set_trans l i n m tab) = Some (tab', d')"
    "more_states d1 d'" "dfa_ok P d'" "length tab' = NOTCHAR"
    "\<forall>c. (\<exists>(l, es) \<in> set grps. c \<in> chars l \<and> entry_ok d' tab' c (key_after d es c)) \<or>
         (\<forall>(l, es) \<in> set grps. c \<notin> chars l) \<and> tab' ! unat c = set_trans l i n m tab ! unat c"
    by (auto simp: key_after_def f)
  have "(\<exists>(l, es) \<in> set (g # grps). ch \<in> chars l \<and> entry_ok d' tab' ch (key_after d es ch)) \<or>
         (\<forall>(l, es) \<in> set (g # grps). ch \<notin> chars l) \<and> tab' ! unat ch = tab ! unat ch" for ch
  proof (cases "\<exists>(l, es) \<in> set grps. ch \<in> chars l \<and> entry_ok d' tab' ch (key_after d es ch)")
    case True
    then show ?thesis by auto
  next
    case False
    then have n1: "\<forall>(l, es) \<in> set grps. ch \<notin> chars l" and t1: "tab' ! unat ch = set_trans l i n m tab ! unat ch"
      using r(5) by blast+
    show ?thesis
    proof (cases "ch \<in> chars l")
      case True
      have cs: "eolbyte \<in> chars l \<longleftrightarrow> tstbit (unat eolbyte) l" by (simp add: chars_def)
      have cl: "IS_WORD_CONSTITUENT ch \<Longrightarrow> nonzero (andset l letters)" using True le(1) by auto
      have "entry_ok d1 (set_trans l i n m tab) ch (key_after d es ch)"
      proof -
        have "entry_ok d1 (set_trans l i n m tab) ch (s, ch = eolbyte \<and> wn, IS_WORD_CONSTITUENT ch \<and> wl)"
          using c(4-9) True by (auto simp: entry_ok_def)
        moreover have "key_after d es ch = (s, ch = eolbyte \<and> wn, IS_WORD_CONSTITUENT ch \<and> wl)"
          using True cs cl by (auto simp: key_after_def context_key_def wn_def wl_def simp flip: s_def)
        ultimately show ?thesis by simp
      qed
      from entry_ok_more[OF this r(2)] have "entry_ok d' tab' ch (key_after d es ch)" by (simp only: entry_ok_def t1)
      then show ?thesis using True g by auto
    next
      case False
      then show ?thesis using n1 t1 g by auto
    qed
  qed
  then show ?case using e r(1,3,4) more_states_trans[OF c(2) r(2)] by auto
qed

lemma default_trans_ok:
  assumes "dfa_ok P d"
  shows "\<exists>tab d'. default_trans d = Some (tab, d') \<and> more_states d d' \<and> dfa_ok P d' \<and> length tab = NOTCHAR \<and>
    (\<forall>c. if searchflag d then entry_ok d' tab c (key_after d [] c) else tab ! unat c = -1)"
proof (cases "searchflag d")
  case False
  then show ?thesis using assms by (auto simp: default_trans_def NOTCHAR_def unat_u8_256)
next
  case True
  define s where "s = elems (states d ! 0)"
  have n: "0 < length (states d)" "states_ok P d" using assms by (auto simp: dfa_ok_def)
  note s0 = states_okD[OF n(2,1), folded s_def]
  have "card (index ` set s) = length s"
  proof -
    have "distinct (map index s)" using s0(2) by (simp add: ascending_def strict_sorted_iff)
    then show ?thesis using distinct_card[of "map index s"] by simp
  qed
  then have "length s \<le> card P" using card_mono[OF _ s0(3)] assms by (simp add: dfa_ok_def states_ok_def)
  then have cp: "copy_to (nleaves d) s = Some s" using assms by (simp add: copy_to_def dfa_ok_def)
  have cs: "canon (joins (follow_list d []) (\<lambda>_. None)) = s"
  proof -
    have "joins s (at_pos []) = at_pos s" if "ascending s" for s
    proof -
      have "joins s m = (\<lambda>i. case at_pos s i of None \<Rightarrow> m i | Some c \<Rightarrow> Some c)" if "ascending s" "dom m \<inter> index ` set s = {}" for m
        using that
      proof (induction s arbitrary: m)
        case (Cons p s)
        have m: "join_constraints m [index p \<mapsto> constraint p] = m(index p \<mapsto> constraint p)"
          using Cons.prems(2) by (auto simp: fun_eq_iff join_constraints_def split: option.splits)
        have "at_pos s (index p) = None" using Cons.prems(1) by (intro at_pos_notin) auto
        moreover have "dom (m(index p \<mapsto> constraint p)) \<inter> index ` set s = {}" using Cons.prems by auto
        ultimately show ?case using Cons m by (auto simp: fun_eq_iff split: option.splits)
      qed auto
      from this[of "at_pos []"] that show ?thesis by (auto simp: fun_eq_iff split: option.splits)
    qed
    then show ?thesis using s0(2) ascending_is_canon[of s] True by (simp add: follow_list_def s_def)
  qed
  define wn where "wn \<longleftrightarrow> list_ex (\<lambda>p. PREV_NEWLINE_DEPENDENT (constraint p)) s"
  define wl where "wl \<longleftrightarrow> list_ex (\<lambda>p. PREV_LETTER_DEPENDENT (constraint p)) s"
  from context_states_ok[OF n(2) s0(2,3), of wn wl] obtain i m l d1 where c: "context_states d s wn wl = Some (i, m, l, d1)"
    "more_states d d1" "states_ok P d1" "i < length (states d1)" "key_of (states d1 ! i) = (s, False, False)"
    "m < length (states d1)" "key_of (states d1 ! m) = (s, wn, False)" "l < length (states d1)" "key_of (states d1 ! l) = (s, False, wl)"
    by blast
  define tab where "tab = (map (\<lambda>c. if IS_WORD_CONSTITUENT (word_of_nat c) then int l else int i) [0..<NOTCHAR])[unat eolbyte := int m]"
  have e: "default_trans d = Some (tab, d1)"
    using True n(1) cp c(1) by (simp add: default_trans_def tab_def Let_def flip: s_def wn_def wl_def)
  have t: "tab ! unat ch = (if ch = eolbyte then int m else if IS_WORD_CONSTITUENT ch then int l else int i)" for ch :: u8
    using unat_u8_256[of ch] by (auto simp: tab_def NOTCHAR_def nth_upd)
  have "entry_ok d1 tab ch (key_after d [] ch)" for ch
    using c t[of ch] by (auto simp: entry_ok_def key_after_def cs context_key_def wn_def wl_def)
  then show ?thesis using e True c(2) dfa_ok_more[OF assms c(2,3)] by (auto simp: tab_def)
qed

text \<open>The positions of a state that match a character.\<close>

definition matching :: "dfa \<Rightarrow> key \<Rightarrow> u8 \<Rightarrow> position list" where
  "matching d k c = (case k of (s, nl, lt) \<Rightarrow> filter (matches_at d nl lt c) s)"

text \<open>C10: The transitions of state \<open>s\<close> lead to the state of the follows of the positions that match the character in the context of the
  state, with those of state 0 for a searching matcher; if no position matches, to the state of the latter or to -1.
\<close>

theorem dfastate_ok:
  assumes "dfa_ok P d" "s < length (states d)"
  shows "\<exists>tab d'. dfastate s d = Some (tab, d') \<and> more_states d d' \<and> dfa_ok P d' \<and> length tab = NOTCHAR \<and>
    (\<forall>c. let es = matching d (key_of (states d ! s)) c in
       if es = [] \<and> \<not> searchflag d then tab ! unat c = -1 else entry_ok d' tab c (key_after d es c))"
proof -
  define st where "st = states d ! s"
  have so: "states_ok P d" using assms(1) by (simp add: dfa_ok_def)
  note st_ok = states_okD[OF so assms(2), folded st_def]
  have ix: "\<forall>p \<in> set (elems st). index p < length (tokens d)" using st_ok(3) so by (auto simp: states_ok_def)
  have "card (index ` set (elems st)) = length (elems st)"
  proof -
    have "distinct (map index (elems st))" using st_ok(2) by (simp add: ascending_def strict_sorted_iff)
    then show ?thesis using distinct_card[of "map index (elems st)"] by simp
  qed
  then have len: "length (elems st) \<le> nleaves d" using card_mono[OF _ st_ok(3)] assms(1) by (simp add: dfa_ok_def states_ok_def)
  let ?f = "\<lambda>c. filter (matches_at d (newline st) (letter st) c) (elems st)"
  have "groups_inv (\<lambda>c. []) []" by (simp add: groups_inv_def)
  from group_positions_ok[OF _ this ix, of st] assms(1) len obtain grps where g: "group_positions d st (elems st) zeroset [] = Some grps"
    "groups_inv ?f grps" by (auto simp: dfa_ok_def)
  obtain tab0 d0 where d0: "default_trans d = Some (tab0, d0)" "more_states d d0" "dfa_ok P d0" "length tab0 = NOTCHAR"
    "\<forall>c. if searchflag d then entry_ok d0 tab0 c (key_after d [] c) else tab0 ! unat c = -1" using default_trans_ok[OF assms(1)] by blast
  have gi: "class_ok l \<and> chars l \<noteq> {} \<and> (\<forall>c \<in> chars l. es = ?f c \<and> ?f c \<noteq> [])" if "(l, es) \<in> set grps" for l es
    using g(2) that unfolding groups_inv_def by blast
  have gc: "\<exists>(l, es) \<in> set grps. c \<in> chars l" if "?f c \<noteq> []" for c using g(2) that unfolding groups_inv_def by blast
  have "\<forall>(l, es) \<in> set grps. class_ok l \<and> index ` set es \<subseteq> P"
  proof (rule ballI, clarify)
    fix l es assume les: "(l, es) \<in> set grps"
    then obtain c where "c \<in> chars l" "es = ?f c" using gi[OF les] by blast
    then have "index ` set es \<subseteq> P" using st_ok(3) by auto
    then show "class_ok l \<and> index ` set es \<subseteq> P" using gi[OF les] by blast
  qed
  from group_trans_ok[OF d0(3) this d0(4)] obtain tab d' where r: "group_trans d0 grps tab0 = Some (tab, d')" "more_states d0 d'" "dfa_ok P d'"
    "length tab = NOTCHAR"
    "\<forall>c. (\<exists>(l, es) \<in> set grps. c \<in> chars l \<and> entry_ok d' tab c (key_after d0 es c)) \<or>
         (\<forall>(l, es) \<in> set grps. c \<notin> chars l) \<and> tab ! unat c = tab0 ! unat c" by blast
  have f: "key_after d0 es c = key_after d es c" for es c
    using more_states_same[OF d0(2)] assms(1) by (simp add: key_after_def follow_list_def dfa_ok_def)
  have "let es = matching d (key_of st) c in if es = [] \<and> \<not> searchflag d then tab ! unat c = -1 else entry_ok d' tab c (key_after d es c)" for c
  proof (cases "\<exists>(l, es) \<in> set grps. c \<in> chars l \<and> entry_ok d' tab c (key_after d0 es c)")
    case True
    then obtain l es where les: "(l, es) \<in> set grps" "c \<in> chars l" "entry_ok d' tab c (key_after d es c)" using f by auto
    then have "es = ?f c" "?f c \<noteq> []" using gi[OF les(1)] by blast+
    then show ?thesis using les(3) by (simp add: matching_def key_of_def)
  next
    case False
    then have n: "\<forall>(l, es) \<in> set grps. c \<notin> chars l" "tab ! unat c = tab0 ! unat c" using r(5) by blast+
    then have e: "?f c = []" using gc[of c] by fastforce
    have "entry_ok d' tab c (key_after d [] c)" if "searchflag d"
    proof -
      have "entry_ok d0 tab0 c (key_after d [] c)" using d0(5) that by auto
      from entry_ok_more[OF this r(2)] show ?thesis by (simp only: entry_ok_def n(2))
    qed
    moreover have "\<not> searchflag d \<Longrightarrow> tab ! unat c = -1" using d0(5) n(2) by auto
    ultimately show ?thesis using e by (simp add: matching_def key_of_def)
  qed
  then show ?thesis using assms(2) g(1) d0(1) r(1,3,4) more_states_trans[OF d0(2) r(2)] by (auto simp: dfastate_def st_def)
qed

end
