(* ===== verification/Dfa_Exec.thy ===== *)
theory Dfa_Exec
  imports Dfa_States
begin

text \<open>
  The matcher of \<open>dfa.c\<close>: \<open>build_state\<close> computes the transition table of a state when it is first needed, \<open>dfaexec\<close> runs over the
  text.  It returns the first place where the positions of the state accept in the context of the next character, whichever tables
  exist.
\<close>

section \<open>The functions\<close>

text \<open>
  The tables: \<open>trans\<close> and \<open>fails\<close> (\<open>None\<close> for \<open>NULL\<close>), \<open>success\<close> and \<open>newlines\<close> (\<open>None\<close> where they were never written), of
  length \<open>tralloc\<close>.
\<close>

record matcher = dfa +
  tralloc :: nat
  trcount :: nat
  trans_tabs :: "int list option list"
  fails :: "int list option list"
  success :: "u32 option list"
  newlines :: "int option list"

definition ACCEPTS_IN_CONTEXT :: "bool \<Rightarrow> bool \<Rightarrow> bool \<Rightarrow> bool \<Rightarrow> dfa_state \<Rightarrow> bool" where
  "ACCEPTS_IN_CONTEXT prevn currn prevl currl st = SUCCEEDS_IN_CONTEXT (ucast (st_constraint st)) prevn currn prevl currl"

definition ACCEPTING :: "dfa_state \<Rightarrow> bool" where "ACCEPTING st \<longleftrightarrow> st_constraint st \<noteq> 0"

definition success_bits :: "dfa_state \<Rightarrow> u32" where
  "success_bits st =
     (let b = 0;
          b = (if ACCEPTS_IN_CONTEXT (newline st) True (letter st) False st then b OR 4 else b);
          b = (if ACCEPTS_IN_CONTEXT (newline st) False (letter st) True st then b OR 2 else b)
      in if ACCEPTS_IN_CONTEXT (newline st) False (letter st) False st then b OR 1 else b)"

function double_until :: "nat \<Rightarrow> nat \<Rightarrow> nat" where
  "double_until t a = (if t < a \<or> a = 0 then a else double_until t (2 * a))"
  by auto
termination by (relation "measure (\<lambda>(t, a). t + 1 - a)") auto

declare double_until.simps [simp del]

definition grow_tables :: "int \<Rightarrow> matcher \<Rightarrow> matcher" where
  "grow_tables t m =
     (if t \<ge> int (tralloc m)
      then let a = double_until (nat t) (tralloc m); k = a - tralloc m in
        m\<lparr>tralloc := a, trans_tabs := trans_tabs m @ replicate k None, fails := fails m @ replicate k None,
          success := success m @ replicate k None, newlines := newlines m @ replicate k None\<rparr>
      else m)"

definition forget_tables :: "matcher \<Rightarrow> matcher" where
  "forget_tables m =
     (if trcount m \<ge> 1024
      then m\<lparr>trans_tabs := replicate (tralloc m) None, fails := replicate (tralloc m) None, trcount := 0\<rparr>
      else m)"

definition build_state :: "nat \<Rightarrow> matcher \<Rightarrow> matcher option" where
  "build_state s m =
     do {
       let m = forget_tables m;
       let m = m\<lparr>trcount := trcount m + 1\<rparr>;
       st \<leftarrow> rd_at (states m) s;
       suc \<leftarrow> wr_at (success m) s (Some (success_bits st));
       let m = m\<lparr>success := suc\<rparr>;
       (tab, d) \<leftarrow> dfastate s (dfa.truncate m);
       let m = fold grow_tables tab (m\<lparr>states := states d\<rparr>);
       nls \<leftarrow> wr_at (newlines m) s (Some (tab ! unat eolbyte));
       let tab = tab[unat eolbyte := -1];
       if ACCEPTING st
       then do { f \<leftarrow> wr_at (fails m) s (Some tab); Some (m\<lparr>newlines := nls, fails := f\<rparr>) }
       else do { t \<leftarrow> wr_at (trans_tabs m) s (Some tab); Some (m\<lparr>newlines := nls, trans_tabs := t\<rparr>) } }"

definition build_state_zero :: "matcher \<Rightarrow> matcher option" where
  "build_state_zero m =
     build_state 0 (m\<lparr>tralloc := 1, trcount := 0, trans_tabs := [None], fails := [None], success := [None], newlines := [None]\<rparr>)"

definition sbit :: "u8 \<Rightarrow> u32" where "sbit c = (if c = eolbyte then 4 else if IS_WORD_CONSTITUENT c then 2 else 1)"

text \<open>\<open>trans[-1]\<close> is \<open>NULL\<close>.\<close>

definition trans_of :: "matcher \<Rightarrow> int \<Rightarrow> int list option option" where
  "trans_of m s = (if s = -1 then Some None else if s < 0 then None else rd_at (trans_tabs m) (nat s))"

text \<open>The inner loop, two characters at a time; the result is \<open>s\<close>, \<open>s1\<close> and \<open>p\<close>.\<close>

function run_tables :: "u8 list \<Rightarrow> matcher \<Rightarrow> int \<Rightarrow> int \<Rightarrow> nat \<Rightarrow> (int \<times> int \<times> nat) option" where
  "run_tables buf m s s1 p =
     do {
       t \<leftarrow> trans_of m s;
       (case t of
          None \<Rightarrow> Some (s, s1, p)
        | Some t \<Rightarrow>
            do { c \<leftarrow> rd_at buf p;
                 s1 \<leftarrow> rd_at t (unat c);
                 t' \<leftarrow> trans_of m s1;
                 (case t' of
                    None \<Rightarrow> Some (s1, s, p + 1)
                  | Some t' \<Rightarrow>
                      do { c \<leftarrow> rd_at buf (p + 1);
                           s \<leftarrow> rd_at t' (unat c);
                           run_tables buf m s s1 (p + 2) }) }) }"
  by pat_completeness auto
termination by (relation "measure (\<lambda>(buf, m, s, s1, p). length buf - p)") (auto simp: arr_simps)

declare run_tables.simps [simp del]

text \<open>The result: the place after the match, \<open>backref\<close>, \<open>count\<close> and the tables.  The buffer has the sentinel at its end.\<close>

partial_function (option) exec_loop ::
    "u8 list \<Rightarrow> bool \<Rightarrow> matcher \<Rightarrow> int \<Rightarrow> int \<Rightarrow> nat \<Rightarrow> nat \<Rightarrow> (nat option \<times> bool option \<times> nat \<times> matcher) option" where
  "exec_loop buf nl m s s1 p count =
     do {
       (s, s1, p) \<leftarrow> run_tables buf m s s1 p;
       f \<leftarrow> (if s \<ge> 0 \<and> p < length buf then rd_at (fails m) (nat s) else Some None);
       (case f of
          Some t \<Rightarrow>
            do { b \<leftarrow> rd_at (success m) (nat s);
                 b \<leftarrow> b;
                 if b AND sbit (buf ! p) \<noteq> 0
                 then do { st \<leftarrow> rd_at (states m) (nat s); Some (Some p, Some (backref st), count, m) }
                 else do { s' \<leftarrow> rd_at t (unat (buf ! p)); exec_loop buf nl m s' s (p + 1) count } }
        | None \<Rightarrow>
            do { count \<leftarrow> (if p < length buf
                   then (if p = 0 then None else Some (if buf ! (p - 1) = eolbyte then count + 1 else count))
                   else Some count);
                 if p \<ge> length buf then Some (None, None, count, m)
                 else if s \<ge> 0 then do { m \<leftarrow> build_state (nat s) m; exec_loop buf nl m s s1 p count }
                 else if buf ! (p - 1) = eolbyte \<and> nl
                 then do { s' \<leftarrow> (if s1 < 0 then None else rd_at (newlines m) (nat s1)); s' \<leftarrow> s'; exec_loop buf nl m s' s1 p count }
                 else exec_loop buf nl m 0 s1 p count }) }"

declare exec_loop.simps [code]

definition dfaexec :: "matcher \<Rightarrow> u8 list \<Rightarrow> bool \<Rightarrow> (nat option \<times> bool option \<times> nat \<times> matcher) option" where
  "dfaexec m text nl =
     do { m \<leftarrow> (if tralloc m = 0 then build_state_zero m else Some m);
          exec_loop (text @ [eolbyte]) nl m 0 0 0 0 }"

text \<open>A matcher without tables.\<close>

definition matcher_of :: "dfa \<Rightarrow> matcher" where
  "matcher_of d = dfa.extend d \<lparr>tralloc = 0, trcount = 0, trans_tabs = [], fails = [], success = [], newlines = []\<rparr>"

section \<open>The keys along a text\<close>

definition next_key :: "dfa \<Rightarrow> key \<Rightarrow> u8 \<Rightarrow> key" where "next_key d k c = key_after d (matching d k c) c"

definition key_at :: "dfa \<Rightarrow> u8 list \<Rightarrow> nat \<Rightarrow> key" where
  "key_at d buf p = foldl (next_key d) (key_of (states d ! 0)) (take p buf)"

lemma key_at_Suc: "p < length buf \<Longrightarrow> key_at d buf (Suc p) = next_key d (key_at d buf p) (buf ! p)"
  by (simp add: key_at_def take_Suc_conv_app_nth)

lemma key_at_0 [simp]: "key_at d buf 0 = key_of (states d ! 0)"
  by (simp add: key_at_def)

lemma pos_chars_more: "more_states d d' \<Longrightarrow> pos_chars d' p = pos_chars d p"
  using more_states_same(1,4)[of d d'] by (simp add: pos_chars_def split: token.split)

lemma next_key_more:
  assumes "more_states d d'" "states d \<noteq> []"
  shows "next_key d' k c = next_key d k c"
proof -
  have "matches_at d' = matches_at d"
    by (simp add: fun_eq_iff matches_at_def pos_chars_more[OF assms(1)])
  then have "matching d' k c = matching d k c" by (simp add: matching_def split: prod.splits)
  moreover have "follow_list d' es = follow_list d es" for es
    using more_states_same[OF assms(1)] assms(2) by (simp add: follow_list_def)
  ultimately show ?thesis by (simp add: next_key_def key_after_def)
qed

text \<open>Whether a state with this key accepts before the character \<open>c\<close>.\<close>

definition state_of_key :: "token list \<Rightarrow> key \<Rightarrow> dfa_state" where
  "state_of_key toks k = the (set_accepting toks (fst k) (fresh_state k))"

definition key_accepts :: "token list \<Rightarrow> key \<Rightarrow> u8 \<Rightarrow> bool" where
  "key_accepts toks k c \<longleftrightarrow>
     ACCEPTS_IN_CONTEXT (fst (snd k)) (c = eolbyte) (snd (snd k)) (IS_WORD_CONSTITUENT c) (state_of_key toks k)"

lemma made_state: "made toks st \<Longrightarrow> st = state_of_key toks (key_of st)"
  by (simp add: made_def state_of_key_def key_of_def)

lemma success_bits_accept:
  assumes "made toks st"
  shows "success_bits st AND sbit c \<noteq> 0 \<longleftrightarrow> key_accepts toks (key_of st) c"
proof -
  have "key_accepts toks (key_of st) c \<longleftrightarrow> ACCEPTS_IN_CONTEXT (newline st) (c = eolbyte) (letter st) (IS_WORD_CONSTITUENT c) st"
    using made_state[OF assms] by (simp add: key_accepts_def key_of_def)
  then show ?thesis by (simp add: success_bits_def sbit_def Let_def)
qed

lemma not_accepting: "made toks st \<Longrightarrow> \<not> ACCEPTING st \<Longrightarrow> \<not> key_accepts toks (key_of st) c"
  using made_state[of toks st]
  by (simp add: key_accepts_def ACCEPTING_def ACCEPTS_IN_CONTEXT_def SUCCEEDS_IN_CONTEXT_def MATCHES_NEWLINE_CONTEXT_def)

section \<open>The tables\<close>

text \<open>
  The states are those of an automaton \<open>d\<close> and more.  A table leads from its state to the states of the next keys, after the byte
  \<open>eolbyte\<close> through \<open>newlines\<close>; a state in \<open>trans\<close> does not accept, for one in \<open>fails\<close> the bits of \<open>success\<close> are set.
\<close>

definition tables_size :: "matcher \<Rightarrow> bool" where
  "tables_size m \<longleftrightarrow> 0 < tralloc m \<and> length (trans_tabs m) = tralloc m \<and> length (fails m) = tralloc m \<and>
     length (success m) = tralloc m \<and> length (newlines m) = tralloc m"

definition has_key :: "matcher \<Rightarrow> int \<Rightarrow> key \<Rightarrow> bool" where
  "has_key m v k \<longleftrightarrow> 0 \<le> v \<and> nat v < tralloc m \<and> nat v < length (states m) \<and> key_of (states m ! nat v) = k"

definition newline_ok :: "dfa \<Rightarrow> matcher \<Rightarrow> nat \<Rightarrow> bool" where
  "newline_ok d m s \<longleftrightarrow> s < tralloc m \<and> s < length (states m) \<and>
     (\<exists>v. newlines m ! s = Some v \<and> has_key m v (next_key d (key_of (states m ! s)) eolbyte))"

definition table_ok :: "dfa \<Rightarrow> matcher \<Rightarrow> nat \<Rightarrow> int list \<Rightarrow> bool" where
  "table_ok d m s t \<longleftrightarrow> newline_ok d m s \<and> length t = NOTCHAR \<and> t ! unat eolbyte = -1 \<and>
     (\<forall>c. c \<noteq> eolbyte \<longrightarrow> has_key m (t ! unat c) (next_key d (key_of (states m ! s)) c))"

definition tables_ok :: "dfa \<Rightarrow> nat set \<Rightarrow> matcher \<Rightarrow> bool" where
  "tables_ok d P m \<longleftrightarrow> tables_size m \<and> states d \<noteq> [] \<and> more_states d (dfa.truncate m) \<and> dfa_ok P (dfa.truncate m) \<and> searchflag m \<and>
     (\<forall>s < tralloc m.
        (\<forall>t. trans_tabs m ! s = Some t \<longrightarrow> table_ok d m s t \<and> \<not> ACCEPTING (states m ! s)) \<and>
        (\<forall>t. fails m ! s = Some t \<longrightarrow> table_ok d m s t \<and> success m ! s = Some (success_bits (states m ! s))))"

definition built :: "matcher \<Rightarrow> int \<Rightarrow> bool" where
  "built m s \<longleftrightarrow> 0 \<le> s \<and> (trans_tabs m ! nat s \<noteq> None \<or> fails m ! nat s \<noteq> None)"

lemma truncate_simps [simp]:
  "tokens (dfa.truncate m) = tokens m" "states (dfa.truncate m) = states m" "searchflag (dfa.truncate m) = searchflag m"
  "follows (dfa.truncate m) = follows m" "nleaves (dfa.truncate m) = nleaves m" "charclasses (dfa.truncate m) = charclasses m"
  by (simp_all add: dfa.truncate_def)

lemma truncate_states [simp]: "dfa.truncate (m\<lparr>states := ss\<rparr>) = (dfa.truncate m)\<lparr>states := ss\<rparr>"
  by (simp add: dfa.truncate_def)

lemma double_until_ok: "0 < a \<Longrightarrow> t < double_until t a \<and> a \<le> double_until t a"
  by (induction t a rule: double_until.induct) (subst (1 2) double_until.simps, auto)

definition more_room :: "nat \<Rightarrow> matcher \<Rightarrow> matcher" where
  "more_room k m = m\<lparr>tralloc := tralloc m + k, trans_tabs := trans_tabs m @ replicate k None, fails := fails m @ replicate k None,
     success := success m @ replicate k None, newlines := newlines m @ replicate k None\<rparr>"

lemma more_room_0: "more_room 0 m = m" by (simp add: more_room_def)

lemma more_room_add: "more_room k (more_room j m) = more_room (j + k) m"
  by (simp add: more_room_def replicate_add)

lemma more_room_simps [simp]:
  "tralloc (more_room k m) = tralloc m + k" "states (more_room k m) = states m" "tokens (more_room k m) = tokens m"
  "searchflag (more_room k m) = searchflag m" "dfa.truncate (more_room k m) = dfa.truncate m"
  "tables_size m \<Longrightarrow> tables_size (more_room k m)"
  by (simp_all add: more_room_def dfa.truncate_def tables_size_def)

lemma grow_tables_ok:
  assumes "0 < tralloc m"
  shows "\<exists>k. grow_tables t m = more_room k m \<and> t < int (tralloc m + k)"
proof (cases "t \<ge> int (tralloc m)")
  case True
  define k where "k = double_until (nat t) (tralloc m) - tralloc m"
  have "nat t < tralloc m + k" "double_until (nat t) (tralloc m) = tralloc m + k"
    using double_until_ok[OF assms, of "nat t"] by (auto simp: k_def)
  then have "grow_tables t m = more_room k m" "t < int (tralloc m + k)"
    using True by (simp_all add: grow_tables_def more_room_def Let_def)
  then show ?thesis by blast
next
  case False
  then show ?thesis using more_room_0[of m] by (intro exI[of _ 0]) (simp add: grow_tables_def)
qed

lemma fold_grow_tables:
  "0 < tralloc m \<Longrightarrow> \<exists>k. fold grow_tables ts m = more_room k m \<and> (\<forall>t \<in> set ts. t < int (tralloc m + k))"
proof (induction ts arbitrary: m)
  case Nil
  then show ?case using more_room_0[of m] by (intro exI[of _ 0]) simp
next
  case (Cons t ts)
  from grow_tables_ok[OF Cons.prems, of t] obtain j where j: "grow_tables t m = more_room j m" "t < int (tralloc m + j)" by blast
  from Cons.IH[of "more_room j m"] Cons.prems obtain k where "fold grow_tables ts (more_room j m) = more_room k (more_room j m)"
    "\<forall>t \<in> set ts. t < int (tralloc m + j + k)" by auto
  then show ?case using j by (intro exI[of _ "j + k"]) (auto simp: more_room_add)
qed

text \<open>A matcher with more states and more room.\<close>

definition more_tables :: "matcher \<Rightarrow> matcher \<Rightarrow> bool" where
  "more_tables m m' \<longleftrightarrow> tralloc m \<le> tralloc m' \<and> more_states (dfa.truncate m) (dfa.truncate m') \<and> tables_size m'"

lemma has_key_more:
  assumes "more_tables m m'" "has_key m v k"
  shows "has_key m' v k"
  using assms more_states_same(6,7)[of "dfa.truncate m" "dfa.truncate m'"] by (auto simp: has_key_def more_tables_def)

lemma newline_ok_more:
  assumes "more_tables m m'" "newline_ok d m s" "newlines m' ! s = newlines m ! s"
  shows "newline_ok d m' s"
proof -
  obtain v where v: "newlines m ! s = Some v" "has_key m v (next_key d (key_of (states m ! s)) eolbyte)"
    using assms(2) by (auto simp: newline_ok_def)
  have "s < tralloc m'" "s < length (states m')" "states m' ! s = states m ! s"
    using assms(1,2) more_states_same(6,7)[of "dfa.truncate m" "dfa.truncate m'"] by (auto simp: newline_ok_def more_tables_def)
  then show ?thesis using has_key_more[OF assms(1) v(2)] v(1) assms(3) by (simp add: newline_ok_def)
qed

lemma table_ok_more:
  assumes "more_tables m m'" "table_ok d m s t" "newlines m' ! s = newlines m ! s"
  shows "table_ok d m' s t" "states m' ! s = states m ! s"
proof -
  have s: "s < length (states m)" using assms(2) by (simp add: table_ok_def newline_ok_def)
  then show e: "states m' ! s = states m ! s"
    using assms(1) more_states_same(7)[of "dfa.truncate m" "dfa.truncate m'"] by (auto simp: more_tables_def)
  have n: "newline_ok d m' s" using assms newline_ok_more by (simp add: table_ok_def)
  have "has_key m' (t ! unat c) (next_key d (key_of (states m ! s)) c)" if "c \<noteq> eolbyte" for c
    using assms(2) that by (intro has_key_more[OF assms(1)]) (simp add: table_ok_def)
  then show "table_ok d m' s t" using n e assms(2) by (simp add: table_ok_def)
qed

lemma forget_tables_ok:
  assumes "tables_ok d P m"
  shows "tables_ok d P (forget_tables m)" "more_tables m (forget_tables m)" "tralloc (forget_tables m) = tralloc m"
    "states (forget_tables m) = states m"
proof -
  show "tralloc (forget_tables m) = tralloc m" "states (forget_tables m) = states m" by (simp_all add: forget_tables_def)
  have "dfa.truncate (forget_tables m) = dfa.truncate m" "tables_size (forget_tables m)"
    using assms by (auto simp: forget_tables_def dfa.truncate_def tables_ok_def tables_size_def)
  then show "more_tables m (forget_tables m)" "tables_ok d P (forget_tables m)"
    using assms by (auto simp: more_tables_def tables_ok_def forget_tables_def)
qed

text \<open>What \<open>build_state\<close> writes when there is room.\<close>

definition put_table :: "nat \<Rightarrow> int list \<Rightarrow> matcher \<Rightarrow> matcher" where
  "put_table s tab m =
     (let m' = m\<lparr>newlines := (newlines m)[s := Some (tab ! unat eolbyte)]\<rparr>; tab' = tab[unat eolbyte := -1] in
      if ACCEPTING (states m ! s) then m'\<lparr>fails := (fails m)[s := Some tab']\<rparr> else m'\<lparr>trans_tabs := (trans_tabs m)[s := Some tab']\<rparr>)"

lemma build_state_put:
  assumes "tables_ok d P m" "s < length (states m)" "s < tralloc m"
  shows "\<exists>m1 tab d' k. m1 = (forget_tables m)\<lparr>trcount := trcount (forget_tables m) + 1,
       success := (success m)[s := Some (success_bits (states m ! s))]\<rparr> \<and>
     dfastate s (dfa.truncate m) = Some (tab, d') \<and> (\<forall>t \<in> set tab. t < int (tralloc m + k)) \<and>
     build_state s m = Some (put_table s tab (more_room k (m1\<lparr>states := states d'\<rparr>)))"
proof -
  define m1 where "m1 = (forget_tables m)\<lparr>trcount := trcount (forget_tables m) + 1,
    success := (success m)[s := Some (success_bits (states m ! s))]\<rparr>"
  have d: "dfa_ok P (dfa.truncate m)" "more_states d (dfa.truncate m)" "searchflag m" "tables_size m"
    using assms(1) by (simp_all add: tables_ok_def)
  obtain tab d' where t: "dfastate s (dfa.truncate m) = Some (tab, d')" "more_states (dfa.truncate m) d'"
    using dfastate_ok[OF d(1), of s] assms(2) by auto
  have st: "states d' ! s = states m ! s" using more_states_same(7)[OF t(2)] assms(2) by simp
  define m2 where "m2 = m1\<lparr>states := states d'\<rparr>"
  have m2: "0 < tralloc m2" "tables_size m2" "tralloc m2 = tralloc m" "dfa.truncate m1 = dfa.truncate m"
    using d(4) by (auto simp: m2_def m1_def forget_tables_def tables_size_def dfa.truncate_def)
  from fold_grow_tables[OF m2(1), of tab] obtain k where k: "fold grow_tables tab m2 = more_room k m2" "\<forall>t \<in> set tab. t < int (tralloc m + k)"
    using m2(3) by auto
  define m3 where "m3 = more_room k m2"
  have m3: "tables_size m3" "s < tralloc m3" "states m3 = states d'" using m2 assms(3) by (simp_all add: m3_def m2_def)
  have f: "states (forget_tables m) = states m" "success (forget_tables m) = success m" "dfa.truncate (forget_tables m) = dfa.truncate m"
    by (simp_all add: forget_tables_def dfa.truncate_def)
  have wr: "wr_at (success m) s v = Some ((success m)[s := v])" "wr_at (newlines m3) s v' = Some ((newlines m3)[s := v'])"
    "wr_at (fails m3) s t = Some ((fails m3)[s := t])" "wr_at (trans_tabs m3) s t = Some ((trans_tabs m3)[s := t])" for v v' t
    using m3 d(4) assms(3) by (auto simp: tables_size_def)
  have "build_state s m = do {
       (tab, d) \<leftarrow> dfastate s (dfa.truncate m1);
       let m = fold grow_tables tab (m1\<lparr>states := states d\<rparr>);
       nls \<leftarrow> wr_at (newlines m) s (Some (tab ! unat eolbyte));
       let tab = tab[unat eolbyte := -1];
       if ACCEPTING (states m1 ! s)
       then do { f \<leftarrow> wr_at (fails m) s (Some tab); Some (m\<lparr>newlines := nls, fails := f\<rparr>) }
       else do { t \<leftarrow> wr_at (trans_tabs m) s (Some tab); Some (m\<lparr>newlines := nls, trans_tabs := t\<rparr>) } }"
    using assms(2) wr(1) by (simp add: build_state_def f m1_def Let_def)
  then have "build_state s m = Some (put_table s tab m3)"
    using m2(4) t st m3 wr(2-4) k(1) by (simp add: m2_def m3_def put_table_def Let_def m1_def f)
  then show ?thesis using t k(2) unfolding m3_def m2_def m1_def by blast
qed

lemma tables_ok_more:
  assumes "tables_ok d P m" and g: "more_tables m m'" and "dfa_ok P (dfa.truncate m')" "searchflag m'"
    and old: "\<And>s. s < tralloc m \<Longrightarrow> newlines m' ! s = newlines m ! s \<and> trans_tabs m' ! s = trans_tabs m ! s \<and> fails m' ! s = fails m ! s \<and>
      (success m' ! s = success m ! s \<or> success m' ! s = Some (success_bits (states m ! s)))"
    and new: "\<And>s. tralloc m \<le> s \<Longrightarrow> s < tralloc m' \<Longrightarrow> trans_tabs m' ! s = None \<and> fails m' ! s = None"
  shows "tables_ok d P m'"
proof -
  have m: "states d \<noteq> []" "more_states d (dfa.truncate m)" using assms(1) by (simp_all add: tables_ok_def)
  have "(\<forall>t. trans_tabs m' ! s = Some t \<longrightarrow> table_ok d m' s t \<and> \<not> ACCEPTING (states m' ! s)) \<and>
        (\<forall>t. fails m' ! s = Some t \<longrightarrow> table_ok d m' s t \<and> success m' ! s = Some (success_bits (states m' ! s)))" if "s < tralloc m'" for s
  proof (cases "s < tralloc m")
    case True
    note o = old[OF True]
    have "table_ok d m' s t \<and> \<not> ACCEPTING (states m' ! s)" if "trans_tabs m' ! s = Some t" for t
    proof -
      have t: "table_ok d m s t" "\<not> ACCEPTING (states m ! s)" using that assms(1) True o by (auto simp: tables_ok_def)
      then show ?thesis using table_ok_more[OF g t(1)] o by simp
    qed
    moreover have "table_ok d m' s t \<and> success m' ! s = Some (success_bits (states m' ! s))" if "fails m' ! s = Some t" for t
    proof -
      have t: "table_ok d m s t" "success m ! s = Some (success_bits (states m ! s))" using that assms(1) True o by (auto simp: tables_ok_def)
      then show ?thesis using table_ok_more[OF g t(1)] o by auto
    qed
    ultimately show ?thesis by blast
  qed (use new that in auto)
  then show ?thesis using assms m more_states_trans[OF m(2)] by (auto simp: tables_ok_def more_tables_def)
qed

lemma put_table_simps [simp]:
  "tralloc (put_table s tab m) = tralloc m" "states (put_table s tab m) = states m" "dfa.truncate (put_table s tab m) = dfa.truncate m"
  "searchflag (put_table s tab m) = searchflag m" "success (put_table s tab m) = success m"
  "newlines (put_table s tab m) = (newlines m)[s := Some (tab ! unat eolbyte)]"
  "tables_size m \<Longrightarrow> tables_size (put_table s tab m)"
  by (simp_all add: put_table_def Let_def dfa.truncate_def tables_size_def)

lemma put_table_ok:
  assumes m: "tables_ok d P m" "s < length (states m)" "s < tralloc m" "success m ! s = Some (success_bits (states m ! s))"
    and tab: "length tab = NOTCHAR" "\<And>c. has_key m (tab ! unat c) (next_key d (key_of (states m ! s)) c)"
  shows "tables_ok d P (put_table s tab m)" "more_tables m (put_table s tab m)" "built (put_table s tab m) (int s)"
proof -
  let ?m = "put_table s tab m"
  have sz: "tables_size m" using m(1) by (simp add: tables_ok_def)
  then show g: "more_tables m ?m" by (simp add: more_tables_def)
  have hk: "has_key ?m v k = has_key m v k" for v k by (simp add: has_key_def)
  have nl: "newline_ok d ?m s" using m(2,3) tab(2)[of eolbyte] sz by (auto simp: newline_ok_def hk tables_size_def)
  have ot: "table_ok d ?m i t" if "table_ok d m i t" for i t
  proof (cases "i = s")
    case True
    then show ?thesis using that nl by (simp add: table_ok_def hk)
  next
    case False
    then have "newlines ?m ! i = newlines m ! i" by simp
    then show ?thesis using table_ok_more(1)[OF g that] by simp
  qed
  have nt: "table_ok d ?m s (tab[unat eolbyte := -1])"
  proof -
    have "unat c \<noteq> unat eolbyte" if "c \<noteq> eolbyte" for c using that unat_u8_eq by blast
    moreover have "unat eolbyte < length tab" using tab(1) by (simp add: NOTCHAR_def eolbyte_def)
    ultimately show ?thesis using nl tab by (simp add: table_ok_def hk)
  qed
  have ln: "s < length (fails m)" "s < length (trans_tabs m)" using sz m(3) by (simp_all add: tables_size_def)
  show "built ?m (int s)" using ln by (simp add: built_def put_table_def Let_def)
  have "(\<forall>t. trans_tabs ?m ! i = Some t \<longrightarrow> table_ok d ?m i t \<and> \<not> ACCEPTING (states m ! i)) \<and>
        (\<forall>t. fails ?m ! i = Some t \<longrightarrow> table_ok d ?m i t \<and> success m ! i = Some (success_bits (states m ! i)))" if i: "i < tralloc m" for i
  proof -
    have old: "\<And>t. trans_tabs m ! i = Some t \<Longrightarrow> table_ok d ?m i t \<and> \<not> ACCEPTING (states m ! i)"
      "\<And>t. fails m ! i = Some t \<Longrightarrow> table_ok d ?m i t \<and> success m ! i = Some (success_bits (states m ! i))"
      using m(1) i ot by (auto simp: tables_ok_def)
    have "trans_tabs ?m ! i = (if i = s \<and> \<not> ACCEPTING (states m ! s) then Some (tab[unat eolbyte := -1]) else trans_tabs m ! i)"
      "fails ?m ! i = (if i = s \<and> ACCEPTING (states m ! s) then Some (tab[unat eolbyte := -1]) else fails m ! i)"
      using ln by (auto simp: put_table_def Let_def nth_list_update)
    then show ?thesis using old nt m(4) by (cases "trans_tabs m ! s"; cases "i = s") auto
  qed
  then show "tables_ok d P ?m" using m(1) sz by (auto simp: tables_ok_def)
qed

text \<open>\<open>build_state\<close> makes the table of the state and keeps the others in order.\<close>

lemma build_state_ok:
  assumes m: "tables_ok d P m" "s < length (states m)" "s < tralloc m"
  shows "\<exists>m'. build_state s m = Some m' \<and> tables_ok d P m' \<and> more_tables m m' \<and> built m' (int s)"
proof -
  from build_state_put[OF assms] obtain m1 tab d' k where b:
    "m1 = (forget_tables m)\<lparr>trcount := trcount (forget_tables m) + 1, success := (success m)[s := Some (success_bits (states m ! s))]\<rparr>"
    "dfastate s (dfa.truncate m) = Some (tab, d')" "\<forall>t \<in> set tab. t < int (tralloc m + k)"
    "build_state s m = Some (put_table s tab (more_room k (m1\<lparr>states := states d'\<rparr>)))" by blast
  let ?m3 = "more_room k (m1\<lparr>states := states d'\<rparr>)"
  have d: "dfa_ok P (dfa.truncate m)" "more_states d (dfa.truncate m)" "searchflag m" "tables_size m" "states d \<noteq> []"
    using m(1) by (simp_all add: tables_ok_def)
  have tr: "more_states (dfa.truncate m) d' \<and> dfa_ok P d' \<and> length tab = NOTCHAR \<and>
    (\<forall>c. entry_ok d' tab c (next_key (dfa.truncate m) (key_of (states m ! s)) c))"
    using dfastate_ok[OF d(1), of s] m(2) b(2) d(3) by (auto simp: next_key_def Let_def)
  have f: "dfa.truncate (forget_tables m) = dfa.truncate m" by (simp add: forget_tables_def dfa.truncate_def)
  have t3: "dfa.truncate ?m3 = d'"
    using tr f by (auto simp: more_states_def b(1) dfa.truncate_def more_room_def forget_tables_def)
  have fo: "tralloc (forget_tables m) = tralloc m" "states (forget_tables m) = states m" "tables_size (forget_tables m)"
    using forget_tables_ok(3,4)[OF m(1)] forget_tables_ok(1)[OF m(1)] by (auto simp: tables_ok_def)
  have z3: "tables_size ?m3" "tralloc ?m3 = tralloc m + k" using fo d(4) by (auto simp: b(1) tables_size_def more_room_def)
  have g3: "more_tables (forget_tables m) ?m3" using fo z3 t3 f tr by (auto simp: more_tables_def)
  have sd: "states ?m3 = states d'" by simp
  have s3: "states ?m3 ! s = states m ! s" "s < length (states ?m3)"
    using more_states_same(6,7)[of "dfa.truncate m" d'] tr m(2) unfolding sd by auto
  have "tables_ok d P ?m3"
  proof (rule tables_ok_more[OF forget_tables_ok(1)[OF m(1)] g3])
    show "dfa_ok P (dfa.truncate ?m3)" "searchflag ?m3" using t3 tr d(3) by (auto simp: b(1) forget_tables_def)
    fix i
    show "newlines ?m3 ! i = newlines (forget_tables m) ! i \<and> trans_tabs ?m3 ! i = trans_tabs (forget_tables m) ! i \<and>
      fails ?m3 ! i = fails (forget_tables m) ! i \<and>
      (success ?m3 ! i = success (forget_tables m) ! i \<or> success ?m3 ! i = Some (success_bits (states (forget_tables m) ! i)))"
      if "i < tralloc (forget_tables m)"
      using that fo d(4) by (cases "i = s") (auto simp: b(1) more_room_def tables_size_def nth_append forget_tables_def)
    show "trans_tabs ?m3 ! i = None \<and> fails ?m3 ! i = None" if "tralloc (forget_tables m) \<le> i" "i < tralloc ?m3"
      using that fo by (auto simp: b(1) more_room_def tables_size_def nth_append)
  qed
  moreover have "success ?m3 ! s = Some (success_bits (states ?m3 ! s))"
    using s3 m(3) d(4) by (simp add: b(1) more_room_def tables_size_def nth_append)
  moreover have "has_key ?m3 (tab ! unat c) (next_key d (key_of (states ?m3 ! s)) c)" for c
  proof -
    have "tab ! unat c \<in> set tab" using tr unat_u8_256[of c] by (auto simp: NOTCHAR_def)
    then have "tab ! unat c < int (tralloc m + k)" using b(3) by blast
    then have "nat (tab ! unat c) < tralloc m + k" using m(3) by arith
    moreover have "entry_ok d' tab c (next_key d (key_of (states m ! s)) c)" using tr next_key_more[OF d(2,5)] by simp
    ultimately show ?thesis unfolding has_key_def sd z3(2) s3(1)[unfolded sd] by (simp add: entry_ok_def)
  qed
  ultimately have p: "tables_ok d P (put_table s tab ?m3)" "more_tables ?m3 (put_table s tab ?m3)" "built (put_table s tab ?m3) (int s)"
    using put_table_ok[of d P ?m3 s tab] s3 z3(2) m(3) tr by auto
  have "more_tables m (put_table s tab ?m3)" using z3 t3 tr by (auto simp: more_tables_def)
  then show ?thesis using b(4) p by blast
qed

section \<open>The run\<close>

definition accepts_at :: "dfa \<Rightarrow> u8 list \<Rightarrow> nat \<Rightarrow> bool" where
  "accepts_at d buf p \<longleftrightarrow> key_accepts (tokens d) (key_at d buf p) (buf ! p)"

text \<open>State \<open>s\<close> has the key of place \<open>p\<close>; -1 stands for the state that \<open>newlines\<close> holds for \<open>s1\<close>.\<close>

definition at_key :: "dfa \<Rightarrow> u8 list \<Rightarrow> matcher \<Rightarrow> int \<Rightarrow> int \<Rightarrow> nat \<Rightarrow> bool" where
  "at_key d buf m s s1 p \<longleftrightarrow>
     (if s = -1
      then 0 < p \<and> p \<le> length buf \<and> buf ! (p - 1) = eolbyte \<and> 0 \<le> s1 \<and> newline_ok d m (nat s1) \<and>
        key_of (states m ! nat s1) = key_at d buf (p - 1)
      else p < length buf \<and> has_key m s (key_at d buf p))"

lemma at_key_le: "at_key d buf m s s1 p \<Longrightarrow> p \<le> length buf"
  by (auto simp: at_key_def split: if_splits)

lemma at_key_step:
  assumes "table_ok d m (nat s) t" "0 \<le> s" "at_key d buf m s s1 p" "buf \<noteq> []" "last buf = eolbyte"
  shows "at_key d buf m (t ! unat (buf ! p)) s (p + 1)"
proof -
  have k: "p < length buf" "key_of (states m ! nat s) = key_at d buf p" using assms(2,3) by (auto simp: at_key_def has_key_def)
  show ?thesis
  proof (cases "buf ! p = eolbyte")
    case True
    then show ?thesis using assms(1,2) k by (simp add: at_key_def table_ok_def)
  next
    case False
    then have "p \<noteq> length buf - 1" using assms(4,5) by (auto simp: last_conv_nth)
    then have "p + 1 < length buf" using k(1) by arith
    moreover have "has_key m (t ! unat (buf ! p)) (key_at d buf (p + 1))"
      using assms(1) False k by (simp add: table_ok_def key_at_Suc)
    ultimately show ?thesis by (auto simp: at_key_def has_key_def)
  qed
qed

lemma tables_made:
  assumes "tables_ok d P m" "s < length (states m)"
  shows "made (tokens d) (states m ! s)"
  using assms states_okD(1)[of P "dfa.truncate m" s] more_states_same(1)[of d "dfa.truncate m"] by (auto simp: tables_ok_def dfa_ok_def)

lemma not_in_trans:
  assumes "tables_ok d P m" "at_key d buf m s s1 p" "0 \<le> s" "trans_tabs m ! nat s = Some t"
  shows "table_ok d m (nat s) t" "\<not> accepts_at d buf p"
proof -
  have s: "nat s < tralloc m" "nat s < length (states m)" "key_of (states m ! nat s) = key_at d buf p"
    using assms(2,3) by (auto simp: at_key_def has_key_def)
  then show "table_ok d m (nat s) t" using assms(1,4) by (simp add: tables_ok_def)
  have "\<not> ACCEPTING (states m ! nat s)" using s(1) assms(1,4) by (simp add: tables_ok_def)
  then show "\<not> accepts_at d buf p" using not_accepting[OF tables_made[OF assms(1) s(2)]] s(3) by (simp add: accepts_at_def)
qed

lemma trans_of_at:
  assumes "tables_ok d P m" "at_key d buf m s s1 p"
  shows "trans_of m s = Some (if s = -1 then None else trans_tabs m ! nat s)" "s = -1 \<or> 0 \<le> s"
  using assms by (auto simp: trans_of_def at_key_def has_key_def tables_ok_def tables_size_def rd_at_def split: if_splits)

lemma run_tables_ok:
  assumes m: "tables_ok d P m" "buf \<noteq> []" "last buf = eolbyte" and "at_key d buf m s s1 p"
  shows "\<exists>s' s1' p'. run_tables buf m s s1 p = Some (s', s1', p') \<and> at_key d buf m s' s1' p' \<and> p \<le> p' \<and> (p' = p \<longrightarrow> s' = s) \<and>
    (s' = -1 \<or> trans_tabs m ! nat s' = None) \<and> (\<forall>q. p \<le> q \<longrightarrow> q < p' \<longrightarrow> \<not> accepts_at d buf q)"
  using assms(4)
proof (induction "length buf - p" arbitrary: s s1 p rule: less_induct)
  case less
  note t0 = trans_of_at[OF m(1) less.prems]
  show ?case
  proof (cases "s = -1 \<or> trans_tabs m ! nat s = None")
    case True
    then have "run_tables buf m s s1 p = Some (s, s1, p)" using t0 by (subst run_tables.simps) auto
    then show ?thesis using less.prems True by auto
  next
    case False
    then obtain t where t: "trans_tabs m ! nat s = Some t" "0 \<le> s" using t0(2) by auto
    have p: "p < length buf" using less.prems False by (auto simp: at_key_def)
    note n = not_in_trans[OF m(1) less.prems t(2,1)]
    note a1 = at_key_step[OF n(1) t(2) less.prems m(2,3)]
    define s2 where "s2 = t ! unat (buf ! p)"
    have r1: "rd_at t (unat (buf ! p)) = Some s2"
      using n(1) unat_u8_256[of "buf ! p"] by (simp add: table_ok_def NOTCHAR_def s2_def)
    note t1 = trans_of_at[OF m(1) a1, folded s2_def]
    show ?thesis
    proof (cases "s2 = -1 \<or> trans_tabs m ! nat s2 = None")
      case True
      then have "run_tables buf m s s1 p = Some (s2, s, p + 1)" using t0 t t1 r1 p by (subst run_tables.simps) auto
      moreover have "\<not> accepts_at d buf q" if "p \<le> q" "q < p + 1" for q using that n(2) by (cases "q = p") auto
      ultimately show ?thesis using a1 True by (auto simp: s2_def)
    next
      case False
      then obtain t' where t': "trans_tabs m ! nat s2 = Some t'" "0 \<le> s2" using t1(2) by auto
      have p2: "p + 1 < length buf" using a1 False by (auto simp: at_key_def s2_def)
      note n' = not_in_trans[OF m(1) a1[folded s2_def] t'(2,1)]
      note a2 = at_key_step[OF n'(1) t'(2) a1[folded s2_def] m(2,3)]
      have r2: "rd_at t' (unat (buf ! (p + 1))) = Some (t' ! unat (buf ! (p + 1)))"
        using n'(1) unat_u8_256[of "buf ! (p + 1)"] by (simp add: table_ok_def NOTCHAR_def)
      have e: "run_tables buf m s s1 p = run_tables buf m (t' ! unat (buf ! (p + 1))) s2 (p + 2)"
        using t0 t t1 r1 p False t' p2 r2 by (subst run_tables.simps) auto
      have "length buf - (p + 2) < length buf - p" using p by arith
      moreover have "at_key d buf m (t' ! unat (buf ! (p + 1))) s2 (p + 2)" using a2 by (simp add: numeral_2_eq_2)
      ultimately obtain s' s1' p' where r: "run_tables buf m s s1 p = Some (s', s1', p')" "at_key d buf m s' s1' p'" "p + 2 \<le> p'"
        "s' = -1 \<or> trans_tabs m ! nat s' = None" "\<forall>q. p + 2 \<le> q \<longrightarrow> q < p' \<longrightarrow> \<not> accepts_at d buf q"
        using less.hyps e by metis
      have "\<not> accepts_at d buf q" if "p \<le> q" "q < p'" for q
        using that r(5) n(2) n'(2) by (cases "q = p"; cases "q = p + 1") auto
      then show ?thesis using r(1-4) by (intro exI[of _ s'] exI[of _ s1'] exI[of _ p']) auto
    qed
  qed
qed

definition first_accept :: "dfa \<Rightarrow> u8 list \<Rightarrow> nat option" where
  "first_accept d buf = find (accepts_at d buf) [0..<length buf]"

lemma first_accept_Some: "p < length buf \<Longrightarrow> accepts_at d buf p \<Longrightarrow> \<forall>q < p. \<not> accepts_at d buf q \<Longrightarrow> first_accept d buf = Some p"
  unfolding first_accept_def by (subst find_Some_iff) (auto intro: exI[of _ p])

lemma first_accept_None: "\<forall>q < length buf. \<not> accepts_at d buf q \<Longrightarrow> first_accept d buf = None"
  by (simp add: first_accept_def find_None_iff)

definition steps_left :: "u8 list \<Rightarrow> matcher \<Rightarrow> int \<Rightarrow> nat \<Rightarrow> nat" where
  "steps_left buf m s p = 3 * (length buf + 1 - p) + (if s = -1 then 2 else if built m s then 0 else 1)"

text \<open>One round of the loop, after the tables.\<close>

lemma exec_loop_run:
  assumes "run_tables buf m s0 s10 p0 = Some (s, s1, p)"
  shows "exec_loop buf True m s0 s10 p0 count =
     do {
       f \<leftarrow> (if s \<ge> 0 \<and> p < length buf then rd_at (fails m) (nat s) else Some None);
       (case f of
          Some t \<Rightarrow>
            do { b \<leftarrow> rd_at (success m) (nat s);
                 b \<leftarrow> b;
                 if b AND sbit (buf ! p) \<noteq> 0
                 then do { st \<leftarrow> rd_at (states m) (nat s); Some (Some p, Some (backref st), count, m) }
                 else do { s' \<leftarrow> rd_at t (unat (buf ! p)); exec_loop buf True m s' s (p + 1) count } }
        | None \<Rightarrow>
            do { count \<leftarrow> (if p < length buf
                   then (if p = 0 then None else Some (if buf ! (p - 1) = eolbyte then count + 1 else count))
                   else Some count);
                 if p \<ge> length buf then Some (None, None, count, m)
                 else if s \<ge> 0 then do { m \<leftarrow> build_state (nat s) m; exec_loop buf True m s s1 p count }
                 else if buf ! (p - 1) = eolbyte \<and> True
                 then do { s' \<leftarrow> (if s1 < 0 then None else rd_at (newlines m) (nat s1)); s' \<leftarrow> s'; exec_loop buf True m s' s1 p count }
                 else exec_loop buf True m 0 s1 p count }) }"
  by (subst exec_loop.simps) (simp only: assms Option.bind.simps prod.case)

definition found :: "dfa \<Rightarrow> u8 list \<Rightarrow> bool option" where
  "found d buf = map_option (\<lambda>p. backref (state_of_key (tokens d) (key_at d buf p))) (first_accept d buf)"

text \<open>The state after a newline, and a state that could accept.\<close>

lemma newline_state:
  assumes m: "tables_ok d P m" and a: "at_key d buf m (-1) s1 p" "p < length buf"
  shows "\<exists>v. rd_at (newlines m) (nat s1) = Some (Some v) \<and> 0 \<le> s1 \<and> 0 < p \<and> buf ! (p - 1) = eolbyte \<and> at_key d buf m v s1 p \<and> v \<noteq> -1"
proof -
  have n: "0 < p" "buf ! (p - 1) = eolbyte" "0 \<le> s1" "newline_ok d m (nat s1)" "key_of (states m ! nat s1) = key_at d buf (p - 1)"
    using a by (auto simp: at_key_def)
  then obtain v where v: "newlines m ! nat s1 = Some v" "has_key m v (next_key d (key_at d buf (p - 1)) eolbyte)" "nat s1 < tralloc m"
    by (auto simp: newline_ok_def)
  have "next_key d (key_at d buf (p - 1)) eolbyte = key_at d buf p" using key_at_Suc[of "p - 1" buf d] n(1,2) a(2) by simp
  then have "at_key d buf m v s1 p \<and> v \<noteq> -1" using v(2) a(2) by (auto simp: at_key_def has_key_def)
  moreover have "rd_at (newlines m) (nat s1) = Some (Some v)" using v(1,3) m by (simp add: tables_ok_def tables_size_def)
  ultimately show ?thesis using n(1-3) by blast
qed

lemma failing_state:
  assumes m: "tables_ok d P m" and a: "at_key d buf m s s1 p" "0 \<le> s" "fails m ! nat s = Some t" and buf: "buf \<noteq> []" "last buf = eolbyte"
  shows "rd_at (fails m) (nat s) = Some (Some t)"
    "\<exists>b. rd_at (success m) (nat s) = Some (Some b) \<and> (b AND sbit (buf ! p) \<noteq> 0 \<longleftrightarrow> accepts_at d buf p)"
    "rd_at (states m) (nat s) = Some (state_of_key (tokens d) (key_at d buf p))"
    "rd_at t (unat (buf ! p)) = Some (t ! unat (buf ! p))" "at_key d buf m (t ! unat (buf ! p)) s (p + 1)"
proof -
  have s: "nat s < tralloc m" "nat s < length (states m)" "key_of (states m ! nat s) = key_at d buf p" "tables_size m"
    using a(1,2) m by (auto simp: at_key_def has_key_def tables_ok_def)
  have t: "table_ok d m (nat s) t" "success m ! nat s = Some (success_bits (states m ! nat s))" using a(3) m s(1) by (auto simp: tables_ok_def)
  have md: "made (tokens d) (states m ! nat s)" using tables_made[OF m s(2)] .
  show "rd_at (fails m) (nat s) = Some (Some t)" using a(3) s(1,4) by (simp add: tables_size_def)
  show "rd_at (states m) (nat s) = Some (state_of_key (tokens d) (key_at d buf p))" using made_state[OF md] s(2,3) by simp
  show "rd_at t (unat (buf ! p)) = Some (t ! unat (buf ! p))" using t(1) unat_u8_256[of "buf ! p"] by (simp add: table_ok_def NOTCHAR_def)
  show "at_key d buf m (t ! unat (buf ! p)) s (p + 1)" using at_key_step[OF t(1) a(2,1) buf] .
  have "success_bits (states m ! nat s) AND sbit (buf ! p) \<noteq> 0 \<longleftrightarrow> accepts_at d buf p"
    using success_bits_accept[OF md, of "buf ! p"] s(3) by (simp add: accepts_at_def)
  then show "\<exists>b. rd_at (success m) (nat s) = Some (Some b) \<and> (b AND sbit (buf ! p) \<noteq> 0 \<longleftrightarrow> accepts_at d buf p)"
    using t(2) s(1,4) by (simp add: tables_size_def)
qed

lemma exec_loop_ok:
  assumes buf: "buf \<noteq> []" "last buf = eolbyte"
    and "tables_ok d P m" "at_key d buf m s s1 p" "\<forall>q < p. \<not> accepts_at d buf q" "p = 0 \<longrightarrow> built m s"
  shows "\<exists>c m'. exec_loop buf True m s s1 p count = Some (first_accept d buf, found d buf, c, m') \<and> tables_ok d P m' \<and> more_tables m m'"
  using assms(3-)
proof (induction "steps_left buf m s p" arbitrary: m s s1 p count rule: less_induct)
  case (less m0 s0 p0 s10 n)
  note m = less.prems(1)
  from run_tables_ok[OF m buf less.prems(2)] obtain s s1 p where r: "run_tables buf m0 s0 s10 p0 = Some (s, s1, p)"
    "at_key d buf m0 s s1 p" "p0 \<le> p" "p = p0 \<longrightarrow> s = s0" "s = -1 \<or> trans_tabs m0 ! nat s = None"
    "\<forall>q. p0 \<le> q \<longrightarrow> q < p \<longrightarrow> \<not> accepts_at d buf q" by blast
  have no: "\<forall>q < p. \<not> accepts_at d buf q" using r(6) less.prems(3) by (metis not_le)
  have left: "steps_left buf m0 s p \<le> steps_left buf m0 s0 p0"
    using r(3,4) at_key_le[OF r(2)] by (cases "p = p0") (auto simp: steps_left_def)
  have sz: "tables_size m0" and m0: "more_tables m0 m0" using m by (simp_all add: more_tables_def tables_ok_def)
  consider (ended) "p = length buf" | (stays) "p < length buf" "s = -1"
    | (runs) "p < length buf" "0 \<le> s" "nat s < tralloc m0" "nat s < length (states m0)" "trans_tabs m0 ! nat s = None"
    using r(2,5) at_key_le[OF r(2)] by (auto simp: at_key_def has_key_def le_less split: if_splits)
  then show ?case
  proof cases
    case ended
    then show ?thesis using no m m0 first_accept_None[of buf d] by (simp add: exec_loop_run[OF r(1)] found_def)
  next
    case stays
    from newline_state[OF m r(2)[unfolded stays(2)] stays(1)] obtain v where v: "rd_at (newlines m0) (nat s1) = Some (Some v)"
      "0 \<le> s1" "0 < p" "buf ! (p - 1) = eolbyte" "at_key d buf m0 v s1 p" "v \<noteq> -1" by blast
    have "steps_left buf m0 v p < steps_left buf m0 s0 p0" using left v(6) stays(2) by (auto simp: steps_left_def)
    moreover have "exec_loop buf True m0 s0 s10 p0 n = exec_loop buf True m0 v s1 p (n + 1)"
      using stays v(1-4) by (simp add: exec_loop_run[OF r(1)])
    ultimately show ?thesis using less.hyps[OF _ m v(5) no] v(3) by simp
  next
    case runs
    show ?thesis
    proof (cases "fails m0 ! nat s")
      case None
      then have nb: "\<not> built m0 s" using runs by (simp add: built_def)
      then have p: "0 < p" using less.prems(4) r(3,4) by (cases "p = 0") auto
      from build_state_ok[OF m runs(4,3)] obtain m' where b: "build_state (nat s) m0 = Some m'" "tables_ok d P m'" "more_tables m0 m'" "built m' s"
        using runs(2) by auto
      have k: "at_key d buf m' s s1 p" using r(2) runs(1,2) has_key_more[OF b(3)] by (auto simp: at_key_def)
      have l: "steps_left buf m' s p < steps_left buf m0 s0 p0" using left nb b(4) runs(2) by (auto simp: steps_left_def)
      obtain n' where "exec_loop buf True m0 s0 s10 p0 n = exec_loop buf True m' s s1 p n'"
        using None runs(1-3) p b(1) sz by (simp add: exec_loop_run[OF r(1)] tables_size_def)
      moreover obtain c m2 where "exec_loop buf True m' s s1 p n' = Some (first_accept d buf, found d buf, c, m2)" "tables_ok d P m2" "more_tables m' m2"
        using less.hyps[OF l b(2) k no, of n'] p by auto
      moreover have "more_tables m0 m2" using b(3) calculation(4) more_states_trans by (auto simp: more_tables_def)
      ultimately show ?thesis by auto
    next
      case (Some t)
      note f = failing_state[OF m r(2) runs(2) Some buf]
      obtain b where b: "rd_at (success m0) (nat s) = Some (Some b)" "b AND sbit (buf ! p) \<noteq> 0 \<longleftrightarrow> accepts_at d buf p" using f(2) by blast
      show ?thesis
      proof (cases "accepts_at d buf p")
        case True
        then show ?thesis using first_accept_Some[OF runs(1) True no] f(1,3) b runs(1,2) m m0
          by (simp add: exec_loop_run[OF r(1)] found_def)
      next
        case False
        then have e: "exec_loop buf True m0 s0 s10 p0 n = exec_loop buf True m0 (t ! unat (buf ! p)) s (p + 1) n"
          using f(1,4) b runs by (simp add: exec_loop_run[OF r(1)])
        have "steps_left buf m0 (t ! unat (buf ! p)) (p + 1) < steps_left buf m0 s p" using runs(1) by (auto simp: steps_left_def)
        then have l: "steps_left buf m0 (t ! unat (buf ! p)) (p + 1) < steps_left buf m0 s0 p0" using left by simp
        have "\<forall>q < p + 1. \<not> accepts_at d buf q" using no False by (auto simp: less_Suc_eq)
        from less.hyps[OF l m f(5) this] show ?thesis using e by simp
      qed
    qed
  qed
qed

end
