(* ===== verification/Dfa_Match.thy ===== *)
theory Dfa_Match
  imports Dfa_Exec
begin

text \<open>
  The automaton as a whole, for patterns without contexts and back-references: parser, analysis, states and matcher together find
  the first place in a text where a string of the language of the pattern ends.
\<close>

section \<open>The matcher\<close>

text \<open>A matcher that has searched no text yet, or one with tables in which state 0 is built.\<close>

definition ready :: "dfa \<Rightarrow> nat set \<Rightarrow> matcher \<Rightarrow> bool" where
  "ready d P m \<longleftrightarrow> m = matcher_of d \<and> dfa_ok P d \<and> searchflag d \<or> tables_ok d P m \<and> built m 0"

lemma truncate_matcher_of [simp]: "dfa.truncate (matcher_of d) = d"
  by (simp add: matcher_of_def dfa.truncate_def dfa.extend_def)

lemma build_state_zero_ok:
  assumes "dfa_ok P d" "searchflag d"
  shows "\<exists>m'. build_state_zero (matcher_of d) = Some m' \<and> tables_ok d P m' \<and> built m' 0"
proof -
  let ?m = "(matcher_of d)\<lparr>tralloc := 1, trcount := 0, trans_tabs := [None], fails := [None], success := [None], newlines := [None]\<rparr>"
  have t: "dfa.truncate ?m = d" by (simp add: matcher_of_def dfa.truncate_def dfa.extend_def)
  have s: "states ?m = states d" "searchflag ?m = searchflag d" by (simp_all add: matcher_of_def dfa.extend_def)
  have n: "states d \<noteq> []" using assms(1) by (simp add: dfa_ok_def)
  have "tables_ok d P ?m" using assms n t s by (simp add: tables_ok_def tables_size_def)
  from build_state_ok[OF this, of 0] show ?thesis using n s by (auto simp: build_state_zero_def)
qed

text \<open>The matcher returns the first place where the state accepts before the next character.\<close>

lemma dfaexec_ok:
  assumes "ready d P m"
  shows "\<exists>c m'. dfaexec m text True = Some (first_accept d (text @ [eolbyte]), found d (text @ [eolbyte]), c, m') \<and> tables_ok d P m'"
proof -
  have "\<exists>m1. (if tralloc m = 0 then build_state_zero m else Some m) = Some m1 \<and> tables_ok d P m1 \<and> built m1 0"
  proof (cases "m = matcher_of d \<and> dfa_ok P d \<and> searchflag d")
    case True
    then have "tralloc m = 0" by (simp add: matcher_of_def dfa.extend_def)
    then show ?thesis using True build_state_zero_ok by simp
  next
    case False
    then have "tables_ok d P m" "built m 0" using assms by (auto simp: ready_def)
    then show ?thesis by (simp add: tables_ok_def tables_size_def)
  qed
  then obtain m1 where m1: "(if tralloc m = 0 then build_state_zero m else Some m) = Some m1" "tables_ok d P m1" "built m1 0" by blast
  have s: "more_states d (dfa.truncate m1)" "states d \<noteq> []" "0 < tralloc m1" using m1(2) by (simp_all add: tables_ok_def tables_size_def)
  then have "at_key d (text @ [eolbyte]) m1 0 0 0"
    using more_states_same(6,7)[OF s(1)] by (auto simp: at_key_def has_key_def)
  from exec_loop_ok[OF _ _ m1(2) this, of 0] m1(3) show ?thesis by (auto simp: dfaexec_def m1(1))
qed

section \<open>Sets of positions without constraints\<close>

definition tok_chars :: "charclass list \<Rightarrow> token \<Rightarrow> u8 set" where
  "tok_chars ccs t = (case t of BYTE b \<Rightarrow> {b} | CSET n \<Rightarrow> chars (ccs ! n) | _ \<Rightarrow> {})"

text \<open>The positions after \<open>p\<close> characters, for \<open>F\<close> first positions, the relation \<open>R\<close> of follows, and the characters \<open>C\<close> of a position.\<close>

fun reach :: "nat set \<Rightarrow> (nat \<times> nat) set \<Rightarrow> (nat \<Rightarrow> u8 set) \<Rightarrow> u8 list \<Rightarrow> nat \<Rightarrow> nat set" where
  "reach F R C buf 0 = F"
| "reach F R C buf (Suc p) = F \<union> R `` {q \<in> reach F R C buf p. buf ! p \<in> C q}"

definition leads_to :: "nat set \<Rightarrow> (nat \<times> nat) set \<Rightarrow> nat list \<Rightarrow> nat \<Rightarrow> bool" where
  "leads_to F R w q \<longleftrightarrow> hd (w @ [q]) \<in> F \<and> successively (\<lambda>a b. (a, b) \<in> R) (w @ [q])"

lemma leads_to_Nil [simp]: "leads_to F R [] q \<longleftrightarrow> q \<in> F" by (simp add: leads_to_def)

lemma leads_to_snoc [simp]: "leads_to F R (w @ [q']) q \<longleftrightarrow> leads_to F R w q' \<and> (q', q) \<in> R"
proof -
  have "successively P ((w @ [q']) @ [q]) \<longleftrightarrow> successively P (w @ [q']) \<and> P q' q" for P
    by (subst successively_append_iff) auto
  moreover have "hd ((w @ [q']) @ [q]) = hd (w @ [q'])" by (cases w) simp_all
  ultimately show ?thesis unfolding leads_to_def by simp
qed

lemma list_all2_snoc: "list_all2 P w (xs @ [x]) \<longleftrightarrow> (\<exists>w' y. w = w' @ [y] \<and> list_all2 P w' xs \<and> P y x)"
proof
  assume "list_all2 P w (xs @ [x])"
  then show "\<exists>w' y. w = w' @ [y] \<and> list_all2 P w' xs \<and> P y x" by (auto simp: list_all2_append2 list_all2_Cons2)
next
  assume "\<exists>w' y. w = w' @ [y] \<and> list_all2 P w' xs \<and> P y x"
  then show "list_all2 P w (xs @ [x])" by (auto intro: list_all2_appendI)
qed

lemma ex_le_Suc: "(\<exists>i \<le> Suc p. A i) \<longleftrightarrow> A (Suc p) \<or> (\<exists>i \<le> p. A i)"
  by (auto simp: le_Suc_eq)

lemma reach_words:
  assumes "p \<le> length buf"
  shows "q \<in> reach F R C buf p \<longleftrightarrow> (\<exists>i \<le> p. \<exists>w. list_all2 (\<lambda>j c. c \<in> C j) w (drop i (take p buf)) \<and> leads_to F R w q)"
  using assms
proof (induction p arbitrary: q)
  case (Suc p)
  have e: "drop i (take (Suc p) buf) = drop i (take p buf) @ [buf ! p]" if "i \<le> p" for i
    using that Suc.prems by (simp add: take_Suc_conv_app_nth)
  have "(\<exists>i \<le> Suc p. \<exists>w. list_all2 (\<lambda>j c. c \<in> C j) w (drop i (take (Suc p) buf)) \<and> leads_to F R w q) \<longleftrightarrow>
    q \<in> F \<or> (\<exists>i \<le> p. \<exists>w. list_all2 (\<lambda>j c. c \<in> C j) w (drop i (take p buf) @ [buf ! p]) \<and> leads_to F R w q)"
    by (simp add: ex_le_Suc e cong: conj_cong)
  also have "\<dots> \<longleftrightarrow> q \<in> F \<or> (\<exists>q'. q' \<in> reach F R C buf p \<and> buf ! p \<in> C q' \<and> (q', q) \<in> R)"
  proof -
    have "(\<exists>w. list_all2 (\<lambda>j c. c \<in> C j) w (xs @ [x]) \<and> leads_to F R w q) \<longleftrightarrow>
      (\<exists>q'. (\<exists>w. list_all2 (\<lambda>j c. c \<in> C j) w xs \<and> leads_to F R w q') \<and> x \<in> C q' \<and> (q', q) \<in> R)" (is "?l \<longleftrightarrow> ?r") for xs x
    proof
      assume ?l
      then obtain w' y where "list_all2 (\<lambda>j c. c \<in> C j) w' xs" "leads_to F R w' y" "x \<in> C y" "(y, q) \<in> R"
        by (auto simp: list_all2_snoc)
      then show ?r by blast
    next
      assume ?r
      then obtain q' w where "list_all2 (\<lambda>j c. c \<in> C j) w xs" "leads_to F R w q'" "x \<in> C q'" "(q', q) \<in> R" by blast
      then have "list_all2 (\<lambda>j c. c \<in> C j) (w @ [q']) (xs @ [x])" "leads_to F R (w @ [q']) q" by (auto simp: list_all2_snoc)
      then show ?l by blast
    qed
    moreover have "q' \<in> reach F R C buf p \<longleftrightarrow> (\<exists>i \<le> p. \<exists>w. list_all2 (\<lambda>j c. c \<in> C j) w (drop i (take p buf)) \<and> leads_to F R w q')" for q'
      using Suc.IH Suc.prems by simp
    ultimately show ?thesis by (simp only:) blast
  qed
  finally show ?case by auto
qed simp

text \<open>An automaton as \<open>dfaanalyze\<close> leaves it.\<close>

definition plain_dfa :: "dfa \<Rightarrow> nat set \<Rightarrow> nat set \<Rightarrow> (nat \<times> nat) set \<Rightarrow> bool" where
  "plain_dfa d P F R \<longleftrightarrow> dfa_ok P d \<and> searchflag d \<and> F \<subseteq> P \<and> Range R \<subseteq> P \<and>
     key_of (states d ! 0) = (aset F, False, False) \<and>
     follows d = map (\<lambda>p. pset (R `` {p})) [0..<length (tokens d)] \<and> (\<forall>p \<in> P. plain_leaf (tokens d ! p))"

lemma plain_dfaD:
  assumes "plain_dfa d P F R"
  shows "finite P" "P \<subseteq> {..<length (tokens d)}" "finite F" "R `` S \<subseteq> P" "finite (R `` S)"
proof -
  show P: "finite P" "P \<subseteq> {..<length (tokens d)}" using assms by (auto simp: plain_dfa_def dfa_ok_def states_ok_def)
  show "R `` S \<subseteq> P" "finite F" using assms P(1) finite_subset by (auto simp: plain_dfa_def)
  then show "finite (R `` S)" using P(1) finite_subset by blast
qed

lemma context_key_plain: "context_key (aset S) c = (aset S, False, False)"
  by (auto simp: context_key_def aset_mkp list_ex_iff)

lemma pset_list: "finite A \<Longrightarrow> \<exists>xs. pset A = map mkp xs \<and> set xs = A"
  by (rule exI[of _ "rev (sorted_list_of_set A)"]) (simp add: pset_def)

lemma concat_psets:
  assumes "\<And>i. i \<in> set xs \<Longrightarrow> finite (A i)"
  shows "\<exists>ys. concat (map (\<lambda>i. pset (A i)) xs) = map mkp ys \<and> set ys = (\<Union>i \<in> set xs. A i)"
  using assms
proof (induction xs)
  case (Cons x xs)
  then obtain ys where ys: "concat (map (\<lambda>i. pset (A i)) xs) = map mkp ys" "set ys = (\<Union>i \<in> set xs. A i)" by auto
  from pset_list[of "A x"] Cons.prems obtain zs where "pset (A x) = map mkp zs" "set zs = A x" by auto
  then show ?case using ys by (intro exI[of _ "zs @ ys"]) auto
qed simp

lemma next_key_plain:
  assumes d: "plain_dfa d P F R" and S: "S \<subseteq> P"
  shows "next_key d (aset S, False, False) c = (aset (F \<union> R `` {q \<in> S. c \<in> tok_chars (charclasses d) (tokens d ! q)}), False, False)"
proof -
  let ?C = "\<lambda>q. c \<in> tok_chars (charclasses d) (tokens d ! q)"
  note D = plain_dfaD[OF d]
  have fS: "finite S" using S D(1) finite_subset by blast
  define xs where "xs = filter ?C (sorted_list_of_set S)"
  have xs: "set xs = {q \<in> S. ?C q}" using fS by (auto simp: xs_def)
  have "matches_at d False False c (mkp i) = ?C i" for i
    by (simp add: matches_at_def pos_chars_def tok_chars_def NO_CONSTRAINT_def)
  then have m: "matching d (aset S, False, False) c = map mkp xs"
    by (simp add: matching_def aset_mkp xs_def filter_map o_def)
  have "concat (map (\<lambda>p. follows d ! index p) (map mkp xs)) = concat (map (\<lambda>i. pset (R `` {i})) xs)"
  proof -
    have "follows d ! i = pset (R `` {i})" if "i \<in> set xs" for i
      using that xs S D(2) d by (auto simp: plain_dfa_def)
    then show ?thesis by (simp add: o_def cong: map_cong)
  qed
  moreover obtain ys where ys: "concat (map (\<lambda>i. pset (R `` {i})) xs) = map mkp ys" "set ys = (\<Union>i \<in> set xs. R `` {i})"
    using concat_psets[of xs "\<lambda>i. R `` {i}"] D(5) by auto
  moreover have "elems (states d ! 0) = map mkp (sorted_list_of_set F)" using d by (simp add: plain_dfa_def key_of_def aset_mkp)
  ultimately have "follow_list d (map mkp xs) = map mkp (ys @ sorted_list_of_set F)"
    using d by (simp add: follow_list_def plain_dfa_def)
  moreover have "set (ys @ sorted_list_of_set F) = F \<union> R `` {q \<in> S. ?C q}" using ys(2) xs D(3) by auto
  ultimately show ?thesis
    using joins_no_constraints[of "ys @ sorted_list_of_set F" "{}"] context_key_plain
    by (simp add: next_key_def m key_after_def)
qed

lemma reach_bounds: "F \<subseteq> P \<Longrightarrow> Range R \<subseteq> P \<Longrightarrow> reach F R C buf p \<subseteq> P"
  by (cases p) auto

lemma key_at_plain:
  assumes "plain_dfa d P F R" "p \<le> length buf"
  shows "key_at d buf p = (aset (reach F R (\<lambda>q. tok_chars (charclasses d) (tokens d ! q)) buf p), False, False)"
  using assms(2)
proof (induction p)
  case 0
  then show ?case using assms(1) by (simp add: plain_dfa_def)
next
  case (Suc p)
  have "reach F R (\<lambda>q. tok_chars (charclasses d) (tokens d ! q)) buf p \<subseteq> P"
    by (rule reach_bounds) (use assms(1) in \<open>auto simp: plain_dfa_def\<close>)
  then show ?case using Suc next_key_plain[OF assms(1)] by (simp add: key_at_Suc)
qed

lemma accept_tok_plain:
  assumes "plain_leaf t"
  shows "backref (accept_tok t (mkp x) st) = backref st" "st_constraint (accept_tok t (mkp x) st) = (if is_end t then 255 else st_constraint st)"
proof -
  have "(255 :: u8) = - 1" by simp
  then have full: "v OR 255 = (255 :: u8)" for v by (simp only: bit.disj_one_right)
  show "backref (accept_tok t (mkp x) st) = backref st" "st_constraint (accept_tok t (mkp x) st) = (if is_end t then 255 else st_constraint st)"
    using assms full
    by (simp_all add: accept_tok_def plain_leaf_def is_end_def SUCCEEDS_IN_CONTEXT_def NO_CONSTRAINT_def Let_def split: token.splits)
qed

lemma set_accepting_plain:
  assumes "\<forall>x \<in> set xs. x < length toks \<and> plain_leaf (toks ! x)"
  shows "\<exists>st'. set_accepting toks (map mkp xs) st = Some st' \<and> newline st' = newline st \<and> letter st' = letter st \<and> backref st' = backref st \<and>
    st_constraint st' = (if \<exists>x \<in> set xs. is_end (toks ! x) then 255 else st_constraint st)"
  using assms
proof (induction xs arbitrary: st)
  case (Cons x xs)
  define st1 where "st1 = accept_tok (toks ! x) (mkp x) st"
  have st1: "backref st1 = backref st" "newline st1 = newline st" "letter st1 = letter st"
    "st_constraint st1 = (if is_end (toks ! x) then 255 else st_constraint st)"
    using Cons.prems by (simp_all add: st1_def accept_tok_plain)
  from Cons.IH[of st1] Cons.prems obtain st' where "set_accepting toks (map mkp xs) st1 = Some st'" "newline st' = newline st1"
    "letter st' = letter st1" "backref st' = backref st1"
    "st_constraint st' = (if \<exists>x \<in> set xs. is_end (toks ! x) then 255 else st_constraint st1)" by auto
  then show ?case using Cons.prems st1 by (auto simp: st1_def)
qed auto

lemma key_accepts_plain:
  assumes "plain_dfa d P F R" "S \<subseteq> P"
  shows "key_accepts (tokens d) (aset S, False, False) c \<longleftrightarrow> (\<exists>q \<in> S. is_end (tokens d ! q))"
    "\<not> backref (state_of_key (tokens d) (aset S, False, False))"
proof -
  note D = plain_dfaD[OF assms(1)]
  have S: "finite S" "\<forall>x \<in> S. x < length (tokens d) \<and> plain_leaf (tokens d ! x)"
    using assms D(1,2) finite_subset by (auto simp: plain_dfa_def)
  from set_accepting_plain[of "sorted_list_of_set S" "tokens d" "fresh_state (aset S, False, False)"] S
  obtain st where st: "set_accepting (tokens d) (aset S) (fresh_state (aset S, False, False)) = Some st" "\<not> backref st"
    "st_constraint st = (if \<exists>x \<in> S. is_end (tokens d ! x) then 255 else 0)" by (auto simp: aset_mkp fresh_state_def)
  have e: "state_of_key (tokens d) (aset S, False, False) = st" using st(1) by (simp add: state_of_key_def)
  then show "\<not> backref (state_of_key (tokens d) (aset S, False, False))" using st(2) by simp
  show "key_accepts (tokens d) (aset S, False, False) c \<longleftrightarrow> (\<exists>q \<in> S. is_end (tokens d ! q))"
    by (simp add: key_accepts_def e ACCEPTS_IN_CONTEXT_def st(3) SUCCEEDS_IN_CONTEXT_def MATCHES_NEWLINE_CONTEXT_def MATCHES_LETTER_CONTEXT_def)
qed

lemma accepts_at_plain:
  assumes d: "plain_dfa d P F R" and p: "p < length buf"
  shows "accepts_at d buf p \<longleftrightarrow> (\<exists>q \<in> reach F R (\<lambda>q. tok_chars (charclasses d) (tokens d ! q)) buf p. is_end (tokens d ! q))"
    "\<not> backref (state_of_key (tokens d) (key_at d buf p))"
proof -
  let ?S = "reach F R (\<lambda>q. tok_chars (charclasses d) (tokens d ! q)) buf p"
  have "?S \<subseteq> P" by (rule reach_bounds) (use d in \<open>auto simp: plain_dfa_def\<close>)
  moreover have "key_at d buf p = (aset ?S, False, False)" using key_at_plain[OF d] p by simp
  ultimately show "accepts_at d buf p \<longleftrightarrow> (\<exists>q \<in> ?S. is_end (tokens d ! q))" "\<not> backref (state_of_key (tokens d) (key_at d buf p))"
    using key_accepts_plain[OF d] by (simp_all add: accepts_at_def)
qed

lemma dfaexec_plain:
  assumes d: "plain_dfa d P F R"
    and p: "\<And>p. p \<le> length xs \<Longrightarrow> accepts_at d (xs @ [eolbyte]) p \<longleftrightarrow> found_at p"
  shows "\<exists>c m. dfaexec (matcher_of d) xs True =
    Some (find found_at [0..<length xs + 1], map_option (\<lambda>_. False) (find found_at [0..<length xs + 1]), c, m)"
proof -
  let ?buf = "xs @ [eolbyte]"
  have "find (accepts_at d ?buf) [0..<length ?buf] = find found_at [0..<length xs + 1]"
    using p by (intro find_cong) auto
  then have fa: "first_accept d ?buf = find found_at [0..<length xs + 1]" by (simp add: first_accept_def)
  have "found d ?buf = map_option (\<lambda>_. False) (first_accept d ?buf)"
  proof (cases "first_accept d ?buf")
    case (Some p)
    then have "p < length ?buf" by (auto simp: first_accept_def find_Some_iff nth_append)
    then show ?thesis using Some accepts_at_plain(2)[OF d] by (simp add: found_def)
  qed (simp add: found_def)
  moreover have "ready d P (matcher_of d)" using d by (simp add: ready_def plain_dfa_def)
  ultimately show ?thesis using dfaexec_ok[of d P "matcher_of d" xs] unfolding fa by metis
qed

section \<open>The language of the pattern\<close>

lemma in_lpow_1: "w \<in> A \<Longrightarrow> w \<in> lstar A" "w \<in> A \<Longrightarrow> w \<in> lplus A"
  using lpow_1[of A] unfolding lstar_def lplus_def by blast+

lemma leaf_in_lang: "lang r \<noteq> {} \<and> leaf_toks r \<subseteq> (\<Union>w \<in> lang r. set w)"
proof (induction r)
  case (Conc a b)
  then obtain u v where uv: "u \<in> lang a" "v \<in> lang b" by auto
  have "t \<in> (\<Union>w \<in> lang (Conc a b). set w)" if "t \<in> leaf_toks (Conc a b)" for t
  proof (cases "t \<in> leaf_toks a")
    case True
    then obtain w where "w \<in> lang a" "t \<in> set w" using Conc.IH(1) by auto
    then have "w @ v \<in> lang (Conc a b)" "t \<in> set (w @ v)" using uv(2) by (auto simp: lconc_def)
    then show ?thesis by blast
  next
    case False
    then have "t \<in> leaf_toks b" using that by simp
    then obtain w where "w \<in> lang b" "t \<in> set w" using Conc.IH(2) by blast
    then have "u @ w \<in> lang (Conc a b)" "t \<in> set (u @ w)" using uv(1) by (auto simp: lconc_def)
    then show ?thesis by blast
  qed
  moreover have "u @ v \<in> lang (Conc a b)" using uv by (auto simp: lconc_def)
  ultimately show ?case by blast
next
  case (Star a)
  then show ?case using in_lpow_1(1)[of _ "lang a"] by (simp, blast)
next
  case (Plus a)
  then show ?case using in_lpow_1(2)[of _ "lang a"] by (simp, blast)
qed auto

lemma post_leaf: "t \<in> set (post r) \<Longrightarrow> is_leaf t \<Longrightarrow> t \<in> leaf_toks r"
  by (induction r) (auto simp: is_leaf_def)

lemma lpow_letters: "\<forall>w \<in> A. set w \<subseteq> S \<Longrightarrow> w \<in> lpow A n \<Longrightarrow> set w \<subseteq> S"
proof (induction n arbitrary: w)
  case (Suc n)
  then obtain u v where "w = u @ v" "u \<in> A" "v \<in> lpow A n" by (auto simp: lconc_def)
  then show ?case using Suc.IH[of v] Suc.prems(1) by simp
qed simp

text \<open>The words of the language of a phrase are made of its characters and classes.\<close>

lemma grammar_letters:
  "g_atom ls L \<Longrightarrow> \<forall>w \<in> L. set w \<subseteq> {t \<in> fst ` set ls. is_leaf t}"
  "g_closure e ls L \<Longrightarrow> \<forall>w \<in> L. set w \<subseteq> {t \<in> fst ` set ls. is_leaf t}"
  "g_branch e ls L \<Longrightarrow> \<forall>w \<in> L. set w \<subseteq> {t \<in> fst ` set ls. is_leaf t}"
  "g_regexp ls L \<Longrightarrow> \<forall>w \<in> L. set w \<subseteq> {t \<in> fst ` set ls. is_leaf t}"
proof (induction rule: g_atom_g_closure_g_branch_g_regexp.inducts)
  case (6 e ls L x)
  then show ?case using lpow_letters[OF 6(2)] by (fastforce simp: lstar_def)
next
  case (7 e ls L x)
  then show ?case using lpow_letters[OF 7(2)] by (fastforce simp: lplus_def simp del: lpow.simps)
next
  case (8 e ls L m n)
  then show ?case using lpow_letters[OF 8(2)] by (fastforce simp: lrep_def)
next
  case (10 e ls L ls' L')
  then show ?case by (fastforce simp: lconc_def)
qed fastforce+

text \<open>The lexemes of a pattern without contexts and back-references; the classes are those that \<open>lex\<close> made, none of them empty.\<close>

definition plain_tok :: "charclass list \<Rightarrow> token \<Rightarrow> bool" where
  "plain_tok ccs t \<longleftrightarrow>
     (case t of
        BYTE _ \<Rightarrow> True
      | CSET n \<Rightarrow> n < length ccs \<and> class_ok (ccs ! n) \<and> list_ex (\<lambda>i. tstbit i (ccs ! n)) [0..<NOTCHAR]
      | _ \<Rightarrow> \<not> is_leaf t)"

definition spells :: "charclass list \<Rightarrow> token list set \<Rightarrow> u8 list \<Rightarrow> bool" where
  "spells ccs L w \<longleftrightarrow> (\<exists>ts \<in> L. list_all2 (\<lambda>t c. c \<in> tok_chars ccs t) ts w)"

definition match_ends :: "charclass list \<Rightarrow> token list set \<Rightarrow> u8 list \<Rightarrow> nat \<Rightarrow> bool" where
  "match_ends ccs L text p \<longleftrightarrow> (\<exists>i \<le> p. spells ccs L (drop i (take p text)))"

lemma nonempty_class: "list_ex (\<lambda>i. tstbit i c) [0..<NOTCHAR] \<Longrightarrow> chars c \<noteq> {}"
proof -
  assume "list_ex (\<lambda>i. tstbit i c) [0..<NOTCHAR]"
  then obtain i where i: "i < 256" "tstbit i c" by (auto simp: list_ex_iff NOTCHAR_def)
  then have "unat (word_of_nat i :: u8) = i" by (simp add: unat_of_nat)
  then have "word_of_nat i \<in> chars c" using i(2) by (simp add: chars_def)
  then show ?thesis by blast
qed

lemma plain_tree_of_lexemes:
  assumes "g_regexp ls (lang r)" "\<forall>l \<in> set ls. plain_tok ccs (fst l)"
  shows "plain_tree r" "CSET n \<in> set (post r) \<Longrightarrow> n < length ccs \<and> class_ok (ccs ! n) \<and> chars (ccs ! n) \<noteq> {}"
    "t \<in> leaf_toks r \<Longrightarrow> \<not> is_end t"
proof -
  have l: "is_leaf t \<and> plain_tok ccs t" if "t \<in> leaf_toks r" for t
    using that leaf_in_lang[of r] grammar_letters(4)[OF assms(1)] assms(2) by fastforce
  moreover have "is_leaf t \<Longrightarrow> plain_tok ccs t \<Longrightarrow> plain_leaf t \<and> \<not> is_end t" for t
    by (cases t) (simp_all add: plain_tok_def plain_leaf_def is_leaf_def is_end_def)
  ultimately show "plain_tree r" "t \<in> leaf_toks r \<Longrightarrow> \<not> is_end t" by (auto simp: plain_tree_leaves)
  assume "CSET n \<in> set (post r)"
  then have "plain_tok ccs (CSET n)" using l[of "CSET n"] post_leaf[of "CSET n" r] by (simp add: is_leaf_def)
  then show "n < length ccs \<and> class_ok (ccs ! n) \<and> chars (ccs ! n) \<noteq> {}" using nonempty_class by (simp add: plain_tok_def)
qed

lemma dfacomp_plain:
  assumes "lexed ls" "balanced ls" "\<forall>l \<in> set ls. plain_tok ccs (fst l)"
  shows "\<exists>d r. dfacomp ls ccs True = Parsed (Some d) \<and> g_regexp ls (lang r) \<and> tokens d = post (end_tree 0 r) \<and> charclasses d = ccs \<and>
    plain_dfa d (leaf_positions 0 (end_tree 0 r)) (set (first_of 0 (end_tree 0 r))) (follow_of 0 (end_tree 0 r))"
proof -
  obtain t where t: "dfaparse ls dfainit = Parsed t" using dfaparse_ok[OF assms(1)] assms(2) by (cases "dfaparse ls dfainit") auto
  obtain r where r: "leaves_ok r" "g_regexp ls (lang r)" "tokens t = post (end_tree 0 r)" "height (end_tree 0 r) \<le> max_depth t"
    "leaves (end_tree 0 r) \<le> nleaves t" using dfaparse_ok[OF assms(1)] t by auto
  define e where "e = end_tree 0 r"
  let ?P = "leaf_positions 0 e" and ?F = "set (first_of 0 e)" and ?R = "follow_of 0 e"
  define d0 where "d0 = parse_tree.extend t \<lparr>charclasses = ccs, searchflag = False, states = [], follows = []\<rparr>"
  have d0: "tokens d0 = post e" "max_depth d0 = max_depth t" "nleaves d0 = nleaves t" "charclasses d0 = ccs"
    using r(3) by (simp_all add: d0_def parse_tree.extend_def e_def)
  have e: "leaves_ok e" "plain_tree e" using r(1) plain_tree_of_lexemes(1)[OF r(2) assms(3)] by (simp_all add: e_def end_tree_def is_end_def plain_leaf_def)
  obtain d1 where d1: "dfaanalyze True d0 = map_option snd (state_index d1 (aset ?F) False False)"
    "d1 = d0\<lparr>searchflag := True, states := [], follows := map (\<lambda>p. pset (?R `` {p})) [0..<length (tokens d0)]\<rparr>"
    using dfaanalyze_plain[of d0 e True] d0 e r(4,5) unfolding e_def[symmetric] by auto
  have P: "finite ?P" "?P \<subseteq> {..<length (post e)}" "?F \<subseteq> ?P" "?R \<subseteq> ?P \<times> ?P" "card ?P \<le> nleaves d0"
    using leaf_positions_bounds[of 0 e] first_last_positions(1) follow_positions card_leaf_positions r(5) d0 by (auto simp: e_def)
  have "states_ok ?P d1" using P d0 d1(2) by (simp add: states_ok_def)
  from state_index_ok[OF this, of "aset ?F" False False] P(3) obtain i d where s: "state_index d1 (aset ?F) False False = Some (i, d)"
    "i < length (states d)" "key_of (states d ! i) = (aset ?F, False, False)" "more_states d1 d" "states_ok ?P d"
    using finite_subset[OF P(3,1)] by auto
  have i: "i = 0" using s(1) d1(2) by (auto simp: state_index_def Let_def bind_eq_Some_conv)
  note m = more_states_same[OF s(4)]
  have pl: "\<forall>p \<in> ?P. plain_leaf (post e ! p)" using plain_positions[OF e(2), of 0 "post e"] by simp
  have f: "index ` set f \<subseteq> ?P" if "f \<in> set (follows d)" for f
  proof -
    from that obtain p where "f = pset (?R `` {p})" using m d1(2) by auto
    moreover have "?R `` {p} \<subseteq> ?P" using P(4) by auto
    ultimately show ?thesis using finite_subset[OF _ P(1)] by auto
  qed
  have cs: "n < length ccs \<and> class_ok (ccs ! n) \<and> chars (ccs ! n) \<noteq> {}" if "CSET n \<in> set (post e)" for n
    using that plain_tree_of_lexemes(2)[OF r(2) assms(3)] by (auto simp: e_def end_tree_def)
  have "dfa_ok ?P d" using s P m d0 d1(2) f cs by (auto simp: dfa_ok_def)
  moreover have "Range ?R \<subseteq> ?P" using P(4) by blast
  ultimately have "plain_dfa d ?P ?F ?R" using s(3) i P m d0 d1(2) pl by (simp add: plain_dfa_def)
  moreover have "dfacomp ls ccs True = Parsed (Some d)" using t d1(1) s(1) by (simp add: dfacomp_def d0_def)
  ultimately show ?thesis using r(2) m d0 d1(2) by (auto simp: e_def)
qed

text \<open>The matcher accepts where a string of the language ends.\<close>

lemma bex_unique: "(\<And>q. q \<in> A \<Longrightarrow> Q q \<longleftrightarrow> q = a) \<Longrightarrow> (\<exists>q \<in> A. Q q) \<longleftrightarrow> a \<in> A"
  by blast

lemma end_position:
  assumes "\<forall>t \<in> leaf_toks r. \<not> is_end t" "q \<in> leaf_positions 0 (end_tree 0 r)"
  shows "is_end (post (end_tree 0 r) ! q) \<longleftrightarrow> q = tsize r"
proof (cases "q \<in> leaf_positions 0 r")
  case True
  then have "post (end_tree 0 r) ! q \<in> leaf_toks r"
    using leaf_positions_toks[of r 0 "post (end_tree 0 r)" q] by (simp add: end_tree_def)
  moreover have "q < tsize r" using True leaf_positions_bounds[of 0 r] by auto
  ultimately show ?thesis using assms(1) by auto
next
  case False
  then have "q = tsize r" using assms(2) by (simp add: end_tree_def)
  then show ?thesis by (simp add: end_tree_def is_end_def nth_append)
qed

lemma leads_to_end: "leads_to (set (first_of 0 (end_tree 0 r))) (follow_of 0 (end_tree 0 r)) w (tsize r) \<longleftrightarrow> w \<in> pos_lang 0 r"
proof -
  let ?e = "end_tree 0 r"
  have "w @ [tsize r] \<in> pos_lang 0 ?e \<longleftrightarrow> w \<in> pos_lang 0 r" by (auto simp: end_tree_def lconc_def)
  moreover have "w @ [tsize r] \<in> local_words (null_tree ?e) (set (first_of 0 ?e)) (set (last_of 0 ?e)) (follow_of 0 ?e) \<longleftrightarrow>
    leads_to (set (first_of 0 ?e)) (follow_of 0 ?e) w (tsize r)"
    by (subst in_local) (auto simp: leads_to_def end_tree_def)
  ultimately show ?thesis using pos_lang_local[of 0 ?e] by simp
qed

lemma accepts_at_match:
  assumes d: "plain_dfa d (leaf_positions 0 (end_tree 0 r)) (set (first_of 0 (end_tree 0 r))) (follow_of 0 (end_tree 0 r))"
    and r: "\<forall>t \<in> leaf_toks r. \<not> is_end t" "plain_tree r" "tokens d = post (end_tree 0 r)" "charclasses d = ccs"
    and p: "p \<le> length text"
  shows "accepts_at d (text @ [eolbyte]) p \<longleftrightarrow> match_ends ccs (lang r) text p"
proof -
  let ?e = "end_tree 0 r" and ?C = "\<lambda>q. tok_chars ccs (post (end_tree 0 r) ! q)"
  let ?S = "reach (set (first_of 0 ?e)) (follow_of 0 ?e) ?C (text @ [eolbyte]) p"
  have S: "?S \<subseteq> leaf_positions 0 ?e" by (rule reach_bounds) (use d in \<open>auto simp: plain_dfa_def\<close>)
  have "accepts_at d (text @ [eolbyte]) p \<longleftrightarrow> (\<exists>q \<in> ?S. is_end (post ?e ! q))"
    using accepts_at_plain(1)[OF d, of p "text @ [eolbyte]"] p by (simp add: r)
  also have "\<dots> \<longleftrightarrow> tsize r \<in> ?S"
    by (rule bex_unique, rule end_position[OF r(1)]) (rule subsetD[OF S])
  also have "\<dots> \<longleftrightarrow> (\<exists>i \<le> p. \<exists>w. list_all2 (\<lambda>j c. c \<in> ?C j) w (drop i (take p text)) \<and> w \<in> pos_lang 0 r)"
    using p by (simp add: reach_words leads_to_end)
  also have "\<dots> \<longleftrightarrow> match_ends ccs (lang r) text p"
  proof -
    have "is_leaf BACKREF" "\<not> plain_leaf BACKREF" by (simp_all add: is_leaf_def plain_leaf_def)
    then have "BACKREF \<notin> set (post r)" using post_leaf[of BACKREF r] r(2) plain_tree_leaves[of r] by blast
    then have "lang r = map ((!) (post ?e)) ` pos_lang 0 r"
      using lang_pos_lang[of r 0 "post ?e"] by (simp add: end_tree_def)
    then show ?thesis by (auto simp: match_ends_def spells_def list_all2_map1)
  qed
  finally show ?thesis .
qed

text \<open>C6: For a pattern of characters and classes, with whatever operators and parentheses, the automaton finds the first place of the text
  where a string of the language of the pattern ends, and finds none if there is none.
\<close>

theorem dfa_finds_first_match:
  assumes "lexed ls" "balanced ls" "\<forall>l \<in> set ls. plain_tok ccs (fst l)"
  shows "\<exists>d L. dfacomp ls ccs True = Parsed (Some d) \<and> g_regexp ls L \<and>
    (\<forall>xs. \<exists>c m. dfaexec (matcher_of d) xs True =
       Some (find (match_ends ccs L xs) [0..<length xs + 1],
             map_option (\<lambda>_. False) (find (match_ends ccs L xs) [0..<length xs + 1]), c, m))"
proof -
  from dfacomp_plain[OF assms] obtain d r where d: "dfacomp ls ccs True = Parsed (Some d)" "g_regexp ls (lang r)"
    "tokens d = post (end_tree 0 r)" "charclasses d = ccs"
    "plain_dfa d (leaf_positions 0 (end_tree 0 r)) (set (first_of 0 (end_tree 0 r))) (follow_of 0 (end_tree 0 r))" by blast
  note r = plain_tree_of_lexemes(1,3)[OF d(2) assms(3)]
  have "\<exists>c m. dfaexec (matcher_of d) xs True = Some (find (match_ends ccs (lang r) xs) [0..<length xs + 1],
      map_option (\<lambda>_. False) (find (match_ends ccs (lang r) xs) [0..<length xs + 1]), c, m)" for xs
    using accepts_at_match[OF d(5) _ r(1) d(3,4)] r(2) by (intro dfaexec_plain[OF d(5)]) auto
  then show ?thesis using d(1,2) by blast
qed

lemma dfa_finds_first_match_witness:
  "\<exists>d L. dfacomp [(LPAREN, 0, 0), (BYTE 97, 0, 0), (OR', 0, 0), (CSET 0, 0, 0), (RPAREN, 0, 0), (REPMN, 1, -1), (BYTE 99, 0, 0)] [setbit 98 zeroset] True = Parsed (Some d) \<and>
    g_regexp [(LPAREN, 0, 0), (BYTE 97, 0, 0), (OR', 0, 0), (CSET 0, 0, 0), (RPAREN, 0, 0), (REPMN, 1, -1), (BYTE 99, 0, 0)] L \<and>
    (\<forall>text. \<exists>c m. dfaexec (matcher_of d) text True =
       Some (find (match_ends [setbit 98 zeroset] L text) [0..<length text + 1],
             map_option (\<lambda>_. False) (find (match_ends [setbit 98 zeroset] L text) [0..<length text + 1]), c, m))"
proof (rule dfa_finds_first_match)
  show "\<forall>l \<in> set [(LPAREN, 0 :: nat, 0 :: int), (BYTE 97, 0, 0), (OR', 0, 0), (CSET 0, 0, 0), (RPAREN, 0, 0), (REPMN, 1, -1), (BYTE 99, 0, 0)].
    plain_tok [setbit 98 zeroset] (fst l)"
    by code_simp
qed code_simp+

text \<open>For \<open>(a|^)*\<close> and \<open>(a|^|$)*\<close> the sets of positions grow beyond their arrays: \<open>Dfa_Sets\<close> shows why.\<close>

theorem epsclosure_overflows:
  "dfacomp [(LPAREN, 0, 0), (BYTE 97, 0, 0), (OR', 0, 0), (BEGLINE, 0, 0), (RPAREN, 0, 0), (STAR, 0, 0)] [] True = Parsed None \<and>
   dfacomp [(LPAREN, 0, 0), (BYTE 97, 0, 0), (OR', 0, 0), (BEGLINE, 0, 0), (OR', 0, 0), (ENDLINE, 0, 0), (RPAREN, 0, 0), (STAR, 0, 0)] [] True
     = Parsed None"
  by code_simp

definition anchored :: "u8 \<Rightarrow> dfa" where
  "anchored b = \<lparr>tokens = [BEGLINE, BEGWORD, OR', BYTE b, CAT, TEND 0, CAT], max_depth = 2, nleaves = 4, nregexps = 1, charclasses = [],
     searchflag = True,
     states = [\<lparr>hash = 258, elems = [\<lparr>index = 3, constraint = 255\<rparr>], newline = False, letter = False, backref = False, st_constraint = 0, first_end = None\<rparr>],
     follows = [[\<lparr>index = 3, constraint = 255\<rparr>], [\<lparr>index = 3, constraint = 255\<rparr>], [], [\<lparr>index = 5, constraint = 255\<rparr>], [], [], []]\<rparr>"

lemma dfacomp_anchored:
  "dfacomp [(LPAREN, 0, 0), (BEGLINE, 0, 0), (OR', 0, 0), (BEGWORD, 0, 0), (RPAREN, 0, 0), (BYTE b, 0, 0)] [] True = Parsed (Some (anchored b))"
  by code_simp

lemma plain_anchored: "plain_dfa (anchored b) {3, 5} {3} {(3, 5), (0, 3), (1, 3)}"
proof -
  have "made (tokens (anchored b)) (states (anchored b) ! 0)" by code_simp
  moreover have "aset {3} = [\<lparr>index = 3, constraint = 255\<rparr>]" by (simp add: aset_mkp mkp_def NO_CONSTRAINT_def)
  moreover have "pset {3} = [\<lparr>index = 3, constraint = 255\<rparr>]" "pset {5} = [\<lparr>index = 5, constraint = 255\<rparr>]"
    by (simp_all add: pset_def mkp_def NO_CONSTRAINT_def)
  ultimately show ?thesis
    by (simp add: plain_dfa_def dfa_ok_def states_ok_def anchored_def ascending_def key_of_def upt_rec plain_leaf_def Image_def)
qed

text \<open>C40: For a byte after the start of a line or the start of a word (\<open>BEGLINE\<close> or \<open>BEGWORD\<close> in parentheses, then the byte) the
  two constraints are joined to no constraint: the automaton finds every such byte, also in the middle of a word and of a line.
\<close>

theorem joined_constraints_are_lost:
  "dfacomp [(LPAREN, 0, 0), (BEGLINE, 0, 0), (OR', 0, 0), (BEGWORD, 0, 0), (RPAREN, 0, 0), (BYTE b, 0, 0)] [] True = Parsed (Some (anchored b)) \<and>
   (\<forall>text. \<exists>c m. dfaexec (matcher_of (anchored b)) text True =
      Some (find (\<lambda>p. p \<noteq> 0 \<and> text ! (p - 1) = b) [0..<length text + 1],
            map_option (\<lambda>_. False) (find (\<lambda>p. p \<noteq> 0 \<and> text ! (p - 1) = b) [0..<length text + 1]), c, m))"
proof (rule conjI[OF dfacomp_anchored], rule allI)
  fix xs :: "u8 list"
  have "accepts_at (anchored b) (xs @ [eolbyte]) p \<longleftrightarrow> p \<noteq> 0 \<and> xs ! (p - 1) = b" if "p \<le> length xs" for p
  proof -
    let ?S = "reach {3} {(3, 5), (0, 3), (1, 3)} (\<lambda>q. tok_chars (charclasses (anchored b)) (tokens (anchored b) ! q)) (xs @ [eolbyte])"
    have S: "?S q \<subseteq> {3, 5}" "3 \<in> ?S q" for q by (cases q; auto)+
    have "5 \<in> ?S p \<longleftrightarrow> p \<noteq> 0 \<and> xs ! (p - 1) = b"
      using that S(2) by (cases p) (auto simp: anchored_def tok_chars_def nth_append)
    moreover have "is_end (tokens (anchored b) ! q) \<longleftrightarrow> q = 5" if "q \<in> {3, 5}" for q
      using that by (auto simp: anchored_def is_end_def)
    then have "(\<exists>q \<in> ?S p. is_end (tokens (anchored b) ! q)) \<longleftrightarrow> 5 \<in> ?S p" by (rule bex_unique) (rule subsetD[OF S(1)])
    moreover have "accepts_at (anchored b) (xs @ [eolbyte]) p \<longleftrightarrow> (\<exists>q \<in> ?S p. is_end (tokens (anchored b) ! q))"
      by (rule accepts_at_plain(1)[OF plain_anchored]) (use that in simp)
    ultimately show ?thesis by (simp only:)
  qed
  then show "\<exists>c m. dfaexec (matcher_of (anchored b)) xs True =
      Some (find (\<lambda>p. p \<noteq> 0 \<and> xs ! (p - 1) = b) [0..<length xs + 1],
            map_option (\<lambda>_. False) (find (\<lambda>p. p \<noteq> 0 \<and> xs ! (p - 1) = b) [0..<length xs + 1]), c, m)"
    by (rule dfaexec_plain[OF plain_anchored])
qed

lemma dfastate_ok_witness:
  "\<exists>tab d'. dfastate 0 (anchored 97) = Some (tab, d') \<and> more_states (anchored 97) d' \<and> dfa_ok {3, 5} d' \<and> length tab = NOTCHAR \<and>
    (\<forall>c. let es = matching (anchored 97) (key_of (states (anchored 97) ! 0)) c in
       if es = [] \<and> \<not> searchflag (anchored 97) then tab ! unat c = -1 else entry_ok d' tab c (key_after (anchored 97) es c))"
proof (rule dfastate_ok)
  show "dfa_ok {3, 5} (anchored 97)" using plain_anchored[of 97] by (simp add: plain_dfa_def)
qed (simp add: anchored_def)

end
