(* ===== verification/Spec2Isabelle.thy ===== *)
theory Spec2Isabelle
  imports Prelude Interfaces Circular_List Shell Cpu Ssfs Div_Trace Alloc_Dude Alloc_Memory Alloc_Luke Alloc_Buddy
    Awk_Node Awk_Sort Regex_Sets Awk_Split Awk_Escape Awk_Sub Awk_Random Awk_Input Dfa_Match
begin

text \<open>
  A verification development for the course repository \<open>edaf35\<close>: four laboratory programs in C (a shell, a machine
  with paged memory, a file system, an instruction tracer) and a project, memory allocators that were tried by linking
  them to \<open>gawk 3.1.8\<close>, whose source is part of the repository.

  \<^bold>\<open>Parts and how they interact.\<close>

  \<^item> The shell (\<open>lab1/sh.c\<close>) reads a line into \<open>input_buf\<close> (\<open>fetch_line\<close>), cuts it into tokens that
    it copies to \<open>token_buf\<close> (\<open>gettoken\<close>), collects the words of a command in \<open>argv\<close> (\<open>parse_line\<close>)
    and runs it (\<open>run_program\<close>); it keeps the directories of \<open>PATH\<close> in a circular list (\<open>lab1/list.c\<close>).
  \<^item> The machine (\<open>lab2/machine.c\<close>) loads an assembly program (\<open>read_program\<close>) and executes it (\<open>run\<close>) on a
    memory of 8 page frames with swap; \<open>translate\<close> and \<open>pagefault\<close> call a replacement policy through a pointer.
  \<^item> The file system (\<open>lab3/ssfs.c\<close>) handles FUSE requests on a disk with one block for the map, one for the
    directory and one word per block in the map (\<open>lab3/fs_support.c\<close>).
  \<^item> The tracer (\<open>lab4/main.c\<close>) zeroes the divide instructions of a stopped child, keeps them in a hash table
    (\<open>lab4/instr_table.c\<close>) and executes them one by one when the child stops.
  \<^item> The allocators (\<open>project/dude.c\<close>, \<open>memory.c\<close>, \<open>mem_luke.c\<close>, \<open>buddy.c\<close>) take their memory from
    \<open>sbrk\<close>.
  \<^item> Of gawk: comparison of values (\<open>eval.c\<close>), numbers and constants from strings (\<open>node.c\<close>, and how the profiler prints
    constants), the associative arrays with their two hash functions and \<open>asort\<close> (\<open>array.c\<close>), reading records from a file
    (\<open>io.c\<close>), cutting them into fields, and assigning fields and \<open>NF\<close> (\<open>field.c\<close>, \<open>eval.c\<close>), \<open>split\<close>,
    \<open>sub\<close>, \<open>gsub\<close> and \<open>gensub\<close> (\<open>builtin.c\<close>), \<open>rand\<close> and \<open>srand\<close> with their generator
    (\<open>random.c\<close>), the node sets of the matcher of regular expressions (\<open>regex_internal.c\<close>), and the deterministic
    automaton that searches a text before that matcher does (\<open>dfa.c\<close>): \<open>dfacomp\<close> parses a pattern into a tree in postfix
    form (\<open>dfaparse\<close>), computes which positions of the tree can follow each other and the first state (\<open>dfaanalyze\<close>), and
    \<open>dfaexec\<close> runs over a text with tables that \<open>build_state\<close> and \<open>dfastate\<close> make when they are needed.  A record that
    \<open>io.c\<close> reads is the text that \<open>set_record\<close> stores; a field parser hands each field to a function, which stores it in
    \<open>$i\<close> or, for \<open>split\<close>, in an array.

  \<^bold>\<open>How the program is modelled.\<close>  A struct is a record with the fields of the source, an enum a datatype, an
  integer whose width matters a word.  State is passed explicitly.  \<open>None\<close> stands for undefined behaviour (an access out
  of bounds, through \<open>NULL\<close> or to freed memory, a cell that was never written) and for a failed assertion, so that
  every lemma with a result \<open>Some\<close> also says that none of this happens.  A loop is a recursive function; where it may not
  end it is a partial function, and its lemmas prove that it does.  Errors the code reports are values.

  \<^bold>\<open>Theories.\<close>

  \<^item> \<open>Prelude\<close>: word types, bounded arrays (\<open>rd_at\<close>, \<open>wr_at\<close>), sizes kept in an \<open>int\<close> (\<open>as_int\<close>) and their lemmas.
  \<^item> \<open>Interfaces\<close>: the locales \<open>growing_list\<close> (what the shell needs of the list) and \<open>string_hash\<close> (what an
    associative array needs of its hash function).  Other interfaces stand with their provider: \<open>program_memory\<close> and
    \<open>replacement_policy\<close> in \<open>Paging\<close>, \<open>raw_disk\<close> in \<open>Ssfs\<close>, \<open>address_table\<close> in \<open>Instr_Table\<close>,
    \<open>block_list\<close> and \<open>allocator\<close> in \<open>Brk_Heap\<close>, \<open>field_parser\<close> (what a field parser promises to
    the record) in \<open>Awk_Parse\<close>, and \<open>record_scanner\<close> (what the input loop needs of a scanning function) in \<open>Awk_Records\<close>.
  \<^item> \<open>Circular_List\<close>: every function of \<open>list.c\<close> over a heap of cells with \<open>malloc\<close> and \<open>free\<close>.
    Any sequence of calls on a list behaves as on a plain list, leaks nothing, and leaves other lists as they are.
  \<^item> \<open>Shell_Lexer\<close>, \<open>Shell\<close>: reader, tokenizer and commands.  A line is parsed into the tokens of an abstract
    lexer and does what interpreting them does, within the buffers; the search path is cut at the colons and searched in
    order; the stages of a pipeline are connected.  The calls of the operating system are a parameter (\<open>os\<close>): whether a
    file exists, can be read, can be executed, and whether \<open>fork\<close> succeeds.
  \<^item> \<open>Machine_Isa\<close>, \<open>Paging\<close>, \<open>Cpu\<close>: instruction words, memory, processor and assembler.  Paging keeps every
    word of the virtual memory through faults, evictions and swapping under both policies, which always find a frame (the second
    chance algorithm the first one that was not referenced), and a program runs as on a flat memory.  The swap space has 128 pages that are never freed, so the theorems bound the pages a
    program touches (\<open>fits\<close>); beyond that the assertion in \<open>new_swap_page\<close> fails.
  \<^item> \<open>Fs_Support\<close>, \<open>Ssfs\<close>: block chains, directory, and every handler of \<open>ssfs.c\<close>.  \<open>consistent\<close> says
    that the chains of the files and the free list are disjoint and that the directory has no gap; creating, writing, removing
    and renaming keep it and change the files as they should.  The disk (\<open>rawdisk.h\<close> is not in the repository) is a
    parameter with the law that a block read is the block written.
  \<^item> \<open>Instr_Table\<close>, \<open>Div_Trace\<close>: the hash table of instructions and the tracer; \<open>ptrace\<close> and \<open>waitpid\<close> are
    parameters, whose documented behaviour is the hypothesis \<open>tracee\<close>: reading and setting words of the text and reading registers,
    a single step, and running to the next illegal word or to the end.  Under it a program ends in the state in which it ends without the
    tracer, and the histogram counts exactly the divides it executes there; these are the words of the processor's manual (\<open>ppc_divw\<close>).
  \<^item> \<open>Brk_Heap\<close>, \<open>Alloc_Dude\<close>, \<open>Alloc_Memory\<close>, \<open>Alloc_Luke\<close>, \<open>Alloc_Buddy\<close>: the data segment and the
    four allocators.  A header is an entry of a map from addresses, and writing bytes over it destroys it.  The locale \<open>allocator\<close>
    promises that a block has the size that was asked for, that live blocks are apart, and how much of the data segment a request takes.
  \<^item> \<open>Awk_Node\<close>, \<open>Awk_Hash\<close>, \<open>Awk_Array\<close>, \<open>Awk_Sort\<close>: values, hash functions, tables and sorting.  A table
    refines a finite map through insertion, deletion and growing, for every hash function that keeps the law of
    \<open>string_hash\<close>; \<open>asort\<close> leaves the sorted values under 1, 2 and so on.
  \<^item> \<open>Awk_Parse\<close>, \<open>Awk_Fields\<close>, \<open>Awk_Split\<close>: the six parsers of fields, the record whose fields are cut and put together
    when they are needed, and \<open>split\<close>.  Whatever the order of the operations, the fields are those of the record, and the
    record is the fields joined by \<open>OFS\<close> after an assignment.  The matcher of regular expressions is a parameter.
  \<^item> \<open>Awk_Value\<close>, \<open>Awk_Escape\<close>: the numbers and the constants that a text stands for.  \<open>strtod\<close> and the arithmetic of
    doubles are parameters.  The constant the profiler prints is read back as the string.
  \<^item> \<open>Awk_Sub\<close>: substitution in a buffer whose size is computed in advance.  It yields the pieces between the matches with the
    replacement for each match, and stays in the buffer, but for a replacement of \<open>gensub\<close> that ends in a backslash.  The variables of
    type \<open>int\<close> are kept in range, so that the theorems bound the lengths of the texts by \<open>2^31\<close>.
  \<^item> \<open>Awk_Records\<close>, \<open>Awk_Input\<close>: the buffer of an input file, the three functions that scan it for the end of a record, and
    the loop that reads the records of a file.  With a character or with the empty string as \<open>RS\<close> the records do not depend on the
    size of the buffer and on how the file arrives in it; \<open>read\<close> is a list of answers, and the matcher of an \<open>RS\<close> that is a
    regular expression a parameter.
  \<^item> \<open>Awk_Random\<close>: the additive feedback generator, its state arrays, and \<open>rand\<close> and \<open>srand\<close>.  Each array carries a
    generator of its own.
  \<^item> \<open>Regex_Sets\<close>: node sets are ascending arrays, and the merging in place of two of them is a union.
  \<^item> \<open>Dfa_Sets\<close>, \<open>Dfa_Parse\<close>, \<open>Dfa_Positions\<close>, \<open>Dfa_Analyze\<close>, \<open>Dfa_Tables\<close>, \<open>Dfa_States\<close>, \<open>Dfa_Exec\<close>,
    \<open>Dfa_Match\<close>: the automaton.  The parser follows the grammar, and the fuel of its recursion, four times the number of tokens, is
    enough; the sets of the analysis are those of the positions of the tree, which describe its language; a table leads to the state
    of the matching positions' follows, in each context; the loop of \<open>dfaexec\<close> ends at the first place where the state accepts,
    whatever tables exist.  Together: for patterns of characters and classes the first place where a string of the language ends is
    found.  Character classes are lists of 8 words, and a state is its positions and the context before it (\<open>key_of\<close>).

  \<^bold>\<open>Properties.\<close>  The theorems with a number are the results; each is stated over the definitions of the code, with an
  instance where its hypotheses hold.  Many are refinements of an abstract model (lists, maps, a flat memory, files as byte
  strings, sets), the others invariants, round trips, termination and behaviour of single operations.  A last group states
  what the code does in cases where it does not do what it means to: these theorems hold of the code as it is.

  \<^bold>\<open>Not modelled.\<close>  Output and printing.  \<open>fs_support.c\<close>'s options and its call of FUSE, and \<open>main\<close> of the tracer up
  to the \<open>fork\<close>.  The bytes of the allocators' headers, apart from where they are destroyed.  Of gawk: the parser
  (generated), the interpreter over the syntax tree, reference counts, opening and closing files, pipes and redirections,
  \<open>printf\<close>, time and the other built-in functions, the backtracking matcher, and the lexer of patterns (the parser of the
  automaton starts with its tokens); multibyte locales; failing allocation where
  the program ends with a message.
  Nothing is claimed of numbers outside of the bounds a theorem names, such as sizes near \<open>2 ^ 64\<close>.  The \<open>int\<close> in which
  \<open>set_record\<close> and \<open>get_a_record\<close> hold the length of a record, and those in the node sets and the automaton, are taken to be large
  enough: records and expressions are shorter than \<open>2^31\<close>.  \<open>RT\<close> is modelled as it is set outside of the traditional mode, which has none;
  \<open>cmp_nodes\<close> without its test for the same node, which matters for a NaN alone; \<open>dfaexec\<close> as gawk calls it, with a place for the
  count.
\<close>

end
